(* ===== verification/Sr_Prelude.thy ===== *)
theory Sr_Prelude
  imports Main
begin

text \<open>
  Shared vocabulary of the SkillRanker development.

  \<^item> Machine integers. The source counts in \<open>u32\<close>, \<open>u64\<close>, \<open>usize\<close> and
    \<open>i64\<close>, and almost everywhere uses \<open>saturating_add\<close>, \<open>checked_add\<close> or a
    guard. They are modelled as \<open>nat\<close> (\<open>int\<close> for \<open>i64\<close>) with the width
    written out in each operation; that every value stays inside its width is a
    lemma about the operations, never an assumption of the type.
  \<^item> \<open>result\<close>, the Rust \<open>Result\<close>: every early return and refusal of the code is
    an \<open>Err\<close> branch of its model.
  \<^item> Strings are lists of Unicode scalar values with their UTF-8 byte length, because
    the code distinguishes byte limits from scalar limits.
  \<^item> Two generic locales for stateful components: an operation that keeps an
    invariant keeps it along every run, and a counter that no operation lowers is
    monotone along every run.
\<close>

named_theorems u64_defs "definitions of the fixed-width operations"
named_theorems range_intros "facts that keep a value inside its machine width"

section \<open>Results\<close>

datatype ('a, 'e) result = Ok 'a | Err 'e

primrec is_ok :: "('a, 'e) result \<Rightarrow> bool" where
  "is_ok (Ok _) = True"
| "is_ok (Err _) = False"

primrec map_ok :: "('a \<Rightarrow> 'b) \<Rightarrow> ('a, 'e) result \<Rightarrow> ('b, 'e) result" where
  "map_ok f (Ok x) = Ok (f x)"
| "map_ok f (Err e) = Err e"

primrec and_then :: "('a, 'e) result \<Rightarrow> ('a \<Rightarrow> ('b, 'e) result) \<Rightarrow> ('b, 'e) result" where
  "and_then (Ok x) f = f x"
| "and_then (Err e) f = Err e"

section \<open>Fixed-width arithmetic\<close>

type_synonym u32 = nat
type_synonym u64 = nat
type_synonym usize = nat
type_synonym i64 = int

definition U32_MAX :: nat where
  "U32_MAX = 4294967295"

definition U64_MAX :: nat where
  "U64_MAX = 18446744073709551615"

definition USIZE_MAX :: nat where
  "USIZE_MAX = U64_MAX"

definition I64_MAX :: int where
  "I64_MAX = 9223372036854775807"

definition I64_MIN :: int where
  "I64_MIN = -9223372036854775808"

definition sat_add32 :: "u32 \<Rightarrow> u32 \<Rightarrow> u32" where
  [u64_defs]: "sat_add32 a b = min (a + b) U32_MAX"

definition sat_add64 :: "u64 \<Rightarrow> u64 \<Rightarrow> u64" where
  [u64_defs]: "sat_add64 a b = min (a + b) U64_MAX"

definition sat_sub :: "nat \<Rightarrow> nat \<Rightarrow> nat" where
  [u64_defs]: "sat_sub a b = (if a < b then 0 else a - b)"

definition checked_add64 :: "u64 \<Rightarrow> u64 \<Rightarrow> u64 option" where
  [u64_defs]: "checked_add64 a b = (if a + b \<le> U64_MAX then Some (a + b) else None)"

text \<open>
  A plain \<open>+\<close> on \<open>u64\<close> wraps in the release profile (the manifest of the crate sets no
  overflow checks) and panics in the debug profile.
\<close>

definition wrapping_add64 :: "u64 \<Rightarrow> u64 \<Rightarrow> u64" where
  [u64_defs]: "wrapping_add64 a b = (a + b) mod (U64_MAX + 1)"

definition wrapping_add32 :: "u32 \<Rightarrow> u32 \<Rightarrow> u32" where
  [u64_defs]: "wrapping_add32 a b = (a + b) mod (U32_MAX + 1)"

section \<open>Text\<close>

type_synonym scalar = nat
type_synonym str = "scalar list"

text \<open>The number of bytes UTF-8 uses for one scalar value.\<close>

definition utf8_len :: "scalar \<Rightarrow> nat" where
  "utf8_len c = (if c < 128 then 1 else if c < 2048 then 2 else if c < 65536 then 3 else 4)"

definition str_len :: "str \<Rightarrow> nat" where
  "str_len s = sum_list (map utf8_len s)"

text \<open>
  \<open>char::is_whitespace\<close> (the Unicode \<open>White_Space\<close> property), \<open>char::is_control\<close>
  (general category \<open>Cc\<close>) and \<open>str::trim\<close>. \<open>scalars\<close> reads an ASCII literal as text.
\<close>

definition is_whitespace :: "scalar \<Rightarrow> bool" where
  "is_whitespace c \<longleftrightarrow> 9 \<le> c \<and> c \<le> 13 \<or> c = 32 \<or> c = 133 \<or> c = 160 \<or> c = 5760
     \<or> 8192 \<le> c \<and> c \<le> 8202 \<or> c = 8232 \<or> c = 8233 \<or> c = 8239 \<or> c = 8287 \<or> c = 12288"

definition is_control :: "scalar \<Rightarrow> bool" where
  "is_control c \<longleftrightarrow> c \<le> 31 \<or> 127 \<le> c \<and> c \<le> 159"

definition trim_start :: "str \<Rightarrow> str" where
  "trim_start s = dropWhile is_whitespace s"

definition trim_str :: "str \<Rightarrow> str" where
  "trim_str s = rev (trim_start (rev (trim_start s)))"

definition scalars :: "string \<Rightarrow> str" where
  "scalars s = map of_char s"

section \<open>Lemmas on the shared vocabulary\<close>

lemma is_ok_iff: "is_ok r \<longleftrightarrow> (\<exists>x. r = Ok x)"
  by (cases r) auto

lemma map_ok_eq_Ok [simp]: "map_ok f r = Ok y \<longleftrightarrow> (\<exists>x. r = Ok x \<and> y = f x)"
  by (cases r) auto

lemma map_ok_eq_Err [simp]: "map_ok f r = Err e \<longleftrightarrow> r = Err e"
  by (cases r) auto

lemma and_then_eq_Ok [simp]:
  "and_then r f = Ok y \<longleftrightarrow> (\<exists>x. r = Ok x \<and> f x = Ok y)"
  by (cases r) auto

lemma sat_sub_eq [simp]: "sat_sub a b = a - b"
  by (simp add: sat_sub_def)

lemma sat_add64_le_max [range_intros]: "sat_add64 a b \<le> U64_MAX"
  by (simp add: sat_add64_def)

lemma sat_add32_le_max [range_intros]: "sat_add32 a b \<le> U32_MAX"
  by (simp add: sat_add32_def)

lemma wrapping_add64_le_max [range_intros]: "wrapping_add64 a b \<le> U64_MAX"
  by (simp add: wrapping_add64_def less_Suc_eq_le [symmetric])

lemma wrapping_add64_exact: "a + b \<le> U64_MAX \<Longrightarrow> wrapping_add64 a b = a + b"
  by (simp add: wrapping_add64_def)

lemma wrapping_add32_exact: "a + b \<le> U32_MAX \<Longrightarrow> wrapping_add32 a b = a + b"
  by (simp add: wrapping_add32_def)

lemma sat_add64_ge: "a \<le> U64_MAX \<Longrightarrow> a \<le> sat_add64 a b"
  by (simp add: sat_add64_def)

lemma sat_add64_le_sum: "sat_add64 a b \<le> a + b"
  by (simp add: sat_add64_def)

lemma sat_add64_exact: "a + b \<le> U64_MAX \<Longrightarrow> sat_add64 a b = a + b"
  by (simp add: sat_add64_def)

lemma sat_add32_exact: "a + b \<le> U32_MAX \<Longrightarrow> sat_add32 a b = a + b"
  by (simp add: sat_add32_def)

lemma checked_add64_Some [simp]:
  "checked_add64 a b = Some c \<longleftrightarrow> c = a + b \<and> a + b \<le> U64_MAX"
  by (auto simp: checked_add64_def)

lemma checked_add64_None [simp]: "checked_add64 a b = None \<longleftrightarrow> U64_MAX < a + b"
  by (auto simp: checked_add64_def)

lemma utf8_len_pos: "1 \<le> utf8_len c"
  by (simp add: utf8_len_def)

lemma scalars_append [simp]: "scalars (a @ b) = scalars a @ scalars b"
  by (simp add: scalars_def)

lemma scalars_inj [simp]: "scalars a = scalars b \<longleftrightarrow> a = b"
  by (auto simp: scalars_def inj_map_eq_map [OF inj_of_char])

lemma trim_str_no_outer_whitespace:
  "trim_str s = [] \<or> \<not> is_whitespace (hd (trim_str s)) \<and> \<not> is_whitespace (last (trim_str s))"
proof (cases "trim_str s = []")
  case False
  then have ne: "dropWhile is_whitespace (rev (dropWhile is_whitespace s)) \<noteq> []"
    by (simp add: trim_str_def trim_start_def)
  then have last: "\<not> is_whitespace (last (trim_str s))"
    using hd_dropWhile [OF ne] by (simp add: trim_str_def trim_start_def last_rev)
  have "\<exists>w. dropWhile is_whitespace s = trim_str s @ w"
    unfolding trim_str_def trim_start_def
    by (metis rev_append rev_rev_ident takeWhile_dropWhile_id)
  then obtain w where w: "dropWhile is_whitespace s = trim_str s @ w" by blast
  with False have "dropWhile is_whitespace s \<noteq> []" by simp
  from hd_dropWhile [OF this] have "\<not> is_whitespace (hd (trim_str s))"
    using w False by simp
  with last show ?thesis by simp
qed simp

text \<open>A string has at most as many scalar values as UTF-8 bytes.\<close>

lemma length_le_str_len: "length s \<le> str_len s"
proof (induction s)
  case Nil
  then show ?case by (simp add: str_len_def)
next
  case (Cons c s)
  then show ?case using utf8_len_pos [of c] by (simp add: str_len_def)
qed

section \<open>Runs of a component\<close>

text \<open>
  A stateful component is a function \<open>step\<close> from an operation and a state to the
  next state; a run folds it over a sequence of operations. \<open>machine_invariant\<close> is
  the contract of an invariant under the operations that satisfy \<open>allowed\<close>: its
  clients learn that it holds in every state of every run of such operations.
\<close>

primrec run :: "('o \<Rightarrow> 's \<Rightarrow> 's) \<Rightarrow> 'o list \<Rightarrow> 's \<Rightarrow> 's" where
  "run step [] s = s"
| "run step (x # xs) s = run step xs (step x s)"

lemma run_append [simp]: "run step (xs @ ys) s = run step ys (run step xs s)"
  by (induction xs arbitrary: s) simp_all

lemma run_idle: "(\<And>x. x \<in> set xs \<Longrightarrow> step x s = s) \<Longrightarrow> run step xs s = s"
  by (induction xs) simp_all

locale machine_invariant =
  fixes step :: "'o \<Rightarrow> 's \<Rightarrow> 's"
    and allowed :: "'o \<Rightarrow> bool"
    and inv :: "'s \<Rightarrow> bool"
  assumes step_inv: "inv s \<Longrightarrow> allowed x \<Longrightarrow> inv (step x s)"
begin

lemma run_inv: "inv s \<Longrightarrow> list_all allowed xs \<Longrightarrow> inv (run step xs s)"
  by (induction xs arbitrary: s) (simp_all add: step_inv)

end

text \<open>
  A counter that no operation lowers, under the invariant: along a run it only grows.
  \<open>room n s\<close> says that \<open>n\<close> more operations cannot wrap the counter's machine
  word; components whose counter refuses to wrap take \<open>room\<close> to be always true. The
  part of the state that only changes together with the counter is \<open>phase\<close>.
\<close>

locale machine_monotone = machine_invariant +
  fixes level :: "'s \<Rightarrow> nat"
    and room :: "nat \<Rightarrow> 's \<Rightarrow> bool"
    and phase :: "'s \<Rightarrow> 'p"
  assumes step_level:
      "inv s \<Longrightarrow> allowed x \<Longrightarrow> room (Suc n) s \<Longrightarrow> level s \<le> level (step x s)"
    and step_room: "inv s \<Longrightarrow> allowed x \<Longrightarrow> room (Suc n) s \<Longrightarrow> room n (step x s)"
    and step_phase: "inv s \<Longrightarrow> allowed x \<Longrightarrow> room (Suc n) s \<Longrightarrow>
      level (step x s) = level s \<Longrightarrow> phase (step x s) = phase s"
begin

lemma run_level_phase:
  "inv s \<Longrightarrow> list_all allowed xs \<Longrightarrow> room (length xs) s \<Longrightarrow>
     level s \<le> level (run step xs s)
   \<and> (level (run step xs s) = level s \<longrightarrow> phase (run step xs s) = phase s)"
proof (induction xs arbitrary: s)
  case Nil
  then show ?case by simp
next
  case (Cons x xs)
  then have x: "allowed x" and room: "room (Suc (length xs)) s"
    by simp_all
  note now = step_level [OF Cons.prems(1) x room] step_phase [OF Cons.prems(1) x room]
  have "level (step x s) \<le> level (run step xs (step x s))
    \<and> (level (run step xs (step x s)) = level (step x s) \<longrightarrow>
        phase (run step xs (step x s)) = phase (step x s))"
    using Cons.prems x room by (intro Cons.IH) (auto intro: step_inv step_room)
  with now show ?case by auto
qed

lemma run_level: "inv s \<Longrightarrow> list_all allowed xs \<Longrightarrow> room (length xs) s \<Longrightarrow>
     level s \<le> level (run step xs s)"
  by (simp add: run_level_phase)

lemma run_room: "inv s \<Longrightarrow> list_all allowed xs \<Longrightarrow> room (length xs + n) s \<Longrightarrow>
     room n (run step xs s)"
  by (induction xs arbitrary: s) (auto intro: step_inv step_room)

lemma run_phase_change_raises_level:
  "inv s \<Longrightarrow> list_all allowed xs \<Longrightarrow> room (length xs) s \<Longrightarrow>
     phase (run step xs s) \<noteq> phase s \<Longrightarrow> level s < level (run step xs s)"
  using run_level_phase [of s xs] by auto

end

text \<open>
  Fencing. Tickets carry the generation they were issued under, and only a ticket of the
  current generation can act. A ticket of an older generation then stays powerless in every
  later state, whatever happens in between; in particular once the phase has changed.
\<close>

locale fenced = machine_monotone +
  fixes gen_of :: "'k \<Rightarrow> nat"
    and acts :: "'s \<Rightarrow> 'k \<Rightarrow> bool"
  assumes acts_current: "inv s \<Longrightarrow> acts s k \<Longrightarrow> gen_of k = level s"
begin

lemma stale_ticket_powerless:
  assumes "inv s" and "list_all allowed xs" and "room (length xs) s" and "gen_of k < level s"
  shows "\<not> acts (run step xs s) k"
proof
  assume "acts (run step xs s) k"
  then have "gen_of k = level (run step xs s)"
    by (rule acts_current [OF run_inv [OF assms(1,2)]])
  with run_level [OF assms(1-3)] assms(4) show False by simp
qed

lemma phase_change_fences:
  assumes "inv s" and "gen_of k = level s"
    and "list_all allowed xs" and "list_all allowed ys" and "room (length xs + length ys) s"
    and "phase (run step xs s) \<noteq> phase s" and "room (length xs) s"
  shows "\<not> acts (run step (xs @ ys) s) k"
proof -
  have "gen_of k < level (run step xs s)"
    using run_phase_change_raises_level [OF assms(1,3,7,6)] assms(2) by simp
  with stale_ticket_powerless [OF run_inv [OF assms(1,3)] assms(4) run_room [OF assms(1,3,5)]]
  show ?thesis by simp
qed

end

section \<open>Rendering numbers\<close>

text \<open>
  Most significant digit first, no leading zero: \<open>{:x}\<close> is \<open>hex\<close>, \<open>{}\<close> on an
  unsigned integer is \<open>dec\<close>. Both draw their digits from one alphabet.
\<close>

definition digit_char :: "nat \<Rightarrow> char" where
  "digit_char d = (''0123456789abcdef'' ! (d mod 16))"

function radix :: "nat \<Rightarrow> nat \<Rightarrow> string" where
  "radix b n =
     (if b < 2 \<or> n < b then [digit_char n] else radix b (n div b) @ [digit_char (n mod b)])"
  by pat_completeness auto
termination
  by (relation "measure snd") (auto intro!: div_less_dividend)

declare radix.simps [simp del]

definition hex :: "nat \<Rightarrow> string" where
  "hex n = radix 16 n"

definition dec :: "nat \<Rightarrow> string" where
  "dec n = radix 10 n"

lemma digit_char_inj: "digit_char a = digit_char b \<Longrightarrow> a < 16 \<Longrightarrow> b < 16 \<Longrightarrow> a = b"
proof -
  assume eq: "digit_char a = digit_char b" and "a < 16" "b < 16"
  have "distinct ''0123456789abcdef''" by simp
  moreover have "a < length ''0123456789abcdef''" "b < length ''0123456789abcdef''"
    using \<open>a < 16\<close> \<open>b < 16\<close> by simp_all
  moreover have "''0123456789abcdef'' ! a = ''0123456789abcdef'' ! b"
    using eq \<open>a < 16\<close> \<open>b < 16\<close> by (simp add: digit_char_def)
  ultimately show ?thesis using nth_eq_iff_index_eq by blast
qed

lemma digit_char_in: "digit_char d \<in> set ''0123456789abcdef''"
  unfolding digit_char_def by (rule nth_mem) simp

lemma radix_nonempty: "radix b n \<noteq> []"
  by (subst radix.simps) simp

lemma set_radix_within: "(\<And>d. digit_char d \<in> A) \<Longrightarrow> set (radix b n) \<subseteq> A"
proof (induction b n rule: radix.induct)
  case (1 b n)
  then show ?case by (subst radix.simps) simp
qed

lemma set_radix: "set (radix b n) \<subseteq> set ''0123456789abcdef''"
  by (rule set_radix_within) (rule digit_char_in)

lemma radix_no_dash: "CHR ''-'' \<notin> set (radix b n)"
  using set_radix [of b n] by auto

lemma radix_inj:
  "2 \<le> b \<Longrightarrow> b \<le> 16 \<Longrightarrow> radix b m = radix b n \<Longrightarrow> m = n"
proof (induction b m arbitrary: n rule: radix.induct)
  case (1 b m)
  show ?case
  proof (cases "m < b")
    case True
    with "1.prems" have "n < b"
      using radix_nonempty [of b "n div b"]
      by (auto simp: radix.simps [of b m] radix.simps [of b n] split: if_splits)
    with True "1.prems" show ?thesis
      by (auto simp: radix.simps [of b m] radix.simps [of b n] intro: digit_char_inj)
  next
    case False
    with "1.prems" have n: "\<not> n < b"
      using radix_nonempty [of b "m div b"]
      by (auto simp: radix.simps [of b m] radix.simps [of b n] split: if_splits)
    with False "1.prems" have "radix b (m div b) = radix b (n div b)"
      and "digit_char (m mod b) = digit_char (n mod b)"
      by (auto simp: radix.simps [of b m] radix.simps [of b n] split: if_splits)
    moreover have "m mod b < 16" "n mod b < 16"
      using "1.prems" by (auto intro: order.strict_trans2 [OF mod_less_divisor])
    ultimately have "m div b = n div b" and "m mod b = n mod b"
      using "1.IH" False "1.prems" by (auto intro: digit_char_inj)
    then show ?thesis by (metis div_mult_mod_eq)
  qed
qed

lemma length_radix:
  assumes "2 \<le> b" and "n < b ^ k" and "0 < k"
  shows "length (radix b n) \<le> k"
  using assms(2,3)
proof (induction k arbitrary: n)
  case 0
  then show ?case by simp
next
  case (Suc k)
  show ?case
  proof (cases "n < b")
    case True
    then show ?thesis by (simp add: radix.simps [of b n])
  next
    case False
    with Suc.prems have "n div b < b ^ k" and "0 < k"
      using assms(1) by (auto simp: div_less_iff_less_mult mult.commute intro!: Nat.gr0I)
    with Suc.IH False show ?thesis by (simp add: radix.simps [of b n])
  qed
qed

lemma hex_inj: "hex a = hex b \<Longrightarrow> a = b"
  by (rule radix_inj [of 16]) (simp_all add: hex_def)

lemma dec_inj: "dec a = dec b \<Longrightarrow> a = b"
  by (rule radix_inj [of 10]) (simp_all add: dec_def)

lemma hex_no_dash: "CHR ''-'' \<notin> set (hex n)"
  unfolding hex_def by (rule radix_no_dash)

lemma dash_split:
  "CHR ''-'' \<notin> set a \<Longrightarrow> CHR ''-'' \<notin> set b \<Longrightarrow>
     a @ CHR ''-'' # x = b @ CHR ''-'' # y \<longleftrightarrow> a = b \<and> x = y"
  by (induction a arbitrary: b; case_tac b) auto

end
