(* ===== verification/Resource_Limits.thy ===== *)
theory Resource_Limits
  imports Sr_Prelude
begin

text \<open>
  Model of \<open>src/src/limits.rs\<close>: resource limits, checked counters, invocation
  deadlines with their cleanup reserve, wall-clock expiry, attempt counters and batch
  bounds, and of the deadline arithmetic of \<open>src/src/runtime.rs\<close>
  (\<open>EntryClock\<close>, \<open>admit_publication\<close>). Times are milliseconds; the clock
  readings the source takes from \<open>Instant\<close> are arguments here.
\<close>

section \<open>Constants and errors\<close>

definition KIB :: nat where "KIB = 1024"
definition MIB :: nat where "MIB = 1024 * KIB"

definition DEFAULT_INVOCATION_DEADLINE_MS :: u64 where
  "DEFAULT_INVOCATION_DEADLINE_MS = 3000"
definition DEFAULT_OUTPUT_CLEANUP_RESERVE_MS :: u64 where
  "DEFAULT_OUTPUT_CLEANUP_RESERVE_MS = 200"
definition DEFAULT_LOGICAL_REQUESTS :: u32 where
  "DEFAULT_LOGICAL_REQUESTS = 2"
definition DEFAULT_HTTP_ATTEMPTS :: u32 where
  "DEFAULT_HTTP_ATTEMPTS = 4"
definition DEFAULT_EVAL_BATCH_RUNTIME_MS :: u64 where
  "DEFAULT_EVAL_BATCH_RUNTIME_MS = 600000"
definition DEFAULT_SQLITE_BUSY_WAIT_MS :: u64 where
  "DEFAULT_SQLITE_BUSY_WAIT_MS = 25"

datatype LimitUnit =
    Bytes | Records | Items | Depth | UnicodeScalars | Milliseconds | Attempts | LogicalRequests

datatype LimitError =
    ZeroIsNotUnlimited string
  | AboveLimit string nat nat LimitUnit
  | ArithmeticOverflow string
  | InvalidDeadlineReserve u64 u64
  | AttemptsBelowLogicalRequests u32 u32
  | MissingLiveBatchRequestCap
  | WrongLimitUnit string LimitUnit LimitUnit
  | NoLogicalRequestForAttempt
  | DeadlineBeforeStart string u64 u64
  | DeadlineInCleanupReserve string u64 u64 u64
  | DeadlineExpired string u64 u64

section \<open>Resource limits\<close>

record ResourceLimit =
  rl_name :: string
  rl_unit :: LimitUnit
  rl_max :: usize

definition new_const :: "string \<Rightarrow> LimitUnit \<Rightarrow> usize \<Rightarrow> ResourceLimit" where
  "new_const name unit mx = \<lparr>rl_name = name, rl_unit = unit, rl_max = mx\<rparr>"

definition try_new :: "string \<Rightarrow> LimitUnit \<Rightarrow> usize \<Rightarrow> (ResourceLimit, LimitError) result" where
  "try_new name unit mx =
     (if mx = 0 then Err (ZeroIsNotUnlimited name)
      else Ok \<lparr>rl_name = name, rl_unit = unit, rl_max = mx\<rparr>)"

definition cap_plus_one :: "ResourceLimit \<Rightarrow> (usize, LimitError) result" where
  "cap_plus_one l =
     (if rl_max l + 1 \<le> USIZE_MAX then Ok (rl_max l + 1)
      else Err (ArithmeticOverflow (rl_name l)))"

definition check_limit :: "ResourceLimit \<Rightarrow> usize \<Rightarrow> (unit, LimitError) result" where
  "check_limit l observed =
     (if observed \<le> rl_max l then Ok ()
      else Err (AboveLimit (rl_name l) observed (rl_max l) (rl_unit l)))"

definition require_unit :: "ResourceLimit \<Rightarrow> LimitUnit \<Rightarrow> (unit, LimitError) result" where
  "require_unit l expected =
     (if rl_unit l = expected then Ok ()
      else Err (WrongLimitUnit (rl_name l) expected (rl_unit l)))"

definition check_bytes :: "ResourceLimit \<Rightarrow> 'b list \<Rightarrow> (unit, LimitError) result" where
  "check_bytes l bytes = and_then (require_unit l Bytes) (\<lambda>_. check_limit l (length bytes))"

definition check_str_bytes :: "ResourceLimit \<Rightarrow> str \<Rightarrow> (unit, LimitError) result" where
  "check_str_bytes l text = and_then (require_unit l Bytes) (\<lambda>_. check_limit l (str_len text))"

definition check_unicode_scalars :: "ResourceLimit \<Rightarrow> str \<Rightarrow> (unit, LimitError) result" where
  "check_unicode_scalars l text =
     and_then (require_unit l UnicodeScalars) (\<lambda>_.
       case cap_plus_one l of
         Ok stop_after \<Rightarrow> check_limit l (length (take stop_after text))
       | Err (ArithmeticOverflow _) \<Rightarrow> Ok ()
       | Err err \<Rightarrow> Err err)"

record BoundedU64 =
  bu_name :: string
  bu_unit :: LimitUnit
  bu_value :: u64

definition bounded_new :: "string \<Rightarrow> LimitUnit \<Rightarrow> u64 \<Rightarrow> u64 \<Rightarrow> (BoundedU64, LimitError) result" where
  "bounded_new name unit value mx =
     (if value = 0 then Err (ZeroIsNotUnlimited name)
      else if value > mx then Err (AboveLimit name value mx unit)
      else Ok \<lparr>bu_name = name, bu_unit = unit, bu_value = value\<rparr>)"

text \<open>The table of default limits, in the order of \<open>ALL_DEFAULT_LIMITS\<close>.\<close>

definition ALL_DEFAULT_LIMITS :: "ResourceLimit list" where
  "ALL_DEFAULT_LIMITS =
    [new_const ''hook_stdin'' Bytes MIB,
     new_const ''normalized_context_json'' Bytes MIB,
     new_const ''normalized_context_depth'' Depth 64,
     new_const ''explicit_roster_json'' Bytes (32 * MIB),
     new_const ''explicit_roster_records'' Records 10000,
     new_const ''explicit_roster_depth'' Depth 64,
     new_const ''config_file'' Bytes (256 * KIB),
     new_const ''config_file_depth'' Depth 32,
     new_const ''yaml_document_depth'' Depth 64,
     new_const ''yaml_aliases'' Items 128,
     new_const ''skill_file'' Bytes (256 * KIB),
     new_const ''skill_frontmatter'' Bytes (16 * KIB),
     new_const ''discovery_files'' Records 10000,
     new_const ''discovery_parsed'' Bytes (32 * MIB),
     new_const ''replay_case'' Bytes (16 * MIB),
     new_const ''replay_case_depth'' Depth 64,
     new_const ''replay_policy'' Bytes (64 * KIB),
     new_const ''replay_policy_depth'' Depth 32,
     new_const ''evaluation_dataset'' Bytes (256 * MIB),
     new_const ''evaluation_case_records'' Records 10000,
     new_const ''evaluation_dataset_depth'' Depth 64,
     new_const ''native_transcript_tail'' Bytes (2 * MIB),
     new_const ''native_transcript_tail_records'' Records 2000,
     new_const ''one_transcript_record'' Bytes (256 * KIB),
     new_const ''cass_stdout'' Bytes (8 * MIB),
     new_const ''recent_normalized_messages'' Items 12,
     new_const ''rendered_context'' UnicodeScalars 12000,
     new_const ''explicit_requests'' Items 32,
     new_const ''wide_excerpt'' UnicodeScalars 160,
     new_const ''rerank_description'' UnicodeScalars 1000,
     new_const ''rerank_body_excerpt'' UnicodeScalars 700,
     new_const ''serialized_request'' Bytes (96 * KIB),
     new_const ''decoded_response'' Bytes (2 * MIB),
     new_const ''observation_delta'' Bytes (8 * MIB),
     new_const ''quill_query_terms'' Items 128,
     new_const ''quill_query'' UnicodeScalars 4096,
     new_const ''hook_additional_context'' UnicodeScalars 1024,
     new_const ''ledger_sidecars_and_backups'' Bytes (256 * MIB),
     new_const ''cache_and_coordinator_state'' Bytes (64 * MIB)]"

section \<open>Clocks\<close>

definition limit_checked_add_usize :: "string \<Rightarrow> usize \<Rightarrow> usize \<Rightarrow> (usize, LimitError) result" where
  "limit_checked_add_usize name lhs rhs =
     (if lhs + rhs \<le> USIZE_MAX then Ok (lhs + rhs) else Err (ArithmeticOverflow name))"

definition limit_checked_add_u64 :: "string \<Rightarrow> u64 \<Rightarrow> u64 \<Rightarrow> (u64, LimitError) result" where
  "limit_checked_add_u64 name lhs rhs =
     (case checked_add64 lhs rhs of Some s \<Rightarrow> Ok s | None \<Rightarrow> Err (ArithmeticOverflow name))"

text \<open>\<open>MonotonicMillis\<close> and \<open>DurationMillis\<close> are single-field wrappers of a \<open>u64\<close>.\<close>

type_synonym MonotonicMillis = u64
type_synonym DurationMillis = u64
type_synonym WallClockMillis = i64

definition monotonic_checked_add ::
  "MonotonicMillis \<Rightarrow> DurationMillis \<Rightarrow> string \<Rightarrow> (MonotonicMillis, LimitError) result" where
  "monotonic_checked_add t d name = limit_checked_add_u64 name t d"

definition saturating_duration_since :: "MonotonicMillis \<Rightarrow> MonotonicMillis \<Rightarrow> DurationMillis" where
  "saturating_duration_since t earlier = sat_sub t earlier"

definition duration_new :: "string \<Rightarrow> u64 \<Rightarrow> u64 \<Rightarrow> (DurationMillis, LimitError) result" where
  "duration_new name ms max_ms = map_ok bu_value (bounded_new name Milliseconds ms max_ms)"

text \<open>The sum is validated in \<open>i128\<close>, where it cannot overflow, then narrowed to \<open>i64\<close>.\<close>

definition wall_checked_add ::
  "WallClockMillis \<Rightarrow> DurationMillis \<Rightarrow> string \<Rightarrow> (WallClockMillis, LimitError) result" where
  "wall_checked_add t d name =
     (let s = t + int d in
      if I64_MIN \<le> s \<and> s \<le> I64_MAX then Ok s else Err (ArithmeticOverflow name))"

record WallClockExpiry =
  we_not_before :: WallClockMillis
  we_expires_at :: WallClockMillis

definition wall_expiry_new ::
  "WallClockMillis \<Rightarrow> DurationMillis \<Rightarrow> (WallClockExpiry, LimitError) result" where
  "wall_expiry_new not_before ttl =
     map_ok (\<lambda>e. \<lparr>we_not_before = not_before, we_expires_at = e\<rparr>)
       (wall_checked_add not_before ttl ''wall_clock_expiry'')"

definition wall_is_expired :: "WallClockExpiry \<Rightarrow> WallClockMillis \<Rightarrow> bool" where
  "wall_is_expired e now \<longleftrightarrow> now < we_not_before e \<or> now \<ge> we_expires_at e"

section \<open>Invocation deadlines\<close>

record InvocationDeadline =
  dl_start :: MonotonicMillis
  dl_total :: DurationMillis
  dl_cleanup_reserve :: DurationMillis

definition deadline_new ::
  "MonotonicMillis \<Rightarrow> DurationMillis \<Rightarrow> DurationMillis \<Rightarrow> (InvocationDeadline, LimitError) result" where
  "deadline_new start total_ms cleanup_reserve =
     (if total_ms = 0 then Err (ZeroIsNotUnlimited ''invocation_deadline_total'')
      else if cleanup_reserve = 0 then Err (ZeroIsNotUnlimited ''cleanup_reserve'')
      else if cleanup_reserve \<ge> total_ms then Err (InvalidDeadlineReserve total_ms cleanup_reserve)
      else and_then (monotonic_checked_add start total_ms ''invocation_deadline_end'') (\<lambda>_.
        Ok \<lparr>dl_start = start, dl_total = total_ms, dl_cleanup_reserve = cleanup_reserve\<rparr>))"

definition default_from_start :: "MonotonicMillis \<Rightarrow> (InvocationDeadline, LimitError) result" where
  "default_from_start start =
     deadline_new start DEFAULT_INVOCATION_DEADLINE_MS DEFAULT_OUTPUT_CLEANUP_RESERVE_MS"

text \<open>
  The source computes the end with \<open>checked_add(...).expect(...)\<close>: \<open>expires_at_checked\<close> is
  that expression before the \<open>expect\<close>, and \<open>expires_at\<close> its value where it does not
  panic. The fields are private and only \<open>new\<close> builds a deadline, so
  \<open>deadline_new_ok\<close> below shows that the panic is never reached.
\<close>

definition expires_at_checked :: "InvocationDeadline \<Rightarrow> (MonotonicMillis, LimitError) result" where
  "expires_at_checked d = monotonic_checked_add (dl_start d) (dl_total d) ''invocation_deadline_end''"

definition expires_at :: "InvocationDeadline \<Rightarrow> MonotonicMillis" where
  "expires_at d = dl_start d + dl_total d"

definition latest_work_time :: "InvocationDeadline \<Rightarrow> MonotonicMillis" where
  "latest_work_time d = expires_at d - dl_cleanup_reserve d"

definition remaining_before_cleanup :: "InvocationDeadline \<Rightarrow> MonotonicMillis \<Rightarrow> DurationMillis" where
  "remaining_before_cleanup d now =
     (if now < dl_start d then 0 else saturating_duration_since (latest_work_time d) now)"

definition remaining_until_expiry :: "InvocationDeadline \<Rightarrow> MonotonicMillis \<Rightarrow> DurationMillis" where
  "remaining_until_expiry d now =
     (if now < dl_start d then 0 else saturating_duration_since (expires_at d) now)"

definition is_in_cleanup_reserve :: "InvocationDeadline \<Rightarrow> MonotonicMillis \<Rightarrow> bool" where
  "is_in_cleanup_reserve d now \<longleftrightarrow> now \<ge> latest_work_time d \<and> now < expires_at d"

definition deadline_is_expired :: "InvocationDeadline \<Rightarrow> MonotonicMillis \<Rightarrow> bool" where
  "deadline_is_expired d now \<longleftrightarrow> now \<ge> expires_at d"

definition ensure_can_start_work ::
  "InvocationDeadline \<Rightarrow> MonotonicMillis \<Rightarrow> string \<Rightarrow> (unit, LimitError) result" where
  "ensure_can_start_work d now name =
     (if now < dl_start d then Err (DeadlineBeforeStart name now (dl_start d))
      else if now \<ge> expires_at d then Err (DeadlineExpired name now (expires_at d))
      else if now \<ge> latest_work_time d
        then Err (DeadlineInCleanupReserve name now (latest_work_time d) (expires_at d))
      else Ok ())"

section \<open>Attempt counters\<close>

record AttemptLimits =
  al_logical_requests :: u32
  al_http_attempts :: u32

definition attempt_limits_new :: "u32 \<Rightarrow> u32 \<Rightarrow> (AttemptLimits, LimitError) result" where
  "attempt_limits_new logical_requests http_attempts =
     (if logical_requests = 0 then Err (ZeroIsNotUnlimited ''logical_requests'')
      else if http_attempts = 0 then Err (ZeroIsNotUnlimited ''http_attempts'')
      else if http_attempts < logical_requests
        then Err (AttemptsBelowLogicalRequests logical_requests http_attempts)
      else Ok \<lparr>al_logical_requests = logical_requests, al_http_attempts = http_attempts\<rparr>)"

definition attempt_limits_default :: AttemptLimits where
  "attempt_limits_default =
     \<lparr>al_logical_requests = DEFAULT_LOGICAL_REQUESTS, al_http_attempts = DEFAULT_HTTP_ATTEMPTS\<rparr>"

record AttemptCounters =
  ac_limits :: AttemptLimits
  ac_logical_used :: u32
  ac_attempts_used :: u32

record AttemptReceipt =
  ar_logical_limit :: u32
  ar_attempt_limit :: u32
  ar_logical_used_at_reservation :: u32
  ar_attempt_sequence :: u32
  ar_reserved_at :: MonotonicMillis
  ar_remaining_before_cleanup_ms :: u64
  ar_remaining_until_expiry_ms :: u64

definition attempt_counters_new :: "AttemptLimits \<Rightarrow> AttemptCounters" where
  "attempt_counters_new limits =
     \<lparr>ac_limits = limits, ac_logical_used = 0, ac_attempts_used = 0\<rparr>"

definition begin_logical_request ::
  "AttemptCounters \<Rightarrow> (unit, LimitError) result \<times> AttemptCounters" where
  "begin_logical_request c =
     (if ac_logical_used c \<ge> al_logical_requests (ac_limits c)
      then (Err (AboveLimit ''logical_requests'' (ac_logical_used c + 1)
                  (al_logical_requests (ac_limits c)) LogicalRequests), c)
      else (Ok (), c\<lparr>ac_logical_used := ac_logical_used c + 1\<rparr>))"

definition reserve_attempt ::
  "MonotonicMillis \<Rightarrow> InvocationDeadline \<Rightarrow> AttemptCounters
     \<Rightarrow> (AttemptReceipt, LimitError) result \<times> AttemptCounters" where
  "reserve_attempt now deadline c =
     (if ac_logical_used c = 0 then (Err NoLogicalRequestForAttempt, c)
      else case ensure_can_start_work deadline now ''http_attempt'' of
        Err e \<Rightarrow> (Err e, c)
      | Ok _ \<Rightarrow>
        (if ac_attempts_used c \<ge> al_http_attempts (ac_limits c)
         then (Err (AboveLimit ''http_attempts'' (ac_attempts_used c + 1)
                     (al_http_attempts (ac_limits c)) Attempts), c)
         else
           let next_attempt_sequence = ac_attempts_used c + 1;
               receipt =
                 \<lparr>ar_logical_limit = al_logical_requests (ac_limits c),
                  ar_attempt_limit = al_http_attempts (ac_limits c),
                  ar_logical_used_at_reservation = ac_logical_used c,
                  ar_attempt_sequence = next_attempt_sequence,
                  ar_reserved_at = now,
                  ar_remaining_before_cleanup_ms = remaining_before_cleanup deadline now,
                  ar_remaining_until_expiry_ms = remaining_until_expiry deadline now\<rparr>
           in (Ok receipt, c\<lparr>ac_attempts_used := next_attempt_sequence\<rparr>)))"

section \<open>Batch bounds\<close>

datatype BatchNetworkMode =
    ReplayOnlyZeroNetwork
  | LiveWithExplicitRequestCap u32

record BatchBounds =
  bb_start :: MonotonicMillis
  bb_max_runtime :: DurationMillis
  bb_network_mode :: BatchNetworkMode

definition batch_expires_at :: "BatchBounds \<Rightarrow> (MonotonicMillis, LimitError) result" where
  "batch_expires_at b = monotonic_checked_add (bb_start b) (bb_max_runtime b) ''batch_deadline_end''"

definition replay_default :: "MonotonicMillis \<Rightarrow> (BatchBounds, LimitError) result" where
  "replay_default start =
     (let bounds = \<lparr>bb_start = start, bb_max_runtime = DEFAULT_EVAL_BATCH_RUNTIME_MS,
                    bb_network_mode = ReplayOnlyZeroNetwork\<rparr>
      in map_ok (\<lambda>_. bounds) (batch_expires_at bounds))"

definition batch_live ::
  "MonotonicMillis \<Rightarrow> DurationMillis \<Rightarrow> u32 \<Rightarrow> (BatchBounds, LimitError) result" where
  "batch_live start max_runtime max_http_attempts =
     (if max_http_attempts = 0 then Err MissingLiveBatchRequestCap
      else if max_runtime = 0 then Err (ZeroIsNotUnlimited ''batch_runtime'')
      else
        let bounds = \<lparr>bb_start = start, bb_max_runtime = max_runtime,
                      bb_network_mode = LiveWithExplicitRequestCap max_http_attempts\<rparr>
        in map_ok (\<lambda>_. bounds) (batch_expires_at bounds))"

definition per_case_deadline_at ::
  "BatchBounds \<Rightarrow> MonotonicMillis \<Rightarrow> (InvocationDeadline, LimitError) result" where
  "per_case_deadline_at b case_start =
     (if case_start < bb_start b
      then Err (DeadlineBeforeStart ''batch_case'' case_start (bb_start b))
      else and_then (batch_expires_at b) (\<lambda>batch_end.
        if case_start \<ge> batch_end
        then Err (DeadlineExpired ''batch_case'' case_start batch_end)
        else
          let remaining_ms = batch_end - case_start in
          if remaining_ms \<le> DEFAULT_OUTPUT_CLEANUP_RESERVE_MS
          then Err (DeadlineInCleanupReserve ''batch_case'' case_start
                 (max (sat_sub batch_end DEFAULT_OUTPUT_CLEANUP_RESERVE_MS) (bb_start b))
                 batch_end)
          else
            let total_ms = min remaining_ms DEFAULT_INVOCATION_DEADLINE_MS in
            and_then (duration_new ''batch_case_total'' total_ms DEFAULT_INVOCATION_DEADLINE_MS)
              (\<lambda>t. deadline_new case_start t DEFAULT_OUTPUT_CLEANUP_RESERVE_MS)))"

section \<open>The entry clock's deadline arithmetic\<close>

text \<open>
  The half of the cleanup reserve that a failing invocation may use to record its
  failure (\<open>for_failure_finalization\<close>), and the later horizon of a failure found after
  the deadline (\<open>for_late_failure_record\<close>). \<open>now\<close> is the clock reading.
\<close>

definition for_failure_finalization :: "InvocationDeadline \<Rightarrow> (InvocationDeadline, LimitError) result" where
  "for_failure_finalization d =
     (let reserve = dl_cleanup_reserve d in
      and_then (duration_new ''failure_finalization_reserve'' (max (reserve div 2) 1) reserve)
        (\<lambda>r. deadline_new (dl_start d) (dl_total d) r))"

definition for_late_failure_record ::
  "InvocationDeadline \<Rightarrow> MonotonicMillis \<Rightarrow> u64 \<Rightarrow> u64 \<Rightarrow> InvocationDeadline" where
  "for_late_failure_record d now grace_ms limit_ms =
     (let reserve = dl_cleanup_reserve d;
          original = dl_total d;
          total_ms = max (min (sat_add64 now grace_ms) (sat_add64 original limit_ms)) original
      in case and_then (duration_new ''late_failure_record_total'' total_ms U64_MAX) (\<lambda>total_ms.
                and_then (duration_new ''failure_finalization_reserve''
                            (max (reserve div 2) 1) reserve) (\<lambda>r.
                  deadline_new (dl_start d) total_ms r))
         of Ok d' \<Rightarrow> d' | Err _ \<Rightarrow> d)"

datatype RuntimeError =
    RuntimeUnavailable
  | RuntimeDeadline LimitError
  | LateResultSuppressed
  | RuntimeCancelled
  | StdinTimeout
  | StdinIo
  | UnboundedLeaf
  | BlockingPoolUnavailable

definition admit_new_work :: "InvocationDeadline \<Rightarrow> MonotonicMillis \<Rightarrow> (MonotonicMillis, RuntimeError) result" where
  "admit_new_work d now =
     (case ensure_can_start_work d now ''runtime_work'' of
        Ok _ \<Rightarrow> Ok now
      | Err e \<Rightarrow> Err (RuntimeDeadline e))"

definition admit_publication ::
  "InvocationDeadline \<Rightarrow> MonotonicMillis \<Rightarrow> MonotonicMillis \<Rightarrow> (unit, RuntimeError) result" where
  "admit_publication d completed_at now =
     (if now \<ge> expires_at d \<or> completed_at \<ge> latest_work_time d
      then Err LateResultSuppressed else Ok ())"

section \<open>Operations of the attempt counters as one machine\<close>

datatype counter_op = BeginLogical | Reserve MonotonicMillis InvocationDeadline

text \<open>One operation, with the receipt it issued if any.\<close>

fun counter_step :: "counter_op \<Rightarrow> AttemptCounters \<times> AttemptReceipt list
    \<Rightarrow> AttemptCounters \<times> AttemptReceipt list" where
  "counter_step BeginLogical (c, rs) = (snd (begin_logical_request c), rs)"
| "counter_step (Reserve now d) (c, rs) =
     (case reserve_attempt now d c of
        (Ok r, c') \<Rightarrow> (c', rs @ [r])
      | (Err _, c') \<Rightarrow> (c', rs))"

definition deadline_ok :: "InvocationDeadline \<Rightarrow> bool" where
  "deadline_ok d \<longleftrightarrow> 0 < dl_cleanup_reserve d \<and> dl_cleanup_reserve d < dl_total d
     \<and> dl_start d + dl_total d \<le> U64_MAX"

definition counters_inv :: "AttemptCounters \<times> AttemptReceipt list \<Rightarrow> bool" where
  "counters_inv s \<longleftrightarrow>
     (case s of (c, rs) \<Rightarrow>
        ac_logical_used c \<le> al_logical_requests (ac_limits c)
      \<and> ac_attempts_used c \<le> al_http_attempts (ac_limits c)
      \<and> map ar_attempt_sequence rs = [1..<Suc (ac_attempts_used c)]
      \<and> (\<forall>r\<in>set rs. 1 \<le> ar_logical_used_at_reservation r
            \<and> ar_logical_used_at_reservation r \<le> ac_logical_used c
            \<and> 0 < ar_remaining_before_cleanup_ms r))"

section \<open>Lemmas on limits and deadlines\<close>

lemmas deadline_defs =
  deadline_new_def monotonic_checked_add_def limit_checked_add_u64_def deadline_ok_def

lemmas window_defs =
  expires_at_def latest_work_time_def remaining_before_cleanup_def remaining_until_expiry_def
  saturating_duration_since_def ensure_can_start_work_def deadline_ok_def

lemma deadline_new_Ok_iff:
  "deadline_new s t r = Ok d \<longleftrightarrow>
     d = \<lparr>dl_start = s, dl_total = t, dl_cleanup_reserve = r\<rparr> \<and> deadline_ok d"
  by (auto simp: deadline_defs split: option.splits)

lemma deadline_new_ok: "deadline_new s t r = Ok d \<Longrightarrow> deadline_ok d"
  by (drule iffD1 [OF deadline_new_Ok_iff]) (rule conjunct2)

lemma expires_at_never_panics:
  "deadline_ok d \<Longrightarrow> expires_at_checked d = Ok (expires_at d)"
  by (simp add: expires_at_checked_def monotonic_checked_add_def limit_checked_add_u64_def
      expires_at_def deadline_ok_def checked_add64_def)

lemma ensure_can_start_work_Ok_iff:
  "deadline_ok d \<Longrightarrow>
     ensure_can_start_work d now name = Ok () \<longleftrightarrow> dl_start d \<le> now \<and> now < latest_work_time d"
  by (auto simp: window_defs)

lemma duration_new_Ok_iff [simp]:
  "duration_new name ms mx = Ok t \<longleftrightarrow> t = ms \<and> 0 < ms \<and> ms \<le> mx"
  by (auto simp: duration_new_def bounded_new_def)

lemma all_default_limits_positive:
  "list_all (\<lambda>l. 0 < rl_max l \<and> rl_max l < USIZE_MAX) ALL_DEFAULT_LIMITS"
  by (simp add: ALL_DEFAULT_LIMITS_def new_const_def MIB_def KIB_def USIZE_MAX_def U64_MAX_def)

lemma all_default_limits_distinct: "distinct (map rl_name ALL_DEFAULT_LIMITS)"
  by (simp add: ALL_DEFAULT_LIMITS_def new_const_def)

section \<open>The work window as an interface\<close>

text \<open>
  What the provider path relies on: whether work may start at a time, and how much time
  is left before the cleanup reserve. Once refused, work stays refused, and attempts that
  are spaced at least \<open>m\<close> apart inside one window are bounded by the window's length.
\<close>

locale work_window =
  fixes admits :: "'d \<Rightarrow> nat \<Rightarrow> bool"
    and remaining :: "'d \<Rightarrow> nat \<Rightarrow> nat"
    and ok :: "'d \<Rightarrow> bool"
  assumes admits_iff: "ok d \<Longrightarrow> admits d t \<Longrightarrow> 0 < remaining d t"
    and remaining_zero: "ok d \<Longrightarrow> 0 < remaining d t \<Longrightarrow> admits d t"
    and remaining_later:
      "ok d \<Longrightarrow> admits d t \<Longrightarrow> t \<le> u \<Longrightarrow> remaining d u = remaining d t - (u - t)"
begin

lemma refused_stays_refused:
  assumes "ok d" and "admits d t0" and "t0 \<le> t" and "t \<le> u" and "\<not> admits d t"
  shows "\<not> admits d u"
proof -
  have "remaining d t = 0"
    using assms remaining_zero by blast
  then have "remaining d t0 \<le> t - t0"
    using remaining_later [OF assms(1,2,3)] by simp
  then have "remaining d u = 0"
    using remaining_later [OF assms(1,2), of u] assms(3,4) by simp
  then show ?thesis using admits_iff [OF assms(1)] by fastforce
qed

lemma admitted_while_time_remains:
  assumes "ok d" and "admits d t" and "t \<le> u"
  shows "admits d u \<longleftrightarrow> u - t < remaining d t"
  using admits_iff [OF assms(1), of u] remaining_zero [OF assms(1), of u]
    remaining_later [OF assms] by auto

lemma spaced_admissions_bounded:
  assumes "ok d" and "admits d t"
    and "admits d u" and "t + n * m \<le> u"
  shows "n * m < remaining d t"
proof -
  have "u - t < remaining d t"
    using admitted_while_time_remains [OF assms(1,2), of u] assms(3,4) by simp
  then show ?thesis using assms(4) by simp
qed

end

interpretation entry_window: work_window
  "\<lambda>d t. is_ok (admit_new_work d t)" remaining_before_cleanup deadline_ok
proof unfold_locales
  fix d t
  assume ok: "deadline_ok d"
  show "is_ok (admit_new_work d t) \<Longrightarrow> 0 < remaining_before_cleanup d t"
    using ok by (auto simp: admit_new_work_def window_defs split: if_splits)
  show "0 < remaining_before_cleanup d t \<Longrightarrow> is_ok (admit_new_work d t)"
    using ok by (auto simp: admit_new_work_def window_defs split: if_splits)
  fix u
  show "is_ok (admit_new_work d t) \<Longrightarrow> t \<le> u \<Longrightarrow>
      remaining_before_cleanup d u = remaining_before_cleanup d t - (u - t)"
    using ok by (auto simp: admit_new_work_def window_defs split: if_splits)
qed

section \<open>The counters keep their ceilings\<close>

lemma reserve_attempt_Ok:
  "reserve_attempt now d c = (Ok r, c') \<longleftrightarrow>
     0 < ac_logical_used c \<and> ensure_can_start_work d now ''http_attempt'' = Ok ()
     \<and> ac_attempts_used c < al_http_attempts (ac_limits c)
     \<and> c' = c\<lparr>ac_attempts_used := ac_attempts_used c + 1\<rparr>
     \<and> r = \<lparr>ar_logical_limit = al_logical_requests (ac_limits c),
             ar_attempt_limit = al_http_attempts (ac_limits c),
             ar_logical_used_at_reservation = ac_logical_used c,
             ar_attempt_sequence = ac_attempts_used c + 1, ar_reserved_at = now,
             ar_remaining_before_cleanup_ms = remaining_before_cleanup d now,
             ar_remaining_until_expiry_ms = remaining_until_expiry d now\<rparr>"
  by (auto simp: reserve_attempt_def Let_def split: result.splits if_splits)

lemma reserve_attempt_Err: "reserve_attempt now d c = (Err e, c') \<Longrightarrow> c' = c"
  by (auto simp: reserve_attempt_def Let_def split: result.splits if_splits)

lemma can_start_remaining:
  "ensure_can_start_work d now name = Ok () \<Longrightarrow> 0 < remaining_before_cleanup d now"
  by (auto simp: window_defs split: if_splits)

lemma counter_step_inv: "counters_inv s \<Longrightarrow> counters_inv (counter_step x s)"
proof (cases x)
  case BeginLogical
  assume "counters_inv s"
  with BeginLogical show ?thesis
    by (cases s) (fastforce simp: counters_inv_def begin_logical_request_def)
next
  case (Reserve now d)
  assume inv: "counters_inv s"
  obtain c rs where s: "s = (c, rs)" by (cases s)
  obtain res c' where res: "reserve_attempt now d c = (res, c')" by fastforce
  show ?thesis
  proof (cases res)
    case (Ok r)
    with res have "reserve_attempt now d c = (Ok r, c')" by simp
    note facts = this this [unfolded reserve_attempt_Ok]
    from facts Reserve s have "counter_step x s = (c', rs @ [r])" by simp
    with facts(2) inv s show ?thesis
      by (auto simp: counters_inv_def can_start_remaining)
  next
    case (Err e)
    with res inv s Reserve show ?thesis
      by (auto simp: dest: reserve_attempt_Err)
  qed
qed

interpretation counters: machine_invariant counter_step "\<lambda>_. True" counters_inv
  by unfold_locales (rule counter_step_inv)

lemma counters_inv_new: "counters_inv (attempt_counters_new l, [])"
  by (simp add: counters_inv_def attempt_counters_new_def)

lemma counter_step_limits: "ac_limits (fst (counter_step x s)) = ac_limits (fst s)"
proof (cases s)
  case (Pair c rs)
  then show ?thesis
    by (cases x) (auto simp: begin_logical_request_def reserve_attempt_def Let_def
        split: result.splits if_splits)
qed

lemma run_counter_limits:
  "ac_limits (fst (run counter_step xs s)) = ac_limits (fst s)"
  by (induction xs arbitrary: s) (simp_all add: counter_step_limits)

section \<open>Case deadlines\<close>

lemma batch_expires_at_Ok_iff:
  "batch_expires_at b = Ok e \<longleftrightarrow>
     e = bb_start b + bb_max_runtime b \<and> bb_start b + bb_max_runtime b \<le> U64_MAX"
  by (auto simp: batch_expires_at_def monotonic_checked_add_def limit_checked_add_u64_def
      checked_add64_def)

lemma per_case_deadline_Ok_iff:
  "per_case_deadline_at b cs = Ok d \<longleftrightarrow>
     bb_start b + bb_max_runtime b \<le> U64_MAX \<and> bb_start b \<le> cs
     \<and> cs + DEFAULT_OUTPUT_CLEANUP_RESERVE_MS < bb_start b + bb_max_runtime b
     \<and> d = \<lparr>dl_start = cs,
             dl_total = min (bb_start b + bb_max_runtime b - cs) DEFAULT_INVOCATION_DEADLINE_MS,
             dl_cleanup_reserve = DEFAULT_OUTPUT_CLEANUP_RESERVE_MS\<rparr>"
  by (cases "bb_start b + bb_max_runtime b \<le> U64_MAX")
    (auto simp: per_case_deadline_at_def batch_expires_at_Ok_iff
      deadline_new_Ok_iff deadline_ok_def Let_def
      DEFAULT_OUTPUT_CLEANUP_RESERVE_MS_def DEFAULT_INVOCATION_DEADLINE_MS_def)

section \<open>Deadlines for recording a failure\<close>

lemma for_failure_finalization_ok:
  "deadline_ok d \<Longrightarrow> \<exists>d'. for_failure_finalization d = Ok d' \<and> deadline_ok d'
     \<and> latest_work_time d \<le> latest_work_time d' \<and> latest_work_time d' < expires_at d'
     \<and> expires_at d' = expires_at d"
  by (auto simp: for_failure_finalization_def deadline_new_Ok_iff Let_def deadline_ok_def
      latest_work_time_def expires_at_def)

lemma for_late_failure_record_cases:
  "for_late_failure_record d now grace_ms limit_ms = d \<or>
   deadline_new (dl_start d)
     (max (min (sat_add64 now grace_ms) (sat_add64 (dl_total d) limit_ms)) (dl_total d))
     (max (dl_cleanup_reserve d div 2) 1)
   = Ok (for_late_failure_record d now grace_ms limit_ms)"
  unfolding for_late_failure_record_def Let_def
  by (split result.split) auto

lemma for_late_failure_record_ok:
  assumes "deadline_ok d" and "d' = for_late_failure_record d now grace_ms limit_ms"
  shows "deadline_ok d' \<and> latest_work_time d \<le> latest_work_time d'
     \<and> expires_at d \<le> expires_at d' \<and> expires_at d' \<le> expires_at d + limit_ms"
proof -
  define t where
    "t = max (min (sat_add64 now grace_ms) (sat_add64 (dl_total d) limit_ms)) (dl_total d)"
  have t: "dl_total d \<le> t" "t \<le> dl_total d + limit_ms"
    using sat_add64_le_sum [of "dl_total d" limit_ms] by (auto simp: t_def)
  from for_late_failure_record_cases [of d now grace_ms limit_ms] show ?thesis
  proof
    assume "for_late_failure_record d now grace_ms limit_ms = d"
    with assms show ?thesis by simp
  next
    assume "deadline_new (dl_start d)
        (max (min (sat_add64 now grace_ms) (sat_add64 (dl_total d) limit_ms)) (dl_total d))
        (max (dl_cleanup_reserve d div 2) 1) = Ok (for_late_failure_record d now grace_ms limit_ms)"
    then have "d' = \<lparr>dl_start = dl_start d, dl_total = t,
        dl_cleanup_reserve = max (dl_cleanup_reserve d div 2) 1\<rparr> \<and> deadline_ok d'"
      unfolding assms(2) t_def by (rule iffD1 [OF deadline_new_Ok_iff])
    with t assms(1) show ?thesis
      by (auto simp: deadline_ok_def latest_work_time_def expires_at_def)
  qed
qed

section \<open>Properties\<close>

text \<open>
  Whatever sequence of \<open>begin_logical_request\<close> and \<open>reserve_attempt\<close> calls an
  invocation makes, at whatever times and against whatever deadlines, the number of logical
  requests and of reserved HTTP attempts never passes the configured limits, and the issued
  receipts carry exactly the sequence numbers 1, 2, ..., \<open>attempts_used\<close> in order: no
  attempt is issued twice, skipped or left uncounted.
\<close>

theorem attempt_counters_never_exceed_limits:
  "case run counter_step ops (attempt_counters_new limits, []) of (c, rs) \<Rightarrow>
     ac_logical_used c \<le> al_logical_requests limits
   \<and> ac_attempts_used c \<le> al_http_attempts limits
   \<and> map ar_attempt_sequence rs = [1..<Suc (ac_attempts_used c)]
   \<and> length rs = ac_attempts_used c"
proof -
  obtain c rs where run: "run counter_step ops (attempt_counters_new limits, []) = (c, rs)"
    by fastforce
  have inv: "counters_inv (c, rs)"
    using counters.run_inv [OF counters_inv_new, of ops limits] run by (simp add: list.pred_True)
  have lim: "ac_limits c = limits"
    using run_counter_limits [of ops "(attempt_counters_new limits, [])"] run
    by (simp add: attempt_counters_new_def)
  have "length (map ar_attempt_sequence rs) = length [1..<Suc (ac_attempts_used c)]"
    using inv by (simp only: counters_inv_def prod.case)
  then have "length rs = ac_attempts_used c" by simp
  with inv lim run show ?thesis
    by (simp add: counters_inv_def)
qed

text \<open>
  A deadline that \<open>per_case_deadline_at\<close> grants to one evaluation case is valid, starts
  at the case, lasts at most the invocation default and never outlives the batch; and one is
  granted exactly when the case starts inside the batch with more than the cleanup reserve
  left.
\<close>

theorem per_case_deadline_within_batch:
  "((\<exists>d. per_case_deadline_at b cs = Ok d) \<longleftrightarrow>
      bb_start b + bb_max_runtime b \<le> U64_MAX \<and> bb_start b \<le> cs
      \<and> cs + DEFAULT_OUTPUT_CLEANUP_RESERVE_MS < bb_start b + bb_max_runtime b)
   \<and> (\<forall>d. per_case_deadline_at b cs = Ok d \<longrightarrow>
        deadline_ok d \<and> dl_start d = cs \<and> dl_total d \<le> DEFAULT_INVOCATION_DEADLINE_MS
        \<and> expires_at d \<le> bb_start b + bb_max_runtime b)"
  using per_case_deadline_Ok_iff [of b cs]
  by (auto simp: deadline_ok_def expires_at_def
      DEFAULT_OUTPUT_CLEANUP_RESERVE_MS_def DEFAULT_INVOCATION_DEADLINE_MS_def)

theorem per_case_deadline_within_batch_witness:
  "\<exists>d. per_case_deadline_at
        \<lparr>bb_start = 100, bb_max_runtime = 1000, bb_network_mode = ReplayOnlyZeroNetwork\<rparr> 500 = Ok d
      \<and> deadline_ok d \<and> dl_start d = 500 \<and> expires_at d \<le> 1100"
  using per_case_deadline_within_batch
    [of "\<lparr>bb_start = 100, bb_max_runtime = 1000, bb_network_mode = ReplayOnlyZeroNetwork\<rparr>" 500]
  by (simp add: DEFAULT_OUTPUT_CLEANUP_RESERVE_MS_def U64_MAX_def) blast

text \<open>
  Recording a failure never costs the process its deadline: halving the cleanup reserve of
  a valid deadline always succeeds (so the \<open>expect\<close> in \<open>for_failure_finalization\<close>
  is never reached), it only lengthens the work window and still leaves a reserve before the
  unchanged expiry; and the horizon that \<open>for_late_failure_record\<close> grants is a valid
  deadline that never ends before the original and never more than \<open>limit_ms\<close> after it.
\<close>

theorem failure_deadlines_bounded:
  assumes "deadline_ok d"
  shows "(\<exists>d'. for_failure_finalization d = Ok d' \<and> deadline_ok d'
            \<and> latest_work_time d \<le> latest_work_time d' \<and> latest_work_time d' < expires_at d'
            \<and> expires_at d' = expires_at d)
       \<and> deadline_ok (for_late_failure_record d now grace_ms limit_ms)
       \<and> latest_work_time d \<le> latest_work_time (for_late_failure_record d now grace_ms limit_ms)
       \<and> expires_at d \<le> expires_at (for_late_failure_record d now grace_ms limit_ms)
       \<and> expires_at (for_late_failure_record d now grace_ms limit_ms) \<le> expires_at d + limit_ms"
  using for_failure_finalization_ok [OF assms]
    for_late_failure_record_ok [OF assms refl, of now grace_ms limit_ms] by simp

theorem failure_deadlines_bounded_witness:
  "expires_at (for_late_failure_record
      \<lparr>dl_start = 0, dl_total = 3000, dl_cleanup_reserve = 200\<rparr> 3100 50 500) \<le> 3500"
proof -
  have "deadline_ok \<lparr>dl_start = 0, dl_total = 3000, dl_cleanup_reserve = 200\<rparr>"
    by (simp add: deadline_ok_def U64_MAX_def)
  from failure_deadlines_bounded [OF this, of 3100 50 500] show ?thesis
    by (simp add: expires_at_def)
qed

text \<open>
  The bounded scan of \<open>check_unicode_scalars\<close>, which stops one scalar past the limit and
  skips the scan altogether when that sum would overflow, accepts exactly the texts with at
  most \<open>max\<close> scalar values, for every text that fits in memory.
\<close>

theorem check_unicode_scalars_exact:
  assumes "str_len s \<le> USIZE_MAX"
  shows "check_unicode_scalars l s = Ok () \<longleftrightarrow>
     rl_unit l = UnicodeScalars \<and> length s \<le> rl_max l"
  using assms length_le_str_len [of s]
  by (auto simp: check_unicode_scalars_def require_unit_def cap_plus_one_def check_limit_def
      min_def split: if_splits)

theorem check_unicode_scalars_exact_witness:
  "check_unicode_scalars \<lparr>rl_name = ''wide_excerpt'', rl_unit = UnicodeScalars, rl_max = 2\<rparr> [233, 65]
     = Ok ()"
proof -
  have "str_len [233, 65] \<le> USIZE_MAX"
    by (simp add: str_len_def utf8_len_def USIZE_MAX_def U64_MAX_def)
  from check_unicode_scalars_exact [OF this] show ?thesis by simp
qed

end
