(* ===== verification/Breaker.thy ===== *)
theory Breaker
  imports Sr_Prelude
begin

text \<open>
  Model of \<open>src/src/breaker.rs\<close>: the provider circuit breaker. \<open>BreakerRow\<close> is the
  source's \<open>Row\<close>, with its pure transitions \<open>row_admit\<close>, \<open>open_for\<close> and
  \<open>row_settle\<close>; \<open>decode_row\<close>, \<open>sqlite_integer\<close> and \<open>transact\<close> model the
  persisted form and the transaction around one transition; \<open>breaker_admit\<close> and
  \<open>breaker_settle\<close> model the shared store with its process-local fallback.

  Wall-clock readings, the process id and the process-wide token counter are arguments. The
  behaviour of SQLite and of the file system is the argument \<open>store_env\<close>: which calls
  succeed. The properties hold for every such behaviour.
\<close>

section \<open>Types and constants\<close>

definition OPEN_AFTER_FAILURES :: u32 where "OPEN_AFTER_FAILURES = 3"
definition BASE_COOLDOWN_MS :: u64 where "BASE_COOLDOWN_MS = 30000"
definition MAX_COOLDOWN_MS :: u64 where "MAX_COOLDOWN_MS = 300000"
definition MAX_RETRY_AFTER_MS :: u64 where "MAX_RETRY_AFTER_MS = 3600000"

record Ticket =
  tk_generation :: u64
  tk_probe :: "string option"

datatype Refusal = CoolingDown u64 | ProbeInFlight

datatype Outcome =
    Success
  | Transient "u64 option"
  | Neutral

datatype Protection = Shared | ProcessLocal

definition protection_as_str :: "Protection \<Rightarrow> string" where
  "protection_as_str p = (case p of Shared \<Rightarrow> ''shared'' | ProcessLocal \<Rightarrow> ''process-local'')"

record BreakerRow =
  row_generation :: u64
  row_open :: bool
  row_failures :: u32
  row_cooldown_ms :: u64
  row_open_until_ms :: u64
  row_probe_token :: "string option"
  row_probe_expires_ms :: u64
  row_retry_after_until_ms :: u64

definition row_default :: BreakerRow where
  "row_default = \<lparr>row_generation = 0, row_open = False, row_failures = 0, row_cooldown_ms = 0,
     row_open_until_ms = 0, row_probe_token = None, row_probe_expires_ms = 0,
     row_retry_after_until_ms = 0\<rparr>"

section \<open>The pure transitions of a row\<close>

definition probe_token :: "u64 \<Rightarrow> u32 \<Rightarrow> u64 \<Rightarrow> string" where
  "probe_token now pid counter = hex now @ CHR ''-'' # hex pid @ CHR ''-'' # hex counter"

text \<open>\<open>counter\<close> is the value of the process-wide \<open>COUNTER\<close> that this call would draw.\<close>

definition row_admit ::
  "u64 \<Rightarrow> u64 \<Rightarrow> u32 \<Rightarrow> u64 \<Rightarrow> BreakerRow \<Rightarrow> (Ticket, Refusal) result \<times> BreakerRow" where
  "row_admit now lease_ms pid counter r =
     (if now < row_retry_after_until_ms r then (Err (CoolingDown (row_retry_after_until_ms r)), r)
      else if \<not> row_open r then (Ok \<lparr>tk_generation = row_generation r, tk_probe = None\<rparr>, r)
      else if now < row_open_until_ms r then (Err (CoolingDown (row_open_until_ms r)), r)
      else if row_probe_token r \<noteq> None \<and> now < row_probe_expires_ms r then (Err ProbeInFlight, r)
      else
        let token = probe_token now pid counter in
        (Ok \<lparr>tk_generation = row_generation r, tk_probe = Some token\<rparr>,
         r\<lparr>row_probe_token := Some token, row_probe_expires_ms := sat_add64 now lease_ms\<rparr>))"

definition open_for :: "u64 \<Rightarrow> u64 \<Rightarrow> BreakerRow \<Rightarrow> BreakerRow" where
  "open_for now cooldown_ms r =
     r\<lparr>row_generation := wrapping_add64 (row_generation r) 1, row_open := True, row_failures := 0,
       row_cooldown_ms := cooldown_ms, row_open_until_ms := sat_add64 now cooldown_ms,
       row_probe_token := None, row_probe_expires_ms := 0\<rparr>"

definition owns_probe :: "BreakerRow \<Rightarrow> Ticket \<Rightarrow> bool" where
  "owns_probe r ticket \<longleftrightarrow>
     row_open r \<and> tk_probe ticket \<noteq> None \<and> tk_probe ticket = row_probe_token r"

text \<open>The doubling \<open>* 2\<close> is a plain \<open>u64\<close> multiplication, so it would wrap.\<close>

definition row_settle :: "Ticket \<Rightarrow> Outcome \<Rightarrow> u64 \<Rightarrow> BreakerRow \<Rightarrow> BreakerRow" where
  "row_settle ticket outcome now r =
     (if tk_generation ticket \<noteq> row_generation r then r
      else
        let owns = owns_probe r ticket in
        if row_open r \<and> (\<not> owns \<or> now \<ge> row_probe_expires_ms r) then r
        else case outcome of
          Success \<Rightarrow>
            (if owns then row_default\<lparr>row_generation := wrapping_add64 (row_generation r) 1\<rparr>
             else if \<not> row_open r then r\<lparr>row_failures := 0, row_retry_after_until_ms := 0\<rparr>
             else r)
        | Transient retry_after_ms \<Rightarrow>
            (let r1 = (case retry_after_ms of
                  Some delay \<Rightarrow> r\<lparr>row_retry_after_until_ms :=
                     max (row_retry_after_until_ms r)
                       (sat_add64 now (min delay MAX_RETRY_AFTER_MS))\<rparr>
                | None \<Rightarrow> r) in
             if owns then
               open_for now
                 (min (((max (row_cooldown_ms r1) BASE_COOLDOWN_MS) * 2) mod (U64_MAX + 1))
                   MAX_COOLDOWN_MS) r1
             else if \<not> row_open r1 then
               (let r2 = r1\<lparr>row_failures := wrapping_add32 (row_failures r1) 1\<rparr> in
                if row_failures r2 \<ge> OPEN_AFTER_FAILURES then open_for now BASE_COOLDOWN_MS r2
                else r2)
             else r1)
        | Neutral \<Rightarrow>
            (if owns then r\<lparr>row_probe_token := None, row_probe_expires_ms := 0\<rparr> else r))"

section \<open>The persisted row\<close>

text \<open>A row of the table \<open>breaker_state\<close>: SQLite stores signed 64-bit integers.\<close>

record StoredRow =
  st_generation :: i64
  st_open :: i64
  st_failures :: i64
  st_cooldown_ms :: i64
  st_open_until_ms :: i64
  st_probe_token :: "string option"
  st_probe_expires_ms :: i64
  st_retry_after_until_ms :: i64

datatype StoreError = IntegralValueOutOfRange i64 | InvalidQuery | EngineError

definition stored_unsigned :: "i64 \<Rightarrow> (u64, StoreError) result" where
  "stored_unsigned v = (if 0 \<le> v then Ok (nat v) else Err (IntegralValueOutOfRange v))"

definition decode_row :: "StoredRow \<Rightarrow> (BreakerRow, StoreError) result" where
  "decode_row s =
     and_then (stored_unsigned (st_failures s)) (\<lambda>failures.
     and_then (stored_unsigned (st_cooldown_ms s)) (\<lambda>cooldown_ms.
       if failures \<ge> OPEN_AFTER_FAILURES \<or> cooldown_ms > MAX_COOLDOWN_MS then Err InvalidQuery
       else
     and_then (stored_unsigned (st_generation s)) (\<lambda>generation.
     and_then (if st_open s = 0 then Ok False else if st_open s = 1 then Ok True
               else Err InvalidQuery) (\<lambda>opn.
     and_then (if failures \<le> U32_MAX then Ok failures else Err InvalidQuery) (\<lambda>failures.
     and_then (stored_unsigned (st_open_until_ms s)) (\<lambda>open_until.
     and_then (stored_unsigned (st_probe_expires_ms s)) (\<lambda>probe_expires.
     and_then (stored_unsigned (st_retry_after_until_ms s)) (\<lambda>retry_until.
       Ok \<lparr>row_generation = generation, row_open = opn, row_failures = failures,
           row_cooldown_ms = cooldown_ms, row_open_until_ms = open_until,
           row_probe_token = st_probe_token s, row_probe_expires_ms = probe_expires,
           row_retry_after_until_ms = retry_until\<rparr>))))))))"

definition sqlite_integer :: "u64 \<Rightarrow> (i64, StoreError) result" where
  "sqlite_integer v = (if int v \<le> I64_MAX then Ok (int v) else Err InvalidQuery)"

definition encode_row :: "BreakerRow \<Rightarrow> (StoredRow, StoreError) result" where
  "encode_row r =
     and_then (sqlite_integer (row_generation r)) (\<lambda>generation.
     and_then (sqlite_integer (row_cooldown_ms r)) (\<lambda>cooldown_ms.
     and_then (sqlite_integer (row_open_until_ms r)) (\<lambda>open_until.
     and_then (sqlite_integer (row_probe_expires_ms r)) (\<lambda>probe_expires.
     and_then (sqlite_integer (row_retry_after_until_ms r)) (\<lambda>retry_until.
       Ok \<lparr>st_generation = generation, st_open = (if row_open r then 1 else 0),
           st_failures = int (row_failures r), st_cooldown_ms = cooldown_ms,
           st_open_until_ms = open_until, st_probe_token = row_probe_token r,
           st_probe_expires_ms = probe_expires, st_retry_after_until_ms = retry_until\<rparr>)))))"

section \<open>The shared store and the process-local fallback\<close>

text \<open>
  The store on disk: absent, or a table from origins to rows. \<open>store_env\<close> is what the
  operating system and SQLite answer during one call: whether inspecting the path fails,
  whether an existing file has no schema yet (then opening without \<open>create\<close> yields no
  store), whether every step up to the row's write succeeds, whether the commit does, and
  whether the final verification does.
\<close>

type_synonym origin = string
type_synonym breaker_store = "(origin \<rightharpoonup> StoredRow) option"

record store_env =
  env_metadata_ok :: bool
  env_schema_empty :: bool
  env_open_ok :: bool
  env_commit_ok :: bool
  env_verify_ok :: bool

definition transact ::
  "store_env \<Rightarrow> origin \<Rightarrow> bool \<Rightarrow> (BreakerRow \<Rightarrow> 'a \<times> BreakerRow) \<Rightarrow> breaker_store
     \<Rightarrow> ('a option, StoreError) result \<times> breaker_store" where
  "transact env orig create change store =
     (if \<not> env_open_ok env then (Err EngineError, store)
      else if env_schema_empty env \<and> \<not> create then (Ok None, store)
      else
        let table = (case store of Some t \<Rightarrow> t | None \<Rightarrow> Map.empty) in
        case (case table orig of
                None \<Rightarrow> Ok row_default
              | Some stored \<Rightarrow> decode_row stored) of
          Err e \<Rightarrow> (Err e, Some table)
        | Ok row \<Rightarrow>
            (let (value, row') = change row in
             if row' = row then
               (if env_commit_ok env \<and> env_verify_ok env then Ok (Some value) else Err EngineError,
                Some table)
             else case encode_row row' of
               Err e \<Rightarrow> (Err e, Some table)
             | Ok stored \<Rightarrow>
                 if \<not> env_commit_ok env then (Err EngineError, Some table)
                 else (if env_verify_ok env then Ok (Some value) else Err EngineError,
                       Some (table(orig \<mapsto> stored)))))"

record CircuitBreaker =
  br_path :: bool
  br_origin :: origin
  br_local :: BreakerRow
  br_degraded :: bool

definition breaker_new :: "bool \<Rightarrow> origin \<Rightarrow> CircuitBreaker" where
  "breaker_new path orig =
     \<lparr>br_path = path, br_origin = orig, br_local = row_default, br_degraded = False\<rparr>"

definition breaker_protection :: "CircuitBreaker \<Rightarrow> Protection" where
  "breaker_protection b = (if br_path b \<and> \<not> br_degraded b then Shared else ProcessLocal)"

definition breaker_shared ::
  "store_env \<Rightarrow> bool \<Rightarrow> (BreakerRow \<Rightarrow> 'a \<times> BreakerRow) \<Rightarrow> CircuitBreaker \<Rightarrow> breaker_store
     \<Rightarrow> 'a option \<times> CircuitBreaker \<times> breaker_store" where
  "breaker_shared env create change b store =
     (if \<not> br_path b then (None, b, store)
      else if br_degraded b then (None, b, store)
      else if \<not> create \<and> env_metadata_ok env \<and> store = None then (None, b, store)
      else if \<not> create \<and> \<not> env_metadata_ok env then (None, b\<lparr>br_degraded := True\<rparr>, store)
      else case transact env (br_origin b) create change store of
        (Ok value, store') \<Rightarrow> (value, b, store')
      | (Err _, store') \<Rightarrow> (None, b\<lparr>br_degraded := True\<rparr>, store'))"

text \<open>A poisoned lock of the local row admits with generation 0 and settles nothing.\<close>

definition breaker_admit ::
  "store_env \<Rightarrow> bool \<Rightarrow> u64 \<Rightarrow> u64 \<Rightarrow> u32 \<Rightarrow> u64 \<Rightarrow> CircuitBreaker \<Rightarrow> breaker_store
     \<Rightarrow> (Ticket, Refusal) result \<times> CircuitBreaker \<times> breaker_store" where
  "breaker_admit env poisoned now lease_ms pid counter b store =
     (case breaker_shared env False (row_admit now lease_ms pid counter) b store of
        (Some res, b', store') \<Rightarrow> (res, b', store')
      | (None, b', store') \<Rightarrow>
          if poisoned then (Ok \<lparr>tk_generation = 0, tk_probe = None\<rparr>, b', store')
          else
            let (res, local') = row_admit now lease_ms pid counter (br_local b') in
            (res, b'\<lparr>br_local := local'\<rparr>, store'))"

definition is_transient :: "Outcome \<Rightarrow> bool" where
  "is_transient oc = (case oc of Transient _ \<Rightarrow> True | _ \<Rightarrow> False)"

definition breaker_settle ::
  "store_env \<Rightarrow> bool \<Rightarrow> Ticket \<Rightarrow> Outcome \<Rightarrow> u64 \<Rightarrow> CircuitBreaker \<Rightarrow> breaker_store
     \<Rightarrow> CircuitBreaker \<times> breaker_store" where
  "breaker_settle env poisoned ticket outcome now b store =
     (case breaker_shared env (is_transient outcome)
             (\<lambda>row. ((), row_settle ticket outcome now row)) b store of
        (Some _, b', store') \<Rightarrow> (b', store')
      | (None, b', store') \<Rightarrow>
          if poisoned then (b', store')
          else (b'\<lparr>br_local := row_settle ticket outcome now (br_local b')\<rparr>, store'))"

section \<open>Runs of a row\<close>

datatype row_op =
    RAdmit u64 u64 u32 u64
  | RSettle Ticket Outcome u64

fun row_step :: "row_op \<Rightarrow> BreakerRow \<Rightarrow> BreakerRow" where
  "row_step (RAdmit now lease_ms pid counter) r = snd (row_admit now lease_ms pid counter r)"
| "row_step (RSettle ticket outcome now) r = row_settle ticket outcome now r"

text \<open>The invariant of every row the transitions produce from the default row.\<close>

definition row_inv :: "BreakerRow \<Rightarrow> bool" where
  "row_inv r \<longleftrightarrow>
     row_failures r < OPEN_AFTER_FAILURES \<and> row_cooldown_ms r \<le> MAX_COOLDOWN_MS
   \<and> row_generation r \<le> U64_MAX
   \<and> (row_open r \<longrightarrow> row_failures r = 0 \<and> BASE_COOLDOWN_MS \<le> row_cooldown_ms r)
   \<and> (\<not> row_open r \<longrightarrow> row_cooldown_ms r = 0 \<and> row_open_until_ms r = 0
        \<and> row_probe_token r = None \<and> row_probe_expires_ms r = 0)"

text \<open>The moment from which a row admits again, whatever happened before.\<close>

definition blocked_until :: "BreakerRow \<Rightarrow> u64" where
  "blocked_until r =
     max (row_retry_after_until_ms r) (max (row_open_until_ms r) (row_probe_expires_ms r))"

definition row_op_within :: "u64 \<Rightarrow> u64 \<Rightarrow> row_op \<Rightarrow> bool" where
  "row_op_within T L x = (case x of
      RAdmit now lease_ms _ _ \<Rightarrow> now \<le> T \<and> lease_ms \<le> L
    | RSettle _ _ now \<Rightarrow> now \<le> T)"

definition horizon :: "u64 \<Rightarrow> u64 \<Rightarrow> u64" where
  "horizon T L = T + max MAX_RETRY_AFTER_MS (max MAX_COOLDOWN_MS L)"

section \<open>Lemmas on one transition\<close>

lemmas breaker_consts =
  OPEN_AFTER_FAILURES_def BASE_COOLDOWN_MS_def MAX_COOLDOWN_MS_def MAX_RETRY_AFTER_MS_def

lemma wrapping_add32_Suc [simp]: "n < 3 \<Longrightarrow> wrapping_add32 n (Suc 0) = Suc n"
  by (simp add: wrapping_add32_def U32_MAX_def)

text \<open>Under the invariant the doubled cooldown cannot wrap, and stays within the policy.\<close>

lemma doubled_cooldown:
  assumes "row_inv r"
  shows "min (((max (row_cooldown_ms r) BASE_COOLDOWN_MS) * 2) mod (U64_MAX + 1)) MAX_COOLDOWN_MS
     = min (2 * max (row_cooldown_ms r) BASE_COOLDOWN_MS) MAX_COOLDOWN_MS"
  using assms by (simp add: row_inv_def breaker_consts U64_MAX_def)

lemma row_admit_inv: "row_inv r \<Longrightarrow> row_inv (snd (row_admit now lease_ms pid counter r))"
  by (auto simp: row_admit_def row_inv_def Let_def)

lemma row_inv_open_for:
  "row_inv r \<Longrightarrow> BASE_COOLDOWN_MS \<le> c \<Longrightarrow> c \<le> MAX_COOLDOWN_MS \<Longrightarrow> row_inv (open_for now c r)"
  by (simp add: row_inv_def open_for_def breaker_consts wrapping_add64_le_max)

lemma row_inv_default: "row_inv row_default"
  by (simp add: row_inv_def row_default_def breaker_consts)

text \<open>
  Settlement, branch by branch: nothing changes unless the ticket is of the current
  generation and, on an open circuit, owns the unexpired probe.
\<close>

definition settles :: "BreakerRow \<Rightarrow> Ticket \<Rightarrow> u64 \<Rightarrow> bool" where
  "settles r ticket now \<longleftrightarrow> tk_generation ticket = row_generation r
     \<and> (row_open r \<longrightarrow> owns_probe r ticket \<and> now < row_probe_expires_ms r)"

definition with_retry_after :: "u64 option \<Rightarrow> u64 \<Rightarrow> BreakerRow \<Rightarrow> BreakerRow" where
  "with_retry_after ra now r = (case ra of
     Some delay \<Rightarrow> r\<lparr>row_retry_after_until_ms := max (row_retry_after_until_ms r)
                      (sat_add64 now (min delay MAX_RETRY_AFTER_MS))\<rparr>
   | None \<Rightarrow> r)"

lemma with_retry_after_frame [simp]:
  "row_generation (with_retry_after ra now r) = row_generation r"
  "row_open (with_retry_after ra now r) = row_open r"
  "row_failures (with_retry_after ra now r) = row_failures r"
  "row_cooldown_ms (with_retry_after ra now r) = row_cooldown_ms r"
  "row_open_until_ms (with_retry_after ra now r) = row_open_until_ms r"
  "row_probe_token (with_retry_after ra now r) = row_probe_token r"
  "row_probe_expires_ms (with_retry_after ra now r) = row_probe_expires_ms r"
  by (simp_all add: with_retry_after_def split: option.split)

lemma row_inv_with_retry_after [simp]: "row_inv (with_retry_after ra now r) = row_inv r"
  by (simp add: row_inv_def)

lemma row_settle_fenced: "\<not> settles r ticket now \<Longrightarrow> row_settle ticket outcome now r = r"
  by (auto simp: row_settle_def settles_def)

lemma row_settle_open:
  assumes "settles r ticket now" and "row_open r" and "row_inv r"
  shows "row_settle ticket outcome now r = (case outcome of
      Success \<Rightarrow> row_default\<lparr>row_generation := wrapping_add64 (row_generation r) 1\<rparr>
    | Transient ra \<Rightarrow> open_for now (min (2 * row_cooldown_ms r) MAX_COOLDOWN_MS)
                        (with_retry_after ra now r)
    | Neutral \<Rightarrow> r\<lparr>row_probe_token := None, row_probe_expires_ms := 0\<rparr>)"
proof -
  have "max (row_cooldown_ms r) BASE_COOLDOWN_MS = row_cooldown_ms r"
    using assms by (simp add: row_inv_def)
  moreover have "row_cooldown_ms r * 2 mod Suc U64_MAX = row_cooldown_ms r * 2"
    using assms by (simp add: row_inv_def breaker_consts U64_MAX_def)
  moreover have "owns_probe r ticket" "tk_generation ticket = row_generation r"
    "\<not> row_probe_expires_ms r \<le> now"
    using assms by (auto simp: settles_def)
  ultimately show ?thesis
    using assms(2)
    by (cases outcome)
      (simp_all add: row_settle_def Let_def with_retry_after_def [symmetric] mult.commute)
qed

lemma row_settle_closed:
  assumes "settles r ticket now" and "\<not> row_open r" and "row_inv r"
  shows "row_settle ticket outcome now r = (case outcome of
      Success \<Rightarrow> r\<lparr>row_failures := 0, row_retry_after_until_ms := 0\<rparr>
    | Transient ra \<Rightarrow>
        (let r' = (with_retry_after ra now r)\<lparr>row_failures := row_failures r + 1\<rparr> in
         if row_failures r + 1 \<ge> OPEN_AFTER_FAILURES then open_for now BASE_COOLDOWN_MS r' else r')
    | Neutral \<Rightarrow> r)"
proof -
  have "\<not> owns_probe r ticket" "tk_generation ticket = row_generation r" "row_failures r < 3"
    using assms by (auto simp: settles_def owns_probe_def row_inv_def breaker_consts)
  then show ?thesis
    using assms(2)
    by (cases outcome) (simp_all add: row_settle_def Let_def with_retry_after_def [symmetric])
qed

lemma row_inv_closed_by_success:
  "row_inv (row_default\<lparr>row_generation := wrapping_add64 g k\<rparr>)"
  using wrapping_add64_le_max [of g k] by (simp add: row_inv_def row_default_def breaker_consts)

lemma row_inv_clear_probe:
  "row_inv r \<Longrightarrow> row_inv (r\<lparr>row_probe_token := None, row_probe_expires_ms := 0\<rparr>)"
  by (simp add: row_inv_def)

lemma row_inv_failures:
  "row_inv r \<Longrightarrow> \<not> row_open r \<Longrightarrow> n < OPEN_AFTER_FAILURES \<Longrightarrow> row_inv (r\<lparr>row_failures := n\<rparr>)"
  by (simp add: row_inv_def)

lemma row_inv_retry_after: "row_inv (r\<lparr>row_retry_after_until_ms := t\<rparr>) = row_inv r"
  by (simp add: row_inv_def)

lemma open_for_failures [simp]: "open_for now c (r\<lparr>row_failures := n\<rparr>) = open_for now c r"
  by (simp add: open_for_def)

lemma row_settle_inv:
  assumes "row_inv r"
  shows "row_inv (row_settle ticket outcome now r)"
proof (cases "settles r ticket now")
  case False
  with assms show ?thesis by (simp add: row_settle_fenced)
next
  case settles: True
  show ?thesis
  proof (cases "row_open r")
    case True
    then have "BASE_COOLDOWN_MS \<le> min (2 * row_cooldown_ms r) MAX_COOLDOWN_MS"
      using assms by (simp add: row_inv_def breaker_consts)
    with True settles assms show ?thesis
      by (cases outcome)
        (simp_all add: row_settle_open row_inv_closed_by_success row_inv_clear_probe
          row_inv_open_for)
  next
    case False
    have "BASE_COOLDOWN_MS \<le> MAX_COOLDOWN_MS" "0 < OPEN_AFTER_FAILURES"
      by (simp_all add: breaker_consts)
    with False settles assms show ?thesis
      by (cases outcome)
        (simp_all add: row_settle_closed row_inv_failures row_inv_retry_after row_inv_open_for
          Let_def)
  qed
qed

lemma row_step_inv: "row_inv r \<Longrightarrow> row_inv (row_step x r)"
  by (cases x) (simp_all add: row_admit_inv row_settle_inv)

interpretation row: machine_invariant row_step "\<lambda>_. True" row_inv
  by unfold_locales (rule row_step_inv)

text \<open>Three transient failures in a row open a fresh circuit for thirty seconds.\<close>

lemma failure_counts:
  "n < 2 \<Longrightarrow> row_settle \<lparr>tk_generation = 0, tk_probe = None\<rparr> (Transient None) now
       (row_default\<lparr>row_failures := n\<rparr>) = row_default\<lparr>row_failures := Suc n\<rparr>"
  by (simp add: row_settle_def row_default_def owns_probe_def Let_def breaker_consts)

lemma third_failure_opens:
  "row_settle \<lparr>tk_generation = 0, tk_probe = None\<rparr> (Transient None) now
       (row_default\<lparr>row_failures := 2\<rparr>) = open_for now BASE_COOLDOWN_MS row_default"
  by (simp add: row_settle_def row_default_def owns_probe_def Let_def breaker_consts open_for_def)

lemma three_failures_open:
  "run row_step (replicate 3 (RSettle \<lparr>tk_generation = 0, tk_probe = None\<rparr> (Transient None) now))
     row_default = open_for now BASE_COOLDOWN_MS row_default"
proof -
  have "row_default = row_default\<lparr>row_failures := 0\<rparr>" by (simp add: row_default_def)
  then show ?thesis
    using failure_counts [of 0 now] failure_counts [of 1 now] third_failure_opens [of now]
    by (simp add: numeral_3_eq_3 numeral_2_eq_2)
qed

section \<open>Generations fence late settlements\<close>

lemma row_admit_frame [simp]:
  "row_generation (snd (row_admit now lease_ms pid counter r)) = row_generation r"
  "row_open (snd (row_admit now lease_ms pid counter r)) = row_open r"
  by (simp_all add: row_admit_def Let_def)

lemma row_settle_generation:
  assumes "row_inv r" and "row_generation r < U64_MAX"
  shows "row_generation (row_settle ticket outcome now r) = row_generation r
           \<and> row_open (row_settle ticket outcome now r) = row_open r
       \<or> row_generation (row_settle ticket outcome now r) = Suc (row_generation r)"
proof -
  have wrap: "wrapping_add64 (row_generation r) (Suc 0) = Suc (row_generation r)"
    using assms(2) by (simp add: wrapping_add64_exact)
  show ?thesis
  proof (cases "settles r ticket now")
    case False
    then show ?thesis by (simp add: row_settle_fenced)
  next
    case True
    with assms(1) wrap show ?thesis
      by (cases "row_open r"; cases outcome)
        (simp_all add: row_settle_open row_settle_closed open_for_def Let_def)
  qed
qed

lemma row_step_generation:
  assumes "row_inv r" and "row_generation r < U64_MAX"
  shows "row_generation (row_step x r) = row_generation r \<and> row_open (row_step x r) = row_open r
       \<or> row_generation (row_step x r) = Suc (row_generation r)"
  using row_settle_generation [OF assms] by (cases x) simp_all

interpretation circuit: fenced row_step "\<lambda>_. True" row_inv row_generation
  "\<lambda>n r. row_generation r + n \<le> U64_MAX" row_open tk_generation
  "\<lambda>r t. \<exists>outcome now. row_settle t outcome now r \<noteq> r"
proof unfold_locales
  fix r x n
  assume r: "row_inv r" and "row_generation r + Suc n \<le> U64_MAX"
  then have g: "row_generation r < U64_MAX" and room: "Suc (row_generation r) + n \<le> U64_MAX"
    by simp_all
  note step = row_step_generation [OF r g, of x]
  show "row_generation r \<le> row_generation (row_step x r)"
    using step by auto
  show "row_generation (row_step x r) + n \<le> U64_MAX"
    using step room by auto
  show "row_generation (row_step x r) = row_generation r \<Longrightarrow> row_open (row_step x r) = row_open r"
    using step by auto
next
  fix r t
  assume "\<exists>outcome now. row_settle t outcome now r \<noteq> r"
  then show "tk_generation t = row_generation r"
    using row_settle_fenced by (auto simp: settles_def)
qed

section \<open>One probe at a time\<close>

lemma row_admit_Ok_iff:
  "fst (row_admit now lease_ms pid counter r) = Ok t \<longleftrightarrow>
     row_retry_after_until_ms r \<le> now \<and> tk_generation t = row_generation r
   \<and> (if row_open r
      then row_open_until_ms r \<le> now
         \<and> (row_probe_token r = None \<or> row_probe_expires_ms r \<le> now)
         \<and> tk_probe t = Some (probe_token now pid counter)
      else tk_probe t = None)"
  by (cases t) (auto simp: row_admit_def Let_def)

lemma admitted_probe_row:
  assumes "row_admit now lease_ms pid counter r = (Ok t, r')" and "tk_probe t = Some tok"
  shows "row_open r' \<and> row_probe_token r' = Some tok
       \<and> row_probe_expires_ms r' = sat_add64 now lease_ms \<and> row_generation r' = tk_generation t"
  using assms by (auto simp: row_admit_def Let_def split: if_splits)

lemma probe_held_admit:
  assumes "row_open r" and "row_probe_token r = Some tok" and "now < row_probe_expires_ms r"
  shows "\<exists>e. row_admit now lease_ms pid counter r = (Err e, r)"
  using assms by (auto simp: row_admit_def)

lemma probe_held_settle:
  assumes "row_open r" and "row_probe_token r = Some tok" and "tk_probe t \<noteq> Some tok"
  shows "row_settle t outcome now r = r"
  using assms by (intro row_settle_fenced) (auto simp: settles_def owns_probe_def)

text \<open>What other processes may do while a probe is outstanding.\<close>

definition during_probe :: "string \<Rightarrow> u64 \<Rightarrow> row_op \<Rightarrow> bool" where
  "during_probe tok expiry x = (case x of
      RAdmit now _ _ _ \<Rightarrow> now < expiry
    | RSettle t _ _ \<Rightarrow> tk_probe t \<noteq> Some tok)"

lemma probe_held_step:
  assumes "row_open r" and "row_probe_token r = Some tok"
    and "during_probe tok (row_probe_expires_ms r) x"
  shows "row_step x r = r"
proof (cases x)
  case (RAdmit now lease_ms pid counter)
  with assms show ?thesis
    using probe_held_admit [OF assms(1,2), of now lease_ms pid counter]
    by (auto simp: during_probe_def)
next
  case (RSettle t outcome now)
  with assms show ?thesis
    using probe_held_settle [OF assms(1,2)] by (simp add: during_probe_def)
qed

section \<open>Refusals end\<close>

lemma blocked_until_admits:
  "blocked_until r \<le> now \<Longrightarrow> \<exists>t. fst (row_admit now lease_ms pid counter r) = Ok t"
  by (auto simp: blocked_until_def row_admit_def Let_def)

lemma row_step_blocked_until:
  assumes "row_inv r \<and> blocked_until r \<le> horizon T L" and "row_op_within T L x"
  shows "row_inv (row_step x r) \<and> blocked_until (row_step x r) \<le> horizon T L"
proof
  show "row_inv (row_step x r)" using assms(1) by (simp add: row_step_inv)
  have sat: "sat_add64 now d \<le> horizon T L"
    if "now \<le> T" and "d \<le> max MAX_RETRY_AFTER_MS (max MAX_COOLDOWN_MS L)" for now d
    using sat_add64_le_sum [of now d] that by (simp add: horizon_def)
  have "BASE_COOLDOWN_MS \<le> max MAX_RETRY_AFTER_MS (max MAX_COOLDOWN_MS L)"
    by (simp add: breaker_consts)
  note le = this sat
  show "blocked_until (row_step x r) \<le> horizon T L"
  proof (cases x)
    case (RAdmit now lease_ms pid counter)
    with assms show ?thesis
      by (auto simp: row_admit_def Let_def blocked_until_def row_op_within_def intro!: le)
  next
    case (RSettle t outcome now)
    then have now: "now \<le> T" using assms(2) by (simp add: row_op_within_def)
    have retry: "blocked_until (with_retry_after ra now r) \<le> horizon T L" for ra
      using assms(1) now by (auto simp: with_retry_after_def blocked_until_def intro!: le split: option.split)
    show ?thesis
    proof (cases "settles r t now")
      case False
      with RSettle assms(1) show ?thesis by (simp add: row_settle_fenced)
    next
      case True
      with RSettle assms(1) now retry show ?thesis
        by (cases "row_open r"; cases outcome)
          (auto simp: row_settle_open row_settle_closed open_for_def blocked_until_def Let_def
            row_default_def intro!: le)
    qed
  qed
qed

interpretation row_times: machine_invariant row_step "row_op_within T L"
  "\<lambda>r. row_inv r \<and> blocked_until r \<le> horizon T L" for T L
  by unfold_locales (rule row_step_blocked_until)

section \<open>The persisted row round-trips\<close>

lemma encode_row_Ok_iff:
  "(\<exists>s. encode_row r = Ok s) \<longleftrightarrow>
     int (row_generation r) \<le> I64_MAX \<and> int (row_cooldown_ms r) \<le> I64_MAX
   \<and> int (row_open_until_ms r) \<le> I64_MAX \<and> int (row_probe_expires_ms r) \<le> I64_MAX
   \<and> int (row_retry_after_until_ms r) \<le> I64_MAX"
  by (auto simp: encode_row_def sqlite_integer_def)

lemma decode_encode_row:
  assumes "row_inv r" and "encode_row r = Ok s"
  shows "decode_row s = Ok r"
  using assms
  by (cases r)
    (auto simp: encode_row_def decode_row_def sqlite_integer_def stored_unsigned_def row_inv_def
      breaker_consts U32_MAX_def split: if_splits)

section \<open>The shared store implements the row machine\<close>

definition stored_row :: "breaker_store \<Rightarrow> origin \<Rightarrow> (BreakerRow, StoreError) result" where
  "stored_row store orig =
     (case store of None \<Rightarrow> Ok row_default
      | Some t \<Rightarrow> (case t orig of None \<Rightarrow> Ok row_default | Some s \<Rightarrow> decode_row s))"

definition healthy :: "store_env \<Rightarrow> bool" where
  "healthy env \<longleftrightarrow> env_metadata_ok env \<and> \<not> env_schema_empty env \<and> env_open_ok env
     \<and> env_commit_ok env \<and> env_verify_ok env"

lemma transact_healthy:
  assumes "healthy env" and "stored_row store orig = Ok row" and "change row = (v, row')"
    and "row_inv row'" and "encode_row row' = Ok s"
  shows "\<exists>store'. transact env orig create change store = (Ok (Some v), store')
     \<and> stored_row store' orig = Ok row' \<and> store' \<noteq> None
     \<and> (\<forall>o'. o' \<noteq> orig \<longrightarrow> stored_row store' o' = stored_row store o')"
  using assms decode_encode_row [OF assms(4,5)]
  by (cases store; cases "row' = row")
    (auto simp: transact_def healthy_def stored_row_def Let_def split: option.splits)

datatype breaker_op =
    BAdmit store_env bool u64 u64 u32 u64
  | BSettle store_env bool Ticket Outcome u64

fun breaker_step :: "breaker_op \<Rightarrow> CircuitBreaker \<times> breaker_store \<Rightarrow> CircuitBreaker \<times> breaker_store" where
  "breaker_step (BAdmit env poisoned now lease_ms pid counter) (b, store) =
     snd (breaker_admit env poisoned now lease_ms pid counter b store)"
| "breaker_step (BSettle env poisoned ticket outcome now) (b, store) =
     breaker_settle env poisoned ticket outcome now b store"

fun row_op_of :: "breaker_op \<Rightarrow> row_op" where
  "row_op_of (BAdmit env poisoned now lease_ms pid counter) = RAdmit now lease_ms pid counter"
| "row_op_of (BSettle env poisoned ticket outcome now) = RSettle ticket outcome now"

fun op_poisoned :: "breaker_op \<Rightarrow> bool" where
  "op_poisoned (BAdmit _ p _ _ _ _) = p"
| "op_poisoned (BSettle _ p _ _ _) = p"

fun op_healthy :: "breaker_op \<Rightarrow> bool" where
  "op_healthy (BAdmit env _ _ _ _ _) = healthy env"
| "op_healthy (BSettle env _ _ _ _) = healthy env"

fun op_transient :: "breaker_op \<Rightarrow> bool" where
  "op_transient (BAdmit _ _ _ _ _ _) = False"
| "op_transient (BSettle _ _ _ oc _) = is_transient oc"

lemma shared_present:
  "br_path b \<Longrightarrow> \<not> br_degraded b \<Longrightarrow> store \<noteq> None \<Longrightarrow> healthy env \<Longrightarrow>
     breaker_shared env create change b store =
       (case transact env (br_origin b) create change store of
          (Ok value, store') \<Rightarrow> (value, b, store')
        | (Err _, store') \<Rightarrow> (None, b\<lparr>br_degraded := True\<rparr>, store'))"
  by (cases store) (auto simp: breaker_shared_def healthy_def)

lemma shared_healthy:
  assumes "healthy env" and "br_path b" and "\<not> br_degraded b" and "store \<noteq> None"
    and "stored_row store (br_origin b) = Ok row" and "row_inv (snd (change row))"
    and "encode_row (snd (change row)) = Ok s"
  shows "\<exists>store'. breaker_shared env create change b store = (Some (fst (change row)), b, store')
     \<and> stored_row store' (br_origin b) = Ok (snd (change row))
     \<and> (\<forall>o'. o' \<noteq> br_origin b \<longrightarrow> stored_row store' o' = stored_row store o')"
  using transact_healthy [where env = env and change = change and v = "fst (change row)"
      and row' = "snd (change row)" and create = create, OF assms(1,5) _ assms(6,7)]
  by (auto simp: shared_present [OF assms(2,3,4,1)])

text \<open>Once degraded, or without a path, only the local row moves.\<close>

lemma local_only_step:
  assumes "\<not> br_path b \<or> br_degraded b" and "\<not> op_poisoned x"
  shows "breaker_step x (b, store)
     = (b\<lparr>br_local := row_step (row_op_of x) (br_local b)\<rparr>, store)"
  using assms
  by (cases x)
    (auto simp: breaker_admit_def breaker_settle_def breaker_shared_def Let_def split: prod.split)

lemma shared_absent_uncreated:
  "\<exists>b'. breaker_shared env False change b None = (None, b', None)"
  by (auto simp: breaker_shared_def)

lemma no_transient_keeps_store_absent:
  assumes "\<not> op_transient x"
  shows "snd (breaker_step x (b, None)) = None"
proof (cases x)
  case (BAdmit env poisoned now lease_ms pid counter)
  then show ?thesis
    using shared_absent_uncreated [of env "row_admit now lease_ms pid counter" b]
    by (auto simp: breaker_admit_def Let_def split: prod.split)
next
  case (BSettle env poisoned t outcome now)
  with assms show ?thesis
    using shared_absent_uncreated [of env "\<lambda>row. ((), row_settle t outcome now row)" b]
    by (auto simp: breaker_settle_def)
qed

section \<open>Properties\<close>

text \<open>
  C4. Single probe. Once a request has been admitted as the half-open probe with token
  \<open>tok\<close>, every other process that asks for admission before the lease expires is refused,
  and no settlement of any other ticket (successes, failures with or without a
  \<open>Retry-After\<close>, late answers of earlier generations or of replaced probes) changes the
  circuit: until the lease expires or the probe itself settles, the row stays exactly as the
  probe's admission left it.
\<close>

theorem single_probe_holder:
  assumes "row_admit now lease_ms pid counter r = (Ok t, r')" and "tk_probe t = Some tok"
    and "list_all (during_probe tok (sat_add64 now lease_ms)) ops"
    and "now' < sat_add64 now lease_ms"
  shows "run row_step ops r' = r'
    \<and> (\<exists>e. row_admit now' lease_ms' pid' counter' (run row_step ops r') = (Err e, r'))"
proof -
  note r' = admitted_probe_row [OF assms(1,2)]
  have idle: "run row_step ops r' = r'"
    using assms(3) r' by (intro run_idle probe_held_step) (auto simp: list_all_iff)
  with probe_held_admit [of r' tok now' lease_ms' pid' counter'] r' assms(4) show ?thesis
    by auto
qed

theorem single_probe_holder_witness:
  "\<exists>e. fst (row_admit 40000 3000 7 2
       (run row_step [RSettle \<lparr>tk_generation = 1, tk_probe = None\<rparr> Success 39000]
         (snd (row_admit 38000 3000 7 1 (open_for 0 BASE_COOLDOWN_MS row_default))))) = Err e"
proof -
  let ?r = "open_for 0 BASE_COOLDOWN_MS row_default"
  let ?tok = "probe_token 38000 7 1"
  have adm: "row_admit 38000 3000 7 1 ?r =
      (Ok \<lparr>tk_generation = 1, tk_probe = Some ?tok\<rparr>, snd (row_admit 38000 3000 7 1 ?r))"
    by (simp add: row_admit_def open_for_def row_default_def breaker_consts u64_defs U64_MAX_def
        Let_def)
  have ops: "list_all (during_probe ?tok (sat_add64 38000 3000))
      [RSettle \<lparr>tk_generation = 1, tk_probe = None\<rparr> Success 39000]"
    by (simp add: during_probe_def)
  have now: "(40000::nat) < sat_add64 38000 3000"
    by (simp add: sat_add64_def U64_MAX_def)
  show ?thesis
    using single_probe_holder [OF adm _ ops now, of 3000 7 2] by auto
qed

text \<open>
  Generations fence late answers. Take a ticket admitted from any row the breaker can be in.
  If afterwards the circuit has opened or closed (its open flag differs from what the ticket
  saw), then from that moment on, however many further admissions and settlements happen, the
  ticket's own settlement changes nothing: a late success cannot close a newer open circuit and a
  late failure cannot reopen a closed one. The bound keeps the 64-bit generation from wrapping
  within the run.
\<close>

theorem late_settlement_is_fenced:
  assumes "row_inv r" and "row_admit now lease_ms pid counter r = (Ok t, r')"
    and "row_open (run row_step before r') \<noteq> row_open r'"
    and "row_generation r + length before + length after \<le> U64_MAX"
  shows "row_settle t outcome now' (run row_step (before @ after) r') = run row_step (before @ after) r'"
proof -
  have r': "row_inv r'" and gen: "tk_generation t = row_generation r'"
    using assms(1,2) row_admit_inv [of r now lease_ms pid counter]
      row_admit_Ok_iff [of now lease_ms pid counter r t]
      row_admit_frame(1) [of now lease_ms pid counter r] by auto
  have "row_generation r' = row_generation r"
    using row_admit_frame(1) [of now lease_ms pid counter r] assms(2) by simp
  then show ?thesis
    using circuit.phase_change_fences [OF r' gen _ _ _ assms(3), of "after"] assms(4)
    by (auto simp: list.pred_True)
qed

theorem late_settlement_is_fenced_witness:
  "row_settle \<lparr>tk_generation = 0, tk_probe = None\<rparr> Success 9
     (run row_step (replicate 3 (RSettle \<lparr>tk_generation = 0, tk_probe = None\<rparr> (Transient None) 5))
        row_default)
   = run row_step (replicate 3 (RSettle \<lparr>tk_generation = 0, tk_probe = None\<rparr> (Transient None) 5))
        row_default"
proof -
  let ?t = "\<lparr>tk_generation = 0, tk_probe = None\<rparr>"
  let ?ops = "replicate 3 (RSettle ?t (Transient None) 5)"
  have adm: "row_admit 1 3000 7 1 row_default = (Ok ?t, row_default)"
    by (simp add: row_admit_def row_default_def)
  have opened: "row_open (run row_step ?ops row_default) \<noteq> row_open row_default"
    using three_failures_open [of 5] by (simp add: open_for_def row_default_def)
  have room: "row_generation row_default + length ?ops + length ([]::row_op list) \<le> U64_MAX"
    by (simp add: row_default_def U64_MAX_def)
  show ?thesis
    using late_settlement_is_fenced [OF row_inv_default adm opened room, of Success 9] by simp
qed

text \<open>
  C38. Refusals end. If every admission and settlement so far happened at or before \<open>T\<close>, with
  probe leases of at most \<open>L\<close>, then any request made later than the longest of one hour
  (the capped \<open>Retry-After\<close>), five minutes (the capped cooldown) and \<open>L\<close> after
  \<open>T\<close> is admitted, whatever the provider's headers said and however the attempts ended.
\<close>

theorem breaker_never_blocks_forever:
  assumes "list_all (row_op_within T L) ops" and "horizon T L \<le> now"
  shows "\<exists>t. fst (row_admit now lease_ms pid counter (run row_step ops row_default)) = Ok t"
proof -
  have "blocked_until row_default \<le> horizon T L"
    by (simp add: blocked_until_def row_default_def)
  with row_inv_default have "row_inv row_default \<and> blocked_until row_default \<le> horizon T L" ..
  from row_times.run_inv [OF this assms(1)] assms(2) show ?thesis
    by (intro blocked_until_admits) simp
qed

theorem breaker_never_blocks_forever_witness:
  "\<exists>t. fst (row_admit 3605000 3000 7 2
     (run row_step [RSettle \<lparr>tk_generation = 0, tk_probe = None\<rparr> (Transient (Some 99999999999)) 5000]
        row_default)) = Ok t"
  by (rule breaker_never_blocks_forever [of 5000 3000])
    (simp_all add: row_op_within_def horizon_def breaker_consts)

text \<open>
  Every row the breaker can reach from a fresh origin satisfies the policy: fewer than three
  counted failures, a cooldown between thirty seconds and five minutes exactly while it is open,
  no probe while it is closed; and if such a row fits SQLite's signed integers, writing it and
  reading it back yields the same row, so the store never refuses what it wrote itself.
\<close>

theorem reachable_rows_persist:
  "let r = run row_step ops row_default in
      row_failures r < 3
    \<and> (if row_open r then 30000 \<le> row_cooldown_ms r \<and> row_cooldown_ms r \<le> 300000
       else row_cooldown_ms r = 0 \<and> row_probe_token r = None)
    \<and> (case encode_row r of Ok s \<Rightarrow> decode_row s = Ok r
       | Err e \<Rightarrow> row_generation r > nat I64_MAX \<or> blocked_until r > nat I64_MAX)"
proof -
  define r where "r = run row_step ops row_default"
  have inv: "row_inv r"
    unfolding r_def by (intro row.run_inv row_inv_default) (simp add: list.pred_True)
  have "case encode_row r of Ok s \<Rightarrow> decode_row s = Ok r
      | Err e \<Rightarrow> row_generation r > nat I64_MAX \<or> blocked_until r > nat I64_MAX"
  proof (cases "encode_row r")
    case (Ok s)
    with decode_encode_row [OF inv] show ?thesis by simp
  next
    case (Err e)
    have "int (row_cooldown_ms r) \<le> I64_MAX"
      using inv by (simp add: row_inv_def breaker_consts I64_MAX_def)
    moreover from Err encode_row_Ok_iff [of r]
    have "\<not> (int (row_generation r) \<le> I64_MAX \<and> int (row_cooldown_ms r) \<le> I64_MAX
        \<and> int (row_open_until_ms r) \<le> I64_MAX \<and> int (row_probe_expires_ms r) \<le> I64_MAX
        \<and> int (row_retry_after_until_ms r) \<le> I64_MAX)" by simp
    ultimately show ?thesis
      using Err by (auto simp: blocked_until_def I64_MAX_def)
  qed
  with inv show ?thesis by (simp add: row_inv_def breaker_consts r_def [symmetric] Let_def)
qed

text \<open>
  The shared store implements the row machine: while the store answers, one
  \<open>admit\<close> or \<open>settle\<close> of any process moves the stored row of its origin by exactly
  the pure transition, leaves every other origin's row and the process-local state alone, and
  does not degrade.
\<close>

theorem shared_store_refines_row:
  assumes "op_healthy x" and "br_path b" and "\<not> br_degraded b" and "store \<noteq> None"
    and "stored_row store (br_origin b) = Ok row" and "row_inv row"
    and "encode_row (row_step (row_op_of x) row) = Ok s"
  shows "\<exists>store'. breaker_step x (b, store) = (b, store')
     \<and> stored_row store' (br_origin b) = Ok (row_step (row_op_of x) row)
     \<and> (\<forall>o'. o' \<noteq> br_origin b \<longrightarrow> stored_row store' o' = stored_row store o')"
proof (cases x)
  case (BAdmit env poisoned now lease_ms pid counter)
  with assms row_admit_inv [OF assms(6)]
    shared_healthy [where env = env and row = row and s = s and create = False and b = b
      and store = store and change = "row_admit now lease_ms pid counter"]
  show ?thesis by (auto simp: breaker_admit_def)
next
  case (BSettle env poisoned t outcome now)
  with assms row_settle_inv [OF assms(6)]
    shared_healthy [where env = env and row = row and s = s and create = "is_transient outcome"
      and b = b and store = store and change = "\<lambda>row. ((), row_settle t outcome now row)"]
  show ?thesis by (auto simp: breaker_settle_def)
qed

theorem shared_store_refines_row_witness:
  "\<exists>store'. breaker_step
      (BSettle \<lparr>env_metadata_ok = True, env_schema_empty = False, env_open_ok = True,
                env_commit_ok = True, env_verify_ok = True\<rparr> False
         \<lparr>tk_generation = 0, tk_probe = None\<rparr> (Transient None) 5)
      (breaker_new True ''o'', Some Map.empty) = (breaker_new True ''o'', store')
    \<and> stored_row store' ''o'' = Ok (row_default\<lparr>row_failures := 1\<rparr>)"
proof -
  let ?env = "\<lparr>env_metadata_ok = True, env_schema_empty = False, env_open_ok = True,
                env_commit_ok = True, env_verify_ok = True\<rparr>"
  let ?x = "BSettle ?env False \<lparr>tk_generation = 0, tk_probe = None\<rparr> (Transient None) 5"
  let ?b = "breaker_new True ''o''"
  have step: "row_step (row_op_of ?x) row_default = row_default\<lparr>row_failures := 1\<rparr>"
    by (simp add: row_settle_def row_default_def owns_probe_def Let_def breaker_consts
        wrapping_add32_def U32_MAX_def)
  have "\<exists>s. encode_row (row_default\<lparr>row_failures := 1\<rparr>) = Ok s"
    by (simp add: encode_row_Ok_iff row_default_def I64_MAX_def)
  then obtain s where "encode_row (row_step (row_op_of ?x) row_default) = Ok s"
    using step by metis
  moreover have "stored_row (Some Map.empty) (br_origin ?b) = Ok row_default"
    by (simp add: stored_row_def)
  ultimately have "\<exists>store'. breaker_step ?x (?b, Some Map.empty) = (?b, store')
      \<and> stored_row store' (br_origin ?b) = Ok (row_step (row_op_of ?x) row_default)
      \<and> (\<forall>o'. o' \<noteq> br_origin ?b \<longrightarrow> stored_row store' o' = stored_row (Some Map.empty) o')"
    by (intro shared_store_refines_row) (simp_all add: healthy_def breaker_new_def row_inv_default)
  with step show ?thesis by (simp add: breaker_new_def) blast
qed

text \<open>
  Degradation. With persistence disabled, or once any store call has failed, every later
  operation is the pure transition of the process-local row, the store on disk is never touched
  again and the breaker keeps reporting itself process-local; and an origin whose attempts never
  end in a transient failure never creates a store file.
\<close>

theorem degraded_breaker_is_local:
  assumes "list_all (\<lambda>x. \<not> op_poisoned x) ops" and "breaker_protection b = ProcessLocal"
  shows "run breaker_step ops (b, store)
     = (b\<lparr>br_local := run row_step (map row_op_of ops) (br_local b)\<rparr>, store)
   \<and> (list_all (\<lambda>x. \<not> op_transient x) ops' \<longrightarrow> snd (run breaker_step ops' (b', None)) = None)"
proof
  show "run breaker_step ops (b, store)
     = (b\<lparr>br_local := run row_step (map row_op_of ops) (br_local b)\<rparr>, store)"
    using assms
  proof (induction ops arbitrary: b)
    case Nil
    then show ?case by simp
  next
    case (Cons x ops)
    then have "breaker_step x (b, store)
        = (b\<lparr>br_local := row_step (row_op_of x) (br_local b)\<rparr>, store)"
      by (intro local_only_step) (auto simp: breaker_protection_def split: if_splits)
    with Cons show ?case by (simp add: breaker_protection_def)
  qed
  show "list_all (\<lambda>x. \<not> op_transient x) ops' \<longrightarrow> snd (run breaker_step ops' (b', None)) = None"
  proof (induction ops' arbitrary: b')
    case Nil
    then show ?case by simp
  next
    case (Cons x ops')
    then show ?case
      using no_transient_keeps_store_absent [of x b']
      by (cases "breaker_step x (b', None)") auto
  qed
qed

theorem degraded_breaker_is_local_witness:
  "snd (run breaker_step [BSettle \<lparr>env_metadata_ok = True, env_schema_empty = False,
        env_open_ok = True, env_commit_ok = True, env_verify_ok = True\<rparr> False
        \<lparr>tk_generation = 0, tk_probe = None\<rparr> (Transient None) 5] (breaker_new False ''o'', None)) = None"
  using degraded_breaker_is_local
    [of "[BSettle \<lparr>env_metadata_ok = True, env_schema_empty = False,
        env_open_ok = True, env_commit_ok = True, env_verify_ok = True\<rparr> False
        \<lparr>tk_generation = 0, tk_probe = None\<rparr> (Transient None) 5]" "breaker_new False ''o''" None "[]"]
  by (simp add: breaker_protection_def breaker_new_def)

end
