(* ===== verification/Coordination.thy ===== *)
theory Coordination
  imports Sr_Prelude
begin

text \<open>
  Model of \<open>src/src/cache/coordination.rs\<close>: fenced leases that let concurrent processes
  share one provider call. A table maps coordination keys to stored lease rows;
  \<open>acquire_in_transaction\<close>, \<open>force_reacquire_in_transaction\<close>,
  \<open>active_lease_in_transaction\<close> and \<open>complete_in_transaction\<close> are the source's
  transaction primitives. \<open>coord_env\<close> is what SQLite and \<open>/dev/urandom\<close> answer during
  one call: the error of the query or of the statement, if any, and the fresh owner token.
  A failing statement leaves the row as it was, because the caller rolls the transaction back.
\<close>

section \<open>Types\<close>

definition DEFAULT_LEASE_TTL_MS :: u64 where "DEFAULT_LEASE_TTL_MS = 5000"

datatype CoordinationError = StorageBusy | StorageError string | InvalidTimestamp

type_synonym byte = nat
type_synonym OwnerToken = "byte list"
type_synonym FencingGeneration = u64
type_synonym CoordinationKey = "byte list"

definition initial_generation :: FencingGeneration where
  "initial_generation = 1"

record LeaseRecord =
  lr_owner_token :: OwnerToken
  lr_generation :: FencingGeneration
  lr_acquired_at :: u64
  lr_expires_at :: u64
  lr_attempt_id :: string
  lr_is_completed :: bool

record StoredLease =
  sl_owner_token :: "byte list"
  sl_generation :: i64
  sl_acquired_at :: i64
  sl_expires_at :: i64
  sl_attempt_id :: string
  sl_is_completed :: i64

type_synonym LeaseTable = "CoordinationKey \<rightharpoonup> StoredLease"

record CoordinationPolicy =
  cp_lease_ttl_ms :: u64

record LeaderContext =
  lc_key :: CoordinationKey
  lc_owner_token :: OwnerToken
  lc_generation :: FencingGeneration
  lc_expires_at :: u64
  lc_attempt_id :: string

record FollowerContext =
  fc_key :: CoordinationKey
  fc_leader_generation :: FencingGeneration
  fc_expires_at :: u64

datatype LeaseAcquisition =
    Leading LeaderContext
  | Following FollowerContext
  | AlreadyCompleted

datatype PublishOutcome =
    Published
  | Superseded FencingGeneration "FencingGeneration option"

record coord_env =
  ce_read :: "CoordinationError option"
  ce_write :: "CoordinationError option"
  ce_token :: "OwnerToken option"

section \<open>Operations\<close>

definition lease_expiry :: "u64 \<Rightarrow> u64 \<Rightarrow> (u64, CoordinationError) result" where
  "lease_expiry now ttl =
     (case checked_add64 now ttl of
        None \<Rightarrow> Err InvalidTimestamp
      | Some expiry \<Rightarrow>
          if ttl \<noteq> 0 \<and> int expiry \<le> I64_MAX then Ok expiry else Err InvalidTimestamp)"

definition next_lease_generation :: "FencingGeneration \<Rightarrow> (FencingGeneration, CoordinationError) result" where
  "next_lease_generation current =
     (case checked_add64 current 1 of
        None \<Rightarrow> Err (StorageError ''coordination fence generation exhausted'')
      | Some nxt \<Rightarrow>
          if current \<noteq> 0 \<and> int nxt \<le> I64_MAX then Ok nxt
          else Err (StorageError ''coordination fence generation exhausted''))"

definition invalid_lease_record :: CoordinationError where
  "invalid_lease_record = StorageError ''coordination lease contains invalid metadata''"

definition check_time :: "LeaseRecord \<Rightarrow> u64 \<Rightarrow> (unit, CoordinationError) result" where
  "check_time r now =
     (if now < lr_acquired_at r \<or> int now > I64_MAX then Err InvalidTimestamp else Ok ())"

definition lease_unsigned :: "i64 \<Rightarrow> (u64, CoordinationError) result" where
  "lease_unsigned v = (if 0 \<le> v then Ok (nat v) else Err invalid_lease_record)"

definition decode_lease :: "StoredLease \<Rightarrow> (LeaseRecord, CoordinationError) result" where
  "decode_lease s =
     (if length (sl_owner_token s) \<noteq> 16 then Err invalid_lease_record
      else
     and_then (lease_unsigned (sl_generation s)) (\<lambda>generation.
     and_then (lease_unsigned (sl_acquired_at s)) (\<lambda>acquired.
     and_then (lease_unsigned (sl_expires_at s)) (\<lambda>expires.
       if generation = 0 \<or> expires < acquired \<or> (sl_is_completed s \<noteq> 0 \<and> sl_is_completed s \<noteq> 1)
          \<or> length (sl_attempt_id s) > 128
       then Err invalid_lease_record
       else Ok \<lparr>lr_owner_token = sl_owner_token s, lr_generation = generation,
                lr_acquired_at = acquired, lr_expires_at = expires,
                lr_attempt_id = sl_attempt_id s, lr_is_completed = (sl_is_completed s = 1)\<rparr>))))"

definition check_lease_on_connection ::
  "coord_env \<Rightarrow> CoordinationKey \<Rightarrow> LeaseTable \<Rightarrow> (LeaseRecord option, CoordinationError) result" where
  "check_lease_on_connection env key table =
     (case ce_read env of
        Some e \<Rightarrow> Err e
      | None \<Rightarrow> (case table key of
          None \<Rightarrow> Ok None
        | Some s \<Rightarrow> map_ok Some (decode_lease s)))"

text \<open>
  The row and the context that a new leadership writes; the source spells the same statement
  out for an expired lease, for a forced refresh and for a first lease.
\<close>

definition take_lead ::
  "coord_env \<Rightarrow> CoordinationKey \<Rightarrow> FencingGeneration \<Rightarrow> u64 \<Rightarrow> u64 \<Rightarrow> LeaseTable
     \<Rightarrow> (LeaseAcquisition, CoordinationError) result \<times> LeaseTable" where
  "take_lead env key generation now expires table =
     (case ce_token env of
        None \<Rightarrow> (Err (StorageError ''owner token unavailable''), table)
      | Some token \<Rightarrow>
         (let attempt_id = ''att-proc-'' @ dec generation in
          case ce_write env of
            Some e \<Rightarrow> (Err e, table)
          | None \<Rightarrow>
             (Ok (Leading \<lparr>lc_key = key, lc_owner_token = token, lc_generation = generation,
                           lc_expires_at = expires, lc_attempt_id = attempt_id\<rparr>),
              table(key \<mapsto> \<lparr>sl_owner_token = token, sl_generation = int generation,
                             sl_acquired_at = int now, sl_expires_at = int expires,
                             sl_attempt_id = attempt_id, sl_is_completed = 0\<rparr>))))"

definition acquire_in_transaction ::
  "coord_env \<Rightarrow> CoordinationKey \<Rightarrow> u64 \<Rightarrow> CoordinationPolicy \<Rightarrow> LeaseTable
     \<Rightarrow> (LeaseAcquisition, CoordinationError) result \<times> LeaseTable" where
  "acquire_in_transaction env key now policy table =
     (case lease_expiry now (cp_lease_ttl_ms policy) of
        Err e \<Rightarrow> (Err e, table)
      | Ok admitted_expiry \<Rightarrow>
     (case check_lease_on_connection env key table of
        Err e \<Rightarrow> (Err e, table)
      | Ok (Some existing) \<Rightarrow>
         (case check_time existing now of
            Err e \<Rightarrow> (Err e, table)
          | Ok _ \<Rightarrow>
             if now < lr_expires_at existing then
               (if lr_is_completed existing then (Ok AlreadyCompleted, table)
                else (Ok (Following \<lparr>fc_key = key, fc_leader_generation = lr_generation existing,
                                     fc_expires_at = lr_expires_at existing\<rparr>), table))
             else (case next_lease_generation (lr_generation existing) of
                Err e \<Rightarrow> (Err e, table)
              | Ok new_gen \<Rightarrow> take_lead env key new_gen now admitted_expiry table))
      | Ok None \<Rightarrow> take_lead env key initial_generation now admitted_expiry table))"

definition force_reacquire_in_transaction ::
  "coord_env \<Rightarrow> CoordinationKey \<Rightarrow> u64 \<Rightarrow> CoordinationPolicy \<Rightarrow> LeaseTable
     \<Rightarrow> (LeaseAcquisition, CoordinationError) result \<times> LeaseTable" where
  "force_reacquire_in_transaction env key now policy table =
     (case lease_expiry now (cp_lease_ttl_ms policy) of
        Err e \<Rightarrow> (Err e, table)
      | Ok admitted_expiry \<Rightarrow>
     (case check_lease_on_connection env key table of
        Err e \<Rightarrow> (Err e, table)
      | Ok (Some existing) \<Rightarrow>
         (case check_time existing now of
            Err e \<Rightarrow> (Err e, table)
          | Ok _ \<Rightarrow>
             if \<not> lr_is_completed existing \<and> now < lr_expires_at existing then
               (Ok (Following \<lparr>fc_key = key, fc_leader_generation = lr_generation existing,
                               fc_expires_at = lr_expires_at existing\<rparr>), table)
             else (case next_lease_generation (lr_generation existing) of
                Err e \<Rightarrow> (Err e, table)
              | Ok new_gen \<Rightarrow> take_lead env key new_gen now admitted_expiry table))
      | Ok None \<Rightarrow> take_lead env key initial_generation now admitted_expiry table))"

definition active_lease_in_transaction ::
  "coord_env \<Rightarrow> LeaderContext \<Rightarrow> u64 \<Rightarrow> LeaseTable \<Rightarrow> (bool, CoordinationError) result" where
  "active_lease_in_transaction env leader now table =
     map_ok (\<lambda>row. case row of
        None \<Rightarrow> False
      | Some record \<Rightarrow>
          \<not> lr_is_completed record
        \<and> lr_owner_token record = lc_owner_token leader
        \<and> lr_generation record = lc_generation leader
        \<and> lr_expires_at record = lc_expires_at leader
        \<and> now \<ge> lr_acquired_at record
        \<and> now < lr_expires_at record)
       (check_lease_on_connection env (lc_key leader) table)"

definition complete_in_transaction ::
  "coord_env \<Rightarrow> CoordinationKey \<Rightarrow> OwnerToken \<Rightarrow> FencingGeneration \<Rightarrow> u64 \<Rightarrow> LeaseTable
     \<Rightarrow> (PublishOutcome, CoordinationError) result \<times> LeaseTable" where
  "complete_in_transaction env key owner_token generation now table =
     (case check_lease_on_connection env key table of
        Err e \<Rightarrow> (Err e, table)
      | Ok None \<Rightarrow> (Ok (Superseded generation None), table)
      | Ok (Some record) \<Rightarrow>
         (case check_time record now of
            Err e \<Rightarrow> (Err e, table)
          | Ok _ \<Rightarrow>
             if lr_is_completed record \<or> lr_owner_token record \<noteq> owner_token
                \<or> lr_generation record \<noteq> generation \<or> now \<ge> lr_expires_at record
             then (Ok (Superseded generation (Some (lr_generation record))), table)
             else (case ce_write env of
                Some e \<Rightarrow> (Err e, table)
              | None \<Rightarrow>
                 (Ok Published,
                  (case table key of
                     Some s \<Rightarrow> table(key \<mapsto> s\<lparr>sl_is_completed := 1\<rparr>)
                   | None \<Rightarrow> table)))))"

section \<open>Runs of the lease table\<close>

text \<open>
  One operation of some process, with the history of leaderships granted and of responses
  published as it extends.
\<close>

datatype lease_op =
    LAcquire coord_env CoordinationKey u64 CoordinationPolicy
  | LForce coord_env CoordinationKey u64 CoordinationPolicy
  | LComplete coord_env CoordinationKey OwnerToken FencingGeneration u64

datatype lease_event =
    Led LeaderContext
  | Pub CoordinationKey OwnerToken FencingGeneration

type_synonym lease_state = "LeaseTable \<times> lease_event list"

definition acquired_event :: "(LeaseAcquisition, CoordinationError) result \<Rightarrow> lease_event list" where
  "acquired_event res = (case res of Ok (Leading ctx) \<Rightarrow> [Led ctx] | _ \<Rightarrow> [])"

fun lease_step :: "lease_op \<Rightarrow> lease_state \<Rightarrow> lease_state" where
  "lease_step (LAcquire env key now policy) (table, log) =
     (let (res, table') = acquire_in_transaction env key now policy table
      in (table', log @ acquired_event res))"
| "lease_step (LForce env key now policy) (table, log) =
     (let (res, table') = force_reacquire_in_transaction env key now policy table
      in (table', log @ acquired_event res))"
| "lease_step (LComplete env key token generation now) (table, log) =
     (let (res, table') = complete_in_transaction env key token generation now table
      in (table', if res = Ok Published then log @ [Pub key token generation] else log))"

fun led_generations :: "CoordinationKey \<Rightarrow> lease_event list \<Rightarrow> FencingGeneration list" where
  "led_generations k [] = []"
| "led_generations k (Led ctx # es) =
     (if lc_key ctx = k then lc_generation ctx # led_generations k es else led_generations k es)"
| "led_generations k (Pub _ _ _ # es) = led_generations k es"

fun published_generations :: "CoordinationKey \<Rightarrow> lease_event list \<Rightarrow> FencingGeneration list" where
  "published_generations k [] = []"
| "published_generations k (Led _ # es) = published_generations k es"
| "published_generations k (Pub key _ g # es) =
     (if key = k then g # published_generations k es else published_generations k es)"

text \<open>The operating system hands out sixteen bytes or nothing.\<close>

definition env_ok :: "coord_env \<Rightarrow> bool" where
  "env_ok env = (case ce_token env of None \<Rightarrow> True | Some t \<Rightarrow> length t = 16)"

fun lease_op_ok :: "lease_op \<Rightarrow> bool" where
  "lease_op_ok (LAcquire env _ _ _) = env_ok env"
| "lease_op_ok (LForce env _ _ _) = env_ok env"
| "lease_op_ok (LComplete env _ _ _ _) = env_ok env"

text \<open>
  The invariant, per key: the rows in the table are rows the coordinator accepts, the
  leaderships granted so far are numbered 1, 2, ... up to the row's generation, and the
  published generations increase and stay at or below it, reaching it only when the row is
  completed.
\<close>

definition lease_inv_at :: "CoordinationKey \<Rightarrow> lease_state \<Rightarrow> bool" where
  "lease_inv_at k s =
     (case s of (table, log) \<Rightarrow>
        case table k of
          None \<Rightarrow> led_generations k log = [] \<and> published_generations k log = []
        | Some row \<Rightarrow>
           (case decode_lease row of
              Err _ \<Rightarrow> False
            | Ok r \<Rightarrow>
                led_generations k log = [1..<Suc (lr_generation r)]
              \<and> sorted_wrt (<) (published_generations k log)
              \<and> (\<forall>g\<in>set (published_generations k log).
                    1 \<le> g \<and> g \<le> lr_generation r \<and> (g = lr_generation r \<longrightarrow> lr_is_completed r))))"

definition lease_inv :: "lease_state \<Rightarrow> bool" where
  "lease_inv s \<longleftrightarrow> (\<forall>k. lease_inv_at k s)"

definition lease_generation :: "CoordinationKey \<Rightarrow> lease_state \<Rightarrow> nat" where
  "lease_generation k s =
     (case fst s k of None \<Rightarrow> 0
      | Some row \<Rightarrow> (case decode_lease row of Ok r \<Rightarrow> lr_generation r | Err _ \<Rightarrow> 0))"

definition lease_holder :: "CoordinationKey \<Rightarrow> lease_state \<Rightarrow> (OwnerToken \<times> u64) option" where
  "lease_holder k s =
     (case fst s k of None \<Rightarrow> None
      | Some row \<Rightarrow> (case decode_lease row of
          Ok r \<Rightarrow> Some (lr_owner_token r, lr_expires_at r) | Err _ \<Rightarrow> None))"

section \<open>What each operation does\<close>

definition led_row :: "LeaderContext \<Rightarrow> u64 \<Rightarrow> StoredLease" where
  "led_row ctx now = \<lparr>sl_owner_token = lc_owner_token ctx, sl_generation = int (lc_generation ctx),
     sl_acquired_at = int now, sl_expires_at = int (lc_expires_at ctx),
     sl_attempt_id = lc_attempt_id ctx, sl_is_completed = 0\<rparr>"

text \<open>A new leadership: what the caller is told and the row that is written.\<close>

definition grants :: "CoordinationKey \<Rightarrow> u64 \<Rightarrow> LeaseTable \<Rightarrow> LeaderContext \<Rightarrow> LeaseTable \<Rightarrow> bool" where
  "grants key now table ctx table' \<longleftrightarrow>
     lc_key ctx = key \<and> table' = table(key \<mapsto> led_row ctx now) \<and> now < lc_expires_at ctx
   \<and> int (lc_expires_at ctx) \<le> I64_MAX \<and> int (lc_generation ctx) \<le> I64_MAX
   \<and> lc_attempt_id ctx = ''att-proc-'' @ dec (lc_generation ctx)
   \<and> (case table key of
        None \<Rightarrow> lc_generation ctx = 1
      | Some s \<Rightarrow> (\<exists>r. decode_lease s = Ok r \<and> lc_generation ctx = Suc (lr_generation r)
                     \<and> (lr_is_completed r \<or> lr_expires_at r \<le> now)))"

lemma acquired_event_simps [simp]:
  "acquired_event (Err e) = []"
  "acquired_event (Ok (Following f)) = []"
  "acquired_event (Ok AlreadyCompleted) = []"
  "acquired_event (Ok (Leading ctx)) = [Led ctx]"
  by (simp_all add: acquired_event_def)

lemma lease_expiry_Ok: "lease_expiry now ttl = Ok e \<longleftrightarrow>
    e = now + ttl \<and> now < e \<and> now + ttl \<le> U64_MAX \<and> int e \<le> I64_MAX"
  by (auto simp: lease_expiry_def split: option.splits if_splits)

lemma next_lease_generation_Ok: "next_lease_generation g = Ok n \<Longrightarrow> n = Suc g \<and> int n \<le> I64_MAX"
  by (auto simp: next_lease_generation_def split: option.splits if_splits)

lemma take_lead_cases:
  assumes "take_lead env key g now e table = (res, table')"
  shows "(acquired_event res = [] \<and> table' = table) \<or>
    (\<exists>ctx token. ce_token env = Some token \<and> acquired_event res = [Led ctx] \<and> res = Ok (Leading ctx)
       \<and> ctx = \<lparr>lc_key = key, lc_owner_token = token, lc_generation = g, lc_expires_at = e,
               lc_attempt_id = ''att-proc-'' @ dec g\<rparr> \<and> table' = table(key \<mapsto> led_row ctx now))"
  using assms
  by (auto simp: take_lead_def acquired_event_def led_row_def Let_def split: option.splits)

lemma check_lease_Ok:
  "check_lease_on_connection env key table = Ok x \<Longrightarrow>
     (case x of None \<Rightarrow> table key = None | Some r \<Rightarrow> \<exists>s. table key = Some s \<and> decode_lease s = Ok r)"
  by (auto simp: check_lease_on_connection_def split: option.splits)

lemma grants_take_lead:
  assumes "take_lead env key g now e table = (res, table')" and "int g \<le> I64_MAX"
    and "now < e" and "int e \<le> I64_MAX"
    and "case table key of None \<Rightarrow> g = 1
      | Some s \<Rightarrow> \<exists>r. decode_lease s = Ok r \<and> g = Suc (lr_generation r)
          \<and> (lr_is_completed r \<or> lr_expires_at r \<le> now)"
  shows "(acquired_event res = [] \<and> table' = table)
    \<or> (\<exists>ctx. acquired_event res = [Led ctx] \<and> grants key now table ctx table'
           \<and> ce_token env = Some (lc_owner_token ctx))"
  using take_lead_cases [OF assms(1)] assms(2-5)
  by (cases "table key") (auto simp: grants_def)

lemmas lease_lookup = lease_expiry_Ok next_lease_generation_Ok check_lease_Ok

lemma acquire_effect:
  assumes "acquire_in_transaction env key now policy table = (res, table')"
  shows "(acquired_event res = [] \<and> table' = table)
    \<or> (\<exists>ctx. acquired_event res = [Led ctx] \<and> grants key now table ctx table'
           \<and> ce_token env = Some (lc_owner_token ctx))"
proof (cases "lease_expiry now (cp_lease_ttl_ms policy)")
  case (Err e)
  with assms show ?thesis by (auto simp: acquire_in_transaction_def)
next
  case (Ok e)
  note exp = Ok [unfolded lease_expiry_Ok]
  show ?thesis
  proof (cases "check_lease_on_connection env key table")
    case (Err x)
    with Ok assms show ?thesis by (auto simp: acquire_in_transaction_def)
  next
    case lookup: (Ok x)
    note row = check_lease_Ok [OF lookup]
    show ?thesis
    proof (cases x)
      case None
      with Ok lookup assms have "take_lead env key initial_generation now e table = (res, table')"
        by (simp add: acquire_in_transaction_def)
      from grants_take_lead [OF this] exp row None show ?thesis
        by (simp add: initial_generation_def I64_MAX_def)
    next
      case (Some r)
      show ?thesis
      proof (cases "check_time r now = Ok () \<and> \<not> now < lr_expires_at r
          \<and> (\<exists>n. next_lease_generation (lr_generation r) = Ok n)")
        case True
        then obtain n where n: "next_lease_generation (lr_generation r) = Ok n" by blast
        with True Ok lookup Some assms have "take_lead env key n now e table = (res, table')"
          by (simp add: acquire_in_transaction_def)
        from grants_take_lead [OF this] exp row Some True next_lease_generation_Ok [OF n]
        show ?thesis by auto
      next
        case False
        with Ok lookup Some assms show ?thesis
          by (cases "check_time r now"; cases "next_lease_generation (lr_generation r)";
              cases "lr_is_completed r"; cases "now < lr_expires_at r")
            (auto simp: acquire_in_transaction_def)
      qed
    qed
  qed
qed

lemma force_effect:
  assumes "force_reacquire_in_transaction env key now policy table = (res, table')"
  shows "(acquired_event res = [] \<and> table' = table)
    \<or> (\<exists>ctx. acquired_event res = [Led ctx] \<and> grants key now table ctx table'
           \<and> ce_token env = Some (lc_owner_token ctx))"
proof (cases "lease_expiry now (cp_lease_ttl_ms policy)")
  case (Err e)
  with assms show ?thesis by (auto simp: force_reacquire_in_transaction_def)
next
  case (Ok e)
  note exp = Ok [unfolded lease_expiry_Ok]
  show ?thesis
  proof (cases "check_lease_on_connection env key table")
    case (Err x)
    with Ok assms show ?thesis by (auto simp: force_reacquire_in_transaction_def)
  next
    case lookup: (Ok x)
    note row = check_lease_Ok [OF lookup]
    show ?thesis
    proof (cases x)
      case None
      with Ok lookup assms have "take_lead env key initial_generation now e table = (res, table')"
        by (simp add: force_reacquire_in_transaction_def)
      from grants_take_lead [OF this] exp row None show ?thesis
        by (simp add: initial_generation_def I64_MAX_def)
    next
      case (Some r)
      show ?thesis
      proof (cases "check_time r now = Ok () \<and> (lr_is_completed r \<or> \<not> now < lr_expires_at r)
          \<and> (\<exists>n. next_lease_generation (lr_generation r) = Ok n)")
        case True
        then obtain n where n: "next_lease_generation (lr_generation r) = Ok n" by blast
        with True Ok lookup Some assms have "take_lead env key n now e table = (res, table')"
          by (auto simp: force_reacquire_in_transaction_def)
        from grants_take_lead [OF this] exp row Some True next_lease_generation_Ok [OF n]
        show ?thesis by auto
      next
        case False
        with Ok lookup Some assms show ?thesis
          by (cases "check_time r now"; cases "next_lease_generation (lr_generation r)";
              cases "lr_is_completed r"; cases "now < lr_expires_at r")
            (auto simp: force_reacquire_in_transaction_def)
      qed
    qed
  qed
qed

text \<open>Publication: exactly by the current, unexpired, uncompleted holder.\<close>

definition publishes :: "CoordinationKey \<Rightarrow> OwnerToken \<Rightarrow> FencingGeneration \<Rightarrow> u64 \<Rightarrow> LeaseTable \<Rightarrow> LeaseTable \<Rightarrow> bool" where
  "publishes key token g now table table' \<longleftrightarrow>
     (\<exists>s r. table key = Some s \<and> decode_lease s = Ok r \<and> \<not> lr_is_completed r
        \<and> lr_owner_token r = token \<and> lr_generation r = g
        \<and> lr_acquired_at r \<le> now \<and> now < lr_expires_at r
        \<and> table' = table(key \<mapsto> s\<lparr>sl_is_completed := 1\<rparr>))"

lemma complete_effect:
  assumes "complete_in_transaction env key token g now table = (res, table')"
  shows "if res = Ok Published then publishes key token g now table table' else table' = table"
proof (cases "check_lease_on_connection env key table")
  case (Err e)
  with assms show ?thesis by (auto simp: complete_in_transaction_def)
next
  case (Ok x)
  note row = check_lease_Ok [OF Ok]
  show ?thesis
  proof (cases x)
    case None
    with assms Ok show ?thesis by (auto simp: complete_in_transaction_def)
  next
    case (Some r)
    with assms Ok row show ?thesis
      by (auto simp: complete_in_transaction_def check_time_def publishes_def
          split: option.splits if_splits)
  qed
qed

section \<open>The invariant is kept\<close>

lemma decode_lease_Ok_intro:
  assumes "length (sl_owner_token s) = 16" and "length (sl_attempt_id s) \<le> 128"
    and "sl_generation s = int g" and "sl_acquired_at s = int a" and "sl_expires_at s = int e"
    and "sl_is_completed s = (if c then 1 else 0)" and "g \<noteq> 0" and "a \<le> e"
  shows "decode_lease s = Ok \<lparr>lr_owner_token = sl_owner_token s, lr_generation = g,
     lr_acquired_at = a, lr_expires_at = e, lr_attempt_id = sl_attempt_id s, lr_is_completed = c\<rparr>"
  using assms by (simp add: decode_lease_def lease_unsigned_def)

lemma decode_led_row:
  assumes "length (lc_owner_token ctx) = 16" and "grants key now table ctx table'"
  shows "decode_lease (led_row ctx now) = Ok \<lparr>lr_owner_token = lc_owner_token ctx,
     lr_generation = lc_generation ctx, lr_acquired_at = now, lr_expires_at = lc_expires_at ctx,
     lr_attempt_id = lc_attempt_id ctx, lr_is_completed = False\<rparr>"
proof -
  have "nat I64_MAX < 10 ^ 19" by (simp add: I64_MAX_def)
  moreover have "lc_generation ctx \<le> nat I64_MAX"
    using assms(2) by (simp only: grants_def) linarith
  ultimately have "lc_generation ctx < 10 ^ 19" by (rule order.strict_trans1 [rotated])
  then have "length (dec (lc_generation ctx)) \<le> 19"
    unfolding dec_def by (intro length_radix) simp_all
  then have att: "length (lc_attempt_id ctx) \<le> 128"
    using assms(2) by (simp add: grants_def)
  have "lc_generation ctx \<noteq> 0" and "now \<le> lc_expires_at ctx"
    using assms(2) by (auto simp: grants_def split: option.splits)
  with assms(1) att show ?thesis
    using decode_lease_Ok_intro [of "led_row ctx now" "lc_generation ctx" now "lc_expires_at ctx" False]
    by (simp add: led_row_def)
qed

lemma decode_completed:
  "decode_lease s = Ok r \<Longrightarrow> decode_lease (s\<lparr>sl_is_completed := 1\<rparr>) = Ok (r\<lparr>lr_is_completed := True\<rparr>)"
  by (cases "lease_unsigned (sl_generation s)"; cases "lease_unsigned (sl_acquired_at s)";
      cases "lease_unsigned (sl_expires_at s)")
    (auto simp: decode_lease_def split: if_split_asm)

lemma led_generations_append [simp]:
  "led_generations k (xs @ ys) = led_generations k xs @ led_generations k ys"
  by (induction k xs rule: led_generations.induct) auto

lemma published_generations_append [simp]:
  "published_generations k (xs @ ys) = published_generations k xs @ published_generations k ys"
  by (induction k xs rule: published_generations.induct) auto

lemma lease_inv_at_other_key:
  assumes "lease_inv_at k (table, log)" and "table' k = table k"
    and "led_generations k log' = led_generations k log"
    and "published_generations k log' = published_generations k log"
  shows "lease_inv_at k (table', log')"
  using assms(1) unfolding lease_inv_at_def prod.case assms(2-4) .

lemma lease_inv_grant:
  assumes inv: "lease_inv (table, log)" and grant: "grants key now table ctx table'"
    and token: "length (lc_owner_token ctx) = 16"
  shows "lease_inv (table', log @ [Led ctx])"
  unfolding lease_inv_def
proof
  fix k
  have k: "lease_inv_at k (table, log)" using inv by (simp add: lease_inv_def)
  show "lease_inv_at k (table', log @ [Led ctx])"
  proof (cases "k = key")
    case False
    with k grant show ?thesis
      by (intro lease_inv_at_other_key [OF k]) (auto simp: grants_def)
  next
    case True
    note row = decode_led_row [OF token grant]
    show ?thesis
    proof (cases "table key")
      case None
      with True k grant row show ?thesis by (auto simp: lease_inv_at_def grants_def)
    next
      case (Some s)
      then obtain r where "decode_lease s = Ok r" "lc_generation ctx = Suc (lr_generation r)"
        using grant by (auto simp: grants_def)
      with True Some k grant row show ?thesis
        by (fastforce simp: lease_inv_at_def grants_def)
    qed
  qed
qed

lemma lease_inv_publish:
  assumes inv: "lease_inv (table, log)" and pub: "publishes key token g now table table'"
  shows "lease_inv (table', log @ [Pub key token g])"
  unfolding lease_inv_def
proof
  fix k
  have k: "lease_inv_at k (table, log)" using inv by (simp add: lease_inv_def)
  obtain s r where s: "table key = Some s" and r: "decode_lease s = Ok r" and "\<not> lr_is_completed r"
    and "lr_generation r = g" and table': "table' = table(key \<mapsto> s\<lparr>sl_is_completed := 1\<rparr>)"
    using pub by (auto simp: publishes_def)
  show "lease_inv_at k (table', log @ [Pub key token g])"
  proof (cases "k = key")
    case False
    with k table' show ?thesis
      by (intro lease_inv_at_other_key [OF k]) auto
  next
    case True
    have "lr_generation r \<noteq> 0" using r by (auto simp: decode_lease_def split: if_splits)
    moreover have "\<forall>g'\<in>set (published_generations key log). 1 \<le> g' \<and> g' < lr_generation r"
      using k True s r \<open>\<not> lr_is_completed r\<close> by (fastforce simp: lease_inv_at_def)
    ultimately show ?thesis
      using k True s r table' \<open>lr_generation r = g\<close>
      by (auto simp: lease_inv_at_def decode_completed sorted_wrt_append)
  qed
qed

lemma lease_step_inv:
  assumes "lease_inv s" and "lease_op_ok x"
  shows "lease_inv (lease_step x s)"
proof -
  obtain table log where s: "s = (table, log)" by (cases s)
  show ?thesis
  proof (cases x)
    case (LAcquire env key now policy)
    obtain res table' where acq: "acquire_in_transaction env key now policy table = (res, table')"
      by fastforce
    from acquire_effect [OF acq] assms s acq LAcquire show ?thesis
      by (auto simp: env_ok_def intro: lease_inv_grant)
  next
    case (LForce env key now policy)
    obtain res table' where acq: "force_reacquire_in_transaction env key now policy table = (res, table')"
      by fastforce
    from force_effect [OF acq] assms s acq LForce show ?thesis
      by (auto simp: env_ok_def intro: lease_inv_grant)
  next
    case (LComplete env key token g now)
    obtain res table' where com: "complete_in_transaction env key token g now table = (res, table')"
      by fastforce
    from complete_effect [OF com] assms s com LComplete show ?thesis
      by (auto intro: lease_inv_publish split: if_splits)
  qed
qed

interpretation leases: machine_invariant lease_step lease_op_ok lease_inv
  by unfold_locales (rule lease_step_inv)

section \<open>Generations fence superseded leaders\<close>

lemma lease_generation_eq:
  "fst s k = Some row \<Longrightarrow> decode_lease row = Ok r \<Longrightarrow> lease_generation k s = lr_generation r"
  "fst s k = None \<Longrightarrow> lease_generation k s = 0"
  by (simp_all add: lease_generation_def)

lemma lease_holder_eq:
  "fst s k = Some row \<Longrightarrow> decode_lease row = Ok r \<Longrightarrow>
     lease_holder k s = Some (lr_owner_token r, lr_expires_at r)"
  by (simp add: lease_holder_def)

lemma lease_at_cong:
  "fst s k = fst t k \<Longrightarrow> lease_generation k s = lease_generation k t \<and> lease_holder k s = lease_holder k t"
  by (simp add: lease_generation_def lease_holder_def)

lemma grant_generation:
  assumes "grants key now table ctx table'" and "length (lc_owner_token ctx) = 16"
  shows "lease_generation k (table', log') =
    (if k = key then Suc (lease_generation k (table, log)) else lease_generation k (table, log))"
proof (cases "k = key")
  case False
  with assms lease_at_cong [of "(table', log')" k "(table, log)"] show ?thesis
    by (auto simp: grants_def)
next
  case True
  have new: "lease_generation key (table', log') = lc_generation ctx"
    using assms by (subst lease_generation_eq(1) [OF _ decode_led_row [OF assms(2,1)]])
      (auto simp: grants_def)
  show ?thesis
    using assms(1) True new
    by (cases "table key") (auto simp: grants_def lease_generation_def)
qed

lemma grant_other_holder:
  "grants key now table ctx table' \<Longrightarrow> k \<noteq> key \<Longrightarrow>
     lease_holder k (table', log') = lease_holder k (table, log)"
  by (simp add: grants_def lease_holder_def)

lemma publish_at:
  assumes "publishes key token g now table table'"
  shows "lease_generation k (table', log') = lease_generation k (table, log)
       \<and> lease_holder k (table', log') = lease_holder k (table, log)"
  using assms
  by (cases "k = key") (auto simp: publishes_def lease_generation_def lease_holder_def decode_completed)

text \<open>Every operation either leaves a key's generation and holder alone or installs the next one.\<close>

lemma lease_step_generation:
  assumes "lease_op_ok x"
  shows "lease_generation k (lease_step x s) = lease_generation k s
           \<and> lease_holder k (lease_step x s) = lease_holder k s
       \<or> lease_generation k (lease_step x s) = Suc (lease_generation k s)"
proof -
  obtain table log where s: "s = (table, log)" by (cases s)
  have granted: "lease_generation k (table', log') = lease_generation k s
        \<and> lease_holder k (table', log') = lease_holder k s
      \<or> lease_generation k (table', log') = Suc (lease_generation k s)"
    if "grants key now table ctx table'" "length (lc_owner_token ctx) = 16" for key now ctx table' log'
    using grant_generation [OF that, of k log' log] grant_other_holder [OF that(1), of k log' log] s
    by (cases "k = key") auto
  have same: "lease_generation k (table, log') = lease_generation k s
      \<and> lease_holder k (table, log') = lease_holder k s" for log'
    using lease_at_cong [of "(table, log')" k s] s by simp
  show ?thesis
  proof (cases x)
    case (LAcquire env key now policy)
    obtain res table' where acq: "acquire_in_transaction env key now policy table = (res, table')"
      by fastforce
    from acquire_effect [OF acq] show ?thesis
    proof
      assume "acquired_event res = [] \<and> table' = table"
      with s acq LAcquire same show ?thesis by simp
    next
      assume "\<exists>ctx. acquired_event res = [Led ctx] \<and> grants key now table ctx table'
          \<and> ce_token env = Some (lc_owner_token ctx)"
      then obtain ctx where "grants key now table ctx table'" "ce_token env = Some (lc_owner_token ctx)"
        by blast
      with granted [of key now ctx table'] s acq LAcquire assms show ?thesis
        by (simp add: env_ok_def)
    qed
  next
    case (LForce env key now policy)
    obtain res table' where acq: "force_reacquire_in_transaction env key now policy table = (res, table')"
      by fastforce
    from force_effect [OF acq] show ?thesis
    proof
      assume "acquired_event res = [] \<and> table' = table"
      with s acq LForce same show ?thesis by simp
    next
      assume "\<exists>ctx. acquired_event res = [Led ctx] \<and> grants key now table ctx table'
          \<and> ce_token env = Some (lc_owner_token ctx)"
      then obtain ctx where "grants key now table ctx table'" "ce_token env = Some (lc_owner_token ctx)"
        by blast
      with granted [of key now ctx table'] s acq LForce assms show ?thesis
        by (simp add: env_ok_def)
    qed
  next
    case (LComplete env key token g now)
    obtain res table' where com: "complete_in_transaction env key token g now table = (res, table')"
      by fastforce
    from complete_effect [OF com] s com LComplete same publish_at [of key token g now table table' k]
    show ?thesis by (auto split: if_splits)
  qed
qed

lemma publish_needs_current:
  assumes "complete_in_transaction env k token g now table = (Ok Published, table')"
  shows "g = lease_generation k (table, log)"
  using complete_effect [OF assms] by (auto simp: publishes_def lease_generation_def)

interpretation lease_fence: fenced lease_step lease_op_ok lease_inv "lease_generation k"
  "\<lambda>_ _. True" "lease_holder k" lc_generation
  "\<lambda>s ctx. \<exists>env now table'. complete_in_transaction env k (lc_owner_token ctx) (lc_generation ctx) now (fst s)
      = (Ok Published, table')" for k
proof unfold_locales
  fix s x
  assume x: "lease_op_ok x"
  note step = lease_step_generation [OF x, of k s]
  show "lease_generation k s \<le> lease_generation k (lease_step x s)"
    using step by auto
  show "lease_generation k (lease_step x s) = lease_generation k s \<Longrightarrow>
      lease_holder k (lease_step x s) = lease_holder k s"
    using step by auto
next
  fix s :: lease_state and ctx
  assume "\<exists>env now table'. complete_in_transaction env k (lc_owner_token ctx) (lc_generation ctx) now (fst s)
      = (Ok Published, table')"
  then show "lc_generation ctx = lease_generation k s"
    using publish_needs_current [of _ k _ _ _ "fst s" _ "snd s"] by auto
qed simp_all

section \<open>One flight at a time\<close>

text \<open>Everything other processes may do during an unexpired, uncompleted lease.\<close>

fun lease_quiet :: "LeaderContext \<Rightarrow> lease_op \<Rightarrow> bool" where
  "lease_quiet ctx (LAcquire _ key now _) \<longleftrightarrow> key \<noteq> lc_key ctx \<or> now < lc_expires_at ctx"
| "lease_quiet ctx (LForce _ key now _) \<longleftrightarrow> key \<noteq> lc_key ctx \<or> now < lc_expires_at ctx"
| "lease_quiet ctx (LComplete _ key token g _) \<longleftrightarrow>
     key \<noteq> lc_key ctx \<or> token \<noteq> lc_owner_token ctx \<or> g \<noteq> lc_generation ctx"

definition in_flight :: "LeaderContext \<Rightarrow> u64 \<Rightarrow> nat list \<Rightarrow> lease_state \<Rightarrow> bool" where
  "in_flight ctx at led s \<longleftrightarrow> fst s (lc_key ctx) = Some (led_row ctx at)
     \<and> decode_lease (led_row ctx at) = Ok \<lparr>lr_owner_token = lc_owner_token ctx,
         lr_generation = lc_generation ctx, lr_acquired_at = at, lr_expires_at = lc_expires_at ctx,
         lr_attempt_id = lc_attempt_id ctx, lr_is_completed = False\<rparr>
     \<and> led_generations (lc_key ctx) (snd s) = led"

lemma in_flight_blocks_grant:
  assumes "in_flight ctx at led (table, log)" and "grants key now table ctx' table'"
    and "key \<noteq> lc_key ctx \<or> now < lc_expires_at ctx"
  shows "in_flight ctx at led (table', log @ [Led ctx'])"
  using assms by (auto simp: in_flight_def grants_def)

lemma in_flight_blocks_publish:
  assumes "in_flight ctx at led (table, log)" and "publishes key token g now table table'"
    and "key \<noteq> lc_key ctx \<or> token \<noteq> lc_owner_token ctx \<or> g \<noteq> lc_generation ctx"
  shows "in_flight ctx at led (table', log @ [Pub key token g])"
  using assms by (auto simp: in_flight_def publishes_def)

lemma in_flight_step:
  assumes "in_flight ctx at led s" and "lease_quiet ctx x"
  shows "in_flight ctx at led (lease_step x s)"
proof -
  obtain table log where s: "s = (table, log)" by (cases s)
  show ?thesis
  proof (cases x)
    case (LAcquire env key now policy)
    obtain res table' where acq: "acquire_in_transaction env key now policy table = (res, table')"
      by fastforce
    from acquire_effect [OF acq] assms s acq LAcquire show ?thesis
      by (auto intro: in_flight_blocks_grant)
  next
    case (LForce env key now policy)
    obtain res table' where acq: "force_reacquire_in_transaction env key now policy table = (res, table')"
      by fastforce
    from force_effect [OF acq] assms s acq LForce show ?thesis
      by (auto intro: in_flight_blocks_grant)
  next
    case (LComplete env key token g now)
    obtain res table' where com: "complete_in_transaction env key token g now table = (res, table')"
      by fastforce
    from complete_effect [OF com] assms s com LComplete show ?thesis
      by (auto intro: in_flight_blocks_publish split: if_splits)
  qed
qed

interpretation flight: machine_invariant lease_step "lease_quiet ctx" "in_flight ctx at led" for ctx at led
  by unfold_locales (rule in_flight_step)

lemma in_flight_active:
  assumes "in_flight ctx at led s" and "at \<le> now" and "now < lc_expires_at ctx" and "ce_read env = None"
  shows "active_lease_in_transaction env ctx now (fst s) = Ok True"
  using assms
  by (simp add: in_flight_def active_lease_in_transaction_def check_lease_on_connection_def)

text \<open>What the transactions answer while the lease stands.\<close>

lemma in_flight_check:
  assumes "in_flight ctx at led s" "ce_read env = None"
  shows "check_lease_on_connection env (lc_key ctx) (fst s) = Ok (Some \<lparr>lr_owner_token = lc_owner_token ctx,
    lr_generation = lc_generation ctx, lr_acquired_at = at, lr_expires_at = lc_expires_at ctx,
    lr_attempt_id = lc_attempt_id ctx, lr_is_completed = False\<rparr>)"
  using assms by (simp add: in_flight_def check_lease_on_connection_def)

definition follows :: "LeaderContext \<Rightarrow> FollowerContext" where
  "follows ctx = \<lparr>fc_key = lc_key ctx, fc_leader_generation = lc_generation ctx, fc_expires_at = lc_expires_at ctx\<rparr>"

lemma in_flight_follow:
  assumes "in_flight ctx at led s" "ce_read env = None" "lease_expiry now (cp_lease_ttl_ms policy) = Ok e"
    and "at \<le> now" "now < lc_expires_at ctx" "int (lc_expires_at ctx) \<le> I64_MAX"
  shows "acquire_in_transaction env (lc_key ctx) now policy (fst s) = (Ok (Following (follows ctx)), fst s)"
    and "force_reacquire_in_transaction env (lc_key ctx) now policy (fst s) = (Ok (Following (follows ctx)), fst s)"
  using assms in_flight_check [OF assms(1,2)]
  by (simp_all add: acquire_in_transaction_def force_reacquire_in_transaction_def check_time_def follows_def)

lemma in_flight_complete:
  assumes "in_flight ctx at led s" "ce_read env = None" "ce_write env = None"
    and "at \<le> now" "now < lc_expires_at ctx" "int (lc_expires_at ctx) \<le> I64_MAX"
  shows "complete_in_transaction env (lc_key ctx) token g now (fst s) =
    (if token = lc_owner_token ctx \<and> g = lc_generation ctx
     then (Ok Published, (fst s)(lc_key ctx \<mapsto> (led_row ctx at)\<lparr>sl_is_completed := 1\<rparr>))
     else (Ok (Superseded g (Some (lc_generation ctx))), fst s))"
  using assms in_flight_check [OF assms(1,2)]
  by (auto simp: complete_in_transaction_def check_time_def in_flight_def)

section \<open>A concrete lease\<close>

lemma dec_one: "dec (Suc 0) = ''1''" and dec_two: "dec 2 = ''2''"
  by (simp_all add: dec_def radix.simps digit_char_def)

lemma lease_expiry_Ok_simp:
  "ttl \<noteq> 0 \<Longrightarrow> int (now + ttl) \<le> I64_MAX \<Longrightarrow> lease_expiry now ttl = Ok (now + ttl)"
  by (simp add: lease_expiry_Ok I64_MAX_def U64_MAX_def)

definition lease_demo_ctx :: LeaderContext where
  "lease_demo_ctx = \<lparr>lc_key = [7], lc_owner_token = replicate 16 7, lc_generation = 1,
     lc_expires_at = 150, lc_attempt_id = ''att-proc-1''\<rparr>"

definition lease_demo :: lease_state where
  "lease_demo = (Map.empty([7] \<mapsto> led_row lease_demo_ctx 100), [Led lease_demo_ctx])"

lemma lease_demo_acquire:
  "acquire_in_transaction \<lparr>ce_read = None, ce_write = None, ce_token = Some (replicate 16 7)\<rparr> [7] 100
     \<lparr>cp_lease_ttl_ms = 50\<rparr> Map.empty = (Ok (Leading lease_demo_ctx), fst lease_demo)"
  by (simp add: acquire_in_transaction_def lease_expiry_Ok_simp check_lease_on_connection_def
      take_lead_def Let_def lease_demo_def lease_demo_ctx_def led_row_def initial_generation_def
      dec_one I64_MAX_def)

lemma lease_demo_inv: "lease_inv lease_demo"
proof -
  have "lease_inv (lease_step (LAcquire \<lparr>ce_read = None, ce_write = None,
      ce_token = Some (replicate 16 7)\<rparr> [7] 100 \<lparr>cp_lease_ttl_ms = 50\<rparr>) (Map.empty, []))"
    by (rule lease_step_inv) (simp_all add: lease_inv_def lease_inv_at_def env_ok_def)
  then show ?thesis by (simp add: lease_demo_acquire) (simp add: lease_demo_def)
qed

section \<open>Properties\<close>

text \<open>
  C6. Publication happens at most once per leadership. For every key, in every history of
  acquisitions, forced refreshes and completions by any number of processes, at any clock
  readings, with SQLite failing or the token source running dry anywhere: leaderships are granted
  with the generations 1, 2, 3, ... in order, each published response belongs to one of them, and
  the published generations strictly increase, so no generation publishes twice and no response
  of an older leader follows one of a newer leader.
\<close>

theorem publications_strictly_increase:
  assumes "list_all lease_op_ok ops"
  shows "let log = snd (run lease_step ops (Map.empty, [])) in
      led_generations k log = [1..<Suc (length (led_generations k log))]
    \<and> sorted_wrt (<) (published_generations k log)
    \<and> set (published_generations k log) \<subseteq> set (led_generations k log)"
proof -
  obtain table log where s: "run lease_step ops (Map.empty, []) = (table, log)" by fastforce
  have "lease_inv (Map.empty, [])" by (simp add: lease_inv_def lease_inv_at_def)
  from leases.run_inv [OF this assms] s have "lease_inv_at k (table, log)"
    by (simp add: lease_inv_def)
  then have "led_generations k log = [1..<Suc (length (led_generations k log))]
    \<and> sorted_wrt (<) (published_generations k log)
    \<and> set (published_generations k log) \<subseteq> set (led_generations k log)"
  proof (cases "table k")
    case None
    with \<open>lease_inv_at k (table, log)\<close> show ?thesis by (simp add: lease_inv_at_def)
  next
    case (Some row)
    with \<open>lease_inv_at k (table, log)\<close> obtain r where r: "decode_lease row = Ok r"
      by (cases "decode_lease row") (simp_all add: lease_inv_at_def)
    with Some \<open>lease_inv_at k (table, log)\<close>
    have led: "led_generations k log = [1..<Suc (lr_generation r)]"
      and "sorted_wrt (<) (published_generations k log)"
      and "\<forall>g\<in>set (published_generations k log). 1 \<le> g \<and> g \<le> lr_generation r"
      by (simp_all add: lease_inv_at_def del: upt_Suc)
    then show ?thesis unfolding led by (auto simp: less_Suc_eq_le simp del: upt_Suc)
  qed
  with s show ?thesis by simp
qed

theorem publications_strictly_increase_witness:
  "sorted_wrt (<) (published_generations [7]
     (snd (run lease_step
        [LAcquire \<lparr>ce_read = None, ce_write = None, ce_token = Some (replicate 16 7)\<rparr> [7] 100
           \<lparr>cp_lease_ttl_ms = 50\<rparr>,
         LComplete \<lparr>ce_read = None, ce_write = None, ce_token = None\<rparr> [7] (replicate 16 7) 1 120]
        (Map.empty, []))))"
  using publications_strictly_increase
    [of "[LAcquire \<lparr>ce_read = None, ce_write = None, ce_token = Some (replicate 16 7)\<rparr> [7] 100
           \<lparr>cp_lease_ttl_ms = 50\<rparr>,
         LComplete \<lparr>ce_read = None, ce_write = None, ce_token = None\<rparr> [7] (replicate 16 7) 1 120]" "[7]"]
  by (simp add: env_ok_def Let_def)

text \<open>
  A superseded leader can never publish. Once the lease of a leader has passed to another
  holder, no later call of \<open>complete_in_transaction\<close> with the old leader's token and
  generation is accepted, at any time and after any further operations.
\<close>

theorem superseded_leader_never_publishes:
  assumes "lease_inv s" and "lc_generation ctx = lease_generation k s"
    and "list_all lease_op_ok before" and "list_all lease_op_ok after"
    and "lease_holder k (run lease_step before s) \<noteq> lease_holder k s"
  shows "fst (complete_in_transaction env k (lc_owner_token ctx) (lc_generation ctx) now
      (fst (run lease_step (before @ after) s))) \<noteq> Ok Published"
proof -
  have "\<not> (\<exists>env now table'. complete_in_transaction env k (lc_owner_token ctx) (lc_generation ctx) now
      (fst (run lease_step (before @ after) s)) = (Ok Published, table'))"
    using lease_fence.phase_change_fences [OF assms(1,2,3,4) TrueI assms(5) TrueI] by simp
  then show ?thesis by (metis prod.collapse)
qed

theorem superseded_leader_never_publishes_witness:
  "fst (complete_in_transaction \<lparr>ce_read = None, ce_write = None, ce_token = None\<rparr> [7] (replicate 16 7) 1 210
      (fst (run lease_step [LAcquire \<lparr>ce_read = None, ce_write = None, ce_token = Some (replicate 16 9)\<rparr>
              [7] 200 \<lparr>cp_lease_ttl_ms = 50\<rparr>] lease_demo))) \<noteq> Ok Published"
proof -
  let ?ctx = "\<lparr>lc_key = [7], lc_owner_token = replicate 16 7, lc_generation = 1, lc_expires_at = 150,
               lc_attempt_id = ''att-proc-1''\<rparr>"
  let ?ops = "[LAcquire \<lparr>ce_read = None, ce_write = None, ce_token = Some (replicate 16 9)\<rparr>
              [7] 200 \<lparr>cp_lease_ttl_ms = 50\<rparr>]"
  have "lc_generation ?ctx = lease_generation [7] lease_demo"
    by (simp add: lease_generation_def lease_demo_def lease_demo_ctx_def decode_lease_def led_row_def
        lease_unsigned_def)
  moreover have "lease_holder [7] (run lease_step ?ops lease_demo) \<noteq> lease_holder [7] lease_demo"
    by (simp add: lease_demo_def lease_demo_ctx_def acquire_in_transaction_def lease_expiry_Ok_simp
        check_lease_on_connection_def take_lead_def decode_lease_def led_row_def lease_unsigned_def
        check_time_def next_lease_generation_def checked_add64_def U64_MAX_def I64_MAX_def Let_def
        lease_holder_def dec_one dec_two numeral_2_eq_2 [symmetric])
  ultimately show ?thesis
    using superseded_leader_never_publishes [OF lease_demo_inv, of ?ctx "[7]" ?ops "[]"
        "\<lparr>ce_read = None, ce_write = None, ce_token = None\<rparr>" 210]
    by (simp add: env_ok_def)
qed

text \<open>
  C1. Single flight. After any run of other processes between the moment a process is told it leads and the end
  of its lease, none of them was granted leadership of the key. Whenever the store answers, every acquisition and
  every forced refresh follows the leader, a completion under another token or generation is superseded by
  it and changes nothing, its own check finds its lease active, and its own completion is published
  and marks its row.
\<close>

theorem single_flight:
  assumes "acquire_in_transaction env key at policy table = (Ok (Leading ctx), table')"
    and "env_ok env" and "list_all (lease_quiet ctx) ops"
    and "run lease_step ops (table', log) = (after, log')"
    and "at \<le> now" and "now < lc_expires_at ctx" and "ce_read env' = None" "ce_write env' = None"
    and "lease_expiry now (cp_lease_ttl_ms policy') = Ok expiry"
  shows "led_generations key log' = led_generations key log
    \<and> acquire_in_transaction env' key now policy' after = (Ok (Following (follows ctx)), after)
    \<and> force_reacquire_in_transaction env' key now policy' after = (Ok (Following (follows ctx)), after)
    \<and> active_lease_in_transaction env' ctx now after = Ok True
    \<and> complete_in_transaction env' key token g now after =
        (if token = lc_owner_token ctx \<and> g = lc_generation ctx
         then (Ok Published, after(key \<mapsto> (led_row ctx at)\<lparr>sl_is_completed := 1\<rparr>))
         else (Ok (Superseded g (Some (lc_generation ctx))), after))"
proof -
  have grant: "grants key at table ctx table'" and token: "length (lc_owner_token ctx) = 16"
    using acquire_effect [OF assms(1)] assms(2) by (auto simp: env_ok_def)
  have key: "lc_key ctx = key" and bound: "int (lc_expires_at ctx) \<le> I64_MAX"
    using grant by (simp_all add: grants_def)
  have "in_flight ctx at (led_generations key log) (table', log)"
    using decode_led_row [OF token grant] grant key by (simp add: in_flight_def grants_def)
  from flight.run_inv [OF this assms(3)]
  have fl: "in_flight ctx at (led_generations key log) (after, log')" unfolding assms(4) .
  show ?thesis
    using fl key in_flight_active [OF fl assms(5-7)] in_flight_follow [OF fl assms(7,9,5,6) bound]
      in_flight_complete [OF fl assms(7,8,5,6) bound]
    by (simp add: in_flight_def)
qed

text \<open>Another process forces a refresh while the first leads; then the leader completes.\<close>

theorem single_flight_witness:
  "fst (complete_in_transaction \<lparr>ce_read = None, ce_write = None, ce_token = None\<rparr> [7] (replicate 16 7) 1 120
     (fst (run lease_step
      [LForce \<lparr>ce_read = None, ce_write = None, ce_token = Some (replicate 16 9)\<rparr> [7] 149
         \<lparr>cp_lease_ttl_ms = 50\<rparr>] lease_demo))) = Ok Published"
proof -
  let ?ops = "[LForce \<lparr>ce_read = None, ce_write = None, ce_token = Some (replicate 16 9)\<rparr> [7] 149
         \<lparr>cp_lease_ttl_ms = 50\<rparr>]"
  have quiet: "list_all (lease_quiet lease_demo_ctx) ?ops" by (simp add: lease_demo_ctx_def)
  obtain after log' where after: "run lease_step ?ops (fst lease_demo, [Led lease_demo_ctx]) = (after, log')"
    by (cases "run lease_step ?ops (fst lease_demo, [Led lease_demo_ctx])")
  have "lease_expiry 120 (cp_lease_ttl_ms \<lparr>cp_lease_ttl_ms = 50\<rparr>) = Ok 170"
    by (simp add: lease_expiry_Ok_simp I64_MAX_def)
  from single_flight [OF lease_demo_acquire _ quiet after _ _ _ _ this, of "\<lparr>ce_read = None, ce_write = None, ce_token = None\<rparr>"
      "replicate 16 7" 1]
  have "fst (complete_in_transaction \<lparr>ce_read = None, ce_write = None, ce_token = None\<rparr> [7] (replicate 16 7) 1 120 after)
      = Ok Published"
    by (simp add: env_ok_def lease_demo_ctx_def)
  moreover have "lease_demo = (fst lease_demo, [Led lease_demo_ctx])" by (simp add: lease_demo_def)
  ultimately show ?thesis using after by (metis fst_conv)
qed

end
