(* ===== verification/Outcomes.thy ===== *)
theory Outcomes
  imports Sr_Prelude
begin

text \<open>
  The closed vocabularies that cross component boundaries: error kinds with their wire words and
  exit categories (\<open>src/src/output/mod.rs\<close>), codec errors
  (\<open>src/src/jev/codec.rs\<close>), provider-admission refusals (\<open>src/src/privacy/mod.rs\<close>) and
  transport failures (\<open>src/src/jev/client.rs\<close>).
\<close>

section \<open>Error kinds and exit codes\<close>

datatype CliExit =
    Exit_Success | Exit_Usage | Exit_Session | Exit_Provider | Exit_Roster | Exit_Timeout
  | Exit_Input | Exit_Privacy | Exit_Storage | Exit_ProviderContract | Exit_CacheMiss

fun exit_number :: "CliExit \<Rightarrow> nat" where
  "exit_number Exit_Success = 0"
| "exit_number Exit_Usage = 2"
| "exit_number Exit_Session = 3"
| "exit_number Exit_Provider = 4"
| "exit_number Exit_Roster = 5"
| "exit_number Exit_Timeout = 6"
| "exit_number Exit_Input = 7"
| "exit_number Exit_Privacy = 8"
| "exit_number Exit_Storage = 9"
| "exit_number Exit_ProviderContract = 10"
| "exit_number Exit_CacheMiss = 11"

datatype ErrorKind =
    Ek_InvalidUsage
  | Ek_InvalidConfiguration
  | Ek_MissingSession
  | Ek_AmbiguousSession
  | Ek_AmbiguousBranch
  | Ek_Superseded
  | Ek_ProviderFailure
  | Ek_Authentication
  | Ek_CredentialAbsent
  | Ek_NetworkFailure
  | Ek_RequestBudget
  | Ek_ProviderCooldown
  | Ek_BudgetState
  | Ek_EmptyRoster
  | Ek_UnusableRoster
  | Ek_UnresolvedExplicit
  | Ek_IncompleteRoster
  | Ek_RosterChanged
  | Ek_RetrievalEmpty
  | Ek_RetrievalFailure
  | Ek_Timeout
  | Ek_MalformedInput
  | Ek_OversizedInput
  | Ek_UnsupportedInput
  | Ek_UnsupportedSourceMode
  | Ek_InsufficientContext
  | Ek_OutputLimit
  | Ek_NetworkDenied
  | Ek_StorageFailure
  | Ek_RevisionConflict
  | Ek_InvalidProviderResponse
  | Ek_CacheMiss

fun kind_as_str :: "ErrorKind \<Rightarrow> string" where
  "kind_as_str Ek_InvalidUsage = ''invalid-usage''"
| "kind_as_str Ek_InvalidConfiguration = ''invalid-configuration''"
| "kind_as_str Ek_MissingSession = ''missing-session''"
| "kind_as_str Ek_AmbiguousSession = ''ambiguous-session''"
| "kind_as_str Ek_AmbiguousBranch = ''ambiguous-branch''"
| "kind_as_str Ek_Superseded = ''superseded''"
| "kind_as_str Ek_ProviderFailure = ''provider-failure''"
| "kind_as_str Ek_Authentication = ''authentication''"
| "kind_as_str Ek_CredentialAbsent = ''credential-absent''"
| "kind_as_str Ek_NetworkFailure = ''network-failure''"
| "kind_as_str Ek_RequestBudget = ''request-budget''"
| "kind_as_str Ek_ProviderCooldown = ''provider-cooldown''"
| "kind_as_str Ek_BudgetState = ''budget-state''"
| "kind_as_str Ek_EmptyRoster = ''empty-roster''"
| "kind_as_str Ek_UnusableRoster = ''unusable-roster''"
| "kind_as_str Ek_UnresolvedExplicit = ''unresolved-explicit''"
| "kind_as_str Ek_IncompleteRoster = ''incomplete-roster''"
| "kind_as_str Ek_RosterChanged = ''roster-changed''"
| "kind_as_str Ek_RetrievalEmpty = ''retrieval-empty''"
| "kind_as_str Ek_RetrievalFailure = ''retrieval-failure''"
| "kind_as_str Ek_Timeout = ''timeout''"
| "kind_as_str Ek_MalformedInput = ''malformed-input''"
| "kind_as_str Ek_OversizedInput = ''oversized-input''"
| "kind_as_str Ek_UnsupportedInput = ''unsupported-input''"
| "kind_as_str Ek_UnsupportedSourceMode = ''unsupported-source-mode''"
| "kind_as_str Ek_InsufficientContext = ''insufficient-context''"
| "kind_as_str Ek_OutputLimit = ''output-limit''"
| "kind_as_str Ek_NetworkDenied = ''network-denied''"
| "kind_as_str Ek_StorageFailure = ''storage-failure''"
| "kind_as_str Ek_RevisionConflict = ''revision-conflict''"
| "kind_as_str Ek_InvalidProviderResponse = ''invalid-provider-response''"
| "kind_as_str Ek_CacheMiss = ''cache-miss''"

fun kind_exit_code :: "ErrorKind \<Rightarrow> CliExit" where
  "kind_exit_code Ek_InvalidUsage = Exit_Usage"
| "kind_exit_code Ek_InvalidConfiguration = Exit_Usage"
| "kind_exit_code Ek_MissingSession = Exit_Session"
| "kind_exit_code Ek_AmbiguousSession = Exit_Session"
| "kind_exit_code Ek_AmbiguousBranch = Exit_Session"
| "kind_exit_code Ek_Superseded = Exit_Session"
| "kind_exit_code Ek_ProviderFailure = Exit_Provider"
| "kind_exit_code Ek_Authentication = Exit_Provider"
| "kind_exit_code Ek_CredentialAbsent = Exit_Provider"
| "kind_exit_code Ek_NetworkFailure = Exit_Provider"
| "kind_exit_code Ek_RequestBudget = Exit_Provider"
| "kind_exit_code Ek_ProviderCooldown = Exit_Provider"
| "kind_exit_code Ek_BudgetState = Exit_Provider"
| "kind_exit_code Ek_EmptyRoster = Exit_Roster"
| "kind_exit_code Ek_UnusableRoster = Exit_Roster"
| "kind_exit_code Ek_UnresolvedExplicit = Exit_Roster"
| "kind_exit_code Ek_IncompleteRoster = Exit_Roster"
| "kind_exit_code Ek_RosterChanged = Exit_Roster"
| "kind_exit_code Ek_RetrievalEmpty = Exit_Roster"
| "kind_exit_code Ek_RetrievalFailure = Exit_Roster"
| "kind_exit_code Ek_Timeout = Exit_Timeout"
| "kind_exit_code Ek_MalformedInput = Exit_Input"
| "kind_exit_code Ek_OversizedInput = Exit_Input"
| "kind_exit_code Ek_UnsupportedInput = Exit_Input"
| "kind_exit_code Ek_UnsupportedSourceMode = Exit_Input"
| "kind_exit_code Ek_InsufficientContext = Exit_Input"
| "kind_exit_code Ek_OutputLimit = Exit_Input"
| "kind_exit_code Ek_NetworkDenied = Exit_Privacy"
| "kind_exit_code Ek_StorageFailure = Exit_Storage"
| "kind_exit_code Ek_RevisionConflict = Exit_Storage"
| "kind_exit_code Ek_InvalidProviderResponse = Exit_ProviderContract"
| "kind_exit_code Ek_CacheMiss = Exit_CacheMiss"

section \<open>Codec, provider-admission and transport failures\<close>

datatype CodecError =
    TooLarge | InvalidJson | InvalidRequest | DuplicateId | InvalidAnswer | QuestionMismatch
  | OptionMismatch | InvalidProbability | InvalidDistribution | InvalidChoice

fun codec_kind :: "CodecError \<Rightarrow> ErrorKind" where
  "codec_kind TooLarge = Ek_OversizedInput"
| "codec_kind InvalidRequest = Ek_InvalidUsage"
| "codec_kind DuplicateId = Ek_InvalidUsage"
| "codec_kind _ = Ek_InvalidProviderResponse"

datatype ProviderAdmissionRefusal = Offline | DryRun | NetworkNotAuthorized | MissingCredential

fun provider_refusal_kind :: "ProviderAdmissionRefusal \<Rightarrow> ErrorKind" where
  "provider_refusal_kind Offline = Ek_CacheMiss"
| "provider_refusal_kind DryRun = Ek_NetworkDenied"
| "provider_refusal_kind NetworkNotAuthorized = Ek_NetworkDenied"
| "provider_refusal_kind MissingCredential = Ek_CredentialAbsent"

text \<open>
  \<open>std::time::Duration\<close> counts seconds in a \<open>u64\<close> and nanoseconds below
  $10^9$; it is modelled by its total number of nanoseconds. \<open>RetryAfter\<close> is the only
  provider metadata a failed attempt carries.
\<close>

type_synonym Duration = nat

definition DURATION_MAX :: Duration where
  "DURATION_MAX = U64_MAX * 1000000000 + 999999999"

definition duration_checked_add :: "Duration \<Rightarrow> Duration \<Rightarrow> Duration option" where
  [u64_defs]: "duration_checked_add a b = (if a + b \<le> DURATION_MAX then Some (a + b) else None)"

definition duration_from_secs :: "u64 \<Rightarrow> Duration" where
  "duration_from_secs s = s * 1000000000"

definition duration_from_millis :: "u64 \<Rightarrow> Duration" where
  "duration_from_millis ms = ms * 1000000"

datatype RetryAfter = RetryAbsent | Delay Duration | RetryInvalid

datatype TransportErrorKind =
    InvalidConfiguration
  | Admission ProviderAdmissionRefusal
  | CredentialOriginMismatch
  | Request CodecError
  | Response CodecError
  | Cancelled
  | Deadline
  | Dns
  | Connect
  | TransientIo
  | Tls
  | Protocol
  | BodyTooLarge
  | UnsupportedEncoding
  | InvalidContentType
  | Redirect
  | HttpStatus nat

record TransportError =
  te_kind :: TransportErrorKind
  te_http_attempt_started :: bool
  te_retry_after :: RetryAfter

record Usage =
  us_input_tokens :: u64
  us_output_tokens :: u64

definition usage_total_tokens :: "Usage \<Rightarrow> u64" where
  "usage_total_tokens u = sat_add64 (us_input_tokens u) (us_output_tokens u)"

lemma exit_number_inj: "exit_number a = exit_number b \<Longrightarrow> a = b"
  by (cases a; cases b) simp_all

lemma failures_exit_nonzero: "exit_number (kind_exit_code k) \<noteq> 0"
  by (cases k) simp_all

end
