(* ===== verification/Identity.thy ===== *)
theory Identity
  imports Sr_Prelude
begin

text \<open>
  Model of \<open>src/src/identity.rs\<close>: validated local identifiers, session attribution and the
  duplicate check of definition collections. The identifier types of the source are wrappers of a
  \<open>String\<close> that only their \<open>new\<close> builds; here they are text, and \<open>validate_id\<close> and
  \<open>validate_skill_id\<close> are what \<open>new\<close> demands. The BLAKE3 derivation of a skill identity is a
  library computation and appears as an argument where it is used.
\<close>

section \<open>Identifiers\<close>

definition MAX_ID_BYTES :: usize where "MAX_ID_BYTES = 512"

datatype IdentityError =
    IdEmpty | IdTooLong | IdInvalidCharacter | IdInvalidDigest | IdReservedOption
  | IdDuplicateDefinition | IdUnknownAttribution

text \<open>The directional marks and overrides: U+061C, U+200E, U+200F, U+202A-E, U+2066-9.\<close>

definition is_directional :: "scalar \<Rightarrow> bool" where
  "is_directional c \<longleftrightarrow> c = 1564 \<or> c = 8206 \<or> c = 8207 \<or> 8234 \<le> c \<and> c \<le> 8238 \<or> 8294 \<le> c \<and> c \<le> 8297"

definition forbidden_identity_character :: "scalar \<Rightarrow> bool" where
  "forbidden_identity_character c \<longleftrightarrow> is_whitespace c \<or> is_control c \<or> is_directional c"

definition validate_id :: "str \<Rightarrow> (unit, IdentityError) result" where
  "validate_id value =
     (if value = [] then Err IdEmpty
      else if str_len value > MAX_ID_BYTES then Err IdTooLong
      else if list_ex forbidden_identity_character value then Err IdInvalidCharacter
      else Ok ())"

definition none_option :: str where "none_option = scalars ''__none__''"

definition validate_skill_id :: "str \<Rightarrow> (unit, IdentityError) result" where
  "validate_skill_id value =
     and_then (validate_id value) (\<lambda>_. if value = none_option then Err IdReservedOption else Ok ())"

type_synonym SkillId = str
type_synonym OptionId = str
type_synonym ContentHash = str
type_synonym EventId = str
type_synonym ContextEpoch = str
type_synonym AgentId = str
type_synonym BranchId = str
type_synonym TurnId = str
type_synonym ToolCallId = str
type_synonym SourceId = str
type_synonym LogicalSkillKey = str
type_synonym InvocationName = str

definition skill_id_new :: "str \<Rightarrow> (SkillId, IdentityError) result" where
  "skill_id_new value = map_ok (\<lambda>_. value) (validate_skill_id value)"

definition option_id_new :: "str \<Rightarrow> (OptionId, IdentityError) result" where
  "option_id_new value =
     and_then (validate_id value) (\<lambda>_. if value = none_option then Err IdReservedOption else Ok value)"

definition content_hash_parse :: "str \<Rightarrow> (ContentHash, IdentityError) result" where
  "content_hash_parse value =
     (if str_len value \<noteq> 64 \<or> \<not> list_all (\<lambda>b. 48 \<le> b \<and> b \<le> 57 \<or> 97 \<le> b \<and> b \<le> 102) value
      then Err IdInvalidDigest else Ok value)"

section \<open>Session attribution\<close>

datatype SourceProvenance =
    Native str str
  | Normalized "str option" str u32
  | Cass "SourceId option" str

fun is_attributable :: "SourceProvenance \<Rightarrow> bool" where
  "is_attributable (Native _ _) = True"
| "is_attributable (Normalized producer _ schema_version) = (producer \<noteq> None \<and> schema_version \<noteq> 0)"
| "is_attributable (Cass source _) = (source \<noteq> None)"

record SessionIdentity =
  si_source :: SourceProvenance
  si_workspace :: "str option"
  si_session :: "str option"
  si_agent :: "AgentId option"
  si_branch :: "BranchId option"
  si_epoch :: "ContextEpoch option"

record DurableSessionNamespace =
  dn_source :: SourceProvenance
  dn_workspace :: str
  dn_session :: str
  dn_agent :: AgentId
  dn_branch :: BranchId
  dn_epoch :: ContextEpoch

record DurableEventKey =
  dk_namespace :: DurableSessionNamespace
  dk_event :: EventId

datatype SessionNamespace =
    Durable DurableSessionNamespace
  | InvocationLocal str SessionIdentity

definition durable_namespace :: "SessionIdentity \<Rightarrow> (DurableSessionNamespace, IdentityError) result" where
  "durable_namespace s =
     (if \<not> is_attributable (si_source s) then Err IdUnknownAttribution
      else case (si_workspace s, si_session s, si_agent s, si_branch s, si_epoch s) of
        (Some w, Some i, Some a, Some b, Some e) \<Rightarrow>
          Ok \<lparr>dn_source = si_source s, dn_workspace = w, dn_session = i, dn_agent = a, dn_branch = b, dn_epoch = e\<rparr>
      | _ \<Rightarrow> Err IdUnknownAttribution)"

definition event_key :: "SessionIdentity \<Rightarrow> EventId option \<Rightarrow> (DurableEventKey, IdentityError) result" where
  "event_key s event =
     and_then (durable_namespace s) (\<lambda>n.
       case event of Some e \<Rightarrow> Ok \<lparr>dk_namespace = n, dk_event = e\<rparr> | None \<Rightarrow> Err IdUnknownAttribution)"

definition session_namespace :: "SessionIdentity \<Rightarrow> str \<Rightarrow> SessionNamespace" where
  "session_namespace s invocation =
     (case durable_namespace s of Ok n \<Rightarrow> Durable n | Err _ \<Rightarrow> InvocationLocal invocation s)"

text \<open>The loop of \<open>validate_definition_ids\<close> with the identifiers seen so far.\<close>

fun definition_loop :: "'a set \<Rightarrow> 'a list \<Rightarrow> (unit, IdentityError) result" where
  "definition_loop seen [] = Ok ()"
| "definition_loop seen (i # ids) =
     (if i \<in> seen then Err IdDuplicateDefinition else definition_loop (insert i seen) ids)"

definition validate_definition_ids :: "'a list \<Rightarrow> (unit, IdentityError) result" where
  "validate_definition_ids ids = definition_loop {} ids"

section \<open>What the checks accept\<close>

lemma validate_id_Ok:
  "validate_id v = Ok u \<longleftrightarrow> v \<noteq> [] \<and> str_len v \<le> MAX_ID_BYTES \<and> (\<forall>c\<in>set v. \<not> forbidden_identity_character c)"
  by (auto simp: validate_id_def list_ex_iff)

lemma skill_id_new_Ok: "skill_id_new v = Ok i \<longleftrightarrow> i = v \<and> v \<noteq> none_option \<and> validate_id v = Ok ()"
  by (cases "validate_id v") (auto simp: skill_id_new_def validate_skill_id_def)

lemma option_id_new_Ok: "option_id_new v = Ok i \<longleftrightarrow> i = v \<and> v \<noteq> none_option \<and> validate_id v = Ok ()"
  by (cases "validate_id v") (auto simp: option_id_new_def)

lemma definition_loop_Ok: "definition_loop seen ids = Ok () \<longleftrightarrow> distinct ids \<and> set ids \<inter> seen = {}"
  by (induction ids arbitrary: seen) auto

lemma validate_definition_ids_Ok: "validate_definition_ids ids = Ok () \<longleftrightarrow> distinct ids"
  by (simp add: validate_definition_ids_def definition_loop_Ok)

lemma durable_namespace_Ok:
  "durable_namespace s = Ok n \<longleftrightarrow> is_attributable (si_source s) \<and>
     si_source s = dn_source n \<and> si_workspace s = Some (dn_workspace n) \<and> si_session s = Some (dn_session n)
     \<and> si_agent s = Some (dn_agent n) \<and> si_branch s = Some (dn_branch n) \<and> si_epoch s = Some (dn_epoch n)"
  by (cases n) (auto simp: durable_namespace_def split: option.splits)

end
