(* ===== verification/Ordered_Map.thy ===== *)
theory Ordered_Map
  imports Sr_Prelude "HOL-Library.Multiset" "HOL-Library.List_Lexorder"
begin

text \<open>
  The ordered maps of the source (\<open>std::collections::BTreeMap\<close>) as association lists with
  strictly increasing keys: \<open>get\<close>, \<open>insert\<close>, \<open>get_mut\<close> followed by an
  assignment, and \<open>values\<close>, which lists the entries in key order. \<open>String\<close> keys
  compare byte by byte; UTF-8 keeps the order of scalar values, so this is the lexicographic order
  of scalar lists.

  \<open>keyed_store\<close> is the interface the components use: what a lookup returns after an insert or
  an update, and which multiset of values the map holds. The counting lemmas the accounting proofs
  need are proved once from these laws.
\<close>

section \<open>Operations\<close>

type_synonym ('k, 'v) btree = "('k \<times> 'v) list"

definition bt_get :: "('k, 'v) btree \<Rightarrow> 'k \<Rightarrow> 'v option" where
  "bt_get m k = map_of m k"

fun bt_insert :: "'k::linorder \<Rightarrow> 'v \<Rightarrow> ('k, 'v) btree \<Rightarrow> ('k, 'v) btree" where
  "bt_insert k v [] = [(k, v)]"
| "bt_insert k v ((k', v') # m) =
     (if k < k' then (k, v) # (k', v') # m
      else if k = k' then (k, v) # m
      else (k', v') # bt_insert k v m)"

fun bt_modify :: "'k \<Rightarrow> ('v \<Rightarrow> 'v) \<Rightarrow> ('k, 'v) btree \<Rightarrow> ('k, 'v) btree" where
  "bt_modify k f [] = []"
| "bt_modify k f ((k', v) # m) = (if k = k' then (k', f v) # m else (k', v) # bt_modify k f m)"

definition bt_keys :: "('k, 'v) btree \<Rightarrow> 'k list" where
  "bt_keys m = map fst m"

definition bt_values :: "('k, 'v) btree \<Rightarrow> 'v list" where
  "bt_values m = map snd m"

definition bt_sorted :: "('k::linorder, 'v) btree \<Rightarrow> bool" where
  "bt_sorted m \<longleftrightarrow> sorted_wrt (<) (map fst m)"

section \<open>The interface\<close>

locale keyed_store =
  fixes get :: "'m \<Rightarrow> 'k \<Rightarrow> 'v option"
    and insert :: "'k \<Rightarrow> 'v \<Rightarrow> 'm \<Rightarrow> 'm"
    and modify :: "'k \<Rightarrow> ('v \<Rightarrow> 'v) \<Rightarrow> 'm \<Rightarrow> 'm"
    and vals :: "'m \<Rightarrow> 'v list"
    and ok :: "'m \<Rightarrow> bool"
  assumes ok_insert: "ok m \<Longrightarrow> ok (insert k v m)"
    and ok_modify: "ok m \<Longrightarrow> ok (modify k f m)"
    and get_insert: "ok m \<Longrightarrow> get (insert k v m) k' = (if k = k' then Some v else get m k')"
    and get_modify: "ok m \<Longrightarrow> get (modify k f m) k' =
      (if k = k' then map_option f (get m k') else get m k')"
    and vals_insert: "ok m \<Longrightarrow> get m k = None \<Longrightarrow> mset (vals (insert k v m)) = add_mset v (mset (vals m))"
    and vals_modify: "ok m \<Longrightarrow> get m k = Some v \<Longrightarrow>
      \<exists>M. mset (vals m) = add_mset v M \<and> mset (vals (modify k f m)) = add_mset (f v) M"
    and vals_get: "ok m \<Longrightarrow> v \<in> set (vals m) \<longleftrightarrow> (\<exists>k. get m k = Some v)"
begin

definition tally :: "('v \<Rightarrow> bool) \<Rightarrow> 'm \<Rightarrow> nat" where
  "tally P m = length (filter P (vals m))"

definition total_of :: "('v \<Rightarrow> nat) \<Rightarrow> 'm \<Rightarrow> nat" where
  "total_of f m = sum_list (map f (vals m))"

lemma tally_mset: "tally P m = size (filter_mset P (mset (vals m)))"
  unfolding tally_def by (metis mset_filter size_mset)

lemma total_mset: "total_of f m = sum_mset (image_mset f (mset (vals m)))"
  unfolding total_of_def by (metis mset_map sum_mset_sum_list)

lemma tally_insert:
  "ok m \<Longrightarrow> get m k = None \<Longrightarrow> tally P (insert k v m) = tally P m + (if P v then 1 else 0)"
  by (simp add: tally_mset vals_insert)

lemma total_insert:
  "ok m \<Longrightarrow> get m k = None \<Longrightarrow> total_of f (insert k v m) = total_of f m + f v"
  by (simp add: total_mset vals_insert)

lemma tally_modify:
  "ok m \<Longrightarrow> get m k = Some v \<Longrightarrow>
     tally P (modify k f m) + (if P v then 1 else 0) = tally P m + (if P (f v) then 1 else 0)"
  using vals_modify [of m k v f] by (auto simp: tally_mset)

lemma total_modify:
  "ok m \<Longrightarrow> get m k = Some v \<Longrightarrow>
     total_of g (modify k f m) + g v = total_of g m + g (f v)"
  using vals_modify [of m k v f] by (auto simp: total_mset)

lemma tally_zero_iff: "ok m \<Longrightarrow> tally P m = 0 \<longleftrightarrow> (\<forall>k v. get m k = Some v \<longrightarrow> \<not> P v)"
  using vals_get by (fastforce simp: tally_def filter_empty_conv)

lemma tally_one: "ok m \<Longrightarrow> get m k = Some v \<Longrightarrow> P v \<Longrightarrow> 0 < tally P m"
  using tally_zero_iff by fastforce

lemma tally_all: "tally (\<lambda>_. True) m = length (vals m)"
  by (simp add: tally_def)

lemma tally_cong:
  "(\<And>v. v \<in> set (vals m) \<Longrightarrow> P v \<longleftrightarrow> Q v) \<Longrightarrow> tally P m = tally Q m"
  unfolding tally_def by (metis (mono_tags, lifting) filter_cong)

lemma total_cong:
  "(\<And>v. v \<in> set (vals m) \<Longrightarrow> f v = g v) \<Longrightarrow> total_of f m = total_of g m"
  unfolding total_of_def by (metis (mono_tags, lifting) map_cong)

text \<open>Values split by a first property: those that have it and those that do not.\<close>

lemma tally_split: "tally P m = tally (\<lambda>v. P v \<and> Q v) m + tally (\<lambda>v. P v \<and> \<not> Q v) m"
proof -
  have "length (filter P xs) = length (filter (\<lambda>v. P v \<and> Q v) xs) + length (filter (\<lambda>v. P v \<and> \<not> Q v) xs)" for xs
    by (induction xs) auto
  then show ?thesis by (simp add: tally_def)
qed

end

section \<open>Association lists provide it\<close>

lemma bt_insert_keys: "set (map fst (bt_insert k v m)) = insert k (set (map fst m))"
  by (induction k v m rule: bt_insert.induct) auto

lemma bt_sorted_insert: "bt_sorted m \<Longrightarrow> bt_sorted (bt_insert k v m)"
proof (induction k v m rule: bt_insert.induct)
  case (1 k v)
  then show ?case by (simp add: bt_sorted_def)
next
  case (2 k v k' v' m)
  then have tail: "bt_sorted (bt_insert k v m)" if "\<not> k < k'" "k \<noteq> k'"
    using that by (simp add: bt_sorted_def)
  show ?case
    using "2.prems" tail bt_insert_keys [of k v m]
    by (auto simp: bt_sorted_def intro: less_trans)
qed

lemma bt_modify_keys [simp]: "map fst (bt_modify k f m) = map fst m"
  by (induction k f m rule: bt_modify.induct) auto

lemma bt_get_insert: "bt_get (bt_insert k v m) k' = (if k = k' then Some v else bt_get m k')"
  by (induction k v m rule: bt_insert.induct) (auto simp: bt_get_def)

lemma bt_get_modify:
  "bt_get (bt_modify k f m) k' = (if k = k' then map_option f (bt_get m k') else bt_get m k')"
  by (induction k f m rule: bt_modify.induct) (auto simp: bt_get_def)

lemma bt_values_insert:
  "bt_get m k = None \<Longrightarrow> mset (bt_values (bt_insert k v m)) = add_mset v (mset (bt_values m))"
  by (induction k v m rule: bt_insert.induct) (auto simp: bt_get_def bt_values_def split: if_splits)

lemma bt_values_modify:
  "bt_get m k = Some v \<Longrightarrow>
     \<exists>M. mset (bt_values m) = add_mset v M \<and> mset (bt_values (bt_modify k f m)) = add_mset (f v) M"
proof (induction k f m rule: bt_modify.induct)
  case (1 k f)
  then show ?case by (simp add: bt_get_def)
next
  case (2 k f k' v' m)
  show ?case
  proof (cases "k = k'")
    case True
    with 2 show ?thesis by (auto simp: bt_get_def bt_values_def)
  next
    case False
    with 2 obtain M where "mset (bt_values m) = add_mset v M"
      and "mset (bt_values (bt_modify k f m)) = add_mset (f v) M"
      by (auto simp: bt_get_def)
    with False show ?thesis
      by (intro exI [of _ "add_mset v' M"]) (simp add: bt_values_def)
  qed
qed

lemma bt_values_get: "bt_sorted m \<Longrightarrow> v \<in> set (bt_values m) \<longleftrightarrow> (\<exists>k. bt_get m k = Some v)"
proof -
  assume "bt_sorted m"
  then have "distinct (map fst m)"
    by (simp add: bt_sorted_def strict_sorted_iff)
  then show ?thesis
    by (force simp: bt_values_def bt_get_def dest: map_of_SomeD)
qed

interpretation bt: keyed_store bt_get bt_insert bt_modify bt_values bt_sorted
proof unfold_locales
  fix m :: "('a::linorder, 'b) btree" and k k' f v
  show "bt_sorted m \<Longrightarrow> bt_sorted (bt_modify k f m)"
    by (simp add: bt_sorted_def)
qed (simp_all add: bt_sorted_insert bt_get_insert bt_get_modify bt_values_insert
        bt_values_modify bt_values_get)

lemma bt_get_None_iff: "bt_get m k = None \<longleftrightarrow> k \<notin> set (bt_keys m)"
  by (simp add: bt_get_def bt_keys_def map_of_eq_None_iff)

lemma bt_empty [simp]: "bt_sorted []" "bt_get [] k = None" "bt_values [] = []" "bt_keys [] = []"
  by (simp_all add: bt_sorted_def bt_get_def bt_values_def bt_keys_def)

lemma bt_keys_sorted: "bt_sorted m \<Longrightarrow> distinct (bt_keys m)"
  by (simp add: bt_sorted_def bt_keys_def strict_sorted_iff)

lemma bt_get_in: "bt_get m k = Some v \<Longrightarrow> k \<in> set (bt_keys m)"
  using bt_get_None_iff [of m k] by auto

lemma bt_keys_insert: "set (bt_keys (bt_insert k v m)) = insert k (set (bt_keys m))"
  using bt_insert_keys [of k v m] by (simp add: bt_keys_def)

lemma bt_get_entry: "bt_sorted m \<Longrightarrow> bt_get m k = Some v \<longleftrightarrow> (k, v) \<in> set m"
  by (simp add: bt_get_def bt_sorted_def strict_sorted_iff map_of_eq_Some_iff)

text \<open>A sorted map is determined by its lookups.\<close>

lemma bt_ext:
  assumes "bt_sorted m" "bt_sorted m'" "\<And>k. bt_get m k = bt_get m' k"
  shows "m = m'"
proof -
  have keys: "bt_keys m = bt_keys m'"
  proof (rule sorted_distinct_set_unique)
    show "set (bt_keys m) = set (bt_keys m')" using assms(3) bt_get_None_iff by (metis subsetI subset_antisym)
  qed (use assms in \<open>auto simp: bt_sorted_def bt_keys_def strict_sorted_iff\<close>)
  have vals: "map (\<lambda>k. (k, the (bt_get n k))) (bt_keys n) = n" if "bt_sorted n" for n :: "('a, 'b) btree"
  proof -
    have "(fst x, the (bt_get n (fst x))) = x" if "x \<in> set n" for x
      using bt_get_entry [OF \<open>bt_sorted n\<close>, of "fst x" "snd x"] that by (cases x) auto
    then show ?thesis by (simp add: bt_keys_def map_idI)
  qed
  show ?thesis using vals [OF assms(1)] vals [OF assms(2)] keys assms(3) by (metis (no_types, lifting) ext)
qed

lemma bt_insert_last: "\<forall>k'\<in>fst ` set m. k' < k \<Longrightarrow> bt_insert k v m = m @ [(k, v)]"
  by (induction m) (auto simp: less_not_sym)

text \<open>A map collected from a list of entries.\<close>

definition bt_of_list :: "('k::linorder \<times> 'v) list \<Rightarrow> ('k, 'v) btree" where
  "bt_of_list kvs = foldl (\<lambda>m (k, v). bt_insert k v m) [] kvs"

lemma bt_fold_sorted:
  "sorted_wrt (<) (map fst m @ map fst kvs) \<Longrightarrow> foldl (\<lambda>m (k, v). bt_insert k v m) m kvs = m @ kvs"
proof (induction kvs arbitrary: m)
  case (Cons kv kvs)
  obtain k v where kv: "kv = (k, v)" by (cases kv)
  have "bt_insert k v m = m @ [(k, v)]"
    using Cons.prems by (intro bt_insert_last) (auto simp: kv sorted_wrt_append)
  then show ?case using Cons.IH [of "m @ [(k, v)]"] Cons.prems by (simp add: kv)
qed simp

lemma bt_of_list_sorted: "bt_sorted kvs \<Longrightarrow> bt_of_list kvs = kvs"
  using bt_fold_sorted [of "[]" kvs] by (simp add: bt_of_list_def bt_sorted_def)

lemma bt_sorted_of_list: "bt_sorted (bt_of_list kvs)"
proof -
  have "bt_sorted m \<Longrightarrow> bt_sorted (foldl (\<lambda>m (k, v). bt_insert k v m) m kvs)" for m
    by (induction kvs arbitrary: m) (auto simp: bt_sorted_insert)
  then show ?thesis by (simp add: bt_of_list_def)
qed

lemma bt_get_of_list: "bt_get (bt_of_list kvs) k = map_of (rev kvs) k"
proof -
  have "bt_get (foldl (\<lambda>m (k, v). bt_insert k v m) m kvs) k
      = (case map_of (rev kvs) k of None \<Rightarrow> bt_get m k | Some v \<Rightarrow> Some v)" for m
    by (induction kvs arbitrary: m) (auto simp: bt_get_insert map_add_def split: option.split)
  then show ?thesis by (simp add: bt_of_list_def split: option.split)
qed

lemma bt_of_list_rev: "bt_sorted m \<Longrightarrow> bt_of_list (rev m) = m"
  by (rule bt_ext) (simp_all add: bt_sorted_of_list bt_get_of_list, simp add: bt_get_def)

end
