(* ===== verification/Admission.thy ===== *)
theory Admission
  imports Resource_Limits Outcomes Identity Ordered_Map
begin

text \<open>
  Model of \<open>src/src/jev/admission.rs\<close>: the invocation-wide coordinator every provider
  attempt passes through. \<open>AttemptAdmission\<close> is the coordinator's record;
  \<open>admit\<close>, \<open>record_sent\<close>, \<open>record_response\<close>,
  \<open>record_terminal_failure\<close> and \<open>record_discard\<close> are its operations with the
  readings of the entry clock as arguments. \<open>Arc::ptr_eq\<close> on the owner is equality of
  owner numbers: every coordinator has its own. The world \<open>adm_world\<close> adds the permits and
  tokens the client code holds, because Rust's ownership is what limits them to the coordinator's
  own: a permit is moved out when it is used, a \<open>SentAttempt\<close> can be cloned and replayed.
\<close>

section \<open>Stages, identifiers, budgets\<close>

definition DEFAULT_MIN_ATTEMPT_RESERVE_MS :: u64 where "DEFAULT_MIN_ATTEMPT_RESERVE_MS = 50"
definition DEFAULT_GUARD_GENERATION :: u64 where "DEFAULT_GUARD_GENERATION = 1"

datatype RankingStage = Wide | Rerank | Probe | Evaluation

fun stage_as_str :: "RankingStage \<Rightarrow> string" where
  "stage_as_str Wide = ''wide''"
| "stage_as_str Rerank = ''rerank''"
| "stage_as_str Probe = ''probe''"
| "stage_as_str Evaluation = ''evaluation''"

type_synonym AttemptId = str

datatype AdmissionError =
    PermitAlreadyConsumed
  | AttemptNotActive
  | UsageOverflow
  | InvalidAttemptId string
  | InvalidBudget LimitError

definition attempt_id_parse :: "str \<Rightarrow> (AttemptId, AdmissionError) result" where
  "attempt_id_parse value =
     (let trimmed = trim_str value in
      if trimmed = [] then Err (InvalidAttemptId ''attempt ID cannot be empty'')
      else if str_len trimmed > MAX_ID_BYTES
        then Err (InvalidAttemptId ''attempt ID exceeds maximum byte limit'')
      else if list_ex is_control trimmed
        then Err (InvalidAttemptId ''attempt ID cannot contain control characters'')
      else Ok trimmed)"

definition new_sequential :: "str \<Rightarrow> u32 \<Rightarrow> AttemptId" where
  "new_sequential invocation_id seq = invocation_id @ scalars (''-att-'' @ dec seq)"

record AttemptBudget =
  ab_max_logical_requests :: u32
  ab_max_http_attempts :: u32
  ab_min_attempt_reserve_ms :: u64

definition attempt_budget_new :: "u32 \<Rightarrow> u32 \<Rightarrow> (AttemptBudget, AdmissionError) result" where
  "attempt_budget_new max_logical_requests max_http_attempts =
     (if max_logical_requests = 0
      then Err (InvalidBudget (ZeroIsNotUnlimited ''max_logical_requests''))
      else if max_http_attempts = 0
      then Err (InvalidBudget (ZeroIsNotUnlimited ''max_http_attempts''))
      else if max_http_attempts < max_logical_requests
      then Err (InvalidBudget (AttemptsBelowLogicalRequests max_logical_requests max_http_attempts))
      else Ok \<lparr>ab_max_logical_requests = max_logical_requests,
               ab_max_http_attempts = max_http_attempts,
               ab_min_attempt_reserve_ms = DEFAULT_MIN_ATTEMPT_RESERVE_MS\<rparr>)"

definition attempt_budget_default :: AttemptBudget where
  "attempt_budget_default =
     \<lparr>ab_max_logical_requests = DEFAULT_LOGICAL_REQUESTS,
      ab_max_http_attempts = DEFAULT_HTTP_ATTEMPTS,
      ab_min_attempt_reserve_ms = DEFAULT_MIN_ATTEMPT_RESERVE_MS\<rparr>"

definition with_min_reserve_ms :: "AttemptBudget \<Rightarrow> u64 \<Rightarrow> AttemptBudget" where
  "with_min_reserve_ms b ms = b\<lparr>ab_min_attempt_reserve_ms := ms\<rparr>"

section \<open>Refusals\<close>

datatype AdmissionRefusal =
    AttemptsExhausted u32 u32
  | LogicalRequestsExhausted u32 u32
  | InsufficientDeadline u64 u64
  | StageOrderingViolation RankingStage string
  | ProviderCooldown u64
  | BudgetStateUnavailable
  | DuplicateAttemptId AttemptId

fun admission_error_kind :: "AdmissionRefusal \<Rightarrow> ErrorKind" where
  "admission_error_kind (AttemptsExhausted _ _) = Ek_RequestBudget"
| "admission_error_kind (LogicalRequestsExhausted _ _) = Ek_RequestBudget"
| "admission_error_kind (InsufficientDeadline _ _) = Ek_Timeout"
| "admission_error_kind (StageOrderingViolation _ _) = Ek_InvalidUsage"
| "admission_error_kind (DuplicateAttemptId _) = Ek_InvalidUsage"
| "admission_error_kind (ProviderCooldown _) = Ek_ProviderCooldown"
| "admission_error_kind BudgetStateUnavailable = Ek_BudgetState"

definition admission_exit_code :: "AdmissionRefusal \<Rightarrow> CliExit" where
  "admission_exit_code r = kind_exit_code (admission_error_kind r)"

section \<open>Permits and tokens\<close>

type_synonym CanonicalOrigin = str
type_synonym owner = nat

record AttemptPermit =
  pm_owner :: owner
  pm_attempt_id :: AttemptId
  pm_stage :: RankingStage
  pm_endpoint :: CanonicalOrigin
  pm_guard_generation :: u64
  pm_admitted_at :: MonotonicMillis
  pm_deadline_remaining_ms :: u64
  pm_consumed :: bool

record SentAttempt =
  sa_owner :: owner
  sa_attempt_id :: AttemptId
  sa_stage :: RankingStage
  sa_sent_at :: MonotonicMillis

record DiscardedAttempt =
  da_owner :: owner
  da_attempt_id :: AttemptId
  da_stage :: RankingStage
  da_reason :: string

definition mark_sent :: "AttemptPermit \<Rightarrow> (SentAttempt, AdmissionError) result" where
  "mark_sent p =
     (if pm_consumed p then Err PermitAlreadyConsumed
      else Ok \<lparr>sa_owner = pm_owner p, sa_attempt_id = pm_attempt_id p, sa_stage = pm_stage p,
               sa_sent_at = pm_admitted_at p\<rparr>)"

definition discard_before_send :: "AttemptPermit \<Rightarrow> string \<Rightarrow> DiscardedAttempt" where
  "discard_before_send p reason =
     \<lparr>da_owner = pm_owner p, da_attempt_id = pm_attempt_id p, da_stage = pm_stage p,
      da_reason = reason\<rparr>"

section \<open>Cost receipts\<close>

record CostReceipt =
  cr_admitted_attempts :: u32
  cr_sent_attempts :: u32
  cr_completed_attempts :: u32
  cr_known_usage :: Usage
  cr_unknown_usage_attempts :: u32
  cr_has_unknown_usage :: bool
  cr_cache_served :: bool

definition zero_usage :: Usage where
  "zero_usage = \<lparr>us_input_tokens = 0, us_output_tokens = 0\<rparr>"

definition cost_receipt_new :: CostReceipt where
  "cost_receipt_new =
     \<lparr>cr_admitted_attempts = 0, cr_sent_attempts = 0, cr_completed_attempts = 0,
      cr_known_usage = zero_usage, cr_unknown_usage_attempts = 0,
      cr_has_unknown_usage = False, cr_cache_served = False\<rparr>"

definition zero_cost_cache_hit :: CostReceipt where
  "zero_cost_cache_hit =
     \<lparr>cr_admitted_attempts = 0, cr_sent_attempts = 0, cr_completed_attempts = 0,
      cr_known_usage = zero_usage, cr_unknown_usage_attempts = 0,
      cr_has_unknown_usage = False, cr_cache_served = True\<rparr>"

definition record_success :: "Usage \<Rightarrow> CostReceipt \<Rightarrow> CostReceipt" where
  "record_success usage r =
     r\<lparr>cr_completed_attempts := sat_add32 (cr_completed_attempts r) 1,
       cr_known_usage :=
         \<lparr>us_input_tokens =
            sat_add64 (us_input_tokens (cr_known_usage r)) (us_input_tokens usage),
          us_output_tokens =
            sat_add64 (us_output_tokens (cr_known_usage r)) (us_output_tokens usage)\<rparr>\<rparr>"

definition record_terminal_error :: "CostReceipt \<Rightarrow> CostReceipt" where
  "record_terminal_error r =
     r\<lparr>cr_unknown_usage_attempts := sat_add32 (cr_unknown_usage_attempts r) 1,
       cr_has_unknown_usage := True\<rparr>"

definition receipt_total_tokens :: "CostReceipt \<Rightarrow> u64" where
  "receipt_total_tokens r =
     sat_add64 (us_input_tokens (cr_known_usage r)) (us_output_tokens (cr_known_usage r))"

definition receipt_is_empty :: "CostReceipt \<Rightarrow> bool" where
  "receipt_is_empty r \<longleftrightarrow> cr_admitted_attempts r = 0"

section \<open>What becomes of an attempt\<close>

datatype AttemptState = State_Admitted | State_Sent | State_Finished

datatype AttemptOutcome =
  Out_Admitted | Out_Sent | Out_Completed | Out_Failed | Out_Discarded

fun outcome_as_str :: "AttemptOutcome \<Rightarrow> string" where
  "outcome_as_str Out_Admitted = ''admitted''"
| "outcome_as_str Out_Sent = ''sent''"
| "outcome_as_str Out_Completed = ''completed''"
| "outcome_as_str Out_Failed = ''failed''"
| "outcome_as_str Out_Discarded = ''discarded''"

datatype AttemptFailure = Fail_Http nat | Fail_Local string | Fail_Indeterminate string

fun failure_kind :: "AttemptFailure \<Rightarrow> string" where
  "failure_kind (Fail_Http _) = ''http-status''"
| "failure_kind (Fail_Local k) = k"
| "failure_kind (Fail_Indeterminate k) = k"

fun failure_http_status :: "AttemptFailure \<Rightarrow> nat option" where
  "failure_http_status (Fail_Http s) = Some s"
| "failure_http_status (Fail_Local _) = None"
| "failure_http_status (Fail_Indeterminate _) = None"

fun is_determinate :: "AttemptFailure \<Rightarrow> bool" where
  "is_determinate (Fail_Indeterminate _) = False"
| "is_determinate (Fail_Http _) = True"
| "is_determinate (Fail_Local _) = True"

fun transport_failure_kind :: "TransportErrorKind \<Rightarrow> string" where
  "transport_failure_kind InvalidConfiguration = ''invalid-configuration''"
| "transport_failure_kind (TransportErrorKind.Admission _) = ''provider-admission-refused''"
| "transport_failure_kind CredentialOriginMismatch = ''credential-origin-mismatch''"
| "transport_failure_kind (Request _) = ''request-encode''"
| "transport_failure_kind (Response _) = ''response-decode''"
| "transport_failure_kind Cancelled = ''cancelled''"
| "transport_failure_kind Deadline = ''deadline''"
| "transport_failure_kind Dns = ''dns''"
| "transport_failure_kind Connect = ''connect''"
| "transport_failure_kind TransientIo = ''transient-io''"
| "transport_failure_kind Tls = ''tls''"
| "transport_failure_kind Protocol = ''protocol''"
| "transport_failure_kind BodyTooLarge = ''body-too-large''"
| "transport_failure_kind UnsupportedEncoding = ''unsupported-encoding''"
| "transport_failure_kind InvalidContentType = ''invalid-content-type''"
| "transport_failure_kind Redirect = ''redirect''"
| "transport_failure_kind (HttpStatus _) = ''http-status''"

definition from_transport :: "TransportError \<Rightarrow> AttemptFailure" where
  "from_transport e =
     (case te_kind e of
        HttpStatus s \<Rightarrow> Fail_Http s
      | k \<Rightarrow>
        (let name = transport_failure_kind k in
         if te_http_attempt_started e then Fail_Indeterminate name else Fail_Local name))"

record AttemptProvenance =
  ap_attempt_id :: AttemptId
  ap_stage :: RankingStage
  ap_admitted_at :: MonotonicMillis
  ap_sent_at :: "MonotonicMillis option"
  ap_settled_at :: "MonotonicMillis option"
  ap_outcome :: AttemptOutcome
  ap_usage :: "Usage option"
  ap_failure :: "AttemptFailure option"

record AttemptTrace =
  tr_state :: AttemptState
  tr_provenance :: AttemptProvenance

section \<open>The coordinator\<close>

record AttemptAdmission =
  aa_budget :: AttemptBudget
  aa_clock :: InvocationDeadline
  aa_invocation_id :: str
  aa_guard_generation :: u64
  aa_receipt :: CostReceipt
  aa_logical_requests_started :: u32
  aa_current_stage :: "RankingStage option"
  aa_wide_completed :: bool
  aa_issued_attempt_ids :: "(AttemptId, AttemptTrace) btree"
  aa_owner :: owner
  aa_current_stage_completed :: bool

definition admission_new ::
  "AttemptBudget \<Rightarrow> InvocationDeadline \<Rightarrow> str \<Rightarrow> owner \<Rightarrow> (AttemptAdmission, AdmissionError) result" where
  "admission_new budget clock invocation_id owner =
     (if trim_str invocation_id = []
      then Err (InvalidAttemptId ''invocation ID cannot be empty'')
      else Ok \<lparr>aa_budget = budget, aa_clock = clock, aa_invocation_id = invocation_id,
               aa_guard_generation = DEFAULT_GUARD_GENERATION, aa_receipt = cost_receipt_new,
               aa_logical_requests_started = 0, aa_current_stage = None,
               aa_wide_completed = False, aa_issued_attempt_ids = [], aa_owner = owner,
               aa_current_stage_completed = False\<rparr>)"

definition attempt_state :: "AttemptAdmission \<Rightarrow> AttemptId \<Rightarrow> AttemptState option" where
  "attempt_state a i = map_option tr_state (bt_get (aa_issued_attempt_ids a) i)"

definition settle_trace ::
  "AttemptState \<Rightarrow> (AttemptProvenance \<Rightarrow> AttemptProvenance) \<Rightarrow> AttemptTrace \<Rightarrow> AttemptTrace" where
  "settle_trace st update tr =
     tr\<lparr>tr_state := st, tr_provenance := update (tr_provenance tr)\<rparr>"

definition admission_settle ::
  "AttemptId \<Rightarrow> AttemptState \<Rightarrow> (AttemptProvenance \<Rightarrow> AttemptProvenance)
     \<Rightarrow> AttemptAdmission \<Rightarrow> AttemptAdmission" where
  "admission_settle i st update a =
     a\<lparr>aa_issued_attempt_ids := bt_modify i (settle_trace st update) (aa_issued_attempt_ids a)\<rparr>"

definition admission_attempts :: "AttemptAdmission \<Rightarrow> AttemptProvenance list" where
  "admission_attempts a = map tr_provenance (bt_values (aa_issued_attempt_ids a))"

definition set_guard_generation :: "u64 \<Rightarrow> AttemptAdmission \<Rightarrow> AttemptAdmission" where
  "set_guard_generation g a = a\<lparr>aa_guard_generation := g\<rparr>"

definition remaining_http_attempts :: "AttemptAdmission \<Rightarrow> u32" where
  "remaining_http_attempts a =
     sat_sub (ab_max_http_attempts (aa_budget a)) (cr_admitted_attempts (aa_receipt a))"

definition remaining_logical_requests :: "AttemptAdmission \<Rightarrow> u32" where
  "remaining_logical_requests a =
     sat_sub (ab_max_logical_requests (aa_budget a)) (aa_logical_requests_started a)"

definition can_attempt_rerank :: "AttemptAdmission \<Rightarrow> bool" where
  "can_attempt_rerank a \<longleftrightarrow>
     aa_wide_completed a
   \<and> remaining_http_attempts a > 0
   \<and> (remaining_logical_requests a > 0
       \<or> aa_current_stage a = Some Rerank \<and> \<not> aa_current_stage_completed a)"

definition is_new_logical_stage :: "RankingStage \<Rightarrow> AttemptAdmission \<Rightarrow> bool" where
  "is_new_logical_stage stage a =
     (case aa_current_stage a of
        Some cur \<Rightarrow> cur \<noteq> stage \<or> aa_current_stage_completed a
      | None \<Rightarrow> True)"

text \<open>The trace a successful admission registers.\<close>

definition admitted_trace :: "AttemptId \<Rightarrow> RankingStage \<Rightarrow> MonotonicMillis \<Rightarrow> AttemptTrace" where
  "admitted_trace i stage now =
     \<lparr>tr_state = State_Admitted,
      tr_provenance =
        \<lparr>ap_attempt_id = i, ap_stage = stage, ap_admitted_at = now, ap_sent_at = None,
         ap_settled_at = None, ap_outcome = Out_Admitted, ap_usage = None, ap_failure = None\<rparr>\<rparr>"

text \<open>\<open>t1\<close> and \<open>t2\<close> are the two readings of the entry clock.\<close>

definition admit ::
  "RankingStage \<Rightarrow> CanonicalOrigin \<Rightarrow> MonotonicMillis \<Rightarrow> MonotonicMillis \<Rightarrow> AttemptAdmission
     \<Rightarrow> (AttemptPermit, AdmissionRefusal) result \<times> AttemptAdmission" where
  "admit stage endpoint t1 t2 a =
     (if list_ex (\<lambda>tr. tr_state tr \<noteq> State_Finished) (bt_values (aa_issued_attempt_ids a))
      then (Err (StageOrderingViolation stage ''a previous attempt is still active''), a)
      else case admit_new_work (aa_clock a) t1 of
        Err _ \<Rightarrow> (Err (InsufficientDeadline 0 (ab_min_attempt_reserve_ms (aa_budget a))), a)
      | Ok now \<Rightarrow>
        let remaining = remaining_before_cleanup (aa_clock a) t2 in
        if remaining < ab_min_attempt_reserve_ms (aa_budget a)
        then (Err (InsufficientDeadline remaining (ab_min_attempt_reserve_ms (aa_budget a))), a)
        else if stage = Rerank \<and> \<not> aa_wide_completed a
        then (Err (StageOrderingViolation stage
                ''rerank stage requires successful wide stage completion first''), a)
        else if is_new_logical_stage stage a
             \<and> aa_logical_requests_started a \<ge> ab_max_logical_requests (aa_budget a)
        then (Err (LogicalRequestsExhausted (aa_logical_requests_started a)
                     (ab_max_logical_requests (aa_budget a))), a)
        else if cr_admitted_attempts (aa_receipt a) \<ge> ab_max_http_attempts (aa_budget a)
        then (Err (AttemptsExhausted (cr_admitted_attempts (aa_receipt a))
                     (ab_max_http_attempts (aa_budget a))), a)
        else
          let sequence = sat_add32 (cr_admitted_attempts (aa_receipt a)) 1;
              attempt_id = new_sequential (aa_invocation_id a) sequence in
          if bt_get (aa_issued_attempt_ids a) attempt_id \<noteq> None
          then (Err (DuplicateAttemptId attempt_id), a)
          else
            let a' = a\<lparr>aa_issued_attempt_ids :=
                         bt_insert attempt_id (admitted_trace attempt_id stage now)
                           (aa_issued_attempt_ids a),
                       aa_receipt := (aa_receipt a)\<lparr>cr_admitted_attempts := sequence\<rparr>\<rparr>;
                a'' = (if is_new_logical_stage stage a
                       then a'\<lparr>aa_logical_requests_started :=
                                  wrapping_add32 (aa_logical_requests_started a) 1,
                                aa_current_stage := Some stage,
                                aa_current_stage_completed := False\<rparr>
                       else a')
            in (Ok \<lparr>pm_owner = aa_owner a, pm_attempt_id = attempt_id, pm_stage = stage,
                    pm_endpoint = endpoint, pm_guard_generation = aa_guard_generation a,
                    pm_admitted_at = now, pm_deadline_remaining_ms = remaining,
                    pm_consumed = False\<rparr>, a''))"

definition record_sent ::
  "SentAttempt \<Rightarrow> MonotonicMillis \<Rightarrow> AttemptAdmission
     \<Rightarrow> (unit, AdmissionError) result \<times> AttemptAdmission" where
  "record_sent sent now a =
     (if aa_owner a \<noteq> sa_owner sent
         \<or> attempt_state a (sa_attempt_id sent) \<noteq> Some State_Admitted
      then (Err AttemptNotActive, a)
      else
        let r = aa_receipt a;
            a' = a\<lparr>aa_receipt := r\<lparr>cr_sent_attempts := sat_add32 (cr_sent_attempts r) 1\<rparr>\<rparr>
        in (Ok (), admission_settle (sa_attempt_id sent) State_Sent
                     (\<lambda>p. p\<lparr>ap_sent_at := Some now, ap_outcome := Out_Sent\<rparr>) a'))"

definition record_terminal_failure ::
  "SentAttempt \<Rightarrow> AttemptFailure \<Rightarrow> MonotonicMillis \<Rightarrow> AttemptAdmission
     \<Rightarrow> (unit, AdmissionError) result \<times> AttemptAdmission" where
  "record_terminal_failure sent failure now a =
     (if aa_owner a \<noteq> sa_owner sent
         \<or> attempt_state a (sa_attempt_id sent) \<noteq> Some State_Sent
      then (Err AttemptNotActive, a)
      else
        (Ok (), admission_settle (sa_attempt_id sent) State_Finished
                  (\<lambda>p. p\<lparr>ap_settled_at := Some now, ap_outcome := Out_Failed,
                         ap_failure := Some failure\<rparr>)
                  (a\<lparr>aa_receipt := record_terminal_error (aa_receipt a)\<rparr>)))"

text \<open>The checked sum that decides whether the receipt can stay exact.\<close>

definition usage_fits :: "Usage \<Rightarrow> Usage \<Rightarrow> bool" where
  "usage_fits known usage =
     (case (checked_add64 (us_input_tokens known) (us_input_tokens usage),
            checked_add64 (us_output_tokens known) (us_output_tokens usage)) of
        (Some i, Some out) \<Rightarrow> checked_add64 i out \<noteq> None
      | _ \<Rightarrow> False)"

definition record_response ::
  "SentAttempt \<Rightarrow> Usage \<Rightarrow> MonotonicMillis \<Rightarrow> AttemptAdmission
     \<Rightarrow> (unit, AdmissionError) result \<times> AttemptAdmission" where
  "record_response sent usage now a =
     (if aa_owner a \<noteq> sa_owner sent
         \<or> attempt_state a (sa_attempt_id sent) \<noteq> Some State_Sent
      then (Err AttemptNotActive, a)
      else if \<not> usage_fits (cr_known_usage (aa_receipt a)) usage
      then (case record_terminal_failure sent (Fail_Local ''usage-counter-overflow'') now a of
              (Err e, a') \<Rightarrow> (Err e, a')
            | (Ok _, a') \<Rightarrow> (Err UsageOverflow, a'))
      else
        let a' = a\<lparr>aa_receipt := record_success usage (aa_receipt a),
                   aa_wide_completed := (if sa_stage sent = Wide then True else aa_wide_completed a),
                   aa_current_stage_completed := True\<rparr>
        in (Ok (), admission_settle (sa_attempt_id sent) State_Finished
                     (\<lambda>p. p\<lparr>ap_settled_at := Some now, ap_outcome := Out_Completed,
                            ap_usage := Some usage\<rparr>) a'))"

definition record_discard ::
  "DiscardedAttempt \<Rightarrow> MonotonicMillis \<Rightarrow> AttemptAdmission
     \<Rightarrow> (unit, AdmissionError) result \<times> AttemptAdmission" where
  "record_discard discarded now a =
     (if aa_owner a \<noteq> da_owner discarded
         \<or> attempt_state a (da_attempt_id discarded) \<noteq> Some State_Admitted
      then (Err AttemptNotActive, a)
      else
        (Ok (), admission_settle (da_attempt_id discarded) State_Finished
                  (\<lambda>p. p\<lparr>ap_settled_at := Some now, ap_outcome := Out_Discarded,
                         ap_failure := Some (Fail_Local ''discarded-before-send'')\<rparr>) a))"

definition record_cache_hit :: "AttemptAdmission \<Rightarrow> AttemptAdmission" where
  "record_cache_hit a = a\<lparr>aa_receipt := (aa_receipt a)\<lparr>cr_cache_served := True\<rparr>\<rparr>"

section \<open>The client side: permits and tokens as Rust's ownership hands them out\<close>

definition drop_nth :: "nat \<Rightarrow> 'a list \<Rightarrow> 'a list" where
  "drop_nth i xs = take i xs @ drop (Suc i) xs"

record adm_world =
  w_adm :: AttemptAdmission
  w_permits :: "AttemptPermit list"
  w_sent :: "SentAttempt list"
  w_discarded :: "DiscardedAttempt list"

datatype adm_op =
    OpAdmit RankingStage CanonicalOrigin MonotonicMillis MonotonicMillis
  | OpMarkSent nat
  | OpDiscard nat string
  | OpDropPermit nat
  | OpRecordSent nat MonotonicMillis
  | OpRecordResponse nat Usage MonotonicMillis
  | OpRecordFailure nat AttemptFailure MonotonicMillis
  | OpRecordDiscard nat MonotonicMillis
  | OpCacheHit
  | OpGuardGeneration u64

text \<open>
  One client action. The indices select a permit or token the client holds; an index out of range
  is no action.
\<close>

fun adm_step :: "adm_op \<Rightarrow> adm_world \<Rightarrow> adm_world" where
  "adm_step (OpAdmit stage endpoint t1 t2) w =
     (case admit stage endpoint t1 t2 (w_adm w) of
        (Ok p, a) \<Rightarrow> w\<lparr>w_adm := a, w_permits := w_permits w @ [p]\<rparr>
      | (Err _, a) \<Rightarrow> w\<lparr>w_adm := a\<rparr>)"
| "adm_step (OpMarkSent i) w =
     (if i < length (w_permits w)
      then (case mark_sent (w_permits w ! i) of
              Ok s \<Rightarrow> w\<lparr>w_permits := drop_nth i (w_permits w), w_sent := w_sent w @ [s]\<rparr>
            | Err _ \<Rightarrow> w\<lparr>w_permits := drop_nth i (w_permits w)\<rparr>)
      else w)"
| "adm_step (OpDiscard i reason) w =
     (if i < length (w_permits w)
      then w\<lparr>w_permits := drop_nth i (w_permits w),
             w_discarded := w_discarded w @ [discard_before_send (w_permits w ! i) reason]\<rparr>
      else w)"
| "adm_step (OpDropPermit i) w = w\<lparr>w_permits := drop_nth i (w_permits w)\<rparr>"
| "adm_step (OpRecordSent i t) w =
     (if i < length (w_sent w) then w\<lparr>w_adm := snd (record_sent (w_sent w ! i) t (w_adm w))\<rparr> else w)"
| "adm_step (OpRecordResponse i u t) w =
     (if i < length (w_sent w)
      then w\<lparr>w_adm := snd (record_response (w_sent w ! i) u t (w_adm w))\<rparr> else w)"
| "adm_step (OpRecordFailure i f t) w =
     (if i < length (w_sent w)
      then w\<lparr>w_adm := snd (record_terminal_failure (w_sent w ! i) f t (w_adm w))\<rparr> else w)"
| "adm_step (OpRecordDiscard i t) w =
     (if i < length (w_discarded w)
      then w\<lparr>w_adm := snd (record_discard (w_discarded w ! i) t (w_adm w))\<rparr> else w)"
| "adm_step OpCacheHit w = w\<lparr>w_adm := record_cache_hit (w_adm w)\<rparr>"
| "adm_step (OpGuardGeneration g) w = w\<lparr>w_adm := set_guard_generation g (w_adm w)\<rparr>"

text \<open>
  Where an invocation starts: a new coordinator, no permits, and perhaps tokens that belong to
  other coordinators of the process.
\<close>

definition adm_start :: "AttemptBudget \<Rightarrow> InvocationDeadline \<Rightarrow> str \<Rightarrow> adm_world \<Rightarrow> bool" where
  "adm_start budget clock invocation_id w \<longleftrightarrow>
     admission_new budget clock invocation_id (aa_owner (w_adm w)) = Ok (w_adm w)
   \<and> w_permits w = []
   \<and> list_all (\<lambda>s. sa_owner s \<noteq> aa_owner (w_adm w)) (w_sent w)
   \<and> list_all (\<lambda>d. da_owner d \<noteq> aa_owner (w_adm w)) (w_discarded w)"

section \<open>Invariants\<close>

definition trace_ok :: "AttemptTrace \<Rightarrow> bool" where
  "trace_ok tr \<longleftrightarrow>
     (let p = tr_provenance tr in
      case ap_outcome p of
        Out_Admitted \<Rightarrow> tr_state tr = State_Admitted \<and> ap_sent_at p = None \<and> ap_settled_at p = None
                        \<and> ap_usage p = None \<and> ap_failure p = None
      | Out_Sent \<Rightarrow> tr_state tr = State_Sent \<and> ap_sent_at p \<noteq> None \<and> ap_settled_at p = None
                    \<and> ap_usage p = None \<and> ap_failure p = None
      | Out_Completed \<Rightarrow> tr_state tr = State_Finished \<and> ap_sent_at p \<noteq> None \<and> ap_settled_at p \<noteq> None
                         \<and> ap_usage p \<noteq> None \<and> ap_failure p = None
      | Out_Failed \<Rightarrow> tr_state tr = State_Finished \<and> ap_sent_at p \<noteq> None \<and> ap_settled_at p \<noteq> None
                      \<and> ap_usage p = None \<and> ap_failure p \<noteq> None
      | Out_Discarded \<Rightarrow> tr_state tr = State_Finished \<and> ap_sent_at p = None \<and> ap_settled_at p \<noteq> None
                         \<and> ap_usage p = None
                         \<and> ap_failure p = Some (Fail_Local ''discarded-before-send''))"

abbreviation tr_outcome :: "AttemptTrace \<Rightarrow> AttemptOutcome" where
  "tr_outcome tr \<equiv> ap_outcome (tr_provenance tr)"

definition tr_active :: "AttemptTrace \<Rightarrow> bool" where
  "tr_active tr \<longleftrightarrow> tr_state tr \<noteq> State_Finished"

definition tr_was_sent :: "AttemptTrace \<Rightarrow> bool" where
  "tr_was_sent tr \<longleftrightarrow> ap_sent_at (tr_provenance tr) \<noteq> None"

definition tr_input :: "AttemptTrace \<Rightarrow> nat" where
  "tr_input tr = (case ap_usage (tr_provenance tr) of None \<Rightarrow> 0 | Some u \<Rightarrow> us_input_tokens u)"

definition tr_output :: "AttemptTrace \<Rightarrow> nat" where
  "tr_output tr = (case ap_usage (tr_provenance tr) of None \<Rightarrow> 0 | Some u \<Rightarrow> us_output_tokens u)"

definition ids_inv :: "AttemptAdmission \<Rightarrow> bool" where
  "ids_inv a \<longleftrightarrow>
     bt_sorted (aa_issued_attempt_ids a)
   \<and> (\<forall>i tr. bt_get (aa_issued_attempt_ids a) i = Some tr \<longrightarrow>
        ap_attempt_id (tr_provenance tr) = i \<and> trace_ok tr)
   \<and> set (bt_keys (aa_issued_attempt_ids a)) =
       new_sequential (aa_invocation_id a) ` {1..cr_admitted_attempts (aa_receipt a)}
   \<and> bt.tally tr_active (aa_issued_attempt_ids a) \<le> 1"

definition budget_inv :: "AttemptAdmission \<Rightarrow> bool" where
  "budget_inv a \<longleftrightarrow>
     cr_admitted_attempts (aa_receipt a) \<le> ab_max_http_attempts (aa_budget a)
   \<and> aa_logical_requests_started a \<le> ab_max_logical_requests (aa_budget a)
   \<and> ab_max_http_attempts (aa_budget a) \<le> U32_MAX
   \<and> ab_max_logical_requests (aa_budget a) \<le> U32_MAX"

definition cost_inv :: "AttemptAdmission \<Rightarrow> bool" where
  "cost_inv a \<longleftrightarrow>
     (let r = aa_receipt a; m = aa_issued_attempt_ids a in
        cr_sent_attempts r = bt.tally tr_was_sent m
      \<and> cr_completed_attempts r = bt.tally (\<lambda>tr. tr_outcome tr = Out_Completed) m
      \<and> cr_unknown_usage_attempts r = bt.tally (\<lambda>tr. tr_outcome tr = Out_Failed) m
      \<and> (cr_has_unknown_usage r \<longleftrightarrow> 0 < cr_unknown_usage_attempts r)
      \<and> us_input_tokens (cr_known_usage r) = bt.total_of tr_input m
      \<and> us_output_tokens (cr_known_usage r) = bt.total_of tr_output m
      \<and> us_input_tokens (cr_known_usage r) + us_output_tokens (cr_known_usage r) \<le> U64_MAX)"

definition wide_done_before :: "nat \<Rightarrow> AttemptAdmission \<Rightarrow> bool" where
  "wide_done_before n a \<longleftrightarrow>
     (\<exists>k tr. k < n \<and> bt_get (aa_issued_attempt_ids a) (new_sequential (aa_invocation_id a) k) = Some tr
        \<and> ap_stage (tr_provenance tr) = Wide \<and> tr_outcome tr = Out_Completed)"

definition stage_inv :: "AttemptAdmission \<Rightarrow> bool" where
  "stage_inv a \<longleftrightarrow>
     (aa_wide_completed a \<longleftrightarrow> wide_done_before (Suc (cr_admitted_attempts (aa_receipt a))) a)
   \<and> (\<forall>n tr. bt_get (aa_issued_attempt_ids a) (new_sequential (aa_invocation_id a) n) = Some tr \<longrightarrow>
        ap_stage (tr_provenance tr) = Rerank \<longrightarrow> wide_done_before n a)"

definition names_attempt :: "AttemptAdmission \<Rightarrow> owner \<Rightarrow> AttemptId \<Rightarrow> RankingStage \<Rightarrow> bool" where
  "names_attempt a own i stage \<longleftrightarrow> own = aa_owner a \<longrightarrow>
     (\<exists>tr. bt_get (aa_issued_attempt_ids a) i = Some tr \<and> ap_stage (tr_provenance tr) = stage)"

definition tokens_inv :: "adm_world \<Rightarrow> bool" where
  "tokens_inv w \<longleftrightarrow>
     (\<forall>p \<in> set (w_permits w). names_attempt (w_adm w) (pm_owner p) (pm_attempt_id p) (pm_stage p))
   \<and> (\<forall>s \<in> set (w_sent w). names_attempt (w_adm w) (sa_owner s) (sa_attempt_id s) (sa_stage s))
   \<and> (\<forall>d \<in> set (w_discarded w).
        names_attempt (w_adm w) (da_owner d) (da_attempt_id d) (da_stage d))"

definition adm_inv :: "AttemptAdmission \<Rightarrow> bool" where
  "adm_inv a \<longleftrightarrow> ids_inv a \<and> budget_inv a \<and> cost_inv a \<and> stage_inv a"

definition world_inv :: "adm_world \<Rightarrow> bool" where
  "world_inv w \<longleftrightarrow> adm_inv (w_adm w) \<and> tokens_inv w"

section \<open>Identifiers\<close>

lemma new_sequential_inj [simp]: "new_sequential i a = new_sequential i b \<longleftrightarrow> a = b"
  by (auto simp: new_sequential_def dec_inj)

lemma issued_count:
  assumes "ids_inv a"
  shows "length (aa_issued_attempt_ids a) = cr_admitted_attempts (aa_receipt a)"
proof -
  have "distinct (bt_keys (aa_issued_attempt_ids a))"
    using assms by (auto simp: ids_inv_def intro: bt_keys_sorted)
  then have "length (bt_keys (aa_issued_attempt_ids a)) = card (set (bt_keys (aa_issued_attempt_ids a)))"
    by (simp add: distinct_card)
  also have "\<dots> = card (new_sequential (aa_invocation_id a) ` {1..cr_admitted_attempts (aa_receipt a)})"
    using assms by (simp add: ids_inv_def)
  also have "\<dots> = card {1..cr_admitted_attempts (aa_receipt a)}"
    by (rule card_image) (simp add: inj_on_def)
  finally show ?thesis by (simp add: bt_keys_def)
qed

lemma issued_iff:
  assumes "ids_inv a"
  shows "bt_get (aa_issued_attempt_ids a) (new_sequential (aa_invocation_id a) n) \<noteq> None \<longleftrightarrow>
    1 \<le> n \<and> n \<le> cr_admitted_attempts (aa_receipt a)"
  using assms by (auto simp: bt_get_None_iff ids_inv_def)

lemma issued_is_sequential:
  assumes "ids_inv a" and "bt_get (aa_issued_attempt_ids a) i = Some tr"
  obtains n where "i = new_sequential (aa_invocation_id a) n" and "1 \<le> n"
    and "n \<le> cr_admitted_attempts (aa_receipt a)"
proof -
  have "bt_get (aa_issued_attempt_ids a) i \<noteq> None" using assms(2) by simp
  then show ?thesis using assms(1) that by (auto simp: bt_get_None_iff ids_inv_def)
qed

text \<open>The next identifier is fresh: \<open>DuplicateAttemptId\<close> cannot happen.\<close>

lemma next_id_fresh:
  assumes "ids_inv a" and "cr_admitted_attempts (aa_receipt a) < U32_MAX"
  shows "bt_get (aa_issued_attempt_ids a)
    (new_sequential (aa_invocation_id a) (sat_add32 (cr_admitted_attempts (aa_receipt a)) 1)) = None"
proof -
  have "\<not> bt_get (aa_issued_attempt_ids a)
      (new_sequential (aa_invocation_id a) (cr_admitted_attempts (aa_receipt a) + 1)) \<noteq> None"
    using issued_iff [OF assms(1)] by simp
  moreover have "sat_add32 (cr_admitted_attempts (aa_receipt a)) 1 = cr_admitted_attempts (aa_receipt a) + 1"
    using assms(2) by (intro sat_add32_exact) simp
  ultimately show ?thesis by simp
qed

lemma no_active_iff:
  "ids_inv a \<Longrightarrow>
    list_ex (\<lambda>tr. tr_state tr \<noteq> State_Finished) (bt_values (aa_issued_attempt_ids a)) \<longleftrightarrow>
    0 < bt.tally tr_active (aa_issued_attempt_ids a)"
  by (auto simp: bt.tally_def tr_active_def list_ex_iff filter_empty_conv)

lemma tally_le_admitted:
  "ids_inv a \<Longrightarrow> bt.tally P (aa_issued_attempt_ids a) \<le> cr_admitted_attempts (aa_receipt a)"
  using issued_count [of a] length_filter_le [of P "bt_values (aa_issued_attempt_ids a)"]
  by (simp add: bt.tally_def bt_values_def)

section \<open>What each operation does\<close>

lemma admit_cases:
  assumes "admit stage e t1 t2 a = (r, a')"
  obtains (refused) x where "r = Err x" and "a' = a"
  | (granted) p i where "r = Ok p"
      and "i = new_sequential (aa_invocation_id a) (sat_add32 (cr_admitted_attempts (aa_receipt a)) 1)"
      and "pm_owner p = aa_owner a" and "pm_attempt_id p = i" and "pm_stage p = stage"
      and "pm_consumed p = False"
      and "\<not> list_ex (\<lambda>tr. tr_state tr \<noteq> State_Finished) (bt_values (aa_issued_attempt_ids a))"
      and "stage = Rerank \<longrightarrow> aa_wide_completed a"
      and "cr_admitted_attempts (aa_receipt a) < ab_max_http_attempts (aa_budget a)"
      and "is_new_logical_stage stage a \<longrightarrow>
             aa_logical_requests_started a < ab_max_logical_requests (aa_budget a)"
      and "bt_get (aa_issued_attempt_ids a) i = None"
      and "aa_issued_attempt_ids a' = bt_insert i (admitted_trace i stage t1) (aa_issued_attempt_ids a)"
      and "aa_receipt a' =
             (aa_receipt a)\<lparr>cr_admitted_attempts := sat_add32 (cr_admitted_attempts (aa_receipt a)) 1\<rparr>"
      and "aa_logical_requests_started a' =
             (if is_new_logical_stage stage a then wrapping_add32 (aa_logical_requests_started a) 1
              else aa_logical_requests_started a)"
      and "aa_budget a' = aa_budget a" and "aa_invocation_id a' = aa_invocation_id a"
      and "aa_owner a' = aa_owner a" and "aa_wide_completed a' = aa_wide_completed a"
proof (cases r)
  case (Err x)
  with assms have "a' = a"
    by (simp add: admit_def Let_def split: if_splits result.splits)
  with Err show thesis by (rule refused)
next
  case (Ok p)
  note granted_by = assms [unfolded Ok admit_def Let_def admit_new_work_def]
  show thesis
    by (rule granted [OF Ok refl])
      (insert granted_by, simp_all split: if_splits result.splits, auto)
qed

lemma attempt_state_Some:
  "attempt_state a i = Some st \<longleftrightarrow>
    (\<exists>tr. bt_get (aa_issued_attempt_ids a) i = Some tr \<and> tr_state tr = st)"
  by (auto simp: attempt_state_def)

text \<open>
  One settlement: attempt \<open>i\<close> with trace \<open>tr\<close> moves to \<open>f tr\<close>, nothing else of the
  identity or the budget changes.
\<close>

definition settles ::
  "AttemptId \<Rightarrow> AttemptTrace \<Rightarrow> (AttemptTrace \<Rightarrow> AttemptTrace) \<Rightarrow> AttemptAdmission \<Rightarrow> AttemptAdmission \<Rightarrow> bool" where
  "settles i tr f a a' \<longleftrightarrow>
     bt_get (aa_issued_attempt_ids a) i = Some tr
   \<and> aa_issued_attempt_ids a' = bt_modify i f (aa_issued_attempt_ids a)
   \<and> aa_invocation_id a' = aa_invocation_id a \<and> aa_owner a' = aa_owner a
   \<and> aa_budget a' = aa_budget a
   \<and> aa_logical_requests_started a' = aa_logical_requests_started a
   \<and> cr_admitted_attempts (aa_receipt a') = cr_admitted_attempts (aa_receipt a)"

lemma ids_inv_settles:
  assumes "ids_inv a" and "settles i tr f a a'" and "trace_ok (f tr)"
    and "ap_attempt_id (tr_provenance (f tr)) = ap_attempt_id (tr_provenance tr)"
    and "tr_active (f tr) \<longrightarrow> tr_active tr"
  shows "ids_inv a'"
proof -
  let ?m = "aa_issued_attempt_ids a"
  have sorted: "bt_sorted ?m" and get: "bt_get ?m i = Some tr"
    using assms(1,2) by (auto simp: ids_inv_def settles_def)
  have "bt.tally tr_active (bt_modify i f ?m) \<le> bt.tally tr_active ?m"
    using bt.tally_modify [OF sorted get, of tr_active f] assms(5) by (auto split: if_splits)
  moreover have "ap_attempt_id (tr_provenance v) = k \<and> trace_ok v"
    if "bt_get (bt_modify i f ?m) k = Some v" for k v
    using that assms(1,3,4) get by (auto simp: bt_get_modify ids_inv_def split: if_splits)
  ultimately show ?thesis
    using assms(1,2) by (simp add: ids_inv_def settles_def bt.ok_modify bt_keys_def)
qed

lemma budget_inv_settles: "budget_inv a \<Longrightarrow> settles i tr f a a' \<Longrightarrow> budget_inv a'"
  by (simp add: budget_inv_def settles_def)

lemma stage_inv_settles:
  assumes "ids_inv a" and "stage_inv a" and "settles i tr f a a'"
    and stage: "ap_stage (tr_provenance (f tr)) = ap_stage (tr_provenance tr)"
    and keep: "tr_outcome tr \<noteq> Out_Completed"
    and wide: "aa_wide_completed a' \<longleftrightarrow>
      aa_wide_completed a \<or> ap_stage (tr_provenance tr) = Wide \<and> tr_outcome (f tr) = Out_Completed"
  shows "stage_inv a'"
proof -
  let ?m = "aa_issued_attempt_ids a" and ?id = "aa_invocation_id a"
  have get: "bt_get ?m i = Some tr" using assms(3) by (simp add: settles_def)
  from issued_is_sequential [OF assms(1) get] obtain s where
    s: "i = new_sequential ?id s" "s \<le> cr_admitted_attempts (aa_receipt a)" by metis
  have get': "bt_get (aa_issued_attempt_ids a') (new_sequential (aa_invocation_id a') n) =
      (if n = s then Some (f tr) else bt_get ?m (new_sequential ?id n))" for n
    using assms(3) get s by (auto simp: settles_def bt_get_modify)
  have done_iff: "wide_done_before n a' \<longleftrightarrow> wide_done_before n a
      \<or> s < n \<and> ap_stage (tr_provenance tr) = Wide \<and> tr_outcome (f tr) = Out_Completed" for n
    using get s stage keep unfolding wide_done_before_def get'
    by (auto split: if_splits)
  have "aa_wide_completed a' \<longleftrightarrow> wide_done_before (Suc (cr_admitted_attempts (aa_receipt a'))) a'"
    unfolding done_iff using assms(2,3) wide s(2) by (auto simp: stage_inv_def settles_def)
  moreover have "wide_done_before n a'"
    if "bt_get (aa_issued_attempt_ids a') (new_sequential (aa_invocation_id a') n) = Some v"
      and "ap_stage (tr_provenance v) = Rerank" for n v
    using that assms(2) get s stage unfolding done_iff get'
    by (auto simp: stage_inv_def split: if_splits)
  ultimately show ?thesis by (simp add: stage_inv_def)
qed

lemma names_attempt_settles:
  assumes "settles i tr f a a'"
    and "ap_stage (tr_provenance (f tr)) = ap_stage (tr_provenance tr)"
    and "names_attempt a own k stage"
  shows "names_attempt a' own k stage"
  using assms by (auto simp: names_attempt_def settles_def bt_get_modify)

lemma cost_inv_settles:
  assumes "ids_inv a" and "cost_inv a" and "settles i tr f a a'" and "r' = aa_receipt a'"
    and "cr_sent_attempts r' + (if tr_was_sent tr then 1 else 0)
          = cr_sent_attempts (aa_receipt a) + (if tr_was_sent (f tr) then 1 else 0)"
    and "cr_completed_attempts r' + (if tr_outcome tr = Out_Completed then 1 else 0)
          = cr_completed_attempts (aa_receipt a) + (if tr_outcome (f tr) = Out_Completed then 1 else 0)"
    and "cr_unknown_usage_attempts r' + (if tr_outcome tr = Out_Failed then 1 else 0)
          = cr_unknown_usage_attempts (aa_receipt a) + (if tr_outcome (f tr) = Out_Failed then 1 else 0)"
    and "us_input_tokens (cr_known_usage r') + tr_input tr
          = us_input_tokens (cr_known_usage (aa_receipt a)) + tr_input (f tr)"
    and "us_output_tokens (cr_known_usage r') + tr_output tr
          = us_output_tokens (cr_known_usage (aa_receipt a)) + tr_output (f tr)"
    and "cr_has_unknown_usage r' \<longleftrightarrow> 0 < cr_unknown_usage_attempts r'"
    and "us_input_tokens (cr_known_usage r') + us_output_tokens (cr_known_usage r') \<le> U64_MAX"
  shows "cost_inv a'"
proof -
  let ?m = "aa_issued_attempt_ids a"
  have sorted: "bt_sorted ?m" and get: "bt_get ?m i = Some tr"
    and issued: "aa_issued_attempt_ids a' = bt_modify i f ?m"
    using assms(1,3) by (auto simp: ids_inv_def settles_def)
  note t = bt.tally_modify [OF sorted get, of _ f] and s = bt.total_modify [OF sorted get, of _ f]
  show ?thesis
    using assms(2,5-) t [of tr_was_sent] t [of "\<lambda>tr. tr_outcome tr = Out_Completed"]
      t [of "\<lambda>tr. tr_outcome tr = Out_Failed"] s [of tr_input] s [of tr_output]
    unfolding cost_inv_def Let_def issued assms(4) by linarith
qed

lemma trace_ok_admitted:
  "trace_ok tr \<Longrightarrow> tr_state tr = State_Admitted \<Longrightarrow>
     tr_outcome tr = Out_Admitted \<and> ap_sent_at (tr_provenance tr) = None
   \<and> ap_settled_at (tr_provenance tr) = None
   \<and> ap_usage (tr_provenance tr) = None \<and> ap_failure (tr_provenance tr) = None"
  by (simp add: trace_ok_def Let_def split: AttemptOutcome.splits)

lemma trace_ok_sent:
  "trace_ok tr \<Longrightarrow> tr_state tr = State_Sent \<Longrightarrow>
     tr_outcome tr = Out_Sent \<and> ap_sent_at (tr_provenance tr) \<noteq> None
   \<and> ap_settled_at (tr_provenance tr) = None
   \<and> ap_usage (tr_provenance tr) = None \<and> ap_failure (tr_provenance tr) = None"
  by (simp add: trace_ok_def Let_def split: AttemptOutcome.splits)

lemmas trace_defs = trace_ok_def settle_trace_def tr_active_def tr_was_sent_def tr_input_def tr_output_def

lemma adm_inv_trace_ok:
  "adm_inv a \<Longrightarrow> bt_get (aa_issued_attempt_ids a) i = Some tr \<Longrightarrow> trace_ok tr"
  by (simp add: adm_inv_def ids_inv_def)

lemma adm_inv_counts:
  assumes "adm_inv a"
  shows "cr_sent_attempts (aa_receipt a) \<le> U32_MAX"
    and "cr_completed_attempts (aa_receipt a) \<le> cr_admitted_attempts (aa_receipt a)"
    and "cr_unknown_usage_attempts (aa_receipt a) \<le> cr_admitted_attempts (aa_receipt a)"
    and "cr_admitted_attempts (aa_receipt a) \<le> U32_MAX"
  using assms tally_le_admitted [of a]
  by (auto simp: adm_inv_def cost_inv_def budget_inv_def Let_def intro: order_trans)

text \<open>
  While an attempt of the map satisfies \<open>P\<close> and another does not, fewer attempts than were
  admitted satisfy it, so the saturating counters never reach their limit.
\<close>

lemma tally_room:
  assumes "ids_inv a" and "bt_get (aa_issued_attempt_ids a) i = Some tr" and "\<not> P tr"
  shows "bt.tally P (aa_issued_attempt_ids a) < cr_admitted_attempts (aa_receipt a)"
proof -
  let ?m = "aa_issued_attempt_ids a"
  have "0 < bt.tally (\<lambda>v. \<not> P v) ?m"
    using assms bt.tally_one [of ?m i tr "\<lambda>v. \<not> P v"] by (simp add: ids_inv_def)
  moreover have "bt.tally (\<lambda>_. True) ?m = bt.tally P ?m + bt.tally (\<lambda>v. \<not> P v) ?m"
    using bt.tally_split [of "\<lambda>_. True" ?m P] by simp
  moreover have "bt.tally (\<lambda>_. True) ?m = cr_admitted_attempts (aa_receipt a)"
    using issued_count [OF assms(1)] by (simp add: bt.tally_all bt_values_def)
  ultimately show ?thesis by simp
qed

lemma count_exact:
  assumes "adm_inv a" and "bt_get (aa_issued_attempt_ids a) i = Some tr"
  shows "\<not> tr_was_sent tr \<Longrightarrow>
      sat_add32 (cr_sent_attempts (aa_receipt a)) 1 = cr_sent_attempts (aa_receipt a) + 1"
    and "tr_outcome tr \<noteq> Out_Completed \<Longrightarrow>
      sat_add32 (cr_completed_attempts (aa_receipt a)) 1 = cr_completed_attempts (aa_receipt a) + 1"
    and "tr_outcome tr \<noteq> Out_Failed \<Longrightarrow>
      sat_add32 (cr_unknown_usage_attempts (aa_receipt a)) 1
        = cr_unknown_usage_attempts (aa_receipt a) + 1"
proof -
  have ids: "ids_inv a" and cost: "cost_inv a" using assms(1) by (simp_all add: adm_inv_def)
  note room = tally_room [OF ids assms(2)] adm_inv_counts(4) [OF assms(1)]
  show "\<not> tr_was_sent tr \<Longrightarrow>
      sat_add32 (cr_sent_attempts (aa_receipt a)) 1 = cr_sent_attempts (aa_receipt a) + 1"
    using room(1) [of tr_was_sent] room(2) cost
    by (intro sat_add32_exact) (simp add: cost_inv_def Let_def)
  show "tr_outcome tr \<noteq> Out_Completed \<Longrightarrow>
      sat_add32 (cr_completed_attempts (aa_receipt a)) 1 = cr_completed_attempts (aa_receipt a) + 1"
    using room(1) [of "\<lambda>tr. tr_outcome tr = Out_Completed"] room(2) cost
    by (intro sat_add32_exact) (simp add: cost_inv_def Let_def)
  show "tr_outcome tr \<noteq> Out_Failed \<Longrightarrow>
      sat_add32 (cr_unknown_usage_attempts (aa_receipt a)) 1
        = cr_unknown_usage_attempts (aa_receipt a) + 1"
    using room(1) [of "\<lambda>tr. tr_outcome tr = Out_Failed"] room(2) cost
    by (intro sat_add32_exact) (simp add: cost_inv_def Let_def)
qed

lemma admit_inv:
  assumes "adm_inv a" and "admit stage e t1 t2 a = (r, a')"
  shows "adm_inv a'"
  using assms(2)
proof (cases rule: admit_cases)
  case refused
  with assms(1) show ?thesis by simp
next
  case (granted p i)
  let ?m = "aa_issued_attempt_ids a" and ?n = "cr_admitted_attempts (aa_receipt a)"
  let ?tr = "admitted_trace i stage t1"
  from assms(1) have ids: "ids_inv a" and bud: "budget_inv a" and cost: "cost_inv a" and st: "stage_inv a"
    by (simp_all add: adm_inv_def)
  have sorted: "bt_sorted ?m" using ids by (simp add: ids_inv_def)
  have n: "sat_add32 ?n 1 = Suc ?n"
    using granted bud sat_add32_exact [of ?n 1] by (simp add: budget_inv_def)
  have i: "i = new_sequential (aa_invocation_id a) (Suc ?n)" using granted n by simp
  have tr: "trace_ok ?tr" "ap_attempt_id (tr_provenance ?tr) = i" "tr_active ?tr"
    "\<not> tr_was_sent ?tr" "tr_outcome ?tr = Out_Admitted" "tr_input ?tr = 0" "tr_output ?tr = 0"
    "ap_stage (tr_provenance ?tr) = stage"
    by (simp_all add: admitted_trace_def trace_defs)
  have get': "bt_get (aa_issued_attempt_ids a') k = (if i = k then Some ?tr else bt_get ?m k)" for k
    using granted by (simp add: bt_get_insert)
  note tally' = bt.tally_insert [OF sorted granted(11), of _ ?tr]
    and total' = bt.total_insert [OF sorted granted(11), of _ ?tr]
  have "ids_inv a'"
  proof -
    have "bt.tally tr_active ?m = 0" using granted(7) no_active_iff [OF ids] by simp
    then have "bt.tally tr_active (aa_issued_attempt_ids a') \<le> 1"
      using tally' [of tr_active] granted by simp
    moreover have "set (bt_keys (aa_issued_attempt_ids a')) =
        new_sequential (aa_invocation_id a') ` {1..cr_admitted_attempts (aa_receipt a')}"
      using ids granted n bt_insert_keys [of i ?tr ?m]
      by (auto simp: ids_inv_def bt_keys_def atLeastAtMostSuc_conv)
    moreover have "bt_sorted (aa_issued_attempt_ids a')"
      unfolding granted(12) by (rule bt.ok_insert [OF sorted])
    moreover have "ap_attempt_id (tr_provenance v) = k \<and> trace_ok v"
      if "bt_get (aa_issued_attempt_ids a') k = Some v" for k v
      using that ids tr(1,2) by (auto simp: get' ids_inv_def split: if_splits)
    ultimately show ?thesis by (simp add: ids_inv_def)
  qed
  moreover have "budget_inv a'"
    using bud granted n by (auto simp: budget_inv_def wrapping_add32_exact)
  moreover have "cost_inv a'"
    using cost tr tally' total' by (simp add: cost_inv_def Let_def granted(12,13))
  moreover have "stage_inv a'"
  proof -
    have fresh: "bt_get ?m i = None" by (rule granted(11))
    have get_seq: "bt_get (aa_issued_attempt_ids a') (new_sequential (aa_invocation_id a') k) =
        (if k = Suc ?n then Some ?tr else bt_get ?m (new_sequential (aa_invocation_id a) k))" for k
      unfolding get' granted(16) i by simp
    have done_iff: "wide_done_before k a' \<longleftrightarrow> wide_done_before k a" for k
      unfolding wide_done_before_def get_seq
      by (intro ex_cong1) (use tr(5) fresh [unfolded i] in auto)
    have grow: "wide_done_before k a \<Longrightarrow> k \<le> l \<Longrightarrow> wide_done_before l a" for k l
      by (auto simp: wide_done_before_def intro: less_le_trans)
    have last: "\<not> wide_done_before (Suc (Suc ?n)) a \<or> wide_done_before (Suc ?n) a"
      using fresh i by (auto simp: wide_done_before_def less_Suc_eq)
    have "aa_wide_completed a' \<longleftrightarrow> wide_done_before (Suc (cr_admitted_attempts (aa_receipt a'))) a'"
      using st n last grow [of "Suc ?n" "Suc (Suc ?n)"]
      by (auto simp: stage_inv_def done_iff granted(13,18))
    moreover have "wide_done_before k a'"
      if "bt_get (aa_issued_attempt_ids a') (new_sequential (aa_invocation_id a') k) = Some v"
        and "ap_stage (tr_provenance v) = Rerank" for k v
      using that st granted(8) tr(8) unfolding done_iff get_seq
      by (auto simp: stage_inv_def split: if_splits)
    ultimately show ?thesis by (simp add: stage_inv_def)
  qed
  ultimately show ?thesis by (simp add: adm_inv_def)
qed

text \<open>
  The four settlements. Each either refuses and changes nothing, or settles one attempt that was
  in the state the operation requires.
\<close>

lemma record_sent_cases:
  assumes "record_sent sent now a = (r, a')"
  obtains (refused) "r = Err AttemptNotActive" and "a' = a"
  | (settled) tr f where "r = Ok ()" and "aa_owner a = sa_owner sent"
      and "f = settle_trace State_Sent (\<lambda>p. p\<lparr>ap_sent_at := Some now, ap_outcome := Out_Sent\<rparr>)"
      and "settles (sa_attempt_id sent) tr f a a'" and "tr_state tr = State_Admitted"
      and "aa_receipt a' =
             (aa_receipt a)\<lparr>cr_sent_attempts := sat_add32 (cr_sent_attempts (aa_receipt a)) 1\<rparr>"
      and "aa_wide_completed a' = aa_wide_completed a"
  using assms
  by (cases "attempt_state a (sa_attempt_id sent) = Some State_Admitted")
    (auto simp: record_sent_def Let_def admission_settle_def settles_def attempt_state_Some
      split: if_splits)

lemma record_terminal_failure_cases:
  assumes "record_terminal_failure sent failure now a = (r, a')"
  obtains (refused) "r = Err AttemptNotActive" and "a' = a"
  | (settled) tr f where "r = Ok ()" and "aa_owner a = sa_owner sent"
      and "f = settle_trace State_Finished
             (\<lambda>p. p\<lparr>ap_settled_at := Some now, ap_outcome := Out_Failed, ap_failure := Some failure\<rparr>)"
      and "settles (sa_attempt_id sent) tr f a a'" and "tr_state tr = State_Sent"
      and "aa_receipt a' = record_terminal_error (aa_receipt a)"
      and "aa_wide_completed a' = aa_wide_completed a"
  using assms
  by (cases "attempt_state a (sa_attempt_id sent) = Some State_Sent")
    (auto simp: record_terminal_failure_def record_terminal_error_def admission_settle_def
      settles_def attempt_state_Some split: if_splits)

lemma record_discard_cases:
  assumes "record_discard d now a = (r, a')"
  obtains (refused) "r = Err AttemptNotActive" and "a' = a"
  | (settled) tr f where "r = Ok ()" and "aa_owner a = da_owner d"
      and "f = settle_trace State_Finished
             (\<lambda>p. p\<lparr>ap_settled_at := Some now, ap_outcome := Out_Discarded,
                    ap_failure := Some (Fail_Local ''discarded-before-send'')\<rparr>)"
      and "settles (da_attempt_id d) tr f a a'" and "tr_state tr = State_Admitted"
      and "aa_receipt a' = aa_receipt a" and "aa_wide_completed a' = aa_wide_completed a"
  using assms
  by (cases "attempt_state a (da_attempt_id d) = Some State_Admitted")
    (auto simp: record_discard_def admission_settle_def settles_def attempt_state_Some
      split: if_splits)

lemma usage_fits_iff:
  "usage_fits k u \<longleftrightarrow>
     us_input_tokens k + us_input_tokens u + (us_output_tokens k + us_output_tokens u) \<le> U64_MAX"
  by (auto simp: usage_fits_def checked_add64_def)

lemma record_response_cases:
  assumes "record_response sent usage now a = (r, a')"
  obtains (refused) "r = Err AttemptNotActive" and "a' = a"
  | (overflow) "r = Err UsageOverflow"
      and "\<not> usage_fits (cr_known_usage (aa_receipt a)) usage"
      and "record_terminal_failure sent (Fail_Local ''usage-counter-overflow'') now a = (Ok (), a')"
  | (settled) tr f where "r = Ok ()" and "aa_owner a = sa_owner sent"
      and "f = settle_trace State_Finished
             (\<lambda>p. p\<lparr>ap_settled_at := Some now, ap_outcome := Out_Completed, ap_usage := Some usage\<rparr>)"
      and "settles (sa_attempt_id sent) tr f a a'" and "tr_state tr = State_Sent"
      and "usage_fits (cr_known_usage (aa_receipt a)) usage"
      and "aa_receipt a' = record_success usage (aa_receipt a)"
      and "aa_wide_completed a' \<longleftrightarrow> aa_wide_completed a \<or> sa_stage sent = Wide"
proof (cases "aa_owner a \<noteq> sa_owner sent \<or> attempt_state a (sa_attempt_id sent) \<noteq> Some State_Sent")
  case True
  with assms refused show thesis by (simp add: record_response_def)
next
  case active: False
  show thesis
  proof (cases "usage_fits (cr_known_usage (aa_receipt a)) usage")
    case True
    from active obtain tr where "bt_get (aa_issued_attempt_ids a) (sa_attempt_id sent) = Some tr"
      and "tr_state tr = State_Sent" by (auto simp: attempt_state_Some)
    with active True assms show thesis
      by (intro settled [OF _ _ refl, of tr])
        (auto simp: record_response_def Let_def admission_settle_def settles_def record_success_def)
  next
    case False
    with active assms show thesis
      by (intro overflow) (auto simp: record_response_def record_terminal_failure_def)
  qed
qed

lemma adm_inv_settles:
  assumes "adm_inv a" and "settles i tr f a a'" and "cost_inv a'" and "trace_ok (f tr)"
    and "ap_attempt_id (tr_provenance (f tr)) = ap_attempt_id (tr_provenance tr)"
    and "tr_active (f tr) \<longrightarrow> tr_active tr"
    and "ap_stage (tr_provenance (f tr)) = ap_stage (tr_provenance tr)"
    and "tr_outcome tr \<noteq> Out_Completed"
    and "aa_wide_completed a' \<longleftrightarrow>
      aa_wide_completed a \<or> ap_stage (tr_provenance tr) = Wide \<and> tr_outcome (f tr) = Out_Completed"
  shows "adm_inv a'"
proof -
  have ids: "ids_inv a" and bud: "budget_inv a" and st: "stage_inv a"
    using assms(1) by (simp_all add: adm_inv_def)
  show ?thesis
    using ids_inv_settles [OF ids assms(2,4,5,6)] stage_inv_settles [OF ids st assms(2,7,8,9)]
      budget_inv_settles [OF bud assms(2)] assms(3)
    by (simp add: adm_inv_def)
qed

lemma record_sent_inv:
  assumes "adm_inv a" and "record_sent sent now a = (r, a')"
  shows "adm_inv a'"
  using assms(2)
proof (cases rule: record_sent_cases)
  case (settled tr f)
  then have get: "bt_get (aa_issued_attempt_ids a) (sa_attempt_id sent) = Some tr"
    by (simp add: settles_def)
  note tr = trace_ok_admitted [OF adm_inv_trace_ok [OF assms(1) get] settled(5)]
  from assms(1) have ids: "ids_inv a" and cost: "cost_inv a" by (simp_all add: adm_inv_def)
  have "cost_inv a'"
    by (rule cost_inv_settles [OF ids cost settled(4) refl])
      (use tr cost count_exact(1) [OF assms(1) get] settled(3) in
        \<open>simp_all add: settled(6) trace_defs cost_inv_def Let_def\<close>)
  then show ?thesis
    by (rule adm_inv_settles [OF assms(1) settled(4)])
      (use tr settled(3,5,7) in \<open>simp_all add: trace_defs\<close>)
qed (use assms(1) in simp)

lemma record_terminal_failure_inv:
  assumes "adm_inv a" and "record_terminal_failure sent failure now a = (r, a')"
  shows "adm_inv a'"
  using assms(2)
proof (cases rule: record_terminal_failure_cases)
  case (settled tr f)
  then have get: "bt_get (aa_issued_attempt_ids a) (sa_attempt_id sent) = Some tr"
    by (simp add: settles_def)
  note tr = trace_ok_sent [OF adm_inv_trace_ok [OF assms(1) get] settled(5)]
  from assms(1) have ids: "ids_inv a" and cost: "cost_inv a" by (simp_all add: adm_inv_def)
  have "cost_inv a'"
    by (rule cost_inv_settles [OF ids cost settled(4) refl])
      (use tr cost count_exact(3) [OF assms(1) get] settled(3) in
        \<open>simp_all add: settled(6) record_terminal_error_def trace_defs cost_inv_def Let_def\<close>)
  then show ?thesis
    by (rule adm_inv_settles [OF assms(1) settled(4)])
      (use tr settled(3,5,7) in \<open>simp_all add: trace_defs\<close>)
qed (use assms(1) in simp)

lemma record_discard_inv:
  assumes "adm_inv a" and "record_discard d now a = (r, a')"
  shows "adm_inv a'"
  using assms(2)
proof (cases rule: record_discard_cases)
  case (settled tr f)
  then have get: "bt_get (aa_issued_attempt_ids a) (da_attempt_id d) = Some tr"
    by (simp add: settles_def)
  note tr = trace_ok_admitted [OF adm_inv_trace_ok [OF assms(1) get] settled(5)]
  from assms(1) have ids: "ids_inv a" and cost: "cost_inv a" by (simp_all add: adm_inv_def)
  have "cost_inv a'"
    by (rule cost_inv_settles [OF ids cost settled(4) refl])
      (use tr cost settled(3) in \<open>simp_all add: settled(6) trace_defs cost_inv_def Let_def\<close>)
  then show ?thesis
    by (rule adm_inv_settles [OF assms(1) settled(4)])
      (use tr settled(3,5,7) in \<open>simp_all add: trace_defs\<close>)
qed (use assms(1) in simp)

lemma record_response_inv:
  assumes "adm_inv a" and "names_attempt a (sa_owner sent) (sa_attempt_id sent) (sa_stage sent)"
    and "record_response sent usage now a = (r, a')"
  shows "adm_inv a'"
  using assms(3)
proof (cases rule: record_response_cases)
  case overflow
  then show ?thesis by (intro record_terminal_failure_inv [OF assms(1)])
next
  case (settled tr f)
  then have get: "bt_get (aa_issued_attempt_ids a) (sa_attempt_id sent) = Some tr"
    by (simp add: settles_def)
  note tr = trace_ok_sent [OF adm_inv_trace_ok [OF assms(1) get] settled(5)]
  from assms(1) have ids: "ids_inv a" and cost: "cost_inv a" by (simp_all add: adm_inv_def)
  have stage: "ap_stage (tr_provenance tr) = sa_stage sent"
    using assms(2) settled(2) get by (simp add: names_attempt_def)
  have "cost_inv a'"
    by (rule cost_inv_settles [OF ids cost settled(4) refl])
      (use tr cost count_exact(2) [OF assms(1) get] settled(3) settled(6) [unfolded usage_fits_iff] in
        \<open>simp_all add: settled(7) record_success_def sat_add64_exact trace_defs cost_inv_def Let_def\<close>)
  then show ?thesis
    by (rule adm_inv_settles [OF assms(1) settled(4)])
      (use tr stage settled(3,5,8) in \<open>simp_all add: trace_defs\<close>)
qed (use assms(1) in simp)

section \<open>Runs of the coordinator\<close>

text \<open>
  What no operation takes away: an attempt once issued stays issued under its stage, and once
  finished its trace is final.
\<close>

definition extends :: "AttemptAdmission \<Rightarrow> AttemptAdmission \<Rightarrow> bool" where
  "extends a a' \<longleftrightarrow>
     aa_owner a' = aa_owner a \<and> aa_invocation_id a' = aa_invocation_id a \<and> aa_budget a' = aa_budget a
   \<and> (\<forall>i tr. bt_get (aa_issued_attempt_ids a) i = Some tr \<longrightarrow>
        (\<exists>tr'. bt_get (aa_issued_attempt_ids a') i = Some tr'
           \<and> ap_stage (tr_provenance tr') = ap_stage (tr_provenance tr)
           \<and> (tr_state tr = State_Finished \<longrightarrow> tr' = tr)))"

lemma extends_refl [simp]: "extends a a"
  by (simp add: extends_def)

lemma extends_trans: "extends a b \<Longrightarrow> extends b c \<Longrightarrow> extends a c"
  unfolding extends_def by metis

lemma extends_names: "extends a a' \<Longrightarrow> names_attempt a own i stage \<Longrightarrow> names_attempt a' own i stage"
  unfolding extends_def names_attempt_def by metis

lemma settles_extends:
  assumes "settles i tr f a a'" and "tr_state tr \<noteq> State_Finished"
    and "ap_stage (tr_provenance (f tr)) = ap_stage (tr_provenance tr)"
  shows "extends a a'"
  using assms by (auto simp: extends_def settles_def bt_get_modify)

lemma admit_extends: "admit stage e t1 t2 a = (r, a') \<Longrightarrow> extends a a'"
  by (erule admit_cases) (auto simp: extends_def bt_get_insert)

lemma record_sent_extends: "record_sent sent now a = (r, a') \<Longrightarrow> extends a a'"
  by (erule record_sent_cases) (auto dest!: settles_extends simp: settle_trace_def)

lemma record_terminal_failure_extends:
  "record_terminal_failure sent failure now a = (r, a') \<Longrightarrow> extends a a'"
  by (erule record_terminal_failure_cases) (auto dest!: settles_extends simp: settle_trace_def)

lemma record_discard_extends: "record_discard d now a = (r, a') \<Longrightarrow> extends a a'"
  by (erule record_discard_cases) (auto dest!: settles_extends simp: settle_trace_def)

lemma record_response_extends: "record_response sent u now a = (r, a') \<Longrightarrow> extends a a'"
  by (erule record_response_cases)
    (auto intro: record_terminal_failure_extends dest!: settles_extends simp: settle_trace_def)

lemmas op_extends =
  record_sent_extends [OF prod.collapse [symmetric]]
  record_terminal_failure_extends [OF prod.collapse [symmetric]]
  record_discard_extends [OF prod.collapse [symmetric]]
  record_response_extends [OF prod.collapse [symmetric]]

lemmas op_inv =
  record_sent_inv [OF _ prod.collapse [symmetric]]
  record_terminal_failure_inv [OF _ prod.collapse [symmetric]]
  record_discard_inv [OF _ prod.collapse [symmetric]]
  record_response_inv [OF _ _ prod.collapse [symmetric]]

lemma plain_updates:
  "extends a (record_cache_hit a)" "extends a (set_guard_generation g a)"
  "adm_inv a \<Longrightarrow> adm_inv (record_cache_hit a)" "adm_inv a \<Longrightarrow> adm_inv (set_guard_generation g a)"
  by (simp_all add: record_cache_hit_def set_guard_generation_def extends_def adm_inv_def ids_inv_def
      budget_inv_def cost_inv_def stage_inv_def wide_done_before_def Let_def)

lemma step_extends: "extends (w_adm w) (w_adm (adm_step x w))"
proof (cases x)
  case (OpAdmit stage e t1 t2)
  obtain r a' where "admit stage e t1 t2 (w_adm w) = (r, a')"
    by (cases "admit stage e t1 t2 (w_adm w)")
  with admit_extends [OF this] OpAdmit show ?thesis by (cases r) simp_all
qed (simp_all add: op_extends plain_updates split: result.splits)

lemma set_drop_nth: "set (drop_nth i xs) \<subseteq> set xs"
  using set_take_subset [of i xs] set_drop_subset [of "Suc i" xs] by (auto simp: drop_nth_def)

lemma tokens_inv_keep:
  "tokens_inv w \<Longrightarrow> extends (w_adm w) (w_adm w') \<Longrightarrow> set (w_permits w') \<subseteq> set (w_permits w) \<Longrightarrow>
     set (w_sent w') \<subseteq> set (w_sent w) \<Longrightarrow> set (w_discarded w') \<subseteq> set (w_discarded w) \<Longrightarrow> tokens_inv w'"
  unfolding tokens_inv_def by (blast intro: extends_names)

lemma step_tokens_inv:
  assumes "tokens_inv w"
  shows "tokens_inv (adm_step x w)"
proof (cases x)
  case (OpAdmit stage e t1 t2)
  obtain r a' where adm: "admit stage e t1 t2 (w_adm w) = (r, a')"
    by (cases "admit stage e t1 t2 (w_adm w)")
  then have keep: "tokens_inv (w\<lparr>w_adm := a'\<rparr>)"
    by (intro tokens_inv_keep [OF assms]) (simp_all add: admit_extends)
  from adm show ?thesis
  proof (cases rule: admit_cases)
    case refused
    with keep adm OpAdmit show ?thesis by simp
  next
    case (granted p i)
    have "names_attempt a' (pm_owner p) (pm_attempt_id p) (pm_stage p)"
      by (simp add: names_attempt_def granted(4,5,12) bt_get_insert admitted_trace_def)
    with keep adm OpAdmit granted(1) show ?thesis by (auto simp: tokens_inv_def)
  qed
next
  case (OpMarkSent i)
  show ?thesis
  proof (cases "i < length (w_permits w)")
    case True
    then have "w_permits w ! i \<in> set (w_permits w)" by simp
    with assms True OpMarkSent show ?thesis
      using set_drop_nth [of i "w_permits w"]
      by (auto simp: tokens_inv_def mark_sent_def split: result.splits)
  qed (use assms OpMarkSent in simp)
next
  case (OpDiscard i reason)
  show ?thesis
  proof (cases "i < length (w_permits w)")
    case True
    then have "w_permits w ! i \<in> set (w_permits w)" by simp
    with assms True OpDiscard show ?thesis
      using set_drop_nth [of i "w_permits w"]
      by (auto simp: tokens_inv_def discard_before_send_def)
  qed (use assms OpDiscard in simp)
next
  case (OpDropPermit i)
  then show ?thesis
    using set_drop_nth [of i "w_permits w"] by (intro tokens_inv_keep [OF assms]) simp_all
qed (use step_extends [of w x] in \<open>auto intro: tokens_inv_keep [OF assms]\<close>)

lemma step_world_inv:
  assumes "world_inv w"
  shows "world_inv (adm_step x w)"
proof -
  have inv: "adm_inv (w_adm w)" and tok: "tokens_inv w" using assms by (simp_all add: world_inv_def)
  have names: "names_attempt (w_adm w) (sa_owner (w_sent w ! i)) (sa_attempt_id (w_sent w ! i))
      (sa_stage (w_sent w ! i))" if "i < length (w_sent w)" for i
    using that tok by (simp add: tokens_inv_def)
  have "adm_inv (w_adm (adm_step x w))"
  proof (cases x)
    case (OpAdmit stage e t1 t2)
    obtain r a' where "admit stage e t1 t2 (w_adm w) = (r, a')"
      by (cases "admit stage e t1 t2 (w_adm w)")
    with admit_inv [OF inv this] OpAdmit show ?thesis by (cases r) simp_all
  qed (simp_all add: inv names op_inv plain_updates split: result.splits)
  with step_tokens_inv [OF tok] show ?thesis by (simp add: world_inv_def)
qed

interpretation coordinator: machine_invariant adm_step "\<lambda>_. True" world_inv
  by unfold_locales (rule step_world_inv)

interpretation coordinator_from: machine_invariant adm_step "\<lambda>_. True" "\<lambda>w. extends a0 (w_adm w)"
  by unfold_locales (blast intro: extends_trans step_extends)

lemma admission_new_Ok:
  "admission_new budget clock inv_id own = Ok a \<Longrightarrow>
     a = \<lparr>aa_budget = budget, aa_clock = clock, aa_invocation_id = inv_id,
      aa_guard_generation = DEFAULT_GUARD_GENERATION, aa_receipt = cost_receipt_new,
      aa_logical_requests_started = 0, aa_current_stage = None, aa_wide_completed = False,
      aa_issued_attempt_ids = [], aa_owner = own, aa_current_stage_completed = False\<rparr>"
  by (simp add: admission_new_def split: if_splits)

lemma start_inv:
  assumes "adm_start budget clock inv_id w" and "ab_max_http_attempts budget \<le> U32_MAX"
    and "ab_max_logical_requests budget \<le> U32_MAX"
  shows "world_inv w"
proof -
  from assms(1) obtain own where "admission_new budget clock inv_id own = Ok (w_adm w)"
    by (auto simp: adm_start_def)
  note new = admission_new_Ok [OF this]
  have "adm_inv (w_adm w)"
    using assms(2,3) unfolding new
    by (simp add: adm_inv_def ids_inv_def budget_inv_def cost_inv_def stage_inv_def
        wide_done_before_def cost_receipt_new_def zero_usage_def bt.tally_def bt.total_of_def)
  moreover have "tokens_inv w"
    using assms(1) by (auto simp: adm_start_def tokens_inv_def names_attempt_def list_all_iff)
  ultimately show ?thesis by (simp add: world_inv_def)
qed

lemma run_world_inv:
  assumes "adm_start budget clock inv_id w" and "ab_max_http_attempts budget \<le> U32_MAX"
    and "ab_max_logical_requests budget \<le> U32_MAX"
  shows "world_inv (run adm_step xs w)"
  by (rule coordinator.run_inv [OF start_inv [OF assms]]) (simp add: list_all_iff)

lemma run_extends: "extends (w_adm w) (w_adm (run adm_step xs w))"
  using coordinator_from.run_inv [of "w_adm w" w xs] by (simp add: list_all_iff)

lemma run_invocation:
  assumes "adm_start budget clock inv_id w"
  shows "aa_invocation_id (w_adm (run adm_step xs w)) = inv_id
    \<and> aa_budget (w_adm (run adm_step xs w)) = budget"
proof -
  have "aa_invocation_id (w_adm w) = inv_id \<and> aa_budget (w_adm w) = budget"
    using assms by (auto simp: adm_start_def admission_new_def split: if_splits
        dest: arg_cong [of _ _ aa_invocation_id] arg_cong [of _ _ aa_budget])
  with run_extends [of w xs] show ?thesis by (simp add: extends_def)
qed

section \<open>Reading the invariant off the list of attempts\<close>

lemma attempts_values: "bt_values (aa_issued_attempt_ids a) = map snd (aa_issued_attempt_ids a)"
  by (simp add: bt_values_def)

lemma attempts_tally:
  "bt.tally (\<lambda>tr. P (tr_provenance tr)) (aa_issued_attempt_ids a) = length (filter P (admission_attempts a))"
  by (simp add: bt.tally_def admission_attempts_def filter_map comp_def)

lemma attempts_ids:
  assumes "ids_inv a"
  shows "map ap_attempt_id (admission_attempts a) = bt_keys (aa_issued_attempt_ids a)"
proof -
  have sorted: "bt_sorted (aa_issued_attempt_ids a)" using assms by (simp add: ids_inv_def)
  then have "distinct (map fst (aa_issued_attempt_ids a))"
    using bt_keys_sorted by (auto simp: bt_keys_def)
  then have "ap_attempt_id (tr_provenance v) = k" if "(k, v) \<in> set (aa_issued_attempt_ids a)" for k v
    using assms that by (auto simp: ids_inv_def bt_get_def)
  then show ?thesis by (force simp: admission_attempts_def bt_values_def bt_keys_def)
qed

lemma trace_ok_active:
  "trace_ok tr \<Longrightarrow> tr_active tr \<longleftrightarrow> tr_outcome tr \<in> {Out_Admitted, Out_Sent}"
  by (auto simp: trace_ok_def tr_active_def Let_def split: AttemptOutcome.splits)

lemma values_trace_ok:
  "ids_inv a \<Longrightarrow> tr \<in> set (bt_values (aa_issued_attempt_ids a)) \<Longrightarrow> trace_ok tr"
  using bt.vals_get [of "aa_issued_attempt_ids a" tr] by (auto simp: ids_inv_def)

lemma attempts_active:
  assumes "ids_inv a"
  shows "length (filter (\<lambda>p. ap_outcome p \<in> {Out_Admitted, Out_Sent}) (admission_attempts a))
    = bt.tally tr_active (aa_issued_attempt_ids a)"
  unfolding attempts_tally [symmetric]
  by (rule bt.tally_cong) (simp add: trace_ok_active values_trace_ok [OF assms])

lemma outcome_partition:
  "length xs =
     length (filter (\<lambda>p. ap_outcome p = Out_Discarded) xs)
   + length (filter (\<lambda>p. ap_outcome p = Out_Completed) xs)
   + length (filter (\<lambda>p. ap_outcome p = Out_Failed) xs)
   + length (filter (\<lambda>p. ap_outcome p \<in> {Out_Admitted, Out_Sent}) xs)"
proof (induction xs)
  case (Cons p xs)
  then show ?case by (cases "ap_outcome p") simp_all
qed simp

definition usage_input :: "AttemptProvenance \<Rightarrow> nat" where
  "usage_input p = (case ap_usage p of None \<Rightarrow> 0 | Some u \<Rightarrow> us_input_tokens u)"

definition usage_output :: "AttemptProvenance \<Rightarrow> nat" where
  "usage_output p = (case ap_usage p of None \<Rightarrow> 0 | Some u \<Rightarrow> us_output_tokens u)"

lemma attempts_usage:
  "sum_list (map usage_input (admission_attempts a)) = bt.total_of tr_input (aa_issued_attempt_ids a)"
  "sum_list (map usage_output (admission_attempts a)) = bt.total_of tr_output (aa_issued_attempt_ids a)"
  by (simp_all add: bt.total_of_def admission_attempts_def comp_def usage_input_def usage_output_def
      tr_input_def [abs_def] tr_output_def [abs_def])

section \<open>Properties\<close>

text \<open>
  C3. The attempt budget holds whatever the client does. After any sequence of admissions, sends,
  responses, failures, discards, dropped permits, replayed and foreign tokens, the coordinator has
  admitted at most \<open>max_http_attempts\<close> attempts under at most \<open>max_logical_requests\<close> logical
  requests, its attempts are exactly the identifiers numbered from one, without repetition, and at
  most one of them is admitted or sent and not yet settled.
\<close>

theorem attempt_budget_enforced:
  assumes "adm_start budget clock inv_id w" and "ab_max_http_attempts budget \<le> U32_MAX"
    and "ab_max_logical_requests budget \<le> U32_MAX"
  shows "let a = w_adm (run adm_step xs w); attempts = admission_attempts a in
      length attempts = cr_admitted_attempts (aa_receipt a)
    \<and> length attempts \<le> ab_max_http_attempts budget
    \<and> aa_logical_requests_started a \<le> ab_max_logical_requests budget
    \<and> distinct (map ap_attempt_id attempts)
    \<and> ap_attempt_id ` set attempts = new_sequential inv_id ` {1..length attempts}
    \<and> length (filter (\<lambda>p. ap_outcome p \<in> {Out_Admitted, Out_Sent}) attempts) \<le> 1"
proof -
  define a where "a = w_adm (run adm_step xs w)"
  have inv: "ids_inv a" "budget_inv a"
    using run_world_inv [OF assms, of xs] by (simp_all add: world_inv_def adm_inv_def a_def)
  have same: "aa_invocation_id a = inv_id" "aa_budget a = budget"
    using run_invocation [OF assms(1), of xs] by (simp_all add: a_def)
  have len: "length (admission_attempts a) = cr_admitted_attempts (aa_receipt a)"
    using issued_count [OF inv(1)] by (simp add: admission_attempts_def bt_values_def)
  have keys: "set (bt_keys (aa_issued_attempt_ids a)) = new_sequential inv_id ` {1..length (admission_attempts a)}"
    using inv(1) len same by (simp add: ids_inv_def)
  have "bt_sorted (aa_issued_attempt_ids a)" and "bt.tally tr_active (aa_issued_attempt_ids a) \<le> 1"
    using inv(1) by (simp_all add: ids_inv_def)
  then show ?thesis
    using len keys inv(2) same attempts_ids [OF inv(1)] attempts_active [OF inv(1)]
    unfolding Let_def a_def [symmetric]
    by (simp add: budget_inv_def bt_keys_sorted flip: set_map)
qed

text \<open>
  C5. The cost receipt is exact. Every admitted attempt is discarded, completed, failed or still
  active; the counters count the attempts that reached the wire, completed, and failed with unknown
  cost; the known tokens are exactly the sum of what the completed attempts returned, with no
  saturation, so the reported total is their true sum; and usage that could not be added exactly is
  never counted as zero but marked unknown.
\<close>

theorem cost_receipt_exact:
  assumes "adm_start budget clock inv_id w" and "ab_max_http_attempts budget \<le> U32_MAX"
    and "ab_max_logical_requests budget \<le> U32_MAX"
  shows "let a = w_adm (run adm_step xs w); r = aa_receipt a; attempts = admission_attempts a;
             having = (\<lambda>out. length (filter (\<lambda>p. ap_outcome p = out) attempts)) in
      cr_admitted_attempts r = having Out_Discarded + cr_completed_attempts r
        + cr_unknown_usage_attempts r
        + length (filter (\<lambda>p. ap_outcome p \<in> {Out_Admitted, Out_Sent}) attempts)
    \<and> cr_sent_attempts r = length (filter (\<lambda>p. ap_sent_at p \<noteq> None) attempts)
    \<and> cr_completed_attempts r = having Out_Completed
    \<and> cr_unknown_usage_attempts r = having Out_Failed
    \<and> (cr_has_unknown_usage r \<longleftrightarrow> having Out_Failed \<noteq> 0)
    \<and> us_input_tokens (cr_known_usage r) = sum_list (map usage_input attempts)
    \<and> us_output_tokens (cr_known_usage r) = sum_list (map usage_output attempts)
    \<and> receipt_total_tokens r
        = sum_list (map usage_input attempts) + sum_list (map usage_output attempts)"
proof -
  define a where "a = w_adm (run adm_step xs w)"
  have inv: "ids_inv a" "cost_inv a"
    using run_world_inv [OF assms, of xs] by (simp_all add: world_inv_def adm_inv_def a_def)
  have len: "length (admission_attempts a) = cr_admitted_attempts (aa_receipt a)"
    using issued_count [OF inv(1)] by (simp add: admission_attempts_def bt_values_def)
  note tallies = attempts_tally [of "\<lambda>p. ap_sent_at p \<noteq> None" a]
    attempts_tally [of "\<lambda>p. ap_outcome p = Out_Completed" a]
    attempts_tally [of "\<lambda>p. ap_outcome p = Out_Failed" a]
  note cost = inv(2) [unfolded cost_inv_def Let_def tr_was_sent_def [abs_def] tallies]
  show ?thesis
    using cost outcome_partition [of "admission_attempts a"] len
    unfolding Let_def a_def [symmetric] attempts_usage receipt_total_tokens_def
    by (simp add: sat_add64_exact)
qed

text \<open>
  No rerank without a completed wide stage. Whatever the client does, every rerank attempt the
  coordinator ever admitted comes after a wide attempt of the same invocation, earlier in the
  sequence, whose response was accepted with known usage.
\<close>

theorem rerank_requires_completed_wide:
  assumes "adm_start budget clock inv_id w" and "ab_max_http_attempts budget \<le> U32_MAX"
    and "ab_max_logical_requests budget \<le> U32_MAX"
    and "p \<in> set (admission_attempts (w_adm (run adm_step xs w)))" and "ap_stage p = Rerank"
  shows "\<exists>q m n. q \<in> set (admission_attempts (w_adm (run adm_step xs w)))
    \<and> ap_attempt_id q = new_sequential inv_id m \<and> ap_attempt_id p = new_sequential inv_id n \<and> m < n
    \<and> ap_stage q = Wide \<and> ap_outcome q = Out_Completed \<and> ap_usage q \<noteq> None"
proof -
  define a where "a = w_adm (run adm_step xs w)"
  have inv: "ids_inv a" "stage_inv a"
    using run_world_inv [OF assms(1-3), of xs] by (simp_all add: world_inv_def adm_inv_def a_def)
  have id: "aa_invocation_id a = inv_id"
    using run_invocation [OF assms(1), of xs] by (simp add: a_def)
  have sorted: "bt_sorted (aa_issued_attempt_ids a)" using inv(1) by (simp add: ids_inv_def)
  from assms(4) obtain i tr where get: "bt_get (aa_issued_attempt_ids a) i = Some tr"
    and p: "p = tr_provenance tr"
    using bt.vals_get [OF sorted] by (auto simp: admission_attempts_def a_def)
  from issued_is_sequential [OF inv(1) get] obtain n where i: "i = new_sequential inv_id n"
    using id by metis
  with inv(2) get p assms(5) id have "wide_done_before n a" by (simp add: stage_inv_def)
  then obtain m tr' where m: "m < n" "bt_get (aa_issued_attempt_ids a) (new_sequential inv_id m) = Some tr'"
    and wide: "ap_stage (tr_provenance tr') = Wide" "tr_outcome tr' = Out_Completed"
    using id by (auto simp: wide_done_before_def)
  have "tr_provenance tr' \<in> set (admission_attempts a)"
    using m(2) bt.vals_get [OF sorted] by (auto simp: admission_attempts_def)
  moreover have "ap_attempt_id (tr_provenance tr') = new_sequential inv_id m" "trace_ok tr'"
    "ap_attempt_id p = new_sequential inv_id n"
    using inv(1) get m(2) p i by (auto simp: ids_inv_def)
  moreover have "ap_usage (tr_provenance tr') \<noteq> None"
    using \<open>trace_ok tr'\<close> wide(2) by (simp add: trace_ok_def Let_def)
  ultimately show ?thesis using m(1) wide unfolding a_def by blast
qed

text \<open>
  Settlement is final and single-use. Once an attempt has been completed, failed or discarded,
  no later sequence of operations changes what is recorded of it, and every further settlement
  that presents a token for it is refused without touching the coordinator.
\<close>

theorem settled_attempts_are_final:
  assumes "bt_get (aa_issued_attempt_ids (w_adm w)) i = Some tr" and "tr_state tr = State_Finished"
    and "a = w_adm (run adm_step xs w)" and "sa_attempt_id sent = i" and "da_attempt_id d = i"
  shows "bt_get (aa_issued_attempt_ids a) i = Some tr
    \<and> record_sent sent t a = (Err AttemptNotActive, a)
    \<and> record_response sent usage t a = (Err AttemptNotActive, a)
    \<and> record_terminal_failure sent failure t a = (Err AttemptNotActive, a)
    \<and> record_discard d t a = (Err AttemptNotActive, a)"
proof -
  have "extends (w_adm w) a" unfolding assms(3) by (rule run_extends)
  with assms(1,2) have get: "bt_get (aa_issued_attempt_ids a) i = Some tr"
    unfolding extends_def by fastforce
  then have "attempt_state a i = Some State_Finished"
    using assms(2) by (simp add: attempt_state_def)
  with get assms(4,5) show ?thesis
    by (simp add: record_sent_def record_response_def record_terminal_failure_def record_discard_def)
qed

text \<open>
  \<open>can_attempt_rerank\<close> predicts admission. In every state an invocation can reach, when no
  attempt is active, the deadline still admits work and the minimum reserve is left, asking for a
  rerank attempt succeeds exactly when \<open>can_attempt_rerank\<close> says so.
\<close>

theorem can_attempt_rerank_exact:
  assumes "adm_start budget clock inv_id w" and "ab_max_http_attempts budget \<le> U32_MAX"
    and "ab_max_logical_requests budget \<le> U32_MAX" and "a = w_adm (run adm_step xs w)"
    and "list_all (\<lambda>p. ap_outcome p \<notin> {Out_Admitted, Out_Sent}) (admission_attempts a)"
    and "is_ok (admit_new_work (aa_clock a) t1)"
    and "ab_min_attempt_reserve_ms budget \<le> remaining_before_cleanup (aa_clock a) t2"
  shows "is_ok (fst (admit Rerank endpoint t1 t2 a)) \<longleftrightarrow> can_attempt_rerank a"
proof -
  have inv: "ids_inv a" "budget_inv a"
    using run_world_inv [OF assms(1-3), of xs] by (simp_all add: world_inv_def adm_inv_def assms(4))
  have bud: "aa_budget a = budget" using run_invocation [OF assms(1), of xs] assms(4) by simp
  have "bt.tally tr_active (aa_issued_attempt_ids a) = 0"
    using assms(5) attempts_active [OF inv(1)] by (simp add: list_all_iff filter_empty_conv)
  then have idle: "\<not> list_ex (\<lambda>tr. tr_state tr \<noteq> State_Finished) (bt_values (aa_issued_attempt_ids a))"
    using no_active_iff [OF inv(1)] by simp
  obtain now where now: "admit_new_work (aa_clock a) t1 = Ok now" using assms(6) by (auto simp: is_ok_iff)
  have fresh: "bt_get (aa_issued_attempt_ids a) (new_sequential (aa_invocation_id a)
      (sat_add32 (cr_admitted_attempts (aa_receipt a)) 1)) = None"
    if "cr_admitted_attempts (aa_receipt a) < ab_max_http_attempts budget"
    using next_id_fresh [OF inv(1)] that assms(2) by simp
  have new_stage: "is_new_logical_stage Rerank a \<longleftrightarrow>
      \<not> (aa_current_stage a = Some Rerank \<and> \<not> aa_current_stage_completed a)"
    by (auto simp: is_new_logical_stage_def split: option.splits)
  have refusal: "is_ok (fst (admit Rerank endpoint t1 t2 a)) \<longleftrightarrow>
      aa_wide_completed a
    \<and> \<not> (is_new_logical_stage Rerank a
          \<and> aa_logical_requests_started a \<ge> ab_max_logical_requests budget)
    \<and> cr_admitted_attempts (aa_receipt a) < ab_max_http_attempts budget"
    using assms(7) idle now fresh bud by (simp add: admit_def Let_def)
  show ?thesis
    unfolding refusal new_stage can_attempt_rerank_def remaining_http_attempts_def
      remaining_logical_requests_def bud sat_sub_eq
    by linarith
qed

section \<open>Order of the attempts\<close>

lemma append_less_iff: "(xs :: 'a::linorder list) @ ys < xs @ zs \<longleftrightarrow> ys < zs"
  by (induction xs) simp_all

lemma new_sequential_less:
  "new_sequential i a < new_sequential i b \<longleftrightarrow> scalars (dec a) < scalars (dec b)"
  by (simp add: new_sequential_def append_less_iff scalars_def)

lemma dec_digit: "n < 10 \<Longrightarrow> dec n = [digit_char n]"
  by (simp add: dec_def radix.simps)

lemma digit_scalar: "n < 10 \<Longrightarrow> of_char (digit_char n) = (48 + n :: nat)"
proof -
  assume "n < 10"
  then have "n \<in> {0, 1, 2, 3, 4, 5, 6, 7, 8, 9}" by auto
  then show ?thesis by (auto simp: digit_char_def)
qed

lemma single_digits_ordered: "a < b \<Longrightarrow> b < 10 \<Longrightarrow> new_sequential i a < new_sequential i b"
  by (simp add: new_sequential_less dec_digit scalars_def digit_scalar)

lemma ten_before_two: "new_sequential i 10 < new_sequential i 2"
  by (simp add: new_sequential_less dec_def radix.simps scalars_def digit_char_def)

text \<open>
  When the attempt list is in admission order. \<open>attempts\<close> iterates over a map keyed by
  the identifier text, so it lists the attempts in admission order exactly as long as at most nine
  were admitted: from the tenth on, \<open>-att-10\<close> sorts before \<open>-att-2\<close>. The
  default budget of four attempts is on the safe side; a larger configured budget is not.
\<close>

theorem attempts_in_admission_order_iff:
  assumes "adm_start budget clock inv_id w" and "ab_max_http_attempts budget \<le> U32_MAX"
    and "ab_max_logical_requests budget \<le> U32_MAX"
    and "attempts = admission_attempts (w_adm (run adm_step xs w))"
  shows "map ap_attempt_id attempts = map (new_sequential inv_id) [1..<Suc (length attempts)]
    \<longleftrightarrow> length attempts \<le> 9"
proof -
  define a where "a = w_adm (run adm_step xs w)"
  have ids: "ids_inv a"
    using run_world_inv [OF assms(1-3), of xs] by (simp add: world_inv_def adm_inv_def a_def)
  have id: "aa_invocation_id a = inv_id"
    using run_invocation [OF assms(1), of xs] by (simp add: a_def)
  define n where "n = length attempts"
  have att: "attempts = admission_attempts a" by (simp add: assms(4) a_def)
  have keys: "map ap_attempt_id attempts = bt_keys (aa_issued_attempt_ids a)"
    unfolding att by (rule attempts_ids [OF ids])
  have sorted: "sorted_wrt (<) (map ap_attempt_id attempts)"
    using ids unfolding keys by (simp add: ids_inv_def bt_sorted_def bt_keys_def)
  have "n = cr_admitted_attempts (aa_receipt a)"
    using issued_count [OF ids] by (simp add: n_def att admission_attempts_def bt_values_def)
  then have set: "set (map ap_attempt_id attempts) = new_sequential inv_id ` {1..n}"
    using ids id unfolding keys by (simp add: ids_inv_def)
  show ?thesis
  proof
    assume eq: "map ap_attempt_id attempts = map (new_sequential inv_id) [1..<Suc (length attempts)]"
    show "length attempts \<le> 9"
    proof (rule ccontr)
      assume "\<not> length attempts \<le> 9"
      then have "new_sequential inv_id 2 < new_sequential inv_id 10"
        using sorted_wrt_nth_less [OF sorted, of 1 9] unfolding eq
        by (simp add: numeral_2_eq_2 del: upt_Suc)
      with ten_before_two [of inv_id] show False by simp
    qed
  next
    assume small: "length attempts \<le> 9"
    have "sorted_wrt (<) (map (new_sequential inv_id) [1..<Suc n])"
      unfolding sorted_wrt_map
      by (rule sorted_wrt_mono_rel [OF _ sorted_wrt_upt])
        (use small in \<open>auto simp: n_def simp del: upt_Suc intro: single_digits_ordered\<close>)
    moreover have "set (map (new_sequential inv_id) [1..<Suc n]) = set (map ap_attempt_id attempts)"
      unfolding set by (simp add: atLeastLessThanSuc_atLeastAtMost del: upt_Suc)
    ultimately show "map ap_attempt_id attempts = map (new_sequential inv_id) [1..<Suc (length attempts)]"
      using sorted unfolding n_def by (intro strict_sorted_equal) simp_all
  qed
qed

section \<open>A concrete invocation\<close>

definition adm_demo_clock :: InvocationDeadline where
  "adm_demo_clock = \<lparr>dl_start = 0, dl_total = 4000, dl_cleanup_reserve = 250\<rparr>"

definition adm_demo :: adm_world where
  "adm_demo =
     \<lparr>w_adm =
        \<lparr>aa_budget = attempt_budget_default, aa_clock = adm_demo_clock, aa_invocation_id = [105],
         aa_guard_generation = DEFAULT_GUARD_GENERATION, aa_receipt = cost_receipt_new,
         aa_logical_requests_started = 0, aa_current_stage = None, aa_wide_completed = False,
         aa_issued_attempt_ids = [], aa_owner = 7, aa_current_stage_completed = False\<rparr>,
      w_permits = [], w_sent = [], w_discarded = []\<rparr>"

text \<open>A completed wide attempt, then a rerank attempt that is still active.\<close>

definition adm_demo_ops :: "adm_op list" where
  "adm_demo_ops =
     [OpAdmit Wide [111] 10 10, OpMarkSent 0, OpRecordSent 0 12,
      OpRecordResponse 0 \<lparr>us_input_tokens = 30, us_output_tokens = 5\<rparr> 400]"

lemma adm_demo_start: "adm_start attempt_budget_default adm_demo_clock [105] adm_demo"
  by (simp add: adm_start_def adm_demo_def admission_new_def trim_str_def trim_start_def is_whitespace_def)

lemma adm_demo_budget:
  "ab_max_http_attempts attempt_budget_default \<le> U32_MAX"
  "ab_max_logical_requests attempt_budget_default \<le> U32_MAX"
  by (simp_all add: attempt_budget_default_def DEFAULT_HTTP_ATTEMPTS_def DEFAULT_LOGICAL_REQUESTS_def
      U32_MAX_def)

lemmas adm_eval =
  adm_demo_def adm_demo_ops_def adm_demo_clock_def attempt_budget_default_def cost_receipt_new_def
  zero_usage_def DEFAULT_HTTP_ATTEMPTS_def DEFAULT_LOGICAL_REQUESTS_def
  DEFAULT_MIN_ATTEMPT_RESERVE_MS_def U32_MAX_def U64_MAX_def
  admit_def Let_def admit_new_work_def window_defs expires_at_checked_def monotonic_checked_add_def
  limit_checked_add_u64_def checked_add64_def
  is_new_logical_stage_def sat_add32_def wrapping_add32_def admitted_trace_def mark_sent_def
  record_sent_def record_response_def usage_fits_def record_success_def sat_add64_def
  attempt_state_def admission_settle_def settle_trace_def bt_get_def bt_values_def drop_nth_def

lemma adm_demo_run:
  "admission_attempts (w_adm (run adm_step adm_demo_ops adm_demo)) =
     [\<lparr>ap_attempt_id = new_sequential [105] 1, ap_stage = Wide, ap_admitted_at = 10,
       ap_sent_at = Some 12, ap_settled_at = Some 400, ap_outcome = Out_Completed,
       ap_usage = Some \<lparr>us_input_tokens = 30, us_output_tokens = 5\<rparr>, ap_failure = None\<rparr>]"
  by (simp add: adm_eval admission_attempts_def)

text \<open>The same invocation with a rerank attempt admitted next.\<close>

definition adm_demo_rerank :: "adm_op list" where
  "adm_demo_rerank = adm_demo_ops @ [OpAdmit Rerank [111] 500 500]"

lemma adm_demo_state:
  "w_adm (run adm_step adm_demo_ops adm_demo) =
     \<lparr>aa_budget = attempt_budget_default, aa_clock = adm_demo_clock, aa_invocation_id = [105],
      aa_guard_generation = DEFAULT_GUARD_GENERATION,
      aa_receipt = \<lparr>cr_admitted_attempts = 1, cr_sent_attempts = 1, cr_completed_attempts = 1,
        cr_known_usage = \<lparr>us_input_tokens = 30, us_output_tokens = 5\<rparr>,
        cr_unknown_usage_attempts = 0, cr_has_unknown_usage = False, cr_cache_served = False\<rparr>,
      aa_logical_requests_started = 1, aa_current_stage = Some Wide, aa_wide_completed = True,
      aa_issued_attempt_ids = [(new_sequential [105] 1,
        \<lparr>tr_state = State_Finished, tr_provenance =
           \<lparr>ap_attempt_id = new_sequential [105] 1, ap_stage = Wide, ap_admitted_at = 10,
            ap_sent_at = Some 12, ap_settled_at = Some 400, ap_outcome = Out_Completed,
            ap_usage = Some \<lparr>us_input_tokens = 30, us_output_tokens = 5\<rparr>, ap_failure = None\<rparr>\<rparr>)],
      aa_owner = 7, aa_current_stage_completed = True\<rparr>"
  by (simp add: adm_eval)

lemma adm_demo_rerank_attempts:
  "\<exists>p \<in> set (admission_attempts (w_adm (run adm_step adm_demo_rerank adm_demo))). ap_stage p = Rerank"
proof -
  have "is_ok (fst (admit Rerank [111] 500 500 (w_adm (run adm_step adm_demo_ops adm_demo))))"
    by (simp add: adm_demo_state adm_eval)
  then obtain p a' where adm: "admit Rerank [111] 500 500 (w_adm (run adm_step adm_demo_ops adm_demo)) = (Ok p, a')"
    by (cases "admit Rerank [111] 500 500 (w_adm (run adm_step adm_demo_ops adm_demo))") (auto simp: is_ok_iff)
  have "bt_sorted (aa_issued_attempt_ids (w_adm (run adm_step adm_demo_ops adm_demo)))"
    by (simp add: adm_demo_state bt_sorted_def)
  with adm show ?thesis
  proof (cases rule: admit_cases)
    case (granted q i)
    have "admitted_trace i Rerank 500 \<in> set (bt_values (aa_issued_attempt_ids a'))"
      unfolding granted(12) bt.vals_get [OF bt.ok_insert [OF \<open>bt_sorted _\<close>]] bt_get_insert
      by (rule exI [of _ i]) simp
    then have "tr_provenance (admitted_trace i Rerank 500) \<in> set (admission_attempts a')"
      by (simp add: admission_attempts_def)
    moreover have "ap_stage (tr_provenance (admitted_trace i Rerank 500)) = Rerank"
      by (simp add: admitted_trace_def)
    moreover have "w_adm (run adm_step adm_demo_rerank adm_demo) = a'"
      using adm by (simp add: adm_demo_rerank_def)
    ultimately show ?thesis by metis
  qed simp
qed

text \<open>The budget and the cost properties applied to the concrete invocation.\<close>

theorem attempt_budget_enforced_witness:
  "length (admission_attempts (w_adm (run adm_step adm_demo_rerank adm_demo))) \<le> 4
   \<and> aa_logical_requests_started (w_adm (run adm_step adm_demo_rerank adm_demo)) \<le> 2"
  using attempt_budget_enforced [OF adm_demo_start adm_demo_budget, of adm_demo_rerank]
  by (simp add: Let_def attempt_budget_default_def DEFAULT_HTTP_ATTEMPTS_def DEFAULT_LOGICAL_REQUESTS_def)

theorem cost_receipt_exact_witness:
  "receipt_total_tokens (aa_receipt (w_adm (run adm_step adm_demo_ops adm_demo))) = 35"
  using cost_receipt_exact [OF adm_demo_start adm_demo_budget, of adm_demo_ops]
  by (simp add: Let_def adm_demo_run usage_input_def usage_output_def)

theorem rerank_requires_completed_wide_witness:
  "\<exists>q. q \<in> set (admission_attempts (w_adm (run adm_step adm_demo_rerank adm_demo)))
     \<and> ap_stage q = Wide \<and> ap_outcome q = Out_Completed"
proof -
  obtain p where "p \<in> set (admission_attempts (w_adm (run adm_step adm_demo_rerank adm_demo)))"
    and "ap_stage p = Rerank" using adm_demo_rerank_attempts by blast
  from rerank_requires_completed_wide [OF adm_demo_start adm_demo_budget this] show ?thesis by blast
qed

theorem settled_attempts_are_final_witness:
  "record_response \<lparr>sa_owner = 7, sa_attempt_id = new_sequential [105] 1, sa_stage = Wide, sa_sent_at = 10\<rparr>
     \<lparr>us_input_tokens = 30, us_output_tokens = 5\<rparr> 600
     (w_adm (run adm_step [OpCacheHit] (run adm_step adm_demo_ops adm_demo)))
   = (Err AttemptNotActive, w_adm (run adm_step [OpCacheHit] (run adm_step adm_demo_ops adm_demo)))"
  using settled_attempts_are_final [of "run adm_step adm_demo_ops adm_demo" "new_sequential [105] 1" _
      _ "[OpCacheHit]" "\<lparr>sa_owner = 7, sa_attempt_id = new_sequential [105] 1, sa_stage = Wide, sa_sent_at = 10\<rparr>"
      "\<lparr>da_owner = 7, da_attempt_id = new_sequential [105] 1, da_stage = Wide, da_reason = []\<rparr>"]
  by (simp add: adm_demo_state bt_get_def)

theorem can_attempt_rerank_exact_witness:
  "is_ok (fst (admit Rerank [111] 500 500 (w_adm (run adm_step adm_demo_ops adm_demo))))
   \<longleftrightarrow> can_attempt_rerank (w_adm (run adm_step adm_demo_ops adm_demo))"
  by (rule can_attempt_rerank_exact [OF adm_demo_start adm_demo_budget refl])
    (simp_all add: adm_demo_state admission_attempts_def bt_values_def adm_demo_clock_def admit_new_work_def window_defs
      attempt_budget_default_def DEFAULT_MIN_ATTEMPT_RESERVE_MS_def)

theorem attempts_in_admission_order_iff_witness:
  "map ap_attempt_id (admission_attempts (w_adm (run adm_step adm_demo_ops adm_demo)))
     = [new_sequential [105] 1]"
  using attempts_in_admission_order_iff [OF adm_demo_start adm_demo_budget refl, of adm_demo_ops]
  by (simp add: adm_demo_run)

end
