(* ===== verification/Str_Text.thy ===== *)
theory Str_Text
  imports Sr_Prelude
begin

text \<open>
  What the sources use of the string library, on texts as lists of scalar values: ASCII case, digits,
  UTF-8 bytes, slices by byte offset, substring search and lines. A slice at an offset that is not a
  character boundary panics, which is \<open>None\<close>.
\<close>

section \<open>ASCII\<close>

definition ascii_lower :: "scalar \<Rightarrow> scalar" where
  "ascii_lower c = (if 65 \<le> c \<and> c \<le> 90 then c + 32 else c)"

definition eq_ignore_ascii_case :: "str \<Rightarrow> str \<Rightarrow> bool" where
  "eq_ignore_ascii_case a b \<longleftrightarrow> map ascii_lower a = map ascii_lower b"

definition is_ascii_digit :: "scalar \<Rightarrow> bool" where
  "is_ascii_digit c \<longleftrightarrow> 48 \<le> c \<and> c \<le> 57"

text \<open>\<open>str::parse::<u64>\<close> on a text of digits: its value, or nothing when it needs more than 64 bits.\<close>

definition digits_value :: "str \<Rightarrow> nat" where
  "digits_value s = foldl (\<lambda>n c. 10 * n + (c - 48)) 0 s"

definition parse_u64_digits :: "str \<Rightarrow> u64 option" where
  "parse_u64_digits s = (let n = digits_value s in if n \<le> U64_MAX then Some n else None)"

section \<open>Bytes and slices\<close>

definition utf8_encode :: "scalar \<Rightarrow> nat list" where
  "utf8_encode c =
     (if c < 128 then [c]
      else if c < 2048 then [192 + c div 64, 128 + c mod 64]
      else if c < 65536 then [224 + c div 4096, 128 + c div 64 mod 64, 128 + c mod 64]
      else [240 + c div 262144, 128 + c div 4096 mod 64, 128 + c div 64 mod 64, 128 + c mod 64])"

definition str_bytes :: "str \<Rightarrow> nat list" where
  "str_bytes s = concat (map utf8_encode s)"

text \<open>The two parts of a text at a byte offset.\<close>

fun split_at_byte :: "str \<Rightarrow> nat \<Rightarrow> (str \<times> str) option" where
  "split_at_byte [] n = (if n = 0 then Some ([], []) else None)"
| "split_at_byte (c # cs) n =
     (if n = 0 then Some ([], c # cs)
      else if n < utf8_len c then None
      else map_option (\<lambda>(a, b). (c # a, b)) (split_at_byte cs (n - utf8_len c)))"

definition slice_to :: "str \<Rightarrow> nat \<Rightarrow> str option" where
  "slice_to s n = map_option fst (split_at_byte s n)"

definition slice_from :: "str \<Rightarrow> nat \<Rightarrow> str option" where
  "slice_from s n = map_option snd (split_at_byte s n)"

definition slice :: "str \<Rightarrow> nat \<Rightarrow> nat \<Rightarrow> str option" where
  "slice s a b = (if a \<le> b then Option.bind (slice_to s b) (\<lambda>p. slice_from p a) else None)"

text \<open>\<open>char_indices().nth(n).map_or(len, |(i, _)| i)\<close>.\<close>

definition byte_at :: "str \<Rightarrow> nat \<Rightarrow> nat" where
  "byte_at s n = str_len (take n s)"

section \<open>Searching and trimming\<close>

definition trim_end_matches :: "(scalar \<Rightarrow> bool) \<Rightarrow> str \<Rightarrow> str" where
  "trim_end_matches P s = rev (dropWhile P (rev s))"

definition trim_matches :: "(scalar \<Rightarrow> bool) \<Rightarrow> str \<Rightarrow> str" where
  "trim_matches P s = trim_end_matches P (dropWhile P s)"

text \<open>The byte offset of the last character with a property.\<close>

definition rfind_char :: "(scalar \<Rightarrow> bool) \<Rightarrow> str \<Rightarrow> nat option" where
  "rfind_char P s = (case dropWhile (\<lambda>c. \<not> P c) (rev s) of [] \<Rightarrow> None | _ # r \<Rightarrow> Some (str_len (rev r)))"

definition starts_with :: "str \<Rightarrow> str \<Rightarrow> bool" where
  "starts_with s p \<longleftrightarrow> take (length p) s = p"

definition ends_with :: "str \<Rightarrow> str \<Rightarrow> bool" where
  "ends_with s p \<longleftrightarrow> starts_with (rev s) (rev p)"

text \<open>The byte offset of the first occurrence of a pattern.\<close>

fun find_str :: "str \<Rightarrow> str \<Rightarrow> nat option" where
  "find_str [] p = (if p = [] then Some 0 else None)"
| "find_str (c # cs) p =
     (if starts_with (c # cs) p then Some 0 else map_option (\<lambda>n. n + utf8_len c) (find_str cs p))"

definition contains_str :: "str \<Rightarrow> str \<Rightarrow> bool" where
  "contains_str s p \<longleftrightarrow> find_str s p \<noteq> None"

text \<open>\<open>str::lines\<close>: split at line feeds, a trailing empty piece is no line, one carriage return before a line feed is dropped.\<close>

fun split_char :: "scalar \<Rightarrow> str \<Rightarrow> str list" where
  "split_char x [] = [[]]"
| "split_char x (c # cs) =
     (if c = x then [] # split_char x cs
      else case split_char x cs of l # ls \<Rightarrow> (c # l) # ls | [] \<Rightarrow> [[c]])"

definition strip_cr :: "str \<Rightarrow> str" where
  "strip_cr l = (if l \<noteq> [] \<and> last l = 13 then butlast l else l)"

definition str_lines :: "str \<Rightarrow> str list" where
  "str_lines s =
     (let pieces = split_char 10 s in
      map strip_cr (butlast pieces) @ (if last pieces = [] then [] else [last pieces]))"

section \<open>Lemmas\<close>

lemma utf8_len_positive [simp]: "0 < utf8_len c"
  by (simp add: utf8_len_def)

lemma str_len_simps [simp]: "str_len [] = 0" "str_len (c # s) = utf8_len c + str_len s" "str_len (a @ b) = str_len a + str_len b"
  by (simp_all add: str_len_def)

lemma str_len_rev [simp]: "str_len (rev s) = str_len s"
  by (induction s) simp_all

lemma str_len_eq_0 [simp]: "str_len s = 0 \<longleftrightarrow> s = []"
  by (cases s) (auto simp: utf8_len_def)

lemma str_len_bytes: "length (str_bytes s) = str_len s"
  by (induction s) (auto simp: str_bytes_def utf8_encode_def utf8_len_def)

lemma split_at_byte_iff: "split_at_byte s n = Some (p, q) \<longleftrightarrow> s = p @ q \<and> str_len p = n"
proof (induction s n arbitrary: p q rule: split_at_byte.induct)
  case (1 n)
  then show ?case by auto
next
  case (2 c cs n)
  show ?case
  proof (cases "n = 0")
    case True
    then show ?thesis by (auto simp: eq_commute [of "[]"])
  next
    case n: False
    show ?thesis
    proof (cases "n < utf8_len c")
      case True
      then show ?thesis using n by (cases p) auto
    next
      case False
      then show ?thesis using n 2 [OF n False] by (cases p) auto
    qed
  qed
qed

lemma slice_to_iff: "slice_to s n = Some p \<longleftrightarrow> (\<exists>q. s = p @ q) \<and> str_len p = n"
  by (auto simp: slice_to_def split_at_byte_iff)

lemma slice_from_iff: "slice_from s n = Some q \<longleftrightarrow> (\<exists>p. s = p @ q \<and> str_len p = n)"
  by (auto simp: slice_from_def split_at_byte_iff)

lemma slice_iff: "slice s a b = Some m \<longleftrightarrow> (\<exists>p q. s = p @ m @ q \<and> str_len p = a \<and> str_len (p @ m) = b)"
proof
  assume "slice s a b = Some m"
  then obtain pm where "slice_to s b = Some pm" "slice_from pm a = Some m"
    by (auto simp: slice_def bind_eq_Some_conv split: if_splits)
  then obtain p q where "s = (p @ m) @ q" "str_len p = a" "str_len (p @ m) = b"
    by (auto simp: slice_to_iff slice_from_iff)
  then show "\<exists>p q. s = p @ m @ q \<and> str_len p = a \<and> str_len (p @ m) = b" by auto
next
  assume "\<exists>p q. s = p @ m @ q \<and> str_len p = a \<and> str_len (p @ m) = b"
  then obtain p q where "s = p @ m @ q" "str_len p = a" "str_len (p @ m) = b" by blast
  then have "slice_to s b = Some (p @ m)" "slice_from (p @ m) a = Some m" "a \<le> b"
    by (auto simp: slice_to_iff slice_from_iff)
  then show "slice s a b = Some m" by (simp add: slice_def)
qed

text \<open>Prefixes of a text are ordered by their byte lengths.\<close>

lemma prefix_by_len:
  assumes "p @ q = p' @ q'" "str_len p \<le> str_len p'"
  shows "\<exists>m. p' = p @ m"
  using assms append_eq_append_conv2 [of p q p' q'] by force

lemma prefix_len_less:
  assumes "p @ q = p' @ q'" "str_len p \<le> str_len p'"
  shows "length p \<le> length p'"
  using prefix_by_len [OF assms] by auto

lemma byte_at_prefix: "s = take n s @ drop n s" "str_len (take n s) = byte_at s n"
  by (simp_all add: byte_at_def)

end
