(* ===== verification/Retry.thy ===== *)
theory Retry
  imports Admission Str_Text
begin

text \<open>
  Model of \<open>src/src/jev/retry.rs\<close>: bounded \<open>Retry-After\<close> metadata, the pure scheduling
  decision \<open>retry_delay\<close>, and the sequential retry loop of \<open>send_stage_observed\<close> with its
  drop-safe \<open>AttemptFlight\<close>. Everything the loop asks of its surroundings during one round
  (clock readings, cancellation, the caller's authorization, what the transport did with its start
  callback and answered, entropy, the readings of the wait) is one \<open>turn\<close>; the loop consumes a
  list of turns. A turn without an answer is a future dropped while the request was in flight.
  \<open>parse_http_date\<close> is the third-party date parser, an argument.
\<close>

section \<open>Retry-After\<close>

type_synonym SystemTime = int

definition is_blank :: "scalar \<Rightarrow> bool" where
  "is_blank c \<longleftrightarrow> c = 32 \<or> c = 9"

definition trim_blanks :: "str \<Rightarrow> str" where
  "trim_blanks s = rev (dropWhile is_blank (rev (dropWhile is_blank s)))"

definition retry_after_parse :: "(str \<Rightarrow> SystemTime option) \<Rightarrow> str \<Rightarrow> SystemTime \<Rightarrow> RetryAfter" where
  "retry_after_parse parse_http_date value0 received =
     (if str_len value0 > 128 then RetryInvalid
      else
        let value = trim_blanks value0 in
        if value \<noteq> [] \<and> list_all is_ascii_digit value
        then Delay (case parse_u64_digits value of
                      Some s \<Rightarrow> duration_from_secs s
                    | None \<Rightarrow> DURATION_MAX)
        else (case parse_http_date value of
                Some at_time \<Rightarrow> Delay (if received \<le> at_time then nat (at_time - received) else 0)
              | None \<Rightarrow> RetryInvalid))"

definition retry_after_from_headers ::
  "(str \<Rightarrow> SystemTime option) \<Rightarrow> (str \<times> str) list \<Rightarrow> SystemTime \<Rightarrow> RetryAfter" where
  "retry_after_from_headers parse_http_date headers received =
     (case filter (\<lambda>(name, _). eq_ignore_ascii_case name (scalars ''retry-after'')) headers of
        [] \<Rightarrow> RetryAbsent
      | [(_, value)] \<Rightarrow> retry_after_parse parse_http_date value received
      | _ \<Rightarrow> RetryInvalid)"

section \<open>The scheduling decision\<close>

fun retryable :: "TransportErrorKind \<Rightarrow> bool" where
  "retryable Dns = True"
| "retryable Connect = True"
| "retryable TransientIo = True"
| "retryable (HttpStatus s) = (s \<in> {429, 500, 502, 503, 504, 529})"
| "retryable _ = False"

datatype RetryStop = NotTransient | InvalidRetryAfter | DoesNotFitDeadline

text \<open>\<open>100_u64 << failures.saturating_sub(1).min(3)\<close>, in milliseconds.\<close>

definition backoff_ms :: "u32 \<Rightarrow> u64" where
  "backoff_ms failures = 100 * 2 ^ (min (sat_sub failures 1) 3)"

definition retry_delay ::
  "TransportError \<Rightarrow> u32 \<Rightarrow> Duration \<Rightarrow> Duration \<Rightarrow> u64 \<Rightarrow> (Duration, RetryStop) result" where
  "retry_delay error failures remaining minimum_attempt entropy =
     (if \<not> retryable (te_kind error) then Err NotTransient
      else case te_retry_after error of
        RetryInvalid \<Rightarrow> Err InvalidRetryAfter
      | ra \<Rightarrow>
        (let provider = (case ra of Delay d \<Rightarrow> d | _ \<Rightarrow> 0);
             backoff = duration_from_millis (backoff_ms failures) in
         case duration_checked_add (max provider backoff) (duration_from_millis (entropy mod 51)) of
           None \<Rightarrow> Err DoesNotFitDeadline
         | Some delay \<Rightarrow>
           (case duration_checked_add delay minimum_attempt of
              None \<Rightarrow> Err DoesNotFitDeadline
            | Some needed \<Rightarrow> if needed \<ge> remaining then Err DoesNotFitDeadline else Ok delay)))"

section \<open>Sessions\<close>

datatype RetryErrorKind =
    Re_Transport TransportErrorKind
  | Re_Admission AdmissionRefusal
  | Re_Accounting
  | Re_PolicyChanged
  | Re_RetryStopped RetryStop
  | Re_ModelPairMismatch

record RetryError =
  re_kind :: RetryErrorKind
  re_receipt :: CostReceipt
  re_last_transport :: "TransportError option"

text \<open>The answers of a response are not looked at by this component and are left out.\<close>

record JevResponse =
  rp_requested_model :: str
  rp_returned_model :: str
  rp_usage :: Usage

record ModelObservation =
  mo_requested :: str
  mo_returned :: str
  mo_started_at :: SystemTime
  mo_received_at :: SystemTime
  mo_started_elapsed_ms :: u64
  mo_received_elapsed_ms :: u64

datatype ModelPairStatus = NotPaired | MatchingUnpinnedIdentifiers

record StageResponse =
  sr_response :: JevResponse
  sr_model :: ModelObservation
  sr_pair_status :: ModelPairStatus
  sr_attempts :: u32
  sr_receipt :: CostReceipt

text \<open>What an attached \<open>AttemptJournal\<close> is told, oldest first.\<close>

datatype journal_event =
    JournalAdmitted AttemptId RankingStage MonotonicMillis
  | JournalReachedWire AttemptId MonotonicMillis

record RetrySession =
  rs_origin :: CanonicalOrigin
  rs_credential :: "str option"
  rs_clock :: InvocationDeadline
  rs_admission :: AttemptAdmission
  rs_wide :: "ModelObservation option"
  rs_last_model :: "ModelObservation option"
  rs_journal :: "journal_event list option"
  rs_settled :: "(unit, TransportError) result list"

definition retry_session_new ::
  "CanonicalOrigin option \<Rightarrow> CanonicalOrigin \<Rightarrow> str option \<Rightarrow> InvocationDeadline \<Rightarrow> AttemptBudget \<Rightarrow> str \<Rightarrow> owner
     \<Rightarrow> (RetrySession, AdmissionError) result" where
  "retry_session_new client_origin production credential clock budget invocation_id own =
     map_ok (\<lambda>a. \<lparr>rs_origin = (case client_origin of Some c \<Rightarrow> c | None \<Rightarrow> production),
                   rs_credential = (case client_origin of Some _ \<Rightarrow> credential | None \<Rightarrow> None),
                   rs_clock = clock, rs_admission = a, rs_wide = None, rs_last_model = None,
                   rs_journal = None, rs_settled = []\<rparr>)
       (admission_new budget clock invocation_id own)"

definition with_journal :: "RetrySession \<Rightarrow> RetrySession" where
  "with_journal s = s\<lparr>rs_journal := Some []\<rparr>"

definition session_receipt :: "RetrySession \<Rightarrow> CostReceipt" where
  "session_receipt s = aa_receipt (rs_admission s)"

definition session_error :: "RetryErrorKind \<Rightarrow> TransportError option \<Rightarrow> RetrySession \<Rightarrow> RetryError" where
  "session_error kind last_transport s =
     \<lparr>re_kind = kind, re_receipt = session_receipt s, re_last_transport = last_transport\<rparr>"

section \<open>One attempt in flight\<close>

record AttemptFlight =
  fl_admission :: AttemptAdmission
  fl_journal :: "journal_event list option"
  fl_permit :: "AttemptPermit option"
  fl_sent :: "SentAttempt option"

definition journal_push :: "journal_event \<Rightarrow> journal_event list option \<Rightarrow> journal_event list option" where
  "journal_push e = map_option (\<lambda>es. es @ [e])"

definition flight_start_error :: TransportError where
  "flight_start_error = \<lparr>te_kind = Protocol, te_http_attempt_started = False, te_retry_after = RetryAbsent\<rparr>"

definition flight_start ::
  "MonotonicMillis \<Rightarrow> AttemptFlight \<Rightarrow> (unit, TransportError) result \<times> AttemptFlight" where
  "flight_start now fl =
     (case fl_permit fl of
        None \<Rightarrow> (Err flight_start_error, fl)
      | Some permit \<Rightarrow>
        (let fl' = fl\<lparr>fl_permit := None\<rparr> in
         case mark_sent permit of
           Err _ \<Rightarrow> (Err flight_start_error, fl')
         | Ok sent \<Rightarrow>
           (case record_sent sent now (fl_admission fl) of
              (Err _, a) \<Rightarrow> (Err flight_start_error, fl'\<lparr>fl_admission := a\<rparr>)
            | (Ok _, a) \<Rightarrow>
              (Ok (), fl'\<lparr>fl_admission := a,
                         fl_journal := journal_push
                           (JournalReachedWire (sa_attempt_id sent) (sa_sent_at sent)) (fl_journal fl),
                         fl_sent := Some sent\<rparr>))))"

definition attempt_failure :: "TransportError option \<Rightarrow> AttemptFailure" where
  "attempt_failure e =
     (case e of None \<Rightarrow> Fail_Indeterminate ''settlement-unobserved'' | Some e' \<Rightarrow> from_transport e')"

definition flight_finish ::
  "Usage option \<Rightarrow> TransportError option \<Rightarrow> MonotonicMillis \<Rightarrow> AttemptFlight
     \<Rightarrow> (unit, AdmissionError) result \<times> AttemptFlight" where
  "flight_finish usage error now fl =
     (case fl_sent fl of
        Some sent \<Rightarrow>
          (let fl' = fl\<lparr>fl_sent := None\<rparr>;
               (r, a) = (case usage of
                  Some u \<Rightarrow> record_response sent u now (fl_admission fl)
                | None \<Rightarrow> record_terminal_failure sent (attempt_failure error) now (fl_admission fl))
           in (r, fl'\<lparr>fl_admission := a\<rparr>))
      | None \<Rightarrow>
        (case fl_permit fl of
           Some permit \<Rightarrow>
             (let (r, a) = record_discard (discard_before_send permit ''local refusal before HTTP'')
                             now (fl_admission fl)
              in (r, fl\<lparr>fl_permit := None, fl_admission := a\<rparr>))
         | None \<Rightarrow> (Ok (), fl)))"

text \<open>\<open>Drop\<close> finishes with no usage and no error, and ignores the result.\<close>

definition flight_drop :: "MonotonicMillis \<Rightarrow> AttemptFlight \<Rightarrow> AttemptFlight" where
  "flight_drop now fl = snd (flight_finish None None now fl)"

section \<open>The loop\<close>

definition check_work :: "bool \<Rightarrow> InvocationDeadline \<Rightarrow> MonotonicMillis \<Rightarrow> (unit, TransportErrorKind) result" where
  "check_work cancel_requested clock now =
     (if cancel_requested then Err Cancelled
      else case admit_new_work clock now of Ok _ \<Rightarrow> Ok () | Err _ \<Rightarrow> Err Deadline)"

text \<open>
  \<open>Instant\<close> is a monotonic clock in nanoseconds whose seconds fit a signed 64-bit integer. One
  reading of the wait holds the cancellation flag, the entry clock and the instant. The list holds the
  readings of the rounds that took place. When they end before the wait does, the future was dropped
  during a sleep: a wait that its caller never drops has a next reading after each sleep, and
  \<open>wait_until_returns\<close> shows that it ends with the first reading at the target, cancelled, or too late.
\<close>

definition INSTANT_MAX :: nat where
  "INSTANT_MAX = nat I64_MAX * 1000000000 + 999999999"

record wait_reading =
  wr_cancelled :: bool
  wr_now :: MonotonicMillis
  wr_instant :: nat

fun wait_until :: "InvocationDeadline \<Rightarrow> nat \<Rightarrow> wait_reading list \<Rightarrow> (unit, TransportErrorKind) result option" where
  "wait_until clock target [] = None"
| "wait_until clock target (x # xs) =
     (case check_work (wr_cancelled x) clock (wr_now x) of
        Err k \<Rightarrow> Some (Err k)
      | Ok _ \<Rightarrow>
        (if target - wr_instant x = 0 then Some (Ok ()) else wait_until clock target xs))"

lemma wait_until_returns:
  "wait_until clock target xs \<noteq> None \<longleftrightarrow>
     (\<exists>x\<in>set xs. target \<le> wr_instant x \<or> check_work (wr_cancelled x) clock (wr_now x) \<noteq> Ok ())"
  by (induction xs) (auto split: result.splits)

definition wait_before_retry ::
  "InvocationDeadline \<Rightarrow> Duration \<Rightarrow> nat \<Rightarrow> wait_reading list \<Rightarrow> (unit, TransportErrorKind) result option" where
  "wait_before_retry clock delay instant_now readings =
     (if instant_now + delay > INSTANT_MAX then Some (Err Deadline)
      else wait_until clock (instant_now + delay) readings)"

record turn =
  tn_cancelled :: bool
  tn_check_at :: MonotonicMillis
  tn_authorized :: bool
  tn_admit_at :: MonotonicMillis
  tn_remaining_at :: MonotonicMillis
  tn_start_times :: "MonotonicMillis list"
  tn_answer :: "(JevResponse, TransportError) result option"
  tn_finish_at :: MonotonicMillis
  tn_received_wall :: SystemTime
  tn_received_at :: MonotonicMillis
  tn_delay_at :: MonotonicMillis
  tn_entropy :: u64
  tn_wait_from :: nat
  tn_wait :: "wait_reading list"

text \<open>How one call ends: it returns, or its future was dropped at one of its awaits.\<close>

datatype stage_end = Returned "(StageResponse, RetryError) result" | Dropped

text \<open>One round of the loop either ends the call or leaves the failure that is retried.\<close>

datatype round_end = Ends stage_end | Again TransportError

definition ends_err :: "RetryErrorKind \<Rightarrow> TransportError option \<Rightarrow> RetrySession \<Rightarrow> round_end \<times> RetrySession" where
  "ends_err kind last_transport s = (Ends (Returned (Err (session_error kind last_transport s))), s)"

text \<open>
  The transport call: the start callback runs once for every reading in \<open>tn_start_times\<close>, then
  the flight is finished with the answer, or dropped.
\<close>

definition fly :: "turn \<Rightarrow> AttemptFlight \<Rightarrow> (unit, AdmissionError) result \<times> AttemptFlight" where
  "fly t fl =
     (let fl' = fold (\<lambda>now f. snd (flight_start now f)) (tn_start_times t) fl in
      case tn_answer t of
        None \<Rightarrow> (Ok (), flight_drop (tn_finish_at t) fl')
      | Some (Ok response) \<Rightarrow>
          (let (r, fl'') = flight_finish (Some (rp_usage response)) None (tn_finish_at t) fl'
           in (r, flight_drop (tn_finish_at t) fl''))
      | Some (Err e) \<Rightarrow>
          (let (r, fl'') = flight_finish None (Some e) (tn_finish_at t) fl'
           in (r, flight_drop (tn_finish_at t) fl'')))"

definition accept_response ::
  "RankingStage \<Rightarrow> u32 \<Rightarrow> SystemTime \<Rightarrow> u64 \<Rightarrow> turn \<Rightarrow> JevResponse \<Rightarrow> RetrySession \<Rightarrow> round_end \<times> RetrySession" where
  "accept_response stage initial_attempts started_at started_elapsed_ms t response s0 =
     (let model = \<lparr>mo_requested = rp_requested_model response, mo_returned = rp_returned_model response,
                   mo_started_at = started_at, mo_received_at = tn_received_wall t,
                   mo_started_elapsed_ms = started_elapsed_ms,
                   mo_received_elapsed_ms = tn_received_at t\<rparr>;
          s = s0\<lparr>rs_last_model := Some model\<rparr>;
          paired = (if stage = Rerank
                    then (case rs_wide s of
                            None \<Rightarrow> None
                          | Some wide \<Rightarrow>
                            if mo_requested wide \<noteq> mo_requested model \<or> mo_returned wide \<noteq> mo_returned model
                            then None else Some MatchingUnpinnedIdentifiers)
                    else Some NotPaired)
      in case paired of
           None \<Rightarrow> ends_err Re_ModelPairMismatch None s
         | Some pair_status \<Rightarrow>
           (let s' = (if stage = Wide then s\<lparr>rs_wide := Some model\<rparr> else s)
            in (Ends (Returned (Ok
                 \<lparr>sr_response = response, sr_model = model, sr_pair_status = pair_status,
                  sr_attempts = cr_admitted_attempts (session_receipt s') - initial_attempts,
                  sr_receipt = session_receipt s'\<rparr>)), s')))"

definition schedule_retry ::
  "u32 \<Rightarrow> turn \<Rightarrow> TransportError \<Rightarrow> RetrySession \<Rightarrow> round_end \<times> RetrySession" where
  "schedule_retry initial_attempts t e s =
     (if \<not> retryable (te_kind e) then ends_err (Re_Transport (te_kind e)) (Some e) s
      else if remaining_http_attempts (rs_admission s) = 0
      then ends_err (Re_Admission (AttemptsExhausted (cr_admitted_attempts (session_receipt s))
                       (ab_max_http_attempts (aa_budget (rs_admission s))))) (Some e) s
      else case retry_delay e (cr_admitted_attempts (session_receipt s) - initial_attempts)
                  (duration_from_millis (remaining_before_cleanup (rs_clock s) (tn_delay_at t)))
                  (duration_from_millis (ab_min_attempt_reserve_ms (aa_budget (rs_admission s))))
                  (tn_entropy t) of
        Err stop \<Rightarrow> ends_err (Re_RetryStopped stop) (Some e) s
      | Ok delay \<Rightarrow>
        (case wait_before_retry (rs_clock s) delay (tn_wait_from t) (tn_wait t) of
           None \<Rightarrow> (Ends Dropped, s)
         | Some (Err kind) \<Rightarrow> ends_err (Re_Transport kind) (Some e) s
         | Some (Ok _) \<Rightarrow> (Again e, s)))"

definition round ::
  "RankingStage \<Rightarrow> u32 \<Rightarrow> SystemTime \<Rightarrow> u64 \<Rightarrow> TransportError option \<Rightarrow> turn \<Rightarrow> RetrySession
     \<Rightarrow> round_end \<times> RetrySession" where
  "round stage initial_attempts started_at started_elapsed_ms last_transport t s =
     (case check_work (tn_cancelled t) (rs_clock s) (tn_check_at t) of
        Err kind \<Rightarrow> ends_err (Re_Transport kind) last_transport s
      | Ok _ \<Rightarrow>
        if \<not> tn_authorized t then ends_err Re_PolicyChanged last_transport s
        else case admit stage (rs_origin s) (tn_admit_at t) (tn_remaining_at t) (rs_admission s) of
          (Err kind, a) \<Rightarrow> ends_err (Re_Admission kind) last_transport (s\<lparr>rs_admission := a\<rparr>)
        | (Ok permit, a) \<Rightarrow>
          (let (accounting, fl) =
                 fly t \<lparr>fl_admission = a,
                        fl_journal = journal_push
                          (JournalAdmitted (pm_attempt_id permit) stage (pm_admitted_at permit)) (rs_journal s),
                        fl_permit = Some permit, fl_sent = None\<rparr>;
               s1 = s\<lparr>rs_admission := fl_admission fl, rs_journal := fl_journal fl\<rparr>
           in case tn_answer t of
                None \<Rightarrow> (Ends Dropped, s1)
              | Some answer \<Rightarrow>
                (let s2 = s1\<lparr>rs_settled := rs_settled s1 @ [map_ok (\<lambda>_. ()) answer]\<rparr> in
                 case accounting of
                   Err _ \<Rightarrow> ends_err Re_Accounting last_transport s2
                 | Ok _ \<Rightarrow>
                   (case answer of
                      Ok response \<Rightarrow>
                        accept_response stage initial_attempts started_at started_elapsed_ms t response s2
                    | Err e \<Rightarrow> schedule_retry initial_attempts t e s2))))"

text \<open>The loop, which also returns the turns it has not used. No turn left means it is still running.\<close>

fun send_loop ::
  "RankingStage \<Rightarrow> u32 \<Rightarrow> SystemTime \<Rightarrow> u64 \<Rightarrow> TransportError option \<Rightarrow> turn list \<Rightarrow> RetrySession
     \<Rightarrow> (stage_end \<times> RetrySession \<times> turn list) option" where
  "send_loop stage ia sat sel lt [] s = None"
| "send_loop stage ia sat sel lt (t # ts) s =
     (case round stage ia sat sel lt t s of
        (Ends r, s') \<Rightarrow> Some (r, s', ts)
      | (Again e, s') \<Rightarrow> send_loop stage ia sat sel (Some e) ts s')"

definition send_stage_observed ::
  "RankingStage \<Rightarrow> str \<Rightarrow> SystemTime \<Rightarrow> MonotonicMillis \<Rightarrow> turn list \<Rightarrow> RetrySession
     \<Rightarrow> (stage_end \<times> RetrySession \<times> turn list) option" where
  "send_stage_observed stage request_model started_at now turns s =
     (if stage = Rerank \<and> (case rs_wide s of Some wide \<Rightarrow> mo_requested wide \<noteq> request_model | None \<Rightarrow> False)
      then Some (Returned (Err (session_error Re_ModelPairMismatch None s)), s, turns)
      else send_loop stage (cr_admitted_attempts (session_receipt s)) started_at now None turns s)"

section \<open>Retry-After and delays\<close>

lemma duration_checked_add_Some [simp]:
  "duration_checked_add a b = Some c \<longleftrightarrow> c = a + b \<and> a + b \<le> DURATION_MAX"
  by (auto simp: duration_checked_add_def)

lemma duration_checked_add_None [simp]: "duration_checked_add a b = None \<longleftrightarrow> DURATION_MAX < a + b"
  by (auto simp: duration_checked_add_def)

text \<open>What the provider asked for: nothing counts as zero, unusable metadata as no answer.\<close>

definition provider_delay :: "RetryAfter \<Rightarrow> Duration option" where
  "provider_delay ra = (case ra of RetryAbsent \<Rightarrow> Some 0 | Delay d \<Rightarrow> Some d | RetryInvalid \<Rightarrow> None)"

lemma retry_delay_cases:
  "retry_delay e failures remaining least entropy =
     (if \<not> retryable (te_kind e) then Err NotTransient
      else case provider_delay (te_retry_after e) of
        None \<Rightarrow> Err InvalidRetryAfter
      | Some provider \<Rightarrow>
        (let delay = max provider (duration_from_millis (backoff_ms failures))
                     + duration_from_millis (entropy mod 51) in
         if delay + least \<le> DURATION_MAX \<and> delay + least < remaining then Ok delay
         else Err DoesNotFitDeadline))"
  by (auto simp: retry_delay_def provider_delay_def duration_checked_add_def Let_def
      split: RetryAfter.splits)

lemma backoff_bounds: "100 \<le> backoff_ms f \<and> backoff_ms f \<le> 800"
proof -
  have "min (sat_sub f 1) 3 \<le> 3" by simp
  then have "(2::nat) ^ min (sat_sub f 1) 3 \<le> 2 ^ 3" by (rule power_increasing) simp
  then show ?thesis by (simp add: backoff_ms_def)
qed

section \<open>The flight settles what it admitted\<close>

definition idle :: "AttemptAdmission \<Rightarrow> bool" where
  "idle a \<longleftrightarrow> bt.tally tr_active (aa_issued_attempt_ids a) = 0"

text \<open>Nothing but settlements: no attempt is lost and none is added.\<close>

definition same_attempts :: "AttemptAdmission \<Rightarrow> AttemptAdmission \<Rightarrow> bool" where
  "same_attempts a a' \<longleftrightarrow> extends a a'
     \<and> cr_admitted_attempts (aa_receipt a') = cr_admitted_attempts (aa_receipt a)"

lemma same_attempts_refl [simp]: "same_attempts a a"
  by (simp add: same_attempts_def)

lemma same_attempts_trans: "same_attempts a b \<Longrightarrow> same_attempts b c \<Longrightarrow> same_attempts a c"
  using extends_trans by (auto simp: same_attempts_def)

lemma settles_admitted: "settles i tr f a a' \<Longrightarrow>
    cr_admitted_attempts (aa_receipt a') = cr_admitted_attempts (aa_receipt a)"
  by (simp add: settles_def)

lemma record_sent_same:
  assumes "record_sent sent now a = (r, a')"
  shows "same_attempts a a'"
  by (rule record_sent_cases [OF assms])
    (use record_sent_extends [OF assms] in \<open>auto simp: same_attempts_def dest: settles_admitted\<close>)

lemma record_terminal_failure_same:
  assumes "record_terminal_failure sent failure now a = (r, a')"
  shows "same_attempts a a'"
  by (rule record_terminal_failure_cases [OF assms])
    (use record_terminal_failure_extends [OF assms] in \<open>auto simp: same_attempts_def dest: settles_admitted\<close>)

lemma record_discard_same:
  assumes "record_discard d now a = (r, a')"
  shows "same_attempts a a'"
  by (rule record_discard_cases [OF assms])
    (use record_discard_extends [OF assms] in \<open>auto simp: same_attempts_def dest: settles_admitted\<close>)

lemma record_response_same:
  assumes "record_response sent u now a = (r, a')"
  shows "same_attempts a a'"
  using assms
proof (cases rule: record_response_cases)
  case overflow
  from overflow(3) show ?thesis by (rule record_terminal_failure_same)
next
  case (settled tr f)
  with record_response_extends [OF assms] settles_admitted [OF settled(4)] show ?thesis
    by (simp add: same_attempts_def)
qed simp

lemma settling_idles:
  assumes "ids_inv a" and "settles i tr f a a'" and "tr_active tr" and "\<not> tr_active (f tr)"
  shows "idle a'"
proof -
  have "bt_sorted (aa_issued_attempt_ids a)" "bt.tally tr_active (aa_issued_attempt_ids a) \<le> 1"
    "bt_get (aa_issued_attempt_ids a) i = Some tr"
    using assms(1,2) by (simp_all add: ids_inv_def settles_def)
  with bt.tally_modify [of "aa_issued_attempt_ids a" i tr tr_active f] assms(2-4)
  show ?thesis by (simp add: idle_def settles_def)
qed

text \<open>
  The states of a flight: a permit that was never used, a sent attempt that is not settled, or
  nothing left to settle.
\<close>

definition flight_inv :: "AttemptFlight \<Rightarrow> bool" where
  "flight_inv fl \<longleftrightarrow> adm_inv (fl_admission fl) \<and>
     (case (fl_permit fl, fl_sent fl) of
        (Some p, None) \<Rightarrow> pm_owner p = aa_owner (fl_admission fl) \<and> \<not> pm_consumed p
          \<and> attempt_state (fl_admission fl) (pm_attempt_id p) = Some State_Admitted
          \<and> names_attempt (fl_admission fl) (pm_owner p) (pm_attempt_id p) (pm_stage p)
      | (None, Some sn) \<Rightarrow> sa_owner sn = aa_owner (fl_admission fl)
          \<and> attempt_state (fl_admission fl) (sa_attempt_id sn) = Some State_Sent
          \<and> names_attempt (fl_admission fl) (sa_owner sn) (sa_attempt_id sn) (sa_stage sn)
      | (None, None) \<Rightarrow> idle (fl_admission fl)
      | (Some _, Some _) \<Rightarrow> False)"

lemma flight_start_keeps:
  assumes "flight_inv fl"
  shows "flight_inv (snd (flight_start now fl))
    \<and> same_attempts (fl_admission fl) (fl_admission (snd (flight_start now fl)))"
proof (cases "fl_permit fl")
  case None
  with assms show ?thesis by (simp add: flight_start_def)
next
  case (Some p)
  define sn where "sn = \<lparr>sa_owner = pm_owner p, sa_attempt_id = pm_attempt_id p, sa_stage = pm_stage p,
      sa_sent_at = pm_admitted_at p\<rparr>"
  from assms Some have p: "pm_owner p = aa_owner (fl_admission fl)" "\<not> pm_consumed p"
      "attempt_state (fl_admission fl) (pm_attempt_id p) = Some State_Admitted"
      "names_attempt (fl_admission fl) (pm_owner p) (pm_attempt_id p) (pm_stage p)"
      "fl_sent fl = None" "adm_inv (fl_admission fl)"
    by (auto simp: flight_inv_def split: option.splits)
  obtain r a where rec: "record_sent sn now (fl_admission fl) = (r, a)"
    by (cases "record_sent sn now (fl_admission fl)")
  have r: "r = Ok ()"
    using rec p(1,3) by (auto simp: record_sent_def sn_def Let_def)
  have marked: "mark_sent p = Ok sn" using p(2) by (simp add: mark_sent_def sn_def)
  have inv: "adm_inv a" by (rule record_sent_inv [OF p(6) rec])
  have same: "same_attempts (fl_admission fl) a" by (rule record_sent_same [OF rec])
  have sent: "attempt_state a (pm_attempt_id p) = Some State_Sent"
    using rec p(1,3) by (auto simp: record_sent_def sn_def Let_def attempt_state_def admission_settle_def
        bt_get_modify settle_trace_def)
  have "names_attempt a (pm_owner p) (pm_attempt_id p) (pm_stage p)" "aa_owner a = pm_owner p"
    using same p(1,4) extends_names by (auto simp: same_attempts_def extends_def)
  with inv sent same rec marked r Some show ?thesis
    by (simp add: flight_start_def Let_def flight_inv_def sn_def)
qed

lemma fold_start_keeps:
  "flight_inv fl \<Longrightarrow> flight_inv (fold (\<lambda>now f. snd (flight_start now f)) ts fl)
    \<and> same_attempts (fl_admission fl) (fl_admission (fold (\<lambda>now f. snd (flight_start now f)) ts fl))"
proof (induction ts arbitrary: fl)
  case (Cons t ts)
  with flight_start_keeps [of fl t] show ?case by (auto intro: same_attempts_trans)
qed simp

lemma flight_finish_settles:
  assumes "flight_inv fl" and "flight_finish u e now fl = (r, fl')"
  shows "flight_inv fl' \<and> fl_permit fl' = None \<and> fl_sent fl' = None
    \<and> same_attempts (fl_admission fl) (fl_admission fl')"
proof -
  consider (sent) sn where "fl_sent fl = Some sn" "fl_permit fl = None"
    | (permit) p where "fl_sent fl = None" "fl_permit fl = Some p"
    | (none) "fl_sent fl = None" "fl_permit fl = None"
    using assms(1) by (cases "fl_sent fl"; cases "fl_permit fl") (auto simp: flight_inv_def)
  then show ?thesis
  proof cases
    case none
    with assms show ?thesis by (auto simp: flight_finish_def)
  next
    case (permit p)
    define d where "d = discard_before_send p ''local refusal before HTTP''"
    obtain r' a where rec: "record_discard d now (fl_admission fl) = (r', a)"
      by (cases "record_discard d now (fl_admission fl)")
    from permit assms(1) have p: "pm_owner p = aa_owner (fl_admission fl)"
      "attempt_state (fl_admission fl) (pm_attempt_id p) = Some State_Admitted" "adm_inv (fl_admission fl)"
      by (simp_all add: flight_inv_def)
    from rec have "idle a"
    proof (cases rule: record_discard_cases)
      case refused
      with rec p show ?thesis by (simp add: record_discard_def d_def discard_before_send_def)
    next
      case (settled tr f)
      then show ?thesis using p(3)
        by (intro settling_idles [OF _ settled(4)]) (simp_all add: adm_inv_def trace_defs)
    qed
    with rec permit assms p(3) show ?thesis
      by (auto simp: flight_finish_def flight_inv_def d_def record_discard_same
          intro: record_discard_inv)
  next
    case (sent sn)
    from sent assms(1) have sn: "sa_owner sn = aa_owner (fl_admission fl)"
      "attempt_state (fl_admission fl) (sa_attempt_id sn) = Some State_Sent" "adm_inv (fl_admission fl)"
      "names_attempt (fl_admission fl) (sa_owner sn) (sa_attempt_id sn) (sa_stage sn)"
      by (auto simp: flight_inv_def)
    have failed: "idle a" if rec: "record_terminal_failure sn f now (fl_admission fl) = (r', a)" for f r' a
      using rec
    proof (cases rule: record_terminal_failure_cases)
      case refused
      with rec sn show ?thesis by (simp add: record_terminal_failure_def)
    next
      case (settled tr f)
      then show ?thesis using sn(3)
        by (intro settling_idles [OF _ settled(4)]) (simp_all add: adm_inv_def trace_defs)
    qed
    show ?thesis
    proof (cases u)
      case None
      obtain r' a where rec: "record_terminal_failure sn (attempt_failure e) now (fl_admission fl) = (r', a)"
        by (cases "record_terminal_failure sn (attempt_failure e) now (fl_admission fl)")
      from rec None sent assms show ?thesis
        using failed [OF rec] record_terminal_failure_same [OF rec] record_terminal_failure_inv [OF sn(3) rec]
        by (auto simp: flight_finish_def flight_inv_def)
    next
      case (Some usage)
      obtain r' a where rec: "record_response sn usage now (fl_admission fl) = (r', a)"
        by (cases "record_response sn usage now (fl_admission fl)")
      then have "idle a"
      proof (cases rule: record_response_cases)
        case refused
        with rec sn show ?thesis
          by (auto simp: record_response_def record_terminal_failure_def Let_def
              split: if_splits)
      next
        case overflow
        with failed show ?thesis by blast
      next
        case (settled tr f)
        then show ?thesis using sn(3)
          by (intro settling_idles [OF _ settled(4)]) (simp_all add: adm_inv_def trace_defs)
      qed
      with rec Some sent assms show ?thesis
        using record_response_same [OF rec] record_response_inv [OF sn(3,4) rec]
        by (auto simp: flight_finish_def flight_inv_def)
    qed
  qed
qed

lemma fly_settles:
  assumes "flight_inv fl" and "fly t fl = (r, fl')"
  shows "adm_inv (fl_admission fl') \<and> idle (fl_admission fl')
    \<and> same_attempts (fl_admission fl) (fl_admission fl')"
proof -
  define fl0 where "fl0 = fold (\<lambda>now f. snd (flight_start now f)) (tn_start_times t) fl"
  have fl0: "flight_inv fl0" "same_attempts (fl_admission fl) (fl_admission fl0)"
    using fold_start_keeps [OF assms(1)] by (simp_all add: fl0_def)
  have finish: "flight_inv (snd (flight_finish u e now f)) \<and> fl_permit (snd (flight_finish u e now f)) = None
      \<and> fl_sent (snd (flight_finish u e now f)) = None
      \<and> same_attempts (fl_admission f) (fl_admission (snd (flight_finish u e now f)))"
    if "flight_inv f" for u e now f
    by (rule flight_finish_settles [OF that prod.collapse [symmetric]])
  have again: "flight_drop now f = f" if "fl_permit f = None" "fl_sent f = None" for now f
    using that by (simp add: flight_drop_def flight_finish_def)
  obtain u e where "fl' = snd (flight_finish u e (tn_finish_at t) fl0)"
    using assms(2) finish [OF fl0(1)]
    by (auto simp: fly_def Let_def fl0_def [symmetric] flight_drop_def [symmetric] again
        split: option.splits result.splits prod.splits)
      (metis again flight_drop_def finish fl0(1) snd_conv)+
  with finish [OF fl0(1), of u e "tn_finish_at t"] fl0(2) show ?thesis
    by (auto simp: flight_inv_def intro: same_attempts_trans)
qed

text \<open>
  The time the journal receives for the wire event is the time of admission: \<open>mark_sent\<close>
  copies it into the token. The attempt's own provenance gets the reading at the send.
\<close>

lemma journal_wire_time_is_admission_time:
  assumes "flight_start now fl = (Ok (), fl')" and "fl_permit fl = Some p" and "fl_journal fl = Some es"
  shows "fl_journal fl' = Some (es @ [JournalReachedWire (pm_attempt_id p) (pm_admitted_at p)])
    \<and> map_option (ap_sent_at \<circ> tr_provenance)
        (bt_get (aa_issued_attempt_ids (fl_admission fl')) (pm_attempt_id p)) = Some (Some now)"
  using assms
  by (auto simp: flight_start_def Let_def mark_sent_def record_sent_def journal_push_def
      admission_settle_def attempt_state_def bt_get_modify settle_trace_def split: if_splits)

section \<open>Rounds\<close>

definition session_inv :: "RetrySession \<Rightarrow> bool" where
  "session_inv s \<longleftrightarrow> adm_inv (rs_admission s) \<and> idle (rs_admission s)"

lemma admit_opens_flight:
  assumes "adm_inv a" and "admit stage e t1 t2 a = (Ok p, a')"
  shows "flight_inv \<lparr>fl_admission = a', fl_journal = j, fl_permit = Some p, fl_sent = None\<rparr>
    \<and> extends a a'
    \<and> cr_admitted_attempts (aa_receipt a') = cr_admitted_attempts (aa_receipt a) + 1
    \<and> cr_admitted_attempts (aa_receipt a') \<le> ab_max_http_attempts (aa_budget a)"
  using assms(2)
proof (cases rule: admit_cases)
  case (granted q i)
  have n: "sat_add32 (cr_admitted_attempts (aa_receipt a)) 1 = cr_admitted_attempts (aa_receipt a) + 1"
    using granted(9) assms(1) by (intro sat_add32_exact) (auto simp: adm_inv_def budget_inv_def)
  have st: "attempt_state a' i = Some State_Admitted"
    by (simp add: attempt_state_def granted(12) bt_get_insert admitted_trace_def)
  have names: "names_attempt a' (pm_owner q) i (pm_stage q)"
    by (simp add: names_attempt_def granted(5,12) bt_get_insert admitted_trace_def)
  have "p = q" using granted(1) by simp
  with st names n granted(3,4,5,6,9,13,17) admit_inv [OF assms] admit_extends [OF assms(2)] show ?thesis
    by (simp add: flight_inv_def)
qed simp

lemma ends_err_fst: "ends_err k lt s = (x, s') \<Longrightarrow> s' = s \<and> (\<exists>err. x = Ends (Returned (Err err)))"
  by (auto simp: ends_err_def)

lemma schedule_retry_spec:
  assumes "schedule_retry ia t e s = (x, s')"
  shows "s' = s \<and> (x = Ends Dropped \<or> (\<exists>err. x = Ends (Returned (Err err)))
    \<or> x = Again e \<and> retryable (te_kind e) \<and> 0 < remaining_http_attempts (rs_admission s)
      \<and> (\<exists>delay. retry_delay e (cr_admitted_attempts (session_receipt s) - ia)
            (duration_from_millis (remaining_before_cleanup (rs_clock s) (tn_delay_at t)))
            (duration_from_millis (ab_min_attempt_reserve_ms (aa_budget (rs_admission s))))
            (tn_entropy t) = Ok delay
          \<and> wait_before_retry (rs_clock s) delay (tn_wait_from t) (tn_wait t) = Some (Ok ())))"
  using assms
  by (auto simp: schedule_retry_def ends_err_def split: if_splits result.splits option.splits)

lemma accept_response_spec:
  assumes "accept_response stage ia sat sel t rp s = (x, s')"
  shows "rs_admission s' = rs_admission s \<and> rs_clock s' = rs_clock s
    \<and> ((\<exists>err. x = Ends (Returned (Err err))) \<and> rs_wide s' = rs_wide s
       \<or> (\<exists>r. x = Ends (Returned (Ok r))
          \<and> sr_attempts r = cr_admitted_attempts (session_receipt s) - ia
          \<and> rs_wide s' = (if stage = Wide then Some (sr_model r) else rs_wide s)
          \<and> (if stage = Rerank then sr_pair_status r = MatchingUnpinnedIdentifiers
               \<and> (\<exists>w. rs_wide s = Some w \<and> mo_requested w = mo_requested (sr_model r)
                      \<and> mo_returned w = mo_returned (sr_model r))
             else sr_pair_status r = NotPaired)))"
  using assms
  by (auto simp: accept_response_def ends_err_def Let_def session_receipt_def
      split: if_splits option.splits)

abbreviation admitted_of :: "RetrySession \<Rightarrow> nat" where
  "admitted_of s \<equiv> cr_admitted_attempts (aa_receipt (rs_admission s))"

text \<open>The delay that was granted for a retry, and that the wait for it ended.\<close>

definition waited :: "u32 \<Rightarrow> turn \<Rightarrow> TransportError \<Rightarrow> RetrySession \<Rightarrow> bool" where
  "waited failures t e s \<longleftrightarrow>
     (\<exists>delay. retry_delay e failures
          (duration_from_millis (remaining_before_cleanup (rs_clock s) (tn_delay_at t)))
          (duration_from_millis (ab_min_attempt_reserve_ms (aa_budget (rs_admission s))))
          (tn_entropy t) = Ok delay
        \<and> wait_before_retry (rs_clock s) delay (tn_wait_from t) (tn_wait t) = Some (Ok ()))"

definition round_post ::
  "RankingStage \<Rightarrow> u32 \<Rightarrow> turn \<Rightarrow> RetrySession \<Rightarrow> round_end \<Rightarrow> RetrySession \<Rightarrow> bool" where
  "round_post stage ia t s x s' \<longleftrightarrow>
     (case x of
        Again e \<Rightarrow> admitted_of s' = admitted_of s + 1 \<and> 0 < remaining_http_attempts (rs_admission s')
          \<and> tn_authorized t \<and> tn_answer t = Some (Err e) \<and> retryable (te_kind e)
          \<and> waited (admitted_of s' - ia) t e s' \<and> rs_wide s' = rs_wide s
      | Ends Dropped \<Rightarrow> rs_wide s' = rs_wide s
      | Ends (Returned (Err _)) \<Rightarrow> rs_wide s' = rs_wide s
      | Ends (Returned (Ok r)) \<Rightarrow> admitted_of s' = admitted_of s + 1 \<and> tn_authorized t
          \<and> sr_attempts r = admitted_of s' - ia
          \<and> rs_wide s' = (if stage = Wide then Some (sr_model r) else rs_wide s)
          \<and> (if stage = Rerank then sr_pair_status r = MatchingUnpinnedIdentifiers
               \<and> (\<exists>w. rs_wide s = Some w \<and> mo_requested w = mo_requested (sr_model r)
                      \<and> mo_returned w = mo_returned (sr_model r))
             else sr_pair_status r = NotPaired))"

text \<open>What remains of a round once the attempt has settled: \<open>s2\<close> is the session then.\<close>

lemma settled_round_spec:
  assumes "session_inv s2" and "extends (rs_admission s) (rs_admission s2)"
    and "admitted_of s2 = admitted_of s + 1" and "rs_clock s2 = rs_clock s" and "rs_wide s2 = rs_wide s"
    and "tn_authorized t" and "tn_answer t = Some answer"
    and body: "(case acc of Err _ \<Rightarrow> ends_err Re_Accounting lt s2
              | Ok _ \<Rightarrow> (case answer of Ok rp \<Rightarrow> accept_response stage ia sat sel t rp s2
                        | Err e \<Rightarrow> schedule_retry ia t e s2)) = (x, s')"
  shows "session_inv s' \<and> rs_clock s' = rs_clock s \<and> extends (rs_admission s) (rs_admission s')
    \<and> admitted_of s' \<le> admitted_of s + 1 \<and> round_post stage ia t s x s'"
proof (cases acc)
  case (Err k)
  with assms show ?thesis by (auto simp: ends_err_def round_post_def)
next
  case acc: (Ok u')
  show ?thesis
  proof (cases answer)
    case (Ok rp)
    with body acc have "accept_response stage ia sat sel t rp s2 = (x, s')" by simp
    from accept_response_spec [OF this] assms(1-6) show ?thesis
      by (auto simp: round_post_def session_inv_def session_receipt_def)
  next
    case (Err e)
    with body acc have "schedule_retry ia t e s2 = (x, s')" by simp
    from schedule_retry_spec [OF this] assms(1-7) Err show ?thesis
      by (auto simp: round_post_def waited_def session_receipt_def)
  qed
qed

lemma admitted_round_spec:
  assumes "adm_inv (rs_admission s)" and "tn_authorized t"
    and "check_work (tn_cancelled t) (rs_clock s) (tn_check_at t) = Ok u"
    and "admit stage (rs_origin s) (tn_admit_at t) (tn_remaining_at t) (rs_admission s) = (Ok p, a)"
    and "round stage ia sat sel lt t s = (x, s')"
  shows "session_inv s' \<and> rs_clock s' = rs_clock s \<and> extends (rs_admission s) (rs_admission s')
    \<and> admitted_of s' \<le> admitted_of s + 1 \<and> round_post stage ia t s x s'"
proof -
  define j where "j = journal_push (JournalAdmitted (pm_attempt_id p) stage (pm_admitted_at p)) (rs_journal s)"
  define fl where "fl = \<lparr>fl_admission = a, fl_journal = j, fl_permit = Some p, fl_sent = None\<rparr>"
  obtain acc fl' where flew: "fly t fl = (acc, fl')" by (cases "fly t fl")
  note opened = admit_opens_flight [OF assms(1,4), of j, folded fl_def]
  note landed = fly_settles [OF conjunct1 [OF opened] flew]
  define s1 where "s1 = s\<lparr>rs_admission := fl_admission fl', rs_journal := fl_journal fl'\<rparr>"
  have s1: "session_inv s1" "extends (rs_admission s) (rs_admission s1)"
    "admitted_of s1 = admitted_of s + 1" "rs_clock s1 = rs_clock s" "rs_wide s1 = rs_wide s"
    using landed opened
    by (auto simp: s1_def session_inv_def fl_def same_attempts_def intro: extends_trans)
  show ?thesis
  proof (cases "tn_answer t")
    case None
    have "x = Ends Dropped" "s' = s1"
      using assms(2-5) flew None
      by (simp_all add: round_def Let_def fl_def [symmetric] j_def [symmetric] s1_def [symmetric])
    with s1 show ?thesis by (simp add: round_post_def)
  next
    case (Some answer)
    define s2 where "s2 = s1\<lparr>rs_settled := rs_settled s1 @ [map_ok (\<lambda>_. ()) answer]\<rparr>"
    have s2: "session_inv s2" "extends (rs_admission s) (rs_admission s2)"
      "admitted_of s2 = admitted_of s + 1" "rs_clock s2 = rs_clock s" "rs_wide s2 = rs_wide s"
      using s1 by (simp_all add: s2_def session_inv_def)
    show ?thesis
      by (rule settled_round_spec [OF s2 assms(2) Some, where acc = acc and lt = lt and stage = stage
            and ia = ia and sat = sat and sel = sel])
        (unfold s2_def s1_def, use assms(2-5) flew Some in
          \<open>simp add: round_def Let_def fl_def [symmetric] j_def [symmetric]\<close>)
  qed
qed

lemma round_spec:
  assumes "session_inv s" and "round stage ia sat sel lt t s = (x, s')"
  shows "session_inv s' \<and> rs_clock s' = rs_clock s \<and> extends (rs_admission s) (rs_admission s')
    \<and> admitted_of s' \<le> admitted_of s + 1 \<and> round_post stage ia t s x s'"
proof -
  have inv: "adm_inv (rs_admission s)" using assms(1) by (simp add: session_inv_def)
  have stop: ?thesis if "ends_err k lt s = (x, s')" for k
    using that assms(1) by (auto simp: ends_err_def round_post_def)
  obtain ar a where adm: "admit stage (rs_origin s) (tn_admit_at t) (tn_remaining_at t)
      (rs_admission s) = (ar, a)"
    by (cases "admit stage (rs_origin s) (tn_admit_at t) (tn_remaining_at t) (rs_admission s)")
  consider (check) k where "check_work (tn_cancelled t) (rs_clock s) (tn_check_at t) = Err k"
    | (auth) u where "check_work (tn_cancelled t) (rs_clock s) (tn_check_at t) = Ok u" "\<not> tn_authorized t"
    | (refused) u k where "check_work (tn_cancelled t) (rs_clock s) (tn_check_at t) = Ok u"
        "tn_authorized t" "ar = Err k"
    | (granted) u p where "check_work (tn_cancelled t) (rs_clock s) (tn_check_at t) = Ok u"
        "tn_authorized t" "ar = Ok p"
    by (cases "check_work (tn_cancelled t) (rs_clock s) (tn_check_at t)"; cases ar) auto
  then show ?thesis
  proof cases
    case check
    with assms(2) show ?thesis by (intro stop) (simp add: round_def)
  next
    case auth
    with assms(2) show ?thesis by (intro stop) (simp add: round_def)
  next
    case refused
    with adm have "a = rs_admission s" by (auto elim: admit_cases)
    with refused adm assms(2) show ?thesis by (intro stop) (simp add: round_def)
  next
    case granted
    with adm show ?thesis by (intro admitted_round_spec [OF inv _ _ _ assms(2)]) simp_all
  qed
qed

section \<open>Calls\<close>

text \<open>
  What a call that has ended did: it used a prefix of the turns; every turn but the last was an
  authorized attempt that failed transiently and was waited for.
\<close>

definition retried :: "turn \<Rightarrow> bool" where
  "retried t \<longleftrightarrow> tn_authorized t \<and> (\<exists>e. tn_answer t = Some (Err e) \<and> retryable (te_kind e)
     \<and> te_retry_after e \<noteq> RetryInvalid)"

lemma waited_not_invalid: "waited n t e s \<Longrightarrow> te_retry_after e \<noteq> RetryInvalid"
  by (cases "retryable (te_kind e)") (auto simp: waited_def retry_delay_def)

definition loop_post ::
  "RankingStage \<Rightarrow> u32 \<Rightarrow> turn list \<Rightarrow> RetrySession \<Rightarrow> stage_end \<Rightarrow> RetrySession \<Rightarrow> turn list \<Rightarrow> bool" where
  "loop_post stage ia ts s r s' rest \<longleftrightarrow>
     session_inv s' \<and> rs_clock s' = rs_clock s \<and> extends (rs_admission s) (rs_admission s')
   \<and> (\<exists>used final. ts = used @ final # rest \<and> list_all retried used
        \<and> admitted_of s + length used \<le> admitted_of s' \<and> admitted_of s' \<le> admitted_of s + length used + 1
        \<and> (case r of
             Returned (Ok sr) \<Rightarrow> tn_authorized final
               \<and> admitted_of s' = admitted_of s + length used + 1 \<and> sr_attempts sr = admitted_of s' - ia
               \<and> rs_wide s' = (if stage = Wide then Some (sr_model sr) else rs_wide s)
               \<and> (if stage = Rerank then sr_pair_status sr = MatchingUnpinnedIdentifiers
                    \<and> (\<exists>w. rs_wide s = Some w \<and> mo_requested w = mo_requested (sr_model sr)
                           \<and> mo_returned w = mo_returned (sr_model sr))
                  else sr_pair_status sr = NotPaired)
           | _ \<Rightarrow> rs_wide s' = rs_wide s))"

lemma round_admitted_mono: "extends a a' \<Longrightarrow> adm_inv a \<Longrightarrow> adm_inv a' \<Longrightarrow>
    cr_admitted_attempts (aa_receipt a) \<le> cr_admitted_attempts (aa_receipt a')"
proof -
  assume ext: "extends a a'" and inv: "adm_inv a" "adm_inv a'"
  have "set (bt_keys (aa_issued_attempt_ids a)) \<subseteq> set (bt_keys (aa_issued_attempt_ids a'))"
  proof
    fix k assume "k \<in> set (bt_keys (aa_issued_attempt_ids a))"
    then obtain tr where "bt_get (aa_issued_attempt_ids a) k = Some tr"
      using bt_get_None_iff [of "aa_issued_attempt_ids a" k] by auto
    with ext obtain tr' where "bt_get (aa_issued_attempt_ids a') k = Some tr'"
      unfolding extends_def by blast
    then show "k \<in> set (bt_keys (aa_issued_attempt_ids a'))"
      using bt_get_None_iff [of "aa_issued_attempt_ids a'" k] by auto
  qed
  then have "card (set (bt_keys (aa_issued_attempt_ids a))) \<le> card (set (bt_keys (aa_issued_attempt_ids a')))"
    by (intro card_mono) simp_all
  with inv show ?thesis by (simp add: adm_inv_def ids_inv_def card_image inj_on_def)
qed

lemma send_loop_spec:
  assumes "session_inv s" and "send_loop stage ia sat sel lt ts s = Some (r, s', rest)"
  shows "loop_post stage ia ts s r s' rest"
  using assms
proof (induction ts arbitrary: s lt)
  case Nil
  then show ?case by simp
next
  case (Cons t ts)
  obtain x s1 where rd: "round stage ia sat sel lt t s = (x, s1)"
    by (cases "round stage ia sat sel lt t s")
  note post = round_spec [OF Cons.prems(1) rd]
  show ?case
  proof (cases x)
    case (Ends r')
    with Cons.prems rd have eq: "r' = r" "s1 = s'" "ts = rest" by auto
    have "admitted_of s \<le> admitted_of s'"
      using post Cons.prems(1) eq by (auto simp: session_inv_def intro: round_admitted_mono)
    with post eq Ends show ?thesis
      unfolding loop_post_def
      by (intro conjI exI [of _ "[]"] exI [of _ t])
        (auto simp: round_post_def split: stage_end.splits result.splits)
  next
    case (Again e)
    with Cons.prems rd have "send_loop stage ia sat sel (Some e) ts s1 = Some (r, s', rest)" by simp
    with post have "loop_post stage ia ts s1 r s' rest" by (intro Cons.IH) auto
    then obtain used final where used: "ts = used @ final # rest" "list_all retried used"
      and rest: "loop_post stage ia ts s1 r s' rest"
      by (auto simp: loop_post_def)
    have "retried t"
      using post Again by (auto simp: round_post_def retried_def dest: waited_not_invalid)
    with rest post Again show ?thesis
      unfolding loop_post_def
      by (elim conjE exE, intro conjI) (auto simp: round_post_def intro: extends_trans
          intro!: exI [of _ "t # _"] split: stage_end.splits result.splits)
  qed
qed

record stage_call =
  sc_stage :: RankingStage
  sc_model :: str
  sc_started_at :: SystemTime
  sc_now :: MonotonicMillis
  sc_turns :: "turn list"

definition session_step :: "stage_call \<Rightarrow> RetrySession \<Rightarrow> RetrySession" where
  "session_step c s =
     (case send_stage_observed (sc_stage c) (sc_model c) (sc_started_at c) (sc_now c) (sc_turns c) s of
        Some (_, s', _) \<Rightarrow> s'
      | None \<Rightarrow> s)"

text \<open>A session an invocation can be in between two calls.\<close>

definition session_reachable :: "AttemptBudget \<Rightarrow> RetrySession \<Rightarrow> bool" where
  "session_reachable budget s \<longleftrightarrow>
     (\<exists>client_origin production credential clock inv_id own s0 calls.
        retry_session_new client_origin production credential clock budget inv_id own = Ok s0
      \<and> ab_max_http_attempts budget \<le> U32_MAX \<and> ab_max_logical_requests budget \<le> U32_MAX
      \<and> (s = run session_step calls s0 \<or> s = run session_step calls (with_journal s0)))"

lemma send_stage_spec:
  assumes "session_inv s" and "send_stage_observed stage model sat now ts s = Some (r, s', rest)"
  shows "(\<exists>err. r = Returned (Err err) \<and> re_kind err = Re_ModelPairMismatch) \<and> s' = s \<and> rest = ts
    \<or> loop_post stage (admitted_of s) ts s r s' rest
      \<and> (stage = Rerank \<longrightarrow> (\<forall>w. rs_wide s = Some w \<longrightarrow> mo_requested w = model))"
  using assms send_loop_spec
  by (fastforce simp: send_stage_observed_def session_error_def session_receipt_def
      split: if_splits option.splits)

lemma session_step_inv: "session_inv s \<Longrightarrow> session_inv (session_step c s)"
  using send_stage_spec
  by (fastforce simp: session_step_def loop_post_def split: option.splits)

lemma session_step_extends: "session_inv s \<Longrightarrow> extends (rs_admission s) (rs_admission (session_step c s))"
  using send_stage_spec
  by (fastforce simp: session_step_def loop_post_def split: option.splits)

interpretation session: machine_invariant session_step "\<lambda>_. True" session_inv
  by unfold_locales (rule session_step_inv)

interpretation session_from: machine_invariant session_step "\<lambda>_. True"
  "\<lambda>s. session_inv s \<and> extends a0 (rs_admission s)"
  by unfold_locales (blast intro: session_step_inv session_step_extends extends_trans)

lemma session_new_inv:
  assumes "retry_session_new co pr cr clock budget inv_id own = Ok s"
    and "ab_max_http_attempts budget \<le> U32_MAX" and "ab_max_logical_requests budget \<le> U32_MAX"
  shows "session_inv s \<and> aa_budget (rs_admission s) = budget"
proof -
  from assms(1) have new: "admission_new budget clock inv_id own = Ok (rs_admission s)"
    by (auto simp: retry_session_new_def)
  then have own: "aa_owner (rs_admission s) = own" and bud: "aa_budget (rs_admission s) = budget"
    and none: "aa_issued_attempt_ids (rs_admission s) = []"
    using admission_new_Ok [OF new] by simp_all
  have "adm_start budget clock inv_id \<lparr>w_adm = rs_admission s, w_permits = [], w_sent = [], w_discarded = []\<rparr>"
    using new own by (simp add: adm_start_def)
  from start_inv [OF this assms(2,3)] none bud show ?thesis
    by (simp add: session_inv_def world_inv_def idle_def bt.tally_def)
qed

lemma reachable_session:
  assumes "session_reachable budget s"
  shows "session_inv s \<and> aa_budget (rs_admission s) = budget"
proof -
  from assms obtain co pr cr clock inv_id own s0 s1 calls where
    new: "retry_session_new co pr cr clock budget inv_id own = Ok s0"
    and lim: "ab_max_http_attempts budget \<le> U32_MAX" "ab_max_logical_requests budget \<le> U32_MAX"
    and s1: "s1 = s0 \<or> s1 = with_journal s0" and s: "s = run session_step calls s1"
    unfolding session_reachable_def by blast
  have "session_inv s1 \<and> rs_admission s1 = rs_admission s0" "aa_budget (rs_admission s0) = budget"
    using session_new_inv [OF new lim] s1 by (auto simp: session_inv_def with_journal_def)
  then have "session_inv s \<and> extends (rs_admission s0) (rs_admission s)"
    using session_from.run_inv [where ?a0.0 = "rs_admission s0" and s = s1 and xs = calls] s by (simp add: list_all_iff)
  with \<open>aa_budget (rs_admission s0) = budget\<close> show ?thesis by (simp add: extends_def)
qed

lemma send_loop_ends:
  assumes "session_inv s"
    and "ts \<noteq> []" and "ab_max_http_attempts (aa_budget (rs_admission s)) - admitted_of s \<le> length ts"
  shows "\<exists>r s' rest. send_loop stage ia sat sel lt ts s = Some (r, s', rest)"
  using assms
proof (induction ts arbitrary: s lt)
  case Nil
  then show ?case by simp
next
  case (Cons t ts)
  obtain x s1 where rd: "round stage ia sat sel lt t s = (x, s1)"
    by (cases "round stage ia sat sel lt t s")
  note post = round_spec [OF Cons.prems(1) rd]
  show ?case
  proof (cases x)
    case (Ends r)
    with rd show ?thesis by simp
  next
    case (Again e)
    have bud: "aa_budget (rs_admission s1) = aa_budget (rs_admission s)"
      using post by (simp add: extends_def)
    have next_round: "admitted_of s1 = admitted_of s + 1"
      "admitted_of s1 < ab_max_http_attempts (aa_budget (rs_admission s))"
      using post Again bud by (auto simp: round_post_def remaining_http_attempts_def)
    with Cons.prems(3) have "ts \<noteq> []" by auto
    with next_round Cons.prems(3) bud post
    have "\<exists>r s' rest. send_loop stage ia sat sel (Some e) ts s1 = Some (r, s', rest)"
      by (intro Cons.IH) auto
    with rd Again show ?thesis by simp
  qed
qed

section \<open>Properties\<close>

text \<open>
  C37. A stage call always ends. Whatever the transport, the clock and the caller do, a call on a
  reachable session returns or is dropped after at most as many rounds as HTTP attempts are left
  (one round when none is), so the loop cannot run forever.
\<close>

theorem send_stage_terminates:
  assumes "session_reachable budget s" and "turns \<noteq> []"
    and "remaining_http_attempts (rs_admission s) \<le> length turns"
  shows "\<exists>r s' rest. send_stage_observed stage model started_at now turns s = Some (r, s', rest)"
proof -
  have "session_inv s" using reachable_session [OF assms(1)] by simp
  from send_loop_ends [OF this assms(2)] assms(3) show ?thesis
    by (simp add: send_stage_observed_def remaining_http_attempts_def)
qed

text \<open>
  Every attempt is accounted for between calls. In every reachable session, including after
  futures dropped in flight, no attempt is left active: an attempt that reached the wire is either
  completed with known usage or counted as unknown cost, and one that did not is discarded at no cost.
\<close>

theorem every_attempt_is_settled:
  assumes "session_reachable budget s" and "p \<in> set (admission_attempts (rs_admission s))"
  shows "(if ap_sent_at p = None then ap_outcome p = Out_Discarded
          else ap_outcome p = Out_Completed \<and> ap_usage p \<noteq> None
             \<or> ap_outcome p = Out_Failed \<and> ap_failure p \<noteq> None)
    \<and> cr_unknown_usage_attempts (session_receipt s)
        = length (filter (\<lambda>q. ap_sent_at q \<noteq> None \<and> ap_usage q = None) (admission_attempts (rs_admission s)))"
proof -
  let ?a = "rs_admission s"
  have inv: "ids_inv ?a" "cost_inv ?a" "idle ?a"
    using reachable_session [OF assms(1)] by (simp_all add: session_inv_def adm_inv_def)
  have settled: "trace_ok tr \<and> \<not> tr_active tr" if "tr \<in> set (bt_values (aa_issued_attempt_ids ?a))" for tr
    using that inv(3) values_trace_ok [OF inv(1)] by (auto simp: idle_def bt.tally_def filter_empty_conv)
  have failed: "tr_outcome tr = Out_Failed \<longleftrightarrow>
      ap_sent_at (tr_provenance tr) \<noteq> None \<and> ap_usage (tr_provenance tr) = None"
    if "tr \<in> set (bt_values (aa_issued_attempt_ids ?a))" for tr
    using settled [OF that] by (auto simp: trace_ok_def tr_active_def Let_def split: AttemptOutcome.splits)
  from assms(2) obtain tr where "tr \<in> set (bt_values (aa_issued_attempt_ids ?a))" "p = tr_provenance tr"
    by (auto simp: admission_attempts_def)
  with settled [of tr] have "if ap_sent_at p = None then ap_outcome p = Out_Discarded
      else ap_outcome p = Out_Completed \<and> ap_usage p \<noteq> None \<or> ap_outcome p = Out_Failed \<and> ap_failure p \<noteq> None"
    by (auto simp: trace_ok_def tr_active_def Let_def split: AttemptOutcome.splits)
  moreover have "cr_unknown_usage_attempts (session_receipt s)
      = length (filter (\<lambda>q. ap_sent_at q \<noteq> None \<and> ap_usage q = None) (admission_attempts ?a))"
    using inv(2) bt.tally_cong [of "aa_issued_attempt_ids ?a", OF failed]
    unfolding attempts_tally [of "\<lambda>q. ap_sent_at q \<noteq> None \<and> ap_usage q = None", symmetric]
    by (simp add: cost_inv_def Let_def session_receipt_def)
  ultimately show ?thesis by blast
qed

text \<open>
  Retries happen only after transient failures. When a call that admitted anything ends, every
  round it used but the last was separately authorized and ended in a retryable transport failure
  whose \<open>Retry-After\<close> was usable; each round admitted at most one attempt, the invocation's
  budget is kept, and a returned response counts exactly the attempts of this call.
\<close>

theorem retries_follow_transient_failures:
  assumes "session_reachable budget s"
    and "send_stage_observed stage model started_at now turns s = Some (r, s', rest)"
    and "admitted_of s < admitted_of s'"
  shows "\<exists>used final. turns = used @ final # rest \<and> list_all retried used
    \<and> admitted_of s' \<le> admitted_of s + length used + 1
    \<and> admitted_of s' \<le> ab_max_http_attempts budget
    \<and> (\<forall>sr. r = Returned (Ok sr) \<longrightarrow> sr_attempts sr = length used + 1)"
proof -
  have inv: "session_inv s" "aa_budget (rs_admission s) = budget"
    using reachable_session [OF assms(1)] by simp_all
  from send_stage_spec [OF inv(1) assms(2)] assms(3)
  have post: "loop_post stage (admitted_of s) turns s r s' rest" by auto
  then have "admitted_of s' \<le> ab_max_http_attempts budget"
    using inv(2) by (auto simp: loop_post_def session_inv_def adm_inv_def budget_inv_def extends_def)
  with post show ?thesis
    unfolding loop_post_def by (elim conjE exE) (auto split: stage_end.splits result.splits)
qed

text \<open>
  A rerank response is only ever returned for the model the wide stage used: the wide response
  exists, it was requested with the model of this request, and both the requested and the returned
  identifiers of the two responses agree; any other stage is reported as not paired.
\<close>

theorem rerank_pairs_wide_model:
  assumes "session_reachable budget s"
    and "send_stage_observed stage model started_at now turns s = Some (Returned (Ok r), s', rest)"
  shows "if stage = Rerank
    then sr_pair_status r = MatchingUnpinnedIdentifiers
      \<and> (\<exists>wide. rs_wide s = Some wide \<and> rs_wide s' = Some wide \<and> mo_requested wide = model
           \<and> mo_requested (sr_model r) = model \<and> mo_returned (sr_model r) = mo_returned wide)
    else sr_pair_status r = NotPaired
      \<and> rs_wide s' = (if stage = Wide then Some (sr_model r) else rs_wide s)"
proof -
  have "session_inv s" using reachable_session [OF assms(1)] by simp
  from send_stage_spec [OF this assms(2)]
  have "loop_post stage (admitted_of s) turns s (Returned (Ok r)) s' rest"
    and "stage = Rerank \<longrightarrow> (\<forall>w. rs_wide s = Some w \<longrightarrow> mo_requested w = model)" by auto
  then show ?thesis
    unfolding loop_post_def by (elim conjE exE) (auto split: if_splits)
qed

text \<open>
  A granted delay is honest and fits. It is granted only for transient failures with usable
  metadata, it is never shorter than the provider's \<open>Retry-After\<close> or the backoff and at most
  fifty milliseconds longer than the larger of them, and at every clock reading up to its end the
  invocation still admits new work with the minimum attempt reserve left.
\<close>

theorem retry_delay_sound:
  assumes "deadline_ok clock" and "is_ok (admit_new_work clock t)"
    and "retry_delay e failures (duration_from_millis (remaining_before_cleanup clock t))
           (duration_from_millis reserve) entropy = Ok delay"
    and "t \<le> u" and "duration_from_millis (u - t) \<le> delay"
  shows "retryable (te_kind e)
    \<and> (\<exists>provider. provider_delay (te_retry_after e) = Some provider \<and> provider \<le> delay
         \<and> duration_from_millis (backoff_ms failures) \<le> delay
         \<and> delay \<le> max provider (duration_from_millis 800) + duration_from_millis 50)
    \<and> is_ok (admit_new_work clock u) \<and> reserve \<le> remaining_before_cleanup clock u"
proof -
  from assms(3) obtain provider where p: "retryable (te_kind e)"
    "provider_delay (te_retry_after e) = Some provider"
    "delay = max provider (duration_from_millis (backoff_ms failures)) + duration_from_millis (entropy mod 51)"
    "delay + duration_from_millis reserve < duration_from_millis (remaining_before_cleanup clock t)"
    by (auto simp: retry_delay_cases Let_def split: if_splits option.splits)
  have "duration_from_millis (entropy mod 51) \<le> duration_from_millis 50"
    by (simp add: duration_from_millis_def)
  moreover have "duration_from_millis (backoff_ms failures) \<le> duration_from_millis 800"
    using backoff_bounds [of failures] by (simp add: duration_from_millis_def)
  ultimately have bounds: "provider \<le> delay" "duration_from_millis (backoff_ms failures) \<le> delay"
    "delay \<le> max provider (duration_from_millis 800) + duration_from_millis 50"
    using p(3) by auto
  have later: "remaining_before_cleanup clock u = remaining_before_cleanup clock t - (u - t)"
    by (rule entry_window.remaining_later [OF assms(1,2,4)])
  have "(u - t) + reserve < remaining_before_cleanup clock t"
    using assms(5) p(4) by (simp add: duration_from_millis_def)
  then have "0 < remaining_before_cleanup clock u" "reserve \<le> remaining_before_cleanup clock u"
    using later by simp_all
  with entry_window.remaining_zero [OF assms(1)] p(1,2) bounds show ?thesis by blast
qed

section \<open>A concrete session\<close>

definition rt_demo :: RetrySession where
  "rt_demo = \<lparr>rs_origin = [111], rs_credential = None, rs_clock = adm_demo_clock,
     rs_admission = w_adm adm_demo, rs_wide = None, rs_last_model = None, rs_journal = None,
     rs_settled = []\<rparr>"

definition rt_demo_error :: TransportError where
  "rt_demo_error = \<lparr>te_kind = HttpStatus 503, te_http_attempt_started = True,
     te_retry_after = Delay (duration_from_millis 200)\<rparr>"

text \<open>A first turn that fails with status 503 and is retried, and a second one that succeeds.\<close>

definition rt_demo_turn :: turn where
  "rt_demo_turn = \<lparr>tn_cancelled = False, tn_check_at = 10, tn_authorized = True, tn_admit_at = 11,
     tn_remaining_at = 11, tn_start_times = [12], tn_answer = Some (Err rt_demo_error),
     tn_finish_at = 300, tn_received_wall = 0, tn_received_at = 300, tn_delay_at = 301, tn_entropy = 7,
     tn_wait_from = 0,
     tn_wait = [\<lparr>wr_cancelled = False, wr_now = 600, wr_instant = 300000000\<rparr>]\<rparr>"

definition rt_demo_response :: JevResponse where
  "rt_demo_response = \<lparr>rp_requested_model = [109], rp_returned_model = [109],
     rp_usage = \<lparr>us_input_tokens = 30, us_output_tokens = 5\<rparr>\<rparr>"

definition rt_demo_turns :: "turn list" where
  "rt_demo_turns = [rt_demo_turn,
     rt_demo_turn\<lparr>tn_check_at := 610, tn_admit_at := 611, tn_remaining_at := 611,
       tn_start_times := [612], tn_finish_at := 900, tn_received_at := 900,
       tn_answer := Some (Ok rt_demo_response)\<rparr>]"

lemma rt_demo_new:
  "retry_session_new (Some [111]) [] None adm_demo_clock attempt_budget_default [105] 7 = Ok rt_demo"
  by (simp add: retry_session_new_def rt_demo_def admission_new_def adm_demo_def trim_str_def
      trim_start_def is_whitespace_def)

lemma rt_demo_reachable: "session_reachable attempt_budget_default rt_demo"
proof -
  note rt_demo_new
  moreover have "rt_demo = run session_step [] rt_demo" by simp
  ultimately show ?thesis
    unfolding session_reachable_def using adm_demo_budget by blast
qed

lemmas rt_eval = rt_demo_def rt_demo_turn_def rt_demo_turns_def rt_demo_error_def rt_demo_response_def
  round_def check_work_def fly_def flight_start_def flight_finish_def flight_drop_def journal_push_def
  attempt_failure_def from_transport_def record_terminal_failure_def record_terminal_error_def
  schedule_retry_def accept_response_def ends_err_def session_receipt_def remaining_http_attempts_def
  wait_before_retry_def INSTANT_MAX_def I64_MAX_def retry_delay_def backoff_ms_def
  duration_from_millis_def duration_checked_add_def DURATION_MAX_def

lemma rt_demo_call:
  "\<exists>r s'. send_stage_observed Wide [109] 0 9 rt_demo_turns rt_demo = Some (Returned (Ok r), s', [])
     \<and> admitted_of s' = 2
     \<and> length (admission_attempts (rs_admission s')) = 2
     \<and> cr_unknown_usage_attempts (session_receipt s') = 1"
  by (simp add: send_stage_observed_def rt_eval adm_eval admission_attempts_def single_digits_ordered)

theorem send_stage_terminates_witness:
  "\<exists>r s' rest. send_stage_observed Wide [109] 0 9 (replicate 4 rt_demo_turn) rt_demo = Some (r, s', rest)"
  by (rule send_stage_terminates [OF rt_demo_reachable])
    (simp_all add: remaining_http_attempts_def rt_demo_def adm_demo_def attempt_budget_default_def
      DEFAULT_HTTP_ATTEMPTS_def)

theorem every_attempt_is_settled_witness:
  "\<exists>s p. session_reachable attempt_budget_default s \<and> p \<in> set (admission_attempts (rs_admission s))
     \<and> (ap_sent_at p \<noteq> None \<longrightarrow> ap_outcome p \<in> {Out_Completed, Out_Failed})"
proof -
  define c where "c = \<lparr>sc_stage = Wide, sc_model = [109], sc_started_at = 0, sc_now = 9, sc_turns = rt_demo_turns\<rparr>"
  from rt_demo_call obtain r s' where
    s': "send_stage_observed Wide [109] 0 9 rt_demo_turns rt_demo = Some (Returned (Ok r), s', [])"
    "length (admission_attempts (rs_admission s')) = 2" by blast
  then have step: "session_step c rt_demo = s'" by (simp add: session_step_def c_def)
  have "retry_session_new (Some [111]) [] None adm_demo_clock attempt_budget_default [105] 7 = Ok rt_demo"
    by (rule rt_demo_new)
  moreover have "s' = run session_step [c] rt_demo" using step by simp
  ultimately have reach: "session_reachable attempt_budget_default s'"
    unfolding session_reachable_def using adm_demo_budget by blast
  obtain p where p: "p \<in> set (admission_attempts (rs_admission s'))"
    using s'(2) by (cases "admission_attempts (rs_admission s')") auto
  with every_attempt_is_settled [OF reach p] reach show ?thesis
    by (intro exI [of _ s'] exI [of _ p]) (auto split: if_splits)
qed

theorem retries_follow_transient_failures_witness:
  "\<exists>used final. rt_demo_turns = used @ [final] \<and> list_all retried used \<and> used \<noteq> []"
proof -
  from rt_demo_call obtain r s' where
    s': "send_stage_observed Wide [109] 0 9 rt_demo_turns rt_demo = Some (Returned (Ok r), s', [])"
    "admitted_of s' = 2" by blast
  have "admitted_of rt_demo = 0" by (simp add: rt_demo_def adm_demo_def cost_receipt_new_def)
  with retries_follow_transient_failures [OF rt_demo_reachable s'(1)] s'(2)
  show ?thesis by (force simp: rt_demo_turns_def)
qed

theorem rerank_pairs_wide_model_witness:
  "\<exists>r s'. send_stage_observed Wide [109] 0 9 rt_demo_turns rt_demo = Some (Returned (Ok r), s', [])
     \<and> sr_pair_status r = NotPaired \<and> rs_wide s' = Some (sr_model r)"
proof -
  from rt_demo_call obtain r s' where
    s': "send_stage_observed Wide [109] 0 9 rt_demo_turns rt_demo = Some (Returned (Ok r), s', [])" by blast
  with rerank_pairs_wide_model [OF rt_demo_reachable s'] show ?thesis by auto
qed

theorem retry_delay_sound_witness:
  "retry_delay rt_demo_error 1 (duration_from_millis (remaining_before_cleanup adm_demo_clock 301))
     (duration_from_millis 50) 7 = Ok (duration_from_millis 207)
   \<and> 50 \<le> remaining_before_cleanup adm_demo_clock 508"
proof -
  have d: "retry_delay rt_demo_error 1 (duration_from_millis (remaining_before_cleanup adm_demo_clock 301))
     (duration_from_millis 50) 7 = Ok (duration_from_millis 207)"
    by (simp add: rt_eval adm_eval)
  have "deadline_ok adm_demo_clock" "is_ok (admit_new_work adm_demo_clock 301)"
    by (simp_all add: adm_eval)
  from retry_delay_sound [OF this d, of 508] d show ?thesis by (simp add: duration_from_millis_def)
qed

end
