(* ===== verification/Allowance.thy ===== *)
theory Allowance
  imports Admission
begin

text \<open>
  Model of \<open>src/src/allowance.rs\<close>: the optional request allowance shared by all local processes.
  The world holds the two stores no transaction spans: the guard file and the accounting database.
  \<open>apply_setup\<close> moves both through its durable steps, \<open>allowance_admit\<close> debits one attempt.
  Both run under the guard's file lock, so each is one atomic step of the world.

  File system and SQLite calls are \<open>allow_env\<close>: at each named point of the code a call may fail
  with the error it reports (\<open>e_fault\<close>), which also stands for a crash there. A failing rename or
  commit may have taken effect or not (\<open>e_lands\<close>). The remaining fields are the wall clock and
  the parts of the attempt identifier.
\<close>

section \<open>Constants and the guard\<close>

definition MAX_ATTEMPTS_LIMIT :: u32 where "MAX_ATTEMPTS_LIMIT = 10000"
definition WINDOW_MS :: u64 where "WINDOW_MS = 3600000"
definition GUARD_SCHEMA_VERSION :: u32 where "GUARD_SCHEMA_VERSION = 1"
definition ACCOUNTING_SCHEMA_VERSION :: i64 where "ACCOUNTING_SCHEMA_VERSION = 1"
definition RETAINED_WINDOWS :: u64 where "RETAINED_WINDOWS = 24"
definition WINDOW_TEXT :: string where "WINDOW_TEXT = ''1h''"

datatype AllowanceError =
    AllowanceState string
  | Exhausted u32 u64
  | InvalidAllowanceRequest string

datatype GuardPhase = Intent | Ready

fun phase_as_str :: "GuardPhase \<Rightarrow> string" where
  "phase_as_str Intent = ''intent''"
| "phase_as_str Ready = ''ready''"

record Guard =
  gd_phase :: GuardPhase
  gd_generation :: u64
  gd_max_attempts :: u32

text \<open>The fields of the strict TOML record, after the library has parsed the text.\<close>

record GuardRecord =
  gr_schema_version :: u32
  gr_state :: string
  gr_generation :: u64
  gr_max_attempts :: u32
  gr_window :: string

definition guard_decode :: "GuardRecord \<Rightarrow> (Guard, AllowanceError) result" where
  "guard_decode r =
     (if gr_state r \<noteq> ''intent'' \<and> gr_state r \<noteq> ''ready''
      then Err (AllowanceState ''the guard file names an unknown state'')
      else if gr_schema_version r \<noteq> GUARD_SCHEMA_VERSION \<or> gr_window r \<noteq> WINDOW_TEXT
           \<or> gr_generation r = 0 \<or> int (gr_generation r) > I64_MAX
           \<or> \<not> (1 \<le> gr_max_attempts r \<and> gr_max_attempts r \<le> MAX_ATTEMPTS_LIMIT)
      then Err (AllowanceState ''the guard file is outside its supported schema'')
      else Ok \<lparr>gd_phase = (if gr_state r = ''intent'' then Intent else Ready),
               gd_generation = gr_generation r, gd_max_attempts = gr_max_attempts r\<rparr>)"

definition guard_encode :: "Guard \<Rightarrow> GuardRecord" where
  "guard_encode g =
     \<lparr>gr_schema_version = GUARD_SCHEMA_VERSION, gr_state = phase_as_str (gd_phase g),
      gr_generation = gd_generation g, gr_max_attempts = gd_max_attempts g,
      gr_window = WINDOW_TEXT\<rparr>"

definition parse_window :: "string \<Rightarrow> (u64, AllowanceError) result" where
  "parse_window s =
     (if s = WINDOW_TEXT then Ok WINDOW_MS
      else Err (InvalidAllowanceRequest (''--window '' @ s @ '' is unsupported'')))"

text \<open>The fixed UTC window that contains a time; the end wraps like a plain \<open>u64\<close> addition.\<close>

definition window_bounds :: "u64 \<Rightarrow> u64 \<times> u64" where
  "window_bounds now =
     (let start = now - now mod WINDOW_MS in (start, wrapping_add64 start WINDOW_MS))"

section \<open>Accounting\<close>

type_synonym origin = str

record AttemptRow =
  at_attempt_id :: string
  at_origin :: origin
  at_window_start :: i64
  at_guard_generation :: i64
  at_stage :: string
  at_charged_at :: i64

record Accounting =
  ac_schema_version :: i64
  ac_ready_generation :: i64
  ac_last_charge :: i64
  ac_charges :: "(origin \<times> i64) \<rightharpoonup> i64"
  ac_attempts :: "AttemptRow list"

text \<open>\<open>as i64\<close> of an unsigned 64-bit value.\<close>

definition as_i64 :: "u64 \<Rightarrow> i64" where
  "as_i64 n = (if int n \<le> I64_MAX then int n else int n - (int U64_MAX + 1))"

text \<open>
  The reading of the metadata row. A database without any object is uninitialized; identity and
  schema mismatches are faults of the environment.
\<close>

definition read_meta :: "Accounting option \<Rightarrow> ((i64 \<times> u64 \<times> u64) option, AllowanceError) result" where
  "read_meta acc =
     (case acc of
        None \<Rightarrow> Ok None
      | Some a \<Rightarrow>
        if ac_schema_version a \<noteq> ACCOUNTING_SCHEMA_VERSION \<or> ac_ready_generation a \<le> 0 \<or> ac_last_charge a < 0
        then Err (AllowanceState ''the accounting metadata is outside its supported schema'')
        else Ok (Some (ac_schema_version a, nat (ac_ready_generation a), nat (ac_last_charge a))))"

definition charged :: "Accounting \<Rightarrow> origin \<Rightarrow> u64 \<Rightarrow> (u32, AllowanceError) result" where
  "charged a origin window_start =
     (if int window_start > I64_MAX
      then Err (AllowanceState ''the accounting window is outside its supported range'')
      else let attempts = (case ac_charges a (origin, int window_start) of Some n \<Rightarrow> n | None \<Rightarrow> 0) in
        if 0 \<le> attempts \<and> attempts \<le> int U32_MAX then Ok (nat attempts)
        else Err (AllowanceState ''the stored attempt count is invalid''))"

text \<open>
  \<open>verified_charged\<close> counts receipts up to one more than the stored total. Its check that a
  transaction is open holds at both call sites.
\<close>

definition receipts :: "Accounting \<Rightarrow> origin \<Rightarrow> i64 \<Rightarrow> AttemptRow list" where
  "receipts a origin ws = filter (\<lambda>r. at_origin r = origin \<and> at_window_start r = ws) (ac_attempts a)"

definition verified_charged :: "Accounting \<Rightarrow> origin \<Rightarrow> u64 \<Rightarrow> (u32, AllowanceError) result" where
  "verified_charged a origin window_start =
     and_then (charged a origin window_start) (\<lambda>attempts.
       if length (take (attempts + 1) (receipts a origin (int window_start))) \<noteq> attempts
       then Err (AllowanceState
         ''the accounting charge total disagrees with its attempt receipts; restore consistent history'')
       else Ok attempts)"

section \<open>Environment\<close>

datatype allow_point =
    P_ReadGuard | P_BudgetLock | P_Lock | P_BudgetLocked | P_RereadGuard | P_BudgetGuard | P_BudgetUnguarded
  | P_OpenAccounting | P_VerifyOpen | P_BusyWait | P_Begin | P_ReadMeta | P_BudgetMeta | P_ReadCharges
  | P_BudgetCharge | P_VerifyWrite | P_Write | P_VerifyWritten | P_BusyCommit | P_Commit
  | P_VerifyCommitted | P_BudgetFinal
  | P_PublishIntent | P_Schema | P_Record | P_PublishReady

record allow_env =
  e_fault :: "allow_point \<Rightarrow> AllowanceError option"
  e_lands :: "allow_point \<Rightarrow> bool"
  e_now :: "u64 option"
  e_pid :: nat
  e_counter :: nat

text \<open>A call that reports a failure ends the operation in the state reached so far.\<close>

definition passes :: "allow_env \<Rightarrow> allow_point \<Rightarrow> 's \<Rightarrow> ('a, AllowanceError) result \<times> 's
    \<Rightarrow> ('a, AllowanceError) result \<times> 's" where
  "passes env p s k = (case e_fault env p of Some e \<Rightarrow> (Err e, s) | None \<Rightarrow> k)"

record allow_world =
  aw_guard :: "Guard option"
  aw_accounting :: "Accounting option"

section \<open>Setup\<close>

datatype SetupStep = IntentPublished | AccountingReady

record SetupPlan =
  sp_previous :: "Guard option"
  sp_target :: Guard
  sp_unchanged :: bool
  sp_resumes_intent :: bool

definition validate_setup_limit :: "u32 \<Rightarrow> (unit, AllowanceError) result" where
  "validate_setup_limit max_attempts =
     (if 1 \<le> max_attempts \<and> max_attempts \<le> MAX_ATTEMPTS_LIMIT then Ok ()
      else Err (InvalidAllowanceRequest ''--max-attempts must be an integer from 1 to 10000''))"

text \<open>The first activation, or the exact retry of its interrupted intent.\<close>

definition first_activation :: "Guard option \<Rightarrow> u32 \<Rightarrow> bool" where
  "first_activation previous max_attempts =
     (case previous of
        None \<Rightarrow> True
      | Some g \<Rightarrow> gd_phase g = Intent \<and> gd_generation g = 1 \<and> gd_max_attempts g = max_attempts)"

definition next_generation :: "Guard option \<Rightarrow> u64 \<Rightarrow> (u64, AllowanceError) result" where
  "next_generation previous accounting_generation =
     (let n = max (case previous of Some g \<Rightarrow> gd_generation g | None \<Rightarrow> 0) accounting_generation + 1 in
      if int n \<le> I64_MAX then Ok n
      else Err (AllowanceState ''the allowance generation cannot be advanced''))"

definition plan_setup :: "Guard option \<Rightarrow> u64 \<Rightarrow> u32 \<Rightarrow> (SetupPlan, AllowanceError) result" where
  "plan_setup previous accounting_generation max_attempts =
     and_then (validate_setup_limit max_attempts) (\<lambda>_.
       if int accounting_generation > I64_MAX
          \<or> (case previous of Some g \<Rightarrow> gd_generation g = 0 \<or> int (gd_generation g) > I64_MAX | None \<Rightarrow> False)
       then Err (AllowanceState ''the allowance generation is outside its supported range'')
       else if accounting_generation = 0 \<and> \<not> first_activation previous max_attempts
       then Err (AllowanceState
         ''existing allowance accounting is missing; restore its history instead of resetting charges'')
       else
         let plan = (\<lambda>(generation, unchanged, resumes).
               \<lparr>sp_previous = previous,
                sp_target = \<lparr>gd_phase = Ready, gd_generation = generation, gd_max_attempts = max_attempts\<rparr>,
                sp_unchanged = unchanged, sp_resumes_intent = resumes\<rparr>)
         in map_ok plan
           (case previous of
              Some g \<Rightarrow>
                if gd_max_attempts g = max_attempts
                then (case gd_phase g of
                        Ready \<Rightarrow>
                          if accounting_generation = gd_generation g then Ok (gd_generation g, True, False)
                          else map_ok (\<lambda>n. (n, False, False)) (next_generation previous accounting_generation)
                      | Intent \<Rightarrow> Ok (max (gd_generation g) accounting_generation, False, True))
                else map_ok (\<lambda>n. (n, False, False)) (next_generation previous accounting_generation)
            | None \<Rightarrow> map_ok (\<lambda>n. (n, False, False)) (next_generation previous accounting_generation)))"

definition accounting_generation_of :: "Accounting option \<Rightarrow> (u64, AllowanceError) result" where
  "accounting_generation_of acc =
     map_ok (\<lambda>m. case m of Some (_, g, _) \<Rightarrow> g | None \<Rightarrow> 0) (read_meta acc)"

text \<open>The writer transaction of step 2: schema if absent, generation recorded, every charge kept.\<close>

definition record_generation :: "u64 \<Rightarrow> Accounting option \<Rightarrow> Accounting" where
  "record_generation generation acc =
     (case acc of
        Some a \<Rightarrow> a\<lparr>ac_ready_generation := as_i64 generation\<rparr>
      | None \<Rightarrow> \<lparr>ac_schema_version = ACCOUNTING_SCHEMA_VERSION, ac_ready_generation = as_i64 generation,
                 ac_last_charge = 0, ac_charges = Map.empty, ac_attempts = []\<rparr>)"

text \<open>A file replacement that reports a failure may still have happened.\<close>

definition publish_guard ::
  "allow_env \<Rightarrow> allow_point \<Rightarrow> Guard \<Rightarrow> allow_world \<Rightarrow> (unit, AllowanceError) result \<times> allow_world" where
  "publish_guard env p g w =
     (let w' = w\<lparr>aw_guard := Some g\<rparr> in
      case e_fault env p of
        Some e \<Rightarrow> (Err e, if e_lands env p then w' else w)
      | None \<Rightarrow> (Ok (), w'))"

definition setup_steps ::
  "allow_env \<Rightarrow> SetupStep option \<Rightarrow> SetupPlan \<Rightarrow> allow_world
     \<Rightarrow> (SetupPlan, AllowanceError) result \<times> allow_world" where
  "setup_steps env interrupt plan w =
     (case publish_guard env P_PublishIntent ((sp_target plan)\<lparr>gd_phase := Intent\<rparr>) w of
        (Err e, w1) \<Rightarrow> (Err e, w1)
      | (Ok _, w1) \<Rightarrow>
        if interrupt = Some IntentPublished then (Ok plan, w1)
        else passes env P_VerifyOpen w1 (passes env P_Begin w1 (passes env P_ReadMeta w1
          (passes env P_Schema w1 (passes env P_Record w1 (passes env P_VerifyWritten w1
            (let w2 = w1\<lparr>aw_accounting :=
                    Some (record_generation (gd_generation (sp_target plan)) (aw_accounting w1))\<rparr> in
             case e_fault env P_Commit of
               Some e \<Rightarrow> (Err e, if e_lands env P_Commit then w2 else w1)
             | None \<Rightarrow>
               passes env P_VerifyCommitted w2
                 (if interrupt = Some AccountingReady then (Ok plan, w2)
                  else case publish_guard env P_PublishReady (sp_target plan) w2 of
                    (Err e, w3) \<Rightarrow> (Err e, w3)
                  | (Ok _, w3) \<Rightarrow> (Ok plan, w3)))))))))"

definition apply_setup ::
  "allow_env \<Rightarrow> u32 \<Rightarrow> SetupStep option \<Rightarrow> allow_world
     \<Rightarrow> (SetupPlan, AllowanceError) result \<times> allow_world" where
  "apply_setup env max_attempts interrupt w =
     (case validate_setup_limit max_attempts of
        Err e \<Rightarrow> (Err e, w)
      | Ok _ \<Rightarrow>
        passes env P_Lock w (passes env P_ReadGuard w
          (let previous = aw_guard w in
           passes env P_OpenAccounting w
             (if aw_accounting w = None \<and> \<not> first_activation previous max_attempts
              then (Err (AllowanceState ''the accounting database is missing''), w)
              else case accounting_generation_of (aw_accounting w) of
                Err e \<Rightarrow> (Err e, w)
              | Ok accounting_generation \<Rightarrow>
                (case plan_setup previous accounting_generation max_attempts of
                   Err e \<Rightarrow> (Err e, w)
                 | Ok plan \<Rightarrow>
                   if sp_unchanged plan then (Ok plan, w) else setup_steps env interrupt plan w)))))"

definition preview_setup :: "u32 \<Rightarrow> allow_world \<Rightarrow> (SetupPlan, AllowanceError) result" where
  "preview_setup max_attempts w =
     and_then (validate_setup_limit max_attempts) (\<lambda>_.
       and_then (accounting_generation_of (aw_accounting w)) (\<lambda>g.
         plan_setup (aw_guard w) g max_attempts))"

section \<open>Inspection\<close>

record Inspection =
  in_guard :: "Guard option"
  in_health :: string
  in_accounting_generation :: "u64 option"
  in_window_start :: u64
  in_window_end :: u64
  in_charged_attempts :: "u32 option"

text \<open>Inspection of readable stores. A store that cannot be read is reported invalid and is not modelled.\<close>

definition inspect :: "origin \<Rightarrow> u64 \<Rightarrow> allow_world \<Rightarrow> Inspection" where
  "inspect origin now w =
     (let (ws, we) = window_bounds now;
          report = \<lparr>in_guard = aw_guard w, in_health = ''disabled'', in_accounting_generation = None,
                    in_window_start = ws, in_window_end = we, in_charged_attempts = None\<rparr>;
          found = and_then (read_meta (aw_accounting w)) (\<lambda>meta.
                    case (meta, aw_accounting w) of
                      (Some mt, Some a) \<Rightarrow> map_ok (\<lambda>c. (Some mt, Some c)) (verified_charged a origin ws)
                    | _ \<Rightarrow> Ok (None, None))
      in case found of
           Err _ \<Rightarrow> report\<lparr>in_health := (if aw_guard w = None then ''disabled'' else ''invalid'')\<rparr>
         | Ok (meta, c) \<Rightarrow>
           report\<lparr>in_accounting_generation := map_option (\<lambda>(_, g, _). g) meta, in_charged_attempts := c,
                  in_health :=
                    (case aw_guard w of
                       None \<Rightarrow> ''disabled''
                     | Some g \<Rightarrow>
                       (case (gd_phase g, meta) of
                          (Intent, _) \<Rightarrow> ''setup-incomplete''
                        | (Ready, None) \<Rightarrow> ''accounting-missing''
                        | (Ready, Some (_, generation, last_charge)) \<Rightarrow>
                            if generation \<noteq> gd_generation g then ''generation-mismatch''
                            else if now < last_charge then ''clock-behind-charges''
                            else ''ready''))\<rparr>)"

definition inspection_remaining :: "Inspection \<Rightarrow> u32 option" where
  "inspection_remaining r =
     (case (in_guard r, in_charged_attempts r) of
        (Some g, Some c) \<Rightarrow> Some (sat_sub (gd_max_attempts g) c)
      | _ \<Rightarrow> None)"

section \<open>Admission\<close>

record Debit =
  db_attempt_id :: string
  db_guard_generation :: u64
  db_window_start :: u64
  db_charged_attempts :: u32
  db_max_attempts :: u32

datatype AllowanceAdmission = Unguarded | Debited Debit

definition allowance_attempt_id :: "u64 \<Rightarrow> nat \<Rightarrow> nat \<Rightarrow> string" where
  "allowance_attempt_id now pid counter = hex now @ ''-'' @ hex pid @ ''-'' @ hex counter"

text \<open>The five statements of the debit; the primary key of the receipts refuses a repeated identifier.\<close>

definition write_debit ::
  "string \<Rightarrow> origin \<Rightarrow> RankingStage \<Rightarrow> Guard \<Rightarrow> u64 \<Rightarrow> u64 \<Rightarrow> Accounting \<Rightarrow> Accounting option" where
  "write_debit attempt_id origin stage guard now window_start a =
     (if attempt_id \<in> at_attempt_id ` set (ac_attempts a) then None
      else
        let horizon = as_i64 (sat_sub window_start (RETAINED_WINDOWS * WINDOW_MS));
            key = (origin, as_i64 window_start);
            charges = (ac_charges a)(key \<mapsto> (case ac_charges a key of Some n \<Rightarrow> n + 1 | None \<Rightarrow> 1));
            row = \<lparr>at_attempt_id = attempt_id, at_origin = origin, at_window_start = as_i64 window_start,
                   at_guard_generation = as_i64 (gd_generation guard), at_stage = stage_as_str stage,
                   at_charged_at = as_i64 now\<rparr>
        in Some (a\<lparr>ac_charges := (\<lambda>k. if snd k < horizon then None else charges k),
                   ac_attempts := filter (\<lambda>r. \<not> at_window_start r < horizon) (ac_attempts a @ [row]),
                   ac_last_charge := max (ac_last_charge a) (as_i64 now)\<rparr>))"

definition debit_steps ::
  "allow_env \<Rightarrow> origin \<Rightarrow> RankingStage \<Rightarrow> Guard \<Rightarrow> Accounting \<Rightarrow> u64 \<Rightarrow> allow_world
     \<Rightarrow> (AllowanceAdmission, AllowanceError) result \<times> allow_world" where
  "debit_steps env origin stage guard a now w =
     (let (window_start, window_end) = window_bounds now in
      case verified_charged a origin window_start of
        Err e \<Rightarrow> (Err e, w)
      | Ok used \<Rightarrow>
        passes env P_BudgetCharge w
         (if used \<ge> gd_max_attempts guard then (Err (Exhausted (gd_max_attempts guard) window_end), w)
          else
            let attempt_id = allowance_attempt_id now (e_pid env) (e_counter env) in
            passes env P_VerifyWrite w
             (case write_debit attempt_id origin stage guard now window_start a of
                None \<Rightarrow> (Err (AllowanceState ''the debit cannot be recorded; storage may be full''), w)
              | Some a' \<Rightarrow>
                passes env P_Write w (passes env P_VerifyWritten w (passes env P_BusyCommit w
                  (let w' = w\<lparr>aw_accounting := Some a'\<rparr> in
                   case e_fault env P_Commit of
                     Some e \<Rightarrow> (Err e, if e_lands env P_Commit then w' else w)
                   | None \<Rightarrow>
                     passes env P_VerifyCommitted w' (passes env P_BudgetFinal w'
                       (Ok (Debited \<lparr>db_attempt_id = attempt_id, db_guard_generation = gd_generation guard,
                                     db_window_start = window_start, db_charged_attempts = used + 1,
                                     db_max_attempts = gd_max_attempts guard\<rparr>), w'))))))))"

definition allowance_admit ::
  "allow_env \<Rightarrow> origin \<Rightarrow> RankingStage \<Rightarrow> bool \<Rightarrow> allow_world
     \<Rightarrow> (AllowanceAdmission, AllowanceError) result \<times> allow_world" where
  "allowance_admit env origin stage persistent w =
     passes env P_ReadGuard w
      (if \<not> persistent
       then (case aw_guard w of
               None \<Rightarrow> (Ok Unguarded, w)
             | Some _ \<Rightarrow> (Err (AllowanceState
                 ''an enforced allowance cannot be checked with persistence disabled''), w))
       else case aw_guard w of
         None \<Rightarrow> (Ok Unguarded, w)
       | Some guard \<Rightarrow>
         passes env P_BudgetLock w (passes env P_Lock w (passes env P_BudgetLocked w
           (passes env P_RereadGuard w (passes env P_BudgetGuard w
             (if gd_phase guard = Intent
              then (Err (AllowanceState
                ''allowance setup is incomplete; rerun sr budget --apply to finish it''), w)
              else
                passes env P_OpenAccounting w (passes env P_VerifyOpen w (passes env P_BusyWait w
                  (passes env P_Begin w (passes env P_ReadMeta w
                    (case (read_meta (aw_accounting w), aw_accounting w) of
                       (Err e, _) \<Rightarrow> (Err e, w)
                     | (Ok (Some (_, generation, last_charge)), Some a) \<Rightarrow>
                       if generation \<noteq> gd_generation guard
                       then (Err (AllowanceState
                         ''the accounting generation does not match the guard; rerun sr budget --apply''), w)
                       else passes env P_BudgetMeta w
                         (case e_now env of
                            None \<Rightarrow> (Err (AllowanceState ''the wall clock reads before 1970''), w)
                          | Some now \<Rightarrow>
                            if now < last_charge
                            then (Err (AllowanceState
                              ''the clock is behind recorded charges; charges are kept until it passes them''), w)
                            else debit_steps env origin stage guard a now w)
                     | _ \<Rightarrow> (Err (AllowanceState ''the accounting database is not initialized''), w))))))))))))"

section \<open>Basic lemmas\<close>

lemma passesE [elim!]:
  assumes "passes env p s k = (r, s')"
  obtains (fault) e where "r = Err e" and "s' = s" | (ok) "k = (r, s')"
  using assms by (auto simp: passes_def split: option.splits)

lemma passes_clear [simp]: "e_fault env p = None \<Longrightarrow> passes env p s k = k"
  by (simp add: passes_def)

lemma as_i64_exact: "int n \<le> I64_MAX \<Longrightarrow> as_i64 n = int n"
  by (simp add: as_i64_def)

lemma window_start_le: "fst (window_bounds now) \<le> now"
  by (simp add: window_bounds_def Let_def)

lemma window_start_mono: "a \<le> b \<Longrightarrow> fst (window_bounds a) \<le> fst (window_bounds b)"
proof -
  assume "a \<le> b"
  have "n - n mod WINDOW_MS = n div WINDOW_MS * WINDOW_MS" for n
    by (metis minus_mod_eq_div_mult)
  moreover have "a div WINDOW_MS * WINDOW_MS \<le> b div WINDOW_MS * WINDOW_MS"
    using \<open>a \<le> b\<close> by (intro mult_le_mono1 div_le_mono)
  ultimately show ?thesis by (simp add: window_bounds_def Let_def)
qed

text \<open>A window is a full hour, aligned, and contains the time it was computed for.\<close>

lemma window_contains:
  assumes "int now \<le> I64_MAX"
  shows "fst (window_bounds now) \<le> now \<and> now < snd (window_bounds now)
    \<and> snd (window_bounds now) = fst (window_bounds now) + WINDOW_MS
    \<and> fst (window_bounds now) mod WINDOW_MS = 0"
proof -
  have "now < 9223372036854775808" using assms by (simp add: I64_MAX_def)
  then have "wrapping_add64 (now - now mod WINDOW_MS) WINDOW_MS = now - now mod WINDOW_MS + WINDOW_MS"
    by (intro wrapping_add64_exact) (simp add: U64_MAX_def WINDOW_MS_def)
  moreover have "now mod WINDOW_MS < WINDOW_MS" by (simp add: WINDOW_MS_def)
  moreover have "(now - now mod WINDOW_MS) mod WINDOW_MS = 0"
    by (metis minus_mod_eq_mult_div mod_mult_self1_is_0)
  ultimately show ?thesis by (simp add: window_bounds_def Let_def)
qed

lemma guard_roundtrip:
  assumes "0 < gd_generation g" and "int (gd_generation g) \<le> I64_MAX"
    and "1 \<le> gd_max_attempts g" and "gd_max_attempts g \<le> MAX_ATTEMPTS_LIMIT"
  shows "guard_decode (guard_encode g) = Ok g"
  using assms by (cases "gd_phase g") (simp_all add: guard_decode_def guard_encode_def)

section \<open>What the operations do\<close>

definition stored_charge :: "Accounting \<Rightarrow> origin \<Rightarrow> i64 \<Rightarrow> i64" where
  "stored_charge a o' ws = (case ac_charges a (o', ws) of Some n \<Rightarrow> n | None \<Rightarrow> 0)"

text \<open>A debit that was written: all its guards passed, and these are the rows it leaves.\<close>

definition debits_now ::
  "allow_env \<Rightarrow> origin \<Rightarrow> RankingStage \<Rightarrow> allow_world \<Rightarrow> Guard \<Rightarrow> Accounting \<Rightarrow> u64 \<Rightarrow> u32 \<Rightarrow> Accounting \<Rightarrow> bool" where
  "debits_now env o' stage w g a now used a' \<longleftrightarrow>
     aw_guard w = Some g \<and> gd_phase g = Ready \<and> aw_accounting w = Some a
   \<and> ac_ready_generation a = int (gd_generation g) \<and> 0 \<le> ac_last_charge a
   \<and> e_now env = Some now \<and> ac_last_charge a \<le> int now
   \<and> verified_charged a o' (fst (window_bounds now)) = Ok used \<and> used < gd_max_attempts g
   \<and> write_debit (allowance_attempt_id now (e_pid env) (e_counter env)) o' stage g now
       (fst (window_bounds now)) a = Some a'"

definition debit_for :: "allow_env \<Rightarrow> Guard \<Rightarrow> u64 \<Rightarrow> u32 \<Rightarrow> Debit" where
  "debit_for env g now used =
     \<lparr>db_attempt_id = allowance_attempt_id now (e_pid env) (e_counter env),
      db_guard_generation = gd_generation g, db_window_start = fst (window_bounds now),
      db_charged_attempts = used + 1, db_max_attempts = gd_max_attempts g\<rparr>"

lemma debit_steps_effect:
  assumes "debit_steps env o' stage g a now w = (r, w')"
  obtains (none) e where "r = Err e" and "w' = w"
  | (wrote) used a' where "verified_charged a o' (fst (window_bounds now)) = Ok used"
      and "used < gd_max_attempts g"
      and "write_debit (allowance_attempt_id now (e_pid env) (e_counter env)) o' stage g now
             (fst (window_bounds now)) a = Some a'"
      and "w' = w\<lparr>aw_accounting := Some a'\<rparr>"
      and "r = Ok (Debited (debit_for env g now used)) \<or> (\<exists>e. r = Err e)"
  using assms
  by (auto simp: debit_steps_def debit_for_def Let_def not_le split: prod.splits result.splits option.splits
      if_splits)

lemma read_meta_Some:
  "read_meta acc = Ok (Some (sv, gen, lc)) \<longleftrightarrow>
     (\<exists>a. acc = Some a \<and> sv = ac_schema_version a \<and> ac_schema_version a = ACCOUNTING_SCHEMA_VERSION
        \<and> 0 < ac_ready_generation a \<and> 0 \<le> ac_last_charge a
        \<and> gen = nat (ac_ready_generation a) \<and> lc = nat (ac_last_charge a))"
  by (auto simp: read_meta_def split: option.splits)

lemma admit_effect:
  assumes "allowance_admit env o' stage persistent w = (r, w')"
  obtains (unguarded) "r = Ok Unguarded" and "w' = w" and "aw_guard w = None"
  | (refused) e where "r = Err e" and "w' = w"
  | (wrote) g a now used a' where "persistent" and "debits_now env o' stage w g a now used a'"
      and "w' = w\<lparr>aw_accounting := Some a'\<rparr>"
      and "r = Ok (Debited (debit_for env g now used)) \<or> (\<exists>e. r = Err e)"
proof -
  consider (plain) "w' = w" "(\<exists>e. r = Err e) \<or> r = Ok Unguarded \<and> aw_guard w = None"
    | (steps) g a sv gen lc now where "persistent" "aw_guard w = Some g" "gd_phase g = Ready"
        "aw_accounting w = Some a" "read_meta (aw_accounting w) = Ok (Some (sv, gen, lc))"
        "gen = gd_generation g" "e_now env = Some now" "lc \<le> now"
        "debit_steps env o' stage g a now w = (r, w')"
    using assms
    by (auto simp: allowance_admit_def not_less split: if_splits option.splits prod.splits result.splits)
      (metis GuardPhase.exhaust)+
  then show thesis
  proof cases
    case plain
    then show thesis using unguarded refused by auto
  next
    case steps
    have meta: "ac_ready_generation a = int (gd_generation g)" "0 \<le> ac_last_charge a"
        "ac_last_charge a \<le> int now"
      using steps(4,5,6,8) by (auto simp: read_meta_Some)
    from steps(9) show thesis
    proof (cases rule: debit_steps_effect)
      case none
      then show thesis using refused by auto
    next
      case (wrote used a')
      show thesis
        by (rule that(3) [OF steps(1) _ wrote(4,5)])
          (use steps meta wrote in \<open>simp add: debits_now_def\<close>)
    qed
  qed
qed

definition setup_stages :: "SetupPlan \<Rightarrow> allow_world \<Rightarrow> allow_world list" where
  "setup_stages plan w =
     (let w1 = w\<lparr>aw_guard := Some ((sp_target plan)\<lparr>gd_phase := Intent\<rparr>)\<rparr>;
          w2 = w1\<lparr>aw_accounting :=
                  Some (record_generation (gd_generation (sp_target plan)) (aw_accounting w))\<rparr>
      in [w, w1, w2, w2\<lparr>aw_guard := Some (sp_target plan)\<rparr>])"

text \<open>Setup stops, by fault or interruption, in one of its four durable stages.\<close>

lemma setup_steps_effect:
  assumes "setup_steps env i plan w = (r, w')"
  shows "w' \<in> set (setup_stages plan w)
    \<and> (\<forall>p. r = Ok p \<longrightarrow> p = plan \<and> (i = None \<longrightarrow> w' = last (setup_stages plan w)))"
  using assms
  by (auto simp: setup_steps_def setup_stages_def publish_guard_def Let_def split: option.splits if_splits)

lemma apply_setup_effect:
  assumes "apply_setup env n i w = (r, w')"
  obtains (same) "w' = w" and "(\<exists>e. r = Err e) \<or> (\<exists>p accg. r = Ok p \<and> sp_unchanged p
        \<and> accounting_generation_of (aw_accounting w) = Ok accg \<and> plan_setup (aw_guard w) accg n = Ok p)"
  | (staged) accg plan where "1 \<le> n" and "n \<le> MAX_ATTEMPTS_LIMIT"
      and "aw_accounting w = None \<longrightarrow> first_activation (aw_guard w) n"
      and "accounting_generation_of (aw_accounting w) = Ok accg"
      and "plan_setup (aw_guard w) accg n = Ok plan" and "\<not> sp_unchanged plan"
      and "w' \<in> set (setup_stages plan w)"
      and "\<forall>p. r = Ok p \<longrightarrow> p = plan \<and> (i = None \<longrightarrow> w' = last (setup_stages plan w))"
proof -
  consider (plain) "w' = w" "(\<exists>e. r = Err e) \<or> (\<exists>p accg. r = Ok p \<and> sp_unchanged p
        \<and> accounting_generation_of (aw_accounting w) = Ok accg \<and> plan_setup (aw_guard w) accg n = Ok p)"
    | (steps) u accg plan where "validate_setup_limit n = Ok u"
        "aw_accounting w = None \<longrightarrow> first_activation (aw_guard w) n"
        "accounting_generation_of (aw_accounting w) = Ok accg"
        "plan_setup (aw_guard w) accg n = Ok plan" "\<not> sp_unchanged plan"
        "setup_steps env i plan w = (r, w')"
    using assms
    by (auto simp: apply_setup_def Let_def split: if_splits result.splits)
  then show thesis
  proof cases
    case plain
    then show thesis using same by blast
  next
    case steps
    have "1 \<le> n" "n \<le> MAX_ATTEMPTS_LIMIT"
      using steps(1) by (auto simp: validate_setup_limit_def split: if_splits)
    with steps setup_steps_effect [OF steps(6)] show thesis by (intro staged) auto
  qed
qed

lemma plan_setup_target:
  assumes "plan_setup prev accg n = Ok plan" and "\<not> sp_unchanged plan"
  shows "gd_phase (sp_target plan) = Ready \<and> gd_max_attempts (sp_target plan) = n
    \<and> 1 \<le> gd_generation (sp_target plan) \<and> int (gd_generation (sp_target plan)) \<le> I64_MAX
    \<and> accg \<le> gd_generation (sp_target plan)
    \<and> (\<forall>g. prev = Some g \<longrightarrow> gd_generation g \<le> gd_generation (sp_target plan))
    \<and> (accg = 0 \<longrightarrow> gd_generation (sp_target plan) = 1)"
  using assms
  by (auto simp: plan_setup_def next_generation_def first_activation_def validate_setup_limit_def Let_def
      max_def I64_MAX_def split: if_splits option.splits GuardPhase.splits)

section \<open>Invariant\<close>

definition acc_ok :: "Accounting \<Rightarrow> bool" where
  "acc_ok a \<longleftrightarrow> ac_schema_version a = ACCOUNTING_SCHEMA_VERSION \<and> 0 < ac_ready_generation a
     \<and> ac_ready_generation a \<le> I64_MAX
     \<and> 0 \<le> ac_last_charge a \<and> ac_last_charge a \<le> I64_MAX
     \<and> (\<forall>o' ws. 0 \<le> stored_charge a o' ws \<and> stored_charge a o' ws \<le> int MAX_ATTEMPTS_LIMIT
           \<and> int (length (receipts a o' ws)) = stored_charge a o' ws)"

definition guards_agree :: "allow_world \<Rightarrow> bool" where
  "guards_agree w \<longleftrightarrow>
     (case aw_guard w of
        None \<Rightarrow> aw_accounting w = None
      | Some g \<Rightarrow> 1 \<le> gd_generation g \<and> int (gd_generation g) \<le> I64_MAX
          \<and> 1 \<le> gd_max_attempts g \<and> gd_max_attempts g \<le> MAX_ATTEMPTS_LIMIT
          \<and> (case (gd_phase g, aw_accounting w) of
               (Ready, Some a) \<Rightarrow> ac_ready_generation a = int (gd_generation g)
             | (Ready, None) \<Rightarrow> False
             | (Intent, Some a) \<Rightarrow> ac_ready_generation a \<le> int (gd_generation g)
             | (Intent, None) \<Rightarrow> gd_generation g = 1))"

definition allow_inv :: "allow_world \<Rightarrow> bool" where
  "allow_inv w \<longleftrightarrow> guards_agree w \<and> (\<forall>a. aw_accounting w = Some a \<longrightarrow> acc_ok a)"

text \<open>The history of an accounting database, without the generation it is at.\<close>

definition history :: "Accounting option \<Rightarrow> i64 \<times> ((origin \<times> i64) \<rightharpoonup> i64) \<times> AttemptRow list" where
  "history acc =
     (case acc of
        None \<Rightarrow> (0, Map.empty, [])
      | Some a \<Rightarrow> (ac_last_charge a, ac_charges a, ac_attempts a))"

lemma record_generation_history: "history (Some (record_generation n acc)) = history acc"
  by (auto simp: history_def record_generation_def split: option.splits)

lemma record_generation_ok:
  assumes "1 \<le> n" and "int n \<le> I64_MAX" and "\<forall>a. acc = Some a \<longrightarrow> acc_ok a"
  shows "acc_ok (record_generation n acc) \<and> ac_ready_generation (record_generation n acc) = int n"
  using assms
  by (cases acc) (auto simp: record_generation_def acc_ok_def as_i64_exact stored_charge_def receipts_def I64_MAX_def)

lemma accounting_generation_reads:
  assumes "\<forall>a. acc = Some a \<longrightarrow> acc_ok a" and "accounting_generation_of acc = Ok n"
  shows "(acc = None \<longrightarrow> n = 0) \<and> (\<forall>a. acc = Some a \<longrightarrow> int n = ac_ready_generation a)"
  using assms by (cases acc) (auto simp: accounting_generation_of_def read_meta_def acc_ok_def)

lemma setup_stages_inv:
  assumes inv: "allow_inv w" and n: "1 \<le> n" "n \<le> MAX_ATTEMPTS_LIMIT"
    and gen: "accounting_generation_of (aw_accounting w) = Ok accg"
    and plan: "plan_setup (aw_guard w) accg n = Ok plan" "\<not> sp_unchanged plan"
    and w': "w' \<in> set (setup_stages plan w)"
  shows "allow_inv w' \<and> history (aw_accounting w') = history (aw_accounting w)"
proof -
  note t = plan_setup_target [OF plan]
  have acc: "\<forall>a. aw_accounting w = Some a \<longrightarrow> acc_ok a" using inv by (simp add: allow_inv_def)
  note g = accounting_generation_reads [OF acc gen]
  note rg = record_generation_ok [OF _ _ acc, of "gd_generation (sp_target plan)"]
  have acc_gen: "case aw_accounting w of None \<Rightarrow> gd_generation (sp_target plan) = 1
      | Some a \<Rightarrow> ac_ready_generation a \<le> int (gd_generation (sp_target plan))"
    using g t by (auto split: option.splits)
  from w' show ?thesis
    unfolding setup_stages_def Let_def set_simps insert_iff empty_iff
    using inv t n acc acc_gen rg record_generation_history [of _ "aw_accounting w"]
    by (elim disjE) (auto simp: allow_inv_def guards_agree_def split: option.splits)
qed

lemma setup_inv:
  assumes "allow_inv w" and "apply_setup env n i w = (r, w')"
  shows "allow_inv w' \<and> history (aw_accounting w') = history (aw_accounting w)"
  using assms(2)
proof (cases rule: apply_setup_effect)
  case same
  with assms(1) show ?thesis by simp
next
  case (staged accg plan)
  from setup_stages_inv [OF assms(1) staged(1,2,4,5,6,7)] show ?thesis .
qed

lemma verified_charged_Ok:
  "verified_charged a o' ws = Ok used \<Longrightarrow> int ws \<le> I64_MAX \<and> stored_charge a o' (int ws) = int used"
  by (auto simp: verified_charged_def charged_def stored_charge_def Let_def split: if_splits)

lemma verified_charged_reads:
  assumes "acc_ok a" and "int ws \<le> I64_MAX"
  shows "verified_charged a o' ws = Ok (nat (stored_charge a o' (int ws)))"
proof -
  have "0 \<le> stored_charge a o' (int ws)" and le: "stored_charge a o' (int ws) \<le> int MAX_ATTEMPTS_LIMIT"
    and "int (length (receipts a o' (int ws))) = stored_charge a o' (int ws)"
    using assms(1) by (simp_all add: acc_ok_def)
  moreover have "stored_charge a o' (int ws) \<le> int U32_MAX"
    using le by (simp add: MAX_ATTEMPTS_LIMIT_def U32_MAX_def)
  ultimately show ?thesis
    using assms(2) by (simp add: verified_charged_def charged_def stored_charge_def [symmetric] Let_def)
qed

text \<open>What one written debit leaves: the window's charge and receipts grow by one, old windows go.\<close>

lemma write_debit_effect:
  assumes "write_debit i o' stage g now ws a = Some a'" and "int now \<le> I64_MAX" and "ws \<le> now"
    and "ac_last_charge a \<le> int now"
  shows "ac_last_charge a' = int now \<and> ac_ready_generation a' = ac_ready_generation a
    \<and> ac_schema_version a' = ac_schema_version a
    \<and> (\<forall>q k. stored_charge a' q k = (if k < int (ws - RETAINED_WINDOWS * WINDOW_MS) then 0
          else if (q, k) = (o', int ws) then stored_charge a q k + 1 else stored_charge a q k))
    \<and> (\<forall>q k. length (receipts a' q k) = (if k < int (ws - RETAINED_WINDOWS * WINDOW_MS) then 0
          else if (q, k) = (o', int ws) then length (receipts a q k) + 1 else length (receipts a q k)))"
proof -
  have ws: "as_i64 ws = int ws" "as_i64 now = int now"
    "as_i64 (ws - RETAINED_WINDOWS * WINDOW_MS) = int (ws - RETAINED_WINDOWS * WINDOW_MS)"
    using assms(2,3) by (simp_all add: as_i64_exact)
  define h where "h = int (ws - RETAINED_WINDOWS * WINDOW_MS)"
  define row where "row = \<lparr>at_attempt_id = i, at_origin = o', at_window_start = int ws,
      at_guard_generation = as_i64 (gd_generation g), at_stage = stage_as_str stage, at_charged_at = int now\<rparr>"
  define c where "c = (ac_charges a)((o', int ws) \<mapsto>
      (case ac_charges a (o', int ws) of Some n \<Rightarrow> n + 1 | None \<Rightarrow> 1))"
  have a': "a' = a\<lparr>ac_charges := (\<lambda>k. if snd k < h then None else c k),
      ac_attempts := filter (\<lambda>r. \<not> at_window_start r < h) (ac_attempts a @ [row]),
      ac_last_charge := max (ac_last_charge a) (int now)\<rparr>"
    using assms(1) unfolding h_def row_def c_def write_debit_def Let_def sat_sub_eq ws
    by (auto split: if_splits)
  have charge: "stored_charge a' q k = (if k < h then 0
      else if (q, k) = (o', int ws) then stored_charge a q k + 1 else stored_charge a q k)" for q k
    by (simp add: a' stored_charge_def c_def split: option.splits)
  have pruned: "filter (\<lambda>r. at_origin r = q \<and> at_window_start r = k) (filter (\<lambda>r. \<not> at_window_start r < h) rows)
      = (if k < h then [] else filter (\<lambda>r. at_origin r = q \<and> at_window_start r = k) rows)"
    for q k and rows :: "AttemptRow list"
    by (induction rows) auto
  have "receipts a' q k = (if k < h then [] else receipts a q k @ (if (q, k) = (o', int ws) then [row] else []))" for q k
    unfolding receipts_def a' using pruned [of q k "ac_attempts a @ [row]"] by (auto simp: row_def)
  then have "length (receipts a' q k) = (if k < h then 0
      else if (q, k) = (o', int ws) then length (receipts a q k) + 1 else length (receipts a q k))" for q k
    by simp
  with charge assms(4) show ?thesis unfolding h_def [symmetric] by (simp add: a')
qed

definition clock_ok :: "allow_env \<Rightarrow> bool" where
  "clock_ok env \<longleftrightarrow> (\<forall>now. e_now env = Some now \<longrightarrow> int now \<le> I64_MAX)"

lemma debit_keeps:
  assumes "acc_ok a" and "clock_ok env" and "debits_now env o' stage w g a now used a'"
    and "gd_max_attempts g \<le> MAX_ATTEMPTS_LIMIT"
  shows "acc_ok a' \<and> ac_ready_generation a' = ac_ready_generation a \<and> ac_last_charge a' = int now
    \<and> (\<forall>q k. int (fst (window_bounds now)) \<le> k \<longrightarrow> stored_charge a' q k =
          (if (q, k) = (o', int (fst (window_bounds now))) then int used + 1 else stored_charge a q k))"
proof -
  let ?ws = "fst (window_bounds now)"
  have now: "int now \<le> I64_MAX" using assms(2,3) by (simp add: clock_ok_def debits_now_def)
  have d: "verified_charged a o' ?ws = Ok used" "used < gd_max_attempts g"
    "write_debit (allowance_attempt_id now (e_pid env) (e_counter env)) o' stage g now ?ws a = Some a'"
    "ac_last_charge a \<le> int now"
    using assms(3) by (simp_all add: debits_now_def)
  note e = write_debit_effect [OF d(3) now window_start_le d(4)]
  have used: "stored_charge a o' (int ?ws) = int used" using verified_charged_Ok [OF d(1)] by simp
  show ?thesis
    using assms(1,4) e used d(2) now by (auto simp: acc_ok_def)
qed

lemma allowance_admit_inv:
  assumes "allow_inv w" and "clock_ok env" and "allowance_admit env o' stage persistent w = (r, w')"
  shows "allow_inv w'"
  using assms(3)
proof (cases rule: admit_effect)
  case (wrote g a now used a')
  then have g: "aw_guard w = Some g" "gd_phase g = Ready" "aw_accounting w = Some a"
    by (simp_all add: debits_now_def)
  with assms(1) have "acc_ok a" "gd_max_attempts g \<le> MAX_ATTEMPTS_LIMIT"
    by (auto simp: allow_inv_def guards_agree_def)
  from debit_keeps [OF this(1) assms(2) wrote(2) this(2)] g assms(1) wrote(3) show ?thesis
    by (auto simp: allow_inv_def guards_agree_def)
qed (use assms(1) in simp_all)

section \<open>Histories\<close>

datatype allow_op =
    AdmitOp allow_env origin RankingStage bool
  | SetupOp allow_env u32 "SetupStep option"

text \<open>The world together with the debits it has granted, newest first.\<close>

type_synonym allow_history = "allow_world \<times> (origin \<times> Debit) list"

fun allow_step :: "allow_op \<Rightarrow> allow_history \<Rightarrow> allow_history" where
  "allow_step (AdmitOp env o' stage persistent) (w, ds) =
     (case allowance_admit env o' stage persistent w of
        (Ok (Debited d), w') \<Rightarrow> (w', (o', d) # ds)
      | (_, w') \<Rightarrow> (w', ds))"
| "allow_step (SetupOp env n i) (w, ds) = (snd (apply_setup env n i w), ds)"

definition fresh_world :: allow_history where
  "fresh_world = (\<lparr>aw_guard = None, aw_accounting = None\<rparr>, [])"

definition granted :: "origin \<Rightarrow> u64 \<Rightarrow> (origin \<times> Debit) list \<Rightarrow> nat" where
  "granted o' ws ds = length (filter (\<lambda>(q, d). q = o' \<and> db_window_start d = ws) ds)"

fun allow_op_ok :: "nat \<Rightarrow> allow_op \<Rightarrow> bool" where
  "allow_op_ok limit (AdmitOp env _ _ _) = clock_ok env"
| "allow_op_ok limit (SetupOp _ n _) = (n \<le> limit)"

text \<open>
  The count of granted debits never exceeds the limit, and from the window of the last charge on it
  never exceeds what the database has stored.
\<close>

definition limit_inv :: "nat \<Rightarrow> allow_history \<Rightarrow> bool" where
  "limit_inv limit s \<longleftrightarrow>
     (case s of (w, ds) \<Rightarrow> allow_inv w
        \<and> (\<forall>g. aw_guard w = Some g \<longrightarrow> gd_max_attempts g \<le> limit)
        \<and> (aw_accounting w = None \<longrightarrow> ds = [])
        \<and> (\<forall>o' ws. granted o' ws ds \<le> limit)
        \<and> (\<forall>a o' ws. aw_accounting w = Some a \<longrightarrow> fst (window_bounds (nat (ac_last_charge a))) \<le> ws \<longrightarrow>
             int (granted o' ws ds) \<le> stored_charge a o' (int ws)))"

lemma granted_Cons: "granted o' ws ((q, d) # ds) = granted o' ws ds + (if q = o' \<and> db_window_start d = ws then 1 else 0)"
  by (simp add: granted_def)

lemma history_stored:
  assumes "history acc = history acc'" and "acc' = Some a'" and "acc = Some a"
  shows "ac_last_charge a = ac_last_charge a' \<and> stored_charge a o' k = stored_charge a' o' k"
  using assms by (simp add: history_def stored_charge_def)

lemma limit_inv_setup:
  assumes "limit_inv limit (w, ds)" and "n \<le> limit"
  shows "limit_inv limit (snd (apply_setup env n i w), ds)"
proof -
  obtain r w' where st: "apply_setup env n i w = (r, w')" by (cases "apply_setup env n i w")
  have inv: "allow_inv w" using assms(1) by (simp add: limit_inv_def)
  note keep = setup_inv [OF inv st]
  have guard: "\<forall>g. aw_guard w' = Some g \<longrightarrow> gd_max_attempts g \<le> limit"
    using st
  proof (cases rule: apply_setup_effect)
    case same
    with assms(1) show ?thesis by (simp add: limit_inv_def)
  next
    case (staged accg plan)
    have "gd_max_attempts (sp_target plan) = n" using plan_setup_target [OF staged(5,6)] by simp
    with staged(7) assms show ?thesis by (auto simp: setup_stages_def Let_def limit_inv_def)
  qed
  have empty: "aw_accounting w' = None \<longrightarrow> ds = []" "aw_accounting w = None \<longrightarrow> ds = []"
    using st assms(1)
    by (cases rule: apply_setup_effect, auto simp: limit_inv_def setup_stages_def Let_def)
  have "int (granted o' ws ds) \<le> stored_charge a' o' (int ws)"
    if "aw_accounting w' = Some a'" and "fst (window_bounds (nat (ac_last_charge a'))) \<le> ws" for a' o' ws
  proof (cases "aw_accounting w")
    case None
    with empty(2) have "ds = []" by simp
    moreover have "0 \<le> stored_charge a' o' (int ws)"
      using keep that(1) by (auto simp: allow_inv_def acc_ok_def)
    ultimately show ?thesis by (simp add: granted_def)
  next
    case (Some a)
    from history_stored [OF conjunct2 [OF keep] Some that(1)] that(2) Some assms(1)
    show ?thesis by (simp add: limit_inv_def)
  qed
  with keep guard empty(1) assms(1) st show ?thesis by (simp add: limit_inv_def)
qed

lemma limit_inv_admit:
  assumes "limit_inv limit (w, ds)" and "clock_ok env"
  shows "limit_inv limit (allow_step (AdmitOp env o' stage persistent) (w, ds))"
proof -
  obtain r w' where st: "allowance_admit env o' stage persistent w = (r, w')"
    by (cases "allowance_admit env o' stage persistent w")
  have inv: "allow_inv w" using assms(1) by (simp add: limit_inv_def)
  note keep = allowance_admit_inv [OF inv assms(2) st]
  from st show ?thesis
  proof (cases rule: admit_effect)
    case (wrote g a now used a')
    let ?ws = "fst (window_bounds now)"
    define ds' where "ds' = snd (allow_step (AdmitOp env o' stage persistent) (w, ds))"
    have step: "allow_step (AdmitOp env o' stage persistent) (w, ds) = (w', ds')"
      unfolding ds'_def using st wrote(4) by auto
    have ds': "granted q k ds' \<le> granted q k ds + (if q = o' \<and> k = ?ws then 1 else 0)" for q k
      unfolding ds'_def using st wrote(4) by (auto simp: granted_Cons debit_for_def)
    from wrote have g: "aw_guard w = Some g" "aw_accounting w = Some a" "used < gd_max_attempts g"
        "ac_last_charge a \<le> int now" "0 \<le> ac_last_charge a" "verified_charged a o' ?ws = Ok used"
      by (simp_all add: debits_now_def)
    have ok: "acc_ok a" "gd_max_attempts g \<le> MAX_ATTEMPTS_LIMIT" "gd_max_attempts g \<le> limit"
      using inv g(1,2) assms(1) by (auto simp: allow_inv_def guards_agree_def limit_inv_def)
    note d = debit_keeps [OF ok(1) assms(2) wrote(2) ok(2)]
    have later: "fst (window_bounds (nat (ac_last_charge a))) \<le> ?ws"
      using g(4) by (intro window_start_mono) simp
    have stored: "int (granted q k ds) \<le> stored_charge a q (int k)" if "?ws \<le> k" for q k
      using assms(1) g(2) order_trans [OF later that] by (auto simp: limit_inv_def)
    have count: "granted o' ?ws ds \<le> used"
      using stored [of ?ws o'] verified_charged_Ok [OF g(6)] by simp
    have "granted q k ds \<le> limit" for q k using assms(1) by (simp add: limit_inv_def)
    then have "granted q k ds' \<le> limit" for q k
      using ds' [of q k] count g(3) ok(3) by (auto split: if_splits intro: order_trans)
    moreover have "int (granted q k ds') \<le> stored_charge a' q (int k)"
      if "fst (window_bounds (nat (ac_last_charge a'))) \<le> k" for q k
    proof -
      have "?ws \<le> k" using that d by simp
      with d stored [of k q] ds' [of q k] count show ?thesis by (auto split: if_splits)
    qed
    ultimately show ?thesis
      unfolding step using keep wrote(3) g(1) ok(3) by (simp add: limit_inv_def)
  qed (use assms(1) st in simp_all)
qed

interpretation allowance: machine_invariant allow_step "allow_op_ok limit" "limit_inv limit"
proof unfold_locales
  fix s x
  assume "limit_inv limit s" and "allow_op_ok limit x"
  then show "limit_inv limit (allow_step x s)"
    by (cases s; cases x) (auto simp: limit_inv_setup simp del: allow_step.simps(1) intro: limit_inv_admit)
qed

lemma fresh_limit_inv: "limit_inv limit fresh_world"
  by (simp add: limit_inv_def fresh_world_def allow_inv_def guards_agree_def granted_def)

lemma reachable_allow_inv:
  "list_all (allow_op_ok limit) ops \<Longrightarrow> limit_inv limit (run allow_step ops fresh_world)"
  by (rule allowance.run_inv [OF fresh_limit_inv])

section \<open>Crash safety of setup\<close>

lemma intent_refuses:
  assumes "aw_guard w = Some g" and "gd_phase g = Intent"
  shows "\<exists>e. allowance_admit env o' stage persistent w = (Err e, w)"
  using assms by (simp add: allowance_admit_def passes_def split: option.splits)

lemma plan_unchanged:
  "plan_setup prev accg n = Ok plan \<Longrightarrow> sp_unchanged plan \<Longrightarrow>
     prev = Some (sp_target plan) \<and> gd_phase (sp_target plan) = Ready \<and> accg = gd_generation (sp_target plan)"
  by (auto simp: plan_setup_def Let_def split: if_splits option.splits GuardPhase.splits)

lemma generation_after_record:
  "1 \<le> n \<Longrightarrow> int n \<le> I64_MAX \<Longrightarrow> \<forall>a. acc = Some a \<longrightarrow> acc_ok a \<Longrightarrow>
     accounting_generation_of (Some (record_generation n acc)) = Ok n"
  using record_generation_ok [of n acc]
  by (auto simp: accounting_generation_of_def read_meta_def acc_ok_def)

lemma setup_success_ready:
  assumes "allow_inv w" and "apply_setup env n None w = (Ok plan, w')"
  shows "aw_guard w' = Some (sp_target plan) \<and> gd_phase (sp_target plan) = Ready
    \<and> accounting_generation_of (aw_accounting w') = Ok (gd_generation (sp_target plan))"
  using assms(2)
proof (cases rule: apply_setup_effect)
  case same
  then show ?thesis using plan_unchanged by fastforce
next
  case (staged accg plan')
  have "\<forall>a. aw_accounting w = Some a \<longrightarrow> acc_ok a" using assms(1) by (simp add: allow_inv_def)
  moreover have "plan' = plan" "w' = last (setup_stages plan w)" using staged(8) by auto
  ultimately show ?thesis
    using plan_setup_target [OF staged(5,6)]
    by (simp add: setup_stages_def Let_def generation_after_record)
qed

lemma clear_steps:
  assumes "\<forall>p. e_fault env p = None"
  shows "setup_steps env None plan w = (Ok plan, last (setup_stages plan w))"
  using assms by (simp add: setup_steps_def setup_stages_def publish_guard_def Let_def)

lemma setup_resumes_intent:
  assumes "allow_inv w" and "aw_guard w = Some g" and "gd_phase g = Intent"
    and "\<forall>p. e_fault env p = None"
  shows "\<exists>plan w'. apply_setup env (gd_max_attempts g) None w = (Ok plan, w')
    \<and> sp_target plan = g\<lparr>gd_phase := Ready\<rparr>"
proof -
  have g: "1 \<le> gd_generation g" "int (gd_generation g) \<le> I64_MAX" "1 \<le> gd_max_attempts g"
    "gd_max_attempts g \<le> MAX_ATTEMPTS_LIMIT"
    "aw_accounting w = None \<longrightarrow> gd_generation g = 1"
    "\<forall>a. aw_accounting w = Some a \<longrightarrow> ac_ready_generation a \<le> int (gd_generation g) \<and> acc_ok a"
    using assms(1-3) by (auto simp: allow_inv_def guards_agree_def split: option.splits)
  define accg where "accg = (case aw_accounting w of None \<Rightarrow> 0 | Some a \<Rightarrow> nat (ac_ready_generation a))"
  have accg: "accounting_generation_of (aw_accounting w) = Ok accg" "accg \<le> gd_generation g"
    "accg = 0 \<longrightarrow> aw_accounting w = None"
    using g(6) by (auto simp: accg_def accounting_generation_of_def read_meta_def acc_ok_def split: option.splits)
  have first: "aw_accounting w = None \<longrightarrow> first_activation (Some g) (gd_max_attempts g)"
    using g(5) assms(3) by (simp add: first_activation_def)
  define plan where "plan = \<lparr>sp_previous = Some g, sp_target = g\<lparr>gd_phase := Ready\<rparr>, sp_unchanged = False,
      sp_resumes_intent = True\<rparr>"
  have target: "\<lparr>gd_phase = Ready, gd_generation = gd_generation g, gd_max_attempts = gd_max_attempts g\<rparr>
      = g\<lparr>gd_phase := Ready\<rparr>" by simp
  have "plan_setup (Some g) accg (gd_max_attempts g) = Ok plan"
    using g(1-4) accg(2,3) first assms(3)
    by (auto simp: plan_setup_def validate_setup_limit_def Let_def plan_def max_def target)
  then have "apply_setup env (gd_max_attempts g) None w = (Ok plan, last (setup_stages plan w))"
    using g(3,4) accg(1) first assms(2,4) clear_steps [OF assms(4)]
    by (auto simp: apply_setup_def validate_setup_limit_def Let_def plan_def)
  then show ?thesis by (auto simp: plan_def)
qed

section \<open>Properties\<close>

text \<open>
  C2. The allowance is never exceeded. Whatever the order of setups, interrupted setups and
  admissions of all processes, and whichever file or database call fails at whichever point, if no
  setup ever asked for more than \<open>limit\<close> attempts then every origin is granted at most
  \<open>limit\<close> debits in every window, pruning of old windows included.
\<close>

theorem allowance_never_exceeded:
  assumes "list_all (allow_op_ok limit) ops"
  shows "granted o' ws (snd (run allow_step ops fresh_world)) \<le> limit"
  using reachable_allow_inv [OF assms] by (auto simp: limit_inv_def split: prod.splits)

text \<open>
  C21. Setup is crash safe. However a setup on a reachable state ends, no charge, receipt or clock
  mark is lost. If it leaves an intent behind, every admission is refused without touching anything,
  and a retry of the same limit without faults finishes at the same generation with the history kept;
  if it reports success uninterrupted, guard and accounting agree on a ready generation.
\<close>

theorem setup_is_crash_safe:
  assumes "list_all (allow_op_ok limit) ops" and "run allow_step ops fresh_world = (w, ds)"
    and "apply_setup env n i w = (r, w')"
  shows "history (aw_accounting w') = history (aw_accounting w)
    \<and> (\<forall>g. aw_guard w' = Some g \<longrightarrow> gd_phase g = Intent \<longrightarrow>
         (\<exists>e. allowance_admit env' o' stage persistent w' = (Err e, w'))
       \<and> (gd_max_attempts g = n \<longrightarrow> (\<forall>p. e_fault env0 p = None) \<longrightarrow>
           (\<exists>plan w''. apply_setup env0 n None w' = (Ok plan, w'')
              \<and> aw_guard w'' = Some (g\<lparr>gd_phase := Ready\<rparr>)
              \<and> accounting_generation_of (aw_accounting w'') = Ok (gd_generation g)
              \<and> history (aw_accounting w'') = history (aw_accounting w))))
    \<and> (\<forall>plan. r = Ok plan \<longrightarrow> i = None \<longrightarrow>
         aw_guard w' = Some (sp_target plan) \<and> gd_phase (sp_target plan) = Ready
       \<and> accounting_generation_of (aw_accounting w') = Ok (gd_generation (sp_target plan)))"
proof -
  have inv: "allow_inv w" using reachable_allow_inv [OF assms(1)] assms(2) by (simp add: limit_inv_def)
  note kept = setup_inv [OF inv assms(3)]
  have resume: "\<exists>plan w''. apply_setup env0 n None w' = (Ok plan, w'')
      \<and> aw_guard w'' = Some (g\<lparr>gd_phase := Ready\<rparr>)
      \<and> accounting_generation_of (aw_accounting w'') = Ok (gd_generation g)
      \<and> history (aw_accounting w'') = history (aw_accounting w)"
    if "aw_guard w' = Some g" "gd_phase g = Intent" "gd_max_attempts g = n" "\<forall>p. e_fault env0 p = None" for g
  proof -
    from setup_resumes_intent [OF conjunct1 [OF kept] that(1,2,4)] that(3) obtain plan w'' where
      again: "apply_setup env0 n None w' = (Ok plan, w'')" "sp_target plan = g\<lparr>gd_phase := Ready\<rparr>" by auto
    show ?thesis
      using again setup_success_ready [OF conjunct1 [OF kept] again(1)] setup_inv [OF conjunct1 [OF kept] again(1)] kept
      by simp
  qed
  show ?thesis
    using kept resume intent_refuses [of w' _ env' o' stage persistent] setup_success_ready [OF inv] assms(3)
    by blast
qed

text \<open>
  A ready guard decides by the window's receipts alone. On a reachable state whose guard is ready,
  with no call failing and a fresh attempt identifier, an admission is refused while the clock is
  behind the last charge, refused as exhausted exactly when the origin has as many receipts in the
  current window as the guard allows, and otherwise debited as the next attempt, leaving one receipt
  more and the guard untouched. A generation mismatch or inconsistent history cannot be met.
\<close>

theorem ready_guard_decides_by_receipts:
  assumes "list_all (allow_op_ok limit) ops" and "run allow_step ops fresh_world = (w, ds)"
    and "aw_guard w = Some g" and "gd_phase g = Ready" and "aw_accounting w = Some a"
    and "\<forall>p. e_fault env p = None" and "e_now env = Some now" and "int now \<le> I64_MAX"
    and "allowance_attempt_id now (e_pid env) (e_counter env) \<notin> at_attempt_id ` set (ac_attempts a)"
    and "ws = fst (window_bounds now)" and "used = length (receipts a o' (int ws))"
  shows "if int now < ac_last_charge a
    then \<exists>e. allowance_admit env o' stage True w = (Err (AllowanceState e), w)
    else if gd_max_attempts g \<le> used
    then allowance_admit env o' stage True w = (Err (Exhausted (gd_max_attempts g) (ws + WINDOW_MS)), w)
    else \<exists>a'. allowance_admit env o' stage True w
           = (Ok (Debited (debit_for env g now used)), w\<lparr>aw_accounting := Some a'\<rparr>)
         \<and> length (receipts a' o' (int ws)) = used + 1"
proof -
  have inv: "allow_inv w" using reachable_allow_inv [OF assms(1)] assms(2) by (simp add: limit_inv_def)
  then have ok: "acc_ok a" and gen: "ac_ready_generation a = int (gd_generation g)"
    using assms(3-5) by (auto simp: allow_inv_def guards_agree_def)
  then have meta: "read_meta (Some a) = Ok (Some (ac_schema_version a, gd_generation g, nat (ac_last_charge a)))"
    by (simp add: read_meta_def acc_ok_def)
  have "int ws \<le> I64_MAX" using assms(8,10) window_start_le [of now] by simp
  then have used: "verified_charged a o' ws = Ok used"
    using verified_charged_reads [OF ok] ok assms(11) by (metis acc_ok_def nat_int)
  have win: "window_bounds now = (ws, ws + WINDOW_MS)"
    using window_contains [OF assms(8)] assms(10) by (metis prod.collapse)
  obtain a' where a': "write_debit (allowance_attempt_id now (e_pid env) (e_counter env)) o' stage g now ws a = Some a'"
    using assms(9) by (simp add: write_debit_def Let_def)
  have start: "allowance_admit env o' stage True w =
      (if now < nat (ac_last_charge a)
       then (Err (AllowanceState
         ''the clock is behind recorded charges; charges are kept until it passes them''), w)
       else debit_steps env o' stage g a now w)"
    using assms(3-7) meta by (simp add: allowance_admit_def)
  have debit: "debit_steps env o' stage g a now w =
      (if gd_max_attempts g \<le> used then (Err (Exhausted (gd_max_attempts g) (ws + WINDOW_MS)), w)
       else (Ok (Debited (debit_for env g now used)), w\<lparr>aw_accounting := Some a'\<rparr>))"
    using assms(6) used a' by (simp add: debit_steps_def win debit_for_def)
  show ?thesis
  proof (cases "int now < ac_last_charge a")
    case True
    then show ?thesis using start by auto
  next
    case False
    have "length (receipts a' o' (int ws)) = used + 1"
      using write_debit_effect [OF a' assms(8)] window_start_le [of now] assms(10,11) False by simp
    with False start debit show ?thesis by auto
  qed
qed

section \<open>A concrete history\<close>

definition al_env :: "u64 \<Rightarrow> allow_env" where
  "al_env now = \<lparr>e_fault = (\<lambda>_. None), e_lands = (\<lambda>_. False), e_now = Some now, e_pid = 7, e_counter = 7\<rparr>"

definition al_demo_ops :: "allow_op list" where
  "al_demo_ops = [SetupOp (al_env 0) 5 None, AdmitOp (al_env 7200001) [111] Wide True]"

lemma al_demo_ok: "list_all (allow_op_ok 5) al_demo_ops"
  by (simp add: al_demo_ops_def al_env_def clock_ok_def I64_MAX_def)

lemmas al_eval = al_demo_ops_def al_env_def fresh_world_def apply_setup_def validate_setup_limit_def
  MAX_ATTEMPTS_LIMIT_def first_activation_def accounting_generation_of_def read_meta_def plan_setup_def
  next_generation_def setup_steps_def publish_guard_def record_generation_def as_i64_def I64_MAX_def
  ACCOUNTING_SCHEMA_VERSION_def Let_def

lemma al_demo_setup:
  "run allow_step [SetupOp (al_env 0) 5 None] fresh_world =
     (\<lparr>aw_guard = Some \<lparr>gd_phase = Ready, gd_generation = 1, gd_max_attempts = 5\<rparr>,
       aw_accounting = Some \<lparr>ac_schema_version = 1, ac_ready_generation = 1, ac_last_charge = 0,
         ac_charges = Map.empty, ac_attempts = []\<rparr>\<rparr>, [])"
  by (simp add: al_eval)

theorem allowance_never_exceeded_witness:
  "granted [111] 7200000 (snd (run allow_step al_demo_ops fresh_world)) \<le> 5"
  by (rule allowance_never_exceeded [OF al_demo_ok])

theorem setup_is_crash_safe_witness:
  "\<exists>w'. snd (apply_setup (al_env 0) 9 (Some IntentPublished) (fst (run allow_step [SetupOp (al_env 0) 5 None] fresh_world))) = w'
     \<and> (\<exists>e. allowance_admit (al_env 3) [111] Wide True w' = (Err e, w'))"
proof -
  define w where "w = fst (run allow_step [SetupOp (al_env 0) 5 None] fresh_world)"
  have run: "run allow_step [SetupOp (al_env 0) 5 None] fresh_world = (w, [])"
    by (simp only: w_def al_demo_setup fst_conv)
  have ok: "list_all (allow_op_ok 5) [SetupOp (al_env 0) 5 None]" by simp
  obtain r w' where st: "apply_setup (al_env 0) 9 (Some IntentPublished) w = (r, w')"
    by (cases "apply_setup (al_env 0) 9 (Some IntentPublished) w")
  then have "aw_guard w' = Some \<lparr>gd_phase = Intent, gd_generation = 2, gd_max_attempts = 9\<rparr>"
    unfolding w_def al_demo_setup by (auto simp: al_eval)
  with setup_is_crash_safe [OF ok run st] st show ?thesis unfolding w_def by auto
qed

theorem ready_guard_decides_by_receipts_witness:
  "\<exists>w'. allowance_admit (al_env 7200001) [111] Wide True
       (fst (run allow_step [SetupOp (al_env 0) 5 None] fresh_world))
     = (Ok (Debited (debit_for (al_env 7200001) \<lparr>gd_phase = Ready, gd_generation = 1, gd_max_attempts = 5\<rparr>
         7200001 0)), w')"
proof -
  have ok: "list_all (allow_op_ok 5) [SetupOp (al_env 0) 5 None]" by simp
  show ?thesis
    using ready_guard_decides_by_receipts [OF ok al_demo_setup,
        where g = "\<lparr>gd_phase = Ready, gd_generation = 1, gd_max_attempts = 5\<rparr>"
          and a = "\<lparr>ac_schema_version = 1, ac_ready_generation = 1, ac_last_charge = 0,
            ac_charges = Map.empty, ac_attempts = []\<rparr>"
          and env = "al_env 7200001" and now = 7200001 and ws = "fst (window_bounds 7200001)"
          and used = 0 and o' = "[111]" and stage = Wide]
    unfolding al_demo_setup by (auto simp: al_env_def I64_MAX_def receipts_def)
qed

end
