(* ===== verification/Lineage.thy ===== *)
theory Lineage
  imports Identity Ordered_Map "HOL-Library.Product_Lexorder" "HOL-Library.Option_ord"
    "HOL-Library.Code_Target_Nat"
begin

text \<open>
  Model of the branch resolution of \<open>src/src/context/branch.rs\<close> and
  \<open>src/src/context/branch/lineage.rs\<close>: the events of a transcript form a graph of parent links, and
  the resolver finds the one branch the conversation is on, or says why there is none.

  References into the slice of events are event values; where the code compares addresses
  (\<open>std::ptr::eq\<close>) the model compares \<open>ix_at\<close>, the slice position of the event an index entry refers
  to. The stack of \<open>substantive_leaves\<close> is a list with its top first. The worklist of
  \<open>batch\<close> has no bound in the source, so its model takes fuel and \<open>None\<close> means that it has
  not returned.
\<close>

section \<open>Events and targets\<close>

datatype Role = RoleUser | RoleAssistant | RoleTool | RoleSystem

datatype EventKind =
    EvMessage | ToolInvocation | ToolResult | TaskBoundary | Compaction | EvResume | SessionEnd

datatype ToolStatus = ToolAttempted | ToolSucceeded | ToolFailed | ToolUnknown

record ToolEvent =
  te_call_id :: "ToolCallId option"
  te_name :: str
  te_status :: ToolStatus
  te_arguments :: "str option"
  te_result :: "str option"

record NormalizedEvent =
  ne_event_id :: "EventId option"
  ne_parent_id :: "EventId option"
  ne_turn_id :: "TurnId option"
  ne_agent_id :: "AgentId option"
  ne_branch_id :: "BranchId option"
  ne_role :: Role
  ne_kind :: EventKind
  ne_timestamp_unix_ms :: "i64 option"
  ne_text :: str
  ne_tool :: "ToolEvent option"

record BranchResolutionTarget =
  tg_event_id :: "EventId option"
  tg_branch_id :: "BranchId option"
  tg_agent_id :: "AgentId option"

record ActiveBranch =
  br_branch_id :: "BranchId option"
  br_leaf_event_id :: "EventId option"
  br_events :: "NormalizedEvent list"
  br_current_epoch :: ContextEpoch
  br_compaction_count :: usize
  br_task_boundary_count :: usize
  br_ancestor_chain_truncated :: bool

definition contains_event :: "ActiveBranch \<Rightarrow> EventId \<Rightarrow> bool" where
  "contains_event b i = list_ex (\<lambda>e. ne_event_id e = Some i) (br_events b)"

definition event_id_set :: "ActiveBranch \<Rightarrow> EventId set" where
  "event_id_set b = set (List.map_filter ne_event_id (br_events b))"

datatype UnresolvedBranchReason =
    EmptyHistory
  | NoMatchingEvents
  | AmbiguousEventIdentity EventId
  | ConflictingEventDefinitions EventId
  | AmbiguousSiblingForks "EventId list"
  | TargetEventNotFound EventId
  | CycleDetected EventId
  | ConflictingBranchIdentities BranchId BranchId

datatype BranchResolution = Resolved ActiveBranch | Unresolved UnresolvedBranchReason

fun active_branch :: "BranchResolution \<Rightarrow> ActiveBranch option" where
  "active_branch (Resolved b) = Some b"
| "active_branch (Unresolved _) = None"

text \<open>\<open>epoch_name\<close>: the name is always a valid identifier, so the fallback is never taken.\<close>

definition epoch_name :: "u64 \<Rightarrow> ContextEpoch" where
  "epoch_name index =
     (case validate_id (scalars (''epoch-'' @ dec index)) of
        Ok _ \<Rightarrow> scalars (''epoch-'' @ dec index)
      | Err _ \<Rightarrow> scalars ''epoch-0'')"

text \<open>The loop of \<open>event_epochs\<close>, with its counter and the map so far.\<close>

fun epochs_loop :: "u64 \<Rightarrow> NormalizedEvent list \<Rightarrow> (EventId, ContextEpoch) btree \<Rightarrow> (EventId, ContextEpoch) btree" where
  "epochs_loop index [] m = m"
| "epochs_loop index (e # es) m =
     (let index' = (if ne_kind e = Compaction then wrapping_add64 index 1 else index) in
      epochs_loop index' es
        (case ne_event_id e of Some i \<Rightarrow> bt_insert i (epoch_name index') m | None \<Rightarrow> m))"

definition event_epochs :: "ActiveBranch \<Rightarrow> (EventId, ContextEpoch) btree" where
  "event_epochs b = epochs_loop 0 (br_events b) []"

section \<open>The index\<close>

type_synonym EventKey = "AgentId option \<times> BranchId option \<times> EventId"
type_synonym AgentEventKey = "AgentId option \<times> EventId"

record Index =
  ix_events :: "(EventKey, NormalizedEvent) btree"
  ix_at :: "(EventKey, usize) btree"
  ix_by_agent :: "(AgentEventKey, EventKey list) btree"
  ix_conflicts :: "EventKey set"
  ix_responses :: "(EventId, str) btree"
  ix_severed :: "EventKey set"

definition lineage_key :: "NormalizedEvent \<Rightarrow> EventKey option" where
  "lineage_key e = map_option (\<lambda>i. (ne_agent_id e, ne_branch_id e, i)) (ne_event_id e)"

abbreviation key_id :: "EventKey \<Rightarrow> EventId" where "key_id k \<equiv> snd (snd k)"

definition matches_target :: "BranchResolutionTarget \<Rightarrow> NormalizedEvent \<Rightarrow> bool" where
  "matches_target t e \<longleftrightarrow>
     (case tg_agent_id t of None \<Rightarrow> True | Some a \<Rightarrow> ne_agent_id e = Some a)
     \<and> (case tg_branch_id t of None \<Rightarrow> True | Some b \<Rightarrow> ne_branch_id e = Some b)"

definition carries_no_conversation :: "NormalizedEvent \<Rightarrow> bool" where
  "carries_no_conversation e \<longleftrightarrow> ne_role e = RoleSystem \<and> ne_kind e = EvMessage \<and> ne_tool e = None"

definition call_id :: "NormalizedEvent \<Rightarrow> ToolCallId option" where
  "call_id e = Option.bind (ne_tool e) te_call_id"

definition answers_own_call :: "NormalizedEvent \<Rightarrow> NormalizedEvent option \<Rightarrow> bool" where
  "answers_own_call r call =
     (case call of
        None \<Rightarrow> False
      | Some c \<Rightarrow> ne_kind r = ToolResult \<and> ne_kind c = ToolInvocation \<and> call_id r \<noteq> None \<and> call_id r = call_id c)"

fun index_loop :: "usize \<Rightarrow> NormalizedEvent list \<Rightarrow> Index \<Rightarrow> Index" where
  "index_loop i [] ix = ix"
| "index_loop i (e # es) ix =
     index_loop (Suc i) es
       (case lineage_key e of
          None \<Rightarrow> ix
        | Some k \<Rightarrow>
          (case bt_get (ix_events ix) k of
             None \<Rightarrow>
               (let ak = (fst k, key_id k);
                    named = (case bt_get (ix_by_agent ix) ak of Some ks \<Rightarrow> ks | None \<Rightarrow> []) in
                ix\<lparr>ix_events := bt_insert k e (ix_events ix), ix_at := bt_insert k i (ix_at ix),
                   ix_by_agent := bt_insert ak (named @ [k]) (ix_by_agent ix)\<rparr>)
           | Some e' \<Rightarrow> if e' \<noteq> e then ix\<lparr>ix_conflicts := insert k (ix_conflicts ix)\<rparr> else ix))"

definition parent :: "Index \<Rightarrow> NormalizedEvent \<Rightarrow> (NormalizedEvent option, UnresolvedBranchReason) result" where
  "parent ix e =
     (case ne_parent_id e of
        None \<Rightarrow> Ok None
      | Some p \<Rightarrow>
        (if (case lineage_key e of Some k \<Rightarrow> k \<in> ix_severed ix | None \<Rightarrow> False) then Ok None
         else
          (case bt_get (ix_events ix) (ne_agent_id e, ne_branch_id e, p) of
             Some pe \<Rightarrow> Ok (Some pe)
           | None \<Rightarrow>
             (case bt_get (ix_by_agent ix) (ne_agent_id e, p) of
                None \<Rightarrow> Ok None
              | Some ks \<Rightarrow>
                if length ks = 1 then Ok (bt_get (ix_events ix) (hd ks))
                else Err (AmbiguousEventIdentity p)))))"

text \<open>The bounded walk that looks for a compaction boundary among its own ancestors.\<close>

fun closes_cycle :: "Index \<Rightarrow> EventKey \<Rightarrow> nat \<Rightarrow> NormalizedEvent \<Rightarrow> bool" where
  "closes_cycle ix boundary 0 current = False"
| "closes_cycle ix boundary (Suc n) current =
     (case parent ix current of
        Ok (Some p) \<Rightarrow> if lineage_key p = Some boundary then True else closes_cycle ix boundary n p
      | _ \<Rightarrow> False)"

definition index_new :: "NormalizedEvent list \<Rightarrow> (EventId, str) btree \<Rightarrow> Index" where
  "index_new events responses =
     (let ix = index_loop 0 events
            \<lparr>ix_events = [], ix_at = [], ix_by_agent = [], ix_conflicts = {}, ix_responses = responses, ix_severed = {}\<rparr>
      in ix\<lparr>ix_severed := set (map fst (filter (\<lambda>(k, e). closes_cycle ix k (length (ix_events ix)) e)
              (filter (\<lambda>(k, e). ne_kind e = Compaction) (ix_events ix))))\<rparr>)"

section \<open>Tracing a leaf to its root\<close>

text \<open>The checks on one event of the chain: they add it to the keys and bare identifiers seen.\<close>

definition trace_visit ::
  "Index \<Rightarrow> BranchResolutionTarget \<Rightarrow> EventKey set \<times> EventId set \<Rightarrow> NormalizedEvent
     \<Rightarrow> (EventKey set \<times> EventId set, UnresolvedBranchReason) result" where
  "trace_visit ix target seen current =
     (let (visited, ids) = seen in
      and_then
        (case lineage_key current of
           Some k \<Rightarrow>
             if k \<in> ix_conflicts ix then Err (ConflictingEventDefinitions (key_id k))
             else if k \<in> visited then Err (CycleDetected (key_id k))
             else if key_id k \<in> ids then Err (AmbiguousEventIdentity (key_id k))
             else Ok (insert k visited, insert (key_id k) ids)
         | None \<Rightarrow> Ok (visited, ids))
        (\<lambda>seen'. case (tg_branch_id target, ne_branch_id current) of
           (Some expected, Some observed) \<Rightarrow>
             if expected \<noteq> observed then Err (ConflictingBranchIdentities expected observed) else Ok seen'
         | _ \<Rightarrow> Ok seen'))"

text \<open>
  The loop of \<open>trace\<close>, with the lineage pushed so far (leaf first). It returns the lineage and whether the
  chain is truncated.
\<close>

fun trace_loop ::
  "Index \<Rightarrow> BranchResolutionTarget \<Rightarrow> nat \<Rightarrow> EventKey set \<times> EventId set \<Rightarrow> NormalizedEvent list \<Rightarrow> NormalizedEvent
     \<Rightarrow> (NormalizedEvent list \<times> bool, UnresolvedBranchReason) result option" where
  "trace_loop ix target 0 seen lineage current = None"
| "trace_loop ix target (Suc fuel) seen lineage current =
     (case trace_visit ix target seen current of
        Err r \<Rightarrow> Some (Err r)
      | Ok seen' \<Rightarrow>
        (if ne_parent_id current = None then Some (Ok (lineage @ [current], False))
         else
          (case parent ix current of
             Err r \<Rightarrow> Some (Err r)
           | Ok None \<Rightarrow> Some (Ok (lineage @ [current], True))
           | Ok (Some p) \<Rightarrow> trace_loop ix target fuel seen' (lineage @ [current]) p)))"

definition count_kind :: "EventKind \<Rightarrow> NormalizedEvent list \<Rightarrow> usize" where
  "count_kind k es = length (filter (\<lambda>e. ne_kind e = k) es)"

text \<open>One round more than there are keyed events, plus one for a leaf without an identifier, is enough.\<close>

definition trace_fuel :: "Index \<Rightarrow> nat" where
  "trace_fuel ix = length (ix_events ix) + 2"

definition trace ::
  "Index \<Rightarrow> BranchResolutionTarget \<Rightarrow> NormalizedEvent \<Rightarrow> (ActiveBranch, UnresolvedBranchReason) result option" where
  "trace ix target leaf =
     map_option (map_ok (\<lambda>(pushed, truncated).
       let lineage = rev pushed; compaction_count = count_kind Compaction lineage in
       \<lparr>br_branch_id = (case tg_branch_id target of
            Some b \<Rightarrow> Some b
          | None \<Rightarrow> (case List.map_filter ne_branch_id (rev lineage) of b # _ \<Rightarrow> Some b | [] \<Rightarrow> None)),
        br_leaf_event_id = ne_event_id leaf, br_events = lineage,
        br_current_epoch = epoch_name compaction_count,
        br_compaction_count = compaction_count,
        br_task_boundary_count = count_kind TaskBoundary lineage,
        br_ancestor_chain_truncated = truncated\<rparr>))
     (trace_loop ix target (trace_fuel ix) ({}, {}) [] leaf)"

section \<open>Side branches\<close>

text \<open>\<open>children\<close> and \<open>parent_of\<close>, filled in key order.\<close>

fun link_loop ::
  "Index \<Rightarrow> NormalizedEvent list \<Rightarrow> (EventKey, usize) btree \<times> (EventKey, EventKey) btree
     \<Rightarrow> (EventKey, usize) btree \<times> (EventKey, EventKey) btree" where
  "link_loop ix [] links = links"
| "link_loop ix (e # es) (children, parent_of) =
     link_loop ix es
       (case (lineage_key e, parent ix e) of
          (Some child, Ok (Some p)) \<Rightarrow>
            (case lineage_key p of
               Some pk \<Rightarrow>
                 (bt_insert pk (wrapping_add64 (case bt_get children pk of Some c \<Rightarrow> c | None \<Rightarrow> 0) 1) children,
                  bt_insert child pk parent_of)
             | None \<Rightarrow> (children, parent_of))
        | _ \<Rightarrow> (children, parent_of))"

definition is_leaf :: "(EventKey, usize) btree \<Rightarrow> EventKey \<Rightarrow> bool" where
  "is_leaf children k = (case bt_get children k of None \<Rightarrow> True | Some c \<Rightarrow> c = 0)"

text \<open>A plain \<open>-= 1\<close> on \<open>usize\<close> wraps in the release profile.\<close>

definition wrapping_dec :: "usize \<Rightarrow> usize" where
  "wrapping_dec c = (if c = 0 then USIZE_MAX else c - 1)"

type_synonym prune_state = "(EventKey, usize) btree \<times> EventKey set"

definition prune :: "(EventKey, EventKey) btree \<Rightarrow> EventKey \<Rightarrow> prune_state \<Rightarrow> EventKey option \<times> prune_state" where
  "prune parent_of k st =
     (let (children, pruned) = st; pruned' = insert k pruned in
      case bt_get parent_of k of
        None \<Rightarrow> (None, (children, pruned'))
      | Some p \<Rightarrow>
        (case bt_get children p of
           None \<Rightarrow> (None, (children, pruned'))
         | Some c \<Rightarrow>
           (let c' = wrapping_dec c in
            (if c' = 0 then Some p else None, (bt_insert p c' children, pruned')))))"

definition is_notice :: "Index \<Rightarrow> EventKey \<Rightarrow> bool" where
  "is_notice ix k = (case bt_get (ix_events ix) k of Some e \<Rightarrow> carries_no_conversation e | None \<Rightarrow> False)"

lemma prune_marks: "snd (snd (prune parent_of k st)) = insert k (snd st)"
  by (simp add: prune_def Let_def split: prod.splits option.splits)

lemma prune_notices_measure:
  assumes "k \<notin> snd st" "is_notice ix k" "(x, st') = prune parent_of k st"
  shows "card (set (bt_keys (ix_events ix)) - snd st') < card (set (bt_keys (ix_events ix)) - snd st)"
proof -
  have "snd st' = insert k (snd st)" using prune_marks [of parent_of k st] assms(3) by (metis snd_conv)
  moreover have "k \<in> set (bt_keys (ix_events ix))"
    using assms(2) bt_get_None_iff [of "ix_events ix" k] by (auto simp: is_notice_def split: option.splits)
  ultimately show ?thesis using assms(1) by (intro psubset_card_mono) auto
qed

function prune_notices ::
  "Index \<Rightarrow> (EventKey, EventKey) btree \<Rightarrow> EventKey list \<Rightarrow> prune_state \<Rightarrow> prune_state" where
  "prune_notices ix parent_of [] st = st"
| "prune_notices ix parent_of (k # pending) st =
     (if k \<in> snd st \<or> \<not> is_leaf (fst st) k \<or> \<not> is_notice ix k
      then prune_notices ix parent_of pending st
      else
        (case prune parent_of k st of
           (Some p, st') \<Rightarrow> prune_notices ix parent_of (p # pending) st'
         | (None, st') \<Rightarrow> prune_notices ix parent_of pending st'))"
  by pat_completeness auto
termination
proof (relation "measure (\<lambda>(ix, po, pending, st).
    2 * card (set (bt_keys (ix_events ix)) - snd st) + length pending)", goal_cases)
  case (3 ix po k pending st x y)
  then show ?case using prune_notices_measure [of k st ix x y po] by simp
next
  case (4 ix po k pending st x y p)
  then show ?case using prune_notices_measure [of k st ix x y po] by simp
qed auto

text \<open>Results filed beside their own call, and how many of them each call has.\<close>

definition side_results :: "Index \<Rightarrow> (EventKey, EventKey) btree \<Rightarrow> prune_state \<Rightarrow> EventKey list" where
  "side_results ix parent_of st =
     map fst (filter (\<lambda>(k, e). k \<notin> snd st \<and> is_leaf (fst st) k
       \<and> (case bt_get parent_of k of
            Some p \<Rightarrow> answers_own_call e (bt_get (ix_events ix) p)
          | None \<Rightarrow> False)) (ix_events ix))"

fun count_under :: "(EventKey, EventKey) btree \<Rightarrow> EventKey list \<Rightarrow> (EventKey, usize) btree \<Rightarrow> (EventKey, usize) btree" where
  "count_under parent_of [] m = m"
| "count_under parent_of (r # rs) m =
     count_under parent_of rs
       (case bt_get parent_of r of
          Some p \<Rightarrow> bt_insert p (wrapping_add64 (case bt_get m p of Some c \<Rightarrow> c | None \<Rightarrow> 0) 1) m
        | None \<Rightarrow> m)"

text \<open>Every side result has a parent, so the indexing of the source never panics.\<close>

fun prune_side_results ::
  "(EventKey, EventKey) btree \<Rightarrow> (EventKey, usize) btree \<Rightarrow> EventKey list \<Rightarrow> prune_state \<Rightarrow> prune_state" where
  "prune_side_results parent_of totals [] st = st"
| "prune_side_results parent_of totals (r # rs) st =
     prune_side_results parent_of totals rs
       (case bt_get parent_of r of
          None \<Rightarrow> st
        | Some call \<Rightarrow>
          (let surviving = (case bt_get (fst st) call of Some c \<Rightarrow> c | None \<Rightarrow> 0);
               candidates = (case bt_get totals call of Some c \<Rightarrow> c | None \<Rightarrow> 0) in
           if surviving > candidates then snd (prune parent_of r st) else st))"

definition is_unlinked :: "Index \<Rightarrow> NormalizedEvent \<Rightarrow> bool" where
  "is_unlinked ix e \<longleftrightarrow> ne_parent_id e \<noteq> None \<and> parent ix e = Ok None"

definition prune_orphans :: "Index \<Rightarrow> prune_state \<Rightarrow> prune_state" where
  "prune_orphans ix st =
     (fst st, snd st \<union> set (map fst (filter (\<lambda>(k, e). k \<notin> snd st \<and> is_leaf (fst st) k
        \<and> ne_kind e = ToolResult \<and> is_unlinked ix e) (ix_events ix))))"

fun kids_loop :: "(EventKey \<times> EventKey) list \<Rightarrow> (EventKey, EventKey list) btree \<Rightarrow> (EventKey, EventKey list) btree" where
  "kids_loop [] m = m"
| "kids_loop ((child, p) # links) m =
     kids_loop links (bt_insert p ((case bt_get m p of Some ks \<Rightarrow> ks | None \<Rightarrow> []) @ [child]) m)"

datatype Batch = Answered "EventKey list" | Beyond | Incomplete

definition of_response :: "Index \<Rightarrow> EventKey \<Rightarrow> str \<Rightarrow> bool" where
  "of_response ix k response \<longleftrightarrow> bt_get (ix_responses ix) (key_id k) = Some response"

text \<open>
  One event of the worklist of \<open>batch\<close>: it ends the classification, or adds its call or answer.
\<close>

definition batch_event ::
  "Index \<Rightarrow> str \<Rightarrow> EventKey \<Rightarrow> ToolCallId set \<times> ToolCallId list \<Rightarrow> (ToolCallId set \<times> ToolCallId list, Batch) result" where
  "batch_event ix response k acc =
     (let (calls, answers) = acc in
      case bt_get (ix_events ix) k of
        None \<Rightarrow> Err Incomplete
      | Some e \<Rightarrow>
        if ne_role e = RoleAssistant \<and> ne_kind e \<in> {ToolInvocation, EvMessage} \<and> of_response ix k response
        then (if ne_kind e = ToolInvocation
              then (case call_id e of None \<Rightarrow> Err Incomplete | Some c \<Rightarrow> Ok (insert c calls, answers))
              else Ok (calls, answers))
        else if ne_kind e = ToolResult
        then (case call_id e of None \<Rightarrow> Err Incomplete | Some c \<Rightarrow> Ok (calls, answers @ [c]))
        else if carries_no_conversation e then Ok (calls, answers)
        else Err Beyond)"

fun batch_loop ::
  "Index \<Rightarrow> str \<Rightarrow> ToolCallId option \<Rightarrow> (EventKey, EventKey list) btree \<Rightarrow> nat \<Rightarrow> EventKey list \<Rightarrow> EventKey list
     \<Rightarrow> ToolCallId set \<times> ToolCallId list \<Rightarrow> Batch option" where
  "batch_loop ix response own kids 0 seen todo acc = None"
| "batch_loop ix response own kids (Suc fuel) seen todo acc =
     (case todo of
        [] \<Rightarrow>
          (let (calls, answers) = acc in
           Some (if (\<forall>c\<in>calls. c \<in> set answers) \<and> list_all (\<lambda>a. a \<in> calls \<or> own = Some a) answers
                 then Answered seen else Incomplete))
      | k # rest \<Rightarrow>
          (case batch_event ix response k acc of
             Err b \<Rightarrow> Some b
           | Ok acc' \<Rightarrow>
               batch_loop ix response own kids fuel (seen @ [k])
                 (rest @ (case bt_get kids k of Some ks \<Rightarrow> ks | None \<Rightarrow> [])) acc'))"

definition batch ::
  "Index \<Rightarrow> nat \<Rightarrow> EventKey \<Rightarrow> str \<Rightarrow> ToolCallId option \<Rightarrow> (EventKey, EventKey list) btree \<Rightarrow> Batch option" where
  "batch ix fuel head response own kids = batch_loop ix response own kids fuel [] [head] ({}, [])"

definition answered_side_batches ::
  "Index \<Rightarrow> nat \<Rightarrow> (EventKey, EventKey list) btree \<Rightarrow> EventKey \<Rightarrow> (EventKey \<times> EventKey list) list option" where
  "answered_side_batches ix fuel kids fork =
     (case (bt_get (ix_events ix) fork, bt_get (ix_responses ix) (key_id fork), bt_get kids fork) of
        (Some fork_event, Some response, Some children) \<Rightarrow>
          (if ne_kind fork_event \<noteq> ToolInvocation \<or> length children < 2 then Some []
           else
            (case those (map (\<lambda>child. batch ix fuel child response (call_id fork_event) kids) children) of
               None \<Rightarrow> None
             | Some bs \<Rightarrow>
               (let batches = zip children bs;
                    goes_on = list_ex (\<lambda>(child, b). b = Beyond
                      \<and> (case bt_get (ix_events ix) child of
                           Some e \<Rightarrow> bt_get (ix_responses ix) (key_id child) = Some response
                                      \<or> answers_own_call e (Some fork_event)
                         | None \<Rightarrow> False)) batches in
                Some (if \<not> goes_on then []
                      else List.map_filter (\<lambda>(child, b).
                        case b of Answered subtree \<Rightarrow> Some (child, subtree) | _ \<Rightarrow> None) batches))))
      | _ \<Rightarrow> Some [])"

fun prune_batches ::
  "(EventKey, EventKey) btree \<Rightarrow> (EventKey \<times> EventKey list) list \<Rightarrow> prune_state \<Rightarrow> prune_state" where
  "prune_batches parent_of [] st = st"
| "prune_batches parent_of ((head, subtree) # bs) st =
     (let st' = (if head \<notin> snd st then snd (prune parent_of head st) else st) in
      prune_batches parent_of bs (fst st', snd st' \<union> set subtree))"

definition substantive_leaves ::
  "Index \<Rightarrow> nat \<Rightarrow> BranchResolutionTarget \<Rightarrow> NormalizedEvent list option" where
  "substantive_leaves ix fuel target =
     (let (children, parent_of) = link_loop ix (bt_values (ix_events ix)) ([], []);
          pending = rev (filter (\<lambda>k. bt_get children k = None) (bt_keys (ix_events ix)));
          st1 = prune_notices ix parent_of pending (children, {});
          sides = side_results ix parent_of st1;
          st2 = prune_side_results parent_of (count_under parent_of sides []) sides st1;
          st3 = prune_orphans ix st2;
          remaining = (\<lambda>st. map snd (filter (\<lambda>(k, e). matches_target target e \<and> k \<notin> snd st \<and> is_leaf (fst st) k)
                        (ix_events ix)))
      in
        if ix_responses ix = [] then Some (remaining st3)
        else
          let kids = kids_loop parent_of [] in
          map_option (\<lambda>batches. remaining (prune_batches parent_of (concat batches) st3))
            (those (map (answered_side_batches ix fuel kids) (bt_keys kids))))"

section \<open>Selecting the leaf\<close>

definition forks :: "NormalizedEvent list \<Rightarrow> UnresolvedBranchReason" where
  "forks leaves = AmbiguousSiblingForks (List.map_filter ne_event_id leaves)"

fun descends :: "Index \<Rightarrow> EventKey \<Rightarrow> nat \<Rightarrow> NormalizedEvent \<Rightarrow> bool" where
  "descends ix boundary 0 current = False"
| "descends ix boundary (Suc n) current =
     (if lineage_key current = Some boundary then True
      else case parent ix current of Ok (Some p) \<Rightarrow> descends ix boundary n p | _ \<Rightarrow> False)"

definition address :: "Index \<Rightarrow> NormalizedEvent \<Rightarrow> usize option" where
  "address ix e = Option.bind (lineage_key e) (bt_get (ix_at ix))"

definition after_unlinked_compaction ::
  "Index \<Rightarrow> NormalizedEvent list \<Rightarrow> NormalizedEvent list \<Rightarrow> NormalizedEvent option" where
  "after_unlinked_compaction ix events leaves =
     (case List.find (\<lambda>(i, e). ne_kind e = Compaction \<and> is_unlinked ix e) (rev (List.enumerate 0 events)) of
        None \<Rightarrow> None
      | Some (position, boundary_event) \<Rightarrow>
        (case lineage_key boundary_event of
           None \<Rightarrow> None
         | Some boundary \<Rightarrow>
           (case filter (descends ix boundary (Suc (length events))) leaves of
              [leaf] \<Rightarrow>
                if list_all (\<lambda>other. address ix other = address ix leaf
                     \<or> (case address ix other of Some a \<Rightarrow> a < position | None \<Rightarrow> False)) leaves
                then Some leaf else None
            | _ \<Rightarrow> None)))"

text \<open>The loop over the index: the first event in scope and the leaves, or a conflict.\<close>

fun scan_scope ::
  "Index \<Rightarrow> BranchResolutionTarget \<Rightarrow> EventKey set \<Rightarrow> (EventKey \<times> NormalizedEvent) list
     \<Rightarrow> NormalizedEvent option \<times> NormalizedEvent list
     \<Rightarrow> (NormalizedEvent option \<times> NormalizedEvent list, UnresolvedBranchReason) result" where
  "scan_scope ix target referenced [] acc = Ok acc"
| "scan_scope ix target referenced ((k, e) # rest) acc =
     (if \<not> matches_target target e then scan_scope ix target referenced rest acc
      else if k \<in> ix_conflicts ix then Err (ConflictingEventDefinitions (key_id k))
      else scan_scope ix target referenced rest
             ((case fst acc of None \<Rightarrow> Some e | f \<Rightarrow> f),
              (if k \<notin> referenced then snd acc @ [e] else snd acc)))"

definition referenced_keys :: "Index \<Rightarrow> EventKey set" where
  "referenced_keys ix =
     set (List.map_filter (\<lambda>e. case parent ix e of Ok (Some p) \<Rightarrow> lineage_key p | _ \<Rightarrow> None) (bt_values (ix_events ix)))"

definition select ::
  "Index \<Rightarrow> nat \<Rightarrow> NormalizedEvent list \<Rightarrow> BranchResolutionTarget
     \<Rightarrow> (NormalizedEvent, UnresolvedBranchReason) result option" where
  "select ix fuel events target =
     (case tg_event_id target of
        Some i \<Rightarrow>
          Some (case filter (\<lambda>e. ne_event_id e = Some i \<and> matches_target target e) (bt_values (ix_events ix)) of
             [] \<Rightarrow> Err (TargetEventNotFound i)
           | [first] \<Rightarrow> Ok first
           | _ \<Rightarrow> Err (AmbiguousEventIdentity i))
      | None \<Rightarrow>
        (case scan_scope ix target (referenced_keys ix) (ix_events ix) (None, []) of
           Err r \<Rightarrow> Some (Err r)
         | Ok (first_in_scope, leaves) \<Rightarrow>
           (case leaves of
              [leaf] \<Rightarrow> Some (Ok leaf)
            | [] \<Rightarrow>
              (if length events = 1 \<and> ne_event_id (hd events) = None \<and> matches_target target (hd events)
               then Some (Ok (hd events))
               else
                (case first_in_scope of
                   None \<Rightarrow> Some (Err NoMatchingEvents)
                 | Some e \<Rightarrow> map_option (\<lambda>r. case r of Err x \<Rightarrow> Err x | Ok _ \<Rightarrow> Err NoMatchingEvents) (trace ix target e)))
            | _ \<Rightarrow>
              map_option (\<lambda>substantive.
                 case substantive of
                   [leaf] \<Rightarrow> Ok leaf
                 | [] \<Rightarrow> Err (forks leaves)
                 | _ \<Rightarrow> (case after_unlinked_compaction ix events substantive of
                           Some leaf \<Rightarrow> Ok leaf
                         | None \<Rightarrow> Err (forks substantive)))
               (substantive_leaves ix fuel target))))"

definition resolve ::
  "nat \<Rightarrow> NormalizedEvent list \<Rightarrow> BranchResolutionTarget \<Rightarrow> (EventId, str) btree \<Rightarrow> BranchResolution option" where
  "resolve fuel events target responses =
     (if events = [] then Some (Unresolved EmptyHistory)
      else
        let ix = index_new events responses in
        case select ix fuel events target of
          None \<Rightarrow> None
        | Some (Err r) \<Rightarrow> Some (Unresolved r)
        | Some (Ok leaf) \<Rightarrow>
            map_option (\<lambda>r. case r of Ok b \<Rightarrow> Resolved b | Err x \<Rightarrow> Unresolved x) (trace ix target leaf))"

definition resolve_active_branch :: "nat \<Rightarrow> NormalizedEvent list \<Rightarrow> BranchResolutionTarget \<Rightarrow> BranchResolution option" where
  "resolve_active_branch fuel events target = resolve fuel events target []"

definition resolve_active_branch_with_responses ::
  "nat \<Rightarrow> NormalizedEvent list \<Rightarrow> BranchResolutionTarget \<Rightarrow> (EventId, str) btree \<Rightarrow> BranchResolution option" where
  "resolve_active_branch_with_responses fuel events target responses = resolve fuel events target responses"

section \<open>What the index holds\<close>

lemma in_map_filter: "y \<in> set (List.map_filter f xs) \<longleftrightarrow> (\<exists>x\<in>set xs. f x = Some y)"
  by (induction xs) (auto simp: map_filter_simps split: option.splits)

definition named_as :: "(EventKey, NormalizedEvent) btree \<Rightarrow> AgentEventKey \<Rightarrow> EventKey set" where
  "named_as evs ak = {k. k \<in> set (bt_keys evs) \<and> (fst k, key_id k) = ak}"

definition index_maps_wf ::
  "(EventKey, NormalizedEvent) btree \<Rightarrow> (AgentEventKey, EventKey list) btree \<Rightarrow> bool" where
  "index_maps_wf evs agents \<longleftrightarrow> bt_sorted evs \<and> bt_sorted agents
     \<and> (\<forall>k. \<forall>e. bt_get evs k = Some e \<longrightarrow> lineage_key e = Some k)
     \<and> (\<forall>ak. bt_get agents ak = None \<longrightarrow> named_as evs ak = {})
     \<and> (\<forall>ak. \<forall>ks. bt_get agents ak = Some ks \<longrightarrow> ks \<noteq> [] \<and> distinct ks \<and> set ks = named_as evs ak)"

definition index_wf :: "Index \<Rightarrow> bool" where
  "index_wf ix \<longleftrightarrow> index_maps_wf (ix_events ix) (ix_by_agent ix)"

lemma index_maps_wfD:
  assumes "index_maps_wf evs agents"
  shows "bt_sorted evs" "bt_sorted agents" "bt_get evs k = Some e \<Longrightarrow> lineage_key e = Some k"
    "bt_get agents ak = None \<Longrightarrow> named_as evs ak = {}"
    "bt_get agents ak = Some ks \<Longrightarrow> ks \<noteq> [] \<and> distinct ks \<and> set ks = named_as evs ak"
  using assms unfolding index_maps_wf_def by blast+

lemma index_wf_updates [simp]:
  "index_wf (ix\<lparr>ix_conflicts := c\<rparr>) = index_wf ix"
  "index_wf (ix\<lparr>ix_severed := c\<rparr>) = index_wf ix"
  by (simp_all add: index_wf_def)

lemma index_wfD:
  assumes "index_wf ix"
  shows "bt_sorted (ix_events ix)" "bt_sorted (ix_by_agent ix)"
    "bt_get (ix_events ix) k = Some e \<Longrightarrow> lineage_key e = Some k"
    "bt_get (ix_by_agent ix) ak = None \<Longrightarrow> named_as (ix_events ix) ak = {}"
    "bt_get (ix_by_agent ix) ak = Some ks \<Longrightarrow> ks \<noteq> [] \<and> distinct ks \<and> set ks = named_as (ix_events ix) ak"
  using index_maps_wfD [OF assms [unfolded index_wf_def]] by blast+

lemma named_as_insert:
  "named_as (bt_insert k e evs) ak
     = (if ak = (fst k, key_id k) then insert k (named_as evs ak) else named_as evs ak)"
  unfolding named_as_def bt_keys_insert by auto

text \<open>One more keyed event.\<close>

lemma index_maps_wf_add:
  assumes wf: "index_maps_wf evs agents" and k: "lineage_key e = Some k" and new: "bt_get evs k = None"
    and ak: "ak = (fst k, key_id k)"
    and ks: "ks = (case bt_get agents ak of Some ks \<Rightarrow> ks | None \<Rightarrow> [])"
  shows "index_maps_wf (bt_insert k e evs) (bt_insert ak (ks @ [k]) agents)"
proof -
  note D = index_maps_wfD [OF wf]
  have "k \<notin> named_as evs ak" using new bt_get_None_iff [of evs k] by (simp add: named_as_def)
  moreover have "set ks = named_as evs ak \<and> distinct ks"
  proof (cases "bt_get agents ak")
    case None
    then have "named_as evs ak = {}" by (rule D(4))
    then show ?thesis using None ks by simp
  next
    case (Some l)
    then have "distinct l \<and> set l = named_as evs ak" using D(5) by blast
    then show ?thesis using Some ks by simp
  qed
  ultimately have at: "distinct (ks @ [k]) \<and> set (ks @ [k]) = named_as (bt_insert k e evs) ak"
    by (simp add: named_as_insert ak)
  show ?thesis unfolding index_maps_wf_def
  proof (intro conjI allI impI)
    fix ak' l assume get: "bt_get (bt_insert ak (ks @ [k]) agents) ak' = Some l"
    have "l \<noteq> [] \<and> distinct l \<and> set l = named_as (bt_insert k e evs) ak'"
    proof (cases "ak' = ak")
      case True
      then have "l = ks @ [k]" using get by (simp add: bt_get_insert)
      then show ?thesis using at True by blast
    next
      case False
      then show ?thesis using get D(5) [of ak' l] by (simp add: bt_get_insert named_as_insert ak)
    qed
    then show "l \<noteq> []" "distinct l" "set l = named_as (bt_insert k e evs) ak'" by auto
  next
    fix ak' assume "bt_get (bt_insert ak (ks @ [k]) agents) ak' = None"
    then show "named_as (bt_insert k e evs) ak' = {}"
      using D(4) [of ak'] by (simp add: bt_get_insert named_as_insert ak split: if_splits)
  next
    fix k' e' assume "bt_get (bt_insert k e evs) k' = Some e'"
    then show "lineage_key e' = Some k'" using D(3) [of k' e'] k by (simp add: bt_get_insert split: if_splits)
  qed (simp_all add: bt_sorted_insert D)
qed

lemma index_loop_wf: "index_wf ix \<Longrightarrow> index_wf (index_loop i es ix)"
proof (induction es arbitrary: i ix)
  case (Cons e es)
  have "index_wf (ix\<lparr>ix_events := bt_insert k e (ix_events ix), ix_at := a,
      ix_by_agent := bt_insert (fst k, key_id k)
        ((case bt_get (ix_by_agent ix) (fst k, key_id k) of Some ks \<Rightarrow> ks | None \<Rightarrow> []) @ [k]) (ix_by_agent ix)\<rparr>)"
    if "lineage_key e = Some k" "bt_get (ix_events ix) k = None" for k a
    using index_maps_wf_add [OF _ that refl refl] Cons.prems by (simp add: index_wf_def)
  then show ?case
    using Cons.IH Cons.prems by (simp add: Let_def split: option.splits)
qed simp

lemma index_new_wf: "index_wf (index_new events responses)"
proof -
  have "index_wf (index_loop 0 events \<lparr>ix_events = [], ix_at = [], ix_by_agent = [], ix_conflicts = {},
      ix_responses = responses, ix_severed = {}\<rparr>)"
    by (rule index_loop_wf) (simp add: index_wf_def index_maps_wf_def named_as_def)
  then show ?thesis by (simp add: index_new_def Let_def)
qed

text \<open>The parent of an event, from the keyed events and the severed boundaries alone.\<close>

definition parent_spec ::
  "(EventKey, NormalizedEvent) btree \<Rightarrow> EventKey set \<Rightarrow> NormalizedEvent
     \<Rightarrow> (NormalizedEvent option, UnresolvedBranchReason) result" where
  "parent_spec evs severed e =
     (case ne_parent_id e of
        None \<Rightarrow> Ok None
      | Some p \<Rightarrow>
        (if (case lineage_key e of Some k \<Rightarrow> k \<in> severed | None \<Rightarrow> False) then Ok None
         else
          (case bt_get evs (ne_agent_id e, ne_branch_id e, p) of
             Some pe \<Rightarrow> Ok (Some pe)
           | None \<Rightarrow>
             (case filter (\<lambda>k. (fst k, key_id k) = (ne_agent_id e, p)) (bt_keys evs) of
                [] \<Rightarrow> Ok None
              | [k] \<Rightarrow> Ok (bt_get evs k)
              | _ \<Rightarrow> Err (AmbiguousEventIdentity p)))))"

lemma named_as_filter:
  "bt_sorted evs \<Longrightarrow> distinct (filter (\<lambda>k. (fst k, key_id k) = ak) (bt_keys evs))"
  "set (filter (\<lambda>k. (fst k, key_id k) = ak) (bt_keys evs)) = named_as evs ak"
  by (simp_all add: bt_keys_sorted named_as_def)

lemma by_agent_spec:
  assumes wf: "index_wf ix"
  shows "(case bt_get (ix_by_agent ix) ak of
          None \<Rightarrow> Ok None
        | Some ks \<Rightarrow> if length ks = 1 then Ok (bt_get (ix_events ix) (hd ks)) else Err r)
      = (case filter (\<lambda>k. (fst k, key_id k) = ak) (bt_keys (ix_events ix)) of
          [] \<Rightarrow> Ok None | [k] \<Rightarrow> Ok (bt_get (ix_events ix) k) | _ \<Rightarrow> Err r)" (is "?l = (case ?cs of [] \<Rightarrow> _ | k # ks \<Rightarrow> ?m k ks)")
proof (cases "bt_get (ix_by_agent ix) ak")
  case None
  then have "set ?cs = {}" using index_wfD(4) [OF wf] named_as_filter(2) [of ak "ix_events ix"] by metis
  then have "?cs = []" by (rule set_empty [THEN iffD1])
  then show ?thesis using None by simp
next
  case (Some ks)
  note K = index_wfD(5) [OF wf Some]
  have same: "set ks = set ?cs" using K named_as_filter(2) [of ak "ix_events ix"] by metis
  have "card (set ks) = length ks" by (rule distinct_card) (use K in blast)
  moreover have "card (set ?cs) = length ?cs"
    by (rule distinct_card, rule named_as_filter(1), rule index_wfD(1) [OF wf])
  ultimately have "length ks = length ?cs" using same by simp
  moreover obtain k rest where ks: "ks = k # rest" using K by (cases ks) auto
  moreover obtain c rest' where cs: "?cs = c # rest'" using same ks by (cases ?cs) auto
  ultimately show ?thesis using Some same by (cases rest; cases rest') auto
qed

lemma parent_eq_spec:
  assumes wf: "index_wf ix"
  shows "parent ix e = parent_spec (ix_events ix) (ix_severed ix) e"
  unfolding parent_def parent_spec_def by_agent_spec [OF wf] ..

lemma parent_in_index:
  assumes wf: "index_wf ix" and p: "parent ix e = Ok (Some p)"
  shows "\<exists>k. lineage_key p = Some k \<and> bt_get (ix_events ix) k = Some p \<and> fst k = ne_agent_id e
    \<and> ne_parent_id e = Some (key_id k)"
proof -
  obtain q where q: "ne_parent_id e = Some q" using p by (auto simp: parent_def split: option.splits)
  consider "bt_get (ix_events ix) (ne_agent_id e, ne_branch_id e, q) = Some p"
    | ks where "bt_get (ix_by_agent ix) (ne_agent_id e, q) = Some ks" "length ks = 1"
        "bt_get (ix_events ix) (hd ks) = Some p"
    using p q by (auto simp: parent_def split: option.splits if_splits)
  then show ?thesis
  proof cases
    case 1
    then show ?thesis using q index_wfD(3) [OF wf 1] by auto
  next
    case (2 ks)
    obtain k where "ks = [k]" using 2(2) by (cases ks) auto
    then show ?thesis using 2 q index_wfD(5) [OF wf 2(1)] index_wfD(3) [OF wf 2(3)]
      by (auto simp: named_as_def)
  qed
qed

text \<open>Which events of the transcript are in the index, and which of their keys conflict.\<close>

lemma index_loop_severed [simp]:
  "ix_severed (index_loop i es ix) = ix_severed ix" "ix_responses (index_loop i es ix) = ix_responses ix"
  by (induction i es ix rule: index_loop.induct) (simp_all add: Let_def split: option.splits)

lemma index_loop_events:
  "bt_get (ix_events (index_loop i es ix)) k =
     (case bt_get (ix_events ix) k of
        Some e \<Rightarrow> Some e
      | None \<Rightarrow> List.find (\<lambda>e. lineage_key e = Some k) es)"
proof (induction es arbitrary: i ix)
  case (Cons e es)
  show ?case
    by (auto simp: Cons.IH bt_get_insert Let_def simp del: split_paired_All split: option.splits)
qed (simp split: option.splits)

lemma index_loop_conflicts:
  assumes "k \<notin> ix_conflicts (index_loop i es ix)"
  shows "k \<notin> ix_conflicts ix \<and>
    (\<forall>e\<in>set es. lineage_key e = Some k \<longrightarrow> bt_get (ix_events (index_loop i es ix)) k = Some e)"
  using assms
proof (induction es arbitrary: i ix)
  case (Cons e es)
  have head: "bt_get (ix_events (index_loop i (e # es) ix)) k = Some e" if key: "lineage_key e = Some k"
  proof (cases "bt_get (ix_events ix) k")
    case None
    then show ?thesis using key by (simp add: index_loop_events del: index_loop.simps)
  next
    case (Some e')
    have "e' = e"
    proof (rule ccontr)
      assume "e' \<noteq> e"
      then have "index_loop i (e # es) ix = index_loop (Suc i) es (ix\<lparr>ix_conflicts := insert k (ix_conflicts ix)\<rparr>)"
        using key Some by simp
      then show False using Cons.prems Cons.IH by fastforce
    qed
    then show ?thesis using Some by (simp add: index_loop_events del: index_loop.simps)
  qed
  have step: ?case if eq: "index_loop i (e # es) ix = index_loop (Suc i) es ix'"
      and sub: "ix_conflicts ix \<subseteq> ix_conflicts ix'" for ix'
  proof -
    have "k \<notin> ix_conflicts ix' \<and>
        (\<forall>e\<in>set es. lineage_key e = Some k \<longrightarrow> bt_get (ix_events (index_loop (Suc i) es ix')) k = Some e)"
      using Cons.prems unfolding eq by (rule Cons.IH)
    then show ?thesis using sub head unfolding eq by auto
  qed
  obtain ix' where "index_loop i (e # es) ix = index_loop (Suc i) es ix'" "ix_conflicts ix \<subseteq> ix_conflicts ix'"
    by (force simp: Let_def split: option.splits)
  then show ?case by (rule step)
qed simp

lemma index_new_events:
  "bt_get (ix_events (index_new events responses)) k = List.find (\<lambda>e. lineage_key e = Some k) events"
  "k \<notin> ix_conflicts (index_new events responses) \<Longrightarrow> e \<in> set events \<Longrightarrow> lineage_key e = Some k
     \<Longrightarrow> bt_get (ix_events (index_new events responses)) k = Some e"
proof -
  show "bt_get (ix_events (index_new events responses)) k = List.find (\<lambda>e. lineage_key e = Some k) events"
    by (simp add: index_new_def Let_def index_loop_events)
  show "k \<notin> ix_conflicts (index_new events responses) \<Longrightarrow> e \<in> set events \<Longrightarrow> lineage_key e = Some k
     \<Longrightarrow> bt_get (ix_events (index_new events responses)) k = Some e"
    using index_loop_conflicts [of k 0 events "\<lparr>ix_events = [], ix_at = [], ix_by_agent = [], ix_conflicts = {},
      ix_responses = responses, ix_severed = {}\<rparr>"] by (simp add: index_new_def Let_def)
qed

lemma indexed_in_transcript: "bt_get (ix_events (index_new events responses)) k = Some e \<Longrightarrow> e \<in> set events"
  by (auto simp: index_new_events(1) find_Some_iff)

section \<open>The chain a trace returns\<close>

definition child_of :: "Index \<Rightarrow> NormalizedEvent \<Rightarrow> NormalizedEvent \<Rightarrow> bool" where
  "child_of ix e p \<longleftrightarrow> parent ix e = Ok (Some p)"

definition in_scope :: "BranchResolutionTarget \<Rightarrow> NormalizedEvent \<Rightarrow> bool" where
  "in_scope target e \<longleftrightarrow> (case (tg_branch_id target, ne_branch_id e) of (Some b, Some b') \<Rightarrow> b = b' | _ \<Rightarrow> True)"

lemma trace_visit_Ok:
  assumes "trace_visit ix target (visited, ids) current = Ok seen'"
  shows "in_scope target current"
    "seen' = (visited \<union> set_option (lineage_key current), ids \<union> set_option (ne_event_id current))"
    "\<And>k. lineage_key current = Some k \<Longrightarrow> k \<notin> ix_conflicts ix \<and> k \<notin> visited"
    "\<And>i. ne_event_id current = Some i \<Longrightarrow> i \<notin> ids"
  using assms
  by (auto simp: trace_visit_def in_scope_def and_then_def lineage_key_def split: option.splits if_splits result.splits)

text \<open>
  What holds of the part of the chain that the loop adds, from the event it is called on to the root.
\<close>

definition chain_ok ::
  "Index \<Rightarrow> BranchResolutionTarget \<Rightarrow> EventId set \<Rightarrow> NormalizedEvent list \<Rightarrow> bool \<Rightarrow> bool" where
  "chain_ok ix target ids c truncated \<longleftrightarrow>
     c \<noteq> [] \<and> successively (child_of ix) c \<and> list_all (in_scope target) c
     \<and> list_all (\<lambda>e. \<forall>k. lineage_key e = Some k \<longrightarrow> k \<notin> ix_conflicts ix) c
     \<and> distinct (List.map_filter ne_event_id c) \<and> ids \<inter> set (List.map_filter ne_event_id c) = {}
     \<and> truncated = (ne_parent_id (last c) \<noteq> None)
     \<and> (truncated \<longrightarrow> parent ix (last c) = Ok None)"

lemma chain_okD:
  assumes "chain_ok ix target ids c truncated"
  shows "c \<noteq> []" "successively (child_of ix) c" "list_all (in_scope target) c"
    "e \<in> set c \<Longrightarrow> lineage_key e = Some k \<Longrightarrow> k \<notin> ix_conflicts ix"
    "distinct (List.map_filter ne_event_id c)" "truncated = (ne_parent_id (last c) \<noteq> None)"
    "truncated \<Longrightarrow> parent ix (last c) = Ok None"
  using assms unfolding chain_ok_def list_all_iff by blast+

lemma chain_ok_Cons:
  assumes v: "trace_visit ix target (visited, ids) e = Ok (visited', ids')"
    and c: "chain_ok ix target ids' (p # c) truncated" and p: "child_of ix e p"
  shows "chain_ok ix target ids (e # p # c) truncated"
  using c p trace_visit_Ok [OF v]
  by (cases "ne_event_id e") (auto simp: chain_ok_def map_filter_simps)

lemma trace_loop_Ok:
  assumes "trace_loop ix target fuel (visited, ids) lineage current = Some (Ok (pushed, truncated))"
  shows "\<exists>c. pushed = lineage @ current # c \<and> chain_ok ix target ids (current # c) truncated"
  using assms
proof (induction fuel arbitrary: visited ids lineage current)
  case (Suc fuel)
  obtain visited' ids' where v: "trace_visit ix target (visited, ids) current = Ok (visited', ids')"
    using Suc.prems by (auto split: result.splits)
  show ?case
  proof (cases "ne_parent_id current = None \<or> parent ix current = Ok None")
    case True
    then show ?thesis using Suc.prems trace_visit_Ok [OF v]
      by (cases "ne_event_id current")
        (auto simp: v chain_ok_def map_filter_simps parent_def split: if_splits)
  next
    case False
    then obtain p where p: "parent ix current = Ok (Some p)"
      using Suc.prems v by (auto split: result.splits option.splits)
    have "trace_loop ix target fuel (visited', ids') (lineage @ [current]) p = Some (Ok (pushed, truncated))"
      using Suc.prems False v p by (auto split: if_splits)
    from Suc.IH [OF this] obtain c where c: "pushed = (lineage @ [current]) @ p # c"
        "chain_ok ix target ids' (p # c) truncated" by blast
    show ?thesis
      using c chain_ok_Cons [OF v c(2)] p by (intro exI [of _ "p # c"]) (simp add: child_of_def)
  qed
qed simp

lemma trace_loop_returns:
  assumes wf: "index_wf ix"
    and "lineage_key current = Some k" "k \<in> set (bt_keys (ix_events ix))"
    and "card (set (bt_keys (ix_events ix)) - fst seen) < fuel"
  shows "trace_loop ix target fuel seen lineage current \<noteq> None"
  using assms(2-)
proof (induction fuel arbitrary: seen lineage current k)
  case (Suc fuel)
  show ?case
  proof (cases "trace_visit ix target seen current")
    case (Ok seen')
    obtain visited ids where seen: "seen = (visited, ids)" by (cases seen)
    note V = trace_visit_Ok [OF Ok [unfolded seen]]
    have "card (set (bt_keys (ix_events ix)) - fst seen') < card (set (bt_keys (ix_events ix)) - fst seen)"
      using V(2) V(3) [OF Suc.prems(1)] Suc.prems(1,2) seen by (intro psubset_card_mono) auto
    then have less: "card (set (bt_keys (ix_events ix)) - fst seen') < fuel" using Suc.prems(3) by simp
    have "trace_loop ix target fuel seen' (lineage @ [current]) p \<noteq> None" if p: "parent ix current = Ok (Some p)" for p
    proof -
      obtain k' where "lineage_key p = Some k'" "bt_get (ix_events ix) k' = Some p"
        using parent_in_index [OF wf p] by blast
      then show ?thesis using less by (intro Suc.IH [OF _ bt_get_in])
    qed
    then show ?thesis using Ok by (simp split: result.splits option.splits)
  qed simp
qed simp

lemma trace_returns:
  assumes wf: "index_wf ix" and leaf: "\<And>k. lineage_key leaf = Some k \<Longrightarrow> k \<in> set (bt_keys (ix_events ix))"
  shows "trace ix target leaf \<noteq> None"
proof -
  have size: "card (set (bt_keys (ix_events ix)) - A) \<le> length (ix_events ix)" for A
    using card_mono [of "set (bt_keys (ix_events ix))" "set (bt_keys (ix_events ix)) - A"]
      card_length [of "bt_keys (ix_events ix)"] by (simp add: bt_keys_def)
  have "trace_loop ix target (trace_fuel ix) ({}, {}) [] leaf \<noteq> None"
  proof (cases "lineage_key leaf")
    case (Some k)
    then show ?thesis using leaf size [of "{}"]
      by (intro trace_loop_returns [OF wf Some]) (auto simp: trace_fuel_def)
  next
    case None
    have "trace_loop ix target (Suc (length (ix_events ix))) seen [leaf] p \<noteq> None"
      if p: "parent ix leaf = Ok (Some p)" for p seen
    proof -
      obtain k' where "lineage_key p = Some k'" "bt_get (ix_events ix) k' = Some p"
        using parent_in_index [OF wf p] by blast
      then show ?thesis using size [of "fst seen"] bt_get_in by (intro trace_loop_returns [OF wf]) auto
    qed
    then show ?thesis by (simp add: trace_fuel_def split: result.splits option.splits)
  qed
  then show ?thesis by (simp add: trace_def del: not_None_eq)
qed

section \<open>The leaf the selection returns\<close>

definition indexed :: "Index \<Rightarrow> NormalizedEvent \<Rightarrow> bool" where
  "indexed ix e \<longleftrightarrow> e \<in> set (bt_values (ix_events ix))"

lemma indexed_key:
  assumes "index_wf ix"
  shows "indexed ix e \<longleftrightarrow> (\<exists>k. lineage_key e = Some k \<and> bt_get (ix_events ix) k = Some e)"
  using bt_values_get [OF index_wfD(1) [OF assms], of e] index_wfD(3) [OF assms]
  unfolding indexed_def by blast

lemma indexed_entry: "(k, e) \<in> set (ix_events ix) \<Longrightarrow> indexed ix e"
  by (force simp: indexed_def bt_values_def)

lemma scan_scope_Ok:
  assumes "scan_scope ix target referenced entries acc = Ok acc'" "set entries \<subseteq> set (ix_events ix)"
    "\<forall>e\<in>set_option (fst acc) \<union> set (snd acc). matches_target target e \<and> indexed ix e"
  shows "\<forall>e\<in>set_option (fst acc') \<union> set (snd acc'). matches_target target e \<and> indexed ix e"
  using assms
proof (induction ix target referenced entries acc rule: scan_scope.induct)
  case (2 ix target referenced k e rest acc)
  have e: "indexed ix e" using 2(4) by (intro indexed_entry [of k]) simp
  have sub: "set rest \<subseteq> set (ix_events ix)" using 2(4) by simp
  show ?case
  proof (cases "matches_target target e")
    case False
    then show ?thesis using 2(1) [OF _ _ sub 2(5)] 2(3) by simp
  next
    case True
    then have "k \<notin> ix_conflicts ix" using 2(3) by (auto split: if_splits)
    let ?acc = "(case fst acc of None \<Rightarrow> Some e | f \<Rightarrow> f, if k \<notin> referenced then snd acc @ [e] else snd acc)"
    have "\<forall>e\<in>set_option (fst ?acc) \<union> set (snd ?acc). matches_target target e \<and> indexed ix e"
      using 2(5) True e by (cases "fst acc") auto
    moreover have "scan_scope ix target referenced rest ?acc = Ok acc'"
      using 2(3) True \<open>k \<notin> ix_conflicts ix\<close> by simp
    ultimately show ?thesis
      using 2(2) True \<open>k \<notin> ix_conflicts ix\<close> sub by blast
  qed
qed simp

lemma substantive_leaves_scope:
  assumes "substantive_leaves ix fuel target = Some ls" "e \<in> set ls"
  shows "matches_target target e \<and> indexed ix e"
proof -
  obtain P where "ls = map snd (filter (\<lambda>(k, e). matches_target target e \<and> P k) (ix_events ix))"
    using assms(1) by (auto simp: substantive_leaves_def Let_def conj_assoc split: prod.splits if_splits)
  then show ?thesis using assms(2) indexed_entry by auto
qed

lemma after_unlinked_compaction_leaf:
  "after_unlinked_compaction ix events leaves = Some leaf \<Longrightarrow> leaf \<in> set leaves"
proof -
  assume "after_unlinked_compaction ix events leaves = Some leaf"
  then obtain P where "filter P leaves = [leaf]"
    by (auto simp: after_unlinked_compaction_def split: option.splits prod.splits list.splits if_splits)
  then have "leaf \<in> set (filter P leaves)" by simp
  then show ?thesis by simp
qed

lemma select_Ok:
  assumes "select ix fuel events target = Some (Ok leaf)"
  shows "matches_target target leaf
    \<and> (indexed ix leaf \<or> (events = [leaf] \<and> ne_event_id leaf = None \<and> tg_event_id target = None))
    \<and> (tg_event_id target \<noteq> None \<longrightarrow> ne_event_id leaf = tg_event_id target)"
proof (cases "tg_event_id target")
  case (Some i)
  then have "filter (\<lambda>e. ne_event_id e = Some i \<and> matches_target target e) (bt_values (ix_events ix)) = [leaf]"
    using assms by (auto simp: select_def split: list.splits)
  then have "leaf \<in> set (filter (\<lambda>e. ne_event_id e = Some i \<and> matches_target target e) (bt_values (ix_events ix)))"
    by simp
  then show ?thesis using Some by (simp add: indexed_def)
next
  case None
  then obtain first leaves where sc: "scan_scope ix target (referenced_keys ix) (ix_events ix) (None, []) = Ok (first, leaves)"
    using assms by (auto simp: select_def split: result.splits)
  have L: "matches_target target e \<and> indexed ix e" if "e \<in> set leaves" for e
    using scan_scope_Ok [OF sc] that by simp
  have many: ?thesis if shape: "leaves = e # e' # rest" for e e' rest
  proof -
    obtain ls where ls: "substantive_leaves ix fuel target = Some ls"
        "(case ls of [l] \<Rightarrow> Ok l | [] \<Rightarrow> Err (forks (e # e' # rest))
          | _ \<Rightarrow> (case after_unlinked_compaction ix events ls of Some l \<Rightarrow> Ok l | None \<Rightarrow> Err (forks ls))) = Ok leaf"
      using assms None sc by (auto simp: select_def shape)
    have "leaf \<in> set ls"
      using ls(2) after_unlinked_compaction_leaf [of ix events ls leaf] by (auto split: list.splits option.splits)
    then show ?thesis using None substantive_leaves_scope [OF ls(1)] by blast
  qed
  have none: ?thesis if "leaves = []"
  proof (cases "length events = 1 \<and> ne_event_id (hd events) = None \<and> matches_target target (hd events)")
    case True
    then show ?thesis using assms None sc that by (auto simp: select_def length_Suc_conv)
  next
    case False
    then have "(case first of None \<Rightarrow> Some (Err NoMatchingEvents)
         | Some e \<Rightarrow> map_option (\<lambda>r. case r of Err x \<Rightarrow> Err x | Ok _ \<Rightarrow> Err NoMatchingEvents) (trace ix target e))
        = Some (Ok leaf)"
      using assms None sc that by (simp add: select_def if_not_P del: not_None_eq)
    moreover have "(case r of Err x \<Rightarrow> Err x | Ok _ \<Rightarrow> Err NoMatchingEvents) \<noteq> Ok leaf"
      for r :: "(ActiveBranch, UnresolvedBranchReason) result" by (cases r) simp_all
    ultimately show ?thesis by (cases first) auto
  qed
  have one: ?thesis if "leaves = [e]" for e
    using assms None sc that L [of e] by (simp add: select_def)
  show ?thesis using none one many by (cases leaves rule: remdups_adj.cases) blast+
qed

section \<open>A resolved branch\<close>

definition chain_link :: "NormalizedEvent \<Rightarrow> NormalizedEvent \<Rightarrow> bool" where
  "chain_link p e \<longleftrightarrow> ne_event_id p \<noteq> None \<and> ne_parent_id e = ne_event_id p \<and> ne_agent_id p = ne_agent_id e"

lemma child_of_link:
  assumes "index_wf ix" "child_of ix e p"
  shows "chain_link p e" "indexed ix p"
  using parent_in_index [OF assms(1), of e p] assms(2) indexed_key [OF assms(1)]
  by (auto simp: child_of_def chain_link_def lineage_key_def)

lemma chain_members:
  "successively (child_of ix) (e # c) \<Longrightarrow> index_wf ix \<Longrightarrow> p \<in> set c \<Longrightarrow> indexed ix p"
  by (induction c arbitrary: e) (auto dest: child_of_link(2))

lemma as_resolution_Resolved [simp]:
  "(case r of Ok b' \<Rightarrow> Resolved b' | Err x \<Rightarrow> Unresolved x) = Resolved b \<longleftrightarrow> r = Ok b"
  by (cases r) auto

lemma resolve_Resolved:
  assumes "resolve fuel events target responses = Some (Resolved b)"
  defines "ix \<equiv> index_new events responses"
  shows "\<exists>leaf c truncated. select ix fuel events target = Some (Ok leaf)
    \<and> chain_ok ix target {} (leaf # c) truncated
    \<and> br_events b = rev (leaf # c) \<and> br_leaf_event_id b = ne_event_id leaf
    \<and> br_ancestor_chain_truncated b = truncated
    \<and> br_compaction_count b = count_kind Compaction (br_events b)
    \<and> br_task_boundary_count b = count_kind TaskBoundary (br_events b)
    \<and> br_current_epoch b = epoch_name (br_compaction_count b)"
proof -
  obtain leaf where leaf: "select ix fuel events target = Some (Ok leaf)" "trace ix target leaf = Some (Ok b)"
    using assms(1) unfolding resolve_def ix_def [symmetric] Let_def
    by (auto split: if_splits option.splits result.splits)
  obtain pushed truncated where t: "trace_loop ix target (trace_fuel ix) ({}, {}) [] leaf = Some (Ok (pushed, truncated))"
    using leaf(2) by (auto simp: trace_def)
  obtain c where c: "pushed = leaf # c" "chain_ok ix target {} (leaf # c) truncated"
    using trace_loop_Ok [OF t] by auto
  show ?thesis
    using leaf c t by (intro exI [of _ leaf] exI [of _ c] exI [of _ truncated])
      (auto simp: trace_def Let_def)
qed

lemma severed_compaction:
  assumes "k \<in> ix_severed (index_new events responses)"
    "bt_get (ix_events (index_new events responses)) k = Some e"
  shows "ne_kind e = Compaction"
proof -
  have "\<exists>e'. (k, e') \<in> set (ix_events (index_new events responses)) \<and> ne_kind e' = Compaction"
    using assms(1) by (auto simp: index_new_def Let_def)
  then show ?thesis
    using assms(2) bt_get_entry [OF index_wfD(1) [OF index_new_wf]] by (metis option.inject)
qed

lemma missing_parent:
  assumes "parent (index_new events responses) e = Ok None" "ne_parent_id e = Some p" "e' \<in> set events"
    and "\<And>k. lineage_key e = Some k \<Longrightarrow> k \<notin> ix_severed (index_new events responses)"
  shows "\<not> (ne_agent_id e' = ne_agent_id e \<and> ne_event_id e' = Some p)"
proof
  let ?ix = "index_new events responses"
  note wf = index_new_wf [of events responses]
  assume e': "ne_agent_id e' = ne_agent_id e \<and> ne_event_id e' = Some p"
  let ?k = "(ne_agent_id e, ne_branch_id e', p)"
  have "lineage_key e' = Some ?k" using e' by (simp add: lineage_key_def)
  then have "?k \<in> set (bt_keys (ix_events ?ix))"
    using assms(3) by (metis (mono_tags) bt_get_None_iff find_None_iff index_new_events(1))
  then have named: "?k \<in> named_as (ix_events ?ix) (ne_agent_id e, p)" by (simp add: named_as_def)
  then obtain ks where ks: "bt_get (ix_by_agent ?ix) (ne_agent_id e, p) = Some ks"
    using index_wfD(4) [OF wf, of "(ne_agent_id e, p)"] by (cases "bt_get (ix_by_agent ?ix) (ne_agent_id e, p)") auto
  have "ks \<noteq> []" "set ks = named_as (ix_events ?ix) (ne_agent_id e, p)"
    using index_wfD(5) [OF wf ks] by blast+
  then have "bt_get (ix_events ?ix) (hd ks) \<noteq> None"
    using hd_in_set [of ks] bt_get_None_iff [of "ix_events ?ix" "hd ks"] by (simp add: named_as_def)
  then show False
    using assms(1,2,4) ks by (auto simp: parent_def split: option.splits if_splits)
qed

text \<open>
  C22. When the resolver returns a branch, its events are a chain of the transcript: every event after the first
  names its predecessor as its parent and comes from the same agent, no identifier occurs twice, and no event of
  the chain has a second, different definition in the transcript. The last event is the leaf and meets the
  requested agent, branch and event; no event of the chain belongs to another branch than the requested one. The
  chain is marked truncated exactly when its first event still names a parent, and then no event of that agent
  with that identifier is in the transcript, unless the first event is a compaction boundary. The epoch is the
  number of compactions on the chain.
\<close>

theorem resolved_branch_is_a_chain:
  assumes res: "resolve fuel events target responses = Some (Resolved b)"
  shows "br_events b \<noteq> [] \<and> set (br_events b) \<subseteq> set events
    \<and> successively chain_link (br_events b)
    \<and> distinct (List.map_filter ne_event_id (br_events b))
    \<and> (\<forall>e\<in>set (br_events b). \<forall>e'\<in>set events. lineage_key e \<noteq> None \<longrightarrow> lineage_key e' = lineage_key e \<longrightarrow> e' = e)
    \<and> matches_target target (last (br_events b)) \<and> list_all (in_scope target) (br_events b)
    \<and> br_leaf_event_id b = ne_event_id (last (br_events b))
    \<and> (tg_event_id target \<noteq> None \<longrightarrow> br_leaf_event_id b = tg_event_id target)
    \<and> br_ancestor_chain_truncated b = (ne_parent_id (hd (br_events b)) \<noteq> None)
    \<and> (br_ancestor_chain_truncated b \<longrightarrow> ne_kind (hd (br_events b)) = Compaction
         \<or> (\<forall>e'\<in>set events. \<not> (ne_agent_id e' = ne_agent_id (hd (br_events b))
              \<and> ne_event_id e' = ne_parent_id (hd (br_events b)))))
    \<and> br_compaction_count b = count_kind Compaction (br_events b)
    \<and> br_task_boundary_count b = count_kind TaskBoundary (br_events b)
    \<and> br_current_epoch b = epoch_name (count_kind Compaction (br_events b))"
proof -
  let ?ix = "index_new events responses"
  note wf = index_new_wf [of events responses]
  obtain leaf c truncated where sel: "select ?ix fuel events target = Some (Ok leaf)"
    and ok: "chain_ok ?ix target {} (leaf # c) truncated"
    and b: "br_events b = rev (leaf # c)" "br_leaf_event_id b = ne_event_id leaf"
      "br_ancestor_chain_truncated b = truncated" "br_compaction_count b = count_kind Compaction (br_events b)"
      "br_task_boundary_count b = count_kind TaskBoundary (br_events b)"
      "br_current_epoch b = epoch_name (br_compaction_count b)"
    using resolve_Resolved [OF res] by blast
  note C = chain_okD [OF ok]
  note S = select_Ok [OF sel]
  have parents: "indexed ?ix p" if "p \<in> set c" for p by (rule chain_members [OF C(2) wf that])
  have member: "e \<in> set events" if "e \<in> set (leaf # c)" for e
    using that S parents indexed_key [OF wf] indexed_in_transcript by (metis list.set_intros(1) set_ConsD)
  have single: "e' = e" if "e \<in> set (leaf # c)" "e' \<in> set events" "lineage_key e = Some k" "lineage_key e' = Some k"
    for e e' k
  proof -
    have k: "k \<notin> ix_conflicts ?ix" by (rule C(4) [OF that(1,3)])
    show ?thesis
      using index_new_events(2) [OF k member [OF that(1)] that(3)] index_new_events(2) [OF k that(2,4)] by simp
  qed
  have links: "successively chain_link (br_events b)"
    using C(2) child_of_link(1) [OF wf] unfolding b(1) successively_rev by (blast intro: successively_mono)
  have root: "hd (br_events b) = last (leaf # c)" "last (br_events b) = leaf"
    by (simp_all add: b(1) hd_rev last_rev del: rev.simps)
  have missing: "ne_kind (last (leaf # c)) = Compaction
      \<or> (\<forall>e'\<in>set events. \<not> (ne_agent_id e' = ne_agent_id (last (leaf # c)) \<and> ne_event_id e' = ne_parent_id (last (leaf # c))))"
    if tr: truncated
  proof (cases "\<exists>k. lineage_key (last (leaf # c)) = Some k \<and> k \<in> ix_severed ?ix")
    case True
    then obtain k where k: "lineage_key (last (leaf # c)) = Some k" "k \<in> ix_severed ?ix" by blast
    have "indexed ?ix (last (leaf # c))"
      using k(1) S parents last_in_set [of "leaf # c"] by (auto simp: lineage_key_def)
    then show ?thesis using severed_compaction [OF k(2)] k(1) indexed_key [OF wf] by auto
  next
    case False
    then obtain p where "ne_parent_id (last (leaf # c)) = Some p" using tr C(6) by auto
    then show ?thesis using missing_parent [OF C(7) [OF tr]] False by auto
  qed
  have ids: "distinct (List.map_filter ne_event_id (br_events b))"
    using C(5) by (simp add: b(1) List.map_filter_def rev_filter [symmetric] rev_map [symmetric] del: rev.simps)
  have defs: "\<forall>e\<in>set (br_events b). \<forall>e'\<in>set events. lineage_key e \<noteq> None \<longrightarrow> lineage_key e' = lineage_key e \<longrightarrow> e' = e"
    using single unfolding b(1) set_rev by (metis not_None_eq)
  have "set (br_events b) \<subseteq> set events" "list_all (in_scope target) (br_events b)"
    using member C(3) unfolding b(1) by (auto simp: list_all_iff)
  then show ?thesis
    using b(2-) C(6) S links ids defs missing unfolding root by (simp add: b(1))
qed

section \<open>The resolution returns\<close>

definition parent_links :: "Index \<Rightarrow> (EventKey \<times> EventKey) set" where
  "parent_links ix =
     set (List.map_filter (\<lambda>(c, e). case parent ix e of
            Ok (Some pe) \<Rightarrow> map_option (\<lambda>p. (p, c)) (lineage_key pe)
          | _ \<Rightarrow> None) (ix_events ix))"

lemma parent_links_iff:
  assumes "index_wf ix"
  shows "(p, c) \<in> parent_links ix \<longleftrightarrow>
    (\<exists>e pe. bt_get (ix_events ix) c = Some e \<and> parent ix e = Ok (Some pe) \<and> lineage_key pe = Some p)"
  unfolding parent_links_def in_map_filter bt_get_entry [OF index_wfD(1) [OF assms]]
  by (force split: result.splits option.splits)

lemma parent_links_unique:
  "index_wf ix \<Longrightarrow> (p, c) \<in> parent_links ix \<Longrightarrow> (p', c) \<in> parent_links ix \<Longrightarrow> p = p'"
  by (auto simp: parent_links_iff)

lemma parent_links_child:
  assumes "index_wf ix" "(p, c) \<in> parent_links ix"
  shows "c \<in> set (bt_keys (ix_events ix))"
proof -
  obtain e where "bt_get (ix_events ix) c = Some e" using assms parent_links_iff [OF assms(1), of p c] by blast
  then show ?thesis by (rule bt_get_in)
qed

lemma link_loop_parent_of:
  assumes "bt_sorted po"
  shows "bt_sorted (snd (link_loop ix es (ch, po)))"
    "bt_get (snd (link_loop ix es (ch, po))) c = Some p \<Longrightarrow> bt_get po c = Some p
       \<or> (\<exists>e\<in>set es. \<exists>pe. lineage_key e = Some c \<and> parent ix e = Ok (Some pe) \<and> lineage_key pe = Some p)"
proof -
  have "bt_sorted (snd (link_loop ix es (ch, po))) \<and>
    (bt_get (snd (link_loop ix es (ch, po))) c = Some p \<longrightarrow> bt_get po c = Some p
       \<or> (\<exists>e\<in>set es. \<exists>pe. lineage_key e = Some c \<and> parent ix e = Ok (Some pe) \<and> lineage_key pe = Some p))"
    using assms
  proof (induction es arbitrary: ch po)
    case (Cons e es)
    show ?case
    proof (cases "\<exists>k pe pk. lineage_key e = Some k \<and> parent ix e = Ok (Some pe) \<and> lineage_key pe = Some pk")
      case True
      then obtain k pe pk where "lineage_key e = Some k" "parent ix e = Ok (Some pe)" "lineage_key pe = Some pk"
        by blast
      then show ?thesis
        using Cons.IH [OF bt_sorted_insert [OF Cons.prems, of k pk], of "bt_insert pk
          (wrapping_add64 (case bt_get ch pk of Some n \<Rightarrow> n | None \<Rightarrow> 0) 1) ch"]
        by (auto simp: bt_get_insert split: if_splits)
    next
      case False
      then have "link_loop ix (e # es) (ch, po) = link_loop ix es (ch, po)"
        by (auto split: option.splits result.splits)
      then show ?thesis using Cons.IH [OF Cons.prems] by (auto simp del: link_loop.simps)
    qed
  qed simp
  then show "bt_sorted (snd (link_loop ix es (ch, po)))"
    "bt_get (snd (link_loop ix es (ch, po))) c = Some p \<Longrightarrow> bt_get po c = Some p
       \<or> (\<exists>e\<in>set es. \<exists>pe. lineage_key e = Some c \<and> parent ix e = Ok (Some pe) \<and> lineage_key pe = Some p)"
    by blast+
qed

lemma kids_loop_get:
  "bt_get (kids_loop links m) p =
     (let new = map fst (filter (\<lambda>(c, q). q = p) links) in
      case bt_get m p of Some ks \<Rightarrow> Some (ks @ new) | None \<Rightarrow> if new = [] then None else Some new)"
  by (induction links m rule: kids_loop.induct)
    (auto simp: bt_get_insert Let_def split: option.splits)

text \<open>The children a key has in \<open>kids\<close>: each once, and linked to it.\<close>

definition kids_ok :: "Index \<Rightarrow> (EventKey, EventKey list) btree \<Rightarrow> bool" where
  "kids_ok ix kids \<longleftrightarrow>
     (\<forall>p. \<forall>ks. bt_get kids p = Some ks \<longrightarrow> distinct ks \<and> {p} \<times> set ks \<subseteq> parent_links ix)"

lemma kids_okD:
  "kids_ok ix kids \<Longrightarrow> bt_get kids p = Some ks \<Longrightarrow> distinct ks \<and> {p} \<times> set ks \<subseteq> parent_links ix"
  unfolding kids_ok_def by blast

lemma kids_loop_ok:
  assumes wf: "index_wf ix" and po: "parent_of = snd (link_loop ix (bt_values (ix_events ix)) (ch, []))"
  shows "kids_ok ix (kids_loop parent_of [])"
  unfolding kids_ok_def
proof (intro allI impI conjI)
  fix p ks assume "bt_get (kids_loop parent_of []) p = Some ks"
  then have ks: "ks = map fst (filter (\<lambda>(c, q). q = p) parent_of)"
    by (simp add: kids_loop_get Let_def split: if_splits)
  note sorted = link_loop_parent_of(1) [of "[]" ix "bt_values (ix_events ix)" ch, folded po]
  have "distinct (map fst parent_of)" using bt_keys_sorted sorted by (simp add: bt_keys_def)
  then show "distinct ks" unfolding ks by (rule distinct_map_filter)
  show "{p} \<times> set ks \<subseteq> parent_links ix"
  proof
    fix x assume "x \<in> {p} \<times> set ks"
    then obtain c where x: "x = (p, c)" "(c, p) \<in> set parent_of" unfolding ks by auto
    then have "bt_get parent_of c = Some p" using bt_get_entry sorted by force
    then obtain e pe where "e \<in> set (bt_values (ix_events ix))" "lineage_key e = Some c"
        "parent ix e = Ok (Some pe)" "lineage_key pe = Some p"
      using link_loop_parent_of(2) [of "[]" ix "bt_values (ix_events ix)" ch c p, folded po] by auto
    then show "x \<in> parent_links ix"
      using indexed_key [OF wf, of e] parent_links_iff [OF wf, of p c] x(1) by (auto simp: indexed_def)
  qed
qed

text \<open>
  The state of the worklist below \<open>head\<close>: no key is listed twice, all descend from \<open>head\<close>, and each but
  \<open>head\<close> was added by its parent.
\<close>

definition worklist_ok :: "Index \<Rightarrow> EventKey \<Rightarrow> EventKey list \<Rightarrow> EventKey list \<Rightarrow> bool" where
  "worklist_ok ix head seen todo \<longleftrightarrow>
     distinct (seen @ todo) \<and> set (seen @ todo) \<subseteq> set (bt_keys (ix_events ix))
     \<and> (\<forall>x\<in>set (seen @ todo). (head, x) \<in> (parent_links ix)\<^sup>* \<and> (x = head \<or> (\<exists>p\<in>set seen. (p, x) \<in> parent_links ix)))"

lemma worklist_step:
  assumes wf: "index_wf ix" and acyc: "acyclic (parent_links ix)"
    and w: "worklist_ok ix head seen (k # rest)" and ks: "distinct ks" "{k} \<times> set ks \<subseteq> parent_links ix"
  shows "worklist_ok ix head (seen @ [k]) (rest @ ks)"
proof -
  have reach: "(head, c) \<in> (parent_links ix)\<^sup>*" if "c \<in> set ks" for c
    using w ks(2) that unfolding worklist_ok_def by (auto intro: rtrancl_into_rtrancl)
  have fresh: "c \<notin> set (seen @ k # rest)" if c: "c \<in> set ks" for c
  proof
    assume "c \<in> set (seen @ k # rest)"
    then consider "c = head" | p where "p \<in> set seen" "(p, c) \<in> parent_links ix"
      using w unfolding worklist_ok_def by blast
    then show False
    proof cases
      case 1
      have "(head, k) \<in> (parent_links ix)\<^sup>*" using w unfolding worklist_ok_def by simp
      then have "(head, head) \<in> (parent_links ix)\<^sup>+" using ks(2) c 1 by (auto intro: rtrancl_into_trancl1)
      then show False using acyc unfolding acyclic_def by blast
    next
      case 2
      then have "p = k" using parent_links_unique [OF wf] ks(2) c by blast
      then show False using w 2(1) unfolding worklist_ok_def by simp
    qed
  qed
  have keys: "set ks \<subseteq> set (bt_keys (ix_events ix))"
    using ks(2) parent_links_child [OF wf] by blast
  have "set ks \<inter> set (seen @ k # rest) = {}" "k \<notin> set ks"
    using fresh by blast (use fresh [of k] in auto)
  moreover have "\<forall>c\<in>set ks. (head, c) \<in> (parent_links ix)\<^sup>* \<and> (k, c) \<in> parent_links ix"
    using reach ks(2) by blast
  ultimately show ?thesis
    using w ks(1) keys unfolding worklist_ok_def by auto
qed

lemma batch_loop_returns:
  assumes wf: "index_wf ix" and acyc: "acyclic (parent_links ix)" and kids: "kids_ok ix kids"
    and "worklist_ok ix head seen todo" "card (set (bt_keys (ix_events ix))) < length seen + fuel"
  shows "batch_loop ix response own kids fuel seen todo acc \<noteq> None"
  using assms(4,5)
proof (induction fuel arbitrary: seen todo acc)
  case 0
  have "length seen \<le> card (set (bt_keys (ix_events ix)))"
    using 0(1) card_mono [of "set (bt_keys (ix_events ix))" "set seen"] distinct_card [of seen]
    by (simp add: worklist_ok_def)
  then show ?case using 0(2) by simp
next
  case (Suc fuel)
  show ?case
  proof (cases todo)
    case (Cons k rest)
    let ?ks = "case bt_get kids k of Some ks \<Rightarrow> ks | None \<Rightarrow> []"
    have "distinct ?ks" "{k} \<times> set ?ks \<subseteq> parent_links ix"
      using kids_okD [OF kids, of k] by (cases "bt_get kids k"; simp)+
    from worklist_step [OF wf acyc Suc.prems(1) [unfolded Cons] this]
    have "batch_loop ix response own kids fuel (seen @ [k]) (rest @ ?ks) acc' \<noteq> None" for acc'
      using Suc.prems(2) by (intro Suc.IH) simp_all
    then show ?thesis using Cons by (simp split: result.splits)
  qed (simp split: prod.splits)
qed

lemma batch_returns:
  assumes wf: "index_wf ix" and acyc: "acyclic (parent_links ix)" and kids: "kids_ok ix kids"
    and head: "head \<in> set (bt_keys (ix_events ix))" and fuel: "card (set (bt_keys (ix_events ix))) < fuel"
  shows "batch ix fuel head response own kids \<noteq> None"
  unfolding batch_def using head fuel
  by (intro batch_loop_returns [OF wf acyc kids, of head]) (auto simp: worklist_ok_def)

lemma those_map: "\<forall>x\<in>set xs. f x \<noteq> None \<Longrightarrow> those (map f xs) \<noteq> None"
  by (induction xs) (auto split: option.splits)

lemma answered_side_batches_returns:
  assumes wf: "index_wf ix" and acyc: "acyclic (parent_links ix)" and kids: "kids_ok ix kids"
    and fuel: "card (set (bt_keys (ix_events ix))) < fuel"
  shows "answered_side_batches ix fuel kids fork \<noteq> None"
proof -
  have "those (map (\<lambda>child. batch ix fuel child response own kids) children) \<noteq> None"
    if "bt_get kids fork = Some children" for children response own
  proof (intro those_map ballI)
    fix child assume "child \<in> set children"
    then have "(fork, child) \<in> parent_links ix" using kids_okD [OF kids that] by blast
    then have "child \<in> set (bt_keys (ix_events ix))" by (rule parent_links_child [OF wf])
    then show "batch ix fuel child response own kids \<noteq> None" by (rule batch_returns [OF wf acyc kids _ fuel])
  qed
  then show ?thesis
    by (auto simp: answered_side_batches_def Let_def simp del: not_None_eq split: option.splits)
qed

lemma substantive_leaves_returns:
  assumes wf: "index_wf ix"
    and "ix_responses ix = [] \<or> (acyclic (parent_links ix) \<and> card (set (bt_keys (ix_events ix))) < fuel)"
  shows "substantive_leaves ix fuel target \<noteq> None"
proof (cases "ix_responses ix = []")
  case False
  obtain ch po where links: "link_loop ix (bt_values (ix_events ix)) ([], []) = (ch, po)" by fastforce
  have "kids_ok ix (kids_loop po [])" using links by (intro kids_loop_ok [OF wf, of _ "[]"]) simp
  then have "those (map (answered_side_batches ix fuel (kids_loop po [])) (bt_keys (kids_loop po []))) \<noteq> None"
    using assms False by (intro those_map ballI answered_side_batches_returns) auto
  then show ?thesis using False links by (simp add: substantive_leaves_def Let_def del: not_None_eq)
qed (simp add: substantive_leaves_def Let_def split: prod.splits)

lemma index_size: "card (set (bt_keys (ix_events (index_new events responses)))) \<le> length events"
proof -
  have "set (bt_keys (ix_events (index_new events responses))) \<subseteq> (\<lambda>e. the (lineage_key e)) ` set events"
  proof
    fix k assume "k \<in> set (bt_keys (ix_events (index_new events responses)))"
    then have "bt_get (ix_events (index_new events responses)) k \<noteq> None" by (simp only: bt_get_None_iff not_not)
    then have "List.find (\<lambda>e. lineage_key e = Some k) events \<noteq> None" by (simp only: index_new_events(1) not_False_eq_True)
    then obtain e where "e \<in> set events" "lineage_key e = Some k" by (auto simp: find_None_iff)
    then show "k \<in> (\<lambda>e. the (lineage_key e)) ` set events" by force
  qed
  then have "card (set (bt_keys (ix_events (index_new events responses)))) \<le> card (set events)"
    by (meson List.finite_set card_image_le card_mono finite_imageI le_trans)
  then show ?thesis using card_length [of events] by simp
qed

lemma resolve_returns:
  assumes "responses = [] \<or> (acyclic (parent_links (index_new events responses)) \<and> length events < fuel)"
  shows "\<exists>r. resolve fuel events target responses = Some r"
proof (cases "events = []")
  case False
  let ?ix = "index_new events responses"
  note wf = index_new_wf [of events responses]
  have "ix_responses ?ix = responses" by (simp add: index_new_def Let_def)
  then have leaves: "substantive_leaves ?ix fuel target \<noteq> None"
    using assms index_size [of events responses] by (intro substantive_leaves_returns [OF wf]) auto
  have traced: "trace ?ix target e \<noteq> None" if "indexed ?ix e \<or> ne_event_id e = None" for e
    using that indexed_key [OF wf, of e] bt_get_in by (intro trace_returns [OF wf]) (auto simp: lineage_key_def)
  have "select ?ix fuel events target \<noteq> None"
  proof (cases "tg_event_id target = None")
    case True
    have "trace ?ix target e \<noteq> None" if "scan_scope ?ix target (referenced_keys ?ix) (ix_events ?ix) (None, []) = Ok (Some e, ls)"
      for e ls
      using scan_scope_Ok [OF that] by (intro traced) simp
    then show ?thesis using leaves True
      by (auto simp: select_def simp del: not_None_eq split: option.splits result.splits list.splits)
  qed (auto simp: select_def)
  moreover have "trace ?ix target leaf \<noteq> None" if "select ?ix fuel events target = Some (Ok leaf)" for leaf
    using select_Ok [OF that] by (intro traced) auto
  ultimately show ?thesis using False
    by (auto simp: resolve_def Let_def split: option.splits result.splits)
qed (simp add: resolve_def)

text \<open>Steps of the worklist that are not needed change nothing.\<close>

lemma batch_loop_more:
  "batch_loop ix response own kids fuel seen todo acc = Some b \<Longrightarrow> fuel \<le> fuel' \<Longrightarrow>
     batch_loop ix response own kids fuel' seen todo acc = Some b"
proof (induction fuel arbitrary: fuel' seen todo acc)
  case (Suc fuel)
  then obtain n where n: "fuel' = Suc n" "fuel \<le> n" by (cases fuel') auto
  show ?case using Suc.prems(1) Suc.IH [OF _ n(2)] unfolding n(1) by (auto split: list.splits result.splits)
qed simp

lemma batch_more: "batch ix fuel head response own kids \<noteq> None \<Longrightarrow> fuel \<le> fuel' \<Longrightarrow>
    batch ix fuel' head response own kids = batch ix fuel head response own kids"
  unfolding batch_def by (metis batch_loop_more not_None_eq)

lemma those_more: "those (map f xs) \<noteq> None \<Longrightarrow> (\<And>x. f x \<noteq> None \<Longrightarrow> g x = f x) \<Longrightarrow> those (map g xs) = those (map f xs)"
proof (induction xs)
  case (Cons x xs)
  then have some: "f x \<noteq> None" "those (map f xs) \<noteq> None" by (auto split: option.splits)
  have "g x = f x" by (rule Cons.prems(2) [OF some(1)])
  moreover have "those (map g xs) = those (map f xs)" by (rule Cons.IH [OF some(2) Cons.prems(2)])
  ultimately show ?case by (cases "f x") simp_all
qed simp

lemma answered_side_batches_more:
  assumes "answered_side_batches ix fuel kids fork \<noteq> None" "fuel \<le> fuel'"
  shows "answered_side_batches ix fuel' kids fork = answered_side_batches ix fuel kids fork"
proof -
  have "those (map (\<lambda>child. batch ix fuel' child response own kids) children)
      = those (map (\<lambda>child. batch ix fuel child response own kids) children)"
    if "those (map (\<lambda>child. batch ix fuel child response own kids) children) \<noteq> None" for children response own
    using that batch_more [OF _ assms(2)] by (intro those_more)
  then show ?thesis using assms(1)
    by (auto simp: answered_side_batches_def Let_def simp del: not_None_eq split: option.splits if_splits)
qed

lemma substantive_leaves_more:
  assumes "substantive_leaves ix fuel target \<noteq> None" "fuel \<le> fuel'"
  shows "substantive_leaves ix fuel' target = substantive_leaves ix fuel target"
proof (cases "ix_responses ix = []")
  case False
  obtain ch po where links: "link_loop ix (bt_values (ix_events ix)) ([], []) = (ch, po)" by fastforce
  have "those (map (answered_side_batches ix fuel (kids_loop po [])) (bt_keys (kids_loop po []))) \<noteq> None"
    using assms(1) False links by (simp add: substantive_leaves_def Let_def del: not_None_eq)
  then have "those (map (answered_side_batches ix fuel' (kids_loop po [])) (bt_keys (kids_loop po [])))
      = those (map (answered_side_batches ix fuel (kids_loop po [])) (bt_keys (kids_loop po [])))"
    by (rule those_more) (rule answered_side_batches_more [OF _ assms(2)])
  then show ?thesis using False links by (simp add: substantive_leaves_def Let_def)
qed (simp add: substantive_leaves_def Let_def split: prod.splits)

lemma resolve_more:
  assumes "resolve fuel events target responses = Some r" "fuel \<le> fuel'"
  shows "resolve fuel' events target responses = Some r"
proof (cases "events = []")
  case False
  let ?ix = "index_new events responses"
  have "select ?ix fuel events target \<noteq> None"
    using assms(1) False by (cases "select ?ix fuel events target") (simp_all add: resolve_def Let_def)
  then have "select ?ix fuel' events target = select ?ix fuel events target"
    using substantive_leaves_more [OF _ assms(2), of ?ix target]
    by (auto simp: select_def simp del: not_None_eq split: option.splits result.splits list.splits)
  then show ?thesis using assms(1) False by (simp add: resolve_def Let_def)
qed (use assms(1) in \<open>simp add: resolve_def\<close>)

text \<open>
  C36. The resolution returns: without response identities always, and with them whenever the parent links of the
  transcript have no cycle, with one step of the worklist more than there are events; and any greater number of
  steps gives the same result, so the bound is the one of the model only.
\<close>

theorem resolution_returns:
  assumes "responses = [] \<or> (acyclic (parent_links (index_new events responses)) \<and> length events < fuel)"
  shows "\<exists>r. \<forall>fuel'. fuel \<le> fuel' \<longrightarrow> resolve fuel' events target responses = Some r"
  using resolve_returns [OF assms, of target] resolve_more by blast

section \<open>The order of the records\<close>

text \<open>Two indices that agree on everything but the slice positions and the order of the keys an agent names.\<close>

definition same_index :: "Index \<Rightarrow> Index \<Rightarrow> bool" where
  "same_index ix ix' \<longleftrightarrow> ix_events ix' = ix_events ix \<and> ix_conflicts ix' = ix_conflicts ix
     \<and> ix_responses ix' = ix_responses ix \<and> parent ix' = parent ix"

lemma same_indexD:
  assumes "same_index ix ix'"
  shows "ix_events ix' = ix_events ix" "ix_conflicts ix' = ix_conflicts ix" "ix_responses ix' = ix_responses ix"
    "parent ix' = parent ix"
  using assms by (auto simp: same_index_def)

text \<open>Every step of the resolution but the tie-break by slice position reads an index only through these.\<close>

lemma same_trace_visit:
  assumes s: "same_index ix ix'"
  shows "trace_visit ix' = trace_visit ix"
  by (intro ext) (simp only: trace_visit_def same_indexD [OF s])

lemma same_trace_loop:
  assumes s: "same_index ix ix'"
  shows "trace_loop ix' target fuel seen lineage e = trace_loop ix target fuel seen lineage e"
proof (induction fuel arbitrary: seen lineage e)
  case (Suc fuel)
  show ?case unfolding trace_loop.simps same_trace_visit [OF s] same_indexD [OF s] Suc ..
qed simp

lemma same_trace:
  assumes s: "same_index ix ix'"
  shows "trace ix' target e = trace ix target e"
  by (simp only: trace_def trace_fuel_def same_trace_loop [OF s] same_indexD [OF s])

lemma same_link_loop:
  assumes s: "same_index ix ix'"
  shows "link_loop ix' es links = link_loop ix es links"
proof (induction es arbitrary: links)
  case (Cons e es)
  obtain ch po where links: "links = (ch, po)" by (cases links)
  show ?case unfolding links link_loop.simps same_indexD [OF s] Cons ..
qed simp

lemma same_is_notice:
  assumes s: "same_index ix ix'"
  shows "is_notice ix' k = is_notice ix k"
  by (simp only: is_notice_def same_indexD [OF s])

lemma same_prune_notices:
  assumes s: "same_index ix ix'"
  shows "prune_notices ix' po pending st = prune_notices ix po pending st"
  using s
proof (induction ix po pending st rule: prune_notices.induct)
  case (2 ix po k pending st)
  note notice = same_is_notice [OF 2(4)]
  show ?case
  proof (cases "k \<in> snd st \<or> \<not> is_leaf (fst st) k \<or> \<not> is_notice ix k")
    case True
    then show ?thesis
      using 2(1) [OF True 2(4)] prune_notices.simps(2) [of ix po k pending st] prune_notices.simps(2) [of ix' po k pending st]
      unfolding notice by simp
  next
    case False
    obtain p st' where pr: "prune po k st = (p, st')" by (cases "prune po k st")
    show ?thesis
    proof (cases p)
      case None
      have "prune_notices ix' po pending st' = prune_notices ix po pending st'"
        by (rule 2(2) [OF False pr [symmetric] None 2(4)])
      then show ?thesis
        unfolding prune_notices.simps(2) [of ix po k] prune_notices.simps(2) [of ix' po k] notice
        using False pr None by (simp del: prune_notices.simps)
    next
      case (Some q)
      have "prune_notices ix' po (q # pending) st' = prune_notices ix po (q # pending) st'"
        by (rule 2(3) [OF False pr [symmetric] Some 2(4)])
      then show ?thesis
        unfolding prune_notices.simps(2) [of ix po k] prune_notices.simps(2) [of ix' po k] notice
        using False pr Some by (simp del: prune_notices.simps)
    qed
  qed
qed simp

lemma same_side_results:
  assumes s: "same_index ix ix'"
  shows "side_results ix' po st = side_results ix po st"
  by (simp only: side_results_def same_indexD [OF s])

lemma same_is_unlinked:
  assumes s: "same_index ix ix'"
  shows "is_unlinked ix' = is_unlinked ix"
  by (intro ext) (simp only: is_unlinked_def same_indexD [OF s])

lemma same_prune_orphans:
  assumes s: "same_index ix ix'"
  shows "prune_orphans ix' st = prune_orphans ix st"
  by (simp only: prune_orphans_def same_is_unlinked [OF s] same_indexD [OF s])

lemma same_batch_event:
  assumes s: "same_index ix ix'"
  shows "batch_event ix' = batch_event ix"
  by (intro ext) (simp only: batch_event_def of_response_def same_indexD [OF s])

lemma same_batch_loop:
  assumes s: "same_index ix ix'"
  shows "batch_loop ix' response own kids fuel seen todo acc = batch_loop ix response own kids fuel seen todo acc"
proof (induction fuel arbitrary: seen todo acc)
  case (Suc fuel)
  show ?case unfolding batch_loop.simps same_batch_event [OF s] Suc ..
qed simp

lemma same_answered_side_batches:
  assumes s: "same_index ix ix'"
  shows "answered_side_batches ix' = answered_side_batches ix"
  by (intro ext) (simp only: answered_side_batches_def batch_def same_batch_loop [OF s] same_indexD [OF s])

lemma same_substantive_leaves:
  assumes s: "same_index ix ix'"
  shows "substantive_leaves ix' fuel target = substantive_leaves ix fuel target"
  by (simp only: substantive_leaves_def same_link_loop [OF s] same_prune_notices [OF s] same_side_results [OF s]
      same_prune_orphans [OF s] same_answered_side_batches [OF s] same_indexD [OF s])

lemma same_referenced_keys:
  assumes s: "same_index ix ix'"
  shows "referenced_keys ix' = referenced_keys ix"
  by (simp only: referenced_keys_def same_indexD [OF s])

lemma same_scan_scope:
  assumes s: "same_index ix ix'"
  shows "scan_scope ix' target referenced entries acc = scan_scope ix target referenced entries acc"
proof (induction entries arbitrary: acc)
  case (Cons x entries)
  obtain k e where x: "x = (k, e)" by (cases x)
  show ?case unfolding x scan_scope.simps same_indexD [OF s] Cons ..
qed simp

text \<open>The first event with a key does not depend on the order when no two events with the key differ.\<close>

definition conflict_free :: "NormalizedEvent list \<Rightarrow> bool" where
  "conflict_free events \<longleftrightarrow>
     (\<forall>e\<in>set events. \<forall>e'\<in>set events. lineage_key e \<noteq> None \<and> lineage_key e = lineage_key e' \<longrightarrow> e = e')"

lemma conflict_freeD:
  "conflict_free events \<Longrightarrow> e \<in> set events \<Longrightarrow> e' \<in> set events \<Longrightarrow> lineage_key e = Some k \<Longrightarrow> lineage_key e' = Some k
     \<Longrightarrow> e = e'"
  unfolding conflict_free_def by (metis option.distinct(1))

lemma index_loop_no_conflicts:
  assumes "ix_conflicts ix = {}"
    and "\<forall>e\<in>set es. \<forall>k. lineage_key e = Some k \<longrightarrow> (case bt_get (ix_events ix) k of None \<Rightarrow> True | Some e' \<Rightarrow> e' = e)"
    and "conflict_free es"
  shows "ix_conflicts (index_loop i es ix) = {}"
  using assms
proof (induction es arbitrary: i ix)
  case (Cons e es)
  have cf: "conflict_free es" using Cons.prems(3) unfolding conflict_free_def by (meson list.set_intros(2))
  show ?case
  proof (cases "lineage_key e")
    case None
    then show ?thesis using Cons.IH [OF Cons.prems(1) _ cf] Cons.prems(2) by simp
  next
    case (Some k)
    show ?thesis
    proof (cases "bt_get (ix_events ix) k")
      case None
      let ?ix = "ix\<lparr>ix_events := bt_insert k e (ix_events ix), ix_at := bt_insert k i (ix_at ix),
        ix_by_agent := bt_insert (fst k, key_id k)
          ((case bt_get (ix_by_agent ix) (fst k, key_id k) of Some ks \<Rightarrow> ks | None \<Rightarrow> []) @ [k]) (ix_by_agent ix)\<rparr>"
      have "case bt_get (ix_events ?ix) k' of None \<Rightarrow> True | Some e'' \<Rightarrow> e'' = e'"
        if e': "e' \<in> set es" "lineage_key e' = Some k'" for e' k'
      proof (cases "k' = k")
        case True
        then have "e' = e" using conflict_freeD [OF Cons.prems(3), of e' e k] Some e' by simp
        then show ?thesis using True by (simp add: bt_get_insert)
      next
        case False
        have "case bt_get (ix_events ix) k' of None \<Rightarrow> True | Some e'' \<Rightarrow> e'' = e'"
          using Cons.prems(2) e' by (metis list.set_intros(2))
        then show ?thesis using False by (simp add: bt_get_insert)
      qed
      then have "ix_conflicts (index_loop (Suc i) es ?ix) = {}"
        using Cons.prems(1) by (intro Cons.IH [OF _ _ cf] ballI allI impI) simp_all
      then show ?thesis using Some None by (simp add: Let_def)
    next
      case (Some e')
      have "case bt_get (ix_events ix) k of None \<Rightarrow> True | Some e'' \<Rightarrow> e'' = e"
        using Cons.prems(2) \<open>lineage_key e = Some k\<close> by (metis list.set_intros(1))
      then have "e' = e" using Some by simp
      then show ?thesis using Some \<open>lineage_key e = Some k\<close> Cons.IH [OF Cons.prems(1) _ cf] Cons.prems(2) by simp
    qed
  qed
qed simp

lemma closes_cycle_cong:
  assumes "\<And>e. parent ix' e = parent ix e"
  shows "closes_cycle ix' k n e = closes_cycle ix k n e"
proof (induction n arbitrary: e)
  case (Suc n)
  show ?case unfolding closes_cycle.simps assms Suc ..
qed simp

lemma find_unique:
  assumes "\<forall>x\<in>set xs. \<forall>y\<in>set xs. P x \<and> P y \<longrightarrow> x = y" "set ys = set xs"
  shows "List.find P ys = List.find P xs"
proof (cases "List.find P xs")
  case None
  then have "List.find P ys = None" using assms(2) unfolding find_None_iff by simp
  then show ?thesis using None by simp
next
  case (Some x)
  then have "x \<in> set ys" "P x" using assms(2) by (auto simp: find_Some_iff)
  then obtain y where "List.find P ys = Some y" by (cases "List.find P ys") (auto simp: find_None_iff)
  moreover then have "y \<in> set xs" "P y" using assms(2) by (auto simp: find_Some_iff)
  ultimately show ?thesis using assms Some \<open>x \<in> set ys\<close> \<open>P x\<close> by auto
qed

lemma index_new_order:
  assumes events: "set events' = set events" and cf: "conflict_free events"
  shows "same_index (index_new events responses) (index_new events' responses)"
proof -
  let ?init = "\<lparr>ix_events = [], ix_at = [], ix_by_agent = [], ix_conflicts = {}, ix_responses = responses, ix_severed = {}\<rparr>"
  let ?ix = "index_loop 0 events ?init" and ?ix' = "index_loop 0 events' ?init"
  have wf: "index_wf ?ix" "index_wf ?ix'"
    by (rule index_loop_wf, simp add: index_wf_def index_maps_wf_def named_as_def)+
  have cf': "conflict_free events'" using cf events by (simp add: conflict_free_def)
  have conflicts: "ix_conflicts ?ix = {}" "ix_conflicts ?ix' = {}"
    by (rule index_loop_no_conflicts; simp add: cf cf')+
  have evs: "ix_events ?ix' = ix_events ?ix"
  proof (rule bt_ext [OF index_wfD(1) [OF wf(2)] index_wfD(1) [OF wf(1)]])
    fix k
    have "List.find (\<lambda>e. lineage_key e = Some k) events' = List.find (\<lambda>e. lineage_key e = Some k) events"
      by (intro find_unique events ballI impI) (elim conjE, rule conflict_freeD [OF cf])
    then show "bt_get (ix_events ?ix') k = bt_get (ix_events ?ix) k" by (simp add: index_loop_events)
  qed
  have p: "parent ?ix' e = parent ?ix e" for e
    by (simp add: parent_eq_spec [OF wf(1)] parent_eq_spec [OF wf(2)] evs)
  have cycles: "closes_cycle ?ix' = closes_cycle ?ix" by (intro ext) (rule closes_cycle_cong [OF p])
  have severed: "ix_severed (index_new events' responses) = ix_severed (index_new events responses)"
    unfolding index_new_def Let_def cycles evs by simp
  have evs': "ix_events (index_new events' responses) = ix_events (index_new events responses)"
    by (simp add: index_new_def Let_def evs)
  have "parent (index_new events' responses) = parent (index_new events responses)"
    by (intro ext) (simp add: parent_eq_spec [OF index_new_wf] evs' severed)
  then show ?thesis
    unfolding same_index_def using conflicts evs' by (simp add: index_new_def Let_def)
qed

lemma no_unlinked_compaction:
  assumes "\<forall>e\<in>set events. \<not> (ne_kind e = Compaction \<and> is_unlinked ix e)"
  shows "after_unlinked_compaction ix events leaves = None"
proof -
  have "List.find (\<lambda>(i, e). ne_kind e = Compaction \<and> is_unlinked ix e) (rev (List.enumerate 0 events)) = None"
    using assms by (auto simp: find_None_iff in_set_enumerate_eq)
  then show ?thesis by (simp add: after_unlinked_compaction_def)
qed

text \<open>
  The order of the records in the transcript does not decide the branch: for two orders of the same events, when
  no identifier has two definitions and no compaction names a parent that is missing, the resolution is the same.
\<close>

theorem record_order_irrelevant:
  assumes perm: "mset events' = mset events" and cf: "conflict_free events"
    and linked: "\<forall>e\<in>set events. \<not> (ne_kind e = Compaction \<and> is_unlinked (index_new events responses) e)"
  shows "resolve fuel events' target responses = resolve fuel events target responses"
proof -
  let ?ix = "index_new events responses" and ?ix' = "index_new events' responses"
  have sets: "set events' = set events" and len: "length events' = length events"
    using perm by (auto dest: mset_eq_setD mset_eq_length)
  note s = index_new_order [OF sets cf, of responses]
  have one: "length events = 1 \<and> ne_event_id (hd events') = None \<and> matches_target target (hd events')
      \<longleftrightarrow> length events = 1 \<and> ne_event_id (hd events) = None \<and> matches_target target (hd events)"
    and hd: "length events = 1 \<Longrightarrow> hd events' = hd events"
    using len perm by (cases events; cases events'; auto)+
  have none: "after_unlinked_compaction ?ix' events' ls = None" "after_unlinked_compaction ?ix events ls = None" for ls
    using linked sets by (intro no_unlinked_compaction; simp add: same_is_unlinked [OF s])+
  have "select ?ix' fuel events' target = select ?ix fuel events target"
    unfolding select_def none len one
    unfolding same_substantive_leaves [OF s] same_scan_scope [OF s] same_referenced_keys [OF s] same_trace [OF s]
      same_indexD [OF s]
    using hd by (auto split: option.splits result.splits list.splits)
  moreover have "events' = [] \<longleftrightarrow> events = []" using len by auto
  ultimately show ?thesis by (simp only: resolve_def Let_def same_trace [OF s])
qed

section \<open>Examples\<close>

definition demo_event :: "string \<Rightarrow> string option \<Rightarrow> Role \<Rightarrow> EventKind \<Rightarrow> string option \<Rightarrow> NormalizedEvent" where
  "demo_event i p r k call =
     \<lparr>ne_event_id = Some (scalars i), ne_parent_id = map_option scalars p, ne_turn_id = None, ne_agent_id = None,
      ne_branch_id = None, ne_role = r, ne_kind = k, ne_timestamp_unix_ms = None, ne_text = [],
      ne_tool = map_option (\<lambda>c. \<lparr>te_call_id = Some (scalars c), te_name = scalars ''Read'', te_status = ToolUnknown,
        te_arguments = None, te_result = None\<rparr>) call\<rparr>"

definition demo_target :: BranchResolutionTarget where
  "demo_target = \<lparr>tg_event_id = None, tg_branch_id = None, tg_agent_id = None\<rparr>"

text \<open>
  One response with two parallel calls: the first result is filed beside the second call, and the conversation
  goes on below the second one; a compaction follows.
\<close>

definition demo_transcript :: "NormalizedEvent list" where
  "demo_transcript =
     [demo_event ''u'' None RoleUser EvMessage None,
      demo_event ''a'' (Some ''u'') RoleAssistant ToolInvocation (Some ''1''),
      demo_event ''b'' (Some ''a'') RoleAssistant ToolInvocation (Some ''2''),
      demo_event ''ra'' (Some ''a'') RoleTool ToolResult (Some ''1''),
      demo_event ''rb'' (Some ''b'') RoleTool ToolResult (Some ''2''),
      demo_event ''c'' (Some ''rb'') RoleSystem Compaction None,
      demo_event ''n'' (Some ''c'') RoleUser EvMessage None]"

definition demo_responses :: "(EventId, str) btree" where
  "demo_responses = [(scalars ''a'', scalars ''r''), (scalars ''b'', scalars ''r'')]"

lemma demo_resolved:
  "\<exists>b. resolve 8 demo_transcript demo_target demo_responses = Some (Resolved b)
     \<and> map ne_event_id (br_events b) = map (\<lambda>i. Some (scalars i)) [''u'', ''a'', ''b'', ''rb'', ''c'', ''n'']"
proof -
  have "(case resolve 8 demo_transcript demo_target demo_responses of
      Some (Resolved b) \<Rightarrow> map ne_event_id (br_events b) = map (\<lambda>i. Some (scalars i)) [''u'', ''a'', ''b'', ''rb'', ''c'', ''n'']
    | _ \<Rightarrow> False)"
    by code_simp
  then show ?thesis by (auto split: option.splits BranchResolution.splits)
qed

lemma demo_links:
  "parent_links (index_new demo_transcript demo_responses) =
     (\<lambda>(p, c). ((None, None, scalars p), (None, None, scalars c))) `
       {(''u'', ''a''), (''a'', ''b''), (''a'', ''ra''), (''b'', ''rb''), (''rb'', ''c''), (''c'', ''n'')}"
  by code_simp

lemma demo_acyclic: "acyclic (parent_links (index_new demo_transcript demo_responses))"
proof (rule acyclicI_order)
  fix p c assume link: "(p, c) \<in> parent_links (index_new demo_transcript demo_responses)"
  show "length (takeWhile (\<lambda>i. scalars i \<noteq> key_id c) [''n'', ''c'', ''rb'', ''ra'', ''b'', ''a'', ''u''])
      < length (takeWhile (\<lambda>i. scalars i \<noteq> key_id p) [''n'', ''c'', ''rb'', ''ra'', ''b'', ''a'', ''u''])"
  proof -
    obtain x where "x \<in> {(''u'', ''a''), (''a'', ''b''), (''a'', ''ra''), (''b'', ''rb''), (''rb'', ''c''), (''c'', ''n'')}"
        "(p, c) = ((None, None, scalars (fst x)), (None, None, scalars (snd x)))"
      using link unfolding demo_links image_def case_prod_beta mem_Collect_eq by blast
    then show ?thesis by (elim insertE emptyE; simp)
  qed
qed

theorem resolved_branch_is_a_chain_witness:
  "\<exists>b. resolve 8 demo_transcript demo_target demo_responses = Some (Resolved b)
     \<and> length (br_events b) = 6 \<and> set (br_events b) \<subseteq> set demo_transcript \<and> successively chain_link (br_events b)"
proof -
  obtain b where b: "resolve 8 demo_transcript demo_target demo_responses = Some (Resolved b)"
      "map ne_event_id (br_events b) = map (\<lambda>i. Some (scalars i)) [''u'', ''a'', ''b'', ''rb'', ''c'', ''n'']"
    using demo_resolved by blast
  have "length (br_events b) = 6" using arg_cong [OF b(2), of length] by simp
  then show ?thesis using b(1) resolved_branch_is_a_chain [OF b(1)] by blast
qed

theorem resolution_returns_witness:
  "acyclic (parent_links (index_new demo_transcript demo_responses)) \<and> length demo_transcript < 8
   \<and> (\<exists>r. resolve 8 demo_transcript demo_target demo_responses = Some r
          \<and> resolve 100 demo_transcript demo_target demo_responses = Some r)"
proof -
  have few: "length demo_transcript < 8" by (simp add: demo_transcript_def)
  obtain r where r: "\<forall>fuel'. 8 \<le> fuel' \<longrightarrow> resolve fuel' demo_transcript demo_target demo_responses = Some r"
    using resolution_returns [of demo_responses demo_transcript 8 demo_target] demo_acyclic few by blast
  have "resolve 8 demo_transcript demo_target demo_responses = Some r"
    "resolve 100 demo_transcript demo_target demo_responses = Some r" using r by simp_all
  then show ?thesis using demo_acyclic few by blast
qed

theorem record_order_irrelevant_witness:
  "mset (rev demo_transcript) = mset demo_transcript \<and> rev demo_transcript \<noteq> demo_transcript
   \<and> resolve 8 (rev demo_transcript) demo_target demo_responses = resolve 8 demo_transcript demo_target demo_responses"
proof -
  have "conflict_free demo_transcript" by code_simp
  moreover have "\<forall>e\<in>set demo_transcript. \<not> (ne_kind e = Compaction \<and> is_unlinked (index_new demo_transcript demo_responses) e)"
    by code_simp
  moreover have "rev demo_transcript \<noteq> demo_transcript" by (simp add: demo_transcript_def demo_event_def)
  ultimately show ?thesis
    using record_order_irrelevant [of "rev demo_transcript" demo_transcript demo_responses 8 demo_target] by simp
qed

section \<open>A cyclic transcript\<close>

definition cyclic_transcript :: "NormalizedEvent list" where
  "cyclic_transcript =
     [demo_event ''a'' (Some ''b'') RoleAssistant ToolInvocation (Some ''1''),
      demo_event ''b'' (Some ''a'') RoleAssistant ToolInvocation (Some ''2''),
      demo_event ''c'' (Some ''a'') RoleTool ToolResult (Some ''1''),
      demo_event ''d'' None RoleUser EvMessage None]"

abbreviation demo_key :: "string \<Rightarrow> EventKey" where "demo_key i \<equiv> (None, None, scalars i)"

definition cyclic_kids :: "(EventKey, EventKey list) btree" where
  "cyclic_kids = [(demo_key ''a'', [demo_key ''b'', demo_key ''c'']), (demo_key ''b'', [demo_key ''a''])]"

definition cyclic_index :: Index where
  "cyclic_index = index_new cyclic_transcript demo_responses"

lemma cyclic_kids_eq:
  "kids_loop (snd (link_loop cyclic_index (bt_values (ix_events cyclic_index)) ([], []))) [] = cyclic_kids"
  by code_simp

lemma cyclic_kids_get:
  "bt_get cyclic_kids (demo_key ''a'') = Some [demo_key ''b'', demo_key ''c'']"
  "bt_get cyclic_kids (demo_key ''b'') = Some [demo_key ''a'']"
  by code_simp+

lemma cyclic_events_get:
  "bt_get (ix_events cyclic_index) (demo_key ''a'') = Some (cyclic_transcript ! 0)"
  "bt_get (ix_events cyclic_index) (demo_key ''b'') = Some (cyclic_transcript ! 1)"
  "bt_get (ix_events cyclic_index) (demo_key ''c'') = Some (cyclic_transcript ! 2)"
  by code_simp+

lemma cyclic_responses:
  "of_response cyclic_index (demo_key ''a'') (scalars ''r'')" "of_response cyclic_index (demo_key ''b'') (scalars ''r'')"
  by code_simp+

lemma cyclic_batch_event:
  assumes "k \<in> {demo_key ''a'', demo_key ''b'', demo_key ''c''}"
  shows "\<exists>acc'. batch_event cyclic_index (scalars ''r'') k acc = Ok acc'"
  using assms cyclic_responses
  by (cases acc)
    (auto simp: batch_event_def Let_def cyclic_events_get cyclic_transcript_def demo_event_def call_id_def)

lemma cyclic_batch_diverges:
  assumes "set todo \<subseteq> {demo_key ''a'', demo_key ''b'', demo_key ''c''}" "demo_key ''a'' \<in> set todo \<or> demo_key ''b'' \<in> set todo"
  shows "batch_loop cyclic_index (scalars ''r'') own cyclic_kids fuel seen todo acc = None"
  using assms
proof (induction fuel arbitrary: seen todo acc)
  case (Suc fuel)
  then obtain k rest where todo: "todo = k # rest" by (cases todo) auto
  then obtain acc' where acc': "batch_event cyclic_index (scalars ''r'') k acc = Ok acc'"
    using cyclic_batch_event [of k acc] Suc.prems(1) by auto
  let ?ks = "case bt_get cyclic_kids k of Some ks \<Rightarrow> ks | None \<Rightarrow> []"
  have "set (rest @ ?ks) \<subseteq> {demo_key ''a'', demo_key ''b'', demo_key ''c''}
      \<and> (demo_key ''a'' \<in> set (rest @ ?ks) \<or> demo_key ''b'' \<in> set (rest @ ?ks))"
    using Suc.prems todo by (auto simp: cyclic_kids_get cyclic_kids_def bt_get_def)
  then show ?case using Suc.IH todo acc' by simp
qed simp

text \<open>
  C39. The worklist that classifies the calls below a tool call has no bound and no record of the keys it has
  visited: on a transcript whose parent links form a cycle through two calls of one response, with a result
  below one of them and another leaf elsewhere, the resolution does not return, with any number of rounds.
\<close>

theorem cyclic_transcript_does_not_return:
  "resolve fuel cyclic_transcript demo_target demo_responses = None"
proof -
  have scan: "scan_scope cyclic_index demo_target (referenced_keys cyclic_index) (ix_events cyclic_index) (None, [])
      = Ok (Some (cyclic_transcript ! 0), [cyclic_transcript ! 2, cyclic_transcript ! 3])"
    by code_simp
  have "bt_get (ix_responses cyclic_index) (scalars ''a'') = Some (scalars ''r'')" "ix_responses cyclic_index \<noteq> []"
    by code_simp+
  then have side: "answered_side_batches cyclic_index fuel cyclic_kids (demo_key ''a'') = None"
    using cyclic_batch_diverges [of "[demo_key ''b'']"]
    by (simp add: answered_side_batches_def batch_def cyclic_events_get cyclic_kids_get)
      (simp add: cyclic_transcript_def demo_event_def)
  have "substantive_leaves cyclic_index fuel demo_target = None"
    using side \<open>ix_responses cyclic_index \<noteq> []\<close> cyclic_kids_eq
    by (auto simp: substantive_leaves_def Let_def bt_keys_def cyclic_kids_def split: prod.splits)
  moreover have "tg_event_id demo_target = None" "cyclic_transcript \<noteq> []"
    by (simp_all add: demo_target_def cyclic_transcript_def)
  ultimately show ?thesis
    by (simp add: resolve_def Let_def cyclic_index_def [symmetric] select_def scan)
qed

end
