(* ===== verification/Loaded_State.thy ===== *)
theory Loaded_State
  imports Lineage
begin

text \<open>
  Model of the loaded-state check of \<open>src/src/context/branch.rs\<close>: what a load record must show before
  a skill that is already in the context is withheld from the candidates.
\<close>

datatype SkillUsageKind = UsageReference | UsageWorkflow | UsageUnknown

record LoadedSkillRecord =
  ld_skill_id :: SkillId
  ld_event_id :: "EventId option"
  ld_turn_id :: "TurnId option"
  ld_usage_kind :: SkillUsageKind
  ld_epoch :: ContextEpoch
  ld_source_content :: "ContentHash option"
  ld_rendered_content :: "ContentHash option"
  ld_has_dynamic_arguments :: bool
  ld_turn_scoped :: bool

datatype SkillSuppressionVerdict = Suppressed SkillId string | StillEligible SkillId string

fun is_suppressed :: "SkillSuppressionVerdict \<Rightarrow> bool" where
  "is_suppressed (Suppressed _ _) = True"
| "is_suppressed (StillEligible _ _) = False"

text \<open>The loop over the load records: each \<open>continue\<close> of the source is one guard.\<close>

fun proving_record ::
  "SkillId \<Rightarrow> ContentHash option \<Rightarrow> ContentHash option \<Rightarrow> EventId set \<Rightarrow> ContextEpoch
     \<Rightarrow> LoadedSkillRecord list \<Rightarrow> bool" where
  "proving_record i src rend ids epoch [] = False"
| "proving_record i src rend ids epoch (r # rs) =
     (if ld_skill_id r \<noteq> i then proving_record i src rend ids epoch rs
      else if \<not> (case ld_event_id r of Some e \<Rightarrow> e \<in> ids | None \<Rightarrow> False) then proving_record i src rend ids epoch rs
      else if ld_epoch r \<noteq> epoch then proving_record i src rend ids epoch rs
      else if ld_has_dynamic_arguments r then proving_record i src rend ids epoch rs
      else if ld_turn_scoped r then proving_record i src rend ids epoch rs
      else if src = None \<or> src \<noteq> ld_source_content r then proving_record i src rend ids epoch rs
      else if (case (rend, ld_rendered_content r) of (Some c, Some l) \<Rightarrow> c \<noteq> l | _ \<Rightarrow> False)
      then proving_record i src rend ids epoch rs
      else True)"

definition evaluate_loaded_skill_eligibility ::
  "SkillId \<Rightarrow> SkillUsageKind \<Rightarrow> ContentHash option \<Rightarrow> ContentHash option \<Rightarrow> ActiveBranch option
     \<Rightarrow> LoadedSkillRecord list \<Rightarrow> SkillSuppressionVerdict" where
  "evaluate_loaded_skill_eligibility i usage src rend branch records =
     (case branch of
        None \<Rightarrow> StillEligible i ''active branch is unresolved; loaded-state suppression withheld''
      | Some b \<Rightarrow>
        if usage \<noteq> UsageReference
        then StillEligible i ''workflows and unknown usage kinds remain eligible for re-invocation''
        else if proving_record i src rend (event_id_set b) (br_current_epoch b) records
        then Suppressed i ''reusable reference is proven available in current epoch with matching version''
        else StillEligible i ''no matching reusable reference proven available in current epoch'')"

section \<open>Loaded-state suppression\<close>

text \<open>What one load record must show for a candidate, and that the loop looks for such a record.\<close>

definition proves_presence ::
  "SkillId \<Rightarrow> ContentHash option \<Rightarrow> ContentHash option \<Rightarrow> EventId set \<Rightarrow> ContextEpoch \<Rightarrow> LoadedSkillRecord \<Rightarrow> bool" where
  "proves_presence i src rend ids epoch r \<longleftrightarrow>
     ld_skill_id r = i \<and> (\<exists>e \<in> ids. ld_event_id r = Some e) \<and> ld_epoch r = epoch
     \<and> \<not> ld_has_dynamic_arguments r \<and> \<not> ld_turn_scoped r
     \<and> src \<noteq> None \<and> ld_source_content r = src
     \<and> (rend = None \<or> ld_rendered_content r = None \<or> ld_rendered_content r = rend)"

lemma proving_record_iff:
  "proving_record i src rend ids epoch rs \<longleftrightarrow> (\<exists>r \<in> set rs. proves_presence i src rend ids epoch r)"
proof (induction rs)
  case (Cons r rs)
  have "proving_record i src rend ids epoch (r # rs) \<longleftrightarrow>
      proves_presence i src rend ids epoch r \<or> proving_record i src rend ids epoch rs"
    unfolding proves_presence_def
    by (cases "ld_event_id r"; cases rend; cases "ld_rendered_content r") auto
  then show ?case using Cons.IH by auto
qed simp

lemma event_id_set_iff: "i \<in> event_id_set b \<longleftrightarrow> contains_event b i"
  by (auto simp: event_id_set_def contains_event_def in_map_filter list_ex_iff)

end
