(* ===== verification/Roster.thy ===== *)
theory Roster
  imports Identity Resource_Limits Ordered_Map "HOL-Library.Product_Lexorder"
begin

text \<open>
  Model of the roster records of \<open>src/src/roster/mod.rs\<close> and of
  \<open>src/src/roster/resolution.rs\<close> up to the request-local option map: building entries from
  bytes read, grouping the bindings of one physical file, resolving name collisions by verified
  priority, exact lookup by identity and by name, and the advisory candidates. \<open>PrivateText\<close>,
  \<open>LocalPath\<close> and the validated names are text. The calls of \<open>budget\<close> (cancellation and
  deadline) are numbered: \<open>bud n\<close> is the error the \<open>n\<close>-th call reports, if any. The metadata
  parser and the identity hash are arguments of \<open>entry_from_read\<close>.
\<close>

section \<open>Records\<close>

datatype Visibility = Verified str | Shadowed SkillId | Ambiguous | Unverified

fun is_verified :: "Visibility \<Rightarrow> bool" where
  "is_verified (Verified _) = True"
| "is_verified _ = False"

datatype UsageKind = Reference | Workflow | UnknownUsage

record InvocationRestrictions =
  ir_agent_invocable :: bool
  ir_user_invocable :: bool

datatype InvocationKind = AgentInvocation | ManualOnly | ForbiddenInvocation

definition explicit_kind :: "InvocationRestrictions \<Rightarrow> InvocationKind" where
  "explicit_kind r =
     (if ir_agent_invocable r then AgentInvocation
      else if ir_user_invocable r then ManualOnly
      else ForbiddenInvocation)"

definition invocation_name_new :: "str \<Rightarrow> (InvocationName, IdentityError) result" where
  "invocation_name_new name =
     (if name = [] then Err IdEmpty
      else if str_len name > MAX_ID_BYTES then Err IdTooLong
      else if list_ex forbidden_identity_character name then Err IdInvalidCharacter
      else Ok name)"

definition display_name_from_text :: "str \<Rightarrow> str" where
  "display_name_from_text s = filter (\<lambda>c. \<not> is_control c \<and> \<not> is_directional c) s"

datatype LoadTarget = FileTarget str | HarnessTarget str

record SkillAlias =
  al_source :: SourceId
  al_invocation :: InvocationName

datatype ParseWarning = MissingFrontmatter | TruncatedOptionalField | UnsupportedOptionalMetadata

record SkillRecord =
  sk_id :: SkillId
  sk_source :: SourceId
  sk_source_priority :: int
  sk_invocation_name :: InvocationName
  sk_display_name :: str
  sk_target :: LoadTarget
  sk_source_content :: ContentHash
  sk_rendered_content :: "ContentHash option"
  sk_visibility :: Visibility
  sk_restrictions :: InvocationRestrictions
  sk_usage_kind :: UsageKind
  sk_forked_context :: bool
  sk_dynamic_content :: bool
  sk_aliases :: "SkillAlias list"
  sk_description_full :: str
  sk_description_short :: str
  sk_body_excerpt :: str
  sk_body_window :: str
  sk_tags :: "str list"
  sk_phases :: "str list"
  sk_parse_warnings :: "ParseWarning list"

datatype ResolutionError =
    InvalidBinding | DuplicateId | ChangedFile | UnsupportedLayout | ReadFailed | Oversized
  | MetadataInvalid | LimitReached | ResolutionCancelled | ResolutionDeadline | IneligibleOption
  | DuplicateOption | UnknownOption

record BindingSpec =
  bs_source :: SourceId
  bs_logical_key :: LogicalSkillKey
  bs_invocation :: InvocationName
  bs_priority :: "int option"
  bs_visibility :: Visibility
  bs_restrictions :: InvocationRestrictions

record Binding =
  bi_id :: SkillId
  bi_source :: SourceId
  bi_invocation :: InvocationName
  bi_visibility :: Visibility
  bi_restrictions :: InvocationRestrictions
  bi_priority :: "int option"

type_synonym FileIdentity = "u64 \<times> u64"

record BoundedRead =
  rd_bytes :: "nat list"
  rd_content_hash :: ContentHash
  rd_identity :: FileIdentity
  rd_path :: str

record ParsedSkillMetadata =
  pm_name :: "str option"
  pm_description_full :: str
  pm_description_short :: str
  pm_body_excerpt :: str
  pm_body_window :: str
  pm_agent_invocable :: bool
  pm_user_invocable :: bool
  pm_usage_kind :: UsageKind
  pm_tags :: "str list"
  pm_phases :: "str list"
  pm_forked_context :: bool
  pm_dynamic_content :: bool
  pm_parse_warnings :: "ParseWarning list"

record SkillEntry =
  se_record :: SkillRecord
  se_binding :: Binding
  se_identity :: FileIdentity
  se_bytes :: usize

definition entry_from_read ::
  "(SourceId \<Rightarrow> LogicalSkillKey \<Rightarrow> SkillId) \<Rightarrow> (nat list \<Rightarrow> ParsedSkillMetadata option)
     \<Rightarrow> BindingSpec \<Rightarrow> BoundedRead \<Rightarrow> (SkillEntry, ResolutionError) result" where
  "entry_from_read from_source parse_skill_metadata spec read =
     (if \<not> (case bs_visibility spec of
               Verified contract_version \<Rightarrow> contract_version \<noteq> [] \<and> str_len contract_version \<le> 512
             | Unverified \<Rightarrow> True
             | _ \<Rightarrow> False)
      then Err InvalidBinding
      else case parse_skill_metadata (rd_bytes read) of
        None \<Rightarrow> Err MetadataInvalid
      | Some md \<Rightarrow>
        let sid = from_source (bs_source spec) (bs_logical_key spec);
            restrictions =
              \<lparr>ir_agent_invocable = ir_agent_invocable (bs_restrictions spec) \<and> pm_agent_invocable md,
               ir_user_invocable = ir_user_invocable (bs_restrictions spec) \<and> pm_user_invocable md\<rparr>
        in Ok \<lparr>
          se_record = \<lparr>sk_id = sid, sk_source = bs_source spec,
            sk_source_priority = (case bs_priority spec of Some p \<Rightarrow> p | None \<Rightarrow> 0),
            sk_invocation_name = bs_invocation spec,
            sk_display_name = display_name_from_text
              (case pm_name md of Some n \<Rightarrow> n | None \<Rightarrow> bs_invocation spec),
            sk_target = FileTarget (rd_path read), sk_source_content = rd_content_hash read,
            sk_rendered_content = None, sk_visibility = bs_visibility spec,
            sk_restrictions = restrictions, sk_usage_kind = pm_usage_kind md,
            sk_forked_context = pm_forked_context md, sk_dynamic_content = pm_dynamic_content md,
            sk_aliases = [], sk_description_full = pm_description_full md,
            sk_description_short = pm_description_short md, sk_body_excerpt = pm_body_excerpt md,
            sk_body_window = pm_body_window md, sk_tags = pm_tags md, sk_phases = pm_phases md,
            sk_parse_warnings = pm_parse_warnings md\<rparr>,
          se_binding = \<lparr>bi_id = sid, bi_source = bs_source spec, bi_invocation = bs_invocation spec,
            bi_visibility = bs_visibility spec, bi_restrictions = restrictions,
            bi_priority = bs_priority spec\<rparr>,
          se_identity = rd_identity read, se_bytes = length (rd_bytes read)\<rparr>)"

record ResolvedSkill =
  rk_record :: SkillRecord
  rk_bindings :: "Binding list"

record AdvisorySkill =
  as_record :: SkillRecord
  as_binding :: Binding

datatype ExactResolution =
    ExactResolved SkillId InvocationName InvocationKind
  | ExactMissing | ExactAmbiguous | ExactShadowed | ExactUnverified | ExactForbidden

type_synonym position = "usize \<times> usize"

record ResolvedRoster =
  ro_skills :: "ResolvedSkill list"
  ro_ids :: "(SkillId, position) btree"
  ro_names :: "(str, position list) btree"
  ro_partial :: bool
  ro_diagnostics :: "(usize \<times> ResolutionError) list"

definition empty_roster :: "bool \<Rightarrow> ResolvedRoster" where
  "empty_roster partial =
     \<lparr>ro_skills = [], ro_ids = [], ro_names = [], ro_partial = partial, ro_diagnostics = []\<rparr>"

definition binding_at :: "ResolvedSkill list \<Rightarrow> position \<Rightarrow> Binding" where
  "binding_at skills p = rk_bindings (skills ! fst p) ! snd p"

definition set_binding :: "position \<Rightarrow> Binding \<Rightarrow> ResolvedSkill list \<Rightarrow> ResolvedSkill list" where
  "set_binding p b skills =
     skills[fst p := (skills ! fst p)\<lparr>rk_bindings := (rk_bindings (skills ! fst p))[snd p := b]\<rparr>]"

section \<open>Collision resolution\<close>

definition no_restrictions :: InvocationRestrictions where
  "no_restrictions = \<lparr>ir_agent_invocable = True, ir_user_invocable = True\<rparr>"

definition tighten :: "InvocationRestrictions \<Rightarrow> InvocationRestrictions \<Rightarrow> InvocationRestrictions" where
  "tighten r q =
     \<lparr>ir_agent_invocable = ir_agent_invocable r \<and> ir_agent_invocable q,
      ir_user_invocable = ir_user_invocable r \<and> ir_user_invocable q\<rparr>"

definition strictest :: "Binding list \<Rightarrow> InvocationRestrictions" where
  "strictest bs = foldl (\<lambda>r b. tighten r (bi_restrictions b)) no_restrictions bs"

definition highest_priority :: "ResolvedSkill list \<Rightarrow> position list \<Rightarrow> int option" where
  "highest_priority skills positions =
     (let priorities = List.map_filter (\<lambda>p. bi_priority (binding_at skills p)) positions
      in if priorities = [] then None else Some (Max (set priorities)))"

text \<open>\<open>BTreeSet::first\<close> of the winning files is their minimum.\<close>

definition collision_winner :: "ResolvedSkill list \<Rightarrow> position list \<Rightarrow> usize option" where
  "collision_winner skills positions =
     (let first = binding_at skills (hd positions);
          comparable = is_verified (bi_visibility first)
            \<and> list_all (\<lambda>p. bi_visibility (binding_at skills p) = bi_visibility first
                 \<and> bi_priority (binding_at skills p) \<noteq> None) positions;
          highest = highest_priority skills positions;
          winners = set (map fst (filter (\<lambda>p. bi_priority (binding_at skills p) = highest) positions))
      in if comparable \<and> card winners = 1 then Some (Min winners) else None)"

definition settled_binding ::
  "usize option \<Rightarrow> SkillId option \<Rightarrow> int option \<Rightarrow> InvocationRestrictions \<Rightarrow> position \<Rightarrow> Binding \<Rightarrow> Binding" where
  "settled_binding winner winner_id highest restrictions p b =
     (case winner_id of
        Some wid \<Rightarrow>
          if Some (fst p) \<noteq> winner \<or> bi_priority b \<noteq> highest
          then b\<lparr>bi_visibility := Shadowed wid\<rparr>
          else b\<lparr>bi_restrictions := restrictions\<rparr>
      | None \<Rightarrow> b\<lparr>bi_visibility := Ambiguous\<rparr>)"

definition resolve_collision :: "ResolvedSkill list \<Rightarrow> position list \<Rightarrow> ResolvedSkill list" where
  "resolve_collision skills positions =
     (if card (set (map fst positions)) = 1
      then
        let restrictions = strictest (map (binding_at skills) positions) in
        fold (\<lambda>p sks. set_binding p ((binding_at sks p)\<lparr>bi_restrictions := restrictions\<rparr>) sks) positions skills
      else
        let highest = highest_priority skills positions;
            winner = collision_winner skills positions;
            winner_id = map_option (\<lambda>s. sk_id (rk_record (skills ! s))) winner;
            restrictions = strictest (map (binding_at skills)
              (filter (\<lambda>p. Some (fst p) = winner \<and> bi_priority (binding_at skills p) = highest) positions))
        in fold (\<lambda>p sks. set_binding p
                   (settled_binding winner winner_id highest restrictions p (binding_at sks p)) sks)
             positions skills)"

section \<open>Resolution\<close>

definition place_entry ::
  "SkillEntry \<Rightarrow> ResolvedRoster \<times> (FileIdentity, usize) btree
     \<Rightarrow> (ResolvedRoster \<times> (FileIdentity, usize) btree, ResolutionError) result" where
  "place_entry entry st =
     (let (roster, physical) = st; binding = se_binding entry in
      if bt_get (ro_ids roster) (bi_id binding) \<noteq> None then Err DuplicateId
      else
        and_then
          (case bt_get physical (se_identity entry) of
             Some s \<Rightarrow>
               (let skill = ro_skills roster ! s; rec = rk_record skill in
                if sk_source_content rec \<noteq> sk_source_content (se_record entry) then Err ChangedFile
                else Ok (s, (ro_skills roster)[s := skill\<lparr>rk_record := rec\<lparr>sk_aliases := sk_aliases rec @
                       [\<lparr>al_source = bi_source binding, al_invocation = bi_invocation binding\<rparr>]\<rparr>\<rparr>], physical))
           | None \<Rightarrow>
               (let s = length (ro_skills roster) in
                Ok (s, ro_skills roster @ [\<lparr>rk_record = se_record entry, rk_bindings = []\<rparr>],
                    bt_insert (se_identity entry) s physical)))
          (\<lambda>(s, skills, physical').
             let b = length (rk_bindings (skills ! s));
                 named = (case bt_get (ro_names roster) (bi_invocation binding) of Some ps \<Rightarrow> ps | None \<Rightarrow> [])
             in Ok (roster\<lparr>
                  ro_ids := bt_insert (bi_id binding) (s, b) (ro_ids roster),
                  ro_names := bt_insert (bi_invocation binding) (named @ [(s, b)]) (ro_names roster),
                  ro_skills := skills[s := (skills ! s)\<lparr>rk_bindings := rk_bindings (skills ! s) @ [binding]\<rparr>]\<rparr>,
                physical')))"

fun place_entries ::
  "(nat \<Rightarrow> ResolutionError option) \<Rightarrow> nat \<Rightarrow> SkillEntry list \<Rightarrow> ResolvedRoster \<times> (FileIdentity, usize) btree
     \<Rightarrow> (nat \<times> ResolvedRoster, ResolutionError) result" where
  "place_entries bud n [] st = Ok (n, fst st)"
| "place_entries bud n (e # es) st =
     (case bud n of
        Some err \<Rightarrow> Err err
      | None \<Rightarrow> and_then (place_entry e st) (place_entries bud (Suc n) es))"

fun settle_names ::
  "(nat \<Rightarrow> ResolutionError option) \<Rightarrow> nat \<Rightarrow> position list list \<Rightarrow> ResolvedSkill list
     \<Rightarrow> (nat \<times> ResolvedSkill list, ResolutionError) result" where
  "settle_names bud n [] skills = Ok (n, skills)"
| "settle_names bud n (ps # pss) skills =
     (case bud n of
        Some err \<Rightarrow> Err err
      | None \<Rightarrow> settle_names bud (Suc n) pss (resolve_collision skills ps))"

definition settle_record :: "ResolvedSkill \<Rightarrow> ResolvedSkill" where
  "settle_record skill =
     skill\<lparr>rk_record := (rk_record skill)\<lparr>sk_visibility := bi_visibility (rk_bindings skill ! 0),
                                         sk_restrictions := bi_restrictions (rk_bindings skill ! 0)\<rparr>\<rparr>"

fun total_bytes :: "usize \<Rightarrow> SkillEntry list \<Rightarrow> usize option" where
  "total_bytes acc [] = Some acc"
| "total_bytes acc (e # es) = (if acc + se_bytes e \<le> USIZE_MAX then total_bytes (acc + se_bytes e) es else None)"

definition DISCOVERY_FILES :: ResourceLimit where
  "DISCOVERY_FILES = new_const ''discovery_files'' Records 10000"
definition DISCOVERY_PARSED_BYTES :: ResourceLimit where
  "DISCOVERY_PARSED_BYTES = new_const ''discovery_parsed'' Bytes (32 * MIB)"

definition roster_resolve ::
  "(nat \<Rightarrow> ResolutionError option) \<Rightarrow> SkillEntry list \<Rightarrow> bool \<Rightarrow> (ResolvedRoster, ResolutionError) result" where
  "roster_resolve bud entries partial =
     (case bud 0 of
        Some err \<Rightarrow> Err err
      | None \<Rightarrow>
        (if \<not> is_ok (check_limit DISCOVERY_FILES (length entries)) then Err LimitReached
         else
          (case total_bytes 0 entries of
             None \<Rightarrow> Err LimitReached
           | Some parsed \<Rightarrow>
             (if \<not> is_ok (check_limit DISCOVERY_PARSED_BYTES parsed) then Err LimitReached
              else
                and_then (place_entries bud 1 (sort_key (\<lambda>e. bi_id (se_binding e)) entries) (empty_roster partial, []))
                  (\<lambda>(n, roster).
                    and_then (settle_names bud n (bt_values (ro_names roster)) (ro_skills roster))
                      (\<lambda>(m, skills).
                        (case bud m of
                           Some err \<Rightarrow> Err err
                         | None \<Rightarrow> Ok (roster\<lparr>ro_skills := map settle_record skills\<rparr>))))))))"

section \<open>Lookups\<close>

definition eligible_binding :: "Binding \<Rightarrow> bool" where
  "eligible_binding b \<longleftrightarrow> is_verified (bi_visibility b) \<and> ir_agent_invocable (bi_restrictions b)"

definition roster_advisory :: "ResolvedRoster \<Rightarrow> AdvisorySkill list" where
  "roster_advisory roster =
     List.map_filter (\<lambda>skill. map_option (\<lambda>b. \<lparr>as_record = rk_record skill, as_binding = b\<rparr>)
       (List.find eligible_binding (rk_bindings skill))) (ro_skills roster)"

definition exact :: "Binding \<Rightarrow> ExactResolution" where
  "exact b =
     (case bi_visibility b of
        Ambiguous \<Rightarrow> ExactAmbiguous
      | Shadowed _ \<Rightarrow> ExactShadowed
      | Unverified \<Rightarrow> ExactUnverified
      | Verified _ \<Rightarrow>
         (case explicit_kind (bi_restrictions b) of
            ForbiddenInvocation \<Rightarrow> ExactForbidden
          | kind \<Rightarrow> ExactResolved (bi_id b) (bi_invocation b) kind))"

definition exact_id :: "ResolvedRoster \<Rightarrow> SkillId \<Rightarrow> ExactResolution" where
  "exact_id roster sid =
     (case bt_get (ro_ids roster) sid of
        None \<Rightarrow> ExactMissing
      | Some p \<Rightarrow> exact (binding_at (ro_skills roster) p))"

definition exact_name :: "ResolvedRoster \<Rightarrow> str \<Rightarrow> ExactResolution" where
  "exact_name roster name =
     (case bt_get (ro_names roster) name of
        None \<Rightarrow> ExactMissing
      | Some positions \<Rightarrow>
         (case List.find (\<lambda>b. is_verified (bi_visibility b)) (map (binding_at (ro_skills roster)) positions) of
            Some b \<Rightarrow> exact b
          | None \<Rightarrow> exact (binding_at (ro_skills roster) (hd positions))))"

section \<open>The request-local option map\<close>

type_synonym OptionMap = "(OptionId, AdvisorySkill) btree"

datatype ResolvedOption = NoOption | SkillOption AdvisorySkill

text \<open>\<open>format!\<close> with \<open>{index:03}\<close>: at least three digits, padded with zeros.\<close>

definition pad3 :: "nat \<Rightarrow> string" where
  "pad3 n = replicate (3 - length (dec n)) (CHR ''0'') @ dec n"

fun select_options ::
  "ResolvedRoster \<Rightarrow> usize set \<Rightarrow> SkillId list \<Rightarrow> (AdvisorySkill list, ResolutionError) result" where
  "select_options roster seen [] = Ok []"
| "select_options roster seen (i # ids) =
     (case bt_get (ro_ids roster) i of
        None \<Rightarrow> Err IneligibleOption
      | Some (s, b) \<Rightarrow>
         (let skill = ro_skills roster ! s; binding = rk_bindings skill ! b in
          if \<not> eligible_binding binding then Err IneligibleOption
          else if s \<in> seen then Err DuplicateOption
          else map_ok (\<lambda>cs. \<lparr>as_record = rk_record skill, as_binding = binding\<rparr> # cs)
                 (select_options roster (insert s seen) ids)))"

fun collect_options :: "string \<Rightarrow> nat \<Rightarrow> AdvisorySkill list \<Rightarrow> OptionMap \<Rightarrow> (OptionMap, ResolutionError) result" where
  "collect_options letter index [] m = Ok m"
| "collect_options letter index (c # cs) m =
     (case option_id_new (scalars (letter @ pad3 index)) of
        Err _ \<Rightarrow> Err InvalidBinding
      | Ok oid \<Rightarrow> collect_options letter (Suc index) cs (bt_insert oid c m))"

definition option_map_new :: "ResolvedRoster \<Rightarrow> SkillId list \<Rightarrow> (OptionMap, ResolutionError) result" where
  "option_map_new roster selected =
     (if length selected > 254 then Err LimitReached
      else and_then (select_options roster {} selected) (\<lambda>candidates.
        collect_options ''o'' 0 (sort_key (\<lambda>c. sk_id (as_record c)) candidates) []))"

definition option_map_new_renamed :: "ResolvedRoster \<Rightarrow> SkillId list \<Rightarrow> (OptionMap, ResolutionError) result" where
  "option_map_new_renamed roster selected =
     and_then (option_map_new roster selected) (\<lambda>m. collect_options ''r'' 0 (rev (bt_values m)) [])"

definition option_map_resolve :: "OptionMap \<Rightarrow> str \<Rightarrow> (ResolvedOption, ResolutionError) result" where
  "option_map_resolve m value =
     (if value = none_option then Ok NoOption
      else if str_len value > MAX_ID_BYTES then Err UnknownOption
      else case option_id_new value of
        Err _ \<Rightarrow> Err UnknownOption
      | Ok oid \<Rightarrow> (case bt_get m oid of Some c \<Rightarrow> Ok (SkillOption c) | None \<Rightarrow> Err UnknownOption))"

section \<open>Placing the entries\<close>

abbreviation eid :: "SkillEntry \<Rightarrow> SkillId" where "eid e \<equiv> bi_id (se_binding e)"
abbreviation ename :: "SkillEntry \<Rightarrow> InvocationName" where "ename e \<equiv> bi_invocation (se_binding e)"

definition valid_pos :: "ResolvedSkill list \<Rightarrow> position \<Rightarrow> bool" where
  "valid_pos skills p \<longleftrightarrow> fst p < length skills \<and> snd p < length (rk_bindings (skills ! fst p))"

text \<open>Where the roster keeps an entry, and the entry that gave its file its record.\<close>

definition pos_of :: "ResolvedRoster \<Rightarrow> SkillEntry \<Rightarrow> position" where
  "pos_of R e = the (bt_get (ro_ids R) (eid e))"

definition canonical :: "SkillEntry list \<Rightarrow> SkillEntry \<Rightarrow> SkillEntry" where
  "canonical es e = hd (filter (\<lambda>x. se_identity x = se_identity e) es)"

definition placed_inv :: "SkillEntry list \<Rightarrow> ResolvedRoster \<Rightarrow> (FileIdentity, usize) btree \<Rightarrow> bool" where
  "placed_inv es R ph \<longleftrightarrow>
     bt_sorted (ro_ids R) \<and> bt_sorted (ro_names R) \<and> bt_sorted ph \<and> distinct (map eid es)
     \<and> (\<forall>i. bt_get (ro_ids R) i \<noteq> None \<longleftrightarrow> i \<in> eid ` set es)
     \<and> (\<forall>e\<in>set es. valid_pos (ro_skills R) (pos_of R e) \<and> binding_at (ro_skills R) (pos_of R e) = se_binding e)
     \<and> (\<forall>p. valid_pos (ro_skills R) p \<longrightarrow> (\<exists>e\<in>set es. pos_of R e = p))
     \<and> (\<forall>e\<in>set es. bt_get ph (se_identity e) = Some (fst (pos_of R e)))
     \<and> (\<forall>k s. bt_get ph k = Some s \<longrightarrow> s < length (ro_skills R))
     \<and> (\<forall>k k' s. bt_get ph k = Some s \<longrightarrow> bt_get ph k' = Some s \<longrightarrow> k = k')
     \<and> (\<forall>n. bt_get (ro_names R) n =
           (if n \<in> ename ` set es then Some (map (pos_of R) (filter (\<lambda>e. ename e = n) es)) else None))
     \<and> (\<forall>e\<in>set es. sk_id (rk_record (ro_skills R ! fst (pos_of R e))) = sk_id (se_record (canonical es e))
           \<and> sk_source_content (rk_record (ro_skills R ! fst (pos_of R e))) = sk_source_content (se_record e))
     \<and> (\<forall>s<length (ro_skills R). rk_bindings (ro_skills R ! s) \<noteq> [])"

lemma placed_invD:
  assumes "placed_inv es R ph"
  shows "bt_sorted (ro_ids R)" "bt_sorted (ro_names R)" "bt_sorted ph" "distinct (map eid es)"
    "bt_get (ro_ids R) i \<noteq> None \<longleftrightarrow> i \<in> eid ` set es"
    "e \<in> set es \<Longrightarrow> valid_pos (ro_skills R) (pos_of R e)"
    "e \<in> set es \<Longrightarrow> binding_at (ro_skills R) (pos_of R e) = se_binding e"
    "valid_pos (ro_skills R) p \<Longrightarrow> \<exists>e\<in>set es. pos_of R e = p"
    "e \<in> set es \<Longrightarrow> bt_get ph (se_identity e) = Some (fst (pos_of R e))"
    "bt_get ph k = Some s \<Longrightarrow> s < length (ro_skills R)"
    "bt_get ph k = Some s \<Longrightarrow> bt_get ph k' = Some s \<Longrightarrow> k = k'"
    "bt_get (ro_names R) n =
      (if n \<in> ename ` set es then Some (map (pos_of R) (filter (\<lambda>e. ename e = n) es)) else None)"
    "e \<in> set es \<Longrightarrow> sk_id (rk_record (ro_skills R ! fst (pos_of R e))) = sk_id (se_record (canonical es e))"
    "e \<in> set es \<Longrightarrow>
       sk_source_content (rk_record (ro_skills R ! fst (pos_of R e))) = sk_source_content (se_record e)"
    "t < length (ro_skills R) \<Longrightarrow> rk_bindings (ro_skills R ! t) \<noteq> []"
  using assms unfolding placed_inv_def by (elim conjE, assumption | elim conjE, (erule allE ballE)+, blast | elim conjE, metis)+

lemma canonical_append:
  "e \<in> set es \<Longrightarrow> canonical (es @ xs) e = canonical es e"
  by (auto simp: canonical_def hd_append filter_empty_conv)

lemma canonical_new:
  "(\<forall>x\<in>set es. se_identity x \<noteq> se_identity e) \<Longrightarrow> canonical (es @ [e]) e = e"
  by (simp add: canonical_def)

text \<open>What one placed entry changes: it appends a binding at \<open>(s, b)\<close> and leaves the others.\<close>

lemma place_entry_effect:
  assumes "place_entry e (R, ph) = Ok (R', ph')" and inv: "placed_inv es R ph"
  obtains s b where
    "bt_get (ro_ids R) (eid e) = None"
    "ro_ids R' = bt_insert (eid e) (s, b) (ro_ids R)"
    "ro_names R' = bt_insert (ename e)
       ((case bt_get (ro_names R) (ename e) of Some ps \<Rightarrow> ps | None \<Rightarrow> []) @ [(s, b)]) (ro_names R)"
    "\<And>p. valid_pos (ro_skills R') p \<longleftrightarrow> valid_pos (ro_skills R) p \<or> p = (s, b)"
    "\<And>p. valid_pos (ro_skills R) p \<Longrightarrow> binding_at (ro_skills R') p = binding_at (ro_skills R) p"
    "binding_at (ro_skills R') (s, b) = se_binding e" "\<not> valid_pos (ro_skills R) (s, b)"
    "length (ro_skills R) \<le> length (ro_skills R')" "s < length (ro_skills R')"
    "\<And>t. t < length (ro_skills R') \<Longrightarrow> rk_bindings (ro_skills R' ! t) \<noteq> []"
    "\<And>t. t < length (ro_skills R) \<Longrightarrow> sk_id (rk_record (ro_skills R' ! t)) = sk_id (rk_record (ro_skills R ! t))
        \<and> sk_source_content (rk_record (ro_skills R' ! t)) = sk_source_content (rk_record (ro_skills R ! t))"
    "sk_source_content (rk_record (ro_skills R' ! s)) = sk_source_content (se_record e)"
    "bt_get ph (se_identity e) = Some s \<and> ph' = ph \<and> s < length (ro_skills R)
     \<or> bt_get ph (se_identity e) = None \<and> ph' = bt_insert (se_identity e) s ph \<and> s = length (ro_skills R)
        \<and> sk_id (rk_record (ro_skills R' ! s)) = sk_id (se_record e)"
proof (cases "bt_get ph (se_identity e)")
  case None
  define s where "s = length (ro_skills R)"
  have R': "ro_skills R' = ro_skills R @ [\<lparr>rk_record = se_record e, rk_bindings = [se_binding e]\<rparr>]"
    and rest: "bt_get (ro_ids R) (eid e) = None" "ro_ids R' = bt_insert (eid e) (s, 0) (ro_ids R)"
    "ro_names R' = bt_insert (ename e)
       ((case bt_get (ro_names R) (ename e) of Some ps \<Rightarrow> ps | None \<Rightarrow> []) @ [(s, 0)]) (ro_names R)"
    "ph' = bt_insert (se_identity e) s ph"
    using assms(1) None by (auto simp: place_entry_def s_def Let_def list_update_append nth_append simp del: not_None_eq split: if_splits)
  show ?thesis
  proof (rule that [of s 0], goal_cases)
    case (4 p)
    then show ?case by (auto simp: R' valid_pos_def s_def nth_append less_Suc_eq prod_eq_iff)
  next
    case (10 t)
    then show ?case using placed_invD(15) [OF inv] by (auto simp: R' nth_append less_Suc_eq)
  qed (use None in \<open>auto simp: R' rest valid_pos_def binding_at_def s_def nth_append\<close>)
next
  case (Some s)
  define b where "b = length (rk_bindings (ro_skills R ! s))"
  have s: "s < length (ro_skills R)" using placed_invD(10) [OF inv Some] .
  define k where "k = ro_skills R ! s"
  define k' where "k' = k\<lparr>rk_record := (rk_record k)\<lparr>sk_aliases := sk_aliases (rk_record k) @
      [\<lparr>al_source = bi_source (se_binding e), al_invocation = ename e\<rparr>]\<rparr>, rk_bindings := rk_bindings k @ [se_binding e]\<rparr>"
  have R': "ro_skills R' = (ro_skills R)[s := k']"
    and rest: "bt_get (ro_ids R) (eid e) = None" "ro_ids R' = bt_insert (eid e) (s, b) (ro_ids R)"
    "ro_names R' = bt_insert (ename e)
       ((case bt_get (ro_names R) (ename e) of Some ps \<Rightarrow> ps | None \<Rightarrow> []) @ [(s, b)]) (ro_names R)"
    "ph' = ph" "sk_source_content (rk_record k) = sk_source_content (se_record e)"
    using assms(1) Some s by (auto simp: place_entry_def b_def k'_def k_def Let_def simp del: not_None_eq split: if_splits)
  have nth: "ro_skills R' ! t = (if t = s then k' else ro_skills R ! t)" if "t < length (ro_skills R)" for t
    using that by (simp add: R' nth_list_update)
  show ?thesis
  proof (rule that [of s b], goal_cases)
    case (4 p)
    then show ?case using s
      by (cases p) (auto simp: R' valid_pos_def nth_list_update k'_def b_def less_Suc_eq k_def)
  next
    case (5 p)
    then show ?case by (auto simp: binding_at_def valid_pos_def nth k'_def k_def nth_append)
  next
    case (10 t)
    then show ?case using placed_invD(15) [OF inv, of t] by (cases "t = s") (auto simp: R' k'_def)
  qed (use Some s rest in \<open>auto simp: R' valid_pos_def binding_at_def nth_list_update k'_def b_def k_def\<close>)
qed

lemma place_entry_inv:
  assumes inv: "placed_inv es R ph" and pe: "place_entry e (R, ph) = Ok (R', ph')"
  shows "placed_inv (es @ [e]) R' ph'"
proof -
  note D = placed_invD [OF inv]
  obtain s b where E:
    "bt_get (ro_ids R) (eid e) = None"
    "ro_ids R' = bt_insert (eid e) (s, b) (ro_ids R)"
    "ro_names R' = bt_insert (ename e)
       ((case bt_get (ro_names R) (ename e) of Some ps \<Rightarrow> ps | None \<Rightarrow> []) @ [(s, b)]) (ro_names R)"
    "\<And>p. valid_pos (ro_skills R') p \<longleftrightarrow> valid_pos (ro_skills R) p \<or> p = (s, b)"
    "\<And>p. valid_pos (ro_skills R) p \<Longrightarrow> binding_at (ro_skills R') p = binding_at (ro_skills R) p"
    "binding_at (ro_skills R') (s, b) = se_binding e" "\<not> valid_pos (ro_skills R) (s, b)"
    "length (ro_skills R) \<le> length (ro_skills R')" "s < length (ro_skills R')"
    "\<And>t. t < length (ro_skills R') \<Longrightarrow> rk_bindings (ro_skills R' ! t) \<noteq> []"
    "\<And>t. t < length (ro_skills R) \<Longrightarrow> sk_id (rk_record (ro_skills R' ! t)) = sk_id (rk_record (ro_skills R ! t))
        \<and> sk_source_content (rk_record (ro_skills R' ! t)) = sk_source_content (rk_record (ro_skills R ! t))"
    "sk_source_content (rk_record (ro_skills R' ! s)) = sk_source_content (se_record e)"
    "bt_get ph (se_identity e) = Some s \<and> ph' = ph \<and> s < length (ro_skills R)
     \<or> bt_get ph (se_identity e) = None \<and> ph' = bt_insert (se_identity e) s ph \<and> s = length (ro_skills R)
        \<and> sk_id (rk_record (ro_skills R' ! s)) = sk_id (se_record e)"
    using place_entry_effect [OF pe inv] by blast
  have new: "eid e \<notin> eid ` set es" using E(1) D(5) by blast
  have old: "pos_of R' x = pos_of R x" if "x \<in> set es" for x
    using that new by (auto simp: pos_of_def E(2) bt_get_insert)
  have at: "pos_of R' e = (s, b)" by (simp add: pos_of_def E(2) bt_get_insert)
  have ph: "bt_get ph' (se_identity x) = Some (fst (pos_of R' x))" if "x \<in> set (es @ [e])" for x
    using that E(13) D(9) old at by (auto simp: bt_get_insert)
  have rec: "sk_id (rk_record (ro_skills R' ! s)) = sk_id (se_record (canonical (es @ [e]) e))"
  proof (cases "\<exists>x\<in>set es. se_identity x = se_identity e")
    case True
    then obtain x where x: "x \<in> set es" "se_identity x = se_identity e" by blast
    then have "s = fst (pos_of R x)" "s < length (ro_skills R)" using E(13) D(9) [OF x(1)] by auto
    moreover have "canonical (es @ [e]) e = canonical es x"
      using x canonical_append [OF x(1), of "[e]"] by (simp add: canonical_def)
    ultimately show ?thesis using E(11) D(13) [OF x(1)] by simp
  next
    case False
    then have "canonical (es @ [e]) e = e" by (intro canonical_new) auto
    moreover have "bt_get ph (se_identity e) \<noteq> Some s" if "s < length (ro_skills R)"
    proof
      assume a: "bt_get ph (se_identity e) = Some s"
      have "valid_pos (ro_skills R) (s, 0)" using that D(15) [OF that] by (simp add: valid_pos_def)
      then obtain x where "x \<in> set es" "pos_of R x = (s, 0)" using D(8) by blast
      then show False using D(9) [of x] D(11) [OF a, of "se_identity x"] False by auto
    qed
    ultimately show ?thesis using E(13) by auto
  qed
  show ?thesis
    unfolding placed_inv_def
  proof (intro conjI allI ballI impI, goal_cases)
    case 3
    then show ?case using E(13) D(3) bt_sorted_insert by auto
  next
    case (11 k k' t)
    from E(13) show ?case
    proof (elim disjE conjE)
      assume "ph' = ph"
      with 11 show ?case using D(11) by simp
    next
      assume "ph' = bt_insert (se_identity e) s ph" "s = length (ro_skills R)"
      with 11 show ?case using D(10) [of k t] D(10) [of k' t] D(11) [of k t k']
        by (simp add: bt_get_insert split: if_splits)
    qed
  next
    case (12 n)
    have "map (pos_of R') (filter (\<lambda>x. ename x = n) es) = map (pos_of R) (filter (\<lambda>x. ename x = n) es)"
      using old by auto
    then show ?case
      using D(12) by (auto simp: E(3) bt_get_insert at filter_empty_conv) (metis imageI)
  next
    case (13 x)
    then show ?case using rec old at D(13) E(11) D(6) canonical_append by (auto simp: valid_pos_def)
  next
    case (14 x)
    then show ?case using old at D(14) E(11,12) D(6) by (auto simp: valid_pos_def)
  next
    case (5 i)
    then show ?case using D(5) [of i] by (auto simp: E(2) bt_get_insert simp del: not_None_eq)
  next
    case (6 x)
    then show ?case using D(6) old at by (auto simp: E(4))
  next
    case (7 x)
    then show ?case using D(6,7) [of x] old [of x] at E(5) [of "pos_of R x"] E(6) by auto
  next
    case (8 p)
    then show ?case using D(8) [of p] old at by (auto simp: E(4))
  next
    case (9 x)
    then show ?case by (rule ph)
  next
    case (10 k t)
    then show ?case using D(10) [of k t] E(8,9,13) by (auto simp: bt_get_insert split: if_splits)
  next
    case (15 t)
    then show ?case by (rule E(10))
  qed (use D(1,2,4) new in \<open>auto simp: E(2,3) bt_sorted_insert\<close>)
qed

lemma place_entries_inv:
  assumes "placed_inv es R ph" and "place_entries bud n xs (R, ph) = Ok (m, R')"
  shows "\<exists>ph'. placed_inv (es @ xs) R' ph'"
  using assms
proof (induction xs arbitrary: es R ph n)
  case (Cons x xs)
  then obtain R1 ph1 where "place_entry x (R, ph) = Ok (R1, ph1)" "place_entries bud (Suc n) xs (R1, ph1) = Ok (m, R')"
    by (auto split: option.splits)
  with Cons.IH [OF place_entry_inv [OF Cons.prems(1)]] show ?case by fastforce
qed auto

lemma placed_inv_empty: "placed_inv [] (empty_roster partial) []"
  by (simp add: placed_inv_def empty_roster_def valid_pos_def)

section \<open>Settling the names\<close>

lemma set_binding_nth:
  "set_binding p b sks ! t =
    (if t = fst p \<and> t < length sks then (sks ! t)\<lparr>rk_bindings := (rk_bindings (sks ! t))[snd p := b]\<rparr> else sks ! t)"
  by (cases "t = fst p"; cases "t < length sks") (auto simp: set_binding_def list_update_beyond)

lemma set_binding_frame [simp]:
  "length (set_binding p b sks) = length sks"
  "valid_pos (set_binding p b sks) q \<longleftrightarrow> valid_pos sks q"
  "rk_record (set_binding p b sks ! t) = rk_record (sks ! t)"
  by (auto simp: valid_pos_def set_binding_nth) (auto simp: set_binding_def)

lemma binding_at_set_binding:
  "valid_pos sks p \<Longrightarrow> binding_at (set_binding p b sks) q = (if q = p then b else binding_at sks q)"
  by (simp add: binding_at_def set_binding_nth valid_pos_def nth_list_update prod_eq_iff)

lemma settle_positions:
  assumes "distinct ps" "\<forall>p\<in>set ps. valid_pos sks p"
    and "out = fold (\<lambda>p sks. set_binding p (f p (binding_at sks p)) sks) ps sks"
  shows "length out = length sks" "valid_pos out q \<longleftrightarrow> valid_pos sks q" "rk_record (out ! t) = rk_record (sks ! t)"
    "binding_at out q = (if q \<in> set ps then f q (binding_at sks q) else binding_at sks q)"
  unfolding assms(3) using assms(1,2)
  by (induction ps arbitrary: sks) (auto simp: binding_at_set_binding)

definition collision_effect :: "ResolvedSkill list \<Rightarrow> position list \<Rightarrow> position \<Rightarrow> Binding" where
  "collision_effect sks ps q =
     (if card (set (map fst ps)) = 1
      then (binding_at sks q)\<lparr>bi_restrictions := strictest (map (binding_at sks) ps)\<rparr>
      else
        let winner = collision_winner sks ps; highest = highest_priority sks ps in
        settled_binding winner (map_option (\<lambda>s. sk_id (rk_record (sks ! s))) winner) highest
          (strictest (map (binding_at sks)
            (filter (\<lambda>p. Some (fst p) = winner \<and> bi_priority (binding_at sks p) = highest) ps))) q (binding_at sks q))"

lemma resolve_collision_effect:
  assumes "distinct ps" "\<forall>p\<in>set ps. valid_pos sks p"
  shows "length (resolve_collision sks ps) = length sks"
    "valid_pos (resolve_collision sks ps) q \<longleftrightarrow> valid_pos sks q"
    "rk_record (resolve_collision sks ps ! t) = rk_record (sks ! t)"
    "binding_at (resolve_collision sks ps) q = (if q \<in> set ps then collision_effect sks ps q else binding_at sks q)"
  using settle_positions [OF assms refl, where f = "\<lambda>p b. b\<lparr>bi_restrictions := strictest (map (binding_at sks) ps)\<rparr>"]
    settle_positions [OF assms refl]
  by (simp_all add: resolve_collision_def collision_effect_def Let_def)

lemma collision_effect_cong:
  assumes "\<forall>p\<in>set ps. binding_at sks p = binding_at sks' p" "\<forall>t. sk_id (rk_record (sks ! t)) = sk_id (rk_record (sks' ! t))"
    and "q \<in> set ps"
  shows "collision_effect sks ps q = collision_effect sks' ps q"
proof -
  have ne: "hd ps \<in> set ps" using assms(3) by (cases ps) auto
  have maps: "map (binding_at sks) (filter P ps) = map (binding_at sks') (filter P ps)" for P
    using assms(1) by auto
  have allmap: "map (binding_at sks) ps = map (binding_at sks') ps" using assms(1) by simp
  have prio: "List.map_filter (\<lambda>p. bi_priority (binding_at sks p)) ps = List.map_filter (\<lambda>p. bi_priority (binding_at sks' p)) ps"
    using assms(1) by (auto simp: List.map_filter_def cong: filter_cong)
  have hi: "highest_priority sks ps = highest_priority sks' ps"
    by (simp add: highest_priority_def prio)
  have filt: "filter (\<lambda>p. Q p \<and> bi_priority (binding_at sks p) = h) ps = filter (\<lambda>p. Q p \<and> bi_priority (binding_at sks' p) = h) ps" for Q h
    using assms(1) by (auto cong: filter_cong)
  have win: "collision_winner sks ps = collision_winner sks' ps"
    using assms(1) ne filt [of "\<lambda>_. True"] by (simp add: collision_winner_def hi list_all_iff Let_def)
  show ?thesis
    unfolding collision_effect_def hi win Let_def filt maps allmap using assms by simp
qed

lemma settle_names_effect:
  assumes "settle_names bud n pss sks = Ok (m, sks')"
    and "\<forall>ps\<in>set pss. distinct ps \<and> (\<forall>p\<in>set ps. valid_pos sks p)"
    and "distinct (concat pss)"
  shows "length sks' = length sks \<and> (\<forall>q. valid_pos sks' q \<longleftrightarrow> valid_pos sks q)
    \<and> (\<forall>t. rk_record (sks' ! t) = rk_record (sks ! t))
    \<and> (\<forall>ps\<in>set pss. \<forall>q\<in>set ps. binding_at sks' q = collision_effect sks ps q)
    \<and> (\<forall>q. q \<notin> set (concat pss) \<longrightarrow> binding_at sks' q = binding_at sks q)"
  using assms
proof (induction pss arbitrary: sks n)
  case (Cons ps pss)
  let ?s = "resolve_collision sks ps"
  have ps: "distinct ps" "\<forall>p\<in>set ps. valid_pos sks p" using Cons.prems(2) by auto
  note E = resolve_collision_effect [OF ps]
  have run: "settle_names bud (Suc n) pss ?s = Ok (m, sks')" using Cons.prems(1) by (auto split: option.splits)
  have ok: "\<forall>ps\<in>set pss. distinct ps \<and> (\<forall>p\<in>set ps. valid_pos ?s p)" using Cons.prems(2) E(2) by simp
  have dist: "distinct (concat pss)" using Cons.prems(3) by simp
  note IH = Cons.IH [OF run ok dist]
  have disj: "\<forall>qs\<in>set pss. set ps \<inter> set qs = {}" using Cons.prems(3) by auto
  have later: "collision_effect ?s qs q = collision_effect sks qs q" if "qs \<in> set pss" "q \<in> set qs" for qs q
    by (rule collision_effect_cong) (use that disj E in auto)
  have IH4: "binding_at sks' q = binding_at ?s q" if "q \<notin> set (concat pss)" for q
    using IH that by blast
  have mine: "binding_at sks' q = collision_effect sks ps q" if "q \<in> set ps" for q
    using IH4 [of q] E(4) [of q] Cons.prems(3) that by auto
  have other: "binding_at sks' q = binding_at sks q" if "q \<notin> set (concat (ps # pss))" for q
    using IH4 [of q] E(4) [of q] that by simp
  show ?case using IH E(1-3) mine other later by (simp del: split_paired_All)
qed simp

section \<open>What resolution decides, entry by entry\<close>

definition rivals :: "SkillEntry list \<Rightarrow> SkillEntry \<Rightarrow> SkillEntry list" where
  "rivals es e = filter (\<lambda>x. ename x = ename e) es"

definition top_rivals :: "SkillEntry list \<Rightarrow> SkillEntry \<Rightarrow> SkillEntry list" where
  "top_rivals es e =
     filter (\<lambda>x. \<forall>y\<in>set (rivals es e). the (bi_priority (se_binding y)) \<le> the (bi_priority (se_binding x))) (rivals es e)"

definition comparable_rivals :: "SkillEntry list \<Rightarrow> SkillEntry \<Rightarrow> bool" where
  "comparable_rivals es e \<longleftrightarrow> is_verified (bi_visibility (se_binding e))
     \<and> (\<forall>x\<in>set (rivals es e). bi_visibility (se_binding x) = bi_visibility (se_binding e)
          \<and> bi_priority (se_binding x) \<noteq> None)"

text \<open>The binding an entry ends up with, from the entries of its name alone.\<close>

definition reference_binding :: "SkillEntry list \<Rightarrow> SkillEntry \<Rightarrow> Binding" where
  "reference_binding es e =
     (let b = se_binding e; top = top_rivals es e in
      if \<forall>x\<in>set (rivals es e). se_identity x = se_identity e
      then b\<lparr>bi_restrictions := strictest (map se_binding (rivals es e))\<rparr>
      else if comparable_rivals es e \<and> (\<forall>x\<in>set top. \<forall>y\<in>set top. se_identity x = se_identity y)
      then if e \<in> set top then b\<lparr>bi_restrictions := strictest (map se_binding top)\<rparr>
           else b\<lparr>bi_visibility := Shadowed (sk_id (se_record (canonical es (hd top))))\<rparr>
      else b\<lparr>bi_visibility := Ambiguous\<rparr>)"

lemma strictest_eq:
  "strictest bs = \<lparr>ir_agent_invocable = (\<forall>b\<in>set bs. ir_agent_invocable (bi_restrictions b)),
     ir_user_invocable = (\<forall>b\<in>set bs. ir_user_invocable (bi_restrictions b))\<rparr>"
proof -
  have "foldl (\<lambda>r b. tighten r (bi_restrictions b)) q bs =
    \<lparr>ir_agent_invocable = ir_agent_invocable q \<and> (\<forall>b\<in>set bs. ir_agent_invocable (bi_restrictions b)),
     ir_user_invocable = ir_user_invocable q \<and> (\<forall>b\<in>set bs. ir_user_invocable (bi_restrictions b))\<rparr>" for q
    by (induction bs arbitrary: q) (auto simp: tighten_def)
  then show ?thesis by (simp add: strictest_def no_restrictions_def)
qed

text \<open>The collision step read through the positions of the entries.\<close>

definition placed_at :: "ResolvedSkill list \<Rightarrow> (SkillEntry \<Rightarrow> position) \<Rightarrow> SkillEntry list \<Rightarrow> SkillEntry \<Rightarrow> bool" where
  "placed_at sks pos es e \<longleftrightarrow> e \<in> set es
     \<and> (\<forall>x\<in>set es. binding_at sks (pos x) = se_binding x)
     \<and> (\<forall>x\<in>set es. \<forall>y\<in>set es. fst (pos x) = fst (pos y) \<longleftrightarrow> se_identity x = se_identity y)
     \<and> (\<forall>x\<in>set es. sk_id (rk_record (sks ! fst (pos x))) = sk_id (se_record (canonical es x)))"

lemma placed_atD:
  assumes "placed_at sks pos es e"
  shows "e \<in> set es" "x \<in> set es \<Longrightarrow> binding_at sks (pos x) = se_binding x"
    "x \<in> set es \<Longrightarrow> y \<in> set es \<Longrightarrow> fst (pos x) = fst (pos y) \<longleftrightarrow> se_identity x = se_identity y"
    "x \<in> set es \<Longrightarrow> sk_id (rk_record (sks ! fst (pos x))) = sk_id (se_record (canonical es x))"
    "x \<in> set (rivals es e) \<Longrightarrow> x \<in> set es" "e \<in> set (rivals es e)"
  using assms by (auto simp: placed_at_def rivals_def)

lemma single_file:
  assumes P: "placed_at sks pos es e"
  shows "card (set (map fst (map pos (rivals es e)))) = 1 \<longleftrightarrow> (\<forall>x\<in>set (rivals es e). se_identity x = se_identity e)"
proof -
  have "card (set (map fst (map pos (rivals es e)))) = 1 \<longleftrightarrow> (\<forall>x\<in>set (rivals es e). fst (pos x) = fst (pos e))"
    using placed_atD(6) [OF P] by (auto simp: card_1_singleton_iff) (metis imageI singletonD)
  then show ?thesis using placed_atD [OF P] by auto
qed

lemma comparable_eq:
  assumes P: "placed_at sks pos es e" and ps: "ps = map pos (rivals es e)"
  shows "is_verified (bi_visibility (binding_at sks (hd ps)))
     \<and> list_all (\<lambda>p. bi_visibility (binding_at sks p) = bi_visibility (binding_at sks (hd ps))
          \<and> bi_priority (binding_at sks p) \<noteq> None) ps \<longleftrightarrow> comparable_rivals es e"
proof -
  obtain r rs where r: "rivals es e = r # rs" using placed_atD(6) [OF P] by (cases "rivals es e") auto
  have at: "binding_at sks (pos x) = se_binding x" if "x \<in> set (rivals es e)" for x
    using placed_atD(2,5) [OF P] that by simp
  have hd: "binding_at sks (hd ps) = se_binding r" using at r by (simp add: ps)
  have all: "list_all Q ps \<longleftrightarrow> (\<forall>x\<in>set (rivals es e). Q (pos x))" for Q by (auto simp: ps list_all_iff)
  have swap: "V (v r) \<and> (\<forall>x\<in>A. v x = v r \<and> q x) \<longleftrightarrow> V (v e) \<and> (\<forall>x\<in>A. v x = v e \<and> q x)"
    if "r \<in> A" "e \<in> A" for V :: "Visibility \<Rightarrow> bool" and v q A
    using that by metis
  have "r \<in> set (rivals es e)" using r by simp
  from swap [OF this placed_atD(6) [OF P], of is_verified "\<lambda>x. bi_visibility (se_binding x)"
      "\<lambda>x. bi_priority (se_binding x) \<noteq> None"] show ?thesis
    unfolding comparable_rivals_def hd all by (simp add: at cong: ball_cong)
qed

lemma highest_eq:
  assumes P: "placed_at sks pos es e" and ps: "ps = map pos (rivals es e)"
    and comp: "comparable_rivals es e" and mem: "x \<in> set (rivals es e)"
  shows "bi_priority (binding_at sks (pos x)) = highest_priority sks ps \<longleftrightarrow> x \<in> set (top_rivals es e)"
proof -
  let ?pr = "\<lambda>x. the (bi_priority (se_binding x))"
  have some: "bi_priority (binding_at sks (pos y)) = Some (?pr y)" if "y \<in> set (rivals es e)" for y
    using comp that placed_atD(2,5) [OF P] by (auto simp: comparable_rivals_def)
  have pr: "List.map_filter (\<lambda>p. bi_priority (binding_at sks p)) ps = map ?pr (rivals es e)"
  proof -
    have "List.map_filter (\<lambda>p. bi_priority (binding_at sks p)) (map pos zs) = map ?pr zs" if "set zs \<subseteq> set (rivals es e)" for zs
      using that some by (induction zs) (auto simp: List.map_filter_simps)
    then show ?thesis by (simp add: ps)
  qed
  have "highest_priority sks ps = Some (Max (?pr ` set (rivals es e)))"
    using placed_atD(6) [OF P] by (auto simp: highest_priority_def pr)
  then have "bi_priority (binding_at sks (pos x)) = highest_priority sks ps \<longleftrightarrow> ?pr x = Max (?pr ` set (rivals es e))"
    using some [OF mem] by simp
  also have "\<dots> \<longleftrightarrow> (\<forall>y\<in>set (rivals es e). ?pr y \<le> ?pr x)"
    using mem by (subst eq_commute, subst Max_eq_iff) auto
  finally show ?thesis using mem by (simp add: top_rivals_def)
qed

lemma top_nonempty:
  assumes "e \<in> set (rivals es e)"
  shows "top_rivals es e \<noteq> []"
proof -
  let ?pr = "\<lambda>x. the (bi_priority (se_binding x))"
  have "Max (?pr ` set (rivals es e)) \<in> ?pr ` set (rivals es e)" using assms by (intro Max_in) auto
  then obtain x where "x \<in> set (rivals es e)" "?pr x = Max (?pr ` set (rivals es e))" by auto
  then have "x \<in> set (top_rivals es e)" by (simp add: top_rivals_def)
  then show ?thesis by auto
qed

lemma top_filter:
  assumes P: "placed_at sks pos es e" and ps: "ps = map pos (rivals es e)" and comp: "comparable_rivals es e"
  shows "filter (\<lambda>p. bi_priority (binding_at sks p) = highest_priority sks ps) ps = map pos (top_rivals es e)"
proof -
  have "filter (\<lambda>p. bi_priority (binding_at sks p) = highest_priority sks ps) ps
      = map pos (filter (\<lambda>x. bi_priority (binding_at sks (pos x)) = highest_priority sks ps) (rivals es e))"
    unfolding ps filter_map comp_def ..
  also have "\<dots> = map pos (filter (\<lambda>x. x \<in> set (top_rivals es e)) (rivals es e))"
    using highest_eq [OF P ps comp] by (auto cong: filter_cong)
  also have "\<dots> = map pos (top_rivals es e)"
    by (rule arg_cong [where f = "map pos"]) (auto simp: top_rivals_def intro: filter_cong)
  finally show ?thesis .
qed

lemma winner_eq:
  assumes P: "placed_at sks pos es e" and ps: "ps = map pos (rivals es e)"
  shows "collision_winner sks ps =
    (if comparable_rivals es e \<and> (\<forall>x\<in>set (top_rivals es e). \<forall>y\<in>set (top_rivals es e). se_identity x = se_identity y)
     then Some (fst (pos (hd (top_rivals es e)))) else None)"
proof (cases "comparable_rivals es e")
  case False
  then show ?thesis using comparable_eq [OF P ps] unfolding collision_winner_def Let_def by presburger
next
  case True
  let ?top = "top_rivals es e"
  let ?W = "(\<lambda>x. fst (pos x)) ` set ?top"
  have hd: "hd ?top \<in> set ?top" using top_nonempty [OF placed_atD(6) [OF P]] by simp
  have sub: "x \<in> set es" if "x \<in> set ?top" for x using that placed_atD(5) [OF P] by (simp add: top_rivals_def)
  have one: "card ?W = 1 \<longleftrightarrow> (\<forall>x\<in>set ?top. \<forall>y\<in>set ?top. se_identity x = se_identity y)"
  proof
    assume "card ?W = 1"
    then obtain w where "?W = {w}" by (auto simp: card_1_singleton_iff)
    then have "fst (pos x) = w" if "x \<in> set ?top" for x using that by blast
    then show "\<forall>x\<in>set ?top. \<forall>y\<in>set ?top. se_identity x = se_identity y"
      using placed_atD(3) [OF P] sub by metis
  next
    assume "\<forall>x\<in>set ?top. \<forall>y\<in>set ?top. se_identity x = se_identity y"
    then have "?W = {fst (pos (hd ?top))}" using placed_atD(3) [OF P] sub hd by (auto 0 3)
    then show "card ?W = 1" by simp
  qed
  have "Min ?W = fst (pos (hd ?top))" if "card ?W = 1"
    using that hd by (metis (no_types, lifting) Min_singleton card_1_singletonE imageI singletonD)
  moreover have "set (map fst (map pos ?top)) = ?W" by auto
  ultimately show ?thesis
    using comparable_eq [OF P ps] top_filter [OF P ps True] one True
    unfolding collision_winner_def Let_def by presburger
qed

lemma collision_is_reference:
  assumes P: "placed_at sks pos es e" and ps: "ps = map pos (rivals es e)"
  shows "collision_effect sks ps (pos e) = reference_binding es e"
proof -
  let ?top = "top_rivals es e"
  have e: "binding_at sks (pos e) = se_binding e" using placed_atD(1,2) [OF P] by simp
  have strict: "map (binding_at sks) (map pos xs) = map se_binding xs" if "set xs \<subseteq> set es" for xs
    using that placed_atD(2) [OF P] by auto
  have riv: "set (rivals es e) \<subseteq> set es" and topsub: "set ?top \<subseteq> set (rivals es e)" by (auto simp: rivals_def top_rivals_def)
  show ?thesis
  proof (cases "\<forall>x\<in>set (rivals es e). se_identity x = se_identity e")
    case True
    then have "card (set (map fst ps)) = 1" using single_file [OF P] ps by simp
    with True show ?thesis
      unfolding collision_effect_def reference_binding_def Let_def e ps strict [OF riv] by simp
  next
    case several: False
    then have card: "card (set (map fst ps)) \<noteq> 1" using single_file [OF P] ps by simp
    show ?thesis
    proof (cases "comparable_rivals es e \<and> (\<forall>x\<in>set ?top. \<forall>y\<in>set ?top. se_identity x = se_identity y)")
      case False
      then have "collision_winner sks ps = None" using winner_eq [OF P ps] by simp
      then show ?thesis
        unfolding collision_effect_def reference_binding_def Let_def e settled_binding_def
        using several card False by (simp only: if_False option.map option.case split: if_split)
    next
      case True
      have hd: "hd ?top \<in> set ?top" using top_nonempty [OF placed_atD(6) [OF P]] by simp
      have same: "fst (pos x) = fst (pos (hd ?top))" if "x \<in> set ?top" for x
      proof -
        have "x \<in> set es" "hd ?top \<in> set es"
          by (rule subsetD [OF riv subsetD [OF topsub that]], rule subsetD [OF riv subsetD [OF topsub hd]])
        moreover have "se_identity x = se_identity (hd ?top)" by (rule bspec [OF bspec [OF conjunct2 [OF True] that] hd])
        ultimately show ?thesis by (rule placed_atD(3) [OF P, THEN iffD2])
      qed
      have win: "collision_winner sks ps = Some (fst (pos (hd ?top)))"
        unfolding winner_eq [OF P ps] if_P [OF True] ..
      have "filter (\<lambda>p. Some (fst p) = collision_winner sks ps \<and> bi_priority (binding_at sks p) = highest_priority sks ps) ps
          = filter (\<lambda>p. Some (fst p) = collision_winner sks ps) (map pos ?top)"
        unfolding top_filter [OF P ps, symmetric, OF conjunct1 [OF True]] filter_filter by (simp add: conj_commute)
      also have "\<dots> = map pos ?top" using same by (auto simp: win filter_id_conv)
      finally have kept: "strictest (map (binding_at sks) (filter (\<lambda>p. Some (fst p) = collision_winner sks ps
            \<and> bi_priority (binding_at sks p) = highest_priority sks ps) ps)) = strictest (map se_binding ?top)"
        by (simp only: strict [OF subset_trans [OF topsub riv]])
      have own: "Some (fst (pos e)) \<noteq> collision_winner sks ps \<or> bi_priority (se_binding e) \<noteq> highest_priority sks ps
          \<longleftrightarrow> e \<notin> set ?top"
        using highest_eq [OF P ps conjunct1 [OF True] placed_atD(6) [OF P]] same [of e] by (auto simp: e win)
      have "hd ?top \<in> set es" by (rule subsetD [OF riv subsetD [OF topsub hd]])
      then show ?thesis
        using placed_atD(4) [OF P, of "hd ?top"]
        unfolding collision_effect_def reference_binding_def Let_def kept settled_binding_def e own
          if_P [OF True] if_not_P [OF several] if_not_P [OF card] by (simp add: win)
    qed
  qed
qed

lemma roster_resolve_Ok:
  assumes "roster_resolve bud entries partial = Ok R"
  obtains R0 ph n m skills where
    "placed_inv (sort_key eid entries) R0 ph"
    "settle_names bud n (bt_values (ro_names R0)) (ro_skills R0) = Ok (m, skills)"
    "R = R0\<lparr>ro_skills := map settle_record skills\<rparr>"
  using assms place_entries_inv [OF placed_inv_empty]
  by (fastforce simp: roster_resolve_def split: option.splits if_splits)

lemma names_partition:
  assumes inv: "placed_inv es R ph"
  shows "\<forall>ps\<in>set (bt_values (ro_names R)). distinct ps \<and> (\<forall>p\<in>set ps. valid_pos (ro_skills R) p)"
    and "distinct (concat (bt_values (ro_names R)))"
    and "e \<in> set es \<Longrightarrow> map (pos_of R) (rivals es e) \<in> set (bt_values (ro_names R))"
proof -
  note D = placed_invD [OF inv]
  have inj: "inj_on (pos_of R) (set es)"
    using D(4,7) by (auto simp: inj_on_def distinct_map) (metis inj_onD)
  have val: "\<exists>n. ps = map (pos_of R) (filter (\<lambda>x. ename x = n) es)" if "ps \<in> set (bt_values (ro_names R))" for ps
    using that bt_values_get [OF D(2)] D(12) by (auto split: if_splits)
  have dist: "distinct (map (pos_of R) (filter Q es))" for Q
    using D(4) inj by (auto simp: distinct_map inj_on_def)
  show 1: "\<forall>ps\<in>set (bt_values (ro_names R)). distinct ps \<and> (\<forall>p\<in>set ps. valid_pos (ro_skills R) p)"
    using val dist D(6) by fastforce
  show "e \<in> set es \<Longrightarrow> map (pos_of R) (rivals es e) \<in> set (bt_values (ro_names R))"
    using bt_values_get [OF D(2)] D(12) [of "ename e"] unfolding rivals_def by auto
  have names: "snd x = map (pos_of R) (filter (\<lambda>y. ename y = fst x) es)" if "x \<in> set (ro_names R)" for x
  proof -
    have "bt_get (ro_names R) (fst x) = Some (snd x)"
      using that D(2) by (simp add: bt_get_def bt_sorted_def strict_sorted_iff)
    then show ?thesis using D(12) by (auto split: if_splits)
  qed
  have "distinct (concat (map snd m))" if "distinct (map fst m)" "set m \<subseteq> set (ro_names R)" for m
    using that
  proof (induction m)
    case (Cons x m)
    have "set (snd x) \<inter> set (snd y) = {}" if "y \<in> set m" for y
    proof -
      have "fst x \<noteq> fst y" using Cons.prems(1) that by auto
      moreover have "snd x = map (pos_of R) (filter (\<lambda>z. ename z = fst x) es)"
        "snd y = map (pos_of R) (filter (\<lambda>z. ename z = fst y) es)"
        using names Cons.prems(2) that by auto
      ultimately show ?thesis using inj by (auto simp: inj_on_def)
    qed
    then show ?case using Cons names [of x] dist by auto
  qed simp
  then show "distinct (concat (bt_values (ro_names R)))"
    using D(2) by (simp add: bt_values_def bt_sorted_def strict_sorted_iff)
qed

text \<open>The roster and the entries it was built from.\<close>

lemma roster_resolved:
  assumes ok: "roster_resolve bud entries partial = Ok R" and es: "es = sort_key eid entries"
  shows "bt_get (ro_ids R) i \<noteq> None \<longleftrightarrow> i \<in> eid ` set es"
    and "distinct (map eid es)"
    and "e \<in> set es \<Longrightarrow> valid_pos (ro_skills R) (pos_of R e)"
    and "e \<in> set es \<Longrightarrow> binding_at (ro_skills R) (pos_of R e) = reference_binding es e"
    and "valid_pos (ro_skills R) p \<Longrightarrow> \<exists>e\<in>set es. pos_of R e = p"
    and "e \<in> set es \<Longrightarrow> f \<in> set es \<Longrightarrow> fst (pos_of R e) = fst (pos_of R f) \<longleftrightarrow> se_identity e = se_identity f"
    and "bt_get (ro_names R) n =
      (if n \<in> ename ` set es then Some (map (pos_of R) (filter (\<lambda>e. ename e = n) es)) else None)"
    and "e \<in> set es \<Longrightarrow> f \<in> set es \<Longrightarrow> se_identity e = se_identity f \<Longrightarrow>
      sk_source_content (se_record e) = sk_source_content (se_record f)"
proof -
  obtain R0 ph k m skills where inv: "placed_inv es R0 ph"
    and names: "settle_names bud k (bt_values (ro_names R0)) (ro_skills R0) = Ok (m, skills)"
    and R: "R = R0\<lparr>ro_skills := map settle_record skills\<rparr>"
    using roster_resolve_Ok [OF ok] es by metis
  note D = placed_invD [OF inv]
  note S = settle_names_effect [OF names names_partition(1,2) [OF inv]]
  have pos: "pos_of R = pos_of R0" by (simp add: R pos_of_def fun_eq_iff)
  have val: "valid_pos (ro_skills R) q \<longleftrightarrow> valid_pos (ro_skills R0) q" for q
  proof -
    have "valid_pos (ro_skills R) q \<longleftrightarrow> valid_pos skills q"
      by (auto simp: R valid_pos_def settle_record_def)
    then show ?thesis using S by blast
  qed
  have bind: "binding_at (ro_skills R) q = binding_at skills q" if "valid_pos skills q" for q
    using that by (simp add: R binding_at_def valid_pos_def settle_record_def)
  have same: "fst (pos_of R x) = fst (pos_of R y) \<longleftrightarrow> se_identity x = se_identity y"
    if "x \<in> set es" "y \<in> set es" for x y
    using that D(9) [of x] D(9) [of y] D(11) [of "se_identity x" _ "se_identity y"] by (auto simp: pos)
  show "bt_get (ro_ids R) i \<noteq> None \<longleftrightarrow> i \<in> eid ` set es" using D(5) by (simp add: R)
  show "distinct (map eid es)" by (rule D(4))
  show "e \<in> set es \<Longrightarrow> valid_pos (ro_skills R) (pos_of R e)" using D(6) val by (simp add: pos)
  show "valid_pos (ro_skills R) p \<Longrightarrow> \<exists>e\<in>set es. pos_of R e = p" using D(8) val by (simp add: pos)
  show "e \<in> set es \<Longrightarrow> f \<in> set es \<Longrightarrow> fst (pos_of R e) = fst (pos_of R f) \<longleftrightarrow> se_identity e = se_identity f"
    by (rule same)
  show "bt_get (ro_names R) n =
      (if n \<in> ename ` set es then Some (map (pos_of R) (filter (\<lambda>e. ename e = n) es)) else None)"
    using D(12) by (simp add: R pos [unfolded R])
  show "e \<in> set es \<Longrightarrow> f \<in> set es \<Longrightarrow> se_identity e = se_identity f \<Longrightarrow>
      sk_source_content (se_record e) = sk_source_content (se_record f)"
    using D(14) [of e] D(14) [of f] same [of e f] by (simp add: pos)
  show "binding_at (ro_skills R) (pos_of R e) = reference_binding es e" if e: "e \<in> set es"
  proof -
    have "placed_at (ro_skills R0) (pos_of R0) es e"
      unfolding placed_at_def using e D(7,13) same by (auto simp: pos)
    from collision_is_reference [OF this refl]
    have "collision_effect (ro_skills R0) (map (pos_of R0) (rivals es e)) (pos_of R0 e) = reference_binding es e" .
    moreover have "pos_of R0 e \<in> set (map (pos_of R0) (rivals es e))" using e by (auto simp: rivals_def)
    ultimately have "binding_at skills (pos_of R0 e) = reference_binding es e"
      using S names_partition(3) [OF inv e] by metis
    moreover have "valid_pos skills (pos_of R0 e)" using S D(6) [OF e] by blast
    ultimately show ?thesis using bind by (simp add: pos)
  qed
qed

section \<open>Properties of the resolved roster\<close>

text \<open>
  C35. Every exact lookup of a resolved roster is what the entries alone determine. An identity resolves to
  the entry that carries it, with the visibility and restrictions of \<open>reference_binding\<close>; a name resolves
  through the first of its entries that stays verified, in identity order, or else reports why the first of
  them is not callable.
\<close>

theorem roster_lookups_exact:
  assumes ok: "roster_resolve bud entries partial = Ok R" and es: "es = sort_key eid entries"
  shows "exact_id R i = (case List.find (\<lambda>e. eid e = i) es of
        None \<Rightarrow> ExactMissing | Some e \<Rightarrow> exact (reference_binding es e))
    \<and> exact_name R n = (let bs = map (reference_binding es) (filter (\<lambda>e. ename e = n) es) in
        if bs = [] then ExactMissing
        else exact (case List.find (\<lambda>b. is_verified (bi_visibility b)) bs of Some b \<Rightarrow> b | None \<Rightarrow> hd bs))"
proof
  note F = roster_resolved [OF ok es]
  show "exact_id R i = (case List.find (\<lambda>e. eid e = i) es of
        None \<Rightarrow> ExactMissing | Some e \<Rightarrow> exact (reference_binding es e))"
  proof (cases "List.find (\<lambda>e. eid e = i) es")
    case None
    then have "bt_get (ro_ids R) i = None" using F(1) [of i] by (auto simp: find_None_iff)
    with None show ?thesis by (simp add: exact_id_def)
  next
    case (Some e)
    then have e: "e \<in> set es" "eid e = i" by (auto simp: find_Some_iff)
    then obtain p where p: "bt_get (ro_ids R) i = Some p" using F(1) [of i] by blast
    moreover have "pos_of R e = p" using p e by (simp add: pos_of_def)
    ultimately show ?thesis using Some F(4) [OF e(1)] by (simp add: exact_id_def)
  qed
  have binds: "map (binding_at (ro_skills R)) (map (pos_of R) (filter (\<lambda>e. ename e = n) es))
      = map (reference_binding es) (filter (\<lambda>e. ename e = n) es)"
    using F(4) by simp
  show "exact_name R n = (let bs = map (reference_binding es) (filter (\<lambda>e. ename e = n) es) in
        if bs = [] then ExactMissing
        else exact (case List.find (\<lambda>b. is_verified (bi_visibility b)) bs of Some b \<Rightarrow> b | None \<Rightarrow> hd bs))"
  proof (cases "n \<in> ename ` set es")
    case False
    then have none: "filter (\<lambda>e. ename e = n) es = []" by (auto simp: filter_empty_conv)
    show ?thesis unfolding none using F(7) [of n] False by (simp add: exact_name_def)
  next
    case True
    then have ne: "filter (\<lambda>e. ename e = n) es \<noteq> []" by (auto simp: filter_empty_conv)
    have get: "bt_get (ro_names R) n = Some (map (pos_of R) (filter (\<lambda>e. ename e = n) es))" using F(7) True by simp
    have hd: "binding_at (ro_skills R) (hd (map (pos_of R) (filter (\<lambda>e. ename e = n) es)))
        = hd (map (reference_binding es) (filter (\<lambda>e. ename e = n) es))"
      using binds ne by (metis (no_types, lifting) hd_map list.map_disc_iff)
    show ?thesis
      unfolding exact_name_def get option.case binds hd Let_def using ne by (auto split: option.splits)
  qed
qed

text \<open>
  A name never resolves across files. Two entries of one name that both stay verified are the same
  physical file and carry the same restrictions; an entry that stays verified against a rival in another
  file was admitted under the same verified contract with a strictly higher priority; and resolution
  only ever tightens the restrictions of an entry.
\<close>

theorem verified_name_is_one_file:
  assumes ok: "roster_resolve bud entries partial = Ok R"
    and e: "e \<in> set entries" and f: "f \<in> set entries" and name: "ename e = ename f"
    and final: "\<And>x. final x = binding_at (ro_skills R) (the (bt_get (ro_ids R) (eid x)))"
    and ver: "is_verified (bi_visibility (final e))"
  shows "(is_verified (bi_visibility (final f)) \<longrightarrow>
        se_identity e = se_identity f \<and> bi_restrictions (final e) = bi_restrictions (final f))
    \<and> (se_identity f \<noteq> se_identity e \<longrightarrow>
        bi_visibility (se_binding f) = bi_visibility (se_binding e)
        \<and> (\<exists>a b. bi_priority (se_binding f) = Some a \<and> bi_priority (se_binding e) = Some b \<and> a < b))
    \<and> (ir_agent_invocable (bi_restrictions (final e)) \<longrightarrow> ir_agent_invocable (bi_restrictions (se_binding e)))
    \<and> (ir_user_invocable (bi_restrictions (final e)) \<longrightarrow> ir_user_invocable (bi_restrictions (se_binding e)))"
proof -
  define es where "es = sort_key eid entries"
  note F = roster_resolved [OF ok es_def]
  have mem: "e \<in> set es" "f \<in> set es" using e f by (simp_all add: es_def)
  have fin: "final x = reference_binding es x" if "x \<in> set es" for x
    using F(4) [OF that] by (simp add: final pos_of_def)
  have riv: "rivals es f = rivals es e" "e \<in> set (rivals es e)" "f \<in> set (rivals es e)"
    using mem name by (auto simp: rivals_def)
  then have top: "top_rivals es f = top_rivals es e" by (simp add: top_rivals_def)
  have comp: "comparable_rivals es f \<longleftrightarrow> comparable_rivals es e"
    using riv unfolding comparable_rivals_def riv(1) by metis
  show ?thesis
  proof (cases "\<forall>x\<in>set (rivals es e). se_identity x = se_identity e")
    case True
    have fe: "se_identity f = se_identity e" by (rule bspec [OF True riv(3)])
    have all_f: "\<forall>x\<in>set (rivals es e). se_identity x = se_identity f" unfolding fe by (rule True)
    have "final e = (se_binding e)\<lparr>bi_restrictions := strictest (map se_binding (rivals es e))\<rparr>"
      unfolding fin [OF mem(1)] reference_binding_def Let_def if_P [OF True] ..
    moreover have "final f = (se_binding f)\<lparr>bi_restrictions := strictest (map se_binding (rivals es e))\<rparr>"
      unfolding fin [OF mem(2)] reference_binding_def Let_def riv(1) if_P [OF all_f] ..
    ultimately show ?thesis using fe riv(2) by (auto simp: strictest_eq)
  next
    case several: False
    let ?one = "comparable_rivals es e \<and>
      (\<forall>x\<in>set (top_rivals es e). \<forall>y\<in>set (top_rivals es e). se_identity x = se_identity y)"
    have severalf: "\<not> (\<forall>x\<in>set (rivals es f). se_identity x = se_identity f)"
      using several riv by metis
    have refe: "reference_binding es e = (if ?one then if e \<in> set (top_rivals es e)
          then (se_binding e)\<lparr>bi_restrictions := strictest (map se_binding (top_rivals es e))\<rparr>
          else (se_binding e)\<lparr>bi_visibility := Shadowed (sk_id (se_record (canonical es (hd (top_rivals es e)))))\<rparr>
        else (se_binding e)\<lparr>bi_visibility := Ambiguous\<rparr>)"
      unfolding reference_binding_def Let_def if_not_P [OF several] ..
    have reff: "reference_binding es f = (if ?one then if f \<in> set (top_rivals es e)
          then (se_binding f)\<lparr>bi_restrictions := strictest (map se_binding (top_rivals es e))\<rparr>
          else (se_binding f)\<lparr>bi_visibility := Shadowed (sk_id (se_record (canonical es (hd (top_rivals es e)))))\<rparr>
        else (se_binding f)\<lparr>bi_visibility := Ambiguous\<rparr>)"
      unfolding reference_binding_def Let_def if_not_P [OF severalf] comp top ..
    have one: ?one and etop: "e \<in> set (top_rivals es e)"
      using ver unfolding fin [OF mem(1)] refe by (simp_all only: split: if_splits) simp_all
    have idf: "se_identity f = se_identity e" if "f \<in> set (top_rivals es e)"
      by (rule bspec [OF bspec [OF conjunct2 [OF one] that] etop])
    have verf: "f \<in> set (top_rivals es e)" if "is_verified (bi_visibility (final f))"
    proof (rule ccontr)
      assume n: "f \<notin> set (top_rivals es e)"
      show False using that unfolding fin [OF mem(2)] reff if_P [OF one] if_not_P [OF n] by simp
    qed
    have same: "bi_visibility (se_binding x) = bi_visibility (se_binding e) \<and> bi_priority (se_binding x) \<noteq> None"
      if "x \<in> set (rivals es e)" for x
      using conjunct1 [OF one] that unfolding comparable_rivals_def by blast
    obtain a b where pr: "bi_priority (se_binding f) = Some a" "bi_priority (se_binding e) = Some b"
      using conjunct2 [OF same [OF riv(3)]] conjunct2 [OF same [OF riv(2)]] by blast
    have "a < b" if "f \<notin> set (top_rivals es e)"
    proof (rule ccontr)
      assume "\<not> a < b"
      then have "\<forall>y\<in>set (rivals es e). the (bi_priority (se_binding y)) \<le> a"
        using etop pr(2) by (fastforce simp: top_rivals_def)
      with that riv(3) pr(1) show False by (simp add: top_rivals_def)
    qed
    moreover have "bi_visibility (se_binding f) = bi_visibility (se_binding e)"
      by (rule conjunct1 [OF same [OF riv(3)]])
    moreover have re: "bi_restrictions (final e) = strictest (map se_binding (top_rivals es e))"
      unfolding fin [OF mem(1)] refe if_P [OF one] if_P [OF etop] by simp
    moreover have "bi_restrictions (final f) = strictest (map se_binding (top_rivals es e))"
      if "f \<in> set (top_rivals es e)"
      unfolding fin [OF mem(2)] reff if_P [OF one] if_P [OF that] by simp
    ultimately show ?thesis using idf verf pr etop by (auto simp: strictest_eq)
  qed
qed

section \<open>The option map is a bijection\<close>

definition option_key :: "string \<Rightarrow> nat \<Rightarrow> OptionId" where
  "option_key letter i = scalars (letter @ pad3 i)"

definition advisory_at :: "ResolvedRoster \<Rightarrow> SkillId \<Rightarrow> AdvisorySkill" where
  "advisory_at R i =
     (let p = the (bt_get (ro_ids R) i) in
      \<lparr>as_record = rk_record (ro_skills R ! fst p), as_binding = binding_at (ro_skills R) p\<rparr>)"

lemma digit_scalar_value: "d < 10 \<Longrightarrow> (of_char (digit_char d) :: nat) = 48 + d"
proof -
  assume "d < 10"
  then have "d \<in> {0, 1, 2, 3, 4, 5, 6, 7, 8, 9}" by auto
  then show ?thesis by (auto simp: digit_char_def)
qed

lemma pad3_digits:
  assumes "n < 1000"
  shows "pad3 n = [digit_char (n div 100), digit_char (n div 10 mod 10), digit_char (n mod 10)]"
proof -
  have zero: "digit_char 0 = CHR ''0''" by (simp add: digit_char_def)
  consider "n < 10" | "10 \<le> n" "n < 100" | "100 \<le> n" by linarith
  then show ?thesis
  proof cases
    case 1
    then have "dec n = [digit_char n]" by (simp add: dec_def radix.simps)
    with 1 zero show ?thesis by (simp add: pad3_def numeral_2_eq_2)
  next
    case 2
    then have "n div 10 < 10" by auto
    with 2 have "dec n = [digit_char (n div 10), digit_char (n mod 10)]"
      by (simp add: dec_def radix.simps [of 10 n] radix.simps [of 10 "n div 10"])
    with 2 zero show ?thesis by (simp add: pad3_def)
  next
    case 3
    have "\<not> n div 10 < 10" "n div 10 div 10 < 10" using 3 assms by (simp_all add: not_less div_mult2_eq [symmetric])
    with 3 assms have "dec n = [digit_char (n div 10 div 10), digit_char (n div 10 mod 10), digit_char (n mod 10)]"
      by (simp add: dec_def radix.simps [of 10 n] radix.simps [of 10 "n div 10"] radix.simps [of 10 "n div 10 div 10"])
    then show ?thesis by (simp add: pad3_def div_mult2_eq [symmetric])
  qed
qed

lemma option_key_value:
  "i < 1000 \<Longrightarrow> option_key [l] i = [of_char l, 48 + i div 100, 48 + i div 10 mod 10, 48 + i mod 10]"
  by (simp add: option_key_def scalars_def pad3_digits digit_scalar_value)

lemma option_key_less:
  assumes "i < j" "j < 1000"
  shows "option_key [l] i < option_key [l] j"
proof -
  have split: "k = 100 * (k div 100) + 10 * (k div 10 mod 10) + k mod 10" for k :: nat
  proof -
    have "k div 10 div 10 = k div 100" by (simp add: div_mult2_eq [symmetric])
    then show ?thesis using div_mult_mod_eq [of k 10] div_mult_mod_eq [of "k div 10" 10] by linarith
  qed
  have "i div 10 mod 10 < 10" "i mod 10 < 10" "j div 10 mod 10 < 10" "j mod 10 < 10" by simp_all
  with split [of i] split [of j] assms(1)
  have "i div 100 < j div 100 \<or> i div 100 = j div 100 \<and> (i div 10 mod 10 < j div 10 mod 10
      \<or> i div 10 mod 10 = j div 10 mod 10 \<and> i mod 10 < j mod 10)"
    by linarith
  then show ?thesis using assms by (simp add: option_key_value)
qed

lemma option_key_new:
  assumes "i < 1000" "l \<in> {CHR ''o'', CHR ''r''}"
  shows "option_id_new (option_key [l] i) = Ok (option_key [l] i)"
proof -
  have d: "i div 100 < 10" "i div 10 mod 10 < 10" "i mod 10 < 10" using assms(1) by auto
  have c: "of_char l \<in> {111::nat, 114}" using assms(2) by auto
  have key: "option_key [l] i = [of_char l, 48 + i div 100, 48 + i div 10 mod 10, 48 + i mod 10]"
    using assms(1) by (rule option_key_value)
  have ok: "\<not> forbidden_identity_character x" if "48 \<le> x" "x < 127" for x
    using that by (auto simp: forbidden_identity_character_def is_whitespace_def is_control_def is_directional_def)
  have "\<forall>x\<in>set (option_key [l] i). 48 \<le> x \<and> x < 127" using c d by (auto simp: key)
  then have "\<forall>x\<in>set (option_key [l] i). \<not> forbidden_identity_character x" using ok by blast
  moreover have "str_len (option_key [l] i) \<le> MAX_ID_BYTES"
    using c d by (auto simp: key str_len_def utf8_len_def MAX_ID_BYTES_def)
  moreover have "option_key [l] i \<noteq> none_option" by (simp add: key none_option_def scalars_def)
  ultimately show ?thesis by (simp add: option_id_new_Ok validate_id_Ok) (simp add: key)
qed

lemma collect_options_eq:
  assumes "l \<in> {CHR ''o'', CHR ''r''}" "index + length cs \<le> 1000" "\<forall>k\<in>fst ` set m. k < option_key [l] index \<or> cs = []"
  shows "collect_options [l] index cs m = Ok (m @ zip (map (option_key [l]) [index..<index + length cs]) cs)"
  using assms
proof (induction cs arbitrary: index m)
  case (Cons c cs)
  have new: "option_id_new (scalars ([l] @ pad3 index)) = Ok (option_key [l] index)"
    using option_key_new [of index l] Cons.prems(1,2) by (simp add: option_key_def)
  have ins: "bt_insert (option_key [l] index) c m = m @ [(option_key [l] index, c)]"
    using Cons.prems(3) by (intro bt_insert_last) auto
  have "collect_options [l] (Suc index) cs (m @ [(option_key [l] index, c)])
      = Ok ((m @ [(option_key [l] index, c)]) @ zip (map (option_key [l]) [Suc index..<Suc index + length cs]) cs)"
  proof (rule Cons.IH)
    show "\<forall>k\<in>fst ` set (m @ [(option_key [l] index, c)]). k < option_key [l] (Suc index) \<or> cs = []"
      using Cons.prems(2,3) option_key_less [of index "Suc index" l] by (cases cs) (auto dest: less_trans)
  qed (use Cons.prems in auto)
  then show ?case using new ins by (simp add: upt_conv_Cons del: upt_Suc)
qed simp

lemma select_options_Ok:
  "select_options R seen ids = Ok cs \<Longrightarrow>
     cs = map (advisory_at R) ids
     \<and> (\<forall>i\<in>set ids. bt_get (ro_ids R) i \<noteq> None \<and> eligible_binding (as_binding (advisory_at R i))
          \<and> fst (the (bt_get (ro_ids R) i)) \<notin> seen)
     \<and> distinct (map (\<lambda>i. fst (the (bt_get (ro_ids R) i))) ids)"
proof (induction ids arbitrary: seen cs)
  case (Cons i ids)
  then obtain s b cs' where sb: "bt_get (ro_ids R) i = Some (s, b)" "s \<notin> seen"
      "eligible_binding (rk_bindings (ro_skills R ! s) ! b)"
      "select_options R (insert s seen) ids = Ok cs'"
      "cs = \<lparr>as_record = rk_record (ro_skills R ! s), as_binding = rk_bindings (ro_skills R ! s) ! b\<rparr> # cs'"
    by (auto simp: Let_def split: option.splits if_splits)
  then show ?case using Cons.IH [OF sb(4)] by (auto simp: advisory_at_def binding_at_def)
qed simp

text \<open>
  The option map of one provider request is a bijection between its handles and the selected skills.
  At most 254 skills are offered, each of them eligible and no file twice; the handles \<open>o000\<close>, \<open>o001\<close>,
  \<dots> resolve to the selected skills in identity order, no other answer resolves to a skill, and the
  renamed map offers the same skills in reverse order.
\<close>

theorem option_map_bijection:
  assumes ok: "option_map_new R selected = Ok m"
    and cs: "cs = sort_key (\<lambda>c. sk_id (as_record c)) (map (advisory_at R) selected)"
  shows "length cs = length selected \<and> length selected \<le> 254
    \<and> (\<forall>c\<in>set cs. eligible_binding (as_binding c))
    \<and> distinct (map (\<lambda>i. fst (the (bt_get (ro_ids R) i))) selected)
    \<and> (\<forall>v c. option_map_resolve m v = Ok (SkillOption c) \<longleftrightarrow> (\<exists>i < length cs. v = option_key ''o'' i \<and> c = cs ! i))
    \<and> (\<exists>m'. option_map_new_renamed R selected = Ok m'
         \<and> (\<forall>v c. option_map_resolve m' v = Ok (SkillOption c)
              \<longleftrightarrow> (\<exists>i < length cs. v = option_key ''r'' i \<and> c = cs ! (length cs - 1 - i))))"
proof -
  obtain ds where sel: "select_options R {} selected = Ok ds" and len: "length selected \<le> 254"
    and col: "collect_options ''o'' 0 (sort_key (\<lambda>c. sk_id (as_record c)) ds) [] = Ok m"
    using ok by (auto simp: option_map_new_def split: if_splits)
  note S = select_options_Ok [OF sel]
  have n: "length cs \<le> 254" using len cs by simp
  have m: "m = zip (map (option_key ''o'') [0..<length cs]) cs"
    using collect_options_eq [of "CHR ''o''" 0 cs "[]"] col S n cs by simp
  have resolve: "option_map_resolve (zip (map (option_key [l]) [0..<length xs]) xs) v = Ok (SkillOption c)
      \<longleftrightarrow> (\<exists>i < length xs. v = option_key [l] i \<and> c = xs ! i)"
    if l: "l \<in> {CHR ''o'', CHR ''r''}" and xs: "length xs \<le> 254" for l xs v c
  proof -
    have inj: "option_key [l] i = option_key [l] j \<longleftrightarrow> i = j" if "i < 1000" "j < 1000" for i j
      using option_key_less [of i j l] option_key_less [of j i l] that by (metis less_irrefl linorder_neqE_nat)
    have dist: "distinct (map (option_key [l]) [0..<length xs])"
      using xs inj by (auto simp: distinct_map inj_on_def)
    have get: "bt_get (zip (map (option_key [l]) [0..<length xs]) xs) v = Some c
        \<longleftrightarrow> (\<exists>i < length xs. v = option_key [l] i \<and> c = xs ! i)"
    proof -
      have "bt_get (zip (map (option_key [l]) [0..<length xs]) xs) v = Some c
          \<longleftrightarrow> (v, c) \<in> set (zip (map (option_key [l]) [0..<length xs]) xs)"
        using dist by (simp add: bt_get_def map_of_eq_Some_iff)
      also have "\<dots> \<longleftrightarrow> (\<exists>i < length xs. v = option_key [l] i \<and> c = xs ! i)"
        by (auto simp: set_zip) (metis add_0 diff_zero length_upt nth_map nth_upt)
      finally show ?thesis .
    qed
    have key: "option_id_new (option_key [l] i) = Ok (option_key [l] i)" if "i < length xs" for i
      using option_key_new [of i l] that xs l by simp
    show ?thesis
    proof
      assume "option_map_resolve (zip (map (option_key [l]) [0..<length xs]) xs) v = Ok (SkillOption c)"
      then show "\<exists>i < length xs. v = option_key [l] i \<and> c = xs ! i"
        using get by (auto simp: option_map_resolve_def option_id_new_Ok split: if_splits result.splits option.splits)
    next
      assume a: "\<exists>i < length xs. v = option_key [l] i \<and> c = xs ! i"
      then have new: "option_id_new v = Ok v" using key by auto
      then have "v \<noteq> none_option" "str_len v \<le> MAX_ID_BYTES" by (simp_all add: option_id_new_Ok validate_id_Ok)
      moreover have "bt_get (zip (map (option_key [l]) [0..<length xs]) xs) v = Some c" using a get by simp
      ultimately show "option_map_resolve (zip (map (option_key [l]) [0..<length xs]) xs) v = Ok (SkillOption c)"
        using new by (simp add: option_map_resolve_def)
    qed
  qed
  have vals: "bt_values m = cs" by (simp add: m bt_values_def)
  have renamed: "option_map_new_renamed R selected = Ok (zip (map (option_key ''r'') [0..<length (rev cs)]) (rev cs))"
    using collect_options_eq [of "CHR ''r''" 0 "rev cs" "[]"] n by (simp add: option_map_new_renamed_def ok vals)
  have elig: "\<forall>c\<in>set cs. eligible_binding (as_binding c)" using S by (auto simp: cs)
  have reversed: "option_map_resolve (zip (map (option_key ''r'') [0..<length (rev cs)]) (rev cs)) v = Ok (SkillOption c)
      \<longleftrightarrow> (\<exists>i < length cs. v = option_key ''r'' i \<and> c = cs ! (length cs - 1 - i))" for v c
    using resolve [of "CHR ''r''" "rev cs" v c] n by (auto simp: rev_nth)
  show ?thesis
    using S len elig resolve [of "CHR ''o''" cs] n renamed reversed by (auto simp: m cs)
qed

section \<open>A concrete roster\<close>

definition ro_demo_binding :: "SkillId \<Rightarrow> InvocationName \<Rightarrow> int \<Rightarrow> Binding" where
  "ro_demo_binding i n p =
     \<lparr>bi_id = i, bi_source = [115], bi_invocation = n, bi_visibility = Verified [99],
      bi_restrictions = no_restrictions, bi_priority = Some p\<rparr>"

definition ro_demo_record :: "SkillId \<Rightarrow> SkillRecord" where
  "ro_demo_record i =
     \<lparr>sk_id = i, sk_source = [115], sk_source_priority = 0, sk_invocation_name = [110], sk_display_name = [110],
      sk_target = FileTarget [47], sk_source_content = i, sk_rendered_content = None, sk_visibility = Unverified,
      sk_restrictions = no_restrictions, sk_usage_kind = Reference, sk_forked_context = False,
      sk_dynamic_content = False, sk_aliases = [], sk_description_full = [], sk_description_short = [],
      sk_body_excerpt = [], sk_body_window = [], sk_tags = [], sk_phases = [], sk_parse_warnings = []\<rparr>"

definition ro_demo_entry :: "SkillId \<Rightarrow> nat \<Rightarrow> int \<Rightarrow> SkillEntry" where
  "ro_demo_entry i inode p =
     \<lparr>se_record = ro_demo_record i, se_binding = ro_demo_binding i [110] p, se_identity = (1, inode), se_bytes = 10\<rparr>"

definition ro_demo_entries :: "SkillEntry list" where
  "ro_demo_entries = [ro_demo_entry [98] 2 1, ro_demo_entry [97] 1 5]"

definition ro_demo_roster :: ResolvedRoster where
  "ro_demo_roster = \<lparr>
     ro_skills =
       [\<lparr>rk_record = (ro_demo_record [97])\<lparr>sk_visibility := Verified [99]\<rparr>, rk_bindings = [ro_demo_binding [97] [110] 5]\<rparr>,
        \<lparr>rk_record = (ro_demo_record [98])\<lparr>sk_visibility := Shadowed [97]\<rparr>,
         rk_bindings = [(ro_demo_binding [98] [110] 1)\<lparr>bi_visibility := Shadowed [97]\<rparr>]\<rparr>],
     ro_ids = [([97], (0, 0)), ([98], (1, 0))], ro_names = [([110], [(0, 0), (1, 0)])],
     ro_partial = False, ro_diagnostics = []\<rparr>"

lemmas ro_demo_defs = ro_demo_entries_def ro_demo_entry_def ro_demo_record_def ro_demo_binding_def no_restrictions_def

lemma ro_demo_resolves: "roster_resolve (\<lambda>_. None) ro_demo_entries False = Ok ro_demo_roster"
  by (simp add: roster_resolve_def ro_demo_defs check_limit_def DISCOVERY_FILES_def DISCOVERY_PARSED_BYTES_def
      new_const_def MIB_def KIB_def USIZE_MAX_def U64_MAX_def sort_key_def place_entry_def empty_roster_def
      bt_get_def bt_values_def resolve_collision_def highest_priority_def collision_winner_def binding_at_def
      set_binding_def settled_binding_def strictest_def tighten_def settle_record_def ro_demo_roster_def
      List.map_filter_simps Let_def)

theorem roster_lookups_exact_witness:
  "exact_id ro_demo_roster [98] = ExactShadowed \<and> exact_name ro_demo_roster [110] = ExactResolved [97] [110] AgentInvocation"
proof -
  have es: "sort_key eid ro_demo_entries = [ro_demo_entry [97] 1 5, ro_demo_entry [98] 2 1]"
    by (simp add: ro_demo_defs sort_key_def)
  have "reference_binding [ro_demo_entry [97] 1 5, ro_demo_entry [98] 2 1] (ro_demo_entry [98] 2 1)
      = (ro_demo_binding [98] [110] 1)\<lparr>bi_visibility := Shadowed [97]\<rparr>"
    "reference_binding [ro_demo_entry [97] 1 5, ro_demo_entry [98] 2 1] (ro_demo_entry [97] 1 5)
      = ro_demo_binding [97] [110] 5"
    by (simp_all add: reference_binding_def ro_demo_defs rivals_def top_rivals_def comparable_rivals_def
        canonical_def strictest_eq Let_def)
  with roster_lookups_exact [OF ro_demo_resolves refl, of "[98]" "[110]"] show ?thesis
    unfolding es by (simp add: ro_demo_entry_def ro_demo_binding_def exact_def explicit_kind_def no_restrictions_def)
qed

theorem verified_name_is_one_file_witness:
  "bi_visibility (se_binding (ro_demo_entry [98] 2 1)) = bi_visibility (se_binding (ro_demo_entry [97] 1 5))
   \<and> (\<exists>a b. bi_priority (se_binding (ro_demo_entry [98] 2 1)) = Some a
        \<and> bi_priority (se_binding (ro_demo_entry [97] 1 5)) = Some b \<and> a < b)"
  using verified_name_is_one_file [OF ro_demo_resolves, of "ro_demo_entry [97] 1 5" "ro_demo_entry [98] 2 1"
      "\<lambda>x. binding_at (ro_skills ro_demo_roster) (the (bt_get (ro_ids ro_demo_roster) (eid x)))"]
  by (simp add: ro_demo_defs ro_demo_roster_def binding_at_def bt_get_def)

theorem option_map_bijection_witness:
  "\<exists>m. option_map_new ro_demo_roster [[97]] = Ok m
     \<and> option_map_resolve m (option_key ''o'' 0) = Ok (SkillOption (advisory_at ro_demo_roster [97]))"
proof -
  have sel: "select_options ro_demo_roster {} [[97]] = Ok [advisory_at ro_demo_roster [97]]"
    by (simp add: ro_demo_roster_def ro_demo_defs bt_get_def eligible_binding_def advisory_at_def binding_at_def Let_def)
  then obtain m where m: "option_map_new ro_demo_roster [[97]] = Ok m"
    using collect_options_eq [of "CHR ''o''" 0 "[advisory_at ro_demo_roster [97]]" "[]"]
    by (simp add: option_map_new_def sort_key_def)
  with option_map_bijection [OF m refl] show ?thesis by (simp add: sort_key_def)
qed

end
