(* ===== verification/Explicit.thy ===== *)
theory Explicit
  imports Roster Str_Text "HOL-Library.Code_Target_Nat"
begin

text \<open>
  Model of \<open>src/src/roster/explicit.rs\<close>: directives in the user's prompt and the resolution of explicit
  requirements and exclusions against the roster. Positions in a line count scalar values where the source counts
  bytes; ASCII lower-casing keeps both, so order and slices are the same. \<open>char::is_alphanumeric\<close> is Unicode
  table data and appears as the argument \<open>alnum\<close>.
\<close>

section \<open>Requests and results\<close>

datatype DirectiveKind = RequireDirective | ExcludeDirective

record ParsedDirective =
  pd_target :: str
  pd_kind :: DirectiveKind

datatype UnresolvedReason =
  UrMissing | UrAmbiguous | UrShadowed | UrUnverified | UrForbidden | UrConflictingDirective | UrInvalidName

fun unresolved_as_str :: "UnresolvedReason \<Rightarrow> string" where
  "unresolved_as_str UrMissing = ''missing''"
| "unresolved_as_str UrAmbiguous = ''ambiguous''"
| "unresolved_as_str UrShadowed = ''shadowed''"
| "unresolved_as_str UrUnverified = ''unverified''"
| "unresolved_as_str UrForbidden = ''forbidden''"
| "unresolved_as_str UrConflictingDirective = ''conflicting-directive''"
| "unresolved_as_str UrInvalidName = ''invalid-name''"

record UnresolvedRecord =
  ur_target :: str
  ur_reason :: UnresolvedReason
  ur_diagnostic :: str

record ResolvedExplicitSkill =
  rx_id :: SkillId
  rx_invocation :: str
  rx_kind :: InvocationKind
  rx_manual_only :: bool

record ExplicitResolutionRequest =
  er_cli_required :: "str list"
  er_cli_excluded :: "str list"
  er_context_references :: "SkillId list"
  er_context_excluded :: "SkillId list"
  er_user_prompt :: "str option"

datatype ExplicitResolutionResult =
    ResolvedResult "ResolvedExplicitSkill list" "SkillId list"
  | NoneSpecified "SkillId list"
  | UnavailableResult "UnresolvedRecord list"

datatype ExplicitResolutionError = TooManyExplicitReferences nat nat | OversizedInput nat nat

definition HOOK_STDIN_BYTES :: ResourceLimit where
  "HOOK_STDIN_BYTES = new_const ''hook_stdin'' Bytes MIB"

definition MAX_EXPLICIT_REQUESTS :: ResourceLimit where
  "MAX_EXPLICIT_REQUESTS = new_const ''explicit_requests'' Items 32"

section \<open>Quoted text\<close>

text \<open>
  What follows the closing quote: the search of one kind of quote ends at the end of the line, and a closing
  single quote is not one inside a word.
\<close>

fun close_quote :: "(scalar \<Rightarrow> bool) \<Rightarrow> scalar \<Rightarrow> bool \<Rightarrow> bool \<Rightarrow> str \<Rightarrow> str option" where
  "close_quote alnum q one_line outside_words [] = None"
| "close_quote alnum q one_line outside_words (c # cs) =
     (if one_line \<and> c = 10 then None
      else if c = q \<and> \<not> (outside_words \<and> (case cs of d # _ \<Rightarrow> alnum d | [] \<Rightarrow> False)) then Some cs
      else close_quote alnum q one_line outside_words cs)"

fun close_fence :: "str \<Rightarrow> str option" where
  "close_fence [] = None"
| "close_fence (c # cs) = (if c = 96 \<and> take 2 cs = [96, 96] then Some (drop 2 cs) else close_fence cs)"

definition is_apostrophe :: "(scalar \<Rightarrow> bool) \<Rightarrow> scalar option \<Rightarrow> str \<Rightarrow> bool" where
  "is_apostrophe alnum prev cs \<longleftrightarrow>
     (case prev of Some p \<Rightarrow> alnum p | None \<Rightarrow> False) \<and> (case cs of d # _ \<Rightarrow> alnum d | [] \<Rightarrow> False)"

text \<open>The quoted text a character opens: its last character and what follows it.\<close>

definition quoted_rest :: "(scalar \<Rightarrow> bool) \<Rightarrow> scalar \<Rightarrow> str \<Rightarrow> (scalar \<times> str) option" where
  "quoted_rest alnum c cs =
     (if c = 96 then map_option (Pair 96) (close_quote alnum 96 True False cs)
      else if c = 34 then map_option (Pair 34) (close_quote alnum 34 False False cs)
      else if c = 8220 then map_option (Pair 8221) (close_quote alnum 8221 False False cs)
      else if c = 8216 then map_option (Pair 8217) (close_quote alnum 8217 False True cs)
      else if c = 39 then map_option (Pair 39) (close_quote alnum 39 True True cs)
      else None)"

lemma close_quote_shorter: "close_quote alnum q l w cs = Some r \<Longrightarrow> length r < length cs"
  by (induction cs) (auto split: if_splits intro: less_SucI)

lemma close_fence_shorter: "close_fence cs = Some r \<Longrightarrow> length r < length cs"
  by (induction cs) (auto split: if_splits intro: less_SucI)

lemma quoted_rest_shorter: "quoted_rest alnum c cs = Some (q, r) \<Longrightarrow> length r < length cs"
  by (auto simp: quoted_rest_def dest: close_quote_shorter split: if_splits)

text \<open>The loop of \<open>strip_quotes_and_code_blocks\<close>, with the character before the current one.\<close>

function strip_loop :: "(scalar \<Rightarrow> bool) \<Rightarrow> scalar option \<Rightarrow> str \<Rightarrow> str" where
  "strip_loop alnum prev [] = []"
| "strip_loop alnum prev (c # cs) =
     (if c = 96 \<and> take 2 cs = [96, 96] then
        (case close_fence (drop 2 cs) of Some rest \<Rightarrow> 32 # strip_loop alnum (Some 96) rest | None \<Rightarrow> [32])
      else if c = 39 \<and> is_apostrophe alnum prev cs then 39 # strip_loop alnum (Some 39) cs
      else
        (case quoted_rest alnum c cs of
           Some (q, rest) \<Rightarrow> 32 # strip_loop alnum (Some q) rest
         | None \<Rightarrow> c # strip_loop alnum (Some c) cs))"
  by pat_completeness auto
termination
  by (relation "measure (\<lambda>(a, p, s). length s)")
    (auto dest!: close_fence_shorter quoted_rest_shorter)

definition strip_quotes_and_code_blocks :: "(scalar \<Rightarrow> bool) \<Rightarrow> str \<Rightarrow> str" where
  "strip_quotes_and_code_blocks alnum s = strip_loop alnum None s"

section \<open>Directives in the prompt\<close>

fun split_pred :: "(scalar \<Rightarrow> bool) \<Rightarrow> str \<Rightarrow> str list" where
  "split_pred P [] = [[]]"
| "split_pred P (c # cs) =
     (if P c then [] # split_pred P cs
      else case split_pred P cs of l # ls \<Rightarrow> (c # l) # ls | [] \<Rightarrow> [[c]])"

definition split_whitespace :: "str \<Rightarrow> str list" where
  "split_whitespace s = filter (\<lambda>w. w \<noteq> []) (split_pred is_whitespace s)"

definition EXCLUSION_PREFIXES :: "str list" where
  "EXCLUSION_PREFIXES =
     [scalars ''do not use skill '', scalars ''do not use '', scalars ''don'' @ [39] @ scalars ''t use skill '',
      scalars ''don'' @ [39] @ scalars ''t use '', scalars ''don'' @ [8217] @ scalars ''t use skill '',
      scalars ''don'' @ [8217] @ scalars ''t use '', scalars ''dont use skill '', scalars ''never use skill '',
      scalars ''exclude skill '']"

definition REQUIREMENT_PREFIXES :: "str list" where
  "REQUIREMENT_PREFIXES =
     [scalars ''use skill '', scalars ''require skill '', scalars ''run skill '', scalars ''invoke skill '',
      scalars ''execute skill '']"

definition NEGATIONS :: "str list" where
  "NEGATIONS =
     [scalars ''not'', scalars ''don'' @ [39] @ scalars ''t'', scalars ''dont'', scalars ''never'', scalars ''no'',
      scalars ''avoid'', scalars ''without'', scalars ''cannot'', scalars ''can'' @ [39] @ scalars ''t'',
      scalars ''won'' @ [39] @ scalars ''t'', scalars ''shouldn'' @ [39] @ scalars ''t'',
      scalars ''mustn'' @ [39] @ scalars ''t'']"

definition negated :: "str \<Rightarrow> bool" where
  "negated before =
     (case rev (split_whitespace before) of
        [] \<Rightarrow> False
      | word # _ \<Rightarrow> map (\<lambda>c. if c = 8217 then 39 else c) word \<in> set NEGATIONS)"

fun directive_segments :: "str \<Rightarrow> str list" where
  "directive_segments [] = [[]]"
| "directive_segments (c # cs) =
     (if c = 10 \<or> c = 59 \<or> c = 46 \<and> (case cs of d # _ \<Rightarrow> is_whitespace d | [] \<Rightarrow> True)
      then [] # directive_segments cs
      else case directive_segments cs of l # ls \<Rightarrow> (c # l) # ls | [] \<Rightarrow> [[c]])"

definition clean_target_name :: "(scalar \<Rightarrow> bool) \<Rightarrow> str \<Rightarrow> str" where
  "clean_target_name alnum word = trim_matches (\<lambda>c. \<not> alnum c \<and> c \<noteq> 45 \<and> c \<noteq> 95 \<and> c \<noteq> 46 \<and> c \<noteq> 47) word"

text \<open>\<open>str::match_indices\<close>: non-overlapping occurrences from the left.\<close>

function match_positions :: "nat \<Rightarrow> str \<Rightarrow> str \<Rightarrow> nat list" where
  "match_positions pos p [] = []"
| "match_positions pos p (c # cs) =
     (if p \<noteq> [] \<and> starts_with (c # cs) p then pos # match_positions (pos + length p) p (drop (length p) (c # cs))
      else match_positions (Suc pos) p cs)"
  by pat_completeness auto
termination
  by (relation "measure (\<lambda>(n, p, s). length s)") (auto simp: neq_Nil_conv)

text \<open>Whether a phrase may start at a position, by the byte before it.\<close>

definition directive_bounded :: "str \<Rightarrow> nat \<Rightarrow> bool" where
  "directive_bounded line pos \<longleftrightarrow>
     pos = 0 \<or> line ! (pos - 1) \<in> {32, 9, 10, 12, 13, 46, 59, 44}"

fun natural_positions ::
  "(scalar \<Rightarrow> bool) \<Rightarrow> str \<Rightarrow> str \<Rightarrow> nat \<Rightarrow> nat list \<Rightarrow> nat set \<times> (nat \<times> str) list \<Rightarrow> nat set \<times> (nat \<times> str) list" where
  "natural_positions alnum original line len [] st = st"
| "natural_positions alnum original line len (pos # ps) (claimed, found) =
     natural_positions alnum original line len ps
       (if \<not> directive_bounded line pos \<or> pos \<in> claimed then (claimed, found)
        else
          (insert pos claimed,
           case split_whitespace (drop (pos + len) original) of
             [] \<Rightarrow> found
           | first_word # _ \<Rightarrow>
               (let target = clean_target_name alnum first_word in
                if target \<noteq> [] then found @ [(pos, target)] else found)))"

definition natural_directives :: "(scalar \<Rightarrow> bool) \<Rightarrow> str \<Rightarrow> str \<Rightarrow> str list \<Rightarrow> (nat \<times> str) list" where
  "natural_directives alnum original line prefixes =
     sort_key fst (snd (fold (\<lambda>p. natural_positions alnum original line (length p) (match_positions 0 p line))
       prefixes ({}, [])))"

definition slash_directive :: "(scalar \<Rightarrow> bool) \<Rightarrow> str \<Rightarrow> ParsedDirective list" where
  "slash_directive alnum rest =
     (case split_whitespace rest of
        w # v # _ \<Rightarrow>
          (let cmd = map ascii_lower w; target = clean_target_name alnum v in
           if target = [] then []
           else if cmd \<in> {scalars ''use-skill'', scalars ''require-skill'', scalars ''skill''}
           then [\<lparr>pd_target = target, pd_kind = RequireDirective\<rparr>]
           else if cmd \<in> {scalars ''exclude-skill'', scalars ''no-skill''}
           then [\<lparr>pd_target = target, pd_kind = ExcludeDirective\<rparr>]
           else [])
      | _ \<Rightarrow> [])"

definition segment_directives :: "(scalar \<Rightarrow> bool) \<Rightarrow> str \<Rightarrow> ParsedDirective list" where
  "segment_directives alnum segment =
     (let trimmed = trim_str segment in
      case trimmed of
        [] \<Rightarrow> []
      | c # rest \<Rightarrow>
          if c = 47 then slash_directive alnum rest
          else
            (let lower = map ascii_lower trimmed in
             map (\<lambda>(_, target). \<lparr>pd_target = target, pd_kind = ExcludeDirective\<rparr>)
               (natural_directives alnum trimmed lower EXCLUSION_PREFIXES)
             @ map (\<lambda>(_, target). \<lparr>pd_target = target, pd_kind = RequireDirective\<rparr>)
                 (filter (\<lambda>(pos, _). \<not> negated (take pos lower))
                   (natural_directives alnum trimmed lower REQUIREMENT_PREFIXES))))"

definition parse_prompt_directives :: "(scalar \<Rightarrow> bool) \<Rightarrow> str \<Rightarrow> ParsedDirective list" where
  "parse_prompt_directives alnum prompt =
     concat (map (segment_directives alnum) (directive_segments (strip_quotes_and_code_blocks alnum prompt)))"

section \<open>Exclusions\<close>

fun exclude_bindings :: "str set \<Rightarrow> Binding list \<Rightarrow> str set \<times> bool \<Rightarrow> str set \<times> bool" where
  "exclude_bindings targets [] st = st"
| "exclude_bindings targets (b # bs) st =
     exclude_bindings targets bs
       (fold (\<lambda>key (unmatched, matches). if key \<in> targets then (unmatched - {key}, True) else (unmatched, matches))
         [bi_id b, bi_invocation b] st)"

fun exclude_skills :: "str set \<Rightarrow> ResolvedSkill list \<Rightarrow> str set \<times> SkillId set \<Rightarrow> str set \<times> SkillId set" where
  "exclude_skills targets [] st = st"
| "exclude_skills targets (s # ss) (unmatched, excluded) =
     (let (unmatched', matches) = exclude_bindings targets (rk_bindings s) (unmatched, False) in
      exclude_skills targets ss
        (unmatched', if matches then excluded \<union> set (map bi_id (rk_bindings s)) else excluded))"

definition resolve_exclusions :: "str set \<Rightarrow> ResolvedRoster \<Rightarrow> SkillId list" where
  "resolve_exclusions targets roster =
     (let (unmatched, excluded) = exclude_skills targets (ro_skills roster) (targets, {}) in
      sorted_list_of_set (excluded \<union> {t \<in> unmatched. is_ok (skill_id_new t)}))"

section \<open>Resolution\<close>

text \<open>The first occurrence of every target, in order.\<close>

fun add_targets :: "str list \<Rightarrow> str set \<times> str list \<Rightarrow> str set \<times> str list" where
  "add_targets [] st = st"
| "add_targets (t # ts) (seen, targets) =
     add_targets ts (if t \<in> seen then (seen, targets) else (insert t seen, targets @ [t]))"

definition directive_targets :: "DirectiveKind \<Rightarrow> ParsedDirective list \<Rightarrow> str list" where
  "directive_targets kind ds = map pd_target (filter (\<lambda>d. pd_kind d = kind) ds)"

definition positive_targets :: "ExplicitResolutionRequest \<Rightarrow> ParsedDirective list \<Rightarrow> str list" where
  "positive_targets req ds =
     snd (add_targets (directive_targets RequireDirective ds)
       (add_targets (er_cli_required req) (add_targets (er_context_references req) ({}, []))))"

definition negative_targets :: "ExplicitResolutionRequest \<Rightarrow> ParsedDirective list \<Rightarrow> str set" where
  "negative_targets req ds =
     set (er_context_excluded req) \<union> set (er_cli_excluded req) \<union> set (directive_targets ExcludeDirective ds)"

definition exact_target :: "ResolvedRoster \<Rightarrow> str \<Rightarrow> ExactResolution" where
  "exact_target roster target =
     (case skill_id_new target of
        Ok skill_id \<Rightarrow>
          (case exact_id roster skill_id of ExactMissing \<Rightarrow> exact_name roster target | other \<Rightarrow> other)
      | Err _ \<Rightarrow> exact_name roster target)"

definition diagnose :: "str \<Rightarrow> UnresolvedReason \<Rightarrow> str \<Rightarrow> UnresolvedRecord" where
  "diagnose target reason diagnostic = \<lparr>ur_target = target, ur_reason = reason, ur_diagnostic = diagnostic\<rparr>"

definition quoted_name :: "str \<Rightarrow> str" where
  "quoted_name target = [39] @ target @ [39]"

text \<open>One target: the resolved skill, or why it is none.\<close>

definition resolve_target :: "SkillId list \<Rightarrow> ResolvedRoster \<Rightarrow> str \<Rightarrow> (ResolvedExplicitSkill, UnresolvedRecord) result" where
  "resolve_target excluded roster target =
     (let skill = scalars ''skill '' @ quoted_name target in
      case exact_target roster target of
        ExactResolved i invocation kind \<Rightarrow>
          if i \<in> set excluded
          then Err (diagnose target UrConflictingDirective
                 (skill @ scalars '' ('' @ i @ scalars '') conflicts with an explicit exclusion''))
          else Ok \<lparr>rx_id = i, rx_invocation = invocation, rx_kind = kind, rx_manual_only = (kind = ManualOnly)\<rparr>
      | ExactMissing \<Rightarrow> Err (diagnose target UrMissing (skill @ scalars '' not found in visible roster''))
      | ExactAmbiguous \<Rightarrow> Err (diagnose target UrAmbiguous (skill @ scalars '' has ambiguous visibility across sources''))
      | ExactShadowed \<Rightarrow> Err (diagnose target UrShadowed (skill @ scalars '' is shadowed by a higher-priority root''))
      | ExactUnverified \<Rightarrow> Err (diagnose target UrUnverified (skill @ scalars '' has unverified harness visibility''))
      | ExactForbidden \<Rightarrow> Err (diagnose target UrForbidden (skill @ scalars '' is forbidden by invocation restrictions'')))"

fun resolve_targets ::
  "SkillId list \<Rightarrow> ResolvedRoster \<Rightarrow> str list \<Rightarrow> ResolvedExplicitSkill list \<times> UnresolvedRecord list
     \<Rightarrow> ResolvedExplicitSkill list \<times> UnresolvedRecord list" where
  "resolve_targets excluded roster [] st = st"
| "resolve_targets excluded roster (t # ts) (resolved, unresolved) =
     resolve_targets excluded roster ts
       (case resolve_target excluded roster t of
          Ok s \<Rightarrow> (resolved @ [s], unresolved)
        | Err u \<Rightarrow> (resolved, unresolved @ [u]))"

definition conflicts :: "str list \<Rightarrow> str set \<Rightarrow> UnresolvedRecord list" where
  "conflicts positive negative =
     map (\<lambda>t. diagnose t UrConflictingDirective
         (scalars ''conflicting positive and negative directives for skill '' @ quoted_name t))
       (filter (\<lambda>t. t \<in> negative) positive)"

definition resolve_explicit_requirements ::
  "(scalar \<Rightarrow> bool) \<Rightarrow> ExplicitResolutionRequest \<Rightarrow> ResolvedRoster
     \<Rightarrow> (ExplicitResolutionResult, ExplicitResolutionError) result" where
  "resolve_explicit_requirements alnum req roster =
     (let bytes = (case er_user_prompt req of Some p \<Rightarrow> str_len p | None \<Rightarrow> 0) in
      if bytes > rl_max HOOK_STDIN_BYTES then Err (OversizedInput bytes (rl_max HOOK_STDIN_BYTES))
      else
        let directives = (case er_user_prompt req of Some p \<Rightarrow> parse_prompt_directives alnum p | None \<Rightarrow> []);
            positive = positive_targets req directives; negative = negative_targets req directives in
        if length positive > rl_max MAX_EXPLICIT_REQUESTS
        then Err (TooManyExplicitReferences (length positive) (rl_max MAX_EXPLICIT_REQUESTS))
        else if conflicts positive negative \<noteq> [] then Ok (UnavailableResult (conflicts positive negative))
        else
          let excluded = resolve_exclusions negative roster in
          if positive = [] then Ok (NoneSpecified excluded)
          else
            let (resolved, unresolved) = resolve_targets excluded roster positive ([], []) in
            if unresolved \<noteq> [] then Ok (UnavailableResult unresolved) else Ok (ResolvedResult resolved excluded))"

section \<open>Quoted text is not read\<close>

text \<open>Text without an opening quote: apostrophes inside words are allowed.\<close>

fun plain :: "(scalar \<Rightarrow> bool) \<Rightarrow> scalar option \<Rightarrow> str \<Rightarrow> bool" where
  "plain alnum prev [] \<longleftrightarrow> True"
| "plain alnum prev (c # cs) \<longleftrightarrow>
     c \<notin> {96, 34, 8220, 8216} \<and> (c = 39 \<longrightarrow> is_apostrophe alnum prev cs) \<and> plain alnum (Some c) cs"

text \<open>A quotation, with what opens and what closes it.\<close>

definition quotation :: "str \<Rightarrow> str \<Rightarrow> str \<Rightarrow> bool" where
  "quotation opening body closing \<longleftrightarrow>
     opening = [34] \<and> closing = [34] \<and> 34 \<notin> set body
   \<or> opening = [8220] \<and> closing = [8221] \<and> 8221 \<notin> set body
   \<or> opening = [96, 96, 96] \<and> closing = [96, 96, 96] \<and> 96 \<notin> set body
   \<or> opening = [96] \<and> closing = [96] \<and> body \<noteq> [] \<and> 96 \<notin> set body \<and> 10 \<notin> set body"

definition last_of :: "scalar option \<Rightarrow> str \<Rightarrow> scalar option" where
  "last_of prev s = (if s = [] then prev else Some (last s))"

lemma strip_plain:
  "plain alnum prev a \<Longrightarrow> strip_loop alnum prev (a @ r) = a @ strip_loop alnum (last_of prev a) r"
proof (induction a arbitrary: prev)
  case (Cons c a)
  have "is_apostrophe alnum prev (a @ r)" if "is_apostrophe alnum prev a"
    using that by (auto simp: is_apostrophe_def split: list.splits)
  moreover have "last_of prev (c # a) = last_of (Some c) a" by (simp add: last_of_def)
  ultimately show ?case using Cons by (auto simp: quoted_rest_def)
qed (simp add: last_of_def)

lemma close_quote_found:
  assumes "q \<notin> set body" "\<not> (one_line \<and> 10 \<in> set body)" "q \<noteq> 10 \<or> \<not> one_line"
  shows "close_quote alnum q one_line False (body @ q # b) = Some b"
  using assms by (induction body) auto

lemma close_fence_found: "96 \<notin> set body \<Longrightarrow> close_fence (body @ 96 # 96 # 96 # b) = Some b"
  by (induction body) auto

lemma strip_quotation:
  assumes "quotation opening body closing"
  shows "strip_loop alnum prev (opening @ body @ closing @ b) = 32 # strip_loop alnum (Some (last closing)) b"
proof -
  have inline: "take 2 (body @ 96 # b) \<noteq> [96, 96]" if "body \<noteq> []" "96 \<notin> set body"
    using that by (cases body) auto
  from assms consider "opening = [34]" "closing = [34]" "34 \<notin> set body"
    | "opening = [8220]" "closing = [8221]" "8221 \<notin> set body"
    | "opening = [96, 96, 96]" "closing = [96, 96, 96]" "96 \<notin> set body"
    | "opening = [96]" "closing = [96]" "body \<noteq> []" "96 \<notin> set body" "10 \<notin> set body"
    unfolding quotation_def by blast
  then show ?thesis
    by cases (simp_all add: quoted_rest_def close_quote_found close_fence_found inline del: take_append)
qed

text \<open>
  Nothing inside a quotation is a directive. After text without an opening quote, the body of a fenced or
  inline code span or of a straight or typographic double quotation has no influence at all on the directives of the prompt:
  exchanging it for any other body leaves them the same, and they are those of the prompt with the quotation replaced by a blank.
\<close>

theorem quoted_text_is_not_read:
  assumes "plain alnum None before" "quotation opening body closing" "quotation opening body' closing"
  shows "parse_prompt_directives alnum (before @ opening @ body @ closing @ after)
      = parse_prompt_directives alnum (before @ opening @ body' @ closing @ after)
    \<and> strip_quotes_and_code_blocks alnum (before @ opening @ body @ closing @ after)
      = before @ [32] @ strip_loop alnum (Some (last closing)) after"
  using strip_plain [OF assms(1)] strip_quotation [OF assms(2)] strip_quotation [OF assms(3)]
  by (simp add: parse_prompt_directives_def strip_quotes_and_code_blocks_def)

section \<open>Targets and exclusions\<close>

lemma add_targets_spec:
  assumes "distinct acc" "seen = set acc"
  obtains acc' where "add_targets ts (seen, acc) = (set acc', acc')" "distinct acc'" "set acc' = set acc \<union> set ts"
proof -
  have "\<exists>acc'. add_targets ts (seen, acc) = (set acc', acc') \<and> distinct acc' \<and> set acc' = set acc \<union> set ts"
    using assms
  proof (induction ts arbitrary: seen acc)
    case (Cons t ts)
    show ?case
    proof (cases "t \<in> seen")
      case True
      then have "set acc \<union> set (t # ts) = set acc \<union> set ts" "t \<in> seen" using Cons.prems by auto
      then show ?thesis using Cons.IH [OF Cons.prems] by simp
    next
      case False
      have "\<exists>acc'. add_targets ts (insert t seen, acc @ [t]) = (set acc', acc') \<and> distinct acc'
          \<and> set acc' = set (acc @ [t]) \<union> set ts"
        using Cons.prems False by (intro Cons.IH) auto
      then show ?thesis using False by auto
    qed
  qed auto
  then show ?thesis using that by blast
qed

lemma positive_targets_spec:
  "distinct (positive_targets req ds) \<and> set (positive_targets req ds) =
     set (er_context_references req) \<union> set (er_cli_required req) \<union> set (directive_targets RequireDirective ds)"
proof -
  obtain a where a: "add_targets (er_context_references req) ({}, []) = (set a, a)" "distinct a" "set a = set (er_context_references req)"
    by (rule add_targets_spec [of "[]" "{}" "er_context_references req"]) auto
  obtain b where b: "add_targets (er_cli_required req) (set a, a) = (set b, b)" "distinct b" "set b = set a \<union> set (er_cli_required req)"
    by (rule add_targets_spec [OF a(2) refl])
  obtain c where c: "add_targets (directive_targets RequireDirective ds) (set b, b) = (set c, c)" "distinct c"
      "set c = set b \<union> set (directive_targets RequireDirective ds)"
    by (rule add_targets_spec [OF b(2) refl])
  show ?thesis using a b c by (simp add: positive_targets_def)
qed

definition names_binding :: "str set \<Rightarrow> Binding \<Rightarrow> bool" where
  "names_binding targets b \<longleftrightarrow> bi_id b \<in> targets \<or> bi_invocation b \<in> targets"

lemma exclude_bindings_spec:
  "exclude_bindings targets bs (u, m) =
     (u - targets \<inter> (bi_id ` set bs \<union> bi_invocation ` set bs), m \<or> (\<exists>b\<in>set bs. names_binding targets b))"
  by (induction bs arbitrary: u m) (auto simp: names_binding_def)

definition excluded_skill :: "str set \<Rightarrow> ResolvedSkill \<Rightarrow> bool" where
  "excluded_skill targets s \<longleftrightarrow> (\<exists>b\<in>set (rk_bindings s). names_binding targets b)"

lemma exclude_skills_spec:
  "snd (exclude_skills targets ss (u, x)) = x \<union> {bi_id b | s b. s \<in> set ss \<and> excluded_skill targets s \<and> b \<in> set (rk_bindings s)}
   \<and> fst (exclude_skills targets ss (u, x)) \<subseteq> u"
proof (induction ss arbitrary: u x)
  case (Cons s ss)
  have head: "exclude_bindings targets (rk_bindings s) (u, False) =
      (u - targets \<inter> (bi_id ` set (rk_bindings s) \<union> bi_invocation ` set (rk_bindings s)), excluded_skill targets s)"
    by (simp add: exclude_bindings_spec excluded_skill_def)
  let ?u = "u - targets \<inter> (bi_id ` set (rk_bindings s) \<union> bi_invocation ` set (rk_bindings s))"
  let ?x = "if excluded_skill targets s then x \<union> set (map bi_id (rk_bindings s)) else x"
  have step: "exclude_skills targets (s # ss) (u, x) = exclude_skills targets ss (?u, ?x)"
    unfolding exclude_skills.simps head Let_def case_prod_conv ..
  have "fst (exclude_skills targets (s # ss) (u, x)) \<subseteq> u" unfolding step using Cons.IH [of ?u ?x] by blast
  moreover have "snd (exclude_skills targets (s # ss) (u, x)) =
      ?x \<union> {bi_id b | s b. s \<in> set ss \<and> excluded_skill targets s \<and> b \<in> set (rk_bindings s)}"
    unfolding step using Cons.IH [of ?u ?x] by blast
  ultimately show ?case by auto
qed simp

lemma resolve_exclusions_bindings:
  assumes "finite targets" "s \<in> set (ro_skills roster)" "excluded_skill targets s" "b \<in> set (rk_bindings s)"
  shows "bi_id b \<in> set (resolve_exclusions targets roster)"
proof -
  let ?x = "exclude_skills targets (ro_skills roster) (targets, {})"
  note S = exclude_skills_spec [of targets "ro_skills roster" targets "{}"]
  have "finite (snd ?x)"
  proof -
    have "snd ?x \<subseteq> bi_id ` (\<Union>s\<in>set (ro_skills roster). set (rk_bindings s))" using S by auto
    then show ?thesis by (rule finite_subset) simp
  qed
  moreover have "finite (fst ?x)" using S assms(1) finite_subset by blast
  moreover have "bi_id b \<in> snd ?x" using S assms by auto
  ultimately show ?thesis by (cases ?x) (simp add: resolve_exclusions_def)
qed

section \<open>All or nothing\<close>

fun oks :: "('a \<Rightarrow> ('b, 'e) result) \<Rightarrow> 'a list \<Rightarrow> 'b list" where
  "oks f [] = []"
| "oks f (t # ts) = (case f t of Ok s \<Rightarrow> s # oks f ts | Err _ \<Rightarrow> oks f ts)"

fun errs :: "('a \<Rightarrow> ('b, 'e) result) \<Rightarrow> 'a list \<Rightarrow> 'e list" where
  "errs f [] = []"
| "errs f (t # ts) = (case f t of Ok _ \<Rightarrow> errs f ts | Err u \<Rightarrow> u # errs f ts)"

lemma in_errs: "u \<in> set (errs f ts) \<longleftrightarrow> (\<exists>t\<in>set ts. f t = Err u)"
  by (induction ts) (auto split: result.splits)

lemma no_errs: "errs f ts = [] \<and> oks f ts = ss \<longleftrightarrow> map f ts = map Ok ss"
  by (induction ts arbitrary: ss) (auto simp: Cons_eq_map_conv split: result.splits)

lemma resolve_targets_spec:
  "resolve_targets excluded roster ts (resolved, unresolved) =
     (resolved @ oks (resolve_target excluded roster) ts, unresolved @ errs (resolve_target excluded roster) ts)"
  by (induction ts arbitrary: resolved unresolved) (auto split: result.splits)

lemma resolve_target_Err: "resolve_target excluded roster t = Err u \<Longrightarrow> ur_target u = t"
  by (auto simp: resolve_target_def diagnose_def Let_def split: ExactResolution.splits if_splits)

lemma resolve_target_Ok:
  "resolve_target excluded roster t = Ok s \<longleftrightarrow>
     exact_target roster t = ExactResolved (rx_id s) (rx_invocation s) (rx_kind s) \<and> rx_id s \<notin> set excluded
     \<and> rx_manual_only s = (rx_kind s = ManualOnly)"
  by (cases s) (auto simp: resolve_target_def Let_def split: ExactResolution.splits)

text \<open>What an exact lookup of a resolved roster returns is a verified binding of one of its skills.\<close>

lemma exact_Resolved:
  "exact b = ExactResolved i n k \<Longrightarrow>
     is_verified (bi_visibility b) \<and> bi_id b = i \<and> bi_invocation b = n \<and> explicit_kind (bi_restrictions b) = k \<and> k \<noteq> ForbiddenInvocation"
  by (auto simp: exact_def split: Visibility.splits InvocationKind.splits)

lemma valid_binding:
  "valid_pos skills p \<Longrightarrow> \<exists>s\<in>set skills. binding_at skills p \<in> set (rk_bindings s)"
  by (auto simp: valid_pos_def binding_at_def intro!: bexI [of _ "skills ! fst p"])

lemma exact_target_binding:
  assumes ok: "roster_resolve bud entries partial = Ok R" and "exact_target R t = ExactResolved i n k"
  shows "\<exists>s\<in>set (ro_skills R). \<exists>b\<in>set (rk_bindings s). is_verified (bi_visibility b) \<and> bi_id b = i \<and> bi_invocation b = n
    \<and> explicit_kind (bi_restrictions b) = k \<and> k \<noteq> ForbiddenInvocation"
proof -
  define es where "es = sort_key eid entries"
  note F = roster_resolved [OF ok es_def]
  have found: ?thesis if "exact (binding_at (ro_skills R) p) = ExactResolved i n k" "valid_pos (ro_skills R) p" for p
    using exact_Resolved [OF that(1)] valid_binding [OF that(2)] by blast
  have by_id: ?thesis if "exact_id R t = ExactResolved i n k"
  proof -
    from that obtain p where p: "bt_get (ro_ids R) t = Some p" "exact (binding_at (ro_skills R) p) = ExactResolved i n k"
      by (auto simp: exact_id_def split: option.splits)
    then obtain e where "e \<in> set es" "eid e = t" using F(1) [of t] by auto
    then have "valid_pos (ro_skills R) p" using F(3) [of e] p(1) by (simp add: pos_of_def)
    then show ?thesis using found p(2) by blast
  qed
  have by_name: ?thesis if "exact_name R t = ExactResolved i n k"
  proof -
    from that obtain ps where ps: "bt_get (ro_names R) t = Some ps"
        "(case List.find (\<lambda>b. is_verified (bi_visibility b)) (map (binding_at (ro_skills R)) ps) of
            Some b \<Rightarrow> exact b | None \<Rightarrow> exact (binding_at (ro_skills R) (hd ps))) = ExactResolved i n k"
      by (auto simp: exact_name_def split: option.splits)
    then have named: "ps = map (pos_of R) (filter (\<lambda>e. ename e = t) es)" "t \<in> ename ` set es"
      using F(7) [of t] by (auto split: if_splits)
    then have ne: "ps \<noteq> []" by (auto simp: filter_empty_conv)
    have valid: "valid_pos (ro_skills R) p" if "p \<in> set ps" for p using that named F(3) by auto
    show ?thesis
    proof (cases "List.find (\<lambda>b. is_verified (bi_visibility b)) (map (binding_at (ro_skills R)) ps)")
      case None
      then show ?thesis using ps(2) found [of "hd ps"] valid [OF hd_in_set [OF ne]] by simp
    next
      case (Some b)
      then have "b \<in> set (map (binding_at (ro_skills R)) ps)" by (auto simp: find_Some_iff)
      then obtain p where "p \<in> set ps" "b = binding_at (ro_skills R) p" by auto
      then show ?thesis using ps(2) Some found [of p] valid by simp
    qed
  qed
  show ?thesis
    using assms(2) by_id by_name by (auto simp: exact_target_def skill_id_new_Ok split: result.splits ExactResolution.splits)
qed


text \<open>The directives of a request and the bounds checked before any lookup.\<close>

definition request_directives :: "(scalar \<Rightarrow> bool) \<Rightarrow> ExplicitResolutionRequest \<Rightarrow> ParsedDirective list" where
  "request_directives alnum req = (case er_user_prompt req of Some p \<Rightarrow> parse_prompt_directives alnum p | None \<Rightarrow> [])"

definition within_bounds :: "(scalar \<Rightarrow> bool) \<Rightarrow> ExplicitResolutionRequest \<Rightarrow> bool" where
  "within_bounds alnum req \<longleftrightarrow> (case er_user_prompt req of Some p \<Rightarrow> str_len p \<le> 1048576 | None \<Rightarrow> True)
     \<and> length (positive_targets req (request_directives alnum req)) \<le> 32"

lemma map_Ok_iff: "map f ts = map Ok ss \<longleftrightarrow> list_all2 (\<lambda>t s. f t = Ok s) ts ss"
  by (simp add: list_all2_conv_all_nth list_eq_iff_nth_eq) auto

lemma resolve_explicit_cases:
  fixes alnum :: "scalar \<Rightarrow> bool" and req :: ExplicitResolutionRequest and roster :: ResolvedRoster
  defines "positive \<equiv> positive_targets req (request_directives alnum req)"
    and "negative \<equiv> negative_targets req (request_directives alnum req)"
  defines "excluded \<equiv> resolve_exclusions negative roster"
  shows "resolve_explicit_requirements alnum req roster = Ok (ResolvedResult skills X) \<longleftrightarrow>
      within_bounds alnum req \<and> positive \<noteq> [] \<and> X = excluded \<and> set positive \<inter> negative = {}
      \<and> map (resolve_target excluded roster) positive = map Ok skills"
    and "resolve_explicit_requirements alnum req roster = Ok (UnavailableResult u) \<Longrightarrow>
      u \<noteq> [] \<and> (\<forall>x\<in>set u. ur_target x \<in> set positive
        \<and> (ur_target x \<in> negative \<or> resolve_target excluded roster (ur_target x) = Err x))"
proof -
  have bound: "rl_max HOOK_STDIN_BYTES = 1048576" "rl_max MAX_EXPLICIT_REQUESTS = 32"
    by (simp_all add: HOOK_STDIN_BYTES_def MAX_EXPLICIT_REQUESTS_def new_const_def MIB_def KIB_def)
  have empty: "conflicts positive negative = [] \<longleftrightarrow> set positive \<inter> negative = {}"
    by (auto simp: conflicts_def filter_empty_conv)
  note body = resolve_explicit_requirements_def [of alnum req roster, unfolded Let_def bound resolve_targets_spec case_prod_conv,
    folded request_directives_def, folded positive_def negative_def, folded excluded_def]
  show "resolve_explicit_requirements alnum req roster = Ok (ResolvedResult skills X) \<longleftrightarrow>
      within_bounds alnum req \<and> positive \<noteq> [] \<and> X = excluded \<and> set positive \<inter> negative = {}
      \<and> map (resolve_target excluded roster) positive = map Ok skills"
    unfolding body no_errs [symmetric] within_bounds_def positive_def [symmetric] empty [symmetric]
    by (auto split: option.splits)
  assume "resolve_explicit_requirements alnum req roster = Ok (UnavailableResult u)"
  then have "u \<noteq> []" and "u = conflicts positive negative
      \<or> u = errs (resolve_target excluded roster) positive"
    unfolding body by (auto split: if_splits)
  then show "u \<noteq> [] \<and> (\<forall>x\<in>set u. ur_target x \<in> set positive
      \<and> (ur_target x \<in> negative \<or> resolve_target excluded roster (ur_target x) = Err x))"
    by (auto simp: conflicts_def diagnose_def in_errs resolve_target_Err)
qed

text \<open>
  C24. Explicit requirements resolve all or nothing, and an exclusion cannot be bypassed through another name. A
  request resolves exactly when it is within its bounds, names at least one skill, names none both ways and every target resolves; the
  result then has one skill per target, in order. Each is a verified binding whose restrictions allow its kind of
  invocation, of a skill none of whose bindings is named by an exclusion, by identity or by name. An unavailable
  answer names at least one target and only targets that fail.
\<close>

theorem explicit_requirements_all_or_nothing:
  fixes alnum :: "scalar \<Rightarrow> bool" and req :: ExplicitResolutionRequest
  assumes roster: "roster_resolve bud entries partial = Ok R"
  defines "positive \<equiv> positive_targets req (request_directives alnum req)"
    and "negative \<equiv> negative_targets req (request_directives alnum req)"
  shows "(resolve_explicit_requirements alnum req R = Ok (ResolvedResult skills X) \<longrightarrow>
      list_all2 (\<lambda>t s. exact_target R t = ExactResolved (rx_id s) (rx_invocation s) (rx_kind s)) positive skills
      \<and> (\<forall>s\<in>set skills. \<exists>k\<in>set (ro_skills R). \<exists>b\<in>set (rk_bindings k). bi_id b = rx_id s \<and> is_verified (bi_visibility b)
           \<and> explicit_kind (bi_restrictions b) \<noteq> ForbiddenInvocation
           \<and> (\<forall>b'\<in>set (rk_bindings k). bi_id b' \<notin> negative \<and> bi_invocation b' \<notin> negative)))
    \<and> (resolve_explicit_requirements alnum req R = Ok (UnavailableResult u) \<longrightarrow>
      u \<noteq> [] \<and> (\<forall>x\<in>set u. ur_target x \<in> set positive \<and> (ur_target x \<in> negative
        \<or> (\<forall>s. resolve_target (resolve_exclusions negative R) R (ur_target x) \<noteq> Ok s))))
    \<and> ((\<exists>skills X. resolve_explicit_requirements alnum req R = Ok (ResolvedResult skills X)) \<longleftrightarrow>
      within_bounds alnum req \<and> positive \<noteq> []
      \<and> (\<forall>t\<in>set positive. t \<notin> negative \<and> is_ok (resolve_target (resolve_exclusions negative R) R t)))"
proof -
  let ?excluded = "resolve_exclusions negative R"
  note C = resolve_explicit_cases [of alnum req R, folded positive_def negative_def]
  have fin: "finite negative" by (simp add: negative_def negative_targets_def)
  have first: "list_all2 (\<lambda>t s. exact_target R t = ExactResolved (rx_id s) (rx_invocation s) (rx_kind s)) positive skills
      \<and> (\<forall>s\<in>set skills. \<exists>k\<in>set (ro_skills R). \<exists>b\<in>set (rk_bindings k). bi_id b = rx_id s \<and> is_verified (bi_visibility b)
           \<and> explicit_kind (bi_restrictions b) \<noteq> ForbiddenInvocation
           \<and> (\<forall>b'\<in>set (rk_bindings k). bi_id b' \<notin> negative \<and> bi_invocation b' \<notin> negative))"
    if res: "resolve_explicit_requirements alnum req R = Ok (ResolvedResult skills X)"
  proof -
    have each: "list_all2 (\<lambda>t s. resolve_target ?excluded R t = Ok s) positive skills"
      using res unfolding C(1) map_Ok_iff by blast
    have good: "\<exists>k\<in>set (ro_skills R). \<exists>b\<in>set (rk_bindings k). bi_id b = rx_id s \<and> is_verified (bi_visibility b)
           \<and> explicit_kind (bi_restrictions b) \<noteq> ForbiddenInvocation
           \<and> (\<forall>b'\<in>set (rk_bindings k). bi_id b' \<notin> negative \<and> bi_invocation b' \<notin> negative)"
      if t: "resolve_target ?excluded R t = Ok s" for t s
    proof -
      have ok: "exact_target R t = ExactResolved (rx_id s) (rx_invocation s) (rx_kind s)" "rx_id s \<notin> set ?excluded"
        using t by (simp_all add: resolve_target_Ok)
      obtain k b where kb: "k \<in> set (ro_skills R)" "b \<in> set (rk_bindings k)" "is_verified (bi_visibility b)" "bi_id b = rx_id s"
          "explicit_kind (bi_restrictions b) \<noteq> ForbiddenInvocation"
        using exact_target_binding [OF roster ok(1)] by auto
      then have "\<not> excluded_skill negative k" using resolve_exclusions_bindings [OF fin kb(1) _ kb(2)] ok(2) by auto
      then show ?thesis using kb by (auto simp: excluded_skill_def names_binding_def)
    qed
    have "list_all2 (\<lambda>t s. exact_target R t = ExactResolved (rx_id s) (rx_invocation s) (rx_kind s)) positive skills"
      by (rule list_all2_mono [OF each]) (simp add: resolve_target_Ok)
    moreover have "\<exists>t. resolve_target ?excluded R t = Ok s" if "s \<in> set skills" for s
      using each that by (auto simp: list_all2_conv_all_nth in_set_conv_nth)
    ultimately show ?thesis using good by blast
  qed
  have third: "(\<exists>skills. map f ts = map Ok skills) \<longleftrightarrow> (\<forall>t\<in>set ts. is_ok (f t))" for f :: "str \<Rightarrow> (ResolvedExplicitSkill, UnresolvedRecord) result" and ts
    by (induction ts) (auto simp: is_ok_iff Cons_eq_map_conv)
  have second: "u \<noteq> [] \<and> (\<forall>x\<in>set u. ur_target x \<in> set positive \<and> (ur_target x \<in> negative
        \<or> (\<forall>s. resolve_target ?excluded R (ur_target x) \<noteq> Ok s)))"
    if "resolve_explicit_requirements alnum req R = Ok (UnavailableResult u)"
    using C(2) [OF that] by (metis result.distinct(1))
  have "(\<exists>skills X. resolve_explicit_requirements alnum req R = Ok (ResolvedResult skills X)) \<longleftrightarrow>
      within_bounds alnum req \<and> positive \<noteq> [] \<and> set positive \<inter> negative = {}
      \<and> (\<exists>skills. map (resolve_target ?excluded R) positive = map Ok skills)"
    unfolding C(1) by blast
  then have "(\<exists>skills X. resolve_explicit_requirements alnum req R = Ok (ResolvedResult skills X)) \<longleftrightarrow>
      within_bounds alnum req \<and> positive \<noteq> []
      \<and> (\<forall>t\<in>set positive. t \<notin> negative \<and> is_ok (resolve_target ?excluded R t))"
    unfolding third by blast
  with first second show ?thesis by blast
qed

section \<open>Concrete instances\<close>

definition ex_demo_alnum :: "scalar \<Rightarrow> bool" where
  "ex_demo_alnum c \<longleftrightarrow> 48 \<le> c \<and> c \<le> 57 \<or> 65 \<le> c \<and> c \<le> 90 \<or> 97 \<le> c \<and> c \<le> 122"

definition ex_demo_request :: ExplicitResolutionRequest where
  "ex_demo_request = \<lparr>er_cli_required = [], er_cli_excluded = [], er_context_references = [], er_context_excluded = [],
     er_user_prompt = Some (scalars ''Please use skill n, but do not use other.'')\<rparr>"

definition ex_demo_skill :: ResolvedExplicitSkill where
  "ex_demo_skill = \<lparr>rx_id = [97], rx_invocation = [110], rx_kind = AgentInvocation, rx_manual_only = False\<rparr>"

lemma ex_demo_run:
  "resolve_explicit_requirements ex_demo_alnum ex_demo_request ro_demo_roster
     = Ok (ResolvedResult [ex_demo_skill] [scalars ''other''])"
  by code_simp

theorem quoted_text_is_not_read_witness:
  "parse_prompt_directives ex_demo_alnum (scalars ''I said '' @ [34] @ scalars ''use skill n'' @ [34] @ scalars '' once.'')
   = parse_prompt_directives ex_demo_alnum (scalars ''I said '' @ [34] @ [] @ [34] @ scalars '' once.'')
   \<and> strip_quotes_and_code_blocks ex_demo_alnum (scalars ''I said '' @ [34] @ scalars ''use skill n'' @ [34] @ scalars '' once.'')
   = scalars ''I said '' @ [32] @ strip_loop ex_demo_alnum (Some (last [34])) (scalars '' once.'')"
  by (rule quoted_text_is_not_read) (simp_all add: quotation_def scalars_def)

theorem explicit_requirements_all_or_nothing_witness:
  "\<exists>k\<in>set (ro_skills ro_demo_roster). \<exists>b\<in>set (rk_bindings k). bi_id b = [97] \<and> is_verified (bi_visibility b)
     \<and> bi_invocation b \<noteq> scalars ''other''"
proof -
  have neg: "scalars ''other'' \<in> negative_targets ex_demo_request (request_directives ex_demo_alnum ex_demo_request)"
    by code_simp
  note P = explicit_requirements_all_or_nothing [OF ro_demo_resolves, of ex_demo_alnum ex_demo_request "[ex_demo_skill]"
      "[scalars ''other'']" "[]", THEN conjunct1, rule_format, OF ex_demo_run, THEN conjunct2]
  have "\<exists>k\<in>set (ro_skills ro_demo_roster). \<exists>b\<in>set (rk_bindings k). bi_id b = rx_id ex_demo_skill
      \<and> is_verified (bi_visibility b) \<and> bi_invocation b \<noteq> scalars ''other''"
    using P neg by (metis list.set_intros(1))
  then show ?thesis by (simp add: ex_demo_skill_def)
qed

end
