(* ===== verification/F64.thy ===== *)
theory F64
  imports Sr_Prelude Complex_Main "HOL-Library.Log_Nat" "HOL-Library.Product_Lexorder"
begin

text \<open>
  The \<open>f64\<close> of the sources: IEEE 754 binary64 values, their comparisons and the arithmetic the sources
  use, with every result rounded to nearest, ties to even. A finite value other than the negative zero
  is its exact rational; one \<open>NaN\<close> stands for all of them. \<open>ln\<close> and \<open>exp\<close> have no specified
  precision and stay parameters of the definitions that use them. The class order is \<open>total_cmp\<close>.
\<close>

section \<open>Values and comparisons\<close>

datatype f64 = NaN | NegInf | PosInf | NegZero | Fin rat

fun f64_rat :: "f64 \<Rightarrow> rat" where
  "f64_rat (Fin q) = q"
| "f64_rat _ = 0"

fun f64_val :: "f64 \<Rightarrow> rat option" where
  "f64_val (Fin q) = Some q"
| "f64_val NegZero = Some 0"
| "f64_val _ = None"

fun f64_le :: "f64 \<Rightarrow> f64 \<Rightarrow> bool" where
  "f64_le NaN _ = False"
| "f64_le _ NaN = False"
| "f64_le NegInf _ = True"
| "f64_le _ PosInf = True"
| "f64_le PosInf _ = False"
| "f64_le _ NegInf = False"
| "f64_le a b = (f64_rat a \<le> f64_rat b)"

definition f64_lt :: "f64 \<Rightarrow> f64 \<Rightarrow> bool" where
  "f64_lt a b \<longleftrightarrow> f64_le a b \<and> \<not> f64_le b a"

definition f64_eq :: "f64 \<Rightarrow> f64 \<Rightarrow> bool" where
  "f64_eq a b \<longleftrightarrow> f64_le a b \<and> f64_le b a"

definition is_finite :: "f64 \<Rightarrow> bool" where
  "is_finite a \<longleftrightarrow> f64_val a \<noteq> None"

text \<open>\<open>(lo..=hi).contains(&x)\<close>, \<open>max\<close> (the other operand of a NaN) and \<open>clamp\<close>.\<close>

definition f64_within :: "f64 \<Rightarrow> f64 \<Rightarrow> f64 \<Rightarrow> bool" where
  "f64_within lo hi x \<longleftrightarrow> f64_le lo x \<and> f64_le x hi"

definition f64_max :: "f64 \<Rightarrow> f64 \<Rightarrow> f64" where
  "f64_max a b = (if a = NaN then b else if b = NaN then a else if f64_lt a b then b else a)"

definition f64_clamp :: "f64 \<Rightarrow> f64 \<Rightarrow> f64 \<Rightarrow> f64" where
  "f64_clamp x lo hi = (if f64_lt x lo then lo else if f64_lt hi x then hi else x)"

fun f64_abs :: "f64 \<Rightarrow> f64" where
  "f64_abs (Fin q) = Fin \<bar>q\<bar>"
| "f64_abs NegZero = Fin 0"
| "f64_abs NegInf = PosInf"
| "f64_abs a = a"

fun sign_neg :: "f64 \<Rightarrow> bool" where
  "sign_neg (Fin q) = (q < 0)"
| "sign_neg NegZero = True"
| "sign_neg NegInf = True"
| "sign_neg _ = False"

text \<open>\<open>total_cmp\<close>.\<close>

fun total_key :: "f64 \<Rightarrow> nat \<times> rat \<times> nat" where
  "total_key NegInf = (0, 0, 0)"
| "total_key NegZero = (1, 0, 0)"
| "total_key (Fin q) = (1, q, 1)"
| "total_key PosInf = (2, 0, 0)"
| "total_key NaN = (3, 0, 0)"

lemma total_key_inj: "total_key a = total_key b \<longleftrightarrow> a = b"
  by (cases a; cases b) auto

instantiation f64 :: linorder
begin

definition less_eq_f64 :: "f64 \<Rightarrow> f64 \<Rightarrow> bool" where
  "less_eq_f64 a b \<longleftrightarrow> total_key a \<le> total_key b"

definition less_f64 :: "f64 \<Rightarrow> f64 \<Rightarrow> bool" where
  "less_f64 a b \<longleftrightarrow> total_key a < total_key b"

instance
  by standard (auto simp: less_eq_f64_def less_f64_def less_le total_key_inj)

end

text \<open>The key that sorts by \<open>b.total_cmp(&a)\<close>: greater values first.\<close>

definition desc_key :: "f64 \<Rightarrow> nat \<times> rat \<times> nat" where
  "desc_key a = (case total_key a of (n, q, z) \<Rightarrow> (3 - n, - q, 1 - z))"

section \<open>Rounding\<close>

definition pow2 :: "int \<Rightarrow> rat" where
  "pow2 e = (if 0 \<le> e then of_int (2 ^ nat e) else 1 / of_int (2 ^ nat (- e)))"

text \<open>The exponent of the greatest power of two not above a positive rational.\<close>

definition ilog2 :: "rat \<Rightarrow> int" where
  "ilog2 x = (case quotient_of x of (p, q) \<Rightarrow>
     (let k = bitlen p - bitlen q in if pow2 k \<le> x then k else k - 1))"

definition ulp_exp :: "rat \<Rightarrow> int" where
  "ulp_exp x = max (ilog2 \<bar>x\<bar> - 52) (-1074)"

definition round_even :: "rat \<Rightarrow> int" where
  "round_even x =
     (let n = \<lfloor>x\<rfloor>; d = x - of_int n in
      if d < 1 / 2 then n else if 1 / 2 < d then n + 1 else if even n then n else n + 1)"

definition round64 :: "rat \<Rightarrow> rat" where
  "round64 x = (if x = 0 then 0 else
     (let u = pow2 (ulp_exp x) in of_int (round_even (x / u)) * u))"

text \<open>The value of an exact result: infinite from $2^{1024}$ on; the sign counts when it rounds to zero.\<close>

definition signed_inf :: "bool \<Rightarrow> f64" where "signed_inf neg = (if neg then NegInf else PosInf)"

definition signed_zero :: "bool \<Rightarrow> f64" where "signed_zero neg = (if neg then NegZero else Fin 0)"

definition f64_of :: "bool \<Rightarrow> rat \<Rightarrow> f64" where
  "f64_of neg x =
     (let r = round64 x in
      if r = 0 then signed_zero neg
      else if 1024 \<le> ilog2 \<bar>r\<bar> then signed_inf (r < 0)
      else Fin r)"

section \<open>Arithmetic\<close>

fun f64_neg :: "f64 \<Rightarrow> f64" where
  "f64_neg (Fin q) = (if q = 0 then NegZero else Fin (- q))"
| "f64_neg NegZero = Fin 0"
| "f64_neg NegInf = PosInf"
| "f64_neg PosInf = NegInf"
| "f64_neg NaN = NaN"

fun f64_add :: "f64 \<Rightarrow> f64 \<Rightarrow> f64" where
  "f64_add NaN _ = NaN"
| "f64_add _ NaN = NaN"
| "f64_add PosInf NegInf = NaN"
| "f64_add NegInf PosInf = NaN"
| "f64_add PosInf _ = PosInf"
| "f64_add _ PosInf = PosInf"
| "f64_add NegInf _ = NegInf"
| "f64_add _ NegInf = NegInf"
| "f64_add NegZero NegZero = NegZero"
| "f64_add a b = f64_of False (f64_rat a + f64_rat b)"

definition f64_sub :: "f64 \<Rightarrow> f64 \<Rightarrow> f64" where
  "f64_sub a b = f64_add a (f64_neg b)"

definition f64_mul :: "f64 \<Rightarrow> f64 \<Rightarrow> f64" where
  "f64_mul a b =
     (let neg = (sign_neg a \<noteq> sign_neg b) in
      if a = NaN \<or> b = NaN then NaN
      else if \<not> is_finite a \<or> \<not> is_finite b
        then (if f64_val a = Some 0 \<or> f64_val b = Some 0 then NaN else signed_inf neg)
      else f64_of neg (f64_rat a * f64_rat b))"

definition f64_div :: "f64 \<Rightarrow> f64 \<Rightarrow> f64" where
  "f64_div a b =
     (let neg = (sign_neg a \<noteq> sign_neg b) in
      if a = NaN \<or> b = NaN then NaN
      else if \<not> is_finite a then (if is_finite b then signed_inf neg else NaN)
      else if \<not> is_finite b then signed_zero neg
      else if f64_rat b = 0 then (if f64_rat a = 0 then NaN else signed_inf neg)
      else f64_of neg (f64_rat a / f64_rat b))"

text \<open>\<open>Iterator::sum\<close> starts from the negative zero; a \<open>fold\<close> starts where it says.\<close>

definition f64_fold_add :: "f64 \<Rightarrow> f64 list \<Rightarrow> f64" where
  "f64_fold_add acc xs = foldl f64_add acc xs"

definition f64_sum :: "f64 list \<Rightarrow> f64" where
  "f64_sum xs = f64_fold_add NegZero xs"

section \<open>Rounding is monotone around representable values\<close>

text \<open>The values of the format, with their exponent bounded below only.\<close>

definition rep :: "rat \<Rightarrow> bool" where
  "rep q \<longleftrightarrow> (\<exists>m e. q = of_int m * 2 powi e \<and> \<bar>m\<bar> \<le> 2 ^ 53 \<and> -1074 \<le> e)"

lemma pow2_powi: "pow2 e = 2 powi e"
  by (simp add: pow2_def power_int_def inverse_eq_divide power_divide)

lemmas ilog2_powi = ilog2_def [unfolded pow2_powi]
  and round64_powi = round64_def [unfolded pow2_powi]

lemma powi_split: "(2 :: rat) powi (a + b) = 2 powi a * 2 powi b"
  by (simp add: power_int_add)

lemma ilog2_bounds:
  assumes "0 < x"
  shows "2 powi ilog2 x \<le> x" "x < 2 powi (ilog2 x + 1)"
proof -
  obtain p q where pq: "quotient_of x = (p, q)" by (cases "quotient_of x")
  have q: "0 < q" using quotient_of_denom_pos [OF pq] .
  have x: "x = of_int p / of_int q" using quotient_of_div [OF pq] .
  have p: "0 < p" using assms q unfolding x by (simp add: zero_less_divide_iff)
  have up: "of_int n < (2 :: rat) powi bitlen n" if "0 < n" for n
    using bitlen_bounds [OF that] bitlen_nonneg [of n]
    by (simp add: power_int_def)
  have low: "(2 :: rat) powi (bitlen n - 1) \<le> of_int n" if "0 < n" for n
  proof -
    have "0 < bitlen n" using bitlen_bounds [OF that] that by (cases "bitlen n = 0") (auto simp: bitlen_eq_zero_iff less_le bitlen_nonneg)
    then show ?thesis using bitlen_bounds [OF that]
      by (simp add: power_int_def)
  qed
  let ?k = "bitlen p - bitlen q"
  have "x * of_int q = of_int p" using q unfolding x by simp
  have "x < 2 powi bitlen p / 2 powi (bitlen q - 1)"
    unfolding x using up [OF p] low [OF q] p q by (intro frac_less) auto
  then have 1: "x < 2 powi (?k + 1)" by (simp add: power_int_diff power_int_add field_simps)
  have "2 powi (bitlen p - 1) / 2 powi bitlen q < x"
    unfolding x using low [OF p] up [OF q] p q by (intro frac_less2) auto
  then have 2: "2 powi (?k - 1) \<le> x" by (simp add: power_int_diff power_int_add field_simps)
  show "2 powi ilog2 x \<le> x" "x < 2 powi (ilog2 x + 1)"
    using 1 2 by (auto simp: ilog2_powi pq Let_def)
qed

lemma round_even_ge: "of_int n \<le> x \<Longrightarrow> n \<le> round_even x"
  using le_floor_iff [of n x] by (auto simp: round_even_def Let_def)

lemma round_even_le: "x \<le> of_int n \<Longrightarrow> round_even x \<le> n"
  unfolding round_even_def Let_def
  by (auto simp: floor_le_iff not_less split: if_splits; linarith)

lemma round64_ge_multiple:
  assumes "x \<noteq> 0" "of_int n * 2 powi ulp_exp x \<le> x"
  shows "of_int n * 2 powi ulp_exp x \<le> round64 x"
proof -
  have "of_int n \<le> x / 2 powi ulp_exp x" using assms(2) by (simp add: field_simps)
  then show ?thesis using round_even_ge [of n "x / 2 powi ulp_exp x"] assms(1)
    by (simp add: round64_powi Let_def)
qed

lemma round64_le_multiple:
  assumes "x \<noteq> 0" "x \<le> of_int n * 2 powi ulp_exp x"
  shows "round64 x \<le> of_int n * 2 powi ulp_exp x"
proof -
  have "x / 2 powi ulp_exp x \<le> of_int n" using assms(2) by (simp add: field_simps)
  then show ?thesis using round_even_le [of "x / 2 powi ulp_exp x" n] assms(1)
    by (simp add: round64_powi Let_def)
qed

text \<open>A representable value is a multiple of the unit of \<open>x\<close>, or of smaller magnitude than the power of two below \<open>x\<close>.\<close>

lemma rep_multiple_or_small:
  assumes "rep y" "x \<noteq> 0"
  shows "(\<exists>n. y = of_int n * 2 powi ulp_exp x)
    \<or> \<bar>y\<bar> \<le> 2 powi ilog2 \<bar>x\<bar> \<and> (\<exists>n. (2 :: rat) powi ilog2 \<bar>x\<bar> = of_int n * 2 powi ulp_exp x)"
proof -
  obtain m e where y: "y = of_int m * 2 powi e" and m: "\<bar>m\<bar> \<le> 2 ^ 53" and e: "-1074 \<le> e"
    using assms(1) unfolding rep_def by blast
  let ?u = "ulp_exp x" and ?k = "ilog2 \<bar>x\<bar>"
  show ?thesis
  proof (cases "?u \<le> e")
    case True
    then have "y = of_int (m * 2 ^ nat (e - ?u)) * 2 powi ?u"
      using powi_split [of "e - ?u" ?u] by (simp add: y power_int_def)
    then show ?thesis by blast
  next
    case False
    with e have u: "?u = ?k - 52" by (simp add: ulp_exp_def max_def split: if_splits)
    have "\<bar>y\<bar> = of_int \<bar>m\<bar> * 2 powi e" by (simp add: y abs_mult)
    also have "\<dots> \<le> 2 ^ 53 * 2 powi (?u - 1)"
    proof (rule mult_mono)
      have "rat_of_int \<bar>m\<bar> \<le> rat_of_int (2 ^ 53)" using m by (simp only: of_int_le_iff)
      then show "rat_of_int \<bar>m\<bar> \<le> 2 ^ 53" by simp
      show "(2 :: rat) powi e \<le> 2 powi (?u - 1)" using False by (intro power_int_increasing) auto
    qed simp_all
    also have "\<dots> = 2 powi (53 + (?u - 1))" by (simp only: powi_split) simp
    also have "\<dots> = 2 powi ?k" using u by simp
    finally have "\<bar>y\<bar> \<le> 2 powi ?k" .
    moreover have "(2 :: rat) powi ?k = of_int (2 ^ 52) * 2 powi ?u"
      using powi_split [of 52 "?k - 52"] by (simp add: u)
    ultimately show ?thesis by blast
  qed
qed

lemma ilog2_abs: "x \<noteq> 0 \<Longrightarrow> 2 powi ilog2 \<bar>x\<bar> \<le> \<bar>x\<bar>"
  by (rule ilog2_bounds) simp

lemma round64_ge:
  assumes "rep y" "y \<le> x"
  shows "y \<le> round64 x"
proof (cases "x = 0")
  case True
  then show ?thesis using assms by (simp add: round64_powi)
next
  case x: False
  from rep_multiple_or_small [OF assms(1) x] show ?thesis
  proof (elim disjE exE conjE)
    fix n assume "y = of_int n * 2 powi ulp_exp x"
    then show ?thesis using round64_ge_multiple [OF x, of n] assms(2) by simp
  next
    fix n assume small: "\<bar>y\<bar> \<le> 2 powi ilog2 \<bar>x\<bar>" and n: "(2 :: rat) powi ilog2 \<bar>x\<bar> = of_int n * 2 powi ulp_exp x"
    show ?thesis
    proof (cases "0 < x")
      case True
      then have "of_int n * 2 powi ulp_exp x \<le> x" using ilog2_abs [OF x] unfolding n by simp
      then have "2 powi ilog2 \<bar>x\<bar> \<le> round64 x"
        unfolding n by (rule round64_ge_multiple [OF x])
      then show ?thesis using small by linarith
    next
      case False
      then have "y = x" "x = of_int (- n) * 2 powi ulp_exp x"
        using small ilog2_abs [OF x] assms(2) n by auto
      then show ?thesis using round64_ge_multiple [OF x, of "- n"] by simp
    qed
  qed
qed

lemma round64_le:
  assumes "rep y" "x \<le> y"
  shows "round64 x \<le> y"
proof (cases "x = 0")
  case True
  then show ?thesis using assms by (simp add: round64_powi)
next
  case x: False
  from rep_multiple_or_small [OF assms(1) x] show ?thesis
  proof (elim disjE exE conjE)
    fix n assume "y = of_int n * 2 powi ulp_exp x"
    then show ?thesis using round64_le_multiple [OF x, of n] assms(2) by simp
  next
    fix n assume small: "\<bar>y\<bar> \<le> 2 powi ilog2 \<bar>x\<bar>" and n: "(2 :: rat) powi ilog2 \<bar>x\<bar> = of_int n * 2 powi ulp_exp x"
    show ?thesis
    proof (cases "x < 0")
      case True
      then have "x \<le> of_int (- n) * 2 powi ulp_exp x" using ilog2_abs [OF x] unfolding n by simp
      then have "round64 x \<le> of_int (- n) * 2 powi ulp_exp x"
        by (rule round64_le_multiple [OF x])
      then have "round64 x \<le> - (2 powi ilog2 \<bar>x\<bar>)" unfolding n by simp
      then show ?thesis using small by linarith
    next
      case False
      then have "y = x" "x = of_int n * 2 powi ulp_exp x"
        using small ilog2_abs [OF x] assms(2) n by auto
      then show ?thesis using round64_le_multiple [OF x, of n] by simp
    qed
  qed
qed

lemma rep_round64: "rep (round64 x)"
proof (cases "x = 0")
  case True
  then show ?thesis by (auto simp: round64_powi rep_def intro!: exI [of _ 0])
next
  case x: False
  let ?u = "ulp_exp x" and ?k = "ilog2 \<bar>x\<bar>"
  have "\<bar>x\<bar> < 2 powi (?k + 1)" using ilog2_bounds(2) [of "\<bar>x\<bar>"] x by simp
  also have "\<dots> \<le> 2 powi (53 + ?u)" by (rule power_int_increasing) (auto simp: ulp_exp_def)
  finally have "\<bar>x\<bar> < 2 ^ 53 * 2 powi ?u" by (simp only: powi_split) simp
  then have "\<bar>x / 2 powi ?u\<bar> < of_int (2 ^ 53)" by (simp add: field_simps)
  then have "of_int (- (2 ^ 53)) \<le> x / 2 powi ?u" "x / 2 powi ?u \<le> of_int (2 ^ 53)"
    unfolding abs_less_iff by simp_all
  then have "\<bar>round_even (x / 2 powi ?u)\<bar> \<le> 2 ^ 53"
    unfolding abs_le_iff by (metis minus_le_iff round_even_ge round_even_le)
  moreover have "-1074 \<le> ?u" by (simp add: ulp_exp_def)
  ultimately show ?thesis using x by (auto simp: round64_powi rep_def Let_def)
qed

lemma rep_of_int: "\<bar>n\<bar> \<le> 2 ^ 53 \<Longrightarrow> rep (of_int n)"
  unfolding rep_def by (intro exI [of _ n] exI [of _ 0]) simp

lemma round64_rep: "rep x \<Longrightarrow> round64 x = x"
  using round64_ge [of x x] round64_le [of x x] by simp

lemma rep_of_nat: "n \<le> 2 ^ 53 \<Longrightarrow> rep (of_nat n)"
  using rep_of_int [of "int n"] by simp

lemma rep_0 [simp]: "rep 0" and rep_1 [simp]: "rep 1"
  using rep_of_int [of 0] rep_of_int [of 1] by simp_all

section \<open>Arithmetic on finite values\<close>

definition f64_wf :: "f64 \<Rightarrow> bool" where
  "f64_wf a \<longleftrightarrow> (\<forall>q. f64_val a = Some q \<longrightarrow> rep q)"

lemma ilog2_small:
  assumes "x \<noteq> 0" "\<bar>x\<bar> \<le> 2 ^ 53"
  shows "ilog2 \<bar>x\<bar> < 1024"
proof (rule ccontr)
  assume "\<not> ?thesis"
  then have "(2 :: rat) powi 1024 \<le> 2 powi ilog2 \<bar>x\<bar>" by (intro power_int_increasing) auto
  also have "\<dots> \<le> \<bar>x\<bar>" using assms(1) by (rule ilog2_abs)
  also have "\<dots> \<le> 2 ^ 53" by (rule assms(2))
  finally show False by simp
qed

lemma f64_of_rep: "rep q \<Longrightarrow> \<bar>q\<bar> \<le> 2 ^ 53 \<Longrightarrow> f64_of neg q = (if q = 0 then signed_zero neg else Fin q)"
  using ilog2_small [of q] by (auto simp: f64_of_def round64_rep Let_def)

lemma f64_le_val: "f64_val a = Some p \<Longrightarrow> f64_val b = Some q \<Longrightarrow> f64_le a b \<longleftrightarrow> p \<le> q"
  by (cases a; cases b) auto

lemma f64_lt_val: "f64_val a = Some p \<Longrightarrow> f64_val b = Some q \<Longrightarrow> f64_lt a b \<longleftrightarrow> p < q"
  by (auto simp: f64_lt_def f64_le_val)

lemma f64_eq_val: "f64_val a = Some p \<Longrightarrow> f64_val b = Some q \<Longrightarrow> f64_eq a b \<longleftrightarrow> p = q"
  by (auto simp: f64_eq_def f64_le_val)

lemma f64_rat_val: "f64_val a = Some p \<Longrightarrow> f64_rat a = p"
  by (cases a) auto

lemma f64_val_neg: "f64_val a = Some p \<Longrightarrow> f64_val (f64_neg a) = Some (- p)"
  by (cases a) auto

lemma f64_val_abs: "f64_val a = Some p \<Longrightarrow> f64_val (f64_abs a) = Some \<bar>p\<bar>"
  by (cases a) auto

lemma f64_val_of: "\<bar>round64 x\<bar> \<le> 2 ^ 53 \<Longrightarrow> f64_val (f64_of neg x) = Some (round64 x)"
  using ilog2_small [of "round64 x"] by (auto simp: f64_of_def Let_def signed_zero_def)

lemma round64_0 [simp]: "round64 0 = 0"
  by (simp add: round64_powi)

lemma f64_val_add:
  assumes "f64_val a = Some p" "f64_val b = Some q" "\<bar>round64 (p + q)\<bar> \<le> 2 ^ 53"
  shows "f64_val (f64_add a b) = Some (round64 (p + q))"
  using assms by (cases a; cases b) (auto simp: f64_val_of)

lemma f64_val_sub:
  assumes "f64_val a = Some p" "f64_val b = Some q" "\<bar>round64 (p - q)\<bar> \<le> 2 ^ 53"
  shows "f64_val (f64_sub a b) = Some (round64 (p - q))"
  using f64_val_add [OF assms(1) f64_val_neg [OF assms(2)]] assms(3) by (simp add: f64_sub_def)

lemma f64_val_mul:
  assumes "f64_val a = Some p" "f64_val b = Some q" "\<bar>round64 (p * q)\<bar> \<le> 2 ^ 53"
  shows "f64_val (f64_mul a b) = Some (round64 (p * q))"
  using assms by (auto simp: f64_mul_def Let_def is_finite_def f64_rat_val f64_val_of)

lemma f64_val_div:
  assumes "f64_val a = Some p" "f64_val b = Some q" "q \<noteq> 0" "\<bar>round64 (p / q)\<bar> \<le> 2 ^ 53"
  shows "f64_val (f64_div a b) = Some (round64 (p / q))"
  using assms by (auto simp: f64_div_def Let_def is_finite_def f64_rat_val f64_val_of)

lemma f64_within_val:
  "f64_within (Fin l) (Fin h) x \<longleftrightarrow> (\<exists>q. f64_val x = Some q \<and> l \<le> q \<and> q \<le> h)"
  by (cases x) (auto simp: f64_within_def)

lemma f64_wf_rep: "f64_wf a \<Longrightarrow> f64_val a = Some q \<Longrightarrow> rep q"
  by (simp add: f64_wf_def)

lemma f64_wf_Fin [simp]: "f64_wf (Fin q) \<longleftrightarrow> rep q"
  by (simp add: f64_wf_def)

lemma f64_wf_of [simp]: "f64_wf (f64_of neg x)"
  using rep_round64 [of x] by (auto simp: f64_wf_def f64_of_def Let_def signed_zero_def signed_inf_def split: if_splits)

lemma f64_wf_add: "f64_wf (f64_add a b)"
  by (cases a; cases b) (auto simp: f64_wf_def [of NaN] f64_wf_def [of PosInf] f64_wf_def [of NegInf] f64_wf_def [of NegZero])

lemma f64_wf_div: "f64_wf (f64_div a b)"
  by (auto simp: f64_div_def Let_def signed_inf_def signed_zero_def f64_wf_def [of NaN] f64_wf_def [of PosInf]
      f64_wf_def [of NegInf] f64_wf_def [of NegZero] f64_wf_def [of "Fin 0"])

text \<open>A sum of values between zero and one is at least each summand and at most their number.\<close>

lemma fold_add_unit:
  assumes "\<forall>x \<in> set xs. f64_within (Fin 0) (Fin 1) x \<and> f64_wf x"
    and "f64_val acc = Some p" "0 \<le> p" "p \<le> of_nat k" "rep p" "k + length xs \<le> 2 ^ 53"
  shows "\<exists>s. f64_val (f64_fold_add acc xs) = Some s \<and> rep s \<and> p \<le> s \<and> s \<le> of_nat (k + length xs)
    \<and> (\<forall>x \<in> set xs. \<forall>q. f64_val x = Some q \<longrightarrow> q \<le> s)"
  using assms
proof (induction xs arbitrary: acc p k)
  case Nil
  then show ?case by (auto simp: f64_fold_add_def)
next
  case (Cons x xs)
  obtain q where q: "f64_val x = Some q" "0 \<le> q" "q \<le> 1" "rep q"
    using Cons.prems(1) f64_wf_rep by (force simp: f64_within_val)
  let ?r = "round64 (p + q)"
  have low: "p \<le> ?r" "q \<le> ?r"
    using q Cons.prems by (auto intro: round64_ge)
  have high: "?r \<le> of_nat (Suc k)"
    using q Cons.prems by (intro round64_le rep_of_nat) auto
  also have "of_nat (Suc k) \<le> (2 :: rat) ^ 53"
    using Cons.prems(6) of_nat_le_iff [of "Suc k" "2 ^ 53", where 'a = rat] by (simp del: of_nat_le_iff of_nat_Suc)
  finally have "f64_val (f64_add acc x) = Some ?r"
    using f64_val_add [OF Cons.prems(2) q(1)] low Cons.prems(3) by simp
  moreover have "0 \<le> ?r" using low Cons.prems(3) by simp
  ultimately obtain s where s: "f64_val (f64_fold_add (f64_add acc x) xs) = Some s" "rep s" "?r \<le> s"
      "s \<le> of_nat (Suc k + length xs)" "\<forall>x \<in> set xs. \<forall>q. f64_val x = Some q \<longrightarrow> q \<le> s"
    using Cons.IH [of "f64_add acc x" ?r "Suc k"] Cons.prems high rep_round64 by auto
  show ?case
    by (rule exI [of _ s]) (use s q low in \<open>auto simp: f64_fold_add_def\<close>)
qed

lemma fold_add_finite:
  assumes "\<forall>x \<in> set xs. f64_within (Fin 0) (Fin 1) x"
    and "f64_val acc = Some p" "0 \<le> p" "p \<le> of_nat k" "k + length xs \<le> 2 ^ 53"
  shows "\<exists>s. f64_val (f64_fold_add acc xs) = Some s \<and> 0 \<le> s \<and> s \<le> of_nat (k + length xs)"
  using assms
proof (induction xs arbitrary: acc p k)
  case Nil
  then show ?case by (auto simp: f64_fold_add_def)
next
  case (Cons x xs)
  obtain q where q: "f64_val x = Some q" "0 \<le> q" "q \<le> 1"
    using Cons.prems(1) by (force simp: f64_within_val)
  let ?r = "round64 (p + q)"
  have low: "0 \<le> ?r" using q Cons.prems(3) by (intro round64_ge) auto
  have high: "?r \<le> of_nat (Suc k)"
    using q Cons.prems by (intro round64_le rep_of_nat) auto
  also have "of_nat (Suc k) \<le> (2 :: rat) ^ 53"
    using Cons.prems(5) of_nat_le_iff [of "Suc k" "2 ^ 53", where 'a = rat] by (simp del: of_nat_le_iff of_nat_Suc)
  finally have "f64_val (f64_add acc x) = Some ?r"
    using f64_val_add [OF Cons.prems(2) q(1)] low by simp
  then show ?case
    using Cons.IH [of "f64_add acc x" ?r "Suc k"] Cons.prems low high by (auto simp: f64_fold_add_def)
qed

lemma div_unit:
  assumes "f64_val a = Some p" "f64_val b = Some q" "0 \<le> p" "p \<le> q" "0 < q"
  shows "f64_within (Fin 0) (Fin 1) (f64_div a b)"
proof -
  have "p / q \<le> 1" "0 \<le> p / q" using assms by simp_all
  then have "0 \<le> round64 (p / q)" "round64 (p / q) \<le> 1" by (simp_all add: round64_ge round64_le)
  then show ?thesis
    using f64_val_div [OF assms(1,2)] assms(5) by (simp add: f64_within_val)
qed

end
