(* ===== verification/Eligibility.thy ===== *)
theory Eligibility
  imports Outcomes Loaded_State Explicit F64
begin

text \<open>
  Model of \<open>src/src/eligibility.rs\<close>: the local stages that decide which shortlisted skills may be
  scored. Only comparisons of \<open>f64\<close> values occur, and every finite \<open>f64\<close> is a rational, so
  comparisons are exact over rationals with the three special values; any comparison with NaN is false.
\<close>

section \<open>Verdicts\<close>

datatype AbstainReason = LowFitReason | AlreadyLoadedReason | ExcludedReason | SnoozedReason | NoShortlistMatch

fun abstain_as_str :: "AbstainReason \<Rightarrow> string" where
  "abstain_as_str LowFitReason = ''low-fit''"
| "abstain_as_str AlreadyLoadedReason = ''already-loaded''"
| "abstain_as_str ExcludedReason = ''excluded''"
| "abstain_as_str SnoozedReason = ''snoozed''"
| "abstain_as_str NoShortlistMatch = ''no-shortlist-match''"

datatype UnavailableReason = ExplicitResolution | EmptyRosterReason | RosterChangedReason

fun unavailable_as_str :: "UnavailableReason \<Rightarrow> string" where
  "unavailable_as_str ExplicitResolution = ''explicit-resolution''"
| "unavailable_as_str EmptyRosterReason = ''empty-roster''"
| "unavailable_as_str RosterChangedReason = ''roster-changed''"

fun unavailable_kind :: "UnavailableReason \<Rightarrow> ErrorKind" where
  "unavailable_kind ExplicitResolution = Ek_UnresolvedExplicit"
| "unavailable_kind EmptyRosterReason = Ek_EmptyRoster"
| "unavailable_kind RosterChangedReason = Ek_RosterChanged"

datatype Verdict = Abstain AbstainReason | Unavailable UnavailableReason

datatype Exclusion = Restricted | ExcludedByUser | AlreadyLoaded | LowFit | NotAboveNone

fun exclusion_as_str :: "Exclusion \<Rightarrow> string" where
  "exclusion_as_str Restricted = ''restricted''"
| "exclusion_as_str ExcludedByUser = ''excluded''"
| "exclusion_as_str AlreadyLoaded = ''already-loaded''"
| "exclusion_as_str LowFit = ''low-fit''"
| "exclusion_as_str NotAboveNone = ''not-above-none''"

datatype Route =
    RouteExplicit "ResolvedExplicitSkill list"
  | RouteUnresolved "UnresolvedRecord list"
  | RouteAdvisory "SkillId set"

fun route :: "ExplicitResolutionResult \<Rightarrow> Route" where
  "route (ResolvedResult skills _) = RouteExplicit skills"
| "route (UnavailableResult unresolved) = RouteUnresolved unresolved"
| "route (NoneSpecified excluded) = RouteAdvisory (set excluded)"

section \<open>The stages\<close>

record LoadedState =
  lo_branch :: "ActiveBranch option"
  lo_records :: "LoadedSkillRecord list"

definition proven_loaded :: "AdvisorySkill \<Rightarrow> LoadedState \<Rightarrow> bool" where
  "proven_loaded skill loaded =
     (let rec = as_record skill in
      if sk_usage_kind rec \<noteq> Reference \<or> sk_forked_context rec \<or> sk_dynamic_content rec then False
      else is_suppressed
        (evaluate_loaded_skill_eligibility (bi_id (as_binding skill)) UsageReference
           (Some (sk_source_content rec)) (sk_rendered_content rec)
           (lo_branch loaded) (lo_records loaded)))"

record EligibilityAdmission =
  ea_admitted :: "AdvisorySkill list"
  ea_removed :: "(SkillId \<times> Exclusion) list"
  ea_verdict :: "Verdict option"

text \<open>The loop over the candidates: what it removed so far and the survivors, in order.\<close>

fun policy_loop ::
  "SkillId set \<Rightarrow> AdvisorySkill list \<Rightarrow> (SkillId \<times> Exclusion) list \<times> AdvisorySkill list
     \<Rightarrow> (SkillId \<times> Exclusion) list \<times> AdvisorySkill list" where
  "policy_loop excluded [] (removed, policy) = (removed, policy)"
| "policy_loop excluded (skill # rest) (removed, policy) =
     (let i = bi_id (as_binding skill) in
      if \<not> ir_agent_invocable (bi_restrictions (as_binding skill))
      then policy_loop excluded rest (removed @ [(i, Restricted)], policy)
      else if i \<in> excluded \<or> sk_id (as_record skill) \<in> excluded
      then policy_loop excluded rest (removed @ [(i, ExcludedByUser)], policy)
      else policy_loop excluded rest (removed, policy @ [skill]))"

fun loaded_loop ::
  "LoadedState \<Rightarrow> AdvisorySkill list \<Rightarrow> (SkillId \<times> Exclusion) list \<times> AdvisorySkill list
     \<Rightarrow> (SkillId \<times> Exclusion) list \<times> AdvisorySkill list" where
  "loaded_loop loaded [] (removed, admitted) = (removed, admitted)"
| "loaded_loop loaded (skill # rest) (removed, admitted) =
     (if proven_loaded skill loaded
      then loaded_loop loaded rest (removed @ [(bi_id (as_binding skill), AlreadyLoaded)], admitted)
      else loaded_loop loaded rest (removed, admitted @ [skill]))"

definition eligibility_admit ::
  "AdvisorySkill list \<Rightarrow> SkillId set \<Rightarrow> LoadedState \<Rightarrow> EligibilityAdmission" where
  "eligibility_admit candidates excluded loaded =
     (if candidates = []
      then \<lparr>ea_admitted = [], ea_removed = [], ea_verdict = Some (Unavailable EmptyRosterReason)\<rparr>
      else
        let (removed, policy) = policy_loop excluded candidates ([], []) in
        if policy = []
        then \<lparr>ea_admitted = policy, ea_removed = removed, ea_verdict = Some (Abstain ExcludedReason)\<rparr>
        else
          let (removed', admitted) = loaded_loop loaded policy (removed, []) in
          \<lparr>ea_admitted = admitted, ea_removed = removed',
           ea_verdict = (if admitted = [] then Some (Abstain AlreadyLoadedReason) else None)\<rparr>)"

record Estimate =
  es_fit :: f64
  es_rerank :: f64

record Eligible =
  el_skill :: AdvisorySkill
  el_fit :: f64
  el_rerank :: f64

record Evaluation =
  ev_eligible :: "Eligible list"
  ev_removed :: "(SkillId \<times> Exclusion) list"
  ev_verdict :: "Verdict option"

text \<open>Indexing the estimates panics on a missing key: the loop is then \<open>None\<close>.\<close>

fun fit_loop ::
  "(SkillId, Estimate) btree \<Rightarrow> f64 \<Rightarrow> AdvisorySkill list
     \<Rightarrow> (SkillId \<times> Exclusion) list \<times> (AdvisorySkill \<times> Estimate) list
     \<Rightarrow> ((SkillId \<times> Exclusion) list \<times> (AdvisorySkill \<times> Estimate) list) option" where
  "fit_loop estimates thr [] (removed, fitting) = Some (removed, fitting)"
| "fit_loop estimates thr (skill # rest) (removed, fitting) =
     (case bt_get estimates (bi_id (as_binding skill)) of
        None \<Rightarrow> None
      | Some e \<Rightarrow>
          if f64_le thr (es_fit e) then fit_loop estimates thr rest (removed, fitting @ [(skill, e)])
          else fit_loop estimates thr rest (removed @ [(bi_id (as_binding skill), LowFit)], fitting))"

fun none_loop ::
  "f64 \<Rightarrow> (AdvisorySkill \<times> Estimate) list \<Rightarrow> (SkillId \<times> Exclusion) list \<times> Eligible list
     \<Rightarrow> (SkillId \<times> Exclusion) list \<times> Eligible list" where
  "none_loop none_p [] (removed, eligible) = (removed, eligible)"
| "none_loop none_p ((skill, e) # rest) (removed, eligible) =
     (if f64_lt none_p (es_rerank e)
      then none_loop none_p rest
             (removed, eligible @ [\<lparr>el_skill = skill, el_fit = es_fit e, el_rerank = es_rerank e\<rparr>])
      else none_loop none_p rest (removed @ [(bi_id (as_binding skill), NotAboveNone)], eligible))"

definition members_match :: "AdvisorySkill list \<Rightarrow> (SkillId, Estimate) btree \<Rightarrow> bool" where
  "members_match shortlist estimates \<longleftrightarrow>
     (let members = set (map (bi_id \<circ> as_binding) shortlist) in
      \<not> (shortlist = [] \<or> card members \<noteq> length shortlist \<or> card members \<noteq> length estimates
         \<or> \<not> list_all (\<lambda>i. i \<in> members) (bt_keys estimates)))"

definition after_rerank ::
  "AdvisorySkill list \<Rightarrow> (SkillId, Estimate) btree \<Rightarrow> f64 \<Rightarrow> f64 \<Rightarrow> SkillId set \<Rightarrow> LoadedState
     \<Rightarrow> Evaluation option" where
  "after_rerank shortlist estimates none_p fit_threshold excluded loaded =
     (if \<not> members_match shortlist estimates
      then Some \<lparr>ev_eligible = [], ev_removed = [], ev_verdict = Some (Unavailable RosterChangedReason)\<rparr>
      else
        let adm = eligibility_admit shortlist excluded loaded in
        if ea_verdict adm \<noteq> None
        then Some \<lparr>ev_eligible = [], ev_removed = ea_removed adm, ev_verdict = ea_verdict adm\<rparr>
        else
          (case fit_loop estimates fit_threshold (ea_admitted adm) (ea_removed adm, []) of
             None \<Rightarrow> None
           | Some (removed, fitting) \<Rightarrow>
               if fitting = []
               then Some \<lparr>ev_eligible = [], ev_removed = removed, ev_verdict = Some (Abstain LowFitReason)\<rparr>
               else
                 let (removed', eligible) = none_loop none_p fitting (removed, []) in
                 Some \<lparr>ev_eligible = eligible, ev_removed = removed',
                   ev_verdict = (if eligible = [] then Some (Abstain NoShortlistMatch) else None)\<rparr>))"

section \<open>Reference definition\<close>

text \<open>The estimate of a skill of the shortlist; the default is never met there.\<close>

definition estimate_of :: "(SkillId, Estimate) btree \<Rightarrow> SkillId \<Rightarrow> Estimate" where
  "estimate_of estimates i =
     (case bt_get estimates i of Some e \<Rightarrow> e | None \<Rightarrow> \<lparr>es_fit = NaN, es_rerank = NaN\<rparr>)"

text \<open>The first stage that removes a skill, read off the rules one skill at a time.\<close>

definition first_exclusion ::
  "(SkillId, Estimate) btree \<Rightarrow> f64 \<Rightarrow> f64 \<Rightarrow> SkillId set \<Rightarrow> LoadedState \<Rightarrow> AdvisorySkill \<Rightarrow> Exclusion option" where
  "first_exclusion estimates none_p thr excluded loaded s =
     (let i = bi_id (as_binding s); e = estimate_of estimates i in
      if \<not> ir_agent_invocable (bi_restrictions (as_binding s)) then Some Restricted
      else if i \<in> excluded \<or> sk_id (as_record s) \<in> excluded then Some ExcludedByUser
      else if proven_loaded s loaded then Some AlreadyLoaded
      else if \<not> f64_le thr (es_fit e) then Some LowFit
      else if \<not> f64_lt none_p (es_rerank e) then Some NotAboveNone
      else None)"

definition removed_at :: "Exclusion set \<Rightarrow> (AdvisorySkill \<Rightarrow> Exclusion option) \<Rightarrow> AdvisorySkill list \<Rightarrow> (SkillId \<times> Exclusion) list" where
  "removed_at X fe xs =
     map (\<lambda>s. (bi_id (as_binding s), the (fe s))) (filter (\<lambda>s. \<exists>x\<in>X. fe s = Some x) xs)"

text \<open>The abstention reason is the furthest stage any skill reached.\<close>

definition furthest_reason :: "(AdvisorySkill \<Rightarrow> Exclusion option) \<Rightarrow> AdvisorySkill list \<Rightarrow> AbstainReason" where
  "furthest_reason fe xs =
     (if \<forall>s\<in>set xs. fe s \<in> {Some Restricted, Some ExcludedByUser} then ExcludedReason
      else if \<forall>s\<in>set xs. fe s \<in> {Some Restricted, Some ExcludedByUser, Some AlreadyLoaded}
      then AlreadyLoadedReason
      else if \<forall>s\<in>set xs. fe s \<in> {Some Restricted, Some ExcludedByUser, Some AlreadyLoaded, Some LowFit}
      then LowFitReason
      else NoShortlistMatch)"

definition eligible_of :: "(SkillId, Estimate) btree \<Rightarrow> AdvisorySkill \<Rightarrow> Eligible" where
  "eligible_of estimates s =
     (let e = estimate_of estimates (bi_id (as_binding s)) in
      \<lparr>el_skill = s, el_fit = es_fit e, el_rerank = es_rerank e\<rparr>)"

section \<open>The loops compute the stages\<close>

lemma policy_loop_eq:
  assumes fe: "fe = first_exclusion estimates none_p thr excluded loaded"
  shows "policy_loop excluded xs (r, p) =
    (r @ removed_at {Restricted, ExcludedByUser} fe xs,
     p @ filter (\<lambda>s. fe s \<notin> {Some Restricted, Some ExcludedByUser}) xs)"
proof (induction xs arbitrary: r p)
  case (Cons s xs)
  have "fe s = Some Restricted \<longleftrightarrow> \<not> ir_agent_invocable (bi_restrictions (as_binding s))"
    "fe s = Some ExcludedByUser \<longleftrightarrow> ir_agent_invocable (bi_restrictions (as_binding s))
       \<and> (bi_id (as_binding s) \<in> excluded \<or> sk_id (as_record s) \<in> excluded)"
    by (simp_all add: fe first_exclusion_def Let_def)
  with Cons.IH show ?case by (auto simp: removed_at_def Let_def)
qed (simp add: removed_at_def)

lemma loaded_loop_eq:
  "loaded_loop loaded xs (r, p) =
    (r @ map (\<lambda>s. (bi_id (as_binding s), AlreadyLoaded)) (filter (\<lambda>s. proven_loaded s loaded) xs),
     p @ filter (\<lambda>s. \<not> proven_loaded s loaded) xs)"
  by (induction xs arbitrary: r p) auto

lemma fit_loop_eq:
  assumes fits: "fits = (\<lambda>s. f64_le thr (es_fit (estimate_of estimates (bi_id (as_binding s)))))"
    and present: "\<forall>s\<in>set xs. bt_get estimates (bi_id (as_binding s)) \<noteq> None"
  shows "fit_loop estimates thr xs (r, p) =
    Some (r @ map (\<lambda>s. (bi_id (as_binding s), LowFit)) (filter (\<lambda>s. \<not> fits s) xs),
     p @ map (\<lambda>s. (s, estimate_of estimates (bi_id (as_binding s)))) (filter fits xs))"
  using present by (induction xs arbitrary: r p) (auto simp: fits estimate_of_def)

lemma none_loop_eq:
  assumes beats: "beats = (\<lambda>s. f64_lt none_p (es_rerank (estimate_of estimates (bi_id (as_binding s)))))"
  shows "none_loop none_p (map (\<lambda>s. (s, estimate_of estimates (bi_id (as_binding s)))) xs) (r, p) =
    (r @ map (\<lambda>s. (bi_id (as_binding s), NotAboveNone)) (filter (\<lambda>s. \<not> beats s) xs),
     p @ map (eligible_of estimates) (filter beats xs))"
  by (induction xs arbitrary: r p) (auto simp: beats eligible_of_def Let_def)

lemma stage_facts:
  assumes fe: "fe = first_exclusion estimates none_p thr excluded loaded"
  shows "fe s \<notin> {Some Restricted, Some ExcludedByUser} \<Longrightarrow>
      proven_loaded s loaded \<longleftrightarrow> fe s = Some AlreadyLoaded"
    and "fe s \<notin> {Some Restricted, Some ExcludedByUser, Some AlreadyLoaded} \<Longrightarrow>
      f64_le thr (es_fit (estimate_of estimates (bi_id (as_binding s)))) \<longleftrightarrow> fe s \<noteq> Some LowFit"
    and "fe s \<notin> {Some Restricted, Some ExcludedByUser, Some AlreadyLoaded, Some LowFit} \<Longrightarrow>
      f64_lt none_p (es_rerank (estimate_of estimates (bi_id (as_binding s)))) \<longleftrightarrow> fe s = None"
  by (auto simp: fe first_exclusion_def Let_def split: if_splits)

text \<open>Removing in stages is filtering by the union of what the stages remove.\<close>

lemma staged_filters:
  fixes fe :: "AdvisorySkill \<Rightarrow> Exclusion option"
  defines "X1 \<equiv> {Some Restricted, Some ExcludedByUser}"
    and "X2 \<equiv> {Some Restricted, Some ExcludedByUser, Some AlreadyLoaded}"
    and "X3 \<equiv> {Some Restricted, Some ExcludedByUser, Some AlreadyLoaded, Some LowFit}"
  assumes fe: "fe = first_exclusion estimates none_p thr excluded loaded"
  shows "filter (\<lambda>s. \<not> proven_loaded s loaded) (filter (\<lambda>s. fe s \<notin> X1) xs) = filter (\<lambda>s. fe s \<notin> X2) xs"
    and "map (\<lambda>s. (bi_id (as_binding s), AlreadyLoaded))
        (filter (\<lambda>s. proven_loaded s loaded) (filter (\<lambda>s. fe s \<notin> X1) xs)) = removed_at {AlreadyLoaded} fe xs"
    and "filter (\<lambda>s. f64_le thr (es_fit (estimate_of estimates (bi_id (as_binding s))))) (filter (\<lambda>s. fe s \<notin> X2) xs)
        = filter (\<lambda>s. fe s \<notin> X3) xs"
    and "map (\<lambda>s. (bi_id (as_binding s), LowFit))
        (filter (\<lambda>s. \<not> f64_le thr (es_fit (estimate_of estimates (bi_id (as_binding s))))) (filter (\<lambda>s. fe s \<notin> X2) xs))
        = removed_at {LowFit} fe xs"
    and "filter (\<lambda>s. f64_lt none_p (es_rerank (estimate_of estimates (bi_id (as_binding s))))) (filter (\<lambda>s. fe s \<notin> X3) xs)
        = filter (\<lambda>s. fe s = None) xs"
    and "map (\<lambda>s. (bi_id (as_binding s), NotAboveNone))
        (filter (\<lambda>s. \<not> f64_lt none_p (es_rerank (estimate_of estimates (bi_id (as_binding s))))) (filter (\<lambda>s. fe s \<notin> X3) xs))
        = removed_at {NotAboveNone} fe xs"
proof -
  note facts = stage_facts [OF fe]
  have left: "fe s \<in> {None, Some NotAboveNone}" if "fe s \<notin> X3" for s
    using that by (cases "fe s"; cases "the (fe s)") (auto simp: X3_def)
  show "filter (\<lambda>s. \<not> proven_loaded s loaded) (filter (\<lambda>s. fe s \<notin> X1) xs) = filter (\<lambda>s. fe s \<notin> X2) xs"
    unfolding filter_filter by (rule filter_cong [OF refl]) (use facts(1) in \<open>auto simp: X1_def X2_def\<close>)
  show "map (\<lambda>s. (bi_id (as_binding s), AlreadyLoaded))
      (filter (\<lambda>s. proven_loaded s loaded) (filter (\<lambda>s. fe s \<notin> X1) xs)) = removed_at {AlreadyLoaded} fe xs"
    unfolding filter_filter removed_at_def
    by (rule map_cong [OF filter_cong [OF refl]]) (use facts(1) in \<open>auto simp: X1_def\<close>)
  show "filter (\<lambda>s. f64_le thr (es_fit (estimate_of estimates (bi_id (as_binding s))))) (filter (\<lambda>s. fe s \<notin> X2) xs)
      = filter (\<lambda>s. fe s \<notin> X3) xs"
    unfolding filter_filter by (rule filter_cong [OF refl]) (use facts(2) in \<open>auto simp: X2_def X3_def\<close>)
  show "map (\<lambda>s. (bi_id (as_binding s), LowFit))
      (filter (\<lambda>s. \<not> f64_le thr (es_fit (estimate_of estimates (bi_id (as_binding s))))) (filter (\<lambda>s. fe s \<notin> X2) xs))
      = removed_at {LowFit} fe xs"
    unfolding filter_filter removed_at_def
    by (rule map_cong [OF filter_cong [OF refl]]) (use facts(2) in \<open>auto simp: X2_def\<close>)
  show "filter (\<lambda>s. f64_lt none_p (es_rerank (estimate_of estimates (bi_id (as_binding s))))) (filter (\<lambda>s. fe s \<notin> X3) xs)
      = filter (\<lambda>s. fe s = None) xs"
    unfolding filter_filter by (rule filter_cong [OF refl]) (use facts(3) in \<open>auto simp: X3_def\<close>)
  show "map (\<lambda>s. (bi_id (as_binding s), NotAboveNone))
      (filter (\<lambda>s. \<not> f64_lt none_p (es_rerank (estimate_of estimates (bi_id (as_binding s))))) (filter (\<lambda>s. fe s \<notin> X3) xs))
      = removed_at {NotAboveNone} fe xs"
    unfolding filter_filter removed_at_def
    by (rule map_cong [OF filter_cong [OF refl]]) (use facts(3) left in \<open>auto simp: X3_def\<close>)
qed

lemma removed_partition:
  "mset (removed_at {Restricted, ExcludedByUser} fe xs @ removed_at {AlreadyLoaded} fe xs
      @ removed_at {LowFit} fe xs @ removed_at {NotAboveNone} fe xs)
   = mset (map (\<lambda>s. (bi_id (as_binding s), the (fe s))) (filter (\<lambda>s. fe s \<noteq> None) xs))"
proof (induction xs)
  case (Cons s xs)
  then show ?case by (cases "fe s"; cases "the (fe s)") (auto simp: removed_at_def)
qed (simp add: removed_at_def)

lemma removed_none: "(\<forall>s\<in>set xs. \<forall>x\<in>X. fe s \<noteq> Some x) \<Longrightarrow> removed_at X fe xs = []"
  by (auto simp: removed_at_def filter_empty_conv)

lemma members_match_present:
  assumes "members_match shortlist estimates" "bt_sorted estimates" "s \<in> set shortlist"
  shows "bt_get estimates (bi_id (as_binding s)) \<noteq> None"
proof -
  let ?m = "set (map (bi_id \<circ> as_binding) shortlist)"
  have "set (bt_keys estimates) \<subseteq> ?m" "card ?m = length estimates"
    using assms(1) by (auto simp: members_match_def Let_def list_all_iff)
  moreover have "card (set (bt_keys estimates)) = length estimates"
    using distinct_card [OF bt_keys_sorted [OF assms(2)]] by (simp add: bt_keys_def)
  ultimately have "set (bt_keys estimates) = ?m"
    by (simp add: card_subset_eq)
  then show ?thesis
    using assms(3) by (auto simp: bt_get_None_iff)
qed

lemma eligibility_admit_eq:
  assumes fe: "fe = first_exclusion estimates none_p thr excluded loaded" and "xs \<noteq> []"
  shows "eligibility_admit xs excluded loaded =
    \<lparr>ea_admitted = filter (\<lambda>s. fe s \<notin> {Some Restricted, Some ExcludedByUser, Some AlreadyLoaded}) xs,
     ea_removed = removed_at {Restricted, ExcludedByUser} fe xs @ removed_at {AlreadyLoaded} fe xs,
     ea_verdict =
       (if \<forall>s\<in>set xs. fe s \<in> {Some Restricted, Some ExcludedByUser} then Some (Abstain ExcludedReason)
        else if \<forall>s\<in>set xs. fe s \<in> {Some Restricted, Some ExcludedByUser, Some AlreadyLoaded}
        then Some (Abstain AlreadyLoadedReason) else None)\<rparr>"
proof (cases "\<forall>s\<in>set xs. fe s \<in> {Some Restricted, Some ExcludedByUser}")
  case True
  then have none: "filter (\<lambda>s. fe s \<notin> {Some Restricted, Some ExcludedByUser}) xs = []"
    "filter (\<lambda>s. fe s \<notin> {Some Restricted, Some ExcludedByUser, Some AlreadyLoaded}) xs = []"
    "removed_at {AlreadyLoaded} fe xs = []"
    by (auto simp: filter_empty_conv intro!: removed_none)
  show ?thesis
    unfolding eligibility_admit_def policy_loop_eq [OF fe] none using assms(2) True by simp
next
  case False
  then have "filter (\<lambda>s. fe s \<notin> {Some Restricted, Some ExcludedByUser}) xs \<noteq> []"
    by (auto simp: filter_empty_conv)
  moreover have "filter (\<lambda>s. fe s \<notin> {Some Restricted, Some ExcludedByUser, Some AlreadyLoaded}) xs = []
    \<longleftrightarrow> (\<forall>s\<in>set xs. fe s \<in> {Some Restricted, Some ExcludedByUser, Some AlreadyLoaded})"
    by (auto simp: filter_empty_conv)
  ultimately show ?thesis
    unfolding eligibility_admit_def policy_loop_eq [OF fe] Let_def prod.case append_Nil
      loaded_loop_eq staged_filters(1) [OF fe] staged_filters(2) [OF fe]
    using assms(2) False by simp
qed

lemma members_match_iff:
  assumes "bt_sorted estimates"
  shows "members_match shortlist estimates \<longleftrightarrow>
    shortlist \<noteq> [] \<and> distinct (map (bi_id \<circ> as_binding) shortlist)
      \<and> set (bt_keys estimates) = set (map (bi_id \<circ> as_binding) shortlist)"
proof -
  let ?ids = "map (bi_id \<circ> as_binding) shortlist"
  have keys: "card (set (bt_keys estimates)) = length estimates"
    using distinct_card [OF bt_keys_sorted [OF assms]] by (simp add: bt_keys_def)
  have "card (set ?ids) = length shortlist \<longleftrightarrow> distinct ?ids"
    by (metis card_distinct distinct_card length_map)
  moreover have "set (bt_keys estimates) \<subseteq> set ?ids \<and> card (set ?ids) = length estimates
      \<longleftrightarrow> set (bt_keys estimates) = set ?ids"
    using keys card_subset_eq [of "set ?ids" "set (bt_keys estimates)"] by auto
  ultimately show ?thesis
    unfolding members_match_def Let_def list_all_iff subset_eq by blast
qed

lemma fit_stage:
  assumes fe: "fe = first_exclusion estimates none_p thr excluded loaded"
    and wf: "bt_sorted estimates" and mm: "members_match xs estimates"
  shows "fit_loop estimates thr
      (filter (\<lambda>s. fe s \<notin> {Some Restricted, Some ExcludedByUser, Some AlreadyLoaded}) xs) (r, []) =
    Some (r @ removed_at {LowFit} fe xs,
      map (\<lambda>s. (s, estimate_of estimates (bi_id (as_binding s))))
        (filter (\<lambda>s. fe s \<notin> {Some Restricted, Some ExcludedByUser, Some AlreadyLoaded, Some LowFit}) xs))"
  unfolding staged_filters(3) [OF fe, symmetric] staged_filters(4) [OF fe, symmetric]
  by (subst fit_loop_eq [OF refl]) (use members_match_present [OF mm wf] in \<open>auto simp: staged_filters(3) [OF fe]\<close>)

lemma none_stage:
  assumes fe: "fe = first_exclusion estimates none_p thr excluded loaded"
  shows "none_loop none_p
      (map (\<lambda>s. (s, estimate_of estimates (bi_id (as_binding s))))
        (filter (\<lambda>s. fe s \<notin> {Some Restricted, Some ExcludedByUser, Some AlreadyLoaded, Some LowFit}) xs)) (r, [])
    = (r @ removed_at {NotAboveNone} fe xs, map (eligible_of estimates) (filter (\<lambda>s. fe s = None) xs))"
  unfolding staged_filters(5) [OF fe, symmetric] staged_filters(6) [OF fe, symmetric]
  by (subst none_loop_eq [OF refl]) (simp add: staged_filters(5) [OF fe])

lemma after_rerank_eq:
  assumes fe: "fe = first_exclusion estimates none_p thr excluded loaded"
    and wf: "bt_sorted estimates" and mm: "members_match xs estimates"
  shows "after_rerank xs estimates none_p thr excluded loaded =
    Some \<lparr>ev_eligible = map (eligible_of estimates) (filter (\<lambda>s. fe s = None) xs),
      ev_removed = removed_at {Restricted, ExcludedByUser} fe xs @ removed_at {AlreadyLoaded} fe xs
        @ removed_at {LowFit} fe xs @ removed_at {NotAboveNone} fe xs,
      ev_verdict = (if \<exists>s\<in>set xs. fe s = None then None else Some (Abstain (furthest_reason fe xs)))\<rparr>"
proof -
  let ?X2 = "{Some Restricted, Some ExcludedByUser, Some AlreadyLoaded}"
  let ?X3 = "{Some Restricted, Some ExcludedByUser, Some AlreadyLoaded, Some LowFit}"
  have ne: "xs \<noteq> []" using mm by (simp add: members_match_iff [OF wf])
  note adm = eligibility_admit_eq [OF fe ne]
  note fit = fit_stage [OF fe wf mm] and non = none_stage [OF fe]
  have empty: "removed_at {LowFit} fe xs = []" "removed_at {NotAboveNone} fe xs = []"
    "filter (\<lambda>s. fe s = None) xs = []" "(\<exists>s\<in>set xs. fe s = None) = False"
    if "\<forall>s\<in>set xs. fe s \<in> ?X2"
    using that by (auto simp: filter_empty_conv intro!: removed_none)
  have empty': "removed_at {NotAboveNone} fe xs = []" "filter (\<lambda>s. fe s \<notin> ?X3) xs = []"
    "filter (\<lambda>s. fe s = None) xs = []" "(\<exists>s\<in>set xs. fe s = None) = False"
    if "\<forall>s\<in>set xs. fe s \<in> ?X3"
    using that by (auto simp: filter_empty_conv intro!: removed_none)
  have mono: "(\<forall>s\<in>set xs. fe s \<in> {Some Restricted, Some ExcludedByUser}) \<Longrightarrow> \<forall>s\<in>set xs. fe s \<in> ?X2"
    "(\<forall>s\<in>set xs. fe s \<in> ?X2) \<Longrightarrow> \<forall>s\<in>set xs. fe s \<in> ?X3" by blast+
  consider (excl) "\<forall>s\<in>set xs. fe s \<in> {Some Restricted, Some ExcludedByUser}"
    | (loaded) "\<not> (\<forall>s\<in>set xs. fe s \<in> {Some Restricted, Some ExcludedByUser})" "\<forall>s\<in>set xs. fe s \<in> ?X2"
    | (fit) "\<not> (\<forall>s\<in>set xs. fe s \<in> {Some Restricted, Some ExcludedByUser})" "\<not> (\<forall>s\<in>set xs. fe s \<in> ?X2)"
        "\<forall>s\<in>set xs. fe s \<in> ?X3"
    | (rest) "\<not> (\<forall>s\<in>set xs. fe s \<in> {Some Restricted, Some ExcludedByUser})" "\<not> (\<forall>s\<in>set xs. fe s \<in> ?X2)"
        "\<not> (\<forall>s\<in>set xs. fe s \<in> ?X3)" by blast
  then show ?thesis
  proof cases
    case excl
    show ?thesis unfolding after_rerank_def adm Let_def furthest_reason_def eqTrueI [OF excl]
        empty [OF mono(1) [OF excl]] using mm by simp
  next
    case loaded
    show ?thesis unfolding after_rerank_def adm Let_def furthest_reason_def Eq_FalseI [OF loaded(1)]
        eqTrueI [OF loaded(2)] empty [OF loaded(2)] using mm by simp
  next
    case f: fit
    show ?thesis unfolding after_rerank_def adm Let_def furthest_reason_def Eq_FalseI [OF f(1)]
        Eq_FalseI [OF f(2)] eqTrueI [OF f(3)] using mm by (simp add: fit empty' [OF f(3)] del: insert_iff)
  next
    case rest
    have "filter (\<lambda>s. fe s \<notin> ?X3) xs \<noteq> []" using rest(3) by (auto simp: filter_empty_conv)
    then show ?thesis unfolding after_rerank_def adm Let_def furthest_reason_def Eq_FalseI [OF rest(1)]
        Eq_FalseI [OF rest(2)] Eq_FalseI [OF rest(3)] using mm by (simp add: fit non filter_empty_conv del: insert_iff)
  qed
qed

section \<open>Loaded-state suppression\<close>

text \<open>
  A skill is suppressed as already loaded exactly when it is a reusable reference whose content
  neither forks nor renders dynamically, the active branch is resolved, and some load record of that
  skill carries an identified event of the active branch, the current context epoch, no dynamic
  arguments, no turn scope, the skill's known source hash, and no contradicting rendered hash.
\<close>

theorem suppression_needs_proof:
  "proven_loaded skill loaded \<longleftrightarrow>
     sk_usage_kind (as_record skill) = Reference
     \<and> \<not> sk_forked_context (as_record skill) \<and> \<not> sk_dynamic_content (as_record skill)
     \<and> (\<exists>b. lo_branch loaded = Some b
          \<and> (\<exists>r \<in> set (lo_records loaded). \<exists>e.
               ld_skill_id r = bi_id (as_binding skill)
               \<and> ld_event_id r = Some e \<and> contains_event b e
               \<and> ld_epoch r = br_current_epoch b
               \<and> \<not> ld_has_dynamic_arguments r \<and> \<not> ld_turn_scoped r
               \<and> ld_source_content r = Some (sk_source_content (as_record skill))
               \<and> (sk_rendered_content (as_record skill) = None \<or> ld_rendered_content r = None
                  \<or> ld_rendered_content r = sk_rendered_content (as_record skill))))"
  by (cases "lo_branch loaded")
    (auto simp: proven_loaded_def evaluate_loaded_skill_eligibility_def Let_def
      proving_record_iff proves_presence_def event_id_set_iff)

section \<open>The decision after rerank\<close>

text \<open>What no rule excludes has finite estimates, for a finite threshold, unless an estimate is plus infinity.\<close>

lemma eligible_finite:
  assumes "first_exclusion estimates none_p thr excluded loaded s = None" "is_finite thr"
    and "\<forall>e \<in> set (bt_values estimates). es_fit e \<noteq> PosInf \<and> es_rerank e \<noteq> PosInf"
  shows "is_finite (el_fit (eligible_of estimates s)) \<and> is_finite (el_rerank (eligible_of estimates s))"
proof -
  let ?e = "estimate_of estimates (bi_id (as_binding s))"
  have above: "f64_le thr (es_fit ?e)" "f64_lt none_p (es_rerank ?e)"
    using assms(1) by (simp_all add: first_exclusion_def Let_def split: if_split_asm)
  have "es_fit ?e \<noteq> PosInf \<and> es_rerank ?e \<noteq> PosInf"
  proof (cases "bt_get estimates (bi_id (as_binding s))")
    case (Some e)
    then have "e \<in> set (bt_values estimates)"
      by (auto simp: bt_get_def bt_values_def dest!: map_of_SomeD intro: rev_image_eqI)
    then show ?thesis using assms(3) Some by (simp add: estimate_of_def)
  qed (simp add: estimate_of_def)
  moreover have "is_finite b" if "f64_le a b" "is_finite a" "b \<noteq> PosInf" for a b
    using that by (cases a; cases b) (simp_all add: is_finite_def)
  moreover have "is_finite b" if "f64_lt a b" "b \<noteq> PosInf" for a b
    using that by (cases a; cases b) (simp_all add: is_finite_def f64_lt_def)
  ultimately have "is_finite (es_fit ?e)" "is_finite (es_rerank ?e)" using above assms(2) by blast+
  then show ?thesis by (simp add: eligible_of_def Let_def)
qed

text \<open>
  C9. Eligibility after rerank is exact. For estimates that cover precisely the shortlist, none of them plus
  infinity, and a finite threshold, the decision after rerank never panics, keeps exactly the skills that no stage
  removes, in shortlist order and with their own estimates, all of them finite, so an estimate that is not a
  number or minus infinity is removed; it reports every other skill once with the first stage that
  removed it, and abstains exactly when nothing is left, with the furthest stage any skill reached as its reason.
  With any other membership it is unavailable and keeps nothing.
\<close>

theorem eligibility_exact:
  assumes wf: "bt_sorted estimates"
    and finite: "is_finite thr" "\<forall>e \<in> set (bt_values estimates). es_fit e \<noteq> PosInf \<and> es_rerank e \<noteq> PosInf"
    and fe: "fe = first_exclusion estimates none_p thr excluded loaded"
  shows "\<exists>ev. after_rerank shortlist estimates none_p thr excluded loaded = Some ev
    \<and> (\<forall>el \<in> set (ev_eligible ev). is_finite (el_fit el) \<and> is_finite (el_rerank el))
    \<and> (if shortlist \<noteq> [] \<and> distinct (map (bi_id \<circ> as_binding) shortlist)
          \<and> set (bt_keys estimates) = set (map (bi_id \<circ> as_binding) shortlist)
       then ev_eligible ev = map (eligible_of estimates) (filter (\<lambda>s. fe s = None) shortlist)
         \<and> mset (ev_removed ev)
             = mset (map (\<lambda>s. (bi_id (as_binding s), the (fe s))) (filter (\<lambda>s. fe s \<noteq> None) shortlist))
         \<and> ev_verdict ev = (if \<exists>s\<in>set shortlist. fe s = None then None
                            else Some (Abstain (furthest_reason fe shortlist)))
       else ev = \<lparr>ev_eligible = [], ev_removed = [], ev_verdict = Some (Unavailable RosterChangedReason)\<rparr>)"
proof (cases "members_match shortlist estimates")
  case True
  have kept: "\<forall>el \<in> set (map (eligible_of estimates) (filter (\<lambda>s. fe s = None) shortlist)).
      is_finite (el_fit el) \<and> is_finite (el_rerank el)"
    using eligible_finite [OF _ finite] by (auto simp: fe)
  show ?thesis
    unfolding members_match_iff [OF wf, symmetric] after_rerank_eq [OF fe wf True]
    using True removed_partition [of fe shortlist] kept by (simp del: mset_append)
next
  case False
  then show ?thesis
    unfolding members_match_iff [OF wf, symmetric] by (simp add: after_rerank_def)
qed

definition sample_skill :: "SkillId \<Rightarrow> AdvisorySkill" where
  "sample_skill i =
     \<lparr>as_record = \<lparr>sk_id = i, sk_source = [115], sk_source_priority = 0, sk_invocation_name = i, sk_display_name = i,
        sk_target = FileTarget [47], sk_source_content = [1], sk_rendered_content = None, sk_visibility = Unverified,
        sk_restrictions = \<lparr>ir_agent_invocable = True, ir_user_invocable = True\<rparr>, sk_usage_kind = Workflow,
        sk_forked_context = False, sk_dynamic_content = False, sk_aliases = [], sk_description_full = [],
        sk_description_short = [], sk_body_excerpt = [], sk_body_window = [], sk_tags = [], sk_phases = [],
        sk_parse_warnings = []\<rparr>,
      as_binding = \<lparr>bi_id = i, bi_source = [115], bi_invocation = i, bi_visibility = Unverified,
        bi_restrictions = \<lparr>ir_agent_invocable = True, ir_user_invocable = True\<rparr>, bi_priority = None\<rparr>\<rparr>"

definition sample_estimates :: "(SkillId, Estimate) btree" where
  "sample_estimates =
     [([5], \<lparr>es_fit = Fin (1 / 4), es_rerank = Fin (1 / 2)\<rparr>), ([7], \<lparr>es_fit = Fin (1 / 2), es_rerank = Fin (1 / 3)\<rparr>)]"

theorem eligibility_exact_witness:
  "\<exists>ev. after_rerank [sample_skill [7], sample_skill [5]] sample_estimates (Fin (1 / 5)) (Fin (3 / 10)) {}
       \<lparr>lo_branch = None, lo_records = []\<rparr> = Some ev
     \<and> map (\<lambda>e. bi_id (as_binding (el_skill e))) (ev_eligible ev) = [[7]]
     \<and> mset (ev_removed ev) = {#([5], LowFit)#} \<and> ev_verdict ev = None"
proof -
  let ?fe = "first_exclusion sample_estimates (Fin (1 / 5)) (Fin (3 / 10)) {} \<lparr>lo_branch = None, lo_records = []\<rparr>"
  have fe: "?fe (sample_skill [7]) = None" "?fe (sample_skill [5]) = Some LowFit"
    by (simp_all add: first_exclusion_def sample_skill_def proven_loaded_def estimate_of_def bt_get_def
        sample_estimates_def f64_lt_def)
  have ids: "bi_id (as_binding (sample_skill i)) = i" for i by (simp add: sample_skill_def)
  have keys: "set (bt_keys sample_estimates) = {[7], [5]}" by (auto simp: bt_keys_def sample_estimates_def)
  have sorted: "bt_sorted sample_estimates" by (simp add: bt_sorted_def sample_estimates_def)
  have values_ok: "\<forall>e \<in> set (bt_values sample_estimates). es_fit e \<noteq> PosInf \<and> es_rerank e \<noteq> PosInf"
    by (simp add: bt_values_def sample_estimates_def)
  have "is_finite (Fin (3 / 10))" by (simp add: is_finite_def)
  from eligibility_exact [OF sorted this values_ok refl, where none_p = "Fin (1 / 5)" and excluded = "{}" and loaded = "\<lparr>lo_branch = None, lo_records = []\<rparr>"
      and shortlist = "[sample_skill [7], sample_skill [5]]"]
  show ?thesis
    by (auto simp: fe ids keys eligible_of_def Let_def)
qed

text \<open>
  Among the skills that pass the policy stages, a NaN estimate is always removed, and so is an
  estimate of minus infinity under a finite threshold; an estimate of plus infinity passes every finite
  threshold and beats every finite \<open>__none__\<close> probability, so these comparisons alone do not
  remove every non-finite estimate.
\<close>

theorem nonfinite_estimates:
  assumes e: "bt_get estimates (bi_id (as_binding s)) = Some e"
    and policy: "ir_agent_invocable (bi_restrictions (as_binding s))"
      "bi_id (as_binding s) \<notin> excluded" "sk_id (as_record s) \<notin> excluded" "\<not> proven_loaded s loaded"
  shows "(es_fit e \<in> {NaN, NegInf} \<longrightarrow>
        first_exclusion estimates (Fin n) (Fin t) excluded loaded s = Some LowFit)
    \<and> (f64_le (Fin t) (es_fit e) \<and> es_rerank e \<in> {NaN, NegInf} \<longrightarrow>
        first_exclusion estimates (Fin n) (Fin t) excluded loaded s = Some NotAboveNone)
    \<and> (es_fit e = PosInf \<and> es_rerank e = PosInf \<longrightarrow>
        first_exclusion estimates (Fin n) (Fin t) excluded loaded s = None)"
  using assms by (auto simp: first_exclusion_def estimate_of_def f64_lt_def)

theorem nonfinite_estimates_witness:
  "first_exclusion [([7], \<lparr>es_fit = PosInf, es_rerank = PosInf\<rparr>)] (Fin (1 / 5)) (Fin (3 / 10)) {}
     \<lparr>lo_branch = None, lo_records = []\<rparr> (sample_skill [7]) = None"
  using nonfinite_estimates [of "[([7], \<lparr>es_fit = PosInf, es_rerank = PosInf\<rparr>)]" "sample_skill [7]"
      "\<lparr>es_fit = PosInf, es_rerank = PosInf\<rparr>" "{}" "\<lparr>lo_branch = None, lo_records = []\<rparr>" "1 / 5" "3 / 10"]
  by (simp add: sample_skill_def bt_get_def proven_loaded_def)

end
