(* ===== verification/Redaction.thy ===== *)
theory Redaction
  imports Str_Text "HOL-Library.Product_Lexorder" "HOL-Library.Code_Target_Nat"
begin

text \<open>
  Model of \<open>src/src/privacy/redaction.rs\<close>: the replacement of secret spans in a field, excerpts of a
  redacted field, and the inspection of a serialized payload. The regular expressions are the
  third-party part: a \<open>Scanner\<close> gives their matches as byte ranges, and the JSON decoder is an
  argument. Offsets are byte offsets, as in the source; a slice off a character boundary panics, which
  is \<open>None\<close> in the outermost option of the results.
\<close>

section \<open>Constants\<close>

definition REDACTION_MARKER :: str where "REDACTION_MARKER = scalars ''[REDACTED]''"

definition EXCERPT_JOIN :: str where "EXCERPT_JOIN = [32, 8230, 32]"

definition MAX_REDACTED_FIELD_BYTES :: nat where "MAX_REDACTED_FIELD_BYTES = 1048576"

definition MAX_REDACTED_EXCERPT_SCALARS :: nat where "MAX_REDACTED_EXCERPT_SCALARS = 12000"

definition MAX_INSPECTED_PAYLOAD_BYTES :: nat where "MAX_INSPECTED_PAYLOAD_BYTES = 98304"

definition MAX_INSPECTED_PAYLOAD_DEPTH :: nat where "MAX_INSPECTED_PAYLOAD_DEPTH = 64"

section \<open>Cutting redacted text\<close>

text \<open>\<open>match_indices\<close> of the marker: the text before and after each match, left to right.\<close>

function marker_matches :: "str \<Rightarrow> str \<Rightarrow> (str \<times> str) list" where
  "marker_matches before [] = []"
| "marker_matches before (c # cs) =
     (if starts_with (c # cs) REDACTION_MARKER
      then (before, drop 10 (c # cs)) # marker_matches (before @ REDACTION_MARKER) (drop 10 (c # cs))
      else marker_matches (before @ [c]) cs)"
  by pat_completeness auto
termination by (relation "measure (\<lambda>(b, r). length r)") auto

definition is_quote :: "scalar \<Rightarrow> bool" where "is_quote c \<longleftrightarrow> c = 34 \<or> c = 39"

text \<open>Where a match of the marker ends, with the quote that closes a quoted one.\<close>

definition marker_end :: "str \<Rightarrow> str \<Rightarrow> nat" where
  "marker_end before after =
     (let e = str_len before + str_len REDACTION_MARKER in
      if before \<noteq> [] \<and> after \<noteq> [] \<and> is_quote (last before) \<and> hd after = last before then e + 1 else e)"

definition marker_lead :: "str \<Rightarrow> str" where
  "marker_lead before = trim_end_matches (\<lambda>c. is_whitespace c \<or> is_quote c) before"

fun head_end_loop :: "(str \<times> str) list \<Rightarrow> nat \<Rightarrow> nat \<Rightarrow> nat" where
  "head_end_loop [] at limit = at"
| "head_end_loop ((before, after) # ms) at limit =
     (let end_at = marker_end before after; lead = marker_lead before in
      if at < str_len lead then at
      else if at < end_at then
        (if end_at \<le> limit then end_at
         else case rfind_char is_whitespace lead of None \<Rightarrow> 0 | Some space \<Rightarrow> space + 1)
      else head_end_loop ms at limit)"

definition redacted_head_end :: "str \<Rightarrow> nat \<Rightarrow> nat \<Rightarrow> nat" where
  "redacted_head_end text at limit = head_end_loop (marker_matches [] text) at limit"

fun tail_start_loop :: "(str \<times> str) list \<Rightarrow> nat \<Rightarrow> nat" where
  "tail_start_loop [] at = at"
| "tail_start_loop ((before, after) # ms) at =
     (let start = str_len before in
      if start \<ge> at then at
      else if at < start + str_len REDACTION_MARKER then start + str_len REDACTION_MARKER
      else tail_start_loop ms at)"

definition redacted_tail_start :: "str \<Rightarrow> nat \<Rightarrow> nat" where
  "redacted_tail_start text at = tail_start_loop (marker_matches [] text) at"

section \<open>Secret spans\<close>

datatype RedactionError =
    FieldTooLong | OutputTooLong | ExcerptTooLong | PayloadTooLong | InvalidPayload | SecretsDetected usize

type_synonym span = "nat \<times> nat"

text \<open>
  What the regular expressions find in a text: the AWS identifiers; for each match of the other patterns
  its first capture group, if it took part, and the whole match; the private key headers with their
  labels; the long tokens; whether the entropy of a token is above the threshold; and whether a key
  names a secret.
\<close>

record Scanner =
  sc_aws :: "str \<Rightarrow> span list"
  sc_captures :: "str \<Rightarrow> (span option \<times> span) list"
  sc_headers :: "str \<Rightarrow> (span \<times> str) list"
  sc_tokens :: "str \<Rightarrow> span list"
  sc_high_entropy :: "str \<Rightarrow> bool"
  sc_secret_key :: "str \<Rightarrow> bool"

definition is_word_byte :: "nat \<Rightarrow> bool" where
  "is_word_byte b \<longleftrightarrow> 65 \<le> b \<and> b \<le> 90 \<or> 48 \<le> b \<and> b \<le> 57"

definition aws_spans :: "Scanner \<Rightarrow> str \<Rightarrow> span list" where
  "aws_spans sc text =
     filter (\<lambda>(s, e). (s = 0 \<or> \<not> is_word_byte (str_bytes text ! (s - 1)))
       \<and> (e = str_len text \<or> \<not> is_word_byte (str_bytes text ! e))) (sc_aws sc text)"

definition inside_closing_quotes :: "str \<Rightarrow> span \<Rightarrow> span" where
  "inside_closing_quotes value found =
     (let bytes = str_bytes value in
      if length bytes > 2 \<and> is_quote (hd bytes) \<and> last bytes = hd bytes then (fst found + 1, snd found - 1)
      else found)"

fun capture_loop :: "str \<Rightarrow> (span option \<times> span) list \<Rightarrow> span list option" where
  "capture_loop text [] = Some []"
| "capture_loop text ((grp, whole) # cs) =
     (let found = (case grp of Some g \<Rightarrow> g | None \<Rightarrow> whole) in
      case slice text (fst found) (snd found) of
        None \<Rightarrow> None
      | Some value \<Rightarrow>
        map_option (\<lambda>spans.
          if trim_matches is_quote value \<noteq> REDACTION_MARKER then inside_closing_quotes value found # spans else spans)
          (capture_loop text cs))"

text \<open>The private key blocks: a header inside the block of an earlier one is skipped.\<close>

fun key_loop :: "str \<Rightarrow> nat \<Rightarrow> (span \<times> str) list \<Rightarrow> span list option" where
  "key_loop text covered [] = Some []"
| "key_loop text covered ((header, label) # hs) =
     (if fst header < covered then key_loop text covered hs
      else
        let footer = scalars ''-----END '' @ label @ scalars ''-----'' in
        case slice_from text (snd header) of
          None \<Rightarrow> None
        | Some rest \<Rightarrow>
          let covered' = (case find_str rest footer of
                Some offset \<Rightarrow> snd header + offset + str_len footer
              | None \<Rightarrow> str_len text) in
          map_option (\<lambda>spans. (fst header, covered') # spans) (key_loop text covered' hs))"

fun token_loop :: "Scanner \<Rightarrow> str \<Rightarrow> span list \<Rightarrow> span list option" where
  "token_loop sc text [] = Some []"
| "token_loop sc text (t # ts) =
     (case slice text (fst t) (snd t) of
        None \<Rightarrow> None
      | Some token \<Rightarrow>
        map_option (\<lambda>spans. if sc_high_entropy sc token then t # spans else spans) (token_loop sc text ts))"

definition raw_spans :: "Scanner \<Rightarrow> bool \<Rightarrow> str \<Rightarrow> span list option" where
  "raw_spans sc scan_entropy text =
     Option.bind (capture_loop text (sc_captures sc text)) (\<lambda>captures.
     Option.bind (key_loop text 0 (sc_headers sc text)) (\<lambda>keys.
     map_option (\<lambda>tokens. aws_spans sc text @ captures @ keys @ tokens)
       (if scan_entropy then token_loop sc text (sc_tokens sc text) else Some [])))"

text \<open>The in-place merge of the sorted spans: the spans kept so far, and one more.\<close>

definition merge_step :: "span list \<Rightarrow> span \<Rightarrow> span list" where
  "merge_step kept sp =
     (if kept \<noteq> [] \<and> fst sp < snd (last kept)
      then butlast kept @ [(fst (last kept), max (snd (last kept)) (snd sp))]
      else kept @ [sp])"

definition merged_spans :: "Scanner \<Rightarrow> bool \<Rightarrow> str \<Rightarrow> span list option" where
  "merged_spans sc scan_entropy text =
     map_option (\<lambda>spans. foldl merge_step [] (sort spans)) (raw_spans sc scan_entropy text)"

section \<open>Redacting a field\<close>

record RedactedField =
  rf_text :: str
  rf_redactions :: usize
  rf_omitted_scalars :: usize

record Redactor = rd_entropy :: bool

fun replace_loop :: "str \<Rightarrow> nat \<Rightarrow> span list \<Rightarrow> str option" where
  "replace_loop field cursor [] = slice_from field cursor"
| "replace_loop field cursor (sp # spans) =
     Option.bind (slice field cursor (fst sp)) (\<lambda>kept.
       map_option (\<lambda>rest. kept @ REDACTION_MARKER @ rest) (replace_loop field (snd sp) spans))"

definition redact_field :: "Scanner \<Rightarrow> Redactor \<Rightarrow> str \<Rightarrow> (RedactedField, RedactionError) result option" where
  "redact_field sc r field =
     (if str_len field > MAX_REDACTED_FIELD_BYTES then Some (Err FieldTooLong)
      else
        case merged_spans sc (rd_entropy r) field of
          None \<Rightarrow> None
        | Some spans \<Rightarrow>
          let removed = sum_list (map (\<lambda>sp. snd sp - fst sp) spans);
              output_len = str_len field - removed + length spans * str_len REDACTION_MARKER in
          if output_len > MAX_REDACTED_FIELD_BYTES then Some (Err OutputTooLong)
          else map_option (\<lambda>text. Ok \<lparr>rf_text = text, rf_redactions = length spans, rf_omitted_scalars = 0\<rparr>)
                 (replace_loop field 0 spans))"

text \<open>The cut of a redacted text that is longer than the limit.\<close>

definition excerpt_cut :: "str \<Rightarrow> nat \<Rightarrow> (nat \<times> nat) option" where
  "excerpt_cut text max_scalars =
     (let total = length text; join = length EXCERPT_JOIN in
      if max_scalars \<le> join
      then let e = byte_at text max_scalars in Some (redacted_head_end text e e, str_len text)
      else
        let budget = max_scalars - join;
            head_end = redacted_head_end text (byte_at text ((budget + 1) div 2)) (byte_at text budget) in
        map_option (\<lambda>h.
          let tail_chars = budget - length h;
              tail_start = redacted_tail_start text (byte_at text (total - tail_chars)) in
          (head_end, max tail_start head_end)) (slice_to text head_end))"

definition redact_field_excerpt ::
  "Scanner \<Rightarrow> Redactor \<Rightarrow> str \<Rightarrow> nat \<Rightarrow> (RedactedField, RedactionError) result option" where
  "redact_field_excerpt sc r field max_scalars =
     (if max_scalars > MAX_REDACTED_EXCERPT_SCALARS then Some (Err ExcerptTooLong)
      else
        case redact_field sc r field of
          None \<Rightarrow> None
        | Some (Err e) \<Rightarrow> Some (Err e)
        | Some (Ok result) \<Rightarrow>
          let text = rf_text result in
          if length text \<le> max_scalars then Some (Ok result)
          else
            Option.bind (excerpt_cut text max_scalars) (\<lambda>(head_end, tail_start).
            Option.bind (slice text head_end tail_start) (\<lambda>omitted.
            Option.bind (slice_to text head_end) (\<lambda>h.
            map_option (\<lambda>tail. Ok (result\<lparr>rf_omitted_scalars := length omitted,
                rf_text := h @ (if tail_start < str_len text then EXCERPT_JOIN else []) @ tail\<rparr>))
              (slice_from text tail_start)))))"

section \<open>Inspecting a payload\<close>

datatype Value = Null | Bool bool | Number str | String str | Array "Value list" | Object "(str \<times> Value) list"

text \<open>
  \<open>inspect_value\<close>: the number of detections and the strings counted so far; \<open>None\<close> in the
  inner option is the refused depth.
\<close>

fun inspect_value :: "Scanner \<Rightarrow> Redactor \<Rightarrow> Value \<Rightarrow> nat \<Rightarrow> bool \<Rightarrow> usize \<Rightarrow> (usize \<times> usize) option option"
  and inspect_array :: "Scanner \<Rightarrow> Redactor \<Rightarrow> Value list \<Rightarrow> nat \<Rightarrow> bool \<Rightarrow> usize \<times> usize \<Rightarrow> (usize \<times> usize) option option"
  and inspect_object :: "Scanner \<Rightarrow> Redactor \<Rightarrow> (str \<times> Value) list \<Rightarrow> nat \<Rightarrow> bool \<Rightarrow> usize \<times> usize \<Rightarrow> (usize \<times> usize) option option" where
  "inspect_value sc r v depth sensitive strings =
     (if depth > MAX_INSPECTED_PAYLOAD_DEPTH then Some None
      else
        case v of
          String text \<Rightarrow>
            if sensitive \<and> text \<noteq> [] \<and> text \<noteq> REDACTION_MARKER then Some (Some (1, strings + 1))
            else map_option (\<lambda>spans. Some (length spans, strings + 1)) (merged_spans sc (rd_entropy r) text)
        | Array vs \<Rightarrow> inspect_array sc r vs depth sensitive (0, strings)
        | Object kvs \<Rightarrow> inspect_object sc r kvs depth sensitive (0, strings)
        | Bool _ \<Rightarrow> Some (Some (if sensitive then 1 else 0, strings))
        | Number _ \<Rightarrow> Some (Some (if sensitive then 1 else 0, strings))
        | Null \<Rightarrow> Some (Some (0, strings)))"
| "inspect_array sc r [] depth sensitive acc = Some (Some acc)"
| "inspect_array sc r (v # vs) depth sensitive acc =
     (case inspect_value sc r v (depth + 1) sensitive (snd acc) of
        None \<Rightarrow> None
      | Some None \<Rightarrow> Some None
      | Some (Some (n, strings)) \<Rightarrow> inspect_array sc r vs depth sensitive (fst acc + n, strings))"
| "inspect_object sc r [] depth sensitive acc = Some (Some acc)"
| "inspect_object sc r ((k, v) # kvs) depth sensitive acc =
     (case merged_spans sc (rd_entropy r) k of
        None \<Rightarrow> None
      | Some spans \<Rightarrow>
        (case inspect_value sc r v (depth + 1) (sensitive \<or> sc_secret_key sc k) (snd acc + 1) of
           None \<Rightarrow> None
         | Some None \<Rightarrow> Some None
         | Some (Some (n, strings)) \<Rightarrow>
             inspect_object sc r kvs depth sensitive (fst acc + length spans + n, strings)))"

record PayloadInspection = pi_strings_inspected :: usize

text \<open>\<open>decode\<close> is the bounded JSON decoder with its check for trailing data.\<close>

definition inspect_payload ::
  "Scanner \<Rightarrow> Redactor \<Rightarrow> (nat list \<Rightarrow> Value option) \<Rightarrow> nat list
     \<Rightarrow> (PayloadInspection, RedactionError) result option" where
  "inspect_payload sc r decode payload =
     (if length payload > MAX_INSPECTED_PAYLOAD_BYTES then Some (Err PayloadTooLong)
      else
        case decode payload of
          None \<Rightarrow> Some (Err InvalidPayload)
        | Some v \<Rightarrow>
          map_option (\<lambda>r. case r of
             None \<Rightarrow> Err InvalidPayload
           | Some (detections, strings) \<Rightarrow>
               if detections \<noteq> 0 then Err (SecretsDetected detections) else Ok \<lparr>pi_strings_inspected = strings\<rparr>)
            (inspect_value sc r v 0 False 0))"

section \<open>Boundaries\<close>

definition boundary :: "str \<Rightarrow> nat \<Rightarrow> bool" where
  "boundary text n \<longleftrightarrow> (\<exists>p q. text = p @ q \<and> str_len p = n)"

definition span_ok :: "str \<Rightarrow> span \<Rightarrow> bool" where
  "span_ok text sp \<longleftrightarrow> boundary text (fst sp) \<and> boundary text (snd sp) \<and> fst sp \<le> snd sp"

lemma boundary_ends [simp]: "boundary text 0" "boundary text (str_len text)"
  unfolding boundary_def by (rule exI [of _ "[]"], simp) (rule exI [of _ "text"], simp)

lemma boundary_byte_at [simp]: "boundary text (byte_at text n)"
  unfolding boundary_def byte_at_def by (metis append_take_drop_id)

lemma slice_to_boundary: "slice_to text n \<noteq> None \<longleftrightarrow> boundary text n"
  using slice_to_iff [of "text" n] by (auto simp: boundary_def)

lemma slice_span_ok: "span_ok text (a, b) \<Longrightarrow> \<exists>m. slice text a b = Some m"
proof -
  assume "span_ok text (a, b)"
  then have "boundary text a" "boundary text b" "a \<le> b" by (simp_all add: span_ok_def)
  from this(1) obtain p q where p: "text = p @ q" "str_len p = a" unfolding boundary_def by blast
  from \<open>boundary text b\<close> obtain p' q' where p': "text = p' @ q'" "str_len p' = b" unfolding boundary_def by blast
  have "p @ q = p' @ q'" "str_len p \<le> str_len p'" using p p' \<open>a \<le> b\<close> by simp_all
  then obtain m where "p' = p @ m" using prefix_by_len by blast
  then have "slice text a b = Some m" unfolding slice_iff using p p' by (intro exI [of _ p] exI [of _ q']) simp
  then show ?thesis by blast
qed

text \<open>The documented behaviour of the matchers: every range lies in the text, on character boundaries.\<close>

definition scanner_ok :: "Scanner \<Rightarrow> str \<Rightarrow> bool" where
  "scanner_ok sc text \<longleftrightarrow>
     list_all (span_ok text) (sc_aws sc text)
     \<and> list_all (\<lambda>(g, w). span_ok text w \<and> (case g of Some sp \<Rightarrow> span_ok text sp | None \<Rightarrow> True)) (sc_captures sc text)
     \<and> list_all (\<lambda>(h, l). span_ok text h) (sc_headers sc text)
     \<and> list_all (span_ok text) (sc_tokens sc text)"

lemma quote_bytes:
  assumes "is_quote (hd (str_bytes v))" "v \<noteq> []"
  shows "\<exists>cs. v = hd (str_bytes v) # cs"
proof -
  obtain c cs where v: "v = c # cs" using assms(2) by (cases v) auto
  have "c < 128" using assms(1) unfolding v str_bytes_def utf8_encode_def is_quote_def
    by (auto split: if_splits)
  then show ?thesis using v by (simp add: str_bytes_def utf8_encode_def)
qed

lemma quote_bytes_last:
  assumes "is_quote (last (str_bytes v))" "v \<noteq> []"
  shows "\<exists>cs. v = cs @ [last (str_bytes v)]"
proof -
  obtain c cs where v: "v = cs @ [c]" using assms(2) by (cases v rule: rev_cases) auto
  have "utf8_encode c \<noteq> []" by (simp add: utf8_encode_def)
  then have l: "last (str_bytes v) = last (utf8_encode c)" by (simp add: v str_bytes_def)
  have "c < 128" using assms(1) unfolding l utf8_encode_def is_quote_def by (auto split: if_splits)
  then show ?thesis using v l by (simp add: utf8_encode_def)
qed

lemma inside_closing_quotes_ok:
  assumes sp: "span_ok text sp" and v: "slice text (fst sp) (snd sp) = Some v"
  shows "span_ok text (inside_closing_quotes v sp)"
proof (cases "length (str_bytes v) > 2 \<and> is_quote (hd (str_bytes v)) \<and> last (str_bytes v) = hd (str_bytes v)")
  case True
  then have "v \<noteq> []" by (auto simp: str_bytes_def)
  obtain cs where c: "v = hd (str_bytes v) # cs" using quote_bytes True \<open>v \<noteq> []\<close> by blast
  obtain ds where d: "v = ds @ [last (str_bytes v)]" using quote_bytes_last True \<open>v \<noteq> []\<close> by metis
  define x where "x = hd (str_bytes v)"
  have "str_len v > 2" using True by (simp add: str_len_bytes)
  have x: "utf8_len x = 1" using True by (auto simp: x_def utf8_len_def is_quote_def)
  have v1: "v = x # cs" "v = ds @ [x]" using c d True by (simp_all add: x_def)
  then obtain es where es: "v = x # es @ [x]" using \<open>str_len v > 2\<close> x by (cases ds) auto
  obtain p q where t: "text = p @ v @ q" "str_len p = fst sp" "str_len (p @ v) = snd sp"
    using v by (auto simp: slice_iff)
  have "boundary text (fst sp + 1)" "boundary text (snd sp - 1)"
    unfolding boundary_def using t es x
    by (intro exI [of _ "p @ [x]"] exI [of _ "es @ [x] @ q"], simp)
       (intro exI [of _ "p @ x # es"] exI [of _ "[x] @ q"], use t es x in simp)
  moreover have "fst sp + 1 \<le> snd sp - 1" using t es x by simp
  ultimately show ?thesis using True by (simp add: inside_closing_quotes_def span_ok_def Let_def)
next
  case False
  then show ?thesis using sp by (auto simp: inside_closing_quotes_def Let_def)
qed

lemma capture_loop_ok:
  assumes "list_all (\<lambda>(g, w). span_ok text w \<and> (case g of Some sp \<Rightarrow> span_ok text sp | None \<Rightarrow> True)) cs"
  shows "\<exists>spans. capture_loop text cs = Some spans \<and> list_all (span_ok text) spans"
  using assms
proof (induction cs)
  case (Cons c cs)
  obtain g w where c: "c = (g, w)" by (cases c)
  let ?f = "case g of Some sp \<Rightarrow> sp | None \<Rightarrow> w"
  have ok: "span_ok text ?f" using Cons.prems c by (cases g) auto
  then obtain v where v: "slice text (fst ?f) (snd ?f) = Some v" using slice_span_ok [of "text" "fst ?f" "snd ?f"] by auto
  obtain spans where "capture_loop text cs = Some spans" "list_all (span_ok text) spans"
    using Cons by auto
  then show ?case
    using v inside_closing_quotes_ok [OF ok v] by (cases "trim_matches is_quote v = REDACTION_MARKER") (simp_all add: c Let_def)
qed simp

lemma find_str_iff_prefix: "find_str s p = Some n \<Longrightarrow> \<exists>a b. s = a @ p @ b \<and> str_len a = n"
proof (induction s p arbitrary: n rule: find_str.induct)
  case (2 c cs p)
  show ?case
  proof (cases "starts_with (c # cs) p")
    case True
    then have "c # cs = [] @ p @ drop (length p) (c # cs)" unfolding starts_with_def by (metis append_Nil append_take_drop_id)
    moreover have "n = 0" using 2(2) True by simp
    ultimately show ?thesis by (metis str_len_simps(1))
  next
    case False
    then obtain m where m: "find_str cs p = Some m" "n = m + utf8_len c" using 2(2) by auto
    obtain a b where "cs = a @ p @ b" "str_len a = m" using 2(1) [OF False m(1)] by blast
    then show ?thesis using m(2) by (intro exI [of _ "c # a"] exI [of _ b]) auto
  qed
qed (auto split: if_splits)

lemma key_loop_ok:
  assumes "list_all (\<lambda>(h, l). span_ok text h) hs"
  shows "\<exists>spans. key_loop text covered hs = Some spans \<and> list_all (span_ok text) spans"
  using assms
proof (induction hs arbitrary: covered)
  case (Cons x hs)
  obtain h l where x: "x = (h, l)" by (cases x)
  have ok: "span_ok text h" and rest: "list_all (\<lambda>(h, l). span_ok text h) hs" using Cons.prems x by auto
  show ?case
  proof (cases "fst h < covered")
    case True
    then show ?thesis using Cons.IH [OF rest] x by simp
  next
    case False
    obtain p r where r: "text = p @ r" "str_len p = snd h" using ok by (auto simp: span_ok_def boundary_def)
    then have slice: "slice_from text (snd h) = Some r" by (auto simp: slice_from_iff)
    let ?footer = "scalars ''-----END '' @ l @ scalars ''-----''"
    define c where "c = (case find_str r ?footer of Some offset \<Rightarrow> snd h + offset + str_len ?footer | None \<Rightarrow> str_len text)"
    have "span_ok text (fst h, c)"
    proof (cases "find_str r ?footer")
      case None
      then have "c = str_len text" by (simp add: c_def)
      moreover have "snd h \<le> str_len text" using r by simp
      ultimately show ?thesis using ok unfolding span_ok_def by simp
    next
      case (Some n)
      then obtain a b where ab: "r = a @ ?footer @ b" "str_len a = n" using find_str_iff_prefix by blast
      have "boundary text c" unfolding boundary_def c_def using Some ab r
        by (intro exI [of _ "p @ a @ ?footer"] exI [of _ b]) simp
      then show ?thesis using ok Some by (auto simp: span_ok_def c_def)
    qed
    moreover obtain spans where "key_loop text c hs = Some spans" "list_all (span_ok text) spans"
      using Cons.IH [OF rest] by blast
    ultimately show ?thesis using False x slice by (simp add: c_def Let_def)
  qed
qed simp

lemma token_loop_ok:
  assumes "list_all (span_ok text) ts"
  shows "\<exists>spans. token_loop sc text ts = Some spans \<and> list_all (span_ok text) spans"
  using assms
proof (induction ts)
  case (Cons t ts)
  then obtain m where "slice text (fst t) (snd t) = Some m" using slice_span_ok [of "text" "fst t" "snd t"] by auto
  moreover obtain spans where "token_loop sc text ts = Some spans" "list_all (span_ok text) spans" using Cons by auto
  ultimately show ?case using Cons.prems by (cases "sc_high_entropy sc m") auto
qed simp

lemma raw_spans_ok:
  assumes "scanner_ok sc text"
  shows "\<exists>spans. raw_spans sc ent text = Some spans \<and> list_all (span_ok text) spans"
proof -
  have aws: "list_all (span_ok text) (aws_spans sc text)"
    using assms by (auto simp: scanner_ok_def aws_spans_def list_all_iff)
  obtain cs ks ts where "capture_loop text (sc_captures sc text) = Some cs" "list_all (span_ok text) cs"
      "key_loop text 0 (sc_headers sc text) = Some ks" "list_all (span_ok text) ks"
      "token_loop sc text (sc_tokens sc text) = Some ts" "list_all (span_ok text) ts"
    using capture_loop_ok key_loop_ok token_loop_ok assms unfolding scanner_ok_def by metis
  then show ?thesis using aws by (simp add: raw_spans_def)
qed

section \<open>Merging and replacing\<close>

definition covers :: "span list \<Rightarrow> nat \<Rightarrow> bool" where
  "covers spans at \<longleftrightarrow> (\<exists>sp\<in>set spans. fst sp \<le> at \<and> at < snd sp)"

definition apart :: "span list \<Rightarrow> bool" where
  "apart spans \<longleftrightarrow> sorted_wrt (\<lambda>a b. snd a \<le> fst b) spans \<and> list_all (\<lambda>sp. fst sp \<le> snd sp) spans"

lemma covers_simps [simp]: "covers [] at = False" "covers (sp # spans) at = ((fst sp \<le> at \<and> at < snd sp) \<or> covers spans at)"
  "covers (a @ b) at = (covers a at \<or> covers b at)"
  by (auto simp: covers_def)

definition span_ends :: "span list \<Rightarrow> nat set" where
  "span_ends spans = (\<Union>sp\<in>set spans. {fst sp, snd sp})"

lemma span_ends_simps [simp]: "span_ends [] = {}" "span_ends (sp # spans) = {fst sp, snd sp} \<union> span_ends spans"
  "span_ends (a @ b) = span_ends a \<union> span_ends b"
  by (auto simp: span_ends_def)

lemma span_ok_list: "list_all (span_ok text) spans \<longleftrightarrow>
    (\<forall>x\<in>span_ends spans. boundary text x) \<and> list_all (\<lambda>sp. fst sp \<le> snd sp) spans"
  by (auto simp: list_all_iff span_ok_def span_ends_def)

lemma merge_step_spec:
  assumes "apart kept" "\<forall>k\<in>set kept. fst k \<le> fst sp" "fst sp \<le> snd sp"
  shows "apart (merge_step kept sp)" "covers (merge_step kept sp) at \<longleftrightarrow> covers kept at \<or> covers [sp] at"
    "\<forall>k\<in>set (merge_step kept sp). fst k \<le> fst sp"
    "span_ends (merge_step kept sp) \<subseteq> span_ends (kept @ [sp])"
proof -
  have "apart (merge_step kept sp) \<and> (covers (merge_step kept sp) at \<longleftrightarrow> covers kept at \<or> covers [sp] at)
    \<and> (\<forall>k\<in>set (merge_step kept sp). fst k \<le> fst sp)
    \<and> span_ends (merge_step kept sp) \<subseteq> span_ends (kept @ [sp])"
  proof (cases kept rule: rev_cases)
    case Nil
    then show ?thesis using assms by (simp add: merge_step_def apart_def)
  next
    case (snoc ks k)
    show ?thesis
    proof (cases "fst sp < snd k")
      case True
      then show ?thesis using assms snoc
        by (auto simp: merge_step_def apart_def sorted_wrt_append max_def)
    next
      case False
      then have "\<forall>x\<in>set kept. snd x \<le> fst sp"
        using assms(1) snoc by (force simp: apart_def sorted_wrt_append)
      then show ?thesis using assms snoc False by (auto simp: merge_step_def apart_def sorted_wrt_append)
    qed
  qed
  then show "apart (merge_step kept sp)" "covers (merge_step kept sp) at \<longleftrightarrow> covers kept at \<or> covers [sp] at"
    "\<forall>k\<in>set (merge_step kept sp). fst k \<le> fst sp"
    "span_ends (merge_step kept sp) \<subseteq> span_ends (kept @ [sp])" by blast+
qed

lemma merge_spec:
  assumes "apart kept" "sorted spans" "list_all (\<lambda>sp. fst sp \<le> snd sp) spans"
    "\<forall>k\<in>set kept. \<forall>sp\<in>set spans. fst k \<le> fst sp"
  shows "apart (foldl merge_step kept spans) \<and> (\<forall>at. covers (foldl merge_step kept spans) at \<longleftrightarrow> covers (kept @ spans) at)
    \<and> span_ends (foldl merge_step kept spans) \<subseteq> span_ends (kept @ spans)"
  using assms
proof (induction spans arbitrary: kept)
  case (Cons sp spans)
  have pre: "\<forall>k\<in>set kept. fst k \<le> fst sp" "fst sp \<le> snd sp" using Cons.prems by auto
  note M = merge_step_spec [OF Cons.prems(1) pre]
  have starts: "\<forall>x\<in>set spans. fst sp \<le> fst x"
    using Cons.prems(2) by (auto simp: less_eq_prod_def)
  have "\<forall>k\<in>set (merge_step kept sp). \<forall>x\<in>set spans. fst k \<le> fst x" using M(3) starts order_trans by blast
  then have IH: "apart (foldl merge_step (merge_step kept sp) spans)
      \<and> (\<forall>at. covers (foldl merge_step (merge_step kept sp) spans) at \<longleftrightarrow> covers (merge_step kept sp @ spans) at)
      \<and> span_ends (foldl merge_step (merge_step kept sp) spans) \<subseteq> span_ends (merge_step kept sp @ spans)"
    using Cons.prems by (intro Cons.IH M(1)) auto
  have "span_ends (merge_step kept sp @ spans) \<subseteq> span_ends (kept @ sp # spans)"
    using M(4) by auto
  then show ?case using IH M(2) by auto
qed simp

lemma merged_spans_spec:
  assumes "scanner_ok sc text"
  shows "\<exists>raw m. raw_spans sc ent text = Some raw \<and> merged_spans sc ent text = Some m
    \<and> apart m \<and> list_all (span_ok text) m \<and> (\<forall>at. covers m at \<longleftrightarrow> covers raw at)"
proof -
  obtain raw where raw: "raw_spans sc ent text = Some raw" "list_all (span_ok text) raw"
    using raw_spans_ok [OF assms] by blast
  let ?m = "foldl merge_step [] (sort raw)"
  have ends: "list_all (\<lambda>sp. fst sp \<le> snd sp) (sort raw)" using raw(2) by (auto simp: list_all_iff span_ok_def)
  note M = merge_spec [of "[]" "sort raw", OF _ _ ends, simplified]
  have ap: "apart ?m" and cov: "covers ?m at \<longleftrightarrow> covers raw at" for at
    using M by (auto simp: apart_def covers_def)
  have "span_ends ?m \<subseteq> span_ends raw" using M by (auto simp: apart_def span_ends_def)
  then have "list_all (span_ok text) ?m" using ap raw(2) unfolding span_ok_list apart_def by blast
  then show ?thesis using raw(1) ap cov by (simp add: merged_spans_def)
qed

text \<open>The scalars of a text, from a byte offset on, whose offset is not covered.\<close>

fun uncovered :: "(nat \<Rightarrow> bool) \<Rightarrow> nat \<Rightarrow> str \<Rightarrow> str" where
  "uncovered P at [] = []"
| "uncovered P at (c # cs) = (if P at then [] else [c]) @ uncovered P (at + utf8_len c) cs"

fun with_markers :: "str list \<Rightarrow> str" where
  "with_markers [] = []"
| "with_markers [seg] = seg"
| "with_markers (seg # segs) = seg @ REDACTION_MARKER @ with_markers segs"

lemma uncovered_append: "uncovered P at (a @ b) = uncovered P at a @ uncovered P (at + str_len a) b"
  by (induction a arbitrary: at) (simp_all add: add.assoc)

lemma uncovered_cong:
  "(\<And>x. at \<le> x \<Longrightarrow> x < at + str_len a \<Longrightarrow> P x = Q x) \<Longrightarrow> uncovered P at a = uncovered Q at a"
proof (induction a arbitrary: at)
  case (Cons c a)
  have "P at = Q at" using utf8_len_positive [of c] by (intro Cons.prems) simp_all
  moreover have "uncovered P (at + utf8_len c) a = uncovered Q (at + utf8_len c) a"
    by (intro Cons.IH Cons.prems) simp_all
  ultimately show ?case by simp
qed simp

lemma uncovered_const: "uncovered (\<lambda>x. False) at a = a" "uncovered (\<lambda>x. True) at a = []"
  by (induction a arbitrary: at) simp_all

lemma with_markers_Cons: "segs \<noteq> [] \<Longrightarrow> with_markers (seg # segs) = seg @ REDACTION_MARKER @ with_markers segs"
  by (cases segs) simp_all

lemma with_markers_len:
  "segs \<noteq> [] \<Longrightarrow> str_len (with_markers segs) = str_len (concat segs) + (length segs - 1) * str_len REDACTION_MARKER"
proof (induction segs)
  case (Cons seg segs)
  then show ?case by (cases "segs = []") (simp_all add: with_markers_Cons, cases segs, simp_all)
qed simp

lemma replace_loop_spec:
  assumes "apart spans" "list_all (span_ok field) spans" "field = p @ q" "str_len p = cursor"
    "\<forall>sp\<in>set spans. cursor \<le> fst sp"
  shows "\<exists>segs. replace_loop field cursor spans = Some (with_markers segs) \<and> length segs = length spans + 1
    \<and> concat segs = uncovered (covers spans) cursor q
    \<and> str_len (concat segs) + sum_list (map (\<lambda>sp. snd sp - fst sp) spans) = str_len q"
  using assms
proof (induction spans arbitrary: cursor p q)
  case Nil
  have "slice_from field cursor = Some q" using Nil by (auto simp: slice_from_iff)
  then show ?case by (intro exI [of _ "[q]"]) (simp add: uncovered_const covers_def)
next
  case (Cons sp spans)
  have sp: "span_ok field (cursor, fst sp)" "span_ok field sp" "fst sp \<le> snd sp"
    using Cons.prems(2,3,4,5) unfolding span_ok_def boundary_def by auto
  obtain kept where kept: "slice field cursor (fst sp) = Some kept" using slice_span_ok [OF sp(1)] by blast
  obtain p1 q1 where "field = p1 @ kept @ q1" "str_len p1 = cursor" "str_len (p1 @ kept) = fst sp"
    using kept unfolding slice_iff by blast
  moreover have "p1 = p"
    using prefix_by_len [of p1 "kept @ q1" p q] calculation Cons.prems(3,4) by auto
  ultimately have q: "q = kept @ q1" "str_len (p @ kept) = fst sp" using Cons.prems(3) by auto
  obtain p2 r where p2: "field = p2 @ r" "str_len p2 = snd sp" using sp(2) unfolding span_ok_def boundary_def by auto
  have "(p @ kept) @ q1 = p2 @ r" using Cons.prems(3) p2(1) q(1) by simp
  then obtain mid where mid: "p2 = (p @ kept) @ mid" using prefix_by_len p2(2) q(2) sp(3) by metis
  have q1: "q1 = mid @ r" using \<open>(p @ kept) @ q1 = p2 @ r\<close> mid by simp
  have later: "\<forall>x\<in>set spans. snd sp \<le> fst x" using Cons.prems(1) by (simp add: apart_def)
  obtain segs where segs: "replace_loop field (snd sp) spans = Some (with_markers segs)" "length segs = length spans + 1"
      "concat segs = uncovered (covers spans) (snd sp) r"
      "str_len (concat segs) + sum_list (map (\<lambda>sp. snd sp - fst sp) spans) = str_len r"
    using Cons.IH [of p2 r "snd sp"] Cons.prems(1,2) p2 later by (auto simp: apart_def)
  have k: "uncovered (covers (sp # spans)) cursor kept = kept"
  proof -
    have "uncovered (covers (sp # spans)) cursor kept = uncovered (\<lambda>x. False) cursor kept"
    proof (rule uncovered_cong)
      fix x assume "x < cursor + str_len kept"
      then have "x < fst sp" using q(2) Cons.prems(4) by simp
      then show "covers (sp # spans) x = False" using later sp(3) by (fastforce simp: covers_def)
    qed
    then show ?thesis by (simp add: uncovered_const)
  qed
  have m: "uncovered (covers (sp # spans)) (fst sp) mid = []"
  proof -
    have "uncovered (covers (sp # spans)) (fst sp) mid = uncovered (\<lambda>x. True) (fst sp) mid"
      using p2(2) q(2) mid by (intro uncovered_cong) auto
    then show ?thesis by (simp add: uncovered_const)
  qed
  have rest: "uncovered (covers (sp # spans)) (snd sp) r = uncovered (covers spans) (snd sp) r"
    by (intro uncovered_cong) simp
  have offs: "cursor + str_len kept = fst sp" "fst sp + str_len mid = snd sp"
    using q(2) p2(2) mid Cons.prems(4) by auto
  have "uncovered (covers (sp # spans)) cursor q = kept @ concat segs"
    unfolding q(1) q1 uncovered_append offs k m rest segs(3) by simp
  moreover have "str_len (kept @ concat segs) + sum_list (map (\<lambda>sp. snd sp - fst sp) (sp # spans)) = str_len q"
    using segs(4) offs by (simp add: q(1) q1)
  moreover have "segs \<noteq> []" using segs(2) by auto
  ultimately show ?case
    using segs(1,2) kept by (intro exI [of _ "kept # segs"]) (simp add: with_markers_Cons del: covers_simps)
qed

lemma redact_field_parts:
  assumes ok: "scanner_ok sc field"
  shows "\<exists>raw (m :: span list) segs. raw_spans sc (rd_entropy r) field = Some raw \<and> length segs = length m + 1
    \<and> merged_spans sc (rd_entropy r) field = Some m \<and> replace_loop field 0 m = Some (with_markers segs)
    \<and> concat segs = uncovered (covers raw) 0 field
    \<and> redact_field sc r field = Some
        (if str_len field > MAX_REDACTED_FIELD_BYTES then Err FieldTooLong
         else if str_len (with_markers segs) > MAX_REDACTED_FIELD_BYTES then Err OutputTooLong
         else Ok \<lparr>rf_text = with_markers segs, rf_redactions = length m, rf_omitted_scalars = 0\<rparr>)"
proof -
  obtain raw m where m: "raw_spans sc (rd_entropy r) field = Some raw" "merged_spans sc (rd_entropy r) field = Some m"
      "apart m" "list_all (span_ok field) m" "\<forall>at. covers m at \<longleftrightarrow> covers raw at"
    using merged_spans_spec [OF ok] by blast
  have cov: "covers m = covers raw" using m(5) by blast
  obtain segs where segs: "replace_loop field 0 m = Some (with_markers segs)" "length segs = length m + 1"
      "concat segs = uncovered (covers raw) 0 field"
      "str_len (concat segs) + sum_list (map (\<lambda>sp. snd sp - fst sp) m) = str_len field"
    using replace_loop_spec [OF m(3,4), of "[]" field 0] cov by auto
  have len: "str_len field - sum_list (map (\<lambda>sp. snd sp - fst sp) m) + length m * str_len REDACTION_MARKER
      = str_len (with_markers segs)"
    using with_markers_len [of segs] segs(2,4) by (cases segs) auto
  have "redact_field sc r field = Some
        (if str_len field > MAX_REDACTED_FIELD_BYTES then Err FieldTooLong
         else if str_len (with_markers segs) > MAX_REDACTED_FIELD_BYTES then Err OutputTooLong
         else Ok \<lparr>rf_text = with_markers segs, rf_redactions = length m, rf_omitted_scalars = 0\<rparr>)"
    using m(2) segs(1) by (simp add: redact_field_def Let_def len)
  then show ?thesis using m(1,2) segs(1,2,3) by blast
qed

section \<open>Where the markers stand\<close>

text \<open>
  A marker stands where a span starts that is not inside an earlier one. Spans that overlap share a
  marker; spans that only touch have one each.
\<close>

definition marker_at :: "span list \<Rightarrow> nat \<Rightarrow> bool" where
  "marker_at spans at \<longleftrightarrow> (\<exists>sp\<in>set spans. fst sp = at) \<and> \<not> (\<exists>sp\<in>set spans. fst sp < at \<and> at < snd sp)"

text \<open>A text, from a byte offset on, with the covered scalars left out and the markers put in.\<close>

fun marked :: "(nat \<Rightarrow> bool) \<Rightarrow> (nat \<Rightarrow> bool) \<Rightarrow> nat \<Rightarrow> str \<Rightarrow> str" where
  "marked M P at [] = []"
| "marked M P at (c # cs) =
     (if M at then REDACTION_MARKER else []) @ (if P at then [] else [c]) @ marked M P (at + utf8_len c) cs"

text \<open>No expression matches, and no group captures, the empty text.\<close>

definition scanner_nonempty :: "Scanner \<Rightarrow> str \<Rightarrow> bool" where
  "scanner_nonempty sc text \<longleftrightarrow>
     list_all (\<lambda>sp. fst sp < snd sp) (sc_aws sc text)
     \<and> list_all (\<lambda>(g, w). fst w < snd w \<and> (case g of Some sp \<Rightarrow> fst sp < snd sp | None \<Rightarrow> True)) (sc_captures sc text)
     \<and> list_all (\<lambda>(h, l). fst h < snd h) (sc_headers sc text)
     \<and> list_all (\<lambda>sp. fst sp < snd sp) (sc_tokens sc text)"

lemma inside_closing_quotes_nonempty:
  assumes "slice text (fst sp) (snd sp) = Some v" "fst sp < snd sp"
  shows "fst (inside_closing_quotes v sp) < snd (inside_closing_quotes v sp)"
proof -
  have "length (str_bytes v) = snd sp - fst sp" unfolding str_len_bytes using assms(1) by (auto simp: slice_iff)
  then show ?thesis using assms(2) by (auto simp: inside_closing_quotes_def Let_def)
qed

lemma capture_loop_nonempty:
  assumes "list_all (\<lambda>(g, w). fst w < snd w \<and> (case g of Some sp \<Rightarrow> fst sp < snd sp | None \<Rightarrow> True)) cs"
    "capture_loop text cs = Some spans"
  shows "list_all (\<lambda>sp. fst sp < snd sp) spans"
  using assms
proof (induction cs arbitrary: spans)
  case (Cons x cs)
  obtain g w where x: "x = (g, w)" by (cases x)
  define found where "found = (case g of Some sp \<Rightarrow> sp | None \<Rightarrow> w)"
  have ne: "fst found < snd found" using Cons.prems(1) x by (cases g) (auto simp: found_def)
  obtain v where v: "slice text (fst found) (snd found) = Some v"
    using Cons.prems(2) by (cases "slice text (fst found) (snd found)") (simp_all add: x found_def Let_def)
  obtain rest where r: "capture_loop text cs = Some rest"
      "spans = (if trim_matches is_quote v \<noteq> REDACTION_MARKER then inside_closing_quotes v found # rest else rest)"
    using Cons.prems(2) v by (auto simp: x found_def [symmetric] Let_def)
  then show ?case using Cons.IH [OF _ r(1)] Cons.prems(1) inside_closing_quotes_nonempty [OF v ne] by auto
qed simp

lemma key_loop_nonempty:
  assumes "list_all (\<lambda>(h, l). fst h < snd h) hs" "list_all (\<lambda>(h, l). span_ok text h) hs" "key_loop text covered hs = Some spans"
  shows "list_all (\<lambda>sp. fst sp < snd sp) spans"
  using assms
proof (induction hs arbitrary: covered spans)
  case (Cons x hs)
  obtain h l where x: "x = (h, l)" by (cases x)
  have h: "fst h < snd h" "snd h \<le> str_len text"
    using Cons.prems(1,2) x by (auto simp: span_ok_def boundary_def)
  show ?case
  proof (cases "fst h < covered")
    case True
    then show ?thesis using Cons x by auto
  next
    case False
    obtain r where r: "slice_from text (snd h) = Some r"
      using Cons.prems(3) False x by (cases "slice_from text (snd h)") simp_all
    define c where "c = (case find_str r (scalars ''-----END '' @ l @ scalars ''-----'') of
        Some n \<Rightarrow> snd h + n + str_len (scalars ''-----END '' @ l @ scalars ''-----'') | None \<Rightarrow> str_len text)"
    have "fst h < c" using h unfolding c_def by (auto split: option.split)
    moreover obtain rest where "key_loop text c hs = Some rest" "spans = (fst h, c) # rest"
      using Cons.prems(3) False r by (auto simp: x c_def Let_def)
    ultimately show ?thesis using Cons.IH [of c rest] Cons.prems(1,2) by auto
  qed
qed simp

lemma token_loop_nonempty:
  "token_loop sc text ts = Some spans \<Longrightarrow> list_all (\<lambda>sp. fst sp < snd sp) ts \<Longrightarrow> list_all (\<lambda>sp. fst sp < snd sp) spans"
  by (induction ts arbitrary: spans) (auto split: option.splits if_splits)

lemma raw_spans_nonempty:
  assumes "scanner_ok sc text" "scanner_nonempty sc text" "raw_spans sc ent text = Some raw"
  shows "list_all (\<lambda>sp. fst sp < snd sp) raw"
proof -
  obtain cs ks ts where parts: "capture_loop text (sc_captures sc text) = Some cs" "key_loop text 0 (sc_headers sc text) = Some ks"
      "(if ent then token_loop sc text (sc_tokens sc text) else Some []) = Some ts" "raw = aws_spans sc text @ cs @ ks @ ts"
    using assms(3) unfolding raw_spans_def by (auto simp: bind_eq_Some_conv)
  have "list_all (\<lambda>sp. fst sp < snd sp) (aws_spans sc text)"
    using assms(2) by (auto simp: scanner_nonempty_def aws_spans_def list_all_iff)
  moreover have "list_all (\<lambda>sp. fst sp < snd sp) cs"
    using capture_loop_nonempty [OF _ parts(1)] assms(2) unfolding scanner_nonempty_def by blast
  moreover have "list_all (\<lambda>sp. fst sp < snd sp) ks"
    using key_loop_nonempty [OF _ _ parts(2)] assms(1,2) unfolding scanner_nonempty_def scanner_ok_def by blast
  moreover have "list_all (\<lambda>sp. fst sp < snd sp) ts"
    using token_loop_nonempty parts(3) assms(2) unfolding scanner_nonempty_def by (cases ent) auto
  ultimately show ?thesis by (simp add: parts(4))
qed

lemma merge_step_covering:
  assumes "apart kept" "\<forall>k\<in>set kept. fst k \<le> fst sp"
  shows "kept \<noteq> [] \<and> fst sp < snd (last kept) \<longleftrightarrow> covers kept (fst sp)"
proof (cases kept rule: rev_cases)
  case (snoc ks k)
  have "\<forall>x\<in>set ks. snd x \<le> fst k" "fst k \<le> fst sp"
    using assms snoc by (simp_all add: apart_def sorted_wrt_append)
  then have "\<forall>x\<in>set ks. snd x \<le> fst sp" using order_trans by blast
  then have "\<not> covers ks (fst sp)" unfolding covers_def by auto
  then show ?thesis using assms(2) snoc by simp
qed simp

lemma merge_step_starts:
  assumes ap: "apart kept" and le: "\<forall>k\<in>set kept. fst k \<le> fst sp" and before: "\<forall>x\<in>set seen. fst x \<le> fst sp"
    and cov: "\<And>at. covers kept at = covers seen at" and starts: "fst ` set kept = {at. marker_at seen at}"
  shows "fst ` set (merge_step kept sp) = {at. marker_at (seen @ [sp]) at}"
proof -
  have other: "marker_at (seen @ [sp]) at = marker_at seen at" if "at \<noteq> fst sp" for at
  proof (cases "at < fst sp")
    case True
    then show ?thesis unfolding marker_at_def by simp
  next
    case False
    then have "\<forall>x\<in>set seen. fst x \<noteq> at" using before that by fastforce
    then show ?thesis using that unfolding marker_at_def by simp
  qed
  have self: "marker_at (seen @ [sp]) (fst sp) \<longleftrightarrow> \<not> (\<exists>x\<in>set seen. fst x < fst sp \<and> fst sp < snd x)"
    unfolding marker_at_def by auto
  show ?thesis
  proof (cases "covers kept (fst sp)")
    case True
    then have k: "kept \<noteq> []" "fst sp < snd (last kept)" using merge_step_covering [OF ap le] by blast+
    have "fst ` set (merge_step kept sp) = fst ` set kept"
    proof -
      have "merge_step kept sp = butlast kept @ [(fst (last kept), max (snd (last kept)) (snd sp))]"
        using k by (simp add: merge_step_def)
      then have "map fst (merge_step kept sp) = map fst (butlast kept @ [last kept])" by simp
      then show ?thesis using k(1) by (metis append_butlast_last_id list.set_map)
    qed
    moreover have "marker_at (seen @ [sp]) (fst sp) = marker_at seen (fst sp)"
    proof -
      obtain x where "x \<in> set seen" "fst x \<le> fst sp" "fst sp < snd x" using True cov unfolding covers_def by blast
      then show ?thesis unfolding self unfolding marker_at_def using le_less by fastforce
    qed
    then have "marker_at (seen @ [sp]) at = marker_at seen at" for at using other by (cases "at = fst sp") simp_all
    ultimately show ?thesis by (simp add: starts)
  next
    case False
    then have "merge_step kept sp = kept @ [sp]" using merge_step_covering [OF ap le] by (auto simp: merge_step_def)
    moreover have "marker_at (seen @ [sp]) (fst sp)" using False cov unfolding self covers_def by force
    then have "marker_at (seen @ [sp]) at \<longleftrightarrow> at = fst sp \<or> marker_at seen at" for at
      using other by (cases "at = fst sp") simp_all
    ultimately show ?thesis using starts by auto
  qed
qed

lemma merge_starts:
  assumes "apart kept" "sorted spans" "list_all (\<lambda>sp. fst sp < snd sp) spans" "list_all (\<lambda>sp. fst sp < snd sp) kept"
    "\<forall>k\<in>set (kept @ seen). \<forall>sp\<in>set spans. fst k \<le> fst sp"
    "\<And>at. covers kept at = covers seen at" "fst ` set kept = {at. marker_at seen at}"
  shows "fst ` set (foldl merge_step kept spans) = {at. marker_at (seen @ spans) at}
    \<and> list_all (\<lambda>sp. fst sp < snd sp) (foldl merge_step kept spans)"
  using assms
proof (induction spans arbitrary: kept seen)
  case (Cons sp spans)
  have pre: "\<forall>k\<in>set kept. fst k \<le> fst sp" "fst sp \<le> snd sp" "\<forall>x\<in>set seen. fst x \<le> fst sp" using Cons.prems(3,5) by auto
  note M = merge_step_spec [OF Cons.prems(1) pre(1,2)]
  have starts: "\<forall>x\<in>set spans. fst sp \<le> fst x" using Cons.prems(2) by (auto simp: less_eq_prod_def)
  have "list_all (\<lambda>sp. fst sp < snd sp) (merge_step kept sp)"
    using Cons.prems(3,4) by (cases kept rule: rev_cases) (auto simp: merge_step_def)
  moreover have "\<forall>k\<in>set (merge_step kept sp @ (seen @ [sp])). \<forall>x\<in>set spans. fst k \<le> fst x"
    using M(3) starts Cons.prems(5) by (auto intro: order_trans)
  moreover have "covers (merge_step kept sp) at = covers (seen @ [sp]) at" for at
    using M(2) Cons.prems(6) by simp
  ultimately show ?case
    using Cons.IH [of "merge_step kept sp" "seen @ [sp]"] M(1) Cons.prems(2,3)
      merge_step_starts [OF Cons.prems(1) pre(1,3) Cons.prems(6,7)] by simp
qed simp

lemma marked_append: "marked M P at (a @ b) = marked M P at a @ marked M P (at + str_len a) b"
  by (induction a arbitrary: at) (simp_all add: add.assoc)

lemma marked_cong:
  "(\<And>x. at \<le> x \<Longrightarrow> x < at + str_len a \<Longrightarrow> M x = M' x \<and> P x = P' x) \<Longrightarrow> marked M P at a = marked M' P' at a"
proof (induction a arbitrary: at)
  case (Cons c a)
  have "M at = M' at \<and> P at = P' at" using utf8_len_positive [of c] by (intro Cons.prems) simp_all
  moreover have "marked M P (at + utf8_len c) a = marked M' P' (at + utf8_len c) a"
    by (intro Cons.IH Cons.prems) simp_all
  ultimately show ?case by simp
qed simp

lemma marked_const: "marked (\<lambda>x. False) (\<lambda>x. False) at a = a" "marked (\<lambda>x. False) (\<lambda>x. True) at a = []"
  by (induction a arbitrary: at) simp_all

text \<open>The text of one merged span: the marker, and nothing of the span.\<close>

lemma marked_span:
  assumes "mid \<noteq> []" "M at" "\<And>x. at < x \<Longrightarrow> x < at + str_len mid \<Longrightarrow> \<not> M x"
    "\<And>x. at \<le> x \<Longrightarrow> x < at + str_len mid \<Longrightarrow> P x"
  shows "marked M P at mid = REDACTION_MARKER"
proof (cases mid)
  case (Cons c cs)
  have "P at" using assms(4) Cons utf8_len_positive [of c] by simp
  moreover have "marked M P (at + utf8_len c) cs = marked (\<lambda>x. False) (\<lambda>x. True) (at + utf8_len c) cs"
  proof (rule marked_cong)
    fix x assume "at + utf8_len c \<le> x" "x < at + utf8_len c + str_len cs"
    then have "at < x" "x < at + str_len mid" using utf8_len_positive [of c] by (linarith, simp add: Cons)
    then show "M x = False \<and> P x = True" using assms(3,4) by simp
  qed
  ultimately show ?thesis using assms(2) Cons by (simp add: marked_const)
qed (use assms(1) in simp)

lemma replace_loop_marked:
  assumes "apart spans" "list_all (\<lambda>sp. fst sp < snd sp) spans" "list_all (span_ok field) spans"
    "field = p @ q" "str_len p = cursor" "\<forall>sp\<in>set spans. cursor \<le> fst sp"
  shows "replace_loop field cursor spans = Some (marked (\<lambda>at. at \<in> fst ` set spans) (covers spans) cursor q)"
  using assms
proof (induction spans arbitrary: cursor p q)
  case Nil
  have "slice_from field cursor = Some q" using Nil by (auto simp: slice_from_iff)
  then show ?case by (simp add: marked_const covers_def)
next
  case (Cons sp spans)
  let ?M = "\<lambda>at. at \<in> fst ` set (sp # spans)" and ?P = "covers (sp # spans)"
  have sp: "span_ok field (cursor, fst sp)" "span_ok field sp" "fst sp < snd sp"
    using Cons.prems(2,3,4,5,6) unfolding span_ok_def boundary_def by auto
  obtain kept where kept: "slice field cursor (fst sp) = Some kept" using slice_span_ok [OF sp(1)] by blast
  obtain p1 q1 where cut1: "field = p1 @ kept @ q1" "str_len p1 = cursor" "str_len (p1 @ kept) = fst sp"
    using kept unfolding slice_iff by blast
  have "p1 = p" using prefix_by_len [of p1 "kept @ q1" p q] cut1 Cons.prems(4,5) by auto
  then have q: "q = kept @ q1" "str_len (p @ kept) = fst sp" using cut1 Cons.prems(4) by auto
  obtain p2 r where p2: "field = p2 @ r" "str_len p2 = snd sp" using sp(2) unfolding span_ok_def boundary_def by auto
  have eq: "(p @ kept) @ q1 = p2 @ r" using Cons.prems(4) p2(1) q(1) by simp
  then obtain mid where mid: "p2 = (p @ kept) @ mid" using prefix_by_len p2(2) q(2) sp(3) by (metis less_imp_le)
  have q1: "q1 = mid @ r" using eq mid by simp
  have offs: "cursor + str_len kept = fst sp" "fst sp + str_len mid = snd sp"
    using q(2) p2(2) mid Cons.prems(5) by auto
  have later: "\<forall>x\<in>set spans. snd sp \<le> fst x" using Cons.prems(1) by (simp add: apart_def)
  have rest: "replace_loop field (snd sp) spans = Some (marked (\<lambda>at. at \<in> fst ` set spans) (covers spans) (snd sp) r)"
    using Cons.IH [of p2 r "snd sp"] Cons.prems(1,2,3) p2 later by (auto simp: apart_def)
  have k: "marked ?M ?P cursor kept = kept"
  proof -
    have "marked ?M ?P cursor kept = marked (\<lambda>x. False) (\<lambda>x. False) cursor kept"
    proof (rule marked_cong)
      fix x assume "x < cursor + str_len kept"
      then have "x < fst sp" using offs(1) by simp
      then have "\<forall>y\<in>set (sp # spans). x < fst y" using later sp(3) by fastforce
      then show "?M x = False \<and> ?P x = False" unfolding covers_def by fastforce
    qed
    then show ?thesis by (simp add: marked_const)
  qed
  have m: "marked ?M ?P (fst sp) mid = REDACTION_MARKER"
  proof (rule marked_span)
    show "mid \<noteq> []" using offs(2) sp(3) by auto
    show "\<not> ?M x" if "fst sp < x" "x < fst sp + str_len mid" for x using that offs(2) later by fastforce
  qed (use offs(2) in auto)
  have t: "marked ?M ?P (snd sp) r = marked (\<lambda>at. at \<in> fst ` set spans) (covers spans) (snd sp) r"
    using sp(3) by (intro marked_cong) auto
  have "marked ?M ?P cursor q = kept @ REDACTION_MARKER @ marked (\<lambda>at. at \<in> fst ` set spans) (covers spans) (snd sp) r"
    unfolding q(1) q1 marked_append offs k m t by simp
  then show ?case using kept rest by (simp del: covers_simps)
qed

lemma merged_starts:
  assumes ok: "scanner_ok sc text" "scanner_nonempty sc text"
    and raw: "raw_spans sc ent text = Some raw" and m: "merged_spans sc ent text = Some m"
  shows "fst ` set m = {at. marker_at raw at}" "list_all (\<lambda>sp. fst sp < snd sp) m" "apart m \<Longrightarrow> length m = card {at. marker_at raw at}"
proof -
  have same: "m = foldl merge_step [] (sort raw)" using raw m by (simp add: merged_spans_def)
  have "list_all (\<lambda>sp. fst sp < snd sp) (sort raw)" using raw_spans_nonempty [OF ok raw] by (simp add: list_all_iff)
  then have S: "fst ` set m = {at. marker_at (sort raw) at} \<and> list_all (\<lambda>sp. fst sp < snd sp) m"
    using merge_starts [of "[]" "sort raw" "[]"] unfolding same by (simp add: apart_def marker_at_def)
  then show st: "fst ` set m = {at. marker_at raw at}" and ne: "list_all (\<lambda>sp. fst sp < snd sp) m"
    by (simp_all add: marker_at_def)
  show "length m = card {at. marker_at raw at}" if "apart m"
  proof -
    have "distinct (map fst m)" using that ne
      by (induction m) (fastforce simp: apart_def)+
    then show ?thesis unfolding st [symmetric] by (metis distinct_card length_map list.set_map)
  qed
qed

text \<open>
  C29. Redaction of a field is exact: for matchers that report non-empty ranges on character boundaries it never
  panics and refuses only by size. The text it returns is the field, scalar by scalar and in order, without the scalars
  that a reported secret covers, and with the marker at each place where a secret starts that is not inside an earlier
  one: secrets that overlap share one marker, secrets that only touch have one each. The count returned is the number
  of these places, and the length computed before the text is built is the length of the text.
\<close>

theorem redaction_exact:
  assumes "scanner_ok sc field" "scanner_nonempty sc field"
  shows "\<exists>raw. raw_spans sc (rd_entropy r) field = Some raw
    \<and> redact_field sc r field = Some
        (if str_len field > MAX_REDACTED_FIELD_BYTES then Err FieldTooLong
         else if str_len (marked (marker_at raw) (covers raw) 0 field) > MAX_REDACTED_FIELD_BYTES then Err OutputTooLong
         else Ok \<lparr>rf_text = marked (marker_at raw) (covers raw) 0 field,
                  rf_redactions = card {at. marker_at raw at}, rf_omitted_scalars = 0\<rparr>)"
proof -
  obtain raw m segs where P: "raw_spans sc (rd_entropy r) field = Some raw"
      "merged_spans sc (rd_entropy r) field = Some m" "replace_loop field 0 m = Some (with_markers segs)"
      "redact_field sc r field = Some
        (if str_len field > MAX_REDACTED_FIELD_BYTES then Err FieldTooLong
         else if str_len (with_markers segs) > MAX_REDACTED_FIELD_BYTES then Err OutputTooLong
         else Ok \<lparr>rf_text = with_markers segs, rf_redactions = length m, rf_omitted_scalars = 0\<rparr>)"
    using redact_field_parts [OF assms(1)] by blast
  have m: "apart m" "list_all (span_ok field) m" "covers m = covers raw"
    using merged_spans_spec [OF assms(1), of "rd_entropy r"] P(1,2) by auto
  note S = merged_starts [OF assms P(1,2)]
  have "with_markers segs = marked (marker_at raw) (covers raw) 0 field"
    using replace_loop_marked [OF m(1) S(2) m(2), of "[]" field 0] P(3) by (simp add: S(1) m(3))
  then show ?thesis using P(1,4) S(3) [OF m(1)] by auto
qed

section \<open>Excerpts\<close>

definition ascii_whitespace :: "str \<Rightarrow> bool" where
  "ascii_whitespace s \<longleftrightarrow> (\<forall>c\<in>set s. is_whitespace c \<longrightarrow> c < 128)"

lemma marker_len [simp]: "length REDACTION_MARKER = 10" "str_len REDACTION_MARKER = 10"
  by (simp_all add: REDACTION_MARKER_def scalars_def str_len_def utf8_len_def)

lemma marker_matches_spec: "(b, a) \<in> set (marker_matches before rest) \<Longrightarrow> before @ rest = b @ REDACTION_MARKER @ a"
proof (induction before rest rule: marker_matches.induct)
  case (2 before c cs)
  show ?case
  proof (cases "starts_with (c # cs) REDACTION_MARKER")
    case True
    then have split: "c # cs = REDACTION_MARKER @ drop 10 (c # cs)"
      unfolding starts_with_def by (metis append_take_drop_id marker_len(1))
    consider "(b, a) = (before, drop 10 (c # cs))"
      | "(b, a) \<in> set (marker_matches (before @ REDACTION_MARKER) (drop 10 (c # cs)))"
      using 2(3) True by auto
    then show ?thesis
    proof cases
      case 1
      then show ?thesis using split by simp
    next
      case 2: 2
      have "(before @ REDACTION_MARKER) @ drop 10 (c # cs) = b @ REDACTION_MARKER @ a"
        by (rule "2.IH"(1) [OF True 2])
      then show ?thesis using split by (metis append.assoc)
    qed
  next
    case False
    then show ?thesis using 2(2) [OF False] 2(3) by simp
  qed
qed simp

lemma rfind_char_spec:
  assumes "rfind_char P s = Some n"
  shows "\<exists>a c b. s = a @ c # b \<and> P c \<and> str_len a = n"
proof -
  obtain c r where d: "dropWhile (\<lambda>c. \<not> P c) (rev s) = c # r" "n = str_len (rev r)"
    using assms by (auto simp: rfind_char_def split: list.splits)
  then have "P c" using hd_dropWhile [of "\<lambda>c. \<not> P c" "rev s"] by simp
  have "rev s = takeWhile (\<lambda>c. \<not> P c) (rev s) @ c # r" using d(1) by (metis takeWhile_dropWhile_id)
  then have "s = rev r @ c # rev (takeWhile (\<lambda>c. \<not> P c) (rev s))"
    by (metis append.assoc append_Cons append_Nil rev.simps(2) rev_append rev_rev_ident)
  then show ?thesis using \<open>P c\<close> d(2) by blast
qed

lemma marker_lead_prefix: "\<exists>w. before = marker_lead before @ w"
proof -
  let ?P = "\<lambda>c. is_whitespace c \<or> is_quote c"
  have "before = rev (dropWhile ?P (rev before)) @ rev (takeWhile ?P (rev before))"
    by (metis rev_append rev_rev_ident takeWhile_dropWhile_id)
  then show ?thesis unfolding marker_lead_def trim_end_matches_def by blast
qed

lemma head_end_loop_spec:
  assumes "\<forall>(b, a)\<in>set ms. text = b @ REDACTION_MARKER @ a" "ascii_whitespace text" "boundary text at" "at \<le> limit"
  shows "boundary text (head_end_loop ms at limit) \<and> head_end_loop ms at limit \<le> limit"
  using assms
proof (induction ms)
  case (Cons x ms)
  obtain b a where x: "x = (b, a)" by (cases x)
  have t: "text = b @ REDACTION_MARKER @ a" using Cons.prems(1) x by simp
  have e: "boundary text (marker_end b a)"
  proof (cases "b \<noteq> [] \<and> a \<noteq> [] \<and> is_quote (last b) \<and> hd a = last b")
    case True
    then obtain q a' where "a = q # a'" "utf8_len q = 1" by (cases a) (auto simp: utf8_len_def is_quote_def)
    then show ?thesis unfolding boundary_def using t True
      by (intro exI [of _ "b @ REDACTION_MARKER @ [q]"] exI [of _ a']) (simp add: marker_end_def Let_def)
  next
    case False
    then show ?thesis unfolding boundary_def using t
      by (intro exI [of _ "b @ REDACTION_MARKER"] exI [of _ a]) (auto simp: marker_end_def Let_def)
  qed
  obtain w where w: "b = marker_lead b @ w" using marker_lead_prefix by blast
  have cut: "boundary text (n + 1) \<and> n + 1 \<le> str_len (marker_lead b)" if n: "rfind_char is_whitespace (marker_lead b) = Some n" for n
  proof -
    obtain u c v where u: "marker_lead b = u @ c # v" "is_whitespace c" "str_len u = n" using rfind_char_spec [OF n] by blast
    have t2: "text = (u @ [c]) @ v @ w @ REDACTION_MARKER @ a" using t w u(1) by (metis append.assoc append_Cons append_Nil)
    then have "c \<in> set text" by simp
    then have "utf8_len c = 1" using Cons.prems(2) u(2) by (auto simp: ascii_whitespace_def utf8_len_def)
    then show ?thesis unfolding boundary_def using u t2
      by (intro conjI exI [of _ "u @ [c]"] exI [of _ "v @ w @ REDACTION_MARKER @ a"]) simp_all
  qed
  have IH: "boundary text (head_end_loop ms at limit) \<and> head_end_loop ms at limit \<le> limit"
    using Cons.prems by (intro Cons.IH) auto
  show ?case
  proof (cases "at < str_len (marker_lead b)")
    case True
    then show ?thesis using Cons.prems x by (simp add: Let_def)
  next
    case False
    then show ?thesis using IH e cut Cons.prems(4) x
      by (cases "rfind_char is_whitespace (marker_lead b)") (auto simp: Let_def)
  qed
qed simp

lemma redacted_head_end_spec:
  assumes "ascii_whitespace text" "boundary text at" "at \<le> limit"
  shows "boundary text (redacted_head_end text at limit)" "redacted_head_end text at limit \<le> limit"
  using head_end_loop_spec [of "marker_matches [] text" "text" at limit] marker_matches_spec [of _ _ "[]" "text"] assms
  unfolding redacted_head_end_def by auto

lemma tail_start_loop_spec:
  assumes "\<forall>(b, a)\<in>set ms. text = b @ REDACTION_MARKER @ a" "boundary text at"
  shows "boundary text (tail_start_loop ms at) \<and> at \<le> tail_start_loop ms at"
  using assms
proof (induction ms)
  case (Cons x ms)
  obtain b a where x: "x = (b, a)" by (cases x)
  have "boundary text (str_len b + 10)" using Cons.prems(1) x unfolding boundary_def
    by (intro exI [of _ "b @ REDACTION_MARKER"] exI [of _ a]) simp
  then show ?case using Cons x by (auto simp: Let_def)
qed simp

lemma redacted_tail_start_spec:
  assumes "boundary text at"
  shows "boundary text (redacted_tail_start text at)" "at \<le> redacted_tail_start text at"
  using tail_start_loop_spec [of "marker_matches [] text" "text" at] marker_matches_spec [of _ _ "[]" "text"] assms
  unfolding redacted_tail_start_def by auto

text \<open>Cutting at a boundary before or after the first \<open>k\<close> scalars.\<close>

lemma slice_to_take:
  assumes "boundary text n" "n \<le> byte_at text k"
  shows "\<exists>h t. slice_to text n = Some h \<and> slice_from text n = Some t \<and> text = h @ t \<and> str_len h = n \<and> length h \<le> k"
proof -
  obtain h t where h: "text = h @ t" "str_len h = n" using assms(1) unfolding boundary_def by blast
  have "h @ t = take k text @ drop k text" using h(1) append_take_drop_id [of k "text"] by metis
  then have "length h \<le> length (take k text)" using prefix_len_less h(2) assms(2) unfolding byte_at_def by blast
  then show ?thesis using h by (auto simp: slice_to_iff slice_from_iff)
qed

lemma slice_from_drop:
  assumes "boundary text n" "byte_at text k \<le> n" "k \<le> length text"
  shows "\<exists>h t. slice_from text n = Some t \<and> text = h @ t \<and> str_len h = n \<and> length t \<le> length text - k"
proof -
  obtain h t where h: "text = h @ t" "str_len h = n" using assms(1) unfolding boundary_def by blast
  have "take k text @ drop k text = h @ t" using h(1) append_take_drop_id [of k "text"] by metis
  then have "length (take k text) \<le> length h" using prefix_len_less h(2) assms(2) unfolding byte_at_def by blast
  then have "length t \<le> length text - k" using h(1) assms(3) by (simp add: min_def split: if_splits)
  then show ?thesis using h by (intro exI [of _ h] exI [of _ t]) (auto simp: slice_from_iff)
qed

text \<open>The cut keeps a head and a tail that fit the limit together with the join.\<close>

lemma excerpt_cut_spec:
  assumes ws: "ascii_whitespace text" and long: "length text > max_scalars"
  shows "\<exists>head_end tail_start h mid tail. excerpt_cut text max_scalars = Some (head_end, tail_start)
    \<and> text = h @ mid @ tail \<and> str_len h = head_end \<and> str_len (h @ mid) = tail_start
    \<and> length h + length tail + (if tail_start < str_len text then length EXCERPT_JOIN else 0) \<le> max_scalars"
proof (cases "max_scalars \<le> length EXCERPT_JOIN")
  case True
  let ?e = "byte_at text max_scalars"
  obtain h t where h: "text = h @ t" "str_len h = redacted_head_end text ?e ?e" "length h \<le> max_scalars"
    using slice_to_take redacted_head_end_spec [OF ws, of ?e ?e] by force
  then show ?thesis using True
    by (intro exI [of _ "redacted_head_end text ?e ?e"] exI [of _ "str_len text"] exI [of _ h] exI [of _ t] exI [of _ "[]"])
      (simp add: excerpt_cut_def Let_def)
next
  case False
  define budget where "budget = max_scalars - length EXCERPT_JOIN"
  define head_end where "head_end = redacted_head_end text (byte_at text ((budget + 1) div 2)) (byte_at text budget)"
  have "(budget + 1) div 2 \<le> budget" using False by (simp add: budget_def)
  then have mono: "byte_at text ((budget + 1) div 2) \<le> byte_at text budget"
    unfolding byte_at_def by (metis add_leD1 append_take_drop_id le_add1 min.absorb1 str_len_simps(3) take_take)
  note H = redacted_head_end_spec [OF ws boundary_byte_at mono, folded head_end_def]
  obtain h t where h: "slice_to text head_end = Some h" "text = h @ t" "str_len h = head_end" "length h \<le> budget"
    using slice_to_take [OF H] by blast
  define k where "k = length text - (budget - length h)"
  define tail_start where "tail_start = max (redacted_tail_start text (byte_at text k)) head_end"
  have T: "boundary text tail_start" "byte_at text k \<le> tail_start"
    using redacted_tail_start_spec [of "text" "byte_at text k"] H(1) by (auto simp: tail_start_def max_def)
  obtain p tail where p: "text = p @ tail" "str_len p = tail_start" "length tail \<le> length text - k"
    using slice_from_drop [OF T] by (auto simp: k_def)
  have "h @ t = p @ tail" "str_len h \<le> str_len p" using h p by (auto simp: tail_start_def)
  then obtain mid where "p = h @ mid" using prefix_by_len by blast
  moreover have "excerpt_cut text max_scalars = Some (head_end, tail_start)"
    using False h(1) unfolding excerpt_cut_def Let_def budget_def [symmetric] head_end_def [symmetric]
    by (simp add: k_def tail_start_def)
  moreover have "length h + length tail + length EXCERPT_JOIN \<le> max_scalars"
    using h(4) p(3) False long by (auto simp: k_def budget_def)
  ultimately show ?thesis using p h(3)
    by (intro exI [of _ head_end] exI [of _ tail_start] exI [of _ h] exI [of _ mid] exI [of _ tail]) auto
qed

lemma uncovered_subset: "set (uncovered P at s) \<subseteq> set s"
  by (induction s arbitrary: at) (auto split: if_splits)

lemma with_markers_set: "set (with_markers segs) \<subseteq> set (concat segs) \<union> set REDACTION_MARKER"
proof (induction segs rule: with_markers.induct)
  case (3 seg seg' segs)
  then show ?case by (simp only: with_markers.simps set_append concat.simps) blast
qed simp_all

lemma redact_field_Ok:
  assumes "scanner_ok sc field" "redact_field sc r field = Some (Ok g)"
  shows "\<exists>raw segs. rf_text g = with_markers segs \<and> concat segs = uncovered (covers raw) 0 field \<and> rf_omitted_scalars g = 0"
proof -
  obtain raw segs and m :: "span list" where P: "concat segs = uncovered (covers raw) 0 field"
      "redact_field sc r field = Some
        (if str_len field > MAX_REDACTED_FIELD_BYTES then Err FieldTooLong
         else if str_len (with_markers segs) > MAX_REDACTED_FIELD_BYTES then Err OutputTooLong
         else Ok \<lparr>rf_text = with_markers segs, rf_redactions = length m, rf_omitted_scalars = 0\<rparr>)"
    using redact_field_parts [OF assms(1)] by blast
  have "g = \<lparr>rf_text = with_markers segs, rf_redactions = length m, rf_omitted_scalars = 0\<rparr>"
    using P(2) assms(2) by (auto split: if_splits)
  then show ?thesis using P(1) by auto
qed

lemma redacted_whitespace:
  assumes "scanner_ok sc field" "ascii_whitespace field" "redact_field sc r field = Some (Ok g)"
  shows "ascii_whitespace (rf_text g)"
proof -
  obtain raw segs where "rf_text g = with_markers segs" "concat segs = uncovered (covers raw) 0 field"
    using redact_field_Ok [OF assms(1,3)] by blast
  then have "set (rf_text g) \<subseteq> set field \<union> set REDACTION_MARKER"
    using with_markers_set [of segs] uncovered_subset by fastforce
  moreover have "\<forall>c\<in>set REDACTION_MARKER. c < 128" by (simp add: REDACTION_MARKER_def scalars_def)
  ultimately show ?thesis using assms(2) unfolding ascii_whitespace_def by blast
qed

text \<open>
  An excerpt never exceeds its limit and is a head and a tail of the redacted field: when every whitespace
  character of the field is ASCII, it never panics, it fails only when the redaction or the limit is refused, what it
  returns has at most the requested number of scalars, and it is the redacted text with one run of the reported
  length cut out and replaced by the visible join, or by nothing when the run reaches the end.
\<close>

theorem excerpt_bounded:
  assumes ok: "scanner_ok sc field" and ws: "ascii_whitespace field"
  shows "\<exists>res. redact_field_excerpt sc r field max_scalars = Some res
    \<and> (case res of
         Err e \<Rightarrow> e = ExcerptTooLong \<and> max_scalars > MAX_REDACTED_EXCERPT_SCALARS \<or> redact_field sc r field = Some (Err e)
       | Ok f \<Rightarrow> length (rf_text f) \<le> max_scalars
           \<and> (\<exists>g h mid tail. redact_field sc r field = Some (Ok g) \<and> rf_redactions f = rf_redactions g
              \<and> rf_text g = h @ mid @ tail \<and> length mid = rf_omitted_scalars f
              \<and> rf_text f = h @ (if mid = [] \<or> tail = [] then [] else EXCERPT_JOIN) @ tail))"
proof -
  obtain res0 where res0: "redact_field sc r field = Some res0"
    using redact_field_parts [OF ok, of r] by blast
  show ?thesis
  proof (cases "max_scalars > MAX_REDACTED_EXCERPT_SCALARS \<or> (\<exists>e. res0 = Err e)")
    case True
    then show ?thesis using res0 by (auto simp: redact_field_excerpt_def)
  next
    case False
    then obtain g where g: "res0 = Ok g" "\<not> max_scalars > MAX_REDACTED_EXCERPT_SCALARS" by (cases res0) auto
    have wsg: "ascii_whitespace (rf_text g)" using redacted_whitespace [OF ok ws] res0 g(1) by blast
    have om: "rf_omitted_scalars g = 0" using redact_field_Ok [OF ok] res0 g(1) by blast
    show ?thesis
    proof (cases "length (rf_text g) \<le> max_scalars")
      case True
      have "rf_text g = rf_text g @ [] @ [] \<and> length [] = rf_omitted_scalars g
          \<and> rf_text g = rf_text g @ (if [] = [] \<or> [] = [] then [] else EXCERPT_JOIN) @ []" using om by simp
      then show ?thesis using res0 g True
        by (intro exI [of _ res0]) (simp add: redact_field_excerpt_def Let_def, blast)
    next
      case False
      then obtain head_end tail_start h mid tail where C: "excerpt_cut (rf_text g) max_scalars = Some (head_end, tail_start)"
          "rf_text g = h @ mid @ tail" "str_len h = head_end" "str_len (h @ mid) = tail_start"
          "length h + length tail + (if tail_start < str_len (rf_text g) then length EXCERPT_JOIN else 0) \<le> max_scalars"
        using excerpt_cut_spec [OF wsg, of max_scalars] by auto
      have cuts: "slice (rf_text g) head_end tail_start = Some mid" "slice_to (rf_text g) head_end = Some h"
          "slice_from (rf_text g) tail_start = Some tail"
        using C(2,3,4) by (auto simp: slice_iff slice_to_iff slice_from_iff)
      have "mid \<noteq> []" using C(2,5) False by (auto split: if_splits)
      moreover have "tail_start < str_len (rf_text g) \<longleftrightarrow> tail \<noteq> []" using C(2,4) by (cases tail) auto
      ultimately show ?thesis using res0 g C cuts False
        by (intro exI [of _ "Ok (g\<lparr>rf_omitted_scalars := length mid,
              rf_text := h @ (if tail_start < str_len (rf_text g) then EXCERPT_JOIN else []) @ tail\<rparr>)"] conjI)
          (simp add: redact_field_excerpt_def Let_def, auto)
    qed
  qed
qed

section \<open>Inspection\<close>

text \<open>The reference: which values are clean, and which are shallow enough.\<close>

fun clean :: "Scanner \<Rightarrow> Redactor \<Rightarrow> bool \<Rightarrow> Value \<Rightarrow> bool" where
  "clean sc r sensitive Null = True"
| "clean sc r sensitive (Bool _) = (\<not> sensitive)"
| "clean sc r sensitive (Number _) = (\<not> sensitive)"
| "clean sc r sensitive (String text) =
     ((sensitive \<longrightarrow> text = [] \<or> text = REDACTION_MARKER) \<and> merged_spans sc (rd_entropy r) text = Some [])"
| "clean sc r sensitive (Array vs) = (\<forall>v\<in>set vs. clean sc r sensitive v)"
| "clean sc r sensitive (Object kvs) =
     (\<forall>kv\<in>set kvs. merged_spans sc (rd_entropy r) (fst kv) = Some []
        \<and> clean sc r (sensitive \<or> sc_secret_key sc (fst kv)) (snd kv))"

fun shallow :: "nat \<Rightarrow> Value \<Rightarrow> bool" where
  "shallow depth (Array vs) = (depth \<le> MAX_INSPECTED_PAYLOAD_DEPTH \<and> (\<forall>v\<in>set vs. shallow (depth + 1) v))"
| "shallow depth (Object kvs) =
     (depth \<le> MAX_INSPECTED_PAYLOAD_DEPTH \<and> (\<forall>kv\<in>set kvs. shallow (depth + 1) (snd kv)))"
| "shallow depth _ = (depth \<le> MAX_INSPECTED_PAYLOAD_DEPTH)"

definition inspects :: "(usize \<times> usize) option option \<Rightarrow> bool \<Rightarrow> bool \<Rightarrow> bool" where
  "inspects res fits ok \<longleftrightarrow> (if fits then \<exists>n strings. res = Some (Some (n, strings)) \<and> (n = 0 \<longleftrightarrow> ok) else res = Some None)"

lemma merged_spans_total: "scanner_ok sc text \<Longrightarrow> \<exists>m. merged_spans sc ent text = Some m"
  using merged_spans_spec by blast

lemma inspect_value_spec:
  "\<forall>text. scanner_ok sc text \<Longrightarrow>
    inspects (inspect_value sc r v depth sensitive strings) (shallow depth v) (clean sc r sensitive v)"
  "\<forall>text. scanner_ok sc text \<Longrightarrow>
    inspects (inspect_array sc r vs depth sensitive acc) (\<forall>v\<in>set vs. shallow (depth + 1) v)
      (fst acc = 0 \<and> (\<forall>v\<in>set vs. clean sc r sensitive v))"
  "\<forall>text. scanner_ok sc text \<Longrightarrow>
    inspects (inspect_object sc r kvs depth sensitive acc) (\<forall>kv\<in>set kvs. shallow (depth + 1) (snd kv))
      (fst acc = 0 \<and> clean sc r sensitive (Object kvs))"
proof (induction sc r v depth sensitive strings and sc r vs depth sensitive acc and sc r kvs depth sensitive acc
    rule: inspect_value_inspect_array_inspect_object.induct)
  case (1 sc r v depth sensitive strings)
  show ?case
  proof (cases "depth > MAX_INSPECTED_PAYLOAD_DEPTH")
    case True
    then show ?thesis by (cases v) (simp_all add: inspects_def)
  next
    case False
    show ?thesis
    proof (cases v)
      case (String t)
      obtain m where "merged_spans sc (rd_entropy r) t = Some m" using merged_spans_total 1(3) by blast
      then show ?thesis using String False by (auto simp: inspects_def)
    next
      case (Array vs)
      then show ?thesis using 1(1) [OF False Array 1(3)] False by (simp add: inspects_def)
    next
      case (Object kvs)
      then show ?thesis using 1(2) [OF False Object 1(3)] False by (simp add: inspects_def)
    qed (use False in \<open>simp_all add: inspects_def\<close>)
  qed
next
  case (3 sc r v vs depth sensitive acc)
  show ?case
  proof (cases "shallow (depth + 1) v")
    case True
    then obtain n st where h: "inspect_value sc r v (depth + 1) sensitive (snd acc) = Some (Some (n, st))"
        "n = 0 \<longleftrightarrow> clean sc r sensitive v"
      using 3(1) [OF 3(3)] by (auto simp: inspects_def)
    have "inspects (inspect_array sc r vs depth sensitive (fst acc + n, st)) (\<forall>v\<in>set vs. shallow (depth + 1) v)
        (fst (fst acc + n, st) = 0 \<and> (\<forall>v\<in>set vs. clean sc r sensitive v))"
      by (rule 3(2) [OF h(1) refl refl 3(3)])
    then show ?thesis using h True by (auto simp: inspects_def)
  next
    case False
    then show ?thesis using 3(1) [OF 3(3)] by (simp add: inspects_def)
  qed
next
  case (5 sc r k v kvs depth sensitive acc)
  obtain m where m: "merged_spans sc (rd_entropy r) k = Some m" using merged_spans_total 5(3) by blast
  let ?sens = "sensitive \<or> sc_secret_key sc k"
  show ?case
  proof (cases "shallow (depth + 1) v")
    case True
    then obtain n st where h: "inspect_value sc r v (depth + 1) ?sens (snd acc + 1) = Some (Some (n, st))"
        "n = 0 \<longleftrightarrow> clean sc r ?sens v"
      using 5(1) [OF m 5(3)] by (auto simp: inspects_def)
    have "inspects (inspect_object sc r kvs depth sensitive (fst acc + length m + n, st))
        (\<forall>kv\<in>set kvs. shallow (depth + 1) (snd kv))
        (fst (fst acc + length m + n, st) = 0 \<and> clean sc r sensitive (Object kvs))"
      by (rule 5(2) [OF m h(1) refl refl 5(3)])
    then show ?thesis using h True m by (auto simp: inspects_def)
  next
    case False
    then show ?thesis using 5(1) [OF m 5(3)] m by (simp add: inspects_def)
  qed
qed (simp add: inspects_def, metis prod.collapse)+

text \<open>
  C32. The inspection of a payload accepts exactly the clean ones: for matchers that report ranges on character
  boundaries it always returns, and it returns a success if and only if the payload fits the size limit, decodes,
  nests at most 64 levels below the root, has no reported secret in any string or key, and has no Boolean, number
  or non-empty text other than the marker anywhere under a key that names a secret.
\<close>

theorem inspection_exact:
  assumes "\<forall>text. scanner_ok sc text"
  shows "inspect_payload sc r decode payload \<noteq> None
    \<and> ((\<exists>i. inspect_payload sc r decode payload = Some (Ok i)) \<longleftrightarrow>
         length payload \<le> MAX_INSPECTED_PAYLOAD_BYTES
         \<and> (\<exists>v. decode payload = Some v \<and> shallow 0 v \<and> clean sc r False v))"
proof (cases "decode payload")
  case (Some v)
  show ?thesis
    using inspect_value_spec(1) [OF assms, of r v 0 False 0] Some
    by (cases "shallow 0 v") (auto simp: inspect_payload_def inspects_def simp del: inspect_value.simps)
qed (simp add: inspect_payload_def)

section \<open>Examples\<close>

text \<open>A scanner that reports the three scalars after the first \<open>token=\<close>.\<close>

definition demo_find :: "str \<Rightarrow> span list" where
  "demo_find text =
     (case find_str text (scalars ''token='') of
        Some n \<Rightarrow> (case slice_from text (n + 6) of
            Some rest \<Rightarrow> (if length rest \<ge> 3 \<and> take 10 rest \<noteq> REDACTION_MARKER
              then [(n + 6, n + 6 + str_len (take 3 rest))] else [])
          | None \<Rightarrow> [])
      | None \<Rightarrow> [])"

definition demo_scanner :: Scanner where
  "demo_scanner = \<lparr>sc_aws = (\<lambda>_. []), sc_captures = (\<lambda>text. map (\<lambda>sp. (Some sp, sp)) (demo_find text)),
     sc_headers = (\<lambda>_. []), sc_tokens = (\<lambda>_. []), sc_high_entropy = (\<lambda>_. False),
     sc_secret_key = (\<lambda>k. k = scalars ''token'')\<rparr>"

lemma demo_find_ok: "list_all (span_ok text) (demo_find text)"
proof (cases "demo_find text")
  case (Cons sp sps)
  then obtain n rest where d: "slice_from text (n + 6) = Some rest" "demo_find text = [(n + 6, n + 6 + str_len (take 3 rest))]"
    by (auto simp: demo_find_def split: option.splits if_splits)
  then obtain p where p: "text = p @ rest" "str_len p = n + 6" by (auto simp: slice_from_iff)
  then have "text = (p @ take 3 rest) @ drop 3 rest" by simp
  then have "boundary text (n + 6 + str_len (take 3 rest))" unfolding boundary_def using p(2)
    by (intro exI [of _ "p @ take 3 rest"] exI [of _ "drop 3 rest"]) simp
  then show ?thesis using p d(2) unfolding span_ok_def boundary_def by auto
qed simp

lemma demo_scanner_ok: "scanner_ok demo_scanner text"
  using demo_find_ok [of "text"] by (auto simp: scanner_ok_def demo_scanner_def list_all_iff)

definition demo_field :: str where
  "demo_field = scalars ''use token=abc to sign in and then read on''"

theorem redaction_exact_witness:
  "raw_spans demo_scanner False demo_field = Some [(10, 13)]
     \<and> redact_field demo_scanner \<lparr>rd_entropy = False\<rparr> demo_field
       = Some (Ok \<lparr>rf_text = marked (marker_at [(10, 13)]) (covers [(10, 13)]) 0 demo_field,
                   rf_redactions = card {at. marker_at [(10, 13)] at}, rf_omitted_scalars = 0\<rparr>)
     \<and> marked (marker_at [(10, 13)]) (covers [(10, 13)]) 0 demo_field
       = scalars ''use token=[REDACTED] to sign in and then read on''"
proof -
  have raw: "raw_spans demo_scanner False demo_field = Some [(10, 13)]" by code_simp
  have spelled: "marked (marker_at [(10, 13)]) (covers [(10, 13)]) 0 demo_field
      = scalars ''use token=[REDACTED] to sign in and then read on''" by code_simp
  have "scanner_nonempty demo_scanner demo_field" by code_simp
  moreover have "str_len (scalars ''use token=[REDACTED] to sign in and then read on'') = 48" "str_len demo_field = 41"
    by code_simp+
  ultimately show ?thesis
    using redaction_exact [OF demo_scanner_ok, of demo_field "\<lparr>rd_entropy = False\<rparr>"] raw spelled
    by (auto simp: MAX_REDACTED_FIELD_BYTES_def)
qed

theorem excerpt_bounded_witness:
  "\<exists>f. redact_field_excerpt demo_scanner \<lparr>rd_entropy = False\<rparr> demo_field 30 = Some (Ok f) \<and> length (rf_text f) \<le> 30
     \<and> rf_text f = scalars ''use token=[REDACTED]'' @ EXCERPT_JOIN @ scalars ''read on''"
proof -
  have "ascii_whitespace demo_field" by code_simp
  moreover have "redact_field_excerpt demo_scanner \<lparr>rd_entropy = False\<rparr> demo_field 30
      = Some (Ok \<lparr>rf_text = scalars ''use token=[REDACTED]'' @ EXCERPT_JOIN @ scalars ''read on'',
          rf_redactions = 1, rf_omitted_scalars = 21\<rparr>)"
    by code_simp
  ultimately show ?thesis using excerpt_bounded [OF demo_scanner_ok, of demo_field "\<lparr>rd_entropy = False\<rparr>" 30] by auto
qed

theorem inspection_exact_witness:
  "(\<exists>i. inspect_payload demo_scanner \<lparr>rd_entropy = False\<rparr>
          (\<lambda>_. Some (Object [(scalars ''token'', String REDACTION_MARKER)])) [1] = Some (Ok i))
   \<and> \<not> (\<exists>i. inspect_payload demo_scanner \<lparr>rd_entropy = False\<rparr>
          (\<lambda>_. Some (Object [(scalars ''token'', String (scalars ''x''))])) [1] = Some (Ok i))"
proof -
  have "shallow 0 (Object [(scalars ''token'', String REDACTION_MARKER)])" by code_simp
  moreover have "clean demo_scanner \<lparr>rd_entropy = False\<rparr> False (Object [(scalars ''token'', String REDACTION_MARKER)])"
    by code_simp
  moreover have "\<not> clean demo_scanner \<lparr>rd_entropy = False\<rparr> False (Object [(scalars ''token'', String (scalars ''x''))])"
    by code_simp
  moreover have "length [1::nat] \<le> MAX_INSPECTED_PAYLOAD_BYTES" by (simp add: MAX_INSPECTED_PAYLOAD_BYTES_def)
  ultimately show ?thesis
    using inspection_exact [of demo_scanner "\<lparr>rd_entropy = False\<rparr>"] demo_scanner_ok by auto
qed

text \<open>
  The cut of an excerpt panics on text it should accept: when a whitespace character of more than one byte stands
  before an assignment whose marker does not fit, the cut falls inside that character, and slicing there panics. The
  field is \<open>U+3000\<close> followed by \<open>token=\<close>, a secret and more text.
\<close>

theorem excerpt_panics_inside_wide_whitespace:
  "redact_field_excerpt demo_scanner \<lparr>rd_entropy = False\<rparr> ([12288] @ scalars ''token=abc and more text to read'') 17 = None"
  by code_simp

end
