(* ===== verification/Tool_Evidence.thy ===== *)
theory Tool_Evidence
  imports Loaded_State Redaction
begin

text \<open>
  Model of \<open>src/src/context/tool.rs\<close>, \<open>src/src/context/tool/association.rs\<close> and
  \<open>src/src/context/tool/dispatch.rs\<close>: excerpts of tool text, the association of tool invocations with
  their results, the resolution of a tool call to a skill, and the load evidence extracted from a branch. The
  JSON decoder and printer are arguments. A cut off a character boundary panics, so the functions that
  summarize text return \<open>None\<close> for a panic.
\<close>

section \<open>Excerpts\<close>

definition DEFAULT_TOOL_EXCERPT_CHARS :: nat where "DEFAULT_TOOL_EXCERPT_CHARS = 200"

definition ALLOWLISTED_TOOL_ARGUMENT_KEYS :: "str list" where
  "ALLOWLISTED_TOOL_ARGUMENT_KEYS = map scalars
     [''command'', ''path'', ''file_path'', ''query'', ''skill'', ''skill_name'', ''name'', ''pattern'',
      ''target'', ''args'', ''subcommand'']"

definition ERROR_INDICATORS :: "str list" where
  "ERROR_INDICATORS = map scalars
     [''error:'', ''error['', ''failed:'', ''fatal:'', ''panic:'', ''exception:'', ''exit code:'',
      ''exit status:'', ''[error]'', ''err:'', ''stderr:'']"

definition omission_marker :: "str \<Rightarrow> str" where
  "omission_marker n = scalars '' ... ['' @ n @ scalars '' chars omitted] ... ''"

definition ELLIPSIS :: str where "ELLIPSIS = [8230]"

definition head_tail_truncate :: "str \<Rightarrow> nat \<Rightarrow> str option" where
  "head_tail_truncate text max_chars =
     (let char_count = length text in
      if char_count \<le> max_chars then Some text
      else
        let placeholder_digits = length (dec char_count) + 1;
            marker_len = length (omission_marker (replicate placeholder_digits 48)) in
        if max_chars \<le> marker_len then
          (if max_chars = 0 then Some []
           else
             let kept = max_chars - 1;
                 e = redacted_head_end text (byte_at text kept) (byte_at text kept) in
             Option.bind (slice_to text e) (\<lambda>h.
               if \<not> ends_with h REDACTION_MARKER then Some (h @ ELLIPSIS)
               else if length h + 2 \<le> max_chars then Some (h @ [32] @ ELLIPSIS)
               else map_option (\<lambda>h'. h' @ ELLIPSIS) (slice_to text (redacted_head_end text (e - 1) (e - 1)))))
        else
          let budget = max_chars - marker_len;
              head_end = redacted_head_end text (byte_at text (budget div 2)) (byte_at text budget) in
          Option.bind (slice_to text head_end) (\<lambda>h.
            let tail_chars = budget - length h;
                tail_start = max (redacted_tail_start text (byte_at text (char_count - tail_chars))) head_end in
            Option.bind (slice text head_end tail_start) (\<lambda>omitted.
              map_option (\<lambda>tail. h @ omission_marker (scalars (dec (length omitted))) @ tail)
                (slice_from text tail_start))))"

definition allowlist_tool_arguments :: "(str \<Rightarrow> Value option) \<Rightarrow> (Value \<Rightarrow> str) \<Rightarrow> str \<Rightarrow> str" where
  "allowlist_tool_arguments from_str to_text raw_args =
     (case from_str raw_args of
        Some (Object kvs) \<Rightarrow>
          to_text (Object (map (\<lambda>(k, v).
            (k, if k \<in> set ALLOWLISTED_TOOL_ARGUMENT_KEYS then v else String (scalars ''<omitted>''))) kvs))
      | _ \<Rightarrow> raw_args)"

text \<open>The JSON library as the summaries use it.\<close>

record Json =
  js_from_str :: "str \<Rightarrow> Value option"
  js_to_text :: "Value \<Rightarrow> str"

definition summarize_tool_arguments :: "Json \<Rightarrow> str \<Rightarrow> nat \<Rightarrow> str option" where
  "summarize_tool_arguments js raw_args max_chars =
     head_tail_truncate (allowlist_tool_arguments (js_from_str js) (js_to_text js) raw_args) max_chars"

definition error_lines_of :: "str \<Rightarrow> str list" where
  "error_lines_of raw =
     List.map_filter (\<lambda>line. let trimmed = trim_str line; lower = map ascii_lower trimmed in
       if list_ex (contains_str lower) ERROR_INDICATORS then Some trimmed else None) (str_lines raw)"

definition summarize_tool_result :: "str \<Rightarrow> nat \<Rightarrow> (str \<times> str list) option" where
  "summarize_tool_result raw max_chars =
     map_option (\<lambda>excerpt. (excerpt, error_lines_of raw)) (head_tail_truncate raw max_chars)"

section \<open>Association\<close>

record AssociatedToolCall =
  at_call_id :: "ToolCallId option"
  at_invocation_event_id :: "EventId option"
  at_result_event_id :: "EventId option"
  at_turn_id :: "TurnId option"
  at_agent_id :: "AgentId option"
  at_branch_id :: "BranchId option"
  at_tool_name :: str
  at_status :: ToolStatus
  at_raw_arguments :: "str option"
  at_raw_result :: "str option"
  at_arguments_summary :: "str option"
  at_result_summary :: "str option"
  at_error_lines :: "str list"

datatype PendingCall = Waiting usize | CompletedCall usize | AmbiguousCall

definition set_unknown :: "usize \<Rightarrow> AssociatedToolCall list \<Rightarrow> AssociatedToolCall list" where
  "set_unknown i calls = calls[i := (calls ! i)\<lparr>at_status := ToolUnknown\<rparr>]"

definition register_call ::
  "'k::linorder \<Rightarrow> usize \<Rightarrow> bool \<Rightarrow> bool \<Rightarrow> ('k, PendingCall) btree \<times> AssociatedToolCall list
     \<Rightarrow> ('k, PendingCall) btree \<times> AssociatedToolCall list" where
  "register_call key index sequential completed st =
     (let (pending, calls) = st; next_state = (if completed then CompletedCall index else Waiting index) in
      case bt_get pending key of
        None \<Rightarrow> (bt_insert key next_state pending, calls)
      | Some (CompletedCall previous) \<Rightarrow>
          if sequential then (bt_insert key next_state pending, calls)
          else (bt_insert key AmbiguousCall pending, set_unknown index (set_unknown previous calls))
      | Some (Waiting previous) \<Rightarrow>
          (bt_insert key AmbiguousCall pending, set_unknown index (set_unknown previous calls))
      | Some AmbiguousCall \<Rightarrow> (pending, set_unknown index calls))"

definition take_call ::
  "'k::linorder \<Rightarrow> ('k, PendingCall) btree \<times> AssociatedToolCall list
     \<Rightarrow> (usize option \<times> bool) \<times> ('k, PendingCall) btree \<times> AssociatedToolCall list" where
  "take_call key st =
     (let (pending, calls) = st in
      case bt_get pending key of
        None \<Rightarrow> ((None, False), pending, calls)
      | Some (Waiting index) \<Rightarrow> ((Some index, False), bt_insert key (CompletedCall index) pending, calls)
      | Some (CompletedCall index) \<Rightarrow> ((None, True), bt_insert key AmbiguousCall pending, set_unknown index calls)
      | Some AmbiguousCall \<Rightarrow> ((None, True), pending, calls))"

type_synonym scope = "AgentId option \<times> BranchId option"

definition scope_of :: "NormalizedEvent \<Rightarrow> scope" where
  "scope_of e = (ne_agent_id e, ne_branch_id e)"

record AssocState =
  as_calls :: "AssociatedToolCall list"
  as_by_call_id :: "(scope \<times> ToolCallId, PendingCall) btree"
  as_by_name :: "(scope \<times> TurnId option \<times> str, PendingCall) btree"
  as_seen :: "(scope \<times> EventId) set"

definition result_parts :: "str option \<Rightarrow> nat \<Rightarrow> (str option \<times> str list) option" where
  "result_parts res max_chars =
     (case res of
        None \<Rightarrow> Some (None, [])
      | Some r \<Rightarrow> map_option (\<lambda>(s, errs). (Some s, errs)) (summarize_tool_result r max_chars))"

definition arguments_part :: "Json \<Rightarrow> str option \<Rightarrow> nat \<Rightarrow> str option option" where
  "arguments_part js args max_chars =
     (case args of None \<Rightarrow> Some None | Some a \<Rightarrow> map_option Some (summarize_tool_arguments js a max_chars))"

text \<open>The record pushed for an event, before it is joined with another one.\<close>

definition call_of ::
  "NormalizedEvent \<Rightarrow> ToolEvent \<Rightarrow> EventId option \<Rightarrow> EventId option \<Rightarrow> ToolStatus \<Rightarrow> str option \<Rightarrow> str option
     \<Rightarrow> str list \<Rightarrow> AssociatedToolCall" where
  "call_of e tool invoked res status args_summary res_summary errs =
     \<lparr>at_call_id = te_call_id tool, at_invocation_event_id = invoked, at_result_event_id = res,
      at_turn_id = ne_turn_id e, at_agent_id = ne_agent_id e, at_branch_id = ne_branch_id e,
      at_tool_name = te_name tool, at_status = status, at_raw_arguments = te_arguments tool,
      at_raw_result = te_result tool, at_arguments_summary = args_summary, at_result_summary = res_summary,
      at_error_lines = errs\<rparr>"

definition associate_invocation :: "Json \<Rightarrow> nat \<Rightarrow> NormalizedEvent \<Rightarrow> ToolEvent \<Rightarrow> AssocState \<Rightarrow> AssocState option" where
  "associate_invocation js max_chars e tool st =
     Option.bind (arguments_part js (te_arguments tool) max_chars) (\<lambda>args_summary.
     map_option (\<lambda>(res_summary, errs).
       let idx = length (as_calls st);
           calls = as_calls st @ [call_of e tool (ne_event_id e) None (te_status tool) args_summary res_summary errs];
           completed = (te_result tool \<noteq> None \<and> te_status tool \<in> {ToolSucceeded, ToolFailed}) in
       case te_call_id tool of
         Some cid \<Rightarrow>
           (let (pending, calls') = register_call (scope_of e, cid) idx False completed (as_by_call_id st, calls) in
            st\<lparr>as_by_call_id := pending, as_calls := calls'\<rparr>)
       | None \<Rightarrow>
           (let (pending, calls') =
              register_call (scope_of e, ne_turn_id e, te_name tool) idx True completed (as_by_name st, calls) in
            st\<lparr>as_by_name := pending, as_calls := calls'\<rparr>))
       (result_parts (te_result tool) max_chars))"

text \<open>A matched result is written into its call.\<close>

definition join_result ::
  "NormalizedEvent \<Rightarrow> ToolEvent \<Rightarrow> str option \<Rightarrow> str list \<Rightarrow> AssociatedToolCall \<Rightarrow> AssociatedToolCall" where
  "join_result e tool res_summary errs call =
     call\<lparr>at_result_event_id := ne_event_id e, at_status := te_status tool, at_raw_result := te_result tool,
       at_result_summary := res_summary, at_error_lines := errs,
       at_turn_id := (case at_turn_id call of None \<Rightarrow> ne_turn_id e | t \<Rightarrow> t)\<rparr>"

definition place_result ::
  "NormalizedEvent \<Rightarrow> ToolEvent \<Rightarrow> str option \<Rightarrow> str list \<Rightarrow> usize option \<times> bool \<Rightarrow> AssociatedToolCall list
     \<Rightarrow> AssociatedToolCall list" where
  "place_result e tool res_summary errs matched calls =
     (case fst matched of
        Some idx \<Rightarrow> calls[idx := join_result e tool res_summary errs (calls ! idx)]
      | None \<Rightarrow> calls @ [call_of e tool None (ne_event_id e)
          (if snd matched then ToolUnknown else te_status tool) None res_summary errs])"

definition associate_result :: "nat \<Rightarrow> NormalizedEvent \<Rightarrow> ToolEvent \<Rightarrow> AssocState \<Rightarrow> AssocState option" where
  "associate_result max_chars e tool st =
     map_option (\<lambda>(res_summary, errs).
       case te_call_id tool of
         Some cid \<Rightarrow>
           (let (matched, pending, calls) = take_call (scope_of e, cid) (as_by_call_id st, as_calls st) in
            st\<lparr>as_by_call_id := pending, as_calls := place_result e tool res_summary errs matched calls\<rparr>)
       | None \<Rightarrow>
           (let (matched, pending, calls) =
              take_call (scope_of e, ne_turn_id e, te_name tool) (as_by_name st, as_calls st) in
            st\<lparr>as_by_name := pending, as_calls := place_result e tool res_summary errs matched calls\<rparr>))
       (result_parts (te_result tool) max_chars)"

definition associate_direct :: "Json \<Rightarrow> nat \<Rightarrow> NormalizedEvent \<Rightarrow> ToolEvent \<Rightarrow> AssocState \<Rightarrow> AssocState option" where
  "associate_direct js max_chars e tool st =
     Option.bind (arguments_part js (te_arguments tool) max_chars) (\<lambda>args_summary.
     map_option (\<lambda>(res_summary, errs).
       st\<lparr>as_calls := as_calls st @
         [call_of e tool (ne_event_id e) (ne_event_id e) (te_status tool) args_summary res_summary errs]\<rparr>)
       (result_parts (te_result tool) max_chars))"

definition retain_scopes :: "scope \<Rightarrow> AssocState \<Rightarrow> AssocState" where
  "retain_scopes sc st =
     st\<lparr>as_by_call_id := filter (\<lambda>((owner, _), _). owner \<noteq> sc) (as_by_call_id st),
        as_by_name := filter (\<lambda>((owner, _), _). owner \<noteq> sc) (as_by_name st)\<rparr>"

text \<open>One event whose identity has not been seen.\<close>

definition associate_new :: "Json \<Rightarrow> nat \<Rightarrow> NormalizedEvent \<Rightarrow> AssocState \<Rightarrow> AssocState option" where
  "associate_new js max_chars e st =
     (if ne_kind e = Compaction then Some (retain_scopes (scope_of e) st)
      else
        case ne_tool e of
          None \<Rightarrow> Some st
        | Some tool \<Rightarrow>
          if ne_kind e = ToolInvocation then associate_invocation js max_chars e tool st
          else if ne_kind e = ToolResult then associate_result max_chars e tool st
          else associate_direct js max_chars e tool st)"

definition associate_event :: "Json \<Rightarrow> nat \<Rightarrow> NormalizedEvent \<Rightarrow> AssocState \<Rightarrow> AssocState option" where
  "associate_event js max_chars e st =
     (case ne_event_id e of
        Some i \<Rightarrow>
          if (scope_of e, i) \<in> as_seen st then Some st
          else associate_new js max_chars e (st\<lparr>as_seen := insert (scope_of e, i) (as_seen st)\<rparr>)
      | None \<Rightarrow> associate_new js max_chars e st)"

fun associate_loop :: "Json \<Rightarrow> nat \<Rightarrow> NormalizedEvent list \<Rightarrow> AssocState \<Rightarrow> AssocState option" where
  "associate_loop js max_chars [] st = Some st"
| "associate_loop js max_chars (e # es) st =
     Option.bind (associate_event js max_chars e st) (associate_loop js max_chars es)"

definition associate_tool_events :: "Json \<Rightarrow> NormalizedEvent list \<Rightarrow> nat \<Rightarrow> AssociatedToolCall list option" where
  "associate_tool_events js events max_chars =
     map_option as_calls (associate_loop js max_chars events
       \<lparr>as_calls = [], as_by_call_id = [], as_by_name = [], as_seen = {}\<rparr>)"

section \<open>Skill matches\<close>

record SkillMatch =
  sm_skill_id :: SkillId
  sm_usage_kind :: SkillUsageKind
  sm_source_content :: "ContentHash option"
  sm_rendered_content :: "ContentHash option"
  sm_has_dynamic_arguments :: bool
  sm_turn_scoped :: bool

record SimpleSkillResolver =
  sr_tool_skills :: "(str, SkillMatch) btree"
  sr_path_skills :: "(str, SkillMatch) btree"

definition register_tool :: "str \<Rightarrow> SkillMatch \<Rightarrow> SimpleSkillResolver \<Rightarrow> SimpleSkillResolver" where
  "register_tool name skill r = r\<lparr>sr_tool_skills := bt_insert name skill (sr_tool_skills r)\<rparr>"

definition register_path :: "str \<Rightarrow> SkillMatch \<Rightarrow> SimpleSkillResolver \<Rightarrow> SimpleSkillResolver" where
  "register_path path skill r = r\<lparr>sr_path_skills := bt_insert path skill (sr_path_skills r)\<rparr>"

definition resolve_file_read :: "SimpleSkillResolver \<Rightarrow> str \<Rightarrow> SkillMatch option" where
  "resolve_file_read r path =
     map_option (\<lambda>m. m\<lparr>sm_source_content := None, sm_rendered_content := None\<rparr>) (bt_get (sr_path_skills r) path)"

text \<open>\<open>decode\<close> is the bounded decoder that rejects duplicate keys.\<close>

definition load_arguments :: "(str \<Rightarrow> Value option) \<Rightarrow> str option \<Rightarrow> (str \<times> Value) list option" where
  "load_arguments decode raw =
     (case Option.bind raw decode of Some (Object arguments) \<Rightarrow> Some arguments | _ \<Rightarrow> None)"

fun unique_target_loop :: "(str \<times> Value) list \<Rightarrow> str list \<Rightarrow> str option \<Rightarrow> str option" where
  "unique_target_loop arguments [] target = target"
| "unique_target_loop arguments (key # keys) target =
     (case map_of arguments key of
        None \<Rightarrow> unique_target_loop arguments keys target
      | Some (String name) \<Rightarrow>
          if name = [] then None
          else if target \<noteq> None \<and> target \<noteq> Some name then None
          else unique_target_loop arguments keys (Some name)
      | Some _ \<Rightarrow> None)"

definition unique_target :: "(str \<times> Value) list \<Rightarrow> str list \<Rightarrow> str option" where
  "unique_target arguments keys = unique_target_loop arguments keys None"

definition resolve_tool ::
  "(str \<Rightarrow> Value option) \<Rightarrow> SimpleSkillResolver \<Rightarrow> str \<Rightarrow> str option \<Rightarrow> SkillMatch option" where
  "resolve_tool decode r tool_name arguments_json =
     (if list_ex (eq_ignore_ascii_case tool_name) (map scalars [''skill'', ''load_skill'', ''run_skill''])
      then
        Option.bind (load_arguments decode arguments_json) (\<lambda>arguments.
        Option.bind (unique_target arguments (map scalars [''skill'', ''skill_name'', ''name''])) (\<lambda>target.
        map_option (\<lambda>matched.
          if (case map_of arguments (scalars ''args'') of
                None \<Rightarrow> False | Some Null \<Rightarrow> False | Some (String s) \<Rightarrow> s \<noteq> [] | Some _ \<Rightarrow> True)
          then matched\<lparr>sm_has_dynamic_arguments := True, sm_rendered_content := None\<rparr>
          else matched) (bt_get (sr_tool_skills r) target)))
      else if list_ex (eq_ignore_ascii_case tool_name) (map scalars [''read_file'', ''view_file'', ''cat'', ''read''])
      then
        Option.bind (load_arguments decode arguments_json) (\<lambda>arguments.
        Option.bind (unique_target arguments (map scalars [''path'', ''file_path'', ''target''])) (resolve_file_read r))
      else bt_get (sr_tool_skills r) tool_name)"

section \<open>Load evidence\<close>

definition active_tool_events :: "NormalizedEvent list \<Rightarrow> ActiveBranch option \<Rightarrow> NormalizedEvent list" where
  "active_tool_events events branch =
     (case branch of
        None \<Rightarrow> events
      | Some b \<Rightarrow>
          let identities = set (List.map_filter lineage_key (br_events b)) in
          filter (\<lambda>e. case lineage_key e of Some k \<Rightarrow> k \<in> identities | None \<Rightarrow> False) events)"

datatype LoadState = LsAttempted | LsObservedLoaded

record LoadObservation =
  lb_event_id :: "EventId option"
  lb_skill_id :: SkillId
  lb_state :: LoadState
  lb_source_content :: "ContentHash option"
  lb_rendered_content :: "ContentHash option"
  lb_identity :: SessionIdentity

text \<open>The two \<open>continue\<close>s at the head of both loops: a call of another branch, or of no event of this one.\<close>

definition on_branch :: "ActiveBranch option \<Rightarrow> AssociatedToolCall \<Rightarrow> bool" where
  "on_branch branch call =
     (case branch of
        None \<Rightarrow> True
      | Some b \<Rightarrow>
          \<not> (at_branch_id call \<noteq> None \<and> br_branch_id b \<noteq> at_branch_id call)
          \<and> (let ids = event_id_set b in
             (case at_invocation_event_id call of Some i \<Rightarrow> i \<in> ids | None \<Rightarrow> False)
             \<or> (case at_result_event_id call of Some i \<Rightarrow> i \<in> ids | None \<Rightarrow> False)))"

definition load_event_id :: "AssociatedToolCall \<Rightarrow> EventId option" where
  "load_event_id call = (case at_invocation_event_id call of Some i \<Rightarrow> Some i | None \<Rightarrow> at_result_event_id call)"

type_synonym tool_resolver = "str \<Rightarrow> str option \<Rightarrow> SkillMatch option"

definition extract_load_observations ::
  "Json \<Rightarrow> NormalizedEvent list \<Rightarrow> SessionIdentity \<Rightarrow> tool_resolver \<Rightarrow> ActiveBranch option \<Rightarrow> LoadObservation list option" where
  "extract_load_observations js events session_identity resolver branch =
     map_option (List.map_filter (\<lambda>call.
         if \<not> on_branch branch call then None
         else map_option (\<lambda>m.
           \<lparr>lb_event_id = load_event_id call, lb_skill_id = sm_skill_id m,
            lb_state = (if at_status call = ToolSucceeded \<and> at_error_lines call = [] then LsObservedLoaded else LsAttempted),
            lb_source_content = sm_source_content m, lb_rendered_content = sm_rendered_content m,
            lb_identity = session_identity\<rparr>) (resolver (at_tool_name call) (at_raw_arguments call))))
       (associate_tool_events js (active_tool_events events branch) DEFAULT_TOOL_EXCERPT_CHARS)"

definition loaded_record :: "tool_resolver \<Rightarrow> ActiveBranch option \<Rightarrow> ContextEpoch \<Rightarrow> AssociatedToolCall \<Rightarrow> LoadedSkillRecord option" where
  "loaded_record resolver branch current_epoch call =
     (if \<not> on_branch branch call then None
      else
        case resolver (at_tool_name call) (at_raw_arguments call) of
          None \<Rightarrow> None
        | Some m \<Rightarrow>
          if at_status call \<noteq> ToolSucceeded \<or> at_error_lines call \<noteq> [] then None
          else
            map_option (\<lambda>epoch.
              \<lparr>ld_skill_id = sm_skill_id m, ld_event_id = load_event_id call, ld_turn_id = at_turn_id call,
               ld_usage_kind = sm_usage_kind m, ld_epoch = epoch, ld_source_content = sm_source_content m,
               ld_rendered_content = sm_rendered_content m, ld_has_dynamic_arguments = sm_has_dynamic_arguments m,
               ld_turn_scoped = sm_turn_scoped m\<rparr>)
              (case (branch, load_event_id call) of
                 (Some b, Some i) \<Rightarrow> bt_get (event_epochs b) i
               | (Some _, None) \<Rightarrow> None
               | (None, _) \<Rightarrow> Some current_epoch))"

definition extract_loaded_skill_records ::
  "Json \<Rightarrow> NormalizedEvent list \<Rightarrow> tool_resolver \<Rightarrow> ActiveBranch option \<Rightarrow> ContextEpoch \<Rightarrow> LoadedSkillRecord list option" where
  "extract_loaded_skill_records js events resolver branch current_epoch =
     map_option (List.map_filter (loaded_record resolver branch current_epoch))
       (associate_tool_events js (active_tool_events events branch) DEFAULT_TOOL_EXCERPT_CHARS)"

section \<open>Provider context\<close>

definition filter_event :: "Json \<Rightarrow> bool \<Rightarrow> nat \<Rightarrow> NormalizedEvent \<Rightarrow> NormalizedEvent option" where
  "filter_event js no_tools max_chars e =
     map_option (\<lambda>tool. e\<lparr>ne_tool := tool, ne_text := (if no_tools \<and> ne_role e = RoleTool then [] else ne_text e)\<rparr>)
       (case ne_tool e of
          None \<Rightarrow> Some None
        | Some tool \<Rightarrow>
          if no_tools then Some (Some (tool\<lparr>te_arguments := None, te_result := None\<rparr>))
          else
            Option.bind (arguments_part js (te_arguments tool) max_chars) (\<lambda>args.
            map_option (\<lambda>(res, _). Some (tool\<lparr>te_arguments := args, te_result := res\<rparr>))
              (result_parts (te_result tool) max_chars)))"

definition filter_events_for_provider :: "Json \<Rightarrow> NormalizedEvent list \<Rightarrow> bool \<Rightarrow> nat \<Rightarrow> NormalizedEvent list option" where
  "filter_events_for_provider js events no_tools max_chars = those (map (filter_event js no_tools max_chars) events)"

section \<open>Association keys\<close>

definition call_scope :: "AssociatedToolCall \<Rightarrow> scope" where
  "call_scope c = (at_agent_id c, at_branch_id c)"

definition call_key :: "AssociatedToolCall \<Rightarrow> (scope \<times> ToolCallId) option" where
  "call_key c = map_option (\<lambda>i. (call_scope c, i)) (at_call_id c)"

text \<open>Where the call of a pending entry is.\<close>

fun pending_index :: "PendingCall \<Rightarrow> usize option" where
  "pending_index (Waiting i) = Some i"
| "pending_index (CompletedCall i) = Some i"
| "pending_index AmbiguousCall = None"

text \<open>The entries of both tables point at calls of their own key.\<close>

definition tables_ok :: "AssocState \<Rightarrow> bool" where
  "tables_ok st \<longleftrightarrow> bt_sorted (as_by_call_id st) \<and> bt_sorted (as_by_name st)
     \<and> (\<forall>k. \<forall>s. \<forall>i. bt_get (as_by_call_id st) k = Some s \<longrightarrow> pending_index s = Some i
          \<longrightarrow> i < length (as_calls st) \<and> call_key (as_calls st ! i) = Some k)
     \<and> (\<forall>k. \<forall>s. \<forall>i. bt_get (as_by_name st) k = Some s \<longrightarrow> pending_index s = Some i
          \<longrightarrow> i < length (as_calls st) \<and> at_call_id (as_calls st ! i) = None)"

text \<open>
  The history of one key \<open>K\<close>, where \<open>I\<close> are the identifiers of its invocations: a call made for one of them
  is the one the table points at, or has an unknown outcome; and a second invocation makes the key ambiguous.
\<close>

definition calls_ok :: "scope \<times> ToolCallId \<Rightarrow> EventId set \<Rightarrow> AssocState \<Rightarrow> bool" where
  "calls_ok K I st \<longleftrightarrow>
     (\<forall>j i. j < length (as_calls st) \<longrightarrow> call_key (as_calls st ! j) = Some K
        \<longrightarrow> at_invocation_event_id (as_calls st ! j) = Some i \<longrightarrow> i \<in> I
        \<longrightarrow> (\<exists>s. bt_get (as_by_call_id st) K = Some s
              \<and> (pending_index s = Some j \<or> s = AmbiguousCall \<and> at_status (as_calls st ! j) = ToolUnknown)))"

definition seen_ok :: "scope \<times> ToolCallId \<Rightarrow> EventId set \<Rightarrow> AssocState \<Rightarrow> bool" where
  "seen_ok K I st \<longleftrightarrow>
     (\<forall>i\<in>I. (fst K, i) \<in> as_seen st \<longrightarrow> bt_get (as_by_call_id st) K \<noteq> None)
     \<and> (\<forall>i\<in>I. \<forall>i'\<in>I. i \<noteq> i' \<longrightarrow> (fst K, i) \<in> as_seen st \<longrightarrow> (fst K, i') \<in> as_seen st
          \<longrightarrow> bt_get (as_by_call_id st) K = Some AmbiguousCall)"

lemma tables_okD:
  assumes "tables_ok st"
  shows "bt_sorted (as_by_call_id st)" "bt_sorted (as_by_name st)"
    "bt_get (as_by_call_id st) k = Some s \<Longrightarrow> pending_index s = Some i \<Longrightarrow>
       i < length (as_calls st) \<and> call_key (as_calls st ! i) = Some k"
    "bt_get (as_by_name st) k' = Some s \<Longrightarrow> pending_index s = Some i \<Longrightarrow>
       i < length (as_calls st) \<and> at_call_id (as_calls st ! i) = None"
  using assms unfolding tables_ok_def by blast+

lemma calls_okD:
  "calls_ok K I st \<Longrightarrow> j < length (as_calls st) \<Longrightarrow> call_key (as_calls st ! j) = Some K \<Longrightarrow>
      at_invocation_event_id (as_calls st ! j) = Some i \<Longrightarrow> i \<in> I \<Longrightarrow>
      \<exists>s. bt_get (as_by_call_id st) K = Some s
        \<and> (pending_index s = Some j \<or> s = AmbiguousCall \<and> at_status (as_calls st ! j) = ToolUnknown)"
  unfolding calls_ok_def by blast

lemma seen_okD:
  assumes "seen_ok K I st"
  shows "i \<in> I \<Longrightarrow> (fst K, i) \<in> as_seen st \<Longrightarrow> bt_get (as_by_call_id st) K \<noteq> None"
    "i \<in> I \<Longrightarrow> i' \<in> I \<Longrightarrow> i \<noteq> i' \<Longrightarrow> (fst K, i) \<in> as_seen st \<Longrightarrow> (fst K, i') \<in> as_seen st
       \<Longrightarrow> bt_get (as_by_call_id st) K = Some AmbiguousCall"
  using assms unfolding seen_ok_def by blast+

text \<open>What a step may do to the list of calls: calls keep their identity, and new ones come at the end.\<close>

definition same_identity :: "AssociatedToolCall \<Rightarrow> AssociatedToolCall \<Rightarrow> bool" where
  "same_identity c c' \<longleftrightarrow> call_key c' = call_key c \<and> at_call_id c' = at_call_id c
     \<and> at_invocation_event_id c' = at_invocation_event_id c"

lemma same_identity_updates [simp]:
  "same_identity c c" "same_identity c (c\<lparr>at_status := x\<rparr>)" "same_identity c (join_result e t rs errs c)"
  by (simp_all add: same_identity_def call_key_def call_scope_def join_result_def)

lemma set_unknown_spec [simp]:
  "length (set_unknown i calls) = length calls"
  "j < length calls \<Longrightarrow> set_unknown i calls ! j = (if j = i then (calls ! j)\<lparr>at_status := ToolUnknown\<rparr> else calls ! j)"
  by (auto simp: set_unknown_def nth_list_update)

lemma bt_get_filter_other:
  assumes "bt_sorted m"
  shows "bt_get (filter P m) k = Some v \<Longrightarrow> bt_get m k = Some v" "(\<And>v. P (k, v)) \<Longrightarrow> bt_get (filter P m) k = bt_get m k"
    "bt_sorted (filter P m)"
proof -
  have sorted: "bt_sorted (filter P m)"
    using assms unfolding bt_sorted_def sorted_wrt_map by (rule sorted_wrt_filter)
  note E = bt_get_entry [OF assms] bt_get_entry [OF sorted]
  have down: "bt_get (filter P m) k = Some v \<Longrightarrow> bt_get m k = Some v" for v by (simp add: E)
  then show "bt_get (filter P m) k = Some v \<Longrightarrow> bt_get m k = Some v" .
  show "(\<And>v. P (k, v)) \<Longrightarrow> bt_get (filter P m) k = bt_get m k"
  proof -
    assume P: "\<And>v. P (k, v)"
    show ?thesis
    proof (cases "bt_get m k")
      case None
      then show ?thesis using down by (cases "bt_get (filter P m) k") auto
    next
      case (Some v)
      then have "(k, v) \<in> set (filter P m)" using P bt_get_entry [OF assms] by simp
      then have "bt_get (filter P m) k = Some v" using bt_get_entry [OF sorted] by blast
      then show ?thesis using Some by simp
    qed
  qed
  show "bt_sorted (filter P m)" by (rule sorted)
qed

text \<open>One step on the calls and the tables that keeps what is known of the key.\<close>

definition table_moves :: "('k::linorder, PendingCall) btree \<Rightarrow> ('k, PendingCall) btree \<Rightarrow> ('k \<Rightarrow> usize \<Rightarrow> bool) \<Rightarrow> bool" where
  "table_moves m m' new \<longleftrightarrow> bt_sorted m' \<and>
     (\<forall>k. \<forall>s. \<forall>i. bt_get m' k = Some s \<longrightarrow> pending_index s = Some i \<longrightarrow>
        (\<exists>s0. bt_get m k = Some s0 \<and> pending_index s0 = Some i) \<or> new k i)"

definition key_moves :: "scope \<times> ToolCallId \<Rightarrow> AssocState \<Rightarrow> AssocState \<Rightarrow> bool" where
  "key_moves K st st' \<longleftrightarrow>
     (\<forall>s. bt_get (as_by_call_id st) K = Some s \<longrightarrow> (\<exists>s'. bt_get (as_by_call_id st') K = Some s'
        \<and> (s = AmbiguousCall \<longrightarrow> s' = AmbiguousCall)
        \<and> (\<forall>j < length (as_calls st). pending_index s = Some j \<longrightarrow>
             pending_index s' = Some j \<or> s' = AmbiguousCall \<and> at_status (as_calls st' ! j) = ToolUnknown)
        \<and> (\<forall>j < length (as_calls st). s = AmbiguousCall \<and> call_key (as_calls st ! j) = Some K
             \<and> at_status (as_calls st ! j) = ToolUnknown \<longrightarrow> at_status (as_calls st' ! j) = ToolUnknown)))"

definition calls_grow :: "AssocState \<Rightarrow> AssocState \<Rightarrow> bool" where
  "calls_grow st st' \<longleftrightarrow> length (as_calls st) \<le> length (as_calls st')
     \<and> (\<forall>j < length (as_calls st). same_identity (as_calls st ! j) (as_calls st' ! j))"

lemma assoc_step:
  assumes tab: "tables_ok st" and calls: "calls_ok K I st" and grow: "calls_grow st st'"
    and m1: "table_moves (as_by_call_id st) (as_by_call_id st')
      (\<lambda>k i. i < length (as_calls st') \<and> call_key (as_calls st' ! i) = Some k)"
    and m2: "table_moves (as_by_name st) (as_by_name st')
      (\<lambda>k i. i < length (as_calls st') \<and> at_call_id (as_calls st' ! i) = None)"
    and key: "key_moves K st st'"
    and new: "\<And>j i. length (as_calls st) \<le> j \<Longrightarrow> j < length (as_calls st') \<Longrightarrow> call_key (as_calls st' ! j) = Some K \<Longrightarrow>
      at_invocation_event_id (as_calls st' ! j) = Some i \<Longrightarrow> i \<in> I \<Longrightarrow>
      \<exists>s. bt_get (as_by_call_id st') K = Some s
        \<and> (pending_index s = Some j \<or> s = AmbiguousCall \<and> at_status (as_calls st' ! j) = ToolUnknown)"
  shows "tables_ok st'" "calls_ok K I st'"
proof -
  have len: "length (as_calls st) \<le> length (as_calls st')"
    and ids: "j < length (as_calls st) \<Longrightarrow> same_identity (as_calls st ! j) (as_calls st' ! j)" for j
    using grow by (auto simp: calls_grow_def)
  show "tables_ok st'" unfolding tables_ok_def
  proof (intro conjI allI impI)
    fix k s i assume g: "bt_get (as_by_call_id st') k = Some s" "pending_index s = Some i"
    then consider s0 where "bt_get (as_by_call_id st) k = Some s0" "pending_index s0 = Some i"
      | "i < length (as_calls st') \<and> call_key (as_calls st' ! i) = Some k"
      using m1 unfolding table_moves_def by blast
    then have "i < length (as_calls st') \<and> call_key (as_calls st' ! i) = Some k"
    proof cases
      case 1
      then show ?thesis using tables_okD(3) [OF tab 1] ids [of i] len by (auto simp: same_identity_def)
    qed
    then show "i < length (as_calls st')" "call_key (as_calls st' ! i) = Some k" by auto
  next
    fix k s i assume g: "bt_get (as_by_name st') k = Some s" "pending_index s = Some i"
    then consider s0 where "bt_get (as_by_name st) k = Some s0" "pending_index s0 = Some i"
      | "i < length (as_calls st') \<and> at_call_id (as_calls st' ! i) = None"
      using m2 unfolding table_moves_def by blast
    then have "i < length (as_calls st') \<and> at_call_id (as_calls st' ! i) = None"
    proof cases
      case 1
      then show ?thesis using tables_okD(4) [OF tab 1] ids [of i] len by (auto simp: same_identity_def)
    qed
    then show "i < length (as_calls st')" "at_call_id (as_calls st' ! i) = None" by auto
  qed (use m1 m2 in \<open>auto simp: table_moves_def\<close>)
  show "calls_ok K I st'" unfolding calls_ok_def
  proof (intro allI impI)
    fix j i assume j: "j < length (as_calls st')" "call_key (as_calls st' ! j) = Some K"
      "at_invocation_event_id (as_calls st' ! j) = Some i" "i \<in> I"
    show "\<exists>s. bt_get (as_by_call_id st') K = Some s
        \<and> (pending_index s = Some j \<or> s = AmbiguousCall \<and> at_status (as_calls st' ! j) = ToolUnknown)"
    proof (cases "j < length (as_calls st)")
      case True
      have same: "call_key (as_calls st ! j) = Some K" "at_invocation_event_id (as_calls st ! j) = Some i"
        using ids [OF True] j by (auto simp: same_identity_def)
      obtain s where s: "bt_get (as_by_call_id st) K = Some s"
          "pending_index s = Some j \<or> s = AmbiguousCall \<and> at_status (as_calls st ! j) = ToolUnknown"
        using calls_okD [OF calls True same j(4)] by blast
      obtain s' where "bt_get (as_by_call_id st') K = Some s'" "s = AmbiguousCall \<longrightarrow> s' = AmbiguousCall"
          "pending_index s = Some j \<longrightarrow> pending_index s' = Some j \<or> s' = AmbiguousCall \<and> at_status (as_calls st' ! j) = ToolUnknown"
          "s = AmbiguousCall \<and> at_status (as_calls st ! j) = ToolUnknown \<longrightarrow> at_status (as_calls st' ! j) = ToolUnknown"
        using key s(1) True same(1) unfolding key_moves_def by blast
      then show ?thesis using s(2) by blast
    next
      case False
      then show ?thesis using new j by simp
    qed
  qed
qed

lemma key_moves_refl:
  assumes "bt_get (as_by_call_id st') K = bt_get (as_by_call_id st) K"
    "\<And>j. j < length (as_calls st) \<Longrightarrow> call_key (as_calls st ! j) = Some K \<Longrightarrow>
       at_status (as_calls st ! j) = ToolUnknown \<Longrightarrow> at_status (as_calls st' ! j) = ToolUnknown"
  shows "key_moves K st st'"
  using assms unfolding key_moves_def by auto

lemma table_moves_refl: "bt_sorted m \<Longrightarrow> table_moves m m new"
  unfolding table_moves_def by blast

lemma table_moves_insert:
  assumes "bt_sorted m" "\<And>i. pending_index s = Some i \<Longrightarrow> (\<exists>s0. bt_get m k = Some s0 \<and> pending_index s0 = Some i) \<or> new k i"
  shows "table_moves m (bt_insert k s m) new"
  using assms unfolding table_moves_def by (auto simp: bt_get_insert bt_sorted_insert simp del: split_paired_All split_paired_Ex)

definition monotone_key :: "scope \<times> ToolCallId \<Rightarrow> AssocState \<Rightarrow> AssocState \<Rightarrow> bool" where
  "monotone_key K st st' \<longleftrightarrow>
     (bt_get (as_by_call_id st) K \<noteq> None \<longrightarrow> bt_get (as_by_call_id st') K \<noteq> None)
     \<and> (bt_get (as_by_call_id st) K = Some AmbiguousCall \<longrightarrow> bt_get (as_by_call_id st') K = Some AmbiguousCall)"

lemma key_moves_monotone: "key_moves K st st' \<Longrightarrow> monotone_key K st st'"
  unfolding key_moves_def monotone_key_def by fastforce

text \<open>The calls after a registration: the old ones, at most two of them now unknown.\<close>

lemma register_calls:
  assumes "register_call key (length calls) sequential completed (pending, calls @ [c]) = (pending', calls')"
    and "\<And>i. (\<exists>s. bt_get pending key = Some s \<and> pending_index s = Some i) \<Longrightarrow> i < length calls"
  shows "length calls' = Suc (length calls)" "\<And>j. j < length calls \<Longrightarrow> same_identity (calls ! j) (calls' ! j)"
    "same_identity c (calls' ! length calls)"
    "\<And>j. j < length calls \<Longrightarrow> at_status (calls ! j) = ToolUnknown \<Longrightarrow> at_status (calls' ! j) = ToolUnknown"
  using assms
  by (auto simp: register_call_def Let_def nth_append split: option.splits PendingCall.splits if_splits)

lemma register_by_call_id:
  assumes tab: "tables_ok st" and calls: "calls_ok K I st" and c: "call_key c = Some k"
    and reg: "register_call k (length (as_calls st)) False completed (as_by_call_id st, as_calls st @ [c]) = (pending', calls')"
  defines "st' \<equiv> st\<lparr>as_by_call_id := pending', as_calls := calls'\<rparr>"
  shows "tables_ok st' \<and> calls_ok K I st' \<and> monotone_key K st st'
    \<and> (k = K \<longrightarrow> bt_get pending' K \<noteq> None \<and> (bt_get (as_by_call_id st) K \<noteq> None \<longrightarrow> bt_get pending' K = Some AmbiguousCall))"
proof -
  let ?n = "length (as_calls st)"
  have idx: "i < ?n" if "\<exists>s. bt_get (as_by_call_id st) k = Some s \<and> pending_index s = Some i" for i
    using tables_okD(3) [OF tab] that by blast
  note R = register_calls [OF reg idx]
  note T = tables_okD(1,2) [OF tab]
  have key_n: "call_key (calls' ! ?n) = Some k" using R(3) c by (simp add: same_identity_def)
  consider (fresh) "bt_get (as_by_call_id st) k = None" "pending_index (if completed then CompletedCall ?n else Waiting ?n) = Some ?n"
      "pending' = bt_insert k (if completed then CompletedCall ?n else Waiting ?n) (as_by_call_id st)"
    | (clash) p s where "bt_get (as_by_call_id st) k = Some s" "pending_index s = Some p"
      "pending' = bt_insert k AmbiguousCall (as_by_call_id st)" "calls' = set_unknown ?n (set_unknown p (as_calls st @ [c]))"
    | (amb) "bt_get (as_by_call_id st) k = Some AmbiguousCall" "pending' = as_by_call_id st"
      "calls' = set_unknown ?n (as_calls st @ [c])"
    using reg by (cases "bt_get (as_by_call_id st) k" rule: option.exhaust [case_names none some])
      (auto simp: register_call_def Let_def split: PendingCall.splits)
  then have moves: "table_moves (as_by_call_id st) pending' (\<lambda>k i. i < length calls' \<and> call_key (calls' ! i) = Some k)
      \<and> key_moves K st st'
      \<and> (k = K \<longrightarrow> (\<exists>s. bt_get pending' K = Some s \<and> (pending_index s = Some ?n \<or> s = AmbiguousCall \<and> at_status (calls' ! ?n) = ToolUnknown)))
      \<and> (k = K \<longrightarrow> bt_get pending' K \<noteq> None \<and> (bt_get (as_by_call_id st) K \<noteq> None \<longrightarrow> bt_get pending' K = Some AmbiguousCall))"
  proof cases
    case fresh
    have "table_moves (as_by_call_id st) pending' (\<lambda>k i. i < length calls' \<and> call_key (calls' ! i) = Some k)"
      unfolding fresh(3) using fresh(2) R(1) key_n by (intro table_moves_insert T(1)) auto
    moreover have "key_moves K st st'"
    proof (cases "k = K")
      case True
      then show ?thesis using fresh(1) by (simp add: key_moves_def)
    next
      case False
      then show ?thesis using R(4) fresh(3) by (intro key_moves_refl) (auto simp: st'_def bt_get_insert)
    qed
    ultimately show ?thesis using fresh by (auto simp: bt_get_insert)
  next
    case (clash p s)
    have "p < ?n" using idx clash(1,2) by blast
    have "table_moves (as_by_call_id st) pending' (\<lambda>k i. i < length calls' \<and> call_key (calls' ! i) = Some k)"
      unfolding clash(3) by (intro table_moves_insert T(1)) simp
    moreover have "key_moves K st st'"
    proof (cases "k = K")
      case True
      then show ?thesis using clash \<open>p < ?n\<close> by (auto simp: key_moves_def st'_def bt_get_insert nth_append)
    next
      case False
      then show ?thesis using R(4) clash(3) by (intro key_moves_refl) (auto simp: st'_def bt_get_insert)
    qed
    ultimately show ?thesis using clash by (auto simp: bt_get_insert)
  next
    case amb
    have "key_moves K st st'" using R(4) amb by (intro key_moves_refl) (auto simp: st'_def)
    then show ?thesis using amb table_moves_refl [OF T(1)] by auto
  qed
  have grow: "calls_grow st st'" using R by (simp add: calls_grow_def st'_def)
  have "table_moves (as_by_name st) (as_by_name st') (\<lambda>k i. i < length (as_calls st') \<and> at_call_id (as_calls st' ! i) = None)"
    using table_moves_refl [OF T(2)] by (simp add: st'_def)
  moreover have "\<exists>s. bt_get (as_by_call_id st') K = Some s
      \<and> (pending_index s = Some j \<or> s = AmbiguousCall \<and> at_status (as_calls st' ! j) = ToolUnknown)"
    if "?n \<le> j" "j < length (as_calls st')" "call_key (as_calls st' ! j) = Some K" for j
  proof -
    have "j = ?n" using that R(1) by (simp add: st'_def)
    then have "k = K" using that(3) key_n by (simp add: st'_def)
    then show ?thesis using moves \<open>j = ?n\<close> by (simp add: st'_def)
  qed
  ultimately have "tables_ok st' \<and> calls_ok K I st'"
    using moves by (intro conjI assoc_step [OF tab calls grow]) (auto simp: st'_def)
  then show ?thesis using moves key_moves_monotone by blast
qed

text \<open>Every other step leaves the table of call identifiers alone, or moves the entry of another key.\<close>

lemma assoc_step_by_name:
  assumes tab: "tables_ok st" and calls: "calls_ok K I st"
    and by_id: "as_by_call_id st' = as_by_call_id st" and grow: "calls_grow st st'"
    and moves: "table_moves (as_by_name st) (as_by_name st') (\<lambda>k i. i < length (as_calls st') \<and> at_call_id (as_calls st' ! i) = None)"
    and keep: "\<And>j. j < length (as_calls st) \<Longrightarrow> call_key (as_calls st ! j) = Some K \<Longrightarrow>
       at_status (as_calls st ! j) = ToolUnknown \<Longrightarrow> at_status (as_calls st' ! j) = ToolUnknown"
    and new: "\<And>j. length (as_calls st) \<le> j \<Longrightarrow> j < length (as_calls st') \<Longrightarrow>
       call_key (as_calls st' ! j) = Some K \<Longrightarrow> at_invocation_event_id (as_calls st' ! j) \<notin> Some ` I"
  shows "tables_ok st' \<and> calls_ok K I st' \<and> monotone_key K st st'"
proof -
  have key: "key_moves K st st'" using by_id keep by (intro key_moves_refl) simp_all
  have "tables_ok st' \<and> calls_ok K I st'"
    using by_id new table_moves_refl [OF tables_okD(1) [OF tab]]
    by (intro conjI assoc_step [OF tab calls grow _ moves key]) (auto simp: image_iff)
  then show ?thesis using key_moves_monotone [OF key] by blast
qed

lemma register_by_name:
  assumes tab: "tables_ok st" and calls: "calls_ok K I st" and c: "at_call_id c = None"
    and reg: "register_call k (length (as_calls st)) True completed (as_by_name st, as_calls st @ [c]) = (pending', calls')"
  defines "st' \<equiv> st\<lparr>as_by_name := pending', as_calls := calls'\<rparr>"
  shows "tables_ok st' \<and> calls_ok K I st' \<and> monotone_key K st st'"
proof -
  let ?n = "length (as_calls st)"
  have idx: "i < ?n" if "\<exists>s. bt_get (as_by_name st) k = Some s \<and> pending_index s = Some i" for i
    using tables_okD(4) [OF tab] that by blast
  note R = register_calls [OF reg idx]
  note T = tables_okD(1,2) [OF tab]
  have none: "at_call_id (calls' ! ?n) = None" "call_key (calls' ! ?n) = None"
    using R(3) c by (simp_all add: same_identity_def call_key_def)
  have "pending' = as_by_name st \<or> (\<exists>s. pending' = bt_insert k s (as_by_name st) \<and> (pending_index s = Some ?n \<or> pending_index s = None))"
    using reg by (auto simp: register_call_def Let_def split: option.splits PendingCall.splits if_splits)
  then have moves: "table_moves (as_by_name st) pending' (\<lambda>k i. i < length calls' \<and> at_call_id (calls' ! i) = None)"
    using table_moves_refl [OF T(2)] none R(1) by (auto intro!: table_moves_insert [OF T(2)])
  have grow: "calls_grow st st'" using R by (simp add: calls_grow_def st'_def)
  have last_one: "j = ?n" if "?n \<le> j" "j < length calls'" for j using that R(1) by simp
  show ?thesis
  proof (rule assoc_step_by_name [OF tab calls _ grow])
    show "table_moves (as_by_name st) (as_by_name st') (\<lambda>k i. i < length (as_calls st') \<and> at_call_id (as_calls st' ! i) = None)"
      using moves by (simp add: st'_def)
    show "at_status (as_calls st' ! j) = ToolUnknown"
      if "j < length (as_calls st)" "at_status (as_calls st ! j) = ToolUnknown" for j
      using R(4) that by (simp add: st'_def)
    show "at_invocation_event_id (as_calls st' ! j) \<notin> Some ` I"
      if "?n \<le> j" "j < length (as_calls st')" "call_key (as_calls st' ! j) = Some K" for j
      using that last_one [of j] none(2) by (simp add: st'_def)
  qed (simp add: st'_def)
qed

text \<open>The calls after a result is taken and placed.\<close>

lemma take_calls:
  assumes "take_call key (pending, calls) = (matched, pending', calls1)"
  shows "length calls1 = length calls" "\<And>j. j < length calls \<Longrightarrow> same_identity (calls ! j) (calls1 ! j)"
    "\<And>j. j < length calls \<Longrightarrow> at_status (calls ! j) = ToolUnknown \<Longrightarrow> at_status (calls1 ! j) = ToolUnknown"
    "fst matched = Some i \<Longrightarrow> bt_get pending key = Some (Waiting i) \<and> pending' = bt_insert key (CompletedCall i) pending \<and> calls1 = calls"
    "fst matched = None \<Longrightarrow> pending' = pending \<or> pending' = bt_insert key AmbiguousCall pending"
    "fst matched = None \<Longrightarrow> bt_get pending key = Some (CompletedCall j) \<Longrightarrow>
       pending' = bt_insert key AmbiguousCall pending \<and> calls1 = set_unknown j calls"
    "fst matched = None \<Longrightarrow> bt_get pending key = Some s \<Longrightarrow> s = AmbiguousCall \<or> (\<exists>j. s = CompletedCall j)"
    "fst matched = None \<Longrightarrow> bt_get pending key = None \<or> bt_get pending key = Some AmbiguousCall \<Longrightarrow>
       pending' = pending \<and> calls1 = calls"
  using assms
  by (auto simp: take_call_def Let_def split: option.splits PendingCall.splits if_splits)

lemma place_result_calls:
  assumes "\<forall>i. fst matched = Some i \<longrightarrow> i < length calls"
  shows "length calls \<le> length (place_result e tool rs errs matched calls)"
    "j < length calls \<Longrightarrow> same_identity (calls ! j) (place_result e tool rs errs matched calls ! j)"
    "j < length calls \<Longrightarrow> fst matched \<noteq> Some j \<Longrightarrow> place_result e tool rs errs matched calls ! j = calls ! j"
    "length calls \<le> j \<Longrightarrow> j < length (place_result e tool rs errs matched calls) \<Longrightarrow>
       at_invocation_event_id (place_result e tool rs errs matched calls ! j) = None"
  using assms
  by (auto simp: place_result_def nth_append call_of_def nth_list_update split: option.splits)

lemma take_by_call_id:
  fixes e :: NormalizedEvent and tool :: ToolEvent and rs :: "str option" and errs :: "str list"
  assumes tab: "tables_ok st" and calls: "calls_ok K I st"
    and tk: "take_call k (as_by_call_id st, as_calls st) = (matched, pending', calls1)"
  defines "st' \<equiv> st\<lparr>as_by_call_id := pending', as_calls := place_result e tool rs errs matched calls1\<rparr>"
  shows "tables_ok st' \<and> calls_ok K I st' \<and> monotone_key K st st'"
proof -
  let ?calls' = "place_result e tool rs errs matched calls1"
  have idx: "i < length (as_calls st)" if "\<exists>s. bt_get (as_by_call_id st) k = Some s \<and> pending_index s = Some i" for i
    using tables_okD(3) [OF tab] that by blast
  note T = take_calls [OF tk]
  note B = tables_okD(1,2) [OF tab]
  have m: "\<forall>i. fst matched = Some i \<longrightarrow> i < length calls1" using T(1,4) idx by auto
  note P = place_result_calls [OF m, where e = e and tool = tool and rs = rs and errs = errs]
  have same: "same_identity (as_calls st ! j) (?calls' ! j)" if "j < length (as_calls st)" for j
    using T(1,2) P(2) that by (auto simp: same_identity_def)
  have grow: "calls_grow st st'" using same P(1) T(1) by (simp add: calls_grow_def st'_def)
  have keep: "at_status (?calls' ! j) = ToolUnknown"
    if "j < length (as_calls st)" "at_status (as_calls st ! j) = ToolUnknown" "fst matched \<noteq> Some j" for j
    using that T(1,3) P(3) by simp
  have moves: "table_moves (as_by_call_id st) pending' (\<lambda>k i. i < length ?calls' \<and> call_key (?calls' ! i) = Some k)"
  proof (cases "fst matched")
    case None
    then show ?thesis using T(5) table_moves_refl [OF B(1)] by (auto intro!: table_moves_insert [OF B(1)])
  next
    case (Some i)
    then show ?thesis using T(4) [OF Some] by (auto intro!: table_moves_insert [OF B(1)])
  qed
  have key: "key_moves K st st'"
  proof (cases "k = K")
    case False
    have untouched: "fst matched \<noteq> Some j" if "call_key (as_calls st ! j) = Some K" for j
      using that False T(4) [of j] tables_okD(3) [OF tab, of k "Waiting j" j] by auto
    have "bt_get pending' K = bt_get (as_by_call_id st) K"
      using T(4,5) False by (cases "fst matched") (auto simp: bt_get_insert)
    then show ?thesis using keep untouched by (intro key_moves_refl) (auto simp: st'_def)
  next
    case True
    show ?thesis
    proof (cases "fst matched")
      case (Some i)
      then show ?thesis using T(4) [OF Some] True by (auto simp: key_moves_def st'_def bt_get_insert)
    next
      case None
      show ?thesis
      proof (cases "\<exists>j. bt_get (as_by_call_id st) k = Some (CompletedCall j)")
        case True
        then obtain j where j: "bt_get (as_by_call_id st) k = Some (CompletedCall j)" by blast
        have T6: "pending' = bt_insert k AmbiguousCall (as_by_call_id st) \<and> calls1 = set_unknown j (as_calls st)"
          using T(6) [OF None j] by simp
        have "j < length (as_calls st)" using idx j by simp
        moreover from this have "?calls' ! j = set_unknown j (as_calls st) ! j" using P(3) None T(1) T6 by simp
        ultimately show ?thesis using T6 \<open>k = K\<close> j
          by (simp add: key_moves_def st'_def bt_get_insert)
      next
        case False
        then have "bt_get (as_by_call_id st) k = None \<or> bt_get (as_by_call_id st) k = Some AmbiguousCall"
          using T(7) [OF None] by (cases "bt_get (as_by_call_id st) k") auto
        then show ?thesis using T(8) [OF None] keep None \<open>k = K\<close> by (intro key_moves_refl) (auto simp: st'_def)
      qed
    qed
  qed
  have "tables_ok st' \<and> calls_ok K I st'"
    using moves P(4) T(1) table_moves_refl [OF B(2)]
    by (intro conjI assoc_step [OF tab calls grow _ _ key]) (auto simp: st'_def)
  then show ?thesis using key_moves_monotone [OF key] by blast
qed

lemma take_by_name:
  fixes e :: NormalizedEvent and tool :: ToolEvent and rs :: "str option" and errs :: "str list"
  assumes tab: "tables_ok st" and calls: "calls_ok K I st"
    and tk: "take_call k (as_by_name st, as_calls st) = (matched, pending', calls1)"
  defines "st' \<equiv> st\<lparr>as_by_name := pending', as_calls := place_result e tool rs errs matched calls1\<rparr>"
  shows "tables_ok st' \<and> calls_ok K I st' \<and> monotone_key K st st'"
proof -
  let ?calls' = "place_result e tool rs errs matched calls1"
  have at: "i < length (as_calls st) \<and> at_call_id (as_calls st ! i) = None"
    if "\<exists>s. bt_get (as_by_name st) k = Some s \<and> pending_index s = Some i" for i
    using tables_okD(4) [OF tab] that by blast
  note T = take_calls [OF tk]
  note B = tables_okD(2) [OF tab]
  have m: "\<forall>i. fst matched = Some i \<longrightarrow> i < length calls1" using T(1,4) at by auto
  note P = place_result_calls [OF m, where e = e and tool = tool and rs = rs and errs = errs]
  have grow: "calls_grow st st'" using T(1,2) P(1,2) by (auto simp: calls_grow_def st'_def same_identity_def)
  have moves: "table_moves (as_by_name st) pending' (\<lambda>k i. i < length ?calls' \<and> at_call_id (?calls' ! i) = None)"
  proof (cases "fst matched")
    case None
    then show ?thesis using T(5) table_moves_refl [OF B] by (auto intro!: table_moves_insert [OF B])
  next
    case (Some i)
    then show ?thesis using T(4) [OF Some] by (auto intro!: table_moves_insert [OF B])
  qed
  have untouched: "fst matched \<noteq> Some j" if "call_key (as_calls st ! j) = Some K" for j
    using that T(4) [of j] at [of j] by (auto simp: call_key_def)
  show ?thesis
  proof (rule assoc_step_by_name [OF tab calls _ grow])
    show "table_moves (as_by_name st) (as_by_name st') (\<lambda>k i. i < length (as_calls st') \<and> at_call_id (as_calls st' ! i) = None)"
      using moves by (simp add: st'_def)
    show "at_status (as_calls st' ! j) = ToolUnknown"
      if "j < length (as_calls st)" "call_key (as_calls st ! j) = Some K" "at_status (as_calls st ! j) = ToolUnknown" for j
      using T(1,3) P(3) untouched [OF that(2)] that by (simp add: st'_def)
    show "at_invocation_event_id (as_calls st' ! j) \<notin> Some ` I"
      if "length (as_calls st) \<le> j" "j < length (as_calls st')" for j
      using P(4) T(1) that by (simp add: st'_def)
  qed (simp add: st'_def)
qed

section \<open>A call identifier invoked twice\<close>

text \<open>The invocations of a key.\<close>

definition invokes :: "scope \<times> ToolCallId \<Rightarrow> NormalizedEvent \<Rightarrow> bool" where
  "invokes K e \<longleftrightarrow> ne_kind e = ToolInvocation \<and> scope_of e = fst K \<and> call_id e = Some (snd K)"

definition invocation_ids :: "scope \<times> ToolCallId \<Rightarrow> NormalizedEvent list \<Rightarrow> EventId set" where
  "invocation_ids K events = {i. \<exists>e\<in>set events. invokes K e \<and> ne_event_id e = Some i}"

text \<open>What the association knows of a key, and what one event may do to it.\<close>

definition knows :: "scope \<times> ToolCallId \<Rightarrow> EventId set \<Rightarrow> AssocState \<Rightarrow> bool" where
  "knows K I st \<longleftrightarrow> tables_ok st \<and> calls_ok K I st"

definition fits_key :: "scope \<times> ToolCallId \<Rightarrow> EventId set \<Rightarrow> NormalizedEvent \<Rightarrow> bool" where
  "fits_key K I e \<longleftrightarrow> (ne_kind e = Compaction \<longrightarrow> scope_of e \<noteq> fst K)
     \<and> (\<forall>i. scope_of e = fst K \<longrightarrow> ne_event_id e = Some i \<longrightarrow> i \<in> I \<longrightarrow> invokes K e)"

lemma retain_step:
  assumes "knows K I st" "sc \<noteq> fst K"
  shows "knows K I (retain_scopes sc st) \<and> monotone_key K st (retain_scopes sc st)"
proof -
  let ?st = "retain_scopes sc st"
  note tab = assms(1) [unfolded knows_def, THEN conjunct1] and calls = assms(1) [unfolded knows_def, THEN conjunct2]
  note F1 = bt_get_filter_other [OF tables_okD(1) [OF tab]]
  note F2 = bt_get_filter_other [OF tables_okD(2) [OF tab]]
  have kept: "bt_get (as_by_call_id ?st) K = bt_get (as_by_call_id st) K"
    using assms(2) by (cases K) (simp add: retain_scopes_def F1(2))
  have key: "key_moves K st ?st" using kept by (rule key_moves_refl) (simp add: retain_scopes_def)
  have grow: "calls_grow st ?st" by (simp add: calls_grow_def retain_scopes_def)
  have m1: "table_moves (as_by_call_id st) (as_by_call_id ?st)
      (\<lambda>k i. i < length (as_calls ?st) \<and> call_key (as_calls ?st ! i) = Some k)"
    unfolding table_moves_def retain_scopes_def using F1(1,3) by simp
  have m2: "table_moves (as_by_name st) (as_by_name ?st)
      (\<lambda>k i. i < length (as_calls ?st) \<and> at_call_id (as_calls ?st ! i) = None)"
    unfolding table_moves_def retain_scopes_def using F2(1,3) by simp
  have "tables_ok ?st \<and> calls_ok K I ?st"
    by (intro conjI assoc_step [OF tab calls grow m1 m2 key]) (simp_all add: retain_scopes_def)
  then show ?thesis using key_moves_monotone [OF key] by (simp add: knows_def)
qed

lemma direct_step:
  assumes "knows K I st" "\<And>i. call_key c = Some K \<Longrightarrow> at_invocation_event_id c = Some i \<Longrightarrow> i \<notin> I"
  shows "knows K I (st\<lparr>as_calls := as_calls st @ [c]\<rparr>) \<and> monotone_key K st (st\<lparr>as_calls := as_calls st @ [c]\<rparr>)"
proof -
  let ?st = "st\<lparr>as_calls := as_calls st @ [c]\<rparr>"
  note tab = assms(1) [unfolded knows_def, THEN conjunct1] and calls = assms(1) [unfolded knows_def, THEN conjunct2]
  have key: "key_moves K st ?st" by (rule key_moves_refl) (simp_all add: nth_append)
  have grow: "calls_grow st ?st" by (simp add: calls_grow_def nth_append)
  have "call_key (as_calls ?st ! j) \<noteq> Some K \<or> at_invocation_event_id (as_calls ?st ! j) \<noteq> Some i \<or> i \<notin> I"
    if "length (as_calls st) \<le> j" "j < length (as_calls ?st)" for j i
    using that assms(2) by (auto simp: nth_append less_Suc_eq)
  then have "tables_ok ?st \<and> calls_ok K I ?st"
    by (intro conjI assoc_step [OF tab calls grow _ _ key]) (auto simp: table_moves_refl tables_okD [OF tab])
  then show ?thesis using key_moves_monotone [OF key] by (simp add: knows_def)
qed

lemma event_step:
  assumes st: "knows K I st" and fits: "fits_key K I e" and step: "associate_new js max_chars e st = Some st'"
  shows "knows K I st' \<and> monotone_key K st st' \<and> as_seen st' = as_seen st
    \<and> (invokes K e \<longrightarrow> bt_get (as_by_call_id st') K \<noteq> None
         \<and> (bt_get (as_by_call_id st) K \<noteq> None \<longrightarrow> bt_get (as_by_call_id st') K = Some AmbiguousCall))"
proof -
  note tab = st [unfolded knows_def, THEN conjunct1] and calls = st [unfolded knows_def, THEN conjunct2]
  have same: "knows K I st \<and> monotone_key K st st" using st by (simp add: monotone_key_def)
  have "ne_kind e = Compaction \<and> st' = retain_scopes (scope_of e) st \<or> ne_tool e = None \<and> st' = st
      \<or> (\<exists>tool. ne_tool e = Some tool \<and>
            (ne_kind e = ToolInvocation \<and> associate_invocation js max_chars e tool st = Some st'
           \<or> ne_kind e = ToolResult \<and> associate_result max_chars e tool st = Some st'
           \<or> ne_kind e \<noteq> ToolInvocation \<and> associate_direct js max_chars e tool st = Some st'))"
    using step by (simp add: associate_new_def split: option.splits if_splits)
  then consider (compaction) "ne_kind e = Compaction" "st' = retain_scopes (scope_of e) st"
    | (silent) "ne_tool e = None" "st' = st"
    | (invocation) tool where "ne_kind e = ToolInvocation" "ne_tool e = Some tool" "associate_invocation js max_chars e tool st = Some st'"
    | (outcome) tool where "ne_kind e = ToolResult" "ne_tool e = Some tool" "associate_result max_chars e tool st = Some st'"
    | (direct) tool where "ne_kind e \<noteq> ToolInvocation" "ne_tool e = Some tool" "associate_direct js max_chars e tool st = Some st'"
    by (elim disjE exE conjE) metis+
  then show ?thesis
  proof cases
    case compaction
    then show ?thesis using retain_step [OF st] fits by (simp add: fits_key_def invokes_def retain_scopes_def)
  next
    case silent
    then show ?thesis using same by (simp add: invokes_def call_id_def)
  next
    case (invocation tool)
    from invocation(3) obtain args rs errs where parts: "associate_invocation js max_chars e tool st = Some st'"
        "arguments_part js (te_arguments tool) max_chars = Some args" "result_parts (te_result tool) max_chars = Some (rs, errs)"
      by (auto simp: associate_invocation_def bind_eq_Some_conv)
    let ?c = "call_of e tool (ne_event_id e) None (te_status tool) args rs errs"
    let ?done = "te_result tool \<noteq> None \<and> te_status tool \<in> {ToolSucceeded, ToolFailed}"
    show ?thesis
    proof (cases "te_call_id tool")
      case None
      obtain p cs where reg: "register_call (scope_of e, ne_turn_id e, te_name tool) (length (as_calls st)) True ?done
          (as_by_name st, as_calls st @ [?c]) = (p, cs)" by fastforce
      have "st' = st\<lparr>as_by_name := p, as_calls := cs\<rparr>"
        using parts reg None by (simp add: associate_invocation_def Let_def)
      moreover have "at_call_id ?c = None" using None by (simp add: call_of_def)
      ultimately show ?thesis using register_by_name [OF tab calls _ reg] invocation None
        by (simp add: knows_def invokes_def call_id_def)
    next
      case (Some cid)
      obtain p cs where reg: "register_call (scope_of e, cid) (length (as_calls st)) False ?done
          (as_by_call_id st, as_calls st @ [?c]) = (p, cs)" by fastforce
      have "st' = st\<lparr>as_by_call_id := p, as_calls := cs\<rparr>"
        using parts reg Some by (simp add: associate_invocation_def Let_def)
      moreover have "call_key ?c = Some (scope_of e, cid)"
        using Some by (simp add: call_of_def call_key_def call_scope_def scope_of_def)
      ultimately show ?thesis using register_by_call_id [OF tab calls _ reg] invocation Some
        by (auto simp: knows_def invokes_def call_id_def)
    qed
  next
    case (outcome tool)
    from outcome(3) obtain rs errs where parts: "result_parts (te_result tool) max_chars = Some (rs, errs)"
      by (auto simp: associate_result_def)
    show ?thesis
    proof (cases "te_call_id tool")
      case None
      obtain mt p cs where tk: "take_call (scope_of e, ne_turn_id e, te_name tool) (as_by_name st, as_calls st) = (mt, p, cs)"
        by (metis prod_cases3)
      then show ?thesis using take_by_name [OF tab calls tk, of e tool rs errs] outcome parts None
        by (auto simp: knows_def invokes_def associate_result_def)
    next
      case (Some cid)
      obtain mt p cs where tk: "take_call (scope_of e, cid) (as_by_call_id st, as_calls st) = (mt, p, cs)"
        by (metis prod_cases3)
      then show ?thesis using take_by_call_id [OF tab calls tk, of e tool rs errs] outcome parts Some
        by (auto simp: knows_def invokes_def associate_result_def)
    qed
  next
    case (direct tool)
    then obtain args rs errs where parts: "st' = st\<lparr>as_calls := as_calls st @
        [call_of e tool (ne_event_id e) (ne_event_id e) (te_status tool) args rs errs]\<rparr>"
      by (auto simp: associate_direct_def bind_eq_Some_conv)
    have "i \<notin> I" if "scope_of e = fst K" "ne_event_id e = Some i" for i
      using fits that direct(1) by (auto simp: fits_key_def invokes_def)
    then have "knows K I st' \<and> monotone_key K st st'" unfolding parts
      by (intro direct_step [OF st]) (auto simp: call_of_def call_key_def call_scope_def scope_of_def)
    then show ?thesis using direct(1) parts by (simp add: invokes_def)
  qed
qed

lemma seen_event_step:
  assumes st: "knows K I st" "seen_ok K I st" and fits: "fits_key K I e"
    and step: "associate_event js max_chars e st = Some st'"
  shows "knows K I st' \<and> seen_ok K I st' \<and> as_seen st \<subseteq> as_seen st'
    \<and> (\<forall>i. ne_event_id e = Some i \<longrightarrow> (scope_of e, i) \<in> as_seen st')"
proof (cases "ne_event_id e")
  case None
  have step': "associate_new js max_chars e st = Some st'" using step None by (simp add: associate_event_def)
  note E = event_step [OF st(1) fits step']
  then have mono: "monotone_key K st st'" and seen: "as_seen st' = as_seen st" by blast+
  then have "seen_ok K I st'" using st(2) unfolding seen_ok_def monotone_key_def by auto
  then show ?thesis using E None by simp
next
  case (Some i)
  show ?thesis
  proof (cases "(scope_of e, i) \<in> as_seen st")
    case True
    then show ?thesis using st step Some by (simp add: associate_event_def)
  next
    case False
    let ?st = "st\<lparr>as_seen := insert (scope_of e, i) (as_seen st)\<rparr>"
    have step': "associate_new js max_chars e ?st = Some st'" using step Some False by (simp add: associate_event_def)
    have st1: "knows K I ?st" using st(1) by (simp add: knows_def tables_ok_def calls_ok_def)
    note E = event_step [OF st1 fits step']
    have mono: "monotone_key K st st'" and seen: "as_seen st' = insert (scope_of e, i) (as_seen st)"
      using E by (simp_all add: monotone_key_def)
    have inv: "invokes K e" if "scope_of e = fst K" "i \<in> I" using fits Some that by (simp add: fits_key_def)
    have now: "bt_get (as_by_call_id st') K \<noteq> None"
        "bt_get (as_by_call_id st) K \<noteq> None \<Longrightarrow> bt_get (as_by_call_id st') K = Some AmbiguousCall"
      if "scope_of e = fst K" "i \<in> I" using E inv [OF that] by simp_all
    have "seen_ok K I st'" unfolding seen_ok_def
    proof (intro conjI ballI impI)
      fix i0 assume i0: "i0 \<in> I" "(fst K, i0) \<in> as_seen st'"
      show "bt_get (as_by_call_id st') K \<noteq> None"
      proof (cases "(fst K, i0) \<in> as_seen st")
        case True
        then show ?thesis using seen_okD(1) [OF st(2) i0(1)] mono by (simp add: monotone_key_def)
      next
        case False
        then show ?thesis using now(1) i0 seen by auto
      qed
    next
      fix a b assume ab: "a \<in> I" "b \<in> I" "a \<noteq> b" "(fst K, a) \<in> as_seen st'" "(fst K, b) \<in> as_seen st'"
      consider "(fst K, a) \<in> as_seen st" "(fst K, b) \<in> as_seen st"
        | x where "scope_of e = fst K" "i \<in> I" "x \<in> I" "(fst K, x) \<in> as_seen st"
        using ab seen by auto
      then show "bt_get (as_by_call_id st') K = Some AmbiguousCall"
      proof cases
        case 1
        then show ?thesis using seen_okD(2) [OF st(2) ab(1-3)] mono by (simp add: monotone_key_def)
      next
        case (2 x)
        then show ?thesis using now(2) seen_okD(1) [OF st(2)] by blast
      qed
    qed
    then show ?thesis using E seen Some by auto
  qed
qed

lemma associate_loop_knows:
  assumes "knows K I st" "seen_ok K I st" "\<forall>e\<in>set events. fits_key K I e" "associate_loop js max_chars events st = Some st'"
  shows "knows K I st' \<and> seen_ok K I st' \<and> as_seen st \<subseteq> as_seen st'
    \<and> (\<forall>e\<in>set events. \<forall>i. ne_event_id e = Some i \<longrightarrow> (scope_of e, i) \<in> as_seen st')"
  using assms
proof (induction events arbitrary: st)
  case (Cons e es)
  from Cons.prems(4) obtain st1 where s1: "associate_event js max_chars e st = Some st1" "associate_loop js max_chars es st1 = Some st'"
    by (auto simp: bind_eq_Some_conv)
  have E: "knows K I st1 \<and> seen_ok K I st1 \<and> as_seen st \<subseteq> as_seen st1
      \<and> (\<forall>i. ne_event_id e = Some i \<longrightarrow> (scope_of e, i) \<in> as_seen st1)"
    using seen_event_step [OF Cons.prems(1,2) _ s1(1)] Cons.prems(3) by simp
  have "knows K I st' \<and> seen_ok K I st' \<and> as_seen st1 \<subseteq> as_seen st'
    \<and> (\<forall>e\<in>set es. \<forall>i. ne_event_id e = Some i \<longrightarrow> (scope_of e, i) \<in> as_seen st')"
    using Cons.IH [OF _ _ _ s1(2)] E Cons.prems(3) by simp
  then show ?case using E by auto
qed simp

lemma invoked_twice_unknown:
  assumes free: "conflict_free events" and run: "associate_tool_events js events max_chars = Some calls"
    and twice: "i1 \<in> invocation_ids K events" "i2 \<in> invocation_ids K events" "i1 \<noteq> i2"
    and epoch: "\<forall>e\<in>set events. ne_kind e = Compaction \<longrightarrow> scope_of e \<noteq> fst K"
    and c: "c \<in> set calls" "call_key c = Some K" "at_invocation_event_id c = Some i" "i \<in> invocation_ids K events"
  shows "at_status c = ToolUnknown"
proof -
  let ?I = "invocation_ids K events"
  have key: "lineage_key e = Some (fst sc, snd sc, i)" if "scope_of e = sc" "ne_event_id e = Some i" for e i sc
    using that by (auto simp: lineage_key_def scope_of_def)
  have fits: "fits_key K ?I e" if e: "e \<in> set events" for e unfolding fits_key_def
  proof (intro conjI allI impI)
    fix i assume a: "scope_of e = fst K" "ne_event_id e = Some i" "i \<in> ?I"
    then obtain e' where e': "e' \<in> set events" "invokes K e'" "ne_event_id e' = Some i" by (auto simp: invocation_ids_def)
    then have "e = e'" using conflict_freeD [OF free e e'(1) key [OF a(1,2)] key] by (simp add: invokes_def)
    then show "invokes K e" using e'(2) by simp
  qed (use epoch e in blast)
  let ?st = "\<lparr>as_calls = [], as_by_call_id = [], as_by_name = [], as_seen = {}\<rparr>"
  obtain st where st: "associate_loop js max_chars events ?st = Some st" "calls = as_calls st"
    using run by (auto simp: associate_tool_events_def)
  have start: "knows K ?I ?st" "seen_ok K ?I ?st"
    by (simp_all add: knows_def tables_ok_def calls_ok_def seen_ok_def bt_empty)
  have R: "knows K ?I st \<and> seen_ok K ?I st \<and> as_seen ?st \<subseteq> as_seen st
      \<and> (\<forall>e\<in>set events. \<forall>i. ne_event_id e = Some i \<longrightarrow> (scope_of e, i) \<in> as_seen st)"
    using associate_loop_knows [OF start _ st(1)] fits by blast
  have "(fst K, i) \<in> as_seen st" if "i \<in> ?I" for i
    using that R by (auto simp: invocation_ids_def invokes_def)
  then have amb: "bt_get (as_by_call_id st) K = Some AmbiguousCall"
    using R twice seen_okD(2) by blast
  obtain j where "j < length (as_calls st)" "c = as_calls st ! j" using c(1) st(2) by (auto simp: in_set_conv_nth)
  then show ?thesis using R amb c(2-4) calls_okD [of K ?I st j i] by (auto simp: knows_def)
qed

text \<open>
  A call identifier that two invocations share never yields evidence. When the records are consistent, no
  compaction separates the epochs of the scope and two different events invoke a tool under one call
  identifier, every call made for one of them ends with an unknown outcome, however many results follow and in whatever
  order, so none of them is turned into a load record.
\<close>

theorem ambiguous_calls_never_succeed:
  assumes "conflict_free events" "associate_tool_events js events max_chars = Some calls"
    and "i1 \<in> invocation_ids K events" "i2 \<in> invocation_ids K events" "i1 \<noteq> i2"
    and "\<forall>e\<in>set events. ne_kind e = Compaction \<longrightarrow> scope_of e \<noteq> fst K"
    and "c \<in> set calls" "call_key c = Some K" "at_invocation_event_id c = Some i" "i \<in> invocation_ids K events"
  shows "at_status c = ToolUnknown \<and> loaded_record resolver branch epoch c = None"
proof -
  have "at_status c = ToolUnknown" by (rule invoked_twice_unknown [OF assms])
  then show ?thesis by (simp add: loaded_record_def split: option.splits)
qed

section \<open>Concrete instances\<close>

definition te_demo_json :: Json where
  "te_demo_json = \<lparr>js_from_str = (\<lambda>_. None), js_to_text = (\<lambda>_. [])\<rparr>"

definition te_demo_event :: "str \<Rightarrow> EventKind \<Rightarrow> ToolStatus \<Rightarrow> NormalizedEvent" where
  "te_demo_event i kind status =
     \<lparr>ne_event_id = Some i, ne_parent_id = None, ne_turn_id = None, ne_agent_id = None, ne_branch_id = None,
      ne_role = RoleAssistant, ne_kind = kind, ne_timestamp_unix_ms = None, ne_text = [],
      ne_tool = Some \<lparr>te_call_id = Some [99], te_name = [120], te_status = status, te_arguments = None, te_result = None\<rparr>\<rparr>"

definition te_demo_events :: "NormalizedEvent list" where
  "te_demo_events = [te_demo_event [49] ToolInvocation ToolAttempted, te_demo_event [50] ToolInvocation ToolAttempted,
     te_demo_event [51] ToolResult ToolSucceeded]"

definition te_demo_match :: SkillMatch where
  "te_demo_match = \<lparr>sm_skill_id = [115], sm_usage_kind = UsageReference, sm_source_content = None,
     sm_rendered_content = None, sm_has_dynamic_arguments = False, sm_turn_scoped = False\<rparr>"

definition te_demo_call :: "str option \<Rightarrow> str option \<Rightarrow> AssociatedToolCall" where
  "te_demo_call invoked res =
     \<lparr>at_call_id = Some [99], at_invocation_event_id = invoked, at_result_event_id = res, at_turn_id = None,
      at_agent_id = None, at_branch_id = None, at_tool_name = [120], at_status = ToolUnknown,
      at_raw_arguments = None, at_raw_result = None, at_arguments_summary = None, at_result_summary = None, at_error_lines = []\<rparr>"

definition te_demo_key :: "scope \<times> ToolCallId" where "te_demo_key = ((None, None), [99])"

lemma te_demo_run: "associate_tool_events te_demo_json te_demo_events 200 =
    Some [te_demo_call (Some [49]) None, te_demo_call (Some [50]) None, te_demo_call None (Some [51])]"
  by code_simp

lemma te_demo_ids: "invocation_ids te_demo_key te_demo_events = {[49], [50]}"
  by (auto simp: invocation_ids_def te_demo_key_def te_demo_events_def te_demo_event_def invokes_def scope_of_def call_id_def)

theorem ambiguous_calls_never_succeed_witness:
  "at_status (te_demo_call (Some [49]) None) = ToolUnknown
   \<and> loaded_record (\<lambda>_ _. Some te_demo_match) None [] (te_demo_call (Some [49]) None) = None"
proof (rule ambiguous_calls_never_succeed [OF _ te_demo_run])
  show "conflict_free te_demo_events"
    by (auto simp: conflict_free_def te_demo_events_def te_demo_event_def lineage_key_def)
  show "[49] \<in> invocation_ids te_demo_key te_demo_events" "[50] \<in> invocation_ids te_demo_key te_demo_events"
    "[49] \<in> invocation_ids te_demo_key te_demo_events"
    by (simp_all add: te_demo_ids)
  show "\<forall>e\<in>set te_demo_events. ne_kind e = Compaction \<longrightarrow> scope_of e \<noteq> fst te_demo_key"
    by (simp add: te_demo_events_def te_demo_event_def)
  show "call_key (te_demo_call (Some [49]) None) = Some te_demo_key"
    by (simp add: te_demo_call_def te_demo_key_def call_key_def call_scope_def)
qed (simp_all add: te_demo_call_def)

section \<open>Truncated text fits\<close>

lemma radix_length_mono: "1 < b \<Longrightarrow> m \<le> n \<Longrightarrow> length (radix b m) \<le> length (radix b n)"
proof (induction n arbitrary: m rule: less_induct)
  case (less n)
  show ?case
  proof (cases "m < b")
    case True
    then show ?thesis using less.prems by (subst radix.simps, subst (2) radix.simps) simp
  next
    case False
    then have "m div b \<le> n div b" "n div b < n" using less.prems by (auto simp: div_le_mono)
    from less.IH [OF this(2) less.prems(1) this(1)] show ?thesis
      using False less.prems by (subst radix.simps, subst (2) radix.simps) simp
  qed
qed

lemma dec_length_mono: "m \<le> n \<Longrightarrow> length (dec m) \<le> length (dec n)"
  by (simp add: dec_def radix_length_mono)

lemma head_end_loop_limit: "at \<le> limit \<Longrightarrow> head_end_loop ms at limit \<le> limit"
proof (induction ms at limit rule: head_end_loop.induct)
  case (2 before after ms at limit)
  have "space < str_len (marker_lead before)" if "rfind_char is_whitespace (marker_lead before) = Some space" for space
    using rfind_char_spec [OF that] by auto
  then have "space + 1 \<le> limit" if "rfind_char is_whitespace (marker_lead before) = Some space" "\<not> at < str_len (marker_lead before)" for space
    using that 2(2) by fastforce
  then show ?case using 2 by (auto simp: Let_def split: option.splits)
qed simp

lemma redacted_head_end_limit: "at \<le> limit \<Longrightarrow> redacted_head_end text at limit \<le> limit"
  by (simp add: redacted_head_end_def head_end_loop_limit)

lemma slice_to_length:
  assumes "slice_to text n = Some h" "n \<le> byte_at text k"
  shows "length h \<le> k"
proof -
  obtain q where q: "text = h @ q" "str_len h = n" using assms(1) by (auto simp: slice_to_iff)
  have "h @ q = take k text @ drop k text" unfolding append_take_drop_id by (rule q(1) [symmetric])
  moreover have "str_len h \<le> str_len (take k text)" using q(2) assms(2) by (simp only: byte_at_def)
  ultimately have "length h \<le> length (take k text)" by (rule prefix_len_less)
  then show ?thesis unfolding length_take by (rule min.boundedE)
qed

lemma slice_from_length:
  assumes "slice_from text n = Some t" "byte_at text k \<le> n" "k \<le> length text"
  shows "length t \<le> length text - k"
proof -
  obtain p where p: "text = p @ t" "str_len p = n" using assms(1) by (auto simp: slice_from_iff)
  have "take k text @ drop k text = p @ t" unfolding append_take_drop_id by (rule p(1))
  moreover have "str_len (take k text) \<le> str_len p" using p(2) assms(2) by (simp only: byte_at_def)
  ultimately have "length (take k text) \<le> length p" by (rule prefix_len_less)
  then have "k \<le> length p" using assms(3) by simp
  moreover have "length text = length p + length t" using p(1) by simp
  ultimately show ?thesis by linarith
qed

lemma byte_at_mono: "a \<le> b \<Longrightarrow> byte_at text a \<le> byte_at text b"
proof -
  assume "a \<le> b"
  then have "take b text = take a text @ take (b - a) (drop a text)" by (metis le_add_diff_inverse take_add)
  then show ?thesis by (simp add: byte_at_def)
qed

lemma omission_marker_length: "length (omission_marker n) = length n + 26"
  by (simp add: omission_marker_def scalars_def)

lemma slice_omitted_length:
  assumes "slice text a b = Some m"
  shows "length m \<le> length text"
  using assms by (auto simp: slice_iff)

lemma head_tail_truncate_fits:
  assumes "head_tail_truncate text n = Some t"
  shows "length t \<le> n"
proof (cases "length text \<le> n")
  case True
  then show ?thesis using assms by (simp add: head_tail_truncate_def)
next
  case long: False
  let ?marker = "length (omission_marker (replicate (length (dec (length text)) + 1) 48))"
  show ?thesis
  proof (cases "n \<le> ?marker")
    case True
    show ?thesis
    proof (cases "n = 0")
      case False
      let ?at = "byte_at text (n - 1)"
      let ?e = "redacted_head_end text ?at ?at"
      have e: "?e \<le> ?at" by (simp add: redacted_head_end_limit)
      obtain h where h: "slice_to text ?e = Some h"
        and t: "t = h @ ELLIPSIS \<or> length h + 2 \<le> n \<and> t = h @ [32] @ ELLIPSIS
          \<or> (\<exists>h'. slice_to text (redacted_head_end text (?e - 1) (?e - 1)) = Some h' \<and> t = h' @ ELLIPSIS)"
        using assms long True False
        by (auto simp: head_tail_truncate_def Let_def bind_eq_Some_conv split: if_splits)
      have "length h \<le> n - 1" by (rule slice_to_length [OF h e])
      moreover have "length h' \<le> n - 1" if "slice_to text (redacted_head_end text (?e - 1) (?e - 1)) = Some h'" for h'
        using redacted_head_end_limit [of "?e - 1" "?e - 1" "text"] e by (intro slice_to_length [OF that]) linarith
      ultimately show ?thesis using t False by (fastforce simp: ELLIPSIS_def)
    qed (use assms long True in \<open>simp add: head_tail_truncate_def Let_def\<close>)
  next
    case False
    let ?budget = "n - ?marker"
    let ?head_end = "redacted_head_end text (byte_at text (?budget div 2)) (byte_at text ?budget)"
    have he: "?head_end \<le> byte_at text ?budget" by (rule redacted_head_end_limit) (simp add: byte_at_mono)
    obtain h omitted tail where h: "slice_to text ?head_end = Some h"
      and o: "slice text ?head_end (max (redacted_tail_start text (byte_at text (length text - (?budget - length h)))) ?head_end) = Some omitted"
      and tl: "slice_from text (max (redacted_tail_start text (byte_at text (length text - (?budget - length h)))) ?head_end) = Some tail"
      and t: "t = h @ omission_marker (scalars (dec (length omitted))) @ tail"
      using assms long False by (auto simp: head_tail_truncate_def Let_def bind_eq_Some_conv split: if_splits)
    have "length h \<le> ?budget" by (rule slice_to_length [OF h he])
    moreover have "length tail \<le> length text - (length text - (?budget - length h))"
    proof (rule slice_from_length [OF tl])
      show "byte_at text (length text - (?budget - length h))
          \<le> max (redacted_tail_start text (byte_at text (length text - (?budget - length h)))) ?head_end"
        using redacted_tail_start_spec(2) [OF boundary_byte_at] by (simp add: le_max_iff_disj)
    qed simp
    moreover have "length (dec (length omitted)) \<le> length (dec (length text))"
      by (rule dec_length_mono) (rule slice_omitted_length [OF o])
    ultimately show ?thesis using False by (simp add: t omission_marker_length scalars_def)
  qed
qed

end
