(* ===== verification/Suppression.thy ===== *)
theory Suppression
  imports Eligibility Tool_Evidence
begin

text \<open>
  From transcript to suppression: \<open>context/branch/lineage.rs\<close> resolves the branch, \<open>context/tool.rs\<close> extracts
  its load records, \<open>context/branch.rs\<close> and \<open>eligibility.rs\<close> decide on them. The epochs that carry the
  argument are context labels, so their names must be read back.
\<close>

section \<open>Epochs\<close>

lemma epoch_scalars: "c \<in> set (scalars (''epoch-'' @ dec n)) \<Longrightarrow> \<not> forbidden_identity_character c"
proof -
  assume "c \<in> set (scalars (''epoch-'' @ dec n))"
  then have "c \<in> of_char ` (set ''epoch-0123456789abcdef'')"
    using set_radix [of 10 n] by (auto simp: scalars_def dec_def)
  then show ?thesis
    by (auto simp: forbidden_identity_character_def is_whitespace_def is_control_def is_directional_def)
qed

lemma str_len_scalars_le: "str_len (scalars s) \<le> 2 * length s"
proof (induction s)
  case (Cons a s)
  have small: "of_char a < (2048 :: nat)" by (rule less_trans [of _ 256]) simp_all
  moreover have "of_char a < (65536 :: nat)" by (rule less_trans [OF small]) simp
  ultimately have "utf8_len (of_char a) \<le> 2" by (simp add: utf8_len_def)
  then show ?case using Cons by (simp add: str_len_def scalars_def)
qed (simp add: str_len_def scalars_def)

lemma epoch_name_u64:
  assumes "n \<le> U64_MAX"
  shows "epoch_name n = scalars (''epoch-'' @ dec n)"
proof -
  have "length (dec n) \<le> 20" unfolding dec_def by (rule length_radix) (use assms in \<open>simp_all add: U64_MAX_def\<close>)
  then have "str_len (scalars (''epoch-'' @ dec n)) \<le> MAX_ID_BYTES"
    using str_len_scalars_le [of "''epoch-'' @ dec n"] by (simp add: MAX_ID_BYTES_def)
  moreover have "scalars (''epoch-'' @ dec n) \<noteq> []" by (simp add: scalars_def)
  ultimately have "validate_id (scalars (''epoch-'' @ dec n)) = Ok ()"
    using epoch_scalars [of _ n] unfolding validate_id_Ok by blast
  then show ?thesis by (simp add: epoch_name_def)
qed

lemma epoch_name_inj: "n \<le> U64_MAX \<Longrightarrow> m \<le> U64_MAX \<Longrightarrow> epoch_name n = epoch_name m \<Longrightarrow> n = m"
  using dec_inj [of n m] scalars_inj [of "''epoch-'' @ dec n" "''epoch-'' @ dec m"] by (simp add: epoch_name_u64)

text \<open>The epoch of an identifier is the one of its last event: the compactions up to and with that event.\<close>

lemma epochs_loop_get:
  assumes "bt_sorted m" "n + length es \<le> U64_MAX" "bt_get (epochs_loop n es m) i = Some epoch"
  shows "bt_get m i = Some epoch \<and> (\<forall>e\<in>set es. ne_event_id e \<noteq> Some i)
    \<or> (\<exists>p < length es. ne_event_id (es ! p) = Some i \<and> epoch = epoch_name (n + count_kind Compaction (take (Suc p) es)))"
  using assms
proof (induction es arbitrary: n m)
  case (Cons e es)
  let ?n = "if ne_kind e = Compaction then n + 1 else n"
  let ?m = "case ne_event_id e of Some i \<Rightarrow> bt_insert i (epoch_name ?n) m | None \<Rightarrow> m"
  have wrap: "(if ne_kind e = Compaction then wrapping_add64 n 1 else n) = ?n"
    using Cons.prems(2) by (simp add: wrapping_add64_exact)
  have sorted: "bt_sorted ?m" using Cons.prems(1) by (simp add: bt_sorted_insert split: option.splits)
  have run: "bt_get (epochs_loop ?n es ?m) i = Some epoch"
    using Cons.prems(3) by (simp only: epochs_loop.simps Let_def wrap)
  have "?n + length es \<le> U64_MAX" using Cons.prems(2) by simp
  from Cons.IH [OF sorted this run] consider
      "bt_get ?m i = Some epoch" "\<forall>e\<in>set es. ne_event_id e \<noteq> Some i"
    | p where "p < length es" "ne_event_id (es ! p) = Some i" "epoch = epoch_name (?n + count_kind Compaction (take (Suc p) es))"
    by blast
  then show ?case
  proof cases
    case 1
    show ?thesis
    proof (cases "ne_event_id e = Some i")
      case True
      then have "epoch = epoch_name (n + count_kind Compaction (take (Suc 0) (e # es)))"
        using 1(1) Cons.prems(1) by (auto simp: bt_get_insert count_kind_def)
      then show ?thesis using True by (intro disjI2 exI [of _ 0]) simp
    next
      case False
      then show ?thesis using 1 Cons.prems(1) by (auto simp: bt_get_insert split: option.splits)
    qed
  next
    case (2 p)
    then show ?thesis by (intro disjI2 exI [of _ "Suc p"]) (simp add: count_kind_def)
  qed
qed simp

lemma event_epochs_get:
  assumes "length (br_events b) \<le> U64_MAX" "bt_get (event_epochs b) i = Some epoch"
  obtains p where "p < length (br_events b)" "ne_event_id (br_events b ! p) = Some i"
    "epoch = epoch_name (count_kind Compaction (take (Suc p) (br_events b)))"
  using epochs_loop_get [of "[]" 0 "br_events b" i epoch] assms
  by (auto simp: event_epochs_def bt_empty)

lemma count_kind_le: "count_kind k es \<le> length es" "count_kind k (take n es) \<le> length es"
  using length_filter_le [of "\<lambda>e. ne_kind e = k" es] length_filter_le [of "\<lambda>e. ne_kind e = k" "take n es"]
  by (simp_all add: count_kind_def)

lemma no_compaction_after:
  assumes "count_kind Compaction (take (Suc p) es) = count_kind Compaction es" "p < j" "j < length es"
  shows "ne_kind (es ! j) \<noteq> Compaction"
proof -
  have "count_kind Compaction es = count_kind Compaction (take (Suc p) es) + count_kind Compaction (drop (Suc p) es)"
    by (simp only: count_kind_def length_append [symmetric] filter_append [symmetric] append_take_drop_id)
  then have "count_kind Compaction (drop (Suc p) es) = 0" using assms(1) by simp
  then have none: "\<forall>e \<in> set (drop (Suc p) es). ne_kind e \<noteq> Compaction" by (simp add: count_kind_def filter_empty_conv)
  have "drop (Suc p) es ! (j - Suc p) \<in> set (drop (Suc p) es)" by (rule nth_mem) (use assms(2,3) in simp)
  then have "es ! j \<in> set (drop (Suc p) es)" using assms(2,3) by simp
  then show ?thesis using none by simp
qed

section \<open>The evidence behind a suppression\<close>

lemma proven_loadedD:
  assumes "proven_loaded skill \<lparr>lo_branch = Some b, lo_records = records\<rparr>"
  obtains r i where "r \<in> set records" "ld_skill_id r = bi_id (as_binding skill)" "ld_event_id r = Some i"
    "ld_epoch r = br_current_epoch b" "ld_source_content r = Some (sk_source_content (as_record skill))"
proof -
  have "proving_record (bi_id (as_binding skill)) (Some (sk_source_content (as_record skill))) (sk_rendered_content (as_record skill))
      (event_id_set b) (br_current_epoch b) records"
    using assms by (simp add: proven_loaded_def evaluate_loaded_skill_eligibility_def Let_def split: if_splits)
  then show ?thesis using that unfolding proving_record_iff proves_presence_def by auto
qed

lemma loaded_record_branch:
  assumes "loaded_record resolver (Some b) epoch call = Some r"
  shows "at_status call = ToolSucceeded \<and> at_error_lines call = [] \<and> load_event_id call = ld_event_id r
    \<and> (\<exists>i. ld_event_id r = Some i \<and> bt_get (event_epochs b) i = Some (ld_epoch r))"
  using assms by (auto simp: loaded_record_def split: option.splits if_splits)

text \<open>
  C23. A suppression always rests on a load that is still in the context. Resolve a branch from a transcript, extract
  the load records of any events on it and suppose the eligibility rules take a skill as already loaded. Then a tool call succeeded without
  error lines, loaded that skill in the version the roster has now, and the event that carries the load stands on the
  branch with no compaction after it: no later compaction can have dropped the content from the context.
\<close>

theorem suppressed_only_since_last_compaction:
  assumes resolved: "resolve fuel transcript target responses = Some (Resolved b)"
    and records: "extract_loaded_skill_records js events resolver (Some b) epoch = Some records"
    and loaded: "proven_loaded skill \<lparr>lo_branch = Some b, lo_records = records\<rparr>"
    and size: "length (br_events b) \<le> U64_MAX"
  shows "\<exists>calls call r p.
      associate_tool_events js (active_tool_events events (Some b)) DEFAULT_TOOL_EXCERPT_CHARS = Some calls
    \<and> call \<in> set calls \<and> at_status call = ToolSucceeded \<and> at_error_lines call = []
    \<and> loaded_record resolver (Some b) epoch call = Some r \<and> ld_skill_id r = bi_id (as_binding skill)
    \<and> ld_source_content r = Some (sk_source_content (as_record skill))
    \<and> p < length (br_events b) \<and> ne_event_id (br_events b ! p) = load_event_id call
    \<and> (\<forall>j. p < j \<and> j < length (br_events b) \<longrightarrow> ne_kind (br_events b ! j) \<noteq> Compaction)"
proof -
  obtain r i where r: "r \<in> set records" "ld_skill_id r = bi_id (as_binding skill)" "ld_event_id r = Some i"
      "ld_epoch r = br_current_epoch b" "ld_source_content r = Some (sk_source_content (as_record skill))"
    by (rule proven_loadedD [OF loaded])
  obtain calls where calls: "associate_tool_events js (active_tool_events events (Some b)) DEFAULT_TOOL_EXCERPT_CHARS = Some calls"
      "records = List.map_filter (loaded_record resolver (Some b) epoch) calls"
    using records by (auto simp: extract_loaded_skill_records_def)
  obtain call where call: "call \<in> set calls" "loaded_record resolver (Some b) epoch call = Some r"
    using r(1) calls(2) by (auto simp: in_map_filter)
  note L = loaded_record_branch [OF call(2)]
  then have "bt_get (event_epochs b) i = Some (br_current_epoch b)" using r by simp
  then obtain p where p: "p < length (br_events b)" "ne_event_id (br_events b ! p) = Some i"
      "br_current_epoch b = epoch_name (count_kind Compaction (take (Suc p) (br_events b)))"
    using event_epochs_get [OF size] by blast
  have "br_current_epoch b = epoch_name (count_kind Compaction (br_events b))"
    using resolve_Resolved [OF resolved] by auto
  moreover have "count_kind Compaction (take (Suc p) (br_events b)) \<le> U64_MAX" "count_kind Compaction (br_events b) \<le> U64_MAX"
    using size count_kind_le [of Compaction] by (meson le_trans)+
  ultimately have "count_kind Compaction (take (Suc p) (br_events b)) = count_kind Compaction (br_events b)"
    using p(3) epoch_name_inj by metis
  note after = no_compaction_after [OF this]
  show ?thesis
    by (rule exI [of _ calls], rule exI [of _ call], rule exI [of _ r], rule exI [of _ p])
      (use calls(1) call L r p after in simp)
qed

section \<open>A concrete instance\<close>

definition sp_demo_event :: NormalizedEvent where
  "sp_demo_event =
     \<lparr>ne_event_id = Some [49], ne_parent_id = None, ne_turn_id = None, ne_agent_id = None, ne_branch_id = None,
      ne_role = RoleAssistant, ne_kind = ToolInvocation, ne_timestamp_unix_ms = None, ne_text = [],
      ne_tool = Some \<lparr>te_call_id = None, te_name = [120], te_status = ToolSucceeded, te_arguments = None,
        te_result = Some []\<rparr>\<rparr>"

definition sp_demo_branch :: ActiveBranch where
  "sp_demo_branch = \<lparr>br_branch_id = None, br_leaf_event_id = Some [49], br_events = [sp_demo_event],
     br_current_epoch = scalars ''epoch-0'', br_compaction_count = 0, br_task_boundary_count = 0,
     br_ancestor_chain_truncated = False\<rparr>"

definition sp_demo_resolver :: tool_resolver where
  "sp_demo_resolver = (\<lambda>_ _. Some \<lparr>sm_skill_id = [115], sm_usage_kind = UsageReference, sm_source_content = Some [104],
     sm_rendered_content = None, sm_has_dynamic_arguments = False, sm_turn_scoped = False\<rparr>)"

definition sp_demo_record :: LoadedSkillRecord where
  "sp_demo_record = \<lparr>ld_skill_id = [115], ld_event_id = Some [49], ld_turn_id = None, ld_usage_kind = UsageReference,
     ld_epoch = scalars ''epoch-0'', ld_source_content = Some [104], ld_rendered_content = None,
     ld_has_dynamic_arguments = False, ld_turn_scoped = False\<rparr>"

definition sp_demo_skill :: AdvisorySkill where
  "sp_demo_skill = (sample_skill [115])\<lparr>as_record := (as_record (sample_skill [115]))\<lparr>sk_usage_kind := Reference,
     sk_source_content := [104]\<rparr>\<rparr>"

lemma sp_demo_resolved:
  "resolve 3 [sp_demo_event] \<lparr>tg_event_id = None, tg_branch_id = None, tg_agent_id = None\<rparr> [] = Some (Resolved sp_demo_branch)"
  by code_simp

lemma sp_demo_records:
  "extract_loaded_skill_records te_demo_json [sp_demo_event] sp_demo_resolver (Some sp_demo_branch) [] = Some [sp_demo_record]"
  by code_simp

theorem suppressed_only_since_last_compaction_witness:
  "\<exists>calls call r p.
      associate_tool_events te_demo_json (active_tool_events [sp_demo_event] (Some sp_demo_branch)) DEFAULT_TOOL_EXCERPT_CHARS = Some calls
    \<and> call \<in> set calls \<and> at_status call = ToolSucceeded \<and> at_error_lines call = []
    \<and> loaded_record sp_demo_resolver (Some sp_demo_branch) [] call = Some r \<and> ld_skill_id r = bi_id (as_binding sp_demo_skill)
    \<and> ld_source_content r = Some (sk_source_content (as_record sp_demo_skill))
    \<and> p < length (br_events sp_demo_branch) \<and> ne_event_id (br_events sp_demo_branch ! p) = load_event_id call
    \<and> (\<forall>j. p < j \<and> j < length (br_events sp_demo_branch) \<longrightarrow> ne_kind (br_events sp_demo_branch ! j) \<noteq> Compaction)"
proof (rule suppressed_only_since_last_compaction [OF sp_demo_resolved sp_demo_records])
  show "proven_loaded sp_demo_skill \<lparr>lo_branch = Some sp_demo_branch, lo_records = [sp_demo_record]\<rparr>"
    by (simp add: proven_loaded_def evaluate_loaded_skill_eligibility_def sp_demo_skill_def sample_skill_def sp_demo_record_def
        sp_demo_branch_def event_id_set_def sp_demo_event_def map_filter_def)
qed (simp add: sp_demo_branch_def U64_MAX_def)

end
