(* ===== verification/Codec.thy ===== *)
theory Codec
  imports Redaction Outcomes Identity Ordered_Map F64 "HOL-Library.Countable"
begin

text \<open>
  Model of \<open>src/src/jev/codec.rs\<close> and \<open>src/src/jev/cloudflare_codec.rs\<close>, with the depth check and the
  duplicate-rejecting JSON reader of \<open>src/src/output/mod.rs\<close>: requests and their two wire encodings, and
  the validation of an answer against the request it belongs to. The serde crates are the fields of a
  \<open>Serde\<close>; a \<open>Value\<close> keeps its object entries in order, so it also stands for the token stream
  that the reader visits.
\<close>

section \<open>JSON values\<close>

definition MAX_OUTPUT_DEPTH :: nat where "MAX_OUTPUT_DEPTH = 64"

definition MAX_REQUEST_BYTES :: usize where "MAX_REQUEST_BYTES = 98304"

definition MAX_RESPONSE_BYTES :: usize where "MAX_RESPONSE_BYTES = 2097152"

definition MAX_CHOICE_OPTIONS :: usize where "MAX_CHOICE_OPTIONS = 255"

definition SUM_TOLERANCE :: f64 where "SUM_TOLERANCE = f64_of False (1 / 10)"

fun value_get :: "Value \<Rightarrow> string \<Rightarrow> Value option" where
  "value_get (Object kvs) k = map_of kvs (scalars k)"
| "value_get _ k = None"

fun is_object :: "Value \<Rightarrow> bool" where
  "is_object (Object _) = True"
| "is_object _ = False"

fun check_depth :: "Value \<Rightarrow> nat \<Rightarrow> bool" where
  "check_depth (Array vs) depth = (depth \<le> MAX_OUTPUT_DEPTH \<and> (\<forall>v \<in> set vs. check_depth v (depth + 1)))"
| "check_depth (Object kvs) depth = (depth \<le> MAX_OUTPUT_DEPTH \<and> (\<forall>kv \<in> set kvs. check_depth (snd kv) (depth + 1)))"
| "check_depth _ depth = (depth \<le> MAX_OUTPUT_DEPTH)"

text \<open>\<open>JsonSeed\<close>: depth is bounded and a repeated key is an error; the objects it builds are ordered maps.\<close>

fun json_seed :: "nat \<Rightarrow> Value \<Rightarrow> Value option"
  and seed_array :: "nat \<Rightarrow> Value list \<Rightarrow> Value list option"
  and seed_object :: "nat \<Rightarrow> (str \<times> Value) list \<Rightarrow> (str, Value) btree \<Rightarrow> (str, Value) btree option" where
  "json_seed depth v =
     (if depth > MAX_OUTPUT_DEPTH then None
      else case v of
        Array vs \<Rightarrow> map_option Array (seed_array (depth + 1) vs)
      | Object kvs \<Rightarrow> map_option Object (seed_object (depth + 1) kvs [])
      | _ \<Rightarrow> Some v)"
| "seed_array depth [] = Some []"
| "seed_array depth (v # vs) =
     (case json_seed depth v of
        None \<Rightarrow> None
      | Some v' \<Rightarrow> map_option ((#) v') (seed_array depth vs))"
| "seed_object depth [] vals = Some vals"
| "seed_object depth ((k, v) # kvs) vals =
     (if bt_get vals k \<noteq> None then None
      else case json_seed depth v of
        None \<Rightarrow> None
      | Some v' \<Rightarrow> seed_object depth kvs (bt_insert k v' vals))"

section \<open>Requests\<close>

datatype RequestFormat = TypeSafe | Cloudflare

datatype WireVariant = Canonical | ReverseOptionOrder | RenameOptionHandles

record NoulCriteria =
  nc_yes :: "str option"
  nc_no :: "str option"

datatype Question =
    Q_Choice Value "(str, str) btree"
  | Q_Noul Value "NoulCriteria option"

record Request =
  rq_model :: str
  rq_state :: Value
  rq_questions :: "(str, Question) btree"
  rq_reverse_choice :: "str option"

fun description :: "Value \<Rightarrow> bool" where
  "description (String _) = True"
| "description (Object _) = True"
| "description (Array _) = True"
| "description _ = False"

definition valid_id :: "str \<Rightarrow> bool" where
  "valid_id v \<longleftrightarrow> v \<noteq> [] \<and> str_len v \<le> MAX_ID_BYTES \<and> \<not> list_ex is_control v"

fun question_instructions :: "Question \<Rightarrow> Value" where
  "question_instructions (Q_Choice i _) = i"
| "question_instructions (Q_Noul i _) = i"

definition validate_question :: "Question \<Rightarrow> (unit, CodecError) result" where
  "validate_question q =
     (if (case q of
            Q_Choice _ criteria \<Rightarrow>
              criteria = [] \<or> length criteria > MAX_CHOICE_OPTIONS \<or> list_ex (\<lambda>k. \<not> valid_id k) (bt_keys criteria)
          | Q_Noul _ _ \<Rightarrow> False) then Err InvalidRequest
      else if \<not> description (question_instructions q) then Err InvalidRequest
      else Ok ())"

fun collect_criteria :: "(str \<times> str) list \<Rightarrow> (str, str) btree \<Rightarrow> ((str, str) btree, CodecError) result" where
  "collect_criteria [] criteria = Ok criteria"
| "collect_criteria ((k, d) # opts) criteria =
     (if bt_get criteria k \<noteq> None then Err DuplicateId
      else if length (bt_insert k d criteria) > MAX_CHOICE_OPTIONS then Err InvalidRequest
      else collect_criteria opts (bt_insert k d criteria))"

definition question_choice :: "Value \<Rightarrow> (str \<times> str) list \<Rightarrow> (Question, CodecError) result" where
  "question_choice instructions opts =
     and_then (collect_criteria opts []) (\<lambda>criteria.
       let q = Q_Choice instructions criteria in
       and_then (validate_question q) (\<lambda>_. Ok q))"

section \<open>Wire encodings\<close>

definition field :: "string \<Rightarrow> Value \<Rightarrow> str \<times> Value" where
  "field k v = (scalars k, v)"

definition text_value :: "string \<Rightarrow> Value" where
  "text_value s = String (scalars s)"

text \<open>\<open>OrderedCriteria\<close> lists the options backwards.\<close>

definition criteria_value :: "bool \<Rightarrow> (str, str) btree \<Rightarrow> Value" where
  "criteria_value reversed criteria =
     Object (map (\<lambda>(k, v). (k, String v)) (if reversed then rev criteria else criteria))"

definition opt_field :: "string \<Rightarrow> str option \<Rightarrow> (str \<times> Value) list" where
  "opt_field k v = (case v of None \<Rightarrow> [] | Some s \<Rightarrow> [field k (String s)])"

fun question_value :: "RequestFormat \<Rightarrow> bool \<Rightarrow> Question \<Rightarrow> Value" where
  "question_value TypeSafe reversed (Q_Choice i criteria) =
     Object [field ''type'' (text_value ''choice''), field ''instructions'' i,
             field ''criteria'' (criteria_value reversed criteria)]"
| "question_value Cloudflare reversed (Q_Choice i criteria) =
     Object [field ''criteria'' (criteria_value reversed criteria), field ''instructions'' i,
             field ''type'' (text_value ''choice'')]"
| "question_value TypeSafe reversed (Q_Noul i criteria) =
     Object ([field ''type'' (text_value ''noul''), field ''instructions'' i]
       @ (case criteria of None \<Rightarrow> []
          | Some c \<Rightarrow> [field ''criteria'' (Object (opt_field ''true'' (nc_yes c) @ opt_field ''false'' (nc_no c)))]))"
| "question_value Cloudflare reversed (Q_Noul i criteria) =
     Object ((case criteria of None \<Rightarrow> []
          | Some c \<Rightarrow> [field ''criteria'' (Object (opt_field ''false'' (nc_no c) @ opt_field ''true'' (nc_yes c)))])
       @ [field ''instructions'' i, field ''type'' (text_value ''noul'')])"

definition questions_value :: "RequestFormat \<Rightarrow> Request \<Rightarrow> Value" where
  "questions_value fmt req =
     Object (map (\<lambda>(k, q). (k, question_value fmt (rq_reverse_choice req = Some k) q)) (rq_questions req))"

fun request_value :: "RequestFormat \<Rightarrow> Request \<Rightarrow> Value" where
  "request_value TypeSafe req =
     Object [field ''model'' (String (rq_model req)), field ''state'' (rq_state req),
             field ''questions'' (questions_value TypeSafe req)]"
| "request_value Cloudflare req =
     Object [field ''input'' (Object [field ''questions'' (questions_value Cloudflare req), field ''state'' (rq_state req)]),
             field ''model'' (String (rq_model req))]"

text \<open>Writing into \<open>BoundedBuffer\<close> fails as soon as the bytes written would pass the limit.\<close>

definition bounded_buffer :: "nat list \<Rightarrow> (nat list, CodecError) result" where
  "bounded_buffer bytes = (if length bytes > MAX_REQUEST_BYTES then Err TooLarge else Ok bytes)"

section \<open>Answers\<close>

datatype WireAnswer =
    W_Noul f64
  | W_Choice str "(str, f64) btree" f64

record WireResponse =
  wr_model :: str
  wr_answers :: "(str, WireAnswer) btree"
  wr_usage :: Usage

record ChoiceAnswer =
  ca_choice :: str
  ca_raw_probabilities :: "(str, f64) btree"
  ca_raw_sum :: f64
  ca_confidence :: f64

datatype Answer = A_Noul f64 | A_Choice ChoiceAnswer

record Response =
  rs_requested_model :: str
  rs_returned_model :: str
  rs_answers :: "(str, Answer) btree"
  rs_usage :: Usage

text \<open>
  What the code takes from serde: the tokenizer behind \<open>JsonSeed\<close>, its own reader into a \<open>Value\<close>,
  the compact rendering, and the derived conversions of a request and of a response. \<open>sd_number\<close> is
  the JSON number of a finite \<open>f64\<close>, and \<open>sd_f64\<close> the \<open>f64\<close> of a JSON number.
\<close>

record Serde =
  sd_tokens :: "nat list \<Rightarrow> Value option"
  sd_from_slice :: "nat list \<Rightarrow> Value option"
  sd_render :: "Value \<Rightarrow> nat list"
  sd_wire :: "Value \<Rightarrow> WireResponse option"
  sd_request :: "Value \<Rightarrow> Request option"
  sd_number :: "f64 \<Rightarrow> str"
  sd_f64 :: "str \<Rightarrow> f64 option"

definition parse_json :: "Serde \<Rightarrow> nat list \<Rightarrow> usize \<Rightarrow> (Value, CodecError) result" where
  "parse_json S bytes maximum =
     (if length bytes > maximum then Err TooLarge
      else case Option.bind (sd_tokens S bytes) (json_seed 0) of None \<Rightarrow> Err InvalidJson | Some v \<Rightarrow> Ok v)"

section \<open>Building a request\<close>

fun check_questions :: "Question list \<Rightarrow> (unit, CodecError) result" where
  "check_questions [] = Ok ()"
| "check_questions (q # qs) =
     (if \<not> check_depth (question_instructions q) 3 then Err InvalidJson
      else and_then (validate_question q) (\<lambda>_. check_questions qs))"

definition to_json :: "Serde \<Rightarrow> Request \<Rightarrow> (nat list, CodecError) result" where
  "to_json S req =
     (if \<not> valid_id (rq_model req) \<or> \<not> description (rq_state req) \<or> rq_questions req = []
         \<or> list_ex (\<lambda>k. \<not> valid_id k) (bt_keys (rq_questions req)) then Err InvalidRequest
      else if \<not> check_depth (rq_state req) 1 then Err InvalidJson
      else and_then (check_questions (bt_values (rq_questions req)))
             (\<lambda>_. bounded_buffer (sd_render S (request_value TypeSafe req))))"

fun collect_questions :: "(str \<times> Question) list \<Rightarrow> (str, Question) btree \<Rightarrow> ((str, Question) btree, CodecError) result" where
  "collect_questions [] m = Ok m"
| "collect_questions ((k, q) # qs) m =
     (if bt_get m k \<noteq> None then Err DuplicateId else collect_questions qs (bt_insert k q m))"

definition request_new :: "Serde \<Rightarrow> str \<Rightarrow> Value \<Rightarrow> (str \<times> Question) list \<Rightarrow> (Request, CodecError) result" where
  "request_new S model state questions =
     and_then (collect_questions questions []) (\<lambda>m.
       let req = \<lparr> rq_model = model, rq_state = state, rq_questions = m, rq_reverse_choice = None \<rparr> in
       and_then (to_json S req) (\<lambda>_. Ok req))"

definition request_from_json :: "Serde \<Rightarrow> nat list \<Rightarrow> (Request, CodecError) result" where
  "request_from_json S bytes =
     and_then (parse_json S bytes MAX_REQUEST_BYTES) (\<lambda>v.
       case sd_request S v of
         None \<Rightarrow> Err InvalidRequest
       | Some req \<Rightarrow> and_then (to_json S req) (\<lambda>_. Ok req))"

definition with_reversed_choice :: "Request \<Rightarrow> str \<Rightarrow> (Request, CodecError) result" where
  "with_reversed_choice req question =
     (case bt_get (rq_questions req) question of
        Some (Q_Choice _ _) \<Rightarrow> Ok (req\<lparr> rq_reverse_choice := Some question \<rparr>)
      | _ \<Rightarrow> Err InvalidRequest)"

definition has_reversed_choice :: "Request \<Rightarrow> bool" where
  "has_reversed_choice req \<longleftrightarrow> rq_reverse_choice req \<noteq> None"

definition ordered_native_json :: "Serde \<Rightarrow> Request \<Rightarrow> (nat list, CodecError) result" where
  "ordered_native_json S req = bounded_buffer (sd_render S (request_value Cloudflare req))"

section \<open>The native envelope of the second provider\<close>

definition CLOUDFLARE_JEV_MODEL :: str where "CLOUDFLARE_JEV_MODEL = scalars ''typesafe/jev''"

text \<open>\<open>as_object_mut().remove("model")\<close>: the value of the key and the other entries.\<close>

fun remove_model :: "Value \<Rightarrow> (Value \<times> Value) option" where
  "remove_model (Object kvs) =
     (case map_of kvs (scalars ''model'') of
        None \<Rightarrow> None
      | Some m \<Rightarrow> Some (m, Object (filter (\<lambda>(k, v). k \<noteq> scalars ''model'') kvs)))"
| "remove_model _ = None"

definition native_encode_request :: "Serde \<Rightarrow> Request \<Rightarrow> (nat list, CodecError) result" where
  "native_encode_request S req =
     (if rq_model req \<noteq> CLOUDFLARE_JEV_MODEL then Err InvalidRequest
      else and_then (to_json S req) (\<lambda>validated.
        case Option.bind (sd_from_slice S validated) remove_model of
          None \<Rightarrow> Err InvalidRequest
        | Some (model, input) \<Rightarrow>
            (let native = Object [field ''input'' input, field ''model'' model] in
             if \<not> check_depth native 0 then Err InvalidJson
             else and_then (if has_reversed_choice req then ordered_native_json S req else Ok (sd_render S native))
               (\<lambda>body. if length body > MAX_REQUEST_BYTES then Err TooLarge else Ok body))))"

definition to_wire_json :: "Serde \<Rightarrow> RequestFormat \<Rightarrow> Request \<Rightarrow> (nat list, CodecError) result" where
  "to_wire_json S fmt req =
     (case fmt of TypeSafe \<Rightarrow> to_json S req | Cloudflare \<Rightarrow> native_encode_request S req)"

definition result_object :: "Value \<Rightarrow> (Value, CodecError) result" where
  "result_object envelope =
     (if value_get envelope ''answers'' \<noteq> None then
        (if value_get envelope ''result'' \<noteq> None then Err InvalidAnswer else Ok envelope)
      else
        case value_get envelope ''result'' of
          None \<Rightarrow> Err InvalidAnswer
        | Some outer \<Rightarrow>
            if \<not> is_object outer then Err InvalidAnswer
            else case value_get outer ''result'' of
                Some inner \<Rightarrow>
                  if value_get outer ''answers'' \<noteq> None \<or> \<not> is_object inner then Err InvalidAnswer else Ok inner
              | None \<Rightarrow> Ok outer)"

section \<open>Decoding an answer\<close>

definition probability :: "f64 \<Rightarrow> (unit, CodecError) result" where
  "probability v = (if is_finite v \<and> f64_within (Fin 0) (Fin 1) v then Ok () else Err InvalidProbability)"

fun max_loop :: "f64 list \<Rightarrow> f64 \<Rightarrow> (f64, CodecError) result" where
  "max_loop [] mx = Ok mx"
| "max_loop (v # vs) mx = and_then (probability v) (\<lambda>_. max_loop vs (f64_max mx v))"

definition decode_choice :: "(str, str) btree \<Rightarrow> str \<Rightarrow> (str, f64) btree \<Rightarrow> f64 \<Rightarrow> (Answer, CodecError) result" where
  "decode_choice criteria choice probabilities confidence =
     (if bt_keys criteria \<noteq> bt_keys probabilities then Err OptionMismatch
      else and_then (probability confidence) (\<lambda>_.
        and_then (max_loop (bt_values probabilities) (Fin 0)) (\<lambda>maximum.
          let total = f64_fold_add (Fin 0) (sort (bt_values probabilities)) in
          if f64_le total (Fin 0) \<or> f64_lt SUM_TOLERANCE (f64_abs (f64_sub total (Fin 1))) then Err InvalidDistribution
          else if \<not> (case bt_get probabilities choice of None \<Rightarrow> False | Some p \<Rightarrow> f64_eq p maximum) then Err InvalidChoice
          else Ok (A_Choice \<lparr> ca_choice = choice, ca_raw_probabilities = probabilities, ca_raw_sum = total,
                 ca_confidence = confidence \<rparr>))))"

fun decode_answer :: "Question \<Rightarrow> WireAnswer \<Rightarrow> (Answer, CodecError) result" where
  "decode_answer (Q_Noul _ _) (W_Noul v) = and_then (probability v) (\<lambda>_. Ok (A_Noul v))"
| "decode_answer (Q_Choice _ criteria) (W_Choice choice probabilities confidence) =
     decode_choice criteria choice probabilities confidence"
| "decode_answer _ _ = Err QuestionMismatch"

text \<open>Indexing the questions cannot fail: their keys are those of the answers.\<close>

fun decode_answers ::
  "(str, Question) btree \<Rightarrow> (str \<times> WireAnswer) list \<Rightarrow> (str, Answer) btree \<Rightarrow> ((str, Answer) btree, CodecError) result" where
  "decode_answers questions [] answers = Ok answers"
| "decode_answers questions ((k, a) # rest) answers =
     and_then (decode_answer (the (bt_get questions k)) a)
       (\<lambda>validated. decode_answers questions rest (bt_insert k validated answers))"

definition decode_wire :: "Request \<Rightarrow> WireResponse \<Rightarrow> (Response, CodecError) result" where
  "decode_wire req wire =
     (if \<not> valid_id (wr_model wire) then Err InvalidAnswer
      else if bt_keys (rq_questions req) \<noteq> bt_keys (wr_answers wire) then Err QuestionMismatch
      else and_then (decode_answers (rq_questions req) (wr_answers wire) []) (\<lambda>answers.
        Ok \<lparr> rs_requested_model = rq_model req, rs_returned_model = wr_model wire,
             rs_answers = answers, rs_usage = wr_usage wire \<rparr>))"

definition decode_response :: "Serde \<Rightarrow> Request \<Rightarrow> nat list \<Rightarrow> (Response, CodecError) result" where
  "decode_response S req bytes =
     and_then (parse_json S bytes MAX_RESPONSE_BYTES) (\<lambda>v.
       case sd_wire S v of None \<Rightarrow> Err InvalidAnswer | Some wire \<Rightarrow> decode_wire req wire)"

definition native_decode_response :: "Serde \<Rightarrow> Request \<Rightarrow> nat list \<Rightarrow> (Response, CodecError) result" where
  "native_decode_response S req body =
     (if length body > MAX_RESPONSE_BYTES then Err TooLarge
      else case Option.bind (sd_tokens S body) (json_seed 0) of
        None \<Rightarrow> Err InvalidJson
      | Some envelope \<Rightarrow>
          if value_get envelope ''success'' \<noteq> Some (Bool True) then Err InvalidAnswer
          else and_then (result_object envelope) (\<lambda>r. decode_response S req (sd_render S r)))"

section \<open>Reading a choice\<close>

definition normalized_probability :: "ChoiceAnswer \<Rightarrow> str \<Rightarrow> f64 option" where
  "normalized_probability c opt = map_option (\<lambda>v. f64_div v (ca_raw_sum c)) (bt_get (ca_raw_probabilities c) opt)"

definition normalized_probabilities :: "ChoiceAnswer \<Rightarrow> (str, f64) btree" where
  "normalized_probabilities c = map (\<lambda>(k, v). (k, f64_div v (ca_raw_sum c))) (ca_raw_probabilities c)"

definition argmax_options :: "ChoiceAnswer \<Rightarrow> str list" where
  "argmax_options c =
     (let mx = foldl f64_max (Fin 0) (bt_values (ca_raw_probabilities c)) in
      map fst (filter (\<lambda>(k, v). f64_eq v mx) (ca_raw_probabilities c)))"

definition has_tie :: "ChoiceAnswer \<Rightarrow> bool" where
  "has_tie c \<longleftrightarrow> 1 < length (argmax_options c)"

definition deterministic_choice :: "ChoiceAnswer \<Rightarrow> str" where
  "deterministic_choice c = (case argmax_options c of [] \<Rightarrow> ca_choice c | k # ks \<Rightarrow> fold min ks k)"

section \<open>A validated answer in wire form\<close>

fun answer_value :: "Serde \<Rightarrow> Answer \<Rightarrow> Value" where
  "answer_value S (A_Noul v) = Object [field ''noul'' (Number (sd_number S v)), field ''type'' (text_value ''noul'')]"
| "answer_value S (A_Choice c) =
     Object [field ''choice'' (String (ca_choice c)), field ''confidence'' (Number (sd_number S (ca_confidence c))),
             field ''probabilities'' (Object (map (\<lambda>(k, v). (k, Number (sd_number S v))) (ca_raw_probabilities c))),
             field ''type'' (text_value ''choice'')]"

definition usage_value :: "Usage \<Rightarrow> Value" where
  "usage_value u = Object [field ''input_tokens'' (Number (scalars (dec (us_input_tokens u)))),
     field ''output_tokens'' (Number (scalars (dec (us_output_tokens u))))]"

definition response_value :: "Serde \<Rightarrow> Response \<Rightarrow> Value" where
  "response_value S r =
     Object [field ''answers'' (Object (map (\<lambda>(k, a). (k, answer_value S a)) (rs_answers r))),
             field ''model'' (String (rs_returned_model r)), field ''usage'' (usage_value (rs_usage r))]"

definition to_wire_bytes :: "Serde \<Rightarrow> Response \<Rightarrow> nat list" where
  "to_wire_bytes S r = sd_render S (response_value S r)"

section \<open>What the reader accepts\<close>

fun no_duplicates :: "Value \<Rightarrow> bool" where
  "no_duplicates (Array vs) = (\<forall>v \<in> set vs. no_duplicates v)"
| "no_duplicates (Object kvs) = (distinct (map fst kvs) \<and> (\<forall>kv \<in> set kvs. no_duplicates (snd kv)))"
| "no_duplicates _ = True"

fun canon :: "Value \<Rightarrow> Value" where
  "canon (Array vs) = Array (map canon vs)"
| "canon (Object kvs) = Object (bt_of_list (map (\<lambda>kv. (fst kv, canon (snd kv))) kvs))"
| "canon v = v"

definition readable :: "nat \<Rightarrow> Value \<Rightarrow> bool" where
  "readable depth v \<longleftrightarrow> check_depth v depth \<and> no_duplicates v"

declare json_seed.simps [simp del]

lemma json_seed_exact:
  "json_seed depth v = (if readable depth v then Some (canon v) else None)"
  "seed_array depth vs = (if \<forall>v \<in> set vs. readable depth v then Some (map canon vs) else None)"
  "seed_object depth kvs vals =
     (if (\<forall>kv \<in> set kvs. readable depth (snd kv)) \<and> distinct (map fst kvs) \<and> set (map fst kvs) \<inter> set (bt_keys vals) = {}
      then Some (foldl (\<lambda>m (k, v). bt_insert k v m) vals (map (\<lambda>kv. (fst kv, canon (snd kv))) kvs)) else None)"
proof (induction depth v and depth vs and depth kvs vals rule: json_seed_seed_array_seed_object.induct)
  case (1 depth v)
  show ?case
  proof (cases "depth > MAX_OUTPUT_DEPTH")
    case True
    then show ?thesis by (cases v) (auto simp: readable_def json_seed.simps)
  next
    case False
    then show ?thesis
      using 1 by (cases v) (auto simp: readable_def bt_of_list_def json_seed.simps)
  qed
next
  case (5 depth k v kvs vals)
  show ?case
  proof (cases "bt_get vals k = None \<and> readable depth v")
    case True
    then have new: "k \<notin> set (bt_keys vals)" by (simp add: bt_get_None_iff)
    have v: "json_seed depth v = Some (canon v)" using 5(1) True by simp
    show ?thesis
      using 5(2) [OF _ v] True new by (auto simp: v bt_keys_insert)
  next
    case False
    then show ?thesis using 5(1) by (auto simp: bt_get_None_iff)
  qed
qed (auto split: option.splits)

definition accepts_json :: "Serde \<Rightarrow> nat list \<Rightarrow> usize \<Rightarrow> Value \<Rightarrow> bool" where
  "accepts_json S bytes maximum v \<longleftrightarrow> length bytes \<le> maximum
     \<and> (\<exists>t. sd_tokens S bytes = Some t \<and> check_depth t 0 \<and> no_duplicates t \<and> v = canon t)"

lemma parse_json_Ok: "parse_json S bytes maximum = Ok v \<longleftrightarrow> accepts_json S bytes maximum v"
  by (auto simp: parse_json_def accepts_json_def json_seed_exact(1) readable_def bind_eq_Some_conv
      split: if_splits option.splits)

section \<open>What an answer must satisfy\<close>

abbreviation unit_value :: "f64 \<Rightarrow> bool" where
  "unit_value v \<equiv> f64_within (Fin 0) (Fin 1) v"

definition total_probability :: "(str, f64) btree \<Rightarrow> f64" where
  "total_probability ps = f64_fold_add (Fin 0) (sort (bt_values ps))"

fun answer_fits :: "Question \<Rightarrow> WireAnswer \<Rightarrow> bool" where
  "answer_fits (Q_Noul _ _) (W_Noul v) = unit_value v"
| "answer_fits (Q_Choice _ criteria) (W_Choice choice ps confidence) =
     (bt_keys ps = bt_keys criteria \<and> unit_value confidence \<and> (\<forall>p \<in> set (bt_values ps). unit_value p)
      \<and> f64_lt (Fin 0) (total_probability ps)
      \<and> f64_le (f64_abs (f64_sub (total_probability ps) (Fin 1))) SUM_TOLERANCE
      \<and> (\<exists>p. bt_get ps choice = Some p \<and> (\<forall>q \<in> set (bt_values ps). f64_le q p)))"
| "answer_fits _ _ = False"

fun accepted :: "WireAnswer \<Rightarrow> Answer" where
  "accepted (W_Noul v) = A_Noul v"
| "accepted (W_Choice choice ps confidence) =
     A_Choice \<lparr> ca_choice = choice, ca_raw_probabilities = ps, ca_raw_sum = total_probability ps, ca_confidence = confidence \<rparr>"

lemma unit_value_val: "unit_value v \<longleftrightarrow> (\<exists>q. f64_val v = Some q \<and> 0 \<le> q \<and> q \<le> 1)"
  by (rule f64_within_val)

lemma probability_Ok: "probability v = Ok u \<longleftrightarrow> unit_value v"
  by (auto simp: probability_def unit_value_val is_finite_def)

text \<open>The running maximum is one of the values, or where it started, and bounds them all.\<close>

lemma f64_max_unit:
  assumes "unit_value a" "unit_value b"
  shows "unit_value (f64_max a b) \<and> f64_le a (f64_max a b) \<and> f64_le b (f64_max a b) \<and> f64_max a b \<in> {a, b}"
  using assms by (cases a; cases b) (auto simp: f64_within_def f64_max_def f64_lt_def)

lemma f64_le_trans: "f64_le a b \<Longrightarrow> f64_le b c \<Longrightarrow> f64_le a c"
  by (cases a; cases b; cases c) auto

lemma max_loop_Ok:
  assumes "unit_value mx"
  shows "max_loop vs mx = Ok m \<longleftrightarrow> (\<forall>v \<in> set vs. unit_value v) \<and> m = foldl f64_max mx vs"
  using assms by (induction vs arbitrary: mx) (auto simp: probability_Ok f64_max_unit)

lemma fold_max_bound:
  assumes "\<forall>v \<in> set (mx # vs). unit_value v"
  shows "unit_value (foldl f64_max mx vs) \<and> (\<forall>v \<in> set (mx # vs). f64_le v (foldl f64_max mx vs))
    \<and> foldl f64_max mx vs \<in> set (mx # vs)"
  using assms
proof (induction vs arbitrary: mx)
  case Nil
  then show ?case by (auto simp: unit_value_val f64_le_val)
next
  case (Cons v vs)
  note m = f64_max_unit [of mx v]
  show ?case using Cons.IH [of "f64_max mx v"] Cons.prems m by (auto intro: f64_le_trans)
qed

lemma total_finite:
  assumes "\<forall>p \<in> set (bt_values ps). unit_value p" "length ps \<le> MAX_CHOICE_OPTIONS"
  shows "\<exists>s. f64_val (total_probability ps) = Some s \<and> 0 \<le> s \<and> s \<le> 255"
proof -
  have "\<exists>s. f64_val (f64_fold_add (Fin 0) (sort (bt_values ps))) = Some s \<and> 0 \<le> s \<and> s \<le> of_nat (0 + length (sort (bt_values ps)))"
    by (rule fold_add_finite) (use assms in \<open>auto simp: bt_values_def MAX_CHOICE_OPTIONS_def\<close>)
  moreover have "of_nat (length ps) \<le> (255 :: rat)"
    using assms(2) by (simp add: MAX_CHOICE_OPTIONS_def)
  ultimately show ?thesis by (auto simp: total_probability_def bt_values_def intro: order_trans)
qed

lemma f64_not_lt: "f64_val a = Some p \<Longrightarrow> f64_val b = Some q \<Longrightarrow> \<not> f64_lt a b \<longleftrightarrow> f64_le b a"
  by (auto simp: f64_lt_val f64_le_val)

lemma SUM_TOLERANCE_val: "\<exists>t. f64_val SUM_TOLERANCE = Some t \<and> 0 < t \<and> t \<le> 1 / 8"
proof -
  have "rep (1 / 8)" unfolding rep_def
    by (rule exI [of _ 1], rule exI [of _ "-3"]) (simp add: power_int_def power_divide)
  moreover have "rep (1 / 16)" unfolding rep_def
    by (rule exI [of _ 1], rule exI [of _ "-4"]) (simp add: power_int_def power_divide)
  ultimately have "round64 (1 / 10) \<le> 1 / 8" "1 / 16 \<le> round64 (1 / 10)"
    using round64_le [of "1 / 8" "1 / 10"] round64_ge [of "1 / 16" "1 / 10"] by simp_all
  then show ?thesis unfolding SUM_TOLERANCE_def by (subst f64_val_of) auto
qed

lemma sub_one_finite:
  assumes "f64_val a = Some s" "0 \<le> s" "s \<le> 255"
  shows "\<exists>d. f64_val (f64_abs (f64_sub a (Fin 1))) = Some d"
proof -
  have "round64 (s - 1) \<le> 255" "- 1 \<le> round64 (s - 1)"
    using assms rep_of_int [of 255] rep_of_int [of "-1"] by (auto intro: round64_le round64_ge)
  then show ?thesis using f64_val_sub [OF assms(1), of "Fin 1" 1] f64_val_abs by fastforce
qed

lemma decode_choice_Ok:
  assumes "length criteria \<le> MAX_CHOICE_OPTIONS"
  shows "decode_choice criteria choice ps confidence = Ok a \<longleftrightarrow>
    answer_fits (Q_Choice i criteria) (W_Choice choice ps confidence)
    \<and> a = accepted (W_Choice choice ps confidence)"
proof (cases "bt_keys ps = bt_keys criteria \<and> (\<forall>p \<in> set (bt_values ps). unit_value p)")
  case False
  then show ?thesis by (auto simp: decode_choice_def probability_Ok max_loop_Ok f64_within_val)
next
  case True
  then have len: "length ps \<le> MAX_CHOICE_OPTIONS" using assms unfolding bt_keys_def by (metis length_map)
  have unit: "\<forall>p \<in> set (bt_values ps). unit_value p" using True by blast
  let ?t = "total_probability ps" and ?m = "foldl f64_max (Fin 0) (bt_values ps)"
  obtain s where s: "f64_val ?t = Some s" "0 \<le> s" "s \<le> 255" using total_finite [OF unit len] by blast
  obtain d where d: "f64_val (f64_abs (f64_sub ?t (Fin 1))) = Some d" using sub_one_finite [OF s] by blast
  obtain tol where tol: "f64_val SUM_TOLERANCE = Some tol" using SUM_TOLERANCE_val by blast
  have max: "unit_value ?m \<and> (\<forall>v \<in> set (Fin 0 # bt_values ps). f64_le v ?m) \<and> ?m \<in> set (Fin 0 # bt_values ps)"
    by (rule fold_max_bound) (use unit in \<open>auto simp: f64_within_val\<close>)
  have chosen: "f64_eq p ?m \<longleftrightarrow> (\<forall>q \<in> set (bt_values ps). f64_le q p)" if "bt_get ps choice = Some p" for p
  proof
    have p: "p \<in> set (bt_values ps)" using that by (auto simp: bt_get_def bt_values_def dest: map_of_SomeD intro: image_eqI [rotated])
    show "f64_eq p ?m \<Longrightarrow> \<forall>q \<in> set (bt_values ps). f64_le q p"
      using max by (auto simp: f64_eq_def intro: f64_le_trans)
    assume "\<forall>q \<in> set (bt_values ps). f64_le q p"
    then show "f64_eq p ?m" using max p unit by (auto simp: f64_eq_def f64_within_def)
  qed
  have dist: "\<not> (f64_le ?t (Fin 0) \<or> f64_lt SUM_TOLERANCE (f64_abs (f64_sub ?t (Fin 1))))
      \<longleftrightarrow> f64_lt (Fin 0) ?t \<and> f64_le (f64_abs (f64_sub ?t (Fin 1))) SUM_TOLERANCE"
    using f64_not_lt [OF tol d] f64_not_lt [OF _ s(1), of "Fin 0" 0] by auto
  have loop: "max_loop (bt_values ps) (Fin 0) = Ok ?m" using unit by (simp add: max_loop_Ok f64_within_val)
  show ?thesis
    using True dist chosen
    by (auto simp: decode_choice_def probability_Ok loop Let_def total_probability_def [symmetric] split: if_splits option.splits)
qed

lemma decode_answer_Ok:
  assumes "\<forall>i c. q = Q_Choice i c \<longrightarrow> length c \<le> MAX_CHOICE_OPTIONS"
  shows "decode_answer q a = Ok r \<longleftrightarrow> answer_fits q a \<and> r = accepted a"
proof (cases q)
  case (Q_Choice i c)
  then show ?thesis
    using assms by (cases a) (auto simp: decode_choice_Ok simp del: answer_fits.simps(2) accepted.simps)
next
  case (Q_Noul i c)
  then show ?thesis by (cases a) (auto simp: probability_Ok)
qed

lemma decode_answers_Ok:
  assumes "\<forall>k i c. bt_get questions k = Some (Q_Choice i c) \<longrightarrow> length c \<le> MAX_CHOICE_OPTIONS"
    and "set (map fst rest) \<subseteq> set (bt_keys questions)"
    and "sorted_wrt (<) (map fst answers @ map fst rest)"
  shows "decode_answers questions rest answers = Ok m \<longleftrightarrow>
    (\<forall>(k, a) \<in> set rest. answer_fits (the (bt_get questions k)) a)
    \<and> m = answers @ map (\<lambda>(k, a). (k, accepted a)) rest"
  using assms(2,3)
proof (induction rest arbitrary: answers)
  case Nil
  then show ?case by auto
next
  case (Cons ka rest)
  obtain k a where ka: "ka = (k, a)" by (cases ka)
  obtain q where q: "bt_get questions k = Some q"
    using Cons.prems(1) bt_get_None_iff [of questions k] by (auto simp: ka)
  have ins: "bt_insert k (accepted a) answers = answers @ [(k, accepted a)]"
    using Cons.prems(2) by (intro bt_insert_last) (auto simp: ka sorted_wrt_append)
  have fits: "decode_answer q a = Ok r \<longleftrightarrow> answer_fits q a \<and> r = accepted a" for r
    by (rule decode_answer_Ok) (use assms(1) q in blast)
  show ?case
    using Cons.IH [of "answers @ [(k, accepted a)]"] Cons.prems
    by (auto simp: ka q fits ins)
qed

text \<open>The invariants of the ordered maps of a request.\<close>

definition request_sorted :: "Request \<Rightarrow> bool" where
  "request_sorted req \<longleftrightarrow> bt_sorted (rq_questions req)
     \<and> (\<forall>k i c. bt_get (rq_questions req) k = Some (Q_Choice i c) \<longrightarrow> bt_sorted c)"

lemma check_questions_Ok:
  "check_questions qs = Ok u \<longleftrightarrow> (\<forall>q \<in> set qs. check_depth (question_instructions q) 3 \<and> validate_question q = Ok ())"
  by (induction qs) auto

lemma validate_question_Ok:
  "validate_question q = Ok u \<longleftrightarrow> description (question_instructions q)
     \<and> (\<forall>i c. q = Q_Choice i c \<longrightarrow> c \<noteq> [] \<and> length c \<le> MAX_CHOICE_OPTIONS \<and> (\<forall>k \<in> set (bt_keys c). valid_id k))"
  by (cases q) (auto simp: validate_question_def list_ex_iff)

lemma to_json_Ok:
  "to_json S req = Ok bytes \<longleftrightarrow> valid_id (rq_model req) \<and> description (rq_state req) \<and> rq_questions req \<noteq> []
     \<and> (\<forall>k \<in> set (bt_keys (rq_questions req)). valid_id k) \<and> check_depth (rq_state req) 1
     \<and> (\<forall>q \<in> set (bt_values (rq_questions req)). check_depth (question_instructions q) 3 \<and> validate_question q = Ok ())
     \<and> bytes = sd_render S (request_value TypeSafe req) \<and> length bytes \<le> MAX_REQUEST_BYTES"
  by (auto simp: to_json_def check_questions_Ok bounded_buffer_def list_ex_iff)

lemma decode_wire_Ok:
  assumes "to_json S req = Ok bytes" "request_sorted req"
  shows "decode_wire req wire = Ok resp \<longleftrightarrow>
    valid_id (wr_model wire) \<and> bt_keys (wr_answers wire) = bt_keys (rq_questions req)
    \<and> (\<forall>(k, a) \<in> set (wr_answers wire). answer_fits (the (bt_get (rq_questions req) k)) a)
    \<and> resp = \<lparr> rs_requested_model = rq_model req, rs_returned_model = wr_model wire,
        rs_answers = map (\<lambda>(k, a). (k, accepted a)) (wr_answers wire), rs_usage = wr_usage wire \<rparr>"
proof (cases "bt_keys (wr_answers wire) = bt_keys (rq_questions req)")
  case True
  have small: "\<forall>k i c. bt_get (rq_questions req) k = Some (Q_Choice i c) \<longrightarrow> length c \<le> MAX_CHOICE_OPTIONS"
    using assms bt_values_get [of "rq_questions req"]
    by (fastforce simp: to_json_Ok validate_question_Ok request_sorted_def)
  have "sorted_wrt (<) (map fst [] @ map fst (wr_answers wire))"
    using True assms(2) by (simp add: request_sorted_def bt_sorted_def bt_keys_def)
  moreover have "set (map fst (wr_answers wire)) \<subseteq> set (bt_keys (rq_questions req))"
    using True by (simp add: bt_keys_def)
  ultimately have "decode_answers (rq_questions req) (wr_answers wire) [] = Ok m \<longleftrightarrow>
      (\<forall>(k, a) \<in> set (wr_answers wire). answer_fits (the (bt_get (rq_questions req) k)) a)
      \<and> m = map (\<lambda>(k, a). (k, accepted a)) (wr_answers wire)" for m
    using decode_answers_Ok [OF small] by simp
  with True show ?thesis by (auto simp: decode_wire_def simp del: answer_fits.simps)
qed (auto simp: decode_wire_def)

lemma decode_response_Ok:
  "decode_response S req body = Ok resp \<longleftrightarrow>
     (\<exists>v wire. accepts_json S body MAX_RESPONSE_BYTES v \<and> sd_wire S v = Some wire \<and> decode_wire req wire = Ok resp)"
  by (auto simp: decode_response_def parse_json_Ok split: option.splits)

text \<open>
  C14. An answer is accepted exactly when its bytes are a bounded document without repeated keys that
  names a model, answers precisely the questions of the request, and fits each of them: a judgement is
  a probability, a choice covers precisely the options asked about with probabilities whose total is
  positive and within the tolerance of one, and names an option no other exceeds. The response then
  keeps the returned model, the raw values and the usage unchanged.
\<close>

theorem answers_match_the_request:
  assumes "to_json S req = Ok bytes" "request_sorted req"
  shows "decode_response S req body = Ok resp \<longleftrightarrow>
    (\<exists>tree wire. length body \<le> MAX_RESPONSE_BYTES \<and> sd_tokens S body = Some tree
      \<and> check_depth tree 0 \<and> no_duplicates tree \<and> sd_wire S (canon tree) = Some wire
      \<and> valid_id (wr_model wire) \<and> bt_keys (wr_answers wire) = bt_keys (rq_questions req)
      \<and> (\<forall>(k, a) \<in> set (wr_answers wire). answer_fits (the (bt_get (rq_questions req) k)) a)
      \<and> resp = \<lparr> rs_requested_model = rq_model req, rs_returned_model = wr_model wire,
          rs_answers = map (\<lambda>(k, a). (k, accepted a)) (wr_answers wire), rs_usage = wr_usage wire \<rparr>)"
  unfolding decode_response_Ok accepts_json_def decode_wire_Ok [OF assms] by blast

section \<open>Renamed options\<close>

lemma bt_values_keys:
  assumes "bt_sorted m"
  shows "bt_values m = map (\<lambda>k. the (bt_get m k)) (bt_keys m)"
proof -
  have "the (map_of m (fst e)) = snd e" if "e \<in> set m" for e
    using that bt_get_entry [OF assms, of "fst e" "snd e"] by (simp add: bt_get_def)
  then show ?thesis by (simp add: bt_values_def bt_keys_def bt_get_def)
qed

lemma renamed_values:
  assumes "bt_sorted ps" "bt_sorted ps'" "inj_on f (set (bt_keys ps))"
    and "set (bt_keys ps') = f ` set (bt_keys ps)" "\<forall>k \<in> set (bt_keys ps). bt_get ps' (f k) = bt_get ps k"
  shows "mset (bt_values ps') = mset (bt_values ps)"
proof -
  have "distinct (map f (bt_keys ps))"
    using bt_keys_sorted [OF assms(1)] assms(3) by (simp add: distinct_map)
  then have "mset (bt_keys ps') = mset (map f (bt_keys ps))"
    using bt_keys_sorted [OF assms(2)] assms(4) set_eq_iff_mset_eq_distinct [of "bt_keys ps'" "map f (bt_keys ps)"]
    by simp
  then have "mset (map (\<lambda>k. the (bt_get ps' k)) (bt_keys ps')) = mset (map (\<lambda>k. the (bt_get ps' k)) (map f (bt_keys ps)))"
    unfolding mset_map [of "\<lambda>k. the (bt_get ps' k)"] by (rule arg_cong)
  also have "map (\<lambda>k. the (bt_get ps' k)) (map f (bt_keys ps)) = map (\<lambda>k. the (bt_get ps k)) (bt_keys ps)"
    using assms(5) by simp
  finally show ?thesis by (simp only: bt_values_keys [OF assms(1)] bt_values_keys [OF assms(2)])
qed

text \<open>
  Option handles carry no meaning. When every option of a choice is renamed one to one, in the
  request and in the answer, the answer is still accepted, with bit for bit the same total, confidence
  and normalized probability for each option under its new name, in whatever order the new names sort.
\<close>

theorem renamed_options_keep_probabilities:
  assumes "decode_choice criteria choice ps confidence = Ok (A_Choice a)" "length criteria \<le> MAX_CHOICE_OPTIONS"
    and "bt_sorted criteria" "bt_sorted criteria'" "bt_sorted ps'"
    and "inj_on f (set (bt_keys criteria))" "set (bt_keys criteria') = f ` set (bt_keys criteria)"
    and "bt_keys ps' = bt_keys criteria'" "\<forall>k \<in> set (bt_keys criteria). bt_get ps' (f k) = bt_get ps k"
  shows "\<exists>a'. decode_choice criteria' (f choice) ps' confidence = Ok (A_Choice a')
    \<and> ca_raw_sum a' = ca_raw_sum a \<and> ca_confidence a' = ca_confidence a
    \<and> (\<forall>k \<in> set (bt_keys criteria). normalized_probability a' (f k) = normalized_probability a k)"
proof -
  have fits: "answer_fits (Q_Choice i criteria) (W_Choice choice ps confidence)"
    and a: "A_Choice a = accepted (W_Choice choice ps confidence)" for i
    using assms(1) decode_choice_Ok [OF assms(2)] by blast+
  then have keys: "bt_keys ps = bt_keys criteria" by simp
  then have ps: "bt_sorted ps" using assms(3) by (simp add: bt_sorted_def bt_keys_def)
  have vals: "mset (bt_values ps') = mset (bt_values ps)"
    by (rule renamed_values [OF ps assms(5)]) (use assms keys in simp_all)
  then have sets: "set (bt_values ps') = set (bt_values ps)" by (rule mset_eq_setD)
  have total: "total_probability ps' = total_probability ps"
    unfolding total_probability_def by (metis properties_for_sort sorted_sort mset_sort vals)
  have "card (set (bt_keys criteria')) = card (set (bt_keys criteria))"
    using assms(6,7) by (simp add: card_image)
  then have len: "length criteria' \<le> MAX_CHOICE_OPTIONS"
    using assms(2) distinct_card [OF bt_keys_sorted [OF assms(3)]] distinct_card [OF bt_keys_sorted [OF assms(4)]]
    by (simp add: bt_keys_def)
  obtain p where p: "bt_get ps choice = Some p" using fits by auto
  then have "choice \<in> set (bt_keys criteria)" using bt_get_in keys by metis
  then have "answer_fits (Q_Choice i criteria') (W_Choice (f choice) ps' confidence)" for i
    using fits assms(8,9) sets total p by auto
  then have "decode_choice criteria' (f choice) ps' confidence = Ok (accepted (W_Choice (f choice) ps' confidence))"
    using decode_choice_Ok [OF len] by blast
  then show ?thesis
    using a assms(9) by (auto simp: total normalized_probability_def)
qed

section \<open>Normalized probabilities\<close>

text \<open>The normalized probabilities of an accepted choice are probabilities again.\<close>

lemma normalized_unit:
  assumes "answer_fits (Q_Choice i criteria) (W_Choice choice ps confidence)" "length criteria \<le> MAX_CHOICE_OPTIONS"
    and "\<forall>p \<in> set (bt_values ps). f64_wf p"
    and "A_Choice a = accepted (W_Choice choice ps confidence)" "normalized_probability a k = Some v"
  shows "unit_value v"
proof -
  have unit: "\<forall>p \<in> set (bt_values ps). unit_value p \<and> f64_wf p" using assms(1,3) by simp
  have len: "length ps \<le> 255"
    using assms(1,2) unfolding bt_keys_def MAX_CHOICE_OPTIONS_def by (metis answer_fits.simps(2) bt_keys_def length_map)
  have "\<exists>s. f64_val (f64_fold_add (Fin 0) (sort (bt_values ps))) = Some s \<and> rep s \<and> 0 \<le> s
      \<and> s \<le> of_nat (0 + length (sort (bt_values ps)))
      \<and> (\<forall>x \<in> set (sort (bt_values ps)). \<forall>q. f64_val x = Some q \<longrightarrow> q \<le> s)"
    by (rule fold_add_unit) (use unit len in \<open>auto simp: bt_values_def\<close>)
  then obtain s where s: "f64_val (total_probability ps) = Some s"
      "\<forall>x \<in> set (bt_values ps). \<forall>q. f64_val x = Some q \<longrightarrow> q \<le> s"
    by (auto simp: total_probability_def)
  have "f64_lt (Fin 0) (total_probability ps)" using assms(1) by simp
  then have "0 < s" using s(1) by (simp add: f64_lt_val)
  obtain p where p: "bt_get ps k = Some p" "v = f64_div p (total_probability ps)"
    using assms(4,5) by (auto simp: normalized_probability_def)
  then have mem: "p \<in> set (bt_values ps)"
    by (auto simp: bt_get_def bt_values_def dest: map_of_SomeD intro: image_eqI [rotated])
  then obtain q where q: "f64_val p = Some q" "0 \<le> q" using unit by (auto simp: f64_within_val)
  show ?thesis unfolding p(2)
    by (rule div_unit [OF q(1) s(1) q(2)]) (use s(2) mem q(1) \<open>0 < s\<close> in auto)
qed

lemma normalized_get:
  "bt_get (normalized_probabilities c) k = normalized_probability c k"
  by (simp add: bt_get_def normalized_probabilities_def normalized_probability_def map_of_map)

section \<open>The bytes of a request\<close>

definition value_ok :: "Value \<Rightarrow> bool" where
  "value_ok v \<longleftrightarrow> canon v = v \<and> no_duplicates v"

text \<open>Every JSON value inside a request is an ordered map without duplicates, as a \<open>Value\<close> of serde is.\<close>

definition request_values_ok :: "Request \<Rightarrow> bool" where
  "request_values_ok req \<longleftrightarrow> value_ok (rq_state req)
     \<and> (\<forall>q \<in> set (bt_values (rq_questions req)). value_ok (question_instructions q))"

text \<open>serde reads back what it rendered, as ordered maps.\<close>

definition reads_back :: "Serde \<Rightarrow> bool" where
  "reads_back S \<longleftrightarrow> (\<forall>v. check_depth v 0 \<and> no_duplicates v \<longrightarrow>
     sd_from_slice S (sd_render S v) = Some (canon v) \<and> sd_tokens S (sd_render S v) = Some v)"

lemma sorted_entries: "bt_sorted m \<Longrightarrow> bt_of_list (map (\<lambda>(k, v). (k, g v)) m) = map (\<lambda>(k, v). (k, g v)) m"
  by (rule bt_of_list_sorted) (simp add: bt_sorted_def comp_def split_beta')

lemma no_duplicates_entries:
  "distinct (map fst m) \<Longrightarrow> \<forall>kv \<in> set m. no_duplicates (g (snd kv)) \<Longrightarrow> no_duplicates (Object (map (\<lambda>(k, v). (k, g v)) m))"
  by (auto simp: comp_def split_beta')

lemma canon_entries:
  "bt_sorted m \<Longrightarrow> canon (Object (map (\<lambda>(k, v). (k, g v)) m)) = Object (map (\<lambda>(k, v). (k, canon (g v))) m)"
  using sorted_entries [of m "\<lambda>v. canon (g v)"] by (simp add: comp_def split_beta')

lemma sorted_distinct: "bt_sorted m \<Longrightarrow> distinct (map fst m)"
  using bt_keys_sorted [of m] by (simp add: bt_keys_def)

lemmas wire_names = field_def text_value_def opt_field_def scalars_def

lemma canon_criteria: "bt_sorted c \<Longrightarrow> canon (criteria_value False c) = criteria_value False c"
  by (simp add: criteria_value_def canon_entries del: canon.simps(2))

lemma criteria_no_duplicates: "bt_sorted c \<Longrightarrow> no_duplicates (criteria_value r c)"
  using no_duplicates_entries [of "if r then rev c else c" String] sorted_distinct [of c]
  by (simp add: criteria_value_def rev_map [symmetric] del: no_duplicates.simps(2))

lemma canon_question:
  assumes "value_ok (question_instructions q)" "\<forall>i c. q = Q_Choice i c \<longrightarrow> bt_sorted c"
  shows "canon (question_value TypeSafe False q) = question_value Cloudflare False q"
proof (cases q)
  case (Q_Choice i c)
  then show ?thesis using assms canon_criteria [of c]
    by (simp add: value_ok_def bt_of_list_def wire_names)
next
  case (Q_Noul i c)
  then show ?thesis using assms
    by (auto simp: value_ok_def bt_of_list_def wire_names split: option.split)
qed

lemma question_no_duplicates:
  assumes "value_ok (question_instructions q)" "\<forall>i c. q = Q_Choice i c \<longrightarrow> bt_sorted c"
  shows "no_duplicates (question_value TypeSafe r q)"
proof (cases q)
  case (Q_Choice i c)
  then show ?thesis using assms criteria_no_duplicates [of c r]
    by (simp add: value_ok_def wire_names)
next
  case (Q_Noul i c)
  then show ?thesis using assms
    by (auto simp: value_ok_def wire_names split: option.split)
qed

lemma criteria_depth: "check_depth (criteria_value r c) d \<longleftrightarrow> d \<le> MAX_OUTPUT_DEPTH \<and> (c \<noteq> [] \<longrightarrow> d < MAX_OUTPUT_DEPTH)"
  by (cases c) (auto simp: criteria_value_def)

lemma question_depth_reversed:
  "check_depth (question_value fmt r q) d \<longleftrightarrow> check_depth (question_value fmt False q) d"
  by (cases fmt; cases q) (simp_all add: field_def criteria_depth)

lemma question_depth: "check_depth (question_instructions q) 3 \<Longrightarrow> check_depth (question_value TypeSafe r q) 2"
  by (cases q) (auto simp: field_def text_value_def opt_field_def criteria_depth MAX_OUTPUT_DEPTH_def numeral_3_eq_3 split: option.split)

lemma request_depth:
  assumes "to_json S req = Ok bytes" "request_sorted req"
  shows "check_depth (request_value TypeSafe req) 0"
proof -
  have "check_depth (question_value TypeSafe r q) 2" if "(k, q) \<in> set (rq_questions req)" for k q r
    using that assms(1) by (intro question_depth) (force simp: to_json_Ok bt_values_def)
  then show ?thesis
    using assms(1) by (auto simp: to_json_Ok questions_value_def field_def MAX_OUTPUT_DEPTH_def numeral_2_eq_2)
qed

lemma question_of_request:
  assumes "request_sorted req" "request_values_ok req" "(k, q) \<in> set (rq_questions req)"
  shows "value_ok (question_instructions q)" "\<forall>i c. q = Q_Choice i c \<longrightarrow> bt_sorted c"
  using assms bt_get_entry [of "rq_questions req" k q]
  by (auto simp: request_sorted_def request_values_ok_def bt_values_def)

lemma request_no_duplicates:
  assumes "request_sorted req" "request_values_ok req"
  shows "no_duplicates (request_value TypeSafe req)"
proof -
  have "no_duplicates (questions_value TypeSafe req)"
    using question_no_duplicates [OF question_of_request [OF assms]] sorted_distinct [of "rq_questions req"] assms(1)
    by (auto simp: questions_value_def request_sorted_def comp_def split_beta')
  then show ?thesis using assms by (simp add: request_values_ok_def value_ok_def wire_names)
qed

text \<open>Read back in canonical order and without the model, the inner document is the native input.\<close>

lemma native_input:
  assumes "request_sorted req" "request_values_ok req" "rq_reverse_choice req = None"
  shows "remove_model (canon (request_value TypeSafe req)) =
    Some (String (rq_model req), Object [field ''questions'' (questions_value Cloudflare req), field ''state'' (rq_state req)])"
proof -
  have "canon (questions_value TypeSafe req) = Object (map (\<lambda>(k, q). (k, canon (question_value TypeSafe False q))) (rq_questions req))"
    using assms canon_entries [of "rq_questions req" "question_value TypeSafe False"]
    by (simp add: questions_value_def request_sorted_def del: canon.simps(2))
  also have "\<dots> = questions_value Cloudflare req"
    using canon_question [OF question_of_request [OF assms(1,2)]] assms(3) by (auto simp: questions_value_def)
  finally have "canon (questions_value TypeSafe req) = questions_value Cloudflare req" .
  then show ?thesis using assms(2)
    by (simp add: bt_of_list_def wire_names request_values_ok_def value_ok_def)
qed

text \<open>Reversing the options changes only the order in which they are written.\<close>

lemma unreversed:
  assumes "request_sorted req" "request_values_ok req"
  shows "canon (request_value TypeSafe req) = canon (request_value TypeSafe (req\<lparr>rq_reverse_choice := None\<rparr>))"
proof -
  have criteria: "canon (criteria_value r c) = canon (criteria_value False c)" if "bt_sorted c" for r c
  proof -
    have "bt_sorted (map (\<lambda>(k, v). (k, String v)) c)" using that by (simp add: bt_sorted_def comp_def split_beta')
    from bt_of_list_rev [OF this] bt_of_list_sorted [OF this] show ?thesis
      by (simp add: criteria_value_def comp_def split_beta' rev_map)
  qed
  have question: "canon (question_value TypeSafe r q) = canon (question_value TypeSafe False q)"
    if "(k, q) \<in> set (rq_questions req)" for r k q
  proof (cases q)
    case (Q_Choice i c)
    then have "canon (criteria_value r c) = canon (criteria_value False c)"
      using question_of_request(2) [OF assms that] by (intro criteria) simp
    then show ?thesis using Q_Choice by (simp add: bt_of_list_def wire_names)
  qed simp
  have "canon (questions_value TypeSafe req) = canon (questions_value TypeSafe (req\<lparr>rq_reverse_choice := None\<rparr>))"
  proof -
    have "map (\<lambda>kq. (fst kq, canon (question_value TypeSafe (rq_reverse_choice req = Some (fst kq)) (snd kq)))) (rq_questions req)
        = map (\<lambda>kq. (fst kq, canon (question_value TypeSafe False (snd kq)))) (rq_questions req)"
    proof (rule map_cong [OF refl])
      fix kq assume "kq \<in> set (rq_questions req)"
      then have "(fst kq, snd kq) \<in> set (rq_questions req)" by simp
      from question [OF this]
      show "(fst kq, canon (question_value TypeSafe (rq_reverse_choice req = Some (fst kq)) (snd kq)))
          = (fst kq, canon (question_value TypeSafe False (snd kq)))" by (rule arg_cong)
    qed
    moreover have "canon (questions_value TypeSafe r) = Object (bt_of_list (map (\<lambda>kq.
        (fst kq, canon (question_value TypeSafe (rq_reverse_choice r = Some (fst kq)) (snd kq)))) (rq_questions r)))" for r
      by (simp add: questions_value_def comp_def split_beta' del: question_value.simps)
    ultimately show ?thesis by (simp del: map_eq_conv)
  qed
  then show ?thesis by (simp add: bt_of_list_def wire_names)
qed

lemma native_depth:
  "check_depth (request_value Cloudflare req) 0 \<longleftrightarrow> check_depth (request_value Cloudflare (req\<lparr>rq_reverse_choice := None\<rparr>)) 0"
proof -
  have "check_depth (questions_value Cloudflare req) d \<longleftrightarrow> check_depth (questions_value Cloudflare (req\<lparr>rq_reverse_choice := None\<rparr>)) d" for d
  proof -
    have "(\<forall>kq \<in> set (rq_questions req). check_depth (question_value Cloudflare (rq_reverse_choice req = Some (fst kq)) (snd kq)) (d + 1))
        \<longleftrightarrow> (\<forall>kq \<in> set (rq_questions req). check_depth (question_value Cloudflare False (snd kq)) (d + 1))"
      by (subst question_depth_reversed) simp
    then show ?thesis by (simp add: questions_value_def split_beta')
  qed
  then show ?thesis by (simp add: field_def)
qed

lemma native_encode_Ok:
  assumes "reads_back S" "request_sorted req" "request_values_ok req"
  shows "native_encode_request S req = Ok body \<longleftrightarrow>
    rq_model req = CLOUDFLARE_JEV_MODEL \<and> (\<exists>b. to_json S req = Ok b) \<and> check_depth (request_value Cloudflare req) 0
    \<and> body = sd_render S (request_value Cloudflare req) \<and> length body \<le> MAX_REQUEST_BYTES"
proof (cases "to_json S req")
  case (Ok b)
  let ?plain = "req\<lparr>rq_reverse_choice := None\<rparr>"
  let ?input = "Object [field ''questions'' (questions_value Cloudflare ?plain), field ''state'' (rq_state ?plain)]"
  have "sd_from_slice S b = Some (canon (request_value TypeSafe ?plain))"
    using request_depth [OF Ok assms(2)] request_no_duplicates [OF assms(2,3)] assms(1) Ok unreversed [OF assms(2,3)]
    by (auto simp: reads_back_def to_json_Ok)
  moreover have "request_sorted ?plain" "request_values_ok ?plain"
    using assms by (simp_all add: request_sorted_def request_values_ok_def)
  ultimately have input: "Option.bind (sd_from_slice S b) remove_model = Some (String (rq_model req), ?input)"
    using native_input [of ?plain] by simp
  have "Object [field ''input'' ?input, field ''model'' (String (rq_model req))] = request_value Cloudflare ?plain"
    by simp
  then have eq: "native_encode_request S req =
      (if rq_model req \<noteq> CLOUDFLARE_JEV_MODEL then Err InvalidRequest
       else if \<not> check_depth (request_value Cloudflare req) 0 then Err InvalidJson
       else and_then (if has_reversed_choice req then ordered_native_json S req else Ok (sd_render S (request_value Cloudflare ?plain)))
              (\<lambda>body. if length body > MAX_REQUEST_BYTES then Err TooLarge else Ok body))"
    unfolding native_encode_request_def native_depth [of req] by (simp only: Ok input and_then.simps option.case prod.case Let_def)
  show ?thesis
  proof (cases "has_reversed_choice req")
    case True
    then show ?thesis unfolding eq
      by (auto simp: Ok ordered_native_json_def bounded_buffer_def simp del: request_value.simps check_depth.simps)
  next
    case False
    then have "?plain = req" by (cases req) (simp add: has_reversed_choice_def)
    then show ?thesis using False unfolding eq by (auto simp: Ok simp del: request_value.simps check_depth.simps)
  qed
qed (auto simp: native_encode_request_def)

text \<open>
  C31. What is sent is the request and nothing else. In either wire format the bytes are the rendering
  of the request's model, state and questions in that format's order, with a reversed choice written
  backwards and everything else unchanged; they never pass the request limit or the depth limit, and
  the second provider only ever gets its own model.
\<close>

theorem wire_bytes_exact:
  assumes "reads_back S" "request_sorted req" "request_values_ok req"
  shows "to_wire_json S fmt req = Ok body \<longleftrightarrow>
    (\<exists>b. to_json S req = Ok b) \<and> body = sd_render S (request_value fmt req)
    \<and> check_depth (request_value fmt req) 0 \<and> length body \<le> MAX_REQUEST_BYTES
    \<and> (fmt = Cloudflare \<longrightarrow> rq_model req = CLOUDFLARE_JEV_MODEL)"
proof (cases fmt)
  case TypeSafe
  then show ?thesis using request_depth [OF _ assms(2), of S]
    by (auto simp: to_wire_json_def to_json_Ok simp del: request_value.simps)
next
  case Cloudflare
  then show ?thesis using native_encode_Ok [OF assms, of body] by (auto simp: to_wire_json_def)
qed

section \<open>A stored answer\<close>

fun wire_answer :: "Answer \<Rightarrow> WireAnswer" where
  "wire_answer (A_Noul v) = W_Noul v"
| "wire_answer (A_Choice c) = W_Choice (ca_choice c) (ca_raw_probabilities c) (ca_confidence c)"

definition wire_response :: "Response \<Rightarrow> WireResponse" where
  "wire_response r = \<lparr> wr_model = rs_returned_model r,
     wr_answers = map (\<lambda>(k, a). (k, wire_answer a)) (rs_answers r), wr_usage = rs_usage r \<rparr>"

text \<open>
  The derived conversion of the answer types, on an object: each declared field is looked up by its
  name and read at its declared type, an absent one is an error, and other entries are ignored. The
  entry \<open>type\<close> selects the variant by its lowercase name. A \<open>u64\<close> is read from a number without sign,
  fraction or exponent that fits 64 bits.
\<close>

fun as_string :: "Value \<Rightarrow> str option" where
  "as_string (String s) = Some s"
| "as_string _ = None"

fun as_f64 :: "Serde \<Rightarrow> Value \<Rightarrow> f64 option" where
  "as_f64 S (Number n) = sd_f64 S n"
| "as_f64 S _ = None"

fun as_u64 :: "Value \<Rightarrow> u64 option" where
  "as_u64 (Number n) =
     (if n \<noteq> [] \<and> list_all is_ascii_digit n then parse_u64_digits n else None)"
| "as_u64 _ = None"

fun read_entries :: "(Value \<Rightarrow> 'a option) \<Rightarrow> (str \<times> Value) list \<Rightarrow> (str, 'a) btree \<Rightarrow> (str, 'a) btree option" where
  "read_entries f [] m = Some m"
| "read_entries f ((k, v) # kvs) m = Option.bind (f v) (\<lambda>a. read_entries f kvs (bt_insert k a m))"

fun as_map :: "(Value \<Rightarrow> 'a option) \<Rightarrow> Value \<Rightarrow> (str, 'a) btree option" where
  "as_map f (Object kvs) = read_entries f kvs []"
| "as_map f _ = None"

definition read_field :: "Value \<Rightarrow> string \<Rightarrow> (Value \<Rightarrow> 'a option) \<Rightarrow> 'a option" where
  "read_field v name f = Option.bind (value_get v name) f"

definition read_wire_answer :: "Serde \<Rightarrow> Value \<Rightarrow> WireAnswer option" where
  "read_wire_answer S v =
     Option.bind (read_field v ''type'' as_string) (\<lambda>tag.
       if tag = scalars ''noul'' then map_option W_Noul (read_field v ''noul'' (as_f64 S))
       else if tag = scalars ''choice'' then
         Option.bind (read_field v ''choice'' as_string) (\<lambda>choice.
         Option.bind (read_field v ''probabilities'' (as_map (as_f64 S))) (\<lambda>probabilities.
         map_option (W_Choice choice probabilities) (read_field v ''confidence'' (as_f64 S))))
       else None)"

definition read_usage :: "Value \<Rightarrow> Usage option" where
  "read_usage v =
     Option.bind (read_field v ''input_tokens'' as_u64) (\<lambda>i.
     map_option (\<lambda>out. \<lparr> us_input_tokens = i, us_output_tokens = out \<rparr>) (read_field v ''output_tokens'' as_u64))"

definition read_wire_response :: "Serde \<Rightarrow> Value \<Rightarrow> WireResponse option" where
  "read_wire_response S v =
     Option.bind (read_field v ''model'' as_string) (\<lambda>model.
     Option.bind (read_field v ''answers'' (as_map (read_wire_answer S))) (\<lambda>answers.
     map_option (\<lambda>usage. \<lparr> wr_model = model, wr_answers = answers, wr_usage = usage \<rparr>) (read_field v ''usage'' read_usage)))"

text \<open>
  What is used of the library: the derived conversion accepts what the declared types read, its tokens
  are 64-bit integers, and a finite \<open>f64\<close> printed by the library reads back as itself (its feature
  \<open>float_roundtrip\<close> is on).
\<close>

definition derives_wire :: "Serde \<Rightarrow> bool" where
  "derives_wire S \<longleftrightarrow>
     (\<forall>v w. read_wire_response S v = Some w \<longrightarrow> sd_wire S v = Some w)
     \<and> (\<forall>v w. sd_wire S v = Some w \<longrightarrow> us_input_tokens (wr_usage w) \<le> U64_MAX \<and> us_output_tokens (wr_usage w) \<le> U64_MAX)"

definition numbers_roundtrip :: "Serde \<Rightarrow> bool" where
  "numbers_roundtrip S \<longleftrightarrow> (\<forall>x. is_finite x \<longrightarrow> sd_f64 S (sd_number S x) = Some x)"

lemma wire_accepted: "wire_answer (accepted a) = a"
  by (cases a) simp_all

definition answer_sorted :: "Answer \<Rightarrow> bool" where
  "answer_sorted a \<longleftrightarrow> (\<forall>c. a = A_Choice c \<longrightarrow> bt_sorted (ca_raw_probabilities c))"

lemma answer_value_ok: "answer_sorted a \<Longrightarrow> canon (answer_value S a) = answer_value S a \<and> no_duplicates (answer_value S a) \<and> check_depth (answer_value S a) 2"
proof (cases a)
  case (A_Choice c)
  moreover assume "answer_sorted a"
  ultimately have "bt_sorted (ca_raw_probabilities c)" by (simp add: answer_sorted_def)
  then show ?thesis
    using A_Choice sorted_entries [of "ca_raw_probabilities c" "\<lambda>v. Number (sd_number S v)"] sorted_distinct [of "ca_raw_probabilities c"]
    by (auto simp: wire_names bt_of_list_def comp_def split_beta' MAX_OUTPUT_DEPTH_def numeral_2_eq_2)
qed (simp add: wire_names bt_of_list_def MAX_OUTPUT_DEPTH_def)

lemma response_value_ok:
  assumes "bt_sorted (rs_answers r)" "\<forall>a \<in> set (bt_values (rs_answers r)). answer_sorted a"
  shows "canon (response_value S r) = response_value S r \<and> no_duplicates (response_value S r) \<and> check_depth (response_value S r) 0"
proof -
  let ?answers = "Object (map (\<lambda>(k, a). (k, answer_value S a)) (rs_answers r))"
  have each: "canon (answer_value S (snd e)) = answer_value S (snd e) \<and> no_duplicates (answer_value S (snd e)) \<and> check_depth (answer_value S (snd e)) 2"
    if "e \<in> set (rs_answers r)" for e
    using that assms(2) by (intro answer_value_ok) (auto simp: bt_values_def)
  have "canon ?answers = Object (map (\<lambda>(k, a). (k, canon (answer_value S a))) (rs_answers r))"
    by (rule canon_entries [OF assms(1)])
  also have "\<dots> = ?answers" using each by (auto simp del: answer_value.simps)
  finally have "canon ?answers = ?answers" .
  moreover have "no_duplicates ?answers"
    using each sorted_distinct [OF assms(1)] by (intro no_duplicates_entries) auto
  moreover have "check_depth ?answers 1"
    using each by (auto simp: MAX_OUTPUT_DEPTH_def numeral_2_eq_2)
  ultimately show ?thesis
    by (simp add: response_value_def usage_value_def wire_names bt_of_list_def MAX_OUTPUT_DEPTH_def
        del: canon.simps(2) no_duplicates.simps(2) check_depth.simps(2))
      (simp add: bt_of_list_def MAX_OUTPUT_DEPTH_def)
qed

lemma decoded_sorted:
  assumes "to_json S req = Ok bytes" "request_sorted req" "decode_wire req wire = Ok resp"
  shows "bt_sorted (rs_answers resp)" "\<forall>a \<in> set (bt_values (rs_answers resp)). answer_sorted a" "wire_response resp = wire"
proof -
  note ok = decode_wire_Ok [OF assms(1,2), of wire resp]
  have keys: "bt_keys (wr_answers wire) = bt_keys (rq_questions req)"
    and fits: "\<forall>(k, a) \<in> set (wr_answers wire). answer_fits (the (bt_get (rq_questions req) k)) a"
    and resp: "resp = \<lparr> rs_requested_model = rq_model req, rs_returned_model = wr_model wire,
        rs_answers = map (\<lambda>(k, a). (k, accepted a)) (wr_answers wire), rs_usage = wr_usage wire \<rparr>"
    using ok assms(3) by blast+
  have sorted: "bt_sorted (rq_questions req)" using assms(2) by (simp add: request_sorted_def)
  then show "bt_sorted (rs_answers resp)"
    using keys by (simp add: resp bt_sorted_def bt_keys_def comp_def split_beta')
  show "wire_response resp = wire"
    by (simp add: wire_response_def resp comp_def split_beta' wire_accepted)
  have "answer_sorted (accepted a)" if ka: "(k, a) \<in> set (wr_answers wire)" for k a
  proof -
    have "k \<in> set (bt_keys (wr_answers wire))" using ka by (force simp: bt_keys_def)
    then have "k \<in> set (bt_keys (rq_questions req))" by (simp only: keys)
    then obtain q where q: "bt_get (rq_questions req) k = Some q" using bt_get_None_iff [of "rq_questions req" k] by auto
    moreover have "answer_fits q a" using fits ka q by fastforce
    ultimately show ?thesis
      using assms(2) by (cases q; cases a) (auto simp: answer_sorted_def request_sorted_def bt_sorted_def bt_keys_def)
  qed
  then show "\<forall>a \<in> set (bt_values (rs_answers resp)). answer_sorted a"
    by (auto simp: resp bt_values_def)
qed

lemma digit_char_scalar: "d < 10 \<Longrightarrow> of_char (digit_char d) = (48 + d :: nat)"
proof -
  assume "d < 10"
  then have "d \<in> {0, 1, 2, 3, 4, 5, 6, 7, 8, 9}" by auto
  then show ?thesis by (auto simp: digit_char_def)
qed

lemma dec_read:
  "scalars (dec n) \<noteq> [] \<and> list_all is_ascii_digit (scalars (dec n)) \<and> digits_value (scalars (dec n)) = n"
proof -
  have "scalars (radix 10 n) \<noteq> [] \<and> list_all is_ascii_digit (scalars (radix 10 n)) \<and> digits_value (scalars (radix 10 n)) = n"
  proof (induction n rule: less_induct)
    case (less n)
    show ?case
    proof (cases "n < 10")
      case True
      then show ?thesis
        by (simp add: radix.simps [of 10 n] digits_value_def scalars_def digit_char_scalar is_ascii_digit_def)
    next
      case False
      then have "list_all is_ascii_digit (scalars (radix 10 (n div 10)))" "digits_value (scalars (radix 10 (n div 10))) = n div 10"
        using less by simp_all
      moreover have "is_ascii_digit (48 + n mod 10)" by (simp add: is_ascii_digit_def)
      ultimately show ?thesis using False
        by (simp add: radix.simps [of 10 n] digits_value_def scalars_def digit_char_scalar)
    qed
  qed
  then show ?thesis by (simp add: dec_def)
qed

lemma read_entries_map:
  assumes "bt_sorted (kept @ m)" "\<And>e. e \<in> set m \<Longrightarrow> f (g (snd e)) = Some (h (snd e))"
  shows "read_entries f (map (\<lambda>(k, v). (k, g v)) m) (map (\<lambda>(k, v). (k, h v)) kept) = Some (map (\<lambda>(k, v). (k, h v)) (kept @ m))"
  using assms
proof (induction m arbitrary: kept)
  case (Cons e m)
  obtain k v where e: "e = (k, v)" by (cases e)
  have "\<forall>k'\<in>fst ` set (map (\<lambda>(k, v). (k, h v)) kept). k' < k"
    using Cons.prems(1) by (force simp: e bt_sorted_def bt_keys_def sorted_wrt_append)
  then have "bt_insert k (h v) (map (\<lambda>(k, v). (k, h v)) kept) = map (\<lambda>(k, v). (k, h v)) (kept @ [e])"
    by (simp add: bt_insert_last e)
  moreover have "f (g v) = Some (h v)" using Cons.prems(2) [of e] by (simp add: e)
  ultimately show ?case using Cons.IH [of "kept @ [e]"] Cons.prems by (simp add: e)
qed simp

lemma as_map_entries:
  "bt_sorted m \<Longrightarrow> (\<And>e. e \<in> set m \<Longrightarrow> f (g (snd e)) = Some (h (snd e)))
     \<Longrightarrow> as_map f (Object (map (\<lambda>(k, v). (k, g v)) m)) = Some (map (\<lambda>(k, v). (k, h v)) m)"
  using read_entries_map [of "[]" m f g h] by simp

text \<open>The numbers of an answer that a validated response can hold.\<close>

fun answer_finite :: "Answer \<Rightarrow> bool" where
  "answer_finite (A_Noul v) = is_finite v"
| "answer_finite (A_Choice c) = (is_finite (ca_confidence c) \<and> list_all is_finite (bt_values (ca_raw_probabilities c)))"

lemma written_answer_read:
  assumes "numbers_roundtrip S" "answer_finite a" "answer_sorted a"
  shows "read_wire_answer S (answer_value S a) = Some (wire_answer a)"
proof (cases a)
  case (A_Noul v)
  then show ?thesis using assms
    by (simp add: read_wire_answer_def read_field_def field_def text_value_def numbers_roundtrip_def)
next
  case (A_Choice c)
  have "as_map (as_f64 S) (Object (map (\<lambda>(k, v). (k, Number (sd_number S v))) (ca_raw_probabilities c)))
      = Some (map (\<lambda>(k, v). (k, v)) (ca_raw_probabilities c))"
  proof (rule as_map_entries)
    show "bt_sorted (ca_raw_probabilities c)" using assms(3) A_Choice by (simp add: answer_sorted_def)
    fix e assume "e \<in> set (ca_raw_probabilities c)"
    then have "is_finite (snd e)" using assms(2) A_Choice by (auto simp: list_all_iff bt_values_def)
    then show "as_f64 S (Number (sd_number S (snd e))) = Some (snd e)" using assms(1) by (simp add: numbers_roundtrip_def)
  qed
  then show ?thesis using A_Choice assms(1,2)
    by (simp add: read_wire_answer_def read_field_def field_def text_value_def numbers_roundtrip_def del: as_map.simps)
qed

lemma written_usage_read:
  assumes "us_input_tokens u \<le> U64_MAX" "us_output_tokens u \<le> U64_MAX"
  shows "read_usage (usage_value u) = Some u"
  using assms dec_read
  by (cases u) (simp add: read_usage_def read_field_def usage_value_def field_def parse_u64_digits_def Let_def)

lemma written_response_read:
  assumes "numbers_roundtrip S" "bt_sorted (rs_answers r)"
    "\<forall>a \<in> set (bt_values (rs_answers r)). answer_sorted a \<and> answer_finite a"
    "us_input_tokens (rs_usage r) \<le> U64_MAX" "us_output_tokens (rs_usage r) \<le> U64_MAX"
  shows "read_wire_response S (response_value S r) = Some (wire_response r)"
proof -
  have "as_map (read_wire_answer S) (Object (map (\<lambda>(k, a). (k, answer_value S a)) (rs_answers r)))
      = Some (map (\<lambda>(k, a). (k, wire_answer a)) (rs_answers r))"
    using assms(3) by (intro as_map_entries assms(2) written_answer_read [OF assms(1)]) (auto simp: bt_values_def)
  then show ?thesis using written_usage_read [OF assms(4,5)]
    by (simp add: read_wire_response_def read_field_def response_value_def field_def wire_response_def del: as_map.simps)
qed

lemma decoded_finite:
  assumes "to_json S req = Ok bytes" "request_sorted req" "decode_wire req wire = Ok resp"
  shows "\<forall>a \<in> set (bt_values (rs_answers resp)). answer_finite a"
proof -
  have unit: "unit_value v \<Longrightarrow> is_finite v" for v by (auto simp: unit_value_val is_finite_def)
  have fits: "answer_finite (accepted a)" if "answer_fits q a" for q a
    using that by (cases q; cases a) (auto simp: list_all_iff intro: unit)
  have "\<forall>(k, a) \<in> set (wr_answers wire). answer_fits (the (bt_get (rq_questions req) k)) a"
    and "rs_answers resp = map (\<lambda>(k, a). (k, accepted a)) (wr_answers wire)"
    using decode_wire_Ok [OF assms(1,2), of wire resp] assms(3) by auto
  then show ?thesis using fits by (fastforce simp: bt_values_def)
qed

text \<open>
  C30. A validated answer survives storage. A response that was decoded for a request, written out for the cache and
  decoded again against the same request, is reproduced exactly: model, raw probabilities, totals, choices, confidences
  and usage. The reader looks up the fields that the answer types declare, by name and type; of the library it is used
  that a rendered document is read back, that a finite number is printed exactly, and that the derived conversion reads
  the declared fields.
\<close>

theorem stored_answers_decode_identically:
  assumes "reads_back S" "derives_wire S" "numbers_roundtrip S" "to_json S req = Ok bytes" "request_sorted req"
    and "decode_response S req body = Ok resp" "length (to_wire_bytes S resp) \<le> MAX_RESPONSE_BYTES"
  shows "decode_response S req (to_wire_bytes S resp) = Ok resp"
proof -
  obtain v wire where read: "sd_wire S v = Some wire" and wire: "decode_wire req wire = Ok resp"
    using assms(6) by (auto simp: decode_response_Ok)
  note s = decoded_sorted [OF assms(4,5) wire]
  note ok = response_value_ok [OF s(1,2), of S]
  have "accepts_json S (to_wire_bytes S resp) MAX_RESPONSE_BYTES (response_value S resp)"
    using assms(1,7) ok by (auto simp: accepts_json_def to_wire_bytes_def reads_back_def)
  moreover have "rs_usage resp = wr_usage wire" using s(3) by (auto simp: wire_response_def)
  then have "read_wire_response S (response_value S resp) = Some wire"
    using written_response_read [OF assms(3) s(1)] s(2,3) decoded_finite [OF assms(4,5) wire] assms(2) read
    by (simp add: derives_wire_def)
  then have "sd_wire S (response_value S resp) = Some wire" using assms(2) unfolding derives_wire_def by blast
  ultimately show ?thesis using wire by (auto simp: decode_response_Ok)
qed

section \<open>One answer location\<close>

text \<open>The native envelope yields an object, and no other place of the envelope holds answers.\<close>

lemma result_object_Ok:
  "result_object e = Ok v \<Longrightarrow>
     value_get e ''answers'' \<noteq> None \<and> v = e \<and> value_get e ''result'' = None
   \<or> value_get e ''answers'' = None \<and> value_get e ''result'' = Some v \<and> is_object v \<and> value_get v ''result'' = None
   \<or> (\<exists>outer. value_get e ''answers'' = None \<and> value_get e ''result'' = Some outer \<and> is_object outer
        \<and> value_get outer ''answers'' = None \<and> value_get outer ''result'' = Some v \<and> is_object v)"
  by (auto simp: result_object_def split: if_splits option.splits)

text \<open>Read back, the selected result decodes as the plain answer it is.\<close>

lemma native_decode_Ok:
  "native_decode_response S req body = Ok resp \<longleftrightarrow>
     (\<exists>envelope v. accepts_json S body MAX_RESPONSE_BYTES envelope \<and> value_get envelope ''success'' = Some (Bool True)
        \<and> result_object envelope = Ok v \<and> decode_response S req (sd_render S v) = Ok resp)"
proof -
  have "native_decode_response S req body = and_then (parse_json S body MAX_RESPONSE_BYTES) (\<lambda>envelope.
      if value_get envelope ''success'' \<noteq> Some (Bool True) then Err InvalidAnswer
      else and_then (result_object envelope) (\<lambda>r. decode_response S req (sd_render S r)))"
    by (simp add: native_decode_response_def parse_json_def split: option.split)
  then show ?thesis by (auto simp: parse_json_Ok)
qed

section \<open>A request and its answer\<close>

instance Value :: countable
  by countable_datatype

instance f64 :: countable
  by countable_datatype

text \<open>A renderer that numbers the values, and a conversion that knows one answer.\<close>

definition demo_serde :: "(Value \<Rightarrow> WireResponse option) \<Rightarrow> Serde" where
  "demo_serde w =
     \<lparr> sd_tokens = (\<lambda>b. case b of [n] \<Rightarrow> Some (from_nat n) | _ \<Rightarrow> None),
       sd_from_slice = (\<lambda>b. case b of [n] \<Rightarrow> Some (canon (from_nat n)) | _ \<Rightarrow> None),
       sd_render = (\<lambda>v. [to_nat v]), sd_wire = w, sd_request = (\<lambda>_. None), sd_number = (\<lambda>x. [to_nat x]),
       sd_f64 = (\<lambda>n. case n of [d] \<Rightarrow> Some (from_nat d) | _ \<Rightarrow> None) \<rparr>"

lemma demo_reads_back: "reads_back (demo_serde w)"
  by (simp add: reads_back_def demo_serde_def)

definition demo_criteria :: "(str, str) btree" where
  "demo_criteria = [([95], [110]), ([111], [115])]"

lemma demo_criteria_small: "length demo_criteria \<le> MAX_CHOICE_OPTIONS"
  by (simp add: demo_criteria_def MAX_CHOICE_OPTIONS_def)

definition demo_request :: Request where
  "demo_request = \<lparr> rq_model = CLOUDFLARE_JEV_MODEL, rq_state = String [115],
     rq_questions = [([103], Q_Noul (String [63]) None), ([119], Q_Choice (String [63]) demo_criteria)],
     rq_reverse_choice = Some [119] \<rparr>"

definition demo_probabilities :: "(str, f64) btree" where
  "demo_probabilities = [([95], Fin (1 / 4)), ([111], Fin (3 / 4))]"

definition demo_wire :: WireResponse where
  "demo_wire = \<lparr> wr_model = [109],
     wr_answers = [([103], W_Noul (Fin 1)), ([119], W_Choice [111] demo_probabilities (Fin (1 / 2)))],
     wr_usage = \<lparr> us_input_tokens = 5, us_output_tokens = 2 \<rparr> \<rparr>"

lemma demo_to_json: "\<exists>b. to_json (demo_serde w) demo_request = Ok b"
proof -
  have "valid_id CLOUDFLARE_JEV_MODEL" "valid_id [103]" "valid_id [119]" "valid_id [95]" "valid_id [111]"
    by code_simp+
  then show ?thesis
    by (simp add: to_json_def demo_request_def demo_criteria_def demo_serde_def bt_keys_def bt_values_def MAX_OUTPUT_DEPTH_def
        validate_question_def MAX_CHOICE_OPTIONS_def bounded_buffer_def MAX_REQUEST_BYTES_def)
qed

lemma demo_request_ok: "request_sorted demo_request" "request_values_ok demo_request"
  by (auto simp: request_sorted_def request_values_ok_def demo_request_def demo_criteria_def bt_sorted_def bt_get_def
      bt_values_def value_ok_def split: if_splits)

lemma demo_total: "total_probability demo_probabilities = Fin 1"
proof -
  have quarters: "rep (of_int n / 4)" if "\<bar>n\<bar> \<le> 2 ^ 53" for n
    unfolding rep_def by (rule exI [of _ n], rule exI [of _ "-2"]) (use that in \<open>simp add: power_int_def power_divide\<close>)
  have "sort [Fin (1 / 4), Fin (3 / 4)] = [Fin (1 / 4), Fin (3 / 4)]"
    by (simp add: less_eq_f64_def)
  then show ?thesis
    using f64_of_rep [OF quarters [of 1]] f64_of_rep [OF rep_1]
    by (simp add: total_probability_def demo_probabilities_def bt_values_def f64_fold_add_def)
qed

lemma demo_fits_choice:
  "answer_fits (Q_Choice (String [63]) demo_criteria) (W_Choice [111] demo_probabilities (Fin (1 / 2)))"
proof -
  have tol: "f64_le (Fin 0) SUM_TOLERANCE"
    using SUM_TOLERANCE_val f64_le_val [of "Fin 0" 0] by fastforce
  have sub: "f64_abs (f64_sub (Fin 1) (Fin 1)) = Fin 0"
    by (simp add: f64_sub_def f64_of_def signed_zero_def)
  show ?thesis
    using tol by (simp add: demo_total sub f64_lt_def) (simp add: demo_criteria_def demo_probabilities_def bt_keys_def bt_values_def bt_get_def f64_within_def)
qed

lemma demo_fits: "decode_wire demo_request demo_wire = Ok resp \<longleftrightarrow> resp =
    \<lparr> rs_requested_model = CLOUDFLARE_JEV_MODEL, rs_returned_model = [109],
      rs_answers = map (\<lambda>(k, a). (k, accepted a)) (wr_answers demo_wire), rs_usage = wr_usage demo_wire \<rparr>"
proof -
  obtain b where b: "to_json (demo_serde (\<lambda>_. None)) demo_request = Ok b" using demo_to_json by blast
  have "valid_id [109]" by code_simp
  moreover note demo_fits_choice
  ultimately show ?thesis
    unfolding decode_wire_Ok [OF b demo_request_ok(1)]
    by (simp add: demo_request_def demo_wire_def bt_keys_def bt_get_def f64_within_def del: answer_fits.simps(2))
qed

text \<open>The conversion of the declared fields, and nothing else.\<close>

definition demo_reader :: Serde where
  "demo_reader = demo_serde (read_wire_response (demo_serde (\<lambda>_. None)))"

lemma demo_same_f64: "sd_f64 (demo_serde w) = sd_f64 (demo_serde w')"
  by (simp add: demo_serde_def)

lemma demo_read_same: "read_wire_response (demo_serde w) v = read_wire_response (demo_serde w') v"
proof -
  have numbers: "as_f64 (demo_serde w) = as_f64 (demo_serde w')"
  proof
    fix n show "as_f64 (demo_serde w) n = as_f64 (demo_serde w') n" using demo_same_f64 [of w w'] by (cases n) simp_all
  qed
  have "read_wire_answer (demo_serde w) = read_wire_answer (demo_serde w')"
    unfolding read_wire_answer_def numbers by (rule refl)
  then show ?thesis by (simp add: read_wire_response_def)
qed

lemma demo_reader_reads: "read_wire_response demo_reader v = sd_wire demo_reader v"
proof -
  have "sd_wire (demo_serde w) = w" for w by (simp add: demo_serde_def)
  then show ?thesis unfolding demo_reader_def using demo_read_same by metis
qed

lemma as_u64_bound: "as_u64 v = Some n \<Longrightarrow> n \<le> U64_MAX"
  by (cases v) (auto simp: parse_u64_digits_def Let_def split: if_splits)

lemma read_field_Some: "read_field v name f = Some a \<Longrightarrow> \<exists>w. f w = Some a"
  by (auto simp: read_field_def bind_eq_Some_conv)

lemma demo_derives: "derives_wire demo_reader"
proof -
  have "us_input_tokens (wr_usage w) \<le> U64_MAX \<and> us_output_tokens (wr_usage w) \<le> U64_MAX"
    if read: "read_wire_response demo_reader v = Some w" for v w
  proof -
    obtain usage where "read_field v ''usage'' read_usage = Some usage" "wr_usage w = usage"
      using read by (auto simp: read_wire_response_def bind_eq_Some_conv)
    then obtain u where "read_usage u = Some (wr_usage w)" using read_field_Some [of v "''usage''" read_usage] by auto
    then obtain i where i: "read_field u ''input_tokens'' as_u64 = Some i"
        "map_option (\<lambda>out. \<lparr> us_input_tokens = i, us_output_tokens = out \<rparr>) (read_field u ''output_tokens'' as_u64) = Some (wr_usage w)"
      unfolding read_usage_def bind_eq_Some_conv by blast
    obtain out where parts: "read_field u ''output_tokens'' as_u64 = Some out"
        "wr_usage w = \<lparr> us_input_tokens = i, us_output_tokens = out \<rparr>"
      using i(2) by (cases "read_field u ''output_tokens'' as_u64") simp_all
    have "i \<le> U64_MAX" "out \<le> U64_MAX" using read_field_Some [OF i(1)] read_field_Some [OF parts(1)] as_u64_bound by auto
    then show ?thesis by (simp add: parts(2))
  qed
  then show ?thesis by (simp add: derives_wire_def demo_reader_reads)
qed

lemma demo_numbers: "numbers_roundtrip demo_reader"
  by (simp add: numbers_roundtrip_def demo_reader_def demo_serde_def)

theorem answers_match_the_request_witness:
  "\<exists>resp. decode_response (demo_serde (\<lambda>_. Some demo_wire)) demo_request [to_nat Null] = Ok resp
     \<and> rs_returned_model resp = [109]"
proof -
  let ?S = "demo_serde (\<lambda>_. Some demo_wire)"
  obtain b where b: "to_json ?S demo_request = Ok b" using demo_to_json by blast
  define resp where "resp = \<lparr> rs_requested_model = rq_model demo_request, rs_returned_model = wr_model demo_wire,
      rs_answers = map (\<lambda>(k, a). (k, accepted a)) (wr_answers demo_wire), rs_usage = wr_usage demo_wire \<rparr>"
  have "decode_wire demo_request demo_wire = Ok resp"
    unfolding demo_fits by (simp add: resp_def demo_request_def demo_wire_def)
  then have fits: "valid_id (wr_model demo_wire)" "bt_keys (wr_answers demo_wire) = bt_keys (rq_questions demo_request)"
      "\<forall>(k, a) \<in> set (wr_answers demo_wire). answer_fits (the (bt_get (rq_questions demo_request) k)) a"
    unfolding decode_wire_Ok [OF b demo_request_ok(1)] by blast+
  have read: "length [to_nat Null] \<le> MAX_RESPONSE_BYTES" "sd_tokens ?S [to_nat Null] = Some Null"
      "check_depth Null 0" "no_duplicates Null" "sd_wire ?S (canon Null) = Some demo_wire"
    by (simp_all add: demo_serde_def MAX_RESPONSE_BYTES_def)
  have "decode_response ?S demo_request [to_nat Null] = Ok resp"
    unfolding answers_match_the_request [OF b demo_request_ok(1)]
    by (rule exI [of _ Null], rule exI [of _ demo_wire]) (use fits read resp_def in simp)
  then show ?thesis by (auto simp: resp_def demo_wire_def)
qed

theorem renamed_options_keep_probabilities_witness:
  "\<exists>a'. decode_choice [([111], [115]), ([122], [110])] [111] [([111], Fin (3 / 4)), ([122], Fin (1 / 4))] (Fin (1 / 2)) = Ok (A_Choice a')
     \<and> ca_raw_sum a' = Fin 1"
proof -
  define f :: "str \<Rightarrow> str" where "f = (\<lambda>k. if k = [95] then [122] else k)"
  have "answer_fits (Q_Choice (String [63]) demo_criteria) (W_Choice [111] demo_probabilities (Fin (1 / 2)))"
    by (rule demo_fits_choice)
  then have "decode_choice demo_criteria [111] demo_probabilities (Fin (1 / 2)) = Ok (A_Choice \<lparr> ca_choice = [111],
      ca_raw_probabilities = demo_probabilities, ca_raw_sum = Fin 1, ca_confidence = Fin (1 / 2) \<rparr>)"
    using decode_choice_Ok [of demo_criteria "[111]" demo_probabilities "Fin (1 / 2)" _ "String [63]"]
    by (simp add: demo_total demo_criteria_small del: answer_fits.simps)
  from renamed_options_keep_probabilities [OF this, of "[([111], [115]), ([122], [110])]" "[([111], Fin (3 / 4)), ([122], Fin (1 / 4))]" f]
  show ?thesis
    by (auto simp: f_def demo_criteria_def demo_probabilities_def MAX_CHOICE_OPTIONS_def bt_sorted_def bt_keys_def bt_get_def inj_on_def)
qed

theorem wire_bytes_exact_witness:
  "to_wire_json (demo_serde (\<lambda>_. None)) Cloudflare demo_request = Ok [to_nat (request_value Cloudflare demo_request)]"
proof -
  obtain b where b: "to_json (demo_serde (\<lambda>_. None)) demo_request = Ok b" using demo_to_json by blast
  have "check_depth (request_value Cloudflare demo_request) 0"
    by (simp add: demo_request_def demo_criteria_def questions_value_def criteria_value_def field_def text_value_def MAX_OUTPUT_DEPTH_def)
  then show ?thesis
    unfolding wire_bytes_exact [OF demo_reads_back demo_request_ok]
    using b by (auto simp: demo_serde_def MAX_REQUEST_BYTES_def demo_request_def simp del: request_value.simps)
qed

theorem stored_answers_decode_identically_witness:
  "\<exists>body resp. decode_response demo_reader demo_request body = Ok resp \<and> rs_returned_model resp = [109]
     \<and> decode_response demo_reader demo_request (to_wire_bytes demo_reader resp) = Ok resp"
proof -
  let ?S = demo_reader
  obtain b where b: "to_json ?S demo_request = Ok b" unfolding demo_reader_def using demo_to_json by blast
  define resp where "resp = \<lparr> rs_requested_model = CLOUDFLARE_JEV_MODEL, rs_returned_model = [109],
      rs_answers = map (\<lambda>(k, a). (k, accepted a)) (wr_answers demo_wire), rs_usage = wr_usage demo_wire \<rparr>"
  have wire: "decode_wire demo_request demo_wire = Ok resp" unfolding demo_fits resp_def ..
  note s = decoded_sorted [OF b demo_request_ok(1) wire]
  have "us_input_tokens (rs_usage resp) \<le> U64_MAX" "us_output_tokens (rs_usage resp) \<le> U64_MAX"
    by (simp_all add: resp_def demo_wire_def U64_MAX_def)
  then have "sd_wire ?S (response_value ?S resp) = Some demo_wire"
    using written_response_read [OF demo_numbers s(1)] s(2,3) decoded_finite [OF b demo_request_ok(1) wire]
    by (simp add: demo_reader_reads)
  moreover have "accepts_json ?S [to_nat (response_value ?S resp)] MAX_RESPONSE_BYTES (response_value ?S resp)"
    using response_value_ok [OF s(1,2), of ?S] by (auto simp: accepts_json_def demo_reader_def demo_serde_def MAX_RESPONSE_BYTES_def)
  ultimately have first: "decode_response ?S demo_request [to_nat (response_value ?S resp)] = Ok resp"
    using wire by (auto simp: decode_response_Ok)
  have "length (to_wire_bytes ?S resp) \<le> MAX_RESPONSE_BYTES"
    by (simp add: to_wire_bytes_def demo_reader_def demo_serde_def MAX_RESPONSE_BYTES_def)
  moreover have "reads_back ?S" unfolding demo_reader_def by (rule demo_reads_back)
  ultimately have "decode_response ?S demo_request (to_wire_bytes ?S resp) = Ok resp"
    using stored_answers_decode_identically [OF _ demo_derives demo_numbers b demo_request_ok(1) first] by blast
  moreover have "rs_returned_model resp = [109]" by (simp add: resp_def)
  ultimately show ?thesis using first by blast
qed

end
