(* ===== verification/Scoring.thy ===== *)
theory Scoring
  imports Eligibility "HOL-Library.Multiset"
begin

text \<open>
  Model of \<open>src/src/scoring.rs\<close>: the utility of an eligible candidate, the max-shifted softmax over
  all of them, and the top-K ranking. \<open>f64\<close> arithmetic is exact rounding (theory \<open>F64\<close>); \<open>ln\<close> and
  \<open>exp\<close> are the fields of a \<open>Libm\<close>. \<open>libm_ok\<close> is the behaviour of \<open>exp\<close> the code relies on.
\<close>

section \<open>Constants and errors\<close>

definition EPSILON :: f64 where "EPSILON = f64_of False (1 / 1000000)"

definition MAX_TOP_K :: nat where "MAX_TOP_K = 32"

definition W_FIT_MAX :: f64 where "W_FIT_MAX = Fin 4"

definition W_PRIOR_MAX :: f64 where "W_PRIOR_MAX = Fin (1 / 2)"

definition W_PHASE_MAX :: f64 where "W_PHASE_MAX = Fin 1"

datatype ScoringError =
    InvalidWeight | InvalidEstimate | InvalidAdjustment | InvalidTopK | DuplicateCandidate | NoCandidatesToScore

record Libm =
  lm_ln :: "f64 \<Rightarrow> f64"
  lm_exp :: "f64 \<Rightarrow> f64"

definition libm_ok :: "Libm \<Rightarrow> bool" where
  "libm_ok L \<longleftrightarrow> lm_exp L (Fin 0) = Fin 1 \<and> lm_exp L NegZero = Fin 1
     \<and> (\<forall>x. f64_le x (Fin 0) \<longrightarrow> f64_within (Fin 0) (Fin 1) (lm_exp L x) \<and> f64_wf (lm_exp L x))"

section \<open>Inputs\<close>

definition clip :: "f64 \<Rightarrow> f64" where
  "clip x = f64_clamp x EPSILON (f64_sub (Fin 1) EPSILON)"

definition log_odds :: "Libm \<Rightarrow> f64 \<Rightarrow> f64" where
  "log_odds L x = (let c = clip x in lm_ln L (f64_div c (f64_sub (Fin 1) c)))"

record Weights =
  we_fit :: f64
  we_prior :: f64
  we_phase :: f64

definition weights_default :: Weights where
  "weights_default = \<lparr> we_fit = Fin 1, we_prior = Fin 0, we_phase = Fin 0 \<rparr>"

definition weights_new :: "f64 \<Rightarrow> f64 \<Rightarrow> f64 \<Rightarrow> (Weights, ScoringError) result" where
  "weights_new fit prior phase =
     (if f64_within (Fin 0) W_FIT_MAX fit \<and> f64_within (Fin 0) W_PRIOR_MAX prior \<and> f64_within (Fin 0) W_PHASE_MAX phase
      then Ok \<lparr> we_fit = fit, we_prior = prior, we_phase = phase \<rparr>
      else Err InvalidWeight)"

record Input =
  in_id :: SkillId
  in_rerank :: f64
  in_fit :: f64
  in_prior_delta :: f64
  in_phase_match :: f64

definition input_from_eligible :: "Eligible \<Rightarrow> Input" where
  "input_from_eligible e =
     \<lparr> in_id = bi_id (as_binding (el_skill e)), in_rerank = el_rerank e, in_fit = el_fit e,
       in_prior_delta = Fin 0, in_phase_match = Fin 0 \<rparr>"

record Scored =
  sc_index :: usize
  sc_utility :: f64
  sc_rank_score :: f64

record Ranking =
  rg_returned :: "Scored list"
  rg_omitted_mass :: f64
  rg_eligible :: usize

definition utility :: "Libm \<Rightarrow> Weights \<Rightarrow> Input \<Rightarrow> f64" where
  "utility L w i =
     f64_add (f64_add (f64_add (lm_ln L (clip (in_rerank i)))
         (f64_mul (we_fit w) (log_odds L (in_fit i))))
         (f64_mul (we_prior w) (in_prior_delta i)))
       (f64_mul (we_phase w) (in_phase_match i))"

definition probability_ok :: "f64 \<Rightarrow> bool" where
  "probability_ok x = f64_within (Fin 0) (Fin 1) x"

fun validate_loop :: "SkillId set \<Rightarrow> Input list \<Rightarrow> (unit, ScoringError) result" where
  "validate_loop ids [] = Ok ()"
| "validate_loop ids (i # rest) =
     (if \<not> probability_ok (in_rerank i) \<or> \<not> probability_ok (in_fit i) then Err InvalidEstimate
      else if \<not> is_finite (in_prior_delta i) \<or> \<not> probability_ok (in_phase_match i) then Err InvalidAdjustment
      else if in_id i \<in> ids then Err DuplicateCandidate
      else validate_loop (insert (in_id i) ids) rest)"

definition validate_inputs :: "Input list \<Rightarrow> nat \<Rightarrow> (unit, ScoringError) result" where
  "validate_inputs inputs top_k =
     (if inputs = [] then Err NoCandidatesToScore
      else if \<not> (1 \<le> top_k \<and> top_k \<le> MAX_TOP_K) then Err InvalidTopK
      else validate_loop {} inputs)"

section \<open>Ranking\<close>

definition exps_of :: "Libm \<Rightarrow> f64 list \<Rightarrow> f64 list" where
  "exps_of L utilities =
     (let mx = foldl f64_max NegInf utilities in map (\<lambda>u. lm_exp L (f64_sub u mx)) utilities)"

definition score_all :: "f64 list \<Rightarrow> f64 list \<Rightarrow> Scored list" where
  "score_all utilities exps =
     (let total = f64_sum (sort exps) in
      map (\<lambda>(i, u, e). \<lparr> sc_index = i, sc_utility = u, sc_rank_score = f64_div e total \<rparr>)
        (zip [0..<length utilities] (zip utilities exps)))"

definition sort_scored :: "Input list \<Rightarrow> Scored list \<Rightarrow> Scored list" where
  "sort_scored inputs scored =
     sort_key (\<lambda>s. (desc_key (sc_rank_score s), in_id (inputs ! sc_index s))) scored"

definition rank :: "Libm \<Rightarrow> Input list \<Rightarrow> Weights \<Rightarrow> nat \<Rightarrow> (Ranking, ScoringError) result" where
  "rank L inputs weights top_k =
     and_then (validate_inputs inputs top_k) (\<lambda>_.
       let utilities = map (utility L weights) inputs in
       if \<not> list_all is_finite utilities then Err InvalidAdjustment
       else
         let scored = sort_scored inputs (score_all utilities (exps_of L utilities));
             omitted = drop (min top_k (length scored)) scored
         in Ok \<lparr> rg_returned = take (min top_k (length scored)) scored,
                 rg_omitted_mass = f64_sum (map sc_rank_score omitted),
                 rg_eligible = length inputs \<rparr>)"

section \<open>When a ranking is returned\<close>

definition input_ok :: "Input \<Rightarrow> bool" where
  "input_ok i \<longleftrightarrow> probability_ok (in_rerank i) \<and> probability_ok (in_fit i) \<and> is_finite (in_prior_delta i)
     \<and> probability_ok (in_phase_match i)"

lemma validate_loop_Ok:
  "validate_loop ids xs = Ok u \<longleftrightarrow>
     list_all input_ok xs \<and> distinct (map in_id xs) \<and> (\<forall>i \<in> set xs. in_id i \<notin> ids)"
  by (induction xs arbitrary: ids) (auto simp: input_ok_def rev_image_eqI)

lemma validate_inputs_Ok:
  "validate_inputs inputs k = Ok u \<longleftrightarrow>
     inputs \<noteq> [] \<and> 1 \<le> k \<and> k \<le> MAX_TOP_K \<and> list_all input_ok inputs \<and> distinct (map in_id inputs)"
  by (auto simp: validate_inputs_def validate_loop_Ok)

lemma rank_Ok_iff:
  "rank L inputs w k = Ok r \<longleftrightarrow>
     validate_inputs inputs k = Ok () \<and> list_all is_finite (map (utility L w) inputs)
     \<and> (let scored = sort_scored inputs (score_all (map (utility L w) inputs) (exps_of L (map (utility L w) inputs)))
        in r = \<lparr> rg_returned = take (min k (length scored)) scored,
                 rg_omitted_mass = f64_sum (map sc_rank_score (drop (min k (length scored)) scored)),
                 rg_eligible = length inputs \<rparr>)"
  by (auto simp: rank_def Let_def split: if_splits)

section \<open>The scores\<close>

lemma f64_max_val:
  "f64_val a = Some p \<Longrightarrow> f64_val b = Some q \<Longrightarrow> f64_val (f64_max a b) = Some (max p q)"
  by (cases a; cases b) (auto simp: f64_max_def f64_lt_def)

lemma fold_max_val:
  assumes "list_all is_finite us" "f64_val acc = Some p"
  shows "f64_val (foldl f64_max acc us) = Some (Max (insert p ((the \<circ> f64_val) ` set us)))"
  using assms
proof (induction us arbitrary: acc p)
  case (Cons u us)
  obtain q where q: "f64_val u = Some q" using Cons.prems(1) by (auto simp: is_finite_def)
  have "Max (insert (max p q) A) = Max (insert p (insert q A))" if "finite A" for A :: "rat set"
    using that by (cases "A = {}") (simp_all add: max.assoc)
  then show ?case
    using Cons.IH [OF _ f64_max_val [OF Cons.prems(2) q]] Cons.prems(1) q by simp
qed simp

lemma f64_max_NegInf: "f64_val u = Some q \<Longrightarrow> f64_max NegInf u = u"
  by (cases u) (auto simp: f64_max_def f64_lt_def)

definition max_utility :: "f64 list \<Rightarrow> rat" where
  "max_utility us = Max ((the \<circ> f64_val) ` set us)"

lemma fold_max_utility:
  assumes "list_all is_finite us" "us \<noteq> []"
  shows "f64_val (foldl f64_max NegInf us) = Some (max_utility us)"
proof (cases us)
  case (Cons u vs)
  then obtain q where q: "f64_val u = Some q" using assms(1) by (auto simp: is_finite_def)
  then show ?thesis
    using fold_max_val [OF _ q, of vs] assms(1) Cons
    by (simp add: f64_max_NegInf [OF q] max_utility_def)
qed (use assms in simp)

text \<open>The shift by the maximum leaves nothing above zero, so every summand lies between zero and one.\<close>

lemma sub_max_le_0:
  assumes "f64_val u = Some p" "f64_val m = Some q" "p \<le> q"
  shows "f64_le (f64_sub u m) (Fin 0)"
proof -
  have "round64 (p - q) \<le> 0" using round64_le [of 0 "p - q"] assms(3) by simp
  then have "f64_le (f64_of False (p - q)) (Fin 0)" by (auto simp: f64_of_def Let_def signed_zero_def signed_inf_def)
  moreover have "f64_sub u m = f64_of False (p - q) \<or> f64_sub u m = NegZero"
    using assms by (cases u; cases m) (auto simp: f64_sub_def)
  ultimately show ?thesis by auto
qed

lemma sub_self_zero:
  assumes "f64_val u = Some p" "f64_val m = Some p"
  shows "f64_sub u m = Fin 0 \<or> f64_sub u m = NegZero"
  using assms by (cases u; cases m) (auto simp: f64_sub_def f64_of_def signed_zero_def)

lemma sub_same_max:
  assumes "f64_val u = Some p" "f64_val m = Some q" "f64_val m' = Some q"
  shows "f64_sub u m = f64_sub u m' \<or> f64_sub u m \<in> {Fin 0, NegZero} \<and> f64_sub u m' \<in> {Fin 0, NegZero}"
  using assms by (cases u; cases m; cases m') (auto simp: f64_sub_def f64_of_def signed_zero_def)

lemma exp_same_max:
  assumes "libm_ok L" "f64_val u = Some p" "f64_val m = Some q" "f64_val m' = Some q"
  shows "lm_exp L (f64_sub u m) = lm_exp L (f64_sub u m')"
  using sub_same_max [OF assms(2-4)] assms(1) by (auto simp: libm_ok_def)

lemma length_exps [simp]: "length (exps_of L us) = length us"
  by (simp add: exps_of_def Let_def)

lemma exps_unit:
  assumes "libm_ok L" "list_all is_finite us" "us \<noteq> []"
  shows "\<forall>e \<in> set (exps_of L us). f64_within (Fin 0) (Fin 1) e \<and> f64_wf e" "Fin 1 \<in> set (exps_of L us)"
proof -
  let ?m = "foldl f64_max NegInf us"
  note m = fold_max_utility [OF assms(2,3)]
  show "\<forall>e \<in> set (exps_of L us). f64_within (Fin 0) (Fin 1) e \<and> f64_wf e"
  proof
    fix e assume "e \<in> set (exps_of L us)"
    then obtain u where u: "u \<in> set us" "e = lm_exp L (f64_sub u ?m)" by (auto simp: exps_of_def Let_def)
    then obtain p where p: "f64_val u = Some p" using assms(2) by (auto simp: list_all_iff is_finite_def)
    have "p \<le> max_utility us"
      unfolding max_utility_def using u(1) p by (intro Max_ge) (auto simp: image_iff intro: bexI [of _ u])
    from sub_max_le_0 [OF p m this] show "f64_within (Fin 0) (Fin 1) e \<and> f64_wf e"
      using assms(1) u(2) by (simp add: libm_ok_def)
  qed
  have "max_utility us \<in> (the \<circ> f64_val) ` set us"
    unfolding max_utility_def using assms(3) by (intro Max_in) auto
  then obtain u where u: "u \<in> set us" "max_utility us = the (f64_val u)" by auto
  then have "f64_val u = Some (max_utility us)"
    using assms(2) by (auto simp: list_all_iff is_finite_def)
  from sub_self_zero [OF this m] have "lm_exp L (f64_sub u ?m) = Fin 1"
    using assms(1) by (auto simp: libm_ok_def)
  then show "Fin 1 \<in> set (exps_of L us)"
    using u(1) by (force simp: exps_of_def Let_def)
qed

text \<open>Hence the total is a number of at least one, and every quotient lies between zero and one.\<close>

lemma total_of_exps:
  assumes "\<forall>e \<in> set es. f64_within (Fin 0) (Fin 1) e \<and> f64_wf e" "Fin 1 \<in> set es" "length es \<le> 2 ^ 53"
  shows "\<exists>t. f64_val (f64_sum (sort es)) = Some t \<and> 1 \<le> t \<and> (\<forall>e \<in> set es. \<forall>q. f64_val e = Some q \<longrightarrow> q \<le> t)"
proof -
  have "\<exists>s. f64_val (f64_fold_add NegZero (sort es)) = Some s \<and> rep s \<and> 0 \<le> s \<and> s \<le> of_nat (0 + length (sort es))
      \<and> (\<forall>x \<in> set (sort es). \<forall>q. f64_val x = Some q \<longrightarrow> q \<le> s)"
    by (rule fold_add_unit) (use assms in auto)
  then show ?thesis using assms(2) by (force simp: f64_sum_def)
qed

section \<open>The order of a ranking\<close>

text \<open>One candidate goes before another: by a greater score, and by the smaller identifier among equals.\<close>

definition before :: "Input list \<Rightarrow> Scored \<Rightarrow> Scored \<Rightarrow> bool" where
  "before inputs s t \<longleftrightarrow> sc_rank_score t < sc_rank_score s
     \<or> sc_rank_score s = sc_rank_score t \<and> in_id (inputs ! sc_index s) < in_id (inputs ! sc_index t)"

lemma desc_key_less: "desc_key a < desc_key b \<longleftrightarrow> b < a"
  by (cases a; cases b) (auto simp: desc_key_def less_f64_def)

lemma desc_key_eq: "desc_key a = desc_key b \<longleftrightarrow> a = b"
  by (cases a; cases b) (auto simp: desc_key_def)

lemma before_key:
  "before inputs s t \<longleftrightarrow>
     (desc_key (sc_rank_score s), in_id (inputs ! sc_index s)) < (desc_key (sc_rank_score t), in_id (inputs ! sc_index t))"
  by (auto simp: before_def desc_key_less desc_key_eq le_less)

lemma sorted_before:
  assumes "distinct (map (\<lambda>s. in_id (inputs ! sc_index s)) xs)"
  shows "sorted_wrt (before inputs) (sort_scored inputs xs)"
proof -
  let ?k = "\<lambda>s. (desc_key (sc_rank_score s), in_id (inputs ! sc_index s))"
  have "distinct (map (\<lambda>s. in_id (inputs ! sc_index s)) (sort_scored inputs xs))"
    using assms by (simp add: sort_scored_def distinct_map)
  then have "distinct (map ?k (sort_scored inputs xs))"
    by (auto simp: distinct_map inj_on_def)
  then have "sorted_wrt (<) (map ?k (sort_scored inputs xs))"
    by (simp add: sort_scored_def strict_sorted_iff)
  then show ?thesis unfolding sorted_wrt_map before_key .
qed

lemma length_score_all: "length us = length es \<Longrightarrow> length (score_all us es) = length us"
  by (simp add: score_all_def Let_def)

lemma score_all_nth:
  "length us = length es \<Longrightarrow> i < length us \<Longrightarrow>
     score_all us es ! i = \<lparr> sc_index = i, sc_utility = us ! i, sc_rank_score = f64_div (es ! i) (f64_sum (sort es)) \<rparr>"
  by (simp add: score_all_def Let_def)

lemma score_all_index: "length us = length es \<Longrightarrow> map sc_index (score_all us es) = [0..<length us]"
  by (rule nth_equalityI) (simp_all add: length_score_all score_all_nth)

lemma score_all_ids:
  "length inputs = length us \<Longrightarrow> length us = length es \<Longrightarrow>
     map (\<lambda>s. in_id (inputs ! sc_index s)) (score_all us es) = map in_id inputs"
  by (rule nth_equalityI) (simp_all add: length_score_all score_all_nth)

lemma length_sort_scored [simp]: "length (sort_scored inputs xs) = length xs"
  by (simp add: sort_scored_def)

lemma mset_sort_scored [simp]: "mset (sort_scored inputs xs) = mset xs"
  by (simp add: sort_scored_def)

text \<open>Every score lies between zero and one.\<close>

lemma scores_unit:
  assumes "libm_ok L" "list_all is_finite us" "us \<noteq> []" "length us \<le> 2 ^ 53"
  shows "\<forall>s \<in> set (score_all us (exps_of L us)). f64_within (Fin 0) (Fin 1) (sc_rank_score s)"
proof
  let ?es = "exps_of L us"
  fix s assume "s \<in> set (score_all us ?es)"
  then obtain i where i: "i < length us" "s = score_all us ?es ! i"
    by (auto simp: in_set_conv_nth length_score_all)
  then have s: "sc_rank_score s = f64_div (?es ! i) (f64_sum (sort ?es))" and e: "?es ! i \<in> set ?es"
    by (simp_all add: score_all_nth)
  note unit = exps_unit [OF assms(1-3)]
  obtain q where q: "f64_val (?es ! i) = Some q" "0 \<le> q"
    using unit(1) e by (auto simp: f64_within_val)
  obtain t where "f64_val (f64_sum (sort ?es)) = Some t" "1 \<le> t" "q \<le> t"
    using total_of_exps [OF unit] assms(4) e q(1) by auto
  then show "f64_within (Fin 0) (Fin 1) (sc_rank_score s)"
    unfolding s by (intro div_unit [OF q(1) _ q(2)]) auto
qed

section \<open>The caller's order\<close>

text \<open>A ranked candidate without its position: the input, its utility and its score.\<close>

definition ranked :: "Input list \<Rightarrow> Scored \<Rightarrow> Input \<times> f64 \<times> f64" where
  "ranked inputs s = (inputs ! sc_index s, sc_utility s, sc_rank_score s)"

definition ranked_key :: "Input \<times> f64 \<times> f64 \<Rightarrow> (nat \<times> rat \<times> nat) \<times> SkillId" where
  "ranked_key x = (desc_key (snd (snd x)), in_id (fst x))"

lemma map_ranked_score_all:
  "map (ranked inputs) (score_all (map u inputs) (map (\<lambda>x. e (u x)) inputs)) =
     map (\<lambda>x. (x, u x, f64_div (e (u x)) (f64_sum (sort (map (\<lambda>x. e (u x)) inputs))))) inputs"
  by (rule nth_equalityI) (simp_all add: length_score_all score_all_nth ranked_def)

lemma sorted_ranked:
  assumes "distinct (map in_id inputs)" "length us = length inputs" "length es = length inputs"
  shows "map (ranked inputs) (sort_scored inputs (score_all us es))
    = sort_key ranked_key (map (ranked inputs) (score_all us es))"
proof (rule sort_key_inj_key_eq [symmetric])
  show "mset (map (ranked inputs) (score_all us es)) = mset (map (ranked inputs) (sort_scored inputs (score_all us es)))"
    by simp
  have "sorted (map (\<lambda>s. (desc_key (sc_rank_score s), in_id (inputs ! sc_index s))) (sort_scored inputs (score_all us es)))"
    unfolding sort_scored_def by (rule sorted_sort_key)
  then show "sorted (map ranked_key (map (ranked inputs) (sort_scored inputs (score_all us es))))"
    by (simp add: comp_def ranked_def ranked_key_def)
  have "distinct (map (in_id \<circ> fst) (map (ranked inputs) (score_all us es)))"
    using assms score_all_ids [of inputs us es] by (simp add: comp_def ranked_def)
  then have "inj_on (in_id \<circ> fst) (set (map (ranked inputs) (score_all us es)))"
    unfolding distinct_map by (rule conjunct2)
  then show "inj_on ranked_key (set (map (ranked inputs) (score_all us es)))"
    by (auto simp: inj_on_def ranked_key_def)
qed

lemma rank_Ok_ranked:
  assumes "rank L inputs w k = Ok r" "mx = foldl f64_max NegInf (map (utility L w) inputs)"
    and "e = (\<lambda>u. lm_exp L (f64_sub u mx))"
    and "scored = sort_key ranked_key (map (\<lambda>x. (x, utility L w x,
        f64_div (e (utility L w x)) (f64_sum (sort (map (\<lambda>x. e (utility L w x)) inputs))))) inputs)"
  shows "map (ranked inputs) (rg_returned r) = take (min k (length inputs)) scored"
    and "rg_omitted_mass r = f64_sum (map (snd \<circ> snd) (drop (min k (length inputs)) scored))"
    and "rg_eligible r = length inputs"
proof -
  let ?us = "map (utility L w) inputs"
  let ?sorted = "sort_scored inputs (score_all ?us (exps_of L ?us))"
  have ok: "distinct (map in_id inputs)"
      and r: "rg_returned r = take (min k (length ?sorted)) ?sorted"
        "rg_omitted_mass r = f64_sum (map sc_rank_score (drop (min k (length ?sorted)) ?sorted))"
    using assms(1) by (auto simp: rank_Ok_iff validate_inputs_Ok Let_def)
  have es: "exps_of L ?us = map (\<lambda>x. e (utility L w x)) inputs"
    by (simp add: exps_of_def Let_def assms(2,3) comp_def)
  have scored: "map (ranked inputs) ?sorted = scored"
    unfolding assms(4) map_ranked_score_all [where u = "utility L w" and e = e and inputs = inputs, symmetric]
    using sorted_ranked [OF ok, of ?us "exps_of L ?us"] unfolding es by simp
  have len: "length ?sorted = length inputs" by (simp add: length_score_all)
  show "map (ranked inputs) (rg_returned r) = take (min k (length inputs)) scored"
    unfolding r len take_map [symmetric] scored ..
  have mass: "map sc_rank_score xs = map (snd \<circ> snd) (map (ranked inputs) xs)" for xs
    by (simp add: ranked_def)
  show "rg_omitted_mass r = f64_sum (map (snd \<circ> snd) (drop (min k (length inputs)) scored))"
    unfolding r len mass drop_map [symmetric] scored ..
  show "rg_eligible r = length inputs"
    using assms(1) by (auto simp: rank_Ok_iff Let_def)
qed

lemma max_utility_mset: "mset us = mset us' \<Longrightarrow> max_utility us = max_utility us'"
  unfolding max_utility_def by (drule mset_eq_setD) simp

section \<open>Two candidates\<close>

definition demo_libm :: Libm where
  "demo_libm = \<lparr> lm_ln = (\<lambda>x. if f64_lt x (Fin (1 / 2)) then Fin (-1) else Fin 0),
     lm_exp = (\<lambda>x. if f64_val x = Some 0 then Fin 1 else if f64_le (Fin (-1)) x then Fin (3 / 8) else Fin (1 / 8)) \<rparr>"

definition demo_inputs :: "Input list" where
  "demo_inputs =
     [\<lparr> in_id = [97], in_rerank = Fin (1 / 4), in_fit = Fin (3 / 4), in_prior_delta = Fin 0, in_phase_match = Fin 0 \<rparr>,
      \<lparr> in_id = [98], in_rerank = Fin (3 / 4), in_fit = Fin (3 / 4), in_prior_delta = Fin 0, in_phase_match = Fin 0 \<rparr>]"

lemma demo_libm_ok: "libm_ok demo_libm"
proof -
  have eighths: "rep (of_int n / 8)" if "\<bar>n\<bar> \<le> 2 ^ 53" for n
    unfolding rep_def by (rule exI [of _ n], rule exI [of _ "-3"]) (use that in \<open>simp add: power_int_def power_divide\<close>)
  have "rep (3 / 8)" "rep (1 / 8)" using eighths [of 3] eighths [of 1] by simp_all
  then have wf: "f64_wf (Fin (3 / 8))" "f64_wf (Fin (1 / 8))" "f64_wf (Fin 1)" by simp_all
  show ?thesis unfolding libm_ok_def
  proof (intro conjI allI impI)
    fix x
    have "lm_exp demo_libm x \<in> {Fin 1, Fin (3 / 8), Fin (1 / 8)}" by (simp add: demo_libm_def)
    then show "f64_within (Fin 0) (Fin 1) (lm_exp demo_libm x)" "f64_wf (lm_exp demo_libm x)"
      using wf by (auto simp: f64_within_def)
  qed (simp_all add: demo_libm_def)
qed

lemma finite_demo_utility:
  "in_prior_delta i = Fin 0 \<Longrightarrow> in_phase_match i = Fin 0 \<Longrightarrow> is_finite (utility demo_libm weights_default i)"
proof -
  assume zero: "in_prior_delta i = Fin 0" "in_phase_match i = Fin 0"
  have ln: "\<exists>n. f64_val (lm_ln demo_libm x) = Some (of_int n) \<and> \<bar>n\<bar> \<le> 1" for x
    by (auto simp: demo_libm_def intro: exI [of _ "-1"] exI [of _ 0])
  have round: "round64 (of_int n) = of_int n" if "\<bar>n\<bar> \<le> 8" for n
    using that by (intro round64_rep rep_of_int) simp
  obtain a where a: "f64_val (lm_ln demo_libm (clip (in_rerank i))) = Some (of_int a)" "\<bar>a\<bar> \<le> 1" using ln by blast
  obtain b where b: "f64_val (log_odds demo_libm (in_fit i)) = Some (of_int b)" "\<bar>b\<bar> \<le> 1"
    using ln unfolding log_odds_def Let_def by blast
  have b': "f64_val (f64_mul (Fin 1) (log_odds demo_libm (in_fit i))) = Some (of_int b)"
    using f64_val_mul [of "Fin 1" 1, OF _ b(1)] b(2) round [of b] by simp
  have "f64_val (f64_add (lm_ln demo_libm (clip (in_rerank i))) (f64_mul (Fin 1) (log_odds demo_libm (in_fit i)))) = Some (of_int (a + b))"
    using f64_val_add [OF a(1) b'] a(2) b(2) round [of "a + b"] by simp
  moreover have "f64_mul (Fin 0) (Fin 0) = Fin 0" by (simp add: f64_mul_def is_finite_def f64_of_def signed_zero_def)
  ultimately have "f64_val (utility demo_libm weights_default i) = Some (of_int (a + b))"
    using f64_val_add [of _ "of_int (a + b)" "Fin 0" 0] a(2) b(2) round [of "a + b"]
    by (simp add: utility_def weights_default_def zero)
  then show ?thesis by (simp add: is_finite_def)
qed

lemma demo_inputs_ok: "validate_inputs demo_inputs 1 = Ok ()" "list_all (\<lambda>i. is_finite (utility demo_libm weights_default i)) demo_inputs"
  by (code_simp, simp add: demo_inputs_def finite_demo_utility)

section \<open>Properties\<close>

text \<open>
  C15. A ranking is returned exactly for a nonempty list of valid inputs with distinct identifiers, a
  top-K within its bounds and finite utilities. It holds the first K candidates of one ordering of all
  of them, by descending score and ascending identifier, whatever the caller's order; every score is a
  number between zero and one, and the omitted mass is the sum of the scores left out.
\<close>

theorem ranking_exact:
  assumes "libm_ok L" "length inputs \<le> 2 ^ 53"
  shows "((\<exists>r. rank L inputs w k = Ok r) \<longleftrightarrow>
      inputs \<noteq> [] \<and> 1 \<le> k \<and> k \<le> MAX_TOP_K \<and> list_all input_ok inputs \<and> distinct (map in_id inputs)
      \<and> list_all (\<lambda>i. is_finite (utility L w i)) inputs)
    \<and> (\<forall>r. rank L inputs w k = Ok r \<longrightarrow> rg_eligible r = length inputs
      \<and> (\<exists>omitted. length (rg_returned r) = min k (length inputs)
          \<and> mset (map sc_index (rg_returned r @ omitted)) = mset [0..<length inputs]
          \<and> sorted_wrt (before inputs) (rg_returned r @ omitted)
          \<and> (\<forall>s \<in> set (rg_returned r @ omitted).
               f64_within (Fin 0) (Fin 1) (sc_rank_score s)
             \<and> sc_utility s = utility L w (inputs ! sc_index s))
          \<and> rg_omitted_mass r = f64_sum (map sc_rank_score omitted)))"
    (is "?returned \<and> (\<forall>r. _ \<longrightarrow> ?ranking r)")
proof (rule conjI)
  show ?returned by (auto simp: rank_Ok_iff validate_inputs_Ok list_all_iff Let_def)
  show "\<forall>r. rank L inputs w k = Ok r \<longrightarrow> ?ranking r"
  proof (intro allI impI)
    fix r assume r: "rank L inputs w k = Ok r"
    let ?us = "map (utility L w) inputs" and ?es = "exps_of L (map (utility L w) inputs)"
    let ?all = "score_all ?us ?es" and ?sorted = "sort_scored inputs (score_all ?us ?es)"
    have ok: "inputs \<noteq> []" "distinct (map in_id inputs)" "list_all is_finite ?us"
      and r_eq: "rg_returned r = take (min k (length ?sorted)) ?sorted"
        "rg_omitted_mass r = f64_sum (map sc_rank_score (drop (min k (length ?sorted)) ?sorted))"
        "rg_eligible r = length inputs"
      using r by (auto simp: rank_Ok_iff validate_inputs_Ok Let_def)
    have len: "length ?us = length ?es" by simp
    have members: "\<forall>s \<in> set ?all. sc_utility s = utility L w (inputs ! sc_index s)"
      using score_all_nth [OF len] by (auto simp: in_set_conv_nth length_score_all)
    have unit: "\<forall>s \<in> set ?all. f64_within (Fin 0) (Fin 1) (sc_rank_score s)"
      using ok assms by (intro scores_unit) auto
    have idx: "mset (map sc_index ?sorted) = mset [0..<length inputs]"
      unfolding mset_map mset_sort_scored unfolding mset_map [symmetric] score_all_index [OF len] by simp
    have ord: "sorted_wrt (before inputs) ?sorted"
      using ok(2) score_all_ids [of inputs ?us ?es] by (intro sorted_before) simp
    have all: "rg_returned r @ drop (min k (length ?sorted)) ?sorted = ?sorted"
      by (simp add: r_eq)
    have set: "set ?sorted = set ?all" by (simp add: sort_scored_def)
    show "rg_eligible r = length inputs \<and> (\<exists>omitted. length (rg_returned r) = min k (length inputs)
          \<and> mset (map sc_index (rg_returned r @ omitted)) = mset [0..<length inputs]
          \<and> sorted_wrt (before inputs) (rg_returned r @ omitted)
          \<and> (\<forall>s \<in> set (rg_returned r @ omitted).
               f64_within (Fin 0) (Fin 1) (sc_rank_score s)
             \<and> sc_utility s = utility L w (inputs ! sc_index s))
          \<and> rg_omitted_mass r = f64_sum (map sc_rank_score omitted))"
      by (intro conjI exI [of _ "drop (min k (length ?sorted)) ?sorted"]; (unfold all set)?)
        (use members unit idx ord in \<open>simp_all add: r_eq length_score_all\<close>)
  qed
qed

theorem ranking_exact_witness:
  "\<exists>r. rank demo_libm demo_inputs weights_default 1 = Ok r \<and> rg_eligible r = 2 \<and> length (rg_returned r) = 1"
proof -
  have "length demo_inputs \<le> 2 ^ 53" "length demo_inputs = 2" by (simp_all add: demo_inputs_def)
  with ranking_exact [OF demo_libm_ok, of demo_inputs weights_default 1] show ?thesis
    using demo_inputs_ok by (auto simp: validate_inputs_Ok)
qed

text \<open>
  C13. The caller's order of the candidates does not matter: for every permutation of the inputs the same
  candidates are returned in the same order with the same utilities and scores, bit for bit, with the
  same omitted mass.
\<close>

theorem ranking_ignores_input_order:
  assumes libm: "libm_ok L" and perm: "mset inputs' = mset inputs" and r: "rank L inputs w k = Ok r"
  shows "\<exists>r'. rank L inputs' w k = Ok r'
    \<and> map (ranked inputs') (rg_returned r') = map (ranked inputs) (rg_returned r)
    \<and> rg_omitted_mass r' = rg_omitted_mass r \<and> rg_eligible r' = rg_eligible r"
proof -
  have len: "length inputs' = length inputs" using perm by (rule mset_eq_length)
  have sets: "set inputs' = set inputs" using perm by (rule mset_eq_setD)
  have ids: "distinct (map in_id inputs') \<longleftrightarrow> distinct (map in_id inputs)"
    using perm by (metis mset_eq_imp_distinct_iff mset_map)
  have valid: "validate_inputs inputs k = Ok ()" and fin: "list_all is_finite (map (utility L w) inputs)"
    using r by (auto simp: rank_Ok_iff)
  have "validate_inputs inputs' k = Ok ()" "list_all is_finite (map (utility L w) inputs')"
    using valid fin sets ids len by (auto simp: validate_inputs_Ok list_all_iff)
  then obtain r' where r': "rank L inputs' w k = Ok r'"
    by (simp add: rank_Ok_iff Let_def)
  define e where "e = (\<lambda>u. lm_exp L (f64_sub u (foldl f64_max NegInf (map (utility L w) inputs))))"
  define e' where "e' = (\<lambda>u. lm_exp L (f64_sub u (foldl f64_max NegInf (map (utility L w) inputs'))))"
  have ne: "inputs \<noteq> []" "inputs' \<noteq> []" using valid len by (auto simp: validate_inputs_Ok)
  have "max_utility (map (utility L w) inputs') = max_utility (map (utility L w) inputs)"
    by (rule max_utility_mset) (simp add: perm)
  then have mx: "f64_val (foldl f64_max NegInf (map (utility L w) inputs')) = Some (max_utility (map (utility L w) inputs))"
    using fold_max_utility [of "map (utility L w) inputs'"] \<open>list_all is_finite (map (utility L w) inputs')\<close> ne by simp
  have e: "e' (utility L w x) = e (utility L w x)" if "x \<in> set inputs" for x
  proof -
    have "f64_val (utility L w x) \<noteq> None"
      using fin that by (simp add: list_all_iff is_finite_def)
    then obtain p where "f64_val (utility L w x) = Some p" by blast
    from exp_same_max [OF libm this mx fold_max_utility [OF fin]] ne show ?thesis
      by (simp add: e_def e'_def)
  qed
  have sums: "sort (map (\<lambda>x. e (utility L w x)) inputs') = sort (map (\<lambda>x. e (utility L w x)) inputs)"
    by (rule properties_for_sort) (simp_all add: perm)
  have inputs': "map (\<lambda>x. e' (utility L w x)) inputs' = map (\<lambda>x. e (utility L w x)) inputs'"
    using e sets by simp
  define f where "f = (\<lambda>x. (x, utility L w x, f64_div (e (utility L w x)) (f64_sum (sort (map (\<lambda>x. e (utility L w x)) inputs)))))"
  have f': "map (\<lambda>x. (x, utility L w x, f64_div (e' (utility L w x)) (f64_sum (sort (map (\<lambda>x. e' (utility L w x)) inputs'))))) inputs' = map f inputs'"
    unfolding inputs' sums using e sets by (simp add: f_def)
  have inj: "inj_on ranked_key (set (map f inputs))"
    using valid by (auto simp: validate_inputs_Ok distinct_map inj_on_def ranked_key_def f_def)
  have "sort_key ranked_key (map f inputs') = sort_key ranked_key (map f inputs)"
    by (rule sort_key_inj_key_eq) (use inj sets perm in simp_all)
  then show ?thesis
    using rank_Ok_ranked [OF r refl e_def refl, folded f_def]
      rank_Ok_ranked [OF r' refl e'_def refl, unfolded f'] len r' by auto
qed

theorem ranking_ignores_input_order_witness:
  "\<exists>r r'. rank demo_libm demo_inputs weights_default 1 = Ok r
     \<and> rank demo_libm (rev demo_inputs) weights_default 1 = Ok r'
     \<and> map (ranked (rev demo_inputs)) (rg_returned r') = map (ranked demo_inputs) (rg_returned r)"
proof -
  obtain r where "rank demo_libm demo_inputs weights_default 1 = Ok r"
    using demo_inputs_ok by (simp add: rank_Ok_iff Let_def list_all_iff)
  with ranking_ignores_input_order [OF demo_libm_ok mset_rev this] show ?thesis by blast
qed

end
