(* ===== verification/Disclosure.thy ===== *)
theory Disclosure
  imports Codec
begin

text \<open>
  Model of \<open>src/src/privacy/mod.rs\<close>, \<open>src/src/privacy/profile.rs\<close> and \<open>src/src/privacy/receipt.rs\<close>, with the
  payload record of \<open>src/src/context/render/payload.rs\<close> that receipts describe: effect flags, network
  consent, disclosure profiles, configured roots and the verification of a receipt against a payload.
\<close>

section \<open>Effect flags and stores\<close>

record EffectFlags =
  ef_offline :: bool
  ef_allow_network :: bool
  ef_dry_run :: bool
  ef_no_cache :: bool
  ef_no_ledger :: bool
  ef_no_persist :: bool
  ef_save_case :: bool

datatype FlagConflict =
  OfflineWithAllowNetwork | DryRunWithAllowNetwork | SaveCaseWithDryRun | SaveCaseWithNoPersist

fun conflict_flags :: "FlagConflict \<Rightarrow> string \<times> string" where
  "conflict_flags OfflineWithAllowNetwork = (''--offline'', ''--allow-network'')"
| "conflict_flags DryRunWithAllowNetwork = (''--dry-run'', ''--allow-network'')"
| "conflict_flags SaveCaseWithDryRun = (''--save-case'', ''--dry-run'')"
| "conflict_flags SaveCaseWithNoPersist = (''--save-case'', ''--no-persist'')"

datatype Restriction = R_DryRun | R_NoPersist | R_NoCache | R_NoLedger

datatype StoreAccess = Enabled | Disabled Restriction

datatype NetworkBlock = Block_Offline | Block_DryRun

type_synonym EffectPolicy = EffectFlags

definition policy_from_flags :: "EffectFlags \<Rightarrow> (EffectPolicy, FlagConflict list) result" where
  "policy_from_flags f =
     (let conflicts =
        (if ef_offline f \<and> ef_allow_network f then [OfflineWithAllowNetwork] else [])
        @ (if ef_dry_run f \<and> ef_allow_network f then [DryRunWithAllowNetwork] else [])
        @ (if ef_save_case f \<and> ef_dry_run f then [SaveCaseWithDryRun] else [])
        @ (if ef_save_case f \<and> ef_no_persist f then [SaveCaseWithNoPersist] else [])
      in if conflicts = [] then Ok f else Err conflicts)"

definition first_restriction :: "EffectPolicy \<Rightarrow> bool \<Rightarrow> Restriction \<Rightarrow> StoreAccess" where
  "first_restriction p own_flag own =
     (if ef_dry_run p then Disabled R_DryRun
      else if ef_no_persist p then Disabled R_NoPersist
      else if own_flag then Disabled own
      else Enabled)"

definition response_cache_access :: "EffectPolicy \<Rightarrow> StoreAccess" where
  "response_cache_access p = first_restriction p (ef_no_cache p) R_NoCache"

definition ledger_access :: "EffectPolicy \<Rightarrow> StoreAccess" where
  "ledger_access p = first_restriction p (ef_no_ledger p) R_NoLedger"

definition persistent_runtime_state :: "EffectPolicy \<Rightarrow> StoreAccess" where
  "persistent_runtime_state p =
     (if ef_dry_run p then Disabled R_DryRun else if ef_no_persist p then Disabled R_NoPersist else Enabled)"

definition network_block :: "EffectPolicy \<Rightarrow> NetworkBlock option" where
  "network_block p =
     (if ef_offline p then Some Block_Offline else if ef_dry_run p then Some Block_DryRun else None)"

section \<open>Consent and credentials\<close>

datatype ConsentSource = AllowNetworkFlag | TrustedUserConfig

datatype NetworkConsent = Authorized ConsentSource | NotAuthorized | Blocked NetworkBlock

definition derive_consent :: "EffectPolicy \<Rightarrow> bool \<Rightarrow> NetworkConsent" where
  "derive_consent effects trusted_user_enabled =
     (case network_block effects of
        Some block \<Rightarrow> Blocked block
      | None \<Rightarrow>
          if ef_allow_network effects then Authorized AllowNetworkFlag
          else if trusted_user_enabled then Authorized TrustedUserConfig
          else NotAuthorized)"

definition MAX_CREDENTIAL_BYTES :: usize where "MAX_CREDENTIAL_BYTES = 4096"

datatype CredentialError = CredentialTooLong | CredentialInvalidCharacter

definition credential_from_environment :: "str \<Rightarrow> (str option, CredentialError) result" where
  "credential_from_environment v =
     (if v = [] then Ok None
      else if str_len v > MAX_CREDENTIAL_BYTES then Err CredentialTooLong
      else if list_ex forbidden_identity_character v then Err CredentialInvalidCharacter
      else Ok (Some v))"

datatype CredentialStatus = CredentialAbsent | PresentFromEnvironment

fun admit_provider_attempt :: "NetworkConsent \<Rightarrow> CredentialStatus \<Rightarrow> (ConsentSource, ProviderAdmissionRefusal) result" where
  "admit_provider_attempt (Blocked Block_Offline) _ = Err Offline"
| "admit_provider_attempt (Blocked Block_DryRun) _ = Err DryRun"
| "admit_provider_attempt NotAuthorized _ = Err NetworkNotAuthorized"
| "admit_provider_attempt (Authorized source) PresentFromEnvironment = Ok source"
| "admit_provider_attempt (Authorized source) CredentialAbsent = Err MissingCredential"

section \<open>Configured roots\<close>

definition MAX_ROOT_BYTES :: usize where "MAX_ROOT_BYTES = 4096"

datatype RootError =
  RootEmpty | RootTooLong | RootInvalidCharacter | AbsoluteNotAllowed | RelativeNotAllowed | EscapesWorkspace | ParentComponent

definition check_root_text :: "str \<Rightarrow> (unit, RootError) result" where
  "check_root_text v =
     (if v = [] then Err RootEmpty
      else if str_len v > MAX_ROOT_BYTES then Err RootTooLong
      else if list_ex (\<lambda>c. c \<noteq> 32 \<and> forbidden_identity_character c) v then Err RootInvalidCharacter
      else Ok ())"

text \<open>
  \<open>Path::components\<close> on Unix: the root of an absolute path, then the pieces between separators without
  the empty ones and without \<open>.\<close>, except that a leading \<open>.\<close> of a relative path stays.
\<close>

datatype Component = RootDir | CurDir | ParentDir | Normal str

definition component_of :: "str \<Rightarrow> Component" where
  "component_of piece = (if piece = [46] then CurDir else if piece = [46, 46] then ParentDir else Normal piece)"

definition path_components :: "str \<Rightarrow> Component list" where
  "path_components v =
     (let pieces = map component_of (filter (\<lambda>p. p \<noteq> []) (split_char 47 v)) in
      if v \<noteq> [] \<and> hd v = 47 then RootDir # filter (\<lambda>c. c \<noteq> CurDir) pieces
      else case pieces of
          CurDir # rest \<Rightarrow> CurDir # filter (\<lambda>c. c \<noteq> CurDir) rest
        | _ \<Rightarrow> filter (\<lambda>c. c \<noteq> CurDir) pieces)"

text \<open>The normalized path so far, innermost component last, and its depth.\<close>

fun normalize_loop :: "Component list \<Rightarrow> str list \<Rightarrow> usize \<Rightarrow> (str list, RootError) result" where
  "normalize_loop [] normalized depth = Ok normalized"
| "normalize_loop (RootDir # cs) normalized depth = Err AbsoluteNotAllowed"
| "normalize_loop (CurDir # cs) normalized depth = normalize_loop cs normalized depth"
| "normalize_loop (ParentDir # cs) normalized depth =
     (if depth = 0 then Err EscapesWorkspace else normalize_loop cs (butlast normalized) (depth - 1))"
| "normalize_loop (Normal p # cs) normalized depth = normalize_loop cs (normalized @ [p]) (depth + 1)"

definition workspace_root_parse :: "str \<Rightarrow> (str list, RootError) result" where
  "workspace_root_parse v =
     and_then (check_root_text v) (\<lambda>_. normalize_loop (path_components v) [] 0)"

definition absolute_root_parse :: "str \<Rightarrow> (Component list, RootError) result" where
  "absolute_root_parse v =
     and_then (check_root_text v) (\<lambda>_.
       if hd v \<noteq> 47 then Err RelativeNotAllowed
       else if ParentDir \<in> set (path_components v) then Err ParentComponent
       else Ok (path_components v))"

section \<open>Disclosure profiles\<close>

datatype ContextProfile = Minimal | Standard

text \<open>The derived order compares the positions of the variants in the declaration, and these grow with
  what a profile discloses.\<close>

fun profile_position :: "ContextProfile \<Rightarrow> nat" where
  "profile_position Minimal = 0"
| "profile_position Standard = 1"

lemma profile_position_inj: "profile_position a = profile_position b \<longleftrightarrow> a = b"
  by (cases a; cases b) simp_all

instantiation ContextProfile :: linorder
begin

definition less_eq_ContextProfile :: "ContextProfile \<Rightarrow> ContextProfile \<Rightarrow> bool" where
  "less_eq_ContextProfile a b \<longleftrightarrow> profile_position a \<le> profile_position b"

definition less_ContextProfile :: "ContextProfile \<Rightarrow> ContextProfile \<Rightarrow> bool" where
  "less_ContextProfile a b \<longleftrightarrow> profile_position a < profile_position b"

instance
  by standard (auto simp: less_eq_ContextProfile_def less_ContextProfile_def profile_position_inj)

end

fun profile_as_str :: "ContextProfile \<Rightarrow> string" where
  "profile_as_str Minimal = ''minimal''"
| "profile_as_str Standard = ''standard''"

definition profile_parse :: "str \<Rightarrow> ContextProfile option" where
  "profile_parse v =
     (if v = scalars ''minimal'' then Some Minimal else if v = scalars ''standard'' then Some Standard else None)"

record ProfileDisclosedFields =
  pd_current_request :: bool
  pd_task_anchor :: bool
  pd_explicit_constraints :: bool
  pd_candidate_material :: bool
  pd_recent_messages :: bool
  pd_tool_bodies :: bool
  pd_dirty_paths :: bool

fun disclosed_fields :: "ContextProfile \<Rightarrow> bool \<Rightarrow> ProfileDisclosedFields" where
  "disclosed_fields Standard no_tools =
     \<lparr> pd_current_request = True, pd_task_anchor = True, pd_explicit_constraints = True, pd_candidate_material = True,
       pd_recent_messages = True, pd_tool_bodies = (\<not> no_tools), pd_dirty_paths = True \<rparr>"
| "disclosed_fields Minimal no_tools =
     \<lparr> pd_current_request = True, pd_task_anchor = True, pd_explicit_constraints = True, pd_candidate_material = True,
       pd_recent_messages = False, pd_tool_bodies = False, pd_dirty_paths = False \<rparr>"

datatype ProfileTrustError = ProjectCannotWidenProfile ContextProfile ContextProfile | InvalidProfile str

definition validate_project_profile :: "ContextProfile \<Rightarrow> ContextProfile \<Rightarrow> (ContextProfile, ProfileTrustError) result" where
  "validate_project_profile user project =
     (if project > user then Err (ProjectCannotWidenProfile user project) else Ok project)"

definition resolve_context_profile ::
  "ContextProfile option \<Rightarrow> ContextProfile option \<Rightarrow> ContextProfile option \<Rightarrow> (ContextProfile, ProfileTrustError) result" where
  "resolve_context_profile user project cli =
     (case cli of
        Some c \<Rightarrow> Ok c
      | None \<Rightarrow>
          (let user_profile = (case user of Some u \<Rightarrow> u | None \<Rightarrow> Standard) in
           case project of Some p \<Rightarrow> validate_project_profile user_profile p | None \<Rightarrow> Ok user_profile))"

definition ESSENTIAL_TOOL_PHRASES :: "str list" where
  "ESSENTIAL_TOOL_PHRASES = map scalars
     [''tool output'', ''tool result'', ''tool error'', ''command output'', ''command error'', ''command failed'',
      ''why did it fail'', ''why did the command fail'', ''why did the test fail'', ''fix the test failure'',
      ''fix the error above'', ''fix the failure'', ''see the error above'', ''output from the tool'',
      ''result of the tool'', ''the error above'', ''the output above'']"

text \<open>\<open>to_lowercase\<close> needs the case tables of Unicode, which are an argument.\<close>

definition is_essential_tool_reference :: "(str \<Rightarrow> str) \<Rightarrow> str \<Rightarrow> bool" where
  "is_essential_tool_reference lowercase v = list_ex (contains_str (lowercase v)) ESSENTIAL_TOOL_PHRASES"

section \<open>The rendered payload\<close>

datatype ContextQuality = Complete | PromptOnly | Partial | Insufficient

fun quality_as_str :: "ContextQuality \<Rightarrow> string" where
  "quality_as_str Complete = ''complete''"
| "quality_as_str PromptOnly = ''prompt_only''"
| "quality_as_str Partial = ''partial''"
| "quality_as_str Insufficient = ''insufficient''"

record RenderedLoadedReference =
  rl_name :: str
  rl_summary :: str

record RenderedProjectSignals =
  rp_languages :: "str list"
  rp_tools_on_path :: "str list"
  rp_dirty_paths :: "str list"
  rp_dirty_paths_truncated :: bool

record RenderedSessionState =
  rt_loaded_references :: "RenderedLoadedReference list"
  rt_loaded_state :: str
  rt_explicit_exclusions :: "str list"

record RenderedMessage =
  rm_role :: str
  rm_tool :: "str option"
  rm_status :: "str option"
  rm_summary :: "str option"
  rm_text :: "str option"

record RenderedContextPayload =
  rc_schema_version :: nat
  rc_context_profile :: ContextProfile
  rc_harness :: str
  rc_context_quality :: ContextQuality
  rc_project_signals :: RenderedProjectSignals
  rc_session_state :: RenderedSessionState
  rc_recent_messages :: "RenderedMessage list"
  rc_latest_user_request :: str

definition texts_value :: "str list \<Rightarrow> Value" where
  "texts_value xs = Array (map String xs)"

definition message_value :: "RenderedMessage \<Rightarrow> Value" where
  "message_value m = Object ([field ''role'' (String (rm_role m))] @ opt_field ''tool'' (rm_tool m)
     @ opt_field ''status'' (rm_status m) @ opt_field ''summary'' (rm_summary m) @ opt_field ''text'' (rm_text m))"

definition reference_value :: "RenderedLoadedReference \<Rightarrow> Value" where
  "reference_value r = Object [field ''name'' (String (rl_name r)), field ''summary'' (String (rl_summary r))]"

definition signals_value :: "RenderedProjectSignals \<Rightarrow> Value" where
  "signals_value p = Object [field ''languages'' (texts_value (rp_languages p)), field ''tools_on_path'' (texts_value (rp_tools_on_path p)),
     field ''dirty_paths'' (texts_value (rp_dirty_paths p)), field ''dirty_paths_truncated'' (Bool (rp_dirty_paths_truncated p))]"

definition session_value :: "RenderedSessionState \<Rightarrow> Value" where
  "session_value t = Object [field ''loaded_references'' (Array (map reference_value (rt_loaded_references t))),
     field ''loaded_state'' (String (rt_loaded_state t)), field ''explicit_exclusions'' (texts_value (rt_explicit_exclusions t))]"

text \<open>The payload as the derived serializer writes it; \<open>to_value\<close> collects the same entries into ordered maps.\<close>

definition payload_value :: "RenderedContextPayload \<Rightarrow> Value" where
  "payload_value p = Object
     [field ''schema_version'' (Number (scalars (dec (rc_schema_version p)))),
      field ''context_profile'' (text_value (profile_as_str (rc_context_profile p))),
      field ''harness'' (String (rc_harness p)),
      field ''context_quality'' (text_value (quality_as_str (rc_context_quality p))),
      field ''project_signals'' (signals_value (rc_project_signals p)),
      field ''session_state'' (session_value (rc_session_state p)),
      field ''recent_messages'' (Array (map message_value (rc_recent_messages p))),
      field ''latest_user_request'' (String (rc_latest_user_request p))]"

definition payload_to_value :: "RenderedContextPayload \<Rightarrow> Value" where
  "payload_to_value p = canon (payload_value p)"

definition disclosed_bytes :: "Serde \<Rightarrow> RenderedContextPayload \<Rightarrow> usize" where
  "disclosed_bytes S p = length (sd_render S (payload_value p))"

definition opt_len :: "str option \<Rightarrow> nat" where
  "opt_len v = (case v of None \<Rightarrow> 0 | Some t \<Rightarrow> length t)"

definition message_scalars :: "RenderedMessage \<Rightarrow> nat" where
  "message_scalars m = opt_len (rm_text m) + opt_len (rm_summary m) + opt_len (rm_tool m) + opt_len (rm_status m)"

definition total_message_scalars :: "RenderedContextPayload \<Rightarrow> nat" where
  "total_message_scalars p = length (rc_latest_user_request p) + sum_list (map message_scalars (rc_recent_messages p))"

definition is_unsupported_context :: "RenderedContextPayload \<Rightarrow> bool" where
  "is_unsupported_context p \<longleftrightarrow> rc_context_quality p = Insufficient"

section \<open>Receipts\<close>

datatype SourceCategory = UserRequest | MessageHistory | ToolEvents | ProjectSignalsCategory | SessionStateCategory

record CategoryReceipt =
  cg_category :: SourceCategory
  cg_included :: usize
  cg_omitted :: usize
  cg_truncated :: usize
  cg_redactions :: usize

record DisclosureReceipt =
  dr_schema_version :: nat
  dr_context_profile :: ContextProfile
  dr_context_quality :: ContextQuality
  dr_no_tools :: bool
  dr_categories :: "CategoryReceipt list"
  dr_total_included :: usize
  dr_total_omitted :: usize
  dr_total_truncated :: usize
  dr_total_redactions :: usize
  dr_disclosed_bytes :: usize
  dr_disclosed_scalars :: usize

datatype ReceiptVerificationError =
    InvalidCategoryInventory
  | CountOverflow
  | ProfileMismatch ContextProfile ContextProfile
  | QualityMismatch ContextQuality ContextQuality
  | ByteCountMismatch usize usize
  | ScalarCountMismatch usize usize
  | ItemCountMismatch SourceCategory usize usize
  | TotalsInconsistent usize usize

definition receipt_category :: "DisclosureReceipt \<Rightarrow> SourceCategory \<Rightarrow> CategoryReceipt option" where
  "receipt_category r c = List.find (\<lambda>e. cg_category e = c) (dr_categories r)"

definition expected_categories :: "SourceCategory list" where
  "expected_categories = [UserRequest, MessageHistory, ToolEvents, ProjectSignalsCategory, SessionStateCategory]"

fun checked_fold :: "(CategoryReceipt \<Rightarrow> usize) \<Rightarrow> CategoryReceipt list \<Rightarrow> usize \<Rightarrow> (usize, ReceiptVerificationError) result" where
  "checked_fold f [] acc = Ok acc"
| "checked_fold f (c # cs) acc =
     (case checked_add64 acc (f c) of None \<Rightarrow> Err CountOverflow | Some n \<Rightarrow> checked_fold f cs n)"

definition checked_total :: "DisclosureReceipt \<Rightarrow> (CategoryReceipt \<Rightarrow> usize) \<Rightarrow> (usize, ReceiptVerificationError) result" where
  "checked_total r f = checked_fold f (dr_categories r) 0"

definition tool_role :: str where "tool_role = scalars ''tool''"

definition payload_items :: "RenderedContextPayload \<Rightarrow> SourceCategory \<Rightarrow> usize" where
  "payload_items p c = (case c of
       UserRequest \<Rightarrow> if rc_latest_user_request p = [] then 0 else 1
     | MessageHistory \<Rightarrow> length (filter (\<lambda>m. rm_role m \<noteq> tool_role) (rc_recent_messages p))
     | ToolEvents \<Rightarrow> length (filter (\<lambda>m. rm_role m = tool_role) (rc_recent_messages p))
     | ProjectSignalsCategory \<Rightarrow> length (rp_languages (rc_project_signals p)) + length (rp_tools_on_path (rc_project_signals p))
         + length (rp_dirty_paths (rc_project_signals p))
     | SessionStateCategory \<Rightarrow> length (rt_loaded_references (rc_session_state p)) + length (rt_explicit_exclusions (rc_session_state p)))"

definition check_total :: "DisclosureReceipt \<Rightarrow> (CategoryReceipt \<Rightarrow> usize) \<Rightarrow> usize \<Rightarrow> (unit, ReceiptVerificationError) result" where
  "check_total r f expected =
     and_then (checked_total r f) (\<lambda>s. if s \<noteq> expected then Err (TotalsInconsistent expected s) else Ok ())"

fun check_items :: "DisclosureReceipt \<Rightarrow> RenderedContextPayload \<Rightarrow> SourceCategory list \<Rightarrow> (unit, ReceiptVerificationError) result" where
  "check_items r p [] = Ok ()"
| "check_items r p (c # cs) =
     (case receipt_category r c of
        Some e \<Rightarrow>
          if cg_included e \<noteq> payload_items p c then Err (ItemCountMismatch c (cg_included e) (payload_items p c))
          else check_items r p cs
      | None \<Rightarrow> check_items r p cs)"

definition verify_against_payload :: "Serde \<Rightarrow> DisclosureReceipt \<Rightarrow> RenderedContextPayload \<Rightarrow> (unit, ReceiptVerificationError) result" where
  "verify_against_payload S r p =
     (if length (dr_categories r) \<noteq> length expected_categories
         \<or> list_ex (\<lambda>x. length (filter (\<lambda>e. cg_category e = x) (dr_categories r)) \<noteq> 1) expected_categories
      then Err InvalidCategoryInventory
      else if dr_context_profile r \<noteq> rc_context_profile p
        then Err (ProfileMismatch (dr_context_profile r) (rc_context_profile p))
      else if dr_context_quality r \<noteq> rc_context_quality p
        then Err (QualityMismatch (dr_context_quality r) (rc_context_quality p))
      else if dr_disclosed_bytes r \<noteq> disclosed_bytes S p
        then Err (ByteCountMismatch (dr_disclosed_bytes r) (disclosed_bytes S p))
      else if dr_disclosed_scalars r \<noteq> total_message_scalars p
        then Err (ScalarCountMismatch (dr_disclosed_scalars r) (total_message_scalars p))
      else and_then (check_total r cg_included (dr_total_included r)) (\<lambda>_.
        and_then (check_total r cg_omitted (dr_total_omitted r)) (\<lambda>_.
        and_then (check_total r cg_truncated (dr_total_truncated r)) (\<lambda>_.
        and_then (check_total r cg_redactions (dr_total_redactions r)) (\<lambda>_.
        check_items r p expected_categories)))))"

section \<open>What the flags permit\<close>

lemma policy_from_flags_Ok:
  "policy_from_flags f = Ok p \<longleftrightarrow> p = f \<and> \<not> (ef_offline f \<and> ef_allow_network f) \<and> \<not> (ef_dry_run f \<and> ef_allow_network f)
     \<and> \<not> (ef_save_case f \<and> ef_dry_run f) \<and> \<not> (ef_save_case f \<and> ef_no_persist f)"
  by (auto simp: policy_from_flags_def Let_def)

text \<open>
  C10. Nothing is sent and nothing is stored without permission. For flags without conflicts, an attempt
  is admitted exactly when neither \<open>--offline\<close> nor \<open>--dry-run\<close> is set, the command line or the trusted
  user configuration consents and a credential is present, and a store is touched exactly when no flag
  disables it; a dry run touches none.
\<close>

theorem effects_need_permission:
  assumes "policy_from_flags f = Ok p"
  shows "(admit_provider_attempt (derive_consent p trusted) cred = Ok source \<longleftrightarrow>
      \<not> ef_offline f \<and> \<not> ef_dry_run f \<and> cred = PresentFromEnvironment
      \<and> (if ef_allow_network f then source = AllowNetworkFlag else trusted \<and> source = TrustedUserConfig))
    \<and> (admit_provider_attempt (derive_consent p trusted) cred = Err MissingCredential \<longrightarrow>
        (\<exists>s. derive_consent p trusted = Authorized s))
    \<and> (response_cache_access p = Enabled \<longleftrightarrow> \<not> ef_dry_run f \<and> \<not> ef_no_persist f \<and> \<not> ef_no_cache f)
    \<and> (ledger_access p = Enabled \<longleftrightarrow> \<not> ef_dry_run f \<and> \<not> ef_no_persist f \<and> \<not> ef_no_ledger f)
    \<and> (persistent_runtime_state p = Enabled \<longleftrightarrow> \<not> ef_dry_run f \<and> \<not> ef_no_persist f)
    \<and> (ef_save_case f \<longrightarrow> persistent_runtime_state p = Enabled)"
proof -
  have p: "p = f" using assms by (simp add: policy_from_flags_Ok)
  have "admit_provider_attempt (derive_consent p trusted) cred = Ok source \<longleftrightarrow>
      \<not> ef_offline f \<and> \<not> ef_dry_run f \<and> cred = PresentFromEnvironment
      \<and> (if ef_allow_network f then source = AllowNetworkFlag else trusted \<and> source = TrustedUserConfig)"
    by (cases cred) (auto simp: p derive_consent_def network_block_def)
  moreover have "admit_provider_attempt (derive_consent p trusted) cred = Err MissingCredential \<Longrightarrow>
      \<exists>s. derive_consent p trusted = Authorized s"
    by (auto simp: derive_consent_def network_block_def split: if_splits)
  ultimately show ?thesis
    using assms by (auto simp: policy_from_flags_Ok response_cache_access_def ledger_access_def persistent_runtime_state_def first_restriction_def)
qed

theorem effects_need_permission_witness:
  "admit_provider_attempt (derive_consent \<lparr> ef_offline = False, ef_allow_network = False, ef_dry_run = False, ef_no_cache = True,
      ef_no_ledger = False, ef_no_persist = False, ef_save_case = False \<rparr> True) PresentFromEnvironment = Ok TrustedUserConfig"
proof -
  define f where "f = \<lparr> ef_offline = False, ef_allow_network = False, ef_dry_run = False, ef_no_cache = True,
      ef_no_ledger = False, ef_no_persist = False, ef_save_case = False \<rparr>"
  have "policy_from_flags f = Ok f" by (simp add: f_def policy_from_flags_def)
  from effects_need_permission [OF this, of True PresentFromEnvironment TrustedUserConfig]
  show ?thesis by (simp add: f_def)
qed

section \<open>Roots stay inside the workspace\<close>

definition is_normal :: "Component \<Rightarrow> bool" where
  "is_normal c \<longleftrightarrow> (case c of Normal p \<Rightarrow> True | _ \<Rightarrow> False)"

definition ups :: "Component list \<Rightarrow> nat" where
  "ups cs = length (filter (\<lambda>c. c = ParentDir) cs)"

definition downs :: "Component list \<Rightarrow> nat" where
  "downs cs = length (filter is_normal cs)"

definition never_above :: "nat \<Rightarrow> Component list \<Rightarrow> bool" where
  "never_above d cs \<longleftrightarrow> (\<forall>n. ups (take n cs) \<le> d + downs (take n cs))"

lemma never_above_Nil [simp]: "never_above d []"
  by (simp add: never_above_def ups_def)

lemma all_prefixes_Cons: "(\<forall>n. P (take n (c # cs))) \<longleftrightarrow> P [] \<and> (\<forall>n. P (c # take n cs))"
proof
  assume all: "\<forall>n. P (take n (c # cs))"
  have "P (take 0 (c # cs))" using all by blast
  moreover have "P (take (Suc n) (c # cs))" for n using all by blast
  ultimately show "P [] \<and> (\<forall>n. P (c # take n cs))" by simp
next
  assume all: "P [] \<and> (\<forall>n. P (c # take n cs))"
  show "\<forall>n. P (take n (c # cs))"
  proof
    fix n show "P (take n (c # cs))" using all by (cases n) auto
  qed
qed

lemma steps_Cons [simp]:
  "ups (ParentDir # cs) = Suc (ups cs)" "ups (RootDir # cs) = ups cs" "ups (CurDir # cs) = ups cs" "ups (Normal p # cs) = ups cs"
  "downs (ParentDir # cs) = downs cs" "downs (RootDir # cs) = downs cs" "downs (CurDir # cs) = downs cs"
  "downs (Normal p # cs) = Suc (downs cs)" "ups [] = 0" "downs [] = 0"
  by (simp_all add: ups_def downs_def is_normal_def)

lemma never_above_step:
  "never_above d (c # cs) \<longleftrightarrow> (\<forall>n. ups (c # take n cs) \<le> d + downs (c # take n cs))"
  unfolding never_above_def by (subst all_prefixes_Cons [where P = "\<lambda>xs. ups xs \<le> d + downs xs"]) simp

lemma never_above_Cons [simp]:
  "never_above d (RootDir # cs) = never_above d cs"
  "never_above d (CurDir # cs) = never_above d cs"
  "never_above d (Normal p # cs) = never_above (d + 1) cs"
  "never_above d (ParentDir # cs) \<longleftrightarrow> 0 < d \<and> never_above (d - 1) cs"
proof -
  show "never_above d (ParentDir # cs) \<longleftrightarrow> 0 < d \<and> never_above (d - 1) cs"
    by (subst never_above_step, cases d) (auto simp: never_above_def intro: exI [of _ 0])
qed (simp_all add: never_above_step, simp_all add: never_above_def)

lemma normalize_loop_Ok:
  "RootDir \<notin> set cs \<Longrightarrow> length normalized = depth \<Longrightarrow>
     (\<exists>parts. normalize_loop cs normalized depth = Ok parts) \<longleftrightarrow> never_above depth cs"
  by (induction cs normalized depth rule: normalize_loop.induct) auto

lemma normalize_loop_parts:
  "normalize_loop cs normalized depth = Ok parts \<Longrightarrow> length normalized = depth \<Longrightarrow>
     length parts + ups cs = depth + downs cs
     \<and> set parts \<subseteq> set normalized \<union> {p. Normal p \<in> set cs} \<and> RootDir \<notin> set cs"
proof (induction cs normalized depth rule: normalize_loop.induct)
  case (4 cs normalized depth)
  then have "0 < depth" "length (butlast normalized) = depth - 1" by (auto split: if_splits)
  with 4 show ?case by (fastforce dest: in_set_butlastD split: if_splits)
qed (fastforce split: if_splits)+

lemma split_char_pieces: "p \<in> set (split_char x v) \<Longrightarrow> x \<notin> set p"
  by (induction x v arbitrary: p rule: split_char.induct) (auto split: if_splits list.splits)

lemma path_components_filter:
  "\<not> (v \<noteq> [] \<and> hd v = 47) \<Longrightarrow>
     set (path_components v) \<subseteq> component_of ` {p \<in> set (split_char 47 v). p \<noteq> []}"
proof -
  define pieces where "pieces = map component_of (filter (\<lambda>p. p \<noteq> []) (split_char 47 v))"
  assume "\<not> (v \<noteq> [] \<and> hd v = 47)"
  then have "set (path_components v) \<subseteq> set pieces"
    by (auto simp: path_components_def Let_def pieces_def [symmetric] split: list.splits Component.splits)
  also have "set pieces = component_of ` {p \<in> set (split_char 47 v). p \<noteq> []}" by (simp add: pieces_def)
  finally show ?thesis .
qed

lemma path_components_absolute: "v \<noteq> [] \<Longrightarrow> hd v = 47 \<Longrightarrow> \<exists>cs. path_components v = RootDir # cs"
  by (simp add: path_components_def)

lemma component_of_Normal: "component_of p = Normal q \<longleftrightarrow> p = q \<and> q \<noteq> [46] \<and> q \<noteq> [46, 46]"
  by (auto simp: component_of_def)

lemma path_components_relative:
  assumes "\<not> (v \<noteq> [] \<and> hd v = 47)"
  shows "RootDir \<notin> set (path_components v)"
    and "Normal p \<in> set (path_components v) \<Longrightarrow> p \<noteq> [] \<and> p \<noteq> [46] \<and> p \<noteq> [46, 46] \<and> 47 \<notin> set p"
proof -
  note sub = path_components_filter [OF assms]
  show "RootDir \<notin> set (path_components v)"
    using sub by (auto simp: component_of_def image_iff split: if_splits)
  assume "Normal p \<in> set (path_components v)"
  with sub obtain q where "q \<in> set (split_char 47 v)" "q \<noteq> []" "component_of q = Normal p" by fastforce
  then show "p \<noteq> [] \<and> p \<noteq> [46] \<and> p \<noteq> [46, 46] \<and> 47 \<notin> set p"
    using split_char_pieces [of q 47 v] by (simp add: component_of_Normal)
qed

lemma check_root_text_nonempty: "check_root_text v = Ok () \<Longrightarrow> v \<noteq> []"
  by (auto simp: check_root_text_def)

lemma workspace_root_accepts:
  "(\<exists>parts. workspace_root_parse v = Ok parts) \<longleftrightarrow>
      check_root_text v = Ok () \<and> hd v \<noteq> 47
      \<and> (\<forall>n. ups (take n (path_components v)) \<le> downs (take n (path_components v)))"
proof (cases "check_root_text v = Ok () \<and> hd v \<noteq> 47")
  case True
  then have "\<not> (v \<noteq> [] \<and> hd v = 47)" by simp
  from normalize_loop_Ok [OF path_components_relative(1) [OF this], of "[]" 0]
  show ?thesis using True by (simp add: workspace_root_parse_def never_above_def)
next
  case False
  have "workspace_root_parse v \<noteq> Ok parts" for parts
  proof (cases "check_root_text v")
    case (Ok u)
    then have v: "v \<noteq> []" using check_root_text_nonempty [of v] by simp
    with False Ok have "hd v = 47" by simp
    from path_components_absolute [OF v this] show ?thesis using Ok by (auto simp: workspace_root_parse_def)
  qed (simp add: workspace_root_parse_def)
  then show ?thesis using False by auto
qed

lemma workspace_root_parts:
  assumes "workspace_root_parse v = Ok parts"
  shows "length parts = downs (path_components v) - ups (path_components v)
      \<and> (\<forall>p \<in> set parts. p \<noteq> [] \<and> p \<noteq> [46] \<and> p \<noteq> [46, 46] \<and> 47 \<notin> set p)"
proof -
  have loop: "normalize_loop (path_components v) [] 0 = Ok parts"
    using assms by (cases "check_root_text v") (simp_all add: workspace_root_parse_def)
  from normalize_loop_parts [OF this]
  have len: "length parts + ups (path_components v) = downs (path_components v)"
    and sub: "set parts \<subseteq> {p. Normal p \<in> set (path_components v)}" and root: "RootDir \<notin> set (path_components v)"
    by simp_all
  have rel: "\<not> (v \<noteq> [] \<and> hd v = 47)" using path_components_absolute [of v] root by auto
  have "p \<noteq> [] \<and> p \<noteq> [46] \<and> p \<noteq> [46, 46] \<and> 47 \<notin> set p" if "p \<in> set parts" for p
    using that sub path_components_relative(2) [OF rel, of p] by auto
  then show ?thesis using len by auto
qed

text \<open>
  C27. A configured skill root never leaves the workspace. The text is accepted exactly when it passes the
  character and length checks, is relative, and no prefix of its components has more \<open>..\<close> than names; the
  normalized root is then made of proper names only, as many as names remain after every \<open>..\<close>.
\<close>

theorem workspace_root_stays_inside:
  "((\<exists>parts. workspace_root_parse v = Ok parts) \<longleftrightarrow>
      check_root_text v = Ok () \<and> hd v \<noteq> 47
      \<and> (\<forall>n. ups (take n (path_components v)) \<le> downs (take n (path_components v))))
   \<and> (\<forall>parts. workspace_root_parse v = Ok parts \<longrightarrow>
      length parts = downs (path_components v) - ups (path_components v)
      \<and> (\<forall>p \<in> set parts. p \<noteq> [] \<and> p \<noteq> [46] \<and> p \<noteq> [46, 46] \<and> 47 \<notin> set p))"
  using workspace_root_accepts [of v] workspace_root_parts [of v] by blast

theorem workspace_root_stays_inside_witness:
  "length [scalars ''b''] = downs (path_components (scalars ''a/../b'')) - ups (path_components (scalars ''a/../b''))
   \<and> workspace_root_parse (scalars ''a/../../b'') = Err EscapesWorkspace"
proof -
  have "workspace_root_parse (scalars ''a/../b'') = Ok [scalars ''b'']" by code_simp
  moreover have "workspace_root_parse (scalars ''a/../../b'') = Err EscapesWorkspace" by code_simp
  ultimately show ?thesis using workspace_root_stays_inside [of "scalars ''a/../b''"] by simp
qed

section \<open>A project never widens the profile\<close>

lemma profile_layers:
  "resolve_context_profile user project cli = Ok p \<longleftrightarrow>
     (case cli of Some c \<Rightarrow> p = c
      | None \<Rightarrow> p = (case project of Some q \<Rightarrow> q | None \<Rightarrow> case_option Standard (\<lambda>u. u) user)
          \<and> p \<le> case_option Standard (\<lambda>u. u) user)"
  by (auto simp: resolve_context_profile_def validate_project_profile_def Let_def not_less split: option.splits)

lemma disclosed_fields_mono:
  "a \<le> b \<Longrightarrow> (pd_recent_messages (disclosed_fields a n) \<longrightarrow> pd_recent_messages (disclosed_fields b n))
     \<and> (pd_tool_bodies (disclosed_fields a n) \<longrightarrow> pd_tool_bodies (disclosed_fields b n))
     \<and> (pd_dirty_paths (disclosed_fields a n) \<longrightarrow> pd_dirty_paths (disclosed_fields b n))"
  by (cases a; cases b) (simp_all add: less_eq_ContextProfile_def)

section \<open>A verified receipt tells the truth\<close>

lemma checked_fold_Ok:
  "checked_fold f cs acc = Ok n \<Longrightarrow> n = acc + sum_list (map f cs)"
proof (induction cs arbitrary: acc)
  case (Cons c cs)
  then have "checked_fold f cs (acc + f c) = Ok n" by (simp add: checked_add64_def split: if_splits)
  from Cons.IH [OF this] show ?case by simp
qed simp

lemma checked_fold_fits:
  "acc + sum_list (map f cs) \<le> U64_MAX \<Longrightarrow> checked_fold f cs acc = Ok (acc + sum_list (map f cs))"
  by (induction cs arbitrary: acc) (auto simp: checked_add64_def)

lemma check_total_Ok:
  assumes "\<forall>c \<in> set (dr_categories r). f c \<le> U64_MAX" "expected \<le> U64_MAX"
  shows "check_total r f expected = Ok () \<longleftrightarrow> sum_list (map f (dr_categories r)) = expected"
proof (cases "checked_total r f")
  case (Ok n)
  then show ?thesis
    using checked_fold_Ok [of f "dr_categories r" 0 n] by (auto simp: check_total_def checked_total_def)
next
  case (Err e)
  then have "\<not> sum_list (map f (dr_categories r)) \<le> U64_MAX"
    using checked_fold_fits [of 0 f "dr_categories r"] by (auto simp: checked_total_def)
  then show ?thesis using Err assms by (auto simp: check_total_def)
qed

lemma check_items_Ok:
  "check_items r p cs = Ok () \<longleftrightarrow>
     (\<forall>c \<in> set cs. \<forall>e. receipt_category r c = Some e \<longrightarrow> cg_included e = payload_items p c)"
  by (induction cs) (auto split: option.splits)

lemma receipt_category_found:
  "length (filter (\<lambda>e. cg_category e = c) (dr_categories r)) = 1 \<Longrightarrow>
     \<exists>e. receipt_category r c = Some e \<and> e \<in> set (dr_categories r) \<and> cg_category e = c"
proof -
  assume "length (filter (\<lambda>e. cg_category e = c) (dr_categories r)) = 1"
  then have "filter (\<lambda>e. cg_category e = c) (dr_categories r) \<noteq> []" by auto
  then have "receipt_category r c \<noteq> None" by (auto simp: receipt_category_def find_None_iff filter_empty_conv)
  then show ?thesis by (auto simp: receipt_category_def find_Some_iff)
qed

text \<open>The receipt's counters are machine words.\<close>

definition receipt_words :: "DisclosureReceipt \<Rightarrow> bool" where
  "receipt_words r \<longleftrightarrow>
     (\<forall>c \<in> set (dr_categories r). cg_included c \<le> U64_MAX \<and> cg_omitted c \<le> U64_MAX
        \<and> cg_truncated c \<le> U64_MAX \<and> cg_redactions c \<le> U64_MAX)
     \<and> dr_total_included r \<le> U64_MAX \<and> dr_total_omitted r \<le> U64_MAX
     \<and> dr_total_truncated r \<le> U64_MAX \<and> dr_total_redactions r \<le> U64_MAX"

definition one_of_each :: "DisclosureReceipt \<Rightarrow> bool" where
  "one_of_each r \<longleftrightarrow> length (dr_categories r) = 5
     \<and> (\<forall>c. length (filter (\<lambda>e. cg_category e = c) (dr_categories r)) = 1)"

lemma one_of_each_inventory:
  "one_of_each r \<longleftrightarrow> \<not> (length (dr_categories r) \<noteq> length expected_categories
         \<or> list_ex (\<lambda>x. length (filter (\<lambda>e. cg_category e = x) (dr_categories r)) \<noteq> 1) expected_categories)"
proof -
  have all: "c \<in> set expected_categories" for c :: SourceCategory by (cases c) (simp_all add: expected_categories_def)
  have "length expected_categories = 5" by (simp add: expected_categories_def)
  with all show ?thesis by (auto simp: one_of_each_def list_ex_iff)
qed

lemma check_items_exact:
  assumes "one_of_each r"
  shows "check_items r p expected_categories = Ok () \<longleftrightarrow>
    (\<forall>e \<in> set (dr_categories r). cg_included e = payload_items p (cg_category e))"
proof -
  have uniq: "receipt_category r (cg_category e) = Some e" if e: "e \<in> set (dr_categories r)" for e
  proof -
    have "length (filter (\<lambda>x. cg_category x = cg_category e) (dr_categories r)) = 1" using assms by (simp add: one_of_each_def)
    then obtain x where x: "filter (\<lambda>x. cg_category x = cg_category e) (dr_categories r) = [x]" by (auto simp: length_Suc_conv)
    have "e \<in> set (filter (\<lambda>x. cg_category x = cg_category e) (dr_categories r))" using e by simp
    then have "x = e" using x by simp
    obtain y where "receipt_category r (cg_category e) = Some y" "y \<in> set (dr_categories r)" "cg_category y = cg_category e"
      using receipt_category_found [of "cg_category e" r] assms by (auto simp: one_of_each_def)
    moreover from this have "y \<in> set (filter (\<lambda>x. cg_category x = cg_category e) (dr_categories r))" by simp
    ultimately show ?thesis using x \<open>x = e\<close> by simp
  qed
  have all: "c \<in> set expected_categories" for c :: SourceCategory by (cases c) (simp_all add: expected_categories_def)
  have "receipt_category r c = Some e \<Longrightarrow> e \<in> set (dr_categories r) \<and> cg_category e = c" for c e
    by (auto simp: receipt_category_def find_Some_iff)
  with uniq all show ?thesis unfolding check_items_Ok by metis
qed

lemma verify_exact:
  assumes "receipt_words r"
  shows "verify_against_payload S r p = Ok () \<longleftrightarrow>
     one_of_each r
     \<and> dr_context_profile r = rc_context_profile p \<and> dr_context_quality r = rc_context_quality p
     \<and> dr_disclosed_bytes r = disclosed_bytes S p \<and> dr_disclosed_scalars r = total_message_scalars p
     \<and> sum_list (map cg_included (dr_categories r)) = dr_total_included r
     \<and> sum_list (map cg_omitted (dr_categories r)) = dr_total_omitted r
     \<and> sum_list (map cg_truncated (dr_categories r)) = dr_total_truncated r
     \<and> sum_list (map cg_redactions (dr_categories r)) = dr_total_redactions r
     \<and> (\<forall>e \<in> set (dr_categories r). cg_included e = payload_items p (cg_category e))"
proof (cases "one_of_each r")
  case True
  have bind: "and_then m (\<lambda>_. k) = Ok () \<longleftrightarrow> m = Ok () \<and> k = Ok ()" for m :: "(unit, ReceiptVerificationError) result" and k
    by (cases m) auto
  have totals: "check_total r cg_included (dr_total_included r) = Ok () \<longleftrightarrow> sum_list (map cg_included (dr_categories r)) = dr_total_included r"
    "check_total r cg_omitted (dr_total_omitted r) = Ok () \<longleftrightarrow> sum_list (map cg_omitted (dr_categories r)) = dr_total_omitted r"
    "check_total r cg_truncated (dr_total_truncated r) = Ok () \<longleftrightarrow> sum_list (map cg_truncated (dr_categories r)) = dr_total_truncated r"
    "check_total r cg_redactions (dr_total_redactions r) = Ok () \<longleftrightarrow> sum_list (map cg_redactions (dr_categories r)) = dr_total_redactions r"
    using assms by (simp_all add: check_total_Ok receipt_words_def)
  show ?thesis
    unfolding verify_against_payload_def if_not_P [OF True [unfolded one_of_each_inventory]]
    using True by (simp add: bind totals check_items_exact [OF True])
next
  case False
  then have "verify_against_payload S r p = Err InvalidCategoryInventory"
    unfolding verify_against_payload_def one_of_each_inventory by simp
  with False show ?thesis by simp
qed

text \<open>
  A receipt is accepted exactly when it is true of the payload: each of the five categories once, the
  profile, quality, bytes and scalars of the payload, totals that are the sums of the categories, and in
  every category the number of items the payload really carries.
\<close>

theorem receipt_verification_exact:
  assumes "receipt_words r"
  shows "verify_against_payload S r p = Ok () \<longleftrightarrow>
     one_of_each r
     \<and> dr_context_profile r = rc_context_profile p \<and> dr_context_quality r = rc_context_quality p
     \<and> dr_disclosed_bytes r = disclosed_bytes S p \<and> dr_disclosed_scalars r = total_message_scalars p
     \<and> sum_list (map cg_included (dr_categories r)) = dr_total_included r
     \<and> sum_list (map cg_omitted (dr_categories r)) = dr_total_omitted r
     \<and> sum_list (map cg_truncated (dr_categories r)) = dr_total_truncated r
     \<and> sum_list (map cg_redactions (dr_categories r)) = dr_total_redactions r
     \<and> (\<forall>e \<in> set (dr_categories r). cg_included e = payload_items p (cg_category e))"
  using assms by (rule verify_exact)

definition demo_payload :: RenderedContextPayload where
  "demo_payload = \<lparr> rc_schema_version = 1, rc_context_profile = Minimal, rc_harness = scalars ''codex'', rc_context_quality = PromptOnly,
     rc_project_signals = \<lparr> rp_languages = [scalars ''rust''], rp_tools_on_path = [], rp_dirty_paths = [], rp_dirty_paths_truncated = False \<rparr>,
     rc_session_state = \<lparr> rt_loaded_references = [], rt_loaded_state = scalars ''observed'', rt_explicit_exclusions = [] \<rparr>,
     rc_recent_messages = [], rc_latest_user_request = scalars ''fix it'' \<rparr>"

definition demo_receipt :: DisclosureReceipt where
  "demo_receipt = \<lparr> dr_schema_version = 1, dr_context_profile = Minimal, dr_context_quality = PromptOnly, dr_no_tools = False,
     dr_categories = [\<lparr> cg_category = UserRequest, cg_included = 1, cg_omitted = 0, cg_truncated = 0, cg_redactions = 2 \<rparr>,
       \<lparr> cg_category = MessageHistory, cg_included = 0, cg_omitted = 3, cg_truncated = 0, cg_redactions = 0 \<rparr>,
       \<lparr> cg_category = ToolEvents, cg_included = 0, cg_omitted = 0, cg_truncated = 0, cg_redactions = 0 \<rparr>,
       \<lparr> cg_category = ProjectSignalsCategory, cg_included = 1, cg_omitted = 0, cg_truncated = 0, cg_redactions = 0 \<rparr>,
       \<lparr> cg_category = SessionStateCategory, cg_included = 0, cg_omitted = 0, cg_truncated = 0, cg_redactions = 0 \<rparr>],
     dr_total_included = 2, dr_total_omitted = 3, dr_total_truncated = 0, dr_total_redactions = 2,
     dr_disclosed_bytes = disclosed_bytes (demo_serde (\<lambda>_. None)) demo_payload, dr_disclosed_scalars = 6 \<rparr>"

theorem receipt_verification_exact_witness:
  "verify_against_payload (demo_serde (\<lambda>_. None)) demo_receipt demo_payload = Ok ()"
proof -
  have words: "receipt_words demo_receipt" by (simp add: receipt_words_def demo_receipt_def U64_MAX_def)
  have "one_of_each demo_receipt"
    unfolding one_of_each_def
  proof (intro conjI allI)
    fix c show "length (filter (\<lambda>e. cg_category e = c) (dr_categories demo_receipt)) = 1"
      by (cases c) (simp_all add: demo_receipt_def)
  qed (simp add: demo_receipt_def)
  moreover have "total_message_scalars demo_payload = 6" by code_simp
  ultimately show ?thesis
    unfolding receipt_verification_exact [OF words]
    by (simp add: demo_receipt_def demo_payload_def payload_items_def scalars_def)
qed

end
