(* ===== verification/Task_Anchor.thy ===== *)
theory Task_Anchor
  imports Explicit Lineage Redaction
begin

text \<open>
  Model of the local context envelope of \<open>src/src/context/mod.rs\<close>, the selection of the active history in
  \<open>src/src/context/anchor/history.rs\<close>, the task anchor of \<open>src/src/context/anchor.rs\<close> and the parsers of
  \<open>src/src/context/signals.rs\<close>. The case mapping and the character classes of Unicode are arguments. The
  redaction of a field may panic off a character boundary, which is \<open>None\<close> in the outermost option.
\<close>

section \<open>The envelope\<close>

record CurrentRequest =
  cq_event_id :: "EventId option"
  cq_text :: str
  cq_attachments_omitted :: bool
  cq_essential_attachment_missing :: bool

record SuppliedLoadClaim =
  sl_skill_id :: SkillId
  sl_source_content :: "ContentHash option"
  sl_rendered_content :: "ContentHash option"

record NormalizedContext =
  nc_schema_version :: u32
  nc_harness :: str
  nc_producer_id :: "str option"
  nc_workspace_root :: str
  nc_session_id :: "str option"
  nc_agent_id :: "AgentId option"
  nc_branch_id :: "BranchId option"
  nc_context_epoch :: "ContextEpoch option"
  nc_current_request :: CurrentRequest
  nc_events :: "NormalizedEvent list"
  nc_explicit_skill_references :: "SkillId list"
  nc_supplied_loads :: "SuppliedLoadClaim list"

datatype ContextError =
    ContextInvalidJson | ContextInvalidField | ContextDuplicateKey | ContextLimitExceeded
  | UnsupportedSchema | DuplicateEvent | DuplicateLoadDefinition

definition validate_definitions :: "NormalizedContext \<Rightarrow> (unit, ContextError) result" where
  "validate_definitions c =
     (if nc_schema_version c \<noteq> 1 then Err UnsupportedSchema
      else if \<not> is_ok (validate_definition_ids (List.map_filter ne_event_id (nc_events c))) then Err DuplicateEvent
      else if \<not> is_ok (validate_definition_ids (map sl_skill_id (nc_supplied_loads c))) then Err DuplicateLoadDefinition
      else Ok ())"

definition session_identity :: "NormalizedContext \<Rightarrow> str option \<Rightarrow> (SessionIdentity, ContextError) result" where
  "session_identity c workspace =
     and_then (validate_definitions c) (\<lambda>_.
       Ok \<lparr> si_source = Normalized (nc_producer_id c) (nc_harness c) (nc_schema_version c),
            si_workspace = workspace, si_session = nc_session_id c, si_agent = nc_agent_id c,
            si_branch = nc_branch_id c, si_epoch = nc_context_epoch c \<rparr>)"

section \<open>The active history\<close>

definition AMBIGUOUS_HISTORY :: str where
  "AMBIGUOUS_HISTORY = scalars ''active request history cannot be resolved unambiguously''"

definition CONFLICT_HISTORY :: str where
  "CONFLICT_HISTORY = scalars ''active request history contains conflicting event definitions''"

definition WRONG_REQUEST :: str where
  "WRONG_REQUEST = scalars ''current request event does not match its declared scope or role''"

definition in_envelope :: "NormalizedContext \<Rightarrow> NormalizedEvent \<Rightarrow> bool" where
  "in_envelope c e \<longleftrightarrow> ne_agent_id e = nc_agent_id c \<and> ne_branch_id e = nc_branch_id c"

text \<open>The flat loop: the events seen by identifier, the ones kept, and whether the request was passed.\<close>

fun flat_loop ::
  "EventId option \<Rightarrow> NormalizedEvent list \<Rightarrow> (EventId, NormalizedEvent) btree \<Rightarrow> bool \<Rightarrow> NormalizedEvent list
     \<Rightarrow> (NormalizedEvent list, str) result" where
  "flat_loop current [] seen past kept = Ok kept"
| "flat_loop current (e # es) seen past kept =
     (case ne_event_id e of
        None \<Rightarrow> flat_loop current es seen past (if past then kept else kept @ [e])
      | Some i \<Rightarrow>
          (case bt_get seen i of
             Some previous \<Rightarrow>
               if previous \<noteq> e then Err CONFLICT_HISTORY else flat_loop current es (bt_insert i e seen) past kept
           | None \<Rightarrow>
               (let past' = (past \<or> Some i = current) in
                flat_loop current es (bt_insert i e seen) past' (if past' then kept else kept @ [e]))))"

definition has_current :: "NormalizedContext \<Rightarrow> bool" where
  "has_current c \<longleftrightarrow> (case cq_event_id (nc_current_request c) of
       None \<Rightarrow> False
     | Some i \<Rightarrow> list_ex (\<lambda>e. ne_event_id e = Some i) (filter (in_envelope c) (nc_events c)))"

definition history_target :: "NormalizedContext \<Rightarrow> BranchResolutionTarget" where
  "history_target c =
     \<lparr> tg_event_id = (if has_current c then cq_event_id (nc_current_request c) else None),
       tg_branch_id = nc_branch_id c, tg_agent_id = nc_agent_id c \<rparr>"

text \<open>
  The rounds of the resolver bound a worklist over response identities. None are passed here, so it returns
  without any.
\<close>

definition linked_history :: "NormalizedContext \<Rightarrow> (NormalizedEvent list \<times> bool, str) result option" where
  "linked_history c =
     map_option (\<lambda>r. case r of
         Unresolved _ \<Rightarrow> Err AMBIGUOUS_HISTORY
       | Resolved branch \<Rightarrow>
           Ok (if has_current c
               then filter (\<lambda>e. ne_event_id e \<noteq> cq_event_id (nc_current_request c)) (br_events branch)
               else br_events branch,
               br_ancestor_chain_truncated branch
               \<or> list_ex (\<lambda>e. ne_event_id e = None) (filter (in_envelope c) (nc_events c))))
       (resolve_active_branch 0
         (filter (\<lambda>e. ne_agent_id e = nc_agent_id c) (nc_events c)) (history_target c))"

definition select_history :: "NormalizedContext \<Rightarrow> (NormalizedEvent list \<times> bool, str) result option" where
  "select_history c =
     (let current = cq_event_id (nc_current_request c); scoped = filter (in_envelope c) (nc_events c) in
      if \<not> has_current c \<and> current \<noteq> None \<and> list_ex (\<lambda>e. ne_event_id e = current) (nc_events c)
      then Some (Err WRONG_REQUEST)
      else if has_current c \<and> list_ex (\<lambda>e. ne_event_id e = current \<and> (ne_role e \<noteq> RoleUser \<or> ne_kind e \<noteq> EvMessage)) scoped
      then Some (Err WRONG_REQUEST)
      else if \<not> list_ex (\<lambda>e. ne_parent_id e \<noteq> None) scoped
      then Some (map_ok (\<lambda>kept. (kept, False)) (flat_loop current scoped [] False []))
      else linked_history c)"

section \<open>Terse continuations\<close>

record Texts =
  tx_lower :: "str \<Rightarrow> str"
  tx_alphanumeric :: "scalar \<Rightarrow> bool"

definition TERSE_CONTINUATION_PHRASES :: "str list" where
  "TERSE_CONTINUATION_PHRASES = map scalars
     [''continue'', ''go on'', ''go ahead'', ''proceed'', ''next'', ''next step'', ''more'', ''keep going'', ''carry on'',
      ''yes'', ''yep'', ''yeah'', ''ok'', ''okay'', ''sure'', ''do it'', ''run it'', ''apply'', ''try it'', ''resume'']"

definition TERSE_FILLERS :: "str list" where
  "TERSE_FILLERS = map scalars
     [''step'', ''ahead'', ''on'', ''going'', ''onward'', ''please'', ''then'', ''now'', ''it'', ''all'']"

definition is_edge_punctuation :: "scalar \<Rightarrow> bool" where
  "is_edge_punctuation c \<longleftrightarrow> c \<in> set (scalars ''.!?,;: -_'')"

fun join_words :: "str \<Rightarrow> str list \<Rightarrow> str" where
  "join_words sep [] = []"
| "join_words sep [w] = w"
| "join_words sep (w # ws) = w @ sep @ join_words sep ws"

definition is_terse_continuation :: "Texts \<Rightarrow> str \<Rightarrow> bool" where
  "is_terse_continuation tx txt =
     (let trimmed = trim_str txt in
      if trimmed = [] then True
      else
        let normalized = trim_matches is_edge_punctuation (tx_lower tx trimmed) in
        if normalized \<in> set TERSE_CONTINUATION_PHRASES then True
        else
          let cleaned = map (\<lambda>c. if tx_alphanumeric tx c then c else 32) normalized; words = split_whitespace cleaned in
          if words = [] then True
          else if length words \<le> 3 then
            join_words [32] words \<in> set TERSE_CONTINUATION_PHRASES
            \<or> list_all (\<lambda>w. w \<in> set TERSE_CONTINUATION_PHRASES \<or> w \<in> set TERSE_FILLERS) words
          else False)"

section \<open>The task anchor\<close>

datatype AnchorDirectiveKind = AnchorRequire | AnchorExclude

record AnchorDirective =
  ad_target :: str
  ad_kind :: AnchorDirectiveKind

fun anchor_kind :: "DirectiveKind \<Rightarrow> AnchorDirectiveKind" where
  "anchor_kind RequireDirective = AnchorRequire"
| "anchor_kind ExcludeDirective = AnchorExclude"

definition anchor_directive :: "ParsedDirective \<Rightarrow> AnchorDirective" where
  "anchor_directive d = \<lparr> ad_target = pd_target d, ad_kind = anchor_kind (pd_kind d) \<rparr>"

datatype AnchorProvenance = FromCurrentRequest | HistoricalEvent EventId | SuppliedSummary str

record TaskAnchor =
  ta_text :: str
  ta_source_event_id :: "EventId option"
  ta_provenance :: AnchorProvenance
  ta_is_terse :: bool
  ta_directives :: "AnchorDirective list"

datatype AnchorResolution =
    Established TaskAnchor
  | MissingTaskContext str
  | AnchorOversized usize usize
  | ConflictingDirectives str

fun anchor_of :: "AnchorResolution \<Rightarrow> TaskAnchor option" where
  "anchor_of (Established a) = Some a"
| "anchor_of _ = None"

datatype AnchorError =
    AnchorMissingTaskContext str | AnchorOversizedInput usize usize | AnchorConflictingDirectives str
  | AnchorRedaction RedactionError

fun into_result :: "AnchorResolution \<Rightarrow> (TaskAnchor, AnchorError) result" where
  "into_result (Established a) = Ok a"
| "into_result (MissingTaskContext reason) = Err (AnchorMissingTaskContext reason)"
| "into_result (AnchorOversized bytes max_bytes) = Err (AnchorOversizedInput bytes max_bytes)"
| "into_result (ConflictingDirectives detail) = Err (AnchorConflictingDirectives detail)"

text \<open>The directives so far, and the lowercased targets required and excluded so far.\<close>

type_synonym directive_state = "AnchorDirective list \<times> str set \<times> str set"

definition both_detail :: "str \<Rightarrow> string \<Rightarrow> str" where
  "both_detail target how = scalars ''skill '' @ [39] @ target @ [39] @ scalars ('' is both '' @ how)"

definition check_directive :: "Texts \<Rightarrow> ParsedDirective \<Rightarrow> directive_state \<Rightarrow> (directive_state, AnchorResolution) result" where
  "check_directive tx d st =
     (let (directives, positive, negative) = st; key = tx_lower tx (pd_target d) in
      case pd_kind d of
        RequireDirective \<Rightarrow>
          if key \<in> negative then Err (ConflictingDirectives (both_detail (pd_target d) ''required and excluded''))
          else Ok (directives @ [anchor_directive d], insert key positive, negative)
      | ExcludeDirective \<Rightarrow>
          if key \<in> positive then Err (ConflictingDirectives (both_detail (pd_target d) ''excluded and required''))
          else Ok (directives @ [anchor_directive d], positive, insert key negative))"

fun check_directives :: "Texts \<Rightarrow> ParsedDirective list \<Rightarrow> directive_state \<Rightarrow> (directive_state, AnchorResolution) result" where
  "check_directives tx [] st = Ok st"
| "check_directives tx (d # ds) st = and_then (check_directive tx d st) (check_directives tx ds)"

definition is_user_message :: "NormalizedEvent \<Rightarrow> bool" where
  "is_user_message e \<longleftrightarrow> ne_role e = RoleUser \<and> ne_kind e = EvMessage"

fun check_history :: "Texts \<Rightarrow> NormalizedEvent list \<Rightarrow> directive_state \<Rightarrow> (directive_state, AnchorResolution) result" where
  "check_history tx [] st = Ok st"
| "check_history tx (e # es) st =
     (if is_user_message e
      then and_then (check_directives tx (parse_prompt_directives (tx_alphanumeric tx) (ne_text e)) st) (check_history tx es)
      else check_history tx es st)"

text \<open>The most recent substantive instruction, from the newest event back to a task boundary.\<close>

fun antecedent_loop :: "Texts \<Rightarrow> NormalizedEvent list \<Rightarrow> (NormalizedEvent \<times> str) option" where
  "antecedent_loop tx [] = None"
| "antecedent_loop tx (e # es) =
     (if ne_kind e = TaskBoundary then None
      else if is_user_message e \<and> \<not> is_terse_continuation tx (trim_str (ne_text e)) then Some (e, trim_str (ne_text e))
      else antecedent_loop tx es)"

definition MISSING_ANTECEDENT :: str where
  "MISSING_ANTECEDENT = scalars ''terse continuation lacks recoverable substantive antecedent instruction''"

text \<open>The anchor around a redacted text; any refusal of the redaction is reported as an oversized input.\<close>

definition establish ::
  "Scanner \<Rightarrow> Redactor \<Rightarrow> str \<Rightarrow> (str \<Rightarrow> TaskAnchor) \<Rightarrow> AnchorResolution option" where
  "establish sc redactor txt anchored =
     map_option (\<lambda>res. case res of
         Ok f \<Rightarrow> Established (anchored (rf_text f))
       | Err _ \<Rightarrow> AnchorOversized (str_len txt) (rl_max HOOK_STDIN_BYTES))
       (redact_field sc redactor txt)"

definition anchor_from ::
  "Texts \<Rightarrow> Scanner \<Rightarrow> Redactor \<Rightarrow> NormalizedContext \<Rightarrow> (str \<times> str) option \<Rightarrow> NormalizedEvent list
     \<Rightarrow> AnchorDirective list \<Rightarrow> AnchorResolution option" where
  "anchor_from tx sc redactor c supplied history directives =
     (let req = cq_text (nc_current_request c) in
      if \<not> is_terse_continuation tx req then
        establish sc redactor req (\<lambda>t. \<lparr> ta_text = t, ta_source_event_id = cq_event_id (nc_current_request c),
          ta_provenance = FromCurrentRequest, ta_is_terse = False, ta_directives = directives \<rparr>)
      else
        case (case supplied of Some (s, p) \<Rightarrow> if trim_str s \<noteq> [] \<and> trim_str p \<noteq> [] then Some (s, p) else None | None \<Rightarrow> None) of
          Some (summary, prov) \<Rightarrow>
            establish sc redactor summary (\<lambda>t. \<lparr> ta_text = t, ta_source_event_id = None,
              ta_provenance = SuppliedSummary prov, ta_is_terse = True, ta_directives = directives \<rparr>)
        | None \<Rightarrow>
            (case antecedent_loop tx (rev history) of
               Some (e, txt) \<Rightarrow>
                 establish sc redactor txt (\<lambda>t. \<lparr> ta_text = t, ta_source_event_id = ne_event_id e,
                   ta_provenance = HistoricalEvent (case ne_event_id e of Some i \<Rightarrow> i | None \<Rightarrow> scalars ''historical-unknown''),
                   ta_is_terse = True, ta_directives = directives \<rparr>)
             | None \<Rightarrow> Some (MissingTaskContext MISSING_ANTECEDENT)))"

definition resolve_task_anchor ::
  "Texts \<Rightarrow> Scanner \<Rightarrow> NormalizedContext \<Rightarrow> (str \<times> str) option \<Rightarrow> Redactor \<Rightarrow> AnchorResolution option" where
  "resolve_task_anchor tx sc c supplied redactor =
     (let req = cq_text (nc_current_request c) in
      if str_len req > rl_max HOOK_STDIN_BYTES then Some (AnchorOversized (str_len req) (rl_max HOOK_STDIN_BYTES))
      else
        case select_history c of
          None \<Rightarrow> None
        | Some (Err reason) \<Rightarrow> Some (MissingTaskContext reason)
        | Some (Ok (history, _)) \<Rightarrow>
            (case and_then (check_history tx history ([], {}, {}))
                    (check_directives tx (parse_prompt_directives (tx_alphanumeric tx) req)) of
               Err conflict \<Rightarrow> Some conflict
             | Ok (directives, _, _) \<Rightarrow> anchor_from tx sc redactor c supplied history directives))"

section \<open>What is selected\<close>

lemma select_history_returns: "select_history c \<noteq> None"
proof -
  have "\<exists>r. resolve_active_branch 0 (filter (\<lambda>e. ne_agent_id e = nc_agent_id c) (nc_events c)) (history_target c) = Some r"
    unfolding resolve_active_branch_def by (rule resolve_returns) simp
  then show ?thesis by (auto simp: select_history_def linked_history_def Let_def)
qed

text \<open>The same envelope with the events of its own agent only.\<close>

definition own_agent :: "NormalizedContext \<Rightarrow> NormalizedContext" where
  "own_agent c = c\<lparr>nc_events := filter (\<lambda>e. ne_agent_id e = nc_agent_id c) (nc_events c)\<rparr>"

definition foreign_request :: "NormalizedContext \<Rightarrow> bool" where
  "foreign_request c \<longleftrightarrow> cq_event_id (nc_current_request c) \<noteq> None \<and> \<not> has_current c
     \<and> (\<exists>e \<in> set (nc_events c). ne_agent_id e \<noteq> nc_agent_id c \<and> ne_event_id e = cq_event_id (nc_current_request c))"

lemma own_agent_fields [simp]:
  "nc_agent_id (own_agent c) = nc_agent_id c" "nc_branch_id (own_agent c) = nc_branch_id c"
  "nc_current_request (own_agent c) = nc_current_request c"
  "nc_events (own_agent c) = filter (\<lambda>e. ne_agent_id e = nc_agent_id c) (nc_events c)"
  by (simp_all add: own_agent_def)

lemma own_agent_scope: "filter (in_envelope (own_agent c)) (nc_events (own_agent c)) = filter (in_envelope c) (nc_events c)"
  by (simp, rule filter_cong) (auto simp: in_envelope_def)

lemma own_agent_current [simp]: "has_current (own_agent c) = has_current c"
  unfolding has_current_def own_agent_scope by simp

lemma linked_own_agent: "linked_history (own_agent c) = linked_history c"
  unfolding linked_history_def own_agent_scope by (simp add: history_target_def)

lemma select_own_agent:
  "select_history c = (if foreign_request c then Some (Err WRONG_REQUEST) else select_history (own_agent c))"
proof (cases "foreign_request c")
  case True
  then show ?thesis by (auto simp: foreign_request_def select_history_def Let_def list_ex_iff)
next
  case False
  then have "(\<not> has_current c \<and> cq_event_id (nc_current_request c) \<noteq> None
        \<and> list_ex (\<lambda>e. ne_event_id e = cq_event_id (nc_current_request c)) (nc_events c))
     = (\<not> has_current c \<and> cq_event_id (nc_current_request c) \<noteq> None
        \<and> list_ex (\<lambda>e. ne_event_id e = cq_event_id (nc_current_request c)) (nc_events (own_agent c)))"
    by (auto simp: foreign_request_def list_ex_iff)
  with False show ?thesis
    unfolding select_history_def Let_def own_agent_scope linked_own_agent by simp
qed

text \<open>
  A foreign agent has no say in the task. The anchor of an envelope, with its directives, is the one of the
  envelope without the events of other agents; the only exception is a request whose identifier is carried by
  a foreign event and by none of its own, which is refused rather than read from that event.
\<close>

theorem foreign_events_have_no_authority:
  "resolve_task_anchor tx sc c supplied redactor =
     (if foreign_request c \<and> str_len (cq_text (nc_current_request c)) \<le> rl_max HOOK_STDIN_BYTES
      then Some (MissingTaskContext WRONG_REQUEST)
      else resolve_task_anchor tx sc (own_agent c) supplied redactor)"
proof -
  have anchor: "anchor_from tx sc redactor (own_agent c) supplied h ds = anchor_from tx sc redactor c supplied h ds" for h ds
    unfolding anchor_from_def own_agent_fields by (rule refl)
  show ?thesis
    unfolding resolve_task_anchor_def Let_def own_agent_fields anchor
    by (subst select_own_agent) simp
qed

section \<open>The anchor\<close>

definition task_directives :: "Texts \<Rightarrow> NormalizedContext \<Rightarrow> NormalizedEvent list \<Rightarrow> ParsedDirective list" where
  "task_directives tx c history =
     concat (map (\<lambda>e. parse_prompt_directives (tx_alphanumeric tx) (ne_text e)) (filter is_user_message history))
     @ parse_prompt_directives (tx_alphanumeric tx) (cq_text (nc_current_request c))"

definition targets_of :: "Texts \<Rightarrow> DirectiveKind \<Rightarrow> ParsedDirective list \<Rightarrow> str set" where
  "targets_of tx k ds = {tx_lower tx (pd_target d) |d. d \<in> set ds \<and> pd_kind d = k}"

definition consistent :: "Texts \<Rightarrow> ParsedDirective list \<Rightarrow> bool" where
  "consistent tx ds \<longleftrightarrow> targets_of tx RequireDirective ds \<inter> targets_of tx ExcludeDirective ds = {}"

lemma targets_of_simps [simp]:
  "targets_of tx k [] = {}"
  "targets_of tx k (d # ds) = (if pd_kind d = k then {tx_lower tx (pd_target d)} else {}) \<union> targets_of tx k ds"
  "targets_of tx k (ds @ ds') = targets_of tx k ds \<union> targets_of tx k ds'"
  by (auto simp: targets_of_def)

definition checks ::
  "(directive_state, AnchorResolution) result \<Rightarrow> Texts \<Rightarrow> ParsedDirective list \<Rightarrow> directive_state \<Rightarrow> bool" where
  "checks res tx ds st \<longleftrightarrow> (case st of (dirs, pos, neg) \<Rightarrow>
     let pos' = pos \<union> targets_of tx RequireDirective ds; neg' = neg \<union> targets_of tx ExcludeDirective ds in
     if pos' \<inter> neg' = {} then res = Ok (dirs @ map anchor_directive ds, pos', neg')
     else \<exists>detail. res = Err (ConflictingDirectives detail))"

lemma check_directives_spec:
  "fst (snd st) \<inter> snd (snd st) = {} \<Longrightarrow> checks (check_directives tx ds st) tx ds st"
proof (induction ds arbitrary: st)
  case Nil
  then show ?case by (cases st) (simp add: checks_def)
next
  case (Cons d ds)
  obtain dirs pos neg where st: "st = (dirs, pos, neg)" by (cases st)
  let ?key = "tx_lower tx (pd_target d)"
  have disj: "pos \<inter> neg = {}" using Cons.prems st by simp
  show ?case
  proof (cases "pd_kind d")
    case RequireDirective
    show ?thesis
    proof (cases "?key \<in> neg")
      case False
      have "checks (check_directives tx ds (dirs @ [anchor_directive d], insert ?key pos, neg)) tx ds
          (dirs @ [anchor_directive d], insert ?key pos, neg)"
        using disj False by (intro Cons.IH) simp
      then show ?thesis using False RequireDirective by (simp add: st checks_def check_directive_def Let_def)
    qed (use RequireDirective in \<open>auto simp: st checks_def check_directive_def Let_def\<close>)
  next
    case ExcludeDirective
    show ?thesis
    proof (cases "?key \<in> pos")
      case False
      have "checks (check_directives tx ds (dirs @ [anchor_directive d], pos, insert ?key neg)) tx ds
          (dirs @ [anchor_directive d], pos, insert ?key neg)"
        using disj False by (intro Cons.IH) simp
      then show ?thesis using False ExcludeDirective by (simp add: st checks_def check_directive_def Let_def)
    qed (use ExcludeDirective in \<open>auto simp: st checks_def check_directive_def Let_def\<close>)
  qed
qed

lemma check_directives_append:
  "check_directives tx (ds @ ds') st = and_then (check_directives tx ds st) (check_directives tx ds')"
proof (induction ds arbitrary: st)
  case (Cons d ds)
  show ?case by (cases "check_directive tx d st") (simp_all add: Cons.IH)
qed simp

lemma check_history_flat:
  "check_history tx es st =
     check_directives tx (concat (map (\<lambda>e. parse_prompt_directives (tx_alphanumeric tx) (ne_text e)) (filter is_user_message es))) st"
proof (induction es arbitrary: st)
  case (Cons e es)
  then have "check_history tx es =
      check_directives tx (concat (map (\<lambda>e. parse_prompt_directives (tx_alphanumeric tx) (ne_text e)) (filter is_user_message es)))"
    by (intro ext)
  then show ?case by (simp add: check_directives_append)
qed simp

lemma task_directives_checked:
  "and_then (check_history tx history ([], {}, {}))
     (check_directives tx (parse_prompt_directives (tx_alphanumeric tx) (cq_text (nc_current_request c)))) =
   check_directives tx (task_directives tx c history) ([], {}, {})"
  by (simp add: check_history_flat task_directives_def check_directives_append)

lemma task_directives_result:
  "if consistent tx (task_directives tx c history)
   then \<exists>pos neg. check_directives tx (task_directives tx c history) ([], {}, {})
        = Ok (map anchor_directive (task_directives tx c history), pos, neg)
   else \<exists>detail. check_directives tx (task_directives tx c history) ([], {}, {}) = Err (ConflictingDirectives detail)"
  using check_directives_spec [of "([], {}, {})" tx "task_directives tx c history"]
  by (simp add: checks_def consistent_def Let_def split: if_splits)

text \<open>The reference: the last substantive user message after the last task boundary.\<close>

definition is_antecedent :: "Texts \<Rightarrow> NormalizedEvent list \<Rightarrow> NormalizedEvent \<Rightarrow> str \<Rightarrow> bool" where
  "is_antecedent tx history e txt \<longleftrightarrow> (\<exists>before after. history = before @ e # after
     \<and> is_user_message e \<and> txt = trim_str (ne_text e) \<and> \<not> is_terse_continuation tx txt
     \<and> (\<forall>x \<in> set after. ne_kind x \<noteq> TaskBoundary \<and> (is_user_message x \<longrightarrow> is_terse_continuation tx (trim_str (ne_text x)))))"

lemma antecedent_loop_Some:
  "antecedent_loop tx es = Some (e, txt) \<longleftrightarrow> is_antecedent tx (rev es) e txt"
proof (induction es)
  case Nil
  show ?case by (simp add: is_antecedent_def)
next
  case (Cons x xs)
  have user: "is_user_message x \<Longrightarrow> ne_kind x \<noteq> TaskBoundary" by (simp add: is_user_message_def)
  have step: "is_antecedent tx (rev (x # xs)) e txt \<longleftrightarrow>
      e = x \<and> is_user_message e \<and> txt = trim_str (ne_text e) \<and> \<not> is_terse_continuation tx txt
      \<or> ne_kind x \<noteq> TaskBoundary \<and> (is_user_message x \<longrightarrow> is_terse_continuation tx (trim_str (ne_text x)))
        \<and> is_antecedent tx (rev xs) e txt" (is "_ \<longleftrightarrow> ?A \<or> ?B")
  proof
    assume "is_antecedent tx (rev (x # xs)) e txt"
    then obtain before after where h: "rev xs @ [x] = before @ e # after" "is_user_message e" "txt = trim_str (ne_text e)"
        "\<not> is_terse_continuation tx txt"
        "\<forall>x \<in> set after. ne_kind x \<noteq> TaskBoundary \<and> (is_user_message x \<longrightarrow> is_terse_continuation tx (trim_str (ne_text x)))"
      by (auto simp: is_antecedent_def)
    show "?A \<or> ?B"
    proof (cases after rule: rev_cases)
      case Nil
      then show ?thesis using h by simp
    next
      case (snoc ys y)
      then have "rev xs = before @ e # ys" "y = x" using h(1) by simp_all
      then show ?thesis using h snoc by (auto simp: is_antecedent_def)
    qed
  next
    assume "?A \<or> ?B"
    then show "is_antecedent tx (rev (x # xs)) e txt"
    proof
      assume ?B
      then obtain before after where "rev xs = before @ e # after" "is_user_message e" "txt = trim_str (ne_text e)"
          "\<not> is_terse_continuation tx txt"
          "\<forall>x \<in> set after. ne_kind x \<noteq> TaskBoundary \<and> (is_user_message x \<longrightarrow> is_terse_continuation tx (trim_str (ne_text x)))"
        by (auto simp: is_antecedent_def)
      with \<open>?B\<close> show ?thesis unfolding is_antecedent_def by (intro exI [of _ before] exI [of _ "after @ [x]"]) auto
    next
      assume ?A
      then show ?thesis unfolding is_antecedent_def by (intro exI [of _ "rev xs"] exI [of _ "[]"]) auto
    qed
  qed
  show ?case using Cons user unfolding step by auto
qed

lemma establish_Established:
  "establish sc r txt f = Some (Established a) \<longleftrightarrow>
     (\<exists>g. redact_field sc r txt = Some (Ok g) \<and> a = f (rf_text g))"
proof (cases "redact_field sc r txt")
  case (Some res)
  then show ?thesis by (cases res) (auto simp: establish_def)
qed (simp add: establish_def)

lemma establish_conflict: "establish sc r txt f \<noteq> Some (ConflictingDirectives d)"
  by (auto simp: establish_def split: result.splits)

text \<open>What the anchor of a request may rest on.\<close>

definition anchor_source ::
  "Texts \<Rightarrow> NormalizedContext \<Rightarrow> (str \<times> str) option \<Rightarrow> NormalizedEvent list \<Rightarrow> TaskAnchor \<Rightarrow> str \<Rightarrow> bool" where
  "anchor_source tx c supplied history a txt \<longleftrightarrow>
     (let req = cq_text (nc_current_request c) in
      ta_is_terse a = is_terse_continuation tx req \<and>
      (case ta_provenance a of
         FromCurrentRequest \<Rightarrow> \<not> is_terse_continuation tx req \<and> txt = req
           \<and> ta_source_event_id a = cq_event_id (nc_current_request c)
       | SuppliedSummary prov \<Rightarrow> is_terse_continuation tx req \<and> supplied = Some (txt, prov)
           \<and> trim_str txt \<noteq> [] \<and> trim_str prov \<noteq> [] \<and> ta_source_event_id a = None
       | HistoricalEvent i \<Rightarrow> is_terse_continuation tx req
           \<and> (\<forall>s p. supplied = Some (s, p) \<longrightarrow> trim_str s = [] \<or> trim_str p = [])
           \<and> (\<exists>e. is_antecedent tx history e txt \<and> ta_source_event_id a = ne_event_id e
                \<and> (ne_event_id e \<noteq> None \<longrightarrow> ne_event_id e = Some i))))"

lemma anchor_from_Established:
  assumes "anchor_from tx sc r c supplied history ds = Some (Established a)"
  shows "ta_directives a = ds \<and> (\<exists>txt g. redact_field sc r txt = Some (Ok g) \<and> ta_text a = rf_text g
    \<and> anchor_source tx c supplied history a txt)"
proof (cases "is_terse_continuation tx (cq_text (nc_current_request c))")
  case False
  then show ?thesis using assms by (auto simp: anchor_from_def establish_Established anchor_source_def)
next
  case terse: True
  show ?thesis
  proof (cases "\<exists>s p. supplied = Some (s, p) \<and> trim_str s \<noteq> [] \<and> trim_str p \<noteq> []")
    case True
    then show ?thesis using assms terse by (auto simp: anchor_from_def establish_Established anchor_source_def)
  next
    case False
    then have none: "(case supplied of Some (s, p) \<Rightarrow> if trim_str s \<noteq> [] \<and> trim_str p \<noteq> [] then Some (s, p) else None | None \<Rightarrow> None) = None"
      by (auto split: option.splits)
    obtain e t g where e: "antecedent_loop tx (rev history) = Some (e, t)" "redact_field sc r t = Some (Ok g)"
        "a = \<lparr> ta_text = rf_text g, ta_source_event_id = ne_event_id e,
           ta_provenance = HistoricalEvent (case ne_event_id e of Some i \<Rightarrow> i | None \<Rightarrow> scalars ''historical-unknown''),
           ta_is_terse = True, ta_directives = ds \<rparr>"
      using assms terse unfolding anchor_from_def none by (auto simp: establish_Established split: option.splits)
    moreover have "is_antecedent tx history e t" using e(1) antecedent_loop_Some [of tx "rev history"] by simp
    ultimately show ?thesis using terse False by (fastforce simp: anchor_source_def)
  qed
qed

lemma anchor_from_no_conflict: "anchor_from tx sc r c supplied history ds \<noteq> Some (ConflictingDirectives d)"
  by (auto simp: anchor_from_def Let_def establish_conflict split: option.splits)

text \<open>
  C26. The task anchor is exact. With the active history selected, conflicting directives are reported exactly
  when some skill is both required and excluded by the user turns and the request. Otherwise every anchor
  carries all directives of the history and then of the request, in order, and its text is the redaction of
  the request itself when that is substantive, else of the supplied summary when it has one with provenance,
  else of the last substantive user turn after the last task boundary.
\<close>

theorem task_anchor_exact:
  assumes "select_history c = Some (Ok (history, incomplete))"
    and "str_len (cq_text (nc_current_request c)) \<le> rl_max HOOK_STDIN_BYTES"
  shows "((\<exists>detail. resolve_task_anchor tx sc c supplied r = Some (ConflictingDirectives detail)) \<longleftrightarrow>
      \<not> consistent tx (task_directives tx c history))
    \<and> (\<forall>a. resolve_task_anchor tx sc c supplied r = Some (Established a) \<longrightarrow>
        ta_directives a = map anchor_directive (task_directives tx c history)
        \<and> (\<exists>txt g. redact_field sc r txt = Some (Ok g) \<and> ta_text a = rf_text g
             \<and> anchor_source tx c supplied history a txt))"
proof -
  let ?ds = "task_directives tx c history"
  have unf: "resolve_task_anchor tx sc c supplied r =
      (case check_directives tx ?ds ([], {}, {}) of Err conflict \<Rightarrow> Some conflict
       | Ok (directives, _, _) \<Rightarrow> anchor_from tx sc r c supplied history directives)"
    using assms by (simp add: resolve_task_anchor_def Let_def task_directives_checked not_less)
  show ?thesis
  proof (cases "consistent tx ?ds")
    case True
    then obtain pos neg where "check_directives tx ?ds ([], {}, {}) = Ok (map anchor_directive ?ds, pos, neg)"
      using task_directives_result [of tx c history] by auto
    then have "resolve_task_anchor tx sc c supplied r = anchor_from tx sc r c supplied history (map anchor_directive ?ds)"
      using unf by simp
    then show ?thesis using True anchor_from_Established anchor_from_no_conflict by metis
  next
    case False
    then show ?thesis using task_directives_result [of tx c history] unf by auto
  qed
qed

section \<open>Project signals\<close>

text \<open>\<open>std::str::from_utf8\<close>: the scalars of well-formed bytes, with the shortest form and no surrogates.\<close>

definition continuation :: "nat \<Rightarrow> bool" where
  "continuation b \<longleftrightarrow> 128 \<le> b \<and> b \<le> 191"

fun utf8_decode :: "nat list \<Rightarrow> str option" where
  "utf8_decode [] = Some []"
| "utf8_decode (b # bs) =
     (if b < 128 then map_option (\<lambda>s. b # s) (utf8_decode bs)
      else if 194 \<le> b \<and> b \<le> 223 then
        (case bs of
           c1 # r \<Rightarrow> if continuation c1 then map_option (\<lambda>s. ((b - 192) * 64 + (c1 - 128)) # s) (utf8_decode r) else None
         | [] \<Rightarrow> None)
      else if 224 \<le> b \<and> b \<le> 239 then
        (case bs of
           c1 # c2 # r \<Rightarrow>
             if continuation c1 \<and> continuation c2 \<and> (b = 224 \<longrightarrow> 160 \<le> c1) \<and> (b = 237 \<longrightarrow> c1 \<le> 159)
             then map_option (\<lambda>s. ((b - 224) * 4096 + (c1 - 128) * 64 + (c2 - 128)) # s) (utf8_decode r) else None
         | _ \<Rightarrow> None)
      else if 240 \<le> b \<and> b \<le> 244 then
        (case bs of
           c1 # c2 # c3 # r \<Rightarrow>
             if continuation c1 \<and> continuation c2 \<and> continuation c3 \<and> (b = 240 \<longrightarrow> 144 \<le> c1) \<and> (b = 244 \<longrightarrow> c1 \<le> 143)
             then map_option (\<lambda>s. ((b - 240) * 262144 + (c1 - 128) * 4096 + (c2 - 128) * 64 + (c3 - 128)) # s) (utf8_decode r)
             else None
         | _ \<Rightarrow> None)
      else None)"

definition STATUS_BYTES :: usize where "STATUS_BYTES = 64 * 1024"

definition DIRTY_PATH_LIMIT :: usize where "DIRTY_PATH_LIMIT = 100"

datatype Omission =
    InvalidAuthority | OmUnsupportedPlatform | OmUnavailable | UnsupportedGit | OmBudget | OmCancelled | MalformedStatus | OmOutputLimit

record DirtyPaths =
  dp_paths :: "str list"
  dp_omitted_non_utf8 :: usize
  dp_omitted_unsafe :: usize
  dp_truncated :: bool

definition dirty_paths_default :: DirtyPaths where
  "dirty_paths_default = \<lparr> dp_paths = [], dp_omitted_non_utf8 = 0, dp_omitted_unsafe = 0, dp_truncated = False \<rparr>"

text \<open>A path that is not relative, plain and free of control and directional characters.\<close>

definition unsafe_path :: "str \<Rightarrow> bool" where
  "unsafe_path path \<longleftrightarrow>
     starts_with path [47] \<or> 92 \<in> set path \<or> list_ex (\<lambda>c. is_control c \<or> is_directional c) path
     \<or> list_ex (\<lambda>part. part = [] \<or> part = [46] \<or> part = [46, 46]) (split_char 47 path)
     \<or> 58 \<in> set (hd (split_char 47 path))"

definition status_record_ok :: "nat list \<Rightarrow> bool" where
  "status_record_ok rec \<longleftrightarrow> \<not> (length rec < 4 \<or> rec ! 2 \<noteq> 32 \<or> take 2 rec = [32, 32]
     \<or> list_ex (\<lambda>b. b \<notin> set (scalars '' MADUT'')) (take 2 rec))"

fun dirty_loop :: "nat list list \<Rightarrow> str set \<Rightarrow> DirtyPaths \<Rightarrow> (DirtyPaths, Omission) result" where
  "dirty_loop [] seen result = Ok result"
| "dirty_loop (rec # recs) seen result =
     (if \<not> status_record_ok rec then Err MalformedStatus
      else
        case utf8_decode (drop 3 rec) of
          None \<Rightarrow> dirty_loop recs seen (result\<lparr>dp_omitted_non_utf8 := dp_omitted_non_utf8 result + 1\<rparr>)
        | Some path \<Rightarrow>
            if unsafe_path path then dirty_loop recs seen (result\<lparr>dp_omitted_unsafe := dp_omitted_unsafe result + 1\<rparr>)
            else if path \<in> seen then Err MalformedStatus
            else if length (dp_paths result) = DIRTY_PATH_LIMIT
            then dirty_loop recs (insert path seen) (result\<lparr>dp_truncated := True\<rparr>)
            else dirty_loop recs (insert path seen) (result\<lparr>dp_paths := dp_paths result @ [path]\<rparr>))"

definition parse_dirty_paths :: "nat list \<Rightarrow> (DirtyPaths, Omission) result" where
  "parse_dirty_paths bytes =
     (if length bytes > STATUS_BYTES then Err OmOutputLimit
      else if bytes \<noteq> [] \<and> last bytes \<noteq> 0 then Err MalformedStatus
      else if bytes = [] then Ok dirty_paths_default
      else dirty_loop (split_char 0 (butlast bytes)) {} dirty_paths_default)"

text \<open>\<open>str::parse::<u32>\<close>: an optional plus sign and decimal digits.\<close>

definition parse_u32 :: "str \<Rightarrow> u32 option" where
  "parse_u32 s =
     (let digits = (case s of c # cs \<Rightarrow> if c = 43 then cs else s | [] \<Rightarrow> []) in
      if digits = [] \<or> \<not> list_all is_ascii_digit digits then None
      else if digits_value digits \<le> U32_MAX then Some (digits_value digits) else None)"

definition modern_git :: "nat list \<Rightarrow> bool" where
  "modern_git bytes =
     (case utf8_decode bytes of
        None \<Rightarrow> False
      | Some t \<Rightarrow>
          let trimmed = trim_end_matches is_whitespace t; prefix = scalars ''git version '' in
          if \<not> starts_with trimmed prefix then False
          else
            case split_whitespace (drop (length prefix) trimmed) of
              [] \<Rightarrow> False
            | number # _ \<Rightarrow>
                (case split_char 46 number of
                   major # minor # patch # _ \<Rightarrow>
                     (case (parse_u32 major, parse_u32 minor, parse_u32 patch) of
                        (Some a, Some b, Some _) \<Rightarrow> a = 2 \<and> b \<ge> 36
                      | _ \<Rightarrow> False)
                 | _ \<Rightarrow> False))"

lemma utf8_decode_encode:
  assumes "c < 55296 \<or> 57344 \<le> c \<and> c < 1114112"
  shows "utf8_decode (utf8_encode c @ bs) = map_option (\<lambda>s. c # s) (utf8_decode bs)"
proof -
  consider "c < 128" | "128 \<le> c" "c < 2048" | "2048 \<le> c" "c < 65536" | "65536 \<le> c" "c < 1114112" using assms by linarith
  then show ?thesis
  proof cases
    case 1
    then show ?thesis by (simp add: utf8_encode_def)
  next
    case 2
    have eq: "(192 + c div 64 - 192) * 64 + (128 + c mod 64 - 128) = c" by simp
    have "194 \<le> 192 + c div 64" "192 + c div 64 \<le> 223" "\<not> 192 + c div 64 < 128" using 2 by linarith+
    moreover have "continuation (128 + c mod 64)" using mod_less_divisor [of 64 c] by (simp add: continuation_def)
    ultimately show ?thesis using 2 eq by (simp add: utf8_encode_def)
  next
    case 3
    let ?c1 = "128 + c div 64 mod 64" and ?c2 = "128 + c mod 64"
    have "c div 4096 * 4096 + c mod 4096 = c" by (rule div_mult_mod_eq)
    moreover have "c mod 4096 = c div 64 mod 64 * 64 + c mod 64"
      using mod_mult2_eq [of c 64 64] by simp
    ultimately have eq: "(224 + c div 4096 - 224) * 4096 + (?c1 - 128) * 64 + (?c2 - 128) = c" by simp
    have rng: "224 \<le> 224 + c div 4096" "224 + c div 4096 \<le> 239" "\<not> 224 + c div 4096 < 128" "\<not> (194 \<le> 224 + c div 4096 \<and> 224 + c div 4096 \<le> 223)"
      using 3 by linarith+
    have cont: "continuation ?c1" "continuation ?c2"
      using mod_less_divisor [of 64 c] mod_less_divisor [of 64 "c div 64"] by (simp_all add: continuation_def)
    have low: "224 + c div 4096 = 224 \<longrightarrow> 160 \<le> ?c1"
    proof
      assume "224 + c div 4096 = 224"
      then have "c < 4096" by (simp add: div_eq_0_iff)
      then have "c div 64 mod 64 = c div 64" by (simp add: div_less_iff_less_mult)
      then show "160 \<le> ?c1" using 3 by simp
    qed
    have high: "224 + c div 4096 = 237 \<longrightarrow> ?c1 \<le> 159"
    proof
      assume "224 + c div 4096 = 237"
      then have b: "13 * 4096 \<le> c" "c < 14 * 4096" by linarith+
      then have "c < 55296" using assms by linarith
      then have "c div 64 < 864" by linarith
      moreover have "832 \<le> c div 64" using b by linarith
      ultimately have "c div 64 mod 64 = c div 64 - 832" by (simp add: mod_if le_mod_geq)
      then show "?c1 \<le> 159" using \<open>c div 64 < 864\<close> by linarith
    qed
    show ?thesis using 3 rng cont low high eq by (simp add: utf8_encode_def)
  next
    case 4
    let ?c1 = "128 + c div 4096 mod 64" and ?c2 = "128 + c div 64 mod 64" and ?c3 = "128 + c mod 64"
    have "c div 262144 * 262144 + c mod 262144 = c" by (rule div_mult_mod_eq)
    moreover have "c mod 262144 = c div 4096 mod 64 * 4096 + c mod 4096"
      using mod_mult2_eq [of c 4096 64] by simp
    moreover have "c mod 4096 = c div 64 mod 64 * 64 + c mod 64"
      using mod_mult2_eq [of c 64 64] by simp
    ultimately have eq: "(240 + c div 262144 - 240) * 262144 + (?c1 - 128) * 4096 + (?c2 - 128) * 64 + (?c3 - 128) = c" by simp
    have rng: "240 \<le> 240 + c div 262144" "240 + c div 262144 \<le> 244" "\<not> 240 + c div 262144 < 128"
        "\<not> (194 \<le> 240 + c div 262144 \<and> 240 + c div 262144 \<le> 223)" "\<not> (224 \<le> 240 + c div 262144 \<and> 240 + c div 262144 \<le> 239)"
      using 4 by linarith+
    have cont: "continuation ?c1" "continuation ?c2" "continuation ?c3"
      using mod_less_divisor [of 64 c] mod_less_divisor [of 64 "c div 64"] mod_less_divisor [of 64 "c div 4096"]
      by (simp_all add: continuation_def)
    have low: "240 + c div 262144 = 240 \<longrightarrow> 144 \<le> ?c1"
    proof
      assume "240 + c div 262144 = 240"
      then have "c < 262144" by (simp add: div_eq_0_iff)
      then have "c div 4096 mod 64 = c div 4096" by (simp add: div_less_iff_less_mult)
      then show "144 \<le> ?c1" using 4 by simp
    qed
    have high: "240 + c div 262144 = 244 \<longrightarrow> ?c1 \<le> 143"
    proof
      assume "240 + c div 262144 = 244"
      then have b: "4 * 262144 \<le> c" by linarith
      have "c div 4096 < 272" using 4 by linarith
      moreover have "256 \<le> c div 4096" using b by linarith
      ultimately have "c div 4096 mod 64 = c div 4096 - 256" by (simp add: mod_if le_mod_geq)
      then show "?c1 \<le> 143" using \<open>c div 4096 < 272\<close> by linarith
    qed
    show ?thesis using 4 rng cont low high eq by (simp add: utf8_encode_def)
  qed
qed

lemma utf8_round_trip:
  "\<forall>c \<in> set s. c < 55296 \<or> 57344 \<le> c \<and> c < 1114112 \<Longrightarrow> utf8_decode (str_bytes s) = Some s"
  by (induction s) (simp_all add: str_bytes_def utf8_decode_encode)

definition dirty_ok :: "str set \<Rightarrow> DirtyPaths \<Rightarrow> bool" where
  "dirty_ok seen r \<longleftrightarrow> set (dp_paths r) \<subseteq> seen \<and> distinct (dp_paths r) \<and> length (dp_paths r) \<le> DIRTY_PATH_LIMIT
     \<and> (\<forall>p \<in> seen. \<not> unsafe_path p) \<and> finite seen
     \<and> (dp_truncated r \<longleftrightarrow> card seen > DIRTY_PATH_LIMIT) \<and> (\<not> dp_truncated r \<longrightarrow> set (dp_paths r) = seen)
     \<and> (dp_truncated r \<longrightarrow> length (dp_paths r) = DIRTY_PATH_LIMIT)"

lemma dirty_loop_ok:
  "dirty_loop recs seen r = Ok r' \<Longrightarrow> dirty_ok seen r \<Longrightarrow> \<exists>seen'. dirty_ok seen' r'"
proof (induction recs seen r rule: dirty_loop.induct)
  case (2 rec recs seen r)
  show ?case
  proof (cases "utf8_decode (drop 3 rec)")
    case None
    then show ?thesis using 2 by (auto simp: dirty_ok_def split: if_splits)
  next
    case (Some path)
    have ok: "status_record_ok rec" using 2(5) by (auto split: if_splits)
    show ?thesis
    proof (cases "unsafe_path path")
      case True
      then show ?thesis using 2(2) [OF _ Some True] 2(5,6) ok Some by (auto simp: dirty_ok_def)
    next
      case safe: False
      then have new: "path \<notin> seen" using 2(5) ok Some by (auto split: if_splits)
      show ?thesis
      proof (cases "length (dp_paths r) = DIRTY_PATH_LIMIT")
        case True
        have "card (set (dp_paths r)) \<le> card seen" using 2(6) by (intro card_mono) (auto simp: dirty_ok_def)
        then have "DIRTY_PATH_LIMIT \<le> card seen" using True 2(6) by (simp add: dirty_ok_def distinct_card)
        then have "dirty_ok (insert path seen) (r\<lparr>dp_truncated := True\<rparr>)"
          using 2(6) True new safe by (auto simp: dirty_ok_def)
        then show ?thesis using 2(3) [OF _ Some safe new True] 2(5) ok Some safe new True by simp
      next
        case False
        then have trunc: "\<not> dp_truncated r" using 2(6) by (auto simp: dirty_ok_def)
        then have "card seen = length (dp_paths r)" using 2(6) by (auto simp: dirty_ok_def distinct_card)
        then have "dirty_ok (insert path seen) (r\<lparr>dp_paths := dp_paths r @ [path]\<rparr>)"
          using 2(6) False new safe trunc by (auto simp: dirty_ok_def)
        then show ?thesis using 2(4) [OF _ Some safe new False] 2(5) ok Some safe new False by simp
      qed
    qed
  qed
qed auto

lemma dirty_paths_safe:
  assumes "parse_dirty_paths bytes = Ok r"
  shows "distinct (dp_paths r)" "length (dp_paths r) \<le> DIRTY_PATH_LIMIT" "p \<in> set (dp_paths r) \<Longrightarrow> \<not> unsafe_path p"
    "dp_truncated r \<Longrightarrow> length (dp_paths r) = DIRTY_PATH_LIMIT"
proof -
  have init: "dirty_ok {} dirty_paths_default" by (simp add: dirty_ok_def dirty_paths_default_def)
  have "\<exists>seen. dirty_ok seen r"
    using assms dirty_loop_ok [OF _ init] init by (auto simp: parse_dirty_paths_def split: if_splits)
  then show "distinct (dp_paths r)" "length (dp_paths r) \<le> DIRTY_PATH_LIMIT" "p \<in> set (dp_paths r) \<Longrightarrow> \<not> unsafe_path p"
    "dp_truncated r \<Longrightarrow> length (dp_paths r) = DIRTY_PATH_LIMIT"
    by (auto simp: dirty_ok_def)
qed

section \<open>Examples\<close>

definition plain_scanner :: Scanner where
  "plain_scanner = \<lparr> sc_aws = (\<lambda>_. []), sc_captures = (\<lambda>_. []), sc_headers = (\<lambda>_. []), sc_tokens = (\<lambda>_. []),
     sc_high_entropy = (\<lambda>_. False), sc_secret_key = (\<lambda>_. False) \<rparr>"

definition demo_texts :: Texts where
  "demo_texts = \<lparr> tx_lower = map ascii_lower, tx_alphanumeric = (\<lambda>c. is_ascii_digit c \<or> 97 \<le> ascii_lower c \<and> ascii_lower c \<le> 122) \<rparr>"

definition demo_turn :: NormalizedEvent where
  "demo_turn = \<lparr> ne_event_id = Some (scalars ''e1''), ne_parent_id = None, ne_turn_id = None, ne_agent_id = None,
     ne_branch_id = None, ne_role = RoleUser, ne_kind = EvMessage, ne_timestamp_unix_ms = None,
     ne_text = scalars ''Fix the parser'', ne_tool = None \<rparr>"

definition demo_context :: NormalizedContext where
  "demo_context = \<lparr> nc_schema_version = 1, nc_harness = scalars ''codex'', nc_producer_id = None, nc_workspace_root = scalars ''/w'',
     nc_session_id = None, nc_agent_id = None, nc_branch_id = None, nc_context_epoch = None,
     nc_current_request = \<lparr> cq_event_id = None, cq_text = scalars ''ok, continue.'', cq_attachments_omitted = False,
       cq_essential_attachment_missing = False \<rparr>,
     nc_events = [demo_turn, demo_turn\<lparr>ne_agent_id := Some (scalars ''b''), ne_text := scalars ''Delete it all''\<rparr>],
     nc_explicit_skill_references = [], nc_supplied_loads = [] \<rparr>"

definition demo_anchor :: TaskAnchor where
  "demo_anchor = \<lparr> ta_text = scalars ''Fix the parser'', ta_source_event_id = Some (scalars ''e1''),
     ta_provenance = HistoricalEvent (scalars ''e1''), ta_is_terse = True, ta_directives = [] \<rparr>"

theorem task_anchor_exact_witness:
  "\<exists>txt g. redact_field plain_scanner \<lparr>rd_entropy = False\<rparr> txt = Some (Ok g) \<and> ta_text demo_anchor = rf_text g
     \<and> anchor_source demo_texts demo_context None [demo_turn] demo_anchor txt"
proof -
  have sel: "select_history demo_context = Some (Ok ([demo_turn], False))" by code_simp
  have len: "str_len (cq_text (nc_current_request demo_context)) \<le> rl_max HOOK_STDIN_BYTES" by code_simp
  have "resolve_task_anchor demo_texts plain_scanner demo_context None \<lparr>rd_entropy = False\<rparr> = Some (Established demo_anchor)"
    by code_simp
  then show ?thesis using task_anchor_exact [OF sel len, of demo_texts plain_scanner None "\<lparr>rd_entropy = False\<rparr>"] by blast
qed

end
