(* ===== verification/Context_Render.thy ===== *)
theory Context_Render
  imports Task_Anchor Disclosure Tool_Evidence
begin

text \<open>
  Model of \<open>src/src/context/render.rs\<close> with \<open>render/payload.rs\<close>, \<open>render/session.rs\<close> and
  \<open>render/labels.rs\<close>: the bounded, redacted, request-first payload sent to the provider and the receipt that
  describes it. The static regular expressions, the JSON library, the matchers of the redactor and the case
  mapping of Unicode are arguments. A shortened off a character boundary panics, which is \<open>None\<close> in the outermost
  option of the results.
\<close>

section \<open>Errors and effects\<close>

datatype RenderContextError =
    RcRedaction RedactionError | UnsupportedContext str | RcSerialization str | RcSecretsDetected usize

fun from_redaction :: "RedactionError \<Rightarrow> RenderContextError" where
  "from_redaction (SecretsDetected n) = RcSecretsDetected n"
| "from_redaction e = RcRedaction e"

type_synonym 'a rendered = "('a, RenderContextError) result option"

definition rbind :: "'a rendered \<Rightarrow> ('a \<Rightarrow> 'b rendered) \<Rightarrow> 'b rendered" where
  "rbind m f = (case m of None \<Rightarrow> None | Some (Err e) \<Rightarrow> Some (Err e) | Some (Ok a) \<Rightarrow> f a)"

definition rok :: "'a \<Rightarrow> 'a rendered" where "rok a = Some (Ok a)"

definition rerr :: "RenderContextError \<Rightarrow> 'a rendered" where "rerr e = Some (Err e)"

text \<open>A computation that panics or returns.\<close>

definition rlift :: "'a option \<Rightarrow> 'a rendered" where "rlift m = map_option Ok m"

text \<open>The replacements of the static regular expressions, with the replacement as an argument.\<close>

record Renderer =
  rn_scanner :: Scanner
  rn_json :: Json
  rn_serde :: Serde
  rn_decode :: "nat list \<Rightarrow> Value option"
  rn_thinking :: "str \<Rightarrow> str \<Rightarrow> str"
  rn_unterminated :: "str \<Rightarrow> str \<Rightarrow> str"
  rn_data_uri :: "str \<Rightarrow> str \<Rightarrow> str"
  rn_data_binary_uri :: "str \<Rightarrow> str \<Rightarrow> str"
  rn_lowercase :: "str \<Rightarrow> str"

section \<open>Cleaning text\<close>

definition IMAGE_OMISSION_MARKER :: str where "IMAGE_OMISSION_MARKER = scalars ''[image omitted]''"

definition MEDIA_OMISSION_MARKER :: str where "MEDIA_OMISSION_MARKER = scalars ''[media omitted]''"

definition ADVISORY_START :: str where "ADVISORY_START = scalars ''Suggested skill for the next step:''"

definition ADVISORY_END :: str where
  "ADVISORY_END = scalars ''Use it only if it fits the user'' @ [39] @ scalars ''s request''"

definition ADVISORY_MARKERS :: "str list" where
  "ADVISORY_MARKERS =
     [ADVISORY_START, ADVISORY_END @ scalars '' and current instructions.'', scalars ''[SkillRanker]'',
      scalars ''[sr] Suggested skill:'', scalars ''<!-- skillranker:advisory -->'', scalars ''SkillRanker suggestion:'']"

definition strip_thinking_blocks :: "Renderer \<Rightarrow> str \<Rightarrow> str" where
  "strip_thinking_blocks R t = trim_str (rn_unterminated R (rn_thinking R t []) [])"

definition sanitize_media_data :: "Renderer \<Rightarrow> str \<Rightarrow> str" where
  "sanitize_media_data R t = rn_data_binary_uri R (rn_data_uri R t IMAGE_OMISSION_MARKER) MEDIA_OMISSION_MARKER"

definition is_sr_advisory_text :: "str \<Rightarrow> bool" where
  "is_sr_advisory_text t = list_ex (contains_str t) ADVISORY_MARKERS"

fun advisory_loop :: "bool \<Rightarrow> str list \<Rightarrow> str list" where
  "advisory_loop skipping [] = []"
| "advisory_loop skipping (l # ls) =
     (if is_sr_advisory_text l then
        (if contains_str l ADVISORY_START then advisory_loop True ls else advisory_loop skipping ls)
      else if skipping then
        (if contains_str l ADVISORY_END then advisory_loop False ls
         else if trim_str l = [] then advisory_loop True ls
         else l # advisory_loop False ls)
      else l # advisory_loop False ls)"

definition strip_advisory_from_non_user :: "Role \<Rightarrow> str \<Rightarrow> str" where
  "strip_advisory_from_non_user role t =
     (if role = RoleUser then t else trim_str (join_words [10] (advisory_loop False (str_lines t))))"

definition language_of :: "str \<Rightarrow> str option" where
  "language_of name =
     (if name = scalars ''Cargo.toml'' then Some (scalars ''rust'')
      else if name = scalars ''lakefile.lean'' \<or> name = scalars ''lakefile.toml'' then Some (scalars ''lean'')
      else if name = scalars ''go.mod'' then Some (scalars ''go'')
      else if name = scalars ''package.json'' then Some (scalars ''javascript'')
      else if name = scalars ''pyproject.toml'' then Some (scalars ''python'')
      else if name = scalars ''Makefile'' then Some (scalars ''make'')
      else if name = scalars ''CMakeLists.txt'' then Some (scalars ''cmake'')
      else if name = scalars ''Gemfile'' then Some (scalars ''ruby'')
      else if name = scalars ''pom.xml'' \<or> name = scalars ''build.gradle'' \<or> name = scalars ''build.gradle.kts''
        then Some (scalars ''java'')
      else None)"

definition detect_languages_from_markers :: "str list \<Rightarrow> str list" where
  "detect_languages_from_markers filenames = sorted_list_of_set (set (List.map_filter language_of filenames))"

section \<open>Options\<close>

record ProjectSignals =
  ps_filenames :: "str list"
  ps_tools_on_path :: "str list"
  ps_dirty_paths :: "DirtyPaths option"
  ps_git_omission :: "Omission option"
  ps_inventory_partial :: bool

definition RECENT_NORMALIZED_MESSAGES :: ResourceLimit where
  "RECENT_NORMALIZED_MESSAGES = new_const ''recent_normalized_messages'' Items 12"

definition RENDERED_CONTEXT_SCALARS :: ResourceLimit where
  "RENDERED_CONTEXT_SCALARS = new_const ''rendered_context'' UnicodeScalars 12000"

definition NORMALIZED_CONTEXT_JSON_BYTES :: ResourceLimit where
  "NORMALIZED_CONTEXT_JSON_BYTES = new_const ''normalized_context_json'' Bytes MIB"

record RenderContextOptions =
  op_no_tools :: bool
  op_context_profile :: ContextProfile
  op_max_messages :: usize
  op_max_total_scalars :: usize
  op_tool_excerpt_chars :: usize
  op_redactor :: Redactor
  op_project_signals :: "ProjectSignals option"
  op_loaded_references :: "RenderedLoadedReference list"
  op_loaded_state :: str
  op_explicit_exclusions :: "str list"
  op_fail_on_unsupported_context :: bool
  op_essential_tool_missing :: bool

definition options_default :: "Redactor \<Rightarrow> RenderContextOptions" where
  "options_default redactor =
     \<lparr> op_no_tools = False, op_context_profile = Standard, op_max_messages = rl_max RECENT_NORMALIZED_MESSAGES,
       op_max_total_scalars = rl_max RENDERED_CONTEXT_SCALARS, op_tool_excerpt_chars = DEFAULT_TOOL_EXCERPT_CHARS,
       op_redactor = redactor, op_project_signals = None, op_loaded_references = [], op_loaded_state = scalars ''observed'',
       op_explicit_exclusions = [], op_fail_on_unsupported_context = False, op_essential_tool_missing = False \<rparr>"

definition redacted :: "Renderer \<Rightarrow> RenderContextOptions \<Rightarrow> str \<Rightarrow> RedactedField rendered" where
  "redacted R opts t =
     map_option (\<lambda>r. case r of Ok f \<Rightarrow> Ok f | Err e \<Rightarrow> Err (from_redaction e)) (redact_field (rn_scanner R) (op_redactor opts) t)"

definition inspected :: "Renderer \<Rightarrow> RenderContextOptions \<Rightarrow> nat list \<Rightarrow> unit rendered" where
  "inspected R opts bytes =
     map_option (\<lambda>r. case r of Ok _ \<Rightarrow> Ok () | Err e \<Rightarrow> Err (from_redaction e))
       (inspect_payload (rn_scanner R) (op_redactor opts) (rn_decode R) bytes)"

section \<open>Candidate messages\<close>

fun status_word :: "ToolStatus \<Rightarrow> str" where
  "status_word ToolSucceeded = scalars ''succeeded''"
| "status_word ToolFailed = scalars ''failed''"
| "status_word ToolAttempted = scalars ''attempted''"
| "status_word ToolUnknown = scalars ''unknown''"

text \<open>A part of a tool summary: its text, its redactions, and whether it was truncated.\<close>

type_synonym summary_part = "str \<times> usize \<times> usize"

definition arguments_summary :: "Renderer \<Rightarrow> RenderContextOptions \<Rightarrow> str \<Rightarrow> summary_part rendered" where
  "arguments_summary R opts args =
     (let limit = op_tool_excerpt_chars opts div 2;
          allowlisted = allowlist_tool_arguments (js_from_str (rn_json R)) (js_to_text (rn_json R)) args in
      rbind (redacted R opts allowlisted) (\<lambda>f.
      rbind (rlift (head_tail_truncate (rf_text f) limit)) (\<lambda>s.
        rok (s, rf_redactions f, if length (rf_text f) > limit then 1 else 0))))"

definition result_summary :: "Renderer \<Rightarrow> RenderContextOptions \<Rightarrow> str \<Rightarrow> summary_part rendered" where
  "result_summary R opts res =
     rbind (redacted R opts (sanitize_media_data R res)) (\<lambda>f.
     rbind (rlift (summarize_tool_result (rf_text f) (op_tool_excerpt_chars opts))) (\<lambda>(s, _).
       rok (s, rf_redactions f, if length (rf_text f) > op_tool_excerpt_chars opts then 1 else 0)))"

definition optional_part :: "('a \<Rightarrow> summary_part rendered) \<Rightarrow> 'a option \<Rightarrow> summary_part rendered" where
  "optional_part f v = (case v of None \<Rightarrow> rok ([], 0, 0) | Some x \<Rightarrow> f x)"

text \<open>The message of a tool event, with its redactions and truncations.\<close>

definition tool_message :: "Renderer \<Rightarrow> RenderContextOptions \<Rightarrow> ToolEvent \<Rightarrow> (RenderedMessage \<times> usize \<times> usize) rendered" where
  "tool_message R opts t =
     rbind (optional_part (arguments_summary R opts) (te_arguments t)) (\<lambda>(a, a_red, a_tr).
     rbind (optional_part (result_summary R opts) (te_result t)) (\<lambda>(s, s_red, s_tr).
       let parts = (if a \<noteq> [] \<and> a \<noteq> scalars ''{}'' then [a] else []) @ (if s \<noteq> [] then [s] else []) in
       rok (\<lparr> rm_role = tool_role, rm_tool = Some (te_name t), rm_status = Some (status_word (te_status t)),
              rm_summary = (if parts = [] then None else Some (join_words (scalars '': '') parts)), rm_text = None \<rparr>,
            a_red + s_red, a_tr + s_tr)))"

fun role_word :: "Role \<Rightarrow> str" where
  "role_word RoleUser = scalars ''user''"
| "role_word RoleAssistant = scalars ''assistant''"
| "role_word RoleTool = tool_role"
| "role_word RoleSystem = scalars ''system''"

text \<open>The message of a conversation event, if any text is left, and its redactions.\<close>

definition text_message :: "Renderer \<Rightarrow> RenderContextOptions \<Rightarrow> NormalizedEvent \<Rightarrow> (RenderedMessage option \<times> usize) rendered" where
  "text_message R opts e =
     (let cleaned = (if ne_role e \<noteq> RoleUser
            then strip_advisory_from_non_user (ne_role e) (strip_thinking_blocks R (ne_text e)) else ne_text e);
          media_clean = sanitize_media_data R cleaned in
      if media_clean = [] then rok (None, 0)
      else
        rbind (redacted R opts media_clean) (\<lambda>f.
          rok (if rf_text f = [] then None
               else Some \<lparr> rm_role = role_word (ne_role e), rm_tool = None, rm_status = None, rm_summary = None,
                           rm_text = Some (rf_text f) \<rparr>,
               rf_redactions f)))"

record Gathered =
  ga_candidates :: "RenderedMessage list"
  ga_history_redactions :: usize
  ga_tool_redactions :: usize
  ga_tool_truncations :: usize

definition is_current_event :: "NormalizedContext \<Rightarrow> NormalizedEvent \<Rightarrow> bool" where
  "is_current_event c e \<longleftrightarrow> ne_event_id e \<noteq> None \<and> ne_event_id e = cq_event_id (nc_current_request c)"

definition is_tool_kind :: "EventKind \<Rightarrow> bool" where
  "is_tool_kind k \<longleftrightarrow> k = ToolInvocation \<or> k = ToolResult"

definition gather_event :: "Renderer \<Rightarrow> RenderContextOptions \<Rightarrow> NormalizedContext \<Rightarrow> NormalizedEvent \<Rightarrow> Gathered \<Rightarrow> Gathered rendered" where
  "gather_event R opts c e g =
     (if is_current_event c e then rok g
      else if is_tool_kind (ne_kind e) then
        (if op_no_tools opts then rok g
         else case ne_tool e of
             None \<Rightarrow> rok g
           | Some t \<Rightarrow>
               rbind (tool_message R opts t) (\<lambda>(msg, red, tr).
                 rok (g\<lparr>ga_candidates := ga_candidates g @ [msg], ga_tool_redactions := ga_tool_redactions g + red,
                        ga_tool_truncations := ga_tool_truncations g + tr\<rparr>)))
      else if ne_kind e = EvMessage then
        (if ne_role e = RoleTool \<and> op_no_tools opts then rok g
         else rbind (text_message R opts e) (\<lambda>(msg, red).
           rok (g\<lparr>ga_candidates := ga_candidates g @ (case msg of None \<Rightarrow> [] | Some x \<Rightarrow> [x]),
                  ga_history_redactions := ga_history_redactions g + red\<rparr>)))
      else rok g)"

fun gather_loop :: "Renderer \<Rightarrow> RenderContextOptions \<Rightarrow> NormalizedContext \<Rightarrow> NormalizedEvent list \<Rightarrow> Gathered \<Rightarrow> Gathered rendered" where
  "gather_loop R opts c [] g = rok g"
| "gather_loop R opts c (e # es) g = rbind (gather_event R opts c e g) (gather_loop R opts c es)"

section \<open>The scalar budget\<close>

record Selected =
  se_messages :: "RenderedMessage list"
  se_stopped :: bool
  se_history_truncations :: usize
  se_tool_truncations :: usize

text \<open>Newest first; the first message that does not fit is shortened or dropped, and ends the history.\<close>

fun budget_loop :: "RenderedMessage list \<Rightarrow> usize \<Rightarrow> RenderedMessage list \<Rightarrow> Selected option" where
  "budget_loop [] left selected = Some \<lparr> se_messages = selected, se_stopped = False, se_history_truncations = 0, se_tool_truncations = 0 \<rparr>"
| "budget_loop (m # ms) left selected =
     (if message_scalars m \<le> left then budget_loop ms (left - message_scalars m) (selected @ [m])
      else
        let overhead = opt_len (rm_tool m) + opt_len (rm_status m);
            stop = \<lparr> se_messages = selected, se_stopped = True, se_history_truncations = 0, se_tool_truncations = 0 \<rparr> in
        if left \<ge> overhead + 30 then
          (case rm_text m of
             Some t \<Rightarrow> map_option (\<lambda>s. stop\<lparr>se_messages := selected @ [m\<lparr>rm_text := Some s\<rparr>], se_history_truncations := 1\<rparr>)
                         (head_tail_truncate t (left - overhead))
           | None \<Rightarrow>
               (case rm_summary m of
                  Some t \<Rightarrow> map_option (\<lambda>s. stop\<lparr>se_messages := selected @ [m\<lparr>rm_summary := Some s\<rparr>], se_tool_truncations := 1\<rparr>)
                              (head_tail_truncate t (left - overhead))
                | None \<Rightarrow> Some stop))
        else Some stop)"

section \<open>Project signals\<close>

fun redact_paths :: "Renderer \<Rightarrow> RenderContextOptions \<Rightarrow> str list \<Rightarrow> (str list \<times> usize) rendered" where
  "redact_paths R opts [] = rok ([], 0)"
| "redact_paths R opts (p # ps) =
     rbind (redacted R opts p) (\<lambda>f. rbind (redact_paths R opts ps) (\<lambda>(rest, n). rok (rf_text f # rest, rf_redactions f + n)))"

text \<open>The signals, their redactions and the number of dirty paths left out.\<close>

definition render_signals :: "Renderer \<Rightarrow> RenderContextOptions \<Rightarrow> (RenderedProjectSignals \<times> usize \<times> usize) rendered" where
  "render_signals R opts =
     (case op_project_signals opts of
        None \<Rightarrow> rok (\<lparr> rp_languages = [], rp_tools_on_path = [], rp_dirty_paths = [], rp_dirty_paths_truncated = False \<rparr>, 0, 0)
      | Some signals \<Rightarrow>
          (let make = (\<lambda>paths truncated. \<lparr> rp_languages = detect_languages_from_markers (ps_filenames signals),
                 rp_tools_on_path = ps_tools_on_path signals, rp_dirty_paths = paths, rp_dirty_paths_truncated = truncated \<rparr>) in
           case ps_dirty_paths signals of
             None \<Rightarrow> rok (make [] False, 0, 0)
           | Some dp \<Rightarrow>
               if op_context_profile opts = Minimal then rok (make [] False, 0, length (dp_paths dp))
               else rbind (redact_paths R opts (dp_paths dp)) (\<lambda>(paths, n). rok (make paths (dp_truncated dp), n, 0))))"

section \<open>The payload renderer\<close>

text \<open>\<open>category_counts\<close> and the counting loop of the payload renderer: messages, then tool events.\<close>

fun category_counts :: "NormalizedEvent list \<Rightarrow> usize \<times> usize" where
  "category_counts [] = (0, 0)"
| "category_counts (e # es) =
     (let (messages, tools) = category_counts es in
      if is_tool_kind (ne_kind e) then (messages, tools + 1)
      else if ne_kind e = EvMessage then (if ne_role e = RoleTool then (messages, tools + 1) else (messages + 1, tools))
      else (messages, tools))"

definition essential_missing :: "Renderer \<Rightarrow> NormalizedContext \<Rightarrow> RenderContextOptions \<Rightarrow> bool" where
  "essential_missing R c opts =
     (let tool_bodies_omitted = op_no_tools opts \<or> op_context_profile opts = Minimal;
          had_tool_events = list_ex (\<lambda>e. is_tool_kind (ne_kind e)) (nc_events c);
          essential_tool_indicated = op_essential_tool_missing opts
            \<or> had_tool_events \<and> is_essential_tool_reference (rn_lowercase R) (cq_text (nc_current_request c)) in
      cq_essential_attachment_missing (nc_current_request c) \<or> essential_tool_indicated \<and> tool_bodies_omitted)"

definition missing_reason :: "NormalizedContext \<Rightarrow> str" where
  "missing_reason c =
     (if cq_essential_attachment_missing (nc_current_request c) then scalars ''request meaning depends on omitted attachment''
      else scalars ''request meaning depends on omitted tool result'')"

text \<open>The text of the request, whether it was truncated, and the budget that is left.\<close>

definition fit_request :: "RenderContextOptions \<Rightarrow> str \<Rightarrow> (str \<times> bool \<times> usize) rendered" where
  "fit_request opts t =
     (if length t > op_max_total_scalars opts
      then rbind (rlift (head_tail_truncate t (op_max_total_scalars opts))) (\<lambda>s. rok (s, True, 0))
      else rok (t, False, op_max_total_scalars opts - length t))"

definition gathered :: "Renderer \<Rightarrow> RenderContextOptions \<Rightarrow> NormalizedContext \<Rightarrow> Gathered rendered" where
  "gathered R opts c =
     (let start = \<lparr> ga_candidates = [], ga_history_redactions = 0, ga_tool_redactions = 0, ga_tool_truncations = 0 \<rparr> in
      if op_context_profile opts \<noteq> Minimal then gather_loop R opts c (nc_events c) start else rok start)"

definition cut_to_window :: "RenderContextOptions \<Rightarrow> RenderedMessage list \<Rightarrow> RenderedMessage list" where
  "cut_to_window opts candidates = drop (length candidates - op_max_messages opts) candidates"

definition quality_of :: "bool \<Rightarrow> bool \<Rightarrow> RenderedMessage list \<Rightarrow> NormalizedEvent list \<Rightarrow> ContextQuality" where
  "quality_of missing truncated selected events =
     (if missing then Insufficient
      else if truncated then Partial
      else if selected = [] \<and> events = [] then PromptOnly
      else Complete)"

definition session_of :: "RenderContextOptions \<Rightarrow> RenderedSessionState" where
  "session_of opts = \<lparr> rt_loaded_references = op_loaded_references opts, rt_loaded_state = op_loaded_state opts,
     rt_explicit_exclusions = op_explicit_exclusions opts \<rparr>"

text \<open>Totals of the receipt are sums over its categories.\<close>

definition with_totals :: "DisclosureReceipt \<Rightarrow> DisclosureReceipt" where
  "with_totals r = r\<lparr> dr_total_included := sum_list (map cg_included (dr_categories r)),
     dr_total_omitted := sum_list (map cg_omitted (dr_categories r)),
     dr_total_truncated := sum_list (map cg_truncated (dr_categories r)),
     dr_total_redactions := sum_list (map cg_redactions (dr_categories r)) \<rparr>"

definition category_receipt :: "SourceCategory \<Rightarrow> usize \<Rightarrow> usize \<Rightarrow> usize \<Rightarrow> usize \<Rightarrow> CategoryReceipt" where
  "category_receipt c included omitted truncated redactions =
     \<lparr> cg_category = c, cg_included = included, cg_omitted = omitted, cg_truncated = truncated, cg_redactions = redactions \<rparr>"

definition payload_receipt ::
  "Serde \<Rightarrow> RenderContextOptions \<Rightarrow> NormalizedContext \<Rightarrow> RenderedContextPayload \<Rightarrow> bool \<Rightarrow> usize \<Rightarrow> Gathered \<Rightarrow> Selected
     \<Rightarrow> usize \<Rightarrow> usize \<Rightarrow> DisclosureReceipt" where
  "payload_receipt S opts c p req_truncated req_redactions g sel sig_redactions sig_omitted =
     (let (seen_messages, seen_tools) = category_counts (filter (\<lambda>e. \<not> is_current_event c e) (nc_events c));
          messages_included = payload_items p MessageHistory;
          tools_included = payload_items p ToolEvents in
      with_totals
        \<lparr> dr_schema_version = 1, dr_context_profile = op_context_profile opts, dr_context_quality = rc_context_quality p,
          dr_no_tools = op_no_tools opts,
          dr_categories =
            [category_receipt UserRequest (payload_items p UserRequest)
               (if cq_essential_attachment_missing (nc_current_request c) then 1 else 0) (if req_truncated then 1 else 0) req_redactions,
             category_receipt MessageHistory messages_included (seen_messages - messages_included)
               (se_history_truncations sel) (ga_history_redactions g),
             category_receipt ToolEvents tools_included (seen_tools - tools_included)
               (ga_tool_truncations g + se_tool_truncations sel) (ga_tool_redactions g),
             category_receipt ProjectSignalsCategory (payload_items p ProjectSignalsCategory) sig_omitted
               (if rp_dirty_paths_truncated (rc_project_signals p) then 1 else 0) sig_redactions,
             category_receipt SessionStateCategory (payload_items p SessionStateCategory) 0 0 0],
          dr_total_included = 0, dr_total_omitted = 0, dr_total_truncated = 0, dr_total_redactions = 0,
          dr_disclosed_bytes = disclosed_bytes S p, dr_disclosed_scalars = total_message_scalars p \<rparr>)"

definition payload_bytes :: "Renderer \<Rightarrow> RenderedContextPayload \<Rightarrow> nat list" where
  "payload_bytes R p = sd_render (rn_serde R) (payload_value p)"

definition assemble_payload ::
  "RenderContextOptions \<Rightarrow> NormalizedContext \<Rightarrow> ContextQuality \<Rightarrow> RenderedProjectSignals \<Rightarrow> RenderedMessage list \<Rightarrow> str
     \<Rightarrow> RenderedContextPayload" where
  "assemble_payload opts c quality signals messages req =
     \<lparr> rc_schema_version = 1, rc_context_profile = op_context_profile opts, rc_harness = nc_harness c,
       rc_context_quality = quality, rc_project_signals = signals, rc_session_state = session_of opts,
       rc_recent_messages = messages, rc_latest_user_request = req \<rparr>"

definition payload_render ::
  "Renderer \<Rightarrow> NormalizedContext \<Rightarrow> RenderContextOptions \<Rightarrow> (RenderedContextPayload \<times> DisclosureReceipt) rendered" where
  "payload_render R c opts =
     (let missing = essential_missing R c opts in
      if missing \<and> op_fail_on_unsupported_context opts then rerr (UnsupportedContext (missing_reason c))
      else
        rbind (redacted R opts (sanitize_media_data R (cq_text (nc_current_request c)))) (\<lambda>f.
        rbind (fit_request opts (rf_text f)) (\<lambda>(req, req_truncated, budget).
        rbind (gathered R opts c) (\<lambda>g.
        let kept = cut_to_window opts (ga_candidates g);
            windowed = length (ga_candidates g) > op_max_messages opts in
        rbind (rlift (budget_loop (rev kept) budget [])) (\<lambda>sel.
        let messages = rev (se_messages sel);
            quality = quality_of missing (req_truncated \<or> windowed \<or> se_stopped sel) messages (nc_events c) in
        rbind (render_signals R opts) (\<lambda>(signals, sig_redactions, sig_omitted).
        let p = assemble_payload opts c quality signals messages req in
        rbind (inspected R opts (payload_bytes R p)) (\<lambda>_.
          rok (p, payload_receipt (rn_serde R) opts c p req_truncated (rf_redactions f) g sel sig_redactions sig_omitted))))))))"

section \<open>Session state\<close>

definition SESSION_STATE_SCALARS :: usize where "SESSION_STATE_SCALARS = 4096"

definition SESSION_REFERENCE_SUMMARY_SCALARS :: usize where "SESSION_REFERENCE_SUMMARY_SCALARS = 700"

definition SESSION_REFERENCE_RECORDS :: usize where "SESSION_REFERENCE_RECORDS = 32"

definition session_too_large :: RenderContextError where
  "session_too_large = UnsupportedContext (scalars ''Session state exceeds its input bound'')"

definition constraints_too_large :: RenderContextError where
  "constraints_too_large = UnsupportedContext (scalars ''Session constraints exceed the bounded context allowance'')"

text \<open>The preflight: the sum of the lengths so far is refused as soon as it passes the bound.\<close>

fun check_lengths :: "str list \<Rightarrow> usize \<Rightarrow> unit rendered" where
  "check_lengths [] sofar = rok ()"
| "check_lengths (f # fs) sofar =
     (case checked_add64 sofar (str_len f) of
        None \<Rightarrow> rerr session_too_large
      | Some n \<Rightarrow> if n > rl_max NORMALIZED_CONTEXT_JSON_BYTES then rerr session_too_large else check_lengths fs n)"

definition check_input :: "RenderContextOptions \<Rightarrow> unit rendered" where
  "check_input opts =
     (case checked_add64 (length (op_loaded_references opts)) (length (op_explicit_exclusions opts)) of
        None \<Rightarrow> rerr session_too_large
      | Some n \<Rightarrow>
          if n > rl_max DISCOVERY_FILES then rerr session_too_large
          else check_lengths (op_loaded_state opts # op_explicit_exclusions opts
                 @ concat (map (\<lambda>r. [rl_name r, rl_summary r]) (op_loaded_references opts))) 0)"

definition redact_media :: "Renderer \<Rightarrow> RenderContextOptions \<Rightarrow> str \<Rightarrow> (str \<times> usize) rendered" where
  "redact_media R opts t = rbind (redacted R opts (sanitize_media_data R t)) (\<lambda>f. rok (rf_text f, rf_redactions f))"

text \<open>The exclusions, redacted whole, what is left of the allowance, and the redactions.\<close>

fun prepare_exclusions :: "Renderer \<Rightarrow> RenderContextOptions \<Rightarrow> str list \<Rightarrow> usize \<Rightarrow> (str list \<times> usize \<times> usize) rendered" where
  "prepare_exclusions R opts [] remaining = rok ([], remaining, 0)"
| "prepare_exclusions R opts (x # xs) remaining =
     rbind (redact_media R opts x) (\<lambda>(t, n).
       if length t > remaining then rerr constraints_too_large
       else rbind (prepare_exclusions R opts xs (remaining - length t)) (\<lambda>(ts, left, m). rok (t # ts, left, n + m)))"

record Prepared =
  pr_references :: "RenderedLoadedReference list"
  pr_remaining :: usize
  pr_redactions :: usize
  pr_truncated :: usize

definition prepare_reference :: "Renderer \<Rightarrow> RenderContextOptions \<Rightarrow> RenderedLoadedReference \<Rightarrow> Prepared \<Rightarrow> Prepared rendered" where
  "prepare_reference R opts r st =
     (if length (pr_references st) = SESSION_REFERENCE_RECORDS \<or> pr_remaining st = 0 then rok st
      else
        rbind (redact_media R opts (rl_name r)) (\<lambda>(name, n).
        let st1 = st\<lparr>pr_redactions := pr_redactions st + n\<rparr>; size = length name in
        if name = [] \<or> size > pr_remaining st then rok st1
        else
          rbind (redact_media R opts (rl_summary r)) (\<lambda>(summary, k).
          let allowance = min (pr_remaining st - size) SESSION_REFERENCE_SUMMARY_SCALARS;
              truncated = (length summary > allowance) in
          rbind (if truncated then rlift (head_tail_truncate summary allowance) else rok summary) (\<lambda>s.
            rok (st1\<lparr> pr_redactions := pr_redactions st1 + k,
                      pr_remaining := pr_remaining st - (size + length s),
                      pr_references := pr_references st @ [\<lparr> rl_name = name, rl_summary = s \<rparr>],
                      pr_truncated := pr_truncated st + (if truncated then 1 else 0) \<rparr>)))))"

fun prepare_references :: "Renderer \<Rightarrow> RenderContextOptions \<Rightarrow> RenderedLoadedReference list \<Rightarrow> Prepared \<Rightarrow> Prepared rendered" where
  "prepare_references R opts [] st = rok st"
| "prepare_references R opts (r # rs) st = rbind (prepare_reference R opts r st) (prepare_references R opts rs)"

definition prepare_session :: "Renderer \<Rightarrow> RenderContextOptions \<Rightarrow> (RenderContextOptions \<times> CategoryReceipt) rendered" where
  "prepare_session R opts =
     rbind (check_input opts) (\<lambda>_.
     rbind (redact_media R opts (op_loaded_state opts)) (\<lambda>(state, n).
     if length state > SESSION_STATE_SCALARS then rerr constraints_too_large
     else
       rbind (prepare_exclusions R opts (op_explicit_exclusions opts) (SESSION_STATE_SCALARS - length state)) (\<lambda>(exclusions, remaining, m).
       rbind (prepare_references R opts (op_loaded_references opts)
           \<lparr> pr_references = [], pr_remaining = remaining, pr_redactions = n + m, pr_truncated = 0 \<rparr>) (\<lambda>st.
         rok (opts\<lparr> op_loaded_references := pr_references st, op_loaded_state := state, op_explicit_exclusions := exclusions \<rparr>,
              category_receipt SessionStateCategory (length (pr_references st) + length exclusions)
                (length (op_loaded_references opts) - length (pr_references st)) (pr_truncated st) (pr_redactions st))))))"

section \<open>Tool labels\<close>

definition TOOL_LABEL_SCALARS :: usize where "TOOL_LABEL_SCALARS = 128"

record LabelReceipt =
  lb_redactions :: usize
  lb_truncated :: usize

definition labels_too_large :: RenderContextError where
  "labels_too_large = UnsupportedContext (scalars ''Tool labels exceed their input bound'')"

definition prepare_label :: "Renderer \<Rightarrow> RenderContextOptions \<Rightarrow> str \<Rightarrow> (str \<times> usize \<times> usize) rendered" where
  "prepare_label R opts name =
     rbind (redact_media R opts name) (\<lambda>(label, n).
       if length label > TOOL_LABEL_SCALARS
       then rbind (rlift (head_tail_truncate label TOOL_LABEL_SCALARS)) (\<lambda>s. rok (s, n, 1))
       else rok (label, n, 0))"

fun labels_loop :: "Renderer \<Rightarrow> RenderContextOptions \<Rightarrow> NormalizedEvent list \<Rightarrow> usize \<Rightarrow> (NormalizedEvent list \<times> LabelReceipt) rendered" where
  "labels_loop R opts [] bytes = rok ([], \<lparr> lb_redactions = 0, lb_truncated = 0 \<rparr>)"
| "labels_loop R opts (e # es) bytes =
     (case (if is_tool_kind (ne_kind e) then ne_tool e else None) of
        None \<Rightarrow> rbind (labels_loop R opts es bytes) (\<lambda>(rest, r). rok (e # rest, r))
      | Some tool \<Rightarrow>
          (case checked_add64 bytes (str_len (te_name tool)) of
             None \<Rightarrow> rerr labels_too_large
           | Some n \<Rightarrow>
               if n > rl_max NORMALIZED_CONTEXT_JSON_BYTES then rerr labels_too_large
               else
                 rbind (prepare_label R opts (te_name tool)) (\<lambda>(label, red, tr).
                 rbind (labels_loop R opts es n) (\<lambda>(rest, r).
                   rok (e\<lparr>ne_tool := Some (tool\<lparr>te_name := label\<rparr>)\<rparr> # rest,
                        \<lparr> lb_redactions = red + lb_redactions r, lb_truncated = tr + lb_truncated r \<rparr>)))))"

definition prepare_labels :: "Renderer \<Rightarrow> NormalizedContext \<Rightarrow> RenderContextOptions \<Rightarrow> (NormalizedContext \<times> LabelReceipt) rendered" where
  "prepare_labels R c opts =
     (if op_no_tools opts \<or> op_context_profile opts = Minimal then rok (c, \<lparr> lb_redactions = 0, lb_truncated = 0 \<rparr>)
      else rbind (labels_loop R opts (nc_events c) 0) (\<lambda>(events, r). rok (c\<lparr>nc_events := events\<rparr>, r)))"

section \<open>The public renderer\<close>

definition is_request_event :: "NormalizedContext \<Rightarrow> NormalizedEvent \<Rightarrow> bool" where
  "is_request_event c e \<longleftrightarrow> cq_event_id (nc_current_request c) \<noteq> None \<and> ne_event_id e = cq_event_id (nc_current_request c)
     \<and> ne_agent_id e = nc_agent_id c \<and> ne_branch_id e = nc_branch_id c"

text \<open>The envelope with the selected history, whether that is incomplete, and the events left out by category.\<close>

definition project :: "NormalizedContext \<Rightarrow> (NormalizedContext \<times> bool \<times> usize \<times> usize) rendered" where
  "project c =
     (case select_history c of
        None \<Rightarrow> None
      | Some (Err reason) \<Rightarrow> rerr (UnsupportedContext reason)
      | Some (Ok (events, incomplete)) \<Rightarrow>
          (let (selected_messages, selected_tools) = category_counts events;
               (original_messages, original_tools) = category_counts (filter (\<lambda>e. \<not> is_request_event c e) (nc_events c)) in
           rok (c\<lparr>nc_events := events\<rparr>, incomplete, original_messages - selected_messages, original_tools - selected_tools)))"

definition finalize :: "Renderer \<Rightarrow> RenderContextOptions \<Rightarrow> RenderedContextPayload \<Rightarrow> bool \<Rightarrow> (RenderedContextPayload \<times> usize) rendered" where
  "finalize R opts p incomplete =
     (let p' = (if incomplete \<and> rc_context_quality p \<noteq> Insufficient then p\<lparr>rc_context_quality := Partial\<rparr> else p);
          bytes = payload_bytes R p' in
      rbind (inspected R opts bytes) (\<lambda>_. rok (p', length bytes)))"

definition revise_category :: "CategoryReceipt \<Rightarrow> LabelReceipt \<Rightarrow> usize \<Rightarrow> usize \<Rightarrow> CategoryReceipt \<Rightarrow> CategoryReceipt" where
  "revise_category session labels omitted_messages omitted_tools c =
     (case cg_category c of
        SessionStateCategory \<Rightarrow> session
      | ToolEvents \<Rightarrow> c\<lparr> cg_redactions := cg_redactions c + lb_redactions labels, cg_truncated := cg_truncated c + lb_truncated labels,
                         cg_omitted := cg_omitted c + omitted_tools \<rparr>
      | MessageHistory \<Rightarrow> c\<lparr> cg_omitted := cg_omitted c + omitted_messages \<rparr>
      | _ \<Rightarrow> c)"

definition incomplete_of :: "bool \<Rightarrow> CategoryReceipt \<Rightarrow> LabelReceipt \<Rightarrow> bool" where
  "incomplete_of incomplete session labels \<longleftrightarrow>
     incomplete \<or> cg_omitted session \<noteq> 0 \<or> cg_truncated session \<noteq> 0 \<or> lb_truncated labels \<noteq> 0"

definition render_context_and_receipt ::
  "Renderer \<Rightarrow> NormalizedContext \<Rightarrow> RenderContextOptions \<Rightarrow> (RenderedContextPayload \<times> DisclosureReceipt) rendered" where
  "render_context_and_receipt R context0 opts =
     rbind (project context0) (\<lambda>(projected, incomplete, omitted_messages, omitted_tools).
     rbind (prepare_labels R projected opts) (\<lambda>(c, labels).
     rbind (prepare_session R opts) (\<lambda>(prepared, session).
     rbind (payload_render R c prepared) (\<lambda>(rendered, receipt).
     rbind (finalize R opts rendered (incomplete_of incomplete session labels)) (\<lambda>(final, bytes).
       rok (final, with_totals (receipt\<lparr> dr_disclosed_bytes := bytes, dr_context_quality := rc_context_quality final,
         dr_categories := map (revise_category session labels omitted_messages omitted_tools) (dr_categories receipt) \<rparr>)))))))"

definition render_context :: "Renderer \<Rightarrow> NormalizedContext \<Rightarrow> RenderContextOptions \<Rightarrow> RenderedContextPayload rendered" where
  "render_context R context0 opts =
     rbind (project context0) (\<lambda>(projected, incomplete, _, _).
     rbind (prepare_labels R projected opts) (\<lambda>(c, labels).
     rbind (prepare_session R opts) (\<lambda>(prepared, session).
     rbind (payload_render R c prepared) (\<lambda>(rendered, _).
     rbind (finalize R opts rendered (incomplete_of incomplete session labels)) (\<lambda>(final, _). rok final)))))"

section \<open>Reading results\<close>

named_theorems render_simps \<open>successful results of the renderer's steps\<close>

lemma rbind_Ok [render_simps]: "rbind m f = Some (Ok b) \<longleftrightarrow> (\<exists>a. m = Some (Ok a) \<and> f a = Some (Ok b))"
  by (cases m) (auto simp: rbind_def split: result.splits)

lemma rlift_Ok [render_simps]: "rlift m = Some (Ok a) \<longleftrightarrow> m = Some a"
  by (auto simp: rlift_def)

lemma rok_Ok [render_simps]: "rok a = Some (Ok b) \<longleftrightarrow> a = b"
  by (simp add: rok_def)

lemma rerr_Ok [render_simps]: "rerr e \<noteq> Some (Ok b)"
  by (simp add: rerr_def)

section \<open>Candidates\<close>

definition message_ok :: "RenderContextOptions \<Rightarrow> RenderedMessage \<Rightarrow> bool" where
  "message_ok opts m \<longleftrightarrow> (rm_text m = None \<or> rm_summary m = None)
     \<and> (op_no_tools opts \<longrightarrow> rm_role m \<noteq> tool_role \<and> rm_tool m = None \<and> rm_status m = None \<and> rm_summary m = None)"

lemma role_word_tool: "role_word role = tool_role \<longleftrightarrow> role = RoleTool"
  by (cases role) (simp_all add: tool_role_def scalars_def)

lemma tool_message_ok:
  "tool_message R opts t = Some (Ok (m, red, tr)) \<Longrightarrow> rm_text m = None"
  by (auto simp: tool_message_def Let_def render_simps split: prod.splits)

lemma text_message_ok:
  assumes "text_message R opts e = Some (Ok (Some m, red))" "\<not> (ne_role e = RoleTool \<and> op_no_tools opts)"
  shows "message_ok opts m"
proof -
  obtain t where "m = \<lparr> rm_role = role_word (ne_role e), rm_tool = None, rm_status = None, rm_summary = None, rm_text = Some t \<rparr>"
    using assms(1) by (auto simp: text_message_def Let_def rbind_Ok rok_Ok split: if_split_asm)
  then show ?thesis using assms(2) role_word_tool [of "ne_role e"] by (auto simp: message_ok_def)
qed

lemma gather_event_ok:
  assumes "gather_event R opts c e g = Some (Ok g')" "\<forall>m \<in> set (ga_candidates g). message_ok opts m"
  shows "\<forall>m \<in> set (ga_candidates g'). message_ok opts m"
proof (cases "\<not> is_current_event c e \<and> \<not> is_tool_kind (ne_kind e) \<and> ne_kind e = EvMessage \<and> \<not> (ne_role e = RoleTool \<and> op_no_tools opts)")
  case True
  then have "rbind (text_message R opts e) (\<lambda>(msg, red).
      rok (g\<lparr>ga_candidates := ga_candidates g @ (case msg of None \<Rightarrow> [] | Some x \<Rightarrow> [x]),
             ga_history_redactions := ga_history_redactions g + red\<rparr>)) = Some (Ok g')"
    using assms(1) by (simp add: gather_event_def is_tool_kind_def split: if_split_asm)
  then obtain m red where m: "text_message R opts e = Some (Ok (m, red))"
      "ga_candidates g' = ga_candidates g @ (case m of None \<Rightarrow> [] | Some x \<Rightarrow> [x])"
    by (auto simp: render_simps)
  have "message_ok opts x" if "m = Some x" for x
    using text_message_ok [of R opts e x red] m(1) True that by blast
  then show ?thesis using assms(2) m(2) by (auto split: option.splits)
next
  case False
  have tool: "g' = g \<or> (\<exists>t m red tr. \<not> op_no_tools opts \<and> tool_message R opts t = Some (Ok (m, red, tr))
      \<and> ga_candidates g' = ga_candidates g @ [m])"
    using assms(1) False by (auto simp: gather_event_def render_simps split: if_splits option.splits)
  show ?thesis
  proof (cases "g' = g")
    case False
    with tool obtain t m red tr where "\<not> op_no_tools opts" "tool_message R opts t = Some (Ok (m, red, tr))"
        "ga_candidates g' = ga_candidates g @ [m]" by blast
    then show ?thesis using assms(2) tool_message_ok [of R opts t m red tr] by (auto simp: message_ok_def)
  qed (use assms(2) in simp)
qed

lemma gather_loop_ok:
  "gather_loop R opts c es g = Some (Ok g') \<Longrightarrow> \<forall>m \<in> set (ga_candidates g). message_ok opts m \<Longrightarrow>
     \<forall>m \<in> set (ga_candidates g'). message_ok opts m"
proof (induction es arbitrary: g)
  case (Cons e es)
  then obtain h where "gather_event R opts c e g = Some (Ok h)" "gather_loop R opts c es h = Some (Ok g')"
    by (auto simp: render_simps)
  then show ?case using Cons.IH gather_event_ok Cons.prems(2) by blast
qed (simp add: render_simps)

lemma gathered_ok:
  assumes "gathered R opts c = Some (Ok g)"
  shows "\<forall>m \<in> set (ga_candidates g). message_ok opts m" "op_context_profile opts = Minimal \<Longrightarrow> ga_candidates g = []"
  using assms gather_loop_ok [of R opts c "nc_events c" _ g]
  by (auto simp: gathered_def Let_def render_simps split: if_splits)

section \<open>The budget\<close>

definition budgeted :: "RenderContextOptions \<Rightarrow> RenderedMessage list \<Rightarrow> usize \<Rightarrow> RenderedMessage list \<Rightarrow> bool" where
  "budgeted opts ms left ys \<longleftrightarrow> sum_list (map message_scalars ys) \<le> left \<and> length ys \<le> length ms \<and> (\<forall>y \<in> set ys. message_ok opts y)"

lemma budget_loop_fits:
  "budget_loop ms left selected = Some s \<Longrightarrow> \<forall>m \<in> set ms. message_ok opts m \<Longrightarrow>
     \<exists>ys. se_messages s = selected @ ys \<and> budgeted opts ms left ys"
proof (induction ms left selected rule: budget_loop.induct)
  case (1 left selected)
  then show ?case by (auto simp: budgeted_def)
next
  case (2 m ms left selected)
  let ?overhead = "opt_len (rm_tool m) + opt_len (rm_status m)"
  have ok: "message_ok opts m" "\<forall>x \<in> set ms. message_ok opts x" using 2(3) by simp_all
  show ?case
  proof (cases "message_scalars m \<le> left")
    case True
    then have "budget_loop ms (left - message_scalars m) (selected @ [m]) = Some s" using 2(2) by simp
    from 2(1) [OF True this ok(2)] obtain ys where
      ys: "se_messages s = (selected @ [m]) @ ys" "budgeted opts ms (left - message_scalars m) ys" by blast
    then show ?thesis using True ok by (intro exI [of _ "m # ys"]) (auto simp: budgeted_def)
  next
    case False
    have stop: "se_messages s = selected \<Longrightarrow> ?thesis" by (simp add: budgeted_def)
    consider "se_messages s = selected"
      | t u where "left \<ge> ?overhead + 30" "rm_text m = Some t" "head_tail_truncate t (left - ?overhead) = Some u"
          "se_messages s = selected @ [m\<lparr>rm_text := Some u\<rparr>]"
      | t u where "left \<ge> ?overhead + 30" "rm_text m = None" "rm_summary m = Some t" "head_tail_truncate t (left - ?overhead) = Some u"
          "se_messages s = selected @ [m\<lparr>rm_summary := Some u\<rparr>]"
    proof -
      have "se_messages s = selected
        \<or> (\<exists>t u. left \<ge> ?overhead + 30 \<and> rm_text m = Some t \<and> head_tail_truncate t (left - ?overhead) = Some u
             \<and> se_messages s = selected @ [m\<lparr>rm_text := Some u\<rparr>])
        \<or> (\<exists>t u. left \<ge> ?overhead + 30 \<and> rm_text m = None \<and> rm_summary m = Some t
             \<and> head_tail_truncate t (left - ?overhead) = Some u \<and> se_messages s = selected @ [m\<lparr>rm_summary := Some u\<rparr>])"
        using 2(2) False by (auto simp: Let_def split: if_splits option.splits)
      then show thesis using that by blast
    qed
    then show ?thesis
    proof cases
      case 2
      then have "message_scalars (m\<lparr>rm_text := Some u\<rparr>) \<le> left"
        using ok(1) head_tail_truncate_fits [OF 2(3)] by (auto simp: message_scalars_def message_ok_def opt_len_def)
      moreover have "message_ok opts (m\<lparr>rm_text := Some u\<rparr>)" using ok(1) 2(2) by (auto simp: message_ok_def)
      ultimately show ?thesis using 2(4) by (intro exI [of _ "[m\<lparr>rm_text := Some u\<rparr>]"]) (simp add: budgeted_def)
    next
      case 3
      then have "message_scalars (m\<lparr>rm_summary := Some u\<rparr>) \<le> left"
        using ok(1) head_tail_truncate_fits [OF 3(4)] by (auto simp: message_scalars_def message_ok_def opt_len_def)
      moreover have "message_ok opts (m\<lparr>rm_summary := Some u\<rparr>)" using ok(1) 3(2,3) by (auto simp: message_ok_def)
      ultimately show ?thesis using 3(5) by (intro exI [of _ "[m\<lparr>rm_summary := Some u\<rparr>]"]) (simp add: budgeted_def)
    qed (use stop in simp)
  qed
qed

lemma fit_request_fits:
  "fit_request opts t = Some (Ok (req, shortened, left)) \<Longrightarrow> length req + left \<le> op_max_total_scalars opts"
  using head_tail_truncate_fits [of t "op_max_total_scalars opts" req]
  by (auto simp: fit_request_def render_simps split: if_splits)

section \<open>The payload\<close>

lemma render_signals_minimal:
  "render_signals R opts = Some (Ok (s, n, k)) \<Longrightarrow> op_context_profile opts = Minimal \<Longrightarrow> rp_dirty_paths s = []"
  by (auto simp: render_signals_def Let_def render_simps split: option.splits)

text \<open>What a rendered payload discloses at most.\<close>

definition within_bounds :: "RenderContextOptions \<Rightarrow> RenderedContextPayload \<Rightarrow> bool" where
  "within_bounds opts p \<longleftrightarrow>
     total_message_scalars p \<le> op_max_total_scalars opts
     \<and> length (rc_recent_messages p) \<le> op_max_messages opts
     \<and> rc_context_profile p = op_context_profile opts
     \<and> (op_no_tools opts \<longrightarrow> (\<forall>m \<in> set (rc_recent_messages p).
          rm_role m \<noteq> tool_role \<and> rm_tool m = None \<and> rm_status m = None \<and> rm_summary m = None))
     \<and> (op_context_profile opts = Minimal \<longrightarrow> rc_recent_messages p = [] \<and> rp_dirty_paths (rc_project_signals p) = [])"

definition payload_parts ::
  "Renderer \<Rightarrow> NormalizedContext \<Rightarrow> RenderContextOptions \<Rightarrow> RenderedContextPayload \<Rightarrow> DisclosureReceipt
     \<Rightarrow> str \<Rightarrow> bool \<Rightarrow> usize \<Rightarrow> Gathered \<Rightarrow> Selected \<Rightarrow> RenderedProjectSignals \<Rightarrow> bool" where
  "payload_parts R c opts p r req shortened budget g sel signals \<longleftrightarrow>
     (\<exists>(f :: RedactedField) sig_redactions sig_omitted quality.
       fit_request opts (rf_text f) = Some (Ok (req, shortened, budget))
       \<and> gathered R opts c = Some (Ok g)
       \<and> budget_loop (rev (cut_to_window opts (ga_candidates g))) budget [] = Some sel
       \<and> render_signals R opts = Some (Ok (signals, sig_redactions, sig_omitted))
       \<and> p = assemble_payload opts c quality signals (rev (se_messages sel)) req
       \<and> inspected R opts (payload_bytes R p) = Some (Ok ())
       \<and> r = payload_receipt (rn_serde R) opts c p shortened (rf_redactions f) g sel sig_redactions sig_omitted)"

lemma payload_render_parts:
  assumes "payload_render R c opts = Some (Ok (p, r))"
  shows "\<exists>req shortened budget g sel signals. payload_parts R c opts p r req shortened budget g sel signals"
  using assms unfolding payload_parts_def
  apply (clarsimp simp: payload_render_def Let_def render_simps split: if_splits prod.splits)
  apply ((rule exI)+, intro conjI)
  apply (assumption | rule refl | (rule exI, rule refl))+
  done

lemma payload_render_bounds:
  assumes "payload_render R c opts = Some (Ok (p, r))"
  shows "within_bounds opts p"
proof -
  obtain req shortened budget g sel signals where "payload_parts R c opts p r req shortened budget g sel signals"
    using payload_render_parts [OF assms] by blast
  then obtain f :: RedactedField and sig_redactions sig_omitted quality where
    req: "fit_request opts (rf_text f) = Some (Ok (req, shortened, budget))"
    and g: "gathered R opts c = Some (Ok g)"
    and sel: "budget_loop (rev (cut_to_window opts (ga_candidates g))) budget [] = Some sel"
    and sig: "render_signals R opts = Some (Ok (signals, sig_redactions, sig_omitted))"
    and p: "p = assemble_payload opts c quality signals (rev (se_messages sel)) req"
    unfolding payload_parts_def by blast
  have "\<forall>m \<in> set (rev (cut_to_window opts (ga_candidates g))). message_ok opts m"
    using gathered_ok(1) [OF g] in_set_dropD by (fastforce simp: cut_to_window_def)
  from budget_loop_fits [OF sel this]
  have b: "budgeted opts (rev (cut_to_window opts (ga_candidates g))) budget (se_messages sel)" by simp
  have "sum_list (map message_scalars (rev (se_messages sel))) = sum_list (map message_scalars (se_messages sel))"
    by (simp add: rev_map [symmetric])
  then have "total_message_scalars p \<le> op_max_total_scalars opts"
    using b fit_request_fits [OF req] by (simp add: p assemble_payload_def total_message_scalars_def budgeted_def)
  moreover have "length (se_messages sel) \<le> length (ga_candidates g) - (length (ga_candidates g) - op_max_messages opts)"
    using b by (simp add: budgeted_def cut_to_window_def)
  then have "length (rc_recent_messages p) \<le> op_max_messages opts" by (simp add: p assemble_payload_def)
  moreover have "\<forall>m \<in> set (rc_recent_messages p). message_ok opts m"
    using b by (simp add: p assemble_payload_def budgeted_def)
  moreover have "rc_recent_messages p = [] \<and> rp_dirty_paths (rc_project_signals p) = []" if "op_context_profile opts = Minimal"
    using b gathered_ok(2) [OF g that] render_signals_minimal [OF sig that]
    by (simp add: p assemble_payload_def budgeted_def cut_to_window_def)
  ultimately show ?thesis by (auto simp: within_bounds_def message_ok_def p assemble_payload_def)
qed

section \<open>The session state\<close>

definition reference_scalars :: "RenderedLoadedReference list \<Rightarrow> nat" where
  "reference_scalars rs = sum_list (map (\<lambda>r. length (rl_name r) + length (rl_summary r)) rs)"

definition prepared_ok :: "nat \<Rightarrow> Prepared \<Rightarrow> bool" where
  "prepared_ok allowance st \<longleftrightarrow> reference_scalars (pr_references st) + pr_remaining st = allowance
     \<and> length (pr_references st) \<le> SESSION_REFERENCE_RECORDS"

lemma shortened_fits:
  "(if length t > n then rlift (head_tail_truncate t n) else rok t) = Some (Ok s) \<Longrightarrow> length s \<le> n"
  using head_tail_truncate_fits [of t n s] by (simp add: rlift_Ok rok_Ok split: if_splits)

lemma prepare_reference_ok:
  assumes "prepare_reference R opts r st = Some (Ok st')" "prepared_ok n st"
  shows "prepared_ok n st'"
proof (cases "length (pr_references st) = SESSION_REFERENCE_RECORDS \<or> pr_remaining st = 0")
  case True
  then show ?thesis using assms by (simp add: prepare_reference_def render_simps)
next
  case False
  then obtain name k where name: "redact_media R opts (rl_name r) = Some (Ok (name, k))"
    using assms(1) by (auto simp: prepare_reference_def render_simps)
  show ?thesis
  proof (cases "name = [] \<or> length name > pr_remaining st")
    case True
    then have "st' = st\<lparr>pr_redactions := pr_redactions st + k\<rparr>"
      using assms(1) False name by (auto simp: prepare_reference_def rbind_def rok_def Let_def)
    then show ?thesis using assms(2) by (simp add: prepared_ok_def)
  next
    case fits: False
    obtain summary s where s:
      "(if length summary > min (pr_remaining st - length name) SESSION_REFERENCE_SUMMARY_SCALARS
         then rlift (head_tail_truncate summary (min (pr_remaining st - length name) SESSION_REFERENCE_SUMMARY_SCALARS))
         else rok summary) = Some (Ok s)"
      "pr_references st' = pr_references st @ [\<lparr> rl_name = name, rl_summary = s \<rparr>]"
      "pr_remaining st' = pr_remaining st - (length name + length s)"
      using assms(1) False fits name
      by (auto simp: prepare_reference_def rbind_Ok rok_Ok Let_def split del: if_split)
    have "length s \<le> min (pr_remaining st - length name) SESSION_REFERENCE_SUMMARY_SCALARS"
      by (rule shortened_fits [OF s(1)])
    then have "length name + length s \<le> pr_remaining st" using fits by linarith
    then show ?thesis using assms(2) False s(2,3) by (simp add: prepared_ok_def reference_scalars_def)
  qed
qed

lemma prepare_references_ok:
  "prepare_references R opts rs st = Some (Ok st') \<Longrightarrow> prepared_ok n st \<Longrightarrow> prepared_ok n st'"
proof (induction rs arbitrary: st)
  case (Cons r rs)
  then show ?case using prepare_reference_ok by (simp add: rbind_Ok) blast
qed (simp add: rok_Ok)

definition redacts_to :: "Renderer \<Rightarrow> RenderContextOptions \<Rightarrow> str list \<Rightarrow> str list \<Rightarrow> bool" where
  "redacts_to R opts xs ts \<longleftrightarrow> list_all2 (\<lambda>x t. \<exists>n. redact_media R opts x = Some (Ok (t, n))) xs ts"

lemma redacts_to_Cons: "redacts_to R opts (x # xs) ts \<longleftrightarrow>
    (\<exists>t n us. ts = t # us \<and> redact_media R opts x = Some (Ok (t, n)) \<and> redacts_to R opts xs us)"
  by (auto simp: redacts_to_def list_all2_Cons1)

lemma prepare_exclusions_Ok:
  "prepare_exclusions R opts xs remaining = Some (Ok (ts, left, n)) \<Longrightarrow>
     redacts_to R opts xs ts \<and> sum_list (map length ts) + left = remaining"
proof (induction xs arbitrary: remaining ts left n)
  case (Cons x xs)
  then obtain t m ts' k where "redact_media R opts x = Some (Ok (t, m))" "length t \<le> remaining"
      "prepare_exclusions R opts xs (remaining - length t) = Some (Ok (ts', left, k))" "ts = t # ts'"
    by (auto simp: rbind_Ok rok_Ok rerr_def split: if_splits)
  with Cons.IH [OF this(3)] show ?case by (auto simp: redacts_to_Cons)
qed (simp add: rok_Ok redacts_to_def)

lemma prepare_exclusions_refused:
  "redacts_to R opts xs ts \<Longrightarrow> sum_list (map length ts) > remaining \<Longrightarrow>
     prepare_exclusions R opts xs remaining = Some (Err constraints_too_large)"
proof (induction xs arbitrary: remaining ts)
  case (Cons x xs)
  then obtain t n us where t: "ts = t # us" "redact_media R opts x = Some (Ok (t, n))" "redacts_to R opts xs us"
    by (auto simp: redacts_to_Cons)
  show ?case
  proof (cases "length t > remaining")
    case False
    then have "sum_list (map length us) > remaining - length t" using Cons.prems(2) t(1) by auto
    from Cons.IH [OF t(3) this] show ?thesis using t(2) False by (simp add: rbind_def)
  qed (simp add: t(2) rbind_def rerr_def)
qed (simp add: redacts_to_def)

lemma redacts_to_unique: "redacts_to R opts xs ts \<Longrightarrow> redacts_to R opts xs us \<Longrightarrow> ts = us"
proof (induction xs arbitrary: ts us)
  case (Cons x xs)
  then show ?case by (fastforce simp: redacts_to_Cons)
qed (simp add: redacts_to_def)

text \<open>What a successful preparation returns.\<close>

definition session_prepared ::
  "Renderer \<Rightarrow> RenderContextOptions \<Rightarrow> RenderContextOptions \<Rightarrow> CategoryReceipt \<Rightarrow> bool" where
  "session_prepared R opts prepared session \<longleftrightarrow>
     prepared = opts\<lparr> op_loaded_references := op_loaded_references prepared, op_loaded_state := op_loaded_state prepared,
       op_explicit_exclusions := op_explicit_exclusions prepared \<rparr>
     \<and> cg_category session = SessionStateCategory
     \<and> cg_included session = length (op_loaded_references prepared) + length (op_explicit_exclusions prepared)
     \<and> length (op_loaded_references prepared) \<le> SESSION_REFERENCE_RECORDS
     \<and> length (op_loaded_state prepared) + sum_list (map length (op_explicit_exclusions prepared))
         + reference_scalars (op_loaded_references prepared) \<le> SESSION_STATE_SCALARS
     \<and> redacts_to R opts (op_loaded_state opts # op_explicit_exclusions opts)
         (op_loaded_state prepared # op_explicit_exclusions prepared)"

lemma prepare_session_Ok:
  assumes "prepare_session R opts = Some (Ok (prepared, session))"
  shows "session_prepared R opts prepared session"
proof -
  obtain state n exclusions remaining m st where
    state: "redact_media R opts (op_loaded_state opts) = Some (Ok (state, n))" "length state \<le> SESSION_STATE_SCALARS"
    and ex: "prepare_exclusions R opts (op_explicit_exclusions opts) (SESSION_STATE_SCALARS - length state) = Some (Ok (exclusions, remaining, m))"
    and st: "prepare_references R opts (op_loaded_references opts)
        \<lparr> pr_references = [], pr_remaining = remaining, pr_redactions = n + m, pr_truncated = 0 \<rparr> = Some (Ok st)"
    and prep: "prepared = opts\<lparr> op_loaded_references := pr_references st, op_loaded_state := state, op_explicit_exclusions := exclusions \<rparr>"
    and sess: "session = category_receipt SessionStateCategory (length (pr_references st) + length exclusions)
        (length (op_loaded_references opts) - length (pr_references st)) (pr_truncated st) (pr_redactions st)"
    using assms by (auto simp: prepare_session_def rbind_Ok rok_Ok rerr_def split: if_splits)
  have "prepared_ok remaining st"
    by (rule prepare_references_ok [OF st]) (simp add: prepared_ok_def reference_scalars_def)
  moreover note prepare_exclusions_Ok [OF ex]
  ultimately show ?thesis
    using state by (auto simp: session_prepared_def prep sess category_receipt_def prepared_ok_def redacts_to_Cons)
qed

text \<open>
  C34. Explicit exclusions are disclosed whole or the request is refused. With the session state within its
  input bound, a state label and exclusions that exceed the allowance of scalars after redaction are refused
  with an error; otherwise every preparation that succeeds carries exactly the redacted label and all redacted
  exclusions in order, and fits the optional references into what is left of the allowance.
\<close>

theorem exclusions_whole_or_refused:
  assumes "check_input opts = Some (Ok ())" and "redacts_to R opts (op_loaded_state opts # op_explicit_exclusions opts) (state # exclusions)"
  shows "(length state + sum_list (map length exclusions) > SESSION_STATE_SCALARS \<longrightarrow>
            prepare_session R opts = Some (Err constraints_too_large))
    \<and> (\<forall>prepared session. prepare_session R opts = Some (Ok (prepared, session)) \<longrightarrow>
         op_loaded_state prepared = state \<and> op_explicit_exclusions prepared = exclusions
         \<and> length state + sum_list (map length exclusions) + reference_scalars (op_loaded_references prepared) \<le> SESSION_STATE_SCALARS)"
proof (intro conjI impI allI)
  assume too_long: "length state + sum_list (map length exclusions) > SESSION_STATE_SCALARS"
  obtain n where n: "redact_media R opts (op_loaded_state opts) = Some (Ok (state, n))"
    and ex: "redacts_to R opts (op_explicit_exclusions opts) exclusions" using assms(2) by (auto simp: redacts_to_Cons)
  show "prepare_session R opts = Some (Err constraints_too_large)"
  proof (cases "length state > SESSION_STATE_SCALARS")
    case False
    then have "sum_list (map length exclusions) > SESSION_STATE_SCALARS - length state" using too_long by linarith
    from prepare_exclusions_refused [OF ex this] show ?thesis
      using False by (simp add: prepare_session_def assms(1) n rbind_def)
  qed (simp add: prepare_session_def assms(1) n rbind_def rerr_def)
next
  fix prepared session assume "prepare_session R opts = Some (Ok (prepared, session))"
  from prepare_session_Ok [OF this]
  have p: "redacts_to R opts (op_loaded_state opts # op_explicit_exclusions opts) (op_loaded_state prepared # op_explicit_exclusions prepared)"
    and b: "length (op_loaded_state prepared) + sum_list (map length (op_explicit_exclusions prepared))
         + reference_scalars (op_loaded_references prepared) \<le> SESSION_STATE_SCALARS"
    by (simp_all add: session_prepared_def)
  have "state # exclusions = op_loaded_state prepared # op_explicit_exclusions prepared"
    by (rule redacts_to_unique [OF assms(2) p])
  then show "op_loaded_state prepared = state" "op_explicit_exclusions prepared = exclusions"
    "length state + sum_list (map length exclusions) + reference_scalars (op_loaded_references prepared) \<le> SESSION_STATE_SCALARS"
    using b by simp_all
qed

section \<open>The published payload\<close>

definition published :: "Renderer \<Rightarrow> NormalizedContext \<Rightarrow> RenderContextOptions \<Rightarrow> RenderedContextPayload \<Rightarrow> DisclosureReceipt
    \<Rightarrow> RenderContextOptions \<Rightarrow> CategoryReceipt \<Rightarrow> RenderedContextPayload \<Rightarrow> DisclosureReceipt \<Rightarrow> LabelReceipt \<Rightarrow> bool" where
  "published R c0 opts p r prepared session rendered receipt labels \<longleftrightarrow>
     (\<exists>c incomplete omitted_messages omitted_tools.
       prepare_session R opts = Some (Ok (prepared, session))
       \<and> payload_render R c prepared = Some (Ok (rendered, receipt))
       \<and> finalize R opts rendered (incomplete_of incomplete session labels) = Some (Ok (p, length (payload_bytes R p)))
       \<and> r = with_totals (receipt\<lparr> dr_disclosed_bytes := length (payload_bytes R p), dr_context_quality := rc_context_quality p,
               dr_categories := map (revise_category session labels omitted_messages omitted_tools) (dr_categories receipt) \<rparr>))"

lemma finalize_bytes: "finalize R opts q b = Some (Ok (p, n)) \<Longrightarrow> n = length (payload_bytes R p)"
  by (auto simp: finalize_def Let_def rbind_Ok rok_Ok)

lemma finalize_Ok:
  assumes "finalize R opts q b = Some (Ok (p, n))"
  shows "\<exists>quality. p = q\<lparr>rc_context_quality := quality\<rparr>" "inspected R opts (payload_bytes R p) = Some (Ok ())"
proof -
  define p' where "p' = (if b \<and> rc_context_quality q \<noteq> Insufficient then q\<lparr>rc_context_quality := Partial\<rparr> else q)"
  have "p = p'" "inspected R opts (payload_bytes R p') = Some (Ok ())"
    using assms by (auto simp: finalize_def Let_def rbind_Ok rok_Ok p'_def [symmetric])
  moreover have "\<exists>quality. p' = q\<lparr>rc_context_quality := quality\<rparr>"
  proof (cases "b \<and> rc_context_quality q \<noteq> Insufficient")
    case False
    then show ?thesis unfolding p'_def by (intro exI [of _ "rc_context_quality q"]) simp
  qed (auto simp: p'_def)
  ultimately show "\<exists>quality. p = q\<lparr>rc_context_quality := quality\<rparr>" "inspected R opts (payload_bytes R p) = Some (Ok ())"
    by simp_all
qed

lemma render_published:
  assumes "render_context_and_receipt R c0 opts = Some (Ok (p, r))"
  shows "\<exists>prepared session rendered receipt labels. published R c0 opts p r prepared session rendered receipt labels"
proof -
  obtain projected incomplete omitted_messages omitted_tools c labels prepared session rendered receipt bytes where
    "project c0 = Some (Ok (projected, incomplete, omitted_messages, omitted_tools))"
    "prepare_labels R projected opts = Some (Ok (c, labels))"
    and h: "prepare_session R opts = Some (Ok (prepared, session))"
    "payload_render R c prepared = Some (Ok (rendered, receipt))"
    "finalize R opts rendered (incomplete_of incomplete session labels) = Some (Ok (p, bytes))"
    "r = with_totals (receipt\<lparr> dr_disclosed_bytes := bytes, dr_context_quality := rc_context_quality p,
         dr_categories := map (revise_category session labels omitted_messages omitted_tools) (dr_categories receipt) \<rparr>)"
    using assms by (auto simp: render_context_and_receipt_def rbind_Ok rok_Ok)
  moreover note finalize_bytes [OF h(3)]
  ultimately show ?thesis unfolding published_def by blast
qed

lemma inspected_Ok:
  "inspected R opts bytes = Some (Ok ()) \<longleftrightarrow> (\<exists>i. inspect_payload (rn_scanner R) (op_redactor opts) (rn_decode R) bytes = Some (Ok i))"
proof (cases "inspect_payload (rn_scanner R) (op_redactor opts) (rn_decode R) bytes")
  case (Some res)
  then show ?thesis by (cases res) (auto simp: inspected_def)
qed (simp add: inspected_def)

text \<open>The bounds of the session state in a payload.\<close>

definition session_within :: "RenderedContextPayload \<Rightarrow> bool" where
  "session_within p \<longleftrightarrow>
     length (rt_loaded_references (rc_session_state p)) \<le> SESSION_REFERENCE_RECORDS
     \<and> length (rt_loaded_state (rc_session_state p)) + sum_list (map length (rt_explicit_exclusions (rc_session_state p)))
         + reference_scalars (rt_loaded_references (rc_session_state p)) \<le> SESSION_STATE_SCALARS"

lemma payload_render_session:
  assumes "payload_render R c opts = Some (Ok (p, r))"
  shows "rc_session_state p = session_of opts"
  using payload_render_parts [OF assms] by (auto simp: payload_parts_def assemble_payload_def)

lemma within_bounds_quality: "within_bounds opts (q\<lparr>rc_context_quality := x\<rparr>) = within_bounds opts q"
  by (simp add: within_bounds_def total_message_scalars_def)

text \<open>
  C11. What reaches the provider is bounded and inspected. A rendered payload has at most the configured
  scalars over the request and the messages together, at most the configured messages, and a session state
  within its own allowance; its final bytes passed the secret inspection; it has the profile asked for, no
  tool data when tools are off, and neither history nor dirty paths under the minimal profile.
\<close>

theorem disclosure_is_bounded:
  assumes "render_context_and_receipt R c opts = Some (Ok (p, r))"
  shows "within_bounds opts p \<and> session_within p
    \<and> (\<exists>i. inspect_payload (rn_scanner R) (op_redactor opts) (rn_decode R) (payload_bytes R p) = Some (Ok i))"
proof -
  obtain prepared session rendered receipt labels c' b where
    s: "prepare_session R opts = Some (Ok (prepared, session))" and
    q: "payload_render R c' prepared = Some (Ok (rendered, receipt))" and
    f: "finalize R opts rendered b = Some (Ok (p, length (payload_bytes R p)))"
    using render_published [OF assms] unfolding published_def by blast
  note sess = prepare_session_Ok [OF s, unfolded session_prepared_def]
  obtain quality where p: "p = rendered\<lparr>rc_context_quality := quality\<rparr>" using finalize_Ok(1) [OF f] by blast
  have "within_bounds prepared rendered" by (rule payload_render_bounds [OF q])
  moreover have "op_no_tools prepared = op_no_tools opts" "op_context_profile prepared = op_context_profile opts"
    "op_max_messages prepared = op_max_messages opts" "op_max_total_scalars prepared = op_max_total_scalars opts"
    using sess by (metis RenderContextOptions.select_convs RenderContextOptions.surjective RenderContextOptions.update_convs(8-10))+
  ultimately have "within_bounds opts p" by (simp add: p within_bounds_quality) (simp add: within_bounds_def)
  moreover have "session_within p"
    using sess payload_render_session [OF q] by (simp add: p session_within_def session_of_def)
  ultimately show ?thesis using finalize_Ok(2) [OF f] by (simp add: inspected_Ok)
qed

section \<open>The receipt\<close>

lemma payload_items_quality [simp]: "payload_items (q\<lparr>rc_context_quality := x\<rparr>) c = payload_items q c"
  by (cases c) (simp_all add: payload_items_def)

lemma with_totals_fields [simp]:
  "dr_context_profile (with_totals x) = dr_context_profile x" "dr_disclosed_scalars (with_totals x) = dr_disclosed_scalars x"
  "dr_categories (with_totals x) = dr_categories x"
  by (simp_all add: with_totals_def)

lemma payload_receipt_categories:
  "map cg_category (dr_categories (payload_receipt S opts c p a b g sel m n)) = expected_categories"
  "e \<in> set (dr_categories (payload_receipt S opts c p a b g sel m n)) \<Longrightarrow> cg_included e = payload_items p (cg_category e)"
  by (auto simp: payload_receipt_def Let_def case_prod_unfold category_receipt_def expected_categories_def)

lemma payload_receipt_fields:
  "dr_context_profile (payload_receipt S opts c p a b g sel m n) = op_context_profile opts"
  "dr_disclosed_scalars (payload_receipt S opts c p a b g sel m n) = total_message_scalars p"
  by (simp_all add: payload_receipt_def Let_def case_prod_unfold)

lemma payload_render_receipt:
  assumes "payload_render R c opts = Some (Ok (p, r))"
  shows "map cg_category (dr_categories r) = expected_categories"
    and "e \<in> set (dr_categories r) \<Longrightarrow> cg_included e = payload_items p (cg_category e)"
    and "dr_context_profile r = rc_context_profile p" "dr_disclosed_scalars r = total_message_scalars p"
  using payload_render_parts [OF assms] payload_receipt_categories payload_receipt_fields
  by (auto simp: payload_parts_def assemble_payload_def)

lemma one_of_each_map:
  assumes "map cg_category (dr_categories r) = expected_categories"
  shows "one_of_each r"
proof -
  have "length (filter (\<lambda>e. cg_category e = c) (dr_categories r)) = length (filter (\<lambda>x. x = c) expected_categories)" for c
    unfolding assms [symmetric] filter_map length_map by (simp add: comp_def)
  moreover have "length (filter (\<lambda>x. x = c) expected_categories) = 1" for c
    by (cases c) (simp_all add: expected_categories_def)
  moreover have "length (dr_categories r) = 5"
    using arg_cong [OF assms, of length] by (simp add: expected_categories_def)
  ultimately show ?thesis by (simp add: one_of_each_def)
qed

lemma revise_category_category:
  "cg_category session = SessionStateCategory \<Longrightarrow> cg_category (revise_category session labels a b c) = cg_category c"
  by (cases "cg_category c") (simp_all add: revise_category_def)

lemma revise_category_included:
  "cg_included (revise_category session labels a b c) =
     (if cg_category c = SessionStateCategory then cg_included session else cg_included c)"
  by (cases "cg_category c") (simp_all add: revise_category_def)

text \<open>
  C25. The published receipt tells the truth. Whatever is rendered, its receipt passes its own verification
  against the published payload: the categories, the profile, the quality, the exact bytes sent, the scalars,
  the totals and the items of every category agree, for counts that fit a machine word.
\<close>

theorem receipt_describes_payload:
  assumes "render_context_and_receipt R c opts = Some (Ok (p, r))" and words: "receipt_words r"
  shows "verify_against_payload (rn_serde R) r p = Ok ()"
proof -
  obtain prepared session rendered receipt labels c' b om ot where
    s: "prepare_session R opts = Some (Ok (prepared, session))" and
    q: "payload_render R c' prepared = Some (Ok (rendered, receipt))" and
    f: "finalize R opts rendered b = Some (Ok (p, length (payload_bytes R p)))" and
    r: "r = with_totals (receipt\<lparr> dr_disclosed_bytes := length (payload_bytes R p), dr_context_quality := rc_context_quality p,
          dr_categories := map (revise_category session labels om ot) (dr_categories receipt) \<rparr>)"
    using render_published [OF assms(1)] unfolding published_def by blast
  note sess = prepare_session_Ok [OF s, unfolded session_prepared_def]
  note receipt = payload_render_receipt [OF q]
  obtain quality where p: "p = rendered\<lparr>rc_context_quality := quality\<rparr>" using finalize_Ok(1) [OF f] by blast
  have cats: "dr_categories r = map (revise_category session labels om ot) (dr_categories receipt)"
    by (simp add: r with_totals_def)
  have "map cg_category (dr_categories r) = map cg_category (dr_categories receipt)"
    using sess by (simp add: cats revise_category_category)
  then have "one_of_each r" using receipt(1) by (intro one_of_each_map) simp
  moreover have "cg_included e = payload_items p (cg_category e)" if e: "e \<in> set (dr_categories r)" for e
  proof -
    obtain x where x: "x \<in> set (dr_categories receipt)" "e = revise_category session labels om ot x" using e cats by auto
    have "cg_included session = payload_items p SessionStateCategory"
      using sess payload_render_session [OF q] by (simp add: p payload_items_def session_of_def)
    then show ?thesis using receipt(2) [OF x(1)] sess x(2) by (simp add: p revise_category_included revise_category_category)
  qed
  moreover have "dr_context_profile r = rc_context_profile p" "dr_context_quality r = rc_context_quality p"
    "dr_disclosed_bytes r = disclosed_bytes (rn_serde R) p" "dr_disclosed_scalars r = total_message_scalars p"
    using receipt(3,4) by (simp_all add: r with_totals_def p disclosed_bytes_def payload_bytes_def total_message_scalars_def)
  moreover have "sum_list (map cg_included (dr_categories r)) = dr_total_included r"
    "sum_list (map cg_omitted (dr_categories r)) = dr_total_omitted r"
    "sum_list (map cg_truncated (dr_categories r)) = dr_total_truncated r"
    "sum_list (map cg_redactions (dr_categories r)) = dr_total_redactions r"
    by (simp_all add: r with_totals_def)
  ultimately show ?thesis unfolding verify_exact [OF words] by blast
qed

section \<open>Foreign text\<close>

lemma rbind_cong: "m = m' \<Longrightarrow> (\<And>a. m = Some (Ok a) \<Longrightarrow> f a = g a) \<Longrightarrow> rbind m f = rbind m' g"
  by (auto simp: rbind_def split: option.splits result.splits)

lemma rbind_map: "rbind (rbind m f) g = rbind m (\<lambda>a. rbind (f a) g)"
  by (auto simp: rbind_def split: option.splits result.splits)

lemma rbind_rok [simp]: "rbind (rok a) f = f a"
  by (simp add: rbind_def rok_def)

lemma rbind_rerr [simp]: "rbind (rerr e) f = rerr e"
  by (simp add: rbind_def rerr_def)

lemma payload_only:
  "render_context R c opts = rbind (render_context_and_receipt R c opts) (\<lambda>(p, r). rok p)"
  by (simp add: render_context_def render_context_and_receipt_def rbind_map case_prod_unfold)

text \<open>The part of a projection that the payload depends on.\<close>

definition history_part :: "NormalizedContext \<times> bool \<times> usize \<times> usize \<Rightarrow> NormalizedContext \<times> bool" where
  "history_part x = (fst x, fst (snd x))"

definition render_selected :: "Renderer \<Rightarrow> RenderContextOptions \<Rightarrow> NormalizedContext \<times> bool \<Rightarrow> RenderedContextPayload rendered" where
  "render_selected R opts x =
     rbind (prepare_labels R (fst x) opts) (\<lambda>(c, labels).
     rbind (prepare_session R opts) (\<lambda>(prepared, session).
     rbind (payload_render R c prepared) (\<lambda>(rendered, _).
     rbind (finalize R opts rendered (incomplete_of (snd x) session labels)) (\<lambda>(final, _). rok final))))"

lemma render_context_selected:
  "render_context R c opts =
     (case select_history c of None \<Rightarrow> None | Some (Err reason) \<Rightarrow> rerr (UnsupportedContext reason)
      | Some (Ok (events, incomplete)) \<Rightarrow> render_selected R opts (c\<lparr>nc_events := events\<rparr>, incomplete))"
  unfolding render_context_def project_def render_selected_def
  by (auto simp: rbind_def rok_def rerr_def Let_def split: option.splits result.splits prod.splits)

text \<open>
  C12. No foreign text reaches the provider. A request whose event identifier only an event of another agent carries is
  refused as not matching its scope. For every other envelope, the payload rendered, and every refusal, is the one of the
  envelope without the events of other agents, so nothing a sibling agent wrote can be disclosed or change what
  is disclosed.
\<close>

theorem foreign_text_is_never_disclosed:
  "render_context R c opts =
     (if foreign_request c then Some (Err (UnsupportedContext WRONG_REQUEST)) else render_context R (own_agent c) opts)"
proof (cases "foreign_request c")
  case True
  then show ?thesis
    unfolding render_context_selected by (subst select_own_agent) (simp add: rerr_def)
next
  case False
  have same: "(own_agent c)\<lparr>nc_events := events\<rparr> = c\<lparr>nc_events := events\<rparr>" for events
    by (simp add: own_agent_def)
  show ?thesis
    unfolding render_context_selected same by (subst select_own_agent) (simp add: False)
qed

section \<open>An example\<close>

text \<open>A plain JSON writer without escapes.\<close>

fun demo_write :: "Value \<Rightarrow> nat list" and demo_write_items :: "Value list \<Rightarrow> nat list"
  and demo_write_fields :: "(str \<times> Value) list \<Rightarrow> nat list" where
  "demo_write Null = scalars ''null''"
| "demo_write (Bool b) = (if b then scalars ''true'' else scalars ''false'')"
| "demo_write (Number n) = n"
| "demo_write (String s) = [34] @ str_bytes s @ [34]"
| "demo_write (Array vs) = [91] @ demo_write_items vs @ [93]"
| "demo_write (Object kvs) = [123] @ demo_write_fields kvs @ [125]"
| "demo_write_items [] = []"
| "demo_write_items (v # vs) = demo_write v @ [44] @ demo_write_items vs"
| "demo_write_fields [] = []"
| "demo_write_fields ((k, v) # kvs) = [34] @ str_bytes k @ [34, 58] @ demo_write v @ [44] @ demo_write_fields kvs"

definition demo_rendered :: RenderedContextPayload where
  "demo_rendered = \<lparr> rc_schema_version = 1, rc_context_profile = Standard, rc_harness = scalars ''codex'', rc_context_quality = Complete,
     rc_project_signals = \<lparr> rp_languages = [], rp_tools_on_path = [], rp_dirty_paths = [], rp_dirty_paths_truncated = False \<rparr>,
     rc_session_state = \<lparr> rt_loaded_references = [], rt_loaded_state = scalars ''observed'', rt_explicit_exclusions = [scalars ''beta''] \<rparr>,
     rc_recent_messages = [\<lparr> rm_role = scalars ''user'', rm_tool = None, rm_status = None, rm_summary = None,
       rm_text = Some (scalars ''Fix the parser'') \<rparr>],
     rc_latest_user_request = scalars ''ok, continue.'' \<rparr>"

definition demo_renderer :: Renderer where
  "demo_renderer = \<lparr> rn_scanner = plain_scanner, rn_json = \<lparr> js_from_str = (\<lambda>_. None), js_to_text = (\<lambda>_. []) \<rparr>,
     rn_serde = \<lparr> sd_tokens = (\<lambda>_. None), sd_from_slice = (\<lambda>_. None), sd_render = demo_write, sd_wire = (\<lambda>_. None),
       sd_request = (\<lambda>_. None), sd_number = (\<lambda>_. []), sd_f64 = (\<lambda>_. None) \<rparr>,
     rn_decode = (\<lambda>b. if b = demo_write (payload_value demo_rendered) then Some (payload_value demo_rendered) else None),
     rn_thinking = (\<lambda>t _. t), rn_unterminated = (\<lambda>t _. t), rn_data_uri = (\<lambda>t _. t), rn_data_binary_uri = (\<lambda>t _. t),
     rn_lowercase = map ascii_lower \<rparr>"

definition demo_options :: RenderContextOptions where
  "demo_options = (options_default \<lparr>rd_entropy = False\<rparr>)\<lparr>op_explicit_exclusions := [scalars ''beta'']\<rparr>"

definition demo_published :: "RenderedContextPayload \<times> DisclosureReceipt" where
  "demo_published = (case render_context_and_receipt demo_renderer demo_context demo_options of
     Some (Ok x) \<Rightarrow> x | _ \<Rightarrow> (demo_payload, demo_receipt))"

lemma demo_renders:
  "render_context_and_receipt demo_renderer demo_context demo_options = Some (Ok (fst demo_published, snd demo_published))"
  by code_simp

theorem disclosure_is_bounded_witness:
  "fst demo_published = demo_rendered \<and> within_bounds demo_options demo_rendered \<and> session_within demo_rendered"
proof -
  have "fst demo_published = demo_rendered" by code_simp
  with disclosure_is_bounded [OF demo_renders] show ?thesis by simp
qed

theorem receipt_describes_payload_witness:
  "verify_against_payload (rn_serde demo_renderer) (snd demo_published) demo_rendered = Ok ()"
proof -
  have "receipt_words (snd demo_published)" by code_simp
  moreover have "fst demo_published = demo_rendered" by code_simp
  ultimately show ?thesis using receipt_describes_payload [OF demo_renders] by simp
qed

theorem exclusions_whole_or_refused_witness:
  "\<exists>prepared session. prepare_session demo_renderer demo_options = Some (Ok (prepared, session))
     \<and> op_explicit_exclusions prepared = [scalars ''beta'']"
proof -
  have "check_input demo_options = Some (Ok ())" by code_simp
  moreover have "redacts_to demo_renderer demo_options (op_loaded_state demo_options # op_explicit_exclusions demo_options)
      (scalars ''observed'' # [scalars ''beta''])"
  proof -
    have "redact_media demo_renderer demo_options (op_loaded_state demo_options) = Some (Ok (scalars ''observed'', 0))"
      "redact_media demo_renderer demo_options (scalars ''beta'') = Some (Ok (scalars ''beta'', 0))" by code_simp+
    then show ?thesis by (simp add: redacts_to_def demo_options_def)
  qed
  ultimately have ok: "prepare_session demo_renderer demo_options = Some (Ok (prepared, session)) \<Longrightarrow>
      op_explicit_exclusions prepared = [scalars ''beta'']" for prepared session
    using exclusions_whole_or_refused by blast
  have "case prepare_session demo_renderer demo_options of Some (Ok x) \<Rightarrow> True | _ \<Rightarrow> False" by code_simp
  then obtain x where "prepare_session demo_renderer demo_options = Some (Ok x)" by (auto split: option.splits result.splits)
  with ok show ?thesis by (cases x) auto
qed

end
