(* ===== verification/Wide.thy ===== *)
theory Wide
  imports Context_Render Eligibility Scoring
begin

text \<open>
  Model of \<open>src/src/jev/wide.rs\<close>: the one request that asks, over every admitted candidate, which skill
  would help most, the gate that decides whether a detailed rerank runs, and the shortlist it keeps. The
  redaction scanner, the bounded JSON decoder and serde are arguments. A result is \<open>None\<close> where the
  redactor panics.
\<close>

section \<open>Errors and sizes\<close>

definition DEFAULT_TOP :: usize where "DEFAULT_TOP = 5"

definition DEFAULT_SHORTLIST :: usize where "DEFAULT_SHORTLIST = 8"

definition MAX_SIZE :: usize where "MAX_SIZE = 32"

definition MAX_REAL_OPTIONS :: usize where "MAX_REAL_OPTIONS = 254"

definition WIDE_DESCRIPTION_MAX_SCALARS :: usize where "WIDE_DESCRIPTION_MAX_SCALARS = 160"

definition NONE_OPTION :: str where "NONE_OPTION = scalars ''__none__''"

definition WHICH :: str where "WHICH = scalars ''which''"

definition GATE_SPECIALIZED_METHOD :: str where "GATE_SPECIALIZED_METHOD = scalars ''gate::specialized_method''"

definition GATE_MATERIAL_HELP :: str where "GATE_MATERIAL_HELP = scalars ''gate::material_help''"

definition GATE_CONTEXT_SUFFICES :: str where "GATE_CONTEXT_SUFFICES = scalars ''gate::context_suffices''"

definition PHASE :: str where "PHASE = scalars ''phase''"

definition STUCK :: str where "STUCK = scalars ''stuck''"

definition WHICH_INSTRUCTIONS :: str where
  "WHICH_INSTRUCTIONS = scalars (''Which available skill would most help the next step of this ''
     @ ''session? Planning, writing, analysis and explanation skills count; acting on files is not ''
     @ ''required. Choose __none__ when no listed skill adds useful guidance.'')"

definition NONE_DESCRIPTION :: str where
  "NONE_DESCRIPTION = scalars ''No listed skill adds useful guidance for the next step.''"

definition SPECIALIZED_METHOD :: str where
  "SPECIALIZED_METHOD = scalars ''Would the next step benefit from a specialized method, reference, or procedure?''"

definition MATERIAL_HELP :: str where
  "MATERIAL_HELP = scalars ''Would consulting a relevant skill materially improve correctness or execution here?''"

definition CONTEXT_SUFFICES :: str where
  "CONTEXT_SUFFICES = scalars ''Is the existing context sufficient without consulting any additional skill?''"

definition PHASE_INSTRUCTIONS :: str where
  "PHASE_INSTRUCTIONS = scalars ''Which phase best describes the next step of this session?''"

definition STUCK_INSTRUCTIONS :: str where
  "STUCK_INSTRUCTIONS = scalars ''Is there evidence of repeated failure on the current task in this session?''"

definition PHASES :: "(str \<times> str) list" where
  "PHASES = map (\<lambda>(k, t). (scalars k, scalars t))
     [(''planning'', ''Deciding what to do or how to approach it.''),
      (''implementing'', ''Writing or changing code, content or configuration.''),
      (''debugging'', ''Diagnosing or fixing a failure.''),
      (''testing'', ''Writing, running or interpreting tests.''),
      (''reviewing'', ''Examining existing work for problems.''),
      (''releasing'', ''Packaging, publishing or deploying.''),
      (''conversing'', ''Discussion or explanation without a concrete change.''),
      (''other'', ''None of the above.'')]"

definition DESCRIPTION_CAPS :: "usize list" where
  "DESCRIPTION_CAPS = [WIDE_DESCRIPTION_MAX_SCALARS, 80, 40, 0]"

datatype WideError =
    InvalidSizes | InvalidGate | NoCandidates | TooManyCandidates | IneligibleCandidate | RequestTooLarge
  | RedactionRefused | PrivacyRefused | CodecRefused CodecError | MissingAnswer

fun wide_kind :: "WideError \<Rightarrow> ErrorKind" where
  "wide_kind InvalidSizes = Ek_InvalidConfiguration"
| "wide_kind InvalidGate = Ek_InvalidConfiguration"
| "wide_kind NoCandidates = Ek_EmptyRoster"
| "wide_kind TooManyCandidates = Ek_UnusableRoster"
| "wide_kind IneligibleCandidate = Ek_UnusableRoster"
| "wide_kind RequestTooLarge = Ek_OversizedInput"
| "wide_kind RedactionRefused = Ek_NetworkDenied"
| "wide_kind PrivacyRefused = Ek_NetworkDenied"
| "wide_kind (CodecRefused e) = codec_kind e"
| "wide_kind MissingAnswer = Ek_InvalidProviderResponse"

record Sizes =
  sz_top :: usize
  sz_shortlist :: usize

definition sizes_default :: Sizes where
  "sizes_default = \<lparr>sz_top = DEFAULT_TOP, sz_shortlist = DEFAULT_SHORTLIST\<rparr>"

definition sizes_new :: "usize \<Rightarrow> usize \<Rightarrow> (Sizes, WideError) result" where
  "sizes_new k shortlist =
     (if 1 \<le> k \<and> k \<le> shortlist \<and> shortlist \<le> MAX_SIZE
      then Ok \<lparr>sz_top = k, sz_shortlist = shortlist\<rparr> else Err InvalidSizes)"

definition sizes_effective :: "Sizes \<Rightarrow> usize \<Rightarrow> usize \<times> usize" where
  "sizes_effective z admitted =
     (let shortlist = min (sz_shortlist z) admitted in (shortlist, min (sz_top z) shortlist))"

definition validate_gate :: "f64 \<Rightarrow> (f64, WideError) result" where
  "validate_gate gate = (if f64_within (Fin 0) (Fin 1) gate then Ok gate else Err InvalidGate)"

section \<open>Building the request\<close>

record Trimming =
  tm_dropped_messages :: usize
  tm_description_cap :: usize
  tm_omitted_description_scalars :: usize
  tm_redactions :: usize

record WideRequest =
  wq_request :: Request
  wq_options :: OptionMap
  wq_bytes :: "nat list"
  wq_trimming :: Trimming

text \<open>What the code takes from elsewhere: the redaction scanner, the bounded decoder of the inspection, and serde.\<close>

record Wire =
  wi_scanner :: Scanner
  wi_decode :: "nat list \<Rightarrow> Value option"
  wi_serde :: Serde

definition redactor_default :: Redactor where "redactor_default = \<lparr>rd_entropy = False\<rparr>"

text \<open>The question mark on a call that may panic.\<close>

definition try_or :: "('e \<Rightarrow> 'f) \<Rightarrow> ('a, 'e) result option \<Rightarrow> ('a \<Rightarrow> ('b, 'f) result option) \<Rightarrow> ('b, 'f) result option" where
  "try_or conv m f = (case m of None \<Rightarrow> None | Some (Err e) \<Rightarrow> Some (Err (conv e)) | Some (Ok a) \<Rightarrow> f a)"

definition noul :: "str \<Rightarrow> Question" where
  "noul instructions = Q_Noul (String instructions) None"

record Descriptions =
  ds_criteria :: "(str \<times> str) list"
  ds_omitted :: usize
  ds_redactions :: usize

definition describe_option :: "Wire \<Rightarrow> usize \<Rightarrow> AdvisorySkill \<Rightarrow> (str \<times> usize \<times> usize, WideError) result option" where
  "describe_option W cap skill =
     try_or (\<lambda>_. RedactionRefused)
       (redact_field (wi_scanner W) redactor_default (bi_invocation (as_binding skill))) (\<lambda>name.
     if cap = 0 then Some (Ok (rf_text name, length (sk_description_full (as_record skill)), rf_redactions name))
     else
       try_or (\<lambda>_. RedactionRefused)
         (redact_field_excerpt (wi_scanner W) redactor_default (sk_description_full (as_record skill)) cap) (\<lambda>excerpt.
       Some (Ok (rf_text name @ scalars '': '' @ rf_text excerpt, rf_omitted_scalars excerpt,
         rf_redactions name + rf_redactions excerpt))))"

fun descriptions_loop ::
  "Wire \<Rightarrow> usize \<Rightarrow> (OptionId \<times> AdvisorySkill) list \<Rightarrow> Descriptions \<Rightarrow> (Descriptions, WideError) result option" where
  "descriptions_loop W cap [] ds = Some (Ok ds)"
| "descriptions_loop W cap ((option, skill) # rest) ds =
     try_or (\<lambda>e. e) (describe_option W cap skill) (\<lambda>(text, omitted, redactions).
     descriptions_loop W cap rest
       \<lparr>ds_criteria = ds_criteria ds @ [(option, text)], ds_omitted = ds_omitted ds + omitted,
        ds_redactions = ds_redactions ds + redactions\<rparr>)"

definition option_descriptions :: "Wire \<Rightarrow> OptionMap \<Rightarrow> usize \<Rightarrow> (Descriptions, WideError) result option" where
  "option_descriptions W options cap =
     try_or (\<lambda>e. e) (descriptions_loop W cap options \<lparr>ds_criteria = [], ds_omitted = 0, ds_redactions = 0\<rparr>) (\<lambda>ds.
     Some (Ok (ds\<lparr>ds_criteria := ds_criteria ds @ [(NONE_OPTION, NONE_DESCRIPTION)]\<rparr>)))"

definition wide_assemble ::
  "Serde \<Rightarrow> str \<Rightarrow> RenderedContextPayload \<Rightarrow> (str \<times> str) list \<Rightarrow> bool \<Rightarrow> (Request, CodecError) result" where
  "wide_assemble S model state criteria include_stuck =
     and_then (question_choice (String WHICH_INSTRUCTIONS) criteria) (\<lambda>which.
     and_then (question_choice (String PHASE_INSTRUCTIONS) PHASES) (\<lambda>phase.
     request_new S model (payload_to_value state)
       ([(WHICH, which), (GATE_SPECIALIZED_METHOD, noul SPECIALIZED_METHOD), (GATE_MATERIAL_HELP, noul MATERIAL_HELP),
         (GATE_CONTEXT_SUFFICES, noul CONTEXT_SUFFICES), (PHASE, phase)]
        @ (if include_stuck then [(STUCK, noul STUCK_INSTRUCTIONS)] else []))))"

text \<open>
  The inner loop: the oldest message goes while the request is too large. It ends with a request, or with
  no message left; the messages kept and the number dropped are returned.
\<close>

fun drop_loop ::
  "(RenderedContextPayload \<Rightarrow> (Request, CodecError) result) \<Rightarrow> RenderedContextPayload \<Rightarrow> RenderedMessage list \<Rightarrow> usize
     \<Rightarrow> (Request option \<times> RenderedMessage list \<times> usize, CodecError) result" where
  "drop_loop attempt state ms dropped =
     (case attempt (state\<lparr>rc_recent_messages := ms\<rparr>) of
        Ok request \<Rightarrow> Ok (Some request, ms, dropped)
      | Err TooLarge \<Rightarrow>
          (case ms of [] \<Rightarrow> Ok (None, [], dropped) | m # rest \<Rightarrow> drop_loop attempt state rest (dropped + 1))
      | Err e \<Rightarrow> Err e)"

text \<open>A request that fits is reversed when asked, serialized and inspected.\<close>

definition finish_request :: "Wire \<Rightarrow> WireVariant \<Rightarrow> str \<Rightarrow> Request \<Rightarrow> (Request \<times> nat list, WideError) result option" where
  "finish_request W variant question request =
     (case (if variant = ReverseOptionOrder then with_reversed_choice request question else Ok request) of
        Err e \<Rightarrow> Some (Err (CodecRefused e))
      | Ok request' \<Rightarrow>
          (case to_json (wi_serde W) request' of
             Err e \<Rightarrow> Some (Err (CodecRefused e))
           | Ok bytes \<Rightarrow>
               try_or (\<lambda>_. PrivacyRefused) (inspect_payload (wi_scanner W) redactor_default (wi_decode W) bytes)
                 (\<lambda>_. Some (Ok (request', bytes)))))"

text \<open>
  The outer loop over the caps, shared by the two stages: \<open>describe\<close> prepares the options under a cap,
  \<open>assemble\<close> builds a request with the remaining messages, \<open>finish\<close> checks the first that fits.
  A message dropped under one cap stays dropped under the next.
\<close>

fun cap_loop ::
  "('c \<Rightarrow> ('d, WideError) result option) \<Rightarrow> ('d \<Rightarrow> RenderedContextPayload \<Rightarrow> (Request, CodecError) result)
     \<Rightarrow> ('c \<Rightarrow> 'd \<Rightarrow> usize \<Rightarrow> Request \<Rightarrow> ('r, WideError) result option)
     \<Rightarrow> RenderedContextPayload \<Rightarrow> 'c list \<Rightarrow> RenderedMessage list \<Rightarrow> usize \<Rightarrow> ('r, WideError) result option" where
  "cap_loop describe assemble finish state [] ms dropped = Some (Err RequestTooLarge)"
| "cap_loop describe assemble finish state (cap # caps) ms dropped =
     try_or (\<lambda>e. e) (describe cap) (\<lambda>d.
     case drop_loop (assemble d) state ms dropped of
       Err e \<Rightarrow> Some (Err (CodecRefused e))
     | Ok (None, ms', dropped') \<Rightarrow> cap_loop describe assemble finish state caps ms' dropped'
     | Ok (Some request, ms', dropped') \<Rightarrow> finish cap d dropped' request)"

definition wide_complete ::
  "Wire \<Rightarrow> WireVariant \<Rightarrow> OptionMap \<Rightarrow> usize \<Rightarrow> Descriptions \<Rightarrow> usize \<Rightarrow> Request \<Rightarrow> (WideRequest, WideError) result option" where
  "wide_complete W variant options cap ds dropped request =
     try_or (\<lambda>e. e) (finish_request W variant WHICH request) (\<lambda>(request', bytes).
     Some (Ok \<lparr>wq_request = request', wq_options = options, wq_bytes = bytes,
       wq_trimming = \<lparr>tm_dropped_messages = dropped, tm_description_cap = cap,
         tm_omitted_description_scalars = ds_omitted ds, tm_redactions = ds_redactions ds\<rparr>\<rparr>))"

text \<open>The option map of the stage: only the limit of the map is reported as too many candidates.\<close>

definition stage_options :: "ResolvedRoster \<Rightarrow> SkillId list \<Rightarrow> WireVariant \<Rightarrow> (OptionMap, WideError) result" where
  "stage_options roster ids variant =
     (case (if variant = RenameOptionHandles then option_map_new_renamed roster ids else option_map_new roster ids) of
        Ok m \<Rightarrow> Ok m
      | Err LimitReached \<Rightarrow> Err TooManyCandidates
      | Err _ \<Rightarrow> Err IneligibleCandidate)"

definition wide_build_with_variant ::
  "Wire \<Rightarrow> ResolvedRoster \<Rightarrow> SkillId list \<Rightarrow> RenderedContextPayload \<Rightarrow> str \<Rightarrow> bool \<Rightarrow> WireVariant
     \<Rightarrow> (WideRequest, WideError) result option" where
  "wide_build_with_variant W roster admitted state model stuck variant =
     (if admitted = [] then Some (Err NoCandidates)
      else if length admitted > MAX_REAL_OPTIONS then Some (Err TooManyCandidates)
      else case stage_options roster admitted variant of
        Err e \<Rightarrow> Some (Err e)
      | Ok options \<Rightarrow>
          cap_loop (option_descriptions W options) (\<lambda>ds s. wide_assemble (wi_serde W) model s (ds_criteria ds) stuck)
            (wide_complete W variant options) state DESCRIPTION_CAPS (rc_recent_messages state) 0)"

definition wide_build ::
  "Wire \<Rightarrow> ResolvedRoster \<Rightarrow> SkillId list \<Rightarrow> RenderedContextPayload \<Rightarrow> str \<Rightarrow> bool \<Rightarrow> (WideRequest, WideError) result option" where
  "wide_build W roster admitted state model stuck = wide_build_with_variant W roster admitted state model stuck Canonical"

section \<open>Reading the answer\<close>

record Shortlisted =
  sl_skill :: AdvisorySkill
  sl_wide_probability :: f64

datatype WideDecision = LowNeed | Shortlist "Shortlisted list"

record WideOutcome =
  wo_needs_skill :: f64
  wo_none_probability :: f64
  wo_choice_confidence :: f64
  wo_phase :: "(str, f64) btree"
  wo_top :: usize
  wo_decision :: WideDecision
  wo_intrinsic_shortlist :: "Shortlisted list"

definition noul_answer :: "Response \<Rightarrow> str \<Rightarrow> (f64, WideError) result" where
  "noul_answer response key =
     (case bt_get (rs_answers response) key of Some (A_Noul v) \<Rightarrow> Ok v | _ \<Rightarrow> Err MissingAnswer)"

definition choice_answer :: "Response \<Rightarrow> str \<Rightarrow> (ChoiceAnswer, WideError) result" where
  "choice_answer response key =
     (case bt_get (rs_answers response) key of Some (A_Choice c) \<Rightarrow> Ok c | _ \<Rightarrow> Err MissingAnswer)"

definition ok_or_missing :: "'a option \<Rightarrow> ('a, WideError) result" where
  "ok_or_missing v = (case v of Some a \<Rightarrow> Ok a | None \<Rightarrow> Err MissingAnswer)"

definition needs_skill :: "f64 \<Rightarrow> f64 \<Rightarrow> f64 \<Rightarrow> f64" where
  "needs_skill specialized_method material_help context_suffices =
     f64_div (f64_add (f64_add specialized_method material_help) (f64_sub (Fin 1) context_suffices)) (Fin 3)"

fun rank_options :: "(str, f64) btree \<Rightarrow> (OptionId \<times> AdvisorySkill) list \<Rightarrow> (Shortlisted list, WideError) result" where
  "rank_options normalized [] = Ok []"
| "rank_options normalized ((option, skill) # rest) =
     and_then (ok_or_missing (bt_get normalized option)) (\<lambda>p.
     map_ok ((#) \<lparr>sl_skill = skill, sl_wide_probability = p\<rparr>) (rank_options normalized rest))"

definition sort_shortlisted :: "Shortlisted list \<Rightarrow> Shortlisted list" where
  "sort_shortlisted xs = sort_key (\<lambda>x. (desc_key (sl_wide_probability x), bi_id (as_binding (sl_skill x)))) xs"

definition wide_evaluate :: "WideRequest \<Rightarrow> Response \<Rightarrow> f64 \<Rightarrow> Sizes \<Rightarrow> (WideOutcome, WideError) result" where
  "wide_evaluate wide response gate sizes =
     and_then (validate_gate gate) (\<lambda>gate.
     and_then (noul_answer response GATE_SPECIALIZED_METHOD) (\<lambda>specialized.
     and_then (noul_answer response GATE_MATERIAL_HELP) (\<lambda>material.
     and_then (noul_answer response GATE_CONTEXT_SUFFICES) (\<lambda>suffices.
     let needs = needs_skill specialized material suffices in
     and_then (choice_answer response WHICH) (\<lambda>which.
     and_then (choice_answer response PHASE) (\<lambda>phase.
     let normalized = normalized_probabilities which in
     and_then (ok_or_missing (bt_get normalized NONE_OPTION)) (\<lambda>none_probability.
     let (shortlist_size, top_k) = sizes_effective sizes (length (wq_options wide)) in
     and_then (rank_options normalized (wq_options wide)) (\<lambda>candidates.
     let ranked = take shortlist_size (sort_shortlisted candidates) in
     Ok \<lparr>wo_needs_skill = needs, wo_none_probability = none_probability, wo_choice_confidence = ca_confidence which,
       wo_phase = normalized_probabilities phase, wo_top = top_k,
       wo_decision = (if f64_lt needs gate then LowNeed else Shortlist ranked),
       wo_intrinsic_shortlist = ranked\<rparr>))))))))"

section \<open>Trimming is a first fit\<close>

declare drop_loop.simps [simp del]

text \<open>What is tried, in order: under the first cap every number of dropped messages, then only the smaller caps.\<close>

fun attempts :: "'c list \<Rightarrow> nat \<Rightarrow> nat \<Rightarrow> ('c \<times> nat) list" where
  "attempts [] d n = []"
| "attempts (cap # caps) d n = map (Pair cap) [d..<Suc n] @ map (\<lambda>c. (c, n)) caps"

definition keeping :: "RenderedContextPayload \<Rightarrow> nat \<Rightarrow> RenderedContextPayload" where
  "keeping state d = state\<lparr>rc_recent_messages := drop d (rc_recent_messages state)\<rparr>"

definition too_large ::
  "('c \<Rightarrow> ('d, WideError) result option) \<Rightarrow> ('d \<Rightarrow> RenderedContextPayload \<Rightarrow> (Request, CodecError) result)
     \<Rightarrow> RenderedContextPayload \<Rightarrow> 'c \<times> nat \<Rightarrow> bool" where
  "too_large describe assemble state a \<longleftrightarrow>
     (\<exists>ds. describe (fst a) = Some (Ok ds) \<and> assemble ds (keeping state (snd a)) = Err TooLarge)"

definition attempt ::
  "('c \<Rightarrow> ('d, WideError) result option) \<Rightarrow> ('d \<Rightarrow> RenderedContextPayload \<Rightarrow> (Request, CodecError) result)
     \<Rightarrow> ('c \<Rightarrow> 'd \<Rightarrow> usize \<Rightarrow> Request \<Rightarrow> ('r, WideError) result option) \<Rightarrow> RenderedContextPayload
     \<Rightarrow> 'c \<times> nat \<Rightarrow> ('r, WideError) result option" where
  "attempt describe assemble finish state a =
     try_or (\<lambda>e. e) (describe (fst a)) (\<lambda>ds.
     case assemble ds (keeping state (snd a)) of
       Err e \<Rightarrow> Some (Err (CodecRefused e))
     | Ok request \<Rightarrow> finish (fst a) ds (snd a) request)"

definition first_fit ::
  "('c \<Rightarrow> ('d, WideError) result option) \<Rightarrow> ('d \<Rightarrow> RenderedContextPayload \<Rightarrow> (Request, CodecError) result)
     \<Rightarrow> ('c \<Rightarrow> 'd \<Rightarrow> usize \<Rightarrow> Request \<Rightarrow> ('r, WideError) result option) \<Rightarrow> RenderedContextPayload
     \<Rightarrow> ('c \<times> nat) list \<Rightarrow> ('r, WideError) result option" where
  "first_fit describe assemble finish state tried =
     (case List.find (\<lambda>a. \<not> too_large describe assemble state a) tried of
        None \<Rightarrow> Some (Err RequestTooLarge)
      | Some a \<Rightarrow> attempt describe assemble finish state a)"

lemma drop_loop_first:
  assumes "d \<le> n" "n = length (rc_recent_messages state)"
  shows "drop_loop A state (drop d (rc_recent_messages state)) d =
    (case List.find (\<lambda>d. A (keeping state d) \<noteq> Err TooLarge) [d..<Suc n] of
       None \<Rightarrow> Ok (None, [], n)
     | Some d' \<Rightarrow> (case A (keeping state d') of
         Ok r \<Rightarrow> Ok (Some r, drop d' (rc_recent_messages state), d') | Err e \<Rightarrow> Err e))"
  using assms(1)
proof (induction d rule: inc_induct)
  case base
  then show ?case
    by (subst drop_loop.simps) (auto simp: keeping_def assms(2) split: result.splits CodecError.splits)
next
  case (step d)
  then have ms: "drop d (rc_recent_messages state) = rc_recent_messages state ! d # drop (Suc d) (rc_recent_messages state)"
    by (simp add: assms(2) Cons_nth_drop_Suc)
  have upt: "[d..<Suc n] = d # [Suc d..<Suc n]" using step by (simp add: upt_conv_Cons del: upt_Suc)
  have state: "state\<lparr>rc_recent_messages := rc_recent_messages state ! d # drop (Suc d) (rc_recent_messages state)\<rparr> = keeping state d"
    by (simp only: keeping_def ms)
  consider r where "A (keeping state d) = Ok r" | "A (keeping state d) = Err TooLarge"
    | e where "A (keeping state d) = Err e" "e \<noteq> TooLarge"
    by (cases "A (keeping state d)") auto
  then show ?case
  proof cases
    case 1
    then show ?thesis unfolding ms upt by (subst drop_loop.simps) (simp add: state ms)
  next
    case 2
    then show ?thesis unfolding ms upt
      by (subst drop_loop.simps) (simp add: state step.IH del: upt_Suc)
  next
    case 3
    then show ?thesis unfolding ms upt by (subst drop_loop.simps) (simp add: state split: CodecError.splits)
  qed
qed

lemma find_append: "List.find P (xs @ ys) = (case List.find P xs of None \<Rightarrow> List.find P ys | Some x \<Rightarrow> Some x)"
  by (induction xs) auto

lemma find_map: "List.find P (map f xs) = map_option f (List.find (P \<circ> f) xs)"
  by (induction xs) auto

lemma cap_loop_first_fit:
  assumes "d \<le> n" "n = length (rc_recent_messages state)"
  shows "cap_loop describe assemble finish state caps (drop d (rc_recent_messages state)) d =
    first_fit describe assemble finish state (attempts caps d n)"
  using assms(1)
proof (induction caps arbitrary: d)
  case Nil
  then show ?case by (simp add: first_fit_def)
next
  case (Cons cap caps)
  have rest: "attempts caps n n = map (\<lambda>c. (c, n)) caps" by (cases caps) simp_all
  have smaller: "cap_loop describe assemble finish state caps [] n = first_fit describe assemble finish state (map (\<lambda>c. (c, n)) caps)"
    using Cons.IH [of n] rest assms(2) by simp
  show ?case
  proof (cases "describe cap")
    case None
    then show ?thesis using Cons.prems
      by (simp add: first_fit_def attempt_def try_or_def too_large_def upt_conv_Cons del: upt_Suc)
  next
    case (Some r)
    show ?thesis
    proof (cases r)
      case (Err e)
      then show ?thesis using Cons.prems Some
        by (simp add: first_fit_def attempt_def try_or_def too_large_def upt_conv_Cons del: upt_Suc)
    next
      case (Ok ds)
      have P: "(\<lambda>a. \<not> too_large describe assemble state a) \<circ> Pair cap = (\<lambda>d. assemble ds (keeping state d) \<noteq> Err TooLarge)"
        using Some Ok by (auto simp: too_large_def)
      show ?thesis
      proof (cases "List.find (\<lambda>d. assemble ds (keeping state d) \<noteq> Err TooLarge) [d..<Suc n]")
        case None
        then show ?thesis
          by (simp add: Some Ok try_or_def drop_loop_first [OF Cons.prems assms(2)] smaller first_fit_def find_append find_map P
              del: upt_Suc)
      next
        case (Some d')
        then show ?thesis
          by (simp add: \<open>describe cap = Some r\<close> Ok try_or_def drop_loop_first [OF Cons.prems assms(2)] first_fit_def find_append
              find_map P attempt_def split: result.splits del: upt_Suc)
      qed
    qed
  qed
qed

section \<open>The request that is sent\<close>

lemma try_or_Ok: "try_or conv m f = Some (Ok b) \<longleftrightarrow> (\<exists>a. m = Some (Ok a) \<and> f a = Some (Ok b))"
  by (auto simp: try_or_def split: option.splits result.splits)

lemma descriptions_loop_criteria:
  "descriptions_loop W cap entries ds = Some (Ok ds') \<Longrightarrow>
     \<exists>texts. ds_criteria ds' = ds_criteria ds @ zip (map fst entries) texts \<and> length texts = length entries"
proof (induction entries arbitrary: ds)
  case (Cons e entries)
  obtain option skill where e: "e = (option, skill)" by (cases e)
  then obtain t om r where "describe_option W cap skill = Some (Ok (t, om, r))"
      "descriptions_loop W cap entries \<lparr>ds_criteria = ds_criteria ds @ [(option, t)], ds_omitted = ds_omitted ds + om,
        ds_redactions = ds_redactions ds + r\<rparr> = Some (Ok ds')"
    using Cons.prems by (auto simp: try_or_Ok)
  with Cons.IH obtain texts where "ds_criteria ds' = (ds_criteria ds @ [(option, t)]) @ zip (map fst entries) texts"
      "length texts = length entries" by fastforce
  then show ?case by (intro exI [of _ "t # texts"]) (simp add: e)
qed simp

lemma bt_insert_fresh:
  "bt_get m k = None \<Longrightarrow> set (bt_insert k v m) = insert (k, v) (set m) \<and> length (bt_insert k v m) = Suc (length m)"
  by (induction k v m rule: bt_insert.induct) (auto simp: bt_get_def split: if_splits)

lemma collect_criteria_Ok:
  "collect_criteria cs m = Ok m' \<Longrightarrow> bt_sorted m \<Longrightarrow>
     bt_sorted m' \<and> set m' = set m \<union> set cs \<and> length m' = length m + length cs
     \<and> (cs = [] \<or> length m' \<le> MAX_CHOICE_OPTIONS)"
proof (induction cs arbitrary: m)
  case (Cons c cs)
  obtain k d where c: "c = (k, d)" by (cases c)
  have fresh: "bt_get m k = None" "length (bt_insert k d m) \<le> MAX_CHOICE_OPTIONS"
    and rest: "collect_criteria cs (bt_insert k d m) = Ok m'"
    using Cons.prems(1) by (auto simp: c split: if_splits)
  show ?case
    using Cons.IH [OF rest bt_sorted_insert [OF Cons.prems(2)]] fresh bt_insert_fresh [OF fresh(1), of d] rest
    by (cases cs) (auto simp: c)
qed simp

lemma collect_questions_Ok:
  "collect_questions qs m = Ok m' \<Longrightarrow> bt_sorted m \<Longrightarrow> bt_sorted m' \<and> set m' = set m \<union> set qs"
proof (induction qs arbitrary: m)
  case (Cons c cs)
  obtain k d where c: "c = (k, d)" by (cases c)
  have fresh: "bt_get m k = None" and rest: "collect_questions cs (bt_insert k d m) = Ok m'"
    using Cons.prems(1) by (auto simp: c split: if_splits)
  show ?case
    using Cons.IH [OF rest bt_sorted_insert [OF Cons.prems(2)]] bt_insert_fresh [OF fresh, of d] by (auto simp: c)
qed simp

lemma question_choice_Ok:
  assumes "question_choice i cs = Ok q"
  shows "\<exists>criteria. q = Q_Choice i criteria \<and> bt_sorted criteria \<and> set criteria = set cs
    \<and> length criteria = length cs \<and> length cs \<le> MAX_CHOICE_OPTIONS"
proof -
  obtain criteria where c: "collect_criteria cs [] = Ok criteria" "q = Q_Choice i criteria"
    using assms by (auto simp: question_choice_def Let_def)
  from collect_criteria_Ok [OF c(1)] show ?thesis by (auto simp: c(2) MAX_CHOICE_OPTIONS_def)
qed

lemma request_new_Ok:
  assumes "request_new S model state qs = Ok req"
  shows "bt_sorted (rq_questions req) \<and> set (rq_questions req) = set qs \<and> rq_model req = model \<and> rq_state req = state
    \<and> rq_reverse_choice req = None \<and> (\<exists>b. to_json S req = Ok b)"
proof -
  obtain m where m: "collect_questions qs [] = Ok m"
      "req = \<lparr>rq_model = model, rq_state = state, rq_questions = m, rq_reverse_choice = None\<rparr>" "\<exists>b. to_json S req = Ok b"
    using assms by (fastforce simp: request_new_def Let_def)
  from collect_questions_Ok [OF m(1)] show ?thesis using m(3) by (simp add: m(2))
qed

definition same_questions :: "Request \<Rightarrow> Request \<Rightarrow> bool" where
  "same_questions req req' \<longleftrightarrow> rq_questions req' = rq_questions req \<and> rq_model req' = rq_model req \<and> rq_state req' = rq_state req"

lemma finish_request_Ok:
  assumes "finish_request W variant question req = Some (Ok (req', bytes))"
  shows "same_questions req req' \<and> to_json (wi_serde W) req' = Ok bytes
    \<and> (\<exists>n. inspect_payload (wi_scanner W) redactor_default (wi_decode W) bytes = Some (Ok n))
    \<and> rq_reverse_choice req' = (if variant = ReverseOptionOrder then Some question else rq_reverse_choice req)"
  using assms
  by (auto simp: finish_request_def try_or_Ok with_reversed_choice_def same_questions_def
      split: if_splits result.splits option.splits Question.splits)


lemma option_keys_sorted:
  assumes "n \<le> 1000"
  shows "sorted_wrt (<) (map (option_key [l]) [0..<n])"
  using assms by (auto simp: sorted_wrt_iff_nth_less option_key_less)

lemma option_key_not_none: "i < 1000 \<Longrightarrow> l \<in> {CHR ''o'', CHR ''r''} \<Longrightarrow> option_key [l] i \<noteq> NONE_OPTION"
  by (auto simp: option_key_value NONE_OPTION_def scalars_def)

text \<open>The options of a stage: one per candidate, each of an eligible binding and no file twice.\<close>

definition offers :: "ResolvedRoster \<Rightarrow> SkillId list \<Rightarrow> OptionMap \<Rightarrow> bool" where
  "offers roster ids options \<longleftrightarrow> bt_sorted options \<and> NONE_OPTION \<notin> set (bt_keys options)
     \<and> mset (bt_values options) = mset (map (advisory_at roster) ids)
     \<and> (\<forall>c \<in> set (bt_values options). eligible_binding (as_binding c))
     \<and> (\<forall>i \<in> set ids. bt_get (ro_ids roster) i \<noteq> None)
     \<and> distinct (map (\<lambda>i. fst (the (bt_get (ro_ids roster) i))) ids)"

lemma offers_zip:
  assumes "cs = map (advisory_at roster) ids" "length cs \<le> 254" "mset cs' = mset cs" "l \<in> {CHR ''o'', CHR ''r''}"
    and "\<forall>c \<in> set cs. eligible_binding (as_binding c)" "distinct (map (\<lambda>i. fst (the (bt_get (ro_ids roster) i))) ids)"
    and "\<forall>i \<in> set ids. bt_get (ro_ids roster) i \<noteq> None"
  shows "offers roster ids (zip (map (option_key [l]) [0..<length cs']) cs')"
proof -
  have len: "length cs' \<le> 254" using assms(2,3) size_mset by metis
  have same: "set cs' = set cs" by (rule mset_eq_setD [OF assms(3)])
  let ?z = "zip (map (option_key [l]) [0..<length cs']) cs'"
  have ks: "map fst ?z = map (option_key [l]) [0..<length cs']" and vs: "map snd ?z = cs'" by simp_all
  have "sorted_wrt (<) (map fst ?z)"
    unfolding ks using option_keys_sorted [of "length cs'" l] len by simp
  moreover have "NONE_OPTION \<notin> set (map fst ?z)"
  proof
    assume "NONE_OPTION \<in> set (map fst ?z)"
    then obtain i where "i < length cs'" "NONE_OPTION = option_key [l] i" unfolding ks by auto
    then show False using option_key_not_none [of i l] assms(4) len by simp
  qed
  moreover have "mset (map snd ?z) = mset (map (advisory_at roster) ids)" unfolding vs assms(3) assms(1) by (rule refl)
  moreover have "\<forall>c \<in> set (map snd ?z). eligible_binding (as_binding c)" unfolding vs same by (rule assms(5))
  ultimately show ?thesis
    unfolding offers_def bt_sorted_def bt_keys_def bt_values_def using assms(6,7) by blast
qed

lemma stage_options_Ok:
  assumes "stage_options roster ids variant = Ok options"
  shows "offers roster ids options"
proof -
  obtain m where m: "option_map_new roster ids = Ok m"
    and opts: "options = m \<or> option_map_new_renamed roster ids = Ok options"
    using assms
    by (auto simp: stage_options_def option_map_new_renamed_def split: if_splits result.splits ResolutionError.splits)
  obtain ds where sel: "select_options roster {} ids = Ok ds" and len: "length ids \<le> 254"
    and col: "collect_options ''o'' 0 (sort_key (\<lambda>c. sk_id (as_record c)) ds) [] = Ok m"
    using m by (auto simp: option_map_new_def split: if_splits)
  note S = select_options_Ok [OF sel]
  let ?cs = "sort_key (\<lambda>c. sk_id (as_record c)) ds"
  have n: "length ds \<le> 254" using S len by simp
  have m_zip: "m = zip (map (option_key ''o'') [0..<length ?cs]) ?cs"
    using collect_options_eq [of "CHR ''o''" 0 ?cs "[]"] col n by simp
  have vals: "bt_values m = ?cs" by (simp add: m_zip bt_values_def)
  have "option_map_new_renamed roster ids = Ok (zip (map (option_key ''r'') [0..<length (rev ?cs)]) (rev ?cs))"
    using collect_options_eq [of "CHR ''r''" 0 "rev ?cs" "[]"] n by (simp add: option_map_new_renamed_def m vals)
  with opts consider "options = zip (map (option_key ''o'') [0..<length ?cs]) ?cs"
    | "options = zip (map (option_key ''r'') [0..<length (rev ?cs)]) (rev ?cs)"
    using m_zip by auto
  then show ?thesis
  proof cases
    case 1
    then show ?thesis
      using offers_zip [of ds roster ids ?cs "CHR ''o''"] S n by auto
  next
    case 2
    then show ?thesis
      using offers_zip [of ds roster ids "rev ?cs" "CHR ''r''"] S n by auto
  qed
qed

definition wide_keys :: "bool \<Rightarrow> str set" where
  "wide_keys stuck = {WHICH, GATE_SPECIALIZED_METHOD, GATE_MATERIAL_HELP, GATE_CONTEXT_SUFFICES, PHASE} \<union> (if stuck then {STUCK} else {})"

text \<open>What a wide request asks: the questions, with one option per offered candidate and the sentinel.\<close>

definition asks_wide :: "Request \<Rightarrow> OptionMap \<Rightarrow> bool \<Rightarrow> bool" where
  "asks_wide req options stuck \<longleftrightarrow> bt_sorted (rq_questions req)
     \<and> set (bt_keys (rq_questions req)) = wide_keys stuck
     \<and> (\<exists>criteria. bt_get (rq_questions req) WHICH = Some (Q_Choice (String WHICH_INSTRUCTIONS) criteria)
          \<and> bt_sorted criteria \<and> length criteria = Suc (length options) \<and> length criteria \<le> MAX_CHOICE_OPTIONS
          \<and> set (bt_keys criteria) = insert NONE_OPTION (set (bt_keys options))
          \<and> bt_get criteria NONE_OPTION = Some NONE_DESCRIPTION)
     \<and> bt_get (rq_questions req) GATE_SPECIALIZED_METHOD = Some (noul SPECIALIZED_METHOD)
     \<and> bt_get (rq_questions req) GATE_MATERIAL_HELP = Some (noul MATERIAL_HELP)
     \<and> bt_get (rq_questions req) GATE_CONTEXT_SUFFICES = Some (noul CONTEXT_SUFFICES)
     \<and> (\<exists>phases. bt_get (rq_questions req) PHASE = Some (Q_Choice (String PHASE_INSTRUCTIONS) phases)
          \<and> bt_sorted phases \<and> set phases = set PHASES)
     \<and> (stuck \<longrightarrow> bt_get (rq_questions req) STUCK = Some (noul STUCK_INSTRUCTIONS))"

lemma option_descriptions_criteria:
  assumes "option_descriptions W options cap = Some (Ok ds)"
  shows "\<exists>texts. ds_criteria ds = zip (bt_keys options) texts @ [(NONE_OPTION, NONE_DESCRIPTION)] \<and> length texts = length options"
  using assms descriptions_loop_criteria [of W cap options "\<lparr>ds_criteria = [], ds_omitted = 0, ds_redactions = 0\<rparr>"]
  by (fastforce simp: option_descriptions_def try_or_Ok bt_keys_def)

lemma set_zip_keys: "length texts = length ks \<Longrightarrow> fst ` set (zip ks texts) = set ks"
  by (metis list.set_map map_fst_zip)

lemma wide_assemble_Ok:
  assumes "wide_assemble S model state criteria stuck = Ok req"
    and "criteria = zip (bt_keys options) texts @ [(NONE_OPTION, NONE_DESCRIPTION)]" "length texts = length options"
  shows "asks_wide req options stuck \<and> rq_model req = model \<and> rq_state req = payload_to_value state
    \<and> rq_reverse_choice req = None \<and> (\<exists>b. to_json S req = Ok b)"
proof -
  obtain which phase where q: "question_choice (String WHICH_INSTRUCTIONS) criteria = Ok which"
      "question_choice (String PHASE_INSTRUCTIONS) PHASES = Ok phase"
    and new: "request_new S model (payload_to_value state)
       ([(WHICH, which), (GATE_SPECIALIZED_METHOD, noul SPECIALIZED_METHOD), (GATE_MATERIAL_HELP, noul MATERIAL_HELP),
         (GATE_CONTEXT_SUFFICES, noul CONTEXT_SUFFICES), (PHASE, phase)]
        @ (if stuck then [(STUCK, noul STUCK_INSTRUCTIONS)] else [])) = Ok req"
    using assms(1) by (auto simp: wide_assemble_def)
  note Q = request_new_Ok [OF new]
  obtain c where c: "which = Q_Choice (String WHICH_INSTRUCTIONS) c" "bt_sorted c" "set c = set criteria"
      "length c = length criteria" "length criteria \<le> MAX_CHOICE_OPTIONS"
    using question_choice_Ok [OF q(1)] by blast
  obtain p where p: "phase = Q_Choice (String PHASE_INSTRUCTIONS) p" "bt_sorted p" "set p = set PHASES"
    using question_choice_Ok [OF q(2)] by blast
  have get: "bt_get (rq_questions req) k = Some v \<longleftrightarrow> (k, v) \<in> set (rq_questions req)" for k v
    using Q by (simp add: bt_get_entry)
  have keys: "set (bt_keys (rq_questions req)) = wide_keys stuck"
    using Q by (auto simp: bt_keys_def wide_keys_def)
  have len: "length (bt_keys options) = length texts" by (simp add: bt_keys_def assms(3))
  have ckeys: "set (bt_keys c) = insert NONE_OPTION (set (bt_keys options))"
    using set_zip_keys [OF len [symmetric]] by (auto simp: bt_keys_def [of c] c(3) assms(2))
  have none: "bt_get c NONE_OPTION = Some NONE_DESCRIPTION"
    using c(2) by (simp add: bt_get_entry c(3) assms(2))
  have "length c = Suc (length options)" using len by (simp add: c(4) assms(2,3))
  then show ?thesis
    using Q c p keys ckeys none by (auto simp: asks_wide_def get)
qed


text \<open>The fitting attempt behind a built request.\<close>

lemma first_fit_Ok:
  assumes "first_fit describe assemble finish state tried = Some (Ok r)"
  shows "\<exists>cap d ds request. (cap, d) \<in> set tried \<and> describe cap = Some (Ok ds) \<and> assemble ds (keeping state d) = Ok request
    \<and> finish cap ds d request = Some (Ok r)"
proof -
  obtain cap d where a: "(cap, d) \<in> set tried" "attempt describe assemble finish state (cap, d) = Some (Ok r)"
    using assms by (cases "List.find (\<lambda>a. \<not> too_large describe assemble state a) tried")
      (auto simp: first_fit_def find_Some_iff, metis nth_mem surj_pair)
  obtain ds where ds: "describe cap = Some (Ok ds)"
      "(case assemble ds (keeping state d) of Err e \<Rightarrow> Some (Err (CodecRefused e)) | Ok request \<Rightarrow> finish cap ds d request) = Some (Ok r)"
    using a(2) unfolding attempt_def try_or_Ok fst_conv snd_conv by blast
  then show ?thesis using a(1) by (auto split: result.splits)
qed

lemma cap_loop_start:
  "cap_loop describe assemble finish state caps (rc_recent_messages state) 0 =
     first_fit describe assemble finish state (attempts caps 0 (length (rc_recent_messages state)))"
  using cap_loop_first_fit [OF le0 refl, where state = state] by simp

lemma wide_build_first_fit:
  "wide_build_with_variant W roster admitted state model stuck variant =
     (if admitted = [] then Some (Err NoCandidates)
      else if length admitted > MAX_REAL_OPTIONS then Some (Err TooManyCandidates)
      else case stage_options roster admitted variant of
        Err e \<Rightarrow> Some (Err e)
      | Ok options \<Rightarrow>
          first_fit (option_descriptions W options) (\<lambda>ds s. wide_assemble (wi_serde W) model s (ds_criteria ds) stuck)
            (wide_complete W variant options) state (attempts DESCRIPTION_CAPS 0 (length (rc_recent_messages state))))"
  by (cases "stage_options roster admitted variant") (simp_all add: wide_build_with_variant_def cap_loop_start)

lemma attempts_bound: "(cap, d) \<in> set (attempts caps k n) \<Longrightarrow> k \<le> n \<Longrightarrow> cap \<in> set caps \<and> k \<le> d \<and> d \<le> n \<and> (cap \<noteq> hd caps \<longrightarrow> d = n)"
  by (cases caps) auto

definition inspected_clean :: "Wire \<Rightarrow> nat list \<Rightarrow> bool" where
  "inspected_clean W bytes \<longleftrightarrow> (\<exists>n. inspect_payload (wi_scanner W) redactor_default (wi_decode W) bytes = Some (Ok n))"

lemma wide_build_Ok:
  assumes "wide_build_with_variant W roster admitted state model stuck variant = Some (Ok w)"
  shows "admitted \<noteq> [] \<and> length admitted \<le> MAX_REAL_OPTIONS \<and> offers roster admitted (wq_options w)
    \<and> asks_wide (wq_request w) (wq_options w) stuck
    \<and> rq_model (wq_request w) = model
    \<and> rq_state (wq_request w) = payload_to_value (keeping state (tm_dropped_messages (wq_trimming w)))
    \<and> tm_dropped_messages (wq_trimming w) \<le> length (rc_recent_messages state)
    \<and> tm_description_cap (wq_trimming w) \<in> set DESCRIPTION_CAPS
    \<and> (tm_description_cap (wq_trimming w) \<noteq> WIDE_DESCRIPTION_MAX_SCALARS
         \<longrightarrow> tm_dropped_messages (wq_trimming w) = length (rc_recent_messages state))
    \<and> rq_reverse_choice (wq_request w) = (if variant = ReverseOptionOrder then Some WHICH else None)
    \<and> to_json (wi_serde W) (wq_request w) = Ok (wq_bytes w)
    \<and> length (wq_bytes w) \<le> MAX_REQUEST_BYTES \<and> inspected_clean W (wq_bytes w)"
proof -
  obtain options where size: "admitted \<noteq> []" "length admitted \<le> MAX_REAL_OPTIONS"
    and options: "stage_options roster admitted variant = Ok options"
    and fit: "first_fit (option_descriptions W options) (\<lambda>ds s. wide_assemble (wi_serde W) model s (ds_criteria ds) stuck)
      (wide_complete W variant options) state (attempts DESCRIPTION_CAPS 0 (length (rc_recent_messages state))) = Some (Ok w)"
    using assms by (auto simp: wide_build_first_fit split: if_splits result.splits)
  from first_fit_Ok [OF fit] obtain cap d ds request where a: "(cap, d) \<in> set (attempts DESCRIPTION_CAPS 0 (length (rc_recent_messages state)))"
      "option_descriptions W options cap = Some (Ok ds)"
      "wide_assemble (wi_serde W) model (keeping state d) (ds_criteria ds) stuck = Ok request"
      "wide_complete W variant options cap ds d request = Some (Ok w)"
    by blast
  obtain request' bytes where f: "finish_request W variant WHICH request = Some (Ok (request', bytes))"
      "w = \<lparr>wq_request = request', wq_options = options, wq_bytes = bytes,
       wq_trimming = \<lparr>tm_dropped_messages = d, tm_description_cap = cap,
         tm_omitted_description_scalars = ds_omitted ds, tm_redactions = ds_redactions ds\<rparr>\<rparr>"
    using a(4) by (auto simp: wide_complete_def try_or_Ok)
  obtain texts where texts: "ds_criteria ds = zip (bt_keys options) texts @ [(NONE_OPTION, NONE_DESCRIPTION)]"
      "length texts = length options"
    using option_descriptions_criteria [OF a(2)] by blast
  note A = wide_assemble_Ok [OF a(3) texts] and F = finish_request_Ok [OF f(1)]
  note B = attempts_bound [OF a(1), simplified]
  have "asks_wide request' options stuck" using A F by (simp add: asks_wide_def same_questions_def)
  moreover have "length bytes \<le> MAX_REQUEST_BYTES" using F by (auto simp: to_json_Ok)
  moreover have "hd DESCRIPTION_CAPS = WIDE_DESCRIPTION_MAX_SCALARS" by (simp add: DESCRIPTION_CAPS_def)
  ultimately show ?thesis
    using size stage_options_Ok [OF options] A F B by (simp add: f(2) inspected_clean_def same_questions_def)
qed

section \<open>A decoded answer is always evaluated\<close>

text \<open>Every number of the answer is a double.\<close>

definition wire_doubles :: "WireResponse \<Rightarrow> bool" where
  "wire_doubles wire \<longleftrightarrow> (\<forall>(k, a) \<in> set (wr_answers wire). \<forall>c ps conf. a = W_Choice c ps conf \<longrightarrow> (\<forall>p \<in> set (bt_values ps). f64_wf p))"

lemma decoded_answer:
  assumes "to_json S req = Ok bytes" "request_sorted req" "decode_wire req wire = Ok resp"
    and "bt_get (rq_questions req) k = Some q"
  shows "\<exists>a. (k, a) \<in> set (wr_answers wire) \<and> bt_get (rs_answers resp) k = Some (accepted a) \<and> answer_fits q a"
proof -
  note D = decode_wire_Ok [OF assms(1,2), THEN iffD1, OF assms(3)]
  have "k \<in> set (bt_keys (wr_answers wire))" using D bt_get_in [OF assms(4)] by simp
  then obtain a where a: "bt_get (wr_answers wire) k = Some a" using bt_get_None_iff by fastforce
  then have mem: "(k, a) \<in> set (wr_answers wire)" by (simp add: bt_get_def map_of_SomeD)
  moreover have "answer_fits q a" using D mem assms(4) by fastforce
  moreover have "bt_get (rs_answers resp) k = Some (accepted a)"
    using D a by (simp add: bt_get_def map_of_map)
  ultimately show ?thesis by blast
qed

lemma noul_answered:
  assumes "to_json S req = Ok bytes" "request_sorted req" "decode_wire req wire = Ok resp"
    and "bt_get (rq_questions req) k = Some (noul i)"
  shows "\<exists>v. noul_answer resp k = Ok v \<and> unit_value v"
proof -
  obtain a where a: "bt_get (rs_answers resp) k = Some (accepted a)" "answer_fits (Q_Noul (String i) None) a"
    using decoded_answer [OF assms] by (auto simp: noul_def)
  then show ?thesis by (cases a) (auto simp: noul_answer_def)
qed

lemma choice_answered:
  assumes "to_json S req = Ok bytes" "request_sorted req" "decode_wire req wire = Ok resp" "wire_doubles wire"
    and "bt_get (rq_questions req) k = Some (Q_Choice i criteria)" "length criteria \<le> MAX_CHOICE_OPTIONS"
  shows "\<exists>c. choice_answer resp k = Ok c \<and> unit_value (ca_confidence c)
    \<and> bt_keys (normalized_probabilities c) = bt_keys criteria
    \<and> (\<forall>opt \<in> set (bt_keys criteria). \<exists>v. bt_get (normalized_probabilities c) opt = Some v \<and> unit_value v)
    \<and> (\<forall>v \<in> set (bt_values (normalized_probabilities c)). unit_value v)"
proof -
  obtain a where a: "(k, a) \<in> set (wr_answers wire)" "bt_get (rs_answers resp) k = Some (accepted a)"
      "answer_fits (Q_Choice i criteria) a"
    using decoded_answer [OF assms(1-3,5)] by blast
  obtain ch ps conf where W: "a = W_Choice ch ps conf" using a(3) by (cases a) auto
  obtain c where c: "accepted a = A_Choice c" "ca_raw_probabilities c = ps" "ca_confidence c = conf" by (simp add: W)
  have keys: "bt_keys (normalized_probabilities c) = bt_keys criteria"
    using a(3) c by (auto simp: W normalized_probabilities_def bt_keys_def o_def split_def)
  have sorted: "distinct (map fst criteria)"
    using assms(2,5) by (auto simp: request_sorted_def bt_sorted_def strict_sorted_iff)
  have doubles: "\<forall>p \<in> set (bt_values ps). f64_wf p" using assms(4) a(1) W by (auto simp: wire_doubles_def)
  have unit: "unit_value v" if "bt_get (normalized_probabilities c) opt = Some v" for opt v
    by (rule normalized_unit [OF a(3) [unfolded W] assms(6) doubles c(1) [symmetric, unfolded W]])
      (use that in \<open>simp add: normalized_get\<close>)
  have get: "\<exists>v. bt_get (normalized_probabilities c) opt = Some v" if "opt \<in> set (bt_keys criteria)" for opt
    using that keys bt_get_None_iff [of "normalized_probabilities c" opt] by fastforce
  have "distinct (bt_keys (normalized_probabilities c))" using sorted keys by (simp add: bt_keys_def)
  then have vals: "\<exists>opt. bt_get (normalized_probabilities c) opt = Some v" if "v \<in> set (bt_values (normalized_probabilities c))" for v
    using that by (fastforce simp: bt_get_def bt_keys_def bt_values_def map_of_eq_Some_iff)
  have "unit_value conf" using a(3) by (simp add: W)
  moreover have "choice_answer resp k = Ok c" using a(2) c(1) by (simp add: choice_answer_def)
  ultimately show ?thesis using keys unit get vals c(3) by blast
qed

lemma needs_skill_unit:
  assumes "unit_value a" "unit_value b" "unit_value c"
  shows "unit_value (needs_skill a b c)"
proof -
  obtain p q r where v: "f64_val a = Some p" "f64_val b = Some q" "f64_val c = Some r"
      "0 \<le> p" "p \<le> 1" "0 \<le> q" "q \<le> 1" "0 \<le> r" "r \<le> 1"
    using assms by (auto simp: f64_within_val)
  have rep: "rep 2" "rep 3" using rep_of_int [of 2] rep_of_int [of 3] by simp_all
  let ?s = "round64 (p + q)" and ?t = "round64 (1 - r)"
  have s: "0 \<le> ?s" "?s \<le> 2" "0 \<le> ?t" "?t \<le> 1"
    using v rep by (auto intro!: round64_ge round64_le simp del: of_int_numeral)
  let ?u = "round64 (?s + ?t)"
  have u: "0 \<le> ?u" "?u \<le> 3" using s rep by (simp_all add: round64_ge round64_le)
  have "f64_val (f64_add a b) = Some ?s" using f64_val_add [OF v(1,2)] s by simp
  moreover have "f64_val (f64_sub (Fin 1) c) = Some ?t" using f64_val_sub [OF _ v(3), of "Fin 1" 1] s by simp
  ultimately have "f64_val (f64_add (f64_add a b) (f64_sub (Fin 1) c)) = Some ?u"
    using f64_val_add [of "f64_add a b" ?s "f64_sub (Fin 1) c" ?t] u by simp
  then show ?thesis unfolding needs_skill_def by (rule div_unit [where q = 3]) (use u in auto)
qed

lemma rank_options_total:
  assumes "\<forall>opt \<in> set (bt_keys options). \<exists>v. bt_get normalized opt = Some v \<and> unit_value v"
  shows "\<exists>xs. rank_options normalized options = Ok xs \<and> map sl_skill xs = bt_values options
    \<and> (\<forall>x \<in> set xs. unit_value (sl_wide_probability x))
    \<and> map (Some \<circ> sl_wide_probability) xs = map (bt_get normalized) (bt_keys options)"
  using assms
proof (induction options)
  case Nil
  then show ?case by (simp add: bt_values_def bt_keys_def)
next
  case (Cons e options)
  obtain option skill where e: "e = (option, skill)" by (cases e)
  obtain v where v: "bt_get normalized option = Some v" "unit_value v" using Cons.prems by (auto simp: e bt_keys_def)
  have "\<forall>opt \<in> set (bt_keys options). \<exists>v. bt_get normalized opt = Some v \<and> unit_value v"
    using Cons.prems by (simp add: e bt_keys_def)
  from Cons.IH [OF this] obtain xs where xs: "rank_options normalized options = Ok xs" "map sl_skill xs = bt_values options"
      "\<forall>x \<in> set xs. unit_value (sl_wide_probability x)"
      "map (Some \<circ> sl_wide_probability) xs = map (bt_get normalized) (bt_keys options)"
    by blast
  show ?case
    by (rule exI [of _ "\<lparr>sl_skill = skill, sl_wide_probability = v\<rparr> # xs"])
      (use xs v in \<open>simp add: e ok_or_missing_def bt_keys_def bt_values_def comp_def\<close>)
qed


lemma asks_wide_question:
  assumes "asks_wide req options stuck" "bt_get (rq_questions req) k = Some (Q_Choice i c)"
  shows "k = WHICH \<or> k = PHASE"
proof -
  note A = assms(1) [unfolded asks_wide_def noul_def]
  have "k \<in> wide_keys stuck" using A bt_get_in [OF assms(2)] by blast
  then consider "k = WHICH" | "k = PHASE" | "k = GATE_SPECIALIZED_METHOD" | "k = GATE_MATERIAL_HELP"
    | "k = GATE_CONTEXT_SUFFICES" | "k = STUCK" "stuck"
    unfolding wide_keys_def by (cases stuck) auto
  then show ?thesis
  proof cases
    case 3
    with A assms(2) show ?thesis by (metis Question.distinct(1) option.inject)
  next
    case 4
    with A assms(2) show ?thesis by (metis Question.distinct(1) option.inject)
  next
    case 5
    with A assms(2) show ?thesis by (metis Question.distinct(1) option.inject)
  next
    case 6
    with A assms(2) show ?thesis by (metis Question.distinct(1) option.inject)
  qed simp_all
qed

lemma asks_wide_sorted:
  assumes "asks_wide req options stuck"
  shows "request_sorted req"
proof -
  obtain criteria phases where A: "bt_sorted (rq_questions req)" "bt_get (rq_questions req) WHICH = Some (Q_Choice (String WHICH_INSTRUCTIONS) criteria)"
      "bt_sorted criteria" "bt_get (rq_questions req) PHASE = Some (Q_Choice (String PHASE_INSTRUCTIONS) phases)" "bt_sorted phases"
    using assms unfolding asks_wide_def by blast
  have "bt_sorted c" if "bt_get (rq_questions req) k = Some (Q_Choice i c)" for k i c
    using asks_wide_question [OF assms that] A that by (metis Question.inject(1) option.inject)
  with A(1) show ?thesis unfolding request_sorted_def by blast
qed

definition unit_outcome :: "WideOutcome \<Rightarrow> bool" where
  "unit_outcome out \<longleftrightarrow> unit_value (wo_needs_skill out) \<and> unit_value (wo_none_probability out)
     \<and> unit_value (wo_choice_confidence out) \<and> (\<forall>v \<in> set (bt_values (wo_phase out)). unit_value v)
     \<and> set (bt_keys (wo_phase out)) = fst ` set PHASES
     \<and> (\<forall>x \<in> set (wo_intrinsic_shortlist out). unit_value (sl_wide_probability x))"

lemma wide_evaluates:
  assumes asked: "asks_wide req options stuck" "to_json S req = Ok bytes"
    and decoded: "decode_wire req wire = Ok resp" "wire_doubles wire"
    and wide: "wq_request w = req" "wq_options w = options" and gate: "f64_within (Fin 0) (Fin 1) gate"
  shows "\<exists>out. wide_evaluate w resp gate sizes = Ok out \<and> unit_outcome out"
proof -
  note sorted = asks_wide_sorted [OF asked(1)]
  note N = noul_answered [OF asked(2) sorted decoded(1)] and C = choice_answered [OF asked(2) sorted decoded]
  obtain criteria where criteria: "bt_get (rq_questions req) WHICH = Some (Q_Choice (String WHICH_INSTRUCTIONS) criteria)"
      "length criteria \<le> MAX_CHOICE_OPTIONS" "set (bt_keys criteria) = insert NONE_OPTION (set (bt_keys options))"
    using asked(1) by (auto simp: asks_wide_def)
  obtain phases where phases: "bt_get (rq_questions req) PHASE = Some (Q_Choice (String PHASE_INSTRUCTIONS) phases)"
      "bt_sorted phases" "set phases = set PHASES"
    using asked(1) by (auto simp: asks_wide_def)
  have "length phases \<le> MAX_CHOICE_OPTIONS"
    using phases(1) asked(2) bt_values_get [of "rq_questions req"] sorted
    by (fastforce simp: to_json_Ok validate_question_Ok request_sorted_def)
  from C [OF phases(1) this] obtain p where p: "choice_answer resp PHASE = Ok p"
      "bt_keys (normalized_probabilities p) = bt_keys phases" "\<forall>v \<in> set (bt_values (normalized_probabilities p)). unit_value v"
    by blast
  from C [OF criteria(1,2)] obtain c where c: "choice_answer resp WHICH = Ok c" "unit_value (ca_confidence c)"
      "\<forall>opt \<in> set (bt_keys criteria). \<exists>v. bt_get (normalized_probabilities c) opt = Some v \<and> unit_value v"
    by blast
  obtain v1 v2 v3 where v: "noul_answer resp GATE_SPECIALIZED_METHOD = Ok v1" "unit_value v1"
      "noul_answer resp GATE_MATERIAL_HELP = Ok v2" "unit_value v2" "noul_answer resp GATE_CONTEXT_SUFFICES = Ok v3" "unit_value v3"
    using N asked(1) unfolding asks_wide_def by meson
  obtain none where none: "bt_get (normalized_probabilities c) NONE_OPTION = Some none" "unit_value none"
    using c(3) criteria(3) by blast
  have "\<forall>opt \<in> set (bt_keys options). \<exists>v. bt_get (normalized_probabilities c) opt = Some v \<and> unit_value v"
    using c(3) criteria(3) by blast
  from rank_options_total [OF this] obtain xs where xs: "rank_options (normalized_probabilities c) options = Ok xs"
      "\<forall>x \<in> set xs. unit_value (sl_wide_probability x)" by blast
  have "set (take k (sort_shortlisted xs)) \<subseteq> set xs" for k
    using set_take_subset [of k "sort_shortlisted xs"] by (simp add: sort_shortlisted_def)
  moreover have "set (bt_keys phases) = fst ` set PHASES" by (simp add: bt_keys_def phases(3))
  ultimately show ?thesis
    using v p c none xs needs_skill_unit [OF v(2,4,6)]
    by (auto simp: wide_evaluate_def validate_gate_def gate ok_or_missing_def Let_def sizes_effective_def wide unit_outcome_def
        subset_iff)
qed


section \<open>The shortlist\<close>

text \<open>One candidate goes before another: by a greater probability, and by the smaller identifier among equals.\<close>

definition listed_before :: "Shortlisted \<Rightarrow> Shortlisted \<Rightarrow> bool" where
  "listed_before x y \<longleftrightarrow> sl_wide_probability y < sl_wide_probability x
     \<or> sl_wide_probability x = sl_wide_probability y \<and> bi_id (as_binding (sl_skill x)) \<le> bi_id (as_binding (sl_skill y))"

lemma listed_before_key:
  "listed_before x y \<longleftrightarrow> (desc_key (sl_wide_probability x), bi_id (as_binding (sl_skill x)))
     \<le> (desc_key (sl_wide_probability y), bi_id (as_binding (sl_skill y)))"
proof -
  have "desc_key a \<le> desc_key b \<longleftrightarrow> b < a \<or> a = b" for a b by (simp add: le_less desc_key_less desc_key_eq)
  then show ?thesis by (auto simp: listed_before_def desc_key_less)
qed

lemma rank_options_Ok:
  "rank_options normalized options = Ok xs \<longleftrightarrow>
     map (\<lambda>x. (sl_skill x, Some (sl_wide_probability x))) xs = map (\<lambda>(opt, skill). (skill, bt_get normalized opt)) options"
proof (induction options arbitrary: xs)
  case Nil
  then show ?case by auto
next
  case (Cons e options)
  obtain option skill where e: "e = (option, skill)" by (cases e)
  show ?case
  proof (cases "bt_get normalized option")
    case None
    then show ?thesis by (auto simp: e ok_or_missing_def Cons_eq_map_conv)
  next
    case (Some p)
    show ?thesis
    proof (cases xs)
      case Nil
      then show ?thesis by (auto simp: e ok_or_missing_def Some map_ok_eq_Ok)
    next
      case (Cons y ys)
      then show ?thesis
        using Cons.IH [of ys] by (cases y) (auto simp: e ok_or_missing_def Some map_ok_eq_Ok)
    qed
  qed
qed

lemma sort_shortlisted_sorted: "sorted_wrt listed_before (sort_shortlisted xs)"
proof -
  have "sorted (map (\<lambda>x. (desc_key (sl_wide_probability x), bi_id (as_binding (sl_skill x)))) (sort_shortlisted xs))"
    by (simp add: sort_shortlisted_def)
  then show ?thesis by (simp add: sorted_wrt_map listed_before_key [abs_def])
qed

text \<open>The candidates as the answer values them.\<close>

definition valued :: "(str, f64) btree \<Rightarrow> OptionMap \<Rightarrow> Shortlisted multiset \<Rightarrow> bool" where
  "valued normalized options M \<longleftrightarrow>
     image_mset (\<lambda>x. (sl_skill x, Some (sl_wide_probability x))) M = image_mset (\<lambda>(opt, skill). (skill, bt_get normalized opt)) (mset options)"

text \<open>
  C8. The wide request that is sent is complete and clean. At most 254 candidates are admitted, each of an
  eligible binding and no file twice; the first question lists precisely one option for each of them and
  the sentinel, whatever was trimmed to fit. The three gates, the phase and, when asked, the question
  about being stuck are there. Only the oldest messages are dropped from the context, and descriptions
  shrink only when none is left. The bytes are those of the request, at most 96 KiB, and passed the
  inspection for secrets.
\<close>

theorem wide_request_is_complete:
  assumes "wide_build_with_variant W roster admitted state model stuck variant = Some (Ok w)"
  shows "admitted \<noteq> [] \<and> length admitted \<le> MAX_REAL_OPTIONS \<and> offers roster admitted (wq_options w)
    \<and> asks_wide (wq_request w) (wq_options w) stuck
    \<and> rq_model (wq_request w) = model
    \<and> rq_state (wq_request w) = payload_to_value (keeping state (tm_dropped_messages (wq_trimming w)))
    \<and> tm_dropped_messages (wq_trimming w) \<le> length (rc_recent_messages state)
    \<and> tm_description_cap (wq_trimming w) \<in> set DESCRIPTION_CAPS
    \<and> (tm_description_cap (wq_trimming w) \<noteq> WIDE_DESCRIPTION_MAX_SCALARS
         \<longrightarrow> tm_dropped_messages (wq_trimming w) = length (rc_recent_messages state))
    \<and> rq_reverse_choice (wq_request w) = (if variant = ReverseOptionOrder then Some WHICH else None)
    \<and> to_json (wi_serde W) (wq_request w) = Ok (wq_bytes w)
    \<and> length (wq_bytes w) \<le> MAX_REQUEST_BYTES \<and> inspected_clean W (wq_bytes w)"
  using assms by (rule wide_build_Ok)

text \<open>
  C19. Every answer that decodes against the wide request is evaluated: no question, option or sentinel is
  missing, whatever the provider sent. The need for a skill, the share of the sentinel, the confidence, the
  phases and the values of the shortlist are all numbers between zero and one, and the phases are
  precisely the eight that were asked about.
\<close>

theorem decoded_wide_answer_evaluates:
  assumes "wide_build_with_variant W roster admitted state model stuck variant = Some (Ok w)"
    and "decode_wire (wq_request w) wire = Ok resp" "wire_doubles wire" "validate_gate gate = Ok gate"
  shows "\<exists>out. wide_evaluate w resp gate sizes = Ok out \<and> unit_outcome out"
proof -
  have "f64_within (Fin 0) (Fin 1) gate" using assms(4) by (simp add: validate_gate_def split: if_split_asm)
  with wide_build_Ok [OF assms(1)] wide_evaluates [OF _ _ assms(2,3) refl refl, where gate = gate and sizes = sizes]
  show ?thesis by blast
qed

lemma wide_shortlist:
  assumes "wide_evaluate w resp gate sizes = Ok out"
  shows "\<exists>which rest. choice_answer resp WHICH = Ok which
    \<and> valued (normalized_probabilities which) (wq_options w) (mset (wo_intrinsic_shortlist out) + mset rest)
    \<and> length (wo_intrinsic_shortlist out) = min (sz_shortlist sizes) (length (wq_options w))
    \<and> sorted_wrt listed_before (wo_intrinsic_shortlist out)
    \<and> (\<forall>x \<in> set (wo_intrinsic_shortlist out). \<forall>y \<in> set rest. listed_before x y)
    \<and> wo_top out = min (sz_top sizes) (length (wo_intrinsic_shortlist out))
    \<and> wo_decision out = (if f64_lt (wo_needs_skill out) gate then LowNeed else Shortlist (wo_intrinsic_shortlist out))"
proof -
  obtain which xs where w: "choice_answer resp WHICH = Ok which"
      "rank_options (normalized_probabilities which) (wq_options w) = Ok xs"
    and out: "wo_intrinsic_shortlist out = take (min (sz_shortlist sizes) (length (wq_options w))) (sort_shortlisted xs)"
      "wo_top out = min (sz_top sizes) (min (sz_shortlist sizes) (length (wq_options w)))"
      "wo_decision out = (if f64_lt (wo_needs_skill out) gate then LowNeed else Shortlist (wo_intrinsic_shortlist out))"
    using assms by (auto simp: wide_evaluate_def validate_gate_def Let_def sizes_effective_def split: if_split_asm)
  let ?k = "min (sz_shortlist sizes) (length (wq_options w))"
  note R = rank_options_Ok [THEN iffD1, OF w(2)]
  have len: "length xs = length (wq_options w)" using arg_cong [OF R, of length] by simp
  have sorted: "sorted_wrt listed_before (take ?k (sort_shortlisted xs) @ drop ?k (sort_shortlisted xs))"
    by (simp add: sort_shortlisted_sorted)
  have "mset (take ?k (sort_shortlisted xs)) + mset (drop ?k (sort_shortlisted xs)) = mset xs"
    unfolding mset_append [symmetric] by (simp add: sort_shortlisted_def)
  moreover have "valued (normalized_probabilities which) (wq_options w) (mset xs)"
    using arg_cong [OF R, of mset] by (simp add: valued_def)
  moreover have "length (take ?k (sort_shortlisted xs)) = ?k" using len by (simp add: sort_shortlisted_def)
  ultimately show ?thesis
    using w(1) out sorted unfolding sorted_wrt_append
    by (intro exI [of _ which] exI [of _ "drop ?k (sort_shortlisted xs)"]) simp
qed

text \<open>
  C18. The shortlist holds the best candidates and only real ones: the shortlist and the rest are precisely
  the offered candidates with their normalized values, it has the configured size or all candidates when
  there are fewer, no candidate of the rest goes before one of the shortlist, and it lists them in
  that order. The gate alone decides between a low need and the shortlist.
\<close>

theorem shortlist_is_best:
  assumes "wide_evaluate w resp gate sizes = Ok out"
  shows "\<exists>which rest. choice_answer resp WHICH = Ok which
    \<and> valued (normalized_probabilities which) (wq_options w) (mset (wo_intrinsic_shortlist out) + mset rest)
    \<and> length (wo_intrinsic_shortlist out) = min (sz_shortlist sizes) (length (wq_options w))
    \<and> sorted_wrt listed_before (wo_intrinsic_shortlist out)
    \<and> (\<forall>x \<in> set (wo_intrinsic_shortlist out). \<forall>y \<in> set rest. listed_before x y)
    \<and> wo_top out = min (sz_top sizes) (length (wo_intrinsic_shortlist out))
    \<and> wo_decision out = (if f64_lt (wo_needs_skill out) gate then LowNeed else Shortlist (wo_intrinsic_shortlist out))"
  using assms by (rule wide_shortlist)

section \<open>An example\<close>

definition demo_wire_env :: Wire where
  "demo_wire_env = \<lparr>wi_scanner = plain_scanner, wi_decode = (\<lambda>_. Some Null), wi_serde = rn_serde demo_renderer\<rparr>"

definition demo_wide :: WideRequest where
  "demo_wide = (case wide_build demo_wire_env ro_demo_roster [[97]] demo_rendered (scalars ''jev-latest'') False of
     Some (Ok w) \<Rightarrow> w
   | _ \<Rightarrow> \<lparr>wq_request = \<lparr>rq_model = [], rq_state = Null, rq_questions = [], rq_reverse_choice = None\<rparr>, wq_options = [],
       wq_bytes = [], wq_trimming = \<lparr>tm_dropped_messages = 0, tm_description_cap = 0, tm_omitted_description_scalars = 0, tm_redactions = 0\<rparr>\<rparr>)"

lemma demo_wide_built: "wide_build_with_variant demo_wire_env ro_demo_roster [[97]] demo_rendered (scalars ''jev-latest'') False Canonical = Some (Ok demo_wide)"
  by code_simp

definition demo_wide_answer :: WireResponse where
  "demo_wide_answer = \<lparr>wr_model = scalars ''jev-1'', wr_answers =
     [(GATE_CONTEXT_SUFFICES, W_Noul (Fin 0)), (GATE_MATERIAL_HELP, W_Noul (Fin 1)), (GATE_SPECIALIZED_METHOD, W_Noul (Fin 1)),
      (PHASE, W_Choice (scalars ''testing'') (map (\<lambda>(k, _). (k, Fin (if k = scalars ''testing'' then 1 else 0))) (bt_of_list PHASES)) (Fin (1 / 2))),
      (WHICH, W_Choice (scalars ''o000'') [(NONE_OPTION, Fin 0), (scalars ''o000'', Fin 1)] (Fin (1 / 2)))],
     wr_usage = \<lparr>us_input_tokens = 1, us_output_tokens = 1\<rparr>\<rparr>"

definition demo_wide_response :: Response where
  "demo_wide_response = \<lparr>rs_requested_model = scalars ''jev-latest'', rs_returned_model = scalars ''jev-1'',
     rs_answers = map (\<lambda>(k, a). (k, accepted a)) (wr_answers demo_wide_answer), rs_usage = wr_usage demo_wide_answer\<rparr>"
lemma demo_wide_decoded: "decode_wire (wq_request demo_wide) demo_wide_answer = Ok demo_wide_response"
  by code_simp

definition demo_wide_outcome :: WideOutcome where
  "demo_wide_outcome = (case wide_evaluate demo_wide demo_wide_response (Fin (1 / 4)) sizes_default of
     Ok out \<Rightarrow> out
   | Err _ \<Rightarrow> \<lparr>wo_needs_skill = NaN, wo_none_probability = NaN, wo_choice_confidence = NaN, wo_phase = [], wo_top = 0,
       wo_decision = LowNeed, wo_intrinsic_shortlist = []\<rparr>)"

lemma demo_wide_evaluated: "wide_evaluate demo_wide demo_wide_response (Fin (1 / 4)) sizes_default = Ok demo_wide_outcome"
  by code_simp

lemma demo_wide_doubles: "wire_doubles demo_wide_answer"
  by (auto simp: wire_doubles_def demo_wide_answer_def bt_values_def)

theorem wide_request_is_complete_witness:
  "offers ro_demo_roster [[97]] (wq_options demo_wide) \<and> asks_wide (wq_request demo_wide) (wq_options demo_wide) False
    \<and> length (wq_bytes demo_wide) \<le> MAX_REQUEST_BYTES"
  using wide_request_is_complete [OF demo_wide_built] by blast

theorem decoded_wide_answer_evaluates_witness:
  "\<exists>out. wide_evaluate demo_wide demo_wide_response (Fin (1 / 4)) sizes_default = Ok out \<and> unit_outcome out"
  by (rule decoded_wide_answer_evaluates [OF demo_wide_built demo_wide_decoded demo_wide_doubles])
    code_simp

theorem shortlist_is_best_witness:
  "length (wo_intrinsic_shortlist demo_wide_outcome) = 1 \<and> sorted_wrt listed_before (wo_intrinsic_shortlist demo_wide_outcome)"
proof -
  have "length (wq_options demo_wide) = 1" "sz_shortlist sizes_default = 8" by code_simp+
  then show ?thesis using shortlist_is_best [OF demo_wide_evaluated] by auto
qed

end
