(* ===== verification/Priors.thy ===== *)
theory Priors
  imports Scoring "HOL-Library.Product_Lexorder"
begin

text \<open>
  Model of the usefulness priors of \<open>src/src/learning.rs\<close>: the centered, shrunk adjustment of one
  cell, the snapshot built from independent judgments up to a cutoff, its serialized form, and the
  adjustment of a candidate. The logarithm is an argument, as in \<open>Scoring\<close>.
\<close>

section \<open>Errors and cells\<close>

datatype LearningError =
    LearningOversized usize usize | LearningMalformed str | SplitContamination str | InsufficientCohort str
  | NotPromotable str | PolicyConflict str | IncompatibleRevision str | MonitorInvalid str
  | AlphaBudgetExhausted str str | LearningStorage str

fun learning_kind :: "LearningError \<Rightarrow> ErrorKind" where
  "learning_kind (LearningOversized _ _) = Ek_OversizedInput"
| "learning_kind (LearningMalformed _) = Ek_MalformedInput"
| "learning_kind (SplitContamination _) = Ek_InvalidConfiguration"
| "learning_kind (InsufficientCohort _) = Ek_InvalidConfiguration"
| "learning_kind (NotPromotable _) = Ek_InvalidConfiguration"
| "learning_kind (PolicyConflict _) = Ek_InvalidConfiguration"
| "learning_kind (IncompatibleRevision _) = Ek_InvalidConfiguration"
| "learning_kind (MonitorInvalid _) = Ek_InvalidConfiguration"
| "learning_kind (AlphaBudgetExhausted _ _) = Ek_InvalidConfiguration"
| "learning_kind (LearningStorage _) = Ek_StorageFailure"

definition MIN_PHASE_CELL_JUDGED :: u64 where "MIN_PHASE_CELL_JUDGED = 20"

definition f64_of_u64 :: "u64 \<Rightarrow> f64" where "f64_of_u64 n = f64_of False (of_nat n)"

definition beta_shrunk_prior_delta :: "Libm \<Rightarrow> u64 \<Rightarrow> u64 \<Rightarrow> (f64, LearningError) result" where
  "beta_shrunk_prior_delta L useful judged =
     (if useful > judged then Err (LearningMalformed (scalars ''useful count cannot exceed judged count''))
      else if judged = 0 then Ok (Fin 0)
      else
        let q = f64_div (f64_add (f64_of_u64 useful) (Fin 1)) (f64_add (f64_of_u64 judged) (Fin 5));
            shrink = f64_div (f64_of_u64 judged) (f64_add (f64_of_u64 judged) (Fin 20));
            baseline = log_odds L (f64_of False (1 / 5));
            centered = f64_clamp (f64_sub (log_odds L q) baseline) (Fin (- 1)) (Fin 1)
        in Ok (f64_mul shrink centered))"

record PriorJudgmentRecord =
  pj_event_id :: str
  pj_skill_id :: str
  pj_content_hash :: str
  pj_policy_version :: str
  pj_phase :: "str option"
  pj_useful :: bool
  pj_label_source :: str
  pj_judged_at_unix_ms :: u64

record PriorCellCounts =
  pc_useful :: u64
  pc_judged :: u64

definition cell_default :: PriorCellCounts where "cell_default = \<lparr>pc_useful = 0, pc_judged = 0\<rparr>"

definition cell_record :: "bool \<Rightarrow> PriorCellCounts \<Rightarrow> PriorCellCounts" where
  "cell_record useful c =
     (let c' = c\<lparr>pc_judged := sat_add64 (pc_judged c) 1\<rparr> in
      if useful then c'\<lparr>pc_useful := sat_add64 (pc_useful c') 1\<rparr> else c')"

definition cell_delta :: "Libm \<Rightarrow> PriorCellCounts \<Rightarrow> f64" where
  "cell_delta L c = (case beta_shrunk_prior_delta L (pc_useful c) (pc_judged c) of Ok d \<Rightarrow> d | Err _ \<Rightarrow> Fin 0)"

definition has_usable_phase_coverage :: "PriorCellCounts \<Rightarrow> bool" where
  "has_usable_phase_coverage c \<longleftrightarrow> pc_judged c \<ge> MIN_PHASE_CELL_JUDGED \<and> pc_useful c > 0 \<and> pc_useful c < pc_judged c"

section \<open>Snapshots\<close>

type_synonym PooledKey = "str \<times> str \<times> str"
type_synonym PhaseKey = "str \<times> str \<times> str \<times> str"

record PriorSnapshot =
  ps_as_of_unix_ms :: u64
  ps_pooled :: "(PooledKey, PriorCellCounts) btree"
  ps_by_phase :: "(PhaseKey, PriorCellCounts) btree"

text \<open>\<open>entry(key).or_default().record(useful)\<close>.\<close>

definition record_cell :: "'k::linorder \<Rightarrow> bool \<Rightarrow> ('k, PriorCellCounts) btree \<Rightarrow> ('k, PriorCellCounts) btree" where
  "record_cell k useful m =
     bt_insert k (cell_record useful (case bt_get m k of Some c \<Rightarrow> c | None \<Rightarrow> cell_default)) m"

definition pooled_key :: "PriorJudgmentRecord \<Rightarrow> PooledKey" where
  "pooled_key r = (pj_skill_id r, pj_content_hash r, pj_policy_version r)"

definition dedup_key :: "PriorJudgmentRecord \<Rightarrow> str \<times> str \<times> str" where
  "dedup_key r = (pj_event_id r, pj_skill_id r, pj_content_hash r)"

definition phase_key :: "PriorJudgmentRecord \<Rightarrow> PhaseKey option" where
  "phase_key r = (case pj_phase r of
     Some phase \<Rightarrow> if trim_str phase = [] then None
       else Some (pj_skill_id r, pj_content_hash r, pj_policy_version r, phase)
   | None \<Rightarrow> None)"

fun judgments_loop ::
  "PriorJudgmentRecord list \<Rightarrow> (str \<times> str \<times> str) set \<Rightarrow> PriorSnapshot \<Rightarrow> (PriorSnapshot, LearningError) result" where
  "judgments_loop [] seen snapshot = Ok snapshot"
| "judgments_loop (r # rest) seen snapshot =
     (if pj_label_source r \<noteq> scalars ''independent_judgment''
      then Err (LearningMalformed (scalars ''priors require independent_judgment provenance, got '' @ pj_label_source r))
      else if trim_str (pj_skill_id r) = [] \<or> trim_str (pj_content_hash r) = [] \<or> trim_str (pj_policy_version r) = []
      then Err (LearningMalformed (scalars ''prior judgment requires non-empty skill_id, content_hash, and policy_version''))
      else if pj_judged_at_unix_ms r > ps_as_of_unix_ms snapshot then judgments_loop rest seen snapshot
      else if dedup_key r \<in> seen then judgments_loop rest seen snapshot
      else judgments_loop rest (insert (dedup_key r) seen)
        (snapshot\<lparr>ps_pooled := record_cell (pooled_key r) (pj_useful r) (ps_pooled snapshot),
           ps_by_phase := (case phase_key r of
              Some k \<Rightarrow> record_cell k (pj_useful r) (ps_by_phase snapshot) | None \<Rightarrow> ps_by_phase snapshot)\<rparr>))"

definition from_judgments :: "PriorJudgmentRecord list \<Rightarrow> u64 \<Rightarrow> (PriorSnapshot, LearningError) result" where
  "from_judgments records as_of =
     judgments_loop records {} \<lparr>ps_as_of_unix_ms = as_of, ps_pooled = [], ps_by_phase = []\<rparr>"

definition snapshot_is_empty :: "PriorSnapshot \<Rightarrow> bool" where
  "snapshot_is_empty s \<longleftrightarrow> ps_pooled s = [] \<and> ps_by_phase s = []"

record PooledPriorCell =
  pp_skill_id :: str
  pp_content_hash :: str
  pp_policy_version :: str
  pp_useful :: u64
  pp_judged :: u64

record PhasePriorCell =
  ph_skill_id :: str
  ph_content_hash :: str
  ph_policy_version :: str
  ph_phase :: str
  ph_useful :: u64
  ph_judged :: u64

record SerializedPriorSnapshot =
  sp_schema_version :: u32
  sp_as_of_unix_ms :: u64
  sp_pooled :: "PooledPriorCell list"
  sp_by_phase :: "PhasePriorCell list"

definition to_serialized :: "PriorSnapshot \<Rightarrow> SerializedPriorSnapshot" where
  "to_serialized s =
     \<lparr>sp_schema_version = 1, sp_as_of_unix_ms = ps_as_of_unix_ms s,
      sp_pooled = map (\<lambda>((i, h, v), c). \<lparr>pp_skill_id = i, pp_content_hash = h, pp_policy_version = v,
        pp_useful = pc_useful c, pp_judged = pc_judged c\<rparr>) (ps_pooled s),
      sp_by_phase = map (\<lambda>((i, h, v, p), c). \<lparr>ph_skill_id = i, ph_content_hash = h, ph_policy_version = v, ph_phase = p,
        ph_useful = pc_useful c, ph_judged = pc_judged c\<rparr>) (ps_by_phase s)\<rparr>"

fun pooled_from :: "PooledPriorCell list \<Rightarrow> (PooledKey, PriorCellCounts) btree \<Rightarrow> ((PooledKey, PriorCellCounts) btree, LearningError) result" where
  "pooled_from [] m = Ok m"
| "pooled_from (c # cs) m =
     (if pp_useful c > pp_judged c then Err (LearningMalformed (scalars ''prior cell useful count exceeds judged count''))
      else pooled_from cs (bt_insert (pp_skill_id c, pp_content_hash c, pp_policy_version c)
        \<lparr>pc_useful = pp_useful c, pc_judged = pp_judged c\<rparr> m))"

fun by_phase_from :: "PhasePriorCell list \<Rightarrow> (PhaseKey, PriorCellCounts) btree \<Rightarrow> ((PhaseKey, PriorCellCounts) btree, LearningError) result" where
  "by_phase_from [] m = Ok m"
| "by_phase_from (c # cs) m =
     (if ph_useful c > ph_judged c then Err (LearningMalformed (scalars ''phase prior cell useful count exceeds judged count''))
      else by_phase_from cs (bt_insert (ph_skill_id c, ph_content_hash c, ph_policy_version c, ph_phase c)
        \<lparr>pc_useful = ph_useful c, pc_judged = ph_judged c\<rparr> m))"

definition from_serialized :: "SerializedPriorSnapshot \<Rightarrow> (PriorSnapshot, LearningError) result" where
  "from_serialized raw =
     (if sp_schema_version raw \<noteq> 1
      then Err (LearningMalformed (scalars (''unsupported prior snapshot schema_version '' @ dec (sp_schema_version raw))))
      else and_then (pooled_from (sp_pooled raw) []) (\<lambda>pooled.
        and_then (by_phase_from (sp_by_phase raw) []) (\<lambda>by_phase.
        Ok \<lparr>ps_as_of_unix_ms = sp_as_of_unix_ms raw, ps_pooled = pooled, ps_by_phase = by_phase\<rparr>)))"

definition prior_delta :: "Libm \<Rightarrow> PriorSnapshot \<Rightarrow> str \<Rightarrow> str \<Rightarrow> str \<Rightarrow> str option \<Rightarrow> f64" where
  "prior_delta L s skill_id content_hash policy_version phase =
     (case Option.bind phase (\<lambda>p. bt_get (ps_by_phase s) (skill_id, content_hash, policy_version, p)) of
        Some cell \<Rightarrow>
          if has_usable_phase_coverage cell then cell_delta L cell
          else (case bt_get (ps_pooled s) (skill_id, content_hash, policy_version) of Some c \<Rightarrow> cell_delta L c | None \<Rightarrow> Fin 0)
      | None \<Rightarrow>
          (case bt_get (ps_pooled s) (skill_id, content_hash, policy_version) of Some c \<Rightarrow> cell_delta L c | None \<Rightarrow> Fin 0))"

section \<open>Bounded values\<close>

text \<open>A finite value of at most a given magnitude, through each operation.\<close>

definition at_most :: "nat \<Rightarrow> f64 \<Rightarrow> bool" where
  "at_most b x \<longleftrightarrow> (\<exists>q. f64_val x = Some q \<and> \<bar>q\<bar> \<le> of_nat b)"

lemma round64_at_most: "b \<le> 2 ^ 53 \<Longrightarrow> \<bar>q\<bar> \<le> of_nat b \<Longrightarrow> \<bar>round64 q\<bar> \<le> of_nat b"
  using round64_le [OF rep_of_nat, of b q] round64_ge [OF rep_of_int, of "- int b" q] by (simp add: abs_le_iff)

lemma of_nat_le_53: "b \<le> 2 ^ 53 \<Longrightarrow> (of_nat b :: rat) \<le> 2 ^ 53"
  using of_nat_le_iff [of b "2 ^ 53", where 'a = rat] by simp

lemma at_most_of: "b \<le> 2 ^ 53 \<Longrightarrow> \<bar>q\<bar> \<le> of_nat b \<Longrightarrow> at_most b (f64_of neg q)"
  using round64_at_most [of b q] of_nat_le_53 [of b] f64_val_of [of q neg] by (auto simp: at_most_def)

lemma at_most_add: "at_most a x \<Longrightarrow> at_most b y \<Longrightarrow> a + b \<le> 2 ^ 53 \<Longrightarrow> at_most (a + b) (f64_add x y)"
proof -
  assume "at_most a x" "at_most b y" and ab: "a + b \<le> 2 ^ 53"
  then obtain p q where v: "f64_val x = Some p" "f64_val y = Some q" "\<bar>p\<bar> \<le> of_nat a" "\<bar>q\<bar> \<le> of_nat b" by (auto simp: at_most_def)
  have "\<bar>p + q\<bar> \<le> of_nat (a + b)" using v(3,4) by simp
  from round64_at_most [OF ab this] show ?thesis
    using f64_val_add [OF v(1,2)] of_nat_le_53 [OF ab] by (auto simp: at_most_def)
qed

lemma at_most_neg: "at_most a x \<Longrightarrow> at_most a (f64_neg x)"
  using f64_val_neg by (fastforce simp: at_most_def)

lemma at_most_sub: "at_most a x \<Longrightarrow> at_most b y \<Longrightarrow> a + b \<le> 2 ^ 53 \<Longrightarrow> at_most (a + b) (f64_sub x y)"
  unfolding f64_sub_def by (intro at_most_add at_most_neg)

lemma at_most_mul: "at_most a x \<Longrightarrow> at_most b y \<Longrightarrow> a * b \<le> 2 ^ 53 \<Longrightarrow> at_most (a * b) (f64_mul x y)"
proof -
  assume "at_most a x" "at_most b y" and ab: "a * b \<le> 2 ^ 53"
  then obtain p q where v: "f64_val x = Some p" "f64_val y = Some q" "\<bar>p\<bar> \<le> of_nat a" "\<bar>q\<bar> \<le> of_nat b" by (auto simp: at_most_def)
  have "\<bar>p * q\<bar> \<le> of_nat (a * b)" using v(3,4) by (simp add: abs_mult mult_mono)
  from round64_at_most [OF ab this] show ?thesis
    using f64_val_mul [OF v(1,2)] of_nat_le_53 [OF ab] by (auto simp: at_most_def)
qed

lemma at_most_mono: "at_most a x \<Longrightarrow> a \<le> b \<Longrightarrow> at_most b x"
  unfolding at_most_def by (meson of_nat_mono order_trans)

lemma at_most_finite: "at_most a x \<Longrightarrow> is_finite x"
  by (auto simp: at_most_def is_finite_def)

lemma unit_at_most: "f64_within (Fin 0) (Fin 1) x \<Longrightarrow> at_most 1 x"
  by (auto simp: at_most_def f64_within_val)

section \<open>The adjustment is bounded\<close>

text \<open>The logarithm of a positive finite number is finite, and below 1024 in magnitude.\<close>

definition ln_bounded :: "Libm \<Rightarrow> bool" where
  "ln_bounded L \<longleftrightarrow> (\<forall>x q. f64_val x = Some q \<and> 0 < q \<longrightarrow> at_most 1024 (lm_ln L x))"

lemma rep_power: "e \<le> 1074 \<Longrightarrow> \<bar>m\<bar> \<le> 2 ^ 53 \<Longrightarrow> rep (of_int m / 2 ^ e)"
  unfolding rep_def by (rule exI [of _ m], rule exI [of _ "- int e"]) (simp add: power_int_minus divide_inverse)

lemma EPSILON_val: "\<exists>e. f64_val EPSILON = Some e \<and> 1 / 2 ^ 20 \<le> e \<and> e \<le> 1 / 2 ^ 19"
proof -
  have "rep (1 / 2 ^ 20)" "rep (1 / 2 ^ 19)" using rep_power [of 20 1] rep_power [of 19 1] by simp_all
  then have "1 / 2 ^ 20 \<le> round64 (1 / 1000000)" "round64 (1 / 1000000) \<le> 1 / 2 ^ 19"
    using round64_ge [of "1 / 2 ^ 20" "1 / 1000000"] round64_le [of "1 / 2 ^ 19" "1 / 1000000"] by simp_all
  then show ?thesis unfolding EPSILON_def by (subst f64_val_of) auto
qed

lemma one_minus_val:
  assumes "f64_val c = Some q" "1 / 2 ^ 20 \<le> q" "q \<le> 1 - 1 / 2 ^ 20"
  shows "\<exists>r. f64_val (f64_sub (Fin 1) c) = Some r \<and> 1 / 2 ^ 20 \<le> r \<and> r \<le> 1 - 1 / 2 ^ 20"
proof -
  have rep: "rep (1 / 2 ^ 20)" "rep (1 - 1 / 2 ^ 20)"
    using rep_power [of 20 1] rep_power [of 20 "2 ^ 20 - 1"] by simp_all
  have "1 / 2 ^ 20 \<le> round64 (1 - q)" "round64 (1 - q) \<le> 1 - 1 / 2 ^ 20"
    using round64_ge [OF rep(1), of "1 - q"] round64_le [OF rep(2), of "1 - q"] assms by simp_all
  then show ?thesis using f64_val_sub [OF _ assms(1), of "Fin 1" 1] by fastforce
qed

lemma clip_val:
  assumes "f64_val x = Some p"
  shows "\<exists>q. f64_val (clip x) = Some q \<and> 1 / 2 ^ 20 \<le> q \<and> q \<le> 1 - 1 / 2 ^ 20"
proof -
  obtain e where e: "f64_val EPSILON = Some e" "1 / 2 ^ 20 \<le> e" "e \<le> 1 / 2 ^ 19" using EPSILON_val by blast
  have small: "(1 / 2 ^ 19 :: rat) \<le> 1 - 1 / 2 ^ 20" by simp
  obtain h where h: "f64_val (f64_sub (Fin 1) EPSILON) = Some h" "1 / 2 ^ 20 \<le> h" "h \<le> 1 - 1 / 2 ^ 20"
    using one_minus_val [OF e(1,2)] e(3) small by fastforce
  have "e \<le> 1 - 1 / 2 ^ 20" using e(3) small by linarith
  then show ?thesis
    using e h by (auto simp: clip_def f64_clamp_def f64_lt_val [OF assms e(1)] f64_lt_val [OF h(1) assms] assms not_less)
qed

lemma log_odds_at_most:
  assumes "ln_bounded L" "f64_val x = Some p"
  shows "at_most 1024 (log_odds L x)"
proof -
  obtain c where c: "f64_val (clip x) = Some c" "1 / 2 ^ 20 \<le> c" "c \<le> 1 - 1 / 2 ^ 20" using clip_val [OF assms(2)] by blast
  obtain r where r: "f64_val (f64_sub (Fin 1) (clip x)) = Some r" "1 / 2 ^ 20 \<le> r" "r \<le> 1 - 1 / 2 ^ 20"
    using one_minus_val [OF c] by blast
  have pos: "0 < r" "0 < c" using r(2) c(2) by (auto intro: less_le_trans [rotated])
  have "c \<le> c / r" using r(3) pos by (simp add: field_simps mult_left_le)
  then have low: "1 / 2 ^ 20 \<le> c / r" using c(2) by linarith
  have "c * 1 \<le> 2 ^ 20 * r" using r(2) c(3) by simp
  then have high: "c / r \<le> 2 ^ 20" using pos by (simp add: field_simps)
  have rep: "rep (1 / 2 ^ 20)" "rep (2 ^ 20)" using rep_power [of 20 1] rep_of_int [of "2 ^ 20"] by simp_all
  have "1 / 2 ^ 20 \<le> round64 (c / r)" "round64 (c / r) \<le> 2 ^ 20"
    using round64_ge [OF rep(1) low] round64_le [OF rep(2) high] by simp_all
  then have "f64_val (f64_div (clip x) (f64_sub (Fin 1) (clip x))) = Some (round64 (c / r))" "0 < round64 (c / r)"
    using f64_val_div [OF c(1) r(1)] pos by (auto intro: less_le_trans [rotated])
  then show ?thesis using assms(1) unfolding ln_bounded_def log_odds_def Let_def by blast
qed

lemma of_u64_val: "n \<le> 2 ^ 53 \<Longrightarrow> f64_val (f64_of_u64 n) = Some (of_nat n)"
  unfolding f64_of_u64_def using rep_of_nat [of n] of_nat_le_53 [of n] by (subst f64_val_of) (simp_all add: round64_rep)

lemma add_nat_val:
  assumes "f64_val x = Some (of_nat m)" "m + k \<le> 2 ^ 53"
  shows "f64_val (f64_add x (Fin (of_nat k))) = Some (of_nat (m + k))"
proof -
  have "round64 (of_nat m + of_nat k) = (of_nat (m + k) :: rat)"
    using round64_rep [OF rep_of_nat [OF assms(2)]] by simp
  then show ?thesis using f64_val_add [OF assms(1), of "Fin (of_nat k)" "of_nat k"] of_nat_le_53 [OF assms(2)] by simp
qed

lemma prior_quotients:
  assumes "useful \<le> judged" "judged \<noteq> 0" "judged + 20 \<le> 2 ^ 53"
  shows "f64_within (Fin 0) (Fin 1) (f64_div (f64_add (f64_of_u64 useful) (Fin 1)) (f64_add (f64_of_u64 judged) (Fin 5)))"
    and "f64_within (Fin 0) (Fin 1) (f64_div (f64_of_u64 judged) (f64_add (f64_of_u64 judged) (Fin 20)))"
proof -
  have u: "f64_val (f64_of_u64 useful) = Some (of_nat useful)" and j: "f64_val (f64_of_u64 judged) = Some (of_nat judged)"
    using assms by (simp_all add: of_u64_val)
  have n: "f64_val (f64_add (f64_of_u64 useful) (Fin 1)) = Some (of_nat (useful + 1))"
    and d: "f64_val (f64_add (f64_of_u64 judged) (Fin 5)) = Some (of_nat (judged + 5))"
    and k: "f64_val (f64_add (f64_of_u64 judged) (Fin 20)) = Some (of_nat (judged + 20))"
    using add_nat_val [OF u, of 1] add_nat_val [OF j, of 5] add_nat_val [OF j, of 20] assms by simp_all
  have "(of_nat (useful + 1) :: rat) \<le> of_nat (judged + 5)" using assms(1) by (intro of_nat_mono) simp
  then show "f64_within (Fin 0) (Fin 1) (f64_div (f64_add (f64_of_u64 useful) (Fin 1)) (f64_add (f64_of_u64 judged) (Fin 5)))"
    by (intro div_unit [OF n d]) simp_all
  show "f64_within (Fin 0) (Fin 1) (f64_div (f64_of_u64 judged) (f64_add (f64_of_u64 judged) (Fin 20)))"
    by (rule div_unit [OF j k]) simp_all
qed

lemma clamp_at_most:
  assumes "f64_val x = Some p"
  shows "at_most 1 (f64_clamp x (Fin (- 1)) (Fin 1))"
  using assms by (auto simp: f64_clamp_def at_most_def f64_lt_val [OF assms] f64_lt_val [OF _ assms] abs_le_iff)

lemma cell_delta_bounded:
  assumes "ln_bounded L" "pc_judged c + 20 \<le> 2 ^ 53"
  shows "at_most 1 (cell_delta L c)"
proof (cases "pc_useful c \<le> pc_judged c \<and> pc_judged c \<noteq> 0")
  case False
  then show ?thesis by (auto simp: cell_delta_def beta_shrunk_prior_delta_def at_most_def)
next
  case True
  let ?q = "f64_div (f64_add (f64_of_u64 (pc_useful c)) (Fin 1)) (f64_add (f64_of_u64 (pc_judged c)) (Fin 5))"
  note Q = prior_quotients [OF conjunct1 [OF True] conjunct2 [OF True] assms(2)]
  obtain q where q: "f64_val ?q = Some q" using Q(1) by (auto simp: f64_within_val)
  have "\<exists>b. f64_val (f64_of False (1 / 5)) = Some b"
    using at_most_of [of 1 "1 / 5" False] by (auto simp: at_most_def)
  then have "at_most (1024 + 1024) (f64_sub (log_odds L ?q) (log_odds L (f64_of False (1 / 5))))"
    using log_odds_at_most [OF assms(1)] q by (intro at_most_sub) auto
  then have "at_most 1 (f64_clamp (f64_sub (log_odds L ?q) (log_odds L (f64_of False (1 / 5)))) (Fin (- 1)) (Fin 1))"
    using clamp_at_most by (auto simp: at_most_def [of 2048])
  from at_most_mul [OF unit_at_most [OF Q(2)] this] show ?thesis
    using True by (simp add: cell_delta_def beta_shrunk_prior_delta_def Let_def)
qed

definition cells :: "PriorSnapshot \<Rightarrow> PriorCellCounts set" where
  "cells s = set (bt_values (ps_pooled s)) \<union> set (bt_values (ps_by_phase s))"

lemma get_cell: "bt_get (ps_pooled s) k = Some c \<Longrightarrow> c \<in> cells s" "bt_get (ps_by_phase s) k' = Some c \<Longrightarrow> c \<in> cells s"
  by (force simp: cells_def bt_get_def bt_values_def dest: map_of_SomeD)+

lemma prior_delta_bounded:
  assumes "ln_bounded L" "\<forall>c \<in> cells s. pc_judged c + 20 \<le> 2 ^ 53"
  shows "at_most 1 (prior_delta L s i h v p)"
proof -
  have zero: "at_most 1 (Fin 0)" by (simp add: at_most_def)
  show ?thesis
    using assms zero get_cell [of s] cell_delta_bounded [OF assms(1)]
    by (auto simp: prior_delta_def split: option.splits bind_splits)
qed

lemma utility_finite:
  assumes L: "ln_bounded L" and w: "weights_new fit prior phase = Ok w"
    and i: "probability_ok (in_rerank i)" "probability_ok (in_fit i)" "at_most 1 (in_prior_delta i)" "probability_ok (in_phase_match i)"
  shows "is_finite (utility L w i)"
proof -
  have "f64_within (Fin 0) (Fin 4) fit" "f64_within (Fin 0) (Fin (1 / 2)) prior" "f64_within (Fin 0) (Fin 1) phase"
      and w_def: "w = \<lparr>we_fit = fit, we_prior = prior, we_phase = phase\<rparr>"
    using w by (auto simp: weights_new_def W_FIT_MAX_def W_PRIOR_MAX_def W_PHASE_MAX_def split: if_splits)
  then have weights: "at_most 4 (we_fit w)" "at_most 1 (we_prior w)" "at_most 1 (we_phase w)"
    by (auto simp: at_most_def f64_within_val)
  obtain p q where pq: "f64_val (in_rerank i) = Some p" "f64_val (in_fit i) = Some q" using i by (auto simp: probability_ok_def f64_within_val)
  obtain c where "f64_val (clip (in_rerank i)) = Some c" "1 / 2 ^ 20 \<le> c" using clip_val [OF pq(1)] by blast
  moreover have "0 < c" if "1 / 2 ^ 20 \<le> c" for c :: rat using that by (auto intro: less_le_trans [rotated])
  ultimately have ln: "at_most 1024 (lm_ln L (clip (in_rerank i)))" using L by (auto simp: ln_bounded_def)
  have "at_most (((1024 + 4 * 1024) + 1 * 1) + 1 * 1) (utility L w i)"
    unfolding utility_def
    by (intro at_most_add at_most_mul ln weights log_odds_at_most [OF L pq(2)] i(3) unit_at_most)
      (use i(4) in \<open>simp_all add: probability_ok_def\<close>)
  then show ?thesis by (rule at_most_finite)
qed


section \<open>The counts of a snapshot\<close>

text \<open>The first judgment of each event about a revision, among those up to the cutoff.\<close>

fun first_of_event :: "(str \<times> str \<times> str) set \<Rightarrow> PriorJudgmentRecord list \<Rightarrow> PriorJudgmentRecord list" where
  "first_of_event seen [] = []"
| "first_of_event seen (r # rs) =
     (if dedup_key r \<in> seen then first_of_event seen rs else r # first_of_event (insert (dedup_key r) seen) rs)"

definition counted :: "u64 \<Rightarrow> PriorJudgmentRecord list \<Rightarrow> PriorJudgmentRecord list" where
  "counted as_of records = first_of_event {} (filter (\<lambda>r. pj_judged_at_unix_ms r \<le> as_of) records)"

definition acceptable :: "PriorJudgmentRecord \<Rightarrow> bool" where
  "acceptable r \<longleftrightarrow> pj_label_source r = scalars ''independent_judgment''
     \<and> trim_str (pj_skill_id r) \<noteq> [] \<and> trim_str (pj_content_hash r) \<noteq> [] \<and> trim_str (pj_policy_version r) \<noteq> []"

text \<open>The cell of a list of judgments.\<close>

definition cell_tally :: "PriorJudgmentRecord list \<Rightarrow> PriorCellCounts option" where
  "cell_tally rs = (if rs = [] then None
     else Some \<lparr>pc_useful = min (length (filter pj_useful rs)) U64_MAX, pc_judged = min (length rs) U64_MAX\<rparr>)"

definition cell_extends :: "PriorCellCounts option \<Rightarrow> PriorJudgmentRecord list \<Rightarrow> PriorCellCounts option" where
  "cell_extends c rs = (if rs = [] then c
     else Some \<lparr>pc_useful = min ((case c of Some c \<Rightarrow> pc_useful c | None \<Rightarrow> 0) + length (filter pj_useful rs)) U64_MAX,
       pc_judged = min ((case c of Some c \<Rightarrow> pc_judged c | None \<Rightarrow> 0) + length rs) U64_MAX\<rparr>)"

lemma cell_extends_None: "cell_extends None rs = cell_tally rs"
  by (simp add: cell_extends_def cell_tally_def)

definition small_cell :: "PriorCellCounts option \<Rightarrow> bool" where
  "small_cell c \<longleftrightarrow> (\<forall>x. c = Some x \<longrightarrow> pc_useful x \<le> U64_MAX \<and> pc_judged x \<le> U64_MAX)"

lemma cell_extends_record:
  "small_cell c \<Longrightarrow> cell_extends (Some (cell_record (pj_useful r) (case c of Some x \<Rightarrow> x | None \<Rightarrow> cell_default))) rs = cell_extends c (r # rs)"
  by (cases c; cases rs) (auto simp: cell_extends_def cell_record_def cell_default_def sat_add64_def Let_def small_cell_def)

lemma small_record: "small_cell c \<Longrightarrow> small_cell (Some (cell_record u (case c of Some x \<Rightarrow> x | None \<Rightarrow> cell_default)))"
  by (cases c) (auto simp: small_cell_def cell_record_def cell_default_def sat_add64_def Let_def)

lemma judgments_loop_Ok:
  assumes "judgments_loop rs seen s = Ok s'" "\<forall>k. small_cell (bt_get (ps_pooled s) k)" "\<forall>k. small_cell (bt_get (ps_by_phase s) k)"
  shows "ps_as_of_unix_ms s' = ps_as_of_unix_ms s \<and> list_all acceptable rs
    \<and> (\<forall>k. bt_get (ps_pooled s') k = cell_extends (bt_get (ps_pooled s) k)
        (filter (\<lambda>r. pooled_key r = k) (first_of_event seen (filter (\<lambda>r. pj_judged_at_unix_ms r \<le> ps_as_of_unix_ms s) rs))))
    \<and> (\<forall>k. bt_get (ps_by_phase s') k = cell_extends (bt_get (ps_by_phase s) k)
        (filter (\<lambda>r. phase_key r = Some k) (first_of_event seen (filter (\<lambda>r. pj_judged_at_unix_ms r \<le> ps_as_of_unix_ms s) rs))))"
  using assms
proof (induction rs arbitrary: seen s)
  case Nil
  then show ?case by (simp add: cell_extends_def)
next
  case (Cons r rs)
  have ok: "acceptable r" using Cons.prems(1) by (auto simp: acceptable_def split: if_split_asm)
  then have step: "judgments_loop (r # rs) seen s = (if pj_judged_at_unix_ms r > ps_as_of_unix_ms s then judgments_loop rs seen s
      else if dedup_key r \<in> seen then judgments_loop rs seen s
      else judgments_loop rs (insert (dedup_key r) seen)
        (s\<lparr>ps_pooled := record_cell (pooled_key r) (pj_useful r) (ps_pooled s),
           ps_by_phase := (case phase_key r of
              Some k \<Rightarrow> record_cell k (pj_useful r) (ps_by_phase s) | None \<Rightarrow> ps_by_phase s)\<rparr>))"
    unfolding judgments_loop.simps acceptable_def by simp
  show ?case
  proof (cases "pj_judged_at_unix_ms r > ps_as_of_unix_ms s \<or> dedup_key r \<in> seen")
    case True
    then have "judgments_loop rs seen s = Ok s'" using Cons.prems(1) step by (auto split: if_split_asm)
    moreover have same: "first_of_event seen (filter (\<lambda>r. pj_judged_at_unix_ms r \<le> ps_as_of_unix_ms s) (r # rs))
        = first_of_event seen (filter (\<lambda>r. pj_judged_at_unix_ms r \<le> ps_as_of_unix_ms s) rs)"
      using True by auto
    ultimately show ?thesis unfolding same using Cons.IH [OF _ Cons.prems(2,3)] ok by simp
  next
    case fresh: False
    let ?s = "s\<lparr>ps_pooled := record_cell (pooled_key r) (pj_useful r) (ps_pooled s),
           ps_by_phase := (case phase_key r of
              Some k \<Rightarrow> record_cell k (pj_useful r) (ps_by_phase s) | None \<Rightarrow> ps_by_phase s)\<rparr>"
    let ?rest = "first_of_event (insert (dedup_key r) seen) (filter (\<lambda>r. pj_judged_at_unix_ms r \<le> ps_as_of_unix_ms s) rs)"
    have loop: "judgments_loop rs (insert (dedup_key r) seen) ?s = Ok s'"
      using Cons.prems(1) step fresh by simp
    have pooled: "bt_get (ps_pooled ?s) k = (if k = pooled_key r
        then Some (cell_record (pj_useful r) (case bt_get (ps_pooled s) k of Some c \<Rightarrow> c | None \<Rightarrow> cell_default))
        else bt_get (ps_pooled s) k)" for k
      by (simp add: record_cell_def bt_get_insert)
    have phase: "bt_get (ps_by_phase ?s) k = (if phase_key r = Some k
        then Some (cell_record (pj_useful r) (case bt_get (ps_by_phase s) k of Some c \<Rightarrow> c | None \<Rightarrow> cell_default))
        else bt_get (ps_by_phase s) k)" for k
      by (cases "phase_key r") (simp_all add: record_cell_def bt_get_insert)
    have small1: "\<forall>k. small_cell (bt_get (ps_pooled ?s) k)"
    proof
      fix k
      show "small_cell (bt_get (ps_pooled ?s) k)"
      proof (cases "k = pooled_key r")
        case True
        show ?thesis unfolding pooled if_P [OF True] by (rule small_record [OF spec [OF Cons.prems(2)]])
      next
        case False
        show ?thesis unfolding pooled if_not_P [OF False] by (rule spec [OF Cons.prems(2)])
      qed
    qed
    have small2: "\<forall>k. small_cell (bt_get (ps_by_phase ?s) k)"
    proof
      fix k
      show "small_cell (bt_get (ps_by_phase ?s) k)"
      proof (cases "phase_key r = Some k")
        case True
        show ?thesis unfolding phase if_P [OF True] by (rule small_record [OF spec [OF Cons.prems(3)]])
      next
        case False
        show ?thesis unfolding phase if_not_P [OF False] by (rule spec [OF Cons.prems(3)])
      qed
    qed
    note IH = Cons.IH [OF loop small1 small2]
    have whole: "first_of_event seen (filter (\<lambda>r. pj_judged_at_unix_ms r \<le> ps_as_of_unix_ms s) (r # rs)) = r # ?rest"
      using fresh by simp
    have asof: "ps_as_of_unix_ms ?s = ps_as_of_unix_ms s" by simp
    have P: "bt_get (ps_pooled s') k = cell_extends (bt_get (ps_pooled s) k) (filter (\<lambda>r. pooled_key r = k) (r # ?rest))" for k
    proof (cases "k = pooled_key r")
      case True
      then have g: "bt_get (ps_pooled ?s) k = Some (cell_record (pj_useful r) (case bt_get (ps_pooled s) k of Some c \<Rightarrow> c | None \<Rightarrow> cell_default))"
        unfolding pooled by (rule if_P)
      have "bt_get (ps_pooled s') k = cell_extends (bt_get (ps_pooled ?s) k) (filter (\<lambda>r. pooled_key r = k) ?rest)"
        using IH unfolding asof by blast
      then show ?thesis unfolding g cell_extends_record [OF Cons.prems(2) [rule_format]] using True by simp
    next
      case False
      then have g: "bt_get (ps_pooled ?s) k = bt_get (ps_pooled s) k" unfolding pooled by (rule if_not_P)
      have "bt_get (ps_pooled s') k = cell_extends (bt_get (ps_pooled ?s) k) (filter (\<lambda>r. pooled_key r = k) ?rest)"
        using IH unfolding asof by blast
      then show ?thesis unfolding g using False by simp
    qed
    have B: "bt_get (ps_by_phase s') k = cell_extends (bt_get (ps_by_phase s) k) (filter (\<lambda>r. phase_key r = Some k) (r # ?rest))" for k
    proof (cases "phase_key r = Some k")
      case True
      then have g: "bt_get (ps_by_phase ?s) k = Some (cell_record (pj_useful r) (case bt_get (ps_by_phase s) k of Some c \<Rightarrow> c | None \<Rightarrow> cell_default))"
        unfolding phase by (rule if_P)
      have "bt_get (ps_by_phase s') k = cell_extends (bt_get (ps_by_phase ?s) k) (filter (\<lambda>r. phase_key r = Some k) ?rest)"
        using IH unfolding asof by blast
      then show ?thesis unfolding g cell_extends_record [OF Cons.prems(3) [rule_format]] using True by simp
    next
      case False
      then have g: "bt_get (ps_by_phase ?s) k = bt_get (ps_by_phase s) k" unfolding phase by (rule if_not_P)
      have "bt_get (ps_by_phase s') k = cell_extends (bt_get (ps_by_phase ?s) k) (filter (\<lambda>r. phase_key r = Some k) ?rest)"
        using IH unfolding asof by blast
      then show ?thesis unfolding g using False by simp
    qed
    have ends: "ps_as_of_unix_ms s' = ps_as_of_unix_ms s" "list_all acceptable (r # rs)" using IH ok by simp_all
    show ?thesis unfolding whole by (intro conjI allI ends P B)
  qed
qed

text \<open>
  C33. A snapshot of the priors counts precisely the evidence it may use. Judgments are refused unless every one
  is independent and names a skill, a content and a policy; otherwise each cell holds the number of
  useful and of all judgments about its revision, counting one judgment per event and none after the
  cutoff, and a revision without one has no cell.
\<close>

theorem prior_counts_exact:
  assumes "from_judgments records as_of = Ok s"
  shows "list_all acceptable records \<and> ps_as_of_unix_ms s = as_of
    \<and> (\<forall>k. bt_get (ps_pooled s) k = cell_tally (filter (\<lambda>r. pooled_key r = k) (counted as_of records)))
    \<and> (\<forall>k. bt_get (ps_by_phase s) k = cell_tally (filter (\<lambda>r. phase_key r = Some k) (counted as_of records)))"
  using judgments_loop_Ok [OF assms [unfolded from_judgments_def]]
  by (simp add: small_cell_def cell_extends_None counted_def)


section \<open>The stored form\<close>

lemma pooled_from_fold:
  "\<forall>c \<in> set cs. pp_useful c \<le> pp_judged c \<Longrightarrow>
     pooled_from cs m = Ok (foldl (\<lambda>m (k, v). bt_insert k v m) m
       (map (\<lambda>c. ((pp_skill_id c, pp_content_hash c, pp_policy_version c), \<lparr>pc_useful = pp_useful c, pc_judged = pp_judged c\<rparr>)) cs))"
  by (induction cs arbitrary: m) (auto simp: not_less)

lemma by_phase_from_fold:
  "\<forall>c \<in> set cs. ph_useful c \<le> ph_judged c \<Longrightarrow>
     by_phase_from cs m = Ok (foldl (\<lambda>m (k, v). bt_insert k v m) m
       (map (\<lambda>c. ((ph_skill_id c, ph_content_hash c, ph_policy_version c, ph_phase c),
          \<lparr>pc_useful = ph_useful c, pc_judged = ph_judged c\<rparr>)) cs))"
  by (induction cs arbitrary: m) (auto simp: not_less)

definition cells_ok :: "('k::linorder, PriorCellCounts) btree \<Rightarrow> bool" where
  "cells_ok m \<longleftrightarrow> bt_sorted m \<and> (\<forall>c \<in> set (bt_values m). pc_useful c \<le> pc_judged c \<and> pc_judged c \<le> U64_MAX)"

definition snapshot_ok :: "PriorSnapshot \<Rightarrow> bool" where
  "snapshot_ok s \<longleftrightarrow> cells_ok (ps_pooled s) \<and> cells_ok (ps_by_phase s)"

lemma cell_eta [simp]: "\<lparr>pc_useful = pc_useful c, pc_judged = pc_judged c\<rparr> = c"
  by (cases c) simp

lemma snapshot_reads_back:
  assumes "snapshot_ok s"
  shows "from_serialized (to_serialized s) = Ok s"
proof -
  have "\<forall>c \<in> set (sp_pooled (to_serialized s)). pp_useful c \<le> pp_judged c"
      "\<forall>c \<in> set (sp_by_phase (to_serialized s)). ph_useful c \<le> ph_judged c"
    using assms by (force simp: snapshot_ok_def cells_ok_def to_serialized_def bt_values_def)+
  note F = pooled_from_fold [OF this(1)] by_phase_from_fold [OF this(2)]
  have P: "map (\<lambda>c. ((pp_skill_id c, pp_content_hash c, pp_policy_version c), \<lparr>pc_useful = pp_useful c, pc_judged = pp_judged c\<rparr>))
      (sp_pooled (to_serialized s)) = ps_pooled s"
    by (simp add: to_serialized_def comp_def split_def map_idI)
  have B: "map (\<lambda>c. ((ph_skill_id c, ph_content_hash c, ph_policy_version c, ph_phase c), \<lparr>pc_useful = ph_useful c, pc_judged = ph_judged c\<rparr>))
      (sp_by_phase (to_serialized s)) = ps_by_phase s"
    by (simp add: to_serialized_def comp_def split_def map_idI)
  have "foldl (\<lambda>m (k, v). bt_insert k v m) [] (ps_pooled s) = ps_pooled s"
      "foldl (\<lambda>m (k, v). bt_insert k v m) [] (ps_by_phase s) = ps_by_phase s"
    using assms bt_fold_sorted [of "[]" "ps_pooled s"] bt_fold_sorted [of "[]" "ps_by_phase s"]
    by (simp_all add: snapshot_ok_def cells_ok_def bt_sorted_def)
  then have "pooled_from (sp_pooled (to_serialized s)) [] = Ok (ps_pooled s)"
      "by_phase_from (sp_by_phase (to_serialized s)) [] = Ok (ps_by_phase s)"
    unfolding F P B by simp_all
  then show ?thesis by (simp add: from_serialized_def) (simp add: to_serialized_def)
qed

lemma record_cell_sorted: "bt_sorted m \<Longrightarrow> bt_sorted (record_cell k u m)"
  by (simp add: record_cell_def bt_sorted_insert)

lemma record_cell_ok:
  assumes "cells_ok m"
  shows "cells_ok (record_cell k u m)"
proof -
  have sorted: "bt_sorted m" "bt_sorted (record_cell k u m)" using assms by (simp_all add: cells_ok_def record_cell_sorted)
  have old: "pc_useful x \<le> pc_judged x \<and> pc_judged x \<le> U64_MAX" if "bt_get m j = Some x" for j x
    using assms bt_values_get [OF sorted(1)] that by (auto simp: cells_ok_def)
  have "pc_useful c \<le> pc_judged c \<and> pc_judged c \<le> U64_MAX" if c: "c \<in> set (bt_values (record_cell k u m))" for c
  proof -
    obtain k' where k': "bt_get (record_cell k u m) k' = Some c"
      using c bt_values_get [OF sorted(2)] by blast
    show ?thesis
    proof (cases "k = k'")
      case True
      then have "c = cell_record u (case bt_get m k of Some c \<Rightarrow> c | None \<Rightarrow> cell_default)"
        using k' by (simp add: record_cell_def bt_get_insert)
      then show ?thesis
        using old [of k] by (cases "bt_get m k") (auto simp: cell_record_def cell_default_def sat_add64_def Let_def)
    next
      case False
      then show ?thesis using k' old by (simp add: record_cell_def bt_get_insert)
    qed
  qed
  with sorted(2) show ?thesis by (simp add: cells_ok_def)
qed

lemma record_snapshot_ok:
  "snapshot_ok s \<Longrightarrow> snapshot_ok (s\<lparr>ps_pooled := record_cell k u (ps_pooled s),
    ps_by_phase := (case p of Some k' \<Rightarrow> record_cell k' u (ps_by_phase s) | None \<Rightarrow> ps_by_phase s)\<rparr>)"
  by (cases p) (simp_all add: snapshot_ok_def record_cell_ok)

lemma judgments_loop_ok: "judgments_loop rs seen s = Ok s' \<Longrightarrow> snapshot_ok s \<Longrightarrow> snapshot_ok s'"
proof (induction rs arbitrary: seen s)
  case (Cons r rs)
  then show ?case
    by (auto split: if_split_asm intro: Cons.IH record_snapshot_ok)
qed simp

text \<open>
  A stored snapshot of the priors is read back unchanged: every snapshot built from judgments survives its
  serialized form, with the same cutoff, cells and counts.
\<close>

theorem stored_priors_read_back:
  assumes "from_judgments records as_of = Ok s"
  shows "from_serialized (to_serialized s) = Ok s"
proof -
  have "snapshot_ok s"
    using judgments_loop_ok [OF assms [unfolded from_judgments_def]] by (simp add: snapshot_ok_def cells_ok_def)
  then show ?thesis by (rule snapshot_reads_back)
qed

section \<open>An example\<close>

definition demo_judgment :: "nat \<Rightarrow> bool \<Rightarrow> u64 \<Rightarrow> PriorJudgmentRecord" where
  "demo_judgment n useful t = \<lparr>pj_event_id = [n], pj_skill_id = scalars ''pdf'', pj_content_hash = scalars ''a1'',
     pj_policy_version = scalars ''v1'', pj_phase = Some (scalars ''testing''), pj_useful = useful,
     pj_label_source = scalars ''independent_judgment'', pj_judged_at_unix_ms = t\<rparr>"

definition demo_judgments :: "PriorJudgmentRecord list" where
  "demo_judgments = [demo_judgment 1 True 10, demo_judgment 1 False 11, demo_judgment 2 False 20, demo_judgment 3 True 99]"

definition demo_snapshot :: PriorSnapshot where
  "demo_snapshot = \<lparr>ps_as_of_unix_ms = 50,
     ps_pooled = [((scalars ''pdf'', scalars ''a1'', scalars ''v1''), \<lparr>pc_useful = 1, pc_judged = 2\<rparr>)],
     ps_by_phase = [((scalars ''pdf'', scalars ''a1'', scalars ''v1'', scalars ''testing''), \<lparr>pc_useful = 1, pc_judged = 2\<rparr>)]\<rparr>"

lemma demo_snapshot_built: "from_judgments demo_judgments 50 = Ok demo_snapshot"
  by code_simp

theorem prior_counts_exact_witness:
  "bt_get (ps_pooled demo_snapshot) (scalars ''pdf'', scalars ''a1'', scalars ''v1'')
     = cell_tally (filter (\<lambda>r. pooled_key r = (scalars ''pdf'', scalars ''a1'', scalars ''v1'')) (counted 50 demo_judgments))"
  using prior_counts_exact [OF demo_snapshot_built] by blast

theorem stored_priors_read_back_witness: "from_serialized (to_serialized demo_snapshot) = Ok demo_snapshot"
  by (rule stored_priors_read_back [OF demo_snapshot_built])

end
