(* ===== verification/Ranking.thy ===== *)
theory Ranking
  imports Rerank Priors
begin

text \<open>
  Model of the ranking of two provider answers in \<open>src/src/pipeline.rs\<close> (the steps of \<open>rank_once\<close>
  from the wide answer to the ranking): the gate, the rerank of the shortlist, local eligibility and
  scoring. The provider's answer to the rerank request is a function of that request.
\<close>

section \<open>The steps after the wide answer\<close>

record RankConfig =
  rf_gate :: f64
  rf_fits :: f64
  rf_top :: usize
  rf_shortlist :: usize
  rf_w_fit :: f64
  rf_w_prior :: f64
  rf_w_phase :: f64
  rf_model :: str
  rf_variant :: WireVariant

datatype Advice = LowNeedAdvice | Abstained AbstainReason | NotAvailable UnavailableReason | Advised Evaluation Ranking

definition skill_id_of :: "AdvisorySkill \<Rightarrow> SkillId" where
  "skill_id_of skill = bi_id (as_binding skill)"

definition shortlist_ids :: "Shortlisted list \<Rightarrow> SkillId list" where
  "shortlist_ids list = map (\<lambda>s. skill_id_of (sl_skill s)) list"

definition scoring_input :: "Libm \<Rightarrow> PriorSnapshot option \<Rightarrow> Eligible \<Rightarrow> Input" where
  "scoring_input L priors el =
     (case priors of
        None \<Rightarrow> input_from_eligible el
      | Some p \<Rightarrow> (input_from_eligible el)\<lparr>in_prior_delta :=
          prior_delta L p (skill_id_of (el_skill el)) (sk_source_content (as_record (el_skill el))) (scalars ''v1'') None\<rparr>)"

text \<open>Local eligibility after the rerank, then the scoring of what is left.\<close>

definition finish_ranking ::
  "Libm \<Rightarrow> RankConfig \<Rightarrow> PriorSnapshot option \<Rightarrow> SkillId set \<Rightarrow> LoadedState \<Rightarrow> Shortlisted list \<Rightarrow> RerankOutcome
     \<Rightarrow> (Advice, ErrorKind) result option" where
  "finish_ranking L cfg priors excluded loaded shortlisted outcome =
     (case after_rerank (map sl_skill shortlisted) (rerank_estimates outcome) (ro_none_probability outcome) (rf_fits cfg) excluded loaded of
        None \<Rightarrow> None
      | Some ev \<Rightarrow> Some
         (case ev_verdict ev of
            Some (Abstain reason) \<Rightarrow> Ok (Abstained reason)
          | Some (Unavailable reason) \<Rightarrow> Ok (NotAvailable reason)
          | None \<Rightarrow>
             (case weights_new (rf_w_fit cfg) (rf_w_prior cfg) (rf_w_phase cfg) of
                Err _ \<Rightarrow> Err Ek_InvalidConfiguration
              | Ok weights \<Rightarrow>
                 (case rank L (map (scoring_input L priors) (ev_eligible ev)) weights (rf_top cfg) of
                    Err _ \<Rightarrow> Err Ek_InvalidProviderResponse
                  | Ok ranking \<Rightarrow> Ok (Advised ev ranking)))))"

definition rank_answers ::
  "'w RerankWire_scheme \<Rightarrow> Libm \<Rightarrow> RankConfig \<Rightarrow> PriorSnapshot option \<Rightarrow> ResolvedRoster \<Rightarrow> RenderedContextPayload
     \<Rightarrow> SkillId set \<Rightarrow> LoadedState \<Rightarrow> (RerankRequest \<Rightarrow> (Response, ErrorKind) result)
     \<Rightarrow> WideRequest \<Rightarrow> Response \<Rightarrow> (Advice, ErrorKind) result option" where
  "rank_answers W L cfg priors roster state excluded loaded answer wide response =
     (case sizes_new (rf_top cfg) (rf_shortlist cfg) of
        Err _ \<Rightarrow> Some (Err Ek_InvalidConfiguration)
      | Ok sizes \<Rightarrow>
         (case wide_evaluate wide response (rf_gate cfg) sizes of
            Err _ \<Rightarrow> Some (Err Ek_InvalidProviderResponse)
          | Ok outcome \<Rightarrow>
             (case wo_decision outcome of
                LowNeed \<Rightarrow> Some (Ok LowNeedAdvice)
              | Shortlist shortlisted \<Rightarrow>
                  try_or wide_kind
                    (rerank_build_with_variant W roster (shortlist_ids shortlisted) state (rf_model cfg) (rf_variant cfg)) (\<lambda>rerank.
                  case answer rerank of
                    Err e \<Rightarrow> Some (Err e)
                  | Ok rerank_response \<Rightarrow>
                     (case rerank_evaluate rerank rerank_response of
                        Err _ \<Rightarrow> Some (Err Ek_InvalidProviderResponse)
                      | Ok rerank_outcome \<Rightarrow>
                          finish_ranking L cfg priors excluded loaded shortlisted rerank_outcome)))))"

section \<open>The shortlist and its estimates cover the same skills\<close>

text \<open>In a resolved roster every identifier leads to a binding of that identifier.\<close>

definition identified :: "ResolvedRoster \<Rightarrow> bool" where
  "identified roster \<longleftrightarrow> (\<forall>i. bt_get (ro_ids roster) i \<noteq> None \<longrightarrow> skill_id_of (advisory_at roster i) = i)"

lemma reference_binding_id: "bi_id (reference_binding es e) = eid e"
proof -
  have u: "bi_id (b\<lparr>bi_restrictions := r\<rparr>) = bi_id b" "bi_id (b\<lparr>bi_visibility := v\<rparr>) = bi_id b" for b r v
    by (cases b, simp)+
  show ?thesis unfolding reference_binding_def Let_def by (simp only: if_distrib [of bi_id] u if_cancel)
qed

lemma resolved_identified:
  assumes "roster_resolve bud entries partial = Ok roster"
  shows "identified roster"
  unfolding identified_def
proof (intro allI impI)
  fix i assume "bt_get (ro_ids roster) i \<noteq> None"
  note F = roster_resolved [OF assms refl]
  then obtain e where e: "e \<in> set (sort_key eid entries)" "eid e = i"
    using F(1) [of i] \<open>bt_get (ro_ids roster) i \<noteq> None\<close> by blast
  then have "binding_at (ro_skills roster) (the (bt_get (ro_ids roster) i)) = reference_binding (sort_key eid entries) e"
    using F(4) [OF e(1)] by (simp add: pos_of_def)
  then show "skill_id_of (advisory_at roster i) = i"
    by (simp add: advisory_at_def Let_def skill_id_of_def reference_binding_id e(2))
qed

lemma offered_ids:
  assumes "offers roster ids options" "identified roster"
  shows "mset (map skill_id_of (bt_values options)) = mset ids" "distinct ids"
    and "s \<in> set (bt_values options) \<Longrightarrow> s = advisory_at roster (skill_id_of s) \<and> skill_id_of s \<in> set ids \<and> eligible_binding (as_binding s)"
proof -
  have present: "\<forall>i \<in> set ids. skill_id_of (advisory_at roster i) = i"
    using assms unfolding offers_def identified_def by blast
  have vals: "mset (bt_values options) = mset (map (advisory_at roster) ids)" using assms(1) by (simp only: offers_def)
  have "mset (map skill_id_of (bt_values options)) = image_mset skill_id_of (mset (bt_values options))" by simp
  also have "\<dots> = mset (map (\<lambda>i. skill_id_of (advisory_at roster i)) ids)" unfolding vals by (simp add: multiset.map_comp comp_def)
  also have "map (\<lambda>i. skill_id_of (advisory_at roster i)) ids = ids" using present by (simp add: map_idI)
  finally show "mset (map skill_id_of (bt_values options)) = mset ids" .
  have "distinct (map (\<lambda>i. fst (the (bt_get (ro_ids roster) i))) ids)" using assms(1) by (simp only: offers_def)
  then show "distinct ids" by (simp add: distinct_map)
  assume s: "s \<in> set (bt_values options)"
  then have "s \<in> set (map (advisory_at roster) ids)" using mset_eq_setD [OF vals] by simp
  then obtain i where "i \<in> set ids" "s = advisory_at roster i" by auto
  moreover have "eligible_binding (as_binding s)" using assms(1) s by (simp add: offers_def)
  ultimately show "s = advisory_at roster (skill_id_of s) \<and> skill_id_of s \<in> set ids \<and> eligible_binding (as_binding s)"
    using present by simp
qed

text \<open>A shortlist: skills of the wide options, none twice.\<close>

lemma shortlist_members:
  assumes "wide_evaluate w resp gate sizes = Ok out" "wo_decision out = Shortlist list"
    and "offers roster admitted (wq_options w)" "identified roster"
  shows "distinct (shortlist_ids list)" "length list \<le> sz_shortlist sizes"
    and "x \<in> set list \<Longrightarrow> sl_skill x = advisory_at roster (skill_id_of (sl_skill x)) \<and> skill_id_of (sl_skill x) \<in> set admitted
      \<and> eligible_binding (as_binding (sl_skill x))"
proof -
  obtain which rest where v: "valued (normalized_probabilities which) (wq_options w) (mset (wo_intrinsic_shortlist out) + mset rest)"
      "length (wo_intrinsic_shortlist out) = min (sz_shortlist sizes) (length (wq_options w))"
      "wo_decision out = (if f64_lt (wo_needs_skill out) gate then LowNeed else Shortlist (wo_intrinsic_shortlist out))"
    using wide_shortlist [OF assms(1)] by blast
  have list: "wo_intrinsic_shortlist out = list" using v(3) assms(2) by (auto split: if_split_asm)
  then show "length list \<le> sz_shortlist sizes" using v(2) by simp
  have "image_mset fst (image_mset (\<lambda>x. (sl_skill x, Some (sl_wide_probability x))) (mset list + mset rest))
      = image_mset fst (image_mset (\<lambda>(opt, skill). (skill, bt_get (normalized_probabilities which) opt)) (mset (wq_options w)))"
    using v(1) unfolding valued_def list by (rule arg_cong)
  then have all: "mset (map sl_skill list) + mset (map sl_skill rest) = mset (bt_values (wq_options w))"
    by (simp add: multiset.map_comp comp_def split_def bt_values_def)
  note O = offered_ids [OF assms(3,4)]
  have "mset (shortlist_ids list) + mset (map (\<lambda>s. skill_id_of (sl_skill s)) rest) = mset (map skill_id_of (bt_values (wq_options w)))"
    using arg_cong [OF all, of "image_mset skill_id_of"] by (simp add: shortlist_ids_def multiset.map_comp comp_def)
  then have "mset (shortlist_ids list @ map (\<lambda>s. skill_id_of (sl_skill s)) rest) = mset admitted" using O(1) by simp
  then have "distinct (shortlist_ids list @ map (\<lambda>s. skill_id_of (sl_skill s)) rest)" using O(2) mset_eq_imp_distinct_iff by blast
  then show "distinct (shortlist_ids list)" by simp
  assume "x \<in> set list"
  then have "sl_skill x \<in># mset (map sl_skill list) + mset (map sl_skill rest)" by simp
  then have "sl_skill x \<in> set (bt_values (wq_options w))" unfolding all by simp
  from O(3) [OF this] show "sl_skill x = advisory_at roster (skill_id_of (sl_skill x)) \<and> skill_id_of (sl_skill x) \<in> set admitted
      \<and> eligible_binding (as_binding (sl_skill x))" .
qed

lemma rerank_skills:
  assumes "offers roster (shortlist_ids list) options"
    and "\<forall>x \<in> set list. sl_skill x = advisory_at roster (skill_id_of (sl_skill x))"
  shows "mset (bt_values options) = mset (map sl_skill list)"
proof -
  have "map (advisory_at roster) (shortlist_ids list) = map sl_skill list" using assms(2) by (simp add: shortlist_ids_def)
  with assms(1) show ?thesis by (simp add: offers_def)
qed

text \<open>The estimates of a rerank, keyed by the identifiers of the shortlist.\<close>

lemma estimates_cover:
  assumes "mset (map fst (ro_candidates out)) = mset skills" "distinct (map skill_id_of skills)"
  shows "bt_sorted (rerank_estimates out)" "set (bt_keys (rerank_estimates out)) = set (map skill_id_of skills)"
    and "s \<in> set skills \<Longrightarrow> \<exists>e. (s, e) \<in> set (ro_candidates out) \<and> estimate_of (rerank_estimates out) (bi_id (as_binding s)) = e"
proof -
  let ?kvs = "map (\<lambda>(skill, e). (bi_id (as_binding skill), e)) (ro_candidates out)"
  have keys: "map fst ?kvs = map skill_id_of (map fst (ro_candidates out))"
    by (simp add: skill_id_of_def comp_def split_def)
  have "mset (map fst ?kvs) = mset (map skill_id_of skills)"
    unfolding keys using arg_cong [OF assms(1), of "image_mset skill_id_of"] by (simp add: multiset.map_comp)
  then have dist: "distinct (map fst ?kvs)" and set_keys: "set (map fst ?kvs) = set (map skill_id_of skills)"
    using assms(2) mset_eq_imp_distinct_iff mset_eq_setD by blast+
  show sorted: "bt_sorted (rerank_estimates out)" by (simp add: rerank_estimates_def bt_sorted_of_list)
  have get: "bt_get (rerank_estimates out) k = map_of ?kvs k" for k
  proof -
    have "map_of (rev ?kvs) = map_of ?kvs" using dist by (subst map_of_inject_set) (simp_all add: rev_map [symmetric])
    then show ?thesis by (simp only: rerank_estimates_def bt_get_of_list)
  qed
  have mem: "k \<in> set (bt_keys (rerank_estimates out)) \<longleftrightarrow> k \<in> set (map fst ?kvs)" for k
    unfolding set_map [of fst] using bt_get_None_iff [of "rerank_estimates out" k, unfolded get] map_of_eq_None_iff [of ?kvs k] by argo
  show "set (bt_keys (rerank_estimates out)) = set (map skill_id_of skills)" using mem set_keys by blast
  assume "s \<in> set skills"
  then have "s \<in> set (map fst (ro_candidates out))" using mset_eq_setD [OF assms(1)] by simp
  then obtain e where e: "(s, e) \<in> set (ro_candidates out)" by auto
  then have "(bi_id (as_binding s), e) \<in> set ?kvs" by (force intro: rev_image_eqI)
  then have "bt_get (rerank_estimates out) (bi_id (as_binding s)) = Some e"
    unfolding get using dist by (rule map_of_is_SomeI [rotated])
  then show "\<exists>e. (s, e) \<in> set (ro_candidates out) \<and> estimate_of (rerank_estimates out) (bi_id (as_binding s)) = e"
    using e by (auto simp: estimate_of_def)
qed

section \<open>What is advised\<close>

definition sound_advice :: "Libm \<Rightarrow> RankConfig \<Rightarrow> ResolvedRoster \<Rightarrow> SkillId list \<Rightarrow> SkillId set \<Rightarrow> LoadedState \<Rightarrow> Advice \<Rightarrow> bool" where
  "sound_advice L cfg roster admitted excluded loaded advice =
     (case advice of
        LowNeedAdvice \<Rightarrow> False
      | Abstained _ \<Rightarrow> True
      | NotAvailable _ \<Rightarrow> False
      | Advised ev ranking \<Rightarrow>
          rg_returned ranking \<noteq> [] \<and> length (rg_returned ranking) \<le> rf_top cfg
          \<and> distinct (map sc_index (rg_returned ranking))
          \<and> (\<forall>s \<in> set (rg_returned ranking). sc_index s < length (ev_eligible ev)
               \<and> (let skill = el_skill (ev_eligible ev ! sc_index s) in
                  skill_id_of skill \<in> set admitted \<and> skill = advisory_at roster (skill_id_of skill)
                  \<and> eligible_binding (as_binding skill)
                  \<and> skill_id_of skill \<notin> excluded \<and> sk_id (as_record skill) \<notin> excluded
                  \<and> \<not> proven_loaded skill loaded
                  \<and> f64_le (rf_fits cfg) (el_fit (ev_eligible ev ! sc_index s)))))"

lemma rank_returned:
  assumes "rank L inputs w k = Ok r"
  shows "length (rg_returned r) = min k (length inputs) \<and> distinct (map sc_index (rg_returned r))
    \<and> (\<forall>s \<in> set (rg_returned r). sc_index s < length inputs)"
proof -
  let ?scored = "score_all (map (utility L w) inputs) (exps_of L (map (utility L w) inputs))"
  have r: "rg_returned r = take (min k (length ?scored)) (sort_scored inputs ?scored)"
    using assms by (auto simp: rank_Ok_iff Let_def)
  have idx: "map sc_index ?scored = [0..<length inputs]" using score_all_index [of "map (utility L w) inputs"] by simp
  then have len: "length ?scored = length inputs" by (metis length_map length_upt diff_zero)
  have "mset (map sc_index (sort_scored inputs ?scored)) = mset (map sc_index ?scored)" by simp
  then have m: "mset (map sc_index (sort_scored inputs ?scored)) = mset [0..<length inputs]" unfolding idx .
  have dist: "distinct (map sc_index (sort_scored inputs ?scored))" using mset_eq_imp_distinct_iff [OF m] by simp
  note rng = mset_eq_setD [OF m, unfolded set_upt]
  have "distinct (map sc_index (rg_returned r))" unfolding r take_map [symmetric] using dist by (rule distinct_take)
  moreover have "sc_index s < length inputs" if "s \<in> set (rg_returned r)" for s
  proof -
    have "s \<in> set (sort_scored inputs ?scored)" using that unfolding r by (rule in_set_takeD)
    then have "sc_index s \<in> set (map sc_index (sort_scored inputs ?scored))" by (simp only: set_map image_eqI)
    then show ?thesis unfolding rng by simp
  qed
  moreover have "length (rg_returned r) = min k (length inputs)" unfolding r using len by simp
  ultimately show ?thesis by blast
qed


definition config_ok :: "RankConfig \<Rightarrow> bool" where
  "config_ok cfg \<longleftrightarrow> f64_within (Fin 0) (Fin 1) (rf_gate cfg) \<and> 1 \<le> rf_top cfg \<and> rf_top cfg \<le> rf_shortlist cfg \<and> rf_shortlist cfg \<le> MAX_SIZE
     \<and> (\<exists>weights. weights_new (rf_w_fit cfg) (rf_w_prior cfg) (rf_w_phase cfg) = Ok weights)"

definition priors_bounded :: "PriorSnapshot option \<Rightarrow> bool" where
  "priors_bounded priors \<longleftrightarrow> (\<forall>p. priors = Some p \<longrightarrow> (\<forall>c \<in> cells p. pc_judged c + 20 \<le> 2 ^ 53))"

lemma scoring_input_ok:
  assumes "ln_bounded L" "priors_bounded priors" "f64_within (Fin 0) (Fin 1) (el_fit el)" "f64_within (Fin 0) (Fin 1) (el_rerank el)"
  shows "input_ok (scoring_input L priors el)" "at_most 1 (in_prior_delta (scoring_input L priors el))"
    and "in_id (scoring_input L priors el) = skill_id_of (el_skill el)"
proof -
  have zero: "at_most 1 (Fin 0)" by (simp add: at_most_def)
  show p: "at_most 1 (in_prior_delta (scoring_input L priors el))"
    using assms(2) prior_delta_bounded [OF assms(1)] zero
    by (cases priors) (auto simp: scoring_input_def input_from_eligible_def priors_bounded_def simp del: One_nat_def)
  have "is_finite (in_prior_delta (scoring_input L priors el))" by (rule at_most_finite [OF p])
  moreover have "in_rerank (scoring_input L priors el) = el_rerank el" "in_fit (scoring_input L priors el) = el_fit el"
      "in_phase_match (scoring_input L priors el) = Fin 0"
    by (cases priors; simp add: scoring_input_def input_from_eligible_def)+
  ultimately show "input_ok (scoring_input L priors el)"
    using assms(3,4) by (simp add: input_ok_def probability_ok_def f64_within_val)
  show "in_id (scoring_input L priors el) = skill_id_of (el_skill el)"
    by (cases priors) (simp_all add: scoring_input_def input_from_eligible_def skill_id_of_def)
qed

lemma scoring_ranks:
  assumes L: "ln_bounded L" and priors: "priors_bounded priors" and w: "weights_new fit prior phase = Ok weights"
    and els: "els \<noteq> []" "\<forall>el \<in> set els. f64_within (Fin 0) (Fin 1) (el_fit el) \<and> f64_within (Fin 0) (Fin 1) (el_rerank el)"
      "distinct (map (\<lambda>el. skill_id_of (el_skill el)) els)"
    and k: "1 \<le> k" "k \<le> MAX_TOP_K"
  shows "\<exists>r. rank L (map (scoring_input L priors) els) weights k = Ok r"
proof -
  note I = scoring_input_ok [OF L priors]
  have ids: "map in_id (map (scoring_input L priors) els) = map (\<lambda>el. skill_id_of (el_skill el)) els"
    using els(2) I(3) by simp
  have ok: "list_all input_ok (map (scoring_input L priors) els)" using els(2) I(1) by (simp add: list_all_iff)
  have "is_finite (utility L weights (scoring_input L priors el))" if "el \<in> set els" for el
    using that els(2) I(1,2) [of el] by (intro utility_finite [OF L w]) (auto simp: input_ok_def)
  then have "list_all is_finite (map (utility L weights) (map (scoring_input L priors) els))" by (simp add: list_all_iff)
  moreover have "validate_inputs (map (scoring_input L priors) els) k = Ok ()"
    unfolding validate_inputs_Ok ids using els(1,3) k ok by simp
  ultimately show ?thesis by (simp add: rank_Ok_iff Let_def)
qed

text \<open>The decision after a rerank whose estimates cover the shortlist.\<close>

lemma finish_sound:
  assumes L: "ln_bounded L" and priors: "priors_bounded priors" and cfg: "config_ok cfg"
    and out: "unit_estimates out" "mset (map fst (ro_candidates out)) = mset (map sl_skill list)"
    and list: "list \<noteq> []" "distinct (shortlist_ids list)"
      "\<forall>x \<in> set list. sl_skill x = advisory_at roster (skill_id_of (sl_skill x)) \<and> skill_id_of (sl_skill x) \<in> set admitted
        \<and> eligible_binding (as_binding (sl_skill x))"
  shows "\<exists>advice. finish_ranking L cfg priors excluded loaded list out = Some (Ok advice)
    \<and> sound_advice L cfg roster admitted excluded loaded advice
    \<and> ((\<exists>ev ranking. advice = Advised ev ranking) \<longleftrightarrow>
        (\<exists>x \<in> set list. first_exclusion (rerank_estimates out) (ro_none_probability out) (rf_fits cfg) excluded loaded (sl_skill x) = None))"
proof -
  let ?skills = "map sl_skill list" and ?est = "rerank_estimates out"
  have dist: "distinct (map skill_id_of ?skills)" using list(2) by (simp add: shortlist_ids_def comp_def)
  note E = estimates_cover [OF out(2) dist]
  define fe where "fe = first_exclusion ?est (ro_none_probability out) (rf_fits cfg) excluded loaded"
  have mm: "members_match ?skills ?est"
    unfolding members_match_iff [OF E(1)] using list(1) dist E(2) by (simp add: skill_id_of_def comp_def)
  let ?els = "map (eligible_of ?est) (filter (\<lambda>s. fe s = None) ?skills)"
  note A = after_rerank_eq [OF fe_def E(1) mm]
  obtain weights where w: "weights_new (rf_w_fit cfg) (rf_w_prior cfg) (rf_w_phase cfg) = Ok weights"
    using cfg by (auto simp: config_ok_def)
  show ?thesis
  proof (cases "\<exists>s \<in> set ?skills. fe s = None")
    case False
    then show ?thesis unfolding finish_ranking_def A by (auto simp: sound_advice_def fe_def)
  next
    case True
    have unit: "\<forall>el \<in> set ?els. f64_within (Fin 0) (Fin 1) (el_fit el) \<and> f64_within (Fin 0) (Fin 1) (el_rerank el)"
    proof
      fix el assume "el \<in> set ?els"
      then obtain s where s: "s \<in> set ?skills" "el = eligible_of ?est s" by auto
      with E(3) obtain e where "(s, e) \<in> set (ro_candidates out)" "estimate_of ?est (bi_id (as_binding s)) = e" by blast
      with out(1) s(2) show "f64_within (Fin 0) (Fin 1) (el_fit el) \<and> f64_within (Fin 0) (Fin 1) (el_rerank el)"
        by (auto simp: unit_estimates_def eligible_of_def)
    qed
    have skill: "el_skill (eligible_of ?est s) = s" for s by (simp add: eligible_of_def Let_def)
    have ids: "map (\<lambda>el. skill_id_of (el_skill el)) ?els = map skill_id_of (filter (\<lambda>s. fe s = None) ?skills)"
      by (simp add: skill comp_def)
    have "distinct (map (\<lambda>el. skill_id_of (el_skill el)) ?els)" unfolding ids by (rule distinct_map_filter [OF dist])
    moreover have "?els \<noteq> []" using True by (auto simp: filter_empty_conv)
    moreover have "1 \<le> rf_top cfg" "rf_top cfg \<le> MAX_TOP_K" using cfg by (auto simp: config_ok_def MAX_SIZE_def MAX_TOP_K_def)
    ultimately obtain r where r: "rank L (map (scoring_input L priors) ?els) weights (rf_top cfg) = Ok r"
      using scoring_ranks [OF L priors w _ unit] by blast
    note R = rank_returned [OF r]
    let ?ev = "\<lparr>ev_eligible = ?els, ev_removed = removed_at {Restricted, ExcludedByUser} fe ?skills @ removed_at {AlreadyLoaded} fe ?skills
        @ removed_at {LowFit} fe ?skills @ removed_at {NotAboveNone} fe ?skills, ev_verdict = None\<rparr>"
    have fin: "finish_ranking L cfg priors excluded loaded list out = Some (Ok (Advised ?ev r))"
      unfolding finish_ranking_def A using True w r by simp
    have chosen: "skill_id_of s \<in> set admitted \<and> s = advisory_at roster (skill_id_of s) \<and> eligible_binding (as_binding s)
        \<and> skill_id_of s \<notin> excluded \<and> sk_id (as_record s) \<notin> excluded \<and> \<not> proven_loaded s loaded
        \<and> f64_le (rf_fits cfg) (el_fit (eligible_of ?est s))" if s: "s \<in> set ?skills" "fe s = None" for s
    proof -
      obtain x where "x \<in> set list" "s = sl_skill x" using s(1) by auto
      with list(3) have "skill_id_of s \<in> set admitted \<and> s = advisory_at roster (skill_id_of s) \<and> eligible_binding (as_binding s)" by blast
      with s(2) show ?thesis
        by (auto simp: fe_def first_exclusion_def Let_def skill_id_of_def eligible_of_def split: if_split_asm)
    qed
    have each: "sc_index t < length ?els \<and> (let skill = el_skill (?els ! sc_index t) in
                  skill_id_of skill \<in> set admitted \<and> skill = advisory_at roster (skill_id_of skill)
                  \<and> eligible_binding (as_binding skill)
                  \<and> skill_id_of skill \<notin> excluded \<and> sk_id (as_record skill) \<notin> excluded
                  \<and> \<not> proven_loaded skill loaded
                  \<and> f64_le (rf_fits cfg) (el_fit (?els ! sc_index t)))" if t: "t \<in> set (rg_returned r)" for t
    proof -
      have i: "sc_index t < length (filter (\<lambda>s. fe s = None) ?skills)" using R t by simp
      let ?s = "filter (\<lambda>s. fe s = None) ?skills ! sc_index t"
      have "?s \<in> set (filter (\<lambda>s. fe s = None) ?skills)" using i by (rule nth_mem)
      then have "?s \<in> set ?skills" "fe ?s = None" by simp_all
      from chosen [OF this] i show ?thesis by (simp only: nth_map skill Let_def length_map simp_thms)
    qed
    have "0 < length (rg_returned r)"
    proof -
      have "0 < length ?els" "0 < rf_top cfg" using \<open>?els \<noteq> []\<close> \<open>1 \<le> rf_top cfg\<close> by (simp_all only: length_greater_0_conv) simp
      then show ?thesis using R by (simp only: length_map min_less_iff_conj)
    qed
    then have nonempty: "rg_returned r \<noteq> []" by simp
    have len: "length (rg_returned r) \<le> rf_top cfg" "distinct (map sc_index (rg_returned r))" using R by simp_all
    have "sound_advice L cfg roster admitted excluded loaded (Advised ?ev r)"
      unfolding sound_advice_def Advice.case Evaluation.simps using each nonempty len by blast
    moreover have "\<exists>x \<in> set list. first_exclusion ?est (ro_none_probability out) (rf_fits cfg) excluded loaded (sl_skill x) = None"
      using True by (simp add: fe_def)
    ultimately show ?thesis using fin by blast
  qed
qed


text \<open>
  C7. Two answers that decode always lead to sound advice. For a resolved roster, a wide request built on the
  admitted candidates and its decoded answer, the wide answer is evaluated, and a low need ends the
  ranking as such. Otherwise the rerank request is built for precisely the skills of the shortlist, in its order; the
  ranking panics or fails only where that request cannot be built or its own answer is not delivered, with that
  error. Whenever the answer is delivered there is advice: a nonempty list of at most the configured number of
  distinct skills, each of them admitted, eligible, not excluded, not proven loaded, and judged at least as fitting
  as the threshold; or an abstention, exactly when some rule of local eligibility excludes every shortlisted skill.
\<close>

theorem decoded_answers_give_sound_advice:
  assumes roster: "roster_resolve bud entries partial = Ok roster"
    and wide: "wide_build_with_variant V roster admitted state model stuck variant = Some (Ok w)"
      "decode_wire (wq_request w) wire = Ok resp" "wire_doubles wire"
    and provider: "\<And>rerank resp. answer rerank = Ok resp \<Longrightarrow> \<exists>wire. decode_wire (rr_request rerank) wire = Ok resp \<and> wire_doubles wire"
    and cfg: "config_ok cfg" and libm: "ln_bounded L" and priors: "priors_bounded priors"
  shows "\<exists>out. wide_evaluate w resp (rf_gate cfg) \<lparr>sz_top = rf_top cfg, sz_shortlist = rf_shortlist cfg\<rparr> = Ok out
    \<and> (let result = rank_answers W L cfg priors roster state excluded loaded answer w resp in
       case wo_decision out of
         LowNeed \<Rightarrow> result = Some (Ok LowNeedAdvice)
       | Shortlist shortlisted \<Rightarrow>
           (case rerank_build_with_variant W roster (map (\<lambda>s. bi_id (as_binding (sl_skill s))) shortlisted) state
                   (rf_model cfg) (rf_variant cfg) of
              None \<Rightarrow> result = None
            | Some (Err e) \<Rightarrow> result = Some (Err (wide_kind e))
            | Some (Ok rerank) \<Rightarrow>
                (case answer rerank of
                   Err e \<Rightarrow> result = Some (Err e)
                 | Ok rerank_resp \<Rightarrow> (\<exists>rerank_out advice. rerank_evaluate rerank rerank_resp = Ok rerank_out
                     \<and> result = Some (Ok advice) \<and> sound_advice L cfg roster admitted excluded loaded advice
                     \<and> ((\<exists>ev ranking. advice = Advised ev ranking) \<longleftrightarrow>
                        (\<exists>x \<in> set shortlisted. first_exclusion (rerank_estimates rerank_out) (ro_none_probability rerank_out)
                           (rf_fits cfg) excluded loaded (sl_skill x) = None))))))"
proof -
  note B = wide_build_Ok [OF wide(1)]
  note ident = resolved_identified [OF roster]
  let ?sizes = "\<lparr>sz_top = rf_top cfg, sz_shortlist = rf_shortlist cfg\<rparr>"
  have sizes: "sizes_new (rf_top cfg) (rf_shortlist cfg) = Ok ?sizes" and gate: "f64_within (Fin 0) (Fin 1) (rf_gate cfg)"
    using cfg by (auto simp: config_ok_def sizes_new_def)
  obtain out where out: "wide_evaluate w resp (rf_gate cfg) ?sizes = Ok out"
    using wide_evaluates [OF _ _ wide(2,3) refl refl gate] B by blast
  show ?thesis
  proof (cases "wo_decision out")
    case LowNeed
    then show ?thesis by (simp add: rank_answers_def sizes out)
  next
    case (Shortlist list)
    note M = shortlist_members [OF out Shortlist _ ident, of admitted]
    have offers: "offers roster admitted (wq_options w)" using B by blast
    have ids: "map (\<lambda>s. bi_id (as_binding (sl_skill s))) list = shortlist_ids list"
      by (simp add: shortlist_ids_def skill_id_of_def)
    let ?build = "rerank_build_with_variant W roster (shortlist_ids list) state (rf_model cfg) (rf_variant cfg)"
    note ran = rank_answers_def sizes out Shortlist ids try_or_def
    consider "?build = None" | e where "?build = Some (Err e)" | r e where "?build = Some (Ok r)" "answer r = Err e"
      | r resp' where "?build = Some (Ok r)" "answer r = Ok resp'"
      by (metis option.exhaust result.exhaust)
    then show ?thesis
    proof cases
      case (4 r resp')
      note R = rerank_build_Ok [OF 4(1)]
      obtain wire' where w': "decode_wire (rr_request r) wire' = Ok resp'" "wire_doubles wire'" using provider [OF 4(2)] by blast
      obtain rout where rout: "rerank_evaluate r resp' = Ok rout" "unit_estimates rout" "map fst (ro_candidates rout) = bt_values (rr_options r)"
        using rerank_evaluates [OF _ _ w'] R by blast
      have mset: "mset (bt_values (rr_options r)) = mset (map sl_skill list)"
        by (rule rerank_skills) (use R M(3) offers in auto)
      have "list \<noteq> []" using R by (auto simp: shortlist_ids_def)
      then obtain advice where "finish_ranking L cfg priors excluded loaded list rout = Some (Ok advice)"
          "sound_advice L cfg roster admitted excluded loaded advice"
          "(\<exists>ev ranking. advice = Advised ev ranking) \<longleftrightarrow> (\<exists>x \<in> set list.
             first_exclusion (rerank_estimates rout) (ro_none_probability rout) (rf_fits cfg) excluded loaded (sl_skill x) = None)"
        using finish_sound [OF libm priors cfg rout(2), of list roster admitted excluded loaded] rout(3) mset M(1,3) offers by auto
      then show ?thesis using 4 by (simp add: ran rout(1))
    qed (simp_all add: ran)
  qed
qed


section \<open>An example\<close>

definition demo_config :: RankConfig where
  "demo_config = \<lparr>rf_gate = Fin (1 / 4), rf_fits = Fin (1 / 2), rf_top = 5, rf_shortlist = 8, rf_w_fit = Fin 1, rf_w_prior = Fin 0,
     rf_w_phase = Fin 0, rf_model = scalars ''jev-latest'', rf_variant = Canonical\<rparr>"

definition demo_provider :: "RerankRequest \<Rightarrow> (Response, ErrorKind) result" where
  "demo_provider r = (if r = demo_rerank then Ok demo_rerank_response else Err Ek_ProviderFailure)"

lemma demo_rerank_doubles: "wire_doubles demo_rerank_answer"
  by (auto simp: wire_doubles_def demo_rerank_answer_def bt_values_def)

lemma demo_config_ok: "config_ok demo_config"
  by (auto simp: config_ok_def demo_config_def MAX_SIZE_def weights_new_def f64_within_def W_FIT_MAX_def W_PRIOR_MAX_def W_PHASE_MAX_def)

lemma demo_libm_bounded: "ln_bounded demo_libm"
  by (auto simp: ln_bounded_def demo_libm_def at_most_def)

lemma demo_steps:
  "wide_evaluate demo_wide demo_wide_response (rf_gate demo_config)
     \<lparr>sz_top = rf_top demo_config, sz_shortlist = rf_shortlist demo_config\<rparr> = Ok demo_wide_outcome"
  "map_option (map (\<lambda>s. bi_id (as_binding (sl_skill s))))
     (case wo_decision demo_wide_outcome of LowNeed \<Rightarrow> None | Shortlist l \<Rightarrow> Some l) = Some [[97]]"
  "rerank_build_with_variant demo_rerank_env ro_demo_roster [[97]] demo_rendered (rf_model demo_config) (rf_variant demo_config)
     = Some (Ok demo_rerank)"
proof -
  show "wide_evaluate demo_wide demo_wide_response (rf_gate demo_config)
     \<lparr>sz_top = rf_top demo_config, sz_shortlist = rf_shortlist demo_config\<rparr> = Ok demo_wide_outcome"
    using demo_wide_evaluated
    by (simp add: demo_config_def sizes_default_def DEFAULT_TOP_def DEFAULT_SHORTLIST_def)
  show "map_option (map (\<lambda>s. bi_id (as_binding (sl_skill s))))
     (case wo_decision demo_wide_outcome of LowNeed \<Rightarrow> None | Shortlist l \<Rightarrow> Some l) = Some [[97]]"
    by code_simp
  show "rerank_build_with_variant demo_rerank_env ro_demo_roster [[97]] demo_rendered (rf_model demo_config) (rf_variant demo_config)
     = Some (Ok demo_rerank)"
    using demo_rerank_built by (simp add: demo_config_def)
qed

theorem decoded_answers_give_sound_advice_witness:
  "\<exists>advice. rank_answers demo_rerank_env demo_libm demo_config (Some demo_snapshot) ro_demo_roster demo_rendered {}
      \<lparr>lo_branch = None, lo_records = []\<rparr> demo_provider demo_wide demo_wide_response = Some (Ok advice)
    \<and> sound_advice demo_libm demo_config ro_demo_roster [[97]] {} \<lparr>lo_branch = None, lo_records = []\<rparr> advice"
proof -
  have provider: "\<exists>wire. decode_wire (rr_request rerank) wire = Ok resp \<and> wire_doubles wire"
    if "demo_provider rerank = Ok resp" for rerank resp
    using that demo_rerank_decoded demo_rerank_doubles by (auto simp: demo_provider_def split: if_split_asm)
  have priors: "priors_bounded (Some demo_snapshot)"
    by (auto simp: priors_bounded_def cells_def demo_snapshot_def bt_values_def)
  obtain l where l: "wo_decision demo_wide_outcome = Shortlist l" "map (\<lambda>s. bi_id (as_binding (sl_skill s))) l = [[97]]"
    using demo_steps(2) by (auto split: WideDecision.split_asm)
  have answered: "demo_provider demo_rerank = Ok demo_rerank_response" by (simp add: demo_provider_def)
  from decoded_answers_give_sound_advice [OF ro_demo_resolves demo_wide_built demo_wide_decoded demo_wide_doubles provider
      demo_config_ok demo_libm_bounded priors, where W = demo_rerank_env and answer = demo_provider and excluded = "{}"
      and loaded = "\<lparr>lo_branch = None, lo_records = []\<rparr>"]
  show ?thesis
    unfolding demo_steps(1) Let_def
    by (auto simp: l demo_steps(3) answered)
qed

end
