(* ===== verification/Fingerprint.thy ===== *)
theory Fingerprint
  imports Task_Anchor Scoring
begin

text \<open>
  Model of \<open>src/src/cache/fingerprint.rs\<close>: the namespace of the response cache and the byte streams
  whose keyed hash identifies a provider request, a decision and an event delivery. The keyed hash is an
  argument. That the streams determine what they encode is proved with prefix
  codes: a code whose end is determined by its beginning, so that codes can follow one another.
\<close>

section \<open>Byte streams\<close>

fun to_le_bytes :: "nat \<Rightarrow> nat \<Rightarrow> nat list" where
  "to_le_bytes 0 n = []"
| "to_le_bytes (Suc k) n = n mod 256 # to_le_bytes k (n div 256)"

definition feed_length_prefixed :: "nat list \<Rightarrow> nat list" where
  "feed_length_prefixed bytes = to_le_bytes 8 (length bytes) @ bytes"

definition feed_opt_id :: "str option \<Rightarrow> nat list" where
  "feed_opt_id v = (case v of Some s \<Rightarrow> [1] @ feed_length_prefixed (str_bytes s) | None \<Rightarrow> [0])"

definition DOMAIN_REQUEST :: "nat list" where "DOMAIN_REQUEST = scalars ''SR_REQ_FP_V1'' @ [0]"

definition DOMAIN_DECISION :: "nat list" where "DOMAIN_DECISION = scalars ''SR_DEC_FP_V1'' @ [0]"

definition DOMAIN_DELIVERY :: "nat list" where "DOMAIN_DELIVERY = scalars ''SR_EVT_DEL_V1'' @ [0]"

text \<open>\<open>f64::to_bits\<close>: the sign, then the biased exponent and the fraction, which together count the
  representable values from zero up. Every NaN is the canonical one.\<close>

definition magnitude_bits :: "rat \<Rightarrow> nat" where
  "magnitude_bits q =
     (if q = 0 then 0 else nat ((ulp_exp q + 1074) * 2 ^ 52 + \<lfloor>\<bar>q\<bar> / pow2 (ulp_exp q)\<rfloor>))"

fun f64_to_bits :: "f64 \<Rightarrow> u64" where
  "f64_to_bits (Fin q) = (if q < 0 then 2 ^ 63 else 0) + magnitude_bits q"
| "f64_to_bits NegZero = 2 ^ 63"
| "f64_to_bits PosInf = 2047 * 2 ^ 52"
| "f64_to_bits NegInf = 2 ^ 63 + 2047 * 2 ^ 52"
| "f64_to_bits NaN = 4095 * 2 ^ 51"

section \<open>Namespaces and requests\<close>

datatype FingerprintError = NonFiniteWeight | InvalidCandidateOrder

datatype RequestStage = WideStage | RerankStage

fun request_stage_as_str :: "RequestStage \<Rightarrow> string" where
  "request_stage_as_str WideStage = ''wide''"
| "request_stage_as_str RerankStage = ''rerank''"

datatype CacheSourceKind = NativeSource | NormalizedSource | CassSource

fun source_kind_as_str :: "CacheSourceKind \<Rightarrow> string" where
  "source_kind_as_str NativeSource = ''native''"
| "source_kind_as_str NormalizedSource = ''normalized''"
| "source_kind_as_str CassSource = ''cass''"

record CacheNamespace =
  cn_workspace_id :: "str option"
  cn_session_id :: "str option"
  cn_branch_id :: "BranchId option"
  cn_context_epoch :: "ContextEpoch option"
  cn_adapter_id :: "str option"
  cn_adapter_version :: "str option"
  cn_harness_id :: str
  cn_key_generation :: u64
  cn_source_kind :: "CacheSourceKind option"
  cn_producer_id :: "str option"
  cn_agent_id :: "AgentId option"
  cn_leaf_event_id :: "EventId option"

definition namespace_new :: "str \<Rightarrow> u64 \<Rightarrow> CacheNamespace" where
  "namespace_new harness key_generation =
     \<lparr>cn_workspace_id = None, cn_session_id = None, cn_branch_id = None, cn_context_epoch = None, cn_adapter_id = None,
      cn_adapter_version = None, cn_harness_id = harness, cn_key_generation = key_generation, cn_source_kind = None,
      cn_producer_id = None, cn_agent_id = None, cn_leaf_event_id = None\<rparr>"

definition namespace_bytes :: "CacheNamespace \<Rightarrow> nat list" where
  "namespace_bytes ns =
     feed_length_prefixed (str_bytes (cn_harness_id ns)) @ to_le_bytes 8 (cn_key_generation ns)
     @ feed_opt_id (cn_workspace_id ns) @ feed_opt_id (cn_session_id ns) @ feed_opt_id (cn_branch_id ns)
     @ feed_opt_id (cn_context_epoch ns) @ feed_opt_id (cn_adapter_id ns) @ feed_opt_id (cn_adapter_version ns)
     @ feed_opt_id (map_option (\<lambda>k. scalars (source_kind_as_str k)) (cn_source_kind ns))
     @ feed_opt_id (cn_producer_id ns) @ feed_opt_id (cn_agent_id ns) @ feed_opt_id (cn_leaf_event_id ns)"

record CandidateDigest =
  cd_skill_id :: SkillId
  cd_content_hash :: ContentHash
  cd_excerpt_hash :: "ContentHash option"

definition candidate_bytes :: "CandidateDigest \<Rightarrow> nat list" where
  "candidate_bytes c = feed_length_prefixed (str_bytes (cd_skill_id c)) @ feed_length_prefixed (str_bytes (cd_content_hash c))
     @ feed_opt_id (cd_excerpt_hash c)"

record RequestFingerprintInput =
  ri_stage :: RequestStage
  ri_canonical_redacted_state :: "nat list"
  ri_candidates :: "CandidateDigest list"
  ri_questions_digest :: "nat list"
  ri_endpoint_url :: str
  ri_model :: str
  ri_prompt_version :: str
  ri_adapter_version :: str
  ri_privacy_policy_version :: str
  ri_excerpt_strategy :: str
  ri_paired_wide :: "nat list option"

definition counted_bytes :: "('a \<Rightarrow> nat list) \<Rightarrow> 'a list \<Rightarrow> nat list" where
  "counted_bytes enc xs = to_le_bytes 8 (length xs) @ concat (map enc xs)"

definition opt_digest :: "nat list option \<Rightarrow> nat list" where
  "opt_digest d = (case d of Some b \<Rightarrow> [1] @ b | None \<Rightarrow> [0])"

definition request_stream :: "CacheNamespace \<Rightarrow> RequestFingerprintInput \<Rightarrow> nat list" where
  "request_stream ns i =
     DOMAIN_REQUEST @ namespace_bytes ns
     @ feed_length_prefixed (str_bytes (scalars (request_stage_as_str (ri_stage i))))
     @ feed_length_prefixed (ri_canonical_redacted_state i)
     @ counted_bytes candidate_bytes (ri_candidates i)
     @ ri_questions_digest i
     @ feed_length_prefixed (str_bytes (ri_endpoint_url i)) @ feed_length_prefixed (str_bytes (ri_model i))
     @ feed_length_prefixed (str_bytes (ri_prompt_version i)) @ feed_length_prefixed (str_bytes (ri_adapter_version i))
     @ feed_length_prefixed (str_bytes (ri_privacy_policy_version i)) @ feed_length_prefixed (str_bytes (ri_excerpt_strategy i))
     @ opt_digest (ri_paired_wide i)"

definition compute_request_fingerprint ::
  "('k \<Rightarrow> nat list \<Rightarrow> nat list) \<Rightarrow> 'k \<Rightarrow> CacheNamespace \<Rightarrow> RequestFingerprintInput \<Rightarrow> nat list" where
  "compute_request_fingerprint hash key ns i = hash key (request_stream ns i)"

section \<open>Decisions\<close>

record LoadedReferenceDigest =
  lf_skill_id :: SkillId
  lf_content_hash :: ContentHash

record SnoozeDigest =
  sg_skill_id :: SkillId
  sg_until_unix_ms :: u64

record RankingPolicySnapshot =
  rp_w_fit :: f64
  rp_w_prior :: f64
  rp_w_phase :: f64
  rp_gate_threshold :: f64
  rp_fit_threshold :: f64
  rp_top_k :: usize
  rp_max_shortlist_m :: usize

definition policy_validate :: "RankingPolicySnapshot \<Rightarrow> (unit, FingerprintError) result" where
  "policy_validate p =
     (if \<not> is_finite (rp_w_fit p) \<or> \<not> is_finite (rp_w_prior p) \<or> \<not> is_finite (rp_w_phase p)
         \<or> \<not> is_finite (rp_gate_threshold p) \<or> \<not> is_finite (rp_fit_threshold p)
      then Err NonFiniteWeight else Ok ())"

definition policy_bytes :: "RankingPolicySnapshot \<Rightarrow> nat list" where
  "policy_bytes p =
     to_le_bytes 8 (f64_to_bits (rp_w_fit p)) @ to_le_bytes 8 (f64_to_bits (rp_w_prior p)) @ to_le_bytes 8 (f64_to_bits (rp_w_phase p))
     @ to_le_bytes 8 (f64_to_bits (rp_gate_threshold p)) @ to_le_bytes 8 (f64_to_bits (rp_fit_threshold p))
     @ to_le_bytes 8 (rp_top_k p) @ to_le_bytes 8 (rp_max_shortlist_m p)"

record DecisionFingerprintInput =
  di_request_fingerprint :: "nat list"
  di_loaded_references :: "LoadedReferenceDigest list"
  di_explicit_exclusions :: "SkillId list"
  di_ranking_policy :: RankingPolicySnapshot
  di_prior_snapshot_id :: "ContentHash option"
  di_effective_snoozes :: "SnoozeDigest list"
  di_visibility_metadata :: str

definition reference_bytes :: "LoadedReferenceDigest \<Rightarrow> nat list" where
  "reference_bytes r = feed_length_prefixed (str_bytes (lf_skill_id r)) @ feed_length_prefixed (str_bytes (lf_content_hash r))"

definition snooze_bytes :: "SnoozeDigest \<Rightarrow> nat list" where
  "snooze_bytes s = feed_length_prefixed (str_bytes (sg_skill_id s)) @ to_le_bytes 8 (sg_until_unix_ms s)"

definition decision_stream :: "CacheNamespace \<Rightarrow> DecisionFingerprintInput \<Rightarrow> nat list" where
  "decision_stream ns i =
     DOMAIN_DECISION @ namespace_bytes ns @ di_request_fingerprint i
     @ counted_bytes reference_bytes (di_loaded_references i)
     @ counted_bytes (\<lambda>e. feed_length_prefixed (str_bytes e)) (di_explicit_exclusions i)
     @ policy_bytes (di_ranking_policy i)
     @ feed_opt_id (di_prior_snapshot_id i)
     @ counted_bytes snooze_bytes (di_effective_snoozes i)
     @ feed_length_prefixed (str_bytes (di_visibility_metadata i))"

definition compute_decision_fingerprint ::
  "('k \<Rightarrow> nat list \<Rightarrow> nat list) \<Rightarrow> 'k \<Rightarrow> CacheNamespace \<Rightarrow> DecisionFingerprintInput
     \<Rightarrow> (nat list, FingerprintError) result" where
  "compute_decision_fingerprint hash key ns i =
     and_then (policy_validate (di_ranking_policy i)) (\<lambda>_. Ok (hash key (decision_stream ns i)))"

section \<open>Deliveries\<close>

record EventDeliveryInput =
  dl_delivery_id :: "str option"
  dl_session_id :: str
  dl_branch_id :: "BranchId option"
  dl_event_type :: str
  dl_transcript_generation :: u64
  dl_cursor_offset :: u64
  dl_prompt_fingerprint :: ContentHash

record EventDeliveryKey =
  dk_digest :: "nat list"
  dk_is_ambiguous :: bool

definition delivery_stream :: "EventDeliveryInput \<Rightarrow> nat list" where
  "delivery_stream i =
     DOMAIN_DELIVERY @ feed_length_prefixed (str_bytes (dl_session_id i)) @ feed_opt_id (dl_branch_id i)
     @ feed_length_prefixed (str_bytes (dl_event_type i)) @ to_le_bytes 8 (dl_transcript_generation i)
     @ to_le_bytes 8 (dl_cursor_offset i) @ feed_length_prefixed (str_bytes (dl_prompt_fingerprint i))
     @ feed_opt_id (dl_delivery_id i)"

definition compute_delivery_key :: "('k \<Rightarrow> nat list \<Rightarrow> nat list) \<Rightarrow> 'k \<Rightarrow> EventDeliveryInput \<Rightarrow> EventDeliveryKey" where
  "compute_delivery_key hash key i =
     \<lparr>dk_digest = hash key (delivery_stream i),
      dk_is_ambiguous = (dl_delivery_id i = None \<and> dl_transcript_generation i = 0 \<and> dl_cursor_offset i = 0)\<rparr>"

section \<open>Prefix codes\<close>

locale prefix_code =
  fixes enc :: "'a \<Rightarrow> nat list" and valid :: "'a \<Rightarrow> bool"
  assumes cancel: "enc x @ r = enc y @ s \<Longrightarrow> valid x \<Longrightarrow> valid y \<Longrightarrow> x = y \<and> r = s"
begin

lemma cancel_iff: "valid x \<Longrightarrow> valid y \<Longrightarrow> enc x @ r = enc y @ s \<longleftrightarrow> x = y \<and> r = s"
  using cancel by blast

lemma cancel_list:
  "length xs = length ys \<Longrightarrow> \<forall>x \<in> set xs. valid x \<Longrightarrow> \<forall>y \<in> set ys. valid y \<Longrightarrow>
     concat (map enc xs) @ r = concat (map enc ys) @ s \<Longrightarrow> xs = ys \<and> r = s"
proof (induction xs ys rule: list_induct2)
  case (Cons x xs y ys)
  then have "enc x @ (concat (map enc xs) @ r) = enc y @ (concat (map enc ys) @ s)" by simp
  from cancel [OF this] Cons show ?case by simp
qed simp

end

text \<open>A code after a fixed number of bytes: the little-endian words, then everything built from them.\<close>

lemma to_le_bytes_length [simp]: "length (to_le_bytes k n) = k"
  by (induction k arbitrary: n) simp_all

lemma to_le_bytes_inj: "n < 256 ^ k \<Longrightarrow> m < 256 ^ k \<Longrightarrow> to_le_bytes k n = to_le_bytes k m \<Longrightarrow> n = m"
proof (induction k arbitrary: n m)
  case (Suc k)
  then have "n mod 256 = m mod 256" "n div 256 = m div 256"
    by (auto intro!: Suc.IH simp: less_mult_imp_div_less mult.commute)
  then show ?case by (metis div_mult_mod_eq)
qed simp

interpretation word: prefix_code "to_le_bytes 8" "\<lambda>n. n < 2 ^ 64"
proof
  fix x y :: nat and r s assume a: "to_le_bytes 8 x @ r = to_le_bytes 8 y @ s" "x < 2 ^ 64" "y < 2 ^ 64"
  then have "to_le_bytes 8 x = to_le_bytes 8 y" "r = s" by (simp_all add: append_eq_append_conv)
  moreover have "(2 :: nat) ^ 64 = 256 ^ 8" by simp
  ultimately show "x = y \<and> r = s" using a to_le_bytes_inj [of x 8 y] by simp
qed

interpretation framed_code: prefix_code feed_length_prefixed "\<lambda>b. length b < 2 ^ 64"
proof
  fix x y r s :: "nat list"
  assume a: "feed_length_prefixed x @ r = feed_length_prefixed y @ s" "length x < 2 ^ 64" "length y < 2 ^ 64"
  then have "to_le_bytes 8 (length x) @ (x @ r) = to_le_bytes 8 (length y) @ (y @ s)" by (simp add: feed_length_prefixed_def)
  from word.cancel [OF this a(2,3)] have "length x = length y" "x @ r = y @ s" by simp_all
  then show "x = y \<and> r = s" by simp
qed

text \<open>Strings of scalar values.\<close>

definition text_ok :: "str \<Rightarrow> bool" where
  "text_ok s \<longleftrightarrow> (\<forall>c \<in> set s. c < 55296 \<or> 57344 \<le> c \<and> c < 1114112) \<and> length (str_bytes s) < 2 ^ 64"

lemma str_bytes_inj: "text_ok s \<Longrightarrow> text_ok t \<Longrightarrow> str_bytes s = str_bytes t \<Longrightarrow> s = t"
  using utf8_round_trip unfolding text_ok_def by (metis option.inject)

interpretation text_code: prefix_code "\<lambda>s. feed_length_prefixed (str_bytes s)" text_ok
proof
  fix x y r s assume a: "feed_length_prefixed (str_bytes x) @ r = feed_length_prefixed (str_bytes y) @ s" "text_ok x" "text_ok y"
  from framed_code.cancel [OF a(1)] a(2,3) show "x = y \<and> r = s" using str_bytes_inj by (simp add: text_ok_def [of x] text_ok_def [of y])
qed

definition opt_ok :: "str option \<Rightarrow> bool" where
  "opt_ok v \<longleftrightarrow> (case v of Some s \<Rightarrow> text_ok s | None \<Rightarrow> True)"

interpretation opt_code: prefix_code feed_opt_id opt_ok
proof
  fix x y r s assume a: "feed_opt_id x @ r = feed_opt_id y @ s" "opt_ok x" "opt_ok y"
  then show "x = y \<and> r = s"
    using text_code.cancel [of "the x" r "the y" s] by (cases x; cases y) (auto simp: feed_opt_id_def opt_ok_def)
qed

lemma counted_code:
  assumes "prefix_code enc valid"
  shows "prefix_code (counted_bytes enc) (\<lambda>xs. length xs < 2 ^ 64 \<and> (\<forall>x \<in> set xs. valid x))"
proof
  fix x y r s assume a: "counted_bytes enc x @ r = counted_bytes enc y @ s"
    "length x < 2 ^ 64 \<and> (\<forall>x \<in> set x. valid x)" "length y < 2 ^ 64 \<and> (\<forall>x \<in> set y. valid x)"
  then have "to_le_bytes 8 (length x) @ (concat (map enc x) @ r) = to_le_bytes 8 (length y) @ (concat (map enc y) @ s)"
    by (simp add: counted_bytes_def)
  from word.cancel [OF this] a(2,3) have "length x = length y" "concat (map enc x) @ r = concat (map enc y) @ s" by simp_all
  then show "x = y \<and> r = s" using a prefix_code.cancel_list [OF assms] by blast
qed

definition digest_ok :: "nat list \<Rightarrow> bool" where
  "digest_ok d \<longleftrightarrow> length d = 32"

interpretation digest_code: prefix_code "\<lambda>d. d" digest_ok
  by standard (simp add: digest_ok_def append_eq_append_conv)

definition opt_digest_ok :: "nat list option \<Rightarrow> bool" where
  "opt_digest_ok d \<longleftrightarrow> (case d of Some b \<Rightarrow> digest_ok b | None \<Rightarrow> True)"

interpretation opt_digest_code: prefix_code opt_digest opt_digest_ok
proof
  fix x y r s assume "opt_digest x @ r = opt_digest y @ s" "opt_digest_ok x" "opt_digest_ok y"
  then show "x = y \<and> r = s"
    using digest_code.cancel [of "the x" r "the y" s] by (cases x; cases y) (auto simp: opt_digest_def opt_digest_ok_def)
qed

section \<open>The bits of a finite double determine it\<close>

definition double_ok :: "f64 \<Rightarrow> bool" where
  "double_ok a \<longleftrightarrow> is_finite a \<and> f64_wf a \<and> (f64_rat a = 0 \<or> ilog2 \<bar>f64_rat a\<bar> < 1024)"

text \<open>The significand of a nonzero value of the format: an integer, normal unless the exponent is the least.\<close>

lemma significand:
  assumes "rep q" "q \<noteq> 0"
  obtains m where "\<bar>q\<bar> = of_int m * 2 powi ulp_exp q" "m = \<lfloor>\<bar>q\<bar> / pow2 (ulp_exp q)\<rfloor>" "0 < m" "m < 2 ^ 53"
    "ulp_exp q = -1074 \<or> 2 ^ 52 \<le> m"
proof -
  let ?u = "ulp_exp q" and ?k = "ilog2 \<bar>q\<bar>"
  have "q = of_int (round_even (q / 2 powi ?u)) * 2 powi ?u"
    using round64_rep [OF assms(1)] assms(2) by (simp add: round64_powi Let_def)
  then have m: "\<bar>q\<bar> = of_int \<bar>round_even (q / 2 powi ?u)\<bar> * 2 powi ?u" (is "_ = of_int ?m * _")
    by (metis abs_mult abs_of_pos of_int_abs zero_less_numeral zero_less_power_int)
  have div: "\<bar>q\<bar> / pow2 ?u = of_int ?m" unfolding pow2_powi by (subst m) simp
  have k: "2 powi ?k \<le> \<bar>q\<bar>" "\<bar>q\<bar> < 2 powi (?k + 1)" using ilog2_bounds [of "\<bar>q\<bar>"] assms(2) by simp_all
  have "\<bar>q\<bar> < 2 powi (?u + 53)"
    using k(2) by (rule less_le_trans) (intro power_int_increasing, auto simp: ulp_exp_def)
  then have "of_int ?m < (2 :: rat) ^ 53" using powi_split [of ?u 53] by (subst (asm) m) simp
  then have upper: "?m < 2 ^ 53" by (metis of_int_less_iff of_int_numeral of_int_power)
  have lower: "2 ^ 52 \<le> ?m" if "?u \<noteq> -1074"
  proof -
    have "2 powi (?u + 52) \<le> \<bar>q\<bar>" using that k(1) by (simp add: ulp_exp_def max_def split: if_splits)
    then have "(2 :: rat) ^ 52 \<le> of_int ?m" using powi_split [of ?u 52] by (subst (asm) m) simp
    then show ?thesis by (metis of_int_le_iff of_int_numeral of_int_power)
  qed
  have "0 < ?m" using assms(2) m by (cases "?m = 0") auto
  moreover have "?m = \<lfloor>\<bar>q\<bar> / pow2 ?u\<rfloor>" unfolding div by (rule floor_of_int [symmetric])
  ultimately show ?thesis using that [OF m] upper lower by blast
qed

lemma ulp_exp_least: "-1074 \<le> ulp_exp q"
  by (simp add: ulp_exp_def)

lemma exponents_apart:
  fixes a b m n :: int
  assumes "a * 2 ^ 52 + m = b * 2 ^ 52 + n" "m < 2 ^ 53" "2 ^ 52 \<le> n"
  shows "b \<le> a"
proof (rule ccontr)
  assume "\<not> b \<le> a"
  then have "(a + 1) * 2 ^ 52 \<le> b * 2 ^ 52" by (intro mult_right_mono) auto
  then show False using assms by simp
qed

lemma magnitude_bits_inj:
  assumes "rep p" "rep q" "p \<noteq> 0" "q \<noteq> 0" "magnitude_bits p = magnitude_bits q"
  shows "\<bar>p\<bar> = \<bar>q\<bar>"
proof -
  obtain m where m: "\<bar>p\<bar> = of_int m * 2 powi ulp_exp p" "m = \<lfloor>\<bar>p\<bar> / pow2 (ulp_exp p)\<rfloor>" "0 < m" "m < 2 ^ 53"
    "ulp_exp p = -1074 \<or> 2 ^ 52 \<le> m" using significand [OF assms(1,3)] .
  obtain n where n: "\<bar>q\<bar> = of_int n * 2 powi ulp_exp q" "n = \<lfloor>\<bar>q\<bar> / pow2 (ulp_exp q)\<rfloor>" "0 < n" "n < 2 ^ 53"
    "ulp_exp q = -1074 \<or> 2 ^ 52 \<le> n" using significand [OF assms(2,4)] .
  have e: "(ulp_exp p + 1074) * 2 ^ 52 + m = (ulp_exp q + 1074) * 2 ^ 52 + n"
    using assms(3-5) ulp_exp_least [of p] ulp_exp_least [of q] m(3) n(3)
    by (simp add: magnitude_bits_def flip: m(2) n(2))
  have "ulp_exp p \<le> ulp_exp q"
    using exponents_apart [OF e [symmetric] n(4)] m(5) ulp_exp_least [of q] by (cases "ulp_exp p = -1074") auto
  moreover have "ulp_exp q \<le> ulp_exp p"
    using exponents_apart [OF e m(4)] n(5) ulp_exp_least [of p] by (cases "ulp_exp q = -1074") auto
  ultimately have "ulp_exp p = ulp_exp q" by simp
  then show ?thesis using e m(1) n(1) by simp
qed

lemma magnitude_bits_bound:
  assumes "rep q" "q = 0 \<or> ilog2 \<bar>q\<bar> < 1024"
  shows "magnitude_bits q < 2 ^ 63" "magnitude_bits q = 0 \<longleftrightarrow> q = 0"
proof -
  consider "q = 0" | "q \<noteq> 0" "ilog2 \<bar>q\<bar> < 1024" using assms(2) by blast
  then have "magnitude_bits q < 2 ^ 63 \<and> (magnitude_bits q = 0 \<longleftrightarrow> q = 0)"
  proof cases
    case 2
    obtain m where m: "m = \<lfloor>\<bar>q\<bar> / pow2 (ulp_exp q)\<rfloor>" "0 < m" "m < 2 ^ 53" using significand [OF assms(1) 2(1)] .
    have "ulp_exp q \<le> 971" using 2(2) by (simp add: ulp_exp_def)
    then have "0 < (ulp_exp q + 1074) * 2 ^ 52 + m" "(ulp_exp q + 1074) * 2 ^ 52 + m < 2 ^ 63"
      using ulp_exp_least [of q] m(2,3) by simp_all
    then show ?thesis using 2(1) by (simp add: magnitude_bits_def nat_less_iff flip: m(1))
  qed (simp add: magnitude_bits_def)
  then show "magnitude_bits q < 2 ^ 63" "magnitude_bits q = 0 \<longleftrightarrow> q = 0" by simp_all
qed

lemma double_ok_rat: "double_ok a \<Longrightarrow> rep (f64_rat a) \<and> (f64_rat a = 0 \<or> ilog2 \<bar>f64_rat a\<bar> < 1024)"
  by (cases a) (simp_all add: double_ok_def is_finite_def)

text \<open>A finite double is its sign and its magnitude.\<close>

lemma f64_to_bits_sign:
  "double_ok a \<Longrightarrow> f64_to_bits a = (if sign_neg a then 2 ^ 63 else 0) + magnitude_bits (f64_rat a)"
  by (cases a) (simp_all add: double_ok_def is_finite_def magnitude_bits_def [of 0])

lemma sign_magnitude:
  "double_ok a \<Longrightarrow> double_ok b \<Longrightarrow> sign_neg a = sign_neg b \<Longrightarrow> \<bar>f64_rat a\<bar> = \<bar>f64_rat b\<bar> \<Longrightarrow> a = b"
  by (cases a; cases b) (auto simp: double_ok_def is_finite_def abs_if split: if_splits)

lemma sign_bit_apart:
  "(if s then 2 ^ 63 else 0) + m = (if t then 2 ^ 63 else 0) + n \<Longrightarrow> m < 2 ^ 63 \<Longrightarrow> n < 2 ^ 63 \<Longrightarrow> s = t \<and> m = n"
  for m n :: nat
  by (cases s; cases t) simp_all

lemma f64_to_bits_inj:
  assumes "double_ok a" "double_ok b" "f64_to_bits a = f64_to_bits b"
  shows "a = b"
proof -
  note ra = double_ok_rat [OF assms(1)] and rb = double_ok_rat [OF assms(2)]
  have "(if sign_neg a then 2 ^ 63 else 0) + magnitude_bits (f64_rat a)
      = (if sign_neg b then 2 ^ 63 else 0) + magnitude_bits (f64_rat b)"
    using assms(3) unfolding f64_to_bits_sign [OF assms(1)] f64_to_bits_sign [OF assms(2)] .
  from sign_bit_apart [OF this] magnitude_bits_bound(1) ra rb
  have same: "sign_neg a = sign_neg b" "magnitude_bits (f64_rat a) = magnitude_bits (f64_rat b)" by blast+
  have "f64_rat a = 0 \<longleftrightarrow> f64_rat b = 0"
    using same(2) magnitude_bits_bound(2) [of "f64_rat a"] magnitude_bits_bound(2) [of "f64_rat b"] ra rb by simp
  then have "\<bar>f64_rat a\<bar> = \<bar>f64_rat b\<bar>"
    using magnitude_bits_inj [OF _ _ _ _ same(2)] ra rb by (cases "f64_rat a = 0") auto
  then show ?thesis using sign_magnitude assms(1,2) same(1) by blast
qed

lemma f64_to_bits_word:
  assumes "double_ok a"
  shows "f64_to_bits a < 2 ^ 64"
proof -
  have "magnitude_bits (f64_rat a) < 2 ^ 63" using double_ok_rat [OF assms] magnitude_bits_bound(1) by blast
  then show ?thesis by (simp add: f64_to_bits_sign [OF assms])
qed

interpretation double_code: prefix_code "\<lambda>a. to_le_bytes 8 (f64_to_bits a)" double_ok
proof
  fix x y r s assume a: "to_le_bytes 8 (f64_to_bits x) @ r = to_le_bytes 8 (f64_to_bits y) @ s" "double_ok x" "double_ok y"
  from word.cancel [OF a(1) f64_to_bits_word f64_to_bits_word] a(2,3) show "x = y \<and> r = s"
    using f64_to_bits_inj by blast
qed

lemmas code_cancels = word.cancel_iff framed_code.cancel_iff text_code.cancel_iff opt_code.cancel_iff digest_code.cancel_iff
  opt_digest_code.cancel_iff double_code.cancel_iff

section \<open>What each stream determines\<close>

definition namespace_ok :: "CacheNamespace \<Rightarrow> bool" where
  "namespace_ok ns \<longleftrightarrow> text_ok (cn_harness_id ns) \<and> cn_key_generation ns < 2 ^ 64
     \<and> opt_ok (cn_workspace_id ns) \<and> opt_ok (cn_session_id ns) \<and> opt_ok (cn_branch_id ns) \<and> opt_ok (cn_context_epoch ns)
     \<and> opt_ok (cn_adapter_id ns) \<and> opt_ok (cn_adapter_version ns) \<and> opt_ok (cn_producer_id ns)
     \<and> opt_ok (cn_agent_id ns) \<and> opt_ok (cn_leaf_event_id ns)"

lemma source_kind_text: "opt_ok (map_option (\<lambda>k. scalars (source_kind_as_str k)) k)"
proof (cases k)
  case (Some x)
  then show ?thesis
    by (cases x) (simp_all add: opt_ok_def text_ok_def scalars_def str_bytes_def utf8_encode_def)
qed (simp add: opt_ok_def)

lemma source_kind_inj:
  "map_option (\<lambda>k. scalars (source_kind_as_str k)) k = map_option (\<lambda>k. scalars (source_kind_as_str k)) k' \<longleftrightarrow> k = k'"
proof -
  have "scalars (source_kind_as_str x) = scalars (source_kind_as_str y) \<longleftrightarrow> x = y" for x y
    by (cases x; cases y) (simp_all add: scalars_def)
  then show ?thesis by (cases k; cases k') simp_all
qed

interpretation namespace_code: prefix_code namespace_bytes namespace_ok
proof
  fix x y r s assume a: "namespace_bytes x @ r = namespace_bytes y @ s" and ok: "namespace_ok x" "namespace_ok y"
  have "cn_harness_id x = cn_harness_id y \<and> cn_key_generation x = cn_key_generation y
      \<and> cn_workspace_id x = cn_workspace_id y \<and> cn_session_id x = cn_session_id y \<and> cn_branch_id x = cn_branch_id y
      \<and> cn_context_epoch x = cn_context_epoch y \<and> cn_adapter_id x = cn_adapter_id y
      \<and> cn_adapter_version x = cn_adapter_version y \<and> cn_source_kind x = cn_source_kind y
      \<and> cn_producer_id x = cn_producer_id y \<and> cn_agent_id x = cn_agent_id y
      \<and> cn_leaf_event_id x = cn_leaf_event_id y \<and> r = s"
    using a ok unfolding namespace_bytes_def namespace_ok_def
    by (simp only: append_assoc code_cancels source_kind_text source_kind_inj)
  then show "x = y \<and> r = s" by simp
qed

definition all_ok :: "('a \<Rightarrow> bool) \<Rightarrow> 'a list \<Rightarrow> bool" where
  "all_ok valid xs \<longleftrightarrow> length xs < 2 ^ 64 \<and> (\<forall>x \<in> set xs. valid x)"

lemmas counted_prefix_code = counted_code [folded all_ok_def]

definition candidate_ok :: "CandidateDigest \<Rightarrow> bool" where
  "candidate_ok c \<longleftrightarrow> text_ok (cd_skill_id c) \<and> text_ok (cd_content_hash c) \<and> opt_ok (cd_excerpt_hash c)"

interpretation candidate_code: prefix_code candidate_bytes candidate_ok
proof
  fix x y r s assume a: "candidate_bytes x @ r = candidate_bytes y @ s" and ok: "candidate_ok x" "candidate_ok y"
  have "cd_skill_id x = cd_skill_id y \<and> cd_content_hash x = cd_content_hash y \<and> cd_excerpt_hash x = cd_excerpt_hash y \<and> r = s"
    using a ok unfolding candidate_bytes_def candidate_ok_def by (simp only: append_assoc code_cancels)
  then show "x = y \<and> r = s" by simp
qed

interpretation candidates_code: prefix_code "counted_bytes candidate_bytes" "all_ok candidate_ok"
  by (rule counted_prefix_code) unfold_locales

definition reference_ok :: "LoadedReferenceDigest \<Rightarrow> bool" where
  "reference_ok x \<longleftrightarrow> text_ok (lf_skill_id x) \<and> text_ok (lf_content_hash x)"

interpretation reference_code: prefix_code reference_bytes reference_ok
proof
  fix x y r s assume a: "reference_bytes x @ r = reference_bytes y @ s" and ok: "reference_ok x" "reference_ok y"
  have "lf_skill_id x = lf_skill_id y \<and> lf_content_hash x = lf_content_hash y \<and> r = s"
    using a ok unfolding reference_bytes_def reference_ok_def by (simp only: append_assoc code_cancels)
  then show "x = y \<and> r = s" by simp
qed

interpretation references_code: prefix_code "counted_bytes reference_bytes" "all_ok reference_ok"
  by (rule counted_prefix_code) unfold_locales

interpretation exclusions_code: prefix_code "counted_bytes (\<lambda>e. feed_length_prefixed (str_bytes e))" "all_ok text_ok"
  by (rule counted_prefix_code) unfold_locales

definition snooze_ok :: "SnoozeDigest \<Rightarrow> bool" where
  "snooze_ok x \<longleftrightarrow> text_ok (sg_skill_id x) \<and> sg_until_unix_ms x < 2 ^ 64"

interpretation snooze_code: prefix_code snooze_bytes snooze_ok
proof
  fix x y r s assume a: "snooze_bytes x @ r = snooze_bytes y @ s" and ok: "snooze_ok x" "snooze_ok y"
  have "sg_skill_id x = sg_skill_id y \<and> sg_until_unix_ms x = sg_until_unix_ms y \<and> r = s"
    using a ok unfolding snooze_bytes_def snooze_ok_def by (simp only: append_assoc code_cancels)
  then show "x = y \<and> r = s" by simp
qed

interpretation snoozes_code: prefix_code "counted_bytes snooze_bytes" "all_ok snooze_ok"
  by (rule counted_prefix_code) unfold_locales

definition policy_ok :: "RankingPolicySnapshot \<Rightarrow> bool" where
  "policy_ok p \<longleftrightarrow> double_ok (rp_w_fit p) \<and> double_ok (rp_w_prior p) \<and> double_ok (rp_w_phase p)
     \<and> double_ok (rp_gate_threshold p) \<and> double_ok (rp_fit_threshold p) \<and> rp_top_k p < 2 ^ 64 \<and> rp_max_shortlist_m p < 2 ^ 64"

interpretation policy_code: prefix_code policy_bytes policy_ok
proof
  fix x y r s assume a: "policy_bytes x @ r = policy_bytes y @ s" and ok: "policy_ok x" "policy_ok y"
  have "rp_w_fit x = rp_w_fit y \<and> rp_w_prior x = rp_w_prior y \<and> rp_w_phase x = rp_w_phase y
      \<and> rp_gate_threshold x = rp_gate_threshold y \<and> rp_fit_threshold x = rp_fit_threshold y
      \<and> rp_top_k x = rp_top_k y \<and> rp_max_shortlist_m x = rp_max_shortlist_m y \<and> r = s"
    using a ok unfolding policy_bytes_def policy_ok_def by (simp only: append_assoc code_cancels)
  then show "x = y \<and> r = s" by simp
qed

lemmas stream_cancels = code_cancels namespace_code.cancel_iff candidates_code.cancel_iff references_code.cancel_iff
  exclusions_code.cancel_iff snoozes_code.cancel_iff policy_code.cancel_iff same_append_eq

definition request_ok :: "RequestFingerprintInput \<Rightarrow> bool" where
  "request_ok i \<longleftrightarrow> length (ri_canonical_redacted_state i) < 2 ^ 64 \<and> all_ok candidate_ok (ri_candidates i)
     \<and> digest_ok (ri_questions_digest i) \<and> text_ok (ri_endpoint_url i) \<and> text_ok (ri_model i)
     \<and> text_ok (ri_prompt_version i) \<and> text_ok (ri_adapter_version i) \<and> text_ok (ri_privacy_policy_version i)
     \<and> text_ok (ri_excerpt_strategy i) \<and> opt_digest_ok (ri_paired_wide i)"

lemma stage_text: "text_ok (scalars (request_stage_as_str x))"
  by (cases x) (simp_all add: text_ok_def scalars_def str_bytes_def utf8_encode_def)

lemma stage_inj: "scalars (request_stage_as_str x) = scalars (request_stage_as_str y) \<longleftrightarrow> x = y"
  by (cases x; cases y) (simp_all add: scalars_def)

lemma request_stream_cancel:
  assumes "request_stream ns x @ r = request_stream ns' y @ s" "namespace_ok ns" "namespace_ok ns'" "request_ok x" "request_ok y"
  shows "ns = ns' \<and> x = y \<and> r = s"
proof -
  have "ns = ns' \<and> ri_stage x = ri_stage y \<and> ri_canonical_redacted_state x = ri_canonical_redacted_state y
      \<and> ri_candidates x = ri_candidates y \<and> ri_questions_digest x = ri_questions_digest y
      \<and> ri_endpoint_url x = ri_endpoint_url y \<and> ri_model x = ri_model y \<and> ri_prompt_version x = ri_prompt_version y
      \<and> ri_adapter_version x = ri_adapter_version y \<and> ri_privacy_policy_version x = ri_privacy_policy_version y
      \<and> ri_excerpt_strategy x = ri_excerpt_strategy y \<and> ri_paired_wide x = ri_paired_wide y \<and> r = s"
    using assms unfolding request_stream_def request_ok_def
    by (simp only: append_assoc stream_cancels stage_text stage_inj)
  then show ?thesis by simp
qed

definition decision_ok :: "DecisionFingerprintInput \<Rightarrow> bool" where
  "decision_ok i \<longleftrightarrow> digest_ok (di_request_fingerprint i) \<and> all_ok reference_ok (di_loaded_references i)
     \<and> all_ok text_ok (di_explicit_exclusions i) \<and> policy_ok (di_ranking_policy i) \<and> opt_ok (di_prior_snapshot_id i)
     \<and> all_ok snooze_ok (di_effective_snoozes i) \<and> text_ok (di_visibility_metadata i)"

lemma decision_stream_cancel:
  assumes "decision_stream ns x @ r = decision_stream ns' y @ s" "namespace_ok ns" "namespace_ok ns'" "decision_ok x" "decision_ok y"
  shows "ns = ns' \<and> x = y \<and> r = s"
proof -
  have "ns = ns' \<and> di_request_fingerprint x = di_request_fingerprint y \<and> di_loaded_references x = di_loaded_references y
      \<and> di_explicit_exclusions x = di_explicit_exclusions y \<and> di_ranking_policy x = di_ranking_policy y
      \<and> di_prior_snapshot_id x = di_prior_snapshot_id y \<and> di_effective_snoozes x = di_effective_snoozes y
      \<and> di_visibility_metadata x = di_visibility_metadata y \<and> r = s"
    using assms unfolding decision_stream_def decision_ok_def by (simp only: append_assoc stream_cancels)
  then show ?thesis by simp
qed

definition delivery_ok :: "EventDeliveryInput \<Rightarrow> bool" where
  "delivery_ok i \<longleftrightarrow> opt_ok (dl_delivery_id i) \<and> text_ok (dl_session_id i) \<and> opt_ok (dl_branch_id i) \<and> text_ok (dl_event_type i)
     \<and> dl_transcript_generation i < 2 ^ 64 \<and> dl_cursor_offset i < 2 ^ 64 \<and> text_ok (dl_prompt_fingerprint i)"

lemma delivery_stream_cancel:
  assumes "delivery_stream x @ r = delivery_stream y @ s" "delivery_ok x" "delivery_ok y"
  shows "x = y \<and> r = s"
proof -
  have "dl_delivery_id x = dl_delivery_id y \<and> dl_session_id x = dl_session_id y \<and> dl_branch_id x = dl_branch_id y
      \<and> dl_event_type x = dl_event_type y \<and> dl_transcript_generation x = dl_transcript_generation y
      \<and> dl_cursor_offset x = dl_cursor_offset y \<and> dl_prompt_fingerprint x = dl_prompt_fingerprint y \<and> r = s"
    using assms unfolding delivery_stream_def delivery_ok_def by (simp only: append_assoc stream_cancels)
  then show ?thesis by simp
qed

section \<open>Fingerprints identify what they were computed from\<close>

datatype Fingerprinted =
    RequestOf CacheNamespace RequestFingerprintInput
  | DecisionOf CacheNamespace DecisionFingerprintInput
  | DeliveryOf EventDeliveryInput

fun fingerprinted_ok :: "Fingerprinted \<Rightarrow> bool" where
  "fingerprinted_ok (RequestOf ns i) = (namespace_ok ns \<and> request_ok i)"
| "fingerprinted_ok (DecisionOf ns i) = (namespace_ok ns \<and> decision_ok i)"
| "fingerprinted_ok (DeliveryOf i) = delivery_ok i"

fun hashed_stream :: "Fingerprinted \<Rightarrow> nat list" where
  "hashed_stream (RequestOf ns i) = request_stream ns i"
| "hashed_stream (DecisionOf ns i) = decision_stream ns i"
| "hashed_stream (DeliveryOf i) = delivery_stream i"

fun fingerprint_digest ::
  "('k \<Rightarrow> nat list \<Rightarrow> nat list) \<Rightarrow> 'k \<Rightarrow> Fingerprinted \<Rightarrow> (nat list, FingerprintError) result" where
  "fingerprint_digest hash key (RequestOf ns i) = Ok (compute_request_fingerprint hash key ns i)"
| "fingerprint_digest hash key (DecisionOf ns i) = compute_decision_fingerprint hash key ns i"
| "fingerprint_digest hash key (DeliveryOf i) = Ok (dk_digest (compute_delivery_key hash key i))"

lemma domains_apart [simp]:
  "DOMAIN_REQUEST @ a \<noteq> DOMAIN_DECISION @ b" "DOMAIN_DECISION @ a \<noteq> DOMAIN_REQUEST @ b"
  "DOMAIN_REQUEST @ a \<noteq> DOMAIN_DELIVERY @ b" "DOMAIN_DELIVERY @ a \<noteq> DOMAIN_REQUEST @ b"
  "DOMAIN_DECISION @ a \<noteq> DOMAIN_DELIVERY @ b" "DOMAIN_DELIVERY @ a \<noteq> DOMAIN_DECISION @ b"
  by (simp_all add: DOMAIN_REQUEST_def DOMAIN_DECISION_def DOMAIN_DELIVERY_def scalars_def)

lemma kinds_apart [simp]:
  "request_stream n i @ r \<noteq> decision_stream m j @ s" "decision_stream m j @ s \<noteq> request_stream n i @ r"
  "request_stream n i @ r \<noteq> delivery_stream k @ s" "delivery_stream k @ s \<noteq> request_stream n i @ r"
  "decision_stream m j @ r \<noteq> delivery_stream k @ s" "delivery_stream k @ s \<noteq> decision_stream m j @ r"
  by (simp_all only: request_stream_def decision_stream_def delivery_stream_def append_assoc domains_apart not_False_eq_True)

interpretation stream_code: prefix_code hashed_stream fingerprinted_ok
proof
  fix x y r s assume a: "hashed_stream x @ r = hashed_stream y @ s" "fingerprinted_ok x" "fingerprinted_ok y"
  then show "x = y \<and> r = s"
    by (cases x; cases y) (simp_all, (blast dest: request_stream_cancel decision_stream_cancel delivery_stream_cancel)+)
qed

lemma policy_ok_validates: "policy_ok p \<Longrightarrow> policy_validate p = Ok ()"
  by (simp add: policy_ok_def policy_validate_def double_ok_def)

lemma fingerprint_digest_stream:
  "fingerprinted_ok x \<Longrightarrow> fingerprint_digest hash key x = Ok (hash key (hashed_stream x))"
  by (cases x) (simp_all add: compute_request_fingerprint_def compute_decision_fingerprint_def compute_delivery_key_def
    decision_ok_def policy_ok_validates)

text \<open>
  C17. Fingerprints keep apart whatever the cache must keep apart. Each is computed, and as long as the keyed hash
  does not collide on the two byte streams, two fingerprints agree only when they are of the same kind, in the
  same namespace and of the same input in every field: no text can move its boundary into the next field, no
  list can pass elements to its neighbour, an absent value is not an empty one, the bits of a weight determine it.
\<close>

theorem fingerprints_identify:
  assumes "fingerprinted_ok x" "fingerprinted_ok y"
    and "hash key (hashed_stream x) = hash key (hashed_stream y) \<Longrightarrow> hashed_stream x = hashed_stream y"
  shows "(\<exists>digest. fingerprint_digest hash key x = Ok digest)
    \<and> (fingerprint_digest hash key x = fingerprint_digest hash key y \<longleftrightarrow> x = y)"
  using assms stream_code.cancel [of x "[]" y "[]"] by (auto simp: fingerprint_digest_stream)

definition demo_namespace :: CacheNamespace where
  "demo_namespace = (namespace_new (scalars ''claude'') 1)\<lparr>cn_session_id := Some (scalars ''s1''), cn_source_kind := Some NativeSource\<rparr>"

definition demo_digest_input :: "nat list option \<Rightarrow> RequestFingerprintInput" where
  "demo_digest_input paired =
     \<lparr>ri_stage = RerankStage, ri_canonical_redacted_state = [1, 2],
      ri_candidates = [\<lparr>cd_skill_id = scalars ''a'', cd_content_hash = scalars ''h'', cd_excerpt_hash = None\<rparr>],
      ri_questions_digest = replicate 32 7, ri_endpoint_url = scalars ''u'', ri_model = scalars ''m'',
      ri_prompt_version = scalars ''1'', ri_adapter_version = scalars ''1'', ri_privacy_policy_version = scalars ''1'',
      ri_excerpt_strategy = scalars ''x'', ri_paired_wide = paired\<rparr>"

text \<open>Two rerank requests that differ in the wide request they belong to.\<close>

theorem fingerprints_identify_witness:
  "(\<exists>digest. fingerprint_digest (@) [9] (RequestOf demo_namespace (demo_digest_input (Some (replicate 32 1)))) = Ok digest)
   \<and> fingerprint_digest (@) [9] (RequestOf demo_namespace (demo_digest_input (Some (replicate 32 1))))
     \<noteq> fingerprint_digest (@) [9] (RequestOf demo_namespace (demo_digest_input (Some (replicate 32 2))))"
proof -
  have "namespace_ok demo_namespace" "request_ok (demo_digest_input (Some (replicate 32 1)))"
    "request_ok (demo_digest_input (Some (replicate 32 2)))" by code_simp+
  then have ok: "fingerprinted_ok (RequestOf demo_namespace (demo_digest_input (Some (replicate 32 1))))"
    "fingerprinted_ok (RequestOf demo_namespace (demo_digest_input (Some (replicate 32 2))))" by simp_all
  have apart: "RequestOf demo_namespace (demo_digest_input (Some (replicate 32 1)))
      \<noteq> RequestOf demo_namespace (demo_digest_input (Some (replicate 32 2)))"
    by (simp add: demo_digest_input_def)
  show ?thesis
    using fingerprints_identify [OF ok, of "(@)" "[9]"] apart by blast
qed

end
