(* ===== verification/Response_Cache.thy ===== *)
theory Response_Cache
  imports Fingerprint Ordered_Map
begin

text \<open>
  Model of \<open>src/src/cache/response.rs\<close>: the freshness of a stored provider response, the in-memory response
  cache with its lookups, insertions and evictions, the coherence of the two stages and the accounting
  of what a run newly cost. The keyed hash is an argument. Whether the lock is poisoned is what the operating
  environment answers to each operation.
\<close>

definition sat_mul64 :: "u64 \<Rightarrow> u64 \<Rightarrow> u64" where
  "sat_mul64 a b = min (a * b) U64_MAX"

section \<open>Errors, provenance and freshness\<close>

definition DEFAULT_CACHE_TTL_SECS :: u32 where "DEFAULT_CACHE_TTL_SECS = 600"

datatype CacheError = CorruptEntry | OfflineCacheMiss | UnversionedPairMismatch | LockPoisoned | CacheStorageError str

datatype StageProvenance = StageFresh | StageCached

datatype PipelineCacheProvenance = WhollyFresh | PartiallyCached StageProvenance StageProvenance | WhollyCached

datatype FreshnessStatus =
    FreshFor u64 u64 | Expired u64 | ClockRollback u64 u64 | RevisionMismatch

fun status_is_fresh :: "FreshnessStatus \<Rightarrow> bool" where
  "status_is_fresh (FreshFor _ _) = True"
| "status_is_fresh _ = False"

definition status_is_stale :: "FreshnessStatus \<Rightarrow> bool" where
  "status_is_stale s \<longleftrightarrow> \<not> status_is_fresh s"

record CachedResponseEntry =
  ce_stage :: RequestStage
  ce_request_fingerprint :: "nat list"
  ce_response_bytes :: "nat list"
  ce_received_at_unix_ms :: u64
  ce_ttl_seconds :: u32
  ce_model :: str
  ce_model_revision :: "str option"
  ce_original_usage :: Usage
  ce_attempt_id :: "str option"

definition evaluate_freshness ::
  "CachedResponseEntry \<Rightarrow> u64 \<Rightarrow> str \<Rightarrow> str option \<Rightarrow> FreshnessStatus" where
  "evaluate_freshness e now active_model active_revision =
     (if now < ce_received_at_unix_ms e then ClockRollback (ce_received_at_unix_ms e) now
      else if ce_model e \<noteq> active_model then RevisionMismatch
      else if ce_model_revision e \<noteq> active_revision then RevisionMismatch
      else
        (let age_ms = sat_sub now (ce_received_at_unix_ms e);
             ttl_ms = sat_mul64 (min (ce_ttl_seconds e) DEFAULT_CACHE_TTL_SECS) 1000
         in if ttl_ms \<le> age_ms then Expired age_ms else FreshFor age_ms (sat_sub ttl_ms age_ms)))"

section \<open>Lookup results\<close>

datatype CacheLookupResult = Hit CachedResponseEntry u64 u64 | Stale CachedResponseEntry FreshnessStatus | Miss

fun fresh_entry :: "CacheLookupResult \<Rightarrow> CachedResponseEntry option" where
  "fresh_entry (Hit e _ _) = Some e"
| "fresh_entry _ = None"

record InspectionView =
  iv_is_stale :: bool
  iv_is_actionable :: bool
  iv_age_ms :: "u64 option"
  iv_entry :: "CachedResponseEntry option"

fun to_inspection_view :: "CacheLookupResult \<Rightarrow> InspectionView" where
  "to_inspection_view (Hit e age _) =
     \<lparr>iv_is_stale = False, iv_is_actionable = True, iv_age_ms = Some age, iv_entry = Some e\<rparr>"
| "to_inspection_view (Stale e status) =
     \<lparr>iv_is_stale = True, iv_is_actionable = False,
      iv_age_ms = (case status of Expired age \<Rightarrow> Some age | _ \<Rightarrow> None), iv_entry = Some e\<rparr>"
| "to_inspection_view Miss =
     \<lparr>iv_is_stale = False, iv_is_actionable = False, iv_age_ms = None, iv_entry = None\<rparr>"

section \<open>The in-memory cache\<close>

type_synonym CacheStorageKey = "nat list \<times> str \<times> nat list"
type_synonym CacheStorageMap = "(CacheStorageKey, CachedResponseEntry) btree"

record 'k CacheLookupQuery =
  lq_key :: 'k
  lq_namespace :: CacheNamespace
  lq_stage :: RequestStage
  lq_fingerprint :: "nat list"
  lq_now_unix_ms :: u64
  lq_active_model :: str
  lq_active_revision :: "str option"

definition DOMAIN_NAMESPACE :: "nat list" where "DOMAIN_NAMESPACE = scalars ''SR_CACHE_NS_HASH_V2'' @ [0]"

definition namespace_hash :: "('k \<Rightarrow> nat list \<Rightarrow> nat list) \<Rightarrow> 'k \<Rightarrow> CacheNamespace \<Rightarrow> nat list" where
  "namespace_hash hash key ns = hash key (DOMAIN_NAMESPACE @ namespace_bytes ns)"

definition cache_get ::
  "('k \<Rightarrow> nat list \<Rightarrow> nat list) \<Rightarrow> bool \<Rightarrow> 'k CacheLookupQuery \<Rightarrow> CacheStorageMap \<Rightarrow> (CacheLookupResult, CacheError) result" where
  "cache_get hash poisoned q m =
     (let ns_hash = namespace_hash hash (lq_key q) (lq_namespace q);
          stage_str = scalars (request_stage_as_str (lq_stage q))
      in if poisoned then Err LockPoisoned
         else case bt_get m (ns_hash, stage_str, lq_fingerprint q) of
             None \<Rightarrow> Ok Miss
           | Some e \<Rightarrow>
               (case evaluate_freshness e (lq_now_unix_ms q) (lq_active_model q) (lq_active_revision q) of
                  FreshFor age_ms remaining_ttl_ms \<Rightarrow> Ok (Hit e age_ms remaining_ttl_ms)
                | other \<Rightarrow> Ok (Stale e other)))"

definition cache_put ::
  "('k \<Rightarrow> nat list \<Rightarrow> nat list) \<Rightarrow> bool \<Rightarrow> 'k \<Rightarrow> CacheNamespace \<Rightarrow> CachedResponseEntry \<Rightarrow> CacheStorageMap
     \<Rightarrow> (unit, CacheError) result \<times> CacheStorageMap" where
  "cache_put hash poisoned key ns e m =
     (let ns_hash = namespace_hash hash key ns;
          stage_str = scalars (request_stage_as_str (ce_stage e));
          fp_bytes = ce_request_fingerprint e
      in if poisoned then (Err LockPoisoned, m) else (Ok (), bt_insert (ns_hash, stage_str, fp_bytes) e m))"

definition cache_evict_namespace ::
  "('k \<Rightarrow> nat list \<Rightarrow> nat list) \<Rightarrow> bool \<Rightarrow> 'k \<Rightarrow> CacheNamespace \<Rightarrow> CacheStorageMap
     \<Rightarrow> (usize, CacheError) result \<times> CacheStorageMap" where
  "cache_evict_namespace hash poisoned key ns m =
     (let ns_hash = namespace_hash hash key ns
      in if poisoned then (Err LockPoisoned, m)
         else (let m' = filter (\<lambda>((h, _, _), _). h \<noteq> ns_hash) m in (Ok (sat_sub (length m) (length m')), m')))"

section \<open>Coherence of the stages and accounting\<close>

fun validate_stage_pair_coherence ::
  "StageProvenance \<Rightarrow> StageProvenance \<Rightarrow> bool \<Rightarrow> (PipelineCacheProvenance, CacheError) result" where
  "validate_stage_pair_coherence StageCached StageCached unpinned = Ok WhollyCached"
| "validate_stage_pair_coherence StageFresh StageFresh unpinned = Ok WhollyFresh"
| "validate_stage_pair_coherence wide rerank unpinned =
     (if unpinned then Err UnversionedPairMismatch else Ok (PartiallyCached wide rerank))"

record ExecutionAccounting =
  xa_new_requests :: usize
  xa_new_tokens :: u64
  xa_original_usage :: Usage
  xa_served_from_cache :: bool

definition usage_or_zero :: "(Usage \<Rightarrow> u64) \<Rightarrow> Usage option \<Rightarrow> u64" where
  "usage_or_zero f u = (case u of None \<Rightarrow> 0 | Some x \<Rightarrow> f x)"

definition accounting_compute ::
  "PipelineCacheProvenance \<Rightarrow> Usage \<Rightarrow> Usage option \<Rightarrow> ExecutionAccounting" where
  "accounting_compute provenance wide_usage rerank_usage =
     (let total_orig_tokens = sat_add64 (usage_total_tokens wide_usage) (usage_or_zero usage_total_tokens rerank_usage);
          orig_usage = \<lparr>us_input_tokens = sat_add64 (us_input_tokens wide_usage) (usage_or_zero us_input_tokens rerank_usage),
            us_output_tokens = sat_add64 (us_output_tokens wide_usage) (usage_or_zero us_output_tokens rerank_usage)\<rparr>
      in case provenance of
           WhollyCached \<Rightarrow>
             \<lparr>xa_new_requests = 0, xa_new_tokens = 0, xa_original_usage = orig_usage, xa_served_from_cache = True\<rparr>
         | WhollyFresh \<Rightarrow>
             \<lparr>xa_new_requests = (if rerank_usage \<noteq> None then 2 else 1), xa_new_tokens = total_orig_tokens,
              xa_original_usage = orig_usage, xa_served_from_cache = False\<rparr>
         | PartiallyCached wide rerank \<Rightarrow>
             (let (r1, t1) = (if wide = StageFresh then (1, sat_add64 0 (usage_total_tokens wide_usage)) else (0, 0));
                  (r2, t2) = (if rerank = StageFresh
                    then (r1 + 1, case rerank_usage of Some u \<Rightarrow> sat_add64 t1 (usage_total_tokens u) | None \<Rightarrow> t1)
                    else (r1, t1))
              in \<lparr>xa_new_requests = r2, xa_new_tokens = t2, xa_original_usage = orig_usage, xa_served_from_cache = False\<rparr>))"

section \<open>Histories of operations\<close>

text \<open>What the threads of one process do with the cache and its key, in the order of the lock. A lookup takes
  the read lock only and leaves the map as it is.\<close>

datatype 'k cache_op =
    PutOp bool CacheNamespace CachedResponseEntry
  | EvictOp bool CacheNamespace
  | GetOp bool "'k CacheLookupQuery"

fun cache_step :: "('k \<Rightarrow> nat list \<Rightarrow> nat list) \<Rightarrow> 'k \<Rightarrow> 'k cache_op \<Rightarrow> CacheStorageMap \<Rightarrow> CacheStorageMap" where
  "cache_step hash key (PutOp poisoned ns e) m = snd (cache_put hash poisoned key ns e m)"
| "cache_step hash key (EvictOp poisoned ns) m = snd (cache_evict_namespace hash poisoned key ns m)"
| "cache_step hash key (GetOp poisoned q) m = m"

definition cache_run :: "('k \<Rightarrow> nat list \<Rightarrow> nat list) \<Rightarrow> 'k \<Rightarrow> 'k cache_op list \<Rightarrow> CacheStorageMap" where
  "cache_run hash key ops = fold (cache_step hash key) ops []"

fun op_namespace :: "'k cache_op \<Rightarrow> CacheNamespace list" where
  "op_namespace (PutOp _ ns _) = [ns]"
| "op_namespace (EvictOp _ ns) = [ns]"
| "op_namespace (GetOp _ _) = []"

text \<open>The contract: the last response stored under a namespace, a stage and a fingerprint that no eviction of the
  namespace followed. Operations that found the lock poisoned did nothing.\<close>

fun latest_first :: "'k cache_op list \<Rightarrow> CacheNamespace \<Rightarrow> RequestStage \<Rightarrow> nat list \<Rightarrow> CachedResponseEntry option" where
  "latest_first [] ns st fp = None"
| "latest_first (PutOp poisoned n e # older) ns st fp =
     (if \<not> poisoned \<and> n = ns \<and> ce_stage e = st \<and> ce_request_fingerprint e = fp then Some e
      else latest_first older ns st fp)"
| "latest_first (EvictOp poisoned n # older) ns st fp =
     (if \<not> poisoned \<and> n = ns then None else latest_first older ns st fp)"
| "latest_first (GetOp poisoned q # older) ns st fp = latest_first older ns st fp"

definition latest_put :: "'k cache_op list \<Rightarrow> CacheNamespace \<Rightarrow> RequestStage \<Rightarrow> nat list \<Rightarrow> CachedResponseEntry option" where
  "latest_put ops = latest_first (rev ops)"

definition namespaces_apart :: "('k \<Rightarrow> nat list \<Rightarrow> nat list) \<Rightarrow> 'k \<Rightarrow> CacheNamespace list \<Rightarrow> bool" where
  "namespaces_apart hash key nss \<longleftrightarrow>
     (\<forall>a \<in> set nss. \<forall>b \<in> set nss. namespace_hash hash key a = namespace_hash hash key b
        \<longrightarrow> namespace_bytes a = namespace_bytes b)"

lemma namespaces_apartD:
  "namespaces_apart hash key nss \<Longrightarrow> \<forall>n \<in> set nss. namespace_ok n \<Longrightarrow> a \<in> set nss \<Longrightarrow> b \<in> set nss \<Longrightarrow>
     namespace_hash hash key a = namespace_hash hash key b \<longleftrightarrow> a = b"
  using namespace_code.cancel [of a "[]" b "[]"] unfolding namespaces_apart_def append_Nil2 by blast

lemma map_of_kept_keys: "map_of (filter (\<lambda>kv. P (fst kv)) m) k = (if P k then map_of m k else None)"
proof (induction m)
  case (Cons kv m)
  then show ?case by (cases "fst kv = k"; cases "P (fst kv)") simp_all
qed simp

lemma bt_get_evicted:
  "bt_get (filter (\<lambda>((h, _, _), _). h \<noteq> n) m) (h, st, fp) = (if h = n then None else bt_get m (h, st, fp))"
  using map_of_kept_keys [of "\<lambda>k. fst k \<noteq> n" m "(h, st, fp)"] by (simp add: bt_get_def case_prod_unfold)

lemma stage_str_inj [simp]: "request_stage_as_str x = request_stage_as_str y \<longleftrightarrow> x = y"
  by (cases x; cases y) simp_all

lemma cache_step_get:
  assumes "\<forall>n \<in> set (op_namespace op). namespace_hash hash key n = namespace_hash hash key ns \<longleftrightarrow> n = ns"
    and "bt_get m (namespace_hash hash key ns, scalars (request_stage_as_str st), fp) = latest_first older ns st fp"
  shows "bt_get (cache_step hash key op m) (namespace_hash hash key ns, scalars (request_stage_as_str st), fp)
    = latest_first (op # older) ns st fp"
proof (cases op)
  case (PutOp poisoned n e)
  then show ?thesis
    using assms by (auto simp add: cache_put_def Let_def bt_get_insert stage_inj)
next
  case (EvictOp poisoned n)
  then show ?thesis
    using assms by (auto simp: cache_evict_namespace_def Let_def bt_get_evicted)
qed (use assms(2) in simp)

lemma cache_run_get:
  assumes "\<forall>n \<in> set (concat (map op_namespace ops)). namespace_hash hash key n = namespace_hash hash key ns \<longleftrightarrow> n = ns"
  shows "bt_get (cache_run hash key ops) (namespace_hash hash key ns, scalars (request_stage_as_str st), fp) = latest_put ops ns st fp"
  using assms
proof (induction ops rule: rev_induct)
  case (snoc op ops)
  then have "bt_get (cache_run hash key ops) (namespace_hash hash key ns, scalars (request_stage_as_str st), fp)
      = latest_first (rev ops) ns st fp" by (simp add: latest_put_def)
  from cache_step_get [OF _ this, of op] snoc.prems show ?case by (simp add: cache_run_def latest_put_def)
qed (simp add: cache_run_def latest_put_def)

definition ttl_ms :: "CachedResponseEntry \<Rightarrow> nat" where
  "ttl_ms e = 1000 * min (ce_ttl_seconds e) 600"

lemma ttl_ms_exact: "sat_mul64 (min (ce_ttl_seconds e) DEFAULT_CACHE_TTL_SECS) 1000 = ttl_ms e"
  by (simp add: sat_mul64_def U64_MAX_def DEFAULT_CACHE_TTL_SECS_def ttl_ms_def)

text \<open>
  C16. The cache answers with the truth. As long as the keyed hash does not collide on the namespaces in use, and whatever
  was stored, evicted and read before, in whatever order, a lookup finds the response stored last under the same
  namespace, stage and fingerprint unless the namespace was evicted since. It is served for the same model and
  revision, not before it was received and less than its lifetime after that, which is ten minutes at most
  and not renewed by lookups; before its receipt, for another model or revision, and beyond its lifetime
  it is reported as stale with that reason, and is not actionable. The instant at which the lifetime is exactly
  over is left open here: \<open>expires_at_its_ttl\<close> shows what the code does at it.
\<close>

theorem cache_serves_latest_put:
  fixes ops :: "'k cache_op list"
  assumes "\<forall>n \<in> set nss. namespace_ok n" "namespaces_apart hash key nss"
    and "set (lq_namespace q # concat (map op_namespace ops)) \<subseteq> set nss" "lq_key q = key"
  shows "\<exists>answer. cache_get hash False q (cache_run hash key ops) = Ok answer
    \<and> (case latest_put ops (lq_namespace q) (lq_stage q) (lq_fingerprint q) of
         None \<Rightarrow> answer = Miss
       | Some e \<Rightarrow>
           (let received = ce_received_at_unix_ms e; now = lq_now_unix_ms q; expiry = received + ttl_ms e
            in if now < received then answer = Stale e (ClockRollback received now)
               else if ce_model e \<noteq> lq_active_model q \<or> ce_model_revision e \<noteq> lq_active_revision q
               then answer = Stale e RevisionMismatch
               else if now < expiry then answer = Hit e (now - received) (expiry - now)
               else (expiry < now \<longrightarrow> answer = Stale e (Expired (now - received)))))
    \<and> (iv_is_actionable (to_inspection_view answer) \<longleftrightarrow> fresh_entry answer \<noteq> None)"
proof -
  have "\<forall>n \<in> set (concat (map op_namespace ops)).
      namespace_hash hash key n = namespace_hash hash key (lq_namespace q) \<longleftrightarrow> n = lq_namespace q"
    using namespaces_apartD [OF assms(2,1)] assms(3) by auto
  from cache_run_get [OF this] have stored: "bt_get (cache_run hash key ops)
      (namespace_hash hash key (lq_namespace q), scalars (request_stage_as_str (lq_stage q)), lq_fingerprint q)
    = latest_put ops (lq_namespace q) (lq_stage q) (lq_fingerprint q)" .
  show ?thesis
    unfolding cache_get_def assms(4) Let_def stored evaluate_freshness_def ttl_ms_exact
    by (cases "latest_put ops (lq_namespace q) (lq_stage q) (lq_fingerprint q)") (auto simp: sat_sub_eq)
qed

text \<open>At the instant at which the lifetime is exactly over, the code already reports an entry as expired, while the
  comment of \<open>Expired\<close> says that the age strictly exceeds the lifetime.\<close>

theorem expires_at_its_ttl:
  "evaluate_freshness e (ce_received_at_unix_ms e + ttl_ms e) (ce_model e) (ce_model_revision e) = Expired (ttl_ms e)"
  by (simp add: evaluate_freshness_def ttl_ms_exact Let_def)

definition demo_cached :: CachedResponseEntry where
  "demo_cached = \<lparr>ce_stage = WideStage, ce_request_fingerprint = [7], ce_response_bytes = [123, 125],
     ce_received_at_unix_ms = 1000, ce_ttl_seconds = 900, ce_model = scalars ''m'', ce_model_revision = None,
     ce_original_usage = \<lparr>us_input_tokens = 5, us_output_tokens = 2\<rparr>, ce_attempt_id = None\<rparr>"

definition demo_lookup :: "nat list CacheLookupQuery" where
  "demo_lookup = \<lparr>lq_key = [9], lq_namespace = demo_namespace, lq_stage = WideStage, lq_fingerprint = [7],
     lq_now_unix_ms = 600999, lq_active_model = scalars ''m'', lq_active_revision = None\<rparr>"

definition demo_cache_ops :: "nat list cache_op list" where
  "demo_cache_ops = [PutOp False demo_namespace demo_cached, GetOp False demo_lookup,
     EvictOp False (namespace_new (scalars ''claude'') 2), EvictOp True demo_namespace]"

text \<open>A response stored with a lifetime of fifteen minutes, read once before, one millisecond before ten minutes have
  passed: it is still served, for that millisecond. Another namespace was evicted meanwhile.\<close>

theorem cache_serves_latest_put_witness:
  "cache_get (@) False demo_lookup (cache_run (@) [9] demo_cache_ops) = Ok (Hit demo_cached 599999 1)"
proof -
  let ?nss = "[demo_namespace, namespace_new (scalars ''claude'') 2]"
  have ok: "\<forall>n \<in> set ?nss. namespace_ok n" by code_simp
  have apart: "namespaces_apart (@) [9] ?nss" by (simp add: namespaces_apart_def namespace_hash_def)
  have used: "set (lq_namespace demo_lookup # concat (map op_namespace demo_cache_ops)) \<subseteq> set ?nss"
    by (simp add: demo_lookup_def demo_cache_ops_def)
  have key: "lq_key demo_lookup = [9]" by (simp add: demo_lookup_def)
  have other: "namespace_new (scalars ''claude'') 2 \<noteq> demo_namespace"
    by (simp add: demo_namespace_def namespace_new_def)
  have found: "latest_put demo_cache_ops (lq_namespace demo_lookup) (lq_stage demo_lookup) (lq_fingerprint demo_lookup)
      = Some demo_cached"
    using other by (simp add: latest_put_def demo_cache_ops_def demo_lookup_def demo_cached_def)
  have ttl: "ttl_ms demo_cached = 600000" by (simp add: demo_cached_def ttl_ms_def)
  have fields: "ce_received_at_unix_ms demo_cached = 1000" "lq_now_unix_ms demo_lookup = 600999"
    "ce_model demo_cached = lq_active_model demo_lookup" "ce_model_revision demo_cached = lq_active_revision demo_lookup"
    by (simp_all add: demo_cached_def demo_lookup_def)
  show ?thesis
    using cache_serves_latest_put [OF ok apart used key] unfolding found Let_def option.case ttl fields by auto
qed

section \<open>Pairs of stages\<close>

text \<open>Two stages of different provenance are refused under an alias that may move; otherwise a run is charged
  for the stages it newly asked for, and is served from the cache when there is none.\<close>

theorem coherent_pairs_are_accounted:
  "(validate_stage_pair_coherence wide rerank unpinned =
      (if unpinned \<and> wide \<noteq> rerank then Err UnversionedPairMismatch
       else Ok (if wide \<noteq> rerank then PartiallyCached wide rerank
                else if wide = StageCached then WhollyCached else WhollyFresh)))
   \<and> (\<forall>p. validate_stage_pair_coherence wide rerank unpinned = Ok p \<longrightarrow>
        (let a = accounting_compute p wu (Some ru)
         in xa_new_requests a = (if wide = StageFresh then 1 else 0) + (if rerank = StageFresh then 1 else 0)
          \<and> xa_new_tokens a = sat_add64 (if wide = StageFresh then usage_total_tokens wu else 0)
              (if rerank = StageFresh then usage_total_tokens ru else 0)
          \<and> (xa_served_from_cache a \<longleftrightarrow> wide = StageCached \<and> rerank = StageCached)))"
  by (cases wide; cases rerank; cases unpinned)
    (simp_all add: accounting_compute_def usage_or_zero_def sat_add64_def usage_total_tokens_def)

end
