(* ===== verification/Snooze.thy ===== *)
theory Snooze
  imports Task_Anchor
begin

text \<open>
  Model of \<open>src/src/snooze.rs\<close>: the scope of a snooze, the file of snoozes with its strict decoding and its
  canonical text, the controls in effect for a scope at a time, the planning of a change, and the application
  of a change to the file. The TOML parser is an argument; what the file system and the lock answer are
  arguments too.
\<close>

section \<open>Limits and errors\<close>

definition MAX_SNOOZES :: usize where "MAX_SNOOZES = 128"

definition MIN_SNOOZE_MS :: u64 where "MIN_SNOOZE_MS = 60000"

definition MAX_SNOOZE_MS :: u64 where "MAX_SNOOZE_MS = 24 * 60 * 60000"

definition SNOOZE_SCHEMA_VERSION :: u32 where "SNOOZE_SCHEMA_VERSION = 1"

definition MAX_FIELD_BYTES :: usize where "MAX_FIELD_BYTES = 4096"

definition CONFIG_FILE_BYTES :: ResourceLimit where
  "CONFIG_FILE_BYTES = new_const ''config_file'' Bytes (256 * KIB)"

datatype SnoozeError =
    SnoozeMalformed str | Unattributed | InvalidDuration str | TooMany | SnoozeLockBusy | ExternalModification | SnoozeIo str

section \<open>Scopes and entries\<close>

record SnoozeScope =
  sn_workspace_root :: str
  sn_session_id :: str
  sn_agent_branch :: str

definition scope_from_event :: "str \<Rightarrow> str \<Rightarrow> str \<Rightarrow> str \<Rightarrow> (SnoozeScope, SnoozeError) result" where
  "scope_from_event event_id workspace_root session_id agent_branch =
     (if starts_with event_id (scalars ''pre-context-'') \<or> session_id = scalars ''session-0''
         \<or> agent_branch = scalars ''unresolved''
         \<or> (\<exists>field \<in> set [workspace_root, session_id, agent_branch]. field = [] \<or> MAX_FIELD_BYTES < str_len field)
      then Err Unattributed
      else Ok \<lparr>sn_workspace_root = workspace_root, sn_session_id = session_id, sn_agent_branch = agent_branch\<rparr>)"

record SnoozeEntry =
  sy_event_id :: str
  sy_workspace_root :: str
  sy_session_id :: str
  sy_agent_branch :: str
  sy_skill_id :: "str option"
  sy_created_at_unix_ms :: u64
  sy_expires_at_unix_ms :: u64

definition entry_in_scope :: "SnoozeEntry \<Rightarrow> SnoozeScope \<Rightarrow> bool" where
  "entry_in_scope e scope \<longleftrightarrow> sy_workspace_root e = sn_workspace_root scope \<and> sy_session_id e = sn_session_id scope
     \<and> sy_agent_branch e = sn_agent_branch scope"

datatype EntryStatus = EntryActive | UncertainExpiry | EntryExpired

definition entry_status :: "SnoozeEntry \<Rightarrow> u64 option \<Rightarrow> EntryStatus" where
  "entry_status e clock =
     (case clock of
        None \<Rightarrow> UncertainExpiry
      | Some now \<Rightarrow>
          if now < sy_created_at_unix_ms e then UncertainExpiry
          else if now < sy_expires_at_unix_ms e then EntryActive
          else EntryExpired)"

fun entry_status_as_str :: "EntryStatus \<Rightarrow> string" where
  "entry_status_as_str EntryActive = ''active''"
| "entry_status_as_str UncertainExpiry = ''uncertain-expiry''"
| "entry_status_as_str EntryExpired = ''expired''"

definition status_mutes :: "EntryStatus \<Rightarrow> bool" where
  "status_mutes s \<longleftrightarrow> s \<noteq> EntryExpired"

record SnoozeFile =
  sf_schema_version :: u32
  sf_snooze :: "SnoozeEntry list"

record SnoozeSet =
  sz_entries :: "SnoozeEntry list"

definition snooze_set_default :: SnoozeSet where
  "snooze_set_default = \<lparr>sz_entries = []\<rparr>"

record ScopeControls =
  so_all :: bool
  so_skills :: "str set"
  so_uncertain_expiry :: usize

definition controls_default :: ScopeControls where
  "controls_default = \<lparr>so_all = False, so_skills = {}, so_uncertain_expiry = 0\<rparr>"

definition controls_is_empty :: "ScopeControls \<Rightarrow> bool" where
  "controls_is_empty c \<longleftrightarrow> \<not> so_all c \<and> so_skills c = {}"

definition controls_mutes :: "ScopeControls \<Rightarrow> str \<Rightarrow> bool" where
  "controls_mutes c skill \<longleftrightarrow> so_all c \<or> skill \<in> so_skills c"

definition controls_step :: "u64 option \<Rightarrow> ScopeControls \<Rightarrow> SnoozeEntry \<Rightarrow> ScopeControls" where
  "controls_step clock c e =
     (let status = entry_status e clock in
      if \<not> status_mutes status then c
      else
        (let c' = (if status = UncertainExpiry then c\<lparr>so_uncertain_expiry := so_uncertain_expiry c + 1\<rparr> else c) in
         case sy_skill_id e of
           Some skill \<Rightarrow> c'\<lparr>so_skills := insert skill (so_skills c')\<rparr>
         | None \<Rightarrow> c'\<lparr>so_all := True\<rparr>))"

definition snooze_controls :: "SnoozeSet \<Rightarrow> SnoozeScope \<Rightarrow> u64 option \<Rightarrow> ScopeControls" where
  "snooze_controls s scope clock =
     foldl (controls_step clock) controls_default (filter (\<lambda>e. entry_in_scope e scope) (sz_entries s))"

section \<open>The file\<close>

type_synonym SnoozeTarget = "str \<times> str \<times> str \<times> str option"

definition target_key :: "SnoozeEntry \<Rightarrow> SnoozeTarget" where
  "target_key e = (sy_workspace_root e, sy_session_id e, sy_agent_branch e, sy_skill_id e)"

definition duration_in_range :: "u64 \<Rightarrow> bool" where
  "duration_in_range d \<longleftrightarrow> MIN_SNOOZE_MS \<le> d \<and> d \<le> MAX_SNOOZE_MS"

fun decode_entries :: "SnoozeEntry list \<Rightarrow> SnoozeTarget set \<Rightarrow> (unit, SnoozeError) result" where
  "decode_entries [] targets = Ok ()"
| "decode_entries (e # es) targets =
     (if \<exists>field \<in> set [sy_event_id e, sy_workspace_root e, sy_session_id e, sy_agent_branch e,
            (case sy_skill_id e of Some skill \<Rightarrow> skill | None \<Rightarrow> scalars ''-'')].
          field = [] \<or> MAX_FIELD_BYTES < str_len field
      then Err (SnoozeMalformed (scalars ''empty or oversized field''))
      else if \<not> duration_in_range (sat_sub (sy_expires_at_unix_ms e) (sy_created_at_unix_ms e))
      then Err (SnoozeMalformed (scalars ''duration out of range''))
      else if target_key e \<in> targets
      then Err (SnoozeMalformed (scalars ''two entries for one scope and target''))
      else decode_entries es (insert (target_key e) targets))"

definition snooze_decode :: "(str \<Rightarrow> SnoozeFile option) \<Rightarrow> str \<Rightarrow> (SnoozeSet, SnoozeError) result" where
  "snooze_decode toml v =
     (case toml v of
        None \<Rightarrow> Err (SnoozeMalformed (scalars ''not strict TOML''))
      | Some file \<Rightarrow>
          if sf_schema_version file \<noteq> SNOOZE_SCHEMA_VERSION
          then Err (SnoozeMalformed (scalars ''unsupported schema_version''))
          else if MAX_SNOOZES < length (sf_snooze file)
          then Err (SnoozeMalformed (scalars (''more than '' @ dec MAX_SNOOZES @ '' entries'')))
          else and_then (decode_entries (sf_snooze file) {}) (\<lambda>_. Ok \<lparr>sz_entries = sf_snooze file\<rparr>))"

definition upper_hex :: "nat \<Rightarrow> scalar" where
  "upper_hex d = (if d < 10 then 48 + d else 55 + d)"

text \<open>\<open>{:04X}\<close> of a scalar below 65536; control characters are below 160.\<close>

definition hex4 :: "scalar \<Rightarrow> str" where
  "hex4 c = map upper_hex [c div 4096, c div 256 mod 16, c div 16 mod 16, c mod 16]"

definition toml_char :: "scalar \<Rightarrow> str" where
  "toml_char c =
     (if c = 34 then [92, 34] else if c = 92 then [92, 92]
      else if is_control c then [92, 117] @ hex4 c else [c])"

definition toml_string :: "str \<Rightarrow> str" where
  "toml_string v = [34] @ concat (map toml_char v) @ [34]"

definition encode_field :: "string \<times> str option \<Rightarrow> str" where
  "encode_field kv = (case snd kv of Some v \<Rightarrow> scalars (fst kv @ '' = '') @ toml_string v @ [10] | None \<Rightarrow> [])"

definition encode_entry :: "SnoozeEntry \<Rightarrow> str" where
  "encode_entry e =
     [10] @ scalars ''[[snooze]]'' @ [10]
     @ concat (map encode_field [(''event_id'', Some (sy_event_id e)), (''workspace_root'', Some (sy_workspace_root e)),
         (''session_id'', Some (sy_session_id e)), (''agent_branch'', Some (sy_agent_branch e)), (''skill_id'', sy_skill_id e)])
     @ scalars (''created_at_unix_ms = '' @ dec (sy_created_at_unix_ms e)) @ [10]
     @ scalars (''expires_at_unix_ms = '' @ dec (sy_expires_at_unix_ms e)) @ [10]"

definition snooze_encode :: "SnoozeSet \<Rightarrow> str" where
  "snooze_encode s =
     scalars ''# Managed by `sr snooze`; trusted advisory controls, not usefulness labels.'' @ [10]
     @ scalars (''schema_version = '' @ dec SNOOZE_SCHEMA_VERSION) @ [10]
     @ concat (map encode_entry (sz_entries s))"

section \<open>Durations\<close>

definition checked_mul64 :: "u64 \<Rightarrow> u64 \<Rightarrow> u64 option" where
  "checked_mul64 a b = (if a * b \<le> U64_MAX then Some (a * b) else None)"

definition unit_scale :: "str \<Rightarrow> u64 option" where
  "unit_scale u = (if u = scalars ''s'' then Some 1000 else if u = scalars ''m'' then Some 60000
     else if u = scalars ''h'' then Some 3600000 else None)"

definition parse_duration :: "str \<Rightarrow> (u64, SnoozeError) result" where
  "parse_duration v =
     (let bad = InvalidDuration ([39] @ v @ [39] @ scalars ''; use e.g. 30m or 2h'');
          digits = takeWhile is_ascii_digit v; unit_part = dropWhile is_ascii_digit v
      in if unit_part = [] then Err bad
         else case (if digits = [] then None else parse_u64_digits digits) of None \<Rightarrow> Err bad
         | Some amount \<Rightarrow> (case unit_scale unit_part of None \<Rightarrow> Err bad
         | Some scale \<Rightarrow> (case checked_mul64 amount scale of None \<Rightarrow> Err bad
         | Some millis \<Rightarrow>
             if \<not> duration_in_range millis
             then Err (InvalidDuration ([39] @ v @ [39] @ scalars '' is outside 1m to 24h''))
             else Ok millis)))"

section \<open>Changes\<close>

datatype SnoozeChange =
    SnoozeFor str SnoozeScope "str option" u64
  | ClearScope SnoozeScope

record PlannedChange =
  pg_next :: SnoozeSet
  pg_renewed :: bool
  pg_cleared :: usize
  pg_expired_pruned :: usize
  pg_expires_at_unix_ms :: "u64 option"

definition unexpired :: "u64 \<Rightarrow> SnoozeEntry list \<Rightarrow> SnoozeEntry list" where
  "unexpired now es = filter (\<lambda>e. entry_status e (Some now) \<noteq> EntryExpired) es"

fun snooze_plan :: "SnoozeSet \<Rightarrow> SnoozeChange \<Rightarrow> u64 \<Rightarrow> (PlannedChange, SnoozeError) result" where
  "snooze_plan current_set (ClearScope scope) now =
     (let es = unexpired now (sz_entries current_set); kept = filter (\<lambda>e. \<not> entry_in_scope e scope) es
      in Ok \<lparr>pg_next = \<lparr>sz_entries = kept\<rparr>, pg_renewed = False, pg_cleared = length es - length kept,
           pg_expired_pruned = length (sz_entries current_set) - length es, pg_expires_at_unix_ms = None\<rparr>)"
| "snooze_plan current_set (SnoozeFor event_id scope skill_id duration_ms) now =
     (let es = unexpired now (sz_entries current_set)
      in if \<not> duration_in_range duration_ms then Err (InvalidDuration (scalars ''outside 1m to 24h''))
         else case checked_add64 now duration_ms of
           None \<Rightarrow> Err (InvalidDuration (scalars ''clock overflow''))
         | Some expires \<Rightarrow>
             (let kept = filter (\<lambda>e. \<not> (entry_in_scope e scope \<and> sy_skill_id e = skill_id)) es
              in if MAX_SNOOZES \<le> length kept then Err TooMany
                 else Ok \<lparr>pg_next = \<lparr>sz_entries = kept @ [\<lparr>sy_event_id = event_id,
                        sy_workspace_root = sn_workspace_root scope, sy_session_id = sn_session_id scope,
                        sy_agent_branch = sn_agent_branch scope, sy_skill_id = skill_id,
                        sy_created_at_unix_ms = now, sy_expires_at_unix_ms = expires\<rparr>]\<rparr>,
                      pg_renewed = (length kept \<noteq> length es), pg_cleared = 0,
                      pg_expired_pruned = length (sz_entries current_set) - length es,
                      pg_expires_at_unix_ms = Some expires\<rparr>))"

section \<open>Reading and applying\<close>

text \<open>What the file system shows of the snooze file: its kind and length from the metadata, then its bytes.\<close>

datatype FileView = ViewMissing | ViewFailed str | ViewNotRegular | ViewRegular nat "(nat list, str) result"

definition read_existing :: "FileView \<Rightarrow> (nat list option, SnoozeError) result" where
  "read_existing view =
     (case view of
        ViewNotRegular \<Rightarrow> Err (SnoozeMalformed (scalars ''the snooze path is not a regular file''))
      | ViewRegular len contents \<Rightarrow>
          if rl_max CONFIG_FILE_BYTES < len then Err (SnoozeMalformed (scalars ''file exceeds the configuration bound''))
          else (case contents of Ok bytes \<Rightarrow> Ok (Some bytes) | Err kind \<Rightarrow> Err (SnoozeIo kind))
      | ViewMissing \<Rightarrow> Ok None
      | ViewFailed kind \<Rightarrow> Err (SnoozeIo kind))"

definition decode_bytes :: "(str \<Rightarrow> SnoozeFile option) \<Rightarrow> nat list \<Rightarrow> (SnoozeSet, SnoozeError) result" where
  "decode_bytes toml bytes =
     (case utf8_decode bytes of None \<Rightarrow> Err (SnoozeMalformed (scalars ''not UTF-8'')) | Some v \<Rightarrow> snooze_decode toml v)"

definition decode_original :: "(str \<Rightarrow> SnoozeFile option) \<Rightarrow> nat list option \<Rightarrow> (SnoozeSet, SnoozeError) result" where
  "decode_original toml original =
     (case original of Some bytes \<Rightarrow> decode_bytes toml bytes | None \<Rightarrow> Ok snooze_set_default)"

definition snooze_load :: "(str \<Rightarrow> SnoozeFile option) \<Rightarrow> FileView \<Rightarrow> (SnoozeSet, SnoozeError) result" where
  "snooze_load toml view = and_then (read_existing view) (decode_original toml)"

record Applied =
  ad_planned :: PlannedChange
  ad_backup :: "str option"

text \<open>What directories, the lock, the backup, the temporary file and the rename answer, and what the two
  readings of the file show.\<close>

record apply_env =
  av_create_dir :: "(unit, str) result"
  av_open_lock :: "(unit, str) result"
  av_lock_free :: bool
  av_first :: FileView
  av_backup :: "(str, str) result"
  av_write :: "(unit, str) result"
  av_second :: FileView
  av_rename :: "(unit, str) result"

definition io_step :: "('a, str) result \<Rightarrow> ('a, SnoozeError) result" where
  "io_step r = (case r of Ok x \<Rightarrow> Ok x | Err kind \<Rightarrow> Err (SnoozeIo kind))"

definition acquire_lock :: "apply_env \<Rightarrow> (unit, SnoozeError) result" where
  "acquire_lock env =
     and_then (io_step (av_open_lock env)) (\<lambda>_. if av_lock_free env then Ok () else Err SnoozeLockBusy)"

definition replace_file :: "apply_env \<Rightarrow> nat list option \<Rightarrow> (unit, SnoozeError) result" where
  "replace_file env original =
     and_then (read_existing (av_second env)) (\<lambda>again.
       if again \<noteq> original then Err ExternalModification else io_step (av_rename env))"

text \<open>The second component is what the rename publishes: nothing, or the whole new contents.\<close>

definition snooze_apply ::
  "(str \<Rightarrow> SnoozeFile option) \<Rightarrow> apply_env \<Rightarrow> SnoozeChange \<Rightarrow> u64 \<Rightarrow> (Applied, SnoozeError) result \<times> nat list option" where
  "snooze_apply toml env change now =
     (case
        and_then (io_step (av_create_dir env)) (\<lambda>_.
        and_then (acquire_lock env) (\<lambda>_.
        and_then (read_existing (av_first env)) (\<lambda>original.
        and_then (decode_original toml original) (\<lambda>current_set.
        and_then (snooze_plan current_set change now) (\<lambda>planned.
        and_then (case original of Some _ \<Rightarrow> map_ok Some (io_step (av_backup env)) | None \<Rightarrow> Ok None) (\<lambda>backup.
        and_then (io_step (av_write env)) (\<lambda>_.
        and_then (replace_file env original) (\<lambda>_. Ok \<lparr>ad_planned = planned, ad_backup = backup\<rparr>))))))))
      of Err e \<Rightarrow> (Err e, None)
       | Ok applied \<Rightarrow> (Ok applied, Some (str_bytes (snooze_encode (pg_next (ad_planned applied))))))"

section \<open>Which targets are muted\<close>

text \<open>The abstraction: when the snooze of a target was created and when it expires. A target is a scope with one
  skill or with every advisory candidate.\<close>

definition target_of :: "SnoozeScope \<Rightarrow> str option \<Rightarrow> SnoozeTarget" where
  "target_of scope skill = (sn_workspace_root scope, sn_session_id scope, sn_agent_branch scope, skill)"

definition snoozed :: "SnoozeSet \<Rightarrow> SnoozeTarget \<Rightarrow> (u64 \<times> u64) option" where
  "snoozed s = map_of (map (\<lambda>e. (target_key e, (sy_created_at_unix_ms e, sy_expires_at_unix_ms e))) (sz_entries s))"

definition set_ok :: "SnoozeSet \<Rightarrow> bool" where
  "set_ok s \<longleftrightarrow> length (sz_entries s) \<le> MAX_SNOOZES \<and> distinct (map target_key (sz_entries s))"

text \<open>A snooze mutes unless the clock is readable and stands at its expiry or later.\<close>

definition muted_at :: "u64 option \<Rightarrow> u64 \<times> u64 \<Rightarrow> bool" where
  "muted_at clock ce \<longleftrightarrow> (case clock of None \<Rightarrow> True | Some now \<Rightarrow> now < fst ce \<or> now < snd ce)"

definition muted :: "SnoozeSet \<Rightarrow> SnoozeTarget \<Rightarrow> u64 option \<Rightarrow> bool" where
  "muted s t clock \<longleftrightarrow> (case snoozed s t of None \<Rightarrow> False | Some ce \<Rightarrow> muted_at clock ce)"

lemma status_mutes_at: "status_mutes (entry_status e clock) \<longleftrightarrow> muted_at clock (sy_created_at_unix_ms e, sy_expires_at_unix_ms e)"
  by (simp add: status_mutes_def entry_status_def muted_at_def split: option.split)

lemma in_scope_target: "entry_in_scope e scope \<longleftrightarrow> (\<exists>skill. target_key e = target_of scope skill)"
  by (auto simp: entry_in_scope_def target_key_def target_of_def)

lemma in_scope_target_skill: "entry_in_scope e scope \<and> sy_skill_id e = skill \<longleftrightarrow> target_key e = target_of scope skill"
  by (auto simp: entry_in_scope_def target_key_def target_of_def)

lemma snoozed_entry:
  assumes "set_ok s"
  shows "snoozed s t = Some ce \<longleftrightarrow> (\<exists>e \<in> set (sz_entries s). target_key e = t \<and> ce = (sy_created_at_unix_ms e, sy_expires_at_unix_ms e))"
proof -
  have "distinct (map fst (map (\<lambda>e. (target_key e, (sy_created_at_unix_ms e, sy_expires_at_unix_ms e))) (sz_entries s)))"
    using assms by (simp add: set_ok_def comp_def)
  from map_of_eq_Some_iff [OF this] show ?thesis unfolding snoozed_def by auto
qed

lemma muted_entry:
  assumes "set_ok s"
  shows "muted s t clock \<longleftrightarrow> (\<exists>e \<in> set (sz_entries s). target_key e = t \<and> status_mutes (entry_status e clock))"
proof -
  have "muted s t clock \<longleftrightarrow> (\<exists>ce. snoozed s t = Some ce \<and> muted_at clock ce)" by (simp add: muted_def split: option.split)
  then show ?thesis unfolding snoozed_entry [OF assms] status_mutes_at by blast
qed

lemma controls_fold:
  "so_all (foldl (controls_step clock) c es) \<longleftrightarrow>
     so_all c \<or> (\<exists>e \<in> set es. sy_skill_id e = None \<and> status_mutes (entry_status e clock))"
  "skill \<in> so_skills (foldl (controls_step clock) c es) \<longleftrightarrow>
     skill \<in> so_skills c \<or> (\<exists>e \<in> set es. sy_skill_id e = Some skill \<and> status_mutes (entry_status e clock))"
  by (induction es arbitrary: c) (auto simp: controls_step_def Let_def split: option.splits)

lemma controls_mute:
  assumes "set_ok s"
  shows "controls_mutes (snooze_controls s scope clock) skill \<longleftrightarrow>
    muted s (target_of scope None) clock \<or> muted s (target_of scope (Some skill)) clock"
proof -
  have "controls_mutes (snooze_controls s scope clock) skill \<longleftrightarrow>
      (\<exists>e \<in> set (sz_entries s). entry_in_scope e scope \<and> (sy_skill_id e = None \<or> sy_skill_id e = Some skill)
        \<and> status_mutes (entry_status e clock))"
    by (auto simp: controls_mutes_def snooze_controls_def controls_fold controls_default_def)
  then show ?thesis unfolding muted_entry [OF assms] in_scope_target_skill [symmetric] by blast
qed

section \<open>What a change does\<close>

lemma target_of_inj [simp]: "target_of a x = target_of b y \<longleftrightarrow> a = b \<and> x = y"
  by (cases a; cases b) (auto simp: target_of_def)

lemma unexpired_mutes: "now \<le> n \<Longrightarrow> status_mutes (entry_status e (Some n)) \<Longrightarrow> entry_status e (Some now) \<noteq> EntryExpired"
  by (auto simp: status_mutes_def entry_status_def split: if_splits)

lemma set_ok_filter: "set_ok s \<Longrightarrow> set_ok \<lparr>sz_entries = filter P (filter Q (sz_entries s))\<rparr>"
  unfolding set_ok_def using length_filter_le [of P "filter Q (sz_entries s)"] length_filter_le [of Q "sz_entries s"]
  by (simp add: distinct_map_filter del: filter_filter length_filter_le)

lemma muted_kept:
  assumes "set_ok s" "now \<le> n"
  shows "muted \<lparr>sz_entries = filter P (unexpired now (sz_entries s))\<rparr> t (Some n) \<longleftrightarrow>
    (\<exists>e \<in> set (sz_entries s). P e \<and> target_key e = t \<and> status_mutes (entry_status e (Some n)))"
proof -
  have "set_ok \<lparr>sz_entries = filter P (unexpired now (sz_entries s))\<rparr>"
    unfolding unexpired_def using assms(1) by (rule set_ok_filter)
  from muted_entry [OF this, of t "Some n"] show ?thesis
    using unexpired_mutes [OF assms(2)] by (auto simp: unexpired_def)
qed

lemma plan_clear:
  assumes "set_ok s" "snooze_plan s (ClearScope scope) now = Ok p"
  shows "set_ok (pg_next p)"
    and "now \<le> n \<Longrightarrow> muted (pg_next p) (target_of sc skill) (Some n) \<longleftrightarrow> sc \<noteq> scope \<and> muted s (target_of sc skill) (Some n)"
proof -
  have nxt: "pg_next p = \<lparr>sz_entries = filter (\<lambda>e. \<not> entry_in_scope e scope) (unexpired now (sz_entries s))\<rparr>"
    using assms(2) by (auto simp: Let_def)
  show "set_ok (pg_next p)" unfolding nxt unexpired_def using assms(1) by (rule set_ok_filter)
  show "muted (pg_next p) (target_of sc skill) (Some n) \<longleftrightarrow> sc \<noteq> scope \<and> muted s (target_of sc skill) (Some n)"
    if "now \<le> n"
    unfolding nxt muted_kept [OF assms(1) that] muted_entry [OF assms(1)] in_scope_target
    by (metis target_of_inj)
qed

lemma plan_snooze:
  assumes "set_ok s" "snooze_plan s (SnoozeFor ev scope skill_id d) now = Ok p"
  shows "set_ok (pg_next p)"
    and "now \<le> n \<Longrightarrow> muted (pg_next p) (target_of sc skill) (Some n) \<longleftrightarrow>
      (if sc = scope \<and> skill = skill_id then n < now + d else muted s (target_of sc skill) (Some n))"
proof -
  let ?kept = "filter (\<lambda>e. \<not> (entry_in_scope e scope \<and> sy_skill_id e = skill_id)) (unexpired now (sz_entries s))"
  let ?new = "\<lparr>sy_event_id = ev, sy_workspace_root = sn_workspace_root scope, sy_session_id = sn_session_id scope,
    sy_agent_branch = sn_agent_branch scope, sy_skill_id = skill_id, sy_created_at_unix_ms = now,
    sy_expires_at_unix_ms = now + d\<rparr>"
  have nxt: "pg_next p = \<lparr>sz_entries = ?kept @ [?new]\<rparr>" and few: "length ?kept < MAX_SNOOZES"
    using assms(2) by (auto simp: Let_def checked_add64_def split: if_splits)
  have key: "target_key ?new = target_of scope skill_id" by (simp add: target_key_def target_of_def)
  have kept_ok: "set_ok \<lparr>sz_entries = ?kept\<rparr>" unfolding unexpired_def using assms(1) by (rule set_ok_filter)
  have apart: "target_key e \<noteq> target_of scope skill_id" if "e \<in> set ?kept" for e
    using that in_scope_target_skill by auto
  show ok: "set_ok (pg_next p)"
  proof -
    have "target_of scope skill_id \<notin> target_key ` set ?kept"
    proof
      assume "target_of scope skill_id \<in> target_key ` set ?kept"
      then obtain e where e: "target_of scope skill_id = target_key e" "e \<in> set ?kept" by (rule imageE)
      show False using apart [OF e(2)] e(1) by simp
    qed
    then show ?thesis using kept_ok few key by (simp add: nxt set_ok_def del: filter_filter set_filter image_iff)
  qed
  show "muted (pg_next p) (target_of sc skill) (Some n) \<longleftrightarrow>
      (if sc = scope \<and> skill = skill_id then n < now + d else muted s (target_of sc skill) (Some n))" if n: "now \<le> n"
  proof -
    have "status_mutes (entry_status ?new (Some n)) \<longleftrightarrow> n < now + d"
      using n by (simp add: status_mutes_def entry_status_def)
    then have "muted (pg_next p) (target_of sc skill) (Some n) \<longleftrightarrow>
        (sc = scope \<and> skill = skill_id \<and> n < now + d) \<or> muted \<lparr>sz_entries = ?kept\<rparr> (target_of sc skill) (Some n)"
      unfolding muted_entry [OF ok] muted_entry [OF kept_ok] by (auto simp: nxt key)
    then show ?thesis
      unfolding muted_kept [OF assms(1) n] muted_entry [OF assms(1)] in_scope_target_skill by auto
  qed
qed

text \<open>
  C28. A snooze withholds its target, in its scope, until it expires, and nothing else. From a set with one entry per
  target, every accepted change leads to such a set. At any later time a skill is then withheld in a scope
  exactly when it, or everything, is muted there: for the target of the change until the duration asked
  for has passed, in a cleared scope never, and for every other target precisely as before.
\<close>

theorem snoozes_withhold_exactly:
  assumes "set_ok s" "snooze_plan s change now = Ok p" "now \<le> n"
  shows "set_ok (pg_next p)
    \<and> (controls_mutes (snooze_controls (pg_next p) scope (Some n)) skill \<longleftrightarrow>
        (\<exists>target \<in> {None, Some skill}.
           case change of
             ClearScope cleared \<Rightarrow> scope \<noteq> cleared \<and> muted s (target_of scope target) (Some n)
           | SnoozeFor ev snooze_scope skill_id d \<Rightarrow>
               if scope = snooze_scope \<and> target = skill_id then n < now + d
               else muted s (target_of scope target) (Some n)))"
proof (cases change)
  case (SnoozeFor ev sc sk d)
  note plan = plan_snooze [OF assms(1) assms(2) [unfolded SnoozeFor]]
  show ?thesis using plan(1) unfolding controls_mute [OF plan(1)] plan(2) [OF assms(3)] SnoozeFor by simp
next
  case (ClearScope sc)
  note plan = plan_clear [OF assms(1) assms(2) [unfolded ClearScope]]
  show ?thesis using plan(1) unfolding controls_mute [OF plan(1)] plan(2) [OF assms(3)] ClearScope by auto
qed

definition demo_scope :: SnoozeScope where
  "demo_scope = \<lparr>sn_workspace_root = scalars ''/w'', sn_session_id = scalars ''s1'', sn_agent_branch = scalars ''main''\<rparr>"

definition demo_snoozes :: SnoozeSet where
  "demo_snoozes = \<lparr>sz_entries =
     [\<lparr>sy_event_id = scalars ''e0'', sy_workspace_root = scalars ''/w'', sy_session_id = scalars ''s1'',
       sy_agent_branch = scalars ''main'', sy_skill_id = Some (scalars ''a''), sy_created_at_unix_ms = 0,
       sy_expires_at_unix_ms = 3600000\<rparr>]\<rparr>"

text \<open>Renewing a snooze of an hour for a minute shortens it.\<close>

theorem snoozes_withhold_exactly_witness:
  "\<exists>p. snooze_plan demo_snoozes (SnoozeFor (scalars ''e1'') demo_scope (Some (scalars ''a'')) 60000) 1000 = Ok p
     \<and> \<not> controls_mutes (snooze_controls (pg_next p) demo_scope (Some 61000)) (scalars ''a'')"
proof -
  let ?change = "SnoozeFor (scalars ''e1'') demo_scope (Some (scalars ''a'')) 60000"
  have ok: "set_ok demo_snoozes" by (simp add: set_ok_def demo_snoozes_def MAX_SNOOZES_def)
  have "is_ok (snooze_plan demo_snoozes ?change 1000)" by code_simp
  then obtain p where p: "snooze_plan demo_snoozes ?change 1000 = Ok p" unfolding is_ok_iff by blast
  have "\<not> muted demo_snoozes (target_of demo_scope None) (Some 61000)"
    by (simp add: muted_def snoozed_def demo_snoozes_def target_of_def target_key_def)
  then have "\<not> controls_mutes (snooze_controls (pg_next p) demo_scope (Some 61000)) (scalars ''a'')"
    using snoozes_withhold_exactly [OF ok p, of 61000 demo_scope "scalars ''a''"] by simp
  then show ?thesis using p by blast
qed

section \<open>Applying a change\<close>

text \<open>Whatever the directories, the lock, the file and an external editor do: a change that fails publishes nothing, one
  that succeeds publishes the whole canonical text of the plan, made from the bytes that were in the file
  both before and after, and names a backup exactly when there was a file.\<close>

theorem apply_publishes_whole_or_nothing:
  "case snooze_apply toml env change now of
     (Err e, published) \<Rightarrow> published = None
   | (Ok applied, published) \<Rightarrow>
       published = Some (str_bytes (snooze_encode (pg_next (ad_planned applied))))
       \<and> (\<exists>original s. read_existing (av_first env) = Ok original \<and> read_existing (av_second env) = Ok original
            \<and> decode_original toml original = Ok s \<and> snooze_plan s change now = Ok (ad_planned applied)
            \<and> (ad_backup applied \<noteq> None \<longleftrightarrow> original \<noteq> None))"
proof (cases "snooze_apply toml env change now")
  case (Pair r published)
  then show ?thesis
    by (cases r) (auto simp: snooze_apply_def replace_file_def split: result.splits option.splits if_splits)
qed

section \<open>A set within its limits whose file is beyond its bound\<close>

definition field_ok :: "str \<Rightarrow> bool" where
  "field_ok field \<longleftrightarrow> field \<noteq> [] \<and> str_len field \<le> MAX_FIELD_BYTES"

definition entry_ok :: "SnoozeEntry \<Rightarrow> bool" where
  "entry_ok e \<longleftrightarrow> field_ok (sy_event_id e) \<and> field_ok (sy_workspace_root e) \<and> field_ok (sy_session_id e)
     \<and> field_ok (sy_agent_branch e) \<and> (case sy_skill_id e of Some skill \<Rightarrow> field_ok skill | None \<Rightarrow> True)
     \<and> duration_in_range (sy_expires_at_unix_ms e - sy_created_at_unix_ms e)"

lemma decode_entries_Ok:
  "decode_entries es targets = Ok () \<longleftrightarrow>
     (\<forall>e \<in> set es. entry_ok e) \<and> distinct (map target_key es) \<and> target_key ` set es \<inter> targets = {}"
proof (induction es arbitrary: targets)
  case (Cons e es)
  have "field_ok (scalars ''-'')" by (simp add: field_ok_def scalars_def str_len_def utf8_len_def MAX_FIELD_BYTES_def)
  then have "(\<exists>field \<in> set [sy_event_id e, sy_workspace_root e, sy_session_id e, sy_agent_branch e,
      (case sy_skill_id e of Some skill \<Rightarrow> skill | None \<Rightarrow> scalars ''-'')]. field = [] \<or> MAX_FIELD_BYTES < str_len field)
    \<or> \<not> duration_in_range (sat_sub (sy_expires_at_unix_ms e) (sy_created_at_unix_ms e)) \<longleftrightarrow> \<not> entry_ok e"
    by (cases "sy_skill_id e") (auto simp: entry_ok_def field_ok_def not_less)
  then show ?case using Cons.IH [of "insert (target_key e) targets"] by (simp only: decode_entries.simps) auto
qed simp

lemma decoded_set_ok: "snooze_decode toml v = Ok s \<Longrightarrow> set_ok s"
  by (auto simp: snooze_decode_def set_ok_def decode_entries_Ok split: option.splits if_splits)

lemma str_bytes_length: "length v \<le> length (str_bytes v)"
  by (induction v) (simp_all add: str_bytes_def utf8_encode_def)

lemma toml_string_length: "length v \<le> length (toml_string v)"
proof -
  have "length v \<le> length (concat (map toml_char v))" by (induction v) (auto simp: toml_char_def)
  then show ?thesis by (simp add: toml_string_def)
qed

lemma encode_entry_length: "length (sy_workspace_root e) \<le> length (encode_entry e)"
  using toml_string_length [of "sy_workspace_root e"] by (simp add: encode_entry_def encode_field_def)

lemma snooze_encode_length:
  "\<forall>e \<in> set es. n \<le> length (sy_workspace_root e) \<Longrightarrow> length es * n < length (snooze_encode \<lparr>sz_entries = es\<rparr>)"
proof (induction es)
  case (Cons e es)
  then show ?case using encode_entry_length [of e] by (simp add: snooze_encode_def)
qed (simp add: snooze_encode_def)

definition deep_scope :: SnoozeScope where
  "deep_scope = \<lparr>sn_workspace_root = replicate 4096 47, sn_session_id = [115], sn_agent_branch = [109]\<rparr>"

definition deep_change :: "nat \<Rightarrow> SnoozeChange" where
  "deep_change i = SnoozeFor [101] deep_scope (Some (replicate (Suc i) 97)) 60000"

definition deep_entry :: "nat \<Rightarrow> SnoozeEntry" where
  "deep_entry i = \<lparr>sy_event_id = [101], sy_workspace_root = replicate 4096 47, sy_session_id = [115], sy_agent_branch = [109],
     sy_skill_id = Some (replicate (Suc i) 97), sy_created_at_unix_ms = 0, sy_expires_at_unix_ms = 60000\<rparr>"

definition deep_set :: "nat \<Rightarrow> SnoozeSet" where
  "deep_set n = \<lparr>sz_entries = map deep_entry [0..<n]\<rparr>"

lemma ascii_len: "c < 128 \<Longrightarrow> str_len (replicate n c) = n"
  by (simp add: str_len_def utf8_len_def sum_list_replicate)

lemma deep_entries_accepted:
  assumes "n \<le> 128"
  shows "decode_entries (sz_entries (deep_set n)) {} = Ok ()" "set_ok (deep_set n)"
proof -
  have "entry_ok (deep_entry i)" if "i < n" for i
    using that assms ascii_len [of 47 4096] ascii_len [of 97 "Suc i"] str_len_def [of "[101]"] str_len_def [of "[115]"] str_len_def [of "[109]"]
    by (simp add: entry_ok_def deep_entry_def field_ok_def MAX_FIELD_BYTES_def duration_in_range_def MIN_SNOOZE_MS_def
      MAX_SNOOZE_MS_def utf8_len_def del: replicate.simps)
  moreover have "distinct (map target_key (map deep_entry [0..<n]))"
    by (simp add: distinct_map inj_on_def deep_entry_def target_key_def replicate_eq_replicate del: replicate.simps)
  ultimately show "decode_entries (sz_entries (deep_set n)) {} = Ok ()" "set_ok (deep_set n)"
    using assms by (auto simp: decode_entries_Ok deep_set_def set_ok_def MAX_SNOOZES_def)
qed

lemma deep_plan:
  assumes "n < 128"
  shows "\<exists>p. snooze_plan (deep_set n) (deep_change n) 0 = Ok p \<and> pg_next p = deep_set (Suc n)"
proof -
  have fresh: "unexpired 0 (map deep_entry [0..<n]) = map deep_entry [0..<n]"
    by (simp add: unexpired_def filter_id_conv entry_status_def deep_entry_def)
  have kept: "filter (\<lambda>e. \<not> (entry_in_scope e deep_scope \<and> sy_skill_id e = Some (replicate (Suc n) 97))) (map deep_entry [0..<n])
      = map deep_entry [0..<n]"
    by (auto simp: filter_id_conv deep_entry_def replicate_eq_replicate simp del: replicate.simps)
  show ?thesis
    using assms unfolding deep_change_def snooze_plan.simps Let_def deep_set_def SnoozeSet.simps fresh kept
    by (simp add: duration_in_range_def MIN_SNOOZE_MS_def MAX_SNOOZE_MS_def checked_add64_def U64_MAX_def MAX_SNOOZES_def
      deep_entry_def deep_scope_def)
qed

lemma deep_scope_accepted:
  "scope_from_event [101] (sn_workspace_root deep_scope) (sn_session_id deep_scope) (sn_agent_branch deep_scope) = Ok deep_scope"
  using ascii_len [of 47 4096] by (simp add: scope_from_event_def deep_scope_def starts_with_def scalars_def str_len_def
    utf8_len_def MAX_FIELD_BYTES_def del: replicate.simps)

lemma oversized_refused:
  "rl_max CONFIG_FILE_BYTES < length v \<Longrightarrow>
     snooze_load toml (ViewRegular (length v) (Ok v)) = Err (SnoozeMalformed (scalars ''file exceeds the configuration bound''))"
  by (simp add: snooze_load_def read_existing_def)

lemma first_above:
  fixes f :: "nat \<Rightarrow> nat"
  assumes "f 0 \<le> b" "b < f m"
  obtains n where "n < m" "f n \<le> b" "b < f (Suc n)"
proof -
  have "\<exists>n < m. f n \<le> b \<and> b < f (Suc n)"
    using assms
  proof (induction m)
    case (Suc m)
    then show ?case by (cases "b < f m") (auto simp: not_less intro: less_SucI)
  qed simp
  then show ?thesis using that by blast
qed

lemma config_bound: "rl_max CONFIG_FILE_BYTES = 64 * 4096"
  by (simp add: CONFIG_FILE_BYTES_def new_const_def KIB_def)

lemma deep_boundary:
  obtains n where "n < 64" "length (str_bytes (snooze_encode (deep_set n))) \<le> rl_max CONFIG_FILE_BYTES"
    "rl_max CONFIG_FILE_BYTES < length (str_bytes (snooze_encode (deep_set (Suc n))))"
proof -
  let ?size = "\<lambda>n. length (str_bytes (snooze_encode (deep_set n)))"
  have "length (map deep_entry [0..<64]) * 4096 < length (snooze_encode \<lparr>sz_entries = map deep_entry [0..<64]\<rparr>)"
    by (rule snooze_encode_length) (simp add: deep_entry_def del: upt_rec_numeral upt_Suc)
  then have above: "rl_max CONFIG_FILE_BYTES < ?size 64"
    using str_bytes_length [of "snooze_encode (deep_set 64)"]
    unfolding config_bound deep_set_def length_map length_upt by linarith
  have "?size 0 \<le> 1000" by code_simp
  then have below: "?size 0 \<le> rl_max CONFIG_FILE_BYTES" unfolding config_bound by simp
  show ?thesis using first_above [of ?size, OF below above] that by blast
qed

text \<open>
  C40. A change that is accepted can leave a snooze file that nothing reads any more. There is a set within all limits
  whose file is within the bound of configuration files, and a change that the plan accepts, such that every
  entry of the new set still passes the checks of the decoder, while the file of the new set is refused by
  every later load for its length: the plan bounds the entries and their fields, and not the file.
\<close>

theorem accepted_snooze_can_lock_the_file:
  "\<exists>s scope change p.
     scope_from_event [101] (sn_workspace_root scope) (sn_session_id scope) (sn_agent_branch scope) = Ok scope
     \<and> set_ok s \<and> decode_entries (sz_entries s) {} = Ok ()
     \<and> length (str_bytes (snooze_encode s)) \<le> rl_max CONFIG_FILE_BYTES
     \<and> (\<exists>skill. change = SnoozeFor [101] scope (Some skill) MIN_SNOOZE_MS) \<and> snooze_plan s change 0 = Ok p
     \<and> set_ok (pg_next p) \<and> decode_entries (sz_entries (pg_next p)) {} = Ok ()
     \<and> (\<forall>toml. snooze_load toml
            (ViewRegular (length (str_bytes (snooze_encode (pg_next p)))) (Ok (str_bytes (snooze_encode (pg_next p)))))
          = Err (SnoozeMalformed (scalars ''file exceeds the configuration bound'')))"
proof -
  obtain n where n: "n < 64" "length (str_bytes (snooze_encode (deep_set n))) \<le> rl_max CONFIG_FILE_BYTES"
    "rl_max CONFIG_FILE_BYTES < length (str_bytes (snooze_encode (deep_set (Suc n))))" using deep_boundary .
  obtain p where p: "snooze_plan (deep_set n) (deep_change n) 0 = Ok p" "pg_next p = deep_set (Suc n)"
    using deep_plan [of n] n(1) by auto
  show ?thesis
  proof (intro exI conjI allI)
    show "scope_from_event [101] (sn_workspace_root deep_scope) (sn_session_id deep_scope) (sn_agent_branch deep_scope) = Ok deep_scope"
      by (rule deep_scope_accepted)
    show "set_ok (deep_set n)" "decode_entries (sz_entries (deep_set n)) {} = Ok ()"
      using deep_entries_accepted [of n] n(1) by simp_all
    show "set_ok (pg_next p)" "decode_entries (sz_entries (pg_next p)) {} = Ok ()"
      using deep_entries_accepted [of "Suc n"] n(1) by (simp_all add: p(2))
    show "snooze_load toml
        (ViewRegular (length (str_bytes (snooze_encode (pg_next p)))) (Ok (str_bytes (snooze_encode (pg_next p)))))
      = Err (SnoozeMalformed (scalars ''file exceeds the configuration bound''))" for toml
      using n(3) unfolding p(2) by (rule oversized_refused)
    show "length (str_bytes (snooze_encode (deep_set n))) \<le> rl_max CONFIG_FILE_BYTES" by (rule n(2))
    show "snooze_plan (deep_set n) (deep_change n) 0 = Ok p" by (rule p(1))
    show "deep_change n = SnoozeFor [101] deep_scope (Some (replicate (Suc n) 97)) MIN_SNOOZE_MS"
      by (simp add: deep_change_def MIN_SNOOZE_MS_def)
  qed
qed

end
