(* ===== verification/Spec2Isabelle.thy ===== *)
theory Spec2Isabelle
  imports Resource_Limits Breaker Coordination Admission Retry Allowance Eligibility Roster Explicit
    Lineage Redaction Tool_Evidence Suppression Codec Scoring Disclosure Task_Anchor Context_Render
    Wide Rerank Priors Ranking Fingerprint Response_Cache Snooze
begin

text \<open>
  SkillRanker, a verification development.

  SkillRanker (\<open>sr\<close>, Rust sources under \<open>src/src/\<close>) suggests skills to a coding agent. One
  invocation reads the session context, resolves the roster of installed skills, asks a remote
  provider (\<open>jev\<close>) for a wide score and then for a rerank, and prints a recommendation or a reasoned
  abstention. It runs as a hook, many processes at a time on one machine, against a paid
  service and under a hard deadline. The core logic is what keeps this bounded and honest: deadlines
  and limits, the budget of provider attempts and its cost receipt, bounded retries, a circuit breaker
  and an optional request allowance shared by all processes, single-flight coordination of identical
  requests, and the local rules that decide which skills may be recommended at all. These parts are
  modelled.

  \<^bold>\<open>Components and theories.\<close>

  \<^item> \<open>Sr_Prelude\<close>: fixed-width counters, the \<open>Result\<close> type, Unicode text with its two length
    measures, decimal and hexadecimal printing, runs of a machine, and the locales
    \<open>machine_invariant\<close>, \<open>machine_monotone\<close> and \<open>fenced\<close> that the stateful components
    interpret. \<open>Ordered_Map\<close>: \<open>BTreeMap\<close> with the interface locale \<open>keyed_store\<close>.
    \<open>Outcomes\<close>: error kinds, exit codes and the closed failure vocabularies that cross components.
  \<^item> \<open>Resource_Limits\<close> models \<open>limits.rs\<close> and the deadline arithmetic of \<open>runtime.rs\<close>: resource
    limits, checked counters, invocation deadlines with a cleanup reserve, wall-clock expiry, attempt
    counters, batch bounds. Shown: the counters never exceed their limits, per-case deadlines stay
    inside the batch, failure deadlines stay inside the invocation, the text checks are exact.
  \<^item> \<open>Admission\<close> models \<open>jev/admission.rs\<close>, with \<open>AttemptAdmission\<close> as a record and
    \<open>admit\<close>, \<open>record_sent\<close>, \<open>record_response\<close>, \<open>record_terminal_failure\<close>, \<open>record_discard\<close>
    as operations on it. Shown for every history of client calls: the attempt and logical-request
    budgets hold, at most one attempt is active, the receipt conserves attempts and sums tokens
    exactly, a rerank follows a completed wide call, settled attempts are final.
  \<^item> \<open>Retry\<close> models \<open>jev/retry.rs\<close> on top of \<open>Admission\<close>: Retry-After parsing, the
    scheduling decision, and the send loop with the drop guard of \<open>AttemptFlight\<close>. Shown: the loop
    returns after a bounded number of rounds, every admitted attempt is settled however the loop
    ends, retries happen only after transient failures and never before the requested delay, and the
    rerank uses the model of the wide call.
  \<^item> \<open>Breaker\<close> models \<open>breaker.rs\<close>: pure row transitions, the persisted row with its decoding,
    the transaction and the process-local fallback. Shown: one probe at a time, late settlements are
    fenced by the generation, the breaker never blocks for ever, the shared store refines the pure
    row, reachable rows survive a round trip through storage.
  \<^item> \<open>Coordination\<close> models \<open>cache/coordination.rs\<close>: the four transaction primitives on the lease
    table. Shown for every interleaving of processes: one leader per lease period, published
    generations strictly increase, a superseded leader never publishes.
  \<^item> \<open>Allowance\<close> models \<open>allowance.rs\<close>: guard file and accounting database as two stores with no
    common transaction, the three-step setup, the debit. Shown: no window exceeds its limit in any
    history with faults and crashes at every point, setup is crash safe, a ready guard decides by the
    stored receipts.
  \<^item> \<open>Identity\<close> models the checks of \<open>identity.rs\<close>, \<open>Str_Text\<close> the string functions
    of the standard library that the sources call, by byte offset, with a panic as \<open>None\<close>.
  \<^item> \<open>Roster\<close> models \<open>roster/mod.rs\<close> and \<open>roster/resolution.rs\<close>: entries, aliases of one
    physical file, collisions of one name, exact lookups, the option handles of one request. Shown: every lookup is
    the one the collision rule gives, a name never resolves across files, handles and skills are in bijection.
  \<^item> \<open>Lineage\<close> models \<open>context/branch/lineage.rs\<close> and the epochs of \<open>context/branch.rs\<close>: the index of the
    transcript, parent links, the pruning of side branches, the selection of the leaf and the trace to the root.
    Shown: a resolved branch is a chain of the transcript, resolution returns on transcripts without cycles, the order
    of the records does not matter; on one cyclic transcript the resolver does not return.
  \<^item> \<open>Loaded_State\<close> models the loaded-state check of \<open>context/branch.rs\<close>; \<open>Tool_Evidence\<close> models
    \<open>context/tool.rs\<close> with its two submodules: bounded summaries, the association of tool calls with their results,
    load observations and load records. Shown: a call identifier used twice never yields evidence.
  \<^item> \<open>Redaction\<close> models \<open>privacy/redaction.rs\<close>: the collection and merging of secret spans, the
    replacement, cuts that keep markers whole, excerpts, the inspection of payloads. Shown: redaction removes exactly
    the scanned bytes and puts one marker where each merged secret starts, excerpts respect their limit, inspection accepts exactly the clean payloads.
  \<^item> \<open>Explicit\<close> models \<open>roster/explicit.rs\<close>: quotation stripping, the directives of the prompt, exclusions and
    the resolution of explicit requirements. Shown: resolution is all or nothing, an exclusion cannot be bypassed
    through another name of the skill, quoted text is never read as a directive.
  \<^item> \<open>Suppression\<close> composes \<open>Lineage\<close>, \<open>Tool_Evidence\<close>, \<open>Loaded_State\<close> and \<open>Eligibility\<close>: a skill is taken
    as already loaded only on the evidence of a successful load after the last compaction of the branch.
  \<^item> \<open>Eligibility\<close> models \<open>eligibility.rs\<close>. Shown: the staged loops compute the per-skill rules exactly, a skill is
    suppressed as loaded exactly when a record proves it.
  \<^item> \<open>F64\<close>: IEEE binary64 values with exact rounding, the arithmetic the sources use on them, and the bounds
    the proofs need (rounding never crosses a representable value). \<open>Codec\<close> models \<open>jev/codec.rs\<close> and
    \<open>jev/cloudflare_codec.rs\<close>: requests, both wire encodings, the reader that refuses repeated keys, the validation of
    answers. Shown: an answer is accepted exactly when it fits the request, the bytes sent are the request and nothing
    else, a stored answer read field by field decodes to itself, option names carry no meaning.
  \<^item> \<open>Scoring\<close> models \<open>scoring.rs\<close>. Shown: scores lie between zero and one, the ranking is the top K of one
    order, and the order in which the caller lists the candidates does not matter.
  \<^item> \<open>Disclosure\<close> models \<open>privacy/mod.rs\<close>, \<open>privacy/profile.rs\<close> and \<open>privacy/receipt.rs\<close>: effect
    flags, network consent, context profiles with the fields they disclose, configured roots, and the verification of
    a receipt against a payload. Shown: nothing is sent and no store is touched without permission, a configured root
    stays inside the workspace, a project profile never widens that of the user, verification accepts exactly
    the receipts that agree with the payload.
  \<^item> \<open>Task_Anchor\<close> models the envelope of \<open>context/mod.rs\<close>, \<open>context/anchor/history.rs\<close>,
    \<open>context/anchor.rs\<close> and the parsers of \<open>context/signals.rs\<close>. Shown: directives are collected and conflicts
    reported exactly, the text of the anchor has the source the rules name, events of other agents have no authority,
    the UTF-8 encoder and decoder are inverse.
  \<^item> \<open>Context_Render\<close> models \<open>context/render.rs\<close> with its three submodules: the session state, the messages
    and labels, the redacted payload and its receipt. Shown: the payload stays within its limits and has passed the
    inspection, exclusions are disclosed whole or the request is refused, the receipt agrees with the payload, no text
    of another agent is rendered.
  \<^item> \<open>Wide\<close> models \<open>jev/wide.rs\<close>, \<open>Rerank\<close> models \<open>jev/rerank.rs\<close>: the two requests, how they are
    trimmed to the byte limit, and how an answer becomes scores and a shortlist. Shown: requests offer every
    admitted candidate, trimming takes the first attempt that fits, every answer that decodes is evaluated, the
    shortlist holds the best of the offered.
  \<^item> \<open>Priors\<close> models the usefulness priors of \<open>learning.rs\<close>. Shown: a snapshot counts exactly the evidence
    it may use, it reads back from storage, an adjustment is bounded.
  \<^item> \<open>Ranking\<close> models the steps of \<open>rank_once\<close> in \<open>pipeline.rs\<close> from the wide answer to the
    ranking. Shown: two answers that decode lead to sound advice.
  \<^item> \<open>Fingerprint\<close> models \<open>cache/fingerprint.rs\<close>: the byte streams of requests, decisions and deliveries, proved
    unambiguous with the locale \<open>prefix_code\<close>, which every codec of a field and of a record interprets.
    \<open>Response_Cache\<close> models \<open>cache/response.rs\<close>: freshness, the in-memory cache, the coherence of the two stages.
    Shown: a lookup answers from the last response stored under the same key, and serves it for ten minutes at most.
  \<^item> \<open>Snooze\<close> models \<open>snooze.rs\<close>: scopes, the file of snoozes with its decoder and canonical text, the controls
    of a scope, plans and their application. Shown: a plan acts on the map from targets to muted intervals and changes
    nothing else, an application publishes the whole new file or nothing; an accepted plan can exceed the bound of the file.

  \<^bold>\<open>Interaction.\<close> \<open>Retry\<close> drives \<open>Admission\<close>, whose deadlines are those of \<open>Resource_Limits\<close>.
  The caller authorizes each round through the breaker and the allowance; to the loop this is the
  answer of an authorization callback. \<open>Coordination\<close> decides which process sends at all.
  \<open>Eligibility\<close> runs before the wide call and after the rerank. \<open>Context_Render\<close> renders what
  \<open>Task_Anchor\<close>, \<open>Tool_Evidence\<close> and \<open>Redaction\<close> leave of the transcript, within the profile of
  \<open>Disclosure\<close>; \<open>Wide\<close> and \<open>Rerank\<close> put it into the requests that \<open>Codec\<close> encodes.

  \<^bold>\<open>Effects.\<close> Whatever a component asks of its surroundings is an argument: clock readings, process
  ids, entropy, what SQLite, the file system or the transport answered (\<open>store_env\<close>,
  \<open>coord_env\<close>, \<open>allow_env\<close>, the \<open>turn\<close>s of the send loop). The theorems quantify over
  these arguments, so they hold for every behaviour of the surroundings. Third-party parsers (HTTP
  dates, JSON), the matches of the regular expressions and SHA-256 are function arguments. Histories are lists of operations
  run from an initial state, in any order, as the processes of one machine would interleave their transactions.

  \<^bold>\<open>Bounds.\<close> Loops over data are structural, and the send loop recurses on the
  list of turns. A run that uses up its turns is \<open>None\<close>, and \<open>send_stage_terminates\<close> shows
  that as many turns as attempts are left suffice for a result. The polls of one wait inside a turn are a list that
  ends where the future is dropped, and \<open>wait_until_returns\<close> shows which reading ends a wait. Two loops of \<open>Lineage\<close> carry fuel: the trace, for
  which two rounds more than there are events always suffice, because a repeated event ends it, and the worklist of
  \<open>batch\<close>, which has no bound in the source: \<open>resolution_returns\<close> shows that one step per event suffices
  without cycles and that more change nothing, \<open>cyclic_transcript_does_not_return\<close> that no fuel suffices with one.
  Counters of width \<open>w\<close> are natural numbers with saturation or wrap-around at \<open>2 ^ w\<close> written
  out in each operation.

  \<^bold>\<open>Not modelled.\<close> Command line, renderers, configuration and installation (text and records without
  state), SQL storage and the file system (their answers are arguments), transcript and frontmatter
  parsing (through library parsers), hashing, and the offline evaluation statistics, which are
  computations in rounded \<open>f64\<close> arithmetic. The fitting of policies in the rest of \<open>learning.rs\<close> is offline statistics.
  \<open>Ranking\<close> leaves out the ledger rows, traces and documents that \<open>pipeline.rs\<close> writes beside the ranking.
\<close>

end
